(* ===== verification/Prelude.thy ===== *)
theory Prelude
  imports Main "HOL-Library.Word"
begin

text \<open>
  Shared vocabulary of the development: bytes and little-endian numbers, disjoint bit-or as
  addition, and the \<open>codec\<close> interface (an encoder and a decoder of a value at the front of a
  byte string) in which the facts every wire format of the repository relies on are proved once.
\<close>

unbundle bit_operations_syntax

type_synonym byte = "8 word"

type_synonym bytes = "8 word list"

section \<open>Lists\<close>

lemma take_drop_append_exact [simp]:
  "n = length xs \<Longrightarrow> take n (xs @ ys) = xs"
  "n = length xs \<Longrightarrow> drop n (xs @ ys) = ys"
  by simp_all

section \<open>Little-endian numbers\<close>

text \<open>The \<open>n\<close> low-order bytes of a number, least significant first, and back.\<close>

primrec le_bytes :: "nat \<Rightarrow> nat \<Rightarrow> bytes" where
  "le_bytes 0 v = []"
| "le_bytes (Suc n) v = of_nat v # le_bytes n (v div 256)"

primrec le_nat :: "bytes \<Rightarrow> nat" where
  "le_nat [] = 0"
| "le_nat (b # bs) = unat b + 256 * le_nat bs"

lemma le_bytes_numeral [simp]:
  "le_bytes (numeral k) v = of_nat v # le_bytes (pred_numeral k) (v div 256)"
  by (subst numeral_eq_Suc) (rule le_bytes.simps)

lemma length_le_bytes [simp]: "length (le_bytes n v) = n"
  by (induction n arbitrary: v) simp_all

lemma unat_of_nat_byte [simp]: "unat (of_nat v :: 8 word) = v mod 256"
  by (simp add: unat_of_nat)

lemma unat_byte_less [simp]: "unat (b :: 8 word) < 256"
  using unsigned_less [of b, where ?'a = nat] by simp

lemma le_nat_le_bytes: "le_nat (le_bytes n v) = v mod 256 ^ n"
proof (induction n arbitrary: v)
  case 0
  show ?case by simp
next
  case (Suc n)
  have "v mod (256 * 256 ^ n) = 256 * (v div 256 mod 256 ^ n) + v mod 256"
    by (rule mod_mult2_eq)
  with Suc show ?case by simp
qed

lemma le_nat_bound: "le_nat bs < 256 ^ length bs"
proof (induction bs)
  case Nil
  show ?case by simp
next
  case (Cons b bs)
  have "unat b < 256" by (rule unat_byte_less)
  moreover from Cons have "le_nat bs + 1 \<le> 256 ^ length bs" by simp
  then have "256 * le_nat bs + 256 \<le> 256 * 256 ^ length bs" by linarith
  ultimately have "unat b + 256 * le_nat bs < 256 * 256 ^ length bs" by linarith
  then show ?case by simp
qed

lemma le_bytes_le_nat: "length bs = n \<Longrightarrow> le_bytes n (le_nat bs) = bs"
proof (induction bs arbitrary: n)
  case Nil
  then show ?case by simp
next
  case (Cons b bs)
  have b: "unat b < 256" by (rule unat_byte_less)
  have "unat (of_nat (unat b + 256 * le_nat bs) :: 8 word) = unat b"
    using b by (simp only: unat_of_nat_byte) simp
  then have "(of_nat (unat b + 256 * le_nat bs) :: 8 word) = b"
    by (simp only: word_unat_eq_iff)
  moreover have "(unat b + 256 * le_nat bs) div 256 = le_nat bs"
    using b by simp
  ultimately show ?case using Cons by auto
qed

section \<open>Bit-or of disjoint words is addition\<close>

lemma bit_word_below:
  fixes w :: "'a::len word"
  assumes "unat w < 2 ^ k" and "k \<le> n"
  shows "\<not> bit w n"
proof
  assume "bit w n"
  then have "bit (unat w) n"
    by (metis bit_unsigned_iff bit_imp_le_length bit_imp_possible_bit possible_bit_nat)
  then have "2 ^ n \<le> unat w"
    by (metis bit_iff_odd div_less even_zero not_less)
  moreover have "(2::nat) ^ k \<le> 2 ^ n"
    using assms(2) by simp
  ultimately show False using assms(1) by linarith
qed

lemma or_push_bit_add:
  fixes r x :: "'a::len word"
  assumes "unat r < 2 ^ k"
  shows "r OR push_bit k x = r + push_bit k x"
proof (rule disjunctive_add_eq_or [symmetric])
  show "r AND push_bit k x = 0"
  proof (rule bit_eqI)
    fix n assume "possible_bit TYPE('a word) n"
    show "bit (r AND push_bit k x) n = bit (0 :: 'a word) n"
    proof (cases "k \<le> n")
      case True
      with assms have "\<not> bit r n" by (rule bit_word_below)
      then show ?thesis by (simp add: bit_and_iff)
    next
      case False
      then show ?thesis by (simp add: bit_and_iff bit_push_bit_iff)
    qed
  qed
qed

lemma unat_push_bit:
  fixes x :: "'a::len word"
  shows "unat (push_bit k x) = (unat x * 2 ^ k) mod 2 ^ LENGTH('a)"
proof -
  have "unat (push_bit k x) = take_bit LENGTH('a) (push_bit k (unat x))"
    by (rule unsigned_push_bit_eq)
  then show ?thesis by (simp only: push_bit_eq_mult take_bit_eq_mod)
qed

lemma unat_or_push_bit:
  fixes r x :: "'a::len word"
  assumes "unat r < 2 ^ k"
  shows "unat (r OR push_bit k x) = (unat r + unat x * 2 ^ k) mod 2 ^ LENGTH('a)"
  by (simp add: or_push_bit_add [OF assms] unat_word_ariths unat_push_bit mod_add_right_eq)

lemma unat_drop_bit:
  fixes w :: "'a::len word"
  shows "unat (drop_bit n w) = unat w div 2 ^ n"
proof -
  have "unat (drop_bit n w) = drop_bit n (unat w)"
    by (rule unat_drop_bit_eq)
  then show ?thesis by (simp only: drop_bit_eq_div)
qed

section \<open>Seven-bit groups\<close>

lemma nat_and_127: "(n::nat) AND 127 = n mod 128"
proof -
  have "n AND mask 7 = n mod 2 ^ 7"
    by (simp only: take_bit_eq_mask [symmetric] take_bit_eq_mod)
  then show ?thesis by (simp add: mask_eq_exp_minus_1)
qed

lemma mod_256_split: "(n::nat) mod 256 = 128 * (n div 128 mod 2) + n mod 128"
  using mod_mult2_eq [of n 128 2] by simp

lemma nat_bit_7: "bit (n::nat) 7 = (128 \<le> n mod 256)"
proof -
  have "bit n 7 = odd (n div 128)"
    by (simp add: bit_iff_odd)
  also have "\<dots> = (128 \<le> n mod 256)"
    using mod_less_divisor [of 128 n] by (simp add: mod_256_split mod2_eq_if not_le)
  finally show ?thesis .
qed

lemma nat_and_128_eq_0: "((n::nat) AND 128 = 0) = (n mod 256 < 128)"
proof -
  have "(n AND push_bit 7 1 = 0) = (\<not> bit n 7)"
    by (simp only: bit_iff_and_push_bit_not_eq_0 not_not)
  moreover have "push_bit 7 1 = (128::nat)"
    by (simp add: push_bit_eq_mult)
  ultimately show ?thesis by (simp only: nat_bit_7 not_le)
qed

lemma nat_or_128: "((n::nat) OR 128) mod 256 = n mod 128 + 128"
proof -
  have "n OR 128 = set_bit 7 n"
    by (simp add: set_bit_eq_or push_bit_eq_mult)
  also have "\<dots> = n + of_bool (\<not> bit n 7) * 128"
    by (simp add: set_bit_eq)
  also have "\<dots> = (if 128 \<le> n mod 256 then n else n + 128)"
    by (simp only: nat_bit_7) simp
  finally have "n OR 128 = (if 128 \<le> n mod 256 then n else n + 128)" .
  moreover have "(n + 128) mod 256 = n mod 256 + 128" if "n mod 256 < 128"
    using that by (simp add: mod_add_eq [symmetric, of n 128])
  ultimately show ?thesis
    by (auto simp: mod_256_split split: if_splits)
qed

text \<open>The same facts for words narrowed to a byte.\<close>

lemma unat_ucast_byte: "unat (ucast (w :: 'a::len word) :: 8 word) = unat w mod 256"
  by (simp add: unsigned_ucast_eq take_bit_eq_mod)

lemma unat_byte_and_127: "unat (b AND 127 :: 8 word) = unat b mod 128"
  by (simp add: unsigned_and_eq nat_and_127)

lemma byte_and_128_eq_0: "((b :: 8 word) AND 128 = 0) = (unat b < 128)"
proof -
  have "(b AND 128 = 0) = (unat (b AND 128) = 0)"
    by (simp only: unat_eq_zero)
  also have "\<dots> = (unat b AND 128 = 0)"
    by (simp add: unsigned_and_eq)
  finally show ?thesis by (simp add: nat_and_128_eq_0)
qed

text \<open>Or-ing one more byte on top of a word whose bits stop below it.\<close>

lemma or_byte_add:
  fixes r :: "'a::len word"
  assumes "unat r < 2 ^ k"
  shows "r OR push_bit k (ucast (b :: 8 word)) = r + of_nat (unat b * 2 ^ k)"
  by (simp only: or_push_bit_add [OF assms]) (simp add: push_bit_eq_mult of_nat_unat)

lemma or_byte_bound:
  fixes r :: "'a::len word"
  assumes "unat r < 2 ^ k"
  shows "unat (r OR push_bit k (ucast (b :: 8 word))) < 2 ^ (k + 8)"
proof -
  have "unat b mod 2 ^ LENGTH('a) \<le> unat b"
    by (rule mod_less_eq_dividend)
  then have "unat (ucast b :: 'a word) \<le> unat b"
    by (simp add: unsigned_ucast_eq take_bit_eq_mod)
  moreover have "unat b \<le> 255" using unat_byte_less [of b] by linarith
  ultimately have "unat (ucast b :: 'a word) * 2 ^ k \<le> 255 * 2 ^ k" by simp
  with assms have "unat r + unat (ucast b :: 'a word) * 2 ^ k < 256 * 2 ^ k"
    by linarith
  then have "unat r + unat (ucast b :: 'a word) * 2 ^ k < 2 ^ (k + 8)"
    by (simp add: power_add)
  then show ?thesis
    unfolding unat_or_push_bit [OF assms] by (meson le_less_trans mod_less_eq_dividend)
qed

primrec or_bytes :: "'a::len word \<Rightarrow> nat \<Rightarrow> bytes \<Rightarrow> 'a word" where
  "or_bytes r k [] = r"
| "or_bytes r k (b # bs) = or_bytes (r OR push_bit k (ucast b)) (k + 8) bs"

lemma or_bytes_eq: "unat r < 2 ^ k \<Longrightarrow> or_bytes r k bs = r + of_nat (le_nat bs * 2 ^ k)"
proof (induction bs arbitrary: r k)
  case Nil
  show ?case by simp
next
  case (Cons b bs)
  let ?r = "r OR push_bit k (ucast b)"
  have "or_bytes ?r (k + 8) bs = ?r + of_nat (le_nat bs * 2 ^ (k + 8))"
    using Cons.prems by (intro Cons.IH or_byte_bound)
  then show ?case
    using or_byte_add [OF Cons.prems, of b] by (simp add: power_add algebra_simps)
qed

lemma or_bytes_0: "or_bytes 0 0 bs = of_nat (le_nat bs)"
  using or_bytes_eq [of 0 0 bs] by simp

lemma byte_of_word: "(ucast (drop_bit k w AND 0xFF) :: 8 word) = of_nat (unat (w :: 'a::len word) div 2 ^ k)"
proof -
  have mask: "(0xFF :: 'a word) = mask 8"
    by (simp add: mask_eq_exp_minus_1)
  have "(ucast (drop_bit k w AND 0xFF) :: 8 word) = ucast (drop_bit k w)"
    unfolding mask by (rule bit_eqI) (auto simp: bit_simps dest: bit_imp_le_length)
  then have "unat (ucast (drop_bit k w AND 0xFF) :: 8 word) = unat w div 2 ^ k mod 256"
    by (simp only: unat_ucast_byte unat_drop_bit)
  then show ?thesis
    by (simp only: word_unat_eq_iff unat_of_nat_byte)
qed

lemma or_varint_group:
  fixes r :: "'a::len word"
  assumes "unat r < 2 ^ k"
  shows "r OR push_bit k (ucast (b AND 127 :: 8 word)) = r + of_nat (unat b mod 128) * 2 ^ k"
proof -
  have "(ucast (b AND 127) :: 'a word) = of_nat (unat b mod 128)"
    by (simp only: unat_byte_and_127 [symmetric] of_nat_unat)
  then show ?thesis
    using or_push_bit_add [OF assms, of "ucast (b AND 127)"] by (simp add: push_bit_eq_mult)
qed

lemma varint_group_bound:
  fixes r :: "'a::len word"
  assumes "unat r < 2 ^ k"
  shows "unat (r OR push_bit k (ucast (b AND 127 :: 8 word))) < 2 ^ (k + 7)"
proof -
  have "unat b mod 128 \<le> 127"
    using mod_less_divisor [of 128 "unat b"] by linarith
  then have "unat b mod 128 mod 2 ^ LENGTH('a) \<le> 127"
    by (rule order_trans [OF mod_less_eq_dividend])
  then have "unat (ucast (b AND 127) :: 'a word) \<le> 127"
    by (simp add: unsigned_ucast_eq unat_byte_and_127 take_bit_eq_mod)
  then have "unat (ucast (b AND 127) :: 'a word) * 2 ^ k \<le> 127 * 2 ^ k" by simp
  with assms have "unat r + unat (ucast (b AND 127) :: 'a word) * 2 ^ k < 128 * 2 ^ k"
    by linarith
  then have "unat r + unat (ucast (b AND 127) :: 'a word) * 2 ^ k < 2 ^ (k + 7)"
    by (simp add: power_add)
  then show ?thesis
    unfolding unat_or_push_bit [OF assms] by (meson le_less_trans mod_less_eq_dividend)
qed

text \<open>The bytes of a number by shifting, low byte first.\<close>

lemma shifted_bytes_32:
  "[ucast (v AND 0xFF), ucast (drop_bit 8 v AND 0xFF), ucast (drop_bit 16 v AND 0xFF),
    ucast (drop_bit 24 v AND 0xFF)] = le_bytes 4 (unat (v :: 'a::len word))"
  using byte_of_word [of 0 v] byte_of_word [of 8 v] byte_of_word [of 16 v] byte_of_word [of 24 v]
  by (simp add: div_mult2_eq [symmetric])

lemma shifted_bytes_64:
  "[ucast (v AND 0xFF), ucast (drop_bit 8 v AND 0xFF), ucast (drop_bit 16 v AND 0xFF),
    ucast (drop_bit 24 v AND 0xFF), ucast (drop_bit 32 v AND 0xFF), ucast (drop_bit 40 v AND 0xFF),
    ucast (drop_bit 48 v AND 0xFF), ucast (drop_bit 56 v AND 0xFF)] = le_bytes 8 (unat (v :: 'a::len word))"
  using byte_of_word [of 0 v] byte_of_word [of 8 v] byte_of_word [of 16 v] byte_of_word [of 24 v]
    byte_of_word [of 32 v] byte_of_word [of 40 v] byte_of_word [of 48 v] byte_of_word [of 56 v]
  by (simp add: div_mult2_eq [symmetric])

section \<open>The base-128 wire format\<close>

text \<open>
  The reference definition of a varint: seven bits per byte, least significant group first, the
  top bit of a byte set when more bytes follow. \<open>varint_parse k\<close> reads one of at most \<open>k\<close>
  bytes. Every encoder and decoder of the repository is compared with these two.
\<close>

fun varint_bytes :: "nat \<Rightarrow> bytes" where
  "varint_bytes n =
     (if n < 128 then [of_nat n] else of_nat (n mod 128 + 128) # varint_bytes (n div 128))"

declare varint_bytes.simps [simp del]

fun varint_parse :: "nat \<Rightarrow> bytes \<Rightarrow> (nat \<times> bytes) option" where
  "varint_parse 0 bs = None"
| "varint_parse (Suc k) [] = None"
| "varint_parse (Suc k) (b # bs) =
     (if unat b < 128 then Some (unat b, bs)
      else map_option (\<lambda>(v, rest). (unat b mod 128 + 128 * v, rest)) (varint_parse k bs))"

lemma varint_bytes_small: "n < 128 \<Longrightarrow> varint_bytes n = [of_nat n]"
  by (subst varint_bytes.simps) simp

lemma varint_bytes_big:
  "128 \<le> n \<Longrightarrow> varint_bytes n = of_nat (n mod 128 + 128) # varint_bytes (n div 128)"
  by (subst varint_bytes.simps) simp

lemma varint_bytes_nonempty [simp]: "varint_bytes n \<noteq> []"
  by (subst varint_bytes.simps) simp

lemma varint_parse_bytes:
  "n < 128 ^ k \<Longrightarrow> 0 < k \<Longrightarrow> varint_parse k (varint_bytes n @ rest) = Some (n, rest)"
proof (induction k arbitrary: n)
  case 0
  then show ?case by simp
next
  case (Suc k)
  show ?case
  proof (cases "n < 128")
    case True
    then show ?thesis by (simp add: varint_bytes_small)
  next
    case False
    with Suc.prems have "0 < k" by (cases k) simp_all
    moreover from Suc.prems have "n div 128 < 128 ^ k"
      by (simp add: less_mult_imp_div_less mult.commute)
    ultimately have "varint_parse k (varint_bytes (n div 128) @ rest) = Some (n div 128, rest)"
      by (rule Suc.IH [rotated])
    moreover have "n mod 128 < 128" by simp
    then have "unat (of_nat (n mod 128 + 128) :: 8 word) = n mod 128 + 128"
      by (simp only: unat_of_nat_byte) simp
    ultimately show ?thesis
      using False by (simp add: varint_bytes_big)
  qed
qed

lemma length_varint_bytes: "n < 128 ^ k \<Longrightarrow> 0 < k \<Longrightarrow> length (varint_bytes n) \<le> k"
proof (induction k arbitrary: n)
  case 0
  then show ?case by simp
next
  case (Suc k)
  show ?case
  proof (cases "n < 128")
    case True
    then show ?thesis by (simp add: varint_bytes_small)
  next
    case False
    with Suc.prems have "0 < k" by (cases k) simp_all
    moreover from Suc.prems have "n div 128 < 128 ^ k"
      by (simp add: less_mult_imp_div_less mult.commute)
    ultimately have "length (varint_bytes (n div 128)) \<le> k"
      by (rule Suc.IH [rotated])
    then show ?thesis using False by (simp add: varint_bytes_big)
  qed
qed

lemma varint_parse_consumes:
  "varint_parse k bs = Some (v, rest) \<Longrightarrow> length rest < length bs"
  by (induction k bs arbitrary: v rule: varint_parse.induct) (fastforce split: if_splits)+

lemma varint_parse_bound: "varint_parse k bs = Some (v, rest) \<Longrightarrow> v < 128 ^ k"
proof (induction k bs arbitrary: v rule: varint_parse.induct)
  case (3 k b bs)
  show ?case
  proof (cases "unat b < 128")
    case True
    moreover have "(1::nat) \<le> 128 ^ k" by simp
    then have "(128::nat) \<le> 128 * 128 ^ k" by linarith
    ultimately have "unat b < 128 ^ Suc k" by (simp only: power_Suc)
    with True "3.prems" show ?thesis by simp
  next
    case False
    with "3.prems" obtain w where w: "varint_parse k bs = Some (w, rest)"
      and v: "v = unat b mod 128 + 128 * w" by auto
    from w False have "w < 128 ^ k" by (rule "3.IH" [rotated])
    then have "128 * w + 128 \<le> 128 * 128 ^ k" by simp
    moreover have "unat b mod 128 < 128" by simp
    ultimately show ?thesis unfolding v power_Suc by linarith
  qed
qed simp_all

section \<open>The codec interface\<close>

text \<open>
  What a client of a wire format relies on: decoding what was encoded gives it back and leaves
  exactly what followed it, for the values the encoder accepts.
\<close>

primrec decode_many :: "(bytes \<Rightarrow> ('a \<times> bytes) option) \<Rightarrow> nat \<Rightarrow> bytes \<Rightarrow> ('a list \<times> bytes) option" where
  "decode_many dec 0 bs = Some ([], bs)"
| "decode_many dec (Suc n) bs =
     (case dec bs of
        None \<Rightarrow> None
      | Some (x, rest) \<Rightarrow> map_option (\<lambda>(xs, rest'). (x # xs, rest')) (decode_many dec n rest))"

locale codec =
  fixes enc :: "'a \<Rightarrow> bytes"
    and dec :: "bytes \<Rightarrow> ('a \<times> bytes) option"
    and valid :: "'a \<Rightarrow> bool"
  assumes dec_enc: "valid x \<Longrightarrow> dec (enc x @ rest) = Some (x, rest)"
begin

lemma enc_unique:
  assumes "valid x" and "valid y" and "enc x @ r = enc y @ s"
  shows "x = y \<and> r = s"
proof -
  have "dec (enc x @ r) = Some (x, r)" using assms(1) by (rule dec_enc)
  moreover have "dec (enc x @ r) = Some (y, s)"
    unfolding assms(3) using assms(2) by (rule dec_enc)
  ultimately show ?thesis by simp
qed

lemma enc_prefix_free: "valid x \<Longrightarrow> valid y \<Longrightarrow> enc x = enc y @ s \<Longrightarrow> x = y \<and> s = []"
  using enc_unique [of x y "[]" s] by (simp only: append_Nil2)

lemma decode_many_concat:
  "list_all valid xs \<Longrightarrow>
    decode_many dec (length xs) (concat (map enc xs) @ rest) = Some (xs, rest)"
  by (induction xs) (simp_all add: dec_enc)

lemma concat_enc_inj:
  assumes "list_all valid xs" and "list_all valid ys" and "length xs = length ys"
    and "concat (map enc xs) @ r = concat (map enc ys) @ s"
  shows "xs = ys \<and> r = s"
proof -
  have "decode_many dec (length xs) (concat (map enc xs) @ r) = Some (xs, r)"
    using assms(1) by (rule decode_many_concat)
  moreover have "decode_many dec (length xs) (concat (map enc xs) @ r) = Some (ys, s)"
    unfolding assms(3,4) using assms(2) by (rule decode_many_concat)
  ultimately show ?thesis by simp
qed

end

interpretation varint32: codec varint_bytes "varint_parse 5" "\<lambda>n. n < 2 ^ 32"
proof
  fix x :: nat and rest
  assume "x < 2 ^ 32"
  also have "(2::nat) ^ 32 \<le> 128 ^ 5" by simp
  finally show "varint_parse 5 (varint_bytes x @ rest) = Some (x, rest)"
    by (rule varint_parse_bytes) simp
qed

interpretation varint64: codec varint_bytes "varint_parse 10" "\<lambda>n. n < 2 ^ 64"
proof
  fix x :: nat and rest
  assume "x < 2 ^ 64"
  also have "(2::nat) ^ 64 \<le> 128 ^ 10" by simp
  finally show "varint_parse 10 (varint_bytes x @ rest) = Some (x, rest)"
    by (rule varint_parse_bytes) simp
qed

end
