(* ===== verification/CMemory.thy ===== *)
theory CMemory
  imports Prelude
begin

text \<open>
  The C memory that the nanopb functions read and write through pointers: a total map from
  addresses to bytes. Addresses are integers, so pointer arithmetic with the signed
  \<open>size_offset\<close> of a field needs no case distinction; address 0 is the null pointer. Numbers are
  stored little-endian, as on the iOS targets of the repository. Whether an access stays inside
  an object is not part of the memory but of the theorems (the frame properties of the decoder).
\<close>

type_synonym addr = int

type_synonym mem = "int \<Rightarrow> 8 word"

definition mem_read :: "mem \<Rightarrow> addr \<Rightarrow> nat \<Rightarrow> bytes" where
  "mem_read m a n = map (\<lambda>i. m (a + int i)) [0..<n]"

definition mem_write :: "mem \<Rightarrow> addr \<Rightarrow> bytes \<Rightarrow> mem" where
  "mem_write m a bs =
     (\<lambda>x. if a \<le> x \<and> x < a + int (length bs) then bs ! nat (x - a) else m x)"

definition load :: "mem \<Rightarrow> addr \<Rightarrow> nat \<Rightarrow> nat" where
  "load m a n = le_nat (mem_read m a n)"

definition store :: "mem \<Rightarrow> addr \<Rightarrow> nat \<Rightarrow> nat \<Rightarrow> mem" where
  "store m a n v = mem_write m a (le_bytes n v)"

definition mem_set :: "mem \<Rightarrow> addr \<Rightarrow> 8 word \<Rightarrow> nat \<Rightarrow> mem" where
  "mem_set m a b n = mem_write m a (replicate n b)"

text \<open>A pointer stored in memory is eight bytes wide (\<open>sizeof(void*)\<close> of a 64-bit target).\<close>

abbreviation (input) sizeof_ptr :: nat where
  "sizeof_ptr \<equiv> 8"

definition load_ptr :: "mem \<Rightarrow> addr \<Rightarrow> addr" where
  "load_ptr m a = int (load m a sizeof_ptr)"

section \<open>Read over write\<close>

lemma length_mem_read [simp]: "length (mem_read m a n) = n"
  by (simp add: mem_read_def)

lemma mem_write_Nil [simp]: "mem_write m a [] = m"
  by (auto simp: mem_write_def fun_eq_iff)

lemma mem_write_outside: "x < a \<or> a + int (length bs) \<le> x \<Longrightarrow> mem_write m a bs x = m x"
  by (auto simp: mem_write_def)

lemma mem_read_write_same [simp]: "n = length bs \<Longrightarrow> mem_read (mem_write m a bs) a n = bs"
  by (rule nth_equalityI) (auto simp: mem_read_def mem_write_def)

lemma mem_read_cong:
  "(\<And>x. a \<le> x \<Longrightarrow> x < a + int n \<Longrightarrow> m x = m' x) \<Longrightarrow> mem_read m a n = mem_read m' a n"
  by (auto simp: mem_read_def)

lemma mem_read_write_disjoint:
  "a + int n \<le> b \<or> b + int (length bs) \<le> a \<Longrightarrow> mem_read (mem_write m b bs) a n = mem_read m a n"
  by (rule mem_read_cong) (auto simp: mem_write_def)

lemma mem_read_append: "mem_read m a (k + n) = mem_read m a k @ mem_read m (a + int k) n"
proof (rule nth_equalityI)
  fix i assume "i < length (mem_read m a (k + n))"
  then have "i < k + n" by simp
  then show "mem_read m a (k + n) ! i = (mem_read m a k @ mem_read m (a + int k) n) ! i"
    by (auto simp: mem_read_def nth_append nth_upt less_diff_conv2)
qed simp

lemma load_store [simp]: "load (store m a n v) a n = v mod 256 ^ n"
  by (simp add: load_def store_def le_nat_le_bytes)

lemma load_bound: "load m a n < 256 ^ n"
  using le_nat_bound [of "mem_read m a n"] by (simp add: load_def)

section \<open>Frames\<close>

text \<open>
  \<open>changed_only A m m'\<close>: the step from \<open>m\<close> to \<open>m'\<close> wrote no byte outside the set \<open>A\<close> of
  addresses. \<open>span a n\<close> is the set of the \<open>n\<close> addresses from \<open>a\<close> on.
\<close>

definition changed_only :: "addr set \<Rightarrow> mem \<Rightarrow> mem \<Rightarrow> bool" where
  "changed_only A m m' \<longleftrightarrow> (\<forall>x. x \<notin> A \<longrightarrow> m' x = m x)"

definition span :: "addr \<Rightarrow> nat \<Rightarrow> addr set" where
  "span a n = {a..<a + int n}"

lemma span_subset: "lo \<le> a \<Longrightarrow> a + int n \<le> lo + int k \<Longrightarrow> span a n \<subseteq> span lo k"
  by (auto simp: span_def)

lemma changed_only_refl [simp]: "changed_only A m m"
  by (simp add: changed_only_def)

lemma changed_only_trans [trans]:
  "changed_only A m m' \<Longrightarrow> changed_only A m' m'' \<Longrightarrow> changed_only A m m''"
  by (simp add: changed_only_def)

lemma changed_only_mono: "changed_only A m m' \<Longrightarrow> A \<subseteq> B \<Longrightarrow> changed_only B m m'"
  by (auto simp: changed_only_def)

lemma changed_only_write:
  "span a (length bs) \<subseteq> A \<Longrightarrow> changed_only A m (mem_write m a bs)"
  by (auto simp: changed_only_def mem_write_def span_def subset_iff)

lemma changed_only_store: "span a n \<subseteq> A \<Longrightarrow> changed_only A m (store m a n v)"
  by (simp add: store_def changed_only_write)

lemma changed_only_set: "span a n \<subseteq> A \<Longrightarrow> changed_only A m (mem_set m a b n)"
  by (simp add: mem_set_def changed_only_write)

lemma changed_only_read:
  "changed_only A m m' \<Longrightarrow> span a n \<inter> A = {} \<Longrightarrow> mem_read m' a n = mem_read m a n"
  by (rule mem_read_cong) (auto simp: changed_only_def span_def)

end
