(* ===== verification/PbTypes.thy ===== *)
theory PbTypes
  imports CMemory
begin

text \<open>
  nanopb, \<^verbatim>\<open>pb.h\<close> and \<^verbatim>\<open>pb_common.h\<close>: the field descriptors the generated code
  declares, the bits of a descriptor's type byte, wire types, and the structures that live in
  message memory (callbacks, extensions, byte arrays). The build of the repository sets
  PB_FIELD_32BIT and PB_NO_PACKED_STRUCTS and does not set PB_ENABLE_MALLOC, so \<open>pb_size_t\<close> is
  a 32-bit number and pointer fields cannot be decoded.
\<close>

section \<open>The type byte of a field\<close>

abbreviation (input) "PB_LTYPE_VARINT \<equiv> (0x00 :: 8 word)"
abbreviation (input) "PB_LTYPE_UVARINT \<equiv> (0x01 :: 8 word)"
abbreviation (input) "PB_LTYPE_SVARINT \<equiv> (0x02 :: 8 word)"
abbreviation (input) "PB_LTYPE_FIXED32 \<equiv> (0x03 :: 8 word)"
abbreviation (input) "PB_LTYPE_FIXED64 \<equiv> (0x04 :: 8 word)"
abbreviation (input) "PB_LTYPE_LAST_PACKABLE \<equiv> (0x04 :: 8 word)"
abbreviation (input) "PB_LTYPE_BYTES \<equiv> (0x05 :: 8 word)"
abbreviation (input) "PB_LTYPE_STRING \<equiv> (0x06 :: 8 word)"
abbreviation (input) "PB_LTYPE_SUBMESSAGE \<equiv> (0x07 :: 8 word)"
abbreviation (input) "PB_LTYPE_EXTENSION \<equiv> (0x08 :: 8 word)"
abbreviation (input) "PB_LTYPE_FIXED_LENGTH_BYTES \<equiv> (0x09 :: 8 word)"

abbreviation (input) "PB_HTYPE_REQUIRED \<equiv> (0x00 :: 8 word)"
abbreviation (input) "PB_HTYPE_OPTIONAL \<equiv> (0x10 :: 8 word)"
abbreviation (input) "PB_HTYPE_REPEATED \<equiv> (0x20 :: 8 word)"
abbreviation (input) "PB_HTYPE_ONEOF \<equiv> (0x30 :: 8 word)"

abbreviation (input) "PB_ATYPE_STATIC \<equiv> (0x00 :: 8 word)"
abbreviation (input) "PB_ATYPE_CALLBACK \<equiv> (0x40 :: 8 word)"
abbreviation (input) "PB_ATYPE_POINTER \<equiv> (0x80 :: 8 word)"

definition PB_LTYPE :: "8 word \<Rightarrow> 8 word" where
  "PB_LTYPE x = x AND 0x0F"

definition PB_HTYPE :: "8 word \<Rightarrow> 8 word" where
  "PB_HTYPE x = x AND 0x30"

definition PB_ATYPE :: "8 word \<Rightarrow> 8 word" where
  "PB_ATYPE x = x AND 0xC0"

text \<open>\<open>PB_SIZE_MAX\<close>: the largest \<open>pb_size_t\<close>, which also marks the later members of a union.\<close>

definition PB_SIZE_MAX :: nat where
  "PB_SIZE_MAX = 2 ^ 32 - 1"

section \<open>Field descriptors\<close>

text \<open>
  A descriptor array is the list of its entries before the terminator. The untyped pointer
  \<open>ptr\<close> is null, the array of a submessage's descriptors, or the bytes of a default value.
\<close>

datatype pb_field =
  PbField (tag: nat) (type: "8 word") (data_offset: nat) (size_offset: int)
          (data_size: nat) (array_size: nat) (ptr: pb_ptr)
and pb_ptr =
  NullPtr
| Fields "pb_field list"
| Default bytes

text \<open>The terminator that ends every descriptor array (\<open>PB_LAST_FIELD\<close>).\<close>

definition PB_LAST_FIELD :: pb_field where
  "PB_LAST_FIELD = PbField 0 0 0 0 0 0 NullPtr"

definition field_at :: "pb_field list \<Rightarrow> nat \<Rightarrow> pb_field" where
  "field_at fields i = (if i < length fields then fields ! i else PB_LAST_FIELD)"

fun submsg_fields :: "pb_ptr \<Rightarrow> pb_field list" where
  "submsg_fields (Fields fs) = fs"
| "submsg_fields _ = []"

fun default_bytes :: "pb_ptr \<Rightarrow> bytes" where
  "default_bytes (Default bs) = bs"
| "default_bytes _ = []"

abbreviation "ltype f \<equiv> PB_LTYPE (type f)"
abbreviation "htype f \<equiv> PB_HTYPE (type f)"
abbreviation "atype f \<equiv> PB_ATYPE (type f)"

section \<open>Wire types\<close>

text \<open>The wire type is the low three bits of a tag; the code stores any of the eight values.\<close>

abbreviation (input) "PB_WT_VARINT \<equiv> (0 :: nat)"
abbreviation (input) "PB_WT_64BIT \<equiv> (1 :: nat)"
abbreviation (input) "PB_WT_STRING \<equiv> (2 :: nat)"
abbreviation (input) "PB_WT_32BIT \<equiv> (5 :: nat)"

section \<open>Structures in message memory\<close>

text \<open>
  \<open>pb_callback_t\<close>: the function pointer, then the argument. \<open>pb_extension_t\<close>: the type, the
  destination, the next extension, the found flag. \<open>pb_bytes_array_t\<close>: the size, then the bytes.
\<close>

definition callback_func :: "mem \<Rightarrow> addr \<Rightarrow> addr" where
  "callback_func m a = load_ptr m a"

definition callback_arg :: "addr \<Rightarrow> addr" where
  "callback_arg a = a + 8"

definition ext_type_ptr :: "mem \<Rightarrow> addr \<Rightarrow> addr" where
  "ext_type_ptr m e = load_ptr m e"

definition ext_dest_field :: "addr \<Rightarrow> addr" where
  "ext_dest_field e = e + 8"

definition ext_dest :: "mem \<Rightarrow> addr \<Rightarrow> addr" where
  "ext_dest m e = load_ptr m (ext_dest_field e)"

definition ext_next :: "mem \<Rightarrow> addr \<Rightarrow> addr" where
  "ext_next m e = load_ptr m (e + 16)"

definition ext_found :: "addr \<Rightarrow> addr" where
  "ext_found e = e + 24"

definition PB_BYTES_ARRAY_T_ALLOCSIZE :: "nat \<Rightarrow> nat" where
  "PB_BYTES_ARRAY_T_ALLOCSIZE n = n + 4"

lemma field_at_beyond [simp]: "length fields \<le> i \<Longrightarrow> tag (field_at fields i) = 0"
  by (simp add: field_at_def PB_LAST_FIELD_def)

lemma field_at_within [simp]: "i < length fields \<Longrightarrow> field_at fields i = fields ! i"
  by (simp add: field_at_def)

text \<open>The two bits of PB_HTYPE have exactly the four values of the code's switch.\<close>

lemma htype_exhaust:
  "htype f = PB_HTYPE_REQUIRED \<or> htype f = PB_HTYPE_OPTIONAL \<or> htype f = PB_HTYPE_REPEATED \<or> htype f = PB_HTYPE_ONEOF"
proof -
  have m: "(0x30 :: 8 word) = push_bit 4 (mask 2)"
    by (simp add: mask_eq_exp_minus_1 push_bit_eq_mult)
  define y where "y = take_bit 2 (drop_bit 4 (type f))"
  have h: "htype f = push_bit 4 y"
    unfolding PB_HTYPE_def m y_def by (rule bit_word_eqI) (auto simp: bit_simps)
  have "unat y < 4"
    unfolding y_def unsigned_take_bit_eq using take_bit_nat_less_exp [of 2] by simp
  then have "y \<in> of_nat ` {..<4}" by (auto intro!: image_eqI [where x = "unat y"])
  then show ?thesis unfolding h by (auto simp: lessThan_nat_numeral push_bit_eq_mult)
qed

text \<open>The field types the dispatch tables have an entry for, and the packable ones.\<close>

lemma packable_cases:
  assumes "lt \<le> PB_LTYPE_LAST_PACKABLE"
  obtains "lt = PB_LTYPE_VARINT" | "lt = PB_LTYPE_UVARINT" | "lt = PB_LTYPE_SVARINT"
    | "lt = PB_LTYPE_FIXED32" | "lt = PB_LTYPE_FIXED64"
proof -
  have "unat lt \<le> 4" using assms by (simp add: word_le_nat_alt)
  then have "unat lt \<in> {0, 1, 2, 3, 4}" by auto
  then have "lt = 0 \<or> lt = 1 \<or> lt = 2 \<or> lt = 3 \<or> lt = 4"
    by (simp add: word_unat_eq_iff)
  then show ?thesis using that by blast
qed

lemma ltype_cases:
  assumes "lt \<le> PB_LTYPE_FIXED_LENGTH_BYTES"
  shows "lt \<in> {0, 1, 2, 3, 4, 5, 6, 7, 8, 9}"
proof -
  have "unat lt \<le> 9" using assms by (simp add: word_le_nat_alt)
  then show ?thesis by (auto simp: word_unat_eq_iff)
qed

end
