(* ===== verification/Outcome.thy ===== *)
theory Outcome
  imports Main
begin

text \<open>
  Results of code that can reach undefined behaviour or that is given fuel: a value, \<open>Undef\<close> for
  an operation whose behaviour C or C++ leaves undefined (a null function pointer called, an index
  past an array, a shift by the width of the word), or \<open>NoFuel\<close> for running out of fuel, which the
  functions that recurse through submessage descriptors and user extensions are given.
\<close>

datatype 'a run = Ret 'a | Undef | NoFuel

definition run_bind :: "'a run \<Rightarrow> ('a \<Rightarrow> 'b run) \<Rightarrow> 'b run" where
  "run_bind r f = (case r of Ret a \<Rightarrow> f a | Undef \<Rightarrow> Undef | NoFuel \<Rightarrow> NoFuel)"

lemma run_bind_simps [simp]:
  "run_bind (Ret a) f = f a"
  "run_bind Undef f = Undef"
  "run_bind NoFuel f = NoFuel"
  by (simp_all add: run_bind_def)

lemma run_bind_Ret_iff: "run_bind r f = Ret b \<longleftrightarrow> (\<exists>a. r = Ret a \<and> f a = Ret b)"
  by (cases r) simp_all

text \<open>A loop over a list whose body may fail.\<close>

primrec run_each :: "('b \<Rightarrow> 'a \<Rightarrow> 'a run) \<Rightarrow> 'b list \<Rightarrow> 'a \<Rightarrow> 'a run" where
  "run_each body [] a = Ret a"
| "run_each body (x # xs) a = run_bind (body x a) (run_each body xs)"

lemma run_each_Nil [simp]: "run_each body [] = Ret"
  by (rule ext) simp

lemma run_each_cong:
  "(\<And>x. x \<in> set xs \<Longrightarrow> body x = body' x) \<Longrightarrow> run_each body xs a = run_each body' xs a"
proof (induction xs arbitrary: a)
  case (Cons x xs)
  then have "run_each body xs = run_each body' xs" by (intro ext) simp
  with Cons.prems show ?case by simp
qed simp

lemma run_each_returns:
  assumes "\<And>x m. x \<in> set xs \<Longrightarrow> \<exists>m'. body x m = Ret m'"
  shows "\<exists>m'. run_each body xs m = Ret m'"
  using assms
proof (induction xs arbitrary: m)
  case (Cons x xs)
  then obtain m1 where "body x m = Ret m1" by fastforce
  with Cons show ?case by simp
qed simp

lemma run_each_append: "run_each f (xs @ ys) a = run_bind (run_each f xs a) (run_each f ys)"
proof (induction xs arbitrary: a)
  case (Cons x xs)
  then show ?case by (cases "f x a") simp_all
qed simp

end
