(* ===== verification/PbCommon.thy ===== *)
theory PbCommon
  imports PbTypes Outcome
begin

text \<open>
  nanopb, \<^verbatim>\<open>pb_common.c\<close>: the iterator that walks a descriptor array and a message structure
  in step. The position is an index into the array (the terminator is at its length). The
  lemmas give the closed form of every iterator the code can hold, that a walk from the first
  field visits the fields in order and then wraps, and that a search stops.
\<close>

record pb_field_iter =
  start :: "pb_field list"
  pos :: nat
  required_field_index :: nat
  dest_struct :: addr
  pData :: addr
  pSize :: addr

abbreviation cur :: "pb_field_iter \<Rightarrow> pb_field" where
  "cur it \<equiv> field_at (start it) (pos it)"

definition pb_field_iter_begin :: "pb_field list \<Rightarrow> addr \<Rightarrow> bool \<times> pb_field_iter" where
  "pb_field_iter_begin fs dest =
     (let f = field_at fs 0;
          data = dest + int (data_offset f)
      in (tag f \<noteq> 0,
          \<lparr>start = fs, pos = 0, required_field_index = 0, dest_struct = dest,
           pData = data, pSize = data + size_offset f\<rparr>))"

definition pb_field_iter_next :: "pb_field_iter \<Rightarrow> bool \<times> pb_field_iter" where
  "pb_field_iter_next it =
     (let prev_field = cur it in
      if tag prev_field = 0 then (False, it)
      else
        let it1 = it\<lparr>pos := Suc (pos it)\<rparr>; f = cur it1 in
        if tag f = 0 then (False, snd (pb_field_iter_begin (start it1) (dest_struct it1)))
        else if htype prev_field = PB_HTYPE_ONEOF \<and> htype f = PB_HTYPE_ONEOF \<and>
                data_offset f = PB_SIZE_MAX
          then (True, it1)
        else
          let prev_size =
                (if atype prev_field = PB_ATYPE_STATIC \<and> htype prev_field = PB_HTYPE_REPEATED
                   then data_size prev_field * array_size prev_field
                 else if atype prev_field = PB_ATYPE_POINTER then sizeof_ptr
                 else data_size prev_field);
              req = (if htype prev_field = PB_HTYPE_REQUIRED
                       then Suc (required_field_index it1) else required_field_index it1);
              data = pData it1 + int prev_size + int (data_offset f)
          in (True, it1\<lparr>required_field_index := req, pData := data,
                         pSize := data + size_offset f\<rparr>))"

text \<open>
  The search loops of the code are do-while loops around the cyclic walk. \<open>Some\<close> is the loop
  having ended by its own test; the number bounds the rounds.
\<close>

fun iter_search :: "(pb_field \<Rightarrow> bool) \<Rightarrow> nat \<Rightarrow> nat \<Rightarrow> pb_field_iter \<Rightarrow> (bool \<times> pb_field_iter) option" where
  "iter_search P start_pos 0 it = None"
| "iter_search P start_pos (Suc k) it =
     (if P (cur it) then Some (True, it)
      else let it' = snd (pb_field_iter_next it) in
           if pos it' \<noteq> start_pos then iter_search P start_pos k it' else Some (False, it'))"

definition pb_field_iter_find :: "pb_field_iter \<Rightarrow> nat \<Rightarrow> (bool \<times> pb_field_iter) option" where
  "pb_field_iter_find it t =
     iter_search (\<lambda>f. tag f = t \<and> ltype f \<noteq> PB_LTYPE_EXTENSION)
       (pos it) (Suc (length (start it))) it"

section \<open>Loops over the fields\<close>

text \<open>The loop \<open>do { ... } while (pb_field_iter_next(&iter))\<close> over the fields of a message.\<close>

lemma iter_next_advances:
  "fst (pb_field_iter_next it) \<Longrightarrow>
     pos (snd (pb_field_iter_next it)) = Suc (pos it) \<and> Suc (pos it) < length (start it)"
proof -
  assume more: "fst (pb_field_iter_next it)"
  then have "tag (field_at (start it) (Suc (pos it))) \<noteq> 0"
    by (auto simp: pb_field_iter_next_def Let_def split: if_splits)
  then have "Suc (pos it) < length (start it)"
    using field_at_beyond [of "start it" "Suc (pos it)"] by (meson not_less)
  with more show ?thesis
    by (auto simp: pb_field_iter_next_def Let_def split: if_splits)
qed

function iter_do :: "(pb_field_iter \<Rightarrow> 'a \<Rightarrow> 'a run) \<Rightarrow> pb_field_iter \<Rightarrow> 'a \<Rightarrow> 'a run" where
  "iter_do body it a =
     run_bind (body it a)
       (\<lambda>a'. if fst (pb_field_iter_next it)
             then iter_do body (snd (pb_field_iter_next it)) a' else Ret a')"
  by pat_completeness auto
termination
proof (relation "measure (\<lambda>(_, it, _). length (start it) - pos it)")
  fix body :: "pb_field_iter \<Rightarrow> 'a \<Rightarrow> 'a run" and it a a'
  assume "fst (pb_field_iter_next it)"
  then have "pos (snd (pb_field_iter_next it)) = Suc (pos it) \<and> Suc (pos it) < length (start it)"
    by (rule iter_next_advances)
  moreover have "start (snd (pb_field_iter_next it)) = start it"
    by (simp add: pb_field_iter_next_def pb_field_iter_begin_def Let_def)
  ultimately show "((body, snd (pb_field_iter_next it), a'), body, it, a)
      \<in> measure (\<lambda>(_, it, _). length (start it) - pos it)"
    by simp linarith
qed simp

declare iter_do.simps [simp del]

section \<open>The walk in closed form\<close>

text \<open>
  \<open>nfields\<close> counts the entries before the first one with tag 0, which ends an array;
  \<open>iter_at fs d i\<close> is the iterator after \<open>i\<close> advances from the first field.
\<close>

definition nfields :: "pb_field list \<Rightarrow> nat" where
  "nfields fs = length (takeWhile (\<lambda>f. tag f \<noteq> 0) fs)"

primrec iter_at :: "pb_field list \<Rightarrow> addr \<Rightarrow> nat \<Rightarrow> pb_field_iter" where
  "iter_at fs d 0 = snd (pb_field_iter_begin fs d)"
| "iter_at fs d (Suc i) = snd (pb_field_iter_next (iter_at fs d i))"

definition valid_iter :: "pb_field list \<Rightarrow> addr \<Rightarrow> pb_field_iter \<Rightarrow> bool" where
  "valid_iter fs d it \<longleftrightarrow>
     it = iter_at fs d (pos it) \<and> (pos it < nfields fs \<or> nfields fs = 0 \<and> pos it = 0)"

lemma nfields_le: "nfields fs \<le> length fs"
  by (simp add: nfields_def length_takeWhile_le)

lemma field_at_tag:
  assumes "i \<le> nfields fs"
  shows "tag (field_at fs i) = 0 \<longleftrightarrow> i = nfields fs"
proof (cases "i < nfields fs")
  case True
  then have "takeWhile (\<lambda>f. tag f \<noteq> 0) fs ! i \<in> set (takeWhile (\<lambda>f. tag f \<noteq> 0) fs)"
    by (auto simp: nfields_def intro: nth_mem)
  moreover have "takeWhile (\<lambda>f. tag f \<noteq> 0) fs ! i = fs ! i"
    using True by (simp add: nfields_def takeWhile_nth)
  ultimately have "tag (fs ! i) \<noteq> 0" by (auto dest: set_takeWhileD)
  with True show ?thesis using nfields_le [of fs] by simp
next
  case False
  with assms have i: "i = nfields fs" by simp
  show ?thesis
  proof (cases "i < length fs")
    case True
    with i have "\<not> tag (fs ! i) \<noteq> 0"
      unfolding nfields_def using nth_length_takeWhile by blast
    with True i show ?thesis by simp
  next
    case False
    with i show ?thesis by simp
  qed
qed

lemma iter_next_start [simp]: "start (snd (pb_field_iter_next it)) = start it"
  by (simp add: pb_field_iter_next_def pb_field_iter_begin_def Let_def)

lemma iter_next_dest [simp]: "dest_struct (snd (pb_field_iter_next it)) = dest_struct it"
  by (simp add: pb_field_iter_next_def pb_field_iter_begin_def Let_def)

lemma iter_at_start [simp]: "start (iter_at fs d i) = fs"
  by (induction i) (simp_all add: pb_field_iter_begin_def Let_def)

lemma iter_at_dest [simp]: "dest_struct (iter_at fs d i) = d"
  by (induction i) (simp_all add: pb_field_iter_begin_def Let_def)

lemma iter_begin_at: "pb_field_iter_begin fs d = (0 < nfields fs, iter_at fs d 0)"
  using field_at_tag [of 0 fs] by (auto simp: pb_field_iter_begin_def Let_def)

lemma iter_next_tag:
  assumes "tag (cur it) \<noteq> 0" and "tag (field_at (start it) (Suc (pos it))) \<noteq> 0"
  shows "fst (pb_field_iter_next it) \<and> pos (snd (pb_field_iter_next it)) = Suc (pos it)"
  using assms by (simp add: pb_field_iter_next_def Let_def)

lemma iter_at_pos: "i < nfields fs \<Longrightarrow> pos (iter_at fs d i) = i"
proof (induction i)
  case 0
  show ?case by (simp add: pb_field_iter_begin_def Let_def)
next
  case (Suc i)
  then have i: "pos (iter_at fs d i) = i" by simp
  moreover have "tag (field_at fs i) \<noteq> 0" and "tag (field_at fs (Suc i)) \<noteq> 0"
    using Suc.prems field_at_tag [of i fs] field_at_tag [of "Suc i" fs] by auto
  ultimately show ?case
    using iter_next_tag [of "iter_at fs d i"] by simp
qed

lemma iter_next_at:
  assumes "i < nfields fs"
  shows "pb_field_iter_next (iter_at fs d i) =
    (if Suc i < nfields fs then (True, iter_at fs d (Suc i)) else (False, iter_at fs d 0))"
proof (cases "Suc i < nfields fs")
  case True
  then have "tag (field_at fs i) \<noteq> 0" and "tag (field_at fs (Suc i)) \<noteq> 0"
    using field_at_tag [of i fs] field_at_tag [of "Suc i" fs] by auto
  with True assms show ?thesis
    using iter_next_tag [of "iter_at fs d i"] by (simp add: iter_at_pos prod_eq_iff)
next
  case False
  with assms have "tag (field_at fs i) \<noteq> 0" and "tag (field_at fs (Suc i)) = 0"
    using field_at_tag [of i fs] field_at_tag [of "Suc i" fs] by auto
  with False assms show ?thesis
    by (simp add: pb_field_iter_next_def iter_at_pos Let_def)
qed

lemma iter_next_empty: "nfields fs = 0 \<Longrightarrow> pb_field_iter_next (iter_at fs d 0) = (False, iter_at fs d 0)"
  using field_at_tag [of 0 fs]
  by (simp add: pb_field_iter_next_def pb_field_iter_begin_def Let_def)

lemma valid_iter_at: "i < nfields fs \<Longrightarrow> valid_iter fs d (iter_at fs d i)"
  by (simp add: valid_iter_def iter_at_pos)

lemma valid_iter_begin: "valid_iter fs d (iter_at fs d 0)"
  by (cases "0 < nfields fs")
    (simp_all add: valid_iter_def iter_at_pos pb_field_iter_begin_def Let_def)

lemma valid_iter_next:
  assumes "valid_iter fs d it"
  shows "valid_iter fs d (snd (pb_field_iter_next it))"
proof (cases "nfields fs = 0")
  case True
  with assms have "it = iter_at fs d 0" by (auto simp: valid_iter_def)
  with True show ?thesis by (simp add: iter_next_empty valid_iter_begin del: iter_at.simps)
next
  case False
  with assms obtain i where "it = iter_at fs d i" and "i < nfields fs"
    by (auto simp: valid_iter_def)
  then show ?thesis
    by (simp add: iter_next_at valid_iter_at valid_iter_begin del: iter_at.simps)
qed

lemma valid_iter_start: "valid_iter fs d it \<Longrightarrow> start it = fs"
  unfolding valid_iter_def by (metis iter_at_start)

lemma valid_iter_cases:
  assumes "valid_iter fs d it"
  obtains (field) i where "i < nfields fs" "it = iter_at fs d i" "cur it = fs ! i"
  | (empty) "nfields fs = 0" "it = iter_at fs d 0"
proof (cases "nfields fs = 0")
  case True
  with assms show ?thesis using empty by (auto simp: valid_iter_def)
next
  case False
  with assms have it: "it = iter_at fs d (pos it)" and lt: "pos it < nfields fs"
    by (auto simp: valid_iter_def)
  moreover from lt have "cur it = fs ! pos it"
    using nfields_le [of fs] assms by (simp add: valid_iter_start)
  ultimately show ?thesis using field by blast
qed

text \<open>Addresses are relative to the structure: moving it moves every field by the same amount.\<close>

lemma iter_at_shift:
  "pData (iter_at fs d i) = d + pData (iter_at fs 0 i) \<and>
   pSize (iter_at fs d i) = d + pSize (iter_at fs 0 i) \<and>
   pos (iter_at fs d i) = pos (iter_at fs 0 i) \<and>
   required_field_index (iter_at fs d i) = required_field_index (iter_at fs 0 i)"
proof (induction i)
  case 0
  show ?case by (simp add: pb_field_iter_begin_def Let_def)
next
  case (Suc i)
  then show ?case by (auto simp: pb_field_iter_next_def pb_field_iter_begin_def Let_def)
qed

section \<open>Searching\<close>

text \<open>
  From position \<open>s\<close> the walk visits \<open>s\<close>, \<open>s + 1\<close>, ... modulo the number of fields. The search
  stops at the first match on that cycle, or back at \<open>s\<close> when there is none.
\<close>

lemma iter_next_cycle:
  assumes "0 < nfields fs"
  shows "snd (pb_field_iter_next (iter_at fs d (j mod nfields fs))) =
    iter_at fs d (Suc j mod nfields fs)"
proof -
  have j: "j mod nfields fs < nfields fs" using assms by simp
  show ?thesis
    using iter_next_at [OF j, of d] j
    by (cases "Suc (j mod nfields fs) = nfields fs") (simp_all add: mod_Suc del: iter_at.simps)
qed

lemma cur_iter_at: "i < nfields fs \<Longrightarrow> cur (iter_at fs d i) = fs ! i"
  using nfields_le [of fs] by (simp add: iter_at_pos)

lemma iter_search_none:
  assumes "s < nfields fs" and "j < nfields fs" and "nfields fs - j \<le> k"
    and "\<And>i. i < nfields fs \<Longrightarrow> \<not> P (fs ! i)"
  shows "iter_search P s k (iter_at fs d ((s + j) mod nfields fs)) = Some (False, iter_at fs d s)"
  using assms(2,3)
proof (induction k arbitrary: j)
  case 0
  then show ?case by simp
next
  case (Suc k)
  let ?n = "nfields fs"
  have lt: "(s + j) mod ?n < ?n" using assms(1) by simp
  have miss: "\<not> P (cur (iter_at fs d ((s + j) mod ?n)))"
    using assms(4) [OF lt] cur_iter_at [OF lt] by simp
  have nxt: "snd (pb_field_iter_next (iter_at fs d ((s + j) mod ?n))) =
      iter_at fs d ((s + Suc j) mod ?n)"
    using iter_next_cycle [of fs d "s + j"] assms(1) by (simp del: iter_at.simps)
  have p: "pos (iter_at fs d ((s + Suc j) mod ?n)) = (s + Suc j) mod ?n"
    using assms(1) by (simp add: iter_at_pos del: iter_at.simps)
  show ?case
  proof (cases "Suc j < ?n")
    case True
    then have "(s + Suc j) mod ?n \<noteq> s"
      using assms(1) by (auto simp: mod_if)
    moreover have "iter_search P s k (iter_at fs d ((s + Suc j) mod ?n)) = Some (False, iter_at fs d s)"
      using True Suc.prems(2) by (intro Suc.IH) simp_all
    ultimately show ?thesis using miss nxt p by (simp add: Let_def del: iter_at.simps)
  next
    case False
    with Suc.prems have "Suc j = ?n" by simp
    then have "(s + Suc j) mod ?n = s" using assms(1) by simp
    with miss nxt p show ?thesis by (simp add: Let_def del: iter_at.simps)
  qed
qed

lemma iter_search_hit:
  assumes "s < nfields fs" and "j + l < nfields fs" and "l < k"
    and "P (fs ! ((s + (j + l)) mod nfields fs))"
    and "\<And>i. i < l \<Longrightarrow> \<not> P (fs ! ((s + (j + i)) mod nfields fs))"
  shows "iter_search P s k (iter_at fs d ((s + j) mod nfields fs)) =
    Some (True, iter_at fs d ((s + (j + l)) mod nfields fs))"
  using assms(2-)
proof (induction l arbitrary: j k)
  case 0
  let ?n = "nfields fs"
  have lt: "(s + j) mod ?n < ?n" using assms(1) by simp
  from 0 obtain k' where "k = Suc k'" by (cases k) auto
  with 0 cur_iter_at [OF lt, of d] show ?case by (simp del: iter_at.simps)
next
  case (Suc l)
  let ?n = "nfields fs"
  have lt: "(s + j) mod ?n < ?n" using assms(1) by simp
  from Suc.prems obtain k' where k: "k = Suc k'" by (cases k) auto
  have miss: "\<not> P (cur (iter_at fs d ((s + j) mod ?n)))"
    using Suc.prems(4) [of 0] cur_iter_at [OF lt, of d] by simp
  have nxt: "snd (pb_field_iter_next (iter_at fs d ((s + j) mod ?n))) =
      iter_at fs d ((s + Suc j) mod ?n)"
    using iter_next_cycle [of fs d "s + j"] assms(1) by (simp del: iter_at.simps)
  have "(s + Suc j) mod ?n \<noteq> s"
    using assms(1) Suc.prems(1) by (auto simp: mod_if)
  moreover have "pos (iter_at fs d ((s + Suc j) mod ?n)) = (s + Suc j) mod ?n"
    using assms(1) by (simp add: iter_at_pos del: iter_at.simps)
  moreover have "iter_search P s k' (iter_at fs d ((s + Suc j) mod ?n)) =
      Some (True, iter_at fs d ((s + (Suc j + l)) mod ?n))"
  proof (rule Suc.IH)
    fix i assume "i < l"
    with Suc.prems(4) [of "Suc i"] show "\<not> P (fs ! ((s + (Suc j + i)) mod ?n))" by simp
  qed (use Suc.prems k in simp_all)
  ultimately show ?case
    using miss nxt k by (simp add: Let_def del: iter_at.simps)
qed

text \<open>
  The search from any valid position of a non-empty array: it ends, it finds a field exactly when
  one matches, and without a match it is back where it started.
\<close>

lemma iter_search_valid:
  assumes "s < nfields fs" and "nfields fs \<le> k"
  shows "(\<exists>i < nfields fs. P (fs ! i) \<and> iter_search P s k (iter_at fs d s) = Some (True, iter_at fs d i)) \<or>
    (\<forall>i < nfields fs. \<not> P (fs ! i)) \<and> iter_search P s k (iter_at fs d s) = Some (False, iter_at fs d s)"
proof (cases "\<exists>i < nfields fs. P (fs ! i)")
  case True
  let ?n = "nfields fs"
  let ?Q = "\<lambda>l. l < ?n \<and> P (fs ! ((s + l) mod ?n))"
  from True obtain i where i: "i < ?n" "P (fs ! i)" by blast
  have "?Q ((i + ?n - s) mod ?n)"
    using assms(1) i by (simp add: mod_add_right_eq)
  then obtain l where l: "?Q l" and least: "\<And>i. i < l \<Longrightarrow> \<not> ?Q i"
    using exists_least_iff [of ?Q] by blast
  have "iter_search P s k (iter_at fs d ((s + 0) mod ?n)) =
      Some (True, iter_at fs d ((s + (0 + l)) mod ?n))"
    using assms l least by (intro iter_search_hit) auto
  then have "iter_search P s k (iter_at fs d s) = Some (True, iter_at fs d ((s + l) mod ?n))"
    using assms(1) by (simp del: iter_at.simps)
  moreover have "(s + l) mod ?n < ?n" using assms(1) by simp
  ultimately show ?thesis using l by blast
next
  case False
  then have "iter_search P s k (iter_at fs d ((s + 0) mod nfields fs)) = Some (False, iter_at fs d s)"
    using assms by (intro iter_search_none) auto
  with False assms(1) show ?thesis by (simp del: iter_at.simps)
qed

lemma iter_search_empty:
  assumes "nfields fs = 0" and "0 < k"
  shows "iter_search P 0 k (iter_at fs d 0) = Some (P (field_at fs 0), iter_at fs d 0)"
proof -
  have "cur (iter_at fs d 0) = field_at fs 0"
    by (simp add: pb_field_iter_begin_def Let_def)
  moreover have "pos (iter_at fs d 0) = 0"
    by (simp add: pb_field_iter_begin_def Let_def)
  ultimately show ?thesis
    using assms by (cases k) (auto simp: iter_next_empty simp del: iter_at.simps)
qed

lemma iter_search_returns:
  assumes "valid_iter fs d it" and "length fs < k"
  obtains b it' where "iter_search P (pos it) k it = Some (b, it')" "valid_iter fs d it'"
    "b \<longrightarrow> P (cur it')"
  using assms(1)
proof (cases rule: valid_iter_cases)
  case (field i)
  then have i: "pos it = i" by (simp add: iter_at_pos)
  from field(1) assms(2) nfields_le [of fs] have "nfields fs \<le> k" by simp
  from iter_search_valid [OF field(1) this, of P d] consider
      (hit) j where "j < nfields fs" "P (fs ! j)" "iter_search P i k it = Some (True, iter_at fs d j)"
    | (miss) "iter_search P i k it = Some (False, it)"
    using field by blast
  then show ?thesis
  proof cases
    case hit
    then show ?thesis
      using that [of True "iter_at fs d j"] i cur_iter_at [of j fs d] valid_iter_at [of j fs d] by simp
  next
    case miss
    then show ?thesis using that [of False it] i assms(1) by simp
  qed
next
  case empty
  have p: "pos it = 0" and c: "cur it = field_at fs 0"
    using empty by (simp_all add: pb_field_iter_begin_def Let_def)
  have "iter_search P 0 k it = Some (P (field_at fs 0), it)"
    unfolding empty(2) using empty(1) assms(2) by (intro iter_search_empty) auto
  then show ?thesis using that [of "P (field_at fs 0)" it] p c assms(1) by simp
qed

section \<open>The loop over all fields\<close>

text \<open>The do-while loop from field \<open>i\<close> on runs its body on the fields \<open>i\<close>, \<open>i + 1\<close>, ... in turn.\<close>

lemma iter_do_each:
  assumes "i < nfields fs"
  shows "iter_do body (iter_at fs d i) a = run_each (\<lambda>j. body (iter_at fs d j)) [i..<nfields fs] a"
  using assms
proof (induction "nfields fs - Suc i" arbitrary: i a)
  case 0
  then have "Suc i = nfields fs" by simp
  then have "[i..<nfields fs] = [i]" and "fst (pb_field_iter_next (iter_at fs d i)) = False"
    using 0 by (simp_all add: iter_next_at upt_rec [of i] del: iter_at.simps)
  then show ?case
    by (subst iter_do.simps) (simp del: iter_at.simps)
next
  case (Suc x)
  then have lt: "Suc i < nfields fs" by simp
  then have "[i..<nfields fs] = i # [Suc i..<nfields fs]" by (simp add: upt_rec [of i])
  moreover have "pb_field_iter_next (iter_at fs d i) = (True, iter_at fs d (Suc i))"
    using lt Suc.prems by (simp add: iter_next_at del: iter_at.simps)
  moreover have "iter_do body (iter_at fs d (Suc i)) =
      run_each (\<lambda>j. body (iter_at fs d j)) [Suc i..<nfields fs]"
    by (rule ext) (rule Suc.hyps(1), use Suc lt in simp_all)
  ultimately show ?case
    by (subst iter_do.simps) (simp del: iter_at.simps)
qed

lemma field_at_in: "i < nfields fs \<Longrightarrow> fs ! i \<in> set fs"
  using nfields_le [of fs] by simp

end
