(* ===== verification/PbIStream.thy ===== *)
theory PbIStream
  imports PbTypes
begin

text \<open>
  nanopb, the input half of \<^verbatim>\<open>pb_decode.c\<close> that does not touch a message: the stream
  \<open>pb_istream_t\<close>, the primitive readers (varints, tags, fixed-width numbers, skipping) and
  length-limited substreams. A reader returns \<open>Some v\<close> where the code returns true and \<open>None\<close>
  where it returns false; the stream is returned in both cases, with the error message the code
  has set. The lemmas describe each reader on memory streams by the bytes still visible
  (\<open>remaining\<close>) and bound what any reader can consume, whatever the stream's callback does.
\<close>

section \<open>Streams\<close>

text \<open>
  The callback and its state: \<open>Buf\<close> is \<open>buf_read\<close> with its pointer into a buffer (the bytes
  from the pointer on); \<open>User\<close> is a caller's function with its own state, which delivers bytes
  (at most the number asked for: the buffer it fills has no room for more), fails, or fails
  after setting \<open>bytes_left\<close> to zero.
\<close>

datatype 's read_result = Read_ok bytes 's | Read_fail 's | Read_eof 's

datatype 's in_source = Buf bytes | User "'s \<Rightarrow> nat \<Rightarrow> 's read_result" 's

record 's pb_istream =
  source :: "'s in_source"
  bytes_left :: nat
  errmsg :: "string option"

definition pb_set_error :: "string \<Rightarrow> 's pb_istream \<Rightarrow> 's pb_istream" where
  "pb_set_error msg s =
     s\<lparr>errmsg := (case errmsg s of Some e \<Rightarrow> Some e | None \<Rightarrow> Some msg)\<rparr>"

text \<open>
  Returning true with a value, returning false with a message, and running the rest of a
  function only when a call has returned true (\<open>if (!f(...)) return false;\<close>).
\<close>

definition rret :: "'v \<Rightarrow> 's pb_istream \<Rightarrow> 'v option \<times> 's pb_istream" where
  "rret v s = (Some v, s)"

definition rerr :: "string \<Rightarrow> 's pb_istream \<Rightarrow> 'v option \<times> 's pb_istream" where
  "rerr msg s = (None, pb_set_error msg s)"

definition rbind ::
  "('s pb_istream \<Rightarrow> 'v option \<times> 's pb_istream) \<Rightarrow>
   ('v \<Rightarrow> 's pb_istream \<Rightarrow> 'w option \<times> 's pb_istream) \<Rightarrow>
   's pb_istream \<Rightarrow> 'w option \<times> 's pb_istream" where
  "rbind m f s = (case m s of (None, s') \<Rightarrow> (None, s') | (Some v, s') \<Rightarrow> f v s')"

fun buf_read :: "bytes \<Rightarrow> nat \<Rightarrow> bytes \<times> bytes" where
  "buf_read src count = (take count src, drop count src)"

definition stream_callback :: "nat \<Rightarrow> 's pb_istream \<Rightarrow> bytes option \<times> 's pb_istream" where
  "stream_callback count s =
     (case source s of
        Buf src \<Rightarrow> (let (bs, src') = buf_read src count in (Some bs, s\<lparr>source := Buf src'\<rparr>))
      | User f u \<Rightarrow>
          (case f u count of
             Read_ok bs u' \<Rightarrow> (Some (take count bs), s\<lparr>source := User f u'\<rparr>)
           | Read_fail u' \<Rightarrow> (None, s\<lparr>source := User f u'\<rparr>)
           | Read_eof u' \<Rightarrow> (None, s\<lparr>source := User f u', bytes_left := 0\<rparr>)))"

text \<open>\<open>pb_read\<close> into a buffer, and with a null buffer (which a caller's stream skips in pieces).\<close>

definition pb_read :: "nat \<Rightarrow> 's pb_istream \<Rightarrow> bytes option \<times> 's pb_istream" where
  "pb_read count s =
     (if bytes_left s < count then rerr ''end-of-stream'' s
      else case stream_callback count s of
             (None, s') \<Rightarrow> rerr ''io error'' s'
           | (Some bs, s') \<Rightarrow> (Some bs, s'\<lparr>bytes_left := bytes_left s' - count\<rparr>))"

function pb_skip_loop :: "nat \<Rightarrow> 's pb_istream \<Rightarrow> unit option \<times> 's pb_istream" where
  "pb_skip_loop count s =
     (if 16 < count then rbind (pb_read 16) (\<lambda>_. pb_skip_loop (count - 16)) s
      else rbind (pb_read count) (\<lambda>_. rret ()) s)"
  by pat_completeness auto
termination by (relation "measure fst") auto

declare pb_skip_loop.simps [simp del]

definition pb_read_null :: "nat \<Rightarrow> 's pb_istream \<Rightarrow> unit option \<times> 's pb_istream" where
  "pb_read_null count s =
     (case source s of
        Buf _ \<Rightarrow> rbind (pb_read count) (\<lambda>_. rret ()) s
      | User _ _ \<Rightarrow> pb_skip_loop count s)"

definition pb_readbyte :: "'s pb_istream \<Rightarrow> byte option \<times> 's pb_istream" where
  "pb_readbyte s =
     (if bytes_left s = 0 then rerr ''end-of-stream'' s
      else case stream_callback 1 s of
             (None, s') \<Rightarrow> rerr ''io error'' s'
           | (Some bs, s') \<Rightarrow>
               (Some (case bs of b # _ \<Rightarrow> b | [] \<Rightarrow> 0), s'\<lparr>bytes_left := bytes_left s' - 1\<rparr>))"

definition pb_istream_from_buffer :: "bytes \<Rightarrow> nat \<Rightarrow> 's pb_istream" where
  "pb_istream_from_buffer buf bufsize =
     \<lparr>source = Buf buf, bytes_left = bufsize, errmsg = None\<rparr>"

section \<open>Varints and tags\<close>

function varint32_loop :: "nat \<Rightarrow> 32 word \<Rightarrow> 's pb_istream \<Rightarrow> 32 word option \<times> 's pb_istream" where
  "varint32_loop bitpos result s =
     (if 32 \<le> bitpos then rerr ''varint overflow'' s
      else rbind pb_readbyte
        (\<lambda>byte. let result' = result OR push_bit bitpos (ucast (byte AND 0x7F)) in
           if byte AND 0x80 \<noteq> 0 then varint32_loop (bitpos + 7) result' else rret result') s)"
  by pat_completeness auto
termination by (relation "measure (\<lambda>(bitpos, _). 32 - bitpos)") auto

declare varint32_loop.simps [simp del]

definition pb_decode_varint32 :: "'s pb_istream \<Rightarrow> 32 word option \<times> 's pb_istream" where
  "pb_decode_varint32 =
     rbind pb_readbyte
       (\<lambda>byte. if byte AND 0x80 = 0 then rret (ucast byte)
               else varint32_loop 7 (ucast (byte AND 0x7F)))"

function varint64_loop :: "nat \<Rightarrow> 64 word \<Rightarrow> 's pb_istream \<Rightarrow> 64 word option \<times> 's pb_istream" where
  "varint64_loop bitpos result s =
     (if 64 \<le> bitpos then rerr ''varint overflow'' s
      else rbind pb_readbyte
        (\<lambda>byte. let result' = result OR push_bit bitpos (ucast (byte AND 0x7F)) in
           if byte AND 0x80 \<noteq> 0 then varint64_loop (bitpos + 7) result' else rret result') s)"
  by pat_completeness auto
termination by (relation "measure (\<lambda>(bitpos, _). 64 - bitpos)") auto

declare varint64_loop.simps [simp del]

definition pb_decode_varint :: "'s pb_istream \<Rightarrow> 64 word option \<times> 's pb_istream" where
  "pb_decode_varint = varint64_loop 0 0"

text \<open>\<open>Tag_end\<close>: the code returned false with \<open>eof\<close> set; \<open>Tag_error\<close>: false without it.\<close>

datatype tag_result = Tag_ok nat nat | Tag_end | Tag_error

definition pb_decode_tag :: "'s pb_istream \<Rightarrow> tag_result \<times> 's pb_istream" where
  "pb_decode_tag s =
     (case pb_decode_varint32 s of
        (None, s') \<Rightarrow> (if bytes_left s' = 0 then Tag_end else Tag_error, s')
      | (Some temp, s') \<Rightarrow>
          if temp = 0 then (Tag_end, s')
          else (Tag_ok (unat (temp AND 7)) (unat (drop_bit 3 temp)), s'))"

section \<open>Progress\<close>

text \<open>
  Whatever the callback does, a reader never makes more bytes available than there were, and a
  read of \<open>count\<close> bytes that succeeds takes exactly \<open>count\<close> of them.
\<close>

lemma set_error_bytes_left [simp]: "bytes_left (pb_set_error msg s) = bytes_left s"
  by (simp add: pb_set_error_def)

lemma set_error_source [simp]: "source (pb_set_error msg s) = source s"
  by (simp add: pb_set_error_def)

lemma set_error_errmsg [simp]: "errmsg (pb_set_error msg s) \<noteq> None"
  by (simp add: pb_set_error_def split: option.splits)

lemma rbind_simps [simp]:
  "m s = (None, s') \<Longrightarrow> rbind m f s = (None, s')"
  "m s = (Some v, s') \<Longrightarrow> rbind m f s = f v s'"
  by (simp_all add: rbind_def)

lemma rbind_assoc: "rbind (rbind m f) g = rbind m (\<lambda>x. rbind (f x) g)"
  by (rule ext) (simp add: rbind_def split: prod.splits option.splits)

lemma callback_Some_left:
  "stream_callback count s = (Some bs, s') \<Longrightarrow> bytes_left s' = bytes_left s"
  by (auto simp: stream_callback_def split: in_source.splits read_result.splits)

lemma callback_None_left:
  "stream_callback count s = (None, s') \<Longrightarrow> bytes_left s' \<le> bytes_left s"
  by (auto simp: stream_callback_def split: in_source.splits read_result.splits)

lemma pb_read_Some_left:
  "pb_read count s = (Some bs, s') \<Longrightarrow> count \<le> bytes_left s \<and> bytes_left s' = bytes_left s - count"
  by (auto simp: pb_read_def rerr_def callback_Some_left split: if_splits prod.splits option.splits)

lemma pb_read_None_left: "pb_read count s = (None, s') \<Longrightarrow> bytes_left s' \<le> bytes_left s"
  by (auto simp: pb_read_def rerr_def dest: callback_None_left split: if_splits prod.splits option.splits)

lemma pb_readbyte_Some_left:
  "pb_readbyte s = (Some b, s') \<Longrightarrow> bytes_left s = Suc (bytes_left s')"
  by (auto simp: pb_readbyte_def rerr_def dest!: callback_Some_left
      split: if_splits prod.splits option.splits)

lemma pb_readbyte_None_left: "pb_readbyte s = (None, s') \<Longrightarrow> bytes_left s' \<le> bytes_left s"
  by (auto simp: pb_readbyte_def rerr_def dest: callback_None_left
      split: if_splits prod.splits option.splits)

lemma pb_read_left: "bytes_left (snd (pb_read count s)) \<le> bytes_left s"
  by (cases "pb_read count s"; cases "fst (pb_read count s)")
    (auto dest: pb_read_Some_left pb_read_None_left)

lemma pb_readbyte_left: "bytes_left (snd (pb_readbyte s)) \<le> bytes_left s"
  by (cases "pb_readbyte s"; cases "fst (pb_readbyte s)")
    (auto dest: pb_readbyte_Some_left pb_readbyte_None_left)

text \<open>A reader \<open>m\<close> is \<open>shrinking\<close> when it never raises \<open>bytes_left\<close>.\<close>

definition shrinking :: "('s pb_istream \<Rightarrow> 'v option \<times> 's pb_istream) \<Rightarrow> bool" where
  "shrinking m \<longleftrightarrow> (\<forall>s. bytes_left (snd (m s)) \<le> bytes_left s)"

lemma shrinkingD: "shrinking m \<Longrightarrow> m s = (r, s') \<Longrightarrow> bytes_left s' \<le> bytes_left s"
  unfolding shrinking_def by (metis snd_conv)

lemma shrinking_rret [simp]: "shrinking (rret v)"
  by (simp add: shrinking_def rret_def)

lemma shrinking_rerr [simp]: "shrinking (rerr msg)"
  by (simp add: shrinking_def rerr_def)

lemma shrinking_rbind:
  assumes "shrinking m" and "\<And>v. shrinking (f v)"
  shows "shrinking (rbind m f)"
  unfolding shrinking_def
proof
  fix s
  obtain r s1 where m: "m s = (r, s1)" by (cases "m s")
  with assms(1) have "bytes_left s1 \<le> bytes_left s" by (rule shrinkingD)
  with m assms(2) show "bytes_left (snd (rbind m f s)) \<le> bytes_left s"
    by (cases r) (auto simp: shrinking_def intro: order_trans)
qed

lemma shrinking_if [simp]: "shrinking m \<Longrightarrow> shrinking m' \<Longrightarrow> shrinking (if b then m else m')"
  by simp

lemma shrinking_pb_read [simp]: "shrinking (pb_read count)"
  by (simp add: shrinking_def pb_read_left)

lemma shrinking_pb_readbyte [simp]: "shrinking pb_readbyte"
  by (simp add: shrinking_def pb_readbyte_left)

lemma shrinking_skip_loop [simp]:
  "shrinking (pb_skip_loop count :: 's pb_istream \<Rightarrow> unit option \<times> 's pb_istream)"
proof (induction count rule: less_induct)
  case (less count)
  have "shrinking (if 16 < count then rbind (pb_read 16) (\<lambda>_. pb_skip_loop (count - 16))
      else rbind (pb_read count) (\<lambda>_. rret ()) :: 's pb_istream \<Rightarrow> _)"
    by (auto intro!: shrinking_rbind less)
  then show ?case
    unfolding shrinking_def by (subst pb_skip_loop.simps) (simp split: if_splits)
qed

lemma shrinking_pb_read_null [simp]: "shrinking (pb_read_null count)"
proof -
  have "shrinking (rbind (pb_read count) (\<lambda>_. rret ()))"
    by (rule shrinking_rbind) simp_all
  then show ?thesis
    using shrinking_skip_loop [of count]
    by (auto simp: shrinking_def pb_read_null_def split: in_source.splits)
qed

lemma shrinking_varint32_loop [simp]:
  "shrinking (varint32_loop bitpos result :: 's pb_istream \<Rightarrow> 32 word option \<times> 's pb_istream)"
proof (induction "32 - bitpos" arbitrary: bitpos result rule: less_induct)
  case less
  have "shrinking (if 32 \<le> bitpos then rerr ''varint overflow'' else rbind pb_readbyte
      (\<lambda>byte. let result' = result OR push_bit bitpos (ucast (byte AND 0x7F)) in
         if byte AND 0x80 \<noteq> 0 then varint32_loop (bitpos + 7) result' else rret result') :: 's pb_istream \<Rightarrow> _)"
    by (auto intro!: shrinking_rbind less simp: Let_def)
  then show ?case
    unfolding shrinking_def by (subst varint32_loop.simps) (simp split: if_splits)
qed

lemma shrinking_varint64_loop [simp]:
  "shrinking (varint64_loop bitpos result :: 's pb_istream \<Rightarrow> 64 word option \<times> 's pb_istream)"
proof (induction "64 - bitpos" arbitrary: bitpos result rule: less_induct)
  case less
  have "shrinking (if 64 \<le> bitpos then rerr ''varint overflow'' else rbind pb_readbyte
      (\<lambda>byte. let result' = result OR push_bit bitpos (ucast (byte AND 0x7F)) in
         if byte AND 0x80 \<noteq> 0 then varint64_loop (bitpos + 7) result' else rret result') :: 's pb_istream \<Rightarrow> _)"
    by (auto intro!: shrinking_rbind less simp: Let_def)
  then show ?case
    unfolding shrinking_def by (subst varint64_loop.simps) (simp split: if_splits)
qed

lemma shrinking_varint32 [simp]: "shrinking pb_decode_varint32"
  unfolding pb_decode_varint32_def by (rule shrinking_rbind) simp_all

lemma shrinking_varint64 [simp]: "shrinking pb_decode_varint"
  by (simp add: pb_decode_varint_def)

text \<open>A varint that was read took at least one byte, so the loops over a message make progress.\<close>

lemma rbind_readbyte_less:
  assumes "rbind pb_readbyte f s = (Some v, s')" and "\<And>b. shrinking (f b)"
  shows "bytes_left s' < bytes_left s"
proof -
  from assms(1) obtain b s1 where 1: "pb_readbyte s = (Some b, s1)" and 2: "f b s1 = (Some v, s')"
    by (auto simp: rbind_def split: prod.splits option.splits)
  from 1 have "bytes_left s = Suc (bytes_left s1)" by (rule pb_readbyte_Some_left)
  moreover from assms(2) 2 have "bytes_left s' \<le> bytes_left s1" by (rule shrinkingD)
  ultimately show ?thesis by simp
qed

lemma varint32_progress: "pb_decode_varint32 s = (Some v, s') \<Longrightarrow> bytes_left s' < bytes_left s"
  unfolding pb_decode_varint32_def by (erule rbind_readbyte_less) simp

lemma varint64_progress: "pb_decode_varint s = (Some v, s') \<Longrightarrow> bytes_left s' < bytes_left s"
  unfolding pb_decode_varint_def
  by (subst (asm) varint64_loop.simps) (auto simp: Let_def elim!: rbind_readbyte_less)

lemma decode_tag_progress:
  "pb_decode_tag s = (Tag_ok wt t, s') \<Longrightarrow> bytes_left s' < bytes_left s"
  by (auto simp: pb_decode_tag_def dest: varint32_progress split: prod.splits option.splits if_splits)

lemma decode_tag_left: "pb_decode_tag s = (r, s') \<Longrightarrow> bytes_left s' \<le> bytes_left s"
  using shrinkingD [OF shrinking_varint32, of s]
  by (auto simp: pb_decode_tag_def split: prod.splits option.splits if_splits)

section \<open>Skipping and substreams\<close>

function pb_skip_varint :: "'s pb_istream \<Rightarrow> unit option \<times> 's pb_istream" where
  "pb_skip_varint s =
     (case pb_read 1 s of
        (None, s') \<Rightarrow> (None, s')
      | (Some bs, s') \<Rightarrow>
          if (case bs of b # _ \<Rightarrow> b | [] \<Rightarrow> 0) AND 0x80 \<noteq> 0 then pb_skip_varint s' else rret () s')"
  by pat_completeness auto
termination
  by (relation "measure bytes_left") (auto dest!: pb_read_Some_left [OF sym])

declare pb_skip_varint.simps [simp del]

definition pb_skip_string :: "'s pb_istream \<Rightarrow> unit option \<times> 's pb_istream" where
  "pb_skip_string = rbind pb_decode_varint32 (\<lambda>length. pb_read_null (unat length))"

definition pb_skip_field :: "nat \<Rightarrow> 's pb_istream \<Rightarrow> unit option \<times> 's pb_istream" where
  "pb_skip_field wire_type =
     (if wire_type = PB_WT_VARINT then pb_skip_varint
      else if wire_type = PB_WT_64BIT then pb_read_null 8
      else if wire_type = PB_WT_STRING then pb_skip_string
      else if wire_type = PB_WT_32BIT then pb_read_null 4
      else rerr ''invalid wire_type'')"

text \<open>
  \<open>read_raw_value\<close> copies one scalar of at most \<open>max_size\<close> bytes; the varint loop has already
  copied the bytes \<open>acc\<close>.
\<close>

function raw_varint_loop :: "nat \<Rightarrow> bytes \<Rightarrow> 's pb_istream \<Rightarrow> bytes option \<times> 's pb_istream" where
  "raw_varint_loop max_size acc s =
     (if max_size < Suc (length acc) then (None, s)
      else rbind (pb_read 1)
        (\<lambda>bs. let b = (case bs of b # _ \<Rightarrow> b | [] \<Rightarrow> 0) in
           if b AND 0x80 \<noteq> 0 then raw_varint_loop max_size (acc @ [b]) else rret (acc @ [b])) s)"
  by pat_completeness auto
termination by (relation "measure (\<lambda>(max_size, acc, _). max_size - length acc)") auto

declare raw_varint_loop.simps [simp del]

definition read_raw_value :: "nat \<Rightarrow> nat \<Rightarrow> 's pb_istream \<Rightarrow> bytes option \<times> 's pb_istream" where
  "read_raw_value wire_type max_size =
     (if wire_type = PB_WT_VARINT then raw_varint_loop max_size []
      else if wire_type = PB_WT_64BIT then pb_read 8
      else if wire_type = PB_WT_32BIT then pb_read 4
      else rerr ''invalid wire_type'')"

definition pb_make_string_substream :: "'s pb_istream \<Rightarrow> 's pb_istream option \<times> 's pb_istream" where
  "pb_make_string_substream =
     rbind pb_decode_varint32
       (\<lambda>size s. if bytes_left s < unat size then rerr ''parent stream too short'' s
                else (Some (s\<lparr>bytes_left := unat size\<rparr>),
                      s\<lparr>bytes_left := bytes_left s - unat size\<rparr>))"

definition pb_close_string_substream ::
  "'s pb_istream \<Rightarrow> 's pb_istream \<Rightarrow> unit option \<times> 's pb_istream" where
  "pb_close_string_substream s substream =
     (case (if bytes_left substream \<noteq> 0 then pb_read_null (bytes_left substream) substream
            else (Some (), substream)) of
        (None, _) \<Rightarrow> (None, s)
      | (Some _, sub') \<Rightarrow> (Some (), s\<lparr>source := source sub', errmsg := errmsg sub'\<rparr>))"

section \<open>Fixed-width and zig-zag numbers\<close>

definition pb_decode_svarint :: "'s pb_istream \<Rightarrow> 64 word option \<times> 's pb_istream" where
  "pb_decode_svarint =
     rbind pb_decode_varint
       (\<lambda>value. if value AND 1 \<noteq> 0 then rret (NOT (drop_bit 1 value)) else rret (drop_bit 1 value))"

definition fixed32_of_bytes :: "bytes \<Rightarrow> 32 word" where
  "fixed32_of_bytes b =
     push_bit 0 (ucast (b ! 0)) OR push_bit 8 (ucast (b ! 1)) OR
     push_bit 16 (ucast (b ! 2)) OR push_bit 24 (ucast (b ! 3))"

definition pb_decode_fixed32 :: "'s pb_istream \<Rightarrow> 32 word option \<times> 's pb_istream" where
  "pb_decode_fixed32 = rbind (pb_read 4) (\<lambda>b. rret (fixed32_of_bytes b))"

definition fixed64_of_bytes :: "bytes \<Rightarrow> 64 word" where
  "fixed64_of_bytes b =
     push_bit 0 (ucast (b ! 0)) OR push_bit 8 (ucast (b ! 1)) OR
     push_bit 16 (ucast (b ! 2)) OR push_bit 24 (ucast (b ! 3)) OR
     push_bit 32 (ucast (b ! 4)) OR push_bit 40 (ucast (b ! 5)) OR
     push_bit 48 (ucast (b ! 6)) OR push_bit 56 (ucast (b ! 7))"

definition pb_decode_fixed64 :: "'s pb_istream \<Rightarrow> 64 word option \<times> 's pb_istream" where
  "pb_decode_fixed64 = rbind (pb_read 8) (\<lambda>b. rret (fixed64_of_bytes b))"

section \<open>Streams over memory\<close>

text \<open>
  \<open>mem_stream bs post e\<close> is a memory stream that may still read \<open>bs\<close>, in a buffer where \<open>post\<close>
  follows (the part of an enclosing message behind a substream). Every stream over a buffer
  that is long enough has this form.
\<close>

definition mem_stream :: "bytes \<Rightarrow> bytes \<Rightarrow> string option \<Rightarrow> 's pb_istream" where
  "mem_stream bs post e = \<lparr>source = Buf (bs @ post), bytes_left = length bs, errmsg = e\<rparr>"

definition on_memory :: "'s pb_istream \<Rightarrow> bool" where
  "on_memory s \<longleftrightarrow> (case source s of Buf src \<Rightarrow> bytes_left s \<le> length src | User _ _ \<Rightarrow> False)"

lemma on_memory_mem_stream [simp]: "on_memory (mem_stream bs post e)"
  by (simp add: on_memory_def mem_stream_def)

lemma on_memory_obtain:
  assumes "on_memory s"
  obtains bs post where "s = mem_stream bs post (errmsg s)"
proof -
  from assms obtain src where src: "source s = Buf src" and le: "bytes_left s \<le> length src"
    by (auto simp: on_memory_def split: in_source.splits)
  have "s = mem_stream (take (bytes_left s) src) (drop (bytes_left s) src) (errmsg s)"
    by (rule pb_istream.equality) (use src le in \<open>simp_all add: mem_stream_def\<close>)
  then show ?thesis by (rule that)
qed

lemma istream_from_buffer: "pb_istream_from_buffer bs (length bs) = mem_stream bs [] None"
  by (simp add: pb_istream_from_buffer_def mem_stream_def)

lemma mem_stream_left [simp]: "bytes_left (mem_stream bs post e) = length bs"
  by (simp add: mem_stream_def)

lemma mem_stream_errmsg [simp]: "errmsg (mem_stream bs post e) = e"
  by (simp add: mem_stream_def)

lemma mem_stream_source [simp]: "source (mem_stream bs post e) = Buf (bs @ post)"
  by (simp add: mem_stream_def)

lemma set_error_mem_stream [simp]:
  "pb_set_error msg (mem_stream bs post e) =
     mem_stream bs post (case e of Some m \<Rightarrow> Some m | None \<Rightarrow> Some msg)"
  by (simp add: pb_set_error_def mem_stream_def split: option.splits)

lemma pb_readbyte_mem [simp]:
  "pb_readbyte (mem_stream [] post e) = rerr ''end-of-stream'' (mem_stream [] post e)"
  "pb_readbyte (mem_stream (b # bs) post e) = (Some b, mem_stream bs post e)"
  by (simp_all add: pb_readbyte_def stream_callback_def mem_stream_def)

lemma pb_read_mem:
  "pb_read n (mem_stream bs post e) =
     (if length bs < n then rerr ''end-of-stream'' (mem_stream bs post e)
      else (Some (take n bs), mem_stream (drop n bs) post e))"
  by (simp add: pb_read_def stream_callback_def mem_stream_def)

lemma pb_read_mem_exact [simp]:
  "length bs = n \<Longrightarrow> pb_read n (mem_stream (bs @ rest) post e) = (Some bs, mem_stream rest post e)"
  by (simp add: pb_read_mem)

lemma pb_read_null_mem:
  "pb_read_null n (mem_stream bs post e) =
     (if length bs < n then rerr ''end-of-stream'' (mem_stream bs post e)
      else (Some (), mem_stream (drop n bs) post e))"
  by (simp add: pb_read_null_def pb_read_mem rbind_def rret_def rerr_def split: option.splits)

text \<open>The result of a varint reader on memory, in terms of the reference parser.\<close>

definition varint_outcome ::
  "nat \<Rightarrow> (nat \<Rightarrow> 'v) \<Rightarrow> bytes \<Rightarrow> bytes \<Rightarrow> string option \<Rightarrow> 'v option \<times> 's pb_istream" where
  "varint_outcome k f bs post e =
     (case varint_parse k bs of
        Some (v, rest) \<Rightarrow> (Some (f v), mem_stream rest post e)
      | None \<Rightarrow>
          if length bs < k then rerr ''end-of-stream'' (mem_stream [] post e)
          else rerr ''varint overflow'' (mem_stream (drop k bs) post e))"

lemma varint_outcome_simps:
  "varint_outcome 0 f bs post e = rerr ''varint overflow'' (mem_stream bs post e)"
  "varint_outcome (Suc k) f [] post e = rerr ''end-of-stream'' (mem_stream [] post e)"
  "unat b < 128 \<Longrightarrow> varint_outcome (Suc k) f (b # bs) post e = (Some (f (unat b)), mem_stream bs post e)"
  "\<not> unat b < 128 \<Longrightarrow> varint_outcome (Suc k) f (b # bs) post e =
     varint_outcome k (\<lambda>v. f (unat b mod 128 + 128 * v)) bs post e"
  by (simp_all add: varint_outcome_def split: option.splits)

lemma varint_outcome_cong: "(\<And>v. f v = g v) \<Longrightarrow> varint_outcome k f bs post e = varint_outcome k g bs post e"
  by (simp add: varint_outcome_def split: option.split)

lemma unat_word_less_exp: "LENGTH('a::len) \<le> n \<Longrightarrow> unat (w :: 'a word) < 2 ^ n"
  by (rule less_le_trans [OF unsigned_less]) (rule power_increasing, simp_all)

lemma varint64_loop_mem:
  assumes "unat r < 2 ^ (7 * j)" and "j + k = 10"
  shows "varint64_loop (7 * j) r (mem_stream bs post e :: 's pb_istream) =
    varint_outcome k (\<lambda>v. r + of_nat v * 2 ^ (7 * j)) bs post e"
  using assms
proof (induction k arbitrary: j r bs)
  case 0
  then show ?case by (subst varint64_loop.simps) (simp add: varint_outcome_simps)
next
  case (Suc k)
  show ?case
  proof (cases bs)
    case Nil
    with Suc.prems show ?thesis
      by (subst varint64_loop.simps) (simp add: varint_outcome_simps rbind_def rerr_def)
  next
    case (Cons b bs')
    let ?r = "r OR push_bit (7 * j) (ucast (b AND 127))"
    have r: "?r = r + of_nat (unat b mod 128) * 2 ^ (7 * j)"
      using Suc.prems(1) by (rule or_varint_group)
    have *: "varint64_loop (7 * j) r (mem_stream bs post e :: 's pb_istream) =
        (if unat b < 128 then rret ?r (mem_stream bs' post e)
         else varint64_loop (7 * Suc j) ?r (mem_stream bs' post e))"
      using Suc.prems Cons
      by (subst varint64_loop.simps) (simp add: Let_def byte_and_128_eq_0 add.commute)
    show ?thesis
    proof (cases "unat b < 128")
      case True
      with * r Cons show ?thesis by (simp add: varint_outcome_simps rret_def)
    next
      case False
      have "unat ?r < 2 ^ (7 * Suc j)"
        using varint_group_bound [OF Suc.prems(1), of b] by (simp add: add.commute)
      moreover have "Suc j + k = 10" using Suc.prems(2) by simp
      ultimately have "varint64_loop (7 * Suc j) ?r (mem_stream bs' post e :: 's pb_istream) =
          varint_outcome k (\<lambda>v. ?r + of_nat v * 2 ^ (7 * Suc j)) bs' post e"
        by (rule Suc.IH)
      also have "\<dots> = varint_outcome k
          (\<lambda>v. r + of_nat (unat b mod 128 + 128 * v) * 2 ^ (7 * j)) bs' post e"
        by (rule varint_outcome_cong) (simp only: r, simp add: power_add algebra_simps)
      finally show ?thesis using * False Cons by (simp add: varint_outcome_simps)
    qed
  qed
qed

theorem pb_decode_varint_mem:
  "pb_decode_varint (mem_stream bs post e) = varint_outcome 10 of_nat bs post e"
  using varint64_loop_mem [of 0 0 10 bs post e] by (simp add: pb_decode_varint_def)

lemma varint32_loop_mem:
  assumes "unat r < 2 ^ (7 * j)" and "j + k = 5"
  shows "varint32_loop (7 * j) r (mem_stream bs post e :: 's pb_istream) =
    varint_outcome k (\<lambda>v. r + of_nat v * 2 ^ (7 * j)) bs post e"
  using assms
proof (induction k arbitrary: j r bs)
  case 0
  then show ?case by (subst varint32_loop.simps) (simp add: varint_outcome_simps)
next
  case (Suc k)
  show ?case
  proof (cases bs)
    case Nil
    with Suc.prems show ?thesis
      by (subst varint32_loop.simps) (simp add: varint_outcome_simps rbind_def rerr_def)
  next
    case (Cons b bs')
    let ?r = "r OR push_bit (7 * j) (ucast (b AND 127))"
    have r: "?r = r + of_nat (unat b mod 128) * 2 ^ (7 * j)"
      using Suc.prems(1) by (rule or_varint_group)
    have *: "varint32_loop (7 * j) r (mem_stream bs post e :: 's pb_istream) =
        (if unat b < 128 then rret ?r (mem_stream bs' post e)
         else varint32_loop (7 * Suc j) ?r (mem_stream bs' post e))"
      using Suc.prems Cons
      by (subst varint32_loop.simps) (simp add: Let_def byte_and_128_eq_0 add.commute)
    show ?thesis
    proof (cases "unat b < 128")
      case True
      with * r Cons show ?thesis by (simp add: varint_outcome_simps rret_def)
    next
      case False
      have "unat ?r < 2 ^ (7 * Suc j)"
        using varint_group_bound [OF Suc.prems(1), of b] by (simp add: add.commute)
      moreover have "Suc j + k = 5" using Suc.prems(2) by simp
      ultimately have "varint32_loop (7 * Suc j) ?r (mem_stream bs' post e :: 's pb_istream) =
          varint_outcome k (\<lambda>v. ?r + of_nat v * 2 ^ (7 * Suc j)) bs' post e"
        by (rule Suc.IH)
      also have "\<dots> = varint_outcome k
          (\<lambda>v. r + of_nat (unat b mod 128 + 128 * v) * 2 ^ (7 * j)) bs' post e"
        by (rule varint_outcome_cong) (simp only: r, simp add: power_add algebra_simps)
      finally show ?thesis using * False Cons by (simp add: varint_outcome_simps)
    qed
  qed
qed

theorem pb_decode_varint32_mem:
  "pb_decode_varint32 (mem_stream bs post e :: 's pb_istream) = varint_outcome 5 of_nat bs post e"
proof (cases bs)
  case Nil
  then show ?thesis
    by (simp add: pb_decode_varint32_def rbind_def rerr_def varint_outcome_simps eval_nat_numeral)
next
  case (Cons b bs')
  have "varint_outcome 5 of_nat bs post e =
      (if unat b < 128 then rret (of_nat (unat b)) (mem_stream bs' post e)
       else varint_outcome 4 (\<lambda>v. of_nat (unat b mod 128 + 128 * v) :: 32 word) bs' post e :: _ \<times> 's pb_istream)"
  proof -
    have five: "(5::nat) = Suc 4" by simp
    show ?thesis
      unfolding Cons five
      by (cases "unat b < 128") (simp_all only: varint_outcome_simps(3,4) rret_def if_True if_False not_False_eq_True)
  qed
  moreover have "varint_outcome 4 (\<lambda>v. of_nat (unat b mod 128 + 128 * v) :: 32 word) bs' post e =
      varint32_loop (7 * 1) (ucast (b AND 127)) (mem_stream bs' post e :: 's pb_istream)"
  proof -
    have small: "unat (ucast (b AND 127) :: 32 word) < 2 ^ (7 * 1)"
      using varint_group_bound [of "0 :: 32 word" 0 b] by simp
    have "(ucast (b AND 127) :: 32 word) = of_nat (unat b mod 128)"
      by (simp only: unat_byte_and_127 [symmetric] of_nat_unat)
    then show ?thesis
      using small by (subst varint32_loop_mem) (auto intro!: varint_outcome_cong)
  qed
  ultimately show ?thesis
    using Cons by (simp add: pb_decode_varint32_def byte_and_128_eq_0)
qed

section \<open>Fixed-width numbers are little-endian\<close>

lemma fixed32_of_bytes_le:
  assumes "length b = 4"
  shows "fixed32_of_bytes b = of_nat (le_nat b)"
proof -
  obtain b0 b1 b2 b3 where b: "b = [b0, b1, b2, b3]"
    using assms by (auto simp: length_Suc_conv eval_nat_numeral)
  show ?thesis
    unfolding or_bytes_0 [symmetric] b by (simp add: fixed32_of_bytes_def or.assoc)
qed

lemma fixed64_of_bytes_le:
  assumes "length b = 8"
  shows "fixed64_of_bytes b = of_nat (le_nat b)"
proof -
  obtain b0 b1 b2 b3 b4 b5 b6 b7 where b: "b = [b0, b1, b2, b3, b4, b5, b6, b7]"
    using assms by (auto simp: length_Suc_conv eval_nat_numeral)
  show ?thesis
    unfolding or_bytes_0 [symmetric] b by (simp add: fixed64_of_bytes_def or.assoc)
qed

lemma pb_decode_fixed32_mem:
  "pb_decode_fixed32 (mem_stream bs post e) =
     (if length bs < 4 then rerr ''end-of-stream'' (mem_stream bs post e)
      else (Some (of_nat (le_nat (take 4 bs))), mem_stream (drop 4 bs) post e))"
  by (simp add: pb_decode_fixed32_def pb_read_mem rbind_def rerr_def rret_def fixed32_of_bytes_le)

lemma pb_decode_fixed64_mem:
  "pb_decode_fixed64 (mem_stream bs post e) =
     (if length bs < 8 then rerr ''end-of-stream'' (mem_stream bs post e)
      else (Some (of_nat (le_nat (take 8 bs))), mem_stream (drop 8 bs) post e))"
  by (simp add: pb_decode_fixed64_def pb_read_mem rbind_def rerr_def rret_def fixed64_of_bytes_le)

section \<open>Skipping on memory\<close>

lemma skip_varint_mem:
  "pb_skip_varint (mem_stream bs post e :: 's pb_istream) =
     (case dropWhile (\<lambda>b. 128 \<le> unat b) bs of
        [] \<Rightarrow> rerr ''end-of-stream'' (mem_stream [] post e)
      | _ # rest \<Rightarrow> (Some (), mem_stream rest post e))"
proof (induction bs)
  case Nil
  show ?case by (subst pb_skip_varint.simps) (simp add: pb_read_mem rerr_def)
next
  case (Cons b bs)
  then show ?case
    by (subst pb_skip_varint.simps) (simp add: pb_read_mem byte_and_128_eq_0 rret_def)
qed

lemma dropWhile_varint_bytes:
  "dropWhile (\<lambda>b. 128 \<le> unat b) (varint_bytes n @ rest) =
     of_nat (n div 128 ^ (length (varint_bytes n) - 1)) # rest"
proof (induction n rule: varint_bytes.induct)
  case (1 n)
  show ?case
  proof (cases "n < 128")
    case True
    then show ?thesis by (simp add: varint_bytes_small)
  next
    case False
    have "n mod 128 < 128" by simp
    then have "unat (of_nat (n mod 128 + 128) :: 8 word) = n mod 128 + 128"
      by (simp only: unat_of_nat_byte) simp
    then have "128 \<le> unat (of_nat (n mod 128 + 128) :: 8 word)" by simp
    moreover obtain k where "length (varint_bytes (n div 128)) = Suc k"
      by (cases "varint_bytes (n div 128)") auto
    ultimately show ?thesis
      using "1.IH" False by (simp add: varint_bytes_big div_mult2_eq del: of_nat_add)
  qed
qed

lemma pb_skip_varint_bytes:
  "pb_skip_varint (mem_stream (varint_bytes n @ rest) post e) = (Some (), mem_stream rest post e)"
  by (simp add: skip_varint_mem dropWhile_varint_bytes)

end
