(* ===== verification/PbDecode.thy ===== *)
theory PbDecode
  imports PbCommon PbIStream
begin

text \<open>
  nanopb, the message half of \<^verbatim>\<open>pb_decode.c\<close>: the field decoders, the decoding of static,
  pointer, callback and extension fields, default initialisation and the main loop
  \<open>pb_decode_noinit\<close>. A function that the code calls recursively is an argument of the
  definitions below it; the knot is tied with fuel at the end. The build has no
  PB_ENABLE_MALLOC, so pointer fields are refused as the code refuses them.
\<close>

section \<open>Caller code\<close>

text \<open>
  What the message memory and the descriptors point to outside this library: the functions
  behind callback pointers, and the extension types behind extension structures.
\<close>

record 's pb_extension_type =
  ext_decode :: "('s pb_istream \<Rightarrow> addr \<Rightarrow> nat \<Rightarrow> nat \<Rightarrow> mem \<Rightarrow> bool \<times> 's pb_istream \<times> mem) option"
  ext_arg :: pb_field

record 's pb_env =
  decode_fn :: "addr \<Rightarrow> 's pb_istream \<Rightarrow> pb_field \<Rightarrow> addr \<Rightarrow> mem \<Rightarrow> bool \<times> 's pb_istream \<times> mem"
  ext_type :: "addr \<Rightarrow> 's pb_extension_type"

type_synonym 's dec = "'s pb_istream \<Rightarrow> mem \<Rightarrow> (bool \<times> 's pb_istream \<times> mem) run"

definition dret :: "bool \<Rightarrow> 's dec" where
  "dret b s m = Ret (b, s, m)"

definition derr :: "string \<Rightarrow> 's dec" where
  "derr msg s m = Ret (False, pb_set_error msg s, m)"

text \<open>Run a reader of the stream layer; on false return false.\<close>

definition dread ::
  "('s pb_istream \<Rightarrow> 'v option \<times> 's pb_istream) \<Rightarrow> ('v \<Rightarrow> 's dec) \<Rightarrow> 's dec" where
  "dread rd f s m = (case rd s of (None, s') \<Rightarrow> Ret (False, s', m) | (Some v, s') \<Rightarrow> f v s' m)"

definition dwrite :: "(mem \<Rightarrow> mem) \<Rightarrow> 's dec \<Rightarrow> 's dec" where
  "dwrite g d s m = d s (g m)"

section \<open>Field decoders\<close>

text \<open>The value of a 64-bit number after a cast to a signed or unsigned type of \<open>n\<close> bytes.\<close>

definition cast_int :: "nat \<Rightarrow> 64 word \<Rightarrow> 64 word" where
  "cast_int n v = signed_take_bit (8 * n - 1) v"

definition cast_uint :: "nat \<Rightarrow> 64 word \<Rightarrow> 64 word" where
  "cast_uint n v = take_bit (8 * n) v"

definition int_size :: "nat \<Rightarrow> bool" where
  "int_size n \<longleftrightarrow> n = 8 \<or> n = 4 \<or> n = 2 \<or> n = 1"

definition store_clamped :: "pb_field \<Rightarrow> addr \<Rightarrow> (nat \<Rightarrow> 64 word \<Rightarrow> 64 word) \<Rightarrow> 64 word \<Rightarrow> 's dec" where
  "store_clamped field dest cast svalue =
     (if int_size (data_size field)
      then let clamped = cast (data_size field) svalue in
        dwrite (\<lambda>m. store m dest (data_size field) (unat clamped))
          (if clamped \<noteq> svalue then derr ''integer too large'' else dret True)
      else derr ''invalid data_size'')"

definition pb_dec_varint :: "pb_field \<Rightarrow> addr \<Rightarrow> 's dec" where
  "pb_dec_varint field dest =
     dread pb_decode_varint
       (\<lambda>v. let svalue = (if data_size field = 8 then v else cast_int 4 v) in
            store_clamped field dest cast_int svalue)"

definition pb_dec_uvarint :: "pb_field \<Rightarrow> addr \<Rightarrow> 's dec" where
  "pb_dec_uvarint field dest = dread pb_decode_varint (store_clamped field dest cast_uint)"

definition pb_dec_svarint :: "pb_field \<Rightarrow> addr \<Rightarrow> 's dec" where
  "pb_dec_svarint field dest = dread pb_decode_svarint (store_clamped field dest cast_int)"

definition pb_dec_fixed32 :: "pb_field \<Rightarrow> addr \<Rightarrow> 's dec" where
  "pb_dec_fixed32 field dest =
     dread pb_decode_fixed32 (\<lambda>v. dwrite (\<lambda>m. store m dest 4 (unat v)) (dret True))"

definition pb_dec_fixed64 :: "pb_field \<Rightarrow> addr \<Rightarrow> 's dec" where
  "pb_dec_fixed64 field dest =
     dread pb_decode_fixed64 (\<lambda>v. dwrite (\<lambda>m. store m dest 8 (unat v)) (dret True))"

definition pb_dec_bytes :: "pb_field \<Rightarrow> addr \<Rightarrow> 's dec" where
  "pb_dec_bytes field dest =
     dread pb_decode_varint32
       (\<lambda>sz. let n = unat sz; alloc_size = PB_BYTES_ARRAY_T_ALLOCSIZE n in
          if PB_SIZE_MAX < n then derr ''bytes overflow''
          else if alloc_size < n then derr ''size too large''
          else if atype field = PB_ATYPE_POINTER then derr ''no malloc support''
          else if data_size field < alloc_size then derr ''bytes overflow''
          else dwrite (\<lambda>m. store m dest 4 n)
            (dread (pb_read n) (\<lambda>bs. dwrite (\<lambda>m. mem_write m (dest + 4) bs) (dret True))))"

text \<open>The size plus one is computed on 32 bits, so it is zero for the largest size.\<close>

definition pb_dec_string :: "pb_field \<Rightarrow> addr \<Rightarrow> 's dec" where
  "pb_dec_string field dest =
     dread pb_decode_varint32
       (\<lambda>sz s m. let n = unat sz; alloc_size = unat (sz + 1) in
          if alloc_size < n then derr ''size too large'' s m
          else if atype field = PB_ATYPE_POINTER then derr ''no malloc support'' s m
          else if data_size field < alloc_size then derr ''string overflow'' s m
          else case pb_read n s of
                 (None, s') \<Rightarrow> Ret (False, s', store m (dest + int n) 1 0)
               | (Some bs, s') \<Rightarrow> Ret (True, s', store (mem_write m dest bs) (dest + int n) 1 0))"

definition pb_dec_fixed_length_bytes :: "pb_field \<Rightarrow> addr \<Rightarrow> 's dec" where
  "pb_dec_fixed_length_bytes field dest =
     dread pb_decode_varint32
       (\<lambda>sz. let n = unat sz in
          if PB_SIZE_MAX < n then derr ''bytes overflow''
          else if n = 0 then dwrite (\<lambda>m. mem_set m dest 0 (data_size field)) (dret True)
          else if n \<noteq> data_size field then derr ''incorrect fixed length bytes size''
          else dread (pb_read (data_size field)) (\<lambda>bs. dwrite (\<lambda>m. mem_write m dest bs) (dret True)))"

text \<open>
  Submessages. \<open>defaults\<close> and \<open>noinit\<close> stand for \<open>pb_message_set_to_defaults\<close> and
  \<open>pb_decode_noinit\<close> on the descriptors of the submessage.
\<close>

type_synonym defaults = "pb_field list \<Rightarrow> addr \<Rightarrow> mem \<Rightarrow> mem run"

type_synonym 's noinit = "pb_field list \<Rightarrow> addr \<Rightarrow> 's dec"

definition pb_decode_with :: "defaults \<Rightarrow> 's noinit \<Rightarrow> 's noinit" where
  "pb_decode_with defaults noinit fs dest s m = run_bind (defaults fs dest m) (noinit fs dest s)"

text \<open>Decode from the substream, then close it in any case.\<close>

definition close_after :: "'s pb_istream \<Rightarrow> bool \<times> 's pb_istream \<times> mem \<Rightarrow> (bool \<times> 's pb_istream \<times> mem) run" where
  "close_after s r =
     (case r of (status, sub, m) \<Rightarrow>
        (case pb_close_string_substream s sub of
           (None, s') \<Rightarrow> Ret (False, s', m)
         | (Some _, s') \<Rightarrow> Ret (status, s', m)))"

definition pb_dec_submessage :: "defaults \<Rightarrow> 's noinit \<Rightarrow> pb_field \<Rightarrow> addr \<Rightarrow> 's dec" where
  "pb_dec_submessage defaults noinit field dest =
     dread pb_make_string_substream
       (\<lambda>substream s m.
          case ptr field of
            NullPtr \<Rightarrow> derr ''invalid field descriptor'' s m
          | Default _ \<Rightarrow> Undef
          | Fields fs \<Rightarrow>
              run_bind
                (if htype field = PB_HTYPE_REPEATED
                 then pb_decode_with defaults noinit fs dest substream m
                 else noinit fs dest substream m)
                (close_after s))"

text \<open>The table \<open>PB_DECODERS\<close>: its entry for extensions is null, and it has ten entries.\<close>

definition PB_DECODERS :: "defaults \<Rightarrow> 's noinit \<Rightarrow> 8 word \<Rightarrow> pb_field \<Rightarrow> addr \<Rightarrow> 's dec" where
  "PB_DECODERS defaults noinit lt field dest =
     (if lt = PB_LTYPE_VARINT then pb_dec_varint field dest
      else if lt = PB_LTYPE_UVARINT then pb_dec_uvarint field dest
      else if lt = PB_LTYPE_SVARINT then pb_dec_svarint field dest
      else if lt = PB_LTYPE_FIXED32 then pb_dec_fixed32 field dest
      else if lt = PB_LTYPE_FIXED64 then pb_dec_fixed64 field dest
      else if lt = PB_LTYPE_BYTES then pb_dec_bytes field dest
      else if lt = PB_LTYPE_STRING then pb_dec_string field dest
      else if lt = PB_LTYPE_SUBMESSAGE then pb_dec_submessage defaults noinit field dest
      else if lt = PB_LTYPE_FIXED_LENGTH_BYTES then pb_dec_fixed_length_bytes field dest
      else (\<lambda>s m. Undef))"

section \<open>Decoding one field\<close>

text \<open>
  The loop over a packed array: it stops when the substream is empty, the array is full, or an
  item fails. The first number bounds the rounds.
\<close>

definition item_addr :: "addr \<Rightarrow> pb_field \<Rightarrow> nat \<Rightarrow> addr" where
  "item_addr base f i = base + int ((data_size f * i) mod 2 ^ 32)"

fun packed_loop :: "(addr \<Rightarrow> 's dec) \<Rightarrow> pb_field_iter \<Rightarrow> nat \<Rightarrow> 's dec" where
  "packed_loop func it 0 sub m = NoFuel"
| "packed_loop func it (Suc k) sub m =
     (let n = load m (pSize it) 4 in
      if 0 < bytes_left sub \<and> n < array_size (cur it) then
        run_bind (func (item_addr (pData it) (cur it) n) sub m)
          (\<lambda>(ok, sub', m').
             if ok then packed_loop func it k sub' (store m' (pSize it) 4 (load m' (pSize it) 4 + 1))
             else Ret (False, sub', m'))
      else Ret (True, sub, m))"

definition decode_static_field ::
  "defaults \<Rightarrow> 's noinit \<Rightarrow> nat \<Rightarrow> pb_field_iter \<Rightarrow> 's dec" where
  "decode_static_field defaults noinit wire_type it =
     (let f = cur it; func = PB_DECODERS defaults noinit (ltype f) f in
      if htype f = PB_HTYPE_REQUIRED then func (pData it)
      else if htype f = PB_HTYPE_OPTIONAL then
        dwrite (\<lambda>m. if pSize it \<noteq> pData it then store m (pSize it) 1 1 else m) (func (pData it))
      else if htype f = PB_HTYPE_REPEATED then
        (if wire_type = PB_WT_STRING \<and> ltype f \<le> PB_LTYPE_LAST_PACKABLE then
           dread pb_make_string_substream
             (\<lambda>substream s m.
                run_bind (packed_loop func it (Suc (bytes_left substream)) substream m)
                  (\<lambda>(status, sub', m').
                     if bytes_left sub' \<noteq> 0 then derr ''array overflow'' s m'
                     else close_after s (status, sub', m')))
         else
           (\<lambda>s m. let n = load m (pSize it) 4 in
              if array_size f \<le> n then derr ''array overflow'' s m
              else func (item_addr (pData it) f n) s (store m (pSize it) 4 (n + 1))))
      else
        (\<lambda>s m.
           let m1 = store m (pSize it) 4 (tag f) in
           if ltype f = PB_LTYPE_SUBMESSAGE then
             (case ptr f of
                Fields fs \<Rightarrow>
                  run_bind (defaults fs (pData it) (mem_set m1 (pData it) 0 (data_size f)))
                    (func (pData it) s)
              | _ \<Rightarrow> Undef)
           else func (pData it) s m1))"

definition decode_pointer_field :: "nat \<Rightarrow> pb_field_iter \<Rightarrow> 's dec" where
  "decode_pointer_field wire_type it = derr ''no malloc support''"

fun callback_loop :: "('s pb_istream \<Rightarrow> mem \<Rightarrow> bool \<times> 's pb_istream \<times> mem) \<Rightarrow> nat \<Rightarrow> 's dec" where
  "callback_loop f 0 sub m = NoFuel"
| "callback_loop f (Suc k) sub m =
     (case f sub m of
        (False, sub', m') \<Rightarrow> Ret (False, sub', m')
      | (True, sub', m') \<Rightarrow>
          if bytes_left sub' \<noteq> 0 then callback_loop f k sub' m' else Ret (True, sub', m'))"

definition decode_callback_field :: "'s pb_env \<Rightarrow> nat \<Rightarrow> nat \<Rightarrow> pb_field_iter \<Rightarrow> 's dec" where
  "decode_callback_field env k wire_type it s m =
     (let func = callback_func m (pData it); arg = callback_arg (pData it);
          call = (\<lambda>sub m. decode_fn env func sub (cur it) arg m) in
      if func = 0 then dread (pb_skip_field wire_type) (\<lambda>_. dret True) s m
      else if wire_type = PB_WT_STRING then
        dread pb_make_string_substream
          (\<lambda>substream s m.
             run_bind (callback_loop call k substream m)
               (\<lambda>(ok, sub', m').
                  if ok then close_after s (True, sub', m') else derr ''callback failed'' s m'))
          s m
      else
        dread (read_raw_value wire_type 10)
          (\<lambda>buffer s m.
             case call (pb_istream_from_buffer buffer (length buffer)) m of
               (status, _, m') \<Rightarrow> Ret (status, s, m'))
          s m)"

definition decode_field ::
  "'s pb_env \<Rightarrow> nat \<Rightarrow> defaults \<Rightarrow> 's noinit \<Rightarrow> nat \<Rightarrow> pb_field_iter \<Rightarrow> 's dec" where
  "decode_field env k defaults noinit wire_type it =
     (let f = cur it in
      if atype f = PB_ATYPE_STATIC then decode_static_field defaults noinit wire_type it
      else if atype f = PB_ATYPE_POINTER then decode_pointer_field wire_type it
      else if atype f = PB_ATYPE_CALLBACK then decode_callback_field env k wire_type it
      else derr ''invalid field type'')"

section \<open>Extensions\<close>

definition iter_from_extension :: "'s pb_env \<Rightarrow> addr \<Rightarrow> mem \<Rightarrow> pb_field_iter" where
  "iter_from_extension env e m =
     (let field = ext_arg (ext_type env (ext_type_ptr m e));
          it = snd (pb_field_iter_begin [field] (ext_dest m e));
          it1 = it\<lparr>pData := ext_dest m e, pSize := ext_found e\<rparr>
      in if atype field = PB_ATYPE_POINTER then it1\<lparr>pData := ext_dest_field e\<rparr> else it1)"

definition default_extension_decoder ::
  "'s pb_env \<Rightarrow> nat \<Rightarrow> defaults \<Rightarrow> 's noinit \<Rightarrow> addr \<Rightarrow> nat \<Rightarrow> nat \<Rightarrow> 's dec" where
  "default_extension_decoder env k defaults noinit e t wire_type s m =
     (let field = ext_arg (ext_type env (ext_type_ptr m e)) in
      if tag field \<noteq> t then Ret (True, s, m)
      else decode_field env k defaults noinit wire_type (iter_from_extension env e m) s
             (store m (ext_found e) 1 1))"

text \<open>
  The list of extensions of a message, tried in turn until one has read from the stream. The
  list is in memory, so its length is bounded by fuel; \<open>p\<close> is \<open>bytes_left\<close> at the start.
\<close>

fun extension_loop ::
  "'s pb_env \<Rightarrow> nat \<Rightarrow> defaults \<Rightarrow> 's noinit \<Rightarrow> nat \<Rightarrow> nat \<Rightarrow> nat \<Rightarrow> nat \<Rightarrow> addr \<Rightarrow> 's dec" where
  "extension_loop env k defaults noinit t wire_type p 0 e s m = NoFuel"
| "extension_loop env k defaults noinit t wire_type p (Suc j) e s m =
     (if e \<noteq> 0 \<and> p = bytes_left s then
        run_bind
          (case ext_decode (ext_type env (ext_type_ptr m e)) of
             Some f \<Rightarrow> Ret (f s e t wire_type m)
           | None \<Rightarrow> default_extension_decoder env k defaults noinit e t wire_type s m)
          (\<lambda>(status, s', m').
             if status then extension_loop env k defaults noinit t wire_type p j (ext_next m' e) s' m'
             else Ret (False, s', m'))
      else Ret (True, s, m))"

definition decode_extension ::
  "'s pb_env \<Rightarrow> nat \<Rightarrow> defaults \<Rightarrow> 's noinit \<Rightarrow> nat \<Rightarrow> nat \<Rightarrow> pb_field_iter \<Rightarrow> 's dec" where
  "decode_extension env k defaults noinit t wire_type it s m =
     extension_loop env k defaults noinit t wire_type (bytes_left s) k (load_ptr m (pData it)) s m"

definition find_extension_field :: "pb_field_iter \<Rightarrow> (bool \<times> pb_field_iter) option" where
  "find_extension_field it =
     iter_search (\<lambda>f. ltype f = PB_LTYPE_EXTENSION) (pos it) (Suc (length (start it))) it"

section \<open>Default values\<close>

definition message_defaults_with :: "(pb_field_iter \<Rightarrow> mem \<Rightarrow> mem run) \<Rightarrow> defaults" where
  "message_defaults_with set_field fs dest m =
     (let (nonempty, it) = pb_field_iter_begin fs dest in
      if nonempty then iter_do set_field it m else Ret m)"

fun extension_defaults_loop ::
  "'s pb_env \<Rightarrow> (pb_field_iter \<Rightarrow> mem \<Rightarrow> mem run) \<Rightarrow> nat \<Rightarrow> addr \<Rightarrow> mem \<Rightarrow> mem run" where
  "extension_defaults_loop env set_field 0 e m = NoFuel"
| "extension_defaults_loop env set_field (Suc j) e m =
     (if e \<noteq> 0 then
        let m1 = store m (ext_found e) 1 0 in
        run_bind (set_field (iter_from_extension env e m1) m1)
          (\<lambda>m2. extension_defaults_loop env set_field j (ext_next m2 e) m2)
      else Ret m)"

definition init_data :: "(pb_field_iter \<Rightarrow> mem \<Rightarrow> mem run) \<Rightarrow> pb_field_iter \<Rightarrow> mem \<Rightarrow> mem run" where
  "init_data set_field it m =
     (let f = cur it in
      if ltype f = PB_LTYPE_SUBMESSAGE then
        (case ptr f of Fields fs \<Rightarrow> message_defaults_with set_field fs (pData it) m | _ \<Rightarrow> Undef)
      else (case ptr f of
              NullPtr \<Rightarrow> Ret (mem_set m (pData it) 0 (data_size f))
            | Default bs \<Rightarrow>
                if length bs < data_size f then Undef
                else Ret (mem_write m (pData it) (take (data_size f) bs))
            | Fields _ \<Rightarrow> Undef))"

definition field_default_step ::
  "'s pb_env \<Rightarrow> nat \<Rightarrow> (pb_field_iter \<Rightarrow> mem \<Rightarrow> mem run) \<Rightarrow> pb_field_iter \<Rightarrow> mem \<Rightarrow> mem run" where
  "field_default_step env k set_field it m =
     (let f = cur it in
      if ltype f = PB_LTYPE_EXTENSION then
        extension_defaults_loop env set_field k (load_ptr m (pData it)) m
      else if atype f = PB_ATYPE_STATIC then
        (if htype f = PB_HTYPE_OPTIONAL \<and> pSize it \<noteq> pData it
           then init_data set_field it (store m (pSize it) 1 0)
         else if htype f = PB_HTYPE_REPEATED \<or> htype f = PB_HTYPE_ONEOF
           then Ret (store m (pSize it) 4 0)
         else init_data set_field it m)
      else if atype f = PB_ATYPE_POINTER then
        Ret (let m1 = store m (pData it) sizeof_ptr 0 in
             if htype f = PB_HTYPE_REPEATED \<or> htype f = PB_HTYPE_ONEOF
             then store m1 (pSize it) 4 0 else m1)
      else Ret m)"

primrec pb_field_set_to_default :: "'s pb_env \<Rightarrow> nat \<Rightarrow> pb_field_iter \<Rightarrow> mem \<Rightarrow> mem run" where
  "pb_field_set_to_default env 0 = (\<lambda>it m. NoFuel)"
| "pb_field_set_to_default env (Suc k) = field_default_step env k (pb_field_set_to_default env k)"

definition pb_message_set_to_defaults :: "'s pb_env \<Rightarrow> nat \<Rightarrow> defaults" where
  "pb_message_set_to_defaults env k = message_defaults_with (pb_field_set_to_default env k)"

section \<open>The main loop\<close>

definition mark_seen :: "pb_field_iter \<Rightarrow> 32 word list \<Rightarrow> 32 word list" where
  "mark_seen it seen =
     (let i = required_field_index it in
      if htype (cur it) = PB_HTYPE_REQUIRED \<and> i < 64
      then seen[i div 32 := seen ! (i div 32) OR push_bit (i mod 32) 1] else seen)"

text \<open>
  The loop variables: the iterator, \<open>fields_seen\<close>, \<open>extension_range_start\<close>, the stream and the
  memory. The first component of the result is the function's own result so far: false when it
  has returned false from inside the loop.
\<close>

type_synonym 's loop_result = "(bool \<times> pb_field_iter \<times> 32 word list \<times> 's pb_istream \<times> mem) run"

definition unknown_field ::
  "'s pb_env \<Rightarrow> nat \<Rightarrow> defaults \<Rightarrow> 's noinit \<Rightarrow> nat \<Rightarrow> nat \<Rightarrow> pb_field_iter \<Rightarrow> nat \<Rightarrow> 's pb_istream \<Rightarrow> mem \<Rightarrow>
   (bool \<times> pb_field_iter \<times> nat \<times> 's pb_istream \<times> mem) run" where
  "unknown_field env k defaults noinit t wire_type it ext_start s m =
     (let skip = (\<lambda>it ext s m.
            case pb_skip_field wire_type s of
              (None, s') \<Rightarrow> Ret (False, it, ext, s', m)
            | (Some _, s') \<Rightarrow> Ret (True, it, ext, s', m)) in
      if ext_start \<le> t then
        (case find_extension_field it of
           None \<Rightarrow> NoFuel
         | Some (found, it') \<Rightarrow>
             let ext' = (if found then tag (cur it') else 2 ^ 32 - 1) in
             if ext' \<le> t then
               run_bind (decode_extension env k defaults noinit t wire_type it' s m)
                 (\<lambda>(status, s', m').
                    if \<not> status then Ret (False, it', ext', s', m')
                    else if bytes_left s \<noteq> bytes_left s' then Ret (True, it', ext', s', m')
                    else skip it' ext' s' m')
             else skip it' ext' s m)
      else skip it ext_start s m)"

fun decode_loop ::
  "'s pb_env \<Rightarrow> nat \<Rightarrow> defaults \<Rightarrow> 's noinit \<Rightarrow> nat \<Rightarrow>
   pb_field_iter \<Rightarrow> 32 word list \<Rightarrow> nat \<Rightarrow> 's pb_istream \<Rightarrow> mem \<Rightarrow> 's loop_result" where
  "decode_loop env k defaults noinit 0 it seen ext s m = NoFuel"
| "decode_loop env k defaults noinit (Suc j) it seen ext s m =
     (if bytes_left s = 0 then Ret (True, it, seen, s, m)
      else case pb_decode_tag s of
             (Tag_end, s1) \<Rightarrow> Ret (True, it, seen, s1, m)
           | (Tag_error, s1) \<Rightarrow> Ret (False, it, seen, s1, m)
           | (Tag_ok wire_type t, s1) \<Rightarrow>
               (case pb_field_iter_find it t of
                  None \<Rightarrow> NoFuel
                | Some (False, it1) \<Rightarrow>
                    run_bind (unknown_field env k defaults noinit t wire_type it1 ext s1 m)
                      (\<lambda>(ok, it2, ext2, s2, m2).
                         if ok then decode_loop env k defaults noinit j it2 seen ext2 s2 m2
                         else Ret (False, it2, seen, s2, m2))
                | Some (True, it1) \<Rightarrow>
                    run_bind (decode_field env k defaults noinit wire_type it1 s1 m)
                      (\<lambda>(ok, s2, m2).
                         if ok then decode_loop env k defaults noinit j it1 (mark_seen it1 seen) ext s2 m2
                         else Ret (False, it1, mark_seen it1 seen, s2, m2))))"

section \<open>Required fields\<close>

text \<open>Run the iterator to the end of the array: the last required index and the last type.\<close>

function count_required :: "pb_field_iter \<Rightarrow> nat \<times> 8 word \<times> pb_field_iter" where
  "count_required it =
     (if fst (pb_field_iter_next it) then count_required (snd (pb_field_iter_next it))
      else (required_field_index it, type (cur it), snd (pb_field_iter_next it)))"
  by pat_completeness auto
termination
proof (relation "measure (\<lambda>it. length (start it) - pos it)")
  fix it
  assume "fst (pb_field_iter_next it)"
  from iter_next_advances [OF this]
  show "(snd (pb_field_iter_next it), it) \<in> measure (\<lambda>it. length (start it) - pos it)"
    by simp linarith
qed simp

declare count_required.simps [simp del]

text \<open>
  The check of \<open>fields_seen\<close>: whole words first, then the remaining bits. The array has two
  words; reading a third, and shifting \<open>allbits\<close> by 32, are undefined.
\<close>

fun check_words :: "32 word list \<Rightarrow> nat list \<Rightarrow> bool run" where
  "check_words seen [] = Ret True"
| "check_words seen (i # is) =
     (if length seen \<le> i then Undef
      else if seen ! i \<noteq> NOT 0 then Ret False else check_words seen is)"

definition required_seen :: "32 word list \<Rightarrow> nat \<Rightarrow> bool run" where
  "required_seen seen n =
     (if n = 0 then Ret True
      else run_bind (check_words seen [0..<n div 32])
        (\<lambda>whole.
           if \<not> whole then Ret False
           else if length seen \<le> n div 32 \<or> n mod 32 = 0 then Undef
           else Ret (seen ! (n div 32) = drop_bit (32 - n mod 32) (NOT 0))))"

definition check_required :: "pb_field_iter \<Rightarrow> 32 word list \<Rightarrow> bool run" where
  "check_required it seen =
     (case count_required it of
        (req_field_count, last_type, it') \<Rightarrow>
          required_seen seen
            (if PB_HTYPE last_type = PB_HTYPE_REQUIRED \<and> tag (cur it') \<noteq> 0
             then Suc req_field_count else req_field_count))"

definition noinit_body :: "'s pb_env \<Rightarrow> nat \<Rightarrow> defaults \<Rightarrow> 's noinit \<Rightarrow> 's noinit" where
  "noinit_body env k defaults noinit fs dest s m =
     run_bind
       (decode_loop env k defaults noinit (Suc k) (snd (pb_field_iter_begin fs dest)) [0, 0] 0 s m)
       (\<lambda>(ok, it, seen, s', m').
          if \<not> ok then Ret (False, s', m')
          else run_bind (check_required it seen)
            (\<lambda>all. if all then Ret (True, s', m')
                   else derr ''missing required field'' s' m'))"

primrec pb_decode_noinit :: "'s pb_env \<Rightarrow> nat \<Rightarrow> 's noinit" where
  "pb_decode_noinit env 0 = (\<lambda>fs dest s m. NoFuel)"
| "pb_decode_noinit env (Suc k) =
     noinit_body env k (pb_message_set_to_defaults env k) (pb_decode_noinit env k)"

definition pb_decode :: "'s pb_env \<Rightarrow> nat \<Rightarrow> 's noinit" where
  "pb_decode env k = pb_decode_with (pb_message_set_to_defaults env k) (pb_decode_noinit env k)"

definition pb_decode_delimited :: "'s pb_env \<Rightarrow> nat \<Rightarrow> 's noinit" where
  "pb_decode_delimited env k fs dest =
     dread pb_make_string_substream
       (\<lambda>substream s m. run_bind (pb_decode env k fs dest substream m) (close_after s))"

end
