(* ===== verification/PbDecodeFrame.thy ===== *)
theory PbDecodeFrame
  imports PbDecode
begin

text \<open>
  Memory safety of the nanopb decoder: for a descriptor array whose layout fits a structure of
  a given size, no input, stream or message content makes the decoder write outside the
  structure (apart from what callbacks of the caller write). The layout condition is what the
  generated descriptors satisfy; the proof goes through the decoder function by function and
  closes the recursion by induction on the fuel.
\<close>

section \<open>Descriptors that fit their structure\<close>

definition footprint :: "pb_field \<Rightarrow> nat" where
  "footprint f =
     (if atype f = PB_ATYPE_POINTER then sizeof_ptr
      else if htype f = PB_HTYPE_REPEATED then data_size f * array_size f else data_size f)"

definition field_fits :: "nat \<Rightarrow> pb_field \<Rightarrow> addr \<Rightarrow> addr \<Rightarrow> bool" where
  "field_fits sz f data sizep \<longleftrightarrow>
     ltype f \<noteq> PB_LTYPE_EXTENSION \<and>
     (atype f = PB_ATYPE_STATIC \<or> atype f = PB_ATYPE_POINTER \<longrightarrow>
        0 \<le> data \<and> data + int (footprint f) \<le> int sz \<and>
        (htype f = PB_HTYPE_OPTIONAL \<and> sizep \<noteq> data \<longrightarrow> 0 \<le> sizep \<and> sizep + 1 \<le> int sz) \<and>
        (htype f = PB_HTYPE_REPEATED \<or> htype f = PB_HTYPE_ONEOF \<longrightarrow>
           0 \<le> sizep \<and> sizep + 4 \<le> int sz) \<and>
        (htype f = PB_HTYPE_REPEATED \<longrightarrow> data_size f * array_size f < 2 ^ 32) \<and>
        (ltype f = PB_LTYPE_FIXED32 \<longrightarrow> 4 \<le> data_size f) \<and>
        (ltype f = PB_LTYPE_FIXED64 \<longrightarrow> 8 \<le> data_size f))"

inductive wf_msg :: "pb_field list \<Rightarrow> nat \<Rightarrow> bool" where
  wf_msgI:
  "nfields fs = length fs \<Longrightarrow>
   (\<And>i. i < nfields fs \<Longrightarrow>
      field_fits sz (fs ! i) (pData (iter_at fs 0 i)) (pSize (iter_at fs 0 i))) \<Longrightarrow>
   (\<And>i sub. i < nfields fs \<Longrightarrow> ptr (fs ! i) = Fields sub \<Longrightarrow> wf_msg sub (data_size (fs ! i))) \<Longrightarrow>
   wf_msg fs sz"

inductive_cases wf_msgE: "wf_msg fs sz"

lemma wf_msg_nfields: "wf_msg fs sz \<Longrightarrow> nfields fs = length fs"
  by (auto elim: wf_msgE)

lemma wf_msg_field:
  assumes "wf_msg fs sz" and "i < nfields fs"
  shows "field_fits sz (fs ! i) (pData (iter_at fs 0 i)) (pSize (iter_at fs 0 i))"
  using assms by (auto elim: wf_msgE)

lemma wf_msg_sub:
  assumes "wf_msg fs sz" and "i < nfields fs" and "ptr (fs ! i) = Fields sub"
  shows "wf_msg sub (data_size (fs ! i))"
  using assms by (auto elim: wf_msgE)

lemma wf_msg_fits_at:
  assumes "wf_msg fs sz" and "i < nfields fs"
  shows "field_fits sz (fs ! i) (pData (iter_at fs d i) - d) (pSize (iter_at fs d i) - d)"
  using wf_msg_field [OF assms] iter_at_shift [of fs d i] by simp

section \<open>Frames of decoders\<close>

definition frames :: "addr set \<Rightarrow> 's dec \<Rightarrow> bool" where
  "frames A d \<longleftrightarrow> (\<forall>s m b s' m'. d s m = Ret (b, s', m') \<longrightarrow> changed_only A m m')"

definition mframes :: "addr set \<Rightarrow> (mem \<Rightarrow> mem run) \<Rightarrow> bool" where
  "mframes A g \<longleftrightarrow> (\<forall>m m'. g m = Ret m' \<longrightarrow> changed_only A m m')"

named_theorems frame_intros

lemma framesI: "(\<And>s m b s' m'. d s m = Ret (b, s', m') \<Longrightarrow> changed_only A m m') \<Longrightarrow> frames A d"
  by (auto simp: frames_def)

lemma framesD: "frames A d \<Longrightarrow> d s m = Ret (b, s', m') \<Longrightarrow> changed_only A m m'"
  by (auto simp: frames_def)

lemma mframesI: "(\<And>m m'. g m = Ret m' \<Longrightarrow> changed_only A m m') \<Longrightarrow> mframes A g"
  by (auto simp: mframes_def)

lemma mframesD: "mframes A g \<Longrightarrow> g m = Ret m' \<Longrightarrow> changed_only A m m'"
  by (auto simp: mframes_def)

lemma frames_mono: "frames A d \<Longrightarrow> A \<subseteq> B \<Longrightarrow> frames B d"
  unfolding frames_def by (blast intro: changed_only_mono)

lemma frames_dret [frame_intros]: "frames A (dret b)"
  by (simp add: frames_def dret_def)

lemma frames_derr [frame_intros]: "frames A (derr msg)"
  by (simp add: frames_def derr_def)

lemma frames_undef [frame_intros]: "frames A (\<lambda>s m. Undef)"
  by (simp add: frames_def)

lemma frames_dread [frame_intros]:
  assumes "\<And>v. frames A (f v)"
  shows "frames A (dread rd f)"
proof (rule framesI)
  fix s m b s' m' assume "dread rd f s m = Ret (b, s', m')"
  then show "changed_only A m m'"
    by (auto simp: dread_def intro: framesD [OF assms] split: prod.splits option.splits)
qed

lemma frames_dwrite [frame_intros]:
  assumes "\<And>m. changed_only A m (g m)" and "frames A d"
  shows "frames A (dwrite g d)"
  unfolding frames_def dwrite_def
  using framesD [OF assms(2)] changed_only_trans [OF assms(1)] by blast

lemma frames_if [frame_intros]: "(c \<Longrightarrow> frames A d) \<Longrightarrow> (\<not> c \<Longrightarrow> frames A e) \<Longrightarrow> frames A (if c then d else e)"
  by simp

lemma frames_let [frame_intros]: "frames A (f v) \<Longrightarrow> frames A (let x = v in f x)"
  by simp

text \<open>Reads deliver at most the number of bytes asked for, so copying them stays in place.\<close>

lemma pb_read_length: "pb_read n s = (Some bs, s') \<Longrightarrow> length bs \<le> n"
  by (auto simp: pb_read_def rerr_def stream_callback_def
      split: if_splits in_source.splits read_result.splits prod.splits option.splits)

lemma frames_read_into:
  assumes "span a n \<subseteq> A" and "frames A d"
  shows "frames A (dread (pb_read n) (\<lambda>bs. dwrite (\<lambda>m. mem_write m a bs) d))"
proof (rule framesI)
  fix s m b s' m'
  assume "dread (pb_read n) (\<lambda>bs. dwrite (\<lambda>m. mem_write m a bs) d) s m = Ret (b, s', m')"
  then consider "m' = m" | bs s1 where "pb_read n s = (Some bs, s1)"
      "d s1 (mem_write m a bs) = Ret (b, s', m')"
    by (auto simp: dread_def dwrite_def split: prod.splits option.splits)
  then show "changed_only A m m'"
  proof cases
    case 2
    then have "span a (length bs) \<subseteq> A"
      using pb_read_length [OF 2(1)] assms(1) by (auto simp: span_def subset_iff)
    then have "changed_only A m (mem_write m a bs)" by (rule changed_only_write)
    with framesD [OF assms(2) 2(2)] show ?thesis by (blast intro: changed_only_trans)
  qed simp
qed

section \<open>Field decoders\<close>

lemma frames_store_clamped: "frames (span dest (data_size f)) (store_clamped f dest c v)"
  unfolding store_clamped_def
  by (auto intro!: frame_intros changed_only_store)

lemma frames_dec_varint: "frames (span dest (data_size f)) (pb_dec_varint f dest)"
  unfolding pb_dec_varint_def by (intro frame_intros frames_store_clamped)

lemma frames_dec_uvarint: "frames (span dest (data_size f)) (pb_dec_uvarint f dest)"
  unfolding pb_dec_uvarint_def by (intro frame_intros frames_store_clamped)

lemma frames_dec_svarint: "frames (span dest (data_size f)) (pb_dec_svarint f dest)"
  unfolding pb_dec_svarint_def by (intro frame_intros frames_store_clamped)

lemma frames_dec_fixed32:
  "4 \<le> data_size f \<Longrightarrow> frames (span dest (data_size f)) (pb_dec_fixed32 f dest)"
  unfolding pb_dec_fixed32_def
  by (intro frame_intros changed_only_store span_subset) simp_all

lemma frames_dec_fixed64:
  "8 \<le> data_size f \<Longrightarrow> frames (span dest (data_size f)) (pb_dec_fixed64 f dest)"
  unfolding pb_dec_fixed64_def
  by (intro frame_intros changed_only_store span_subset) simp_all

lemma frames_dec_bytes: "frames (span dest (data_size f)) (pb_dec_bytes f dest)"
  unfolding pb_dec_bytes_def Let_def PB_BYTES_ARRAY_T_ALLOCSIZE_def
  by (rule frames_read_into frame_intros changed_only_store span_subset | linarith)+

lemma frames_dec_fixed_length_bytes:
  "frames (span dest (data_size f)) (pb_dec_fixed_length_bytes f dest)"
  unfolding pb_dec_fixed_length_bytes_def Let_def
  by (rule frames_read_into frame_intros changed_only_set order_refl)+

lemma unat_succ_le:
  "\<not> unat (sz + 1) < unat (sz :: 32 word) \<Longrightarrow> unat (sz + 1) = unat sz + 1"
proof -
  assume no_wrap: "\<not> unat (sz + 1) < unat sz"
  have "unat sz + 1 < 2 ^ 32"
  proof (rule ccontr)
    assume "\<not> unat sz + 1 < 2 ^ 32"
    moreover have "unat sz < 2 ^ 32" using unsigned_less [of sz, where ?'a = nat] by simp
    ultimately have max: "unat sz + 1 = 2 ^ 32" by linarith
    then have "unat (sz + 1) = 0" by (simp add: unat_word_ariths)
    with no_wrap max show False by simp
  qed
  then show ?thesis by (simp add: unat_word_ariths)
qed

lemma frames_dec_string: "frames (span dest (data_size f)) (pb_dec_string f dest :: 's dec)"
  unfolding pb_dec_string_def
proof (rule frames_dread, rule framesI)
  fix sz :: "32 word" and s s' :: "'s pb_istream" and m m' :: mem and b
  assume "(let n = unat sz; alloc_size = unat (sz + 1) in
          if alloc_size < n then derr ''size too large'' s m
          else if atype f = PB_ATYPE_POINTER then derr ''no malloc support'' s m
          else if data_size f < alloc_size then derr ''string overflow'' s m
          else case pb_read n s of
                 (None, s') \<Rightarrow> Ret (False, s', store m (dest + int n) 1 0)
               | (Some bs, s') \<Rightarrow> Ret (True, s', store (mem_write m dest bs) (dest + int n) 1 0))
       = Ret (b, s', m')"
  then consider "m' = m"
    | bs where "unat sz + 1 \<le> data_size f" "length bs \<le> unat sz"
        "m' = store (mem_write m dest bs) (dest + int (unat sz)) 1 0"
    using unat_succ_le [of sz]
    by (auto simp: derr_def Let_def dest: pb_read_length split: if_splits prod.splits option.splits)
      (metis le0 list.size(3) mem_write_Nil)
  then show "changed_only (span dest (data_size f)) m m'"
  proof cases
    case 2
    then have "changed_only (span dest (data_size f)) m (mem_write m dest bs)"
      by (intro changed_only_write span_subset) simp_all
    also have "changed_only (span dest (data_size f)) (mem_write m dest bs) m'"
      unfolding 2(3) using 2(1) by (intro changed_only_store span_subset) linarith+
    finally show ?thesis .
  qed simp
qed

text \<open>Submessages, given that the recursive calls stay within the nested structure.\<close>

definition rec_frames :: "addr set \<Rightarrow> defaults \<Rightarrow> 's noinit \<Rightarrow> bool" where
  "rec_frames W defaults noinit \<longleftrightarrow>
     (\<forall>fs sz dest. wf_msg fs sz \<longrightarrow>
        mframes (span dest sz \<union> W) (defaults fs dest) \<and> frames (span dest sz \<union> W) (noinit fs dest))"

lemma frames_close_after:
  assumes "close_after s (status, sub, m1) = Ret (b, s', m')"
  shows "m' = m1"
  using assms by (auto simp: close_after_def split: prod.splits option.splits)

lemma frames_pb_decode_with:
  assumes "mframes A (defaults fs dest)" and "frames A (noinit fs dest)"
  shows "frames A (pb_decode_with defaults noinit fs dest)"
proof (rule framesI)
  fix s m b s' m'
  assume "pb_decode_with defaults noinit fs dest s m = Ret (b, s', m')"
  then obtain m1 where "defaults fs dest m = Ret m1" and "noinit fs dest s m1 = Ret (b, s', m')"
    by (auto simp: pb_decode_with_def run_bind_Ret_iff)
  then show "changed_only A m m'"
    using mframesD [OF assms(1)] framesD [OF assms(2)] by (blast intro: changed_only_trans)
qed

lemma frames_then_close:
  assumes "frames A d"
  shows "frames A (\<lambda>s m. run_bind (d (h s) m) (close_after (g s)))"
proof (rule framesI)
  fix s m b s' m'
  assume "run_bind (d (h s) m) (close_after (g s)) = Ret (b, s', m')"
  then obtain r where r: "d (h s) m = Ret r" and c: "close_after (g s) r = Ret (b, s', m')"
    by (auto simp: run_bind_Ret_iff)
  obtain st sub m1 where "r = (st, sub, m1)" by (cases r)
  with r c show "changed_only A m m'"
    using framesD [OF assms] frames_close_after by blast
qed

lemma frames_dec_submessage:
  assumes "rec_frames W defaults noinit"
    and "\<And>sub. ptr f = Fields sub \<Longrightarrow> wf_msg sub (data_size f)"
  shows "frames (span dest (data_size f) \<union> W) (pb_dec_submessage defaults noinit f dest :: 's dec)"
  unfolding pb_dec_submessage_def
proof (rule frames_dread)
  fix sub :: "'s pb_istream"
  let ?A = "span dest (data_size f) \<union> W"
  show "frames ?A (\<lambda>s m. case ptr f of
            NullPtr \<Rightarrow> derr ''invalid field descriptor'' s m
          | Fields fs \<Rightarrow>
              run_bind
                (if htype f = PB_HTYPE_REPEATED
                 then pb_decode_with defaults noinit fs dest sub m
                 else noinit fs dest sub m)
                (close_after s)
          | Default _ \<Rightarrow> Undef)"
  proof (cases "ptr f")
    case (Fields fs)
    with assms have d: "mframes ?A (defaults fs dest)" and n: "frames ?A (noinit fs dest)"
      by (auto simp: rec_frames_def)
    let ?d = "if htype f = PB_HTYPE_REPEATED then pb_decode_with defaults noinit fs dest
       else noinit fs dest"
    have "frames ?A (pb_decode_with defaults noinit fs dest)"
      using d n by (rule frames_pb_decode_with)
    with n have "frames ?A ?d" by simp
    from frames_then_close [OF this, of "\<lambda>_. sub" "\<lambda>s. s"] Fields
    show ?thesis by (simp add: if_distrib if_distribR)
  qed (auto simp: frames_def derr_def)
qed

lemma frames_decoders:
  assumes "rec_frames W defaults noinit"
    and "\<And>sub. ptr f = Fields sub \<Longrightarrow> wf_msg sub (data_size f)"
    and "lt = PB_LTYPE_FIXED32 \<Longrightarrow> 4 \<le> data_size f"
    and "lt = PB_LTYPE_FIXED64 \<Longrightarrow> 8 \<le> data_size f"
  shows "frames (span dest (data_size f) \<union> W) (PB_DECODERS defaults noinit lt f dest)"
proof -
  have "span dest (data_size f) \<subseteq> span dest (data_size f) \<union> W" by simp
  note up = frames_mono [OF _ this]
  show ?thesis
    unfolding PB_DECODERS_def
    by (intro frames_if frames_undef frames_dec_submessage [OF assms(1,2)]
        up [OF frames_dec_varint] up [OF frames_dec_uvarint] up [OF frames_dec_svarint]
        up [OF frames_dec_fixed32 [OF assms(3)]] up [OF frames_dec_fixed64 [OF assms(4)]]
        up [OF frames_dec_bytes] up [OF frames_dec_string] up [OF frames_dec_fixed_length_bytes])
qed

section \<open>Fields\<close>

text \<open>
  The addresses of the field an iterator points at, from the layout at address 0. An iterator
  on an empty message points at the terminator, whose decoder writes nothing.
\<close>

lemma item_in_footprint:
  assumes "n < array_size f" and "data_size f * array_size f < 2 ^ 32"
    and "lo \<le> base" and "base + int (data_size f * array_size f) \<le> lo + int sz"
  shows "span (item_addr base f n) (data_size f) \<subseteq> span lo sz"
proof -
  have "data_size f * (n + 1) \<le> data_size f * array_size f"
    using assms(1) by (intro mult_le_mono2) simp
  then have le: "data_size f * n + data_size f \<le> data_size f * array_size f" by simp
  then have "(data_size f * n) mod 2 ^ 32 = data_size f * n"
    using assms(2) by simp
  then have "item_addr base f n = base + int (data_size f * n)"
    by (simp add: item_addr_def)
  moreover have "int (data_size f * n) + int (data_size f) \<le> int (data_size f * array_size f)"
    using le by linarith
  ultimately show ?thesis
    using assms(3,4) by (intro span_subset) linarith+
qed

lemma frames_packed_loop:
  assumes "\<And>n. n < array_size (cur it) \<Longrightarrow> frames A (func (item_addr (pData it) (cur it) n))"
    and "span (pSize it) 4 \<subseteq> A"
  shows "frames A (packed_loop func it k)"
proof (induction k)
  case 0
  show ?case by (simp add: frames_def)
next
  case (Suc k)
  show ?case
  proof (rule framesI)
    fix s m b s' m'
    let ?n = "load m (pSize it) 4"
    assume *: "packed_loop func it (Suc k) s m = Ret (b, s', m')"
    show "changed_only A m m'"
    proof (cases "0 < bytes_left s \<and> ?n < array_size (cur it)")
      case False
      with * show ?thesis by (simp add: Let_def split: if_splits)
    next
      case True
      with * obtain ok s1 m1 where 1: "func (item_addr (pData it) (cur it) ?n) s m = Ret (ok, s1, m1)"
        and 2: "(if ok then packed_loop func it k s1 (store m1 (pSize it) 4 (load m1 (pSize it) 4 + 1))
                 else Ret (False, s1, m1)) = Ret (b, s', m')"
        by (auto simp: Let_def run_bind_Ret_iff)
      from True 1 have m1: "changed_only A m m1"
        using framesD [OF assms(1)] by blast
      moreover have "changed_only A m1 (store m1 (pSize it) 4 (load m1 (pSize it) 4 + 1))"
        using assms(2) by (rule changed_only_store)
      ultimately show ?thesis
        using 2 framesD [OF Suc] by (auto split: if_splits intro: changed_only_trans)
    qed
  qed
qed

lemma frames_decode_static:
  assumes fits: "field_fits sz f (pData it - dest) (pSize it - dest)"
    and static: "atype f = PB_ATYPE_STATIC"
    and f: "cur it = f"
    and sub: "\<And>sub. ptr f = Fields sub \<Longrightarrow> wf_msg sub (data_size f)"
    and rec: "rec_frames W defaults noinit"
  shows "frames (span dest sz \<union> W) (decode_static_field defaults noinit wt it :: 's dec)"
proof -
  let ?A = "span dest sz \<union> W"
  let ?func = "PB_DECODERS defaults noinit (ltype f) f :: addr \<Rightarrow> 's dec"
  have data: "dest \<le> pData it" "pData it + int (footprint f) \<le> dest + int sz"
    using fits static by (auto simp: field_fits_def)
  have func: "frames ?A (?func a)" if "span a (data_size f) \<subseteq> span dest sz" for a
  proof -
    have "frames (span a (data_size f) \<union> W) (?func a)"
      using fits static by (intro frames_decoders [OF rec sub]) (auto simp: field_fits_def)
    then show ?thesis by (rule frames_mono) (use that in blast)
  qed
  have one: "frames ?A (?func (pData it))" if "htype f \<noteq> PB_HTYPE_REPEATED"
    using data that static by (intro func span_subset) (simp_all add: footprint_def)
  have size4: "span (pSize it) 4 \<subseteq> ?A" if "htype f = PB_HTYPE_REPEATED \<or> htype f = PB_HTYPE_ONEOF"
  proof -
    have "dest \<le> pSize it" "pSize it + 4 \<le> dest + int sz"
      using fits static that by (auto simp: field_fits_def)
    then have "span (pSize it) 4 \<subseteq> span dest sz" by (intro span_subset) simp_all
    then show ?thesis by blast
  qed
  consider (req) "htype f = PB_HTYPE_REQUIRED" | (opt) "htype f = PB_HTYPE_OPTIONAL"
    | (rep) "htype f = PB_HTYPE_REPEATED" | (oneof) "htype f \<noteq> PB_HTYPE_REQUIRED"
      "htype f \<noteq> PB_HTYPE_OPTIONAL" "htype f \<noteq> PB_HTYPE_REPEATED"
    by blast
  then show ?thesis
  proof cases
    case req
    then show ?thesis using one f by (simp add: decode_static_field_def Let_def)
  next
    case opt
    have "changed_only ?A m (if pSize it \<noteq> pData it then store m (pSize it) 1 1 else m)" for m
    proof (cases "pSize it = pData it")
      case False
      then have "dest \<le> pSize it" "pSize it + 1 \<le> dest + int sz"
        using fits static opt by (auto simp: field_fits_def)
      then have "span (pSize it) 1 \<subseteq> span dest sz" by (intro span_subset) simp_all
      then have "span (pSize it) 1 \<subseteq> ?A" by blast
      with False show ?thesis by (simp add: changed_only_store)
    qed simp
    then have "frames ?A (dwrite (\<lambda>m. if pSize it \<noteq> pData it then store m (pSize it) 1 1 else m)
        (?func (pData it)))"
      using one opt by (intro frames_dwrite) simp_all
    then show ?thesis using f opt by (simp add: decode_static_field_def Let_def)
  next
    case rep
    have bound: "data_size f * array_size f < 2 ^ 32"
      using fits static rep by (simp add: field_fits_def)
    have item: "frames ?A (?func (item_addr (pData it) f n))" if "n < array_size f" for n
      using data rep static bound that
      by (intro func item_in_footprint) (simp_all add: footprint_def)
    have packed: "frames ?A (packed_loop ?func it k)" for k
      using item size4 rep f by (intro frames_packed_loop) simp_all
    show ?thesis
    proof (rule framesI)
      fix s s' :: "'s pb_istream" and m m' b
      assume *: "decode_static_field defaults noinit wt it s m = Ret (b, s', m')"
      show "changed_only ?A m m'"
      proof (cases "wt = PB_WT_STRING \<and> ltype f \<le> PB_LTYPE_LAST_PACKABLE")
        case True
        with * rep f consider "m' = m" | st s1 sub st' sub' m1 where
            "packed_loop ?func it st sub m = Ret (st', sub', m1)" "m' = m1"
          by (auto simp: decode_static_field_def Let_def dread_def derr_def run_bind_Ret_iff
              simp del: packed_loop.simps
              split: prod.splits option.splits if_splits dest!: frames_close_after)
        then show ?thesis using framesD [OF packed] by cases auto
      next
        case False
        let ?n = "load m (pSize it) 4"
        from False * rep f consider "m' = m" | "?n < array_size f"
            "?func (item_addr (pData it) f ?n) s (store m (pSize it) 4 (?n + 1)) = Ret (b, s', m')"
          by (auto simp: decode_static_field_def Let_def derr_def split: if_splits)
        then show ?thesis
        proof cases
          case 2
          have "changed_only ?A m (store m (pSize it) 4 (?n + 1))"
            using size4 rep by (intro changed_only_store) simp
          with framesD [OF item [OF 2(1)] 2(2)] show ?thesis by (blast intro: changed_only_trans)
        qed simp
      qed
    qed
  next
    case oneof
    then have h: "htype f = PB_HTYPE_ONEOF"
      using htype_exhaust [of f] by blast
    show ?thesis
    proof (rule framesI)
      fix s s' :: "'s pb_istream" and m m' b
      let ?m1 = "store m (pSize it) 4 (tag f)"
      let ?m2 = "mem_set ?m1 (pData it) 0 (data_size f)"
      assume *: "decode_static_field defaults noinit wt it s m = Ret (b, s', m')"
      have own: "span (pData it) (data_size f) \<subseteq> span dest sz"
        using data h static by (intro span_subset) (simp_all add: footprint_def)
      have m1: "changed_only ?A m ?m1"
        using size4 h by (intro changed_only_store) simp
      have m2: "changed_only ?A ?m1 ?m2"
        using own by (intro changed_only_set) blast
      show "changed_only ?A m m'"
      proof (cases "ltype f = PB_LTYPE_SUBMESSAGE")
        case False
        with * h f have "?func (pData it) s ?m1 = Ret (b, s', m')"
          by (simp add: decode_static_field_def Let_def)
        with m1 show ?thesis
          using framesD [OF one] h by (auto intro: changed_only_trans)
      next
        case True
        with * h f obtain fs m3 where fs: "ptr f = Fields fs"
          and d: "defaults fs (pData it) ?m2 = Ret m3" and r: "?func (pData it) s m3 = Ret (b, s', m')"
          by (auto simp: decode_static_field_def Let_def run_bind_Ret_iff split: pb_ptr.splits)
        have "mframes (span (pData it) (data_size f) \<union> W) (defaults fs (pData it))"
          using rec sub [OF fs] by (simp add: rec_frames_def)
        from this d have "changed_only (span (pData it) (data_size f) \<union> W) ?m2 m3"
          by (rule mframesD)
        then have "changed_only ?A ?m2 m3" by (rule changed_only_mono) (use own in blast)
        moreover have "changed_only ?A m3 m'"
          using framesD [OF one r] h by simp
        ultimately show ?thesis
          using m1 m2 by (blast intro: changed_only_trans)
      qed
    qed
  qed
qed

text \<open>Callback functions write where their owner says, here the set \<open>W\<close>.\<close>

definition env_frames :: "addr set \<Rightarrow> 's pb_env \<Rightarrow> bool" where
  "env_frames W env \<longleftrightarrow>
     (\<forall>func s f arg m b s' m'. decode_fn env func s f arg m = (b, s', m') \<longrightarrow> changed_only W m m')"

lemma frames_callback_loop:
  assumes "\<And>s m b s' m'. call s m = (b, s', m') \<Longrightarrow> changed_only A m m'"
  shows "frames A (callback_loop call k)"
proof (induction k)
  case (Suc k)
  show ?case
  proof (rule framesI)
    fix s m b s' m'
    assume *: "callback_loop call (Suc k) s m = Ret (b, s', m')"
    obtain ok s1 m1 where c: "call s m = (ok, s1, m1)" by (cases "call s m")
    with * assms [OF c] show "changed_only A m m'"
      using framesD [OF Suc] by (auto split: if_splits bool.splits intro: changed_only_trans)
  qed
qed (simp add: frames_def)

lemma frames_decode_callback:
  assumes "env_frames W env"
  shows "frames W (decode_callback_field env k wt it :: 's dec)"
proof (rule framesI)
  fix s s' :: "'s pb_istream" and m m' b
  let ?call = "\<lambda>sub m'. decode_fn env (callback_func m (pData it)) sub (cur it) (callback_arg (pData it)) m'"
  have call: "changed_only W m1 m2" if "?call sub m1 = (b, s2, m2)" for sub m1 b s2 m2
    using assms that by (auto simp: env_frames_def)
  assume *: "decode_callback_field env k wt it s m = Ret (b, s', m')"
  then consider "m' = m" | sub ok sub' where "callback_loop ?call k sub m = Ret (ok, sub', m')"
    | sub ok s1 where "?call sub m = (ok, s1, m')"
    by (auto simp: decode_callback_field_def Let_def dread_def dret_def derr_def run_bind_Ret_iff
        split: if_splits prod.splits option.splits dest!: frames_close_after)
  then show "changed_only W m m'"
  proof cases
    case 2
    have "frames W (callback_loop ?call k)" using call by (rule frames_callback_loop)
    from framesD [OF this 2] show ?thesis .
  qed (use call in auto)
qed

lemma frames_decode_field:
  assumes "field_fits sz (cur it) (pData it - dest) (pSize it - dest)"
    and "\<And>sub. ptr (cur it) = Fields sub \<Longrightarrow> wf_msg sub (data_size (cur it))"
    and "rec_frames W defaults noinit" and "env_frames W env"
  shows "frames (span dest sz \<union> W) (decode_field env k defaults noinit wt it)"
  unfolding decode_field_def Let_def decode_pointer_field_def
  by (intro frames_if frame_intros frames_decode_static [OF assms(1) _ refl assms(2,3)]
      frames_mono [OF frames_decode_callback [OF assms(4)]]) auto

section \<open>Default values\<close>

lemma mframes_each:
  assumes "\<And>x. x \<in> set xs \<Longrightarrow> mframes A (body x)"
  shows "mframes A (run_each body xs)"
  using assms
proof (induction xs)
  case Nil
  show ?case by (simp add: mframes_def)
next
  case (Cons x xs)
  show ?case
  proof (rule mframesI)
    fix m m'
    assume "run_each body (x # xs) m = Ret m'"
    then obtain m1 where "body x m = Ret m1" and "run_each body xs m1 = Ret m'"
      by (auto simp: run_bind_Ret_iff)
    moreover have "mframes A (body x)" and "mframes A (run_each body xs)"
      using Cons by auto
    ultimately show "changed_only A m m'"
      by (blast dest: mframesD intro: changed_only_trans)
  qed
qed

lemma mframes_message_defaults:
  assumes "\<And>i. i < nfields fs \<Longrightarrow> mframes A (set_field (iter_at fs dest i))"
  shows "mframes A (message_defaults_with set_field fs dest)"
proof (cases "0 < nfields fs")
  case True
  then have "message_defaults_with set_field fs dest =
      run_each (\<lambda>j. set_field (iter_at fs dest j)) [0..<nfields fs]"
    by (intro ext) (simp add: message_defaults_with_def iter_begin_at iter_do_each del: iter_at.simps)
  then show ?thesis using assms by (auto intro!: mframes_each simp del: iter_at.simps)
next
  case False
  then show ?thesis
    by (intro mframesI) (simp add: message_defaults_with_def iter_begin_at del: iter_at.simps)
qed

lemma mframes_init_data:
  assumes "span (pData it) (data_size f) \<subseteq> A" and "cur it = f"
    and "\<And>sub. ptr f = Fields sub \<Longrightarrow> mframes A (message_defaults_with set_field sub (pData it))"
  shows "mframes A (init_data set_field it)"
proof (rule mframesI)
  fix m m'
  assume "init_data set_field it m = Ret m'"
  with assms(2) consider sub where "ptr f = Fields sub"
      "message_defaults_with set_field sub (pData it) m = Ret m'"
    | "m' = mem_set m (pData it) 0 (data_size f)"
    | bs where "m' = mem_write m (pData it) (take (data_size f) bs)" "data_size f \<le> length bs"
    by (auto simp: init_data_def Let_def split: if_splits pb_ptr.splits)
  then show "changed_only A m m'"
  proof cases
    case 1
    then show ?thesis using assms(3) by (blast dest: mframesD)
  next
    case 2
    then show ?thesis using assms(1) by (simp add: changed_only_set)
  next
    case 3
    then show ?thesis using assms(1) by (simp add: changed_only_write)
  qed
qed

lemma mframes_default_step:
  assumes fits: "field_fits sz (cur it) (pData it - dest) (pSize it - dest)"
    and sub: "\<And>sub. ptr (cur it) = Fields sub \<Longrightarrow>
      mframes (span (pData it) (data_size (cur it))) (message_defaults_with set_field sub (pData it))"
  shows "mframes (span dest sz) (field_default_step env k set_field it)"
proof (rule mframesI)
  fix m m'
  let ?f = "cur it" and ?A = "span dest sz"
  let ?small = "atype ?f = PB_ATYPE_STATIC \<or> atype ?f = PB_ATYPE_POINTER"
  have size4: "span (pSize it) 4 \<subseteq> ?A" if "?small"
    "htype ?f = PB_HTYPE_REPEATED \<or> htype ?f = PB_HTYPE_ONEOF"
    using fits that by (intro span_subset) (auto simp: field_fits_def)
  have size1: "span (pSize it) 1 \<subseteq> ?A" if "?small" "htype ?f = PB_HTYPE_OPTIONAL" "pSize it \<noteq> pData it"
    using fits that by (intro span_subset) (auto simp: field_fits_def)
  have own: "span (pData it) (footprint ?f) \<subseteq> ?A" if "?small"
    using fits that by (intro span_subset) (auto simp: field_fits_def)
  have init: "mframes ?A (init_data set_field it)"
    if "atype ?f = PB_ATYPE_STATIC" "htype ?f \<noteq> PB_HTYPE_REPEATED"
  proof -
    have ds: "span (pData it) (data_size ?f) \<subseteq> ?A"
      using own that by (simp add: footprint_def)
    from mframes_init_data [OF order_refl refl sub]
    have "mframes (span (pData it) (data_size ?f)) (init_data set_field it)" .
    with ds show ?thesis unfolding mframes_def by (blast intro: changed_only_mono)
  qed
  assume "field_default_step env k set_field it m = Ret m'"
  moreover have "ltype ?f \<noteq> PB_LTYPE_EXTENSION" using fits by (simp add: field_fits_def)
  ultimately consider
      "m' = m"
    | (opt) "atype ?f = PB_ATYPE_STATIC" "htype ?f = PB_HTYPE_OPTIONAL" "pSize it \<noteq> pData it"
        "init_data set_field it (store m (pSize it) 1 0) = Ret m'"
    | (many) "atype ?f = PB_ATYPE_STATIC" "htype ?f = PB_HTYPE_REPEATED \<or> htype ?f = PB_HTYPE_ONEOF"
        "m' = store m (pSize it) 4 0"
    | (plain) "atype ?f = PB_ATYPE_STATIC" "htype ?f \<noteq> PB_HTYPE_REPEATED" "init_data set_field it m = Ret m'"
    | (ptr1) "atype ?f = PB_ATYPE_POINTER" "m' = store m (pData it) sizeof_ptr 0"
    | (ptr2) "atype ?f = PB_ATYPE_POINTER" "htype ?f = PB_HTYPE_REPEATED \<or> htype ?f = PB_HTYPE_ONEOF"
        "m' = store (store m (pData it) sizeof_ptr 0) (pSize it) 4 0"
    by (auto simp: field_default_step_def Let_def split: if_splits)
  then show "changed_only ?A m m'"
  proof cases
    case opt
    then have "changed_only ?A m (store m (pSize it) 1 0)"
      using size1 by (simp add: changed_only_store)
    with opt show ?thesis
      using mframesD [OF init] by (auto intro: changed_only_trans)
  next
    case many
    then show ?thesis using size4 by (simp add: changed_only_store)
  next
    case plain
    then show ?thesis using mframesD [OF init] by blast
  next
    case ptr1
    then show ?thesis using own by (simp add: changed_only_store footprint_def)
  next
    case ptr2
    then have "changed_only ?A m (store m (pData it) sizeof_ptr 0)"
      using own by (simp add: changed_only_store footprint_def)
    moreover have "changed_only ?A (store m (pData it) sizeof_ptr 0) m'"
      using ptr2 size4 by (simp add: changed_only_store)
    ultimately show ?thesis by (rule changed_only_trans)
  qed simp
qed

lemma mframes_field_defaults:
  "wf_msg fs sz \<Longrightarrow> i < nfields fs \<Longrightarrow>
     mframes (span dest sz) (pb_field_set_to_default env k (iter_at fs dest i))"
proof (induction k arbitrary: fs sz dest i)
  case 0
  show ?case by (simp add: mframes_def)
next
  case (Suc k)
  let ?it = "iter_at fs dest i"
  have c: "cur ?it = fs ! i" using Suc.prems(2) by (rule cur_iter_at)
  show ?case
    unfolding pb_field_set_to_default.simps
  proof (rule mframes_default_step)
    show "field_fits sz (cur ?it) (pData ?it - dest) (pSize ?it - dest)"
      unfolding c using Suc.prems by (rule wf_msg_fits_at)
  next
    fix sub
    assume "ptr (cur ?it) = Fields sub"
    then have "wf_msg sub (data_size (cur ?it))"
      using wf_msg_sub [OF Suc.prems] c by simp
    then show "mframes (span (pData ?it) (data_size (cur ?it)))
        (message_defaults_with (pb_field_set_to_default env k) sub (pData ?it))"
      using Suc.IH by (intro mframes_message_defaults) blast
  qed
qed

lemma mframes_defaults:
  "wf_msg fs sz \<Longrightarrow> mframes (span dest sz) (pb_message_set_to_defaults env k fs dest)"
  unfolding pb_message_set_to_defaults_def
  by (intro mframes_message_defaults mframes_field_defaults)

section \<open>The main loop\<close>

lemma find_extension_none:
  assumes none: "\<And>f. f \<in> set fs \<Longrightarrow> ltype f \<noteq> PB_LTYPE_EXTENSION"
    and all: "nfields fs = length fs" and "valid_iter fs dest it"
  shows "find_extension_field it = Some (False, it)"
proof -
  have st: "start it = fs" using assms(3) by (rule valid_iter_start)
  show ?thesis
    using assms(3)
  proof (cases rule: valid_iter_cases)
    case (field i)
    have "pos it = i" using field by (simp add: iter_at_pos)
    then show ?thesis
      using iter_search_valid [OF field(1), of "Suc (length fs)" "\<lambda>f. ltype f = PB_LTYPE_EXTENSION" dest]
        all none nth_mem [of _ fs] st field
      by (auto simp: find_extension_field_def simp del: iter_at.simps iter_search.simps)
  next
    case empty
    then have "fs = []" using all by simp
    then show ?thesis
      using iter_search_empty [OF empty(1), of "Suc (length fs)" "\<lambda>f. ltype f = PB_LTYPE_EXTENSION" dest]
        empty st
      by (simp add: find_extension_field_def field_at_def PB_LAST_FIELD_def PB_LTYPE_def pb_field_iter_begin_def
          Let_def del: iter_search.simps)
  qed
qed

lemma wf_no_extension:
  assumes "wf_msg fs sz" and "f \<in> set fs"
  shows "ltype f \<noteq> PB_LTYPE_EXTENSION"
proof -
  obtain i where "i < nfields fs" and "f = fs ! i"
    using assms by (auto simp: in_set_conv_nth wf_msg_nfields)
  then show ?thesis using wf_msg_field [OF assms(1)] by (auto simp: field_fits_def)
qed

lemma unknown_field_result:
  assumes "wf_msg fs sz" and "valid_iter fs dest it" and "t < 2 ^ 32 - 1"
    and "unknown_field env k defaults noinit t wt it ext s m = Ret (ok, it', ext', s', m')"
  shows "it' = it \<and> m' = m"
  using assms(3,4) find_extension_none [OF wf_no_extension [OF assms(1)] wf_msg_nfields [OF assms(1)] assms(2)]
  by (auto simp: unknown_field_def Let_def split: if_splits option.splits prod.splits)

lemma decode_tag_bound:
  assumes "pb_decode_tag s = (Tag_ok wt t, s')"
  shows "t < 2 ^ 29"
proof -
  obtain v :: "32 word" where "t = unat (drop_bit 3 v)"
    using assms by (auto simp: pb_decode_tag_def split: prod.splits option.splits if_splits)
  moreover have "unat v < 2 ^ 32" using unsigned_less [of v, where ?'a = nat] by simp
  ultimately show ?thesis by (simp add: drop_bit_eq_div unat_div)
qed

text \<open>One round of the loop: it ends, or handles an unknown field, or a known one.\<close>

lemma decode_loop_cases:
  assumes "decode_loop env k defaults noinit (Suc j) it seen ext s m = Ret (ok, it', seen', s', m')"
  obtains (stop) "m' = m" "it' = it" "seen' = seen"
      "ok \<Longrightarrow> bytes_left s = 0 \<and> s' = s \<or> bytes_left s \<noteq> 0 \<and> pb_decode_tag s = (Tag_end, s')"
  | (unknown) wt t s1 it1 ok2 it2 ext2 s2 m2 where "bytes_left s \<noteq> 0"
      "pb_decode_tag s = (Tag_ok wt t, s1)" "pb_field_iter_find it t = Some (False, it1)"
      "unknown_field env k defaults noinit t wt it1 ext s1 m = Ret (ok2, it2, ext2, s2, m2)"
      "if ok2 then decode_loop env k defaults noinit j it2 seen ext2 s2 m2 = Ret (ok, it', seen', s', m')
       else m' = m2 \<and> \<not> ok"
  | (known) wt t s1 it1 ok2 s2 m2 where "bytes_left s \<noteq> 0"
      "pb_decode_tag s = (Tag_ok wt t, s1)" "pb_field_iter_find it t = Some (True, it1)"
      "decode_field env k defaults noinit wt it1 s1 m = Ret (ok2, s2, m2)"
      "if ok2 then decode_loop env k defaults noinit j it1 (mark_seen it1 seen) ext s2 m2
         = Ret (ok, it', seen', s', m')
       else m' = m2 \<and> \<not> ok"
proof (cases "bytes_left s = 0")
  case True
  then show thesis using assms stop by simp
next
  case False
  note False' = False
  obtain r s1 where r: "pb_decode_tag s = (r, s1)" by (cases "pb_decode_tag s")
  show thesis
  proof (cases r)
    case (Tag_ok wt t)
    with r have tag: "pb_decode_tag s = (Tag_ok wt t, s1)" by simp
    obtain found it1 where find: "pb_field_iter_find it t = Some (found, it1)"
      using assms False tag by (cases "pb_field_iter_find it t") auto
    show thesis
    proof (cases found)
      case True
      with assms False tag find show thesis
        using known [OF False' tag] by (auto simp: run_bind_Ret_iff split: if_splits)
    next
      case nf: False
      with assms False tag find show thesis
        using unknown [OF False' tag] by (auto simp: run_bind_Ret_iff split: if_splits)
    qed
  qed (use r assms False stop in auto)
qed

lemma iter_find_valid:
  assumes "valid_iter fs d it" and "pb_field_iter_find it t = Some (b, it')"
  shows "valid_iter fs d it'"
proof -
  obtain b1 it1 where
    "iter_search (\<lambda>f. tag f = t \<and> ltype f \<noteq> PB_LTYPE_EXTENSION) (pos it) (Suc (length fs)) it = Some (b1, it1)"
    and "valid_iter fs d it1"
    by (rule iter_search_returns [OF assms(1) lessI])
  then show ?thesis
    using assms(2) valid_iter_start [OF assms(1)]
    by (simp add: pb_field_iter_find_def del: iter_search.simps)
qed

text \<open>On an empty message the loop may hand the terminator to the decoder, which refuses it.\<close>

lemma frames_terminator: "frames A (decode_field env k defaults noinit wt (iter_at [] dest 0))"
proof -
  have cur: "cur (iter_at [] dest 0) = PB_LAST_FIELD"
    by (simp add: pb_field_iter_begin_def field_at_def Let_def)
  have "frames A (pb_dec_varint PB_LAST_FIELD a)" for a
    unfolding pb_dec_varint_def store_clamped_def Let_def
    by (intro frame_intros) (simp_all add: PB_LAST_FIELD_def int_size_def)
  then show ?thesis
    unfolding decode_field_def decode_static_field_def cur
    by (simp add: PB_LAST_FIELD_def PB_LTYPE_def PB_HTYPE_def PB_ATYPE_def PB_DECODERS_def)
qed

lemma frames_decode_loop:
  assumes wf: "wf_msg fs sz" and rec: "rec_frames W defaults noinit" and env: "env_frames W env"
  shows "valid_iter fs dest it \<Longrightarrow>
    decode_loop env k defaults noinit j it seen ext s m = Ret (ok, it', seen', s', m') \<Longrightarrow>
    changed_only (span dest sz \<union> W) m m'"
proof (induction j arbitrary: it seen ext s m)
  case (Suc j)
  let ?A = "span dest sz \<union> W"
  from Suc.prems(2) show ?case
  proof (cases rule: decode_loop_cases)
    case (unknown wt t s1 it1 ok2 it2 ext2 s2 m2)
    have "valid_iter fs dest it1"
      using Suc.prems(1) unknown(3) by (rule iter_find_valid)
    moreover have "t < 2 ^ 32 - 1" using decode_tag_bound [OF unknown(2)] by simp
    ultimately have "valid_iter fs dest it2" and "m2 = m"
      using unknown_field_result [OF wf _ _ unknown(4)] by blast+
    then show ?thesis using unknown(5) Suc.IH by (auto split: if_splits)
  next
    case (known wt t s1 it1 ok2 s2 m2)
    have v: "valid_iter fs dest it1"
      using Suc.prems(1) known(3) by (rule iter_find_valid)
    have "frames ?A (decode_field env k defaults noinit wt it1)"
      using v
    proof (cases rule: valid_iter_cases)
      case (field i)
      then show ?thesis
        using wf_msg_fits_at [OF wf field(1), of dest] wf_msg_sub [OF wf field(1)]
        by (intro frames_decode_field rec env) (simp_all del: iter_at.simps)
    next
      case empty
      then have "fs = []" using wf_msg_nfields [OF wf] by simp
      with empty show ?thesis by (simp add: frames_terminator del: iter_at.simps)
    qed
    then have "changed_only ?A m m2" using known(4) by (rule framesD)
    moreover have "changed_only ?A m2 m'"
      using known(5) Suc.IH [OF v] by (auto split: if_splits)
    ultimately show ?thesis by (rule changed_only_trans)
  qed simp
qed simp

lemma frames_noinit_body:
  assumes "wf_msg fs sz" and "rec_frames W defaults noinit" and "env_frames W env"
  shows "frames (span dest sz \<union> W) (noinit_body env k defaults noinit fs dest :: 's dec)"
proof (rule framesI)
  fix s s' :: "'s pb_istream" and m m' b
  assume "noinit_body env k defaults noinit fs dest s m = Ret (b, s', m')"
  then obtain ok it seen s1 where
    "decode_loop env k defaults noinit (Suc k) (iter_at fs dest 0) [0, 0] 0 s m = Ret (ok, it, seen, s1, m')"
    by (auto simp: noinit_body_def run_bind_Ret_iff derr_def iter_begin_at
        simp del: iter_at.simps decode_loop.simps split: if_splits)
  then show "changed_only (span dest sz \<union> W) m m'"
    using assms valid_iter_begin [of fs dest] by (rule frames_decode_loop [rotated 4])
qed

lemma rec_frames_decode:
  assumes "env_frames W env"
  shows "rec_frames W (pb_message_set_to_defaults env k) (pb_decode_noinit env k)"
proof (induction k)
  case 0
  have "mframes (span dest sz \<union> W) (pb_message_set_to_defaults env 0 fs dest)" if "wf_msg fs sz" for fs sz dest
    using mframes_defaults [OF that, of dest env 0] by (auto simp: mframes_def intro: changed_only_mono)
  then show ?case by (simp add: rec_frames_def frames_def)
next
  case (Suc k)
  have "mframes (span dest sz \<union> W) (pb_message_set_to_defaults env (Suc k) fs dest)"
    if "wf_msg fs sz" for fs sz dest
    using mframes_defaults [OF that, of dest env "Suc k"] by (auto simp: mframes_def intro: changed_only_mono)
  moreover have "frames (span dest sz \<union> W) (pb_decode_noinit env (Suc k) fs dest)"
    if "wf_msg fs sz" for fs sz dest
    using frames_noinit_body [OF that Suc assms] by simp
  ultimately show ?case by (simp add: rec_frames_def)
qed

lemma frames_pb_decode:
  assumes "wf_msg fs sz" and "env_frames W env"
  shows "frames (span dest sz \<union> W) (pb_decode env k fs dest)"
  using rec_frames_decode [OF assms(2), of k] assms(1)
  unfolding pb_decode_def rec_frames_def by (blast intro: frames_pb_decode_with)

section \<open>An example\<close>

text \<open>
  A message with a required number, an optional string and a repeated submessage, laid out as
  \<^verbatim>\<open>struct { uint32_t a; bool has_b; char b[8]; pb_size_t c_count; struct { int32_t d; } c[2]; }\<close>.
\<close>

definition inner_fields :: "pb_field list" where
  "inner_fields = [PbField 1 0x00 0 0 4 0 NullPtr]"

definition outer_fields :: "pb_field list" where
  "outer_fields =
     [PbField 1 0x01 0 0 4 0 NullPtr,
      PbField 2 0x16 1 (- 1) 8 0 NullPtr,
      PbField 3 0x27 4 (- 4) 4 2 (Fields inner_fields)]"

definition no_callbacks :: "'s pb_env" where
  "no_callbacks = \<lparr>decode_fn = (\<lambda>_ s _ _ m. (False, s, m)),
     ext_type = (\<lambda>_. \<lparr>ext_decode = None, ext_arg = PB_LAST_FIELD\<rparr>)\<rparr>"

lemma env_frames_none: "env_frames {} no_callbacks"
  by (simp add: env_frames_def no_callbacks_def)

lemmas walk_simps = field_fits_def footprint_def pb_field_iter_begin_def pb_field_iter_next_def
  field_at_def PB_LTYPE_def PB_HTYPE_def PB_ATYPE_def PB_SIZE_MAX_def Let_def nfields_def

lemma wf_inner: "wf_msg inner_fields 4"
  by (rule wf_msgI) (simp_all add: inner_fields_def walk_simps)

lemma wf_outer: "wf_msg outer_fields 25"
proof (rule wf_msgI)
  show "nfields outer_fields = length outer_fields"
    by (simp add: outer_fields_def nfields_def)
next
  fix i assume "i < nfields outer_fields"
  then have "i = 0 \<or> i = Suc 0 \<or> i = Suc (Suc 0)"
    by (auto simp: outer_fields_def nfields_def)
  then show "field_fits 25 (outer_fields ! i) (pData (iter_at outer_fields 0 i)) (pSize (iter_at outer_fields 0 i))"
    by (elim disjE) (simp_all add: outer_fields_def walk_simps)
next
  fix i sub assume "i < nfields outer_fields" and "ptr (outer_fields ! i) = Fields sub"
  then show "wf_msg sub (data_size (outer_fields ! i))"
    using wf_inner by (auto simp: outer_fields_def nfields_def less_Suc_eq)
qed

end
