(* ===== verification/PbDecodeTotal.thy ===== *)
theory PbDecodeTotal
  imports PbDecodeFrame
begin

text \<open>
  Termination of the nanopb decoder and absence of undefined behaviour: on descriptors of
  bounded nesting the decoder always returns, for every input and every stream, once the fuel is
  at least the number of bytes left plus the nesting depth. Every round of every loop consumes
  input, which is what the lemmas on \<open>bytes_left\<close> are for. The check of required fields is
  treated exactly.
\<close>

section \<open>Decoders that return\<close>

text \<open>
  \<open>runs n d\<close>: on a stream with at most \<open>n\<close> bytes left, \<open>d\<close> returns and does not raise
  \<open>bytes_left\<close>. \<open>advances d\<close>: when \<open>d\<close> returns true it has consumed something.
\<close>

definition runs :: "nat \<Rightarrow> 's dec \<Rightarrow> bool" where
  "runs n d \<longleftrightarrow>
     (\<forall>s m. bytes_left s \<le> n \<longrightarrow> (\<exists>b s' m'. d s m = Ret (b, s', m') \<and> bytes_left s' \<le> bytes_left s))"

definition advances :: "'s dec \<Rightarrow> bool" where
  "advances d \<longleftrightarrow> (\<forall>s m s' m'. d s m = Ret (True, s', m') \<longrightarrow> bytes_left s' < bytes_left s)"

named_theorems runs_intros

lemma runsI:
  "(\<And>s m. bytes_left s \<le> n \<Longrightarrow> \<exists>b s' m'. d s m = Ret (b, s', m') \<and> bytes_left s' \<le> bytes_left s) \<Longrightarrow> runs n d"
  by (simp add: runs_def)

lemma runsE:
  assumes "runs n d" and "bytes_left s \<le> n"
  obtains b s' m' where "d s m = Ret (b, s', m')" "bytes_left s' \<le> bytes_left s"
  using assms unfolding runs_def by blast

lemma runsD:
  "runs n d \<Longrightarrow> bytes_left s \<le> n \<Longrightarrow> \<exists>b s' m'. d s m = Ret (b, s', m') \<and> bytes_left s' \<le> bytes_left s"
  by (simp add: runs_def)

lemma advancesD: "advances d \<Longrightarrow> d s m = Ret (True, s', m') \<Longrightarrow> bytes_left s' < bytes_left s"
  unfolding advances_def by blast

lemma runs_less: "runs n d \<Longrightarrow> k \<le> n \<Longrightarrow> runs k d"
  by (auto simp: runs_def)

lemma runs_dret [runs_intros]: "runs n (dret b)"
  by (simp add: runs_def dret_def)

lemma runs_derr [runs_intros]: "runs n (derr msg)"
  by (auto simp: runs_def derr_def)

lemma runs_dwrite [runs_intros]: "runs n d \<Longrightarrow> runs n (dwrite g d)"
  by (simp add: runs_def dwrite_def)

lemma runs_if [runs_intros]: "(c \<Longrightarrow> runs n d) \<Longrightarrow> (\<not> c \<Longrightarrow> runs n e) \<Longrightarrow> runs n (if c then d else e)"
  by simp

lemma runs_let [runs_intros]: "runs n (f v) \<Longrightarrow> runs n (let x = v in f x)"
  by simp

lemma runs_dread [runs_intros]:
  assumes "shrinking rd" and "\<And>v. runs n (f v)"
  shows "runs n (dread rd f :: 's dec)"
proof (rule runsI)
  fix s :: "'s pb_istream" and m
  assume n: "bytes_left s \<le> n"
  obtain r s1 where r: "rd s = (r, s1)" by (cases "rd s")
  with assms(1) have le: "bytes_left s1 \<le> bytes_left s" by (rule shrinkingD)
  show "\<exists>b s' m'. dread rd f s m = Ret (b, s', m') \<and> bytes_left s' \<le> bytes_left s"
  proof (cases r)
    case None
    with r le show ?thesis by (auto simp: dread_def)
  next
    case (Some v)
    from le n have "bytes_left s1 \<le> n" by simp
    with assms(2) obtain b s' m' where "f v s1 m = Ret (b, s', m')" "bytes_left s' \<le> bytes_left s1"
      by (rule runsE)
    with r Some le show ?thesis by (simp add: dread_def)
  qed
qed

lemma shrinking_svarint [simp]: "shrinking pb_decode_svarint"
  unfolding pb_decode_svarint_def by (intro shrinking_rbind shrinking_if) simp_all

lemma shrinking_fixed32 [simp]: "shrinking pb_decode_fixed32"
  unfolding pb_decode_fixed32_def by (intro shrinking_rbind) simp_all

lemma shrinking_fixed64 [simp]: "shrinking pb_decode_fixed64"
  unfolding pb_decode_fixed64_def by (intro shrinking_rbind) simp_all

lemma runs_store_clamped [runs_intros]: "runs n (store_clamped f dest c v)"
  unfolding store_clamped_def by (intro runs_intros)

lemma runs_dec_varint: "runs n (pb_dec_varint f dest)"
  unfolding pb_dec_varint_def by (intro runs_intros) simp

lemma runs_dec_uvarint: "runs n (pb_dec_uvarint f dest)"
  unfolding pb_dec_uvarint_def by (intro runs_intros) simp

lemma runs_dec_svarint: "runs n (pb_dec_svarint f dest)"
  unfolding pb_dec_svarint_def by (intro runs_intros) simp

lemma runs_dec_fixed32: "runs n (pb_dec_fixed32 f dest)"
  unfolding pb_dec_fixed32_def by (intro runs_intros) simp

lemma runs_dec_fixed64: "runs n (pb_dec_fixed64 f dest)"
  unfolding pb_dec_fixed64_def by (intro runs_intros) simp

lemma runs_dec_bytes: "runs n (pb_dec_bytes f dest)"
  unfolding pb_dec_bytes_def Let_def by (intro runs_intros) simp_all

lemma runs_dec_fixed_length_bytes: "runs n (pb_dec_fixed_length_bytes f dest)"
  unfolding pb_dec_fixed_length_bytes_def Let_def by (intro runs_intros) simp_all

lemma runs_dec_string: "runs n (pb_dec_string f dest)"
  unfolding pb_dec_string_def
  by (rule runs_dread [OF shrinking_varint32], rule runsI)
    (auto simp: Let_def derr_def split: prod.split option.split dest: shrinkingD [OF shrinking_pb_read])

text \<open>The packable decoders consume a byte or more when they succeed.\<close>

lemma advances_dread:
  assumes rd: "\<And>s v s'. rd s = (Some v, s') \<Longrightarrow> bytes_left s' < bytes_left s"
    and f: "\<And>n v. runs n (f v)"
  shows "advances (dread rd f :: 's dec)"
  unfolding advances_def
proof (intro allI impI)
  fix s s' :: "'s pb_istream" and m m'
  assume "dread rd f s m = Ret (True, s', m')"
  then obtain v s1 where v: "rd s = (Some v, s1)" and "f v s1 m = Ret (True, s', m')"
    by (auto simp: dread_def split: prod.splits option.splits)
  with f [of "bytes_left s1" v] have "bytes_left s' \<le> bytes_left s1"
    by (auto elim: runsE [where s = s1 and m = m])
  with rd [OF v] show "bytes_left s' < bytes_left s" by simp
qed

lemma svarint_progress:
  assumes "pb_decode_svarint s = (Some v, s')"
  shows "bytes_left s' < bytes_left s"
proof -
  obtain w s1 where "pb_decode_varint s = (Some w, s1)" and "s' = s1"
    using assms by (auto simp: pb_decode_svarint_def rbind_def rret_def split: prod.splits option.splits if_splits)
  then show ?thesis using varint64_progress by blast
qed

lemma fixed32_progress: "pb_decode_fixed32 s = (Some v, s') \<Longrightarrow> bytes_left s' < bytes_left s"
  by (auto simp: pb_decode_fixed32_def rbind_def rret_def dest!: pb_read_Some_left split: prod.splits option.splits)

lemma fixed64_progress: "pb_decode_fixed64 s = (Some v, s') \<Longrightarrow> bytes_left s' < bytes_left s"
  by (auto simp: pb_decode_fixed64_def rbind_def rret_def dest!: pb_read_Some_left split: prod.splits option.splits)

lemma advances_decoders:
  assumes "lt \<le> PB_LTYPE_LAST_PACKABLE"
  shows "advances (PB_DECODERS defaults noinit lt f dest)"
proof -
  have "advances (pb_dec_varint f dest)" "advances (pb_dec_uvarint f dest)"
      "advances (pb_dec_svarint f dest)" "advances (pb_dec_fixed32 f dest)" "advances (pb_dec_fixed64 f dest)"
    unfolding pb_dec_varint_def pb_dec_uvarint_def pb_dec_svarint_def pb_dec_fixed32_def pb_dec_fixed64_def
    by (intro advances_dread runs_intros;
        blast intro: varint64_progress svarint_progress fixed32_progress fixed64_progress)+
  with assms show ?thesis
    by (cases lt rule: packable_cases) (simp_all add: PB_DECODERS_def)
qed

section \<open>Descriptors of bounded nesting\<close>

text \<open>
  \<open>ok_msg fs h\<close>: static fields have a decoder, submessage fields have descriptors, default values
  are long enough, and submessages nest at most \<open>h\<close> deep. The number of required fields is one
  the check at the end handles: with 32 it shifts by the width of the word, and from 64 on it reads
  behind its array.
\<close>

definition field_ok :: "pb_field \<Rightarrow> bool" where
  "field_ok f \<longleftrightarrow>
     ltype f \<noteq> PB_LTYPE_EXTENSION \<and> ltype f \<le> PB_LTYPE_FIXED_LENGTH_BYTES \<and>
     (if ltype f = PB_LTYPE_SUBMESSAGE then \<exists>sub. ptr f = Fields sub
      else ptr f = NullPtr \<or> (\<exists>bs. ptr f = Default bs \<and> data_size f \<le> length bs))"

definition required_count :: "pb_field list \<Rightarrow> nat" where
  "required_count fs = length (filter (\<lambda>f. htype f = PB_HTYPE_REQUIRED) fs)"

definition checkable :: "nat \<Rightarrow> bool" where
  "checkable n \<longleftrightarrow> n < 64 \<and> n \<noteq> 32"

inductive ok_msg :: "pb_field list \<Rightarrow> nat \<Rightarrow> bool" where
  ok_msgI:
  "nfields fs = length fs \<Longrightarrow> checkable (required_count fs) \<Longrightarrow>
   (\<And>f. f \<in> set fs \<Longrightarrow> atype f = PB_ATYPE_STATIC \<Longrightarrow> field_ok f) \<Longrightarrow>
   (\<And>f. f \<in> set fs \<Longrightarrow> ltype f \<noteq> PB_LTYPE_EXTENSION) \<Longrightarrow>
   (\<And>f sub. f \<in> set fs \<Longrightarrow> ptr f = Fields sub \<Longrightarrow> ok_msg sub h) \<Longrightarrow>
   ok_msg fs (Suc h)"

inductive_cases ok_msgE: "ok_msg fs h"

definition rec_runs :: "nat \<Rightarrow> defaults \<Rightarrow> 's noinit \<Rightarrow> bool" where
  "rec_runs k defaults noinit \<longleftrightarrow>
     (\<forall>fs h dest. ok_msg fs h \<longrightarrow>
        (h \<le> k \<longrightarrow> (\<forall>m. \<exists>m'. defaults fs dest m = Ret m')) \<and>
        (\<forall>s m. bytes_left s + h \<le> k \<longrightarrow> (\<exists>r. noinit fs dest s m = Ret r)))"

lemma rec_runs_defaults:
  "rec_runs k defaults noinit \<Longrightarrow> ok_msg fs h \<Longrightarrow> h \<le> k \<Longrightarrow> \<exists>m'. defaults fs dest m = Ret m'"
  by (auto simp: rec_runs_def)

lemma rec_runs_noinit:
  "rec_runs k defaults noinit \<Longrightarrow> ok_msg fs h \<Longrightarrow> bytes_left s + h \<le> k \<Longrightarrow> \<exists>r. noinit fs dest s m = Ret r"
  unfolding rec_runs_def by blast

lemma close_after_left: "close_after s r = Ret (b, s', m') \<Longrightarrow> bytes_left s' = bytes_left s"
  by (auto simp: close_after_def pb_close_string_substream_def split: prod.splits option.splits if_splits)

lemma close_after_returns: "\<exists>b s' m'. close_after s r = Ret (b, s', m') \<and> bytes_left s' = bytes_left s"
proof -
  have "\<exists>b s' m'. close_after s r = Ret (b, s', m')"
    unfolding close_after_def by (auto split: prod.split option.split)
  then show ?thesis using close_after_left by blast
qed

lemma make_substream_left:
  "pb_make_string_substream s = (Some sub, s') \<Longrightarrow> bytes_left sub + bytes_left s' < bytes_left s"
  by (auto simp: pb_make_string_substream_def rbind_def rerr_def dest!: varint32_progress
      split: prod.splits option.splits if_splits)

lemma shrinking_make_substream [simp]: "shrinking pb_make_string_substream"
  unfolding pb_make_string_substream_def
  by (rule shrinking_rbind [OF shrinking_varint32]) (simp add: shrinking_def rerr_def)

text \<open>Open a substream, run something that returns on it, and close it.\<close>

lemma runs_with_substream:
  assumes "\<And>sub s m. bytes_left sub < n \<Longrightarrow>
    \<exists>b s' m'. f sub s m = Ret (b, s', m') \<and> bytes_left s' = bytes_left s"
  shows "runs n (dread pb_make_string_substream f :: 's dec)"
proof (rule runsI)
  fix s :: "'s pb_istream" and m
  assume n: "bytes_left s \<le> n"
  obtain r s1 where r: "pb_make_string_substream s = (r, s1)" by (cases "pb_make_string_substream s")
  then have le: "bytes_left s1 \<le> bytes_left s" by (rule shrinkingD [OF shrinking_make_substream])
  show "\<exists>b s' m'. dread pb_make_string_substream f s m = Ret (b, s', m') \<and> bytes_left s' \<le> bytes_left s"
  proof (cases r)
    case None
    with r le show ?thesis by (auto simp: dread_def)
  next
    case (Some sub)
    with r n have "bytes_left sub < n" using make_substream_left by fastforce
    from assms [OF this] obtain b s' m' where "f sub s1 m = Ret (b, s', m')" "bytes_left s' = bytes_left s1"
      by blast
    with r Some le show ?thesis by (auto simp: dread_def)
  qed
qed

lemma runs_dec_submessage:
  assumes rec: "rec_runs k defaults noinit" and sub: "ptr f = Fields sub" "ok_msg sub h"
    and fuel: "n + h \<le> k"
  shows "runs n (pb_dec_submessage defaults noinit f dest :: 's dec)"
  unfolding pb_dec_submessage_def
proof (rule runs_with_substream)
  fix sub' s :: "'s pb_istream" and m
  assume n: "bytes_left sub' < n"
  have noinit: "\<exists>r. noinit sub dest sub' m1 = Ret r" for m1
    using n fuel by (intro rec_runs_noinit [OF rec sub(2)]) simp
  obtain m2 where "defaults sub dest m = Ret m2"
    using rec_runs_defaults [OF rec sub(2)] fuel by fastforce
  with noinit [of m] noinit [of m2] have
    "\<exists>r. (if htype f = PB_HTYPE_REPEATED then pb_decode_with defaults noinit sub dest sub' m
      else noinit sub dest sub' m) = Ret r"
    by (simp add: pb_decode_with_def)
  then obtain r where "(if htype f = PB_HTYPE_REPEATED then pb_decode_with defaults noinit sub dest sub' m
      else noinit sub dest sub' m) = Ret r" by blast
  then show "\<exists>b s' m'. (case ptr f of
            NullPtr \<Rightarrow> derr ''invalid field descriptor'' s m
          | Fields fs \<Rightarrow>
              run_bind
                (if htype f = PB_HTYPE_REPEATED
                 then pb_decode_with defaults noinit fs dest sub' m
                 else noinit fs dest sub' m)
                (close_after s)
          | Default _ \<Rightarrow> Undef) = Ret (b, s', m') \<and> bytes_left s' = bytes_left s"
    using close_after_returns [of s r] by (simp add: sub(1))
qed

lemma runs_decoders:
  assumes rec: "rec_runs k defaults noinit" and f: "field_ok f"
    and sub: "\<And>sub. ptr f = Fields sub \<Longrightarrow> ok_msg sub h"
    and fuel: "n + h \<le> k"
  shows "runs n (PB_DECODERS defaults noinit (ltype f) f dest)"
proof -
  have "runs n (pb_dec_submessage defaults noinit f dest)" if "ltype f = PB_LTYPE_SUBMESSAGE"
    using f that sub fuel by (auto simp: field_ok_def intro: runs_dec_submessage [OF rec])
  moreover have "ltype f \<in> {0, 1, 2, 3, 4, 5, 6, 7, 9}"
    using f ltype_cases [of "ltype f"] by (auto simp: field_ok_def)
  ultimately show ?thesis
    by (auto simp: PB_DECODERS_def intro: runs_dec_varint runs_dec_uvarint runs_dec_svarint
        runs_dec_fixed32 runs_dec_fixed64 runs_dec_bytes runs_dec_string runs_dec_fixed_length_bytes)
qed

section \<open>Fields\<close>

lemma packed_loop_returns:
  assumes "\<And>a. runs n (func a)" and "\<And>a. advances (func a)"
  shows "bytes_left sub \<le> n \<Longrightarrow> bytes_left sub < k \<Longrightarrow> \<exists>r. packed_loop func it k sub m = Ret r"
proof (induction k arbitrary: sub m)
  case (Suc k)
  show ?case
  proof (cases "0 < bytes_left sub \<and> load m (pSize it) 4 < array_size (cur it)")
    case True
    let ?a = "item_addr (pData it) (cur it) (load m (pSize it) 4)"
    obtain ok sub1 m1 where f: "func ?a sub m = Ret (ok, sub1, m1)" "bytes_left sub1 \<le> bytes_left sub"
      using assms(1) Suc.prems(1) by (rule runsE)
    show ?thesis
    proof (cases ok)
      case True
      with f(1) have "bytes_left sub1 < bytes_left sub" using advancesD [OF assms(2)] by simp
      then have "\<exists>r. packed_loop func it k sub1 (store m1 (pSize it) 4 (load m1 (pSize it) 4 + 1)) = Ret r"
        using Suc.prems by (intro Suc.IH) simp_all
      with f True \<open>0 < _ \<and> _\<close> show ?thesis by simp
    next
      case False
      with f \<open>0 < _ \<and> _\<close> show ?thesis by auto
    qed
  qed (auto simp: Let_def)
qed simp

lemma runs_packed:
  assumes "\<And>a. runs n (func a)" and "\<And>a. advances (func a)"
  shows "runs n (dread pb_make_string_substream
    (\<lambda>sub s m. run_bind (packed_loop func it (Suc (bytes_left sub)) sub m)
       (\<lambda>(status, sub', m'). if bytes_left sub' \<noteq> 0 then derr ''array overflow'' s m'
          else close_after s (status, sub', m'))))"
proof (rule runs_with_substream)
  fix sub s :: "'a pb_istream" and m
  assume "bytes_left sub < n"
  then obtain status sub' m1 where
    "packed_loop func it (Suc (bytes_left sub)) sub m = Ret (status, sub', m1)"
    using packed_loop_returns [OF assms, where sub = sub and k = "Suc (bytes_left sub)" and it = it and m = m]
    by fastforce
  then show "\<exists>b s' m'. run_bind (packed_loop func it (Suc (bytes_left sub)) sub m)
       (\<lambda>(status, sub', m'). if bytes_left sub' \<noteq> 0 then derr ''array overflow'' s m'
          else close_after s (status, sub', m')) = Ret (b, s', m') \<and> bytes_left s' = bytes_left s"
    using close_after_returns [of s "(status, sub', m1)"]
    by (auto simp: derr_def simp del: packed_loop.simps)
qed

lemma runs_decode_static:
  assumes rec: "rec_runs k defaults noinit" and f: "field_ok (cur it)"
    and sub: "\<And>sub. ptr (cur it) = Fields sub \<Longrightarrow> ok_msg sub h"
    and fuel: "n + h \<le> k"
  shows "runs n (decode_static_field defaults noinit wt it :: 's dec)"
proof -
  let ?f = "cur it"
  let ?func = "PB_DECODERS defaults noinit (ltype ?f) ?f :: addr \<Rightarrow> 's dec"
  have func: "runs n (?func a)" for a
    using rec f sub fuel by (rule runs_decoders)
  then have one: "\<exists>b s' m'. ?func a s m = Ret (b, s', m') \<and> bytes_left s' \<le> bytes_left s"
    if "bytes_left s \<le> n" for a s m
    using func that unfolding runs_def by blast
  consider (req) "htype ?f = PB_HTYPE_REQUIRED" | (opt) "htype ?f = PB_HTYPE_OPTIONAL"
    | (rep) "htype ?f = PB_HTYPE_REPEATED" | (oneof) "htype ?f = PB_HTYPE_ONEOF"
    using htype_exhaust [of ?f] by blast
  then show ?thesis
  proof cases
    case req
    then show ?thesis using func by (simp add: decode_static_field_def Let_def)
  next
    case opt
    then show ?thesis using func by (simp add: decode_static_field_def Let_def runs_dwrite)
  next
    case rep
    show ?thesis
    proof (cases "wt = PB_WT_STRING \<and> ltype ?f \<le> PB_LTYPE_LAST_PACKABLE")
      case True
      then have "advances (?func a)" for a by (intro advances_decoders) simp
      with func have "runs n (dread pb_make_string_substream
        (\<lambda>sub s m. run_bind (packed_loop ?func it (Suc (bytes_left sub)) sub m)
           (\<lambda>(status, sub', m'). if bytes_left sub' \<noteq> 0 then derr ''array overflow'' s m'
              else close_after s (status, sub', m'))))"
        by (rule runs_packed)
      with True rep show ?thesis
        by (simp add: decode_static_field_def Let_def del: packed_loop.simps)
    next
      case False
      then show ?thesis
        using rep one by (intro runsI) (auto simp: decode_static_field_def Let_def derr_def)
    qed
  next
    case oneof
    show ?thesis
    proof (rule runsI)
      fix s :: "'s pb_istream" and m
      assume s: "bytes_left s \<le> n"
      show "\<exists>b s' m'. decode_static_field defaults noinit wt it s m = Ret (b, s', m') \<and>
          bytes_left s' \<le> bytes_left s"
      proof (cases "ltype ?f = PB_LTYPE_SUBMESSAGE")
        case True
        then obtain fs where fs: "ptr ?f = Fields fs" using f by (auto simp: field_ok_def)
        have "h \<le> k" using fuel by simp
        with rec sub [OF fs] obtain m1 where
          "defaults fs (pData it) (mem_set (store m (pSize it) 4 (tag ?f)) (pData it) 0 (data_size ?f)) = Ret m1"
          using rec_runs_defaults by blast
        with True fs oneof one [OF s] show ?thesis
          by (simp add: decode_static_field_def Let_def)
      next
        case False
        with oneof one [OF s] show ?thesis
          by (simp add: decode_static_field_def Let_def)
      qed
    qed
  qed
qed

text \<open>
  The contract of a field callback: when it reports success on a stream with bytes left it has
  consumed some of them; the code calls it again until the substream is empty.
\<close>

definition env_consumes :: "'s pb_env \<Rightarrow> bool" where
  "env_consumes env \<longleftrightarrow>
     (\<forall>func s f arg m s' m'. decode_fn env func s f arg m = (True, s', m') \<longrightarrow>
        bytes_left s' < bytes_left s \<or> bytes_left s' = 0)"

lemma callback_loop_returns:
  assumes "\<And>s m s' m'. call s m = (True, s', m') \<Longrightarrow> bytes_left s' < bytes_left s \<or> bytes_left s' = 0"
  shows "0 < k \<Longrightarrow> bytes_left sub \<le> k \<Longrightarrow> \<exists>r. callback_loop call k sub m = Ret r"
proof (induction k arbitrary: sub m)
  case (Suc k)
  obtain ok sub1 m1 where c: "call sub m = (ok, sub1, m1)" by (cases "call sub m")
  show ?case
  proof (cases "ok \<and> bytes_left sub1 \<noteq> 0")
    case True
    with c assms [of sub m sub1 m1] have "bytes_left sub1 < bytes_left sub" by auto
    with True Suc.prems have "\<exists>r. callback_loop call k sub1 m1 = Ret r"
      by (intro Suc.IH) simp_all
    with True c show ?thesis by simp
  next
    case False
    with c show ?thesis by (cases ok) auto
  qed
qed simp

lemma shrinking_raw_loop [simp]:
  "shrinking (raw_varint_loop mx acc :: 's pb_istream \<Rightarrow> bytes option \<times> 's pb_istream)"
proof (induction "mx - length acc" arbitrary: acc rule: less_induct)
  case less
  show ?case
  proof (cases "mx < Suc (length acc)")
    case True
    then show ?thesis unfolding shrinking_def by (subst raw_varint_loop.simps) simp
  next
    case False
    have "shrinking (rbind (pb_read 1)
        (\<lambda>bs. let b = (case bs of b # _ \<Rightarrow> b | [] \<Rightarrow> 0) in
           if b AND 0x80 \<noteq> 0 then raw_varint_loop mx (acc @ [b]) else rret (acc @ [b])) :: 's pb_istream \<Rightarrow> _)"
      using False by (intro shrinking_rbind) (auto simp: Let_def intro: less)
    with False show ?thesis
      unfolding shrinking_def by (subst raw_varint_loop.simps) simp
  qed
qed

lemma shrinking_raw_value [simp]: "shrinking (read_raw_value wt mx)"
  by (simp add: read_raw_value_def)

lemma shrinking_skip_varint [simp]: "shrinking pb_skip_varint"
proof -
  have "bytes_left (snd (pb_skip_varint s)) \<le> bytes_left s" for s :: "'a pb_istream"
  proof (induction s rule: pb_skip_varint.induct)
    case (1 s)
    obtain r s1 where r: "pb_read 1 s = (r, s1)" by (cases "pb_read 1 s")
    then have le: "bytes_left s1 \<le> bytes_left s" by (rule shrinkingD [OF shrinking_pb_read])
    show ?case
    proof (cases r)
      case None
      with r le show ?thesis by (subst pb_skip_varint.simps) simp
    next
      case (Some bs)
      with r le 1 [OF r [symmetric, unfolded Some] refl] show ?thesis
        by (subst pb_skip_varint.simps) (auto simp: rret_def)
    qed
  qed
  then show ?thesis by (simp add: shrinking_def)
qed

lemma shrinking_skip_string [simp]: "shrinking pb_skip_string"
  unfolding pb_skip_string_def by (intro shrinking_rbind) simp_all

lemma shrinking_skip_field [simp]: "shrinking (pb_skip_field wt)"
  by (simp add: pb_skip_field_def)

lemma runs_decode_callback:
  assumes env: "env_consumes env" and k: "0 < k" "n \<le> k"
  shows "runs n (decode_callback_field env k wt it :: 's dec)"
proof (rule runsI)
  fix s :: "'s pb_istream" and m0 :: mem
  assume n: "bytes_left s \<le> n"
  let ?call = "\<lambda>sub m. decode_fn env (callback_func m0 (pData it)) sub (cur it) (callback_arg (pData it)) m"
  have call: "bytes_left s' < bytes_left s \<or> bytes_left s' = 0" if "?call s m = (True, s', m')" for s m s' m'
    using env [unfolded env_consumes_def, rule_format, OF that] .
  have skip: "runs n (dread (pb_skip_field wt) (\<lambda>_. dret True))"
    by (intro runs_intros) simp
  have str: "runs n (dread pb_make_string_substream
          (\<lambda>substream s m.
             run_bind (callback_loop ?call k substream m)
               (\<lambda>(ok, sub', m').
                  if ok then close_after s (True, sub', m') else derr ''callback failed'' s m')))"
  proof (rule runs_with_substream)
    fix sub s :: "'s pb_istream" and m
    assume "bytes_left sub < n"
    then obtain ok sub' m1 where "callback_loop ?call k sub m = Ret (ok, sub', m1)"
      using callback_loop_returns [OF call k(1), where sub = sub and m = m] k(2) by fastforce
    then show "\<exists>b s' m'. run_bind (callback_loop ?call k sub m)
               (\<lambda>(ok, sub', m').
                  if ok then close_after s (True, sub', m') else derr ''callback failed'' s m') =
        Ret (b, s', m') \<and> bytes_left s' = bytes_left s"
      using close_after_returns [of s "(True, sub', m1)"] by (auto simp: derr_def)
  qed
  have raw: "runs n (dread (read_raw_value wt 10)
          (\<lambda>buffer s m.
             case ?call (pb_istream_from_buffer buffer (length buffer)) m of
               (status, _, m') \<Rightarrow> Ret (status, s, m')))"
    by (intro runs_dread runsI) (auto split: prod.split)
  show "\<exists>b s' m'. decode_callback_field env k wt it s m0 = Ret (b, s', m') \<and>
      bytes_left s' \<le> bytes_left s"
    using runsD [OF skip n, of m0] runsD [OF str n, of m0] runsD [OF raw n, of m0]
    unfolding decode_callback_field_def Let_def
    by (cases "callback_func m0 (pData it) = 0"; cases "wt = PB_WT_STRING") simp_all
qed

lemma runs_decode_field:
  assumes "rec_runs k defaults noinit" and "env_consumes env" and "0 < k" and "n + h \<le> k"
    and "atype (cur it) = PB_ATYPE_STATIC \<Longrightarrow> field_ok (cur it)"
    and "\<And>sub. ptr (cur it) = Fields sub \<Longrightarrow> ok_msg sub h"
  shows "runs n (decode_field env k defaults noinit wt it)"
  unfolding decode_field_def Let_def decode_pointer_field_def
  by (intro runs_if runs_derr runs_decode_static [OF assms(1) _ assms(6,4)] assms(5)
      runs_decode_callback [OF assms(2,3)]) (use assms(4) in auto)

section \<open>Default values\<close>

lemma message_defaults_return:
  assumes "\<And>i m. i < nfields fs \<Longrightarrow> \<exists>m'. set_field (iter_at fs dest i) m = Ret m'"
  shows "\<exists>m'. message_defaults_with set_field fs dest m = Ret m'"
proof (cases "0 < nfields fs")
  case True
  have "\<exists>m'. run_each (\<lambda>j. set_field (iter_at fs dest j)) [0..<nfields fs] m = Ret m'"
    using assms by (intro run_each_returns) (simp del: iter_at.simps)
  with True show ?thesis
    by (simp add: message_defaults_with_def iter_begin_at iter_do_each del: iter_at.simps)
qed (simp add: message_defaults_with_def iter_begin_at del: iter_at.simps)

lemma field_defaults_return:
  "ok_msg fs h \<Longrightarrow> h \<le> k \<Longrightarrow> i < nfields fs \<Longrightarrow>
     \<exists>m'. pb_field_set_to_default env k (iter_at fs dest i) m = Ret m'"
proof (induction k arbitrary: fs h i dest m)
  case 0
  then show ?case by (auto elim: ok_msgE)
next
  case (Suc k)
  let ?it = "iter_at fs dest i" and ?f = "fs ! i"
  have c: "cur ?it = ?f" using Suc.prems(3) by (rule cur_iter_at)
  from Suc.prems(1) obtain h' where h: "h = Suc h'"
    and ok: "atype ?f = PB_ATYPE_STATIC \<Longrightarrow> field_ok ?f" and noext: "ltype ?f \<noteq> PB_LTYPE_EXTENSION"
    and sub: "\<And>sub. ptr ?f = Fields sub \<Longrightarrow> ok_msg sub h'"
    using field_at_in [OF Suc.prems(3)] by (auto elim!: ok_msgE)
  have "\<exists>m'. init_data (pb_field_set_to_default env k) ?it m1 = Ret m'"
    if "atype ?f = PB_ATYPE_STATIC" for m1
  proof (cases "ltype ?f = PB_LTYPE_SUBMESSAGE")
    case True
    with ok that obtain fs' where fs': "ptr ?f = Fields fs'" by (auto simp: field_ok_def)
    have "\<exists>m'. message_defaults_with (pb_field_set_to_default env k) fs' (pData ?it) m1 = Ret m'"
      using Suc.prems(2) h by (intro message_defaults_return Suc.IH [OF sub [OF fs']]) simp_all
    with True fs' c show ?thesis by (simp add: init_data_def del: iter_at.simps)
  next
    case False
    with ok that c show ?thesis
      by (auto simp: init_data_def field_ok_def simp del: iter_at.simps)
  qed
  with noext c show ?case
    by (auto simp: field_default_step_def Let_def simp del: iter_at.simps)
qed

lemma defaults_return: "ok_msg fs h \<Longrightarrow> h \<le> k \<Longrightarrow> \<exists>m'. pb_message_set_to_defaults env k fs dest m = Ret m'"
  unfolding pb_message_set_to_defaults_def
  by (intro message_defaults_return field_defaults_return)

section \<open>The required fields\<close>

text \<open>The index the iterator keeps is the number of required fields before it.\<close>

lemma iter_at_required:
  "i < nfields fs \<Longrightarrow> required_field_index (iter_at fs d i) = required_count (take i fs)"
proof (induction i)
  case 0
  show ?case by (simp add: pb_field_iter_begin_def required_count_def Let_def)
next
  case (Suc i)
  then have i: "i < nfields fs" and len: "i < length fs" using nfields_le [of fs] by simp_all
  have nz: "tag (field_at fs i) \<noteq> 0" "tag (field_at fs (Suc i)) \<noteq> 0"
    using Suc.prems field_at_tag [of i fs] field_at_tag [of "Suc i" fs] by simp_all
  have "required_count (take (Suc i) fs) =
      (if htype (fs ! i) = PB_HTYPE_REQUIRED then Suc (required_count (take i fs))
       else required_count (take i fs))"
    using len by (simp add: required_count_def take_Suc_conv_app_nth)
  then show ?case
    using Suc.IH [OF i] nz i len
    by (simp add: pb_field_iter_next_def iter_at_pos Let_def split: if_splits)
qed

lemma count_required_at:
  assumes "i < nfields fs"
  shows "count_required (iter_at fs d i) =
    (required_count (take (nfields fs - 1) fs), type (fs ! (nfields fs - 1)), iter_at fs d 0)"
  using assms
proof (induction "nfields fs - Suc i" arbitrary: i)
  case 0
  then have last: "Suc i = nfields fs" by simp
  then have "i = nfields fs - 1" by simp
  with 0 last show ?case
    using nfields_le [of fs]
    by (subst count_required.simps)
      (simp add: iter_next_at iter_at_required iter_at_pos del: iter_at.simps)
next
  case (Suc x)
  then have lt: "Suc i < nfields fs" by simp
  with Suc.prems have "count_required (iter_at fs d i) = count_required (iter_at fs d (Suc i))"
    by (subst count_required.simps) (simp add: iter_next_at del: iter_at.simps)
  also have "\<dots> = (required_count (take (nfields fs - 1) fs), type (fs ! (nfields fs - 1)), iter_at fs d 0)"
    using Suc(2) lt by (intro Suc(1)) simp_all
  finally show ?case .
qed

lemma required_total:
  assumes "nfields fs = length fs" and "0 < nfields fs"
  shows "required_count fs =
    (if PB_HTYPE (type (fs ! (nfields fs - 1))) = PB_HTYPE_REQUIRED
     then Suc (required_count (take (nfields fs - 1) fs)) else required_count (take (nfields fs - 1) fs))"
proof -
  from assms obtain ys y where "fs = ys @ [y]" by (cases fs rule: rev_cases) auto
  with assms(1) show ?thesis by (simp add: required_count_def nth_append)
qed

text \<open>At the end of the loop the check counts all required fields of the message.\<close>

lemma check_required_count:
  assumes "nfields fs = length fs" and "valid_iter fs d it"
  shows "check_required it seen = required_seen seen (required_count fs)"
  using assms(2)
proof (cases rule: valid_iter_cases)
  case (field i)
  have "tag (cur (iter_at fs d 0)) \<noteq> 0"
    using field(1) field_at_tag [of 0 fs] iter_at_pos [of 0 fs d] by (simp del: iter_at.simps)
  with field required_total [OF assms(1)] show ?thesis
    by (simp add: check_required_def count_required_at del: iter_at.simps)
next
  case empty
  have "\<not> fst (pb_field_iter_next it)" and "snd (pb_field_iter_next it) = it"
    using empty iter_next_empty [of fs d] by (simp_all del: iter_at.simps)
  moreover have "required_field_index it = 0"
    using empty(2) by (simp add: pb_field_iter_begin_def Let_def)
  moreover have "tag (cur it) = 0"
    using empty field_at_tag [of 0 fs] by (simp add: pb_field_iter_begin_def Let_def)
  moreover have "fs = []" using empty(1) assms(1) by simp
  ultimately show ?thesis
    by (simp add: check_required_def count_required.simps [of it] required_count_def)
qed

lemma required_seen_returns:
  assumes "length seen = 2" and "checkable n"
  shows "\<exists>b. required_seen seen n = Ret b"
proof (cases "n = 0")
  case False
  have words: "\<exists>b. check_words seen is = Ret b" if "\<forall>i \<in> set is. i < length seen" for "is"
    using that by (induction seen "is" rule: check_words.induct) auto
  have "n div 32 < 2" using assms(2) by (simp add: checkable_def less_mult_imp_div_less)
  with assms(1) obtain b where "check_words seen [0..<n div 32] = Ret b"
    using words [of "[0..<n div 32]"] by fastforce
  moreover have "n mod 32 \<noteq> 0"
    using assms(2) False unfolding checkable_def by presburger
  ultimately show ?thesis
    using assms(1) False \<open>n div 32 < 2\<close> by (cases b) (auto simp: required_seen_def)
qed (auto simp: required_seen_def)

lemma mark_seen_length [simp]: "length (mark_seen it seen) = length seen"
  by (simp add: mark_seen_def Let_def)

section \<open>The main loop\<close>

lemma find_returns:
  assumes "valid_iter fs d it"
  obtains b it' where "pb_field_iter_find it t = Some (b, it')" "valid_iter fs d it'"
proof -
  obtain b it' where
    "iter_search (\<lambda>f. tag f = t \<and> ltype f \<noteq> PB_LTYPE_EXTENSION) (pos it) (Suc (length fs)) it = Some (b, it')"
    and "valid_iter fs d it'"
    by (rule iter_search_returns [OF assms lessI])
  then show thesis
    using that valid_iter_start [OF assms] by (simp add: pb_field_iter_find_def del: iter_search.simps)
qed

lemma find_extension_none_ok:
  "ok_msg fs h \<Longrightarrow> valid_iter fs d it \<Longrightarrow> find_extension_field it = Some (False, it)"
  by (rule find_extension_none) (auto elim: ok_msgE)

lemma unknown_field_returns:
  assumes "ok_msg fs h" and "valid_iter fs d it" and "t < 2 ^ 32 - 1"
  shows "\<exists>ok ext' s' m'. unknown_field env k defaults noinit t wt it ext s m = Ret (ok, it, ext', s', m') \<and>
    bytes_left s' \<le> bytes_left s"
proof -
  obtain r s1 where r: "pb_skip_field wt s = (r, s1)" by (cases "pb_skip_field wt s")
  then have "bytes_left s1 \<le> bytes_left s" by (rule shrinkingD [OF shrinking_skip_field])
  with r assms(3) find_extension_none_ok [OF assms(1,2)] show ?thesis
    by (cases r) (auto simp: unknown_field_def Let_def)
qed

lemma runs_terminator: "runs n (decode_field env k defaults noinit wt (iter_at [] dest 0))"
proof -
  have cur: "cur (iter_at [] dest 0) = PB_LAST_FIELD"
    by (simp add: pb_field_iter_begin_def field_at_def Let_def)
  show ?thesis
    unfolding decode_field_def decode_static_field_def cur
    by (simp add: PB_LAST_FIELD_def PB_LTYPE_def PB_HTYPE_def PB_ATYPE_def PB_DECODERS_def runs_dec_varint)
qed

lemma runs_field_at:
  assumes k: "0 < k" "n + h \<le> k" and ok: "ok_msg fs (Suc h)" and it: "valid_iter fs dest it"
    and rec: "rec_runs k defaults noinit" and env: "env_consumes env"
  shows "runs n (decode_field env k defaults noinit wt it)"
  using it
proof (cases rule: valid_iter_cases)
  case (field i)
  then have "cur it \<in> set fs" using field_at_in by simp
  with ok have "atype (cur it) = PB_ATYPE_STATIC \<Longrightarrow> field_ok (cur it)"
    and "\<And>sub. ptr (cur it) = Fields sub \<Longrightarrow> ok_msg sub h"
    by (auto elim: ok_msgE)
  with rec env k show ?thesis by (rule runs_decode_field)
next
  case empty
  moreover have "nfields fs = length fs" using ok by (auto elim: ok_msgE)
  ultimately show ?thesis using runs_terminator by simp
qed

lemma decode_loop_returns:
  assumes ok: "ok_msg fs (Suc h)" and rec: "rec_runs k defaults noinit" and env: "env_consumes env"
    and n: "n + h \<le> k"
  shows "valid_iter fs dest it \<Longrightarrow> bytes_left s \<le> n \<Longrightarrow> bytes_left s < j \<Longrightarrow> length seen = 2 \<Longrightarrow>
    \<exists>b it' seen' s' m'. decode_loop env k defaults noinit j it seen ext s m = Ret (b, it', seen', s', m') \<and>
      valid_iter fs dest it' \<and> length seen' = 2"
proof (induction j arbitrary: it seen ext s m)
  case (Suc j)
  obtain r s1 where r: "pb_decode_tag s = (r, s1)" by (cases "pb_decode_tag s")
  show ?case
  proof (cases "bytes_left s = 0")
    case True
    with Suc.prems show ?thesis by auto
  next
    case False
    show ?thesis
    proof (cases r)
      case (Tag_ok wt t)
      with r have lt: "bytes_left s1 < bytes_left s" and t: "t < 2 ^ 32 - 1"
        using decode_tag_progress [of s wt t s1] decode_tag_bound [of s wt t s1] by simp_all
      obtain found it1 where find: "pb_field_iter_find it t = Some (found, it1)"
        and v1: "valid_iter fs dest it1"
        using Suc.prems(1) by (rule find_returns)
      have next_round: "\<exists>b it' seen' s' m'.
          decode_loop env k defaults noinit j it1 seen1 ext1 s2 m2 = Ret (b, it', seen', s', m') \<and>
          valid_iter fs dest it' \<and> length seen' = 2"
        if "bytes_left s2 \<le> bytes_left s1" "length seen1 = 2" for seen1 ext1 s2 m2
        using that v1 lt Suc.prems by (intro Suc.IH) simp_all
      show ?thesis
      proof (cases found)
        case True
        have "0 < k" and "bytes_left s1 + h \<le> k"
          using lt Suc.prems(2) n by simp_all
        then have "runs (bytes_left s1) (decode_field env k defaults noinit wt it1)"
          using ok v1 rec env by (rule runs_field_at)
        then obtain ok2 s2 m2 where d: "decode_field env k defaults noinit wt it1 s1 m = Ret (ok2, s2, m2)"
          "bytes_left s2 \<le> bytes_left s1"
          by (rule runsE [OF _ order_refl])
        show ?thesis
          using next_round [OF d(2), of "mark_seen it1 seen" ext m2] Suc.prems(4) v1
            False r Tag_ok find True d
          by (cases ok2) auto
      next
        case nf: False
        obtain ok2 ext2 s2 m2 where u:
          "unknown_field env k defaults noinit t wt it1 ext s1 m = Ret (ok2, it1, ext2, s2, m2)"
          "bytes_left s2 \<le> bytes_left s1"
          using unknown_field_returns [OF ok v1 t] by blast
        show ?thesis
          using next_round [OF u(2) Suc.prems(4), of ext2 m2] Suc.prems(4) v1
            False r Tag_ok find nf u(1)
          by (cases ok2) auto
      qed
    qed (use r False Suc.prems in auto)
  qed
qed simp

lemma noinit_body_returns:
  assumes ok: "ok_msg fs (Suc h)" and rec: "rec_runs k defaults noinit" and env: "env_consumes env"
    and n: "bytes_left s + h \<le> k"
  shows "\<exists>r. noinit_body env k defaults noinit fs dest s m = Ret r"
proof -
  have all: "nfields fs = length fs" and req: "checkable (required_count fs)"
    using ok by (auto elim: ok_msgE)
  have fuel: "bytes_left s < Suc k" "length [0, 0 :: 32 word] = 2" using n by simp_all
  obtain b it seen s1 m1 where
    loop: "decode_loop env k defaults noinit (Suc k) (iter_at fs dest 0) [0, 0] 0 s m = Ret (b, it, seen, s1, m1)"
    and "valid_iter fs dest it" "length seen = 2"
    using decode_loop_returns [OF ok rec env n valid_iter_begin order_refl fuel] by blast
  moreover from this obtain all_seen where "check_required it seen = Ret all_seen"
    using check_required_count [OF all] required_seen_returns [OF _ req] by metis
  ultimately show ?thesis
    by (cases b; cases all_seen)
      (auto simp: noinit_body_def iter_begin_at derr_def simp del: iter_at.simps decode_loop.simps)
qed

lemma rec_runs_decode:
  assumes "env_consumes env"
  shows "rec_runs k (pb_message_set_to_defaults env k) (pb_decode_noinit env k)"
proof (induction k)
  case 0
  then show ?case
    unfolding rec_runs_def using defaults_return by (auto elim: ok_msgE)
next
  case (Suc k)
  have "\<exists>r. pb_decode_noinit env (Suc k) fs dest s m = Ret r"
    if ok: "ok_msg fs h" and n: "bytes_left s + h \<le> Suc k" for fs h dest s m
  proof -
    from ok obtain h' where h: "h = Suc h'" by (auto elim: ok_msgE)
    with n have "bytes_left s + h' \<le> k" by simp
    with ok h show ?thesis
      using noinit_body_returns [OF _ Suc assms] by simp
  qed
  then show ?case
    unfolding rec_runs_def using defaults_return by blast
qed

lemma pb_decode_returns:
  assumes "ok_msg fs h" and "env_consumes env" and "bytes_left s + h \<le> k"
  shows "\<exists>r. pb_decode env k fs dest s m = Ret r"
proof -
  note rec = rec_runs_decode [OF assms(2), of k]
  obtain m1 where "pb_message_set_to_defaults env k fs dest m = Ret m1"
    using rec_runs_defaults [OF rec assms(1)] assms(3) by fastforce
  with rec_runs_noinit [OF rec assms(1,3)] show ?thesis
    by (simp add: pb_decode_def pb_decode_with_def)
qed

section \<open>Properties\<close>


lemma env_consumes_none: "env_consumes no_callbacks"
  by (simp add: env_consumes_def no_callbacks_def)

lemma ok_inner: "ok_msg inner_fields 1"
  unfolding One_nat_def
  by (rule ok_msgI)
    (auto simp: inner_fields_def nfields_def required_count_def checkable_def field_ok_def
      PB_LTYPE_def PB_HTYPE_def)

lemma ok_outer: "ok_msg outer_fields 2"
  unfolding numeral_2_eq_2
  using ok_inner
  by - (rule ok_msgI,
    auto simp: outer_fields_def nfields_def required_count_def checkable_def field_ok_def
      PB_LTYPE_def PB_HTYPE_def)


end
