(* ===== verification/PbRequired.thy ===== *)
theory PbRequired
  imports PbDecodeTotal
begin

text \<open>
  What a successful run of the nanopb main loop has done: the loop as a step relation over the
  fields it met, and the check of required fields, which is exact: the loop's result is true only
  when every required field was decoded.
\<close>

section \<open>The bitmap of required fields\<close>

text \<open>Bit \<open>q\<close> of \<open>fields_seen\<close>.\<close>

definition seen_bit :: "32 word list \<Rightarrow> nat \<Rightarrow> bool" where
  "seen_bit seen q \<longleftrightarrow> bit (seen ! (q div 32)) (q mod 32)"

lemma seen_bit_mark:
  assumes "length seen = 2" and "q < 64"
  shows "seen_bit (mark_seen it seen) q \<longleftrightarrow>
    seen_bit seen q \<or> htype (cur it) = PB_HTYPE_REQUIRED \<and> required_field_index it = q"
proof (cases "htype (cur it) = PB_HTYPE_REQUIRED \<and> required_field_index it < 64")
  case True
  let ?i = "required_field_index it"
  have i: "?i div 32 < length seen" using True assms(1) by (simp add: less_mult_imp_div_less)
  have same: "?i = q \<longleftrightarrow> ?i div 32 = q div 32 \<and> ?i mod 32 = q mod 32"
    by (metis div_mult_mod_eq)
  have "bit (push_bit (?i mod 32) (1 :: 32 word)) (q mod 32) \<longleftrightarrow> ?i mod 32 = q mod 32"
    by (auto simp: bit_push_bit_iff bit_exp_iff)
  with True i same show ?thesis
    by (auto simp: seen_bit_def mark_seen_def Let_def bit_or_iff nth_list_update)
next
  case False
  with assms(2) show ?thesis by (auto simp: mark_seen_def Let_def)
qed

lemma seen_bit_fold:
  "length seen = 2 \<Longrightarrow> q < 64 \<Longrightarrow>
   seen_bit (fold mark_seen its seen) q \<longleftrightarrow>
     seen_bit seen q \<or> (\<exists>it \<in> set its. htype (cur it) = PB_HTYPE_REQUIRED \<and> required_field_index it = q)"
  by (induction its arbitrary: seen) (auto simp: seen_bit_mark)

lemma length_fold_mark [simp]: "length (fold mark_seen its seen) = length seen"
  by (induction its arbitrary: seen) simp_all

lemma word_all_bits: "(w :: 32 word) = NOT 0 \<longleftrightarrow> (\<forall>q < 32. bit w q)"
  by (auto simp: bit_eq_iff bit_not_iff)

lemma word_low_bits:
  assumes "0 < r" and "r < 32"
  shows "(w :: 32 word) = drop_bit (32 - r) (NOT 0) \<longleftrightarrow> (\<forall>q < 32. bit w q \<longleftrightarrow> q < r)"
proof -
  have "bit (drop_bit (32 - r) (NOT 0) :: 32 word) q \<longleftrightarrow> q < r" if "q < 32" for q
    using assms that by (auto simp: bit_drop_bit_eq bit_not_iff bit_mask_iff)
  then show ?thesis by (auto simp: bit_eq_iff)
qed

lemma check_words_all:
  assumes "\<forall>i \<in> set is. i < length seen"
  shows "check_words seen is = Ret (\<forall>i \<in> set is. seen ! i = NOT 0)"
  using assms by (induction seen "is" rule: check_words.induct) auto

lemma required_seen_exact:
  assumes len: "length seen = 2" and n: "checkable n" and above: "\<And>q. q < 64 \<Longrightarrow> n \<le> q \<Longrightarrow> \<not> seen_bit seen q"
  shows "required_seen seen n = Ret (\<forall>q < n. seen_bit seen q)"
proof (cases "n = 0")
  case True
  then show ?thesis by (simp add: required_seen_def)
next
  case False
  let ?w = "n div 32" and ?r = "n mod 32"
  have w: "?w < 2" and r: "0 < ?r" "?r < 32"
    using n False unfolding checkable_def by (simp_all add: less_mult_imp_div_less) presburger
  have last: "seen ! ?w = drop_bit (32 - ?r) (NOT 0) \<longleftrightarrow> (\<forall>q < 32. q < ?r \<longrightarrow> bit (seen ! ?w) q)"
  proof -
    have "\<not> bit (seen ! ?w) q" if "q < 32" "?r \<le> q" for q
    proof -
      have "32 * ?w + q < 64" using w that(1) by simp
      moreover have "n \<le> 32 * ?w + q" using that(2) div_mult_mod_eq [of n 32] by linarith
      moreover have "(32 * ?w + q) div 32 = ?w" and "(32 * ?w + q) mod 32 = q" using that(1) by simp_all
      ultimately show ?thesis using above [of "32 * ?w + q"] by (simp add: seen_bit_def)
    qed
    then show ?thesis unfolding word_low_bits [OF r] by (meson not_less)
  qed
  have split: "(\<forall>q < n. seen_bit seen q) \<longleftrightarrow>
      (\<forall>i < ?w. \<forall>q < 32. bit (seen ! i) q) \<and> (\<forall>q < 32. q < ?r \<longrightarrow> bit (seen ! ?w) q)" (is "?L \<longleftrightarrow> ?R")
  proof
    assume L: ?L
    have "bit (seen ! i) q" if "32 * i + q < n" "q < 32" for i q
    proof -
      have "(32 * i + q) div 32 = i" and "(32 * i + q) mod 32 = q" using that(2) by simp_all
      with L that(1) show ?thesis by (auto simp: seen_bit_def)
    qed
    moreover have "32 * i + q < n" if "i < ?w" "q < 32" for i q
      using that div_mult_mod_eq [of n 32] by linarith
    moreover have "32 * ?w + q < n" if "q < ?r" for q
      using that div_mult_mod_eq [of n 32] by linarith
    ultimately show ?R by blast
  next
    assume R: ?R
    show ?L
    proof (intro allI impI)
      fix q assume "q < n"
      then have "q div 32 < ?w \<or> q div 32 = ?w \<and> q mod 32 < ?r"
        using div_mult_mod_eq [of q 32] div_mult_mod_eq [of n 32] div_le_mono [of q n 32] by linarith
      with R show "seen_bit seen q" by (auto simp: seen_bit_def)
    qed
  qed
  have "check_words seen [0..<?w] = Ret (\<forall>i < ?w. seen ! i = NOT 0)"
    using w len by (subst check_words_all) auto
  with w r len last show ?thesis
    unfolding split required_seen_def word_all_bits [symmetric]
    by (cases "\<forall>i < ?w. seen ! i = NOT 0") (simp_all add: False)
qed

section \<open>From required indices to fields\<close>

lemma required_count_mono: "i \<le> j \<Longrightarrow> required_count (take i fs) \<le> required_count (take j fs)"
proof -
  assume "i \<le> j"
  then have "take j fs = take i fs @ take (j - i) (drop i fs)"
    by (metis le_add_diff_inverse take_add)
  then show ?thesis by (simp add: required_count_def)
qed

lemma required_count_Suc:
  "i < length fs \<Longrightarrow> required_count (take (Suc i) fs) =
     (if htype (fs ! i) = PB_HTYPE_REQUIRED then Suc (required_count (take i fs))
      else required_count (take i fs))"
  by (simp add: required_count_def take_Suc_conv_app_nth)

lemma required_index_inj:
  assumes "i < length fs" "j < length fs" "htype (fs ! i) = PB_HTYPE_REQUIRED" "htype (fs ! j) = PB_HTYPE_REQUIRED"
    and "required_count (take i fs) = required_count (take j fs)"
  shows "i = j"
proof (rule ccontr)
  assume "i \<noteq> j"
  then consider "Suc i \<le> j" | "Suc j \<le> i" by linarith
  then show False
    using assms required_count_mono [of "Suc i" j fs] required_count_mono [of "Suc j" i fs]
    by cases (simp_all add: required_count_Suc)
qed

lemma required_index_less:
  assumes "i < length fs" and "htype (fs ! i) = PB_HTYPE_REQUIRED"
  shows "required_count (take i fs) < required_count fs"
  using assms required_count_mono [of "Suc i" "length fs" fs] by (simp add: required_count_Suc)

lemma required_index_surj:
  "q < required_count fs \<Longrightarrow>
     \<exists>i < length fs. htype (fs ! i) = PB_HTYPE_REQUIRED \<and> required_count (take i fs) = q"
proof (induction fs rule: rev_induct)
  case Nil
  then show ?case by (simp add: required_count_def)
next
  case (snoc f fs)
  show ?case
  proof (cases "q < required_count fs")
    case True
    with snoc.IH obtain i where "i < length fs" "htype (fs ! i) = PB_HTYPE_REQUIRED"
      "required_count (take i fs) = q" by blast
    then show ?thesis by (intro exI [of _ i]) (simp add: nth_append)
  next
    case False
    with snoc.prems have "htype f = PB_HTYPE_REQUIRED" and "required_count fs = q"
      by (auto simp: required_count_def split: if_splits)
    then show ?thesis by (intro exI [of _ "length fs"]) simp
  qed
qed

text \<open>The loop marks the fields at positions \<open>ps\<close>; then the check succeeds iff none is missing.\<close>

lemma check_required_positions:
  assumes all: "nfields fs = length fs" and n: "checkable (required_count fs)"
    and it: "valid_iter fs d it" and ps: "\<forall>p \<in> set ps. p < length fs"
  shows "check_required it (fold mark_seen (map (iter_at fs d) ps) [0, 0]) =
    Ret (\<forall>i < length fs. htype (fs ! i) = PB_HTYPE_REQUIRED \<longrightarrow> i \<in> set ps)"
proof -
  let ?seen = "fold mark_seen (map (iter_at fs d) ps) [0, 0]"
  have zero: "\<not> seen_bit [0, 0] q" if "q < 64" for q
  proof -
    have "q div 32 = 0 \<or> q div 32 = 1" using that by (simp add: less_mult_imp_div_less) linarith
    then show ?thesis by (auto simp: seen_bit_def)
  qed
  have bits: "seen_bit ?seen q \<longleftrightarrow>
      (\<exists>p \<in> set ps. htype (fs ! p) = PB_HTYPE_REQUIRED \<and> required_count (take p fs) = q)"
    if "q < 64" for q
    using that zero ps by (subst seen_bit_fold)
      (auto simp: iter_at_pos iter_at_required all simp del: iter_at.simps)
  have "\<not> seen_bit ?seen q" if "q < 64" "required_count fs \<le> q" for q
    using bits [OF that(1)] that(2) ps required_index_less [of _ fs] by fastforce
  then have "required_seen ?seen (required_count fs) = Ret (\<forall>q < required_count fs. seen_bit ?seen q)"
    using n by (intro required_seen_exact) simp_all
  moreover have "(\<forall>q < required_count fs. seen_bit ?seen q) \<longleftrightarrow>
      (\<forall>i < length fs. htype (fs ! i) = PB_HTYPE_REQUIRED \<longrightarrow> i \<in> set ps)" (is "?L \<longleftrightarrow> ?R")
  proof
    assume ?L
    show ?R
    proof (intro allI impI)
      fix i assume i: "i < length fs" "htype (fs ! i) = PB_HTYPE_REQUIRED"
      then have lt: "required_count (take i fs) < required_count fs" by (rule required_index_less)
      moreover have "required_count fs < 64" using n by (simp add: checkable_def)
      ultimately obtain p where "p \<in> set ps" "htype (fs ! p) = PB_HTYPE_REQUIRED"
        "required_count (take p fs) = required_count (take i fs)"
        using \<open>?L\<close> bits by (meson less_trans)
      then show "i \<in> set ps" using i ps required_index_inj [of p fs i] by auto
    qed
  next
    assume R: ?R
    show ?L
    proof (intro allI impI)
      fix q assume q: "q < required_count fs"
      then obtain i where "i < length fs" "htype (fs ! i) = PB_HTYPE_REQUIRED" "required_count (take i fs) = q"
        using required_index_surj by blast
      moreover have "q < 64" using q n by (simp add: checkable_def)
      ultimately show "seen_bit ?seen q" using R bits by blast
    qed
  qed
  ultimately show ?thesis by (simp add: check_required_count [OF all it])
qed

section \<open>The main loop as a step relation\<close>

text \<open>
  \<open>decode_steps s m ps s' m'\<close>: starting with stream \<open>s\<close> and memory \<open>m\<close> the loop decodes the fields
  at positions \<open>ps\<close>, skips unknown ones, and ends with \<open>s'\<close> and \<open>m'\<close>.
\<close>

inductive decode_steps ::
  "'s pb_env \<Rightarrow> nat \<Rightarrow> defaults \<Rightarrow> 's noinit \<Rightarrow> pb_field list \<Rightarrow> addr \<Rightarrow>
   's pb_istream \<Rightarrow> mem \<Rightarrow> nat list \<Rightarrow> 's pb_istream \<Rightarrow> mem \<Rightarrow> bool"
  for env k defaults noinit fs dest where
  at_end: "bytes_left s = 0 \<Longrightarrow> decode_steps env k defaults noinit fs dest s m [] s m"
| end_tag: "bytes_left s \<noteq> 0 \<Longrightarrow> pb_decode_tag s = (Tag_end, s1) \<Longrightarrow>
    decode_steps env k defaults noinit fs dest s m [] s1 m"
| known: "bytes_left s \<noteq> 0 \<Longrightarrow> pb_decode_tag s = (Tag_ok wt (tag (fs ! p)), s1) \<Longrightarrow> p < length fs \<Longrightarrow>
    decode_field env k defaults noinit wt (iter_at fs dest p) s1 m = Ret (True, s2, m2) \<Longrightarrow>
    decode_steps env k defaults noinit fs dest s2 m2 ps s' m' \<Longrightarrow>
    decode_steps env k defaults noinit fs dest s m (p # ps) s' m'"
| unknown: "bytes_left s \<noteq> 0 \<Longrightarrow> pb_decode_tag s = (Tag_ok wt t, s1) \<Longrightarrow> t \<notin> tag ` set fs \<Longrightarrow>
    pb_skip_field wt s1 = (Some (), s2) \<Longrightarrow>
    decode_steps env k defaults noinit fs dest s2 m ps s' m' \<Longrightarrow>
    decode_steps env k defaults noinit fs dest s m ps s' m'"

lemma decode_steps_positions:
  "decode_steps env k defaults noinit fs dest s m ps s' m' \<Longrightarrow> p \<in> set ps \<Longrightarrow> p < length fs"
  by (induction rule: decode_steps.induct) auto

text \<open>A search that fails has met no field with the tag; one that succeeds is at such a field.\<close>

lemma iter_find_result:
  assumes ok: "ok_msg fs h" and v: "valid_iter fs d it"
    and find: "pb_field_iter_find it t = Some (b, it')" and ne: "fs \<noteq> []"
  shows "if b then \<exists>p < length fs. it' = iter_at fs d p \<and> tag (fs ! p) = t else it' = it \<and> t \<notin> tag ` set fs"
proof -
  have all: "nfields fs = length fs" and noext: "\<And>f. f \<in> set fs \<Longrightarrow> ltype f \<noteq> PB_LTYPE_EXTENSION"
    using ok by (auto elim: ok_msgE)
  have st: "start it = fs" using v by (rule valid_iter_start)
  show ?thesis
    using v
  proof (cases rule: valid_iter_cases)
    case (field i)
    then have i: "pos it = i" by (simp add: iter_at_pos)
    have le: "nfields fs \<le> Suc (length fs)" using all by simp
    have find': "iter_search (\<lambda>f. tag f = t \<and> ltype f \<noteq> PB_LTYPE_EXTENSION) i (Suc (length fs)) (iter_at fs d i) = Some (b, it')"
      using find field(2) i st by (simp add: pb_field_iter_find_def del: iter_search.simps iter_at.simps)
    show ?thesis
      using iter_search_valid [OF field(1) le, of "\<lambda>f. tag f = t \<and> ltype f \<noteq> PB_LTYPE_EXTENSION" d]
    proof (elim disjE exE conjE)
      fix p
      assume "p < nfields fs" "tag (fs ! p) = t"
        and "iter_search (\<lambda>f. tag f = t \<and> ltype f \<noteq> PB_LTYPE_EXTENSION) i (Suc (length fs)) (iter_at fs d i) =
          Some (True, iter_at fs d p)"
      with find' all show ?thesis by auto
    next
      assume no: "\<forall>j < nfields fs. \<not> (tag (fs ! j) = t \<and> ltype (fs ! j) \<noteq> PB_LTYPE_EXTENSION)"
        and "iter_search (\<lambda>f. tag f = t \<and> ltype f \<noteq> PB_LTYPE_EXTENSION) i (Suc (length fs)) (iter_at fs d i) =
          Some (False, iter_at fs d i)"
      moreover have "t \<notin> tag ` set fs"
        using no all noext [OF nth_mem] by (auto simp: in_set_conv_nth)
      ultimately show ?thesis using find' field(2) by auto
    qed
  next
    case empty
    then show ?thesis using ne all by simp
  qed
qed

text \<open>On an empty message only unknown fields can be handled with success.\<close>

lemma decode_terminator_fails:
  assumes "decode_field env k defaults noinit wt (iter_at [] dest 0) s m = Ret (b, s', m')"
  shows "\<not> b"
proof -
  have cur: "cur (iter_at [] dest 0) = PB_LAST_FIELD"
    by (simp add: pb_field_iter_begin_def field_at_def Let_def)
  have "\<not> b" if "pb_dec_varint PB_LAST_FIELD a s m = Ret (b, s', m')" for a
    using that
    by (auto simp: pb_dec_varint_def store_clamped_def PB_LAST_FIELD_def int_size_def dread_def derr_def
        split: prod.splits option.splits)
  with assms show ?thesis
    unfolding decode_field_def decode_static_field_def cur
    by (simp add: PB_LAST_FIELD_def PB_LTYPE_def PB_HTYPE_def PB_ATYPE_def PB_DECODERS_def)
qed

lemma unknown_field_skips:
  assumes "ok_msg fs h" and "valid_iter fs d it" and "t < 2 ^ 32 - 1"
    and "unknown_field env k defaults noinit t wt it ext s m = Ret (True, it', ext', s', m')"
  shows "pb_skip_field wt s = (Some (), s') \<and> it' = it \<and> m' = m"
  using assms(3,4) find_extension_none_ok [OF assms(1,2)]
  by (auto simp: unknown_field_def Let_def split: if_splits option.splits prod.splits)

lemma decode_loop_steps:
  assumes ok: "ok_msg fs h"
  shows "valid_iter fs dest it \<Longrightarrow>
    decode_loop env k defaults noinit j it seen ext s m = Ret (True, it', seen', s', m') \<Longrightarrow>
    \<exists>ps. decode_steps env k defaults noinit fs dest s m ps s' m' \<and>
      seen' = fold mark_seen (map (iter_at fs dest) ps) seen \<and> valid_iter fs dest it'"
proof (induction j arbitrary: it seen ext s m)
  case (Suc j)
  from Suc.prems(2) show ?case
  proof (cases rule: decode_loop_cases)
    case stop
    then have "decode_steps env k defaults noinit fs dest s m [] s' m'"
      by (auto intro: at_end end_tag)
    with stop Suc.prems(1) show ?thesis by (intro exI [of _ "[]"]) simp
  next
    case (unknown wt t s1 it1 ok2 it2 ext2 s2 m2)
    then have ok2: ok2 and v1: "valid_iter fs dest it1"
      using Suc.prems(1) by (auto intro: iter_find_valid split: if_splits)
    have "t < 2 ^ 32 - 1" using decode_tag_bound [OF unknown(2)] by simp
    moreover have "unknown_field env k defaults noinit t wt it1 ext s1 m = Ret (True, it2, ext2, s2, m2)"
      using unknown(4) ok2 by simp
    ultimately have skip: "pb_skip_field wt s1 = (Some (), s2)" "it2 = it1" "m2 = m"
      using unknown_field_skips [OF ok v1] by blast+
    with unknown(5) ok2 obtain ps where
      ps: "decode_steps env k defaults noinit fs dest s2 m ps s' m'"
        "seen' = fold mark_seen (map (iter_at fs dest) ps) seen" "valid_iter fs dest it'"
      using Suc.IH [OF v1, of seen ext2 s2 m] by auto
    have "t \<notin> tag ` set fs"
      using iter_find_result [OF ok Suc.prems(1) unknown(3)] by (cases "fs = []") auto
    from decode_steps.unknown [OF unknown(1,2) this skip(1) ps(1)] ps show ?thesis by blast
  next
    case (known wt t s1 it1 ok2 s2 m2)
    then have ok2: ok2 and v1: "valid_iter fs dest it1"
      using Suc.prems(1) by (auto intro: iter_find_valid split: if_splits)
    have "fs \<noteq> []"
    proof
      assume "fs = []"
      with v1 have "it1 = iter_at [] dest 0" by (auto simp: valid_iter_def nfields_def)
      with known(4) ok2 show False using decode_terminator_fails by blast
    qed
    from iter_find_result [OF ok Suc.prems(1) known(3) this] obtain p where
      p: "p < length fs" "it1 = iter_at fs dest p" "tag (fs ! p) = t" by auto
    from known(5) ok2 obtain ps where
      ps: "decode_steps env k defaults noinit fs dest s2 m2 ps s' m'"
        "seen' = fold mark_seen (map (iter_at fs dest) ps) (mark_seen it1 seen)" "valid_iter fs dest it'"
      using Suc.IH [OF v1, of "mark_seen it1 seen" ext s2 m2] by auto
    have "decode_steps env k defaults noinit fs dest s m (p # ps) s' m'"
      using known(1,2,4) p ok2 ps(1) by (intro decode_steps.known) simp_all
    with ps p show ?thesis by (intro exI [of _ "p # ps"]) simp
  qed
qed simp

section \<open>Properties\<close>

text \<open>
  C23. When \<open>pb_decode_noinit\<close> returns true, its run was a sequence of decoded fields and
  skipped unknown fields in which every required field of the message occurred: the bitmap of
  64 bits and its final comparison miss none.
\<close>

theorem decode_true_has_required:
  assumes "ok_msg fs h" and "pb_decode_noinit env (Suc k) fs dest s m = Ret (True, s', m')"
  shows "\<exists>ps. decode_steps env k (pb_message_set_to_defaults env k) (pb_decode_noinit env k) fs dest s m ps s' m' \<and>
    (\<forall>i < length fs. htype (fs ! i) = PB_HTYPE_REQUIRED \<longrightarrow> i \<in> set ps)"
proof -
  have all: "nfields fs = length fs" and n: "checkable (required_count fs)"
    using assms(1) by (auto elim: ok_msgE)
  let ?loop = "decode_loop env k (pb_message_set_to_defaults env k) (pb_decode_noinit env k)"
  from assms(2) obtain it seen where
    loop: "?loop (Suc k) (iter_at fs dest 0) [0, 0] 0 s m = Ret (True, it, seen, s', m')"
    and check: "check_required it seen = Ret True"
    by (auto simp: noinit_body_def run_bind_Ret_iff derr_def iter_begin_at
        simp del: iter_at.simps decode_loop.simps split: if_splits)
  from decode_loop_steps [OF assms(1) valid_iter_begin loop] obtain ps where
    ps: "decode_steps env k (pb_message_set_to_defaults env k) (pb_decode_noinit env k) fs dest s m ps s' m'"
    and seen: "seen = fold mark_seen (map (iter_at fs dest) ps) [0, 0]" and v: "valid_iter fs dest it"
    by blast
  have "\<forall>p \<in> set ps. p < length fs" using decode_steps_positions [OF ps] by blast
  from check_required_positions [OF all n v this] check seen ps show ?thesis by auto
qed

lemma inner_run:
  "case pb_decode_noinit no_callbacks (Suc 4) inner_fields 16
     (pb_istream_from_buffer [8, 5] 2 :: unit pb_istream) (\<lambda>_. 0) of
     Ret (ok, _) \<Rightarrow> ok | _ \<Rightarrow> False"
  by code_simp

theorem decode_true_has_required_witness:
  "\<exists>s' m' ps. pb_decode_noinit no_callbacks (Suc 4) inner_fields 16
      (pb_istream_from_buffer [8, 5] 2 :: unit pb_istream) (\<lambda>_. 0) = Ret (True, s', m') \<and>
    decode_steps no_callbacks 4 (pb_message_set_to_defaults (no_callbacks :: unit pb_env) 4) (pb_decode_noinit no_callbacks 4)
      inner_fields 16 (pb_istream_from_buffer [8, 5] 2) (\<lambda>_. 0) ps s' m' \<and> 0 \<in> set ps"
proof -
  obtain s' m' where r: "pb_decode_noinit no_callbacks (Suc 4) inner_fields 16
      (pb_istream_from_buffer [8, 5] 2 :: unit pb_istream) (\<lambda>_. 0) = Ret (True, s', m')"
    using inner_run by (auto split: run.splits simp del: pb_decode_noinit.simps)
  have "0 < length inner_fields" and "htype (inner_fields ! 0) = PB_HTYPE_REQUIRED"
    by (simp_all add: inner_fields_def PB_HTYPE_def)
  moreover obtain ps where
    "decode_steps no_callbacks 4 (pb_message_set_to_defaults (no_callbacks :: unit pb_env) 4) (pb_decode_noinit no_callbacks 4)
      inner_fields 16 (pb_istream_from_buffer [8, 5] 2) (\<lambda>_. 0) ps s' m'"
    and "\<forall>i < length inner_fields. htype (inner_fields ! i) = PB_HTYPE_REQUIRED \<longrightarrow> i \<in> set ps"
    using decode_true_has_required [OF ok_inner r] by blast
  ultimately show ?thesis using r by blast
qed


definition wide_fields :: "pb_field list" where
  "wide_fields = map (\<lambda>i. PbField (i + 1) 0x00 0 0 4 0 NullPtr) [0..<32]"


end
