(* ===== verification/PbOStream.thy ===== *)
theory PbOStream
  imports PbTypes
begin

text \<open>
  nanopb, the output half of \<^verbatim>\<open>pb_encode.c\<close> that does not touch a message: the stream
  \<open>pb_ostream_t\<close> and the primitive writers. A writer returns what the code returns and the
  stream. \<open>bytes_written\<close> and the check against \<open>max_size\<close> are 64-bit \<open>size_t\<close> arithmetic with
  the wrap-around written out. The lemmas say that a buffer is never overrun, that the varint
  writer produces the reference format, and how writers compose.
\<close>

section \<open>Streams\<close>

text \<open>
  \<open>Sizing\<close> is the stream without a callback, which counts only; \<open>Out acc\<close> is \<open>buf_write\<close> with
  the bytes stored so far from the start of the buffer; \<open>UserOut\<close> is a caller's function.
\<close>

datatype 's out_sink = is_Sizing: Sizing | Out bytes | UserOut "'s \<Rightarrow> bytes \<Rightarrow> bool \<times> 's" 's

record 's pb_ostream =
  sink :: "'s out_sink"
  max_size :: nat
  bytes_written :: nat
  oerrmsg :: "string option"

type_synonym 's writer = "'s pb_ostream \<Rightarrow> bool \<times> 's pb_ostream"

definition size_add :: "nat \<Rightarrow> nat \<Rightarrow> nat" where
  "size_add a b = (a + b) mod 2 ^ 64"

definition pb_oset_error :: "string \<Rightarrow> 's pb_ostream \<Rightarrow> 's pb_ostream" where
  "pb_oset_error msg s =
     s\<lparr>oerrmsg := (case oerrmsg s of Some e \<Rightarrow> Some e | None \<Rightarrow> Some msg)\<rparr>"

definition wret :: "'s writer" where
  "wret s = (True, s)"

definition werr :: "string \<Rightarrow> 's writer" where
  "werr msg s = (False, pb_oset_error msg s)"

definition wseq :: "'s writer \<Rightarrow> 's writer \<Rightarrow> 's writer" where
  "wseq m n s = (case m s of (True, s') \<Rightarrow> n s' | (False, s') \<Rightarrow> (False, s'))"

fun buf_write :: "bytes \<Rightarrow> bytes \<Rightarrow> nat \<Rightarrow> bytes" where
  "buf_write dest buf count = dest @ take count buf"

definition pb_ostream_from_buffer :: "nat \<Rightarrow> 's pb_ostream" where
  "pb_ostream_from_buffer bufsize =
     \<lparr>sink = Out [], max_size = bufsize, bytes_written = 0, oerrmsg = None\<rparr>"

definition PB_OSTREAM_SIZING :: "'s pb_ostream" where
  "PB_OSTREAM_SIZING = \<lparr>sink = Sizing, max_size = 0, bytes_written = 0, oerrmsg = None\<rparr>"

definition ostream_callback :: "bytes \<Rightarrow> nat \<Rightarrow> 's pb_ostream \<Rightarrow> bool \<times> 's pb_ostream" where
  "ostream_callback buf count s =
     (case sink s of
        Sizing \<Rightarrow> (True, s)
      | Out acc \<Rightarrow> (True, s\<lparr>sink := Out (buf_write acc buf count)\<rparr>)
      | UserOut f u \<Rightarrow> (case f u (take count buf) of (b, u') \<Rightarrow> (b, s\<lparr>sink := UserOut f u'\<rparr>)))"

definition pb_write :: "bytes \<Rightarrow> nat \<Rightarrow> 's writer" where
  "pb_write buf count s =
     (if is_Sizing (sink s) then (True, s\<lparr>bytes_written := size_add (bytes_written s) count\<rparr>)
      else if max_size s < size_add (bytes_written s) count then werr ''stream full'' s
      else case ostream_callback buf count s of
             (False, s') \<Rightarrow> werr ''io error'' s'
           | (True, s') \<Rightarrow> (True, s'\<lparr>bytes_written := size_add (bytes_written s') count\<rparr>))"

section \<open>Numbers\<close>

function varint_groups :: "64 word \<Rightarrow> bytes" where
  "varint_groups value =
     (if value = 0 then []
      else ucast ((value AND 0x7F) OR 0x80) # varint_groups (drop_bit 7 value))"
  by pat_completeness auto
termination
proof (relation "measure unat")
  fix v :: "64 word"
  assume "v \<noteq> 0"
  then have "unat v div 2 ^ 7 < unat v"
    by (simp add: unat_gt_0 div_less_dividend)
  then show "(drop_bit 7 v, v) \<in> measure unat"
    by (simp only: in_measure unat_drop_bit)
qed simp

declare varint_groups.simps [simp del]

definition pb_encode_varint :: "64 word \<Rightarrow> 's writer" where
  "pb_encode_varint value =
     (if value \<le> 0x7F then pb_write [ucast value] 1
      else let buffer = varint_groups value; i = length buffer in
           pb_write (buffer[i - 1 := (buffer ! (i - 1)) AND 0x7F]) i)"

definition zigzag :: "64 word \<Rightarrow> 64 word" where
  "zigzag value = (if sint value < 0 then NOT (push_bit 1 value) else push_bit 1 value)"

definition pb_encode_svarint :: "64 word \<Rightarrow> 's writer" where
  "pb_encode_svarint value = pb_encode_varint (zigzag value)"

definition fixed32_bytes :: "32 word \<Rightarrow> bytes" where
  "fixed32_bytes val =
     [ucast (val AND 0xFF), ucast (drop_bit 8 val AND 0xFF),
      ucast (drop_bit 16 val AND 0xFF), ucast (drop_bit 24 val AND 0xFF)]"

definition pb_encode_fixed32 :: "32 word \<Rightarrow> 's writer" where
  "pb_encode_fixed32 val = pb_write (fixed32_bytes val) 4"

definition fixed64_bytes :: "64 word \<Rightarrow> bytes" where
  "fixed64_bytes val =
     [ucast (val AND 0xFF), ucast (drop_bit 8 val AND 0xFF),
      ucast (drop_bit 16 val AND 0xFF), ucast (drop_bit 24 val AND 0xFF),
      ucast (drop_bit 32 val AND 0xFF), ucast (drop_bit 40 val AND 0xFF),
      ucast (drop_bit 48 val AND 0xFF), ucast (drop_bit 56 val AND 0xFF)]"

definition pb_encode_fixed64 :: "64 word \<Rightarrow> 's writer" where
  "pb_encode_fixed64 val = pb_write (fixed64_bytes val) 8"

section \<open>Tags and strings\<close>

definition pb_encode_tag :: "nat \<Rightarrow> nat \<Rightarrow> 's writer" where
  "pb_encode_tag wiretype field_number =
     pb_encode_varint (push_bit 3 (of_nat field_number) OR of_nat wiretype)"

definition wire_type_of :: "8 word \<Rightarrow> nat option" where
  "wire_type_of lt =
     (if lt = PB_LTYPE_VARINT \<or> lt = PB_LTYPE_UVARINT \<or> lt = PB_LTYPE_SVARINT then Some PB_WT_VARINT
      else if lt = PB_LTYPE_FIXED32 then Some PB_WT_32BIT
      else if lt = PB_LTYPE_FIXED64 then Some PB_WT_64BIT
      else if lt = PB_LTYPE_BYTES \<or> lt = PB_LTYPE_STRING \<or> lt = PB_LTYPE_SUBMESSAGE \<or>
              lt = PB_LTYPE_FIXED_LENGTH_BYTES then Some PB_WT_STRING
      else None)"

definition pb_encode_tag_for_field :: "pb_field \<Rightarrow> 's writer" where
  "pb_encode_tag_for_field field =
     (case wire_type_of (ltype field) of
        None \<Rightarrow> werr ''invalid field type''
      | Some wiretype \<Rightarrow> pb_encode_tag wiretype (tag field))"

definition pb_encode_string :: "bytes \<Rightarrow> nat \<Rightarrow> 's writer" where
  "pb_encode_string buffer n =
     wseq (pb_encode_varint (of_nat n)) (pb_write buffer n)"

section \<open>The varint writer produces the reference format\<close>

lemma ucast_group: "unat (ucast ((v AND 0x7F) OR 0x80) :: 8 word) = unat (v :: 64 word) mod 128 + 128"
proof -
  have "unat ((v AND 0x7F) OR 0x80) = (unat v AND 127) OR 128"
    by (simp add: unsigned_or_eq unsigned_and_eq)
  then show ?thesis
    by (simp add: unat_ucast_byte nat_and_127 nat_or_128)
qed

text \<open>Clearing the top bit of the last byte of the buffer.\<close>

definition clear_last :: "bytes \<Rightarrow> bytes" where
  "clear_last bs = bs[length bs - 1 := (bs ! (length bs - 1)) AND 0x7F]"

lemma clear_last_single: "clear_last [b] = [b AND 0x7F]"
  by (simp add: clear_last_def)

lemma clear_last_Cons: "bs \<noteq> [] \<Longrightarrow> clear_last (b # bs) = b # clear_last bs"
  by (cases bs) (simp_all add: clear_last_def)

lemma unat_drop_7: "unat (drop_bit 7 (v :: 64 word)) = unat v div 128"
  by (simp only: unat_drop_bit) simp

lemma group_byte: "(ucast (((v :: 64 word) AND 0x7F) OR 0x80) :: 8 word) = of_nat (unat v mod 128 + 128)"
  unfolding word_unat_eq_iff ucast_group by (simp only: unat_of_nat_byte) simp

lemma group_byte_last:
  assumes "unat (v :: 64 word) < 128"
  shows "(ucast ((v AND 0x7F) OR 0x80) AND 0x7F :: 8 word) = of_nat (unat v)"
proof -
  have "unat (ucast ((v AND 0x7F) OR 0x80) AND 0x7F :: 8 word) = unat v mod 256"
    using assms by (simp only: unat_byte_and_127 ucast_group) simp
  then show ?thesis by (simp only: word_unat_eq_iff unat_of_nat_byte)
qed

lemma varint_groups_small: "v \<noteq> 0 \<Longrightarrow> unat v < 128 \<Longrightarrow> clear_last (varint_groups v) = varint_bytes (unat v)"
proof -
  assume v: "v \<noteq> 0" and small: "unat v < 128"
  have "unat (drop_bit 7 v) = 0" using small by (simp add: unat_drop_7)
  then have "drop_bit 7 v = 0" by (simp only: unat_eq_zero)
  then have "varint_groups v = [ucast ((v AND 0x7F) OR 0x80)]"
    using v by (simp add: varint_groups.simps [of v] varint_groups.simps [of 0])
  then show ?thesis
    using small by (simp only: clear_last_single group_byte_last varint_bytes_small)
qed

lemma varint_groups_eq:
  "v \<noteq> 0 \<Longrightarrow> varint_groups v \<noteq> [] \<and> clear_last (varint_groups v) = varint_bytes (unat v)"
proof (induction v rule: varint_groups.induct)
  case (1 v)
  show ?case
  proof (cases "unat v < 128")
    case True
    then show ?thesis
      using "1.prems" varint_groups_small [of v] by (subst varint_groups.simps) simp
  next
    case False
    have "drop_bit 7 v \<noteq> 0"
    proof
      assume "drop_bit 7 v = 0"
      then have "unat v div 128 = 0" by (simp add: unat_drop_7 [symmetric])
      with False show False by simp
    qed
    from "1.IH" [OF "1.prems" this]
    show ?thesis
      using False "1.prems"
      by (simp only: varint_groups.simps [of v] if_False clear_last_Cons group_byte
          varint_bytes_big unat_drop_7 not_less) (simp add: clear_last_Cons)
  qed
qed

lemma pb_encode_varint_write:
  "pb_encode_varint v = pb_write (varint_bytes (unat v)) (length (varint_bytes (unat v)))"
proof (cases "v \<le> 0x7F")
  case True
  then have "unat v \<le> 127" by (simp add: word_le_nat_alt)
  moreover have "(ucast v :: 8 word) = of_nat (unat v)"
    by (simp add: of_nat_unat)
  ultimately show ?thesis using True by (simp add: pb_encode_varint_def varint_bytes_small)
next
  case False
  then have "v \<noteq> 0" by auto
  then have c: "clear_last (varint_groups v) = varint_bytes (unat v)"
    by (rule varint_groups_eq [THEN conjunct2])
  have "length (varint_groups v) = length (clear_last (varint_groups v))"
    by (simp add: clear_last_def)
  with False c show ?thesis
    by (simp only: pb_encode_varint_def Let_def if_False clear_last_def [symmetric])
qed

section \<open>Bytes of numbers\<close>

lemma fixed32_bytes_le: "fixed32_bytes v = le_bytes 4 (unat v)"
  unfolding fixed32_bytes_def by (rule shifted_bytes_32)

lemma fixed64_bytes_le: "fixed64_bytes v = le_bytes 8 (unat v)"
  unfolding fixed64_bytes_def by (rule shifted_bytes_64)

section \<open>Writing to a buffer with room\<close>

text \<open>
  \<open>ostream acc mx n e\<close> writes to a buffer that holds \<open>acc\<close> already; \<open>emits m bs\<close>: given room,
  the writer \<open>m\<close> appends exactly \<open>bs\<close> and succeeds; \<open>counts m k\<close>: on a sizing stream it
  succeeds and counts \<open>k\<close> bytes.
\<close>

definition ostream :: "bytes \<Rightarrow> nat \<Rightarrow> nat \<Rightarrow> string option \<Rightarrow> 's pb_ostream" where
  "ostream acc mx n e = \<lparr>sink = Out acc, max_size = mx, bytes_written = n, oerrmsg = e\<rparr>"

definition sizing :: "nat \<Rightarrow> nat \<Rightarrow> string option \<Rightarrow> 's pb_ostream" where
  "sizing mx n e = \<lparr>sink = Sizing, max_size = mx, bytes_written = n, oerrmsg = e\<rparr>"

definition emits :: "'s writer \<Rightarrow> bytes \<Rightarrow> bool" where
  "emits m bs \<longleftrightarrow>
     (\<forall>acc mx n e. n + length bs \<le> mx \<and> mx < 2 ^ 64 \<longrightarrow>
        m (ostream acc mx n e) = (True, ostream (acc @ bs) mx (n + length bs) e)) \<and>
     (\<forall>mx n e. n + length bs < 2 ^ 64 \<longrightarrow>
        m (sizing mx n e) = (True, sizing mx (n + length bs) e))"

lemma emitsD:
  assumes "emits m bs"
  shows "n + length bs \<le> mx \<Longrightarrow> mx < 2 ^ 64 \<Longrightarrow>
      m (ostream acc mx n e) = (True, ostream (acc @ bs) mx (n + length bs) e)"
    and "n + length bs < 2 ^ 64 \<Longrightarrow> m (sizing mx n e) = (True, sizing mx (n + length bs) e)"
  using assms by (auto simp: emits_def)

lemma emits_wret [simp]: "emits wret []"
  by (simp add: emits_def wret_def)

lemma emits_pb_write [simp]: "n = length bs \<Longrightarrow> emits (pb_write bs n) bs"
  by (auto simp: emits_def pb_write_def ostream_def sizing_def ostream_callback_def size_add_def)

lemma emits_wseq:
  assumes "emits m as" and "emits n bs"
  shows "emits (wseq m n) (as @ bs)"
  unfolding emits_def wseq_def
  by (simp add: emitsD [OF assms(1)] emitsD [OF assms(2)] add.assoc)

lemma emits_varint [simp]: "emits (pb_encode_varint v) (varint_bytes (unat v))"
  by (simp add: pb_encode_varint_write)

lemma emits_svarint [simp]: "emits (pb_encode_svarint v) (varint_bytes (unat (zigzag v)))"
  by (simp add: pb_encode_svarint_def)

lemma emits_fixed32 [simp]: "emits (pb_encode_fixed32 v) (le_bytes 4 (unat v))"
  unfolding pb_encode_fixed32_def fixed32_bytes_le by (rule emits_pb_write) simp

lemma emits_fixed64 [simp]: "emits (pb_encode_fixed64 v) (le_bytes 8 (unat v))"
  unfolding pb_encode_fixed64_def fixed64_bytes_le by (rule emits_pb_write) simp

lemma emits_string:
  assumes "length bs < 2 ^ 64"
  shows "emits (pb_encode_string bs (length bs)) (varint_bytes (length bs) @ bs)"
proof -
  have "emits (pb_encode_varint (of_nat (length bs))) (varint_bytes (unat (of_nat (length bs) :: 64 word)))"
    by simp
  moreover have "unat (of_nat (length bs) :: 64 word) = length bs"
    using assms by (simp add: unat_of_nat)
  ultimately have "emits (pb_encode_varint (of_nat (length bs))) (varint_bytes (length bs))"
    by simp
  then show ?thesis
    unfolding pb_encode_string_def by (rule emits_wseq) simp
qed

lemma tag_word:
  assumes "t < 2 ^ 61" and "wt < 8"
  shows "unat (push_bit 3 (of_nat t) OR of_nat wt :: 64 word) = 8 * t + wt"
proof -
  have wt: "unat (of_nat wt :: 64 word) = wt" and t: "unat (of_nat t :: 64 word) = t"
    using assms by (simp_all add: unat_of_nat)
  have "unat (of_nat wt :: 64 word) < 2 ^ 3" using assms(2) wt by simp
  from unat_or_push_bit [OF this, of "of_nat t"]
  have "unat (of_nat wt OR push_bit 3 (of_nat t) :: 64 word) = (wt + t * 2 ^ 3) mod 2 ^ 64"
    by (simp only: wt t) simp
  moreover have "wt + t * 2 ^ 3 < 2 ^ 64" using assms by simp
  ultimately show ?thesis by (simp add: or.commute)
qed

lemma emits_tag:
  assumes "t < 2 ^ 32" and "wt < 8"
  shows "emits (pb_encode_tag wt t) (varint_bytes (8 * t + wt))"
proof -
  have "t < 2 ^ 61" using assms(1) by simp
  then show ?thesis
    using assms(2) emits_varint [of "push_bit 3 (of_nat t) OR of_nat wt"]
    by (simp only: pb_encode_tag_def tag_word)
qed

section \<open>A buffer is never overrun\<close>

text \<open>
  \<open>sound_stream\<close>: a stream into a buffer has counted no more than its limit and holds exactly as
  many bytes as it has counted. \<open>bounded_writer\<close>: a writer keeps that, never shrinks the count,
  and keeps the limit, whatever the result.
\<close>

definition sound_stream :: "'s pb_ostream \<Rightarrow> bool" where
  "sound_stream s \<longleftrightarrow>
     (\<exists>acc. sink s = Out acc \<and> length acc = bytes_written s) \<and>
     bytes_written s \<le> max_size s \<and> max_size s < 2 ^ 63"

definition bounded_writer :: "'s writer \<Rightarrow> bool" where
  "bounded_writer w \<longleftrightarrow>
     (\<forall>s. sound_stream s \<longrightarrow>
        sound_stream (snd (w s)) \<and> max_size (snd (w s)) = max_size s \<and>
        bytes_written s \<le> bytes_written (snd (w s)))"

lemma sound_stream_from_buffer: "n < 2 ^ 63 \<Longrightarrow> sound_stream (pb_ostream_from_buffer n)"
  by (simp add: sound_stream_def pb_ostream_from_buffer_def)

lemma oset_error_fields [simp]:
  "sink (pb_oset_error msg s) = sink s" "max_size (pb_oset_error msg s) = max_size s"
  "bytes_written (pb_oset_error msg s) = bytes_written s"
  by (simp_all add: pb_oset_error_def)

lemma sound_stream_error [simp]: "sound_stream (pb_oset_error msg s) = sound_stream s"
  by (simp add: sound_stream_def)

lemma bounded_wret [simp]: "bounded_writer wret"
  by (simp add: bounded_writer_def wret_def)

lemma bounded_werr [simp]: "bounded_writer (werr msg)"
  by (simp add: bounded_writer_def werr_def)

lemma bounded_wseq:
  assumes "bounded_writer m" and "bounded_writer (n :: 's writer)"
  shows "bounded_writer (wseq m n)"
  unfolding bounded_writer_def
proof (intro allI impI)
  fix s :: "'s pb_ostream"
  assume "sound_stream s"
  with assms(1) have m: "sound_stream (snd (m s))" "max_size (snd (m s)) = max_size s"
      "bytes_written s \<le> bytes_written (snd (m s))"
    by (auto simp: bounded_writer_def)
  obtain ok s1 where ok: "m s = (ok, s1)" by (cases "m s")
  from m assms(2) have n: "sound_stream (snd (n s1))" "max_size (snd (n s1)) = max_size s"
      "bytes_written s \<le> bytes_written (snd (n s1))"
    unfolding bounded_writer_def ok by (auto intro: order_trans)
  show "sound_stream (snd (wseq m n s)) \<and> max_size (snd (wseq m n s)) = max_size s \<and>
      bytes_written s \<le> bytes_written (snd (wseq m n s))"
    using m n by (cases ok) (simp_all add: wseq_def ok)
qed

lemma bounded_pb_write:
  assumes "length bs = n" and "n < 2 ^ 63"
  shows "bounded_writer (pb_write bs n)"
  unfolding bounded_writer_def
proof (intro allI impI)
  fix s :: "'a pb_ostream"
  assume s: "sound_stream s"
  then obtain acc where acc: "sink s = Out acc" "length acc = bytes_written s"
    and le: "bytes_written s \<le> max_size s" "max_size s < 2 ^ 63"
    by (auto simp: sound_stream_def)
  have no_wrap: "size_add (bytes_written s) n = bytes_written s + n"
    using le assms(2) by (simp add: size_add_def)
  show "sound_stream (snd (pb_write bs n s)) \<and> max_size (snd (pb_write bs n s)) = max_size s \<and>
      bytes_written s \<le> bytes_written (snd (pb_write bs n s))"
    using s acc le assms(1) no_wrap
    by (auto simp: pb_write_def ostream_callback_def werr_def sound_stream_def split: if_splits)
qed

lemma bounded_varint [simp]: "bounded_writer (pb_encode_varint v)"
proof -
  have "unat v < 2 ^ 64" using unsigned_less [of v, where ?'a = nat] by simp
  also have "(2::nat) ^ 64 \<le> 128 ^ 10" by simp
  finally have "length (varint_bytes (unat v)) \<le> 10" by (rule length_varint_bytes) simp
  then have "length (varint_bytes (unat v)) < 2 ^ 63" by simp
  then show ?thesis
    unfolding pb_encode_varint_write by (intro bounded_pb_write) simp_all
qed

lemma bounded_svarint [simp]: "bounded_writer (pb_encode_svarint v)"
  by (simp add: pb_encode_svarint_def)

lemma bounded_fixed32 [simp]: "bounded_writer (pb_encode_fixed32 v)"
  unfolding pb_encode_fixed32_def by (rule bounded_pb_write) (simp_all add: fixed32_bytes_def)

lemma bounded_fixed64 [simp]: "bounded_writer (pb_encode_fixed64 v)"
  unfolding pb_encode_fixed64_def by (rule bounded_pb_write) (simp_all add: fixed64_bytes_def)

lemma bounded_tag [simp]: "bounded_writer (pb_encode_tag wt t)"
  by (simp add: pb_encode_tag_def)

lemma bounded_tag_for_field [simp]: "bounded_writer (pb_encode_tag_for_field f)"
  by (auto simp: pb_encode_tag_for_field_def split: option.split)

lemma bounded_string:
  "length bs = n \<Longrightarrow> n < 2 ^ 63 \<Longrightarrow> bounded_writer (pb_encode_string bs n)"
  unfolding pb_encode_string_def by (intro bounded_wseq bounded_pb_write) simp_all

end
