(* ===== verification/PbWire.thy ===== *)
theory PbWire
  imports PbIStream PbOStream
begin

text \<open>
  nanopb: the primitive writers of \<^verbatim>\<open>pb_encode.c\<close> against the primitive readers of
  \<^verbatim>\<open>pb_decode.c\<close>. Each pair is a codec in the sense of the prelude: what the writer puts into
  a buffer, the reader takes back, and it stops exactly where the writer stopped.
\<close>

section \<open>Running a writer and a reader on buffers\<close>

text \<open>The bytes a writer puts into a fresh buffer, and what a reader makes of a buffer.\<close>

definition buffer_of :: "'s out_sink \<Rightarrow> bytes" where
  "buffer_of k = (case k of Out acc \<Rightarrow> acc | _ \<Rightarrow> [])"

definition written :: "unit writer \<Rightarrow> bytes" where
  "written w = buffer_of (sink (snd (w (pb_ostream_from_buffer (2 ^ 63)))))"

definition unread :: "'s pb_istream \<Rightarrow> bytes" where
  "unread s = (case source s of Buf src \<Rightarrow> take (bytes_left s) src | User _ _ \<Rightarrow> [])"

definition parse_with ::
  "(unit pb_istream \<Rightarrow> 'v option \<times> unit pb_istream) \<Rightarrow> bytes \<Rightarrow> ('v \<times> bytes) option" where
  "parse_with r bs =
     (case r (pb_istream_from_buffer bs (length bs)) of
        (None, _) \<Rightarrow> None
      | (Some v, s) \<Rightarrow> Some (v, unread s))"

lemma written_emits: "emits w bs \<Longrightarrow> length bs \<le> 2 ^ 63 \<Longrightarrow> written w = bs"
proof -
  assume "emits w bs" and "length bs \<le> 2 ^ 63"
  then have "w (ostream [] (2 ^ 63) 0 None) = (True, ostream ([] @ bs) (2 ^ 63) (0 + length bs) None)"
    by (intro emitsD(1)) simp_all
  then show ?thesis
    by (simp add: written_def pb_ostream_from_buffer_def ostream_def buffer_of_def)
qed

lemma parse_with_mem:
  "r (mem_stream bs [] None) = (Some v, mem_stream rest [] None) \<Longrightarrow> parse_with r bs = Some (v, rest)"
  by (simp add: parse_with_def istream_from_buffer unread_def)

lemma varint_outcome_bytes:
  assumes "n < 128 ^ k" and "0 < k"
  shows "varint_outcome k f (varint_bytes n @ rest) post e = (Some (f n), mem_stream rest post e)"
  using varint_parse_bytes [OF assms, of rest] by (simp add: varint_outcome_def)

lemma unat_word64_128: "unat (v :: 64 word) < 128 ^ 10"
proof -
  have "unat v < 2 ^ 64" using unsigned_less [of v, where ?'a = nat] by simp
  also have "(2::nat) ^ 64 \<le> 128 ^ 10" by simp
  finally show ?thesis .
qed

lemma unat_word32_128: "unat (v :: 32 word) < 128 ^ 5"
proof -
  have "unat v < 2 ^ 32" using unsigned_less [of v, where ?'a = nat] by simp
  also have "(2::nat) ^ 32 \<le> 128 ^ 5" by simp
  finally show ?thesis .
qed

section \<open>Readers on what the writers emit\<close>

lemma decode_varint_bytes:
  "pb_decode_varint (mem_stream (varint_bytes (unat v) @ rest) post e) = (Some v, mem_stream rest post e)"
  unfolding pb_decode_varint_mem
  using varint_outcome_bytes [OF unat_word64_128, where f = "of_nat :: nat \<Rightarrow> 64 word"] by simp

lemma decode_varint32_bytes:
  "n < 2 ^ 32 \<Longrightarrow>
   pb_decode_varint32 (mem_stream (varint_bytes n @ rest) post e) =
     (Some (of_nat n), mem_stream rest post e)"
proof -
  assume "n < 2 ^ 32"
  also have "(2::nat) ^ 32 \<le> 128 ^ 5" by simp
  finally have "n < 128 ^ 5" .
  then show ?thesis unfolding pb_decode_varint32_mem by (rule varint_outcome_bytes) simp
qed

lemma length_varint_bytes_64: "length (varint_bytes (unat (v :: 64 word))) \<le> 10"
  using unat_word64_128 by (rule length_varint_bytes) simp

lemma length_varint_bytes_32: "n < 2 ^ 32 \<Longrightarrow> length (varint_bytes n) \<le> 5"
proof -
  assume "n < 2 ^ 32"
  also have "(2::nat) ^ 32 \<le> 128 ^ 5" by simp
  finally show ?thesis by (rule length_varint_bytes) simp
qed

lemma written_varint: "written (pb_encode_varint v) = varint_bytes (unat v)"
proof (rule written_emits)
  show "length (varint_bytes (unat v)) \<le> 2 ^ 63"
    using length_varint_bytes_64 [of v] by simp
qed simp

lemma zigzag_decode:
  "(if zigzag v AND 1 \<noteq> 0 then NOT (drop_bit 1 (zigzag v)) else drop_bit 1 (zigzag v)) = v"
proof -
  have sign: "sint v < 0 \<longleftrightarrow> bit v 63"
    using bit_last_iff [of v] by simp
  have "w AND 1 \<noteq> 0 \<longleftrightarrow> bit w 0" for w :: "64 word"
    by (simp add: and_one_eq bit_0 odd_iff_mod_2_eq_one)
  moreover have "bit (zigzag v) 0 \<longleftrightarrow> bit v 63"
    unfolding zigzag_def sign
    by (simp add: bit_not_iff bit_push_bit_iff del: push_bit_Suc push_bit_of_1 bit_0 split: if_splits)
  ultimately have low: "zigzag v AND 1 \<noteq> 0 \<longleftrightarrow> bit v 63" by simp
  have "drop_bit 1 (push_bit 1 v) = v" if "\<not> bit v 63"
  proof (rule bit_word_eqI)
    fix n assume "n < LENGTH(64)"
    with that show "bit (drop_bit 1 (push_bit 1 v)) n = bit v n"
      unfolding bit_drop_bit_eq o_def bit_push_bit_iff by (cases "n = 63") simp_all
  qed
  moreover have "NOT (drop_bit 1 (NOT (push_bit 1 v))) = v" if "bit v 63"
  proof (rule bit_word_eqI)
    fix n assume "n < LENGTH(64)"
    with that show "bit (NOT (drop_bit 1 (NOT (push_bit 1 v)))) n = bit v n"
      unfolding bit_not_iff bit_drop_bit_eq o_def bit_push_bit_iff by (cases "n = 63") simp_all
  qed
  ultimately show ?thesis by (auto simp: low) (auto simp: zigzag_def sign)
qed

lemma decode_svarint_bytes:
  "pb_decode_svarint (mem_stream (varint_bytes (unat (zigzag v)) @ rest) post e) =
     (Some v, mem_stream rest post e)"
  using zigzag_decode [of v]
  by (simp add: pb_decode_svarint_def decode_varint_bytes rret_def split: if_splits)

lemma written_svarint: "written (pb_encode_svarint v) = varint_bytes (unat (zigzag v))"
  using written_varint [of "zigzag v"] by (simp add: pb_encode_svarint_def)

lemma written_fixed32: "written (pb_encode_fixed32 v) = le_bytes 4 (unat v)"
  by (rule written_emits [OF emits_fixed32]) (simp del: le_bytes_numeral)

lemma written_fixed64: "written (pb_encode_fixed64 v) = le_bytes 8 (unat v)"
  by (rule written_emits [OF emits_fixed64]) (simp del: le_bytes_numeral)

lemma written_tag:
  assumes "t < 2 ^ 29" and "wt < 8"
  shows "written (pb_encode_tag wt t) = varint_bytes (8 * t + wt)"
proof (rule written_emits)
  show "emits (pb_encode_tag wt t) (varint_bytes (8 * t + wt))"
    using assms by (intro emits_tag) simp_all
  have "8 * t + wt < 2 ^ 32" using assms by simp
  then have "length (varint_bytes (8 * t + wt)) \<le> 5" by (rule length_varint_bytes_32)
  then show "length (varint_bytes (8 * t + wt)) \<le> 2 ^ 63" by simp
qed

lemma written_string:
  assumes "length bs < 2 ^ 32"
  shows "written (pb_encode_string bs (length bs)) = varint_bytes (length bs) @ bs"
proof (rule written_emits)
  show "emits (pb_encode_string bs (length bs)) (varint_bytes (length bs) @ bs)"
    using assms by (intro emits_string) simp
  show "length (varint_bytes (length bs) @ bs) \<le> 2 ^ 63"
    using length_varint_bytes_32 [OF assms] assms by simp
qed

lemma decode_fixed32_bytes:
  "pb_decode_fixed32 (mem_stream (le_bytes 4 (unat v) @ rest) post e) = (Some v, mem_stream rest post e)"
  using unsigned_less [of v, where ?'a = nat]
  by (simp add: pb_decode_fixed32_mem le_nat_le_bytes del: le_bytes_numeral)

lemma decode_fixed64_bytes:
  "pb_decode_fixed64 (mem_stream (le_bytes 8 (unat v) @ rest) post e) = (Some v, mem_stream rest post e)"
  using unsigned_less [of v, where ?'a = nat]
  by (simp add: pb_decode_fixed64_mem le_nat_le_bytes del: le_bytes_numeral)

lemma decode_tag_bytes:
  assumes "t < 2 ^ 29" and "wt < 8" and "0 < 8 * t + wt"
  shows "pb_decode_tag (mem_stream (varint_bytes (8 * t + wt) @ rest) post e) =
    (Tag_ok wt t, mem_stream rest post e)"
proof -
  let ?n = "8 * t + wt"
  let ?w = "of_nat ?n :: 32 word"
  have n: "?n < 2 ^ 32" using assms by simp
  then have w: "unat ?w = ?n" by (simp only: unat_of_nat) simp
  then have "?w \<noteq> 0" using assms(3) by (metis less_numeral_extra(3) unat_0)
  moreover have "unat (?w AND 7) = wt"
  proof -
    have "unat (?w AND 7) = ?n AND 7" by (simp only: unsigned_and_eq w) simp
    also have "\<dots> = ?n mod 8" using take_bit_eq_mask [of 3 ?n] by (simp add: take_bit_eq_mod mask_eq_exp_minus_1)
    finally show ?thesis using assms(2) by simp
  qed
  moreover have "unat (drop_bit 3 ?w) = t"
    unfolding unat_drop_bit w using assms(2) by simp
  ultimately show ?thesis
    unfolding pb_decode_tag_def decode_varint32_bytes [OF n] by simp
qed

section \<open>The codecs\<close>

interpretation uint64_codec: codec "\<lambda>v. written (pb_encode_varint v)" "parse_with pb_decode_varint" "\<lambda>_. True"
  by unfold_locales (simp add: written_varint parse_with_mem decode_varint_bytes)

interpretation sint64_codec: codec "\<lambda>v. written (pb_encode_svarint v)" "parse_with pb_decode_svarint" "\<lambda>_. True"
  by unfold_locales (simp add: written_svarint parse_with_mem decode_svarint_bytes)

interpretation fixed32_codec: codec "\<lambda>v. written (pb_encode_fixed32 v)" "parse_with pb_decode_fixed32" "\<lambda>_. True"
  by unfold_locales (simp add: written_fixed32 parse_with_mem decode_fixed32_bytes del: le_bytes_numeral)

interpretation fixed64_codec: codec "\<lambda>v. written (pb_encode_fixed64 v)" "parse_with pb_decode_fixed64" "\<lambda>_. True"
  by unfold_locales (simp add: written_fixed64 parse_with_mem decode_fixed64_bytes del: le_bytes_numeral)

text \<open>Tags, as pairs of a wire type and a field number; the pair of zeros marks the end of a message.\<close>

definition parse_tag :: "bytes \<Rightarrow> ((nat \<times> nat) \<times> bytes) option" where
  "parse_tag bs =
     (case pb_decode_tag (pb_istream_from_buffer bs (length bs) :: unit pb_istream) of
        (Tag_ok wt t, s) \<Rightarrow> Some ((wt, t), unread s)
      | _ \<Rightarrow> None)"

definition valid_tag :: "nat \<times> nat \<Rightarrow> bool" where
  "valid_tag wt_t \<longleftrightarrow> fst wt_t < 8 \<and> snd wt_t < 2 ^ 29 \<and> wt_t \<noteq> (0, 0)"

interpretation tag_codec: codec "\<lambda>(wt, t). written (pb_encode_tag wt t)" parse_tag valid_tag
proof
  fix x :: "nat \<times> nat" and rest
  obtain wt t where x: "x = (wt, t)" by (cases x)
  assume "valid_tag x"
  with x have *: "t < 2 ^ 29" "wt < 8" "0 < 8 * t + wt"
    by (auto simp: valid_tag_def)
  then show "parse_tag ((case x of (wt, t) \<Rightarrow> written (pb_encode_tag wt t)) @ rest) = Some (x, rest)"
    unfolding x parse_tag_def istream_from_buffer
    by (simp add: written_tag decode_tag_bytes [OF *] unread_def)
qed

text \<open>Strings: the length is read as in \<^verbatim>\<open>pb_dec_string\<close>, then as many bytes.\<close>

definition read_string :: "'s pb_istream \<Rightarrow> bytes option \<times> 's pb_istream" where
  "read_string = rbind pb_decode_varint32 (\<lambda>n. pb_read (unat n))"

lemma read_string_bytes:
  assumes "length bs < 2 ^ 32"
  shows "read_string (mem_stream (varint_bytes (length bs) @ bs @ rest) post e) =
    (Some bs, mem_stream rest post e)"
proof -
  have "unat (of_nat (length bs) :: 32 word) = length bs"
    using assms by (simp only: unat_of_nat) simp
  then show ?thesis
    by (simp add: read_string_def decode_varint32_bytes [OF assms])
qed

interpretation string_codec: codec "\<lambda>bs. written (pb_encode_string bs (length bs))"
  "parse_with read_string" "\<lambda>bs. length bs < 2 ^ 32"
  by unfold_locales (simp add: written_string parse_with_mem read_string_bytes)

section \<open>Skipping\<close>

lemma skip_string_bytes:
  assumes "length bs < 2 ^ 32"
  shows "pb_skip_string (mem_stream (varint_bytes (length bs) @ bs @ rest) post e) =
    (Some (), mem_stream rest post e)"
proof -
  have "unat (of_nat (length bs) :: 32 word) = length bs"
    using assms by (simp only: unat_of_nat) simp
  then show ?thesis
    by (simp add: pb_skip_string_def decode_varint32_bytes [OF assms] pb_read_null_mem)
qed

section \<open>Substreams\<close>

lemma make_substream_bytes:
  assumes "length body < 2 ^ 32"
  shows "pb_make_string_substream (mem_stream (varint_bytes (length body) @ body @ rest) post e) =
    (Some (mem_stream body (rest @ post) e),
     (mem_stream body (rest @ post) e)\<lparr>bytes_left := length rest\<rparr>)"
proof -
  have "unat (of_nat (length body) :: 32 word) = length body"
    using assms by (simp only: unat_of_nat) simp
  then show ?thesis
    by (simp add: pb_make_string_substream_def decode_varint32_bytes [OF assms])
qed

lemma close_substream_bytes:
  "pb_close_string_substream ((mem_stream body (rest @ post) e)\<lparr>bytes_left := length rest\<rparr>)
     (mem_stream tail (rest @ post) e') = (Some (), mem_stream rest post e')"
  by (cases "tail = []") (auto simp: pb_close_string_substream_def pb_read_null_mem)

section \<open>Properties\<close>

text \<open>
  A sequence of 64-bit numbers written with \<open>pb_encode_varint\<close> and read back with
  \<open>pb_decode_varint\<close> is the same sequence, and the reader stops exactly at the bytes that follow;
  the same holds for the zig-zag pair \<open>pb_encode_svarint\<close> and \<open>pb_decode_svarint\<close>.
\<close>

theorem varint_sequence_roundtrip:
  "decode_many (parse_with pb_decode_varint) (length vs)
     (concat (map (\<lambda>v. written (pb_encode_varint v)) vs) @ rest) = Some (vs, rest) \<and>
   decode_many (parse_with pb_decode_svarint) (length vs)
     (concat (map (\<lambda>v. written (pb_encode_svarint v)) vs) @ rest) = Some (vs, rest)"
  using uint64_codec.decode_many_concat [of vs rest] sint64_codec.decode_many_concat [of vs rest]
  by (simp add: list_all_iff)

text \<open>
  The fixed-width pairs \<open>pb_encode_fixed32\<close>/\<open>pb_decode_fixed32\<close> and
  \<open>pb_encode_fixed64\<close>/\<open>pb_decode_fixed64\<close> are inverse on whole sequences as well, so a packed
  array of them is read back in order.
\<close>

theorem fixed_sequence_roundtrip:
  "decode_many (parse_with pb_decode_fixed32) (length vs)
     (concat (map (\<lambda>v. written (pb_encode_fixed32 v)) vs) @ rest) = Some (vs, rest) \<and>
   decode_many (parse_with pb_decode_fixed64) (length ws)
     (concat (map (\<lambda>v. written (pb_encode_fixed64 v)) ws) @ rest) = Some (ws, rest)"
  using fixed32_codec.decode_many_concat [of vs rest] fixed64_codec.decode_many_concat [of ws rest]
  by (simp add: list_all_iff)

text \<open>
  Two field headers cannot be confused: if the bytes of two valid tags, each followed by
  anything, are the same bytes, then the wire types, the field numbers and what follows are the
  same; and \<open>pb_decode_tag\<close> returns exactly the pair that \<open>pb_encode_tag\<close> was given.
\<close>

theorem tag_roundtrip_unique:
  assumes "wt < 8" and "t < 2 ^ 29" and "(wt, t) \<noteq> (0, 0)"
  shows "pb_decode_tag (mem_stream (written (pb_encode_tag wt t) @ rest) post e) =
      (Tag_ok wt t, mem_stream rest post e) \<and>
    (\<forall>wt' t' r r'. wt' < 8 \<and> t' < 2 ^ 29 \<and> (wt', t') \<noteq> (0, 0) \<and>
      written (pb_encode_tag wt t) @ r = written (pb_encode_tag wt' t') @ r' \<longrightarrow>
      wt = wt' \<and> t = t' \<and> r = r')"
proof (intro conjI allI impI)
  have "0 < 8 * t + wt" using assms(3) by auto
  then show "pb_decode_tag (mem_stream (written (pb_encode_tag wt t) @ rest) post e) =
      (Tag_ok wt t, mem_stream rest post e)"
    using assms by (simp add: written_tag decode_tag_bytes)
next
  fix wt' t' r r'
  assume "wt' < 8 \<and> t' < 2 ^ 29 \<and> (wt', t') \<noteq> (0, 0) \<and>
    written (pb_encode_tag wt t) @ r = written (pb_encode_tag wt' t') @ r'"
  then have "(wt, t) = (wt', t') \<and> r = r'"
    using assms tag_codec.enc_unique [of "(wt, t)" "(wt', t')" r r'] by (simp add: valid_tag_def)
  then show "wt = wt'" and "t = t'" and "r = r'" by simp_all
qed

theorem tag_roundtrip_unique_witness:
  "pb_decode_tag (mem_stream (written (pb_encode_tag 2 5) @ [7]) [] None :: unit pb_istream) =
     (Tag_ok 2 5, mem_stream [7] [] None)"
  by (rule tag_roundtrip_unique [THEN conjunct1]) simp_all

text \<open>
  A string written with \<open>pb_encode_string\<close> comes back from a substream:
  \<open>pb_make_string_substream\<close> opens a stream that sees exactly the string's bytes, and however much
  of it was consumed, \<open>pb_close_string_substream\<close> leaves the parent exactly behind the string.
\<close>

theorem substream_isolation:
  assumes "length body < 2 ^ 32" and "k \<le> length body"
  shows "\<exists>parent.
    pb_make_string_substream
      (mem_stream (written (pb_encode_string body (length body)) @ rest) post e) =
        (Some (mem_stream body (rest @ post) e), parent) \<and>
    pb_close_string_substream parent (mem_stream (drop k body) (rest @ post) e') =
        (Some (), mem_stream rest post e')"
  by (simp add: written_string [OF assms(1)] make_substream_bytes [OF assms(1)] close_substream_bytes)

theorem substream_isolation_witness:
  "\<exists>parent.
    pb_make_string_substream
      (mem_stream (written (pb_encode_string [1, 2, 3] (length [1, 2, 3 :: byte])) @ [9]) [] None) =
        (Some (mem_stream [1, 2, 3] ([9] @ []) None), parent) \<and>
    pb_close_string_substream parent (mem_stream (drop 2 [1, 2, 3]) ([9] @ []) None) =
        (Some (), mem_stream [9] [] None :: unit pb_istream)"
  by (rule substream_isolation) simp_all

text \<open>
  \<open>pb_skip_field\<close> skips a value of every wire type exactly: what \<open>pb_encode_varint\<close>,
  \<open>pb_encode_fixed64\<close>, \<open>pb_encode_string\<close> and \<open>pb_encode_fixed32\<close> wrote is consumed to the last
  byte and nothing behind it.
\<close>

theorem skip_field_exact:
  assumes "length str < 2 ^ 32"
  shows "pb_skip_field PB_WT_VARINT (mem_stream (written (pb_encode_varint v) @ rest) post e) =
      (Some (), mem_stream rest post e) \<and>
    pb_skip_field PB_WT_64BIT (mem_stream (written (pb_encode_fixed64 v) @ rest) post e) =
      (Some (), mem_stream rest post e) \<and>
    pb_skip_field PB_WT_STRING (mem_stream (written (pb_encode_string str (length str)) @ rest) post e) =
      (Some (), mem_stream rest post e) \<and>
    pb_skip_field PB_WT_32BIT (mem_stream (written (pb_encode_fixed32 w) @ rest) post e) =
      (Some (), mem_stream rest post e)"
  by (simp add: pb_skip_field_def pb_skip_varint_bytes skip_string_bytes [OF assms] written_varint written_fixed64 written_fixed32
      written_string [OF assms] pb_read_null_mem del: le_bytes_numeral)

theorem skip_field_exact_witness:
  "pb_skip_field PB_WT_VARINT (mem_stream (written (pb_encode_varint 300) @ [9]) [] None) =
      (Some (), mem_stream [9] [] None) \<and>
    pb_skip_field PB_WT_64BIT (mem_stream (written (pb_encode_fixed64 300) @ [9]) [] None) =
      (Some (), mem_stream [9] [] None) \<and>
    pb_skip_field PB_WT_STRING
      (mem_stream (written (pb_encode_string [1, 2] (length [1, 2 :: byte])) @ [9]) [] None) =
      (Some (), mem_stream [9] [] None) \<and>
    pb_skip_field PB_WT_32BIT (mem_stream (written (pb_encode_fixed32 7) @ [9]) [] None) =
      (Some (), mem_stream [9] [] None :: unit pb_istream)"
  by (rule skip_field_exact) simp

text \<open>
  The varint readers on every input, errors included: \<open>pb_decode_varint\<close> accepts what the
  reference parser accepts in ten bytes and delivers the value modulo $2^{64}$,
  \<open>pb_decode_varint32\<close> the same in five bytes modulo $2^{32}$; they fail with "end-of-stream" when
  the input ends inside a varint and with "varint overflow" when it has too many bytes, having
  consumed exactly those bytes.
\<close>

theorem varint_readers_spec:
  "pb_decode_varint (mem_stream bs post e) =
     (case varint_parse 10 bs of
        Some (v, rest) \<Rightarrow> (Some (of_nat v), mem_stream rest post e)
      | None \<Rightarrow> if length bs < 10 then rerr ''end-of-stream'' (mem_stream [] post e)
                else rerr ''varint overflow'' (mem_stream (drop 10 bs) post e)) \<and>
   pb_decode_varint32 (mem_stream bs post e) =
     (case varint_parse 5 bs of
        Some (v, rest) \<Rightarrow> (Some (of_nat v), mem_stream rest post e)
      | None \<Rightarrow> if length bs < 5 then rerr ''end-of-stream'' (mem_stream [] post e)
                else rerr ''varint overflow'' (mem_stream (drop 5 bs) post e))"
  unfolding pb_decode_varint_mem pb_decode_varint32_mem varint_outcome_def by (intro conjI refl)

text \<open>
  A sequence of primitive writes into a buffer of \<open>n\<close> bytes never stores more than \<open>n\<close>
  bytes, whatever is written and whichever writes fail, and \<open>bytes_written\<close> is exactly the number
  of bytes stored.
\<close>

theorem primitive_writes_stay_in_buffer:
  assumes "n < 2 ^ 63" and "\<And>w. w \<in> set ws \<Longrightarrow>
    (\<exists>v. w = pb_encode_varint v \<or> w = pb_encode_svarint v \<or> w = pb_encode_fixed64 v) \<or>
    (\<exists>v. w = pb_encode_fixed32 v) \<or> (\<exists>wt t. w = pb_encode_tag wt t) \<or>
    (\<exists>bs. length bs < 2 ^ 63 \<and> (w = pb_write bs (length bs) \<or> w = pb_encode_string bs (length bs)))"
  shows "\<exists>acc. sink (fold (\<lambda>w s. snd (w s)) ws (pb_ostream_from_buffer n)) = Out acc \<and>
    length acc \<le> n \<and>
    bytes_written (fold (\<lambda>w s. snd (w s)) ws (pb_ostream_from_buffer n)) = length acc"
proof -
  have "bounded_writer w" if "w \<in> set ws" for w
    using assms(2) [OF that] by (auto intro: bounded_pb_write bounded_string)
  then have "sound_stream (fold (\<lambda>w s. snd (w s)) ws s) \<and>
      max_size (fold (\<lambda>w s. snd (w s)) ws s) = max_size s" if "sound_stream s" for s
    using that by (induction ws arbitrary: s) (auto simp: bounded_writer_def)
  from this [OF sound_stream_from_buffer [OF assms(1)]] show ?thesis
    by (auto simp: sound_stream_def pb_ostream_from_buffer_def)
qed

theorem primitive_writes_stay_in_buffer_witness:
  "\<exists>acc. sink (fold (\<lambda>w s. snd (w s)) [pb_encode_varint 300, pb_encode_fixed32 7]
      (pb_ostream_from_buffer 5 :: unit pb_ostream)) = Out acc \<and> length acc \<le> 5 \<and>
    bytes_written (fold (\<lambda>w s. snd (w s)) [pb_encode_varint 300, pb_encode_fixed32 7]
      (pb_ostream_from_buffer 5 :: unit pb_ostream)) = length acc"
  by (rule primitive_writes_stay_in_buffer) auto

end
