(* ===== verification/PbEncode.thy ===== *)
theory PbEncode
  imports PbDecode PbOStream
begin

text \<open>
  nanopb, the message half of \<^verbatim>\<open>pb_encode.c\<close>: the field encoders, arrays and packing, the
  proto3 default check, basic, callback and extension fields, \<open>pb_encode\<close> and submessages, which
  are encoded twice (first to find their size). Recursive calls are arguments, and the knot is
  tied with fuel at the end, as in the decoder.
\<close>

section \<open>Caller code\<close>

record 's pb_enc_extension_type =
  ext_encode :: "('s pb_ostream \<Rightarrow> addr \<Rightarrow> mem \<Rightarrow> bool \<times> 's pb_ostream \<times> mem) option"
  enc_ext_arg :: pb_field

record 's pb_enc_env =
  encode_fn :: "addr \<Rightarrow> 's pb_ostream \<Rightarrow> pb_field \<Rightarrow> addr \<Rightarrow> mem \<Rightarrow> bool \<times> 's pb_ostream \<times> mem"
  enc_ext_type :: "addr \<Rightarrow> 's pb_enc_extension_type"

type_synonym 's enc = "'s pb_ostream \<Rightarrow> mem \<Rightarrow> (bool \<times> 's pb_ostream \<times> mem) run"

text \<open>A primitive writer as an encoder; an error; one encoder after another.\<close>

definition ewrite :: "'s writer \<Rightarrow> 's enc" where
  "ewrite w s m = (case w s of (b, s') \<Rightarrow> Ret (b, s', m))"

definition eret :: "'s enc" where
  "eret s m = Ret (True, s, m)"

definition eerr :: "string \<Rightarrow> 's enc" where
  "eerr msg = ewrite (werr msg)"

definition eseq :: "'s enc \<Rightarrow> 's enc \<Rightarrow> 's enc" where
  "eseq d1 d2 s m = run_bind (d1 s m) (\<lambda>(ok, s', m'). if ok then d2 s' m' else Ret (False, s', m'))"

section \<open>Field encoders\<close>

text \<open>The integer at \<open>src\<close>, sign-extended to 64 bits.\<close>

definition load_int :: "mem \<Rightarrow> addr \<Rightarrow> nat \<Rightarrow> 64 word" where
  "load_int m src n = cast_int n (of_nat (load m src n))"

definition pb_enc_varint :: "pb_field \<Rightarrow> addr \<Rightarrow> 's enc" where
  "pb_enc_varint field src s m =
     (if int_size (data_size field)
      then ewrite (pb_encode_varint (load_int m src (data_size field))) s m
      else eerr ''invalid data_size'' s m)"

definition pb_enc_uvarint :: "pb_field \<Rightarrow> addr \<Rightarrow> 's enc" where
  "pb_enc_uvarint field src s m =
     (if int_size (data_size field)
      then ewrite (pb_encode_varint (of_nat (load m src (data_size field)))) s m
      else eerr ''invalid data_size'' s m)"

definition pb_enc_svarint :: "pb_field \<Rightarrow> addr \<Rightarrow> 's enc" where
  "pb_enc_svarint field src s m =
     (if int_size (data_size field)
      then ewrite (pb_encode_svarint (load_int m src (data_size field))) s m
      else eerr ''invalid data_size'' s m)"

definition pb_enc_fixed32 :: "pb_field \<Rightarrow> addr \<Rightarrow> 's enc" where
  "pb_enc_fixed32 field src s m = ewrite (pb_encode_fixed32 (of_nat (load m src 4))) s m"

definition pb_enc_fixed64 :: "pb_field \<Rightarrow> addr \<Rightarrow> 's enc" where
  "pb_enc_fixed64 field src s m = ewrite (pb_encode_fixed64 (of_nat (load m src 8))) s m"

definition pb_enc_bytes :: "pb_field \<Rightarrow> addr \<Rightarrow> 's enc" where
  "pb_enc_bytes field src s m =
     (if src = 0 then ewrite (pb_encode_string [] 0) s m
      else let n = load m src 4 in
        if atype field = PB_ATYPE_STATIC \<and> data_size field < PB_BYTES_ARRAY_T_ALLOCSIZE n
        then eerr ''bytes size exceeded'' s m
        else ewrite (pb_encode_string (mem_read m (src + 4) n) n) s m)"

text \<open>The loop that stands for \<open>strnlen\<close>.\<close>

function strnlen_loop :: "mem \<Rightarrow> addr \<Rightarrow> nat \<Rightarrow> nat \<Rightarrow> nat" where
  "strnlen_loop m p mx n =
     (if n < mx \<and> m (p + int n) \<noteq> 0 then strnlen_loop m p mx (Suc n) else n)"
  by pat_completeness auto
termination by (relation "measure (\<lambda>(_, _, mx, n). mx - n)") auto

declare strnlen_loop.simps [simp del]

definition pb_enc_string :: "pb_field \<Rightarrow> addr \<Rightarrow> 's enc" where
  "pb_enc_string field src s m =
     (let mx = (if atype field = PB_ATYPE_POINTER then 2 ^ 64 - 1 else data_size field);
          n = (if src = 0 then 0 else strnlen_loop m src mx 0)
      in ewrite (pb_encode_string (mem_read m src n) n) s m)"

definition pb_enc_fixed_length_bytes :: "pb_field \<Rightarrow> addr \<Rightarrow> 's enc" where
  "pb_enc_fixed_length_bytes field src s m =
     ewrite (pb_encode_string (mem_read m src (data_size field)) (data_size field)) s m"

text \<open>
  Submessages. The state of the callback moves from the substream back to the stream; the
  callback itself stays the stream's, so a substream whose callback was replaced has no meaning.
\<close>

fun set_state :: "'s out_sink \<Rightarrow> 's out_sink \<Rightarrow> 's out_sink option" where
  "set_state (Out _) (Out acc) = Some (Out acc)"
| "set_state (UserOut f _) (UserOut _ u) = Some (UserOut f u)"
| "set_state _ _ = None"

type_synonym 's encode = "pb_field list \<Rightarrow> addr \<Rightarrow> 's enc"

definition pb_encode_submessage :: "'s encode \<Rightarrow> 's encode" where
  "pb_encode_submessage encode fs src s m =
     run_bind (encode fs src PB_OSTREAM_SIZING m)
       (\<lambda>(ok, sub, m1).
          if \<not> ok then Ret (False, s\<lparr>oerrmsg := oerrmsg sub\<rparr>, m1)
          else let n = bytes_written sub in
            eseq (ewrite (pb_encode_varint (of_nat n)))
              (\<lambda>s1 m1.
                 if is_Sizing (sink s1) then ewrite (pb_write [] n) s1 m1
                 else if max_size s1 < size_add (bytes_written s1) n then eerr ''stream full'' s1 m1
                 else
                   run_bind (encode fs src (s1\<lparr>max_size := n, bytes_written := 0, oerrmsg := None\<rparr>) m1)
                     (\<lambda>(status, sub2, m2).
                        case set_state (sink s1) (sink sub2) of
                          None \<Rightarrow> Undef
                        | Some k \<Rightarrow>
                            let s2 = s1\<lparr>bytes_written := size_add (bytes_written s1) (bytes_written sub2),
                                        sink := k, oerrmsg := oerrmsg sub2\<rparr>
                            in if bytes_written sub2 \<noteq> n then eerr ''submsg size changed'' s2 m2
                               else Ret (status, s2, m2)))
              s m1)"

definition pb_enc_submessage :: "'s encode \<Rightarrow> pb_field \<Rightarrow> addr \<Rightarrow> 's enc" where
  "pb_enc_submessage encode field src =
     (case ptr field of
        NullPtr \<Rightarrow> eerr ''invalid field descriptor''
      | Fields fs \<Rightarrow> pb_encode_submessage encode fs src
      | Default _ \<Rightarrow> (\<lambda>s m. Undef))"

definition PB_ENCODERS :: "'s encode \<Rightarrow> 8 word \<Rightarrow> pb_field \<Rightarrow> addr \<Rightarrow> 's enc" where
  "PB_ENCODERS encode lt field src =
     (if lt = PB_LTYPE_VARINT then pb_enc_varint field src
      else if lt = PB_LTYPE_UVARINT then pb_enc_uvarint field src
      else if lt = PB_LTYPE_SVARINT then pb_enc_svarint field src
      else if lt = PB_LTYPE_FIXED32 then pb_enc_fixed32 field src
      else if lt = PB_LTYPE_FIXED64 then pb_enc_fixed64 field src
      else if lt = PB_LTYPE_BYTES then pb_enc_bytes field src
      else if lt = PB_LTYPE_STRING then pb_enc_string field src
      else if lt = PB_LTYPE_SUBMESSAGE then pb_enc_submessage encode field src
      else if lt = PB_LTYPE_FIXED_LENGTH_BYTES then pb_enc_fixed_length_bytes field src
      else (\<lambda>s m. Undef))"

section \<open>Arrays\<close>

definition item_addrs :: "addr \<Rightarrow> nat \<Rightarrow> nat \<Rightarrow> addr list" where
  "item_addrs base item_size count = map (\<lambda>i. base + int (i * item_size)) [0..<count]"

primrec encode_items :: "(addr \<Rightarrow> 's enc) \<Rightarrow> addr list \<Rightarrow> 's enc" where
  "encode_items func [] = eret"
| "encode_items func (p # ps) = eseq (func p) (encode_items func ps)"

definition packed_size :: "(addr \<Rightarrow> 's enc) \<Rightarrow> pb_field \<Rightarrow> addr list \<Rightarrow> mem \<Rightarrow> (nat option \<times> mem) run" where
  "packed_size func field ps m =
     (if ltype field = PB_LTYPE_FIXED32 then Ret (Some (4 * length ps), m)
      else if ltype field = PB_LTYPE_FIXED64 then Ret (Some (8 * length ps), m)
      else run_bind (encode_items func ps PB_OSTREAM_SIZING m)
        (\<lambda>(ok, sizestream, m'). Ret (if ok then Some (bytes_written sizestream) else None, m')))"

definition encode_array :: "(addr \<Rightarrow> 's enc) \<Rightarrow> pb_field \<Rightarrow> addr \<Rightarrow> nat \<Rightarrow> 's enc" where
  "encode_array func field data count =
     (let ps = item_addrs data (data_size field) count in
      if count = 0 then eret
      else if atype field \<noteq> PB_ATYPE_POINTER \<and> array_size field < count
        then eerr ''array max size exceeded''
      else if ltype field \<le> PB_LTYPE_LAST_PACKABLE then
        eseq (ewrite (pb_encode_tag PB_WT_STRING (tag field)))
          (\<lambda>s m. run_bind (packed_size func field ps m)
             (\<lambda>(n, m'). case n of
                None \<Rightarrow> Ret (False, s, m')
              | Some n \<Rightarrow>
                  eseq (ewrite (pb_encode_varint (of_nat n)))
                    (\<lambda>s m. if is_Sizing (sink s) then ewrite (pb_write [] n) s m
                            else encode_items func ps s m)
                    s m'))
      else
        encode_items
          (\<lambda>p. eseq (ewrite (pb_encode_tag_for_field field))
             (\<lambda>s m. func
                (if atype field = PB_ATYPE_POINTER \<and>
                    (ltype field = PB_LTYPE_STRING \<or> ltype field = PB_LTYPE_BYTES)
                 then load_ptr m p else p) s m))
          ps)"

section \<open>The proto3 default check\<close>

definition proto3_default_step ::
  "(pb_field \<Rightarrow> addr \<Rightarrow> mem \<Rightarrow> bool run) \<Rightarrow> pb_field \<Rightarrow> addr \<Rightarrow> mem \<Rightarrow> bool run" where
  "proto3_default_step check f data m =
     (if atype f = PB_ATYPE_STATIC \<and> ltype f = PB_LTYPE_BYTES then Ret (load m data 4 = 0)
      else if atype f = PB_ATYPE_STATIC \<and> ltype f = PB_LTYPE_STRING then Ret (m data = 0)
      else if atype f = PB_ATYPE_STATIC \<and> ltype f = PB_LTYPE_FIXED_LENGTH_BYTES then Ret (data_size f = 0)
      else if atype f = PB_ATYPE_STATIC \<and> ltype f = PB_LTYPE_SUBMESSAGE then
        (case ptr f of
           Fields fs \<Rightarrow>
             let (nonempty, it) = pb_field_iter_begin fs data in
             if nonempty
             then iter_do (\<lambda>it ok. if ok then check (cur it) (pData it) m else Ret False) it True
             else Ret True
         | _ \<Rightarrow> Undef)
      else Ret (list_all (\<lambda>b. b = 0) (mem_read m data (data_size f))))"

primrec pb_check_proto3_default_value :: "nat \<Rightarrow> pb_field \<Rightarrow> addr \<Rightarrow> mem \<Rightarrow> bool run" where
  "pb_check_proto3_default_value 0 = (\<lambda>f data m. NoFuel)"
| "pb_check_proto3_default_value (Suc k) = proto3_default_step (pb_check_proto3_default_value k)"

section \<open>Fields\<close>

text \<open>
  The presence of an optional field: its has-flag, or without one the proto3 rule; for a pointer
  field without a flag the pointer itself. A repeated or oneof field without a size member would
  read a counter from a one-byte flag.
\<close>

definition encode_basic_field :: "'s encode \<Rightarrow> nat \<Rightarrow> pb_field \<Rightarrow> addr \<Rightarrow> 's enc" where
  "encode_basic_field encode k field data0 s m =
     run_bind
       (if size_offset field \<noteq> 0 then Ret False
        else if htype field = PB_HTYPE_OPTIONAL
          then run_bind (pb_check_proto3_default_value k field data0 m) (\<lambda>b. Ret (\<not> b))
        else Ret True)
       (\<lambda>implicit0.
          let func = PB_ENCODERS encode (ltype field) field;
              pSize = data0 + size_offset field;
              has_size = size_offset field \<noteq> 0;
              data = (if atype field = PB_ATYPE_POINTER then load_ptr m data0 else data0);
              implicit_has = (if atype field = PB_ATYPE_POINTER then data \<noteq> 0 else implicit0);
              one = eseq (ewrite (pb_encode_tag_for_field field)) (func data)
          in
          if htype field = PB_HTYPE_REQUIRED then
            (if data = 0 then eerr ''missing required field'' s m else one s m)
          else if htype field = PB_HTYPE_OPTIONAL then
            (if (if has_size then load m pSize 1 \<noteq> 0 else implicit_has) then one s m else eret s m)
          else if \<not> has_size then Undef
          else if htype field = PB_HTYPE_REPEATED then
            encode_array func field data (load m pSize 4) s m
          else
            (if load m pSize 4 = tag field then one s m else eret s m))"

definition encode_callback_field :: "'s pb_enc_env \<Rightarrow> pb_field \<Rightarrow> addr \<Rightarrow> 's enc" where
  "encode_callback_field env field data s m =
     (let func = callback_func m data in
      if func \<noteq> 0 then
        (case encode_fn env func s field (callback_arg data) m of
           (True, s', m') \<Rightarrow> Ret (True, s', m')
         | (False, s', m') \<Rightarrow> eerr ''callback error'' s' m')
      else Ret (True, s, m))"

definition encode_field :: "'s pb_enc_env \<Rightarrow> 's encode \<Rightarrow> nat \<Rightarrow> pb_field \<Rightarrow> addr \<Rightarrow> 's enc" where
  "encode_field env encode k field data =
     (if atype field = PB_ATYPE_STATIC \<or> atype field = PB_ATYPE_POINTER
        then encode_basic_field encode k field data
      else if atype field = PB_ATYPE_CALLBACK then encode_callback_field env field data
      else eerr ''invalid field type'')"

definition default_extension_encoder :: "'s pb_enc_env \<Rightarrow> 's encode \<Rightarrow> nat \<Rightarrow> addr \<Rightarrow> 's enc" where
  "default_extension_encoder env encode k e s m =
     (let field = enc_ext_arg (enc_ext_type env (ext_type_ptr m e)) in
      if atype field = PB_ATYPE_POINTER then encode_field env encode k field (ext_dest_field e) s m
      else encode_field env encode k field (ext_dest m e) s m)"

fun encode_extension_loop :: "'s pb_enc_env \<Rightarrow> 's encode \<Rightarrow> nat \<Rightarrow> nat \<Rightarrow> addr \<Rightarrow> 's enc" where
  "encode_extension_loop env encode k 0 e s m = NoFuel"
| "encode_extension_loop env encode k (Suc j) e s m =
     (if e \<noteq> 0 then
        run_bind
          (case ext_encode (enc_ext_type env (ext_type_ptr m e)) of
             Some f \<Rightarrow> Ret (f s e m)
           | None \<Rightarrow> default_extension_encoder env encode k e s m)
          (\<lambda>(status, s', m').
             if status then encode_extension_loop env encode k j (ext_next m' e) s' m'
             else Ret (False, s', m'))
      else Ret (True, s, m))"

definition encode_extension_field :: "'s pb_enc_env \<Rightarrow> 's encode \<Rightarrow> nat \<Rightarrow> pb_field \<Rightarrow> addr \<Rightarrow> 's enc" where
  "encode_extension_field env encode k field data s m =
     encode_extension_loop env encode k k (load_ptr m data) s m"

section \<open>Messages\<close>

definition encode_body :: "'s pb_enc_env \<Rightarrow> 's encode \<Rightarrow> nat \<Rightarrow> 's encode" where
  "encode_body env encode k fs src s m =
     (let (nonempty, it) = pb_field_iter_begin fs src in
      if \<not> nonempty then Ret (True, s, m)
      else iter_do
        (\<lambda>it (ok, s, m).
           if \<not> ok then Ret (False, s, m)
           else if ltype (cur it) = PB_LTYPE_EXTENSION
             then encode_extension_field env encode k (cur it) (pData it) s m
           else encode_field env encode k (cur it) (pData it) s m)
        it (True, s, m))"

primrec pb_encode :: "'s pb_enc_env \<Rightarrow> nat \<Rightarrow> 's encode" where
  "pb_encode env 0 = (\<lambda>fs src s m. NoFuel)"
| "pb_encode env (Suc k) = encode_body env (pb_encode env k) k"

definition pb_encode_delimited :: "'s pb_enc_env \<Rightarrow> nat \<Rightarrow> 's encode" where
  "pb_encode_delimited env k = pb_encode_submessage (pb_encode env k)"

definition pb_get_encoded_size :: "'s pb_enc_env \<Rightarrow> nat \<Rightarrow> pb_field list \<Rightarrow> addr \<Rightarrow> mem \<Rightarrow> (nat option \<times> mem) run" where
  "pb_get_encoded_size env k fs src m =
     run_bind (pb_encode env k fs src PB_OSTREAM_SIZING m)
       (\<lambda>(ok, s, m'). Ret (if ok then Some (bytes_written s) else None, m'))"

end
