(* ===== verification/PbEncodeSpec.thy ===== *)
theory PbEncodeSpec
  imports PbEncode
begin

text \<open>
  What the nanopb encoder promises for messages without callbacks and pointers: the bytes of a
  message as a pure function of the descriptors and the message memory (\<open>msg_out\<close>), and the proof
  that the stream code refines it: in a buffer with room it writes exactly these bytes, in one
  without room it fails inside the buffer, and on a sizing stream it counts them.
\<close>

section \<open>Outcomes\<close>

text \<open>The bytes written, and whether the encoder succeeds behind them.\<close>

type_synonym out = "bytes \<times> bool"

fun then_out :: "out \<Rightarrow> out \<Rightarrow> out" where
  "then_out (as, True) (bs, ok) = (as @ bs, ok)"
| "then_out (as, False) _ = (as, False)"

definition done_out :: out where
  "done_out = ([], True)"

definition fail_out :: out where
  "fail_out = ([], False)"

definition all_out :: "out list \<Rightarrow> out" where
  "all_out os = foldr then_out os done_out"

section \<open>The format\<close>

definition varint_out :: "nat \<Rightarrow> out" where
  "varint_out n = (varint_bytes (n mod 2 ^ 64), True)"

lemma varint_out_code [code]:
  "varint_out n = (varint_bytes (if n < 1000 then n else n mod 2 ^ 64), True)"
  by (simp add: varint_out_def)

definition string_out :: "bytes \<Rightarrow> out" where
  "string_out bs = then_out (varint_out (length bs)) (bs, True)"

definition sub_out :: "out \<Rightarrow> out" where
  "sub_out r = (if snd r then string_out (fst r) else fail_out)"

definition tag_out :: "pb_field \<Rightarrow> out" where
  "tag_out f =
     (case wire_type_of (ltype f) of
        None \<Rightarrow> fail_out
      | Some wt \<Rightarrow> varint_out (8 * tag f + wt))"

definition value_out :: "(pb_field list \<Rightarrow> addr \<Rightarrow> out) \<Rightarrow> mem \<Rightarrow> pb_field \<Rightarrow> addr \<Rightarrow> out" where
  "value_out msg m f a =
     (let n = data_size f; scalar = (\<lambda>v. if int_size n then varint_out (unat v) else fail_out) in
      if ltype f = PB_LTYPE_VARINT then scalar (load_int m a n)
      else if ltype f = PB_LTYPE_UVARINT then scalar (of_nat (load m a n))
      else if ltype f = PB_LTYPE_SVARINT then scalar (zigzag (load_int m a n))
      else if ltype f = PB_LTYPE_FIXED32 then (le_bytes 4 (load m a 4), True)
      else if ltype f = PB_LTYPE_FIXED64 then (le_bytes 8 (load m a 8), True)
      else if ltype f = PB_LTYPE_BYTES then
        (if a = 0 then string_out []
         else if data_size f < PB_BYTES_ARRAY_T_ALLOCSIZE (load m a 4) then fail_out
         else string_out (mem_read m (a + 4) (load m a 4)))
      else if ltype f = PB_LTYPE_STRING then
        string_out (mem_read m a (if a = 0 then 0 else strnlen_loop m a n 0))
      else if ltype f = PB_LTYPE_FIXED_LENGTH_BYTES then string_out (mem_read m a n)
      else (case ptr f of Fields fs \<Rightarrow> sub_out (msg fs a) | _ \<Rightarrow> fail_out))"

definition array_out :: "(pb_field list \<Rightarrow> addr \<Rightarrow> out) \<Rightarrow> mem \<Rightarrow> pb_field \<Rightarrow> addr \<Rightarrow> nat \<Rightarrow> out" where
  "array_out msg m f a count =
     (let items = map (value_out msg m f) (item_addrs a (data_size f) count) in
      if count = 0 then done_out
      else if array_size f < count then fail_out
      else if ltype f \<le> PB_LTYPE_LAST_PACKABLE
        then then_out (varint_out (8 * tag f + PB_WT_STRING)) (sub_out (all_out items))
      else all_out (map (then_out (tag_out f)) items))"

definition field_out :: "nat \<Rightarrow> (pb_field list \<Rightarrow> addr \<Rightarrow> out) \<Rightarrow> mem \<Rightarrow> pb_field \<Rightarrow> addr \<Rightarrow> addr \<Rightarrow> out" where
  "field_out k msg m f a size_a =
     (let one = then_out (tag_out f) (value_out msg m f a) in
      if htype f = PB_HTYPE_REQUIRED then (if a = 0 then fail_out else one)
      else if htype f = PB_HTYPE_OPTIONAL then
        (if (if size_a \<noteq> a then load m size_a 1 \<noteq> 0
             else pb_check_proto3_default_value k f a m \<noteq> Ret True) then one else done_out)
      else if htype f = PB_HTYPE_REPEATED then array_out msg m f a (load m size_a 4)
      else if load m size_a 4 = tag f then one else done_out)"

primrec msg_out :: "nat \<Rightarrow> mem \<Rightarrow> pb_field list \<Rightarrow> addr \<Rightarrow> out" where
  "msg_out 0 m fs a = fail_out"
| "msg_out (Suc k) m fs a =
     all_out (map (\<lambda>i. let it = iter_at fs a i in field_out k (msg_out k m) m (fs ! i) (pData it) (pData it + size_offset (fs ! i)))
       [0..<nfields fs])"

section \<open>Refinement of an outcome\<close>

definition realizes :: "'s enc \<Rightarrow> mem \<Rightarrow> out \<Rightarrow> bool" where
  "realizes d m r \<longleftrightarrow>
     (length (fst r) < 2 ^ 63 \<longrightarrow>
        (\<forall>acc mx n. n \<le> mx \<and> mx < 2 ^ 63 \<longrightarrow>
           (if snd r \<and> n + length (fst r) \<le> mx
            then d (ostream acc mx n None) m = Ret (True, ostream (acc @ fst r) mx (n + length (fst r)) None, m)
            else \<exists>pre e. d (ostream acc mx n None) m = Ret (False, ostream (acc @ pre) mx (n + length pre) e, m) \<and>
              n + length pre \<le> mx))) \<and>
     (\<forall>mx n. n < 2 ^ 64 \<longrightarrow>
        (if snd r then d (sizing mx n None) m = Ret (True, sizing mx ((n + length (fst r)) mod 2 ^ 64) None, m)
         else \<exists>n' e. d (sizing mx n None) m = Ret (False, sizing mx n' e, m)))"

lemma realizes_room:
  assumes "realizes d m r" and "snd r" and "n + length (fst r) \<le> mx" and "mx < 2 ^ 63"
  shows "d (ostream acc mx n None) m = Ret (True, ostream (acc @ fst r) mx (n + length (fst r)) None, m)"
  using assms by (auto simp: realizes_def)

lemma realizes_full:
  assumes "realizes d m r" and "length (fst r) < 2 ^ 63" and "n \<le> mx" and "mx < 2 ^ 63"
    and "\<not> (snd r \<and> n + length (fst r) \<le> mx)"
  obtains pre e where "d (ostream acc mx n None) m = Ret (False, ostream (acc @ pre) mx (n + length pre) e, m)"
    and "n + length pre \<le> mx"
  using assms unfolding realizes_def by metis

lemma realizes_full_ex:
  assumes "realizes d m r" and "length (fst r) < 2 ^ 63" and "n \<le> mx" and "mx < 2 ^ 63"
    and "\<not> (snd r \<and> n + length (fst r) \<le> mx)"
  shows "\<exists>pre e. d (ostream acc mx n None) m = Ret (False, ostream (acc @ pre) mx (n + length pre) e, m) \<and>
    n + length pre \<le> mx"
  using assms by (elim realizes_full) blast+

lemma realizes_sized:
  assumes "realizes d m r" and "snd r" and "n < 2 ^ 64"
  shows "d (sizing mx n None) m = Ret (True, sizing mx ((n + length (fst r)) mod 2 ^ 64) None, m)"
  using assms by (auto simp: realizes_def)

lemma realizes_sized_fail:
  assumes "realizes d m r" and "\<not> snd r" and "n < 2 ^ 64"
  obtains n' e where "d (sizing mx n None) m = Ret (False, sizing mx n' e, m)"
  using assms unfolding realizes_def by metis

lemma realizesI:
  assumes "\<And>acc mx n. length (fst r) < 2 ^ 63 \<Longrightarrow> snd r \<Longrightarrow> n + length (fst r) \<le> mx \<Longrightarrow> mx < 2 ^ 63 \<Longrightarrow>
      d (ostream acc mx n None) m = Ret (True, ostream (acc @ fst r) mx (n + length (fst r)) None, m)"
    and "\<And>acc mx n. length (fst r) < 2 ^ 63 \<Longrightarrow> n \<le> mx \<Longrightarrow> mx < 2 ^ 63 \<Longrightarrow>
      \<not> (snd r \<and> n + length (fst r) \<le> mx) \<Longrightarrow>
      \<exists>pre e. d (ostream acc mx n None) m = Ret (False, ostream (acc @ pre) mx (n + length pre) e, m) \<and>
        n + length pre \<le> mx"
    and "\<And>mx n. n < 2 ^ 64 \<Longrightarrow> snd r \<Longrightarrow>
      d (sizing mx n None) m = Ret (True, sizing mx ((n + length (fst r)) mod 2 ^ 64) None, m)"
    and "\<And>mx n. n < 2 ^ 64 \<Longrightarrow> \<not> snd r \<Longrightarrow> \<exists>n' e. d (sizing mx n None) m = Ret (False, sizing mx n' e, m)"
  shows "realizes d m r"
  using assms unfolding realizes_def by simp

lemma realizes_if:
  "(c \<Longrightarrow> realizes d m r) \<Longrightarrow> (\<not> c \<Longrightarrow> realizes d' m r') \<Longrightarrow>
   realizes (if c then d else d') m (if c then r else r')"
  by simp

lemma is_Sizing_streams [simp]:
  "\<not> is_Sizing (sink (ostream acc mx n e))" "is_Sizing (sink (sizing mx n e))"
  by (simp_all add: ostream_def sizing_def)

lemma realizes_eret: "realizes eret m done_out"
  by (rule realizesI) (auto simp: done_out_def eret_def)

lemma pb_oset_error_ostream [simp]:
  "pb_oset_error msg (ostream acc mx n e) = ostream acc mx n (case e of Some x \<Rightarrow> Some x | None \<Rightarrow> Some msg)"
  "pb_oset_error msg (sizing mx n e) = sizing mx n (case e of Some x \<Rightarrow> Some x | None \<Rightarrow> Some msg)"
  by (simp_all add: pb_oset_error_def ostream_def sizing_def split: option.split)

lemma realizes_eerr: "realizes (eerr msg) m fail_out"
proof -
  have "\<exists>pre e. eerr msg (ostream acc mx n None) m = Ret (False, ostream (acc @ pre) mx (n + length pre) e, m) \<and>
      n + length pre \<le> mx" if "n \<le> mx" for acc mx n
    using that by (intro exI [of _ "[]"] exI [of _ "Some msg"]) (simp add: eerr_def ewrite_def werr_def)
  then show ?thesis
    by (intro realizesI) (auto simp: fail_out_def eerr_def ewrite_def werr_def)
qed

lemma pb_write_ostream:
  assumes "n \<le> mx" "mx < 2 ^ 63" "length bs < 2 ^ 63"
  shows "pb_write bs (length bs) (ostream acc mx n e) =
    (if n + length bs \<le> mx then (True, ostream (acc @ bs) mx (n + length bs) e)
     else werr ''stream full'' (ostream acc mx n e))"
  using assms by (simp add: pb_write_def ostream_def ostream_callback_def size_add_def)

lemma pb_write_sizing: "pb_write bs k (sizing mx n e) = (True, sizing mx ((n + k) mod 2 ^ 64) e)"
  by (simp add: pb_write_def sizing_def size_add_def)

lemma realizes_write: "realizes (ewrite (pb_write bs (length bs))) m (bs, True)"
proof (rule realizesI)
  fix acc :: bytes and mx n :: nat
  assume "length (fst (bs, True)) < 2 ^ 63" "n \<le> mx" "mx < 2 ^ 63" "\<not> (snd (bs, True) \<and> n + length (fst (bs, True)) \<le> mx)"
  then show "\<exists>pre e. ewrite (pb_write bs (length bs)) (ostream acc mx n None) m =
      Ret (False, ostream (acc @ pre) mx (n + length pre) e, m) \<and> n + length pre \<le> mx"
    by (intro exI [of _ "[]"] exI [of _ "Some ''stream full''"]) (simp add: ewrite_def werr_def pb_write_ostream)
qed (simp_all add: ewrite_def pb_write_ostream pb_write_sizing)

lemma eseq_True: "d1 s m = Ret (True, s1, m1) \<Longrightarrow> eseq d1 d2 s m = d2 s1 m1"
  by (simp add: eseq_def)

lemma eseq_False: "d1 s m = Ret (False, s1, m1) \<Longrightarrow> eseq d1 d2 s m = Ret (False, s1, m1)"
  by (simp add: eseq_def)

lemma realizes_seq:
  assumes 1: "realizes d1 m r1" and 2: "realizes d2 m r2"
  shows "realizes (eseq d1 d2) m (then_out r1 r2)"
proof -
  obtain as b1 bs b2 where r: "r1 = (as, b1)" "r2 = (bs, b2)" by (cases r1, cases r2)
  show ?thesis
  proof (cases b1)
    case True
    with r have r1: "snd r1" "fst r1 = as" and both: "then_out r1 r2 = (as @ bs, b2)" by simp_all
    show ?thesis
      unfolding both
    proof (rule realizesI; simp only: fst_conv snd_conv length_append)
      fix acc :: bytes and mx n :: nat
      assume "length as + length bs < 2 ^ 63" b2 "n + (length as + length bs) \<le> mx" "mx < 2 ^ 63"
      then show "eseq d1 d2 (ostream acc mx n None) m =
          Ret (True, ostream (acc @ as @ bs) mx (n + (length as + length bs)) None, m)"
        using realizes_room [OF 1 r1(1), of n mx acc] realizes_room [OF 2, of "n + length as" mx "acc @ as"] r
        by (simp add: eseq_True add.assoc)
    next
      fix acc :: bytes and mx n :: nat
      assume len: "length as + length bs < 2 ^ 63" and n: "n \<le> mx" and mx: "mx < 2 ^ 63"
        and no: "\<not> (b2 \<and> n + (length as + length bs) \<le> mx)"
      show "\<exists>pre e. eseq d1 d2 (ostream acc mx n None) m =
          Ret (False, ostream (acc @ pre) mx (n + length pre) e, m) \<and> n + length pre \<le> mx"
      proof (cases "n + length as \<le> mx")
        case True
        then have d1: "d1 (ostream acc mx n None) m = Ret (True, ostream (acc @ as) mx (n + length as) None, m)"
          using realizes_room [OF 1 r1(1), of n mx acc] mx r1 by simp
        have "length (fst r2) < 2 ^ 63" and "\<not> (snd r2 \<and> n + length as + length (fst r2) \<le> mx)"
          using len no r by (simp_all add: add.assoc)
        with 2 obtain pre e where
          "d2 (ostream (acc @ as) mx (n + length as) None) m =
            Ret (False, ostream ((acc @ as) @ pre) mx (n + length as + length pre) e, m)"
          "n + length as + length pre \<le> mx"
          using True mx by (elim realizes_full)
        with d1 show ?thesis
          by (intro exI [of _ "as @ pre"] exI [of _ e]) (simp add: eseq_True add.assoc)
      next
        case False
        then obtain pre e where
          "d1 (ostream acc mx n None) m = Ret (False, ostream (acc @ pre) mx (n + length pre) e, m)"
          "n + length pre \<le> mx"
          using realizes_full [OF 1 _ n mx] len r1 by auto
        then show ?thesis by (intro exI [of _ pre] exI [of _ e]) (simp add: eseq_False)
      qed
    next
      fix mx n :: nat
      assume "n < 2 ^ 64" b2
      then show "eseq d1 d2 (sizing mx n None) m =
          Ret (True, sizing mx ((n + (length as + length bs)) mod 2 ^ 64) None, m)"
        using realizes_sized [OF 1 r1(1), of n mx] realizes_sized [OF 2, of "(n + length as) mod 2 ^ 64" mx] r
        by (simp add: eseq_True mod_add_left_eq add.assoc)
    next
      fix mx n :: nat
      assume "n < 2 ^ 64" "\<not> b2"
      moreover from this obtain n' e where
        "d2 (sizing mx ((n + length as) mod 2 ^ 64) None) m = Ret (False, sizing mx n' e, m)"
        using realizes_sized_fail [OF 2, of "(n + length as) mod 2 ^ 64" mx] r by auto
      ultimately show "\<exists>n' e. eseq d1 d2 (sizing mx n None) m = Ret (False, sizing mx n' e, m)"
        using realizes_sized [OF 1 r1(1), of n mx] r1 by (auto simp: eseq_True)
    qed
  next
    case False
    with r have r1: "\<not> snd r1" "fst r1 = as" and both: "then_out r1 r2 = (as, False)" by simp_all
    show ?thesis
      unfolding both
    proof (rule realizesI; simp only: fst_conv snd_conv)
      fix acc :: bytes and mx n :: nat
      assume "length as < 2 ^ 63" "n \<le> mx" "mx < 2 ^ 63"
      with r1 obtain pre e where
        "d1 (ostream acc mx n None) m = Ret (False, ostream (acc @ pre) mx (n + length pre) e, m)"
        "n + length pre \<le> mx"
        using realizes_full [OF 1, of n mx acc] by auto
      then show "\<exists>pre e. eseq d1 d2 (ostream acc mx n None) m =
          Ret (False, ostream (acc @ pre) mx (n + length pre) e, m) \<and> n + length pre \<le> mx"
        by (intro exI [of _ pre] exI [of _ e]) (simp add: eseq_False)
    next
      fix mx n :: nat
      assume "n < 2 ^ 64"
      with 1 r1 obtain n' e where "d1 (sizing mx n None) m = Ret (False, sizing mx n' e, m)"
        by (elim realizes_sized_fail)
      then show "\<exists>n' e. eseq d1 d2 (sizing mx n None) m = Ret (False, sizing mx n' e, m)"
        by (auto simp: eseq_False)
    qed
  qed
qed

section \<open>Field encoders\<close>

lemma realizes_varint: "realizes (ewrite (pb_encode_varint v)) m (varint_bytes (unat v), True)"
  unfolding pb_encode_varint_write by (rule realizes_write)

lemma realizes_varint_nat: "realizes (ewrite (pb_encode_varint (of_nat n))) m (varint_out n)"
  using realizes_varint [of "of_nat n" m] by (simp add: varint_out_def unat_of_nat)

lemma realizes_varint_word: "realizes (ewrite (pb_encode_varint v)) m (varint_out (unat v))"
proof -
  have "unat v mod 2 ^ 64 = unat v" using unsigned_less [of v, where ?'a = nat] by simp
  then show ?thesis using realizes_varint [of v m] by (simp add: varint_out_def)
qed

lemma ewrite_wseq: "ewrite (wseq w1 w2) = eseq (ewrite w1) (ewrite w2)"
  by (intro ext) (simp add: ewrite_def wseq_def eseq_def split: prod.split bool.split)

lemma realizes_string: "realizes (ewrite (pb_encode_string bs (length bs))) m (string_out bs)"
  unfolding pb_encode_string_def ewrite_wseq string_out_def
  by (intro realizes_seq realizes_varint_nat realizes_write)

lemma wire_type_small: "wire_type_of lt = Some wt \<Longrightarrow> wt < 8"
  by (auto simp: wire_type_of_def split: if_splits)

lemma realizes_tag:
  assumes "t < 2 ^ 32" and "wt < 8"
  shows "realizes (ewrite (pb_encode_tag wt t)) m (varint_out (8 * t + wt))"
proof -
  have "t < 2 ^ 61" using assms(1) by simp
  then have "unat (push_bit 3 (of_nat t) OR of_nat wt :: 64 word) = 8 * t + wt"
    using assms(2) by (rule tag_word)
  then show ?thesis
    unfolding pb_encode_tag_def
    using realizes_varint_word [of "push_bit 3 (of_nat t) OR of_nat wt" m] by simp
qed

lemma realizes_tag_for_field:
  assumes "tag f < 2 ^ 32"
  shows "realizes (ewrite (pb_encode_tag_for_field f)) m (tag_out f)"
  using realizes_tag [OF assms] wire_type_small realizes_eerr
  by (auto simp: pb_encode_tag_for_field_def tag_out_def eerr_def split: option.split)

text \<open>Encoders that look at the memory first.\<close>

lemma realizes_cong:
  assumes "\<And>s. d s m = d' s m" and "realizes d' m r"
  shows "realizes d m r"
  using assms(2) by (simp only: realizes_def assms(1))

lemma realizes_fixed32: "realizes (pb_enc_fixed32 f a) m (le_bytes 4 (load m a 4), True)"
proof -
  have "unat (of_nat (load m a 4) :: 32 word) = load m a 4"
    using load_bound [of m a 4] by (simp add: unat_of_nat)
  then have bytes: "fixed32_bytes (of_nat (load m a 4)) = le_bytes 4 (load m a 4)"
    by (simp only: fixed32_bytes_le)
  show ?thesis
    by (rule realizes_cong [OF _ realizes_write])
      (simp only: pb_enc_fixed32_def pb_encode_fixed32_def bytes length_le_bytes)
qed

lemma realizes_fixed64: "realizes (pb_enc_fixed64 f a) m (le_bytes 8 (load m a 8), True)"
proof -
  have "unat (of_nat (load m a 8) :: 64 word) = load m a 8"
    using load_bound [of m a 8] by (simp add: unat_of_nat)
  then have bytes: "fixed64_bytes (of_nat (load m a 8)) = le_bytes 8 (load m a 8)"
    by (simp only: fixed64_bytes_le)
  show ?thesis
    by (rule realizes_cong [OF _ realizes_write])
      (simp only: pb_enc_fixed64_def pb_encode_fixed64_def bytes length_le_bytes)
qed

lemma realizes_mem_string:
  "n = length bs \<Longrightarrow> realizes (\<lambda>s m. ewrite (pb_encode_string bs n) s m) m (string_out bs)"
  using realizes_string [of bs m] by simp

lemma sizing_written: "bytes_written (sizing mx n e) = n"
  by (simp add: sizing_def)

text \<open>A submessage is encoded twice, the first time to find its size.\<close>

lemma realizes_submessage:
  assumes sub: "realizes (encode fs a) m r"
  shows "realizes (pb_encode_submessage encode fs a) m (sub_out r)"
proof (cases "snd r")
  case False
  have start: "PB_OSTREAM_SIZING = sizing 0 0 None" by (simp add: PB_OSTREAM_SIZING_def sizing_def)
  obtain n' e where sz: "encode fs a (sizing 0 0 None) m = Ret (False, sizing 0 n' e, m)"
    using realizes_sized_fail [OF sub False, of 0 0] by auto
  have out: "pb_encode_submessage encode fs a s m = Ret (False, s\<lparr>oerrmsg := e\<rparr>, m)" for s
    unfolding pb_encode_submessage_def start sz by (simp add: sizing_def)
  have err: "(ostream acc mx n None)\<lparr>oerrmsg := e\<rparr> = ostream acc mx n e"
    "(sizing mx n None)\<lparr>oerrmsg := e\<rparr> = sizing mx n e" for acc mx n
    by (simp_all add: ostream_def sizing_def)
  show ?thesis
  proof (rule realizesI)
    fix acc :: bytes and mx n :: nat
    assume "n \<le> mx"
    then show "\<exists>pre e. pb_encode_submessage encode fs a (ostream acc mx n None) m =
        Ret (False, ostream (acc @ pre) mx (n + length pre) e, m) \<and> n + length pre \<le> mx"
      by (intro exI [of _ "[]"] exI [of _ e]) (simp add: out err)
  qed (use False in \<open>auto simp: sub_out_def fail_out_def out err\<close>)
next
  case True
  have start: "PB_OSTREAM_SIZING = sizing 0 0 None" by (simp add: PB_OSTREAM_SIZING_def sizing_def)
  let ?len = "length (fst r)"
  let ?n = "?len mod 2 ^ 64"
  have "encode fs a (sizing 0 0 None) m = Ret (True, sizing 0 ?n None, m)"
    using realizes_sized [OF sub True, of 0 0] by simp
  then have sized: "encode fs a PB_OSTREAM_SIZING m = Ret (True, sizing 0 ?n None, m)"
    by (simp only: start)
  let ?body = "\<lambda>s1 m1.
                 if is_Sizing (sink s1) then ewrite (pb_write [] ?n) s1 m1
                 else if max_size s1 < size_add (bytes_written s1) ?n then eerr ''stream full'' s1 m1
                 else
                   run_bind (encode fs a (s1\<lparr>max_size := ?n, bytes_written := 0, oerrmsg := None\<rparr>) m1)
                     (\<lambda>(status, sub2, m2).
                        case set_state (sink s1) (sink sub2) of
                          None \<Rightarrow> Undef
                        | Some k \<Rightarrow>
                            let s2 = s1\<lparr>bytes_written := size_add (bytes_written s1) (bytes_written sub2),
                                        sink := k, oerrmsg := oerrmsg sub2\<rparr>
                            in if bytes_written sub2 \<noteq> ?n then eerr ''submsg size changed'' s2 m2
                               else Ret (status, s2, m2))"
  have unfolded: "pb_encode_submessage encode fs a s m = eseq (ewrite (pb_encode_varint (of_nat ?n))) ?body s m" for s
    unfolding pb_encode_submessage_def sized run_bind_simps prod.case Let_def sizing_written
      not_True_eq_False if_False by (rule refl)
  have body: "realizes ?body m (fst r, True)"
  proof (rule realizesI; simp only: fst_conv snd_conv)
    fix acc :: bytes and mx n :: nat
    assume len: "?len < 2 ^ 63" and room: "n + ?len \<le> mx" and mx: "mx < 2 ^ 63"
    from len room mx have n: "?n = ?len" and add: "size_add n ?len = n + ?len"
      by (simp_all add: size_add_def)
    have enter: "(ostream acc mx n None)\<lparr>max_size := ?len, bytes_written := 0, oerrmsg := None\<rparr> =
        ostream acc ?len 0 None"
      by (simp add: ostream_def)
    have "encode fs a (ostream acc ?len 0 None) m = Ret (True, ostream (acc @ fst r) ?len ?len None, m)"
      using realizes_room [OF sub True, of 0 ?len acc] len by simp
    then show "?body (ostream acc mx n None) m = Ret (True, ostream (acc @ fst r) mx (n + ?len) None, m)"
      using room unfolding n by (simp add: enter add) (simp add: ostream_def add)
  next
    fix acc :: bytes and mx n :: nat
    assume len: "?len < 2 ^ 63" and n: "n \<le> mx" and mx: "mx < 2 ^ 63" and full: "\<not> (True \<and> n + ?len \<le> mx)"
    from len n mx have nl: "?n = ?len" and add: "size_add n ?len = n + ?len"
      by (simp_all add: size_add_def)
    have "?body (ostream acc mx n None) m = eerr ''stream full'' (ostream acc mx n None) m"
      using full unfolding nl by (simp add: add ostream_def)
    then show "\<exists>pre e. ?body (ostream acc mx n None) m =
        Ret (False, ostream (acc @ pre) mx (n + length pre) e, m) \<and> n + length pre \<le> mx"
      using n by (intro exI [of _ "[]"] exI [of _ "Some ''stream full''"]) (simp add: eerr_def ewrite_def werr_def)
  next
    fix mx n :: nat
    show "?body (sizing mx n None) m = Ret (True, sizing mx ((n + ?len) mod 2 ^ 64) None, m)"
      by (simp add: sizing_def [of mx n] ewrite_def) (simp add: sizing_def [symmetric] pb_write_sizing mod_add_right_eq)
  qed simp
  have "realizes (eseq (ewrite (pb_encode_varint (of_nat ?n))) ?body) m (then_out (varint_out ?n) (fst r, True))"
    by (intro realizes_seq realizes_varint_nat body)
  moreover have "varint_out ?n = varint_out ?len" by (simp add: varint_out_def)
  ultimately have "realizes (eseq (ewrite (pb_encode_varint (of_nat ?n))) ?body) m (sub_out r)"
    using True by (simp add: sub_out_def string_out_def)
  with unfolded show ?thesis by (rule realizes_cong)
qed

section \<open>Descriptors the format covers\<close>

text \<open>
  Static fields only; submessages nest at most \<open>h\<close> deep; repeated and oneof fields have their
  size member. The address of the size member is the iterator's.
\<close>

definition enc_field_ok :: "pb_field \<Rightarrow> bool" where
  "enc_field_ok f \<longleftrightarrow>
     atype f = PB_ATYPE_STATIC \<and> tag f < 2 ^ 32 \<and>
     ltype f \<noteq> PB_LTYPE_EXTENSION \<and> ltype f \<le> PB_LTYPE_FIXED_LENGTH_BYTES \<and>
     (ltype f = PB_LTYPE_SUBMESSAGE \<longrightarrow> (\<exists>sub. ptr f = Fields sub)) \<and>
     (htype f = PB_HTYPE_REPEATED \<or> htype f = PB_HTYPE_ONEOF \<longrightarrow> size_offset f \<noteq> 0)"

inductive enc_ok :: "pb_field list \<Rightarrow> nat \<Rightarrow> bool" where
  enc_okI:
  "nfields fs = length fs \<Longrightarrow>
   (\<And>f. f \<in> set fs \<Longrightarrow> enc_field_ok f) \<Longrightarrow>
   (\<And>f sub. f \<in> set fs \<Longrightarrow> ptr f = Fields sub \<Longrightarrow> enc_ok sub h) \<Longrightarrow>
   enc_ok fs (Suc h)"

inductive_cases enc_okE: "enc_ok fs h"

lemma realizes_value:
  assumes f: "enc_field_ok f"
    and sub: "\<And>fs. ptr f = Fields fs \<Longrightarrow> realizes (encode fs a) m (msg fs a)"
  shows "realizes (PB_ENCODERS encode (ltype f) f a) m (value_out msg m f a)"
proof -
  have static: "atype f = PB_ATYPE_STATIC" using f by (simp add: enc_field_ok_def)
  have "ltype f \<in> {0, 1, 2, 3, 4, 5, 6, 7, 8, 9}"
    using f by (intro ltype_cases) (simp add: enc_field_ok_def)
  then have "ltype f \<in> {0, 1, 2, 3, 4, 5, 6, 7, 9}"
    using f by (auto simp: enc_field_ok_def)
  moreover have "realizes (pb_enc_varint f a) m
      (if int_size (data_size f) then varint_out (unat (load_int m a (data_size f))) else fail_out)"
    by (rule realizes_cong [of _ m "if int_size (data_size f) then ewrite (pb_encode_varint (load_int m a (data_size f)))
        else eerr ''invalid data_size''"])
      (simp_all add: pb_enc_varint_def realizes_varint_word realizes_eerr)
  moreover have "realizes (pb_enc_uvarint f a) m
      (if int_size (data_size f) then varint_out (unat (of_nat (load m a (data_size f)) :: 64 word)) else fail_out)"
    by (rule realizes_cong [of _ m "if int_size (data_size f) then ewrite (pb_encode_varint (of_nat (load m a (data_size f))))
        else eerr ''invalid data_size''"])
      (auto simp: pb_enc_uvarint_def realizes_eerr intro: realizes_varint_word)
  moreover have "realizes (pb_enc_svarint f a) m
      (if int_size (data_size f) then varint_out (unat (zigzag (load_int m a (data_size f)))) else fail_out)"
    by (rule realizes_cong [of _ m "if int_size (data_size f) then ewrite (pb_encode_svarint (load_int m a (data_size f)))
        else eerr ''invalid data_size''"])
      (simp_all add: pb_enc_svarint_def pb_encode_svarint_def realizes_varint_word realizes_eerr)
  moreover have "realizes (pb_enc_bytes f a) m
      (if a = 0 then string_out []
       else if data_size f < PB_BYTES_ARRAY_T_ALLOCSIZE (load m a 4) then fail_out
       else string_out (mem_read m (a + 4) (load m a 4)))"
  proof (rule realizes_cong)
    show "realizes (if a = 0 then ewrite (pb_encode_string [] (length ([] :: bytes)))
        else if data_size f < PB_BYTES_ARRAY_T_ALLOCSIZE (load m a 4) then eerr ''bytes size exceeded''
        else ewrite (pb_encode_string (mem_read m (a + 4) (load m a 4))
          (length (mem_read m (a + 4) (load m a 4))))) m
      (if a = 0 then string_out []
       else if data_size f < PB_BYTES_ARRAY_T_ALLOCSIZE (load m a 4) then fail_out
       else string_out (mem_read m (a + 4) (load m a 4)))"
      by (intro realizes_if realizes_string realizes_eerr)
  qed (simp add: pb_enc_bytes_def static Let_def)
  moreover have "realizes (pb_enc_string f a) m
      (string_out (mem_read m a (if a = 0 then 0 else strnlen_loop m a (data_size f) 0)))"
    by (rule realizes_cong [OF _ realizes_string]) (simp add: pb_enc_string_def static Let_def)
  moreover have "realizes (pb_enc_fixed_length_bytes f a) m (string_out (mem_read m a (data_size f)))"
    by (rule realizes_cong [OF _ realizes_string]) (simp add: pb_enc_fixed_length_bytes_def)
  moreover have "realizes (pb_enc_submessage encode f a) m
      (case ptr f of Fields fs \<Rightarrow> sub_out (msg fs a) | _ \<Rightarrow> fail_out)" if "ltype f = PB_LTYPE_SUBMESSAGE"
    using f that sub by (auto simp: enc_field_ok_def pb_enc_submessage_def realizes_submessage)
  ultimately show ?thesis
    by (auto simp: PB_ENCODERS_def value_out_def Let_def realizes_fixed32 realizes_fixed64
        simp del: le_bytes_numeral)
qed

section \<open>Arrays and fields\<close>

lemma all_out_Cons: "all_out (r # rs) = then_out r (all_out rs)"
  by (simp add: all_out_def)

lemma realizes_items:
  assumes "\<And>p. p \<in> set ps \<Longrightarrow> realizes (func p) m (out p)"
  shows "realizes (encode_items func ps) m (all_out (map out ps))"
  using assms
  by (induction ps) (simp_all add: all_out_Cons realizes_seq, simp add: all_out_def realizes_eret)

text \<open>The size of a packed array of fixed-width items is known without encoding them.\<close>

lemma all_out_fixed: "all_out (map (\<lambda>p. (le_bytes n (g p), True)) ps) = (concat (map (\<lambda>p. le_bytes n (g p)) ps), True)"
  by (induction ps) (simp_all add: all_out_def done_out_def)

lemma length_concat_fixed: "length (concat (map (\<lambda>p. le_bytes n (g p)) ps)) = n * length ps"
  by (induction ps) simp_all

lemma packed_size_result:
  assumes items: "realizes (encode_items func ps) m r"
    and fixed32: "ltype f = PB_LTYPE_FIXED32 \<Longrightarrow> snd r \<and> length (fst r) = 4 * length ps"
    and fixed64: "ltype f = PB_LTYPE_FIXED64 \<Longrightarrow> snd r \<and> length (fst r) = 8 * length ps"
    and small: "length ps < 2 ^ 32"
  shows "packed_size func f ps m = Ret (if snd r then Some (length (fst r) mod 2 ^ 64) else None, m)"
proof -
  have start: "PB_OSTREAM_SIZING = sizing 0 0 None" by (simp add: PB_OSTREAM_SIZING_def sizing_def)
  consider "ltype f = PB_LTYPE_FIXED32" | "ltype f = PB_LTYPE_FIXED64"
    | (sized) "ltype f \<noteq> PB_LTYPE_FIXED32" "ltype f \<noteq> PB_LTYPE_FIXED64" by blast
  then show ?thesis
  proof cases
    case sized
    show ?thesis
    proof (cases "snd r")
      case True
      with sized show ?thesis
        using realizes_sized [OF items True, of 0 0] by (simp add: packed_size_def start sizing_written)
    next
      case False
      moreover obtain n e where "encode_items func ps (sizing 0 0 None) m = Ret (False, sizing 0 n e, m)"
        using realizes_sized_fail [OF items False, of 0 0] by auto
      ultimately show ?thesis using sized by (simp add: packed_size_def start)
    qed
  qed (use fixed32 fixed64 small in \<open>simp_all add: packed_size_def\<close>)
qed

lemma realizes_packed:
  assumes items: "realizes (encode_items func ps) m r"
    and size: "packed_size func f ps m = Ret (if snd r then Some (length (fst r) mod 2 ^ 64) else None, m)"
  shows "realizes
    (\<lambda>s m. run_bind (packed_size func f ps m)
       (\<lambda>(n, m'). case n of
          None \<Rightarrow> Ret (False, s, m')
        | Some n \<Rightarrow>
            eseq (ewrite (pb_encode_varint (of_nat n)))
              (\<lambda>s m. if is_Sizing (sink s) then ewrite (pb_write [] n) s m else encode_items func ps s m)
              s m')) m (sub_out r)"
proof (cases "snd r")
  case False
  show ?thesis
  proof (rule realizes_cong)
    show "realizes (\<lambda>s m. Ret (False, s, m)) m (sub_out r)"
      using False
      by (intro realizesI) (auto simp: sub_out_def fail_out_def intro!: exI [of _ "[]"])
  qed (simp add: size False)
next
  case True
  let ?n = "length (fst r) mod 2 ^ 64"
  let ?body = "\<lambda>s m. if is_Sizing (sink s) then ewrite (pb_write [] ?n) s m else encode_items func ps s m"
  have "realizes ?body m (fst r, True)"
  proof (rule realizesI; simp only: fst_conv snd_conv is_Sizing_streams if_True if_False)
    fix acc :: bytes and mx n :: nat
    assume "n + length (fst r) \<le> mx" "mx < 2 ^ 63"
    then show "encode_items func ps (ostream acc mx n None) m =
        Ret (True, ostream (acc @ fst r) mx (n + length (fst r)) None, m)"
      by (rule realizes_room [OF items True])
  next
    fix acc :: bytes and mx n :: nat
    assume "length (fst r) < 2 ^ 63" "n \<le> mx" "mx < 2 ^ 63" "\<not> (True \<and> n + length (fst r) \<le> mx)"
    then show "\<exists>pre e. encode_items func ps (ostream acc mx n None) m =
        Ret (False, ostream (acc @ pre) mx (n + length pre) e, m) \<and> n + length pre \<le> mx"
      by (intro realizes_full_ex [OF items]) simp_all
  next
    fix mx n :: nat
    show "ewrite (pb_write [] ?n) (sizing mx n None) m =
        Ret (True, sizing mx ((n + length (fst r)) mod 2 ^ 64) None, m)"
      by (simp add: ewrite_def pb_write_sizing mod_add_right_eq)
  qed simp
  then have "realizes (eseq (ewrite (pb_encode_varint (of_nat ?n))) ?body) m (then_out (varint_out ?n) (fst r, True))"
    by (intro realizes_seq realizes_varint_nat)
  moreover have "varint_out ?n = varint_out (length (fst r))" by (simp add: varint_out_def)
  ultimately have "realizes (eseq (ewrite (pb_encode_varint (of_nat ?n))) ?body) m (sub_out r)"
    using True by (simp add: sub_out_def string_out_def)
  then show ?thesis
    by (rule realizes_cong [rotated]) (simp only: size True run_bind_simps prod.case option.case if_True)
qed

lemma realizes_array:
  assumes f: "enc_field_ok f" and count: "count < 2 ^ 32"
    and func: "\<And>p. realizes (func p) m (value_out msg m f p)"
  shows "realizes (encode_array func f a count) m (array_out msg m f a count)"
proof -
  let ?ps = "item_addrs a (data_size f) count"
  have static: "atype f \<noteq> PB_ATYPE_POINTER" "tag f < 2 ^ 32" using f by (auto simp: enc_field_ok_def)
  have len: "length ?ps = count" by (simp add: item_addrs_def)
  let ?r = "all_out (map (value_out msg m f) ?ps)"
  have items: "realizes (encode_items func ?ps) m ?r"
    by (rule realizes_items) (rule func)
  have "?r = (concat (map (\<lambda>p. le_bytes 4 (load m p 4)) ?ps), True)" if "ltype f = PB_LTYPE_FIXED32"
    using that all_out_fixed [of 4 "\<lambda>p. load m p 4" ?ps]
    by (simp add: value_out_def [abs_def] Let_def del: le_bytes_numeral)
  then have f32: "snd ?r \<and> length (fst ?r) = 4 * length ?ps" if "ltype f = PB_LTYPE_FIXED32"
    using that by (simp add: length_concat_fixed del: le_bytes_numeral)
  have "?r = (concat (map (\<lambda>p. le_bytes 8 (load m p 8)) ?ps), True)" if "ltype f = PB_LTYPE_FIXED64"
    using that all_out_fixed [of 8 "\<lambda>p. load m p 8" ?ps]
    by (simp add: value_out_def [abs_def] Let_def del: le_bytes_numeral)
  then have f64: "snd ?r \<and> length (fst ?r) = 8 * length ?ps" if "ltype f = PB_LTYPE_FIXED64"
    using that by (simp add: length_concat_fixed del: le_bytes_numeral)
  have "packed_size func f ?ps m = Ret (if snd ?r then Some (length (fst ?r) mod 2 ^ 64) else None, m)"
    using count len by (intro packed_size_result items f32 f64) simp_all
  note packed = realizes_packed [OF items this]
  have tag: "realizes (ewrite (pb_encode_tag PB_WT_STRING (tag f))) m (varint_out (8 * tag f + PB_WT_STRING))"
    using static(2) by (rule realizes_tag) simp
  have single: "realizes (encode_items (\<lambda>p. eseq (ewrite (pb_encode_tag_for_field f)) (\<lambda>s m. func p s m)) ?ps) m
      (all_out (map (\<lambda>p. then_out (tag_out f) (value_out msg m f p)) ?ps))"
    by (intro realizes_items realizes_seq realizes_tag_for_field static(2)) (rule func)
  show ?thesis
    unfolding encode_array_def array_out_def Let_def
    using static(1) single
    by (simp only: simp_thms if_False) (intro realizes_if realizes_eret realizes_eerr realizes_seq tag packed, simp add: comp_def)
qed

lemma check_proto3_returns:
  "enc_ok fs h \<Longrightarrow> f \<in> set fs \<Longrightarrow> h \<le> k \<Longrightarrow> \<exists>b. pb_check_proto3_default_value k f a m = Ret b"
proof (induction k arbitrary: fs h f a)
  case 0
  then show ?case by (auto elim: enc_okE)
next
  case (Suc k)
  then obtain h' where h: "h = Suc h'" and f: "enc_field_ok f"
    and sub: "\<And>sub. ptr f = Fields sub \<Longrightarrow> enc_ok sub h'"
    by (auto elim!: enc_okE)
  show ?case
  proof (cases "ltype f = PB_LTYPE_SUBMESSAGE")
    case True
    with f obtain fs' where fs': "ptr f = Fields fs'" by (auto simp: enc_field_ok_def)
    let ?body = "\<lambda>it ok. if ok then pb_check_proto3_default_value k (cur it) (pData it) m else Ret False"
    have "\<exists>b. run_each (\<lambda>j. ?body (iter_at fs' a j)) js True = Ret b" if "\<forall>j \<in> set js. j < nfields fs'" for js
    proof -
      have body: "\<exists>b. ?body (iter_at fs' a j) ok = Ret b" if "j < nfields fs'" for j ok
        using Suc.IH [OF sub [OF fs'] field_at_in [OF that], of "pData (iter_at fs' a j)"] Suc.prems(3) h
        unfolding cur_iter_at [OF that] by (cases ok) auto
      show ?thesis using that body by (intro run_each_returns) blast
    qed
    from this [of "[0..<nfields fs']"] True fs' f show ?thesis
      by (cases "0 < nfields fs'")
        (auto simp: proto3_default_step_def iter_begin_at iter_do_each enc_field_ok_def simp del: iter_at.simps)
  next
    case False
    then show ?thesis by (auto simp: proto3_default_step_def)
  qed
qed

lemma realizes_field:
  assumes f: "enc_field_ok f"
    and sub: "\<And>fs b. ptr f = Fields fs \<Longrightarrow> realizes (encode fs b) m (msg fs b)"
    and check: "\<exists>b. pb_check_proto3_default_value k f a m = Ret b"
  shows "realizes (encode_basic_field encode k f a) m (field_out k msg m f a (a + size_offset f))"
proof -
  let ?func = "PB_ENCODERS encode (ltype f) f"
  let ?one = "eseq (ewrite (pb_encode_tag_for_field f)) (?func a)"
  have static: "atype f = PB_ATYPE_STATIC" and tag: "tag f < 2 ^ 32" using f by (auto simp: enc_field_ok_def)
  have func: "realizes (?func b) m (value_out msg m f b)" for b
    using f sub by (rule realizes_value)
  have one: "realizes ?one m (then_out (tag_out f) (value_out msg m f a))"
    by (intro realizes_seq realizes_tag_for_field tag func)
  obtain b where b: "pb_check_proto3_default_value k f a m = Ret b" using check by blast
  have "load m (a + size_offset f) 4 < 2 ^ 32" using load_bound [of m "a + size_offset f" 4] by simp
  then have arr: "realizes (encode_array ?func f a (load m (a + size_offset f) 4)) m
      (array_out msg m f a (load m (a + size_offset f) 4))"
    by (intro realizes_array f func)
  consider (req) "htype f = PB_HTYPE_REQUIRED" | (opt) "htype f = PB_HTYPE_OPTIONAL"
    | (rep) "htype f = PB_HTYPE_REPEATED" "size_offset f \<noteq> 0" | (oneof) "htype f = PB_HTYPE_ONEOF" "size_offset f \<noteq> 0"
    using htype_exhaust [of f] f by (auto simp: enc_field_ok_def)
  then show ?thesis
  proof cases
    case req
    have eq: "encode_basic_field encode k f a s m = (if a = 0 then eerr ''missing required field'' else ?one) s m" for s
      using req static by (simp add: encode_basic_field_def Let_def)
    have "realizes (if a = 0 then eerr ''missing required field'' else ?one) m
        (if a = 0 then fail_out else then_out (tag_out f) (value_out msg m f a))"
      by (intro realizes_if realizes_eerr one)
    with eq have "realizes (encode_basic_field encode k f a) m
        (if a = 0 then fail_out else then_out (tag_out f) (value_out msg m f a))"
      by (rule realizes_cong)
    then show ?thesis using req by (simp add: field_out_def Let_def)
  next
    case opt
    let ?has = "if size_offset f \<noteq> 0 then load m (a + size_offset f) 1 \<noteq> 0 else \<not> b"
    have eq: "encode_basic_field encode k f a s m = (if ?has then ?one else eret) s m" for s
      using opt static b by (simp add: encode_basic_field_def Let_def)
    have "realizes (if ?has then ?one else eret) m
        (if ?has then then_out (tag_out f) (value_out msg m f a) else done_out)"
      by (intro realizes_if realizes_eret one)
    with eq have "realizes (encode_basic_field encode k f a) m
        (if ?has then then_out (tag_out f) (value_out msg m f a) else done_out)"
      by (rule realizes_cong)
    then show ?thesis
      using opt b by (cases "size_offset f = 0"; cases b) (simp_all add: field_out_def Let_def)
  next
    case rep
    have "encode_basic_field encode k f a s m = encode_array ?func f a (load m (a + size_offset f) 4) s m" for s
      using rep static by (simp add: encode_basic_field_def Let_def)
    from this arr show ?thesis
      using rep by (simp only: field_out_def Let_def) (simp, rule realizes_cong)
  next
    case oneof
    let ?is = "load m (a + size_offset f) 4 = tag f"
    have eq: "encode_basic_field encode k f a s m = (if ?is then ?one else eret) s m" for s
      using oneof static by (simp add: encode_basic_field_def Let_def)
    have "realizes (if ?is then ?one else eret) m
        (if ?is then then_out (tag_out f) (value_out msg m f a) else done_out)"
      by (intro realizes_if realizes_eret one)
    with eq have "realizes (encode_basic_field encode k f a) m
        (if ?is then then_out (tag_out f) (value_out msg m f a) else done_out)"
      by (rule realizes_cong)
    then show ?thesis using oneof by (simp add: field_out_def Let_def)
  qed
qed

section \<open>Messages\<close>

text \<open>The do-while loop over the fields is the sequence of its steps.\<close>

abbreviation seq_step :: "('b \<Rightarrow> 's enc) \<Rightarrow> 'b \<Rightarrow> bool \<times> 's pb_ostream \<times> mem \<Rightarrow> (bool \<times> 's pb_ostream \<times> mem) run" where
  "seq_step d j \<equiv> (\<lambda>(ok, s, m). if \<not> ok then Ret (False, s, m) else d j s m)"

lemma run_each_failed: "run_each (seq_step d) js (False, s, m) = Ret (False, s, m)"
  by (induction js) simp_all

lemma run_each_seq:
  "run_each (seq_step d) (j # js) (True, s, m) =
     eseq (d j) (\<lambda>s m. run_each (seq_step d) js (True, s, m)) s m"
proof -
  have "run_each (seq_step d) js x = (case x of (ok, s, m) \<Rightarrow>
      if ok then run_each (seq_step d) js (True, s, m) else Ret (False, s, m))" for x
    by (cases x) (auto simp: run_each_failed)
  then have "run_each (seq_step d) js = (\<lambda>(ok, s, m).
      if ok then run_each (seq_step d) js (True, s, m) else Ret (False, s, m))"
    by (rule ext)
  then show ?thesis by (simp add: eseq_def)
qed

lemma realizes_run_each:
  assumes "\<And>j. j \<in> set js \<Longrightarrow> realizes (d j) m (out j)"
  shows "realizes (\<lambda>s m. run_each (seq_step d) js (True, s, m)) m (all_out (map out js))"
  using assms
proof (induction js)
  case Nil
  have "(\<lambda>s m. run_each (seq_step d) [] (True, s, m)) = eret"
    by (intro ext) (simp add: eret_def)
  then show ?case using realizes_eret [of m] by (simp add: all_out_def)
next
  case (Cons j js)
  then have "realizes (eseq (d j) (\<lambda>s m. run_each (seq_step d) js (True, s, m))) m
      (then_out (out j) (all_out (map out js)))"
    by (intro realizes_seq) simp_all
  with run_each_seq [of d j js] show ?case
    unfolding list.map all_out_Cons by (rule realizes_cong)
qed

lemma realizes_message:
  assumes "enc_ok fs h" and "h < k"
  shows "realizes (pb_encode env k fs a) m (msg_out k m fs a)"
  using assms
proof (induction k arbitrary: fs h a)
  case 0
  then show ?case by simp
next
  case (Suc k)
  from Suc.prems(1) obtain h' where h': "h = Suc h'"
    and fok: "\<And>f. f \<in> set fs \<Longrightarrow> enc_field_ok f"
    and sub: "\<And>f sub. f \<in> set fs \<Longrightarrow> ptr f = Fields sub \<Longrightarrow> enc_ok sub h'"
    by (auto elim: enc_okE)
  let ?p = "\<lambda>j. pData (iter_at fs a j)"
  let ?d = "\<lambda>j. encode_field env (pb_encode env k) k (fs ! j) (?p j)"
  let ?out = "\<lambda>j. field_out k (msg_out k m) m (fs ! j) (?p j) (?p j + size_offset (fs ! j))"
  let ?body = "\<lambda>it (ok, s, m). if \<not> ok then Ret (False, s, m)
      else if ltype (cur it) = PB_LTYPE_EXTENSION then encode_extension_field env (pb_encode env k) k (cur it) (pData it) s m
      else encode_field env (pb_encode env k) k (cur it) (pData it) s m"
  have step: "realizes (?d j) m (?out j)" if "j < nfields fs" for j
  proof -
    have mem: "fs ! j \<in> set fs" using that by (rule field_at_in)
    have "realizes (encode_basic_field (pb_encode env k) k (fs ! j) (?p j)) m (?out j)"
    proof (rule realizes_field)
      show "enc_field_ok (fs ! j)" using mem by (rule fok)
      show "realizes (pb_encode env k sb b) m (msg_out k m sb b)" if "ptr (fs ! j) = Fields sb" for sb b
        using sub [OF mem that] Suc.prems(2) h' by (intro Suc.IH) simp_all
      show "\<exists>b. pb_check_proto3_default_value k (fs ! j) (?p j) m = Ret b"
        using Suc.prems mem by (intro check_proto3_returns [of fs h]) simp_all
    qed
    then show ?thesis using fok [OF mem] by (simp add: encode_field_def enc_field_ok_def del: iter_at.simps)
  qed
  have body: "?body (iter_at fs a j) = seq_step ?d j" if "j < nfields fs" for j
    unfolding cur_iter_at [OF that] using fok [OF field_at_in [OF that]]
    by (auto simp: fun_eq_iff enc_field_ok_def simp del: iter_at.simps)
  have "pb_encode env (Suc k) fs a s m = run_each (seq_step ?d) [0..<nfields fs] (True, s, m)" for s m
  proof -
    have "run_each (\<lambda>j. ?body (iter_at fs a j)) js x = run_each (seq_step ?d) js x"
      if "\<forall>j \<in> set js. j < nfields fs" for js x
      using that body by (intro run_each_cong) auto
    from this [of "[0..<nfields fs]"] show ?thesis
      by (cases "0 < nfields fs")
        (simp_all add: encode_body_def iter_begin_at iter_do_each del: iter_at.simps)
  qed
  moreover have "realizes (\<lambda>s m. run_each (seq_step ?d) [0..<nfields fs] (True, s, m)) m (all_out (map ?out [0..<nfields fs]))"
    by (rule realizes_run_each) (simp add: step)
  ultimately show ?case
    unfolding msg_out.simps Let_def by (rule realizes_cong)
qed

section \<open>A sample message\<close>

text \<open>
  A required number and a repeated submessage of at most two entries, each holding one number;
  and an optional submessage without has-flag that holds a repeated number.
\<close>

definition point_fields :: "pb_field list" where
  "point_fields = [PbField 1 0x00 0 0 4 0 NullPtr]"

definition shape_fields :: "pb_field list" where
  "shape_fields =
     [PbField 1 0x00 0 0 4 0 NullPtr,
      PbField 2 0x27 4 (- 4) 4 2 (Fields point_fields)]"

definition series_fields :: "pb_field list" where
  "series_fields = [PbField 1 0x20 4 (- 4) 4 2 NullPtr]"

definition holder_field :: pb_field where
  "holder_field = PbField 1 0x17 0 0 12 0 (Fields series_fields)"

definition shape_memory :: mem where
  "shape_memory x = (if x = 1000 then 5 else if x = 1004 then 2 else if x = 1008 then 7 else if x = 1013 then 1 else 0)"

definition series_memory :: mem where
  "series_memory x = (if x = 1000 then 2 else if x = 1008 then 5 else 0)"

definition no_enc_callbacks :: "unit pb_enc_env" where
  "no_enc_callbacks = \<lparr>encode_fn = (\<lambda>_ s _ _ m. (False, s, m)),
     enc_ext_type = (\<lambda>_. \<lparr>ext_encode = None, enc_ext_arg = PB_LAST_FIELD\<rparr>)\<rparr>"

lemma point_ok: "enc_ok point_fields 1"
  using enc_okI [of point_fields 0]
  by (simp add: point_fields_def nfields_def enc_field_ok_def PB_LTYPE_def PB_HTYPE_def PB_ATYPE_def)

lemma shape_ok: "enc_ok shape_fields 2"
  unfolding numeral_2_eq_2
  by (rule enc_okI) (use point_ok in
    \<open>auto simp: shape_fields_def nfields_def enc_field_ok_def PB_LTYPE_def PB_HTYPE_def PB_ATYPE_def\<close>)

lemma shape_out: "msg_out 3 shape_memory shape_fields 1000 = ([8, 5, 18, 2, 8, 7, 18, 3, 8, 128, 2], True)"
  by code_simp

section \<open>What callers see\<close>

lemma buffer_stream: "pb_ostream_from_buffer n = ostream [] n 0 None"
  by (simp add: pb_ostream_from_buffer_def ostream_def)

lemma sizing_stream: "PB_OSTREAM_SIZING = sizing 0 0 None"
  by (simp add: PB_OSTREAM_SIZING_def sizing_def)

text \<open>
  C5. Encoding into a buffer. For a message of static fields whose submessages nest at most \<open>h\<close>
  deep, \<open>pb_encode\<close> with a buffer of \<open>cap\<close> bytes returns; when the format assigns the message
  memory an encoding and it fits, exactly its bytes are stored, the message is unchanged and no
  error is set; otherwise \<open>pb_encode\<close> returns false, and what it stored stays within the buffer.
\<close>
theorem pb_encode_into_buffer:
  assumes "enc_ok fs h" and "h < k" and "length (fst (msg_out k m fs a)) < 2 ^ 63" and "cap < 2 ^ 63"
  shows "if snd (msg_out k m fs a) \<and> length (fst (msg_out k m fs a)) \<le> cap
    then pb_encode env k fs a (pb_ostream_from_buffer cap) m =
      Ret (True, \<lparr>sink = Out (fst (msg_out k m fs a)), max_size = cap,
        bytes_written = length (fst (msg_out k m fs a)), oerrmsg = None\<rparr>, m)
    else \<exists>bs e. pb_encode env k fs a (pb_ostream_from_buffer cap) m =
      Ret (False, \<lparr>sink = Out bs, max_size = cap, bytes_written = length bs, oerrmsg = e\<rparr>, m) \<and>
      length bs \<le> cap"
proof -
  note r = realizes_message [OF assms(1,2), of env a m]
  show ?thesis
    using realizes_room [OF r, of 0 cap "[]"] realizes_full_ex [OF r assms(3), of 0 cap "[]"] assms(4)
    by (auto simp: buffer_stream) (auto simp: ostream_def)
qed

lemma pb_encode_into_buffer_witness:
  "pb_encode no_enc_callbacks 3 shape_fields 1000 (pb_ostream_from_buffer 16) shape_memory =
     Ret (True, \<lparr>sink = Out [8, 5, 18, 2, 8, 7, 18, 3, 8, 128, 2], max_size = 16, bytes_written = 11, oerrmsg = None\<rparr>,
       shape_memory)"
  using pb_encode_into_buffer [OF shape_ok, of 3 shape_memory 1000 16 no_enc_callbacks]
  by (simp add: shape_out)

text \<open>
  \<open>pb_get_encoded_size\<close> predicts \<open>pb_encode\<close>: it returns the length of the encoding (as a
  64-bit \<open>size_t\<close>), without touching the message, and fails exactly when no buffer, however
  large, would be filled successfully.
\<close>
theorem encoded_size_exact:
  assumes "enc_ok fs h" and "h < k"
  shows "pb_get_encoded_size env k fs a m =
    Ret (if snd (msg_out k m fs a) then Some (length (fst (msg_out k m fs a)) mod 2 ^ 64) else None, m)"
proof (cases "snd (msg_out k m fs a)")
  case True
  with realizes_sized [OF realizes_message [OF assms, of env a m], of 0 0] show ?thesis
    by (simp add: pb_get_encoded_size_def sizing_stream sizing_written)
next
  case False
  obtain n e where "pb_encode env k fs a (sizing 0 0 None) m = Ret (False, sizing 0 n e, m)"
    using realizes_sized_fail [OF realizes_message [OF assms, of env a m] False, of 0 0] by auto
  with False show ?thesis
    by (simp add: pb_get_encoded_size_def sizing_stream)
qed

lemma encoded_size_exact_witness:
  "pb_get_encoded_size no_enc_callbacks 3 shape_fields 1000 shape_memory = Ret (Some 11, shape_memory)"
  using encoded_size_exact [OF shape_ok, of 3 no_enc_callbacks 1000 shape_memory]
  by (simp add: shape_out)

text \<open>
  The length prefix of \<open>pb_encode_delimited\<close> is right: the two passes over a submessage, the
  first on a sizing stream, the second limited to the size found, produce the varint of the length
  of the message's encoding followed by that encoding.
\<close>
theorem delimited_prefix_exact:
  assumes "enc_ok fs h" and "h < k" and "msg_out k m fs a = (bs, True)" and "length bs < 2 ^ 32"
    and "length (varint_bytes (length bs) @ bs) \<le> cap" and "cap < 2 ^ 63"
  shows "pb_encode_delimited env k fs a (pb_ostream_from_buffer cap) m =
    Ret (True, \<lparr>sink = Out (varint_bytes (length bs) @ bs), max_size = cap,
      bytes_written = length (varint_bytes (length bs) @ bs), oerrmsg = None\<rparr>, m)"
proof -
  have r: "realizes (pb_encode_delimited env k fs a) m (sub_out (msg_out k m fs a))"
    unfolding pb_encode_delimited_def
    by (rule realizes_submessage) (rule realizes_message [OF assms(1,2)])
  have out: "sub_out (msg_out k m fs a) = (varint_bytes (length bs) @ bs, True)"
    using assms(4) by (simp add: assms(3) sub_out_def string_out_def varint_out_def)
  show ?thesis
    using realizes_room [OF r [unfolded out], of 0 cap "[]"] assms(5,6)
    by (simp add: buffer_stream) (simp add: ostream_def)
qed

lemma delimited_prefix_exact_witness:
  "pb_encode_delimited no_enc_callbacks 3 shape_fields 1000 (pb_ostream_from_buffer 16) shape_memory =
     Ret (True, \<lparr>sink = Out [11, 8, 5, 18, 2, 8, 7, 18, 3, 8, 128, 2], max_size = 16, bytes_written = 12, oerrmsg = None\<rparr>,
       shape_memory)"
  using delimited_prefix_exact [OF shape_ok _ shape_out, of 16 no_enc_callbacks]
  by (simp add: varint_bytes.simps)

section \<open>The proto3 rule looks at one item of a repeated field\<close>

text \<open>
  C25. An optional submessage without a has-flag is left out when the proto3 rule finds it empty,
  and the rule compares \<open>data_size\<close> bytes of every field with zero. For a repeated number those are
  the bytes of the first item: a submessage of any number of items is silently dropped when the
  first item is 0.
\<close>
theorem proto3_repeated_dropped:
  assumes f: "atype f = PB_ATYPE_STATIC" "ltype f = PB_LTYPE_SUBMESSAGE" "htype f = PB_HTYPE_OPTIONAL"
      "size_offset f = 0" "ptr f = Fields [g]"
    and g: "tag g \<noteq> 0" "atype g = PB_ATYPE_STATIC" "ltype g \<le> PB_LTYPE_LAST_PACKABLE" "htype g = PB_HTYPE_REPEATED"
    and first: "\<forall>b \<in> set (mem_read m (a + int (data_offset g)) (data_size g)). b = 0"
  shows "encode_basic_field encode (Suc (Suc k)) f a s m = Ret (True, s, m)"
proof -
  have n: "nfields [g] = 1" using g(1) by (simp add: nfields_def)
  have gi: "pb_check_proto3_default_value (Suc k) g (pData (iter_at [g] a 0)) m = Ret True"
    using g first by (auto simp: proto3_default_step_def list_all_iff pb_field_iter_begin_def Let_def field_at_def)
  have "cur (iter_at [g] a 0) = g" using cur_iter_at [of 0 "[g]" a] n by simp
  then have "pb_check_proto3_default_value (Suc (Suc k)) f a m = Ret True"
    using f n gi
    by (subst pb_check_proto3_default_value.simps)
      (simp add: proto3_default_step_def iter_begin_at iter_do_each del: iter_at.simps)
  then show ?thesis
    using f by (simp add: encode_basic_field_def Let_def eret_def del: pb_check_proto3_default_value.simps)
qed

lemma proto3_repeated_dropped_witness:
  "encode_basic_field (pb_encode no_enc_callbacks 3) 2 holder_field 1000 (pb_ostream_from_buffer 16) series_memory =
     Ret (True, pb_ostream_from_buffer 16, series_memory) \<and>
   msg_out 2 series_memory series_fields 1000 = ([10, 2, 0, 5], True)"
proof
  have "\<forall>b \<in> set (mem_read series_memory (1000 + int (data_offset (hd series_fields))) (data_size (hd series_fields))). b = 0"
    by code_simp
  then show "encode_basic_field (pb_encode no_enc_callbacks 3) 2 holder_field 1000 (pb_ostream_from_buffer 16) series_memory =
     Ret (True, pb_ostream_from_buffer 16, series_memory)"
    unfolding numeral_2_eq_2
    by (intro proto3_repeated_dropped [of _ "hd series_fields"])
      (simp_all add: holder_field_def series_fields_def PB_LTYPE_def PB_HTYPE_def PB_ATYPE_def)
  show "msg_out 2 series_memory series_fields 1000 = ([10, 2, 0, 5], True)"
    by code_simp
qed

end
