(* ===== verification/LdbCoding.thy ===== *)
theory LdbCoding
  imports Prelude
begin

text \<open>
  LevelDB, \<^verbatim>\<open>util/coding.cc\<close>, \<^verbatim>\<open>util/coding.h\<close> and \<^verbatim>\<open>leveldb/slice.h\<close>: fixed-width and
  variable-width integers, length-prefixed slices, and slices themselves. A \<open>std::string\<close> and the
  bytes a \<open>Slice\<close> refers to are byte lists; a function that appends to \<open>*dst\<close> takes the string and
  returns it; a reader of \<open>[p, limit)\<close> or of \<open>*input\<close> takes the bytes and returns the value with
  the bytes behind it, or \<open>None\<close> where the code returns NULL or false. The lemmas state the wire
  formats; each writer and reader form a \<open>codec\<close>.
\<close>

section \<open>Fixed-width integers\<close>

text \<open>On a little-endian machine the code copies the word instead, which stores the same bytes.\<close>

definition EncodeFixed32 :: "32 word \<Rightarrow> bytes" where
  "EncodeFixed32 value =
     [ucast (value AND 0xFF), ucast (drop_bit 8 value AND 0xFF),
      ucast (drop_bit 16 value AND 0xFF), ucast (drop_bit 24 value AND 0xFF)]"

definition EncodeFixed64 :: "64 word \<Rightarrow> bytes" where
  "EncodeFixed64 value =
     [ucast (value AND 0xFF), ucast (drop_bit 8 value AND 0xFF),
      ucast (drop_bit 16 value AND 0xFF), ucast (drop_bit 24 value AND 0xFF),
      ucast (drop_bit 32 value AND 0xFF), ucast (drop_bit 40 value AND 0xFF),
      ucast (drop_bit 48 value AND 0xFF), ucast (drop_bit 56 value AND 0xFF)]"

definition PutFixed32 :: "bytes \<Rightarrow> 32 word \<Rightarrow> bytes" where
  "PutFixed32 dst value = dst @ EncodeFixed32 value"

definition PutFixed64 :: "bytes \<Rightarrow> 64 word \<Rightarrow> bytes" where
  "PutFixed64 dst value = dst @ EncodeFixed64 value"

text \<open>The readers are called with at least four or eight bytes behind the pointer.\<close>

definition DecodeFixed32 :: "bytes \<Rightarrow> 32 word" where
  "DecodeFixed32 p =
     ((ucast (p ! 0) OR push_bit 8 (ucast (p ! 1))) OR push_bit 16 (ucast (p ! 2))) OR
       push_bit 24 (ucast (p ! 3))"

definition DecodeFixed64 :: "bytes \<Rightarrow> 64 word" where
  "DecodeFixed64 p =
     (let lo = ucast (DecodeFixed32 p); hi = ucast (DecodeFixed32 (drop 4 p)) in push_bit 32 hi OR lo)"

section \<open>Variable-width integers\<close>

definition EncodeVarint32 :: "32 word \<Rightarrow> bytes" where
  "EncodeVarint32 v =
     (if v < 0x80 then [ucast v]
      else if v < 0x4000 then [ucast (v OR 128), ucast (drop_bit 7 v)]
      else if v < 0x200000 then [ucast (v OR 128), ucast (drop_bit 7 v OR 128), ucast (drop_bit 14 v)]
      else if v < 0x10000000 then
        [ucast (v OR 128), ucast (drop_bit 7 v OR 128), ucast (drop_bit 14 v OR 128), ucast (drop_bit 21 v)]
      else
        [ucast (v OR 128), ucast (drop_bit 7 v OR 128), ucast (drop_bit 14 v OR 128),
         ucast (drop_bit 21 v OR 128), ucast (drop_bit 28 v)])"

definition PutVarint32 :: "bytes \<Rightarrow> 32 word \<Rightarrow> bytes" where
  "PutVarint32 dst v = dst @ EncodeVarint32 v"

lemma drop_7_less: "128 \<le> (v :: 64 word) \<Longrightarrow> unat (drop_bit 7 v) < unat v"
  by (simp add: unat_drop_bit word_le_nat_alt)

function EncodeVarint64 :: "64 word \<Rightarrow> bytes" where
  "EncodeVarint64 v =
     (if 128 \<le> v then ucast ((v AND 127) OR 128) # EncodeVarint64 (drop_bit 7 v) else [ucast v])"
  by pat_completeness auto
termination by (relation "measure unat") (use drop_7_less in simp_all)

declare EncodeVarint64.simps [simp del]

definition PutVarint64 :: "bytes \<Rightarrow> 64 word \<Rightarrow> bytes" where
  "PutVarint64 dst v = dst @ EncodeVarint64 v"

definition PutLengthPrefixedSlice :: "bytes \<Rightarrow> bytes \<Rightarrow> bytes" where
  "PutLengthPrefixedSlice dst value = PutVarint32 dst (of_nat (length value)) @ value"

function VarintLength_loop :: "64 word \<Rightarrow> nat \<Rightarrow> nat" where
  "VarintLength_loop v len = (if 128 \<le> v then VarintLength_loop (drop_bit 7 v) (Suc len) else len)"
  by pat_completeness auto
termination by (relation "measure (\<lambda>(v, _). unat v)") (use drop_7_less in simp_all)

declare VarintLength_loop.simps [simp del]

definition VarintLength :: "64 word \<Rightarrow> nat" where
  "VarintLength v = VarintLength_loop v 1"

text \<open>The loop of the two readers, which differ in the width and the last_shift shift.\<close>

function varint_ptr_loop :: "nat \<Rightarrow> nat \<Rightarrow> 'a::len word \<Rightarrow> bytes \<Rightarrow> ('a word \<times> bytes) option" where
  "varint_ptr_loop last_shift shift result p =
     (if shift \<le> last_shift \<and> p \<noteq> [] then
        let byte = ucast (hd p) :: 'a word in
        if byte AND 128 \<noteq> 0
        then varint_ptr_loop last_shift (shift + 7) (result OR push_bit shift (byte AND 127)) (tl p)
        else Some (result OR push_bit shift byte, tl p)
      else None)"
  by pat_completeness auto
termination by (relation "measure (\<lambda>(_, _, _, p). length p)") auto

declare varint_ptr_loop.simps [simp del]

definition GetVarint32PtrFallback :: "bytes \<Rightarrow> (32 word \<times> bytes) option" where
  "GetVarint32PtrFallback p = varint_ptr_loop 28 0 0 p"

definition GetVarint32Ptr :: "bytes \<Rightarrow> (32 word \<times> bytes) option" where
  "GetVarint32Ptr p =
     (if p \<noteq> [] \<and> (ucast (hd p) :: 32 word) AND 128 = 0 then Some (ucast (hd p), tl p)
      else GetVarint32PtrFallback p)"

definition GetVarint32 :: "bytes \<Rightarrow> (32 word \<times> bytes) option" where
  "GetVarint32 input = GetVarint32Ptr input"

definition GetVarint64Ptr :: "bytes \<Rightarrow> (64 word \<times> bytes) option" where
  "GetVarint64Ptr p = varint_ptr_loop 63 0 0 p"

definition GetVarint64 :: "bytes \<Rightarrow> (64 word \<times> bytes) option" where
  "GetVarint64 input = GetVarint64Ptr input"

text \<open>
  The pointer form compares \<open>p + len\<close> with \<open>limit\<close>, the slice form the remaining size with
  \<open>len\<close>: the same test as long as \<open>p + len\<close> is an address.
\<close>

definition GetLengthPrefixedSlicePtr :: "bytes \<Rightarrow> (bytes \<times> bytes) option" where
  "GetLengthPrefixedSlicePtr p =
     (case GetVarint32Ptr p of
        None \<Rightarrow> None
      | Some (len, p) \<Rightarrow>
          if length p < unat len then None else Some (take (unat len) p, drop (unat len) p))"

definition GetLengthPrefixedSlice :: "bytes \<Rightarrow> (bytes \<times> bytes) option" where
  "GetLengthPrefixedSlice input =
     (case GetVarint32 input of
        None \<Rightarrow> None
      | Some (len, input) \<Rightarrow>
          if unat len \<le> length input then Some (take (unat len) input, drop (unat len) input) else None)"

section \<open>Slices\<close>

text \<open>Of the result of \<open>memcmp\<close> only the sign is specified and only the sign is used.\<close>

fun memcmp :: "bytes \<Rightarrow> bytes \<Rightarrow> nat \<Rightarrow> int" where
  "memcmp (a # as) (b # bs) (Suc n) =
     (if a < b then - 1 else if b < a then 1 else memcmp as bs n)"
| "memcmp _ _ _ = 0"

definition slice_compare :: "bytes \<Rightarrow> bytes \<Rightarrow> int" where
  "slice_compare a b =
     (let min_len = (if length a < length b then length a else length b);
          r = memcmp a b min_len in
      if r = 0 then (if length a < length b then - 1 else if length b < length a then 1 else r) else r)"

definition slice_eq :: "bytes \<Rightarrow> bytes \<Rightarrow> bool" where
  "slice_eq x y \<longleftrightarrow> length x = length y \<and> memcmp x y (length x) = 0"

definition starts_with :: "bytes \<Rightarrow> bytes \<Rightarrow> bool" where
  "starts_with s x \<longleftrightarrow> length x \<le> length s \<and> memcmp s x (length x) = 0"

section \<open>The formats\<close>

lemma unat_of_nat_32: "n < 2 ^ 32 \<Longrightarrow> unat (of_nat n :: 32 word) = n"
  by (simp add: unat_of_nat)

lemma unat_of_nat_64: "n < 2 ^ 64 \<Longrightarrow> unat (of_nat n :: 64 word) = n"
  by (simp add: unat_of_nat)

lemma EncodeFixed32_le: "EncodeFixed32 v = le_bytes 4 (unat v)"
  unfolding EncodeFixed32_def by (rule shifted_bytes_32)

lemma EncodeFixed64_le: "EncodeFixed64 v = le_bytes 8 (unat v)"
  unfolding EncodeFixed64_def by (rule shifted_bytes_64)

lemma length_EncodeFixed [simp]: "length (EncodeFixed32 v) = 4" "length (EncodeFixed64 w) = 8"
  by (simp_all add: EncodeFixed32_def EncodeFixed64_def)

lemma list_4_cases: "4 \<le> length p \<Longrightarrow> \<exists>a b c d r. p = a # b # c # d # r"
  by (cases p; cases "tl p"; cases "tl (tl p)"; cases "tl (tl (tl p))") auto

lemma DecodeFixed32_le:
  assumes "4 \<le> length p"
  shows "DecodeFixed32 p = of_nat (le_nat (take 4 p))"
proof -
  obtain a b c d r where p: "p = a # b # c # d # r" using list_4_cases [OF assms] by blast
  have "DecodeFixed32 p = or_bytes 0 0 [a, b, c, d]"
    by (simp add: DecodeFixed32_def p)
  then show ?thesis by (simp only: or_bytes_0) (simp add: p)
qed

lemma le_nat_append: "le_nat (xs @ ys) = le_nat xs + 256 ^ length xs * le_nat ys"
  by (induction xs) (simp_all add: algebra_simps)

lemma ucast_word32_64: "n < 2 ^ 32 \<Longrightarrow> (ucast (of_nat n :: 32 word) :: 64 word) = of_nat n"
  by (simp add: word_unat_eq_iff unsigned_ucast_eq unat_of_nat take_bit_eq_mod)

lemma DecodeFixed64_le:
  assumes "8 \<le> length p"
  shows "DecodeFixed64 p = of_nat (le_nat (take 8 p))"
proof -
  have bound: "le_nat (take 4 p) < 2 ^ 32" "le_nat (take 4 (drop 4 p)) < 2 ^ 32"
    using le_nat_bound [of "take 4 p"] le_nat_bound [of "take 4 (drop 4 p)"] assms by simp_all
  have lo: "ucast (DecodeFixed32 p) = (of_nat (le_nat (take 4 p)) :: 64 word)"
    using DecodeFixed32_le [of p] ucast_word32_64 [OF bound(1)] assms by simp
  have hi: "ucast (DecodeFixed32 (drop 4 p)) = (of_nat (le_nat (take 4 (drop 4 p))) :: 64 word)"
    using DecodeFixed32_le [of "drop 4 p"] ucast_word32_64 [OF bound(2)] assms by simp
  have "unat (of_nat (le_nat (take 4 p)) :: 64 word) < 2 ^ 32"
    using bound(1) by (simp add: unat_of_nat)
  then have "of_nat (le_nat (take 4 p)) OR push_bit 32 (of_nat (le_nat (take 4 (drop 4 p)))) =
      (of_nat (le_nat (take 4 p)) + push_bit 32 (of_nat (le_nat (take 4 (drop 4 p)))) :: 64 word)"
    by (rule or_push_bit_add)
  moreover have "take 8 p = take 4 p @ take 4 (drop 4 p)"
    using take_add [of 4 4 p] by simp
  ultimately show ?thesis
    using assms by (simp add: DecodeFixed64_def lo hi or.commute le_nat_append push_bit_eq_mult)
qed

lemma unat_word_le_exp: "unat (v :: 'a::len word) < 2 ^ LENGTH('a)"
  by (rule unsigned_less)

lemma varint_group_mod: "((n::nat) mod 128 + 128) mod 256 = n mod 128 + 128"
  using mod_less_divisor [of 128 n] by (intro mod_less) linarith
lemma EncodeVarint64_bytes: "EncodeVarint64 v = varint_bytes (unat v)"
proof (induction v rule: EncodeVarint64.induct)
  case (1 v)
  show ?case
  proof (cases "128 \<le> v")
    case True
    then have big: "128 \<le> unat v" by (simp add: word_le_nat_alt)
    have "unat ((v AND 127) OR 128) = (unat v AND 127) OR 128"
      by (simp add: unsigned_or_eq unsigned_and_eq)
    then have "unat (ucast ((v AND 127) OR 128) :: 8 word) = unat v mod 128 + 128"
      by (simp only: unat_ucast_byte nat_or_128 nat_and_127 mod_mod_trivial)
    then have "(ucast ((v AND 127) OR 128) :: 8 word) = of_nat (unat v mod 128 + 128)"
      by (simp only: word_unat_eq_iff unat_of_nat_byte varint_group_mod)
    with 1 True big show ?thesis
      by (subst EncodeVarint64.simps) (simp add: varint_bytes_big unat_drop_bit)
  next
    case False
    then have "unat v < 128" by (simp add: word_le_nat_alt)
    with False show ?thesis
      by (subst EncodeVarint64.simps) (simp add: varint_bytes_small of_nat_unat)
  qed
qed


text \<open>The chain of tests of \<open>EncodeVarint32\<close> is the loop of \<open>EncodeVarint64\<close>, unrolled.\<close>

lemma or_128_byte: "(ucast ((v :: 32 word) OR 128) :: 8 word) = of_nat (unat v mod 128 + 128)"
proof -
  have "unat (v OR 128) = unat v OR 128" by (simp add: unsigned_or_eq)
  then have "unat (ucast (v OR 128) :: 8 word) = unat v mod 128 + 128"
    by (simp only: unat_ucast_byte nat_or_128)
  then show ?thesis by (simp only: simp_thms word_unat_eq_iff unat_of_nat_byte varint_group_mod)
qed
lemma ucast_byte: "(ucast (drop_bit k (v::32 word)) :: 8 word) = of_nat (unat v div 2 ^ k)"
  by (simp add: word_unat_eq_iff unat_ucast_byte unat_drop_bit)
lemma EncodeVarint32_bytes: "EncodeVarint32 v = varint_bytes (unat v)"
proof -
  let ?n = "unat v"
  have n: "?n < 4294967296" using unsigned_less [of v, where ?'a = nat] by simp
  have lt: "v < 0x80 \<longleftrightarrow> ?n < 128" "v < 0x4000 \<longleftrightarrow> ?n < 16384" "v < 0x200000 \<longleftrightarrow> ?n < 2097152"
    "v < 0x10000000 \<longleftrightarrow> ?n < 268435456" by (simp_all add: word_less_nat_alt)
  have b0: "(ucast v :: 8 word) = of_nat ?n" by (simp add: of_nat_unat)
  have small: "varint_bytes m = [of_nat m]" if "m < 128" for m using that by (rule varint_bytes_small)
  have big: "varint_bytes m = of_nat (m mod 128 + 128) # varint_bytes (m div 128)" if "\<not> m < 128" for m
    using that by (intro varint_bytes_big) simp
  consider "?n < 128" | "\<not> ?n < 128" "?n < 16384" | "\<not> ?n < 128" "\<not> ?n < 16384" "?n < 2097152"
    | "\<not> ?n < 128" "\<not> ?n < 16384" "\<not> ?n < 2097152" "?n < 268435456"
    | "\<not> ?n < 128" "\<not> ?n < 16384" "\<not> ?n < 2097152" "\<not> ?n < 268435456" by blast
  then show ?thesis
  proof cases
    case 1 then show ?thesis by (simp only: EncodeVarint32_def simp_thms lt if_True b0 small)
  next
    case 2
    then have "?n div 128 < 128" by (simp add: div_less_iff_less_mult)
    with 2 have "varint_bytes ?n = [of_nat (?n mod 128 + 128), of_nat (?n div 128)]"
      by (simp only: simp_thms big [of ?n] small [of "?n div 128"])
    with 2 show ?thesis
      by (simp only: EncodeVarint32_def simp_thms lt if_True if_False or_128_byte ucast_byte) simp
  next
    case 3
    then have "\<not> ?n div 128 < 128" "?n div 128 div 128 < 128" by (simp_all add: div_less_iff_less_mult)
    with 3 show ?thesis
      by (simp only: EncodeVarint32_def simp_thms lt if_True if_False big [of ?n] big [of "?n div 128"] small or_128_byte ucast_byte)
        (simp add: unat_drop_bit div_mult2_eq [symmetric])
  next
    case 4
    then have "\<not> ?n div 128 < 128" "\<not> ?n div 128 div 128 < 128" "?n div 128 div 128 div 128 < 128"
      by (simp_all add: div_less_iff_less_mult)
    with 4 show ?thesis
      by (simp only: EncodeVarint32_def simp_thms lt if_True if_False big [of ?n] big [of "?n div 128"] big [of "?n div 128 div 128"] small or_128_byte ucast_byte)
        (simp add: unat_drop_bit div_mult2_eq [symmetric])
  next
    case 5
    then have "\<not> ?n div 128 < 128" "\<not> ?n div 128 div 128 < 128" "\<not> ?n div 128 div 128 div 128 < 128"
       "?n div 128 div 128 div 128 div 128 < 128"
      using n by (simp_all add: div_less_iff_less_mult)
    with 5 show ?thesis
      by (simp only: EncodeVarint32_def simp_thms lt if_True if_False big [of ?n] big [of "?n div 128"] big [of "?n div 128 div 128"]
          big [of "?n div 128 div 128 div 128"] small or_128_byte ucast_byte)
        (simp add: unat_drop_bit div_mult2_eq [symmetric])
  qed
qed
lemma VarintLength_loop_bytes: "Suc (VarintLength_loop v len) = len + length (varint_bytes (unat v))"
proof (induction v len rule: VarintLength_loop.induct)
  case (1 v len)
  show ?case
  proof (cases "128 \<le> v")
    case True
    then have "128 \<le> unat v" by (simp add: word_le_nat_alt)
    with 1 True show ?thesis
      by (subst VarintLength_loop.simps) (simp add: varint_bytes_big unat_drop_bit)
  next
    case False
    then have "unat v < 128" by (simp add: word_le_nat_alt)
    with False show ?thesis
      by (subst VarintLength_loop.simps) (simp add: varint_bytes_small)
  qed
qed

lemma VarintLength_bytes: "VarintLength v = length (varint_bytes (unat v))"
  using VarintLength_loop_bytes [of v 1] by (simp add: VarintLength_def)

section \<open>Readers\<close>

lemma byte_word_and:
  fixes b :: "8 word"
  assumes "8 \<le> LENGTH('a)"
  shows "(ucast b :: 'a::len word) AND 127 = ucast (b AND 127)"
    and "((ucast b :: 'a word) AND 128 = 0) = (unat b < 128)"
    and "unat b < 128 \<Longrightarrow> (ucast b :: 'a word) = ucast (b AND 127)"
proof -
  have mask: "(127 :: 'a word) = mask 7" "(127 :: 8 word) = mask 7"
    by (simp_all add: mask_eq_exp_minus_1)
  have high: "(128 :: 'a word) = push_bit 7 1" "(128 :: 8 word) = push_bit 7 1"
    by (simp_all add: push_bit_eq_mult)
  show "(ucast b :: 'a word) AND 127 = ucast (b AND 127)"
    unfolding mask by (rule bit_word_eqI) (auto simp: bit_simps)
  have "bit (ucast b :: 'a word) 7 = bit b 7"
    using assms by (simp add: bit_ucast_iff)
  then have "((ucast b :: 'a word) AND 128 = 0) = (b AND 128 = 0)"
    unfolding high by (metis bit_iff_and_push_bit_not_eq_0)
  then show "((ucast b :: 'a word) AND 128 = 0) = (unat b < 128)"
    by (simp only: byte_and_128_eq_0)
  assume "unat b < 128"
  then have "n < 7" if "bit b n" for n
    using that bit_word_below [of b 7 n] by (cases "n < 7") auto
  then show "(ucast b :: 'a word) = ucast (b AND 127)"
    unfolding mask by (intro bit_word_eqI) (fastforce simp: bit_simps)
qed

lemma varint_ptr_loop_parse:
  fixes r :: "'a::len word"
  assumes "8 \<le> LENGTH('a)" and "unat r < 2 ^ (7 * j)" and "j + k = n" and "7 * n - 7 \<le> last_shift" and "last_shift < 7 * n"
  shows "varint_ptr_loop last_shift (7 * j) r p =
    map_option (\<lambda>(v, rest). (r + of_nat v * 2 ^ (7 * j), rest)) (varint_parse k p)"
  using assms(2,3)
proof (induction k arbitrary: j r p)
  case 0
  with assms(5) show ?case by (subst varint_ptr_loop.simps) simp
next
  case (Suc k)
  show ?case
  proof (cases p)
    case Nil
    then show ?thesis by (subst varint_ptr_loop.simps) simp
  next
    case (Cons b bs)
    note byte = byte_word_and [OF assms(1), of b]
    let ?r = "r OR push_bit (7 * j) (ucast (b AND 127))"
    have r: "?r = r + of_nat (unat b mod 128) * 2 ^ (7 * j)"
      using Suc.prems(1) by (rule or_varint_group)
    have "7 * j \<le> last_shift" using Suc.prems(2) assms(4) by linarith
    then have step: "varint_ptr_loop last_shift (7 * j) r p =
        (if unat b < 128 then Some (?r, bs) else varint_ptr_loop last_shift (7 * Suc j) ?r bs)"
      using Cons byte by (subst varint_ptr_loop.simps) (simp add: Let_def add.commute)
    show ?thesis
    proof (cases "unat b < 128")
      case True
      then show ?thesis by (simp only: step r if_True) (simp add: Cons)
    next
      case False
      have "unat ?r < 2 ^ (7 * Suc j)"
        using varint_group_bound [OF Suc.prems(1), of b] by (simp add: add.commute)
      then have "varint_ptr_loop last_shift (7 * Suc j) ?r bs =
          map_option (\<lambda>(v, rest). (?r + of_nat v * 2 ^ (7 * Suc j), rest)) (varint_parse k bs)"
        using Suc.prems(2) by (intro Suc.IH) simp_all
      then show ?thesis
        using False unfolding step r
        by (simp add: Cons power_add algebra_simps option.map_comp comp_def case_prod_unfold)
    qed
  qed
qed

lemma GetVarint64_parse: "GetVarint64 p = map_option (\<lambda>(v, rest). (of_nat v, rest)) (varint_parse 10 p)"
  using varint_ptr_loop_parse [of "0 :: 64 word" 0 10 10 63 p] by (simp add: GetVarint64_def GetVarint64Ptr_def)

text \<open>The fast path of \<open>GetVarint32Ptr\<close> returns what the loop returns.\<close>

lemma GetVarint32_parse: "GetVarint32 p = map_option (\<lambda>(v, rest). (of_nat v, rest)) (varint_parse 5 p)"
proof -
  have "GetVarint32PtrFallback p = map_option (\<lambda>(v, rest). (of_nat v, rest)) (varint_parse 5 p)"
    using varint_ptr_loop_parse [of "0 :: 32 word" 0 5 5 28 p] by (simp add: GetVarint32PtrFallback_def)
  moreover have "varint_parse 5 p = Some (unat (hd p), tl p)"
    if "p \<noteq> []" "(ucast (hd p) :: 32 word) AND 128 = 0"
    using that byte_word_and(2) [where 'a = 32, of "hd p"]
    by (cases p) (simp_all add: numeral_eq_Suc)
  ultimately show ?thesis
    by (simp add: GetVarint32_def GetVarint32Ptr_def of_nat_unat)
qed

text \<open>Writers and readers as codecs.\<close>

lemma unat_word32_varint: "unat (v :: 32 word) < 128 ^ 5"
  using unsigned_less [of v, where ?'a = nat] by simp

lemma unat_word64_varint: "unat (v :: 64 word) < 128 ^ 10"
  using unsigned_less [of v, where ?'a = nat] by simp

interpretation ldb_varint32: codec EncodeVarint32 GetVarint32 "\<lambda>_. True"
proof
  fix x :: "32 word" and rest
  show "GetVarint32 (EncodeVarint32 x @ rest) = Some (x, rest)"
    using varint_parse_bytes [OF unat_word32_varint [of x]]
    by (simp add: GetVarint32_parse EncodeVarint32_bytes)
qed

interpretation ldb_varint64: codec EncodeVarint64 GetVarint64 "\<lambda>_. True"
proof
  fix x :: "64 word" and rest
  show "GetVarint64 (EncodeVarint64 x @ rest) = Some (x, rest)"
    using varint_parse_bytes [OF unat_word64_varint [of x]]
    by (simp add: GetVarint64_parse EncodeVarint64_bytes)
qed

lemma DecodeFixed32_Encode [simp]: "DecodeFixed32 (EncodeFixed32 v @ rest) = v"
  using unsigned_less [of v, where ?'a = nat]
  by (simp add: DecodeFixed32_le EncodeFixed32_le le_nat_le_bytes del: le_bytes_numeral)

lemma DecodeFixed64_Encode [simp]: "DecodeFixed64 (EncodeFixed64 v @ rest) = v"
  using unsigned_less [of v, where ?'a = nat]
  by (simp add: DecodeFixed64_le EncodeFixed64_le le_nat_le_bytes del: le_bytes_numeral)

text \<open>Arrays of fixed32 numbers, as blocks and filter blocks end with.\<close>

definition fixed32_array :: "32 word list \<Rightarrow> bytes" where
  "fixed32_array ws = concat (map EncodeFixed32 ws)"

lemma fixed32_array_simps [simp]:
  "fixed32_array [] = []"
  "fixed32_array (w # ws) = EncodeFixed32 w @ fixed32_array ws"
  "fixed32_array (vs @ ws) = fixed32_array vs @ fixed32_array ws"
  by (simp_all add: fixed32_array_def)

lemma length_fixed32_array [simp]: "length (fixed32_array ws) = 4 * length ws"
  by (induction ws) simp_all

lemma fold_PutFixed32: "fold (\<lambda>w dst. PutFixed32 dst w) ws dst = dst @ fixed32_array ws"
  by (induction ws arbitrary: dst) (simp_all add: PutFixed32_def)

lemma DecodeFixed32_array:
  "i < length ws \<Longrightarrow> DecodeFixed32 (drop (4 * i) (fixed32_array ws @ rest)) = ws ! i"
proof (induction ws arbitrary: i)
  case (Cons w ws)
  then show ?case by (cases i) simp_all
qed simp

text \<open>A fixed-width integer at the front of a slice, as the callers read it.\<close>

definition take_fixed32 :: "bytes \<Rightarrow> (32 word \<times> bytes) option" where
  "take_fixed32 p = (if length p < 4 then None else Some (DecodeFixed32 p, drop 4 p))"

definition take_fixed64 :: "bytes \<Rightarrow> (64 word \<times> bytes) option" where
  "take_fixed64 p = (if length p < 8 then None else Some (DecodeFixed64 p, drop 8 p))"

interpretation ldb_fixed32: codec EncodeFixed32 take_fixed32 "\<lambda>_. True"
  by unfold_locales (simp add: take_fixed32_def)

interpretation ldb_fixed64: codec EncodeFixed64 take_fixed64 "\<lambda>_. True"
  by unfold_locales (simp add: take_fixed64_def)

lemma PutLengthPrefixedSlice_append: "PutLengthPrefixedSlice dst s = dst @ PutLengthPrefixedSlice [] s"
  by (simp add: PutLengthPrefixedSlice_def PutVarint32_def)

interpretation ldb_slice: codec "PutLengthPrefixedSlice []" GetLengthPrefixedSlice "\<lambda>s. length s < 2 ^ 32"
proof
  fix x rest :: bytes
  assume "length x < 2 ^ 32"
  then have "unat (of_nat (length x) :: 32 word) = length x" by (simp add: unat_of_nat)
  then show "GetLengthPrefixedSlice (PutLengthPrefixedSlice [] x @ rest) = Some (x, rest)"
    by (simp add: GetLengthPrefixedSlice_def PutLengthPrefixedSlice_def PutVarint32_def ldb_varint32.dec_enc)
qed

lemma GetLengthPrefixedSlice_ptr: "GetLengthPrefixedSlicePtr p = GetLengthPrefixedSlice p"
  by (simp add: GetLengthPrefixedSlicePtr_def GetLengthPrefixedSlice_def GetVarint32_def
      not_le split: option.split prod.split)

lemma GetVarint32_shorter: "GetVarint32 p = Some (v, rest) \<Longrightarrow> length rest < length p"
  by (auto simp: GetVarint32_parse dest: varint_parse_consumes)

lemma GetVarint64_shorter: "GetVarint64 p = Some (v, rest) \<Longrightarrow> length rest < length p"
  by (auto simp: GetVarint64_parse dest: varint_parse_consumes)

lemma GetLengthPrefixedSlice_shorter:
  "GetLengthPrefixedSlice p = Some (s, rest) \<Longrightarrow> length rest < length p"
  by (auto simp: GetLengthPrefixedSlice_def dest!: GetVarint32_shorter split: option.splits if_splits)

text \<open>
  Sequences of variable-width integers written one after another are read back exactly, and the
  reader stops where the writer stopped. \<open>VarintLength\<close> is the number of bytes written.
\<close>
theorem ldb_varint_roundtrip:
  "decode_many GetVarint32 (length vs) (concat (map EncodeVarint32 vs) @ rest) = Some (vs, rest) \<and>
   decode_many GetVarint64 (length ws) (concat (map EncodeVarint64 ws) @ rest) = Some (ws, rest) \<and>
   VarintLength w = length (EncodeVarint64 w) \<and> VarintLength w \<le> 10"
  using length_varint_bytes [OF unat_word64_varint, of w]
  by (auto simp: VarintLength_bytes EncodeVarint64_bytes list_all_iff
      intro: ldb_varint32.decode_many_concat ldb_varint64.decode_many_concat)

text \<open>
  Length-prefixed slices shorter than 4 GiB written one after another are read back exactly.
\<close>
theorem ldb_slices_roundtrip:
  assumes "\<forall>s \<in> set ss. length s < 2 ^ 32"
  shows "decode_many GetLengthPrefixedSlice (length ss)
    (fold (\<lambda>s dst. PutLengthPrefixedSlice dst s) ss [] @ rest) = Some (ss, rest)"
proof -
  have "fold (\<lambda>s dst. PutLengthPrefixedSlice dst s) ss dst = dst @ concat (map (PutLengthPrefixedSlice []) ss)" for dst
  proof (induction ss arbitrary: dst)
    case (Cons s ss)
    show ?case using Cons PutLengthPrefixedSlice_append [of dst s] by simp
  qed simp
  then show ?thesis
    using assms by (simp add: ldb_slice.decode_many_concat list_all_iff)
qed

theorem ldb_slices_roundtrip_witness:
  "decode_many GetLengthPrefixedSlice (length [[1, 2, 3], [] :: bytes])
    (fold (\<lambda>s dst. PutLengthPrefixedSlice dst s) [[1, 2, 3], []] [] @ [9]) = Some ([[1, 2, 3], []], [9])"
proof -
  have "\<forall>s \<in> set [[1, 2, 3], [] :: bytes]. length s < 2 ^ 32" by simp
  then show ?thesis by (rule ldb_slices_roundtrip)
qed

section \<open>The order of slices\<close>

lemma memcmp_sym: "memcmp b a n = - memcmp a b n"
  by (induction a b n rule: memcmp.induct) auto

lemma memcmp_zero:
  "n \<le> length a \<Longrightarrow> n \<le> length b \<Longrightarrow> memcmp a b n = 0 \<longleftrightarrow> take n a = take n b"
  by (induction a b n rule: memcmp.induct) auto

lemma slice_eq_iff: "slice_eq x y \<longleftrightarrow> x = y"
  using memcmp_zero [of "length x" x y] by (auto simp: slice_eq_def)

lemma starts_with_iff: "starts_with s x \<longleftrightarrow> (\<exists>r. s = x @ r)"
proof -
  have "length x \<le> length s \<and> take (length x) s = x \<longleftrightarrow> (\<exists>r. s = x @ r)"
    by (metis append_take_drop_id append_eq_conv_conj length_append le_add1)
  then show ?thesis
    using memcmp_zero [of "length x" s x] by (auto simp: starts_with_def)
qed

text \<open>\<open>Slice::compare\<close> walks the two strings at once.\<close>

lemma slice_compare_simps [simp]:
  "slice_compare [] [] = 0"
  "slice_compare (a # as) [] = 1"
  "slice_compare [] (b # bs) = - 1"
  "slice_compare (a # as) (b # bs) = (if a < b then - 1 else if b < a then 1 else slice_compare as bs)"
  by (auto simp: slice_compare_def Let_def)

lemma slice_compare_lexordp: "slice_compare a b < 0 \<longleftrightarrow> ord_class.lexordp a b"
  by (induction a b rule: list_induct2') auto

lemma slice_compare_zero: "slice_compare a b = 0 \<longleftrightarrow> a = b"
  by (induction a b rule: list_induct2') auto

lemma slice_compare_sym: "slice_compare b a = - slice_compare a b"
  by (induction a b rule: list_induct2') auto

lemma slice_compare_trans: "slice_compare a b < 0 \<Longrightarrow> slice_compare b c < 0 \<Longrightarrow> slice_compare a c < 0"
  unfolding slice_compare_lexordp by (rule lexordp_trans)

end
