(* ===== verification/LdbComparator.thy ===== *)
theory LdbComparator
  imports LdbCoding
begin

text \<open>
  LevelDB, \<^verbatim>\<open>leveldb/comparator.h\<close> and \<^verbatim>\<open>util/comparator.cc\<close>: the comparator
  interface as a record of the three virtual functions, the contract of \<^verbatim>\<open>comparator.h\<close> as
  a locale, and the bytewise comparator, which meets it. The user's own comparator is a parameter
  of everything built on top.
\<close>

record Comparator =
  Compare :: "bytes \<Rightarrow> bytes \<Rightarrow> int"
  FindShortestSeparator :: "bytes \<Rightarrow> bytes \<Rightarrow> bytes"
  FindShortSuccessor :: "bytes \<Rightarrow> bytes"

section \<open>The contract\<close>

text \<open>
  \<open>Compare\<close> is a total preorder on the keys that occur (\<open>ok\<close>), of which only the sign matters;
  a separator of \<open>start < limit\<close> lies in \<open>[start, limit)\<close>, and nothing is changed otherwise; a
  successor is not before the key.
\<close>

locale key_order =
  fixes cmp :: "'k \<Rightarrow> 'k \<Rightarrow> int" and ok :: "'k \<Rightarrow> bool"
  assumes compare_swap: "ok a \<Longrightarrow> ok b \<Longrightarrow> cmp b a \<le> 0 \<longleftrightarrow> 0 \<le> cmp a b"
    and compare_trans: "ok a \<Longrightarrow> ok b \<Longrightarrow> ok d \<Longrightarrow> cmp a b \<le> 0 \<Longrightarrow> cmp b d \<le> 0 \<Longrightarrow> cmp a d \<le> 0"
begin

lemma compare_pos: "ok a \<Longrightarrow> ok b \<Longrightarrow> 0 < cmp a b \<longleftrightarrow> cmp b a < 0"
  using compare_swap [of a b] compare_swap [of b a] by linarith

lemma compare_zero: "ok a \<Longrightarrow> ok b \<Longrightarrow> cmp a b = 0 \<longleftrightarrow> cmp b a = 0"
  using compare_swap [of a b] compare_swap [of b a] by linarith

lemma compare_refl: "ok a \<Longrightarrow> cmp a a = 0"
  using compare_swap [of a a] by linarith

lemma lt_trans_le: "ok a \<Longrightarrow> ok b \<Longrightarrow> ok d \<Longrightarrow> cmp a b < 0 \<Longrightarrow> cmp b d \<le> 0 \<Longrightarrow> cmp a d < 0"
  using compare_trans [of a b d] compare_trans [of b d a] compare_swap [of a b] compare_swap [of a d]
    compare_swap [of d a]
  by linarith

lemma le_trans_lt: "ok a \<Longrightarrow> ok b \<Longrightarrow> ok d \<Longrightarrow> cmp a b \<le> 0 \<Longrightarrow> cmp b d < 0 \<Longrightarrow> cmp a d < 0"
  using compare_trans [of a b d] compare_trans [of d a b] compare_swap [of b d] compare_swap [of d b]
    compare_swap [of a d] compare_swap [of d a]
  by linarith

lemma lt_trans: "ok a \<Longrightarrow> ok b \<Longrightarrow> ok d \<Longrightarrow> cmp a b < 0 \<Longrightarrow> cmp b d < 0 \<Longrightarrow> cmp a d < 0"
  using lt_trans_le [of a b d] by simp

end

text \<open>The contract of the interface adds what is promised of separators and successors.\<close>

locale comparator = key_order "Compare c" ok for c :: Comparator and ok :: "bytes \<Rightarrow> bool" +
  assumes separator: "ok a \<Longrightarrow> ok b \<Longrightarrow> Compare c a b < 0 \<Longrightarrow>
      ok (FindShortestSeparator c a b) \<and>
      Compare c a (FindShortestSeparator c a b) \<le> 0 \<and> Compare c (FindShortestSeparator c a b) b < 0"
    and separator_same: "ok a \<Longrightarrow> ok b \<Longrightarrow> 0 \<le> Compare c a b \<Longrightarrow> FindShortestSeparator c a b = a"
    and successor: "ok a \<Longrightarrow> ok (FindShortSuccessor c a) \<and> Compare c a (FindShortSuccessor c a) \<le> 0"

section \<open>The bytewise comparator\<close>

fun common_prefix_length :: "bytes \<Rightarrow> bytes \<Rightarrow> nat" where
  "common_prefix_length (a # as) (b # bs) = (if a = b then Suc (common_prefix_length as bs) else 0)"
| "common_prefix_length _ _ = 0"

definition bytewise_separator :: "bytes \<Rightarrow> bytes \<Rightarrow> bytes" where
  "bytewise_separator start limit =
     (let min_length = min (length start) (length limit); diff_index = common_prefix_length start limit in
      if min_length \<le> diff_index then start
      else
        let diff_byte = start ! diff_index in
        if diff_byte < 0xFF \<and> unat diff_byte + 1 < unat (limit ! diff_index)
        then take (diff_index + 1) (start[diff_index := diff_byte + 1])
        else start)"

fun bytewise_successor :: "bytes \<Rightarrow> bytes" where
  "bytewise_successor [] = []"
| "bytewise_successor (b # bs) = (if b \<noteq> 0xFF then [b + 1] else b # bytewise_successor bs)"

definition BytewiseComparator :: Comparator where
  "BytewiseComparator =
     \<lparr>Compare = slice_compare, FindShortestSeparator = bytewise_separator,
      FindShortSuccessor = bytewise_successor\<rparr>"

lemma BytewiseComparator_simps [simp]:
  "Compare BytewiseComparator = slice_compare"
  "FindShortestSeparator BytewiseComparator = bytewise_separator"
  "FindShortSuccessor BytewiseComparator = bytewise_successor"
  by (simp_all add: BytewiseComparator_def)

lemma common_prefix_le: "common_prefix_length a b \<le> min (length a) (length b)"
  by (induction a b rule: common_prefix_length.induct) auto

text \<open>The separator, by recursion over the two strings.\<close>

lemma bytewise_separator_simps:
  "bytewise_separator [] limit = []"
  "bytewise_separator start [] = start"
  "bytewise_separator (a # as) (b # bs) =
     (if a = b then a # bytewise_separator as bs
      else if a < 0xFF \<and> unat a + 1 < unat b then [a + 1] else a # as)"
  by (auto simp: bytewise_separator_def Let_def)

lemma unat_plus_one:
  assumes "(a :: 8 word) < 0xFF"
  shows "unat (a + 1) = unat a + 1"
proof -
  have "unat a < 255" using assms by (simp add: word_less_nat_alt)
  then show ?thesis by (simp add: unat_word_ariths)
qed

lemma less_0xFF: "(a :: 8 word) \<noteq> 0xFF \<Longrightarrow> a < 0xFF"
proof -
  assume "a \<noteq> 0xFF"
  then have "unat a \<noteq> 255" by (simp add: word_unat_eq_iff)
  then have "unat a < 255" using unat_byte_less [of a] by linarith
  then show ?thesis by (simp add: word_less_nat_alt)
qed

lemma bytewise_separator_between:
  "slice_compare a b < 0 \<Longrightarrow>
    slice_compare a (bytewise_separator a b) \<le> 0 \<and> slice_compare (bytewise_separator a b) b < 0"
proof (induction a b rule: list_induct2')
  case (4 a as b bs)
  have "\<not> (unat a + 1 < unat b)" if "b < a" using that by (simp add: word_less_nat_alt)
  moreover have "a < a + 1 \<and> a + 1 < b" if "a < 0xFF" "unat a + 1 < unat b"
    using that unat_plus_one [OF that(1)] by (simp add: word_less_nat_alt)
  moreover have "slice_compare as as = 0" by (simp add: slice_compare_zero)
  ultimately show ?case using 4 by (auto simp: bytewise_separator_simps split: if_splits)
qed (simp_all add: bytewise_separator_simps)

lemma bytewise_separator_same: "0 \<le> slice_compare a b \<Longrightarrow> bytewise_separator a b = a"
  by (induction a b rule: list_induct2')
    (auto simp: bytewise_separator_simps word_less_nat_alt split: if_splits)

lemma bytewise_successor_le: "slice_compare a (bytewise_successor a) \<le> 0"
proof (induction a)
  case (Cons b bs)
  have "b < b + 1" if "b \<noteq> 0xFF" using unat_plus_one [OF less_0xFF [OF that]] by (simp add: word_less_nat_alt)
  with Cons show ?case by auto
qed simp

interpretation bytewise: comparator BytewiseComparator "\<lambda>_. True"
proof
  fix a b d :: bytes
  show "Compare BytewiseComparator b a \<le> 0 \<longleftrightarrow> 0 \<le> Compare BytewiseComparator a b"
    using slice_compare_sym [of a b] by simp
  show "Compare BytewiseComparator a d \<le> 0"
    if "Compare BytewiseComparator a b \<le> 0" "Compare BytewiseComparator b d \<le> 0"
    using that slice_compare_trans [of a b d] slice_compare_zero [of a b] slice_compare_zero [of b d]
    by (cases "slice_compare a b = 0"; cases "slice_compare b d = 0") auto
qed (simp_all add: bytewise_separator_between bytewise_separator_same bytewise_successor_le)

text \<open>
  C29. The bytewise comparator orders strings lexicographically by unsigned bytes. Between
  \<open>start < limit\<close> it finds a separator that is not longer than \<open>start\<close> and lies in
  \<open>[start, limit)\<close>; its short successor is not longer than the key and not before it.
\<close>
theorem bytewise_comparator_correct:
  "(Compare BytewiseComparator a b < 0 \<longleftrightarrow> ord_class.lexordp a b) \<and>
   (Compare BytewiseComparator a b = 0 \<longleftrightarrow> a = b) \<and>
   (if Compare BytewiseComparator a b < 0
    then Compare BytewiseComparator a (FindShortestSeparator BytewiseComparator a b) \<le> 0 \<and>
      Compare BytewiseComparator (FindShortestSeparator BytewiseComparator a b) b < 0
    else FindShortestSeparator BytewiseComparator a b = a) \<and>
   length (FindShortestSeparator BytewiseComparator a b) \<le> length a \<and>
   Compare BytewiseComparator a (FindShortSuccessor BytewiseComparator a) \<le> 0 \<and>
   length (FindShortSuccessor BytewiseComparator a) \<le> length a"
proof -
  have "length (bytewise_separator a b) \<le> length a"
    by (induction a b rule: list_induct2') (simp_all add: bytewise_separator_simps)
  moreover have "length (bytewise_successor a) \<le> length a" by (induction a) auto
  ultimately show ?thesis
    using bytewise.separator [of a b] bytewise.separator_same [of a b] bytewise.successor [of a]
    by (auto simp: slice_compare_lexordp [symmetric] slice_compare_zero)
qed

end
