(* ===== verification/LdbFormat.thy ===== *)
theory LdbFormat
  imports LdbComparator
begin

text \<open>
  LevelDB, \<^verbatim>\<open>db/dbformat.h\<close> and \<^verbatim>\<open>db/dbformat.cc\<close>: internal keys, which are a
  user key followed by eight bytes of sequence number and type, the comparator of internal keys
  over a user comparator, and lookup keys. The contract of the comparator carries over to internal
  keys, and the order puts newer versions of a user key first.
\<close>

section \<open>Internal keys\<close>

type_synonym ValueType = "8 word"
type_synonym SequenceNumber = "64 word"

definition kTypeDeletion :: ValueType where "kTypeDeletion = 0x0"
definition kTypeValue :: ValueType where "kTypeValue = 0x1"
definition kValueTypeForSeek :: ValueType where "kValueTypeForSeek = kTypeValue"
definition kMaxSequenceNumber :: SequenceNumber where "kMaxSequenceNumber = push_bit 56 1 - 1"

record ParsedInternalKey =
  user_key :: bytes
  sequence :: SequenceNumber
  type :: ValueType

definition PackSequenceAndType :: "64 word \<Rightarrow> ValueType \<Rightarrow> 64 word" where
  "PackSequenceAndType seq t = push_bit 8 seq OR ucast t"

definition InternalKeyEncodingLength :: "ParsedInternalKey \<Rightarrow> nat" where
  "InternalKeyEncodingLength key = length (user_key key) + 8"

definition AppendInternalKey :: "bytes \<Rightarrow> ParsedInternalKey \<Rightarrow> bytes" where
  "AppendInternalKey result key =
     PutFixed64 (result @ user_key key) (PackSequenceAndType (sequence key) (type key))"

definition ExtractUserKey :: "bytes \<Rightarrow> bytes" where
  "ExtractUserKey internal_key = take (length internal_key - 8) internal_key"

definition key_tag :: "bytes \<Rightarrow> 64 word" where
  "key_tag internal_key = DecodeFixed64 (drop (length internal_key - 8) internal_key)"

definition ExtractValueType :: "bytes \<Rightarrow> ValueType" where
  "ExtractValueType internal_key = ucast (key_tag internal_key AND 0xFF)"

definition ParseInternalKey :: "bytes \<Rightarrow> ParsedInternalKey option" where
  "ParseInternalKey internal_key =
     (if length internal_key < 8 then None
      else let num = key_tag internal_key; c = ucast (num AND 0xFF) in
           if c \<le> kTypeValue
           then Some \<lparr>user_key = ExtractUserKey internal_key, sequence = drop_bit 8 num, type = c\<rparr>
           else None)"

section \<open>The comparator of internal keys\<close>

definition internal_compare :: "Comparator \<Rightarrow> bytes \<Rightarrow> bytes \<Rightarrow> int" where
  "internal_compare u akey bkey =
     (let r = Compare u (ExtractUserKey akey) (ExtractUserKey bkey) in
      if r = 0 then
        (if key_tag bkey < key_tag akey then - 1 else if key_tag akey < key_tag bkey then 1 else r)
      else r)"

definition internal_separator :: "Comparator \<Rightarrow> bytes \<Rightarrow> bytes \<Rightarrow> bytes" where
  "internal_separator u start limit =
     (let user_start = ExtractUserKey start; user_limit = ExtractUserKey limit;
          tmp = FindShortestSeparator u user_start user_limit in
      if length tmp < length user_start \<and> Compare u user_start tmp < 0
      then PutFixed64 tmp (PackSequenceAndType kMaxSequenceNumber kValueTypeForSeek)
      else start)"

definition internal_successor :: "Comparator \<Rightarrow> bytes \<Rightarrow> bytes" where
  "internal_successor u key =
     (let ukey = ExtractUserKey key; tmp = FindShortSuccessor u ukey in
      if length tmp < length ukey \<and> Compare u ukey tmp < 0
      then PutFixed64 tmp (PackSequenceAndType kMaxSequenceNumber kValueTypeForSeek)
      else key)"

definition InternalKeyComparator :: "Comparator \<Rightarrow> Comparator" where
  "InternalKeyComparator u =
     \<lparr>Compare = internal_compare u, FindShortestSeparator = internal_separator u,
      FindShortSuccessor = internal_successor u\<rparr>"

section \<open>Lookup keys\<close>

text \<open>The buffer of a lookup key, with its three slices by offset.\<close>

record LookupKey =
  lookup_buf :: bytes
  kstart :: nat

definition new_LookupKey :: "bytes \<Rightarrow> SequenceNumber \<Rightarrow> LookupKey" where
  "new_LookupKey ukey s =
     (let usize = length ukey;
          dst = EncodeVarint32 (of_nat (usize + 8)) in
      \<lparr>lookup_buf = dst @ ukey @ EncodeFixed64 (PackSequenceAndType s kValueTypeForSeek),
       kstart = length dst\<rparr>)"

definition memtable_key :: "LookupKey \<Rightarrow> bytes" where
  "memtable_key k = lookup_buf k"

definition internal_key :: "LookupKey \<Rightarrow> bytes" where
  "internal_key k = drop (kstart k) (lookup_buf k)"

definition lookup_user_key :: "LookupKey \<Rightarrow> bytes" where
  "lookup_user_key k = take (length (lookup_buf k) - kstart k - 8) (drop (kstart k) (lookup_buf k))"

section \<open>Packing\<close>

lemma InternalKeyComparator_simps [simp]:
  "Compare (InternalKeyComparator u) = internal_compare u"
  "FindShortestSeparator (InternalKeyComparator u) = internal_separator u"
  "FindShortSuccessor (InternalKeyComparator u) = internal_successor u"
  by (simp_all add: InternalKeyComparator_def)

definition valid_seq :: "SequenceNumber \<Rightarrow> bool" where
  "valid_seq s \<longleftrightarrow> s \<le> kMaxSequenceNumber"

lemma valid_seq_unat: "valid_seq s \<longleftrightarrow> unat s < 2 ^ 56"
proof -
  have "unat kMaxSequenceNumber = 2 ^ 56 - 1" by (simp add: kMaxSequenceNumber_def)
  then show ?thesis by (auto simp: valid_seq_def word_le_nat_alt)
qed

lemma unat_ucast_byte_64: "unat (ucast (t :: 8 word) :: 64 word) = unat t"
proof -
  have "unat t < 2 ^ 64" by (rule less_trans [OF unat_byte_less]) simp
  then show ?thesis by (simp add: unsigned_ucast_eq take_bit_eq_mod)
qed

lemma unat_pack:
  assumes "valid_seq s"
  shows "unat (PackSequenceAndType s t) = unat s * 256 + unat t"
proof -
  have t: "unat (ucast t :: 64 word) < 2 ^ 8" by (simp add: unat_ucast_byte_64)
  have "PackSequenceAndType s t = ucast t OR push_bit 8 s"
    by (simp add: PackSequenceAndType_def or.commute)
  then have "unat (PackSequenceAndType s t) = (unat t + unat s * 2 ^ 8) mod 2 ^ 64"
    using unat_or_push_bit [OF t, of s] by (simp add: unat_ucast_byte_64)
  moreover have "unat t + unat s * 2 ^ 8 < 2 ^ 64"
    using assms unat_byte_less [of t] by (simp add: valid_seq_unat del: unat_byte_less)
  ultimately show ?thesis by simp
qed

lemma pack_seq: "valid_seq s \<Longrightarrow> drop_bit 8 (PackSequenceAndType s t) = s"
  by (simp add: word_unat_eq_iff unat_drop_bit unat_pack)

lemma pack_type: "valid_seq s \<Longrightarrow> (ucast (PackSequenceAndType s t AND 0xFF) :: 8 word) = t"
proof -
  assume "valid_seq s"
  then have "(ucast (PackSequenceAndType s t AND 0xFF) :: 8 word) = of_nat (unat s * 256 + unat t)"
    using byte_of_word [of 0 "PackSequenceAndType s t"] by (simp only: drop_bit_0 id_apply unat_pack power_0 div_by_1)
  then show ?thesis by (simp only: word_unat_eq_iff unat_of_nat_byte) simp
qed

lemma digits_less: "(n :: nat) * 256 + r < n' * 256 + r' \<longleftrightarrow> n < n' \<or> n = n' \<and> r < r'"
  if "r < 256" "r' < 256"
proof (cases n n' rule: linorder_cases)
  case less
  then have "Suc n * 256 \<le> n' * 256" by (intro mult_le_mono1) simp
  with less that show ?thesis by simp
next
  case greater
  then have "Suc n' * 256 \<le> n * 256" by (intro mult_le_mono1) simp
  with greater that show ?thesis by simp
qed simp

lemma pack_less:
  "valid_seq s \<Longrightarrow> valid_seq s' \<Longrightarrow>
   PackSequenceAndType s t < PackSequenceAndType s' t' \<longleftrightarrow> s < s' \<or> s = s' \<and> t < t'"
  by (simp add: word_less_nat_alt unat_pack digits_less word_unat_eq_iff)

section \<open>Encoding\<close>

definition encode_key :: "ParsedInternalKey \<Rightarrow> bytes" where
  "encode_key k = AppendInternalKey [] k"

lemma encode_key_append: "encode_key k = user_key k @ EncodeFixed64 (PackSequenceAndType (sequence k) (type k))"
  by (simp add: encode_key_def AppendInternalKey_def PutFixed64_def)

lemma suffixed_key [simp]:
  "ExtractUserKey (k @ EncodeFixed64 w) = k" "key_tag (k @ EncodeFixed64 w) = w"
  using DecodeFixed64_Encode [of w "[]"] by (simp_all add: ExtractUserKey_def key_tag_def del: DecodeFixed64_Encode)

lemma key_cases:
  assumes "8 \<le> length k"
  obtains u w where "k = u @ EncodeFixed64 w"
proof -
  let ?d = "drop (length k - 8) k"
  have "length ?d = 8" using assms by simp
  then have "EncodeFixed64 (of_nat (le_nat ?d)) = ?d"
    using le_nat_bound [of ?d] le_bytes_le_nat [of ?d 8]
    by (simp add: EncodeFixed64_le unat_of_nat del: le_bytes_numeral)
  then have "k = take (length k - 8) k @ EncodeFixed64 (of_nat (le_nat ?d))" by simp
  then show ?thesis by (rule that)
qed


text \<open>
  Internal keys. \<open>ParseInternalKey\<close> recovers user key, sequence and type from what
  \<open>AppendInternalKey\<close> writes, and accepts exactly the strings of at least eight bytes whose type
  byte is a known type.
\<close>
theorem internal_key_roundtrip:
  assumes "valid_seq s" and "t \<le> kTypeValue"
  shows "ParseInternalKey (AppendInternalKey [] \<lparr>user_key = u, sequence = s, type = t\<rparr>) =
      Some \<lparr>user_key = u, sequence = s, type = t\<rparr> \<and>
    length (AppendInternalKey [] \<lparr>user_key = u, sequence = s, type = t\<rparr>) =
      InternalKeyEncodingLength \<lparr>user_key = u, sequence = s, type = t\<rparr> \<and>
    (ParseInternalKey k \<noteq> None \<longleftrightarrow> 8 \<le> length k \<and> ExtractValueType k \<le> kTypeValue)"
proof -
  have "ExtractUserKey (u @ EncodeFixed64 w) = u" "key_tag (u @ EncodeFixed64 w) = w" for w by simp_all
  then show ?thesis
    using assms pack_seq [OF assms(1)] pack_type [OF assms(1)]
    by (simp add: AppendInternalKey_def PutFixed64_def ParseInternalKey_def Let_def
        InternalKeyEncodingLength_def ExtractValueType_def not_less)
qed

theorem internal_key_roundtrip_witness:
  "ParseInternalKey (AppendInternalKey [] \<lparr>user_key = [97, 98], sequence = 5, type = 1\<rparr>) =
     Some \<lparr>user_key = [97, 98], sequence = 5, type = 1\<rparr>"
proof -
  have "valid_seq 5" and "1 \<le> kTypeValue" by (simp_all add: valid_seq_unat kTypeValue_def)
  then show ?thesis using internal_key_roundtrip [of 5 1 "[97, 98]"] by simp
qed

section \<open>The order of internal keys\<close>

text \<open>The contract of a user comparator gives the contract for internal keys.\<close>

definition internal_ok :: "(bytes \<Rightarrow> bool) \<Rightarrow> bytes \<Rightarrow> bool" where
  "internal_ok ok k \<longleftrightarrow> 8 \<le> length k \<and> ok (ExtractUserKey k)"

lemma internal_okE:
  assumes "internal_ok ok k"
  obtains u w where "k = u @ EncodeFixed64 w" and "ok u"
  using assms by (auto simp: internal_ok_def elim!: key_cases)

lemma internal_ok_suffixed [simp]: "internal_ok ok (u @ EncodeFixed64 w) = ok u"
  by (simp add: internal_ok_def)

lemma internal_compare_suffixed:
  "internal_compare u (a @ EncodeFixed64 v) (b @ EncodeFixed64 w) =
     (if Compare u a b = 0 then if w < v then - 1 else if v < w then 1 else 0 else Compare u a b)"
  by (simp add: internal_compare_def Let_def)

locale user_comparator = user: comparator u ok for u :: Comparator and ok :: "bytes \<Rightarrow> bool"

sublocale user_comparator \<subseteq> internal: comparator "InternalKeyComparator u" "internal_ok ok"
proof
  fix a b d
  assume oka: "internal_ok ok a"
  then obtain ua va where a: "a = ua @ EncodeFixed64 va" "ok ua" by (rule internal_okE)
  show "internal_ok ok (FindShortSuccessor (InternalKeyComparator u) a) \<and>
      Compare (InternalKeyComparator u) a (FindShortSuccessor (InternalKeyComparator u) a) \<le> 0"
    using a user.successor [of ua] user.compare_refl [of ua]
    by (auto simp: internal_successor_def Let_def PutFixed64_def internal_compare_suffixed)
  assume okb: "internal_ok ok b"
  then obtain ub vb where b: "b = ub @ EncodeFixed64 vb" "ok ub" by (rule internal_okE)
  show "Compare (InternalKeyComparator u) b a \<le> 0 \<longleftrightarrow> 0 \<le> Compare (InternalKeyComparator u) a b"
    using a b user.compare_swap [of ua ub] user.compare_zero [of ua ub]
    by (auto simp: internal_compare_suffixed)
  show "FindShortestSeparator (InternalKeyComparator u) a b = a"
    if "0 \<le> Compare (InternalKeyComparator u) a b"
    using that a b user.separator_same [of ua ub]
    by (auto simp: internal_separator_def Let_def internal_compare_suffixed split: if_splits)
  show "internal_ok ok (FindShortestSeparator (InternalKeyComparator u) a b) \<and>
      Compare (InternalKeyComparator u) a (FindShortestSeparator (InternalKeyComparator u) a b) \<le> 0 \<and>
      Compare (InternalKeyComparator u) (FindShortestSeparator (InternalKeyComparator u) a b) b < 0"
    if "Compare (InternalKeyComparator u) a b < 0"
  proof (cases "Compare u ua ub < 0")
    case True
    with that a b user.separator [of ua ub] user.compare_refl [of ua] show ?thesis
      by (auto simp: internal_separator_def Let_def PutFixed64_def internal_compare_suffixed)
  next
    case False
    with that a b user.separator_same [of ua ub] user.compare_refl [of ua] show ?thesis
      by (auto simp: internal_separator_def Let_def internal_compare_suffixed)
  qed
  assume "internal_ok ok d"
  then obtain ud vd where d: "d = ud @ EncodeFixed64 vd" "ok ud" by (rule internal_okE)
  show "Compare (InternalKeyComparator u) a d \<le> 0"
    if "Compare (InternalKeyComparator u) a b \<le> 0" "Compare (InternalKeyComparator u) b d \<le> 0"
    using that a b d user.compare_trans [of ua ub ud] user.lt_trans_le [of ua ub ud] user.le_trans_lt [of ua ub ud]
    by (auto simp: internal_compare_suffixed split: if_splits)
qed

interpretation bytewise_keys: user_comparator BytewiseComparator "\<lambda>_. True"
  by unfold_locales


text \<open>
  A lookup key is the length-prefixed internal key of its user key with the highest type, and
  it splits the versions of the user key: an entry is not before the lookup key exactly when its
  sequence number is at most the snapshot's, so the first entry at or behind the lookup key is the
  newest visible version.
\<close>
theorem lookup_key_splits_versions:
  assumes "valid_seq s" and "valid_seq s'" and "t \<le> kTypeValue" and "length u + 8 < 2 ^ 32"
  shows "GetLengthPrefixedSlice (memtable_key (new_LookupKey u s)) =
      Some (internal_key (new_LookupKey u s), []) \<and>
    lookup_user_key (new_LookupKey u s) = u \<and>
    (Compare (InternalKeyComparator BytewiseComparator) (internal_key (new_LookupKey u s))
       (AppendInternalKey [] \<lparr>user_key = u, sequence = s', type = t\<rparr>) \<le> 0 \<longleftrightarrow> s' \<le> s)"
proof -
  have "of_nat (length u + 8) = (of_nat (length (u @ EncodeFixed64 w)) :: 32 word)" for w by simp
  then have slice: "memtable_key (new_LookupKey u s) =
      PutLengthPrefixedSlice [] (u @ EncodeFixed64 (PackSequenceAndType s kValueTypeForSeek))"
    by (simp add: memtable_key_def new_LookupKey_def Let_def PutLengthPrefixedSlice_def PutVarint32_def)
  have key: "internal_key (new_LookupKey u s) = u @ EncodeFixed64 (PackSequenceAndType s kValueTypeForSeek)"
    by (simp add: internal_key_def new_LookupKey_def Let_def)
  have "\<not> PackSequenceAndType s kValueTypeForSeek < PackSequenceAndType s' t \<longleftrightarrow> s' \<le> s"
    using assms(3) pack_less [OF assms(1,2), of kValueTypeForSeek t] by (auto simp: kValueTypeForSeek_def)
  then have order: "Compare (InternalKeyComparator BytewiseComparator) (internal_key (new_LookupKey u s))
       (AppendInternalKey [] \<lparr>user_key = u, sequence = s', type = t\<rparr>) \<le> 0 \<longleftrightarrow> s' \<le> s"
    by (auto simp: key AppendInternalKey_def PutFixed64_def internal_compare_suffixed slice_compare_zero)
  have "GetLengthPrefixedSlice (memtable_key (new_LookupKey u s)) = Some (internal_key (new_LookupKey u s), [])"
    using ldb_slice.dec_enc [of "u @ EncodeFixed64 (PackSequenceAndType s kValueTypeForSeek)" "[]"] assms(4)
    by (simp add: slice key)
  moreover have "lookup_user_key (new_LookupKey u s) = u"
    by (simp add: lookup_user_key_def new_LookupKey_def Let_def)
  ultimately show ?thesis using order by simp
qed

theorem lookup_key_splits_versions_witness:
  "GetLengthPrefixedSlice (memtable_key (new_LookupKey [107] 7)) = Some (internal_key (new_LookupKey [107] 7), []) \<and>
   Compare (InternalKeyComparator BytewiseComparator) (internal_key (new_LookupKey [107] 7))
     (AppendInternalKey [] \<lparr>user_key = [107], sequence = 4, type = kTypeDeletion\<rparr>) \<le> 0"
proof -
  have "valid_seq 7" "valid_seq 4" "kTypeDeletion \<le> kTypeValue" "length [107 :: 8 word] + 8 < 2 ^ 32" "(4 :: 64 word) \<le> 7"
    by (simp_all add: valid_seq_unat kTypeDeletion_def kTypeValue_def)
  then show ?thesis
    using lookup_key_splits_versions [of 7 4 kTypeDeletion "[107]"] by simp
qed


end
