(* ===== verification/LdbBloom.thy ===== *)
theory LdbBloom
  imports LdbFormat
begin

text \<open>
  LevelDB, \<^verbatim>\<open>util/hash.cc\<close>, \<^verbatim>\<open>leveldb/filter_policy.h\<close>, \<^verbatim>\<open>util/bloom.cc\<close> and
  the filter policy of \<^verbatim>\<open>db/dbformat.cc\<close>: the hash function, the filter interface with its
  contract as a locale, the Bloom filter, and the policy that strips internal keys. The contract is
  that a filter never denies a key it was built from.
\<close>

section \<open>Hashing\<close>

function hash_words :: "32 word \<Rightarrow> bytes \<Rightarrow> 32 word \<times> bytes" where
  "hash_words h data =
     (if 4 \<le> length data then
        let h = (h + DecodeFixed32 data) * 0xc6a4a793 in
        hash_words (h XOR drop_bit 16 h) (drop 4 data)
      else (h, data))"
  by pat_completeness auto
termination by (relation "measure (\<lambda>(_, data). length data)") auto

declare hash_words.simps [simp del]

text \<open>The switch over the remaining bytes, with its cases falling through.\<close>

definition hash_tail :: "32 word \<Rightarrow> bytes \<Rightarrow> 32 word" where
  "hash_tail h data =
     (let h = (if length data = 3 then h + push_bit 16 (ucast (data ! 2)) else h);
          h = (if length data \<in> {2, 3} then h + push_bit 8 (ucast (data ! 1)) else h) in
      if length data \<in> {1, 2, 3} then
        let h = (h + ucast (data ! 0)) * 0xc6a4a793 in h XOR drop_bit 24 h
      else h)"

definition Hash :: "bytes \<Rightarrow> 32 word \<Rightarrow> 32 word" where
  "Hash data seed =
     (let h = seed XOR (of_nat (length data) * 0xc6a4a793); (h, rest) = hash_words h data in
      hash_tail h rest)"

lemma hash_words_rest: "length (snd (hash_words h data)) = length data mod 4"
proof (induction h data rule: hash_words.induct)
  case (1 h data)
  show ?case
  proof (cases "4 \<le> length data")
    case True
    then have "(length data - 4) mod 4 = length data mod 4" by (simp add: le_mod_geq)
    with 1 True show ?thesis by (simp add: hash_words.simps [of h data] Let_def)
  qed (simp add: hash_words.simps [of h data])
qed

section \<open>Filter policies\<close>

text \<open>\<open>CreateFilter\<close> appends the filter of some keys to a string.\<close>

record FilterPolicy =
  CreateFilter :: "bytes list \<Rightarrow> bytes \<Rightarrow> bytes"
  FilterMayMatch :: "bytes \<Rightarrow> bytes \<Rightarrow> bool"

text \<open>
  The contract of \<^verbatim>\<open>filter_policy.h\<close>: what is in \<open>dst\<close> stays, and the appended filter matches
  every key of the list. \<open>fits n\<close> bounds the number of keys the policy is used for.
\<close>

locale filter_policy =
  fixes p :: FilterPolicy and fits :: "nat \<Rightarrow> bool"
  assumes keeps_prefix: "fits (length keys) \<Longrightarrow> take (length dst) (CreateFilter p keys dst) = dst"
    and no_false_negative: "fits (length keys) \<Longrightarrow> k \<in> set keys \<Longrightarrow>
      FilterMayMatch p k (drop (length dst) (CreateFilter p keys dst))"
    and fits_fewer: "fits n \<Longrightarrow> m \<le> n \<Longrightarrow> fits m"
begin

lemma creates: "fits (length keys) \<Longrightarrow>
    \<exists>f. CreateFilter p keys dst = dst @ f \<and> (\<forall>k \<in> set keys. FilterMayMatch p k f)"
  using keeps_prefix [of keys dst] no_false_negative [of keys _ dst]
  by (metis append_take_drop_id)

end

section \<open>The Bloom filter\<close>

text \<open>
  The number of probes is computed in floating point from the bits per key; \<open>product\<close> is that
  truncated product, before it is clamped to [1, 30].
\<close>

record BloomFilterPolicy =
  bits_per_key :: "64 word"
  bloom_k :: nat

definition new_BloomFilterPolicy :: "int \<Rightarrow> nat \<Rightarrow> BloomFilterPolicy" where
  "new_BloomFilterPolicy per_key product =
     (let k = product; k = (if k < 1 then 1 else k); k = (if 30 < k then 30 else k) in
      \<lparr>bits_per_key = of_int per_key, bloom_k = k\<rparr>)"

definition BloomHash :: "bytes \<Rightarrow> 32 word" where
  "BloomHash key = Hash key 0xbc9f1d34"

definition bloom_delta :: "32 word \<Rightarrow> 32 word" where
  "bloom_delta h = drop_bit 17 h OR push_bit 15 h"

text \<open>Setting and testing the bits of one key, \<open>k\<close> probes from \<open>h\<close> on.\<close>

fun bloom_set :: "nat \<Rightarrow> 32 word \<Rightarrow> nat \<Rightarrow> 32 word \<Rightarrow> bytes \<Rightarrow> bytes" where
  "bloom_set bits delta 0 h array = array"
| "bloom_set bits delta (Suc j) h array =
     (let bitpos = unat h mod bits in
      bloom_set bits delta j (h + delta)
        (array[bitpos div 8 := (array ! (bitpos div 8)) OR push_bit (bitpos mod 8) 1]))"

fun bloom_test :: "nat \<Rightarrow> 32 word \<Rightarrow> nat \<Rightarrow> 32 word \<Rightarrow> bytes \<Rightarrow> bool" where
  "bloom_test bits delta 0 h array = True"
| "bloom_test bits delta (Suc j) h array =
     (let bitpos = unat h mod bits in
      if (array ! (bitpos div 8)) AND push_bit (bitpos mod 8) 1 = 0 then False
      else bloom_test bits delta j (h + delta) array)"

definition bloom_add_key :: "nat \<Rightarrow> nat \<Rightarrow> bytes \<Rightarrow> bytes \<Rightarrow> bytes" where
  "bloom_add_key bits k key array =
     (let h = BloomHash key in bloom_set bits (bloom_delta h) k h array)"

definition bloom_bytes :: "BloomFilterPolicy \<Rightarrow> nat \<Rightarrow> nat" where
  "bloom_bytes b n =
     (let bits = unat (of_nat n * bits_per_key b); bits = (if bits < 64 then 64 else bits) in
      (bits + 7) mod 2 ^ 64 div 8)"

definition bloom_create :: "BloomFilterPolicy \<Rightarrow> bytes list \<Rightarrow> bytes \<Rightarrow> bytes" where
  "bloom_create b keys dst =
     (let bytes = bloom_bytes b (length keys); bits = bytes * 8 in
      dst @ fold (bloom_add_key bits (bloom_k b)) keys (replicate bytes 0) @ [of_nat (bloom_k b)])"

definition bloom_may_match :: "bytes \<Rightarrow> bytes \<Rightarrow> bool" where
  "bloom_may_match key flt =
     (let len = length flt in
      if len < 2 then False
      else
        let bits = (len - 1) * 8; k = unat (flt ! (len - 1)) in
        if 30 < k then True
        else let h = BloomHash key in bloom_test bits (bloom_delta h) k h flt)"

definition bloom_policy :: "BloomFilterPolicy \<Rightarrow> FilterPolicy" where
  "bloom_policy b = \<lparr>CreateFilter = bloom_create b, FilterMayMatch = bloom_may_match\<rparr>"

section \<open>The policy for internal keys\<close>

definition InternalFilterPolicy :: "FilterPolicy \<Rightarrow> FilterPolicy" where
  "InternalFilterPolicy user =
     \<lparr>CreateFilter = (\<lambda>keys dst. CreateFilter user (map ExtractUserKey keys) dst),
      FilterMayMatch = (\<lambda>key f. FilterMayMatch user (ExtractUserKey key) f)\<rparr>"

locale user_filter_policy = user: filter_policy u fits for u :: FilterPolicy and fits :: "nat \<Rightarrow> bool"

sublocale user_filter_policy \<subseteq> internal: filter_policy "InternalFilterPolicy u" fits
  by unfold_locales
    (auto simp: InternalFilterPolicy_def user.keeps_prefix user.fits_fewer intro!: user.no_false_negative)

section \<open>Bits are only ever set\<close>

lemma length_bloom_set [simp]: "length (bloom_set bits delta k h a) = length a"
  by (induction bits delta k h a rule: bloom_set.induct) (simp_all add: Let_def)

lemma length_bloom_add_key: "length (bloom_add_key bits k key a) = length a"
  by (simp add: bloom_add_key_def Let_def)

lemma length_bloom_fold [simp]: "length (fold (bloom_add_key bits k) keys a) = length a"
  by (induction keys arbitrary: a) (simp_all add: bloom_add_key_def Let_def)

definition bits_below :: "bytes \<Rightarrow> bytes \<Rightarrow> bool" where
  "bits_below a b \<longleftrightarrow> length a = length b \<and> (\<forall>i < length a. \<forall>n. bit (a ! i) n \<longrightarrow> bit (b ! i) n)"

lemma bits_below_refl [simp]: "bits_below a a"
  by (simp add: bits_below_def)

lemma bits_below_trans: "bits_below a b \<Longrightarrow> bits_below b c \<Longrightarrow> bits_below a c"
  by (auto simp: bits_below_def)

lemma bits_below_set: "bits_below a (a[i := (a ! i) OR w])"
proof (cases "i < length a")
  case True
  then show ?thesis by (simp add: bits_below_def nth_list_update bit_or_iff)
qed (simp add: list_update_beyond)

lemma bits_below_bloom_set: "bits_below a (bloom_set bits delta k h a)"
proof (induction bits delta k h a rule: bloom_set.induct)
  case (2 bits delta j h a)
  show ?case
    unfolding bloom_set.simps Let_def
    by (rule bits_below_trans [OF bits_below_set]) (rule 2 [OF refl])
qed simp

lemma bits_below_add_key: "bits_below a (bloom_add_key bits k key a)"
  unfolding bloom_add_key_def Let_def by (rule bits_below_bloom_set)

lemma bits_below_fold: "bits_below a (fold (bloom_add_key bits k) keys a)"
proof (induction keys arbitrary: a)
  case (Cons key keys)
  show ?case
    unfolding fold.simps comp_def
    by (rule bits_below_trans [OF bits_below_add_key Cons.IH])
qed simp

lemma and_bit_nonzero: "((w :: 8 word) AND push_bit n 1 = 0) \<longleftrightarrow> \<not> bit w n"
  by (metis bit_iff_and_push_bit_not_eq_0)

text \<open>A probe finds the bit that was set, also after more bits are set and the array has a tail.\<close>

lemma bloom_test_above:
  assumes "bits_below (bloom_set bits delta k h a) b" and "bits = 8 * length a" and "0 < bits"
  shows "bloom_test bits delta k h (b @ tail)"
  using assms
proof (induction bits delta k h a rule: bloom_set.induct)
  case (2 bits delta j h a)
  let ?pos = "unat h mod bits"
  let ?a = "a[?pos div 8 := (a ! (?pos div 8)) OR push_bit (?pos mod 8) 1]"
  have "?pos < bits" using 2 by simp
  then have lt: "?pos div 8 < length a" using 2(3) by linarith
  have rest: "bits_below (bloom_set bits delta j (h + delta) ?a) b"
    using 2(2) by (simp only: bloom_set.simps Let_def)
  have below: "bits_below ?a b"
    by (rule bits_below_trans [OF bits_below_bloom_set rest])
  have "bit (?a ! (?pos div 8)) (?pos mod 8)"
    using lt by (simp add: bit_or_iff bit_exp_iff)
  with below lt have "bit (b ! (?pos div 8)) (?pos mod 8)"
    by (auto simp: bits_below_def)
  moreover have "length b = length a" using below by (simp add: bits_below_def)
  moreover have "bloom_test bits delta j (h + delta) (b @ tail)"
    using rest 2(3,4) by (intro 2(1) [OF refl]) simp_all
  ultimately show ?case
    using lt and_bit_nonzero [of "b ! (?pos div 8)" "?pos mod 8"] by (simp add: Let_def nth_append)
qed simp

lemma bloom_test_added:
  "bits_below (bloom_add_key bits k key a) b \<Longrightarrow> bits = length a * 8 \<Longrightarrow> 0 < bits \<Longrightarrow>
    bloom_test bits (bloom_delta (BloomHash key)) k (BloomHash key) (b @ tail)"
  unfolding bloom_add_key_def Let_def by (rule bloom_test_above) simp_all

definition bloom_fits :: "BloomFilterPolicy \<Rightarrow> nat \<Rightarrow> bool" where
  "bloom_fits b n \<longleftrightarrow> n * unat (bits_per_key b) < 2 ^ 63"

lemma bloom_bytes_pos: "bloom_fits b n \<Longrightarrow> 8 \<le> bloom_bytes b n"
proof -
  assume fits: "bloom_fits b n"
  have "unat (of_nat n * bits_per_key b) \<le> n * unat (bits_per_key b)"
    by (metis mod_less_eq_dividend of_nat_mult of_nat_unat ucast_id unat_of_nat)
  with fits have small: "unat (of_nat n * bits_per_key b) < 2 ^ 63" by (simp add: bloom_fits_def)
  define bits where "bits = (if unat (of_nat n * bits_per_key b) < 64 then 64 else unat (of_nat n * bits_per_key b))"
  have "64 \<le> bits" "bits < 2 ^ 63" using small by (auto simp: bits_def)
  then have "(bits + 7) mod 2 ^ 64 = bits + 7" and "8 \<le> (bits + 7) div 8" by simp_all
  then show ?thesis unfolding bloom_bytes_def Let_def bits_def [symmetric] by simp
qed

lemma bloom_no_false_negative:
  assumes fits: "bloom_fits b (length keys)" and key: "key \<in> set keys" and k: "bloom_k b \<le> 30"
  shows "bloom_may_match key (drop (length dst) (bloom_create b keys dst))"
proof -
  let ?n = "bloom_bytes b (length keys)"
  let ?array = "fold (bloom_add_key (?n * 8) (bloom_k b)) keys (replicate ?n 0)"
  have n: "8 \<le> ?n" using fits by (rule bloom_bytes_pos)
  have out: "drop (length dst) (bloom_create b keys dst) = ?array @ [of_nat (bloom_k b)]"
    by (simp add: bloom_create_def Let_def)
  obtain ks ks' where keys: "keys = ks @ key # ks'" using key by (auto simp: in_set_conv_decomp)
  let ?before = "fold (bloom_add_key (?n * 8) (bloom_k b)) ks (replicate ?n 0)"
  have before: "?n * 8 = length ?before * 8"
    by (rule arg_cong [where f = "\<lambda>x. x * 8"]) (rule trans [OF _ length_bloom_fold [symmetric]], simp)
  have "bits_below (bloom_add_key (?n * 8) (bloom_k b) key ?before) ?array"
    using bits_below_fold [of "bloom_add_key (?n * 8) (bloom_k b) key ?before" "?n * 8" "bloom_k b" ks'] keys by simp
  then have "bloom_test (?n * 8) (bloom_delta (BloomHash key)) (bloom_k b) (BloomHash key) (?array @ [of_nat (bloom_k b)])"
    by (rule bloom_test_added [OF _ before]) (use n in simp)
  then show ?thesis
    using n k unfolding out by (simp add: bloom_may_match_def Let_def nth_append)
qed

lemma new_BloomFilterPolicy_k: "1 \<le> bloom_k (new_BloomFilterPolicy bits product) \<and> bloom_k (new_BloomFilterPolicy bits product) \<le> 30"
  by (simp add: new_BloomFilterPolicy_def Let_def)

lemma bloom_fits_fewer: "bloom_fits b n \<Longrightarrow> m \<le> n \<Longrightarrow> bloom_fits b m"
  unfolding bloom_fits_def by (rule le_less_trans [OF mult_le_mono1])

interpretation bloom: user_filter_policy "bloom_policy (new_BloomFilterPolicy bits product)"
    "bloom_fits (new_BloomFilterPolicy bits product)" for bits product
proof
  fix keys :: "bytes list" and dst :: bytes and key
  assume fits: "bloom_fits (new_BloomFilterPolicy bits product) (length keys)"
  show "take (length dst) (CreateFilter (bloom_policy (new_BloomFilterPolicy bits product)) keys dst) = dst"
    by (simp add: bloom_policy_def bloom_create_def Let_def)
  assume "key \<in> set keys"
  then show "FilterMayMatch (bloom_policy (new_BloomFilterPolicy bits product)) key
      (drop (length dst) (CreateFilter (bloom_policy (new_BloomFilterPolicy bits product)) keys dst))"
    using fits by (simp add: bloom_policy_def bloom_no_false_negative new_BloomFilterPolicy_k)
next
  fix m n
  assume "bloom_fits (new_BloomFilterPolicy bits product) n" and "m \<le> n"
  then show "bloom_fits (new_BloomFilterPolicy bits product) m" by (rule bloom_fits_fewer)
qed

text \<open>
  C27. A Bloom filter has no false negatives: whatever the bits per key and the number of probes,
  the filter appended for a list of keys matches each of them, as user keys and, through the
  internal policy, as internal keys, and it leaves the bytes before it alone.
\<close>
theorem bloom_filter_sound:
  assumes "bloom_fits (new_BloomFilterPolicy bits product) (length keys)" and "key \<in> set keys"
  defines "p \<equiv> bloom_policy (new_BloomFilterPolicy bits product)"
  shows "(\<exists>f. CreateFilter p keys dst = dst @ f \<and> FilterMayMatch p key f) \<and>
    (\<exists>f. CreateFilter (InternalFilterPolicy p) keys dst = dst @ f \<and>
      FilterMayMatch (InternalFilterPolicy p) key f)"
  using bloom.user.creates [OF assms(1), of dst] bloom.internal.creates [OF assms(1), of dst] assms(2)
  unfolding p_def by blast

theorem bloom_filter_sound_witness:
  "\<exists>f. CreateFilter (bloom_policy (new_BloomFilterPolicy 10 6)) [[104, 105], []] [1] = [1] @ f \<and>
    FilterMayMatch (bloom_policy (new_BloomFilterPolicy 10 6)) [104, 105] f"
proof -
  have "bloom_fits (new_BloomFilterPolicy 10 6) (length [[104, 105], [] :: bytes])"
    by (simp add: bloom_fits_def new_BloomFilterPolicy_def Let_def)
  from bloom_filter_sound [OF this, of "[104, 105]" "[1]"] show ?thesis by simp
qed

end
