(* ===== verification/LdbFilterBlock.thy ===== *)
theory LdbFilterBlock
  imports LdbBloom Outcome
begin

text \<open>
  LevelDB, \<^verbatim>\<open>table/filter_block.cc\<close>: the filter block of a table, one filter per 2 KiB of
  file offset. The builder is shown to implement a list of filters and a list of pending keys, and
  the reader, given what the builder produced, never denies a key of the block it is asked about,
  for every filter policy that meets its contract.
\<close>

section \<open>The builder\<close>

definition kFilterBaseLg :: nat where "kFilterBaseLg = 11"
definition kFilterBase :: nat where "kFilterBase = 2 ^ kFilterBaseLg"

record filter_builder =
  flat_keys :: bytes
  key_start :: "nat list"
  fb_result :: bytes
  filter_offsets :: "32 word list"

definition new_FilterBlockBuilder :: filter_builder where
  "new_FilterBlockBuilder = \<lparr>flat_keys = [], key_start = [], fb_result = [], filter_offsets = []\<rparr>"

definition AddKey :: "bytes \<Rightarrow> filter_builder \<Rightarrow> filter_builder" where
  "AddKey key b =
     b\<lparr>key_start := key_start b @ [length (flat_keys b)], flat_keys := flat_keys b @ key\<rparr>"

definition GenerateFilter :: "FilterPolicy \<Rightarrow> filter_builder \<Rightarrow> filter_builder" where
  "GenerateFilter p b =
     (let num_keys = length (key_start b) in
      if num_keys = 0 then b\<lparr>filter_offsets := filter_offsets b @ [of_nat (length (fb_result b))]\<rparr>
      else
        let start = key_start b @ [length (flat_keys b)];
            tmp_keys = map (\<lambda>i. take (start ! (i + 1) - start ! i) (drop (start ! i) (flat_keys b))) [0..<num_keys]
        in b\<lparr>filter_offsets := filter_offsets b @ [of_nat (length (fb_result b))],
             fb_result := CreateFilter p tmp_keys (fb_result b),
             flat_keys := [], key_start := []\<rparr>)"

lemma length_filter_offsets [simp]:
  "length (filter_offsets (GenerateFilter p b)) = Suc (length (filter_offsets b))"
  by (simp add: GenerateFilter_def Let_def)

function StartBlock_loop :: "FilterPolicy \<Rightarrow> nat \<Rightarrow> filter_builder \<Rightarrow> filter_builder" where
  "StartBlock_loop p filter_index b =
     (if length (filter_offsets b) < filter_index
      then StartBlock_loop p filter_index (GenerateFilter p b) else b)"
  by pat_completeness auto
termination by (relation "measure (\<lambda>(_, i, b). i - length (filter_offsets b))") auto

declare StartBlock_loop.simps [simp del]

definition StartBlock :: "FilterPolicy \<Rightarrow> 64 word \<Rightarrow> filter_builder \<Rightarrow> filter_builder" where
  "StartBlock p block_offset b = StartBlock_loop p (unat block_offset div kFilterBase) b"

definition FilterFinish :: "FilterPolicy \<Rightarrow> filter_builder \<Rightarrow> bytes" where
  "FilterFinish p b =
     (let b = (if key_start b \<noteq> [] then GenerateFilter p b else b);
          array_offset = of_nat (length (fb_result b));
          result = fold (\<lambda>w dst. PutFixed32 dst w) (filter_offsets b) (fb_result b)
      in PutFixed32 result array_offset @ [of_nat kFilterBaseLg])"

section \<open>The reader\<close>

text \<open>\<open>fr_offset\<close> is the distance of \<open>offset_\<close> from \<open>data_\<close>.\<close>

record filter_reader =
  fr_data :: bytes
  fr_offset :: nat
  fr_num :: nat
  fr_base_lg :: int

definition new_FilterBlockReader :: "bytes \<Rightarrow> filter_reader" where
  "new_FilterBlockReader contents =
     (let n = length contents; none = \<lparr>fr_data = [], fr_offset = 0, fr_num = 0, fr_base_lg = 0\<rparr> in
      if n < 5 then none
      else
        let base_lg = sint (contents ! (n - 1));
            last_word = unat (DecodeFixed32 (drop (n - 5) contents)) in
        if n - 5 < last_word then none\<lparr>fr_base_lg := base_lg\<rparr>
        else \<lparr>fr_data = contents, fr_offset = last_word, fr_num = (n - 5 - last_word) div 4,
              fr_base_lg = base_lg\<rparr>)"

text \<open>A shift by 64 bits or more, or by a negative byte, is undefined.\<close>

definition FilterKeyMayMatch :: "FilterPolicy \<Rightarrow> filter_reader \<Rightarrow> 64 word \<Rightarrow> bytes \<Rightarrow> bool run" where
  "FilterKeyMayMatch p r block_offset key =
     (if fr_base_lg r < 0 \<or> 64 \<le> fr_base_lg r then Undef
      else
        let index = unat (drop_bit (nat (fr_base_lg r)) block_offset) in
        if index < fr_num r then
          let start = unat (DecodeFixed32 (drop (fr_offset r + index * 4) (fr_data r)));
              limit = unat (DecodeFixed32 (drop (fr_offset r + index * 4 + 4) (fr_data r))) in
          if start \<le> limit \<and> limit \<le> fr_offset r
          then Ret (FilterMayMatch p key (take (limit - start) (drop start (fr_data r))))
          else if start = limit then Ret False
          else Ret True
        else Ret True)"

section \<open>The builder as a list of filters and of pending keys\<close>

text \<open>Where each string starts in the concatenation.\<close>

definition starts :: "bytes list \<Rightarrow> nat list" where
  "starts xs = map (\<lambda>i. length (concat (take i xs))) [0..<length xs]"

lemma length_starts [simp]: "length (starts xs) = length xs"
  by (simp add: starts_def)

lemma starts_snoc: "starts (xs @ [x]) = starts xs @ [length (concat xs)]"
  by (auto simp: starts_def intro!: map_cong)

lemma starts_nth: "i < length xs \<Longrightarrow> starts xs ! i = length (concat (take i xs))"
  by (simp add: starts_def)

lemma concat_slice:
  assumes "i < length xs"
  shows "take (length (concat (take (Suc i) xs)) - length (concat (take i xs)))
      (drop (length (concat (take i xs))) (concat xs @ rest)) = xs ! i"
proof -
  have "concat xs = concat (take i xs) @ xs ! i @ concat (drop (Suc i) xs)"
    using assms by (metis append_take_drop_id concat.simps(2) concat_append id_take_nth_drop)
  moreover have "length (concat (take (Suc i) xs)) - length (concat (take i xs)) = length (xs ! i)"
    using assms by (simp add: take_Suc_conv_app_nth)
  ultimately show ?thesis by simp
qed

definition builds :: "filter_builder \<Rightarrow> bytes list \<Rightarrow> bytes list \<Rightarrow> bool" where
  "builds b fs pending \<longleftrightarrow>
     flat_keys b = concat pending \<and> key_start b = starts pending \<and>
     fb_result b = concat fs \<and> filter_offsets b = map of_nat (starts fs)"

lemma builds_new: "builds new_FilterBlockBuilder [] []"
  by (simp add: builds_def new_FilterBlockBuilder_def starts_def)

lemma builds_AddKey: "builds b fs pending \<Longrightarrow> builds (AddKey key b) fs (pending @ [key])"
  by (simp add: builds_def AddKey_def starts_snoc)

lemma builds_AddKeys: "builds b fs pending \<Longrightarrow> builds (fold AddKey keys b) fs (pending @ keys)"
proof (induction keys arbitrary: b pending)
  case (Cons key keys)
  from Cons.IH [OF builds_AddKey [OF Cons.prems]] show ?case by simp
qed simp

lemma pending_keys:
  "map (\<lambda>i. take ((starts ks @ [length (concat ks)]) ! (i + 1) - (starts ks @ [length (concat ks)]) ! i)
     (drop ((starts ks @ [length (concat ks)]) ! i) (concat ks))) [0..<length ks] = ks"
proof (rule nth_equalityI)
  fix i assume "i < length (map (\<lambda>i. take ((starts ks @ [length (concat ks)]) ! (i + 1) - (starts ks @ [length (concat ks)]) ! i)
     (drop ((starts ks @ [length (concat ks)]) ! i) (concat ks))) [0..<length ks])"
  then have i: "i < length ks" by simp
  then have "(starts ks @ [length (concat ks)]) ! (i + 1) = length (concat (take (Suc i) ks))"
    by (cases "Suc i = length ks") (simp_all add: nth_append starts_nth)
  moreover have "(starts ks @ [length (concat ks)]) ! i = length (concat (take i ks))"
    using i by (simp add: nth_append starts_nth)
  ultimately show "map (\<lambda>i. take ((starts ks @ [length (concat ks)]) ! (i + 1) - (starts ks @ [length (concat ks)]) ! i)
     (drop ((starts ks @ [length (concat ks)]) ! i) (concat ks))) [0..<length ks] ! i = ks ! i"
    using concat_slice [OF i, of "[]"] i by simp
qed simp

text \<open>
  \<open>covered\<close>: every key that belongs to filter \<open>i\<close> is matched by it, if it exists already, and is
  pending otherwise.
\<close>

definition covered :: "FilterPolicy \<Rightarrow> bytes list \<Rightarrow> bytes list \<Rightarrow> (nat \<times> bytes) set \<Rightarrow> bool" where
  "covered p fs pending H \<longleftrightarrow>
     (\<forall>(i, k) \<in> H. i < length fs \<and> FilterMayMatch p k (fs ! i) \<or> i = length fs \<and> k \<in> set pending)"

definition block_keys :: "(64 word \<times> bytes list) list \<Rightarrow> (nat \<times> bytes) set" where
  "block_keys blocks = (\<Union>(off, keys) \<in> set blocks. {unat off div kFilterBase} \<times> set keys)"

definition build_filters :: "FilterPolicy \<Rightarrow> (64 word \<times> bytes list) list \<Rightarrow> filter_builder \<Rightarrow> filter_builder" where
  "build_filters p blocks b = fold (\<lambda>(off, keys) b. fold AddKey keys (StartBlock p off b)) blocks b"

definition key_count :: "(64 word \<times> bytes list) list \<Rightarrow> nat" where
  "key_count blocks = sum_list (map (\<lambda>(off, keys). length keys) blocks)"

lemma covered_AddKeys:
  "covered p fs pending H \<Longrightarrow> covered p fs (pending @ keys) (H \<union> {length fs} \<times> set keys)"
  by (auto simp: covered_def)

context filter_policy
begin

lemma GenerateFilter_builds:
  assumes "builds b fs pending" and "fits (length pending)"
  obtains f where "builds (GenerateFilter p b) (fs @ [f]) []"
    and "\<And>H. covered p fs pending H \<Longrightarrow> covered p (fs @ [f]) [] H"
proof (cases pending)
  case Nil
  with assms have "builds (GenerateFilter p b) (fs @ [[]]) []"
    by (simp add: builds_def GenerateFilter_def Let_def starts_snoc)
  moreover have "covered p (fs @ [[]]) [] H" if "covered p fs pending H" for H
    using that Nil by (fastforce simp: covered_def nth_append)
  ultimately show ?thesis by (rule that)
next
  case (Cons k ks)
  then have some: "pending \<noteq> []" by simp
  obtain f where f: "CreateFilter p pending (fb_result b) = fb_result b @ f"
      "\<forall>k \<in> set pending. FilterMayMatch p k f"
    using creates [OF assms(2)] by blast
  have "GenerateFilter p b = b\<lparr>filter_offsets := filter_offsets b @ [of_nat (length (fb_result b))],
      fb_result := CreateFilter p pending (fb_result b), flat_keys := [], key_start := []\<rparr>"
    using assms(1) some pending_keys [of pending]
    by (simp add: GenerateFilter_def Let_def builds_def del: map_map)
  with f assms(1) have "builds (GenerateFilter p b) (fs @ [f]) []"
    by (simp add: builds_def starts_snoc) (simp add: starts_def)
  moreover have "covered p (fs @ [f]) [] H" if "covered p fs pending H" for H
    using that f(2) by (fastforce simp: covered_def nth_append)
  ultimately show ?thesis by (rule that)
qed

lemma StartBlock_builds:
  assumes "builds b fs pending" and "fits (length pending)" and "length fs \<le> idx"
  obtains fs' pending' where "builds (StartBlock_loop p idx b) fs' pending'" and "length fs' = idx"
    and "length pending' \<le> length pending"
    and "\<And>H. covered p fs pending H \<Longrightarrow> covered p fs' pending' H"
proof -
  have "\<exists>fs' pending'. builds (StartBlock_loop p idx b) fs' pending' \<and> length fs' = idx \<and>
      length pending' \<le> length pending \<and> (\<forall>H. covered p fs pending H \<longrightarrow> covered p fs' pending' H)"
    using assms
  proof (induction "idx - length fs" arbitrary: b fs pending)
    case 0
    then have "length fs = idx" and "length (filter_offsets b) = length fs"
      by (simp_all add: builds_def)
    with 0 show ?case by (subst StartBlock_loop.simps) auto
  next
    case (Suc n)
    then have lt: "length (filter_offsets b) < idx" by (simp add: builds_def)
    obtain f where f: "builds (GenerateFilter p b) (fs @ [f]) []"
        "\<And>H. covered p fs pending H \<Longrightarrow> covered p (fs @ [f]) [] H"
      using Suc.prems(1,2) by (rule GenerateFilter_builds) blast
    have "fits (length ([] :: bytes list))" using Suc.prems(2) fits_fewer by simp
    moreover have "n = idx - length (fs @ [f])" and "length (fs @ [f]) \<le> idx" using Suc.hyps(2) by simp_all
    ultimately obtain fs' pending' where
      "builds (StartBlock_loop p idx (GenerateFilter p b)) fs' pending'" "length fs' = idx"
      "length pending' \<le> length ([] :: bytes list)" "\<forall>H. covered p (fs @ [f]) [] H \<longrightarrow> covered p fs' pending' H"
      using Suc.hyps(1) [OF _ f(1)] by metis
    with lt f(2) show ?case
      by (intro exI [of _ fs'] exI [of _ pending']) (simp add: StartBlock_loop.simps [of p idx b])
  qed
  with that show ?thesis by blast
qed

lemma build_filters_builds:
  assumes "builds b fs pending" and "covered p fs pending H" and "fits (length pending + key_count blocks)"
    and "sorted (map (\<lambda>(off, keys). unat off div kFilterBase) blocks)"
    and "\<forall>(off, keys) \<in> set blocks. length fs \<le> unat off div kFilterBase"
  obtains fs' pending' where "builds (build_filters p blocks b) fs' pending'"
    and "covered p fs' pending' (H \<union> block_keys blocks)"
    and "fits (length pending')"
  using assms
proof (induction blocks arbitrary: b fs pending H thesis)
  case Nil
  then show ?case by (simp add: build_filters_def block_keys_def key_count_def)
next
  case (Cons block blocks)
  obtain off keys where block: "block = (off, keys)" by (cases block)
  let ?idx = "unat off div kFilterBase"
  have "fits (length pending)" using Cons.prems(4) by (rule fits_fewer) simp
  moreover have "length fs \<le> ?idx" using Cons.prems(6) block by simp
  ultimately obtain fs1 pending1 where 1: "builds (StartBlock_loop p ?idx b) fs1 pending1"
      "length fs1 = ?idx" "length pending1 \<le> length pending" "covered p fs1 pending1 H"
    using StartBlock_builds [OF Cons.prems(2)] Cons.prems(3) by metis
  let ?b = "fold AddKey keys (StartBlock p off b)"
  have "builds ?b fs1 (pending1 @ keys)"
    unfolding StartBlock_def using 1(1) by (rule builds_AddKeys)
  moreover have "covered p fs1 (pending1 @ keys) (H \<union> {?idx} \<times> set keys)"
    using covered_AddKeys [OF 1(4)] by (simp add: 1(2))
  moreover have "fits (length (pending1 @ keys) + key_count blocks)"
    using Cons.prems(4) by (rule fits_fewer) (use 1(3) in \<open>simp add: key_count_def block\<close>)
  moreover have "sorted (map (\<lambda>(off, keys). unat off div kFilterBase) blocks)"
    and "\<forall>(off, keys) \<in> set blocks. length fs1 \<le> unat off div kFilterBase"
    using Cons.prems(5) by (auto simp: block 1(2))
  ultimately obtain fs' pending' where "builds (build_filters p blocks ?b) fs' pending'"
      "covered p fs' pending' ((H \<union> {?idx} \<times> set keys) \<union> block_keys blocks)" "fits (length pending')"
    by (rule Cons.IH [rotated])
  then show ?case
    by (intro Cons.prems(1)) (simp_all add: build_filters_def block block_keys_def Un_assoc)
qed

end

section \<open>Reading what was built\<close>

lemma FilterFinish_bytes:
  assumes "builds b fs []"
  shows "FilterFinish p b =
    concat fs @ fixed32_array (map of_nat (starts fs)) @ EncodeFixed32 (of_nat (length (concat fs))) @ [11]"
  using assms
  by (simp add: builds_def FilterFinish_def Let_def starts_def [of "[]"] fold_PutFixed32 kFilterBaseLg_def)
    (simp add: PutFixed32_def)

lemma reader_of_built:
  assumes "length (concat fs) < 2 ^ 32"
  defines "contents \<equiv> concat fs @ fixed32_array (map of_nat (starts fs)) @ EncodeFixed32 (of_nat (length (concat fs))) @ [11]"
  shows "new_FilterBlockReader contents =
    \<lparr>fr_data = contents, fr_offset = length (concat fs), fr_num = length fs, fr_base_lg = 11\<rparr>"
proof -
  have len: "length contents = length (concat fs) + 4 * length fs + 5" by (simp add: contents_def)
  have "drop (length contents - 5) contents = EncodeFixed32 (of_nat (length (concat fs))) @ [11]"
    unfolding len by (simp add: contents_def)
  then have "unat (DecodeFixed32 (drop (length contents - 5) contents)) = length (concat fs)"
    using assms(1) by (simp add: unat_of_nat)
  moreover have "contents ! (length contents - 1) = 11"
    unfolding len by (simp add: contents_def nth_append)
  ultimately show ?thesis using len by (simp add: new_FilterBlockReader_def Let_def)
qed

lemma starts_le: "i < length xs \<Longrightarrow> starts xs ! i + length (xs ! i) \<le> length (concat xs)"
proof -
  assume i: "i < length xs"
  then have "concat xs = concat (take i xs) @ xs ! i @ concat (drop (Suc i) xs)"
    by (metis append_take_drop_id concat.simps(2) concat_append id_take_nth_drop)
  then show ?thesis using i by (simp add: starts_nth)
qed

lemma FilterKeyMayMatch_built:
  assumes small: "length (concat fs) < 2 ^ 32" and i: "unat off div kFilterBase < length fs"
  shows "FilterKeyMayMatch p
      (new_FilterBlockReader (concat fs @ fixed32_array (map of_nat (starts fs)) @
        EncodeFixed32 (of_nat (length (concat fs))) @ [11])) off key =
    Ret (FilterMayMatch p key (fs ! (unat off div kFilterBase)))"
proof -
  let ?i = "unat off div kFilterBase"
  let ?L = "length (concat fs)"
  let ?ws = "map of_nat (starts fs) @ [of_nat ?L] :: 32 word list"
  let ?c = "concat fs @ fixed32_array (map of_nat (starts fs)) @ EncodeFixed32 (of_nat ?L) @ [11]"
  have c: "?c = concat fs @ fixed32_array ?ws @ [11]" by simp
  have at: "unat (DecodeFixed32 (drop (?L + 4 * j) ?c)) = (starts fs @ [?L]) ! j" if "j \<le> length fs" for j
  proof -
    have "drop (?L + 4 * j) ?c = drop (4 * j) (fixed32_array ?ws @ [11])" unfolding c by simp
    moreover have "?ws ! j = of_nat ((starts fs @ [?L]) ! j)"
      using that by (simp add: nth_append)
    moreover have "(starts fs @ [?L]) ! j \<le> ?L"
      using that starts_le [of j fs] by (auto simp: nth_append dest: add_leD1)
    ultimately show ?thesis
      using that small DecodeFixed32_array [of j ?ws "[11]"] by (simp only:) (simp add: unat_of_nat)
  qed
  have start: "unat (DecodeFixed32 (drop (?L + ?i * 4) ?c)) = length (concat (take ?i fs))"
    using at [of ?i] i by (simp add: mult.commute nth_append starts_nth)
  have limit: "unat (DecodeFixed32 (drop (?L + ?i * 4 + 4) ?c)) = length (concat (take (Suc ?i) fs))"
  proof -
    have "?L + ?i * 4 + 4 = ?L + 4 * Suc ?i" by simp
    then show ?thesis
      using at [of "Suc ?i"] i by (cases "Suc ?i = length fs") (simp_all only:, simp_all add: nth_append starts_nth)
  qed
  have le: "length (concat (take ?i fs)) \<le> length (concat (take (Suc ?i) fs))"
    and le': "length (concat (take (Suc ?i) fs)) \<le> ?L"
    using i starts_le [of ?i fs] by (simp_all add: take_Suc_conv_app_nth starts_nth)
  have slice: "take (length (concat (take (Suc ?i) fs)) - length (concat (take ?i fs)))
      (drop (length (concat (take ?i fs))) ?c) = fs ! ?i"
    by (rule concat_slice [OF i])
  have index: "unat (drop_bit 11 off) = ?i"
    by (simp add: unat_drop_bit kFilterBase_def kFilterBaseLg_def)
  define c where "c = ?c"
  show ?thesis
    using i le le'
    unfolding FilterKeyMayMatch_def Let_def c_def [symmetric]
    by (simp add: reader_of_built [OF small, folded c_def] index start [folded c_def] limit [folded c_def] slice [folded c_def])
qed

lemma built_filter_matches:
  assumes policy: "filter_policy p fits"
    and fits: "fits (key_count blocks)"
    and order: "sorted (map (\<lambda>(off, keys). unat off div kFilterBase) blocks)"
    and small: "length (FilterFinish p (build_filters p blocks new_FilterBlockBuilder)) < 2 ^ 32"
    and block: "(off, keys) \<in> set blocks" "keys \<noteq> []"
  shows "\<exists>f. (\<forall>k. FilterKeyMayMatch p
    (new_FilterBlockReader (FilterFinish p (build_filters p blocks new_FilterBlockBuilder))) off k = Ret (FilterMayMatch p k f)) \<and>
    (\<forall>k \<in> set keys. FilterMayMatch p k f)"
proof -
  let ?b = "build_filters p blocks new_FilterBlockBuilder"
  have fits': "fits (length ([] :: bytes list) + key_count blocks)" using fits by simp
  obtain fs pending where b: "builds ?b fs pending" "covered p fs pending ({} \<union> block_keys blocks)"
      "fits (length pending)"
    by (rule filter_policy.build_filters_builds [OF policy builds_new _ fits' order, of "{}"])
      (auto simp: covered_def)
  obtain fs' b' where b': "FilterFinish p ?b = FilterFinish p b'" "builds b' fs' []"
      "covered p fs' [] (block_keys blocks)"
  proof (cases "key_start ?b = []")
    case True
    with b(1) have "pending = []" by (auto simp: builds_def starts_def)
    with b that show ?thesis by simp
  next
    case False
    obtain f where f: "builds (GenerateFilter p ?b) (fs @ [f]) []"
        "\<And>H. covered p fs pending H \<Longrightarrow> covered p (fs @ [f]) [] H"
      by (rule filter_policy.GenerateFilter_builds [OF policy b(1,3)]) blast
    have "key_start (GenerateFilter p ?b) = []" using f(1) by (simp add: builds_def starts_def)
    with False have "FilterFinish p ?b = FilterFinish p (GenerateFilter p ?b)"
      by (simp add: FilterFinish_def Let_def)
    with f b(2) that show ?thesis by simp
  qed
  have in_block: "{unat off div kFilterBase} \<times> set keys \<subseteq> block_keys blocks"
    using block(1) by (auto simp: block_keys_def)
  then have match: "\<forall>k \<in> set keys. FilterMayMatch p k (fs' ! (unat off div kFilterBase))"
    using b'(3) by (fastforce simp: covered_def)
  have "hd keys \<in> set keys" using block(2) by simp
  then have i: "unat off div kFilterBase < length fs'" using b'(3) in_block by (fastforce simp: covered_def)
  have "length (concat fs') < 2 ^ 32" using small unfolding b'(1) FilterFinish_bytes [OF b'(2)] by simp
  from FilterKeyMayMatch_built [OF this i, of p] match show ?thesis
    unfolding b'(1) FilterFinish_bytes [OF b'(2)] by blast
qed

text \<open>
  C21. A filter block never denies a key. Take any filter policy that meets its contract, and the
  blocks of a table with their keys in the order of their offsets. The reader of the finished filter
  block, asked for the offset of a block, answers true for each of its keys.
\<close>
theorem filter_block_sound:
  assumes policy: "filter_policy p fits"
    and fits: "fits (key_count blocks)"
    and order: "sorted (map (\<lambda>(off, keys). unat off div kFilterBase) blocks)"
    and small: "length (FilterFinish p (build_filters p blocks new_FilterBlockBuilder)) < 2 ^ 32"
    and block: "(off, keys) \<in> set blocks" "key \<in> set keys"
  shows "FilterKeyMayMatch p
    (new_FilterBlockReader (FilterFinish p (build_filters p blocks new_FilterBlockBuilder))) off key = Ret True"
  using built_filter_matches [OF assms(1-4) block(1)] block(2) by fastforce

theorem filter_block_sound_witness:
  "FilterKeyMayMatch (bloom_policy (new_BloomFilterPolicy 10 6))
    (new_FilterBlockReader (FilterFinish (bloom_policy (new_BloomFilterPolicy 10 6))
      (build_filters (bloom_policy (new_BloomFilterPolicy 10 6))
        [(0, [[97], [98]]), (4096, [[99]])] new_FilterBlockBuilder))) 4096 [99] = Ret True"
proof (rule filter_block_sound [OF bloom.user.filter_policy_axioms, where keys = "[[99]]"])
  show "bloom_fits (new_BloomFilterPolicy 10 6) (key_count [(0, [[97], [98]]), (4096, [[99]])])"
    by (simp add: bloom_fits_def new_BloomFilterPolicy_def Let_def key_count_def)
  show "sorted (map (\<lambda>(off, keys). unat off div kFilterBase) [(0 :: 64 word, [[97], [98]]), (4096, [[99 :: 8 word]])])"
    by simp
  show "(4096, [[99]]) \<in> set [(0 :: 64 word, [[97], [98]]), (4096, [[99 :: 8 word]])]" by simp
  show "[99 :: 8 word] \<in> set [[99]]" by (rule list.set_intros)
  show "length (FilterFinish (bloom_policy (new_BloomFilterPolicy 10 6))
      (build_filters (bloom_policy (new_BloomFilterPolicy 10 6))
        [(0, [[97], [98]]), (4096, [[99]])] new_FilterBlockBuilder)) < 2 ^ 32"
    by (simp add: build_filters_def StartBlock_def kFilterBase_def kFilterBaseLg_def StartBlock_loop.simps
        new_FilterBlockBuilder_def AddKey_def GenerateFilter_def Let_def FilterFinish_def fold_PutFixed32
        PutFixed32_def bloom_policy_def bloom_create_def bloom_bytes_def new_BloomFilterPolicy_def bloom_add_key_def)
qed

end
