(* ===== verification/LdbStatus.thy ===== *)
theory LdbStatus
  imports LdbCoding
begin

text \<open>
  LevelDB, \<^verbatim>\<open>leveldb/status.h\<close> and \<^verbatim>\<open>util/status.cc\<close>: the result of an operation. As in
  the code, OK is the null state and an error is one array that holds the length of the message,
  the code and the message.
\<close>

type_synonym Status = "bytes option"

text \<open>A string literal as the bytes it is compiled to.\<close>

definition ascii :: "string \<Rightarrow> bytes" where
  "ascii s = map of_char s"

definition OK :: Status where "OK = None"

definition ok :: "Status \<Rightarrow> bool" where "ok s \<longleftrightarrow> s = None"

definition kOk :: "8 word" where "kOk = 0"
definition kNotFound :: "8 word" where "kNotFound = 1"
definition kCorruption :: "8 word" where "kCorruption = 2"
definition kNotSupported :: "8 word" where "kNotSupported = 3"
definition kInvalidArgument :: "8 word" where "kInvalidArgument = 4"
definition kIOError :: "8 word" where "kIOError = 5"

definition new_Status :: "8 word \<Rightarrow> bytes \<Rightarrow> bytes \<Rightarrow> Status" where
  "new_Status code msg msg2 =
     (let len1 = of_nat (length msg) :: 32 word; len2 = of_nat (length msg2) :: 32 word;
          sz = len1 + (if len2 \<noteq> 0 then 2 + len2 else 0) in
      Some (EncodeFixed32 sz @ [code] @ take (unat len1) msg @
        (if len2 \<noteq> 0 then ascii '': '' @ take (unat len2) msg2 else [])))"

definition CopyState :: "bytes \<Rightarrow> bytes" where
  "CopyState state = take (unat (DecodeFixed32 state + 5)) state"

definition copy_Status :: "Status \<Rightarrow> Status" where
  "copy_Status s = (case s of None \<Rightarrow> None | Some state \<Rightarrow> Some (CopyState state))"

definition NotFound :: "bytes \<Rightarrow> bytes \<Rightarrow> Status" where "NotFound = new_Status kNotFound"
definition Corruption :: "bytes \<Rightarrow> bytes \<Rightarrow> Status" where "Corruption = new_Status kCorruption"
definition NotSupported :: "bytes \<Rightarrow> bytes \<Rightarrow> Status" where "NotSupported = new_Status kNotSupported"
definition InvalidArgument :: "bytes \<Rightarrow> bytes \<Rightarrow> Status" where "InvalidArgument = new_Status kInvalidArgument"
definition IOError :: "bytes \<Rightarrow> bytes \<Rightarrow> Status" where "IOError = new_Status kIOError"

definition status_code :: "Status \<Rightarrow> 8 word" where
  "status_code s = (case s of None \<Rightarrow> kOk | Some state \<Rightarrow> state ! 4)"

definition IsNotFound :: "Status \<Rightarrow> bool" where "IsNotFound s \<longleftrightarrow> status_code s = kNotFound"
definition IsCorruption :: "Status \<Rightarrow> bool" where "IsCorruption s \<longleftrightarrow> status_code s = kCorruption"
definition IsIOError :: "Status \<Rightarrow> bool" where "IsIOError s \<longleftrightarrow> status_code s = kIOError"

text \<open>The text of an unknown code is formatted by \<open>snprintf\<close>, which is a parameter here.\<close>

definition status_ToString :: "(8 word \<Rightarrow> bytes) \<Rightarrow> Status \<Rightarrow> bytes" where
  "status_ToString unknown s =
     (case s of
        None \<Rightarrow> ascii ''OK''
      | Some state \<Rightarrow>
          (let code = status_code s in
           if code = kOk then ascii ''OK''
           else if code = kNotFound then ascii ''NotFound: ''
           else if code = kCorruption then ascii ''Corruption: ''
           else if code = kNotSupported then ascii ''Not implemented: ''
           else if code = kInvalidArgument then ascii ''Invalid argument: ''
           else if code = kIOError then ascii ''IO error: ''
           else unknown code) @
          take (unat (DecodeFixed32 state)) (drop 5 state))"

lemmas code_defs = kOk_def kNotFound_def kCorruption_def kNotSupported_def kInvalidArgument_def kIOError_def

lemma ok_OK [simp]: "ok OK"
  by (simp add: ok_def OK_def)

lemma status_code_new: "status_code (new_Status code msg msg2) = code"
  by (simp add: status_code_def new_Status_def Let_def nth_append)

lemma not_ok_new [simp]: "\<not> ok (new_Status code msg msg2)"
  by (simp add: ok_def new_Status_def Let_def)

lemma not_ok_errors [simp]:
  "\<not> ok (NotFound msg msg2)" "\<not> ok (Corruption msg msg2)" "\<not> ok (NotSupported msg msg2)"
  "\<not> ok (InvalidArgument msg msg2)" "\<not> ok (IOError msg msg2)"
  by (simp_all add: NotFound_def Corruption_def NotSupported_def InvalidArgument_def IOError_def)

text \<open>
  A status keeps what it was built from: the code, and, for messages that fit the 32-bit length,
  the text \<open>msg: msg2\<close> (or \<open>msg\<close> alone when \<open>msg2\<close> is empty) behind the name of the code. A copy is
  equal to the original, the code queries answer for exactly their code, and only OK is ok.
\<close>
theorem status_keeps_message:
  assumes "length msg + length msg2 + 7 < 2 ^ 32"
  shows "status_ToString unknown (Corruption msg msg2) =
      ascii ''Corruption: '' @ msg @ (if msg2 = [] then [] else ascii '': '' @ msg2) \<and>
    status_ToString unknown (IOError msg msg2) =
      ascii ''IO error: '' @ msg @ (if msg2 = [] then [] else ascii '': '' @ msg2) \<and>
    copy_Status (new_Status code msg msg2) = new_Status code msg msg2 \<and>
    IsCorruption (Corruption msg msg2) \<and> IsNotFound (NotFound msg msg2) \<and> IsIOError (IOError msg msg2) \<and>
    \<not> IsNotFound (Corruption msg msg2) \<and> \<not> IsCorruption (IOError msg msg2) \<and> \<not> ok (new_Status code msg msg2)"
proof -
  let ?text = "msg @ (if msg2 = [] then [] else ascii '': '' @ msg2)"
  have small: "length msg < 2 ^ 32" "length msg2 < 2 ^ 32" "length ?text < 2 ^ 32" "length ?text + 5 < 2 ^ 32"
    using assms by (simp_all add: ascii_def)
  have len2: "(of_nat (length msg2) :: 32 word) \<noteq> 0 \<longleftrightarrow> msg2 \<noteq> []"
    using small(2) by (simp add: word_unat_eq_iff unat_of_nat)
  have sz: "of_nat (length msg) + (if (of_nat (length msg2) :: 32 word) \<noteq> 0 then 2 + of_nat (length msg2) else 0) =
      (of_nat (length ?text) :: 32 word)"
    unfolding len2 by (simp add: ascii_def)
  have new: "new_Status c msg msg2 = Some (EncodeFixed32 (of_nat (length ?text)) @ [c] @ ?text)" for c
    unfolding new_Status_def Let_def sz len2 using small(1,2) by (simp add: unat_of_nat) (simp add: ascii_def)
  have "drop 5 (EncodeFixed32 (of_nat (length ?text)) @ [c] @ ?text) = ?text" for c by simp
  moreover have "unat (of_nat (length ?text) :: 32 word) = length ?text"
    using small(3) by (rule unat_of_nat_32)
  ultimately have msgs: "take (unat (DecodeFixed32 (EncodeFixed32 (of_nat (length ?text)) @ [c] @ ?text)))
      (drop 5 (EncodeFixed32 (of_nat (length ?text)) @ [c] @ ?text)) = ?text" for c
    by (simp only: DecodeFixed32_Encode) simp
  have tostring: "status_ToString unknown (new_Status c msg msg2) =
      (if c = kOk then ascii ''OK'' else if c = kNotFound then ascii ''NotFound: ''
       else if c = kCorruption then ascii ''Corruption: '' else if c = kNotSupported then ascii ''Not implemented: ''
       else if c = kInvalidArgument then ascii ''Invalid argument: '' else if c = kIOError then ascii ''IO error: ''
       else unknown c) @ ?text" for c
    using status_code_new [of c msg msg2]
    unfolding status_ToString_def new Let_def option.case msgs by (simp only:)
  have "unat (of_nat (length ?text) + 5 :: 32 word) = length ?text + 5"
    using small(4) unat_of_nat [where 'a = 32, of "length ?text + 5"] by simp
  then have "copy_Status (new_Status code msg msg2) = new_Status code msg msg2"
    unfolding new copy_Status_def option.case CopyState_def DecodeFixed32_Encode by simp
  then show ?thesis
    using tostring [of kCorruption] tostring [of kIOError]
    by (simp add: Corruption_def IOError_def NotFound_def IsCorruption_def IsNotFound_def IsIOError_def
        status_code_new code_defs)
qed

theorem status_keeps_message_witness:
  "status_ToString (\<lambda>_. []) (Corruption (ascii ''bad'') (ascii ''x'')) = ascii ''Corruption: bad: x''"
  using status_keeps_message [of "ascii ''bad''" "ascii ''x''" "\<lambda>_. []" 0] by (simp add: ascii_def)

end
