(* ===== verification/LdbEnv.thy ===== *)
theory LdbEnv
  imports LdbStatus
begin

text \<open>
  LevelDB, the file interfaces of \<^verbatim>\<open>leveldb/env.h\<close> and their POSIX implementation in
  \<^verbatim>\<open>util/env_posix.cc\<close>. The C library under it is a parameter: \<open>stdio\<close> holds the calls the
  code makes. What the log relies on is stated twice as a contract, of sequential files and of
  writable files, and shown to follow from what the C library promises for a file without errors.
\<close>

section \<open>The interfaces\<close>

record 'f SequentialFile =
  sf_read :: "nat \<Rightarrow> 'f \<Rightarrow> Status \<times> bytes \<times> 'f"
  sf_skip :: "64 word \<Rightarrow> 'f \<Rightarrow> Status \<times> 'f"
  sf_delete :: "'f \<Rightarrow> 'f"

record 'f WritableFile =
  wf_append :: "bytes \<Rightarrow> 'f \<Rightarrow> Status \<times> 'f"
  wf_flush :: "'f \<Rightarrow> Status \<times> 'f"
  wf_sync :: "'f \<Rightarrow> Status \<times> 'f"
  wf_close :: "'f \<Rightarrow> Status \<times> 'f"
  wf_delete :: "'f \<Rightarrow> 'f"

text \<open>A file that is read without errors: what is left, and each read takes the front of it.\<close>

locale sequential_file =
  fixes sf :: "'f SequentialFile" and left :: "'f \<Rightarrow> bytes"
  assumes read: "\<exists>f'. sf_read sf n f = (OK, take n (left f), f') \<and> left f' = drop n (left f)"
    and skip: "\<exists>f'. sf_skip sf k f = (OK, f') \<and> left f' = drop (unat k) (left f)"

text \<open>A file that is written without errors.\<close>

locale writable_file =
  fixes wfile :: "'f WritableFile" and contents :: "'f \<Rightarrow> bytes"
  assumes append: "\<exists>f'. wf_append wfile d f = (OK, f') \<and> contents f' = contents f @ d"
    and flush: "\<exists>f'. wf_flush wfile f = (OK, f') \<and> contents f' = contents f"

section \<open>POSIX files\<close>

text \<open>
  The calls of the C library and the kernel: results and the new state of the open file;
  \<open>file_open\<close> is whether the file has not been closed, which the code records in \<open>file_\<close>;
  \<open>strerror\<close> is the text for the current \<open>errno\<close>.
\<close>

record 'h stdio =
  fread :: "nat \<Rightarrow> 'h \<Rightarrow> bytes \<times> 'h"
  feof :: "'h \<Rightarrow> bool"
  fseek_cur :: "64 word \<Rightarrow> 'h \<Rightarrow> bool \<times> 'h"
  fwrite :: "bytes \<Rightarrow> 'h \<Rightarrow> nat \<times> 'h"
  fflush :: "'h \<Rightarrow> bool \<times> 'h"
  fclose :: "'h \<Rightarrow> bool \<times> 'h"
  file_open :: "'h \<Rightarrow> bool"
  fdatasync :: "'h \<Rightarrow> bool \<times> 'h"
  pread :: "nat \<Rightarrow> 64 word \<Rightarrow> 'h \<Rightarrow> bytes option \<times> 'h"
  open_rdonly :: "bytes \<Rightarrow> 'h \<Rightarrow> bool \<times> 'h"
  fsync_dir :: "bytes \<Rightarrow> 'h \<Rightarrow> bool \<times> 'h"
  strerror :: "'h \<Rightarrow> bytes"

definition posix_IOError :: "'h stdio \<Rightarrow> bytes \<Rightarrow> 'h \<Rightarrow> Status" where
  "posix_IOError io context h = IOError context (strerror io h)"

definition PosixSequentialFile_Read :: "'h stdio \<Rightarrow> bytes \<Rightarrow> nat \<Rightarrow> 'h \<Rightarrow> Status \<times> bytes \<times> 'h" where
  "PosixSequentialFile_Read io filename n file =
     (let (result, file) = fread io n file; r = length result in
      (if r < n then if feof io file then OK else posix_IOError io filename file else OK, result, file))"

definition PosixSequentialFile_Skip :: "'h stdio \<Rightarrow> bytes \<Rightarrow> 64 word \<Rightarrow> 'h \<Rightarrow> Status \<times> 'h" where
  "PosixSequentialFile_Skip io filename n file =
     (let (failed, file) = fseek_cur io n file in
      (if failed then posix_IOError io filename file else OK, file))"

definition PosixSequentialFile :: "'h stdio \<Rightarrow> bytes \<Rightarrow> 'h SequentialFile" where
  "PosixSequentialFile io filename =
     \<lparr>sf_read = PosixSequentialFile_Read io filename, sf_skip = PosixSequentialFile_Skip io filename,
      sf_delete = (\<lambda>h. snd (fclose io h))\<rparr>"

definition PosixRandomAccessFile_Read :: "'h stdio \<Rightarrow> bytes \<Rightarrow> 64 word \<Rightarrow> nat \<Rightarrow> 'h \<Rightarrow> Status \<times> bytes \<times> 'h" where
  "PosixRandomAccessFile_Read io filename offset n fd =
     (case pread io n offset fd of
        (None, fd) \<Rightarrow> (posix_IOError io filename fd, [], fd)
      | (Some result, fd) \<Rightarrow> (OK, result, fd))"

text \<open>
  The mapped file: \<open>region\<close> is the mapped contents, \<open>EINVAL\<close> the text of that error. The bound is
  checked with a 64-bit sum, so a slice that is not inside the region can pass; \<open>None\<close> is then
  the slice the code makes out of memory that is not mapped.
\<close>

definition PosixMmapReadableFile_Read ::
  "bytes \<Rightarrow> bytes \<Rightarrow> bytes \<Rightarrow> 64 word \<Rightarrow> 64 word \<Rightarrow> (Status \<times> bytes) option" where
  "PosixMmapReadableFile_Read EINVAL filename region offset n =
     (if of_nat (length region) < offset + n then Some (IOError filename EINVAL, [])
      else if unat offset + unat n \<le> length region
        then Some (OK, take (unat n) (drop (unat offset) region))
      else None)"

definition PosixWritableFile_Append :: "'h stdio \<Rightarrow> bytes \<Rightarrow> bytes \<Rightarrow> 'h \<Rightarrow> Status \<times> 'h" where
  "PosixWritableFile_Append io filename data file =
     (let (r, file) = fwrite io data file in
      (if r \<noteq> length data then posix_IOError io filename file else OK, file))"

definition PosixWritableFile_Flush :: "'h stdio \<Rightarrow> bytes \<Rightarrow> 'h \<Rightarrow> Status \<times> 'h" where
  "PosixWritableFile_Flush io filename file =
     (let (failed, file) = fflush io file in
      (if failed then posix_IOError io filename file else OK, file))"

definition PosixWritableFile_Close :: "'h stdio \<Rightarrow> bytes \<Rightarrow> 'h \<Rightarrow> Status \<times> 'h" where
  "PosixWritableFile_Close io filename file =
     (let (failed, file) = fclose io file in
      (if failed then posix_IOError io filename file else OK, file))"

text \<open>The directory and the base name, at the last slash.\<close>

definition split_path :: "bytes \<Rightarrow> bytes \<times> bytes" where
  "split_path f =
     (let base = rev (takeWhile (\<lambda>c. c \<noteq> of_char CHR ''/'') (rev f)) in
      if length base = length f then (ascii ''.'', f)
      else (take (length f - length base - 1) f, base))"

definition SyncDirIfManifest :: "'h stdio \<Rightarrow> bytes \<Rightarrow> 'h \<Rightarrow> Status \<times> 'h" where
  "SyncDirIfManifest io filename h =
     (let (dir, basename) = split_path filename in
      if starts_with basename (ascii ''MANIFEST'') then
        (case open_rdonly io dir h of
           (False, h) \<Rightarrow> (posix_IOError io dir h, h)
         | (True, h) \<Rightarrow>
             (case fsync_dir io dir h of
                (failed, h) \<Rightarrow> (if failed then posix_IOError io dir h else OK, h)))
      else (OK, h))"

definition PosixWritableFile_Sync :: "'h stdio \<Rightarrow> bytes \<Rightarrow> 'h \<Rightarrow> Status \<times> 'h" where
  "PosixWritableFile_Sync io filename h =
     (case SyncDirIfManifest io filename h of
        (s, h) \<Rightarrow>
          if \<not> ok s then (s, h)
          else
            case fflush io h of
              (True, h) \<Rightarrow> (IOError filename (strerror io h), h)
            | (False, h) \<Rightarrow>
                (case fdatasync io h of
                   (failed, h) \<Rightarrow> (if failed then IOError filename (strerror io h) else s, h)))"

definition PosixWritableFile_delete :: "'h stdio \<Rightarrow> 'h \<Rightarrow> 'h" where
  "PosixWritableFile_delete io h = (if file_open io h then snd (fclose io h) else h)"

definition PosixWritableFile :: "'h stdio \<Rightarrow> bytes \<Rightarrow> 'h WritableFile" where
  "PosixWritableFile io filename =
     \<lparr>wf_append = PosixWritableFile_Append io filename, wf_flush = PosixWritableFile_Flush io filename,
      wf_sync = PosixWritableFile_Sync io filename, wf_close = PosixWritableFile_Close io filename,
      wf_delete = PosixWritableFile_delete io\<rparr>"

section \<open>Limiter and lock table\<close>

text \<open>
  The counter of mapped files and the set of locked names. Each operation runs under its mutex, so
  it is one step; the first test of \<open>Acquire\<close> only avoids the lock.
\<close>

definition MmapLimiter_Acquire :: "int \<Rightarrow> bool \<times> int" where
  "MmapLimiter_Acquire allowed = (if allowed \<le> 0 then (False, allowed) else (True, allowed - 1))"

definition MmapLimiter_Release :: "int \<Rightarrow> int" where
  "MmapLimiter_Release allowed = allowed + 1"

definition PosixLockTable_Insert :: "bytes \<Rightarrow> bytes set \<Rightarrow> bool \<times> bytes set" where
  "PosixLockTable_Insert fname locked = (fname \<notin> locked, insert fname locked)"

definition PosixLockTable_Remove :: "bytes \<Rightarrow> bytes set \<Rightarrow> bytes set" where
  "PosixLockTable_Remove fname locked = locked - {fname}"

section \<open>The contracts on POSIX files\<close>

text \<open>
  What the C library documents for a regular file while no error occurs: \<open>fread\<close> returns as many
  bytes as asked for or reaches the end of the file, seeking forward skips, and \<open>fwrite\<close> writes all.
\<close>

locale error_free_stdio =
  fixes io :: "'h stdio" and unread :: "'h \<Rightarrow> bytes" and stored :: "'h \<Rightarrow> bytes"
  assumes fread: "\<exists>h'. fread io n h = (take n (unread h), h') \<and> unread h' = drop n (unread h) \<and>
      (length (unread h) < n \<longrightarrow> feof io h')"
    and fseek: "\<exists>h'. fseek_cur io k h = (False, h') \<and> unread h' = drop (unat k) (unread h)"
    and fwrite: "\<exists>h'. fwrite io d h = (length d, h') \<and> stored h' = stored h @ d"
    and fflush: "\<exists>h'. fflush io h = (False, h') \<and> stored h' = stored h"

sublocale error_free_stdio \<subseteq> posix_reads: sequential_file "PosixSequentialFile io filename" unread for filename
proof
  fix n h
  obtain h' where h': "fread io n h = (take n (unread h), h')" "unread h' = drop n (unread h)"
      "length (unread h) < n \<longrightarrow> feof io h'"
    using fread by blast
  then show "\<exists>h'. sf_read (PosixSequentialFile io filename) n h = (OK, take n (unread h), h') \<and> unread h' = drop n (unread h)"
    by (intro exI [of _ h']) (auto simp: PosixSequentialFile_def PosixSequentialFile_Read_def min_def)
next
  fix k h
  obtain h' where h': "fseek_cur io k h = (False, h')" "unread h' = drop (unat k) (unread h)"
    using fseek by blast
  then show "\<exists>h'. sf_skip (PosixSequentialFile io filename) k h = (OK, h') \<and> unread h' = drop (unat k) (unread h)"
    by (intro exI [of _ h']) (simp add: PosixSequentialFile_def PosixSequentialFile_Skip_def)
qed

sublocale error_free_stdio \<subseteq> posix_writes: writable_file "PosixWritableFile io filename" stored for filename
proof
  fix d h
  obtain h' where "fwrite io d h = (length d, h')" "stored h' = stored h @ d" using fwrite by blast
  then show "\<exists>h'. wf_append (PosixWritableFile io filename) d h = (OK, h') \<and> stored h' = stored h @ d"
    by (intro exI [of _ h']) (simp add: PosixWritableFile_def PosixWritableFile_Append_def)
next
  fix h
  obtain h' where "fflush io h = (False, h')" "stored h' = stored h" using fflush by blast
  then show "\<exists>h'. wf_flush (PosixWritableFile io filename) h = (OK, h') \<and> stored h' = stored h"
    by (intro exI [of _ h']) (simp add: PosixWritableFile_def PosixWritableFile_Flush_def)
qed

text \<open>
  A file on a disk that never fails: the bytes before and behind the position. Reading moves the
  position, writing appends behind the end.
\<close>

definition disk_stdio :: "(bytes \<times> bytes) stdio" where
  "disk_stdio =
     \<lparr>fread = (\<lambda>n (u, v). (take n u, (drop n u, v))), feof = (\<lambda>(u, v). u = []),
      fseek_cur = (\<lambda>k (u, v). (False, (drop (unat k) u, v))),
      fwrite = (\<lambda>d (u, v). (length d, (u, v @ d))), fflush = (\<lambda>h. (False, h)), fclose = (\<lambda>h. (False, h)), file_open = (\<lambda>_. True),
      fdatasync = (\<lambda>h. (False, h)), pread = (\<lambda>n off (u, v). (Some (take n (drop (unat off) v)), (u, v))),
      open_rdonly = (\<lambda>d h. (True, h)), fsync_dir = (\<lambda>d h. (False, h)), strerror = (\<lambda>h. [])\<rparr>"

interpretation disk: error_free_stdio disk_stdio fst snd
  by unfold_locales (auto simp: disk_stdio_def)

text \<open>
  The bound check of the mapped file is a wrapping 64-bit sum: for every region and every
  nonzero length there is an offset near \<open>2 ^ 64\<close> that passes it, although the slice lies outside.
\<close>
theorem mmap_bound_wraps:
  assumes "0 < n" and "length region < 2 ^ 64"
  shows "\<exists>offset. \<not> unat offset + unat n \<le> length region \<and>
    PosixMmapReadableFile_Read EINVAL filename region offset n = None"
proof -
  have n: "0 < unat n" using assms(1) by (simp add: unat_gt_0)
  have "(unat (- n) + unat n) mod 2 ^ 64 = unat (- n + n)"
    by (simp only: unat_word_ariths) simp
  also have "\<dots> = 0" by simp
  finally have "2 ^ 64 dvd unat (- n) + unat n" by (simp only: mod_eq_0_iff_dvd)
  then have "2 ^ 64 \<le> unat (- n) + unat n" using n by (intro dvd_imp_le) simp_all
  then have "\<not> unat (- n) + unat n \<le> length region" using assms(2) by linarith
  moreover have "\<not> of_nat (length region) < - n + n" by simp
  ultimately show ?thesis
    by (intro exI [of _ "- n"]) (simp add: PosixMmapReadableFile_Read_def)
qed

theorem mmap_bound_wraps_witness:
  "\<exists>offset. PosixMmapReadableFile_Read [] [] [1, 2, 3] offset 2 = None"
  using mmap_bound_wraps [of 2 "[1, 2, 3]" "[]" "[]"] by auto

end
