(* ===== verification/LdbLogWriter.thy ===== *)
theory LdbLogWriter
  imports LdbEnv LdbCrc
begin

text \<open>
  LevelDB, \<^verbatim>\<open>db/log_format.h\<close> and \<^verbatim>\<open>db/log_writer.cc\<close>: the write-ahead log is a sequence of
  32 KiB blocks; a record is cut into fragments that do not cross a block, each behind a header of
  checksum, length and type, and the last bytes of a block that cannot hold a header are zero. The
  lemmas give the bytes a record adds, as a function of the offset in the block.
\<close>

section \<open>The format\<close>

definition kZeroType :: nat where "kZeroType = 0"
definition kFullType :: nat where "kFullType = 1"
definition kFirstType :: nat where "kFirstType = 2"
definition kMiddleType :: nat where "kMiddleType = 3"
definition kLastType :: nat where "kLastType = 4"
definition kMaxRecordType :: nat where "kMaxRecordType = kLastType"
definition kBlockSize :: nat where "kBlockSize = 32768"
definition kHeaderSize :: nat where "kHeaderSize = 4 + 2 + 1"

lemmas log_types = kZeroType_def kFullType_def kFirstType_def kMiddleType_def kLastType_def kMaxRecordType_def

section \<open>The writer\<close>

text \<open>
  Checksums do not depend on where the data lies in memory (\<open>Extend_is_crc32c\<close>), so the address
  is taken to be 0.
\<close>

abbreviation (input) crc_extend :: "32 word \<Rightarrow> bytes \<Rightarrow> 32 word" where
  "crc_extend \<equiv> Extend 0"

record 'f log_writer =
  dest :: 'f
  block_offset :: nat
  type_crc :: "32 word list"

definition new_log_Writer :: "'f \<Rightarrow> 'f log_writer" where
  "new_log_Writer d =
     \<lparr>dest = d, block_offset = 0,
      type_crc = map (\<lambda>i. crc_value 0 [of_nat i]) [0..<kMaxRecordType + 1]\<rparr>"

definition record_header :: "32 word \<Rightarrow> nat \<Rightarrow> nat \<Rightarrow> bytes" where
  "record_header crc n t = EncodeFixed32 crc @ [of_nat n, of_nat (n div 256), of_nat t]"

definition EmitPhysicalRecord :: "'f WritableFile \<Rightarrow> nat \<Rightarrow> bytes \<Rightarrow> 'f log_writer \<Rightarrow> Status \<times> 'f log_writer" where
  "EmitPhysicalRecord wfile t ptr w =
     (let n = length ptr;
          crc = Mask (crc_extend (type_crc w ! t) ptr);
          (s, d) = wf_append wfile (record_header crc n t) (dest w);
          (s, d) = (if ok s then
                      (case wf_append wfile ptr d of
                         (s, d) \<Rightarrow> if ok s then wf_flush wfile d else (s, d))
                    else (s, d))
      in (s, w\<lparr>dest := d, block_offset := block_offset w + (kHeaderSize + n)\<rparr>))"

text \<open>One round of the loop: the status, the writer, and what is left of the record.\<close>

definition record_type :: "bool \<Rightarrow> bool \<Rightarrow> nat" where
  "record_type beg fin =
     (if beg \<and> fin then kFullType else if beg then kFirstType else if fin then kLastType else kMiddleType)"

definition AddRecord_step :: "'f WritableFile \<Rightarrow> bool \<Rightarrow> bytes \<Rightarrow> 'f log_writer \<Rightarrow> Status \<times> 'f log_writer \<times> bytes" where
  "AddRecord_step wfile beg data w =
     (let leftover = kBlockSize - block_offset w;
          w = (if leftover < kHeaderSize then
                 (let d = (if 0 < leftover then snd (wf_append wfile (replicate leftover 0) (dest w)) else dest w)
                  in w\<lparr>dest := d, block_offset := 0\<rparr>)
               else w);
          avail = kBlockSize - block_offset w - kHeaderSize;
          fragment_length = (if length data < avail then length data else avail);
          fin = (length data = fragment_length);
          (s, w) = EmitPhysicalRecord wfile (record_type beg fin) (take fragment_length data) w
      in (s, w, drop fragment_length data))"

definition room :: "nat \<Rightarrow> nat" where
  "room off = (if kBlockSize - off < kHeaderSize then kBlockSize - kHeaderSize else kBlockSize - off - kHeaderSize)"

lemma EmitPhysicalRecord_offset:
  "EmitPhysicalRecord wfile t ptr w = (s, w') \<Longrightarrow> block_offset w' = block_offset w + (kHeaderSize + length ptr)"
  by (auto simp: EmitPhysicalRecord_def Let_def split: prod.splits if_splits)

lemma AddRecord_step_rest:
  assumes "AddRecord_step wfile beg data w = (s, w', rest)"
  shows "rest = drop (room (block_offset w)) data"
    and "block_offset w' = (if kBlockSize - block_offset w < kHeaderSize then 0 else block_offset w) +
      (kHeaderSize + min (length data) (room (block_offset w)))"
  using assms
  by (auto simp: AddRecord_step_def Let_def room_def min_def split: prod.splits if_splits
      dest!: EmitPhysicalRecord_offset)

text \<open>An empty fragment fills up a block, so the next one makes progress.\<close>

lemma AddRecord_progress:
  assumes "AddRecord_step wfile beg data w = (s, w', rest)" and "rest \<noteq> []"
  shows "2 * length rest + (if room (block_offset w') = 0 then 1 else 0) <
    2 * length data + (if room (block_offset w) = 0 then 1 else (0::nat))"
proof (cases "room (block_offset w) = 0")
  case True
  then have "kBlockSize - block_offset w = kHeaderSize"
    by (auto simp: room_def kBlockSize_def kHeaderSize_def split: if_splits)
  then have "block_offset w' = kBlockSize"
    using AddRecord_step_rest(2) [OF assms(1)] True by (simp add: kBlockSize_def kHeaderSize_def)
  then have "room (block_offset w') \<noteq> 0" by (simp add: room_def kBlockSize_def kHeaderSize_def)
  then show ?thesis using True AddRecord_step_rest(1) [OF assms(1)] by simp
next
  case False
  have "length rest < length data" using assms(2) False AddRecord_step_rest(1) [OF assms(1)] by simp
  then show ?thesis using False by auto
qed

function AddRecord_loop :: "'f WritableFile \<Rightarrow> bool \<Rightarrow> bytes \<Rightarrow> 'f log_writer \<Rightarrow> Status \<times> 'f log_writer" where
  "AddRecord_loop wfile beg data w =
     (case AddRecord_step wfile beg data w of
        (s, w', rest) \<Rightarrow> if ok s \<and> rest \<noteq> [] then AddRecord_loop wfile False rest w' else (s, w'))"
  by pat_completeness auto
termination
proof (relation "measure (\<lambda>(_, _, data, w). 2 * length data + (if room (block_offset w) = 0 then 1 else 0))", goal_cases)
  case (2 wfile beg data w s p w' rest)
  then have "AddRecord_step wfile beg data w = (s, w', rest)" and "rest \<noteq> []" by simp_all
  from AddRecord_progress [OF this] show ?case by simp
qed simp

declare AddRecord_loop.simps [simp del]

definition AddRecord :: "'f WritableFile \<Rightarrow> bytes \<Rightarrow> 'f log_writer \<Rightarrow> Status \<times> 'f log_writer" where
  "AddRecord wfile data w = AddRecord_loop wfile True data w"

section \<open>The bytes of a record\<close>

definition crc_ok :: "'f log_writer \<Rightarrow> bool" where
  "crc_ok w \<longleftrightarrow> type_crc w = map (\<lambda>i. crc_value 0 [of_nat i]) [0..<kMaxRecordType + 1]"

definition phys_bytes :: "nat \<Rightarrow> bytes \<Rightarrow> bytes" where
  "phys_bytes t p = record_header (Mask (crc32c 0 (of_nat t # p))) (length p) t @ p"

definition filler :: "nat \<Rightarrow> bytes" where
  "filler off = (if kBlockSize - off < kHeaderSize then replicate (kBlockSize - off) 0 else [])"

definition start_offset :: "nat \<Rightarrow> nat" where
  "start_offset off = (if kBlockSize - off < kHeaderSize then 0 else off)"

function log_bytes :: "bool \<Rightarrow> bytes \<Rightarrow> nat \<Rightarrow> bytes \<times> nat" where
  "log_bytes beg data off =
     (let n = min (length data) (room off);
          front = filler off @ phys_bytes (record_type beg (length data \<le> room off)) (take n data);
          off' = start_offset off + (kHeaderSize + n)
      in if n < length data then (case log_bytes False (drop n data) off' of (bs, o') \<Rightarrow> (front @ bs, o'))
         else (front, off'))"
  by pat_completeness auto
termination
proof (relation "measure (\<lambda>(_, data, off). 2 * length data + (if room off = 0 then 1 else 0))", goal_cases)
  case (2 beg data off n front off')
  show ?case
  proof (cases "room off = 0")
    case True
    then have "kBlockSize - off = kHeaderSize"
      by (auto simp: room_def kBlockSize_def kHeaderSize_def split: if_splits)
    with 2 True have "off' = kBlockSize" by (simp add: start_offset_def kBlockSize_def kHeaderSize_def)
    then have "room off' \<noteq> 0" by (simp add: room_def kBlockSize_def kHeaderSize_def)
    with 2 True show ?thesis by simp
  next
    case False
    with 2 have "length (drop n data) < length data" by simp
    then show ?thesis using False by simp
  qed
qed simp

declare log_bytes.simps [simp del]

lemma length_phys_bytes: "length (phys_bytes t p) = kHeaderSize + length p"
  by (simp add: phys_bytes_def record_header_def kHeaderSize_def)

lemma record_type_less: "record_type beg fin < kMaxRecordType + 1"
  by (simp add: record_type_def log_types)

context writable_file
begin

lemma EmitPhysicalRecord_appends:
  assumes "crc_ok w" and "t < kMaxRecordType + 1"
  shows "\<exists>d. EmitPhysicalRecord wfile t p w =
      (OK, w\<lparr>dest := d, block_offset := block_offset w + (kHeaderSize + length p)\<rparr>) \<and>
    contents d = contents (dest w) @ phys_bytes t p"
proof -
  have crc: "crc_extend (type_crc w ! t) p = crc32c 0 (of_nat t # p)"
    using assms crc32c_append [of 0 "[of_nat t]" p]
    by (simp add: crc_ok_def crc_value_def Extend_crc32c del: upt_Suc)
  obtain d1 where d1: "wf_append wfile (record_header (Mask (crc32c 0 (of_nat t # p))) (length p) t) (dest w) = (OK, d1)"
      "contents d1 = contents (dest w) @ record_header (Mask (crc32c 0 (of_nat t # p))) (length p) t"
    using append by blast
  obtain d2 where d2: "wf_append wfile p d1 = (OK, d2)" "contents d2 = contents d1 @ p" using append by blast
  obtain d3 where "wf_flush wfile d2 = (OK, d3)" "contents d3 = contents d2" using flush by blast
  with d1 d2 show ?thesis
    by (intro exI [of _ d3]) (simp add: EmitPhysicalRecord_def crc phys_bytes_def)
qed

lemma AddRecord_step_appends:
  assumes "crc_ok w"
  shows "\<exists>w'. AddRecord_step wfile beg data w = (OK, w', drop (room (block_offset w)) data) \<and> crc_ok w' \<and>
    block_offset w' = start_offset (block_offset w) + (kHeaderSize + min (length data) (room (block_offset w))) \<and>
    contents (dest w') = contents (dest w) @ filler (block_offset w) @
      phys_bytes (record_type beg (length data \<le> room (block_offset w))) (take (room (block_offset w)) data)"
proof -
  let ?off = "block_offset w"
  let ?n = "if length data < room ?off then length data else room ?off"
  obtain d0 where d0: "wf_append wfile (replicate (kBlockSize - ?off) 0) (dest w) = (OK, d0)"
      "contents d0 = contents (dest w) @ replicate (kBlockSize - ?off) 0"
    using append by blast
  define w1 where "w1 = (if kBlockSize - ?off < kHeaderSize then
      w\<lparr>dest := (if 0 < kBlockSize - ?off then snd (wf_append wfile (replicate (kBlockSize - ?off) 0) (dest w)) else dest w),
        block_offset := 0\<rparr> else w)"
  have w1: "block_offset w1 = start_offset ?off" "crc_ok w1" "contents (dest w1) = contents (dest w) @ filler ?off"
    using assms d0 by (auto simp: w1_def start_offset_def filler_def crc_ok_def)
  have "kBlockSize - block_offset w1 - kHeaderSize = room ?off"
    by (auto simp: w1 start_offset_def room_def)
  moreover have "(length data = ?n) = (length data \<le> room ?off)" by auto
  moreover have "take ?n data = take (room ?off) data" "drop ?n data = drop (room ?off) data" by auto
  moreover obtain d where "EmitPhysicalRecord wfile (record_type beg (length data \<le> room ?off)) (take (room ?off) data) w1 =
      (OK, w1\<lparr>dest := d, block_offset := block_offset w1 + (kHeaderSize + length (take (room ?off) data))\<rparr>)"
      "contents d = contents (dest w1) @ phys_bytes (record_type beg (length data \<le> room ?off)) (take (room ?off) data)"
    using EmitPhysicalRecord_appends [OF w1(2) record_type_less] by blast
  ultimately show ?thesis
    using w1
    unfolding AddRecord_step_def Let_def w1_def [symmetric]
    by (auto simp: crc_ok_def min_def)
qed

text \<open>\<open>AddRecord\<close> returns OK and appends the bytes of the record.\<close>

lemma AddRecord_loop_appends:
  assumes "crc_ok w" and "log_bytes beg data (block_offset w) = (bs, off)"
  shows "\<exists>w'. AddRecord_loop wfile beg data w = (OK, w') \<and> crc_ok w' \<and> block_offset w' = off \<and>
    contents (dest w') = contents (dest w) @ bs"
  using assms
proof (induction beg data "block_offset w" arbitrary: w bs off rule: log_bytes.induct)
  case (1 beg data w)
  let ?r = "room (block_offset w)"
  obtain w1 where w1: "AddRecord_step wfile beg data w = (OK, w1, drop ?r data)" "crc_ok w1"
      "block_offset w1 = start_offset (block_offset w) + (kHeaderSize + min (length data) ?r)"
      "contents (dest w1) = contents (dest w) @ filler (block_offset w) @
        phys_bytes (record_type beg (length data \<le> ?r)) (take ?r data)"
    using AddRecord_step_appends [OF 1(2)] by blast
  have take: "take (min (length data) ?r) data = take ?r data" and drop: "drop (min (length data) ?r) data = drop ?r data"
    by (auto simp: min_def)
  show ?case
  proof (cases "?r < length data")
    case True
    obtain bs' where bs': "log_bytes False (drop ?r data) (block_offset w1) = (bs', off)"
        "bs = filler (block_offset w) @ phys_bytes (record_type beg (length data \<le> ?r)) (take ?r data) @ bs'"
      using 1(3) True w1(3) by (auto simp: log_bytes.simps [of beg data] Let_def take drop split: prod.splits)
    obtain w2 where "AddRecord_loop wfile False (drop ?r data) w1 = (OK, w2)" "crc_ok w2" "block_offset w2 = off"
        "contents (dest w2) = contents (dest w1) @ bs'"
      using 1(1) [OF refl refl, of w1 bs' off] True w1(2,3) bs'(1) by (auto simp: drop min_def)
    then show ?thesis
      using True w1 bs'(2) by (auto simp: AddRecord_loop.simps [of wfile beg data])
  next
    case False
    then show ?thesis
      using 1(3) w1 by (auto simp: AddRecord_loop.simps [of wfile beg data] log_bytes.simps [of beg data] Let_def take)
  qed
qed

lemma AddRecord_appends:
  assumes "crc_ok w" and "log_bytes True data (block_offset w) = (bs, off)"
  shows "\<exists>w'. AddRecord wfile data w = (OK, w') \<and> crc_ok w' \<and> block_offset w' = off \<and>
    contents (dest w') = contents (dest w) @ bs"
  using AddRecord_loop_appends [OF assms] by (simp add: AddRecord_def)

end

end
