(* ===== verification/LdbLogReader.thy ===== *)
theory LdbLogReader
  imports LdbLogWriter Outcome
begin

text \<open>
  LevelDB, \<^verbatim>\<open>db/log_reader.cc\<close>: reading the log back. \<open>ReadPhysicalRecord\<close> returns fragments or
  one of two special codes, \<open>ReadRecord\<close> assembles them, and whatever is dropped is reported.
  Offsets are 64-bit words, so the subtractions of the code wrap. The main result is the round
  trip: records written by \<open>AddRecord\<close> are read back one by one, and nothing is reported.
\<close>

section \<open>The reader\<close>

definition kEof :: "32 word" where "kEof = of_nat (kMaxRecordType + 1)"
definition kBadRecord :: "32 word" where "kBadRecord = of_nat (kMaxRecordType + 2)"

text \<open>\<open>reports\<close> collects the calls of the reporter, if there is one.\<close>

record 'f log_reader =
  rd_file :: 'f
  has_reporter :: bool
  checksum :: bool
  rd_buffer :: bytes
  eof :: bool
  last_record_offset :: "64 word"
  end_of_buffer_offset :: "64 word"
  initial_offset :: "64 word"
  reports :: "(64 word \<times> Status) list"

definition new_log_Reader :: "'f \<Rightarrow> bool \<Rightarrow> bool \<Rightarrow> 64 word \<Rightarrow> 'f log_reader" where
  "new_log_Reader f reporter check initial =
     \<lparr>rd_file = f, has_reporter = reporter, checksum = check, rd_buffer = [], eof = False,
      last_record_offset = 0, end_of_buffer_offset = 0, initial_offset = initial, reports = []\<rparr>"

definition ReportDrop :: "64 word \<Rightarrow> Status \<Rightarrow> 'f log_reader \<Rightarrow> 'f log_reader" where
  "ReportDrop bytes reason r =
     (if has_reporter r \<and> initial_offset r \<le> end_of_buffer_offset r - of_nat (length (rd_buffer r)) - bytes
      then r\<lparr>reports := reports r @ [(bytes, reason)]\<rparr> else r)"

definition ReportCorruption :: "64 word \<Rightarrow> string \<Rightarrow> 'f log_reader \<Rightarrow> 'f log_reader" where
  "ReportCorruption bytes reason = ReportDrop bytes (Corruption (ascii reason) [])"

definition SkipToInitialBlock :: "'f SequentialFile \<Rightarrow> 'f log_reader \<Rightarrow> bool \<times> 'f log_reader" where
  "SkipToInitialBlock sf r =
     (let offset_in_block = unat (initial_offset r) mod kBlockSize;
          block_start = initial_offset r - of_nat offset_in_block;
          block_start = (if kBlockSize - 6 < offset_in_block then block_start + of_nat kBlockSize else block_start);
          r = r\<lparr>end_of_buffer_offset := block_start\<rparr> in
      if 0 < block_start then
        (case sf_skip sf block_start (rd_file r) of
           (s, f) \<Rightarrow>
             let r = r\<lparr>rd_file := f\<rparr> in
             if \<not> ok s then (False, ReportDrop block_start s r) else (True, r))
      else (True, r))"

text \<open>Parsing the header at the front of the buffer, which holds at least a header.\<close>

definition parse_physical :: "'f log_reader \<Rightarrow> 32 word \<times> bytes \<times> 'f log_reader" where
  "parse_physical r =
     (let header = rd_buffer r;
          len = unat (header ! 4) + 256 * unat (header ! 5);
          type = scast (header ! 6) :: 32 word in
      if length (rd_buffer r) < kHeaderSize + len then
        (let drop_size = of_nat (length (rd_buffer r)); r = r\<lparr>rd_buffer := []\<rparr> in
         if \<not> eof r then (kBadRecord, [], ReportCorruption drop_size ''bad record length'' r)
         else (kEof, [], r))
      else if type = of_nat kZeroType \<and> len = 0 then (kBadRecord, [], r\<lparr>rd_buffer := []\<rparr>)
      else if checksum r \<and>
          crc_value 0 (take (1 + len) (drop 6 header)) \<noteq> Unmask (DecodeFixed32 header) then
        (let drop_size = of_nat (length (rd_buffer r)); r = r\<lparr>rd_buffer := []\<rparr> in
         (kBadRecord, [], ReportCorruption drop_size ''checksum mismatch'' r))
      else
        let r = r\<lparr>rd_buffer := drop (kHeaderSize + len) (rd_buffer r)\<rparr> in
        if end_of_buffer_offset r - of_nat (length (rd_buffer r)) - of_nat kHeaderSize - of_nat len < initial_offset r
        then (kBadRecord, [], r)
        else (type, take len (drop kHeaderSize header), r))"

text \<open>
  The loop refills the buffer at most twice, since a block that is read in full holds a header and
  a shorter one sets \<open>eof\<close>. The fragment of a special code is empty; the code leaves the
  caller's slice as it was in some of those cases, and never reads it then.
\<close>

function ReadPhysicalRecord :: "'f SequentialFile \<Rightarrow> 'f log_reader \<Rightarrow> 32 word \<times> bytes \<times> 'f log_reader" where
  "ReadPhysicalRecord sf r =
     (if length (rd_buffer r) < kHeaderSize then
        if \<not> eof r then
          (case sf_read sf kBlockSize (rd_file r) of
             (s, buf, f) \<Rightarrow>
               let r = r\<lparr>rd_file := f, rd_buffer := buf,
                          end_of_buffer_offset := end_of_buffer_offset r + of_nat (length buf)\<rparr> in
               if \<not> ok s then
                 (kEof, [], (ReportDrop (of_nat kBlockSize) s (r\<lparr>rd_buffer := []\<rparr>))\<lparr>eof := True\<rparr>)
               else
                 ReadPhysicalRecord sf (if length buf < kBlockSize then r\<lparr>eof := True\<rparr> else r))
        else (kEof, [], r\<lparr>rd_buffer := []\<rparr>)
      else parse_physical r)"
  by pat_completeness auto
termination
  by (relation "measure (\<lambda>(_, r). (if eof r then 0 else 2) + (if length (rd_buffer r) < kHeaderSize then 1 else 0))")
    (auto simp: kBlockSize_def kHeaderSize_def)

declare ReadPhysicalRecord.simps [simp del]

lemma kEof_distinct:
  "kEof \<noteq> of_nat kFullType" "kEof \<noteq> of_nat kFirstType" "kEof \<noteq> of_nat kMiddleType" "kEof \<noteq> of_nat kLastType"
  "of_nat kFullType \<noteq> kEof" "of_nat kFirstType \<noteq> kEof" "of_nat kMiddleType \<noteq> kEof" "of_nat kLastType \<noteq> kEof"
  by (simp_all add: kEof_def log_types word_unat_eq_iff unat_of_nat)

text \<open>
  The state of the loop of \<open>ReadRecord\<close>: whether a record has begun, what has been assembled and
  where it began. \<open>snprintf\<close> formats the reason for an unknown type, which is a parameter.
\<close>

datatype 'f read_result = Record bytes "'f log_reader" | End "'f log_reader"
  | More bool bytes "64 word" "'f log_reader"

definition read_step :: "(32 word \<Rightarrow> bytes) \<Rightarrow> 'f SequentialFile \<Rightarrow> bool \<Rightarrow> bytes \<Rightarrow> 64 word \<Rightarrow> 'f log_reader \<Rightarrow> 'f read_result" where
  "read_step unknown sf frag scratch prospective r =
     (let physical = end_of_buffer_offset r - of_nat (length (rd_buffer r));
          (type, fragment, r) = ReadPhysicalRecord sf r in
      if type = of_nat kFullType then
        (let r = (if frag \<and> scratch \<noteq> []
                  then ReportCorruption (of_nat (length scratch)) ''partial record without end(1)'' r else r)
         in Record fragment (r\<lparr>last_record_offset := physical\<rparr>))
      else if type = of_nat kFirstType then
        (let r = (if frag \<and> scratch \<noteq> []
                  then ReportCorruption (of_nat (length scratch)) ''partial record without end(2)'' r else r)
         in More True fragment physical r)
      else if type = of_nat kMiddleType then
        (if \<not> frag
         then More frag scratch prospective
           (ReportCorruption (of_nat (length fragment)) ''missing start of fragmented record(1)'' r)
         else More frag (scratch @ fragment) prospective r)
      else if type = of_nat kLastType then
        (if \<not> frag
         then More frag scratch prospective
           (ReportCorruption (of_nat (length fragment)) ''missing start of fragmented record(2)'' r)
         else Record (scratch @ fragment) (r\<lparr>last_record_offset := prospective\<rparr>))
      else if type = kEof then End r
      else if type = kBadRecord then
        (if frag then More False [] prospective (ReportCorruption (of_nat (length scratch)) ''error in middle of record'' r)
         else More frag scratch prospective r)
      else
        More False [] prospective
          (ReportDrop (of_nat (length fragment + (if frag then length scratch else 0))) (Corruption (unknown type) []) r))"

primrec read_loop :: "(32 word \<Rightarrow> bytes) \<Rightarrow> 'f SequentialFile \<Rightarrow> nat \<Rightarrow> bool \<Rightarrow> bytes \<Rightarrow> 64 word \<Rightarrow> 'f log_reader
    \<Rightarrow> (bytes option \<times> 'f log_reader) run" where
  "read_loop unknown sf 0 frag scratch prospective r = NoFuel"
| "read_loop unknown sf (Suc n) frag scratch prospective r =
     (case read_step unknown sf frag scratch prospective r of
        Record rec r' \<Rightarrow> Ret (Some rec, r')
      | End r' \<Rightarrow> Ret (None, r')
      | More frag' scratch' prospective' r' \<Rightarrow> read_loop unknown sf n frag' scratch' prospective' r')"

definition ReadRecord :: "(32 word \<Rightarrow> bytes) \<Rightarrow> 'f SequentialFile \<Rightarrow> nat \<Rightarrow> 'f log_reader \<Rightarrow> (bytes option \<times> 'f log_reader) run" where
  "ReadRecord unknown sf n r =
     (if last_record_offset r < initial_offset r then
        (case SkipToInitialBlock sf r of
           (True, r) \<Rightarrow> read_loop unknown sf n False [] 0 r
         | (False, r) \<Rightarrow> Ret (None, r))
      else read_loop unknown sf n False [] 0 r)"

section \<open>Where the reader is\<close>

text \<open>
  \<open>placed r off S\<close>: the unread bytes are \<open>S\<close>, the next of them has offset \<open>off\<close> in its block, and
  the buffer holds what is left of the block.
\<close>

definition placed :: "('f \<Rightarrow> bytes) \<Rightarrow> 'f log_reader \<Rightarrow> nat \<Rightarrow> bytes \<Rightarrow> bool" where
  "placed left r off S \<longleftrightarrow>
     off \<le> kBlockSize \<and> rd_buffer r = take (kBlockSize - off) S \<and> left (rd_file r) = drop (kBlockSize - off) S \<and>
     (eof r \<longrightarrow> left (rd_file r) = []) \<and> initial_offset r = 0"

lemma placed_new: "initial = 0 \<Longrightarrow> placed left (new_log_Reader f reporter check initial) kBlockSize (left f)"
  by (simp add: placed_def new_log_Reader_def)

text \<open>One refill at the end of a block.\<close>

context sequential_file
begin

lemma refill:
  assumes "placed left r off S" and "length (rd_buffer r) < kHeaderSize" and "\<not> eof r"
  shows "\<exists>r'. ReadPhysicalRecord sf r = ReadPhysicalRecord sf r' \<and>
    placed left r' 0 (drop (kBlockSize - off) S) \<and> (eof r' \<or> kBlockSize \<le> length (rd_buffer r')) \<and>
    reports r' = reports r \<and> has_reporter r' = has_reporter r"
proof -
  obtain f where f: "sf_read sf kBlockSize (rd_file r) = (OK, take kBlockSize (left (rd_file r)), f)"
      "left f = drop kBlockSize (left (rd_file r))"
    using read by blast
  let ?buf = "take kBlockSize (left (rd_file r))"
  define r1 where "r1 = r\<lparr>rd_file := f, rd_buffer := ?buf,
    end_of_buffer_offset := end_of_buffer_offset r + of_nat (length ?buf)\<rparr>"
  define r2 where "r2 = (if length ?buf < kBlockSize then r1\<lparr>eof := True\<rparr> else r1)"
  have "ReadPhysicalRecord sf r = ReadPhysicalRecord sf r2"
    using assms(2,3) f(1)
    by (subst ReadPhysicalRecord.simps) (simp add: Let_def r2_def r1_def)
  moreover have "placed left r2 0 (drop (kBlockSize - off) S)"
    using assms(1,3) f(2) by (auto simp: placed_def r2_def r1_def)
  moreover have "eof r2 \<or> kBlockSize \<le> length (rd_buffer r2)" by (auto simp: r2_def r1_def)
  moreover have "reports r2 = reports r" "has_reporter r2 = has_reporter r" by (simp_all add: r2_def r1_def)
  ultimately show ?thesis by blast
qed

lemma ReadPhysicalRecord_end:
  assumes "placed left r off []"
  shows "\<exists>r'. ReadPhysicalRecord sf r = (kEof, [], r') \<and> reports r' = reports r \<and>
    placed left r' kBlockSize [] \<and> eof r'"
proof -
  have at_eof: "ReadPhysicalRecord sf r = (kEof, [], r\<lparr>rd_buffer := []\<rparr>)"
    if "placed left r off []" "eof r" for r off
    using that by (subst ReadPhysicalRecord.simps) (simp add: placed_def kHeaderSize_def)
  show ?thesis
  proof (cases "eof r")
    case True
    with assms at_eof [of r] show ?thesis by (auto simp: placed_def)
  next
    case False
    then obtain r' where r': "ReadPhysicalRecord sf r = ReadPhysicalRecord sf r'" "placed left r' 0 []"
        "eof r' \<or> kBlockSize \<le> length (rd_buffer r')" "reports r' = reports r"
      using refill [OF assms] assms by (auto simp: placed_def kHeaderSize_def)
    then have "eof r'" by (auto simp: placed_def kBlockSize_def)
    with r'(2) have "ReadPhysicalRecord sf r' = (kEof, [], r'\<lparr>rd_buffer := []\<rparr>)" by (intro at_eof)
    with r' \<open>eof r'\<close> show ?thesis
      by (intro exI [of _ "r'\<lparr>rd_buffer := []\<rparr>"]) (simp add: placed_def)
  qed
qed

end

lemma scast_small: "t \<le> 127 \<Longrightarrow> (scast (of_nat t :: 8 word) :: 32 word) = of_nat t"
proof -
  assume t: "t \<le> 127"
  have "sint (of_nat t :: 8 word) = int t"
    using t by (simp add: signed_of_nat take_bit_int_eq_self signed_take_bit_int_eq_self)
  then show ?thesis by (simp add: scast_eq)
qed

lemma parse_phys_bytes:
  assumes buf: "rd_buffer r = phys_bytes t p @ rest" and t: "0 < t" "t \<le> kMaxRecordType"
    and p: "length p < 65536" and init: "initial_offset r = 0"
  shows "parse_physical r = (of_nat t, p, r\<lparr>rd_buffer := rest\<rparr>)"
proof -
  have t127: "t \<le> 127" using t by (simp add: log_types)
  have len: "unat (rd_buffer r ! 4) + 256 * unat (rd_buffer r ! 5) = length p"
    using p unfolding buf phys_bytes_def record_header_def
    by (simp add: nth_append)
  have type: "rd_buffer r ! 6 = of_nat t"
    unfolding buf phys_bytes_def record_header_def by (simp add: nth_append)
  have crc: "crc_value 0 (take (1 + length p) (drop 6 (rd_buffer r))) = Unmask (DecodeFixed32 (rd_buffer r))"
    unfolding buf phys_bytes_def record_header_def
    by (simp add: crc_value_def Extend_crc32c mask_unmask)
  have d: "drop kHeaderSize (rd_buffer r) = p @ rest"
    and "length (rd_buffer r) = kHeaderSize + length p + length rest"
    unfolding buf phys_bytes_def record_header_def by (simp_all add: kHeaderSize_def)
  moreover have "drop (kHeaderSize + length p) (rd_buffer r) = drop (length p) (p @ rest)"
    by (simp only: d [symmetric] drop_drop add.commute)
  moreover have "(of_nat t :: 32 word) \<noteq> of_nat kZeroType"
    using t by (simp add: word_unat_eq_iff unat_of_nat log_types)
  ultimately show ?thesis
    unfolding parse_physical_def Let_def len type scast_small [OF t127]
    using init crc by simp
qed

section \<open>Reading what was written\<close>

lemma take_append_short: "n = length xs + k \<Longrightarrow> take n (xs @ ys) = xs @ take k ys"
  "n = length xs + k \<Longrightarrow> drop n (xs @ ys) = drop k ys"
  by simp_all

lemma parse_placed:
  assumes "placed left r off (phys_bytes t p @ S)" and "off + (kHeaderSize + length p) \<le> kBlockSize"
    and "0 < t" and "t \<le> kMaxRecordType"
  shows "\<exists>r'. parse_physical r = (of_nat t, p, r') \<and> placed left r' (off + (kHeaderSize + length p)) S \<and>
    reports r' = reports r"
proof -
  let ?rest = "take (kBlockSize - (off + (kHeaderSize + length p))) S"
  have room: "kBlockSize - off = length (phys_bytes t p) + (kBlockSize - (off + (kHeaderSize + length p)))"
    using assms(2) by (simp add: length_phys_bytes)
  have buf: "rd_buffer r = phys_bytes t p @ ?rest"
    and ahead: "left (rd_file r) = drop (kBlockSize - (off + (kHeaderSize + length p))) S"
    using assms(1) take_append_short [OF room, of S] by (auto simp: placed_def)
  have "length p < 65536" using assms(2) by (simp add: kBlockSize_def)
  with buf assms have "parse_physical r = (of_nat t, p, r\<lparr>rd_buffer := ?rest\<rparr>)"
    by (intro parse_phys_bytes) (auto simp: placed_def)
  moreover have "placed left (r\<lparr>rd_buffer := ?rest\<rparr>) (off + (kHeaderSize + length p)) S"
    using assms(1,2) ahead by (auto simp: placed_def)
  ultimately show ?thesis by auto
qed

context sequential_file
begin

lemma ReadPhysicalRecord_written:
  assumes at: "placed left r off (filler off @ phys_bytes t p @ S)"
    and fits: "start_offset off + (kHeaderSize + length p) \<le> kBlockSize"
    and t: "0 < t" "t \<le> kMaxRecordType"
  shows "\<exists>r'. ReadPhysicalRecord sf r = (of_nat t, p, r') \<and>
    placed left r' (start_offset off + (kHeaderSize + length p)) S \<and> reports r' = reports r"
proof (cases "kBlockSize - off < kHeaderSize")
  case False
  then have off: "filler off = []" "start_offset off = off" by (simp_all add: filler_def start_offset_def)
  from parse_placed [OF at [unfolded off append.append_Nil] fits [unfolded off] t] obtain r' where
    r': "parse_physical r = (of_nat t, p, r')" "placed left r' (off + (kHeaderSize + length p)) S"
      "reports r' = reports r"
    by blast
  have "kHeaderSize \<le> length (rd_buffer r)"
    using at fits False off by (auto simp: placed_def length_phys_bytes)
  then have "ReadPhysicalRecord sf r = parse_physical r" by (subst ReadPhysicalRecord.simps) simp
  with r' show ?thesis by (simp add: off)
next
  case True
  then have off: "filler off = replicate (kBlockSize - off) 0" "start_offset off = 0"
    by (simp_all add: filler_def start_offset_def)
  have "\<not> eof r"
    using at by (auto simp: placed_def off phys_bytes_def record_header_def)
  moreover have "length (rd_buffer r) < kHeaderSize" using at True by (simp add: placed_def off)
  ultimately obtain r1 where r1: "ReadPhysicalRecord sf r = ReadPhysicalRecord sf r1"
      "placed left r1 0 (phys_bytes t p @ S)" "reports r1 = reports r"
    using refill [OF at] by (auto simp: off)
  from parse_placed [OF r1(2) fits [unfolded off] t] obtain r' where
    r': "parse_physical r1 = (of_nat t, p, r')" "placed left r' (0 + (kHeaderSize + length p)) S"
      "reports r' = reports r1"
    by blast
  have "kHeaderSize \<le> length (rd_buffer r1)"
    using r1(2) fits off by (auto simp: placed_def length_phys_bytes)
  then have "ReadPhysicalRecord sf r1 = parse_physical r1" by (subst ReadPhysicalRecord.simps) simp
  with r1 r' show ?thesis by (simp add: off)
qed

lemma type_codes:
  "t \<le> 6 \<Longrightarrow> t' \<le> 6 \<Longrightarrow> (of_nat t :: 32 word) = of_nat t' \<longleftrightarrow> t = t'"
  by (simp add: word_unat_eq_iff unat_of_nat)

text \<open>The loop returns the record whose bytes lie ahead; \<open>n\<close> rounds are enough for \<open>n\<close> bytes.\<close>

lemma read_loop_written:
  assumes "placed left r off (bs @ S)" and "log_bytes beg data off = (bs, off')" and "length bs < n"
    and "frag = (\<not> beg)" and "beg \<Longrightarrow> scratch = []"
  shows "\<exists>r'. read_loop unknown sf n frag scratch pro r = Ret (Some (scratch @ data), r') \<and>
    placed left r' off' S \<and> reports r' = reports r"
  using assms
proof (induction beg data off arbitrary: r bs S n frag scratch pro rule: log_bytes.induct)
  case (1 beg data off)
  let ?k = "min (length data) (room off)"
  let ?t = "record_type beg (length data \<le> room off)"
  let ?front = "filler off @ phys_bytes ?t (take ?k data)"
  let ?off = "start_offset off + (kHeaderSize + ?k)"
  obtain m where n: "n = Suc m" using 1(4) by (cases n) auto
  have fits: "start_offset off + (kHeaderSize + length (take ?k data)) \<le> kBlockSize"
    using 1(2) by (auto simp: placed_def start_offset_def room_def kBlockSize_def kHeaderSize_def min_def)
  have t: "0 < ?t" "?t \<le> kMaxRecordType" by (simp_all add: record_type_def log_types)
  show ?case
  proof (cases "?k < length data")
    case True
    from 1(3) True have "(case log_bytes False (drop ?k data) ?off of (b, o') \<Rightarrow> (?front @ b, o')) = (bs, off')"
      by (subst (asm) log_bytes.simps) (simp only: Let_def if_True)
    then obtain bs' where bs': "log_bytes False (drop ?k data) ?off = (bs', off')" "bs = ?front @ bs'"
      by (auto simp del: min_less_iff_conj split: prod.splits)
    obtain r1 where r1: "ReadPhysicalRecord sf r = (of_nat ?t, take ?k data, r1)"
        "placed left r1 (start_offset off + (kHeaderSize + length (take ?k data))) (bs' @ S)" "reports r1 = reports r"
      using ReadPhysicalRecord_written [OF _ fits t, of r "bs' @ S"] 1(2) bs'(2) by auto
    have len: "length (take ?k data) = ?k" using True by simp
    have "\<not> length data \<le> room off" using True by auto
    then obtain pro' where step: "read_step unknown sf frag scratch pro r = More True (scratch @ take ?k data) pro' r1"
      using 1(5,6) r1(1) by (auto simp: read_step_def Let_def record_type_def type_codes log_types)
    have "length bs' < m" using 1(4) n bs'(2) by (simp add: length_phys_bytes kHeaderSize_def)
    with 1(1) [OF refl refl refl True r1(2) [unfolded len] bs'(1), of m True "scratch @ take ?k data" pro'] r1(3)
    obtain r' where "read_loop unknown sf m True (scratch @ take ?k data) pro' r1 =
        Ret (Some ((scratch @ take ?k data) @ drop ?k data), r')"
      "placed left r' off' S" "reports r' = reports r"
      by auto
    then show ?thesis by (simp add: n step)
  next
    case False
    then have k: "?k = length data" "length data \<le> room off" by auto
    then have bs: "bs = ?front" "off' = ?off"
      using 1(3) by (auto simp: log_bytes.simps [of beg data] Let_def)
    obtain r1 where r1: "ReadPhysicalRecord sf r = (of_nat ?t, take ?k data, r1)"
        "placed left r1 (start_offset off + (kHeaderSize + length (take ?k data))) S" "reports r1 = reports r"
      using ReadPhysicalRecord_written [OF _ fits t, of r S] 1(2) bs(1) by auto
    obtain r' where step: "read_step unknown sf frag scratch pro r = Record (scratch @ data) r'"
      "placed left r' off' S" "reports r' = reports r"
      using 1(5,6) r1 k bs(2)
      by (auto simp: read_step_def Let_def record_type_def type_codes log_types placed_def)
    then show ?thesis by (simp add: n)
  qed
qed

lemma ReadRecord_written:
  assumes "placed left r off (bs @ S)" and "log_bytes True data off = (bs, off')" and "length bs < n"
  shows "\<exists>r'. ReadRecord unknown sf n r = Ret (Some data, r') \<and> placed left r' off' S \<and> reports r' = reports r"
proof -
  have "\<not> last_record_offset r < initial_offset r" using assms(1) by (simp add: placed_def)
  then show ?thesis
    using read_loop_written [OF assms, of False "[]" unknown 0] by (simp add: ReadRecord_def)
qed

lemma ReadRecord_end:
  assumes "placed left r off []" and "0 < n"
  shows "\<exists>r'. ReadRecord unknown sf n r = Ret (None, r') \<and> reports r' = reports r"
proof -
  obtain m where n: "n = Suc m" using assms(2) by (cases n) auto
  have "\<not> last_record_offset r < initial_offset r" using assms(1) by (simp add: placed_def)
  moreover obtain r' where "ReadPhysicalRecord sf r = (kEof, [], r')" "reports r' = reports r"
    using ReadPhysicalRecord_end [OF assms(1)] by blast
  ultimately show ?thesis by (simp add: ReadRecord_def n read_step_def Let_def kEof_distinct)
qed

end

section \<open>A log as a whole\<close>

text \<open>Records added until one fails, and the loop that reads until there is no further record.\<close>

primrec add_records :: "'f WritableFile \<Rightarrow> bytes list \<Rightarrow> 'f log_writer \<Rightarrow> Status \<times> 'f log_writer" where
  "add_records wfile [] w = (OK, w)"
| "add_records wfile (d # ds) w =
     (case AddRecord wfile d w of (s, w) \<Rightarrow> if ok s then add_records wfile ds w else (s, w))"

primrec read_records :: "(32 word \<Rightarrow> bytes) \<Rightarrow> 'f SequentialFile \<Rightarrow> nat \<Rightarrow> nat \<Rightarrow> 'f log_reader
    \<Rightarrow> (bytes list \<times> 'f log_reader) run" where
  "read_records unknown sf n 0 r = NoFuel"
| "read_records unknown sf n (Suc k) r =
     run_bind (ReadRecord unknown sf n r) (\<lambda>(rec, r).
       case rec of None \<Rightarrow> Ret ([], r)
       | Some d \<Rightarrow> run_bind (read_records unknown sf n k r) (\<lambda>(ds, r). Ret (d # ds, r)))"

primrec log_of :: "bytes list \<Rightarrow> nat \<Rightarrow> bytes" where
  "log_of [] off = []"
| "log_of (d # ds) off = (case log_bytes True d off of (bs, off') \<Rightarrow> bs @ log_of ds off')"

context writable_file
begin

lemma add_records_appends:
  assumes "crc_ok w"
  shows "\<exists>w'. add_records wfile ds w = (OK, w') \<and> contents (dest w') = contents (dest w) @ log_of ds (block_offset w)"
  using assms
proof (induction ds arbitrary: w)
  case (Cons d ds)
  obtain bs off where bs: "log_bytes True d (block_offset w) = (bs, off)" by fastforce
  then obtain w1 where w1: "AddRecord wfile d w = (OK, w1)" "crc_ok w1" "block_offset w1 = off"
      "contents (dest w1) = contents (dest w) @ bs"
    using AddRecord_appends [OF Cons.prems] by blast
  obtain w2 where "add_records wfile ds w1 = (OK, w2)" "contents (dest w2) = contents (dest w1) @ log_of ds off"
    using Cons.IH [OF w1(2)] w1(3) by blast
  with w1 bs show ?case by simp
qed simp

end

context sequential_file
begin

lemma read_records_written:
  assumes "placed left r off (log_of ds off)" and "length (log_of ds off) < n" and "length ds < k"
  shows "\<exists>r'. read_records unknown sf n k r = Ret (ds, r') \<and> reports r' = reports r"
  using assms
proof (induction ds arbitrary: r off k)
  case Nil
  then show ?case using ReadRecord_end [of r off n unknown] by (cases k) auto
next
  case (Cons d ds)
  obtain j where k: "k = Suc j" "length ds < j" using Cons.prems(3) by (cases k) auto
  obtain bs off' where bs: "log_bytes True d off = (bs, off')" by fastforce
  with Cons.prems obtain r1 where r1: "ReadRecord unknown sf n r = Ret (Some d, r1)"
      "placed left r1 off' (log_of ds off')" "reports r1 = reports r"
    using ReadRecord_written [of r off bs "log_of ds off'" d off' n unknown] by auto
  moreover have "length (log_of ds off') < n" using Cons.prems(2) bs by simp
  ultimately obtain r2 where "read_records unknown sf n j r1 = Ret (ds, r2)" "reports r2 = reports r1"
    using Cons.IH [OF r1(2) _ k(2)] by blast
  with r1 show ?case by (simp add: k)
qed

text \<open>
  Whatever the file holds, \<open>ReadPhysicalRecord\<close> consumes bytes unless it is at the end, so the loop
  returns.
\<close>

lemma parse_physical_consumes:
  assumes "parse_physical r = (t, p, r')" and "kHeaderSize \<le> length (rd_buffer r)"
  shows "length (rd_buffer r') < length (rd_buffer r) \<and> rd_file r' = rd_file r"
  using assms
  by (auto simp: parse_physical_def Let_def ReportCorruption_def ReportDrop_def kHeaderSize_def split: if_splits)

lemma ReadPhysicalRecord_consumes:
  assumes "ReadPhysicalRecord sf r = (t, p, r')" and "t \<noteq> kEof"
  shows "length (rd_buffer r') + length (left (rd_file r')) < length (rd_buffer r) + length (left (rd_file r))"
proof -
  let ?size = "\<lambda>r. length (rd_buffer r) + length (left (rd_file r))"
  have parse: "?size r' < ?size r" if "parse_physical r = (t, p, r')" "kHeaderSize \<le> length (rd_buffer r)" for r
    using parse_physical_consumes [OF that] by simp
  have full: "?size r' < ?size r"
    if "ReadPhysicalRecord sf r = (t, p, r')" "eof r \<or> kBlockSize \<le> length (rd_buffer r)" for r
    using that assms(2) parse [of r]
    by (subst (asm) ReadPhysicalRecord.simps) (auto simp: kBlockSize_def kHeaderSize_def split: if_splits)
  show ?thesis
  proof (cases "length (rd_buffer r) < kHeaderSize \<and> \<not> eof r")
    case False
    then have "ReadPhysicalRecord sf r = (if length (rd_buffer r) < kHeaderSize then (kEof, [], r\<lparr>rd_buffer := []\<rparr>)
        else parse_physical r)"
      by (subst ReadPhysicalRecord.simps) auto
    then show ?thesis using assms parse [of r] by (auto split: if_splits)
  next
    case True
    let ?buf = "take kBlockSize (left (rd_file r))"
    obtain f where f: "sf_read sf kBlockSize (rd_file r) = (OK, ?buf, f)" "left f = drop kBlockSize (left (rd_file r))"
      using read by blast
    define r1 where "r1 = r\<lparr>rd_file := f, rd_buffer := ?buf,
      end_of_buffer_offset := end_of_buffer_offset r + of_nat (length ?buf)\<rparr>"
    define r2 where "r2 = (if length ?buf < kBlockSize then r1\<lparr>eof := True\<rparr> else r1)"
    have "ReadPhysicalRecord sf r = ReadPhysicalRecord sf r2"
      using True f(1) by (subst ReadPhysicalRecord.simps) (simp add: Let_def r2_def r1_def)
    moreover have "eof r2 \<or> kBlockSize \<le> length (rd_buffer r2)" by (auto simp: r2_def r1_def)
    moreover have "?size r2 \<le> ?size r" by (auto simp: r2_def r1_def f(2))
    ultimately show ?thesis using full [of r2] assms(1) by simp
  qed
qed

lemma read_loop_returns:
  "length (rd_buffer r) + length (left (rd_file r)) < n \<Longrightarrow> \<exists>x. read_loop unknown sf n frag scratch pro r = Ret x"
proof (induction n arbitrary: frag scratch pro r)
  case (Suc n)
  obtain t p r1 where rec: "ReadPhysicalRecord sf r = (t, p, r1)" by (cases "ReadPhysicalRecord sf r") auto
  show ?case
  proof (cases "read_step unknown sf frag scratch pro r")
    case (More frag' scratch' pro' r')
    then have "t \<noteq> kEof" and "rd_buffer r' = rd_buffer r1" "rd_file r' = rd_file r1"
      by (auto simp: read_step_def rec Let_def ReportCorruption_def ReportDrop_def kEof_distinct split: if_splits)
    with ReadPhysicalRecord_consumes [OF rec] Suc.prems
    have "length (rd_buffer r') + length (left (rd_file r')) < n" by simp
    with Suc.IH More show ?thesis by simp
  qed auto
qed simp

lemma ReadRecord_returns:
  assumes "length (rd_buffer r) + length (left (rd_file r)) < n"
  shows "\<exists>x. ReadRecord unknown sf n r = Ret x"
proof -
  have "length (rd_buffer r') + length (left (rd_file r')) < n" if "SkipToInitialBlock sf r = (b, r')" for b r'
  proof -
    have "length (left f) \<le> length (left (rd_file r))" if "sf_skip sf k (rd_file r) = (st, f)" for k st f
      using that skip [of k "rd_file r"] by auto
    then show ?thesis
      using that assms by (fastforce simp: SkipToInitialBlock_def ReportDrop_def Let_def split: if_splits prod.splits)
  qed
  then show ?thesis
    using assms read_loop_returns [of _ n unknown False "[]" 0]
    by (auto simp: ReadRecord_def split: prod.splits bool.splits)
qed

end

lemma log_of_block: "log_of ds kBlockSize = log_of ds 0"
proof -
  have "log_bytes True d kBlockSize = log_bytes True d 0" for d
    by (subst log_bytes.simps [of True d kBlockSize], subst log_bytes.simps [of True d 0])
      (simp add: room_def filler_def start_offset_def kHeaderSize_def kBlockSize_def)
  then show ?thesis by (cases ds) simp_all
qed

text \<open>
  C7. The write-ahead log round trip: the records that \<open>AddRecord\<close> appends to an empty file, of any
  number and any length, are read back in order by \<open>ReadRecord\<close>, with the checksums verified or
  not, and nothing is reported as dropped.
\<close>
theorem log_roundtrip:
  assumes "writable_file wfile contents" and "sequential_file sf left" and "contents d = []"
    and "add_records wfile ds (new_log_Writer d) = (s, w)" and "left f = contents (dest w)"
    and "length (left f) < n" and "length ds < k"
  shows "\<exists>r. s = OK \<and> read_records unknown sf n k (new_log_Reader f reporter check 0) = Ret (ds, r) \<and> reports r = []"
proof -
  have "crc_ok (new_log_Writer d)" by (simp add: crc_ok_def new_log_Writer_def)
  from writable_file.add_records_appends [OF assms(1) this, of ds] assms(3,4,5)
  have S: "s = OK" "left f = log_of ds kBlockSize" by (auto simp: log_of_block) (simp add: new_log_Writer_def)
  have "placed left (new_log_Reader f reporter check 0) kBlockSize (log_of ds kBlockSize)"
    using placed_new [of 0 left f] by (simp add: S)
  from sequential_file.read_records_written [OF assms(2) this _ assms(7), of n unknown] assms(6) S
  show ?thesis by (simp add: new_log_Reader_def)
qed
theorem log_roundtrip_witness:
  "\<exists>n r. read_records (\<lambda>_. []) (PosixSequentialFile disk_stdio []) n 3
     (new_log_Reader (snd (dest (snd (add_records (PosixWritableFile disk_stdio []) [[1, 2, 3], []] (new_log_Writer ([], []))))), [])
       True True 0) = Ret ([[1, 2, 3], []], r) \<and> reports r = []"
proof -
  let ?w = "snd (add_records (PosixWritableFile disk_stdio []) [[1, 2, 3], []] (new_log_Writer ([], [])))"
  have "add_records (PosixWritableFile disk_stdio []) [[1, 2, 3], []] (new_log_Writer ([], [])) =
      (fst (add_records (PosixWritableFile disk_stdio []) [[1, 2, 3], []] (new_log_Writer ([], []))), ?w)"
    by simp
  from log_roundtrip [OF disk.posix_writes.writable_file_axioms disk.posix_reads.sequential_file_axioms _ this,
      of "(snd (dest ?w), [])" "Suc (length (snd (dest ?w)))" 3 "\<lambda>_. []" "[]" True True]
  show ?thesis by auto
qed

text \<open>
  C28. Reading always ends: whatever bytes the file holds, and from whatever initial offset, a call of
  \<open>ReadRecord\<close> returns within as many rounds of its loop as there are unread bytes, since every
  round that does not end it consumes at least one.
\<close>
theorem log_read_returns:
  assumes "sequential_file sf left" and "length (rd_buffer r) + length (left (rd_file r)) < n"
  shows "\<exists>x. ReadRecord unknown sf n r = Ret x"
  using sequential_file.ReadRecord_returns [OF assms] .

theorem log_read_returns_witness:
  "\<exists>x. ReadRecord (\<lambda>_. []) (PosixSequentialFile disk_stdio []) 10
     (new_log_Reader ([1, 2, 3, 4, 5, 6, 7, 8, 9], []) True True 5) = Ret x"
  by (rule log_read_returns [OF disk.posix_reads.sequential_file_axioms]) (simp add: new_log_Reader_def)

text \<open>
  The writer drops the status of the append that fills the end of a block: whatever it is, adding
  a record goes on as if the filler had been written, at the start of the next block.
\<close>
theorem trailer_status_dropped:
  assumes "kBlockSize - kHeaderSize < block_offset w" and "block_offset w < kBlockSize"
    and "wf_append wfile (replicate (kBlockSize - block_offset w) 0) (dest w) = (s, d)"
  shows "AddRecord wfile data w = AddRecord wfile data (w\<lparr>dest := d, block_offset := 0\<rparr>)"
proof -
  have "kBlockSize - block_offset w < kHeaderSize" using assms(1,2) by (simp add: kBlockSize_def kHeaderSize_def)
  then have "AddRecord_step wfile True data w = AddRecord_step wfile True data (w\<lparr>dest := d, block_offset := 0\<rparr>)"
    using assms(2,3) by (simp add: AddRecord_step_def Let_def kBlockSize_def kHeaderSize_def)
  then show ?thesis
    by (simp add: AddRecord_def AddRecord_loop.simps [of wfile True data])
qed

theorem trailer_status_dropped_witness:
  "AddRecord \<lparr>wf_append = \<lambda>d f. (if d = [0, 0] then IOError [] [] else OK, f), wf_flush = \<lambda>f. (OK, f), wf_sync = \<lambda>f. (OK, f),
    wf_close = \<lambda>f. (OK, f), wf_delete = \<lambda>f. f\<rparr> [1]
     ((new_log_Writer ())\<lparr>block_offset := 32766\<rparr>) =
   AddRecord \<lparr>wf_append = \<lambda>d f. (if d = [0, 0] then IOError [] [] else OK, f), wf_flush = \<lambda>f. (OK, f), wf_sync = \<lambda>f. (OK, f),
    wf_close = \<lambda>f. (OK, f), wf_delete = \<lambda>f. f\<rparr> [1]
     (new_log_Writer ())"
  using trailer_status_dropped [of "(new_log_Writer ())\<lparr>block_offset := 32766\<rparr>"
      "\<lparr>wf_append = \<lambda>d f. (if d = [0, 0] then IOError [] [] else OK, f), wf_flush = \<lambda>f. (OK, f), wf_sync = \<lambda>f. (OK, f),
    wf_close = \<lambda>f. (OK, f), wf_delete = \<lambda>f. f\<rparr>" "IOError [] []" "()" "[1]"]
  by (simp add: new_log_Writer_def kBlockSize_def kHeaderSize_def numeral_2_eq_2)

end
