(* ===== verification/LdbRandom.thy ===== *)
theory LdbRandom
  imports Prelude
begin

text \<open>
  LevelDB, \<^verbatim>\<open>util/random.h\<close>: the multiplicative generator that picks the heights of the skip list.
  The reduction by shifting is shown to be the remainder modulo \<open>2 ^ 31 - 1\<close>, so a good seed stays one.
\<close>

definition rnd_M :: "64 word" where "rnd_M = 2147483647"
definition rnd_A :: "64 word" where "rnd_A = 16807"

definition new_Random :: "32 word \<Rightarrow> 32 word" where
  "new_Random s = (let seed = s AND 0x7FFFFFFF in if seed = 0 \<or> seed = 2147483647 then 1 else seed)"

text \<open>The result is also the new seed.\<close>

definition Random_Next :: "32 word \<Rightarrow> 32 word" where
  "Random_Next seed =
     (let product = ucast seed * rnd_A;
          seed = ucast (drop_bit 31 product + (product AND rnd_M)) :: 32 word in
      if ucast rnd_M < seed then seed - ucast rnd_M else seed)"

definition Uniform :: "nat \<Rightarrow> 32 word \<Rightarrow> nat \<times> 32 word" where
  "Uniform n seed = (let seed = Random_Next seed in (unat seed mod n, seed))"

definition OneIn :: "nat \<Rightarrow> 32 word \<Rightarrow> bool \<times> 32 word" where
  "OneIn n seed = (let seed = Random_Next seed in (unat seed mod n = 0, seed))"

definition Skewed :: "nat \<Rightarrow> 32 word \<Rightarrow> nat \<times> 32 word" where
  "Skewed max_log seed = (let (u, seed) = Uniform (max_log + 1) seed in Uniform (2 ^ u) seed)"

definition good_seed :: "32 word \<Rightarrow> bool" where
  "good_seed s \<longleftrightarrow> 0 < unat s \<and> unat s < 2147483647"

lemma unat_and_mask: "unat (w AND mask n) = unat (w :: 'a::len word) mod 2 ^ n"
proof -
  have "unat (w AND mask n) = take_bit n (unat w)"
    by (simp only: unsigned_take_bit_eq flip: take_bit_eq_mask)
  then show ?thesis by (simp only: take_bit_eq_mod)
qed

lemma good_new_Random: "good_seed (new_Random s)"
proof -
  have "unat (s AND 0x7FFFFFFF) = unat s mod 2 ^ 31"
    using unat_and_mask [of s 31] by (simp add: mask_eq_exp_minus_1)
  moreover have "unat s mod 2 ^ 31 < 2 ^ 31" by simp
  ultimately have "unat (s AND 0x7FFFFFFF) \<le> 2147483647" by simp
  moreover have "unat (s AND 0x7FFFFFFF) = 2147483647 \<longleftrightarrow> s AND 0x7FFFFFFF = 2147483647"
    by (simp add: word_unat_eq_iff)
  ultimately show ?thesis by (auto simp: new_Random_def good_seed_def Let_def unat_gt_0 intro: le_neq_implies_less)
qed

text \<open>The sum of the high and the low part is congruent, and at most twice the modulus.\<close>

lemma Random_Next_mod:
  assumes "good_seed s"
  shows "unat (Random_Next s) = unat s * 16807 mod 2147483647" and "good_seed (Random_Next s)"
proof -
  let ?p = "unat s * 16807" and ?M = "2147483647 :: nat"
  have s: "0 < unat s" "unat s < ?M" using assms by (simp_all add: good_seed_def)
  have "unat (ucast s :: 64 word) = unat s"
    using s by (simp add: unsigned_ucast_eq take_bit_eq_mod)
  then have "unat (ucast s * rnd_A) = ?p"
    using s by (simp add: unat_word_ariths rnd_A_def)
  moreover have "unat ((ucast s * rnd_A) AND rnd_M) = unat (ucast s * rnd_A) mod 2 ^ 31"
    using unat_and_mask [of "ucast s * rnd_A" 31] by (simp add: rnd_M_def mask_eq_exp_minus_1)
  ultimately have hl: "unat (drop_bit 31 (ucast s * rnd_A)) = ?p div 2 ^ 31"
      "unat ((ucast s * rnd_A) AND rnd_M) = ?p mod 2 ^ 31"
    by (simp_all only: unat_drop_bit)
  define h where "h = ?p div 2 ^ 31"
  define l where "l = ?p mod 2 ^ 31"
  have p: "?p = h * 2147483648 + l" unfolding h_def l_def by simp
  have l: "l < 2147483648" unfolding l_def by simp
  have h: "h < 16807" unfolding h_def using s by (intro less_mult_imp_div_less) simp
  have sum: "unat (drop_bit 31 (ucast s * rnd_A) + ((ucast s * rnd_A) AND rnd_M)) = h + l"
    using h l by (simp only: unat_word_ariths hl flip: h_def l_def) simp
  have "unat (ucast (drop_bit 31 (ucast s * rnd_A) + ((ucast s * rnd_A) AND rnd_M)) :: 32 word) = h + l"
    using h l by (simp add: unsigned_ucast_eq sum take_bit_eq_mod)
  moreover have "unat (ucast rnd_M :: 32 word) = ?M" by (simp add: rnd_M_def)
  ultimately have next': "unat (Random_Next s) = (if ?M < h + l then h + l - ?M else h + l)"
    by (simp add: Random_Next_def Let_def word_less_nat_alt unat_sub_if')
  have "?p = h * ?M + (h + l)" using p by simp
  then have pm: "?p mod ?M = (h + l) mod ?M" by (simp only: mod_mult_self3)
  have "\<not> ?M dvd ?p"
  proof
    assume "?M dvd ?p"
    moreover have "coprime ?M 16807" by (simp add: coprime_iff_gcd_eq_1 gcd_non_0_nat)
    ultimately have "?M dvd unat s" by (simp add: coprime_dvd_mult_left_iff)
    then show False using s by (auto dest: dvd_imp_le)
  qed
  then have nz: "(h + l) mod ?M \<noteq> 0" using pm by (simp add: dvd_eq_mod_eq_0)
  then have ne: "h + l \<noteq> ?M" by auto
  have "unat (Random_Next s) = (h + l) mod ?M"
  proof (cases "?M < h + l")
    case True
    then have "(h + l) mod ?M = (h + l - ?M) mod ?M" by (simp add: le_mod_geq)
    also have "\<dots> = h + l - ?M" using h l True by (intro mod_less) linarith
    finally show ?thesis using True next' by simp
  next
    case False
    with ne have "h + l < ?M" by linarith
    then show ?thesis using False next' by simp
  qed
  then show "unat (Random_Next s) = ?p mod ?M" "good_seed (Random_Next s)"
    using pm nz by (simp_all add: good_seed_def)
qed

text \<open>
  One step of the generator is multiplication modulo \<open>2 ^ 31 - 1\<close>, computed without a division,
  and it keeps the seed strictly between 0 and the modulus.
\<close>
theorem random_next_is_remainder:
  assumes "good_seed s"
  shows "unat (Random_Next s) = unat s * 16807 mod 2147483647 \<and> good_seed (Random_Next s)"
  using Random_Next_mod [OF assms] by simp

theorem random_next_is_remainder_witness:
  "unat (Random_Next (new_Random 301)) = unat (new_Random 301) * 16807 mod 2147483647"
  using random_next_is_remainder [OF good_new_Random] by simp

end
