(* ===== verification/LdbSkipList.thy ===== *)
theory LdbSkipList
  imports LdbRandom LdbComparator "HOL-Library.Multiset"
begin

text \<open>
  LevelDB, \<^verbatim>\<open>db/skiplist.h\<close>: the skip list under the memtable. A pointer to a node is its index in
  the list of allocated nodes (an arena never frees one), \<open>None\<close> is the null pointer and node 0 is
  the head. The searches are loops over these pointers, so they are partial; on a list that
  \<open>represents\<close> a sorted sequence of keys they return, and \<open>Insert\<close> inserts. The lock-free readers
  of the code see the pointers one store at a time; the model has the sequential meaning of the
  operations.
\<close>

section \<open>The structure\<close>

definition kMaxHeight :: nat where "kMaxHeight = 12"

record 'k skip_node =
  node_key :: 'k
  next_ids :: "nat option list"

record 'k skiplist =
  nodes :: "'k skip_node list"
  max_height :: nat
  skip_rnd :: "32 word"

definition key_of :: "'k skiplist \<Rightarrow> nat \<Rightarrow> 'k" where
  "key_of l x = node_key (nodes l ! x)"

definition node_next :: "'k skiplist \<Rightarrow> nat \<Rightarrow> nat \<Rightarrow> nat option" where
  "node_next l x n = next_ids (nodes l ! x) ! n"

definition set_next :: "nat \<Rightarrow> nat \<Rightarrow> nat option \<Rightarrow> 'k skiplist \<Rightarrow> 'k skiplist" where
  "set_next x n v l =
     l\<lparr>nodes := (nodes l)[x := (nodes l ! x)\<lparr>next_ids := (next_ids (nodes l ! x))[n := v]\<rparr>]\<rparr>"

text \<open>The links of a new node are written before they are read.\<close>

definition NewNode :: "'k \<Rightarrow> nat \<Rightarrow> 'k skiplist \<Rightarrow> nat \<times> 'k skiplist" where
  "NewNode key height l =
     (length (nodes l), l\<lparr>nodes := nodes l @ [\<lparr>node_key = key, next_ids = replicate height None\<rparr>]\<rparr>)"

text \<open>The key of the head is never read; \<open>any_key\<close> stands for the 0 of the code.\<close>

definition new_SkipList :: "'k \<Rightarrow> 'k skiplist" where
  "new_SkipList any_key =
     (let l = snd (NewNode any_key kMaxHeight \<lparr>nodes = [], max_height = 1, skip_rnd = new_Random 0xDEADBEEF\<rparr>) in
      fold (\<lambda>i. set_next 0 i None) [0..<kMaxHeight] l)"

function RandomHeight_loop :: "nat \<Rightarrow> 32 word \<Rightarrow> nat \<times> 32 word" where
  "RandomHeight_loop height rnd =
     (if height < kMaxHeight then
        let rnd = Random_Next rnd in
        if unat rnd mod 4 = 0 then RandomHeight_loop (height + 1) rnd else (height, rnd)
      else (height, rnd))"
  by pat_completeness auto
termination by (relation "measure (\<lambda>(h, _). kMaxHeight - h)") auto

declare RandomHeight_loop.simps [simp del]

definition RandomHeight :: "32 word \<Rightarrow> nat \<times> 32 word" where
  "RandomHeight rnd = RandomHeight_loop 1 rnd"

section \<open>The searches\<close>

definition KeyIsAfterNode :: "('k \<Rightarrow> 'k \<Rightarrow> int) \<Rightarrow> 'k skiplist \<Rightarrow> 'k \<Rightarrow> nat option \<Rightarrow> bool" where
  "KeyIsAfterNode cmp l key n = (case n of None \<Rightarrow> False | Some n \<Rightarrow> cmp (key_of l n) key < 0)"

text \<open>\<open>prev\<close> is the array of pointers, of which \<open>None\<close> entries are not yet written.\<close>

partial_function (option) FindGreaterOrEqual_loop ::
  "('k \<Rightarrow> 'k \<Rightarrow> int) \<Rightarrow> 'k skiplist \<Rightarrow> 'k \<Rightarrow> nat \<Rightarrow> nat \<Rightarrow> nat option list \<Rightarrow> (nat option \<times> nat option list) option" where
  "FindGreaterOrEqual_loop cmp l key x level prev =
     (let next = node_next l x level in
      if KeyIsAfterNode cmp l key next then FindGreaterOrEqual_loop cmp l key (the next) level prev
      else
        let prev = prev[level := Some x] in
        if level = 0 then Some (next, prev)
        else FindGreaterOrEqual_loop cmp l key x (level - 1) prev)"

definition FindGreaterOrEqual ::
  "('k \<Rightarrow> 'k \<Rightarrow> int) \<Rightarrow> 'k skiplist \<Rightarrow> 'k \<Rightarrow> nat option list \<Rightarrow> (nat option \<times> nat option list) option" where
  "FindGreaterOrEqual cmp l key prev = FindGreaterOrEqual_loop cmp l key 0 (max_height l - 1) prev"

partial_function (option) FindLessThan_loop ::
  "('k \<Rightarrow> 'k \<Rightarrow> int) \<Rightarrow> 'k skiplist \<Rightarrow> 'k \<Rightarrow> nat \<Rightarrow> nat \<Rightarrow> nat option" where
  "FindLessThan_loop cmp l key x level =
     (let next = node_next l x level in
      if next = None \<or> 0 \<le> cmp (key_of l (the next)) key then
        (if level = 0 then Some x else FindLessThan_loop cmp l key x (level - 1))
      else FindLessThan_loop cmp l key (the next) level)"

definition FindLessThan :: "('k \<Rightarrow> 'k \<Rightarrow> int) \<Rightarrow> 'k skiplist \<Rightarrow> 'k \<Rightarrow> nat option" where
  "FindLessThan cmp l key = FindLessThan_loop cmp l key 0 (max_height l - 1)"

partial_function (option) FindLast_loop :: "'k skiplist \<Rightarrow> nat \<Rightarrow> nat \<Rightarrow> nat option" where
  "FindLast_loop l x level =
     (case node_next l x level of
        None \<Rightarrow> if level = 0 then Some x else FindLast_loop l x (level - 1)
      | Some next \<Rightarrow> FindLast_loop l next level)"

definition FindLast :: "'k skiplist \<Rightarrow> nat option" where
  "FindLast l = FindLast_loop l 0 (max_height l - 1)"

section \<open>The operations\<close>

definition link_level :: "nat \<Rightarrow> nat option list \<Rightarrow> nat \<Rightarrow> 'k skiplist \<Rightarrow> 'k skiplist" where
  "link_level x prev i l =
     (let p = the (prev ! i) in set_next p i (Some x) (set_next x i (node_next l p i) l))"

definition Insert :: "('k \<Rightarrow> 'k \<Rightarrow> int) \<Rightarrow> 'k \<Rightarrow> 'k skiplist \<Rightarrow> 'k skiplist option" where
  "Insert cmp key l =
     (case FindGreaterOrEqual cmp l key (replicate kMaxHeight None) of
        None \<Rightarrow> None
      | Some (_, prev) \<Rightarrow>
          let (height, rnd) = RandomHeight (skip_rnd l);
              l = l\<lparr>skip_rnd := rnd\<rparr>;
              (prev, l) =
                (if max_height l < height
                 then (fold (\<lambda>i prev. prev[i := Some 0]) [max_height l..<height] prev, l\<lparr>max_height := height\<rparr>)
                 else (prev, l));
              (x, l) = NewNode key height l
          in Some (fold (link_level x prev) [0..<height] l))"

definition Contains :: "('k \<Rightarrow> 'k \<Rightarrow> int) \<Rightarrow> 'k skiplist \<Rightarrow> 'k \<Rightarrow> bool option" where
  "Contains cmp l key =
     map_option (\<lambda>(x, _). case x of None \<Rightarrow> False | Some x \<Rightarrow> cmp key (key_of l x) = 0)
       (FindGreaterOrEqual cmp l key [])"

text \<open>An iterator is its node; the operations that search can, as loops, fail to return.\<close>

type_synonym skip_iter = "nat option"

definition SkipIter_Valid :: "skip_iter \<Rightarrow> bool" where "SkipIter_Valid it \<longleftrightarrow> it \<noteq> None"
definition SkipIter_key :: "'k skiplist \<Rightarrow> skip_iter \<Rightarrow> 'k" where "SkipIter_key l it = key_of l (the it)"
definition SkipIter_Next :: "'k skiplist \<Rightarrow> skip_iter \<Rightarrow> skip_iter" where "SkipIter_Next l it = node_next l (the it) 0"

definition not_head :: "nat \<Rightarrow> skip_iter" where
  "not_head x = (if x = 0 then None else Some x)"

definition SkipIter_Prev :: "('k \<Rightarrow> 'k \<Rightarrow> int) \<Rightarrow> 'k skiplist \<Rightarrow> skip_iter \<Rightarrow> skip_iter option" where
  "SkipIter_Prev cmp l it = map_option not_head (FindLessThan cmp l (key_of l (the it)))"

definition SkipIter_Seek :: "('k \<Rightarrow> 'k \<Rightarrow> int) \<Rightarrow> 'k skiplist \<Rightarrow> 'k \<Rightarrow> skip_iter option" where
  "SkipIter_Seek cmp l target = map_option fst (FindGreaterOrEqual cmp l target [])"

definition SkipIter_SeekToFirst :: "'k skiplist \<Rightarrow> skip_iter" where "SkipIter_SeekToFirst l = node_next l 0 0"

definition SkipIter_SeekToLast :: "'k skiplist \<Rightarrow> skip_iter option" where
  "SkipIter_SeekToLast l = map_option not_head (FindLast l)"

section \<open>What a list represents\<close>

definition height :: "'k skiplist \<Rightarrow> nat \<Rightarrow> nat" where
  "height l x = length (next_ids (nodes l ! x))"

definition linked :: "'k skiplist \<Rightarrow> nat list \<Rightarrow> bool" where
  "linked l ns \<longleftrightarrow>
     (\<forall>xs x ys i. 0 # ns = xs @ x # ys \<longrightarrow> i < height l x \<longrightarrow>
        node_next l x i = List.find (\<lambda>y. i < height l y) ys)"

text \<open>\<open>ns\<close> are the nodes behind the head in the order of the bottom level.\<close>

definition skip_ok :: "'k skiplist \<Rightarrow> nat list \<Rightarrow> bool" where
  "skip_ok l ns \<longleftrightarrow>
     nodes l \<noteq> [] \<and> distinct ns \<and> set ns = {1..<length (nodes l)} \<and>
     height l 0 = kMaxHeight \<and> 0 < max_height l \<and> max_height l \<le> kMaxHeight \<and>
     (\<forall>x \<in> set ns. 0 < height l x \<and> height l x \<le> max_height l) \<and> linked l ns"

section \<open>Walking\<close>

text \<open>
  All three searches go forward while the next node satisfies a predicate that holds on a prefix of
  the nodes, and down a level otherwise; \<open>pred_at\<close> is where they turn at a level.
\<close>

definition pred_at :: "'k skiplist \<Rightarrow> nat list \<Rightarrow> nat \<Rightarrow> nat" where
  "pred_at l lows i = last (filter (\<lambda>y. i < height l y) (0 # lows))"

definition hd_opt :: "'a list \<Rightarrow> 'a option" where
  "hd_opt xs = (case xs of [] \<Rightarrow> None | x # _ \<Rightarrow> Some x)"

lemma hd_opt_simps [simp]: "hd_opt [] = None" "hd_opt (x # xs) = Some x"
  by (simp_all add: hd_opt_def)

lemma find_append: "List.find P (xs @ ys) = (case List.find P xs of None \<Rightarrow> List.find P ys | Some x \<Rightarrow> Some x)"
  by (induction xs) simp_all

lemma find_all: "\<forall>x \<in> set xs. P x \<Longrightarrow> List.find P xs = hd_opt xs"
  by (cases xs) simp_all

lemma find_SomeD: "List.find P xs = Some x \<Longrightarrow> x \<in> set xs \<and> P x"
  by (auto simp: find_Some_iff)

lemma walk_induct:
  assumes ok: "skip_ok l (lows @ highs)"
    and lows: "\<And>y. y \<in> set lows \<Longrightarrow> P y" and highs: "\<And>y. y \<in> set highs \<Longrightarrow> \<not> P y"
    and pos: "0 # lows = xs @ x # zs" and level: "level < height l x"
    and forward: "\<And>x y i. node_next l x i = Some y \<Longrightarrow> P y \<Longrightarrow> Q y i \<Longrightarrow> Q x i"
    and down: "\<And>x i. (\<And>y. node_next l x (Suc i) = Some y \<Longrightarrow> \<not> P y) \<Longrightarrow> x = pred_at l lows (Suc i) \<Longrightarrow> Q x i \<Longrightarrow> Q x (Suc i)"
    and bottom: "\<And>x. node_next l x 0 = hd_opt highs \<Longrightarrow> x = pred_at l lows 0 \<Longrightarrow> Q x 0"
  shows "Q x level"
  using pos level
proof (induction "length zs + level" arbitrary: xs x zs level rule: less_induct)
  case less
  let ?tall = "\<lambda>y. level < height l y"
  have "0 # (lows @ highs) = xs @ x # (zs @ highs)" using less.prems(1) by simp
  then have nxt: "node_next l x level = List.find ?tall (zs @ highs)"
    using ok less.prems(2) unfolding skip_ok_def linked_def by blast
  show ?case
  proof (cases "List.find ?tall zs")
    case (Some y)
    then have y: "y \<in> set zs" "level < height l y" by (auto dest: find_SomeD)
    then obtain zs1 zs2 where zs: "zs = zs1 @ y # zs2" by (meson split_list)
    have "y \<in> set lows" using y(1) less.prems(1) by (cases xs) auto
    then have "P y" by (rule lows)
    moreover have "Q y level"
      using zs y(2) less.prems(1) by (intro less.hyps [of zs2 level "xs @ x # zs1"]) auto
    moreover have "node_next l x level = Some y" using nxt Some by (simp add: find_append)
    ultimately show ?thesis using forward by blast
  next
    case None
    then have nxt: "node_next l x level = List.find ?tall highs" using nxt by (simp add: find_append)
    have "filter ?tall zs = []" using None by (auto simp: find_None_iff filter_empty_conv)
    then have pred: "x = pred_at l lows level"
      using less.prems by (simp add: pred_at_def)
    show ?thesis
    proof (cases level)
      case 0
      have "\<forall>y \<in> set highs. ?tall y" using ok 0 unfolding skip_ok_def by auto
      then have "List.find ?tall highs = hd_opt highs" by (rule find_all)
      with 0 nxt pred bottom [of x] show ?thesis by simp
    next
      case (Suc i)
      have "Q x i" using less.prems Suc by (intro less.hyps [of zs i xs]) auto
      moreover have "\<not> P y" if "node_next l x (Suc i) = Some y" for y
        using that nxt Suc find_SomeD [of ?tall highs y] highs [of y] by simp
      ultimately show ?thesis using down [of x i] pred Suc by simp
    qed
  qed
qed

lemmas search_simps = FindGreaterOrEqual_loop.simps FindLessThan_loop.simps FindLast_loop.simps

lemma skip_ok_head: "skip_ok l ns \<Longrightarrow> max_height l - 1 < height l 0"
  by (auto simp: skip_ok_def)

lemma skip_ok_height: "skip_ok l ns \<Longrightarrow> x \<in> set ns \<Longrightarrow> height l x \<le> kMaxHeight"
  unfolding skip_ok_def by (meson order_trans)

lemma FindGreaterOrEqual_finds:
  assumes ok: "skip_ok l (lows @ highs)"
    and lows: "\<And>y. y \<in> set lows \<Longrightarrow> cmp (key_of l y) key < 0"
    and highs: "\<And>y. y \<in> set highs \<Longrightarrow> \<not> cmp (key_of l y) key < 0"
  shows "\<exists>prev'. FindGreaterOrEqual cmp l key prev = Some (hd_opt highs, prev') \<and> length prev' = length prev \<and>
    (\<forall>j < length prev. prev' ! j = (if j < max_height l then Some (pred_at l lows j) else prev ! j))"
proof -
  let ?Q = "\<lambda>x level. \<forall>prev. \<exists>prev'. FindGreaterOrEqual_loop cmp l key x level prev = Some (hd_opt highs, prev') \<and>
    length prev' = length prev \<and>
    (\<forall>j < length prev. prev' ! j = (if j \<le> level then Some (pred_at l lows j) else prev ! j))"
  have "?Q 0 (max_height l - 1)"
  proof (rule walk_induct [OF ok lows highs, where xs = "[]" and zs = lows])
    fix x y i
    assume "node_next l x i = Some y" "cmp (key_of l y) key < 0" "?Q y i"
    then show "?Q x i" by (subst search_simps) (simp add: KeyIsAfterNode_def)
  next
    fix x i
    assume nxt: "\<And>y. node_next l x (Suc i) = Some y \<Longrightarrow> \<not> cmp (key_of l y) key < 0"
      and x: "x = pred_at l lows (Suc i)" and Q: "?Q x i"
    have stop: "\<not> KeyIsAfterNode cmp l key (node_next l x (Suc i))"
      using nxt by (simp add: KeyIsAfterNode_def split: option.split)
    show "?Q x (Suc i)"
    proof
      fix prev
      from Q obtain prev' where "FindGreaterOrEqual_loop cmp l key x i (prev[Suc i := Some x]) = Some (hd_opt highs, prev')"
          "length prev' = length prev"
          "\<forall>j < length prev. prev' ! j = (if j \<le> i then Some (pred_at l lows j) else prev[Suc i := Some x] ! j)"
        by (metis length_list_update)
      then show "\<exists>prev'. FindGreaterOrEqual_loop cmp l key x (Suc i) prev = Some (hd_opt highs, prev') \<and>
          length prev' = length prev \<and>
          (\<forall>j < length prev. prev' ! j = (if j \<le> Suc i then Some (pred_at l lows j) else prev ! j))"
        using stop x by (intro exI [of _ prev'], subst search_simps) (auto simp: nth_list_update le_Suc_eq)
    qed
  next
    fix x
    assume "node_next l x 0 = hd_opt highs" "x = pred_at l lows 0"
    moreover have "\<not> KeyIsAfterNode cmp l key (hd_opt highs)"
      using highs by (cases highs) (auto simp: KeyIsAfterNode_def)
    ultimately show "?Q x 0" by (subst search_simps) (auto simp: nth_list_update)
  qed (use skip_ok_head [OF ok] in simp_all)
  moreover have "j \<le> max_height l - 1 \<longleftrightarrow> j < max_height l" for j using ok by (auto simp: skip_ok_def)
  ultimately show ?thesis by (simp only: FindGreaterOrEqual_def)
qed

lemma pred_at_0: "skip_ok l (lows @ highs) \<Longrightarrow> pred_at l lows 0 = last (0 # lows)"
proof -
  assume ok: "skip_ok l (lows @ highs)"
  then have "\<forall>y \<in> set (0 # lows). 0 < height l y" unfolding skip_ok_def kMaxHeight_def by auto
  then have "filter (\<lambda>y. 0 < height l y) (0 # lows) = 0 # lows" by (intro filter_True)
  then show ?thesis by (simp add: pred_at_def)
qed

lemma FindLessThan_finds:
  assumes ok: "skip_ok l (lows @ highs)"
    and lows: "\<And>y. y \<in> set lows \<Longrightarrow> cmp (key_of l y) key < 0"
    and highs: "\<And>y. y \<in> set highs \<Longrightarrow> \<not> cmp (key_of l y) key < 0"
  shows "FindLessThan cmp l key = Some (last (0 # lows))"
  unfolding FindLessThan_def
proof (rule walk_induct [OF ok lows highs, where xs = "[]" and zs = lows
      and Q = "\<lambda>x i. FindLessThan_loop cmp l key x i = Some (last (0 # lows))"])
  fix x y i
  assume "node_next l x i = Some y" "cmp (key_of l y) key < 0"
    "FindLessThan_loop cmp l key y i = Some (last (0 # lows))"
  then show "FindLessThan_loop cmp l key x i = Some (last (0 # lows))" by (subst search_simps) (simp add: Let_def)
next
  fix x i
  assume "\<And>y. node_next l x (Suc i) = Some y \<Longrightarrow> \<not> cmp (key_of l y) key < 0"
    "FindLessThan_loop cmp l key x i = Some (last (0 # lows))"
  then show "FindLessThan_loop cmp l key x (Suc i) = Some (last (0 # lows))"
    by (subst search_simps) (cases "node_next l x (Suc i)"; auto simp: Let_def not_less)
next
  fix x
  assume "node_next l x 0 = hd_opt highs" "x = pred_at l lows 0"
  then show "FindLessThan_loop cmp l key x 0 = Some (last (0 # lows))"
    using highs pred_at_0 [OF ok] by (subst search_simps, cases highs) (auto simp: Let_def not_less)
qed (use skip_ok_head [OF ok] in simp_all)

lemma FindLast_finds:
  assumes ok: "skip_ok l ns"
  shows "FindLast l = Some (last (0 # ns))"
  unfolding FindLast_def
proof (rule walk_induct [where xs = "[]" and lows = ns and highs = "[]" and zs = ns and P = "\<lambda>_. True"
      and Q = "\<lambda>x i. FindLast_loop l x i = Some (last (0 # ns))"])
  fix x y i
  assume "node_next l x i = Some y" "FindLast_loop l y i = Some (last (0 # ns))"
  then show "FindLast_loop l x i = Some (last (0 # ns))" by (subst search_simps) simp
next
  fix x i
  assume "\<And>y. node_next l x (Suc i) = Some y \<Longrightarrow> \<not> True" "FindLast_loop l x i = Some (last (0 # ns))"
  then show "FindLast_loop l x (Suc i) = Some (last (0 # ns))"
    by (subst search_simps) (auto split: option.split)
next
  fix x
  assume "node_next l x 0 = hd_opt []" "x = pred_at l ns 0"
  then show "FindLast_loop l x 0 = Some (last (0 # ns))"
    using pred_at_0 [of l ns "[]"] ok by (subst search_simps) auto
qed (use ok skip_ok_head [OF ok] in simp_all)

section \<open>Inserting\<close>

lemma RandomHeight_loop_bound:
  "0 < h \<Longrightarrow> h \<le> kMaxHeight \<Longrightarrow> 0 < fst (RandomHeight_loop h rnd) \<and> fst (RandomHeight_loop h rnd) \<le> kMaxHeight"
proof (induction h rnd rule: RandomHeight_loop.induct)
  case (1 h rnd)
  then show ?case by (subst (1 2) RandomHeight_loop.simps) (auto simp: Let_def)
qed

lemma RandomHeight_bound: "0 < fst (RandomHeight rnd)" "fst (RandomHeight rnd) \<le> kMaxHeight"
  using RandomHeight_loop_bound [of 1 rnd] by (simp_all add: RandomHeight_def kMaxHeight_def)

lemma nth_list_update_same: "(xs[i := f (xs ! i)]) ! j = (if i = j \<and> i < length xs then f (xs ! i) else xs ! j)"
  by (cases "i < length xs") (auto simp: nth_list_update not_less list_update_beyond)

lemma set_next_simps [simp]:
  "length (nodes (set_next x n v l)) = length (nodes l)"
  "max_height (set_next x n v l) = max_height l"
  "height (set_next x n v l) y = height l y"
  "key_of (set_next x n v l) y = key_of l y"
  using nth_list_update_same [of "nodes l" x "\<lambda>nd. nd\<lparr>next_ids := (next_ids nd)[n := v]\<rparr>" y]
  by (simp_all add: set_next_def height_def key_of_def)

lemma node_next_set_next:
  "x < length (nodes l) \<Longrightarrow> n < height l x \<Longrightarrow>
   node_next (set_next x n v l) y m = (if x = y \<and> n = m then v else node_next l y m)"
  by (auto simp: set_next_def height_def node_next_def nth_list_update)

text \<open>The loop that splices the new node in.\<close>

lemma link_levels:
  assumes x: "x < length (nodes l)" "k \<le> height l x"
    and prev: "\<And>i. i < k \<Longrightarrow> prev ! i = Some (p i) \<and> p i < length (nodes l) \<and> i < height l (p i) \<and> p i \<noteq> x"
  shows "let l' = fold (link_level x prev) [0..<k] l in
    length (nodes l') = length (nodes l) \<and> max_height l' = max_height l \<and>
    height l' = height l \<and> key_of l' = key_of l \<and>
    (\<forall>y i. node_next l' y i =
       (if i < k \<and> y = p i then Some x else if i < k \<and> y = x then node_next l (p i) i else node_next l y i))"
  using x(2) prev
proof (induction k)
  case (Suc k)
  define lk where "lk = fold (link_level x prev) [0..<k] l"
  have IH: "length (nodes lk) = length (nodes l)" "max_height lk = max_height l" "height lk = height l" "key_of lk = key_of l"
      "\<And>y i. node_next lk y i =
       (if i < k \<and> y = p i then Some x else if i < k \<and> y = x then node_next l (p i) i else node_next l y i)"
    using Suc by (auto simp: Let_def lk_def)
  have p: "prev ! k = Some (p k)" "p k < length (nodes l)" "k < height l (p k)" "p k \<noteq> x"
    using Suc.prems(2) [of k] by simp_all
  have "fold (link_level x prev) [0..<Suc k] l = set_next (p k) k (Some x) (set_next x k (node_next lk (p k) k) lk)"
    using p(1) by (simp add: link_level_def lk_def Let_def)
  then show ?case
    using Suc.prems(1) x(1) p by (auto simp: Let_def node_next_set_next IH less_Suc_eq fun_eq_iff)
qed (simp add: fun_eq_iff)

lemma linked_middle:
  assumes "\<And>xs x zs i. 0 # lows = xs @ x # zs \<Longrightarrow> i < height l x \<Longrightarrow> node_next l x i = List.find (\<lambda>y. i < height l y) (zs @ n # highs)"
    and "\<And>i. i < height l n \<Longrightarrow> node_next l n i = List.find (\<lambda>y. i < height l y) highs"
    and "\<And>xs x ys i. highs = xs @ x # ys \<Longrightarrow> i < height l x \<Longrightarrow> node_next l x i = List.find (\<lambda>y. i < height l y) ys"
  shows "linked l (lows @ n # highs)"
  unfolding linked_def
proof (intro allI impI)
  fix xs x ys i
  assume split: "0 # lows @ n # highs = xs @ x # ys" and i: "i < height l x"
  from split have "(0 # lows) @ n # highs = xs @ x # ys" by simp
  then consider zs where "0 # lows = xs @ x # zs" "ys = zs @ n # highs" | "x = n" "ys = highs"
    | xs' where "highs = xs' @ x # ys"
    by (auto simp: append_eq_append_conv2 append_eq_Cons_conv Cons_eq_append_conv)
  then show "node_next l x i = List.find (\<lambda>y. i < height l y) ys"
    using assms i by cases auto
qed

lemma pred_at_split:
  assumes "i < height l 0"
  shows "\<exists>xs zs. 0 # lows = xs @ pred_at l lows i # zs \<and> i < height l (pred_at l lows i) \<and> (\<forall>z \<in> set zs. \<not> i < height l z)"
proof -
  have "\<exists>x \<in> set (0 # lows). i < height l x" using assms by simp
  from split_list_last_prop [OF this] obtain xs x zs where
    *: "0 # lows = xs @ x # zs" "i < height l x" "\<forall>z \<in> set zs. \<not> i < height l z"
    by blast
  then have "pred_at l lows i = x" by (simp add: pred_at_def)
  with * show ?thesis by blast
qed

text \<open>Where a node is in the list of the bottom level decides its link, at each of its levels.\<close>

lemma next_pred_at:
  assumes "skip_ok l (lows @ highs)" and "i < kMaxHeight"
  shows "node_next l (pred_at l lows i) i = List.find (\<lambda>y. i < height l y) highs"
    and "i < height l (pred_at l lows i)" and "pred_at l lows i \<in> set (0 # lows)"
proof -
  have "i < height l 0" using assms by (simp add: skip_ok_def)
  then obtain xs zs where *: "0 # lows = xs @ pred_at l lows i # zs" "i < height l (pred_at l lows i)"
      "\<forall>z \<in> set zs. \<not> i < height l z"
    using pred_at_split by blast
  have "0 # (lows @ highs) = xs @ pred_at l lows i # (zs @ highs)" using *(1) by simp
  then have "node_next l (pred_at l lows i) i = List.find (\<lambda>y. i < height l y) (zs @ highs)"
    using assms(1) *(2) unfolding skip_ok_def linked_def by blast
  moreover have "List.find (\<lambda>y. i < height l y) zs = None" using *(3) by (simp add: find_None_iff)
  ultimately show "node_next l (pred_at l lows i) i = List.find (\<lambda>y. i < height l y) highs"
    by (simp add: find_append)
  show "i < height l (pred_at l lows i)" by (fact *(2))
  have "pred_at l lows i \<in> set (xs @ pred_at l lows i # zs)" by simp
  with *(1) show "pred_at l lows i \<in> set (0 # lows)" by simp
qed

lemma find_cong: "(\<And>y. y \<in> set ys \<Longrightarrow> P y = Q y) \<Longrightarrow> List.find P ys = List.find Q ys"
  by (induction ys) auto

lemma linked_insert:
  assumes ok: "skip_ok l (lows @ highs)" and n: "n = length (nodes l)"
    and h: "height l' n \<le> kMaxHeight"
    and old: "\<And>y. y < n \<Longrightarrow> height l' y = height l y"
    and links: "\<And>y i. y < n \<or> y = n \<and> i < height l' n \<Longrightarrow> node_next l' y i = (if i < height l' n \<and> y = pred_at l lows i then Some n
        else if i < height l' n \<and> y = n then node_next l (pred_at l lows i) i else node_next l y i)"
  shows "linked l' (lows @ n # highs)"
proof (rule linked_middle)
  have dist: "distinct ((0 # lows) @ highs)" and nodes: "\<forall>y \<in> set ((0 # lows) @ highs). y < n"
    using ok by (auto simp: skip_ok_def n)
  have same: "List.find (\<lambda>y. i < height l' y) ys = List.find (\<lambda>y. i < height l y) ys"
    if "set ys \<subseteq> set ((0 # lows) @ highs)" for ys i
    using that nodes old by (intro find_cong) auto
  fix i
  show "node_next l' n i = List.find (\<lambda>y. i < height l' y) highs" if "i < height l' n"
  proof -
    have i: "i < kMaxHeight" using that h by simp
    have "pred_at l lows i \<noteq> n" using next_pred_at(3) [OF ok i] nodes by auto
    moreover have "List.find (\<lambda>y. i < height l' y) highs = List.find (\<lambda>y. i < height l y) highs"
      by (intro same) auto
    ultimately show ?thesis using that next_pred_at(1) [OF ok i] by (simp add: links)
  qed
  show "node_next l' x i = List.find (\<lambda>y. i < height l' y) ys"
    if "highs = xs @ x # ys" "i < height l' x" for xs x ys
  proof -
    have x: "x \<in> set highs" "x < n" using that nodes by auto
    have "i < height l x" using that(2) x(2) old by simp
    moreover have "0 # (lows @ highs) = (0 # lows @ xs) @ x # ys" using that(1) by simp
    ultimately have "node_next l x i = List.find (\<lambda>y. i < height l y) ys"
      using ok unfolding skip_ok_def linked_def by blast
    moreover have "i < kMaxHeight"
      using skip_ok_height [OF ok, of x] x \<open>i < height l x\<close> by simp
    then have "x \<noteq> pred_at l lows i" using next_pred_at(3) [OF ok, of i] dist x by auto
    moreover have "List.find (\<lambda>y. i < height l' y) ys = List.find (\<lambda>y. i < height l y) ys"
      using that(1) by (intro same) auto
    ultimately show ?thesis using x by (simp add: links)
  qed
  show "node_next l' x i = List.find (\<lambda>y. i < height l' y) (zs @ n # highs)"
    if split: "0 # lows = xs @ x # zs" and tall: "i < height l' x" for xs x zs
  proof -
    have "x \<in> set (0 # lows)" unfolding split by simp
    then have x: "x < n" using nodes by auto
    have tallx: "i < height l x" using tall x old by simp
    moreover have "0 # (lows @ highs) = xs @ x # (zs @ highs)" using split by simp
    ultimately have nx: "node_next l x i = List.find (\<lambda>y. i < height l y) (zs @ highs)"
      using ok unfolding skip_ok_def linked_def by blast
    have "distinct (xs @ x # zs)" using dist by (simp flip: split)
    moreover have p: "pred_at l lows i = last (filter (\<lambda>y. i < height l y) (xs @ x # zs))"
      by (simp add: pred_at_def flip: split)
    ultimately have pred: "x = pred_at l lows i \<longleftrightarrow> List.find (\<lambda>y. i < height l y) zs = None"
      using tallx last_in_set [of "filter (\<lambda>y. i < height l y) zs"]
      by (cases "filter (\<lambda>y. i < height l y) zs = []") (auto simp: filter_empty_conv find_None_iff)
    have zs: "List.find (\<lambda>y. i < height l' y) zs = List.find (\<lambda>y. i < height l y) zs"
      using split by (intro same) (auto simp: Cons_eq_append_conv)
    have hs: "List.find (\<lambda>y. i < height l' y) highs = List.find (\<lambda>y. i < height l y) highs"
      by (intro same) auto
    show ?thesis
    proof (cases "List.find (\<lambda>y. i < height l y) zs")
      case None
      then show ?thesis using pred nx x by (simp add: links find_append zs hs)
    next
      case (Some y)
      then show ?thesis using pred nx x by (simp add: links find_append zs hs)
    qed
  qed
qed

lemma fold_update_nth:
  "j < length xs \<Longrightarrow> fold (\<lambda>i xs. xs[i := v]) [a..<b] xs ! j = (if a \<le> j \<and> j < b then v else xs ! j)"
  "length (fold (\<lambda>i xs. xs[i := v]) [a..<b] xs) = length xs"
  by (induction b) (auto simp: nth_list_update less_Suc_eq le_Suc_eq)

lemma pred_at_above:
  assumes "skip_ok l (lows @ highs)" and "max_height l \<le> i" and "i < kMaxHeight"
  shows "pred_at l lows i = 0"
proof -
  have "height l y \<le> max_height l" if "y \<in> set lows" for y
    using that assms(1) by (auto simp: skip_ok_def)
  then have "\<forall>y \<in> set lows. \<not> i < height l y" using assms(2) by fastforce
  then have "filter (\<lambda>y. i < height l y) lows = []" by (simp add: filter_empty_conv)
  moreover have "i < height l 0" using assms by (simp add: skip_ok_def)
  ultimately show ?thesis by (simp add: pred_at_def)
qed

lemma Insert_splices:
  assumes ok: "skip_ok l (lows @ highs)"
    and lows: "\<And>y. y \<in> set lows \<Longrightarrow> cmp (key_of l y) key < 0"
    and highs: "\<And>y. y \<in> set highs \<Longrightarrow> \<not> cmp (key_of l y) key < 0"
  shows "\<exists>l'. Insert cmp key l = Some l' \<and> skip_ok l' (lows @ length (nodes l) # highs) \<and>
    key_of l' (length (nodes l)) = key \<and> (\<forall>y < length (nodes l). key_of l' y = key_of l y)"
proof -
  let ?n = "length (nodes l)"
  obtain h rnd where hr: "RandomHeight (skip_rnd l) = (h, rnd)" by fastforce
  have h: "0 < h" "h \<le> kMaxHeight" using RandomHeight_bound [of "skip_rnd l"] hr by simp_all
  obtain prev where prev: "FindGreaterOrEqual cmp l key (replicate kMaxHeight None) = Some (hd_opt highs, prev)"
      "length prev = kMaxHeight" "\<forall>j < kMaxHeight. prev ! j = (if j < max_height l then Some (pred_at l lows j) else None)"
    using FindGreaterOrEqual_finds [where cmp = cmp and prev = "replicate kMaxHeight None", OF ok lows highs] by auto
  define prev2 where "prev2 = (if max_height l < h then fold (\<lambda>i prev. prev[i := Some 0]) [max_height l..<h] prev else prev)"
  define m2 where "m2 = max (max_height l) h"
  define l1 where "l1 = l\<lparr>skip_rnd := rnd, max_height := m2,
    nodes := nodes l @ [\<lparr>node_key = key, next_ids = replicate h None\<rparr>]\<rparr>"
  have ins: "Insert cmp key l = Some (fold (link_level ?n prev2) [0..<h] l1)"
    using prev(1) hr
    by (simp add: Insert_def NewNode_def l1_def prev2_def m2_def max_def Let_def split: prod.split)
  have p2: "prev2 ! i = Some (pred_at l lows i)" if "i < h" for i
    using that h prev pred_at_above [OF ok, of i]
    by (cases "max_height l < h") (auto simp: prev2_def fold_update_nth)
  have nodes: "\<forall>y \<in> set (0 # lows @ highs). y < ?n" using ok by (auto simp: skip_ok_def)
  have l1: "length (nodes l1) = Suc ?n" "max_height l1 = m2" "height l1 ?n = h" "key_of l1 ?n = key"
      "\<And>y. y < ?n \<Longrightarrow> height l1 y = height l y \<and> key_of l1 y = key_of l y"
      "\<And>y i. y < ?n \<Longrightarrow> node_next l1 y i = node_next l y i"
    by (simp_all add: l1_def height_def key_of_def node_next_def nth_append)
  have pa: "pred_at l lows i < ?n" "i < height l (pred_at l lows i)" if "i < h" for i
  proof -
    have "i < kMaxHeight" using that h by simp
    from next_pred_at(2,3) [OF ok this] nodes show "pred_at l lows i < ?n" "i < height l (pred_at l lows i)"
      by auto
  qed
  have step: "prev2 ! i = Some (pred_at l lows i) \<and> pred_at l lows i < length (nodes l1) \<and>
      i < height l1 (pred_at l lows i) \<and> pred_at l lows i \<noteq> ?n" if "i < h" for i
    using p2 [OF that] pa [OF that] l1 by auto
  define l2 where "l2 = fold (link_level ?n prev2) [0..<h] l1"
  have l2: "length (nodes l2) = Suc ?n" "max_height l2 = m2" "height l2 = height l1" "key_of l2 = key_of l1"
      "\<And>y i. node_next l2 y i =
       (if i < h \<and> y = pred_at l lows i then Some ?n else if i < h \<and> y = ?n then node_next l1 (pred_at l lows i) i
        else node_next l1 y i)"
    using link_levels [of ?n l1 h prev2 "pred_at l lows", OF _ _ step] l1(1-4) unfolding Let_def l2_def by auto
  have "linked l2 (lows @ ?n # highs)"
  proof (rule linked_insert [OF ok refl])
    show "height l2 ?n \<le> kMaxHeight" using h l1 l2 by simp
    show "height l2 y = height l y" if "y < ?n" for y using that l1 l2 by simp
    show "node_next l2 y i = (if i < height l2 ?n \<and> y = pred_at l lows i then Some ?n
        else if i < height l2 ?n \<and> y = ?n then node_next l (pred_at l lows i) i else node_next l y i)"
      if "y < ?n \<or> y = ?n \<and> i < height l2 ?n" for y i
      using that l1 l2 pa [of i] by auto
  qed
  moreover have pos: "1 \<le> ?n" using ok by (cases "nodes l") (simp_all add: skip_ok_def)
  moreover have "distinct (lows @ ?n # highs)" "set (lows @ ?n # highs) = {1..<length (nodes l2)}"
    "height l2 0 = kMaxHeight" "0 < max_height l2" "max_height l2 \<le> kMaxHeight"
    using ok nodes l1 l2 h pos by (auto simp: skip_ok_def m2_def)
  moreover have "0 < height l2 y \<and> height l2 y \<le> max_height l2" if "y \<in> set (lows @ ?n # highs)" for y
  proof (cases "y = ?n")
    case False
    with that have "y \<in> set (lows @ highs)" by auto
    with ok have "0 < height l y" "height l y \<le> max_height l" "y < ?n" unfolding skip_ok_def by auto
    then show ?thesis using l1 l2 by (auto simp: m2_def)
  qed (use h l1 l2 in \<open>simp add: m2_def\<close>)
  ultimately have "skip_ok l2 (lows @ ?n # highs)"
    unfolding skip_ok_def using l2(1) by auto
  then show ?thesis using ins l1 l2 unfolding l2_def by auto
qed

section \<open>The list as a sorted sequence of keys\<close>

primrec Insert_all :: "('k \<Rightarrow> 'k \<Rightarrow> int) \<Rightarrow> 'k list \<Rightarrow> 'k skiplist \<Rightarrow> 'k skiplist option" where
  "Insert_all cmp [] l = Some l"
| "Insert_all cmp (k # ks) l = (case Insert cmp k l of None \<Rightarrow> None | Some l \<Rightarrow> Insert_all cmp ks l)"

primrec skip_scan :: "'k skiplist \<Rightarrow> nat \<Rightarrow> skip_iter \<Rightarrow> 'k list" where
  "skip_scan l 0 it = []"
| "skip_scan l (Suc n) it =
     (if SkipIter_Valid it then SkipIter_key l it # skip_scan l n (SkipIter_Next l it) else [])"

definition represents :: "('k \<Rightarrow> 'k \<Rightarrow> int) \<Rightarrow> ('k \<Rightarrow> bool) \<Rightarrow> 'k skiplist \<Rightarrow> nat list \<Rightarrow> 'k list \<Rightarrow> bool" where
  "represents cmp ok l ns ks \<longleftrightarrow>
     skip_ok l ns \<and> ks = map (key_of l) ns \<and> sorted_wrt (\<lambda>a b. cmp a b < 0) ks \<and> (\<forall>k \<in> set ks. ok k)"

definition iter_at :: "nat list \<Rightarrow> nat \<Rightarrow> skip_iter" where
  "iter_at ns p = (if p < length ns then Some (ns ! p) else None)"

lemma fold_set_next_None: "fold (\<lambda>i. set_next x i None) is l = l"
  if "\<And>i. node_next l x i = None \<or> height l x \<le> i"
proof -
  have "set_next x i None l = l" for i
  proof -
    have "(next_ids (nodes l ! x))[i := None] = next_ids (nodes l ! x)"
      using that [of i]
      by (cases "i < length (next_ids (nodes l ! x))")
        (auto simp: node_next_def height_def list_update_same_conv not_less list_update_beyond)
    then show ?thesis by (simp add: set_next_def)
  qed
  then show ?thesis by (induction "is") simp_all
qed

lemma new_SkipList_ok: "skip_ok (new_SkipList k) []"
proof -
  let ?l = "\<lparr>nodes = [\<lparr>node_key = k, next_ids = replicate kMaxHeight None\<rparr>], max_height = 1, skip_rnd = new_Random 0xDEADBEEF\<rparr>"
  have nxt: "node_next ?l 0 i = None \<or> height ?l 0 \<le> i" for i
    by (cases "i < kMaxHeight") (simp_all add: node_next_def height_def)
  then have "new_SkipList k = ?l" by (simp add: new_SkipList_def NewNode_def fold_set_next_None)
  moreover have "linked ?l []"
  proof -
    have "node_next ?l 0 i = None" if "i < height ?l 0" for i using nxt [of i] that by linarith
    then show ?thesis by (simp add: linked_def Cons_eq_append_conv)
  qed
  ultimately show ?thesis by (simp add: skip_ok_def height_def kMaxHeight_def)
qed

lemma dropWhile_not:
  assumes "sorted_wrt (\<lambda>a b. P b \<longrightarrow> P a) xs" and "x \<in> set (dropWhile P xs)"
  shows "\<not> P x"
  using assms
proof (induction xs)
  case (Cons y ys)
  then show ?case by (cases "P y") auto
qed simp

context key_order
begin

lemma represents_new: "represents cmp ok (new_SkipList k) [] []"
  by (simp add: represents_def new_SkipList_ok)

lemma sorted_split:
  assumes "sorted_wrt (\<lambda>a b. cmp a b < 0) ks" and "\<forall>k \<in> set ks. ok k" and "ok key"
    and "k \<in> set (dropWhile (\<lambda>k. cmp k key < 0) ks)"
  shows "\<not> cmp k key < 0"
proof (rule dropWhile_not [OF _ assms(4)])
  have "cmp a key < 0" if "ok a" "ok b" "cmp a b < 0" "cmp b key < 0" for a b
    using lt_trans [of a b key] that assms(3) by blast
  then show "sorted_wrt (\<lambda>a b. cmp b key < 0 \<longrightarrow> cmp a key < 0) ks"
    using assms(2) by (intro sorted_wrt_mono_rel [OF _ assms(1)]) blast
qed

lemma represents_split:
  assumes "represents cmp ok l ns ks" and "ok key"
  obtains lows highs where "ns = lows @ highs"
    "map (key_of l) lows = takeWhile (\<lambda>k. cmp k key < 0) ks" "map (key_of l) highs = dropWhile (\<lambda>k. cmp k key < 0) ks"
    "\<forall>y \<in> set lows. cmp (key_of l y) key < 0" "\<forall>y \<in> set highs. \<not> cmp (key_of l y) key < 0"
proof
  let ?p = "\<lambda>y. cmp (key_of l y) key < 0"
  have ks: "ks = map (key_of l) ns" using assms(1) by (simp add: represents_def)
  show "ns = takeWhile ?p ns @ dropWhile ?p ns" by simp
  show 1: "map (key_of l) (takeWhile ?p ns) = takeWhile (\<lambda>k. cmp k key < 0) ks"
    and 2: "map (key_of l) (dropWhile ?p ns) = dropWhile (\<lambda>k. cmp k key < 0) ks"
    by (simp_all add: ks takeWhile_map dropWhile_map comp_def)
  show "\<forall>y \<in> set (takeWhile ?p ns). ?p y" by (auto dest: set_takeWhileD)
  have ok: "sorted_wrt (\<lambda>a b. cmp a b < 0) ks" "\<forall>k \<in> set ks. ok k"
    using assms(1) unfolding represents_def by blast+
  show "\<forall>y \<in> set (dropWhile ?p ns). \<not> ?p y"
  proof
    fix y assume "y \<in> set (dropWhile ?p ns)"
    then have "key_of l y \<in> set (dropWhile (\<lambda>k. cmp k key < 0) ks)" unfolding 2 [symmetric] by simp
    from sorted_split [OF ok assms(2) this] show "\<not> ?p y" .
  qed
qed

lemma Insert_represents:
  assumes rep: "represents cmp ok l ns ks" and key: "ok key" "\<forall>k \<in> set ks. cmp k key \<noteq> 0"
  shows "\<exists>l' ns'. Insert cmp key l = Some l' \<and>
    represents cmp ok l' ns' (takeWhile (\<lambda>k. cmp k key < 0) ks @ key # dropWhile (\<lambda>k. cmp k key < 0) ks)"
proof -
  obtain lows highs where s: "ns = lows @ highs" "map (key_of l) lows = takeWhile (\<lambda>k. cmp k key < 0) ks"
      "map (key_of l) highs = dropWhile (\<lambda>k. cmp k key < 0) ks"
      "\<forall>y \<in> set lows. cmp (key_of l y) key < 0" "\<forall>y \<in> set highs. \<not> cmp (key_of l y) key < 0"
    by (rule represents_split [OF rep key(1)])
  have ok: "skip_ok l (lows @ highs)" "sorted_wrt (\<lambda>a b. cmp a b < 0) ks" "\<forall>k \<in> set ks. ok k"
    using rep unfolding s(1) represents_def by blast+
  from Insert_splices [where cmp = cmp, OF ok(1) s(4,5) [rule_format]] obtain l' where l': "Insert cmp key l = Some l'"
      "skip_ok l' (lows @ length (nodes l) # highs)" "key_of l' (length (nodes l)) = key"
      "\<forall>y < length (nodes l). key_of l' y = key_of l y"
    by blast
  have "\<forall>y \<in> set (lows @ highs). y < length (nodes l)" using ok(1) unfolding skip_ok_def by auto
  then have keys: "map (key_of l') (lows @ length (nodes l) # highs) =
      takeWhile (\<lambda>k. cmp k key < 0) ks @ key # dropWhile (\<lambda>k. cmp k key < 0) ks"
    using l'(3,4) s(2,3) by (simp flip: s(2,3))
  have "cmp key k < 0" if "k \<in> set (dropWhile (\<lambda>k. cmp k key < 0) ks)" for k
  proof -
    have k: "k \<in> set ks" using that by (rule set_dropWhileD)
    moreover have "\<not> cmp k key < 0" by (rule sorted_split [OF ok(2,3) key(1) that])
    ultimately have "0 < cmp k key" using key(2) by force
    with compare_pos [of k key] ok(3) k key(1) show ?thesis by blast
  qed
  moreover have "sorted_wrt (\<lambda>a b. cmp a b < 0) (takeWhile (\<lambda>k. cmp k key < 0) ks @ dropWhile (\<lambda>k. cmp k key < 0) ks)"
    using ok(2) by simp
  ultimately have "sorted_wrt (\<lambda>a b. cmp a b < 0) (takeWhile (\<lambda>k. cmp k key < 0) ks @ key # dropWhile (\<lambda>k. cmp k key < 0) ks)"
    by (auto simp: sorted_wrt_append simp del: takeWhile_dropWhile_id dest: set_takeWhileD)
  moreover have "\<forall>k \<in> set (takeWhile (\<lambda>k. cmp k key < 0) ks @ key # dropWhile (\<lambda>k. cmp k key < 0) ks). ok k"
    using ok(3) key(1) by (auto dest: set_takeWhileD set_dropWhileD)
  ultimately have "represents cmp ok l' (lows @ length (nodes l) # highs)
      (takeWhile (\<lambda>k. cmp k key < 0) ks @ key # dropWhile (\<lambda>k. cmp k key < 0) ks)"
    using l'(2) keys by (simp only: represents_def)
  with l'(1) show ?thesis by blast
qed

lemma FindGreaterOrEqual_represents:
  assumes rep: "represents cmp ok l ns ks" and key: "ok t"
  shows "\<exists>prev'. FindGreaterOrEqual cmp l t prev =
    Some (iter_at ns (length (takeWhile (\<lambda>k. cmp k t < 0) ks)), prev')"
proof -
  obtain lows highs where s: "ns = lows @ highs" "map (key_of l) lows = takeWhile (\<lambda>k. cmp k t < 0) ks"
      "map (key_of l) highs = dropWhile (\<lambda>k. cmp k t < 0) ks"
      "\<forall>y \<in> set lows. cmp (key_of l y) t < 0" "\<forall>y \<in> set highs. \<not> cmp (key_of l y) t < 0"
    by (rule represents_split [OF rep key])
  have "skip_ok l (lows @ highs)" using rep unfolding s(1) represents_def by blast
  from FindGreaterOrEqual_finds [where cmp = cmp and prev = prev, OF this s(4,5) [rule_format]]
  have "\<exists>prev'. FindGreaterOrEqual cmp l t prev = Some (hd_opt highs, prev')" by blast
  moreover have "length (takeWhile (\<lambda>k. cmp k t < 0) ks) = length lows" by (simp flip: s(2))
  then have "iter_at ns (length (takeWhile (\<lambda>k. cmp k t < 0) ks)) = hd_opt highs"
    by (cases highs) (simp_all add: iter_at_def s(1) nth_append)
  ultimately show ?thesis by simp
qed

lemma Seek_represents:
  "represents cmp ok l ns ks \<Longrightarrow> ok t \<Longrightarrow>
   SkipIter_Seek cmp l t = Some (iter_at ns (length (takeWhile (\<lambda>k. cmp k t < 0) ks)))"
  using FindGreaterOrEqual_represents [of l ns ks t "[]"] by (auto simp: SkipIter_Seek_def)

lemma SeekToFirst_represents: "represents cmp ok l ns ks \<Longrightarrow> SkipIter_SeekToFirst l = iter_at ns 0"
proof -
  assume "represents cmp ok l ns ks"
  then have ok: "skip_ok l ns" unfolding represents_def by blast
  then have "node_next l 0 0 = List.find (\<lambda>y. 0 < height l y) ns"
    unfolding skip_ok_def linked_def kMaxHeight_def by fastforce
  also have "\<dots> = hd_opt ns" using ok by (intro find_all) (simp add: skip_ok_def)
  finally show ?thesis by (cases ns) (simp_all add: SkipIter_SeekToFirst_def iter_at_def)
qed

lemma SeekToLast_represents:
  "represents cmp ok l ns ks \<Longrightarrow>
   SkipIter_SeekToLast l = Some (if ns = [] then None else iter_at ns (length ns - 1))"
proof -
  assume "represents cmp ok l ns ks"
  then have ok: "skip_ok l ns" unfolding represents_def by blast
  moreover have "last ns \<noteq> 0" if "ns \<noteq> []"
  proof -
    have "last ns \<in> set ns" using that by simp
    then show ?thesis using ok unfolding skip_ok_def by auto
  qed
  ultimately show ?thesis
    using FindLast_finds [of l ns]
    by (cases "ns = []") (simp_all add: SkipIter_SeekToLast_def not_head_def iter_at_def last_conv_nth)
qed

lemma SkipIter_key_represents:
  "represents cmp ok l ns ks \<Longrightarrow> p < length ks \<Longrightarrow> SkipIter_Valid (iter_at ns p) \<and> SkipIter_key l (iter_at ns p) = ks ! p"
  by (simp add: represents_def SkipIter_Valid_def SkipIter_key_def iter_at_def)

lemma Next_represents:
  assumes rep: "represents cmp ok l ns ks" and p: "p < length ks"
  shows "SkipIter_Next l (iter_at ns p) = iter_at ns (Suc p)"
proof -
  have ok: "skip_ok l ns" and len: "length ks = length ns" using rep by (simp_all add: represents_def)
  have "0 # ns = (0 # take p ns) @ ns ! p # drop (Suc p) ns" using p len by (simp add: id_take_nth_drop)
  moreover have "ns ! p \<in> set ns" using p len by simp
  then have "0 < height l (ns ! p)" using ok unfolding skip_ok_def by blast
  ultimately have "node_next l (ns ! p) 0 = List.find (\<lambda>y. 0 < height l y) (drop (Suc p) ns)"
    using ok unfolding skip_ok_def linked_def by blast
  also have "\<dots> = hd_opt (drop (Suc p) ns)"
    using ok by (intro find_all) (auto simp: skip_ok_def dest: in_set_dropD)
  also have "\<dots> = iter_at ns (Suc p)"
    by (auto simp: iter_at_def hd_opt_def simp flip: hd_drop_conv_nth split: list.split)
  finally show ?thesis using p len by (simp add: SkipIter_Next_def iter_at_def)
qed

lemma takeWhile_sorted:
  assumes "sorted_wrt (\<lambda>a b. cmp a b < 0) ks" and "\<forall>k \<in> set ks. ok k" and "p < length ks"
  shows "takeWhile (\<lambda>k. cmp k (ks ! p) < 0) ks = take p ks"
proof (rule takeWhile_eq_take_P_nth)
  show "cmp (ks ! i) (ks ! p) < 0" if "i < p" "i < length ks" for i
    using that assms(1,3) by (simp add: sorted_wrt_iff_nth_less)
  show "\<not> cmp (ks ! p) (ks ! p) < 0" using compare_refl [of "ks ! p"] assms(2,3) by simp
qed

lemma Prev_represents:
  assumes rep: "represents cmp ok l ns ks" and p: "p < length ks"
  shows "SkipIter_Prev cmp l (iter_at ns p) = Some (if p = 0 then None else iter_at ns (p - 1))"
proof -
  have sorted: "sorted_wrt (\<lambda>a b. cmp a b < 0) ks" "\<forall>k \<in> set ks. ok k" and ks: "ks = map (key_of l) ns"
    using rep unfolding represents_def by blast+
  have len: "length ks = length ns" by (simp add: ks)
  have key: "ok (ks ! p)" "key_of l (ns ! p) = ks ! p" using sorted(2) p by (simp_all add: ks)
  obtain lows highs where s: "ns = lows @ highs" "map (key_of l) lows = takeWhile (\<lambda>k. cmp k (ks ! p) < 0) ks"
      "map (key_of l) highs = dropWhile (\<lambda>k. cmp k (ks ! p) < 0) ks"
      "\<forall>y \<in> set lows. cmp (key_of l y) (ks ! p) < 0" "\<forall>y \<in> set highs. \<not> cmp (key_of l y) (ks ! p) < 0"
    by (rule represents_split [OF rep key(1)])
  have "map (key_of l) lows = take p ks" using s(2) takeWhile_sorted [OF sorted p] by simp
  then have "length lows = p" using p by (metis length_map length_take min.absorb4)
  then have lows: "lows = take p ns" by (simp add: s(1))
  have ok: "skip_ok l (lows @ highs)" using rep unfolding s(1) represents_def by blast
  from FindLessThan_finds [where cmp = cmp, OF this s(4,5) [rule_format]]
  have "FindLessThan cmp l (key_of l (ns ! p)) = Some (last (0 # take p ns))" by (simp add: key(2) lows)
  moreover have "last (0 # take p ns) = (if p = 0 then 0 else ns ! (p - 1))"
    using p len by (cases p) (auto simp: take_Suc_conv_app_nth)
  moreover have "ns ! (p - 1) \<noteq> 0"
  proof -
    have "ns ! (p - 1) \<in> set ns" using p len by simp
    then have "ns ! (p - 1) \<in> set (lows @ highs)" by (simp only: s(1))
    moreover have "set (lows @ highs) = {1..<length (nodes l)}" using ok unfolding skip_ok_def by blast
    ultimately have "ns ! (p - 1) \<in> {1..<length (nodes l)}" by blast
    then show ?thesis by simp
  qed
  ultimately show ?thesis using p len by (cases p) (simp_all add: SkipIter_Prev_def iter_at_def not_head_def)
qed

lemma Contains_represents:
  assumes rep: "represents cmp ok l ns ks" and t: "ok t"
  shows "Contains cmp l t = Some (\<exists>k \<in> set ks. cmp t k = 0)"
proof -
  let ?p = "length (takeWhile (\<lambda>k. cmp k t < 0) ks)"
  have sorted: "sorted_wrt (\<lambda>a b. cmp a b < 0) ks" "\<forall>k \<in> set ks. ok k" and ks: "ks = map (key_of l) ns"
    using rep unfolding represents_def by blast+
  have len: "length ks = length ns" by (simp add: ks)
  obtain prev' where "FindGreaterOrEqual cmp l t [] = Some (iter_at ns ?p, prev')"
    using FindGreaterOrEqual_represents [OF rep t, of "[]"] by blast
  then have "Contains cmp l t = Some (?p < length ks \<and> cmp t (ks ! ?p) = 0)"
    by (cases "?p < length ns") (simp_all only: Contains_def iter_at_def len, simp_all add: ks)
  moreover have "?p < length ks \<and> cmp t (ks ! ?p) = 0" if k: "k \<in> set ks" "cmp t k = 0" for k
  proof -
    obtain j where j: "j < length ks" "ks ! j = k" using k(1) by (meson in_set_conv_nth)
    have okk: "ok k" using sorted(2) k(1) by blast
    have eq: "cmp k' t < 0 \<longleftrightarrow> cmp k' k < 0" if "ok k'" for k'
    proof -
      have "cmp t k \<le> 0" "cmp k t \<le> 0" using compare_zero [OF t okk] k(2) by simp_all
      then show ?thesis using lt_trans_le [OF that t okk] lt_trans_le [OF that okk t] by blast
    qed
    have "takeWhile (\<lambda>k. cmp k t < 0) ks = takeWhile (\<lambda>k'. cmp k' k < 0) ks"
      by (intro takeWhile_cong refl eq) (use sorted(2) in blast)
    also have "\<dots> = take j ks" using takeWhile_sorted [OF sorted j(1)] j(2) by simp
    finally have "?p = j" using j(1) by simp
    then show ?thesis using j k(2) by simp
  qed
  ultimately have "(?p < length ks \<and> cmp t (ks ! ?p) = 0) \<longleftrightarrow> (\<exists>k \<in> set ks. cmp t k = 0)"
    using nth_mem [of ?p ks] by blast
  with \<open>Contains cmp l t = _\<close> show ?thesis by (simp only:)
qed

text \<open>Inserting one key after another, and reading the list forward.\<close>

lemma Insert_all_represents:
  assumes "represents cmp ok l ns ks" and "\<forall>k \<in> set new. ok k"
    and "sorted_wrt (\<lambda>a b. cmp a b \<noteq> 0) new" and "\<forall>k \<in> set ks. \<forall>k' \<in> set new. cmp k k' \<noteq> 0"
  shows "\<exists>l' ns' ks'. Insert_all cmp new l = Some l' \<and> represents cmp ok l' ns' ks' \<and> mset ks' = mset ks + mset new"
  using assms
proof (induction new arbitrary: l ns ks)
  case (Cons key new)
  let ?ks = "takeWhile (\<lambda>k. cmp k key < 0) ks @ key # dropWhile (\<lambda>k. cmp k key < 0) ks"
  have "ok key" "\<forall>k \<in> set ks. cmp k key \<noteq> 0" using Cons.prems(2,4) by simp_all
  from Insert_represents [OF Cons.prems(1) this] obtain l' ns' where l': "Insert cmp key l = Some l'"
      "represents cmp ok l' ns' ?ks"
    by blast
  have "mset ks = mset (takeWhile (\<lambda>k. cmp k key < 0) ks) + mset (dropWhile (\<lambda>k. cmp k key < 0) ks)"
    by (simp only: takeWhile_dropWhile_id flip: mset_append)
  then have mset: "mset ?ks = add_mset key (mset ks)" by (simp only: mset_append mset.simps union_mset_add_mset_right)
  then have "set ?ks = insert key (set ks)" by (simp only: set_mset_add_mset_insert flip: set_mset_mset)
  then have "\<forall>k \<in> set ?ks. \<forall>k' \<in> set new. cmp k k' \<noteq> 0" using Cons.prems(3,4) by (simp only: ball_simps sorted_wrt.simps list.set) blast
  moreover have "\<forall>k \<in> set new. ok k" "sorted_wrt (\<lambda>a b. cmp a b \<noteq> 0) new" using Cons.prems(2,3) by simp_all
  ultimately obtain l2 ns2 ks2 where l2: "Insert_all cmp new l' = Some l2" "represents cmp ok l2 ns2 ks2"
      "mset ks2 = mset ?ks + mset new"
    using Cons.IH [OF l'(2)] by blast
  have "mset ks2 = mset ks + mset (key # new)" unfolding l2(3) mset by simp
  moreover have "Insert_all cmp (key # new) l = Some l2" using l'(1) l2(1) by simp
  ultimately show ?case using l2(2) by blast
qed (simp, blast)

lemma skip_scan_represents:
  assumes "represents cmp ok l ns ks"
  shows "length ks - p < n \<Longrightarrow> skip_scan l n (iter_at ns p) = drop p ks"
proof (induction n arbitrary: p)
  case (Suc n)
  have len: "length ks = length ns" using assms by (simp add: represents_def)
  show ?case
  proof (cases "p < length ks")
    case True
    then have "skip_scan l n (iter_at ns (Suc p)) = drop (Suc p) ks" using Suc by simp
    with True SkipIter_key_represents [OF assms True] Next_represents [OF assms True] show ?thesis
      by (simp add: Cons_nth_drop_Suc)
  qed (simp add: iter_at_def len SkipIter_Valid_def)
qed simp

end

text \<open>
  C15. The skip list refines a sorted list. Inserting keys of which no two compare equal into a new
  list returns, and in the result a forward scan reads exactly these keys in increasing order,
  \<open>Contains\<close> answers whether a key compares equal to one of them, and \<open>Seek\<close> stands at the first
  key that is not before its target.
\<close>
theorem skiplist_refines_sorted_list:
  assumes "key_order cmp ok" and "\<forall>k \<in> set new. ok k" and "sorted_wrt (\<lambda>a b. cmp a b \<noteq> 0) new" and "ok t"
  shows "\<exists>l ks. Insert_all cmp new (new_SkipList any_key) = Some l \<and>
    mset ks = mset new \<and> sorted_wrt (\<lambda>a b. cmp a b < 0) ks \<and>
    skip_scan l (Suc (length ks)) (SkipIter_SeekToFirst l) = ks \<and>
    Contains cmp l t = Some (\<exists>k \<in> set ks. cmp t k = 0) \<and>
    (\<exists>it. SkipIter_Seek cmp l t = Some it \<and>
      skip_scan l (Suc (length ks)) it = dropWhile (\<lambda>k. cmp k t < 0) ks)"
proof -
  note order = key_order.represents_new key_order.Insert_all_represents key_order.skip_scan_represents
    key_order.SeekToFirst_represents key_order.Contains_represents key_order.Seek_represents
  note order = order [OF assms(1)]
  obtain l ns ks where l: "Insert_all cmp new (new_SkipList any_key) = Some l" "represents cmp ok l ns ks" "mset ks = mset new"
    using order(2) [OF order(1) [of any_key] assms(2,3)] by (auto simp only: list.set ball_empty mset.simps add_0)
  have scan: "skip_scan l (Suc (length ks)) (iter_at ns p) = drop p ks" for p
    by (rule order(3) [OF l(2)]) simp
  have "sorted_wrt (\<lambda>a b. cmp a b < 0) ks" using l(2) unfolding represents_def by blast
  moreover have "skip_scan l (Suc (length ks)) (SkipIter_SeekToFirst l) = ks"
    using scan [of 0] order(4) [OF l(2)] by simp
  moreover have "skip_scan l (Suc (length ks)) (iter_at ns (length (takeWhile (\<lambda>k. cmp k t < 0) ks))) =
      dropWhile (\<lambda>k. cmp k t < 0) ks"
    using scan by (simp only: dropWhile_eq_drop)
  ultimately show ?thesis using l(1,3) order(5,6) [OF l(2) assms(4)] by blast
qed

theorem skiplist_refines_sorted_list_witness:
  "\<exists>l ks. Insert_all (\<lambda>a b. a - b) [3, 1, 2 :: int] (new_SkipList 0) = Some l \<and> mset ks = {#1, 2, 3#} \<and>
    skip_scan l (Suc (length ks)) (SkipIter_SeekToFirst l) = ks \<and> Contains (\<lambda>a b. a - b) l 2 = Some (\<exists>k \<in> set ks. 2 - k = 0)"
proof -
  have order: "key_order (\<lambda>a b. a - b) (\<lambda>_ :: int. True)" by unfold_locales auto
  have "mset [3, 1, 2 :: int] = {#1, 2, 3#}" by (simp add: ac_simps)
  moreover have "\<forall>k \<in> set [3, 1, 2 :: int]. True" "sorted_wrt (\<lambda>a b. a - b \<noteq> 0) [3, 1, 2 :: int]" by simp_all
  note skiplist_refines_sorted_list [where t = 2 and any_key = 0, OF order this TrueI]
  ultimately show ?thesis by (simp only:) blast
qed

end
