(* ===== verification/LdbMemTable.thy ===== *)
theory LdbMemTable
  imports LdbSkipList LdbFormat LdbStatus
begin

text \<open>
  LevelDB, \<^verbatim>\<open>db/memtable.cc\<close>: the memtable, a skip list of encoded entries in the order of their
  internal keys. An entry is the byte string that a \<open>const char*\<close> of the code points to. What a
  lookup finds is stated over the list of the additions: the newest one that the snapshot sees.
\<close>

section \<open>Entries\<close>

text \<open>
  \<open>GetLengthPrefixedSlice(const char*)\<close>: the slice and what lies behind it. The pointers of the
  memtable point to entries or to lookup keys, so the length can be read.
\<close>

definition entry_slice :: "bytes \<Rightarrow> bytes \<times> bytes" where
  "entry_slice data =
     (let (len, r) = the (GetVarint32Ptr (take 5 data));
          p = drop (length (take 5 data) - length r) data
      in (take (unat len) p, drop (unat len) p))"

definition KeyComparator :: "Comparator \<Rightarrow> bytes \<Rightarrow> bytes \<Rightarrow> int" where
  "KeyComparator u aptr bptr =
     Compare (InternalKeyComparator u) (fst (entry_slice aptr)) (fst (entry_slice bptr))"

definition EncodeKey :: "bytes \<Rightarrow> bytes" where
  "EncodeKey target = PutVarint32 [] (of_nat (length target)) @ target"

definition memtable_entry :: "SequenceNumber \<Rightarrow> ValueType \<Rightarrow> bytes \<Rightarrow> bytes \<Rightarrow> bytes" where
  "memtable_entry s t key value =
     EncodeVarint32 (of_nat (length key + 8)) @ key @ EncodeFixed64 (push_bit 8 s OR ucast t) @
     EncodeVarint32 (of_nat (length value)) @ value"

section \<open>The memtable\<close>

record MemTable =
  mem_refs :: int
  table :: "bytes skiplist"

definition new_MemTable :: MemTable where
  "new_MemTable = \<lparr>mem_refs = 0, table = new_SkipList []\<rparr>"

definition MemTable_Ref :: "MemTable \<Rightarrow> MemTable" where
  "MemTable_Ref m = m\<lparr>mem_refs := mem_refs m + 1\<rparr>"

text \<open>\<open>None\<close> when the memtable is deleted.\<close>

definition MemTable_Unref :: "MemTable \<Rightarrow> MemTable option" where
  "MemTable_Unref m = (if mem_refs m - 1 \<le> 0 then None else Some (m\<lparr>mem_refs := mem_refs m - 1\<rparr>))"

definition MemTable_Add ::
  "Comparator \<Rightarrow> SequenceNumber \<Rightarrow> ValueType \<Rightarrow> bytes \<Rightarrow> bytes \<Rightarrow> MemTable \<Rightarrow> MemTable option" where
  "MemTable_Add u s t key value m =
     map_option (\<lambda>l. m\<lparr>table := l\<rparr>) (Insert (KeyComparator u) (memtable_entry s t key value) (table m))"

text \<open>The result, and \<open>*value\<close> and \<open>*s\<close>, which are changed when something is found.\<close>

definition MemTable_Get ::
  "Comparator \<Rightarrow> MemTable \<Rightarrow> LookupKey \<Rightarrow> bytes \<Rightarrow> Status \<Rightarrow> (bool \<times> bytes \<times> Status) option" where
  "MemTable_Get u m key value s =
     (case SkipIter_Seek (KeyComparator u) (table m) (memtable_key key) of
        None \<Rightarrow> None
      | Some it \<Rightarrow>
          Some
           (if SkipIter_Valid it then
              let (ikey, behind) = entry_slice (SkipIter_key (table m) it);
                  key_length = length ikey in
              if Compare u (take (key_length - 8) ikey) (lookup_user_key key) = 0 then
                let tag = DecodeFixed64 (drop (key_length - 8) ikey);
                    t = ucast (tag AND 0xFF) :: ValueType in
                if t = kTypeValue then (True, fst (entry_slice behind), s)
                else if t = kTypeDeletion then (True, value, NotFound [] [])
                else (False, value, s)
              else (False, value, s)
            else (False, value, s)))"

primrec MemTable_Add_all :: "Comparator \<Rightarrow> (ParsedInternalKey \<times> bytes) list \<Rightarrow> MemTable \<Rightarrow> MemTable option" where
  "MemTable_Add_all u [] m = Some m"
| "MemTable_Add_all u (a # as) m =
     (case MemTable_Add u (sequence (fst a)) (type (fst a)) (user_key (fst a)) (snd a) m of
        None \<Rightarrow> None | Some m \<Rightarrow> MemTable_Add_all u as m)"

section \<open>The iterator\<close>

definition MemIter_Seek :: "Comparator \<Rightarrow> MemTable \<Rightarrow> bytes \<Rightarrow> skip_iter option" where
  "MemIter_Seek u m k = SkipIter_Seek (KeyComparator u) (table m) (EncodeKey k)"

definition MemIter_SeekToFirst :: "MemTable \<Rightarrow> skip_iter" where
  "MemIter_SeekToFirst m = SkipIter_SeekToFirst (table m)"

definition MemIter_SeekToLast :: "MemTable \<Rightarrow> skip_iter option" where
  "MemIter_SeekToLast m = SkipIter_SeekToLast (table m)"

definition MemIter_Next :: "MemTable \<Rightarrow> skip_iter \<Rightarrow> skip_iter" where
  "MemIter_Next m it = SkipIter_Next (table m) it"

definition MemIter_Prev :: "Comparator \<Rightarrow> MemTable \<Rightarrow> skip_iter \<Rightarrow> skip_iter option" where
  "MemIter_Prev u m it = SkipIter_Prev (KeyComparator u) (table m) it"

definition MemIter_key :: "MemTable \<Rightarrow> skip_iter \<Rightarrow> bytes" where
  "MemIter_key m it = fst (entry_slice (SkipIter_key (table m) it))"

definition MemIter_value :: "MemTable \<Rightarrow> skip_iter \<Rightarrow> bytes" where
  "MemIter_value m it = fst (entry_slice (snd (entry_slice (SkipIter_key (table m) it))))"

section \<open>The order of entries\<close>

lemma entry_slice_prefixed [simp]:
  assumes "length s < 2 ^ 32"
  shows "entry_slice (EncodeVarint32 (of_nat (length s)) @ s @ rest) = (s, rest)"
proof -
  let ?v = "EncodeVarint32 (of_nat (length s))"
  have "length ?v \<le> 5"
    using length_varint_bytes [of "unat (of_nat (length s) :: 32 word)" 5] unat_word32_varint
    by (simp only: EncodeVarint32_bytes)
  then have take: "take 5 (?v @ s @ rest) = ?v @ take (5 - length ?v) (s @ rest)" by simp
  have "GetVarint32 (?v @ take (5 - length ?v) (s @ rest)) =
      Some (of_nat (length s), take (5 - length ?v) (s @ rest))"
    by (rule ldb_varint32.dec_enc) simp
  then have "GetVarint32Ptr (take 5 (?v @ s @ rest)) = Some (of_nat (length s), take (5 - length ?v) (s @ rest))"
    unfolding take GetVarint32_def .
  then show ?thesis
    using unat_of_nat_32 [OF assms] unfolding entry_slice_def take by simp
qed

definition entry_ok :: "(bytes \<Rightarrow> bool) \<Rightarrow> bytes \<Rightarrow> bool" where
  "entry_ok key_ok e \<longleftrightarrow> internal_ok key_ok (fst (entry_slice e))"

sublocale user_comparator \<subseteq> entries: key_order "KeyComparator u" "entry_ok ok"
proof
  show "KeyComparator u b a \<le> 0 \<longleftrightarrow> 0 \<le> KeyComparator u a b" if "entry_ok ok a" "entry_ok ok b" for a b
    using that internal.compare_swap by (simp add: KeyComparator_def entry_ok_def)
  show "KeyComparator u a d \<le> 0"
    if "entry_ok ok a" "entry_ok ok b" "entry_ok ok d" "KeyComparator u a b \<le> 0" "KeyComparator u b d \<le> 0" for a b d
    using that internal.compare_trans unfolding KeyComparator_def entry_ok_def by blast
qed

section \<open>The memtable as a list of additions\<close>

type_synonym mem_add = "ParsedInternalKey \<times> bytes"

definition entry_of :: "mem_add \<Rightarrow> bytes" where
  "entry_of a = (case a of (k, v) \<Rightarrow> memtable_entry (sequence k) (type k) (user_key k) v)"

definition good_add :: "(bytes \<Rightarrow> bool) \<Rightarrow> mem_add \<Rightarrow> bool" where
  "good_add key_ok a \<longleftrightarrow> (case a of (k, v) \<Rightarrow>
     key_ok (user_key k) \<and> valid_seq (sequence k) \<and> type k \<le> kTypeValue \<and>
     length (user_key k) + 8 < 2 ^ 32 \<and> length v < 2 ^ 32)"

text \<open>The additions that a snapshot sees for a user key, oldest first.\<close>

definition visible :: "Comparator \<Rightarrow> bytes \<Rightarrow> SequenceNumber \<Rightarrow> mem_add list \<Rightarrow> mem_add list" where
  "visible u k s = filter (\<lambda>(e, _). Compare u (user_key e) k = 0 \<and> sequence e \<le> s)"

definition mem_rep :: "Comparator \<Rightarrow> (bytes \<Rightarrow> bool) \<Rightarrow> MemTable \<Rightarrow> mem_add list \<Rightarrow> bool" where
  "mem_rep u key_ok m adds \<longleftrightarrow>
     list_all (good_add key_ok) adds \<and>
     (\<exists>ns ks. represents (KeyComparator u) (entry_ok key_ok) (table m) ns ks \<and> mset ks = mset (map entry_of adds))"

abbreviation add_seq :: "mem_add \<Rightarrow> SequenceNumber" where "add_seq a \<equiv> sequence (fst a)"

abbreviation add_pack :: "mem_add \<Rightarrow> 64 word" where
  "add_pack a \<equiv> PackSequenceAndType (sequence (fst a)) (type (fst a))"

lemma entry_slices:
  assumes "good_add key_ok a"
  shows "entry_slice (entry_of a) =
      (user_key (fst a) @ EncodeFixed64 (add_pack a), EncodeVarint32 (of_nat (length (snd a))) @ snd a)"
    and "entry_slice (EncodeVarint32 (of_nat (length (snd a))) @ snd a) = (snd a, [])"
proof -
  let ?k = "user_key (fst a) @ EncodeFixed64 (add_pack a)"
  have "length ?k < 2 ^ 32" using assms by (auto simp: good_add_def)
  moreover have "entry_of a = EncodeVarint32 (of_nat (length ?k)) @ ?k @ EncodeVarint32 (of_nat (length (snd a))) @ snd a"
    by (simp add: entry_of_def memtable_entry_def PackSequenceAndType_def case_prod_unfold)
  ultimately show "entry_slice (entry_of a) = (?k, EncodeVarint32 (of_nat (length (snd a))) @ snd a)"
    by (simp only: entry_slice_prefixed)
  have "length (snd a) < 2 ^ 32" using assms by (auto simp: good_add_def)
  then show "entry_slice (EncodeVarint32 (of_nat (length (snd a))) @ snd a) = (snd a, [])"
    using entry_slice_prefixed [of "snd a" "[]"] by simp
qed

lemma lookup_slice:
  assumes "length k + 8 < 2 ^ 32"
  shows "entry_slice (memtable_key (new_LookupKey k s)) = (k @ EncodeFixed64 (PackSequenceAndType s kValueTypeForSeek), [])"
proof -
  let ?k = "k @ EncodeFixed64 (PackSequenceAndType s kValueTypeForSeek)"
  have "memtable_key (new_LookupKey k s) = EncodeVarint32 (of_nat (length ?k)) @ ?k @ []"
    by (simp add: memtable_key_def new_LookupKey_def Let_def)
  moreover have "length ?k < 2 ^ 32" using assms by simp
  ultimately show ?thesis by (simp only: entry_slice_prefixed)
qed

lemma entry_less:
  assumes "good_add key_ok a" and "good_add key_ok b"
  shows "KeyComparator u (entry_of a) (entry_of b) < 0 \<longleftrightarrow>
      Compare u (user_key (fst a)) (user_key (fst b)) < 0 \<or>
      Compare u (user_key (fst a)) (user_key (fst b)) = 0 \<and> add_pack b < add_pack a"
    and "KeyComparator u (entry_of a) (entry_of b) = 0 \<longleftrightarrow>
      Compare u (user_key (fst a)) (user_key (fst b)) = 0 \<and> add_pack b = add_pack a"
  by (auto simp: KeyComparator_def entry_slices [OF assms(1)] entry_slices [OF assms(2)] internal_compare_suffixed)

lemma entry_before_lookup:
  assumes "good_add key_ok a" and "length k + 8 < 2 ^ 32" and "valid_seq s"
  shows "KeyComparator u (entry_of a) (memtable_key (new_LookupKey k s)) < 0 \<longleftrightarrow>
    Compare u (user_key (fst a)) k < 0 \<or> Compare u (user_key (fst a)) k = 0 \<and> s < add_seq a"
proof -
  have a: "valid_seq (add_seq a)" "type (fst a) \<le> kTypeValue" using assms(1) by (auto simp: good_add_def)
  then have "PackSequenceAndType s kValueTypeForSeek < add_pack a \<longleftrightarrow> s < add_seq a"
    using pack_less [OF assms(3) a(1), of kValueTypeForSeek "type (fst a)"] by (auto simp: kValueTypeForSeek_def)
  then show ?thesis
    by (auto simp: KeyComparator_def entry_slices [OF assms(1)] lookup_slice [OF assms(2)] internal_compare_suffixed)
qed

lemma entry_ok_entry: "good_add key_ok a \<Longrightarrow> entry_ok key_ok (entry_of a)"
  by (simp add: entry_ok_def entry_slices good_add_def case_prod_unfold)

context user_comparator
begin

lemma new_MemTable_rep: "mem_rep u ok new_MemTable []"
  using entries.represents_new by (auto simp: mem_rep_def new_MemTable_def)

lemma MemTable_Add_rep:
  assumes rep: "mem_rep u ok m adds" and a: "good_add ok (k, v)" and new: "\<forall>a \<in> set adds. add_seq a \<noteq> sequence k"
  shows "\<exists>m'. MemTable_Add u (sequence k) (type k) (user_key k) v m = Some m' \<and> mem_rep u ok m' (adds @ [(k, v)])"
proof -
  let ?e = "entry_of (k, v)"
  obtain ns ks where ks: "represents (KeyComparator u) (entry_ok ok) (table m) ns ks" "mset ks = mset (map entry_of adds)"
      and good: "list_all (good_add ok) adds"
    using rep by (auto simp: mem_rep_def)
  have "KeyComparator u e ?e \<noteq> 0" if "e \<in> set ks" for e
  proof -
    have "e \<in> set (map entry_of adds)" using that ks(2) by (metis set_mset_mset)
    then obtain b where b: "b \<in> set adds" "e = entry_of b" by auto
    then have "good_add ok b" using good by (simp add: list_all_iff)
    moreover have "add_pack b \<noteq> add_pack (k, v)"
      using pack_seq [of "add_seq b" "type (fst b)"] pack_seq [of "sequence k" "type k"] new b(1) a \<open>good_add ok b\<close>
      by (auto simp: good_add_def)
    ultimately show ?thesis using entry_less(2) [of ok b "(k, v)" u] a b(2) by auto
  qed
  then obtain l' ns' where l': "Insert (KeyComparator u) ?e (table m) = Some l'"
      "represents (KeyComparator u) (entry_ok ok) l' ns'
        (takeWhile (\<lambda>x. KeyComparator u x ?e < 0) ks @ ?e # dropWhile (\<lambda>x. KeyComparator u x ?e < 0) ks)"
    using entries.Insert_represents [OF ks(1) entry_ok_entry [OF a]] by blast
  have "mset ks = mset (takeWhile (\<lambda>x. KeyComparator u x ?e < 0) ks) + mset (dropWhile (\<lambda>x. KeyComparator u x ?e < 0) ks)"
    by (simp only: takeWhile_dropWhile_id flip: mset_append)
  then have keys: "mset (takeWhile (\<lambda>x. KeyComparator u x ?e < 0) ks @ ?e # dropWhile (\<lambda>x. KeyComparator u x ?e < 0) ks) =
      mset (map entry_of (adds @ [(k, v)]))"
    using ks(2) by (simp only: mset_append mset.simps map_append list.map) simp
  have "mem_rep u ok (m\<lparr>table := l'\<rparr>) (adds @ [(k, v)])"
    unfolding mem_rep_def
  proof (intro conjI exI)
    show "list_all (good_add ok) (adds @ [(k, v)])" using good a by simp
    show "represents (KeyComparator u) (entry_ok ok) (table (m\<lparr>table := l'\<rparr>)) ns'
        (takeWhile (\<lambda>x. KeyComparator u x ?e < 0) ks @ ?e # dropWhile (\<lambda>x. KeyComparator u x ?e < 0) ks)"
      using l'(2) by simp
  qed (rule keys)
  moreover have "MemTable_Add u (sequence k) (type k) (user_key k) v m = Some (m\<lparr>table := l'\<rparr>)"
    using l'(1) by (simp add: MemTable_Add_def entry_of_def)
  ultimately show ?thesis by blast
qed

lemma seek_first:
  assumes "represents (KeyComparator u) (entry_ok ok) l ns ks" and "e \<in> set ks" and "\<not> KeyComparator u e t < 0"
  defines "p \<equiv> length (takeWhile (\<lambda>x. KeyComparator u x t < 0) ks)"
  shows "p < length ks \<and> (ks ! p = e \<or> KeyComparator u (ks ! p) e < 0)"
proof -
  have sorted: "sorted_wrt (\<lambda>a b. KeyComparator u a b < 0) ks" using assms(1) unfolding represents_def by blast
  obtain j where j: "j < length ks" "ks ! j = e" using assms(2) by (meson in_set_conv_nth)
  have "\<not> j < p"
  proof
    assume "j < p"
    then have "takeWhile (\<lambda>x. KeyComparator u x t < 0) ks ! j = e" using j by (simp add: p_def takeWhile_nth)
    then have "e \<in> set (takeWhile (\<lambda>x. KeyComparator u x t < 0) ks)" using \<open>j < p\<close> unfolding p_def by (metis nth_mem)
    then show False using assms(3) by (blast dest: set_takeWhileD)
  qed
  then show ?thesis using j sorted by (cases "p = j") (auto simp: sorted_wrt_iff_nth_less)
qed

text \<open>The newest visible addition is the last one, when the sequence numbers increase.\<close>

lemma newest_last:
  assumes "sorted_wrt (\<lambda>a b. add_seq a < add_seq b) xs" and "x \<in> set xs" and "\<forall>y \<in> set xs. add_seq y \<le> add_seq x"
  shows "xs \<noteq> [] \<and> last xs = x"
proof -
  have "last xs = x"
  proof (rule ccontr)
    assume "last xs \<noteq> x"
    moreover have "xs \<noteq> []" using assms(2) by auto
    then have "xs = butlast xs @ [last xs]" by simp
    ultimately have "x \<in> set (butlast xs)" "sorted_wrt (\<lambda>a b. add_seq a < add_seq b) (butlast xs @ [last xs])"
      using assms(1,2) by (auto simp: in_set_butlast_appendI) (metis Un_iff empty_iff insert_iff list.set set_append)
    then have "add_seq x < add_seq (last xs)" by (simp add: sorted_wrt_append)
    then show False using assms(3) \<open>xs \<noteq> []\<close> by (meson last_in_set not_less)
  qed
  then show ?thesis using assms(2) by auto
qed

lemma MemTable_Get_rep:
  assumes rep: "mem_rep u ok m adds" and inc: "sorted_wrt (\<lambda>a b. add_seq a < add_seq b) adds"
    and k: "ok k" "length k + 8 < 2 ^ 32" and s: "valid_seq s"
  shows "MemTable_Get u m (new_LookupKey k s) value st = Some
    (case visible u k s adds of
       [] \<Rightarrow> (False, value, st)
     | a # as \<Rightarrow>
         if type (fst (last (a # as))) = kTypeValue then (True, snd (last (a # as)), st)
         else (True, value, NotFound [] []))"
proof -
  let ?t = "memtable_key (new_LookupKey k s)"
  obtain ns ks where ks: "represents (KeyComparator u) (entry_ok ok) (table m) ns ks" "mset ks = mset (map entry_of adds)"
      and good: "list_all (good_add ok) adds"
    using rep by (auto simp: mem_rep_def)
  have set_ks: "set ks = entry_of ` set adds" using ks(2) by (metis set_map set_mset_mset)
  define p where "p = length (takeWhile (\<lambda>x. KeyComparator u x ?t < 0) ks)"
  have t: "entry_ok ok ?t" using k by (simp add: entry_ok_def lookup_slice)
  have seek: "SkipIter_Seek (KeyComparator u) (table m) ?t = Some (iter_at ns p)"
    unfolding p_def by (rule entries.Seek_represents [OF ks(1) t])
  have len: "length ns = length ks" using ks(1) by (simp add: represents_def)
  have before: "KeyComparator u (entry_of a) ?t < 0 \<longleftrightarrow>
      Compare u (user_key (fst a)) k < 0 \<or> Compare u (user_key (fst a)) k = 0 \<and> s < add_seq a" if "a \<in> set adds" for a
    using that good by (intro entry_before_lookup [OF _ k(2) s, of ok]) (simp add: list_all_iff)
  have vis: "y \<in> set adds \<and> Compare u (user_key (fst y)) k = 0 \<and> add_seq y \<le> s" if "y \<in> set (visible u k s adds)" for y
    using that by (auto simp: visible_def)
  have first: "p < length ks \<and> (ks ! p = entry_of y \<or> KeyComparator u (ks ! p) (entry_of y) < 0)"
    if "y \<in> set (visible u k s adds)" for y
    unfolding p_def
    using vis [OF that] before [of y] set_ks by (intro seek_first [OF ks(1)]) auto
  show ?thesis
  proof (cases "p < length ks")
    case False
    then have "visible u k s adds = []" using first by (meson last_in_set)
    then show ?thesis using False len seek by (simp add: MemTable_Get_def iter_at_def SkipIter_Valid_def)
  next
    case True
    then obtain a where a: "a \<in> set adds" "ks ! p = entry_of a" using set_ks by (metis imageE nth_mem)
    have gy: "good_add ok y" if "y \<in> set (visible u k s adds)" for y
      using good vis [OF that] by (simp add: list_all_iff)
    have good_a: "good_add ok a" using good a(1) by (simp add: list_all_iff)
    have "\<not> KeyComparator u (ks ! p) ?t < 0" using True unfolding p_def by (rule nth_length_takeWhile)
    then have not_before: "\<not> Compare u (user_key (fst a)) k < 0" "Compare u (user_key (fst a)) k = 0 \<Longrightarrow> add_seq a \<le> s"
      using before [OF a(1)] a(2) by auto
    have le: "Compare u (user_key (fst a)) (user_key (fst y)) < 0 \<or>
        Compare u (user_key (fst a)) (user_key (fst y)) = 0 \<and> add_seq y \<le> add_seq a"
      if y: "y \<in> set (visible u k s adds)" for y
    proof (cases "ks ! p = entry_of y")
      case True
      then have "user_key (fst a) @ EncodeFixed64 (add_pack a) = user_key (fst y) @ EncodeFixed64 (add_pack y)"
        using entry_slices(1) [OF good_a] entry_slices(1) [OF gy [OF y]] a(2) by simp
      then have "user_key (fst a) = user_key (fst y)" "add_pack a = add_pack y" by (metis suffixed_key)+
      then have "user_key (fst a) = user_key (fst y)" "add_seq a = add_seq y"
        using pack_seq [of "add_seq a" "type (fst a)"] pack_seq [of "add_seq y" "type (fst y)"] good_a gy [OF y]
        by (auto simp: good_add_def)
      then show ?thesis using user.compare_refl good_a by (auto simp: good_add_def)
    next
      case False
      then have "KeyComparator u (entry_of a) (entry_of y) < 0" using first [OF y] a(2) by simp
      moreover have "add_pack y < add_pack a \<Longrightarrow> add_seq y \<le> add_seq a"
        using pack_less [of "add_seq y" "add_seq a"] good_a gy [OF y] by (auto simp: good_add_def)
      ultimately show ?thesis using entry_less(1) [OF good_a gy [OF y]] by blast
    qed
    have get: "MemTable_Get u m (new_LookupKey k s) value st = Some
        (if Compare u (user_key (fst a)) k = 0 then
           if type (fst a) = kTypeValue then (True, snd a, st) else (True, value, NotFound [] [])
         else (False, value, st))"
    proof -
      have "SkipIter_Valid (iter_at ns p)" "SkipIter_key (table m) (iter_at ns p) = entry_of a"
        using entries.SkipIter_key_represents [OF ks(1) True] a(2) by simp_all
      moreover have "lookup_user_key (new_LookupKey k s) = k"
        by (simp add: lookup_user_key_def new_LookupKey_def Let_def)
      moreover have "DecodeFixed64 (EncodeFixed64 (add_pack a)) = add_pack a"
        using DecodeFixed64_Encode [of "add_pack a" "[]"] by simp
      moreover have "(ucast (add_pack a AND 0xFF) :: ValueType) = type (fst a)"
        using good_a by (intro pack_type) (auto simp: good_add_def)
      moreover have "type (fst a) = kTypeValue \<or> type (fst a) = kTypeDeletion"
        using good_a by (auto simp: good_add_def kTypeValue_def kTypeDeletion_def word_le_nat_alt word_unat_eq_iff)
      ultimately show ?thesis
        using seek entry_slices [OF good_a] by (auto simp: MemTable_Get_def Let_def)
    qed
    show ?thesis
    proof (cases "Compare u (user_key (fst a)) k = 0")
      case True
      have "a \<in> set (visible u k s adds)" using a(1) True not_before(2) by (auto simp: visible_def)
      moreover have "add_seq y \<le> add_seq a" if y: "y \<in> set (visible u k s adds)" for y
      proof -
        have "ok (user_key (fst a))" "ok (user_key (fst y))" using good_a gy [OF y] by (auto simp: good_add_def)
        then have "\<not> Compare u (user_key (fst a)) (user_key (fst y)) < 0"
          using user.lt_trans_le [of "user_key (fst a)" "user_key (fst y)" k] vis [OF y] True k(1) by auto
        then show ?thesis using le [OF y] by blast
      qed
      moreover have "sorted_wrt (\<lambda>a b. add_seq a < add_seq b) (visible u k s adds)"
        using inc by (simp add: visible_def sorted_wrt_filter)
      ultimately have "visible u k s adds \<noteq> []" "last (visible u k s adds) = a"
        using newest_last [of "visible u k s adds" a] by auto
      then show ?thesis using get True by (cases "visible u k s adds") auto
    next
      case False
      have "visible u k s adds = []"
      proof (rule ccontr)
        assume "visible u k s adds \<noteq> []"
        then obtain y where y: "y \<in> set (visible u k s adds)" by (meson last_in_set)
        have "ok (user_key (fst a))" "ok (user_key (fst y))" using good_a gy [OF y] by (auto simp: good_add_def)
        then have "Compare u (user_key (fst a)) k \<le> 0"
          using user.compare_trans [of "user_key (fst a)" "user_key (fst y)" k] vis [OF y] le [OF y] k(1) by auto
        then show False using not_before(1) False by simp
      qed
      then show ?thesis using get False by simp
    qed
  qed
qed

text \<open>The additions of a list, one after another.\<close>

lemma MemTable_Add_all_rep:
  assumes "mem_rep u ok m adds" and "list_all (good_add ok) new"
    and "sorted_wrt (\<lambda>a b. add_seq a < add_seq b) (adds @ new)"
  shows "\<exists>m'. MemTable_Add_all u new m = Some m' \<and> mem_rep u ok m' (adds @ new)"
  using assms
proof (induction new arbitrary: m adds)
  case (Cons a new)
  obtain k v where a: "a = (k, v)" by fastforce
  have "good_add ok (k, v)" "\<forall>b \<in> set adds. add_seq b \<noteq> sequence k"
    using Cons.prems a by (auto simp: sorted_wrt_append)
  from MemTable_Add_rep [OF Cons.prems(1) this] obtain m1 where
    m1: "MemTable_Add u (sequence k) (type k) (user_key k) v m = Some m1" "mem_rep u ok m1 (adds @ [a])"
    by (auto simp: a)
  have "\<exists>m'. MemTable_Add_all u new m1 = Some m' \<and> mem_rep u ok m' ((adds @ [a]) @ new)"
    using Cons.prems(2,3) by (intro Cons.IH [OF m1(2)]) simp_all
  with m1(1) show ?case by (simp add: a)
qed simp

text \<open>The iterator yields the additions in the order of their internal keys.\<close>

lemma MemIter_entry:
  assumes "good_add ok a" and "SkipIter_key (table m) it = entry_of a"
  shows "MemIter_key m it = encode_key (fst a) \<and> MemIter_value m it = snd a"
  using assms by (simp add: MemIter_key_def MemIter_value_def entry_slices encode_key_append)

lemma EncodeKey_slice: "length k < 2 ^ 32 \<Longrightarrow> entry_slice (EncodeKey k) = (k, [])"
  using entry_slice_prefixed [of k "[]"] by (simp add: EncodeKey_def PutVarint32_def)

end

text \<open>
  C16. What a memtable returns. After any additions with increasing sequence numbers, \<open>Get\<close> with the
  lookup key of a user key and a snapshot finds the newest addition for this key, up to the user
  comparator, that is not newer than the snapshot: its value, \<open>NotFound\<close> when it is a deletion, and
  nothing when there is none.
\<close>
theorem memtable_get_newest:
  assumes "comparator u key_ok" and "list_all (good_add key_ok) adds"
    and "sorted_wrt (\<lambda>a b. add_seq a < add_seq b) adds"
    and "key_ok k" and "length k + 8 < 2 ^ 32" and "valid_seq s"
  shows "\<exists>m. MemTable_Add_all u adds new_MemTable = Some m \<and>
    MemTable_Get u m (new_LookupKey k s) value st = Some
      (case visible u k s adds of
         [] \<Rightarrow> (False, value, st)
       | a # as \<Rightarrow>
           if type (fst (last (a # as))) = kTypeValue then (True, snd (last (a # as)), st)
           else (True, value, NotFound [] []))"
proof -
  have uc: "user_comparator u key_ok" using assms(1) by (simp add: user_comparator_def)
  note add = user_comparator.MemTable_Add_all_rep [OF uc user_comparator.new_MemTable_rep [OF uc], of adds, simplified]
  from add [OF assms(2,3)] obtain m where m: "MemTable_Add_all u adds new_MemTable = Some m" "mem_rep u key_ok m adds"
    by blast
  from user_comparator.MemTable_Get_rep [OF uc m(2) assms(3-6)] m(1) show ?thesis by blast
qed

theorem memtable_get_newest_witness:
  "\<exists>m. MemTable_Add_all BytewiseComparator
      [(\<lparr>user_key = [107], sequence = 1, type = kTypeValue\<rparr>, [10]), (\<lparr>user_key = [107], sequence = 2, type = kTypeDeletion\<rparr>, []),
       (\<lparr>user_key = [107], sequence = 3, type = kTypeValue\<rparr>, [30])] new_MemTable = Some m \<and>
    MemTable_Get BytewiseComparator m (new_LookupKey [107] 2) [] OK = Some (True, [], NotFound [] [])"
proof -
  let ?adds = "[(\<lparr>user_key = [107], sequence = 1, type = kTypeValue\<rparr>, [10]), (\<lparr>user_key = [107], sequence = 2, type = kTypeDeletion\<rparr>, []),
       (\<lparr>user_key = [107], sequence = 3, type = kTypeValue\<rparr>, [30])]"
  have good: "list_all (good_add (\<lambda>_. True)) ?adds"
    by (simp add: good_add_def valid_seq_unat kTypeValue_def kTypeDeletion_def)
  have sorted: "sorted_wrt (\<lambda>a b. add_seq a < add_seq b) ?adds" by simp
  have vis: "visible BytewiseComparator [107] 2 ?adds = take 2 ?adds"
    by (simp add: visible_def slice_compare_zero)
  have "valid_seq 2" by (simp add: valid_seq_unat)
  note memtable_get_newest [OF bytewise.comparator_axioms good sorted TrueI _ this, of "[107]" "[]" OK, unfolded vis]
  then show ?thesis by (simp add: kTypeValue_def kTypeDeletion_def)
qed

end
