(* ===== verification/LdbWriteBatch.thy ===== *)
theory LdbWriteBatch
  imports LdbMemTable
begin

text \<open>
  LevelDB, \<^verbatim>\<open>db/write_batch.cc\<close> and \<^verbatim>\<open>db/write_batch_internal.h\<close>: a batch is its
  representation, a header of sequence number and count followed by the operations. Iterating calls
  a handler; the handler that inserts into a memtable gives the n-th operation the n-th sequence
  number. The main results: a batch is replayed exactly, and after its insertion the memtable
  answers as the last operation on each key says.
\<close>

section \<open>The representation\<close>

definition kHeader :: nat where "kHeader = 12"

definition Batch_Clear :: bytes where
  "Batch_Clear = replicate kHeader 0"

text \<open>The header is behind all of these, so the batch has at least twelve bytes.\<close>

definition Batch_Count :: "bytes \<Rightarrow> 32 word" where
  "Batch_Count b = DecodeFixed32 (drop 8 b)"

definition Batch_SetCount :: "32 word \<Rightarrow> bytes \<Rightarrow> bytes" where
  "Batch_SetCount n b = take 8 b @ EncodeFixed32 n @ drop 12 b"

definition Batch_Sequence :: "bytes \<Rightarrow> SequenceNumber" where
  "Batch_Sequence b = DecodeFixed64 b"

definition Batch_SetSequence :: "SequenceNumber \<Rightarrow> bytes \<Rightarrow> bytes" where
  "Batch_SetSequence s b = EncodeFixed64 s @ drop 8 b"

definition Batch_ByteSize :: "bytes \<Rightarrow> nat" where
  "Batch_ByteSize b = length b"

definition Batch_SetContents :: "bytes \<Rightarrow> bytes \<Rightarrow> bytes" where
  "Batch_SetContents contents b = contents"

definition Batch_Put :: "bytes \<Rightarrow> bytes \<Rightarrow> bytes \<Rightarrow> bytes" where
  "Batch_Put key value b =
     PutLengthPrefixedSlice (PutLengthPrefixedSlice
       (Batch_SetCount (Batch_Count b + 1) b @ [kTypeValue]) key) value"

definition Batch_Delete :: "bytes \<Rightarrow> bytes \<Rightarrow> bytes" where
  "Batch_Delete key b =
     PutLengthPrefixedSlice (Batch_SetCount (Batch_Count b + 1) b @ [kTypeDeletion]) key"

definition Batch_Append :: "bytes \<Rightarrow> bytes \<Rightarrow> bytes" where
  "Batch_Append src dst = Batch_SetCount (Batch_Count dst + Batch_Count src) dst @ drop kHeader src"

section \<open>Iterating\<close>

record 'h Handler =
  handle_Put :: "bytes \<Rightarrow> bytes \<Rightarrow> 'h \<Rightarrow> 'h"
  handle_Delete :: "bytes \<Rightarrow> 'h \<Rightarrow> 'h"

text \<open>The status of a return from within the loop, or \<open>None\<close>, the count and the handler.\<close>

function Iterate_loop :: "'h Handler \<Rightarrow> bytes \<Rightarrow> 32 word \<Rightarrow> 'h \<Rightarrow> Status option \<times> 32 word \<times> 'h" where
  "Iterate_loop hdl input found h =
     (case input of
        [] \<Rightarrow> (None, found, h)
      | tag # input \<Rightarrow>
          let found = found + 1 in
          if tag = kTypeValue then
            (case GetLengthPrefixedSlice input of
               None \<Rightarrow> (Some (Corruption (ascii ''bad WriteBatch Put'') []), found, h)
             | Some (key, input) \<Rightarrow>
                 (case GetLengthPrefixedSlice input of
                    None \<Rightarrow> (Some (Corruption (ascii ''bad WriteBatch Put'') []), found, h)
                  | Some (value, input) \<Rightarrow> Iterate_loop hdl input found (handle_Put hdl key value h)))
          else if tag = kTypeDeletion then
            (case GetLengthPrefixedSlice input of
               None \<Rightarrow> (Some (Corruption (ascii ''bad WriteBatch Delete'') []), found, h)
             | Some (key, input) \<Rightarrow> Iterate_loop hdl input found (handle_Delete hdl key h))
          else (Some (Corruption (ascii ''unknown WriteBatch tag'') []), found, h))"
  by pat_completeness auto
termination
  by (relation "measure (\<lambda>(_, input, _, _). length input)") (auto dest!: GetLengthPrefixedSlice_shorter)

declare Iterate_loop.simps [simp del]

definition Batch_Iterate :: "'h Handler \<Rightarrow> bytes \<Rightarrow> 'h \<Rightarrow> Status \<times> 'h" where
  "Batch_Iterate hdl b h =
     (if length b < kHeader then (Corruption (ascii ''malformed WriteBatch (too small)'') [], h)
      else
        case Iterate_loop hdl (drop kHeader b) 0 h of
          (Some s, found, h) \<Rightarrow> (s, h)
        | (None, found, h) \<Rightarrow>
            if found \<noteq> Batch_Count b then (Corruption (ascii ''WriteBatch has wrong count'') [], h)
            else (OK, h))"

section \<open>Inserting into a memtable\<close>

text \<open>The memtable is \<open>None\<close> if an insertion does not return.\<close>

definition inserter_add :: "Comparator \<Rightarrow> ValueType \<Rightarrow> bytes \<Rightarrow> bytes \<Rightarrow>
    SequenceNumber \<times> MemTable option \<Rightarrow> SequenceNumber \<times> MemTable option" where
  "inserter_add u t key value h =
     (case h of (s, m) \<Rightarrow> (s + 1, case m of None \<Rightarrow> None | Some m \<Rightarrow> MemTable_Add u s t key value m))"

definition MemTableInserter :: "Comparator \<Rightarrow> (SequenceNumber \<times> MemTable option) Handler" where
  "MemTableInserter u =
     \<lparr>handle_Put = inserter_add u kTypeValue, handle_Delete = (\<lambda>key. inserter_add u kTypeDeletion key [])\<rparr>"

definition Batch_InsertInto :: "Comparator \<Rightarrow> bytes \<Rightarrow> MemTable \<Rightarrow> Status \<times> MemTable option" where
  "Batch_InsertInto u b m =
     (case Batch_Iterate (MemTableInserter u) b (Batch_Sequence b, Some m) of (s, (_, m)) \<Rightarrow> (s, m))"

section \<open>A batch as a list of operations\<close>

datatype batch_op = PutOp bytes bytes | DeleteOp bytes

primrec batch_apply :: "batch_op \<Rightarrow> bytes \<Rightarrow> bytes" where
  "batch_apply (PutOp k v) b = Batch_Put k v b"
| "batch_apply (DeleteOp k) b = Batch_Delete k b"

definition batch_of :: "batch_op list \<Rightarrow> bytes" where
  "batch_of ops = fold batch_apply ops Batch_Clear"

primrec op_bytes :: "batch_op \<Rightarrow> bytes" where
  "op_bytes (PutOp k v) = kTypeValue # PutLengthPrefixedSlice [] k @ PutLengthPrefixedSlice [] v"
| "op_bytes (DeleteOp k) = kTypeDeletion # PutLengthPrefixedSlice [] k"

primrec op_handle :: "'h Handler \<Rightarrow> batch_op \<Rightarrow> 'h \<Rightarrow> 'h" where
  "op_handle hdl (PutOp k v) = handle_Put hdl k v"
| "op_handle hdl (DeleteOp k) = handle_Delete hdl k"

primrec op_key :: "batch_op \<Rightarrow> bytes" where
  "op_key (PutOp k v) = k"
| "op_key (DeleteOp k) = k"

primrec op_value :: "batch_op \<Rightarrow> bytes" where
  "op_value (PutOp k v) = v"
| "op_value (DeleteOp k) = []"

primrec op_type :: "batch_op \<Rightarrow> ValueType" where
  "op_type (PutOp k v) = kTypeValue"
| "op_type (DeleteOp k) = kTypeDeletion"

definition op_fits :: "batch_op \<Rightarrow> bool" where
  "op_fits p \<longleftrightarrow> length (op_key p) + 8 < 2 ^ 32 \<and> length (op_value p) < 2 ^ 32"

definition batch_bytes :: "SequenceNumber \<Rightarrow> batch_op list \<Rightarrow> bytes" where
  "batch_bytes s ops = EncodeFixed64 s @ EncodeFixed32 (of_nat (length ops)) @ concat (map op_bytes ops)"

lemma batch_apply_bytes: "batch_apply p (batch_bytes s ops) = batch_bytes s (ops @ [p])"
proof -
  have count: "Batch_Count (batch_bytes s ops) = of_nat (length ops)"
    by (simp add: Batch_Count_def batch_bytes_def)
  have set: "Batch_SetCount n (batch_bytes s ops) = EncodeFixed64 s @ EncodeFixed32 n @ concat (map op_bytes ops)" for n
    by (simp add: Batch_SetCount_def batch_bytes_def)
  note slices = PutLengthPrefixedSlice_append [of "_ @ _"] PutLengthPrefixedSlice_append [of "_ # _"]
  show ?thesis
    by (cases p) (simp_all add: Batch_Put_def Batch_Delete_def count set, simp_all add: batch_bytes_def slices add.commute)
qed

lemma batch_of_bytes: "batch_of ops = batch_bytes 0 ops"
proof -
  have "fold batch_apply ops (batch_bytes 0 acc) = batch_bytes 0 (acc @ ops)" for "acc"
    by (induction ops arbitrary: "acc") (simp_all add: batch_apply_bytes)
  from this [of "[]"] show ?thesis
    by (simp add: batch_of_def Batch_Clear_def kHeader_def batch_bytes_def EncodeFixed64_def EncodeFixed32_def numeral_eq_Suc)
qed

lemma SetSequence_bytes: "Batch_SetSequence s (batch_bytes s' ops) = batch_bytes s ops"
  by (simp add: Batch_SetSequence_def batch_bytes_def)

lemma Sequence_bytes: "Batch_Sequence (batch_bytes s ops) = s"
  by (simp add: Batch_Sequence_def batch_bytes_def)

lemma Append_bytes: "Batch_Append (batch_bytes s src) (batch_bytes s' dst) = batch_bytes s' (dst @ src)"
  by (simp add: Batch_Append_def Batch_Count_def Batch_SetCount_def batch_bytes_def kHeader_def)

lemma Iterate_loop_bytes:
  "list_all op_fits ops \<Longrightarrow>
   Iterate_loop hdl (concat (map op_bytes ops)) found h = (None, found + of_nat (length ops), fold (op_handle hdl) ops h)"
proof (induction ops arbitrary: found h)
  case (Cons p ops)
  show ?case
  proof (cases p)
    case (PutOp k v)
    then show ?thesis
      using Cons ldb_slice.dec_enc [of k "PutLengthPrefixedSlice [] v @ concat (map op_bytes ops)"]
        ldb_slice.dec_enc [of v "concat (map op_bytes ops)"]
      by (subst Iterate_loop.simps) (simp add: op_fits_def Let_def ac_simps)
  next
    case (DeleteOp k)
    then show ?thesis
      using Cons ldb_slice.dec_enc [of k "concat (map op_bytes ops)"]
      by (subst Iterate_loop.simps) (simp add: op_fits_def Let_def ac_simps kTypeValue_def kTypeDeletion_def)
  qed
qed (simp add: Iterate_loop.simps)

lemma Batch_Iterate_bytes:
  "list_all op_fits ops \<Longrightarrow> Batch_Iterate hdl (batch_bytes s ops) h = (OK, fold (op_handle hdl) ops h)"
  using Iterate_loop_bytes [of ops hdl 0 h]
  by (simp add: Batch_Iterate_def batch_bytes_def kHeader_def Batch_Count_def)

section \<open>What insertion means\<close>

text \<open>The additions of a batch: the n-th operation has the n-th sequence number.\<close>

primrec numbered :: "SequenceNumber \<Rightarrow> batch_op list \<Rightarrow> mem_add list" where
  "numbered s [] = []"
| "numbered s (p # ops) =
     (\<lparr>user_key = op_key p, sequence = s, type = op_type p\<rparr>, op_value p) # numbered (s + 1) ops"

lemma MemTableInserter_op:
  "op_handle (MemTableInserter u) p (s, Some m) =
     (s + 1, MemTable_Add u s (op_type p) (op_key p) (op_value p) m)"
  by (cases p) (simp_all add: MemTableInserter_def inserter_add_def)

lemma fold_inserter_None: "fold (op_handle (MemTableInserter u)) ops (s, None) = (s + of_nat (length ops), None)"
proof (induction ops arbitrary: s)
  case (Cons p ops)
  have "op_handle (MemTableInserter u) p (s, None) = (s + 1, None)"
    by (cases p) (simp_all add: MemTableInserter_def inserter_add_def)
  with Cons show ?case by (simp add: ac_simps)
qed simp

lemma fold_inserter:
  "fold (op_handle (MemTableInserter u)) ops (s, Some m) =
     (s + of_nat (length ops), MemTable_Add_all u (numbered s ops) m)"
proof (induction ops arbitrary: s m)
  case (Cons p ops)
  then show ?case
    by (cases "MemTable_Add u s (op_type p) (op_key p) (op_value p) m")
      (simp_all add: MemTableInserter_op fold_inserter_None ac_simps)
qed simp

lemma InsertInto_bytes:
  "list_all op_fits ops \<Longrightarrow>
   Batch_InsertInto u (batch_bytes s ops) m = (OK, MemTable_Add_all u (numbered s ops) m)"
  by (simp add: Batch_InsertInto_def Batch_Iterate_bytes Sequence_bytes fold_inserter)

lemma numbered_seqs:
  assumes "unat s + length ops \<le> 2 ^ 56"
  shows "list_all valid_seq (map add_seq (numbered s ops)) \<and>
    (\<forall>a \<in> set (numbered s ops). s \<le> add_seq a \<and> unat (add_seq a) < unat s + length ops) \<and>
    sorted_wrt (\<lambda>a b. add_seq a < add_seq b) (numbered s ops)"
  using assms
proof (induction ops arbitrary: s)
  case (Cons p ops)
  have step: "unat (s + 1) = unat s + 1" using Cons.prems unat_add_lem [of s 1] by simp
  have "unat (s + 1) + length ops \<le> 2 ^ 56" using Cons.prems step by simp
  from Cons.IH [OF this] step Cons.prems show ?case
    by (auto simp: valid_seq_unat word_le_nat_alt word_less_nat_alt)
qed simp

lemma numbered_adds:
  assumes "list_all (\<lambda>p. op_fits p \<and> key_ok (op_key p)) ops" and "unat s + length ops \<le> 2 ^ 56"
  shows "list_all (good_add key_ok) (numbered s ops)"
proof -
  have "list_all valid_seq (map add_seq (numbered s ops))" using numbered_seqs [OF assms(2)] by blast
  then show ?thesis
    using assms(1)
  proof (induction ops arbitrary: s)
    case (Cons p ops)
    then show ?case
      by (cases p) (simp_all add: good_add_def op_fits_def kTypeValue_def kTypeDeletion_def)
  qed simp
qed

lemma visible_numbered:
  assumes "\<forall>a \<in> set (numbered s ops). add_seq a \<le> q"
  shows "map (\<lambda>a. (type (fst a), snd a)) (visible u k q (numbered s ops)) =
    map (\<lambda>p. (op_type p, op_value p)) (filter (\<lambda>p. Compare u (op_key p) k = 0) ops)"
  using assms by (induction ops arbitrary: s) (auto simp: visible_def)

text \<open>What the last of the operations on a key leaves behind.\<close>

definition op_result :: "bytes \<Rightarrow> Status \<Rightarrow> batch_op list \<Rightarrow> bool \<times> bytes \<times> Status" where
  "op_result value st ops =
     (if ops = [] then (False, value, st)
      else case last ops of PutOp k v \<Rightarrow> (True, v, st) | DeleteOp k \<Rightarrow> (True, value, NotFound [] []))"

text \<open>
  A batch is replayed exactly: iterating over what \<open>Put\<close>, \<open>Delete\<close> and \<open>Append\<close> have built
  calls the handler with these operations, in order, and reports success.
\<close>
theorem batch_replayed:
  assumes "list_all op_fits (ops @ ops')"
  shows "Batch_Iterate hdl (batch_of ops) h = (OK, fold (op_handle hdl) ops h) \<and>
    Batch_Iterate hdl (Batch_Append (batch_of ops') (batch_of ops)) h = (OK, fold (op_handle hdl) (ops @ ops') h) \<and>
    Batch_Count (batch_of ops) = of_nat (length ops)"
  using assms by (simp add: batch_of_bytes Append_bytes Batch_Iterate_bytes) (simp add: batch_bytes_def Batch_Count_def)

theorem batch_replayed_witness:
  "Batch_Iterate \<lparr>handle_Put = \<lambda>k v h. h @ [k, v], handle_Delete = \<lambda>k h. h @ [k]\<rparr>
     (Batch_Append (batch_of [DeleteOp [3]]) (batch_of [PutOp [1] [2, 2]])) [] = (OK, [[1], [2, 2], [3]])"
  using batch_replayed [of "[PutOp [1] [2, 2]]" "[DeleteOp [3]]"
      "\<lparr>handle_Put = \<lambda>k v h. h @ [k, v], handle_Delete = \<lambda>k h. h @ [k]\<rparr>" "[]"]
  by (simp add: op_fits_def)

text \<open>
  C30. Write, then read: after a batch that begins at some sequence number has been inserted into an
  empty memtable, \<open>Get\<close> at a snapshot that sees the whole batch answers for every key as the last
  operation of the batch on this key says.
\<close>
theorem batch_insert_then_get:
  assumes "comparator u key_ok" and "list_all (\<lambda>p. op_fits p \<and> key_ok (op_key p)) ops"
    and "unat s + length ops \<le> 2 ^ 56" and "key_ok k" and "length k + 8 < 2 ^ 32"
    and "valid_seq q" and "unat s + length ops \<le> unat q + 1"
  shows "\<exists>m. Batch_InsertInto u (Batch_SetSequence s (batch_of ops)) new_MemTable = (OK, Some m) \<and>
    MemTable_Get u m (new_LookupKey k q) value st =
      Some (op_result value st (filter (\<lambda>p. Compare u (op_key p) k = 0) ops))"
proof -
  let ?adds = "numbered s ops"
  have uc: "user_comparator u key_ok" using assms(1) by (simp add: user_comparator_def)
  have fits: "list_all op_fits ops" using assms(2) by (simp add: list_all_iff)
  have good: "list_all (good_add key_ok) ?adds" by (rule numbered_adds [OF assms(2,3)])
  have seqs: "\<forall>a \<in> set ?adds. add_seq a \<le> q" "sorted_wrt (\<lambda>a b. add_seq a < add_seq b) ?adds"
    using numbered_seqs [OF assms(3)] assms(7) by (fastforce simp: word_le_nat_alt)+
  obtain m where m: "MemTable_Add_all u ?adds new_MemTable = Some m" "mem_rep u key_ok m ?adds"
    using user_comparator.MemTable_Add_all_rep [OF uc user_comparator.new_MemTable_rep [OF uc], of ?adds] good seqs(2)
    by auto
  have vis: "map (\<lambda>a. (type (fst a), snd a)) (visible u k q ?adds) =
      map (\<lambda>p. (op_type p, op_value p)) (filter (\<lambda>p. Compare u (op_key p) k = 0) ops)"
    by (rule visible_numbered [OF seqs(1)])
  have "(case visible u k q ?adds of [] \<Rightarrow> (False, value, st)
       | a # as \<Rightarrow> if type (fst (last (a # as))) = kTypeValue then (True, snd (last (a # as)), st)
           else (True, value, NotFound [] [])) =
     op_result value st (filter (\<lambda>p. Compare u (op_key p) k = 0) ops)"
  proof (cases "filter (\<lambda>p. Compare u (op_key p) k = 0) ops = []")
    case True
    then have "visible u k q ?adds = []" using vis by simp
    then show ?thesis by (simp add: True op_result_def)
  next
    case False
    let ?ops = "filter (\<lambda>p. Compare u (op_key p) k = 0) ops"
    have "length (visible u k q ?adds) = length ?ops" using arg_cong [OF vis, of length] by (simp only: length_map)
    then have ne: "visible u k q ?adds \<noteq> []" using False unfolding length_greater_0_conv [symmetric] by (simp only:)
    then have "(type (fst (last (visible u k q ?adds))), snd (last (visible u k q ?adds))) =
        (op_type (last ?ops), op_value (last ?ops))"
      using arg_cong [OF vis, of last] False by (simp add: last_map)
    then show ?thesis
      using False ne by (cases "visible u k q ?adds"; cases "last ?ops")
        (auto simp: op_result_def kTypeValue_def kTypeDeletion_def)
  qed
  then show ?thesis
    using user_comparator.MemTable_Get_rep [OF uc m(2) seqs(2) assms(4-6), of "value" st] m(1) InsertInto_bytes [OF fits]
    by (simp add: batch_of_bytes SetSequence_bytes)
qed

theorem batch_insert_then_get_witness:
  "\<exists>m. Batch_InsertInto BytewiseComparator
      (Batch_SetSequence 5 (batch_of [PutOp [97] [1], PutOp [98] [2], DeleteOp [97], PutOp [98] [3]])) new_MemTable = (OK, Some m) \<and>
    MemTable_Get BytewiseComparator m (new_LookupKey [98] 8) [] OK = Some (True, [3], OK)"
proof -
  let ?ops = "[PutOp [97] [1], PutOp [98] [2], DeleteOp [97], PutOp [98] [3]]"
  have 1: "list_all (\<lambda>p. op_fits p \<and> True) ?ops" by (simp add: op_fits_def)
  have 2: "unat (5 :: SequenceNumber) + length ?ops \<le> 2 ^ 56" and 3: "valid_seq 8"
    and 4: "unat (5 :: SequenceNumber) + length ?ops \<le> unat (8 :: SequenceNumber) + 1"
    by (simp_all add: valid_seq_unat)
  have res: "op_result [] OK (filter (\<lambda>p. Compare BytewiseComparator (op_key p) [98] = 0) ?ops) = (True, [3], OK)"
    by (simp add: op_result_def slice_compare_zero)
  show ?thesis
    using batch_insert_then_get [OF bytewise.comparator_axioms 1 2 TrueI _ 3 4, of "[98]" "[]" OK, unfolded res] by simp
qed

text \<open>Whatever the bytes are, they decide the operations that the handler is called with.\<close>

definition iterates :: "'h Handler \<Rightarrow> bytes \<Rightarrow> Status option \<Rightarrow> nat \<Rightarrow> batch_op list \<Rightarrow> bool" where
  "iterates hdl input e n ops \<longleftrightarrow>
     (\<forall>found h. Iterate_loop hdl input found h = (e, found + of_nat n, fold (op_handle hdl) ops h))"

definition sound_end :: "Status option \<Rightarrow> nat \<Rightarrow> batch_op list \<Rightarrow> bool" where
  "sound_end e n ops \<longleftrightarrow> (case e of None \<Rightarrow> n = length ops | Some s \<Rightarrow> IsCorruption s)"

lemma corruption [simp]: "IsCorruption (Corruption m m')" "Corruption m m' \<noteq> OK"
  by (simp_all add: IsCorruption_def Corruption_def status_code_new) (simp add: new_Status_def OK_def Let_def)

lemma iterates_step:
  assumes "iterates hdl rest e n ops"
    and "\<And>found h. Iterate_loop hdl input found h = Iterate_loop hdl rest (found + 1) (op_handle hdl p h)"
  shows "iterates hdl input e (Suc n) (p # ops)"
  using assms by (simp add: iterates_def ac_simps)

lemma iterates_stop:
  assumes "\<And>found h. Iterate_loop hdl input found h = (Some s, found + 1, h)"
  shows "iterates hdl input (Some s) 1 []"
  using assms by (simp add: iterates_def)

lemma Iterate_loop_any:
  "\<exists>e n ops. sound_end e n ops \<and> (\<forall>hdl :: 'h Handler. iterates hdl input e n ops)"
proof (induction "length input" arbitrary: input rule: less_induct)
  case less
  note loop = Iterate_loop.simps [of _ input]
  have stop: ?case if "\<And>(hdl :: 'h Handler) found h. Iterate_loop hdl input found h = (Some (Corruption m []), found + 1, h)" for m
    using iterates_stop [OF that] by (intro exI [of _ "Some (Corruption m [])"] exI [of _ 1] exI [of _ "[]"]) (simp add: sound_end_def)
  have step: ?case
    if "length rest < length input"
      and "\<And>(hdl :: 'h Handler) found h. Iterate_loop hdl input found h = Iterate_loop hdl rest (found + 1) (op_handle hdl p h)"
    for rest p
  proof -
    from less [OF that(1)] obtain e n ops where "sound_end e n ops" "\<forall>hdl :: 'h Handler. iterates hdl rest e n ops"
      by blast
    with iterates_step [OF _ that(2)] show ?thesis
      by (intro exI [of _ e] exI [of _ "Suc n"] exI [of _ "p # ops"]) (auto simp: sound_end_def split: option.splits)
  qed
  show ?case
  proof (cases input)
    case Nil
    then show ?thesis
      by (intro exI [of _ None] exI [of _ 0] exI [of _ "[]"]) (simp add: sound_end_def iterates_def Iterate_loop.simps)
  next
    case (Cons tag rest)
    consider k v r1 r2 where "tag = kTypeValue" "GetLengthPrefixedSlice rest = Some (k, r1)" "GetLengthPrefixedSlice r1 = Some (v, r2)"
      | k r1 where "tag \<noteq> kTypeValue" "tag = kTypeDeletion" "GetLengthPrefixedSlice rest = Some (k, r1)"
      | "\<nexists>k v r1 r2. tag = kTypeValue \<and> GetLengthPrefixedSlice rest = Some (k, r1) \<and> GetLengthPrefixedSlice r1 = Some (v, r2)"
        "\<nexists>k r1. tag \<noteq> kTypeValue \<and> tag = kTypeDeletion \<and> GetLengthPrefixedSlice rest = Some (k, r1)"
      by blast
    then show ?thesis
    proof cases
      case 1
      then have "length r2 < length input" using Cons by (auto dest!: GetLengthPrefixedSlice_shorter)
      moreover have "Iterate_loop hdl input found h = Iterate_loop hdl r2 (found + 1) (op_handle hdl (PutOp k v) h)"
        for hdl :: "'h Handler" and found h
        using 1 Cons by (subst loop) (simp add: Let_def)
      ultimately show ?thesis by (rule step)
    next
      case 2
      then have "length r1 < length input" using Cons by (auto dest!: GetLengthPrefixedSlice_shorter)
      moreover have "Iterate_loop hdl input found h = Iterate_loop hdl r1 (found + 1) (op_handle hdl (DeleteOp k) h)"
        for hdl :: "'h Handler" and found h
        using 2 Cons by (subst loop) (simp add: Let_def)
      ultimately show ?thesis by (rule step)
    next
      case 3
      let ?m = "if tag = kTypeValue then ascii ''bad WriteBatch Put''
        else if tag = kTypeDeletion then ascii ''bad WriteBatch Delete'' else ascii ''unknown WriteBatch tag''"
      have "Iterate_loop hdl input found h = (Some (Corruption ?m []), found + 1, h)" for hdl :: "'h Handler" and found h
        using 3 Cons by (subst loop) (auto simp: Let_def split: option.splits)
      then show ?thesis by (rule stop)
    qed
  qed
qed

text \<open>
  Any bytes as a batch: the iteration ends, with success or with a corruption; the handler is
  called with a list of operations that does not depend on it, and success means that the count in
  the header is the number of these operations.
\<close>
theorem batch_any_bytes:
  "\<exists>s ops. \<forall>(hdl :: 'h Handler) h. Batch_Iterate hdl b h = (s, fold (op_handle hdl) ops h) \<and>
     (if s = OK then kHeader \<le> length b \<and> Batch_Count b = of_nat (length ops) else IsCorruption s)"
proof (cases "length b < kHeader")
  case True
  let ?s = "Corruption (ascii ''malformed WriteBatch (too small)'') []"
  show ?thesis
    using True by (intro exI [of _ ?s] exI [of _ "[]"]) (simp add: Batch_Iterate_def)
next
  case False
  obtain e n ops where loop: "sound_end e n ops" "\<forall>hdl :: 'h Handler. iterates hdl (drop kHeader b) e n ops"
    using Iterate_loop_any [where 'h = 'h and input = "drop kHeader b"] by blast
  let ?s = "case e of Some s \<Rightarrow> s
    | None \<Rightarrow> if of_nat n = Batch_Count b then OK else Corruption (ascii ''WriteBatch has wrong count'') []"
  have "Batch_Iterate hdl b h = (?s, fold (op_handle hdl) ops h)" for hdl :: "'h Handler" and h
    using loop(2) False by (cases e) (auto simp: iterates_def Batch_Iterate_def)
  moreover have "\<not> IsCorruption OK" by (simp add: IsCorruption_def status_code_def OK_def kOk_def kCorruption_def)
  then have "?s = OK \<or> IsCorruption ?s" "?s = OK \<longrightarrow> Batch_Count b = of_nat (length ops)"
    using loop(1) by (auto simp: sound_end_def split: option.splits)
  ultimately show ?thesis using False by (intro exI [of _ ?s] exI [of _ ops]) (metis not_less)
qed

end
