(* ===== verification/LdbTableFormat.thy ===== *)
theory LdbTableFormat
  imports LdbEnv LdbCrc Outcome
begin

text \<open>
  LevelDB, \<^verbatim>\<open>table/format.cc\<close>: what a table file is made of. A block handle is the offset and the
  size of a block in the file, the footer at the end of the file has the handles of the index and
  of the metaindex block, and each block is stored with a type byte and a checksum. The compressor
  of \<^verbatim>\<open>port/port_posix.h\<close> is a parameter, whose fallback without the Snappy library is
  modelled. Files that are read at an offset are functions, as their reads are \<^verbatim>\<open>const\<close>.
\<close>

section \<open>Random access files\<close>

text \<open>
  \<open>rf offset n\<close> is the status, the bytes, and whether they are in the buffer the caller passed.
\<close>

type_synonym RandomAccessFile = "64 word \<Rightarrow> 64 word \<Rightarrow> (Status \<times> bytes \<times> bool) run"

definition PosixMmapReadableFile :: "bytes \<Rightarrow> bytes \<Rightarrow> bytes \<Rightarrow> RandomAccessFile" where
  "PosixMmapReadableFile EINVAL filename region offset n =
     (case PosixMmapReadableFile_Read EINVAL filename region offset n of
        None \<Rightarrow> Undef
      | Some (s, result) \<Rightarrow> Ret (s, result, False))"

definition PosixRandomAccessFile :: "'h stdio \<Rightarrow> bytes \<Rightarrow> 'h \<Rightarrow> RandomAccessFile" where
  "PosixRandomAccessFile io filename fd offset n =
     (case PosixRandomAccessFile_Read io filename offset (unat n) fd of
        (s, result, _) \<Rightarrow> Ret (s, result, True))"

text \<open>Reads inside a file of the given contents succeed.\<close>

locale random_access_file =
  fixes rf :: RandomAccessFile and contents :: bytes
  assumes read_inside: "unat offset + unat n \<le> length contents \<Longrightarrow> length contents < 2 ^ 64 \<Longrightarrow>
    \<exists>own. rf offset n = Ret (OK, take (unat n) (drop (unat offset) contents), own)"

interpretation mmap_file: random_access_file "PosixMmapReadableFile EINVAL filename region" region
  for EINVAL filename region
proof
  fix offset n :: "64 word"
  assume inside: "unat offset + unat n \<le> length region" "length region < 2 ^ 64"
  then have "unat (offset + n) = unat offset + unat n" by (intro unat_add_lem [THEN iffD1]) simp
  then have "\<not> of_nat (length region) < offset + n"
    using inside by (simp add: word_less_nat_alt unat_of_nat_64)
  then show "\<exists>own. PosixMmapReadableFile EINVAL filename region offset n =
      Ret (OK, take (unat n) (drop (unat offset) region), own)"
    using inside by (intro exI [of _ False]) (simp add: PosixMmapReadableFile_def PosixMmapReadableFile_Read_def)
qed

interpretation disk_file: random_access_file "PosixRandomAccessFile disk_stdio filename (u, region)" region
  for filename u region
  by unfold_locales (rule exI [of _ True], simp add: PosixRandomAccessFile_def PosixRandomAccessFile_Read_def disk_stdio_def)

section \<open>Block handles\<close>

record BlockHandle =
  bh_offset :: "64 word"
  bh_size :: "64 word"

definition kMaxEncodedLength :: nat where "kMaxEncodedLength = 10 + 10"

definition new_BlockHandle :: BlockHandle where
  "new_BlockHandle = \<lparr>bh_offset = - 1, bh_size = - 1\<rparr>"

text \<open>That the fields have been set is a precondition.\<close>

definition BlockHandle_EncodeTo :: "BlockHandle \<Rightarrow> bytes \<Rightarrow> bytes" where
  "BlockHandle_EncodeTo h dst = PutVarint64 (PutVarint64 dst (bh_offset h)) (bh_size h)"

definition BlockHandle_DecodeFrom :: "bytes \<Rightarrow> BlockHandle \<Rightarrow> Status \<times> BlockHandle \<times> bytes" where
  "BlockHandle_DecodeFrom input h =
     (case GetVarint64 input of
        None \<Rightarrow> (Corruption (ascii ''bad block handle'') [], h, input)
      | Some (offset, input) \<Rightarrow>
          (case GetVarint64 input of
             None \<Rightarrow> (Corruption (ascii ''bad block handle'') [], h\<lparr>bh_offset := offset\<rparr>, input)
           | Some (sz, input) \<Rightarrow> (OK, h\<lparr>bh_offset := offset, bh_size := sz\<rparr>, input)))"

section \<open>The footer\<close>

record Footer =
  metaindex_handle :: BlockHandle
  index_handle :: BlockHandle

definition kEncodedLength :: nat where "kEncodedLength = 2 * kMaxEncodedLength + 8"

definition kTableMagicNumber :: "64 word" where "kTableMagicNumber = 0xdb4775248b80fb57"

text \<open>\<open>std::string::resize\<close>.\<close>

definition resize :: "nat \<Rightarrow> bytes \<Rightarrow> bytes" where
  "resize n s = take n s @ replicate (n - length s) 0"

definition Footer_EncodeTo :: "Footer \<Rightarrow> bytes \<Rightarrow> bytes" where
  "Footer_EncodeTo f dst =
     (let dst = BlockHandle_EncodeTo (metaindex_handle f) dst;
          dst = BlockHandle_EncodeTo (index_handle f) dst;
          dst = resize (2 * kMaxEncodedLength) dst;
          dst = PutFixed32 dst (ucast (kTableMagicNumber AND 0xffffffff)) in
      PutFixed32 dst (ucast (drop_bit 32 kTableMagicNumber)))"

text \<open>
  The magic number is read at a fixed distance, whether or not the input reaches that far; the
  rest of the input is what lies behind it.
\<close>

definition Footer_DecodeFrom :: "bytes \<Rightarrow> Footer \<Rightarrow> (Status \<times> Footer \<times> bytes) run" where
  "Footer_DecodeFrom input f =
     (if length input < kEncodedLength then Undef
      else
        let magic_ptr = drop (kEncodedLength - 8) input;
            magic_lo = DecodeFixed32 magic_ptr;
            magic_hi = DecodeFixed32 (drop 4 magic_ptr);
            magic = push_bit 32 (ucast magic_hi) OR ucast magic_lo :: 64 word in
        if magic \<noteq> kTableMagicNumber
        then Ret (Corruption (ascii ''not an sstable (bad magic number)'') [], f, input)
        else
          case BlockHandle_DecodeFrom input (metaindex_handle f) of
            (s, h, input) \<Rightarrow>
              let f = f\<lparr>metaindex_handle := h\<rparr> in
              if \<not> ok s then Ret (s, f, input)
              else
                case BlockHandle_DecodeFrom input (index_handle f) of
                  (s, h, input) \<Rightarrow>
                    let f = f\<lparr>index_handle := h\<rparr> in
                    Ret (s, f, if ok s then drop 8 magic_ptr else input))"

section \<open>Stored blocks\<close>

record Snappy =
  Snappy_Compress :: "bytes \<Rightarrow> bytes option"
  Snappy_GetUncompressedLength :: "bytes \<Rightarrow> nat option"
  Snappy_Uncompress :: "bytes \<Rightarrow> bytes option"

text \<open>What is compiled without the library.\<close>

definition NoSnappy :: Snappy where
  "NoSnappy =
     \<lparr>Snappy_Compress = (\<lambda>_. None), Snappy_GetUncompressedLength = (\<lambda>_. None), Snappy_Uncompress = (\<lambda>_. None)\<rparr>"

text \<open>The format of Snappy is limited to inputs of less than 4 GiB.\<close>

locale compressor =
  fixes z :: Snappy
  assumes uncompress: "Snappy_Compress z raw = Some out \<Longrightarrow>
    Snappy_GetUncompressedLength z out = Some (length raw) \<and> Snappy_Uncompress z out = Some raw \<and> length raw < 2 ^ 32"

interpretation no_snappy: compressor NoSnappy
  by unfold_locales (simp add: NoSnappy_def)

definition kNoCompression :: "8 word" where "kNoCompression = 0"
definition kSnappyCompression :: "8 word" where "kSnappyCompression = 1"

definition kBlockTrailerSize :: nat where "kBlockTrailerSize = 5"

record BlockContents =
  bc_data :: bytes
  cachable :: bool
  heap_allocated :: bool

definition no_contents :: BlockContents where
  "no_contents = \<lparr>bc_data = [], cachable = False, heap_allocated = False\<rparr>"

text \<open>
  The size comes from a handle, and adding the size of the trailer can wrap; the bytes are then
  looked up outside what was read.
\<close>

definition ReadBlock :: "Snappy \<Rightarrow> RandomAccessFile \<Rightarrow> bool \<Rightarrow> BlockHandle \<Rightarrow> (Status \<times> BlockContents) run" where
  "ReadBlock z file verify_checksums handle =
     (let n = bh_size handle; result = no_contents in
      run_bind (file (bh_offset handle) (n + of_nat kBlockTrailerSize)) (\<lambda>(s, data, in_buf).
        if \<not> ok s then Ret (s, result)
        else if of_nat (length data) \<noteq> n + of_nat kBlockTrailerSize
        then Ret (Corruption (ascii ''truncated block read'') [], result)
        else if length data < unat n + kBlockTrailerSize then Undef
        else if verify_checksums \<and>
           crc_value 0 (take (unat n + 1) data) \<noteq> Unmask (DecodeFixed32 (drop (unat n + 1) data))
        then Ret (Corruption (ascii ''block checksum mismatch'') [], result)
        else if data ! unat n = kNoCompression
        then Ret (OK, result\<lparr>bc_data := take (unat n) data, heap_allocated := in_buf, cachable := in_buf\<rparr>)
        else if data ! unat n = kSnappyCompression
        then (case Snappy_GetUncompressedLength z (take (unat n) data) of
                None \<Rightarrow> Ret (Corruption (ascii ''corrupted compressed block contents'') [], result)
              | Some ulength \<Rightarrow>
                  (case Snappy_Uncompress z (take (unat n) data) of
                     None \<Rightarrow> Ret (Corruption (ascii ''corrupted compressed block contents'') [], result)
                   | Some ubuf \<Rightarrow>
                       Ret (OK, result\<lparr>bc_data := take ulength ubuf, heap_allocated := True, cachable := True\<rparr>)))
        else Ret (Corruption (ascii ''bad block type'') [], result)))"

text \<open>A stored block, as \<open>TableBuilder::WriteRawBlock\<close> appends it.\<close>

definition raw_block :: "bytes \<Rightarrow> 8 word \<Rightarrow> bytes" where
  "raw_block data t = data @ [t] @ EncodeFixed32 (Mask (Extend 0 (crc_value 0 data) [t]))"

lemma length_raw_block [simp]: "length (raw_block data t) = length data + kBlockTrailerSize"
  by (simp add: raw_block_def kBlockTrailerSize_def)

lemma raw_block_parts [simp]:
  "take (length data) (raw_block data t) = data" "raw_block data t ! length data = t"
  "take (Suc (length data)) (raw_block data t) = data @ [t]"
  by (simp_all add: raw_block_def nth_append)

lemma raw_block_crc [simp]:
  "Unmask (DecodeFixed32 (drop (Suc (length data)) (raw_block data t))) = crc_value 0 (data @ [t])"
  using DecodeFixed32_Encode [of _ "[]"]
  by (simp add: raw_block_def mask_unmask crc_value_def Extend_crc32c crc32c_append)

text \<open>What is stored for some contents: as they are, or compressed.\<close>

definition stores :: "Snappy \<Rightarrow> bytes \<Rightarrow> 8 word \<Rightarrow> bytes \<Rightarrow> bool" where
  "stores z data t raw \<longleftrightarrow> t = kNoCompression \<and> data = raw \<or> t = kSnappyCompression \<and> Snappy_Compress z raw = Some data"

lemma ReadBlock_stored:
  assumes z: "compressor z" and rf: "random_access_file rf contents"
    and contents: "contents = before @ raw_block data t @ behind" "length contents < 2 ^ 64"
    and handle: "unat (bh_offset h) = length before" "unat (bh_size h) = length data"
    and stored: "stores z data t raw"
  shows "\<exists>bc. ReadBlock z rf verify h = Ret (OK, bc) \<and> bc_data bc = raw"
proof -
  let ?n = "bh_size h + of_nat kBlockTrailerSize"
  have "unat (bh_size h) + kBlockTrailerSize < 2 ^ 64" using contents handle(2) by simp
  then have n: "unat ?n = length data + kBlockTrailerSize"
    using handle(2) unat_add_lem [of "bh_size h" "of_nat kBlockTrailerSize"] by (simp add: kBlockTrailerSize_def)
  obtain own where read: "rf (bh_offset h) ?n = Ret (OK, raw_block data t, own)"
    using random_access_file.read_inside [OF rf, of "bh_offset h" ?n] contents handle(1) n by auto
  have len: "of_nat (length data) = bh_size h" by (simp add: handle(2) [symmetric])
  show ?thesis
    using stored compressor.uncompress [OF z, of raw data]
    by (auto simp: ReadBlock_def read Let_def len handle(2) stores_def
        kNoCompression_def kSnappyCompression_def)
qed

section \<open>Round trip of the footer\<close>

lemma BlockHandle_Decode_Encode:
  "BlockHandle_DecodeFrom (BlockHandle_EncodeTo h [] @ rest) h0 = (OK, h, rest)"
  using ldb_varint64.dec_enc [of "bh_offset h" "EncodeVarint64 (bh_size h) @ rest"] ldb_varint64.dec_enc [of "bh_size h" rest]
  by (simp add: BlockHandle_DecodeFrom_def BlockHandle_EncodeTo_def PutVarint64_def)

lemma BlockHandle_EncodeTo_append: "BlockHandle_EncodeTo h dst = dst @ BlockHandle_EncodeTo h []"
  by (simp add: BlockHandle_EncodeTo_def PutVarint64_def)

lemma length_BlockHandle_EncodeTo: "length (BlockHandle_EncodeTo h []) \<le> kMaxEncodedLength"
  using length_varint_bytes [OF unat_word64_varint, of "bh_offset h"] length_varint_bytes [OF unat_word64_varint, of "bh_size h"]
  by (simp add: BlockHandle_EncodeTo_def PutVarint64_def EncodeVarint64_bytes kMaxEncodedLength_def)

definition handles_padded :: "Footer \<Rightarrow> bytes" where
  "handles_padded f = resize (2 * kMaxEncodedLength)
     (BlockHandle_EncodeTo (metaindex_handle f) [] @ BlockHandle_EncodeTo (index_handle f) [])"

lemma handles_padded_prefix:
  "\<exists>pad. handles_padded f = BlockHandle_EncodeTo (metaindex_handle f) [] @ BlockHandle_EncodeTo (index_handle f) [] @ pad \<and>
     length (handles_padded f) = 2 * kMaxEncodedLength"
  using length_BlockHandle_EncodeTo [of "metaindex_handle f"] length_BlockHandle_EncodeTo [of "index_handle f"]
  by (simp add: handles_padded_def resize_def)

lemma Footer_EncodeTo_bytes:
  "Footer_EncodeTo f [] = handles_padded f @ EncodeFixed32 0x8b80fb57 @ EncodeFixed32 0xdb477524"
  by (simp add: Footer_EncodeTo_def BlockHandle_EncodeTo_append [of "index_handle f" "BlockHandle_EncodeTo _ []"]
      handles_padded_def PutFixed32_def kTableMagicNumber_def drop_bit_eq_div)

lemma length_Footer_EncodeTo: "length (Footer_EncodeTo f []) = kEncodedLength"
  using handles_padded_prefix [of f] by (auto simp: Footer_EncodeTo_bytes kEncodedLength_def)

lemma Footer_Decode_Encode: "Footer_DecodeFrom (Footer_EncodeTo f [] @ rest) f0 = Ret (OK, f, rest)"
proof -
  obtain pad where pad: "handles_padded f = BlockHandle_EncodeTo (metaindex_handle f) [] @ BlockHandle_EncodeTo (index_handle f) [] @ pad"
    and len: "length (handles_padded f) = 2 * kMaxEncodedLength"
    using handles_padded_prefix by blast
  have magic: "drop (kEncodedLength - 8) (Footer_EncodeTo f [] @ rest) = EncodeFixed32 0x8b80fb57 @ EncodeFixed32 0xdb477524 @ rest"
    using len by (simp add: Footer_EncodeTo_bytes kEncodedLength_def)
  have "push_bit 32 (ucast (0xdb477524 :: 32 word)) OR ucast (0x8b80fb57 :: 32 word) = kTableMagicNumber"
    by (simp add: kTableMagicNumber_def)
  then show ?thesis
    using length_Footer_EncodeTo [of f]
    by (simp add: Footer_DecodeFrom_def magic Let_def) (simp add: Footer_EncodeTo_bytes pad BlockHandle_Decode_Encode)
qed

text \<open>
  A footer is 48 bytes whatever its handles are, and is read back, handles that fill all 40
  bytes included. That the input has a whole footer is not checked: without its last byte
  \<open>DecodeFrom\<close> reads behind it.
\<close>
theorem footer_roundtrip:
  "length (Footer_EncodeTo f []) = kEncodedLength \<and>
   Footer_DecodeFrom (Footer_EncodeTo f [] @ rest) f0 = Ret (OK, f, rest) \<and>
   Footer_DecodeFrom (take (kEncodedLength - 1) (Footer_EncodeTo f [])) f0 = Undef"
proof -
  have "Footer_DecodeFrom (take (kEncodedLength - 1) (Footer_EncodeTo f [])) f0 = Undef"
    using length_Footer_EncodeTo [of f] by (simp add: Footer_DecodeFrom_def kEncodedLength_def)
  then show ?thesis by (simp add: Footer_Decode_Encode length_Footer_EncodeTo)
qed

text \<open>
  C32. A handle whose size is near \<open>2^64\<close> makes \<open>ReadBlock\<close> look outside what it read: the size
  with the trailer wraps to a small number of bytes, which the file delivers.
\<close>
theorem read_block_size_wraps:
  assumes rf: "random_access_file rf contents" and small: "length contents < 2 ^ 64"
    and wraps: "2 ^ 64 \<le> unat (bh_size h) + kBlockTrailerSize"
    and inside: "unat (bh_offset h) + kBlockTrailerSize \<le> length contents"
  shows "ReadBlock z rf verify h = Undef"
proof -
  let ?n = "bh_size h + of_nat kBlockTrailerSize"
  have "unat ?n = unat (bh_size h) + kBlockTrailerSize - 2 ^ 64"
    using wraps unsigned_less [of "bh_size h", where ?'a = nat]
    by (simp add: unat_word_ariths kBlockTrailerSize_def mod_if)
  then have n: "unat ?n < kBlockTrailerSize" using unsigned_less [of "bh_size h", where ?'a = nat] wraps by simp
  then obtain own where read: "rf (bh_offset h) ?n = Ret (OK, take (unat ?n) (drop (unat (bh_offset h)) contents), own)"
    using random_access_file.read_inside [OF rf, of "bh_offset h" ?n] inside small by auto
  have len: "length (take (unat ?n) (drop (unat (bh_offset h)) contents)) = unat ?n" using n inside by simp
  then have "of_nat (length (take (unat ?n) (drop (unat (bh_offset h)) contents))) = ?n"
    unfolding len by simp
  moreover have "length (take (unat ?n) (drop (unat (bh_offset h)) contents)) < unat (bh_size h) + kBlockTrailerSize"
    using n len by linarith
  ultimately show ?thesis by (simp only: ReadBlock_def read Let_def run_bind_simps prod.case ok_OK simp_thms if_True if_False)
qed

theorem read_block_size_wraps_witness:
  "ReadBlock NoSnappy (PosixMmapReadableFile [] [] (replicate 100 0)) True \<lparr>bh_offset = 10, bh_size = 0xFFFFFFFFFFFFFFFD\<rparr> = Undef"
  by (rule read_block_size_wraps [OF mmap_file.random_access_file_axioms]) (simp_all add: kBlockTrailerSize_def)

end
