(* ===== verification/LdbIterator.thy ===== *)
theory LdbIterator
  imports LdbStatus LdbComparator Outcome
begin

text \<open>
  LevelDB, \<^verbatim>\<open>leveldb/iterator.h\<close> and \<^verbatim>\<open>table/iterator.cc\<close>: the iterator interface as a
  record of the virtual functions over a state, and its contract as a locale: the iterator walks a
  sorted list of entries, and its state stands at a position of the list. The operations can meet
  undefined behaviour of the code below them, so they are runs.
\<close>

record 'i Iter =
  it_Valid :: "'i \<Rightarrow> bool"
  it_SeekToFirst :: "'i \<Rightarrow> 'i run"
  it_SeekToLast :: "'i \<Rightarrow> 'i run"
  it_Seek :: "bytes \<Rightarrow> 'i \<Rightarrow> 'i run"
  it_Next :: "'i \<Rightarrow> 'i run"
  it_Prev :: "'i \<Rightarrow> 'i run"
  it_key :: "'i \<Rightarrow> bytes"
  it_value :: "'i \<Rightarrow> bytes"
  it_status :: "'i \<Rightarrow> Status"

text \<open>The empty iterator is its status; \<open>Next\<close> and \<open>Prev\<close> on it are assertion failures.\<close>

definition EmptyIterator :: "Status Iter" where
  "EmptyIterator =
     \<lparr>it_Valid = (\<lambda>_. False), it_SeekToFirst = Ret, it_SeekToLast = Ret, it_Seek = (\<lambda>_. Ret),
      it_Next = (\<lambda>_. Undef), it_Prev = (\<lambda>_. Undef), it_key = (\<lambda>_. []), it_value = (\<lambda>_. []),
      it_status = (\<lambda>s. s)\<rparr>"

definition NewEmptyIterator :: Status where "NewEmptyIterator = OK"
definition NewErrorIterator :: "Status \<Rightarrow> Status" where "NewErrorIterator s = s"

section \<open>The contract\<close>

text \<open>Where the entries at or behind a target begin.\<close>

definition lower_bound :: "(bytes \<Rightarrow> bytes \<Rightarrow> int) \<Rightarrow> bytes \<Rightarrow> (bytes \<times> 'v) list \<Rightarrow> nat" where
  "lower_bound cmp t kvs = length (takeWhile (\<lambda>(k, _). cmp k t < 0) kvs)"

text \<open>Strictly sorted entries whose keys the comparator orders.\<close>

definition sorted_entries :: "(bytes \<Rightarrow> bytes \<Rightarrow> int) \<Rightarrow> (bytes \<Rightarrow> bool) \<Rightarrow> (bytes \<times> 'v) list \<Rightarrow> bool" where
  "sorted_entries cmp key_ok kvs \<longleftrightarrow>
     sorted_wrt (\<lambda>x y. cmp (fst x) (fst y) < 0) kvs \<and> (\<forall>x \<in> set kvs. key_ok (fst x))"

lemma lower_bound_le: "lower_bound cmp t kvs \<le> length kvs"
  by (simp add: lower_bound_def length_takeWhile_le)

lemma lower_bound_below: "p < lower_bound cmp t kvs \<Longrightarrow> cmp (fst (kvs ! p)) t < 0"
  unfolding lower_bound_def
  by (metis (mono_tags, lifting) case_prod_beta nth_mem set_takeWhileD takeWhile_nth)

lemma lower_bound_stop: "lower_bound cmp t kvs < length kvs \<Longrightarrow> \<not> cmp (fst (kvs ! lower_bound cmp t kvs)) t < 0"
  unfolding lower_bound_def using nth_length_takeWhile [of "\<lambda>(k, _). cmp k t < 0" kvs] by (simp add: case_prod_beta)

lemma lower_bound_append:
  "\<forall>x \<in> set xs. cmp (fst x) t < 0 \<Longrightarrow> lower_bound cmp t (xs @ ys) = length xs + lower_bound cmp t ys"
  by (simp add: lower_bound_def takeWhile_append2 case_prod_beta)

lemma lower_bound_append_stop:
  "\<forall>y \<in> set ys. \<not> cmp (fst y) t < 0 \<Longrightarrow> lower_bound cmp t (xs @ ys) = lower_bound cmp t xs"
  by (induction xs) (auto simp: lower_bound_def case_prod_beta takeWhile_eq_Nil_iff)

lemma lower_bound_all: "\<forall>x \<in> set xs. cmp (fst x) t < 0 \<Longrightarrow> lower_bound cmp t xs = length xs"
  using lower_bound_append [of xs cmp t "[]"] by (simp add: lower_bound_def)

lemma lower_bound_beyond:
  assumes ord: "key_order cmp key_ok" and sorted: "sorted_entries cmp key_ok kvs" and t: "key_ok t"
    and p: "p < length kvs" "cmp (fst (kvs ! p)) t < 0"
  shows "p < lower_bound cmp t kvs"
proof -
  have "cmp (fst (kvs ! q)) t < 0" if "q \<le> p" for q
  proof (cases "q = p")
    case False
    then have "cmp (fst (kvs ! q)) (fst (kvs ! p)) < 0"
      using sorted p(1) that by (auto simp: sorted_entries_def sorted_wrt_iff_nth_less)
    moreover have "key_ok (fst (kvs ! q))" "key_ok (fst (kvs ! p))"
      using sorted p(1) that by (auto simp: sorted_entries_def)
    ultimately show ?thesis using key_order.lt_trans [OF ord _ _ t] p(2) by blast
  qed (use p in simp)
  then have "Suc p \<le> length (takeWhile (\<lambda>(k, _). cmp k t < 0) kvs)"
    using p(1) by (intro length_takeWhile_less_P_nth) (auto simp: case_prod_beta)
  then show ?thesis by (simp add: lower_bound_def)
qed

text \<open>
  \<open>at i p\<close>: the state stands at the entry of index \<open>p\<close>, or is not valid when \<open>p\<close> is the length;
  \<open>made i\<close> holds of every state of the iterator, also before it has been positioned. No operation
  leaves an error.
\<close>

locale iterator =
  fixes it :: "'i Iter" and cmp :: "bytes \<Rightarrow> bytes \<Rightarrow> int" and ok :: "bytes \<Rightarrow> bool"
    and kvs :: "(bytes \<times> bytes) list" and made :: "'i \<Rightarrow> bool" and "at" :: "'i \<Rightarrow> nat \<Rightarrow> bool"
  assumes at_made: "at i p \<Longrightarrow> made i"
    and status: "made i \<Longrightarrow> it_status it i = OK"
    and valid: "at i p \<Longrightarrow> it_Valid it i \<longleftrightarrow> p < length kvs"
    and bound: "at i p \<Longrightarrow> p \<le> length kvs"
    and entry: "at i p \<Longrightarrow> p < length kvs \<Longrightarrow> it_key it i = fst (kvs ! p) \<and> it_value it i = snd (kvs ! p)"
    and seek_to_first: "made i \<Longrightarrow> \<exists>i'. it_SeekToFirst it i = Ret i' \<and> at i' 0"
    and seek_to_last: "made i \<Longrightarrow> \<exists>i'. it_SeekToLast it i = Ret i' \<and> at i' (length kvs - 1)"
    and seek: "made i \<Longrightarrow> ok t \<Longrightarrow> \<exists>i'. it_Seek it t i = Ret i' \<and> at i' (lower_bound cmp t kvs)"
    and "next": "at i p \<Longrightarrow> p < length kvs \<Longrightarrow> \<exists>i'. it_Next it i = Ret i' \<and> at i' (Suc p)"
    and prev: "at i p \<Longrightarrow> p < length kvs \<Longrightarrow> \<exists>i'. it_Prev it i = Ret i' \<and> at i' (if p = 0 then length kvs else p - 1)"

text \<open>Reading an iterator to its end, with fuel for the entries.\<close>

primrec scan :: "'i Iter \<Rightarrow> nat \<Rightarrow> 'i \<Rightarrow> (bytes \<times> bytes) list run" where
  "scan it 0 i = NoFuel"
| "scan it (Suc n) i =
     (if it_Valid it i then
        run_bind (it_Next it i) (\<lambda>i'. run_bind (scan it n i') (\<lambda>kvs. Ret ((it_key it i, it_value it i) # kvs)))
      else Ret [])"

text \<open>The same backwards, from the entry the iterator stands at.\<close>

primrec scan_back :: "'i Iter \<Rightarrow> nat \<Rightarrow> 'i \<Rightarrow> (bytes \<times> bytes) list run" where
  "scan_back it 0 i = NoFuel"
| "scan_back it (Suc n) i =
     (if it_Valid it i then
        run_bind (it_Prev it i) (\<lambda>i'. run_bind (scan_back it n i') (\<lambda>kvs. Ret ((it_key it i, it_value it i) # kvs)))
      else Ret [])"

context iterator
begin

lemma scan_back_end: "at i (length kvs) \<Longrightarrow> 0 < n \<Longrightarrow> scan_back it n i = Ret []"
  using valid [of i "length kvs"] by (cases n) simp_all

lemma scan_back_at: "at i p \<Longrightarrow> p < length kvs \<Longrightarrow> Suc p < n \<Longrightarrow> scan_back it n i = Ret (rev (take (Suc p) kvs))"
proof (induction n arbitrary: i p)
  case (Suc n)
  obtain i' where i': "it_Prev it i = Ret i'" "at i' (if p = 0 then length kvs else p - 1)"
    using prev [OF Suc.prems(1,2)] by blast
  have "scan_back it n i' = Ret (rev (take p kvs))"
  proof (cases p)
    case 0
    then show ?thesis using i'(2) scan_back_end [of i' n] Suc.prems(3) by simp
  next
    case (Suc q)
    then show ?thesis using i'(2) Suc.IH [of i' q] Suc.prems by simp
  qed
  then show ?case
    using i'(1) valid [OF Suc.prems(1)] entry [OF Suc.prems(1,2)] Suc.prems(2)
    by (simp add: take_Suc_conv_app_nth)
qed simp

lemma scan_back_all: "made i \<Longrightarrow> length kvs < n \<Longrightarrow> run_bind (it_SeekToLast it i) (scan_back it n) = Ret (rev kvs)"
proof -
  assume "made i" and n: "length kvs < n"
  then obtain i' where i': "it_SeekToLast it i = Ret i'" "at i' (length kvs - 1)" using seek_to_last by blast
  show ?thesis
  proof (cases "kvs = []")
    case True
    then show ?thesis using i' n scan_back_end [of i' n] by simp
  next
    case False
    then show ?thesis using i' n scan_back_at [of i' "length kvs - 1" n] by simp
  qed
qed

lemma scan_at: "at i p \<Longrightarrow> length kvs - p < n \<Longrightarrow> scan it n i = Ret (drop p kvs)"
proof (induction n arbitrary: i p)
  case (Suc n)
  show ?case
  proof (cases "p < length kvs")
    case True
    obtain i' where i': "it_Next it i = Ret i'" "at i' (Suc p)" using "next" [OF Suc.prems(1) True] by blast
    have "scan it n i' = Ret (drop (Suc p) kvs)" using Suc.IH [OF i'(2)] Suc.prems(2) True by simp
    then show ?thesis
      using i'(1) valid [OF Suc.prems(1)] entry [OF Suc.prems(1) True] True by (simp add: Cons_nth_drop_Suc)
  next
    case False
    then show ?thesis using valid [OF Suc.prems(1)] by simp
  qed
qed simp

lemma scan_all: "made i \<Longrightarrow> length kvs < n \<Longrightarrow> run_bind (it_SeekToFirst it i) (scan it n) = Ret kvs"
  using seek_to_first [of i] scan_at [of _ 0 n] by fastforce

lemma scan_from:
  "made i \<Longrightarrow> ok t \<Longrightarrow> length kvs < n \<Longrightarrow>
   run_bind (it_Seek it t i) (scan it n) = Ret (dropWhile (\<lambda>(k, _). cmp k t < 0) kvs)"
  using seek [of i t] scan_at [of _ "lower_bound cmp t kvs" n]
  by (fastforce simp: lower_bound_def dropWhile_eq_drop)

end

interpretation empty_iter: iterator EmptyIterator cmp "\<lambda>_. True" "[]" "\<lambda>s. s = OK" "\<lambda>s p. s = OK \<and> p = 0" for cmp
  by unfold_locales (auto simp: EmptyIterator_def lower_bound_def)

end
