(* ===== verification/LdbBlock.thy ===== *)
theory LdbBlock
  imports LdbIterator
begin

text \<open>
  LevelDB, \<^verbatim>\<open>table/block_builder.cc\<close> and \<^verbatim>\<open>table/block.cc\<close>: a block is a sequence of
  prefix-compressed entries and an array of restart points. The builder is shown to lay out its
  entries, and the iterator over such a block to meet the contract of iterators: sequential reading
  in both directions, and the binary search of \<open>Seek\<close>. Offsets are natural numbers; the 32-bit
  offsets of the code agree with them as long as a block is smaller than 4 GiB, and the one sum of
  the code that can wrap on a corrupt block is kept at its width.
\<close>

section \<open>The builder\<close>

record block_builder =
  bb_buffer :: bytes
  bb_restarts :: "32 word list"
  bb_counter :: nat
  bb_finished :: bool
  bb_last_key :: bytes

definition new_BlockBuilder :: block_builder where
  "new_BlockBuilder =
     \<lparr>bb_buffer = [], bb_restarts = [0], bb_counter = 0, bb_finished = False, bb_last_key = []\<rparr>"

definition BlockBuilder_Reset :: "block_builder \<Rightarrow> block_builder" where
  "BlockBuilder_Reset b =
     b\<lparr>bb_buffer := [], bb_restarts := [0], bb_counter := 0, bb_finished := False, bb_last_key := []\<rparr>"

definition CurrentSizeEstimate :: "block_builder \<Rightarrow> nat" where
  "CurrentSizeEstimate b = length (bb_buffer b) + length (bb_restarts b) * 4 + 4"

definition BlockBuilder_empty :: "block_builder \<Rightarrow> bool" where
  "BlockBuilder_empty b \<longleftrightarrow> bb_buffer b = []"

definition BlockBuilder_Finish :: "block_builder \<Rightarrow> bytes \<times> block_builder" where
  "BlockBuilder_Finish b =
     (let buf = fold (\<lambda>r buf. PutFixed32 buf r) (bb_restarts b) (bb_buffer b);
          buf = PutFixed32 buf (of_nat (length (bb_restarts b))) in
      (buf, b\<lparr>bb_buffer := buf, bb_finished := True\<rparr>))"

definition BlockBuilder_Add :: "nat \<Rightarrow> bytes \<Rightarrow> bytes \<Rightarrow> block_builder \<Rightarrow> block_builder" where
  "BlockBuilder_Add block_restart_interval key value b =
     (let (shared, restarts, counter) =
            (if bb_counter b < block_restart_interval
             then (common_prefix_length (bb_last_key b) key, bb_restarts b, bb_counter b)
             else (0, bb_restarts b @ [of_nat (length (bb_buffer b))], 0));
          non_shared = length key - shared;
          buf = PutVarint32 (PutVarint32 (PutVarint32 (bb_buffer b) (of_nat shared)) (of_nat non_shared))
            (of_nat (length value)) in
      b\<lparr>bb_buffer := (buf @ take non_shared (drop shared key)) @ value,
        bb_restarts := restarts,
        bb_last_key := take shared (bb_last_key b) @ take non_shared (drop shared key),
        bb_counter := counter + 1\<rparr>)"

section \<open>The block\<close>

text \<open>A size of 0 marks an error; \<open>restart_offset\<close> is then not set.\<close>

record Block =
  block_data :: bytes
  block_size :: nat
  restart_offset :: nat

definition NumRestarts :: "bytes \<Rightarrow> nat" where
  "NumRestarts data = unat (DecodeFixed32 (drop (length data - 4) data))"

definition new_Block :: "bytes \<Rightarrow> Block" where
  "new_Block contents =
     (let n = length contents in
      if n < 4 then \<lparr>block_data = contents, block_size = 0, restart_offset = 0\<rparr>
      else
        let max_restarts_allowed = (n - 4) div 4 in
        if max_restarts_allowed < NumRestarts contents
        then \<lparr>block_data = contents, block_size = 0, restart_offset = 0\<rparr>
        else \<lparr>block_data = contents, block_size = n, restart_offset = n - (1 + NumRestarts contents) * 4\<rparr>)"

text \<open>
  \<open>DecodeEntry\<close> on the bytes up to \<open>limit\<close>: the three lengths and the bytes behind them. The sum
  in the last test is a 32-bit sum.
\<close>

definition DecodeEntry :: "bytes \<Rightarrow> (32 word \<times> 32 word \<times> 32 word \<times> bytes) option" where
  "DecodeEntry p =
     (if length p < 3 then None
      else
        let shared = ucast (p ! 0) :: 32 word; non_shared = ucast (p ! 1); value_length = ucast (p ! 2) in
        case (if (shared OR non_shared) OR value_length < 128 then Some (shared, non_shared, value_length, drop 3 p)
              else
                (case GetVarint32Ptr p of None \<Rightarrow> None | Some (shared, p) \<Rightarrow>
                 (case GetVarint32Ptr p of None \<Rightarrow> None | Some (non_shared, p) \<Rightarrow>
                 (case GetVarint32Ptr p of None \<Rightarrow> None | Some (value_length, p) \<Rightarrow>
                    Some (shared, non_shared, value_length, p))))) of
          None \<Rightarrow> None
        | Some (shared, non_shared, value_length, p) \<Rightarrow>
            if of_nat (length p) < non_shared + value_length then None
            else Some (shared, non_shared, value_length, p))"

section \<open>The iterator\<close>

text \<open>The constant fields of \<open>Block::Iter\<close>, and its state; the value is a region of the data.\<close>

record block_ref =
  br_data :: bytes
  br_restarts :: nat
  br_num :: nat

record block_iter =
  bi_current :: nat
  bi_index :: nat
  bi_key :: bytes
  bi_vpos :: nat
  bi_vlen :: nat
  bi_status :: Status

definition new_block_iter :: "block_ref \<Rightarrow> block_iter" where
  "new_block_iter b =
     \<lparr>bi_current = br_restarts b, bi_index = br_num b, bi_key = [], bi_vpos = 0, bi_vlen = 0, bi_status = OK\<rparr>"

definition NextEntryOffset :: "block_iter \<Rightarrow> nat" where
  "NextEntryOffset i = bi_vpos i + bi_vlen i"

definition GetRestartPoint :: "block_ref \<Rightarrow> nat \<Rightarrow> nat" where
  "GetRestartPoint b index = unat (DecodeFixed32 (drop (br_restarts b + index * 4) (br_data b)))"

definition SeekToRestartPoint :: "block_ref \<Rightarrow> nat \<Rightarrow> block_iter \<Rightarrow> block_iter" where
  "SeekToRestartPoint b index i =
     i\<lparr>bi_key := [], bi_index := index, bi_vpos := GetRestartPoint b index, bi_vlen := 0\<rparr>"

definition CorruptionError :: "block_ref \<Rightarrow> block_iter \<Rightarrow> block_iter" where
  "CorruptionError b i =
     i\<lparr>bi_current := br_restarts b, bi_index := br_num b,
       bi_status := Corruption (ascii ''bad entry in block'') [], bi_key := [], bi_vpos := 0, bi_vlen := 0\<rparr>"

text \<open>
  \<open>CorruptionError\<close> clears the value, whose pointer then is not into the block; the state is not
  valid, and every operation that is allowed in it positions the value first.

  The bytes of the entries from an offset on.
\<close>

definition entry_window :: "block_ref \<Rightarrow> nat \<Rightarrow> bytes" where
  "entry_window b off = take (br_restarts b - off) (drop off (br_data b))"

function advance_index :: "block_ref \<Rightarrow> nat \<Rightarrow> nat \<Rightarrow> nat" where
  "advance_index b current index =
     (if index + 1 < br_num b \<and> GetRestartPoint b (index + 1) < current
      then advance_index b current (index + 1) else index)"
  by pat_completeness auto
termination by (relation "measure (\<lambda>(b, _, index). br_num b - index)") auto

declare advance_index.simps [simp del]

text \<open>Reading the key or the value past the end of the block is undefined.\<close>

definition ParseNextKey :: "block_ref \<Rightarrow> block_iter \<Rightarrow> (bool \<times> block_iter) run" where
  "ParseNextKey b i =
     (let current = NextEntryOffset i; i = i\<lparr>bi_current := current\<rparr> in
      if br_restarts b \<le> current
      then Ret (False, i\<lparr>bi_current := br_restarts b, bi_index := br_num b\<rparr>)
      else
        case DecodeEntry (entry_window b current) of
          None \<Rightarrow> Ret (False, CorruptionError b i)
        | Some (shared, non_shared, value_length, p) \<Rightarrow>
            let pos = current + (length (entry_window b current) - length p) in
            if length (bi_key i) < unat shared then Ret (False, CorruptionError b i)
            else if length (br_data b) < pos + unat non_shared + unat value_length then Undef
            else
              Ret (True, i\<lparr>bi_key := take (unat shared) (bi_key i) @ take (unat non_shared) (drop pos (br_data b)),
                           bi_vpos := pos + unat non_shared, bi_vlen := unat value_length,
                           bi_index := advance_index b current (bi_index i)\<rparr>))"

lemma GetVarint32Ptr_shorter: "GetVarint32Ptr p = Some (v, rest) \<Longrightarrow> length rest < length p"
  using GetVarint32_shorter by (simp add: GetVarint32_def)

lemma DecodeEntry_shorter: "DecodeEntry p = Some (s, n, v, rest) \<Longrightarrow> length rest < length p"
  by (auto simp: DecodeEntry_def Let_def dest!: GetVarint32Ptr_shorter split: if_split_asm option.split_asm prod.split_asm)

lemma ParseNextKey_progress:
  "ParseNextKey b i = Ret (True, i') \<Longrightarrow> NextEntryOffset i < br_restarts b \<and> NextEntryOffset i < NextEntryOffset i'"
  using DecodeEntry_shorter [of "entry_window b (NextEntryOffset i)"]
  by (force simp: ParseNextKey_def Let_def CorruptionError_def NextEntryOffset_def split: if_split_asm option.split_asm prod.split_asm)

text \<open>The loops that parse one entry after another while a condition holds of the new entry.\<close>

function parse_while :: "block_ref \<Rightarrow> (block_iter \<Rightarrow> bool) \<Rightarrow> block_iter \<Rightarrow> block_iter run" where
  "parse_while b P i =
     (case ParseNextKey b i of
        Ret (parsed, i') \<Rightarrow> if parsed \<and> P i' then parse_while b P i' else Ret i'
      | Undef \<Rightarrow> Undef
      | NoFuel \<Rightarrow> NoFuel)"
  by pat_completeness auto
termination
  by (relation "measure (\<lambda>(b, _, i). br_restarts b - NextEntryOffset i)") (auto dest!: ParseNextKey_progress)

declare parse_while.simps [simp del]

definition block_Valid :: "block_ref \<Rightarrow> block_iter \<Rightarrow> bool" where
  "block_Valid b i \<longleftrightarrow> bi_current i < br_restarts b"

definition block_value :: "block_ref \<Rightarrow> block_iter \<Rightarrow> bytes" where
  "block_value b i = take (bi_vlen i) (drop (bi_vpos i) (br_data b))"

definition block_Next :: "block_ref \<Rightarrow> block_iter \<Rightarrow> block_iter run" where
  "block_Next b i = run_bind (ParseNextKey b i) (\<lambda>(_, i). Ret i)"

fun prev_restart :: "block_ref \<Rightarrow> nat \<Rightarrow> nat \<Rightarrow> nat option" where
  "prev_restart b original 0 = (if original \<le> GetRestartPoint b 0 then None else Some 0)"
| "prev_restart b original (Suc i) =
     (if original \<le> GetRestartPoint b (Suc i) then prev_restart b original i else Some (Suc i))"

definition block_Prev :: "block_ref \<Rightarrow> block_iter \<Rightarrow> block_iter run" where
  "block_Prev b i =
     (let original = bi_current i in
      case prev_restart b original (bi_index i) of
        None \<Rightarrow> Ret (i\<lparr>bi_current := br_restarts b, bi_index := br_num b\<rparr>)
      | Some index \<Rightarrow> parse_while b (\<lambda>i. NextEntryOffset i < original) (SeekToRestartPoint b index i))"

text \<open>The binary search over the restart points; \<open>None\<close> is a corruption.\<close>

function seek_restart :: "block_ref \<Rightarrow> (bytes \<Rightarrow> bytes \<Rightarrow> int) \<Rightarrow> bytes \<Rightarrow> nat \<Rightarrow> nat \<Rightarrow> nat option run" where
  "seek_restart b cmp target left right =
     (if left < right then
        let mid = (left + right + 1) div 2; region_offset = GetRestartPoint b mid in
        case DecodeEntry (entry_window b region_offset) of
          None \<Rightarrow> Ret None
        | Some (shared, non_shared, value_length, p) \<Rightarrow>
            if shared \<noteq> 0 then Ret None
            else
              let pos = region_offset + (length (entry_window b region_offset) - length p) in
              if length (br_data b) < pos + unat non_shared then Undef
              else if cmp (take (unat non_shared) (drop pos (br_data b))) target < 0
              then seek_restart b cmp target mid right
              else seek_restart b cmp target left (mid - 1)
      else Ret (Some left))"
  by pat_completeness auto
termination by (relation "measure (\<lambda>(_, _, _, left, right). right - left)") auto

declare seek_restart.simps [simp del]

definition block_Seek :: "block_ref \<Rightarrow> (bytes \<Rightarrow> bytes \<Rightarrow> int) \<Rightarrow> bytes \<Rightarrow> block_iter \<Rightarrow> block_iter run" where
  "block_Seek b cmp target i =
     run_bind (seek_restart b cmp target 0 (br_num b - 1)) (\<lambda>r.
       case r of
         None \<Rightarrow> Ret (CorruptionError b i)
       | Some left \<Rightarrow> parse_while b (\<lambda>i. cmp (bi_key i) target < 0) (SeekToRestartPoint b left i))"

definition block_SeekToFirst :: "block_ref \<Rightarrow> block_iter \<Rightarrow> block_iter run" where
  "block_SeekToFirst b i = run_bind (ParseNextKey b (SeekToRestartPoint b 0 i)) (\<lambda>(_, i). Ret i)"

definition block_SeekToLast :: "block_ref \<Rightarrow> block_iter \<Rightarrow> block_iter run" where
  "block_SeekToLast b i =
     parse_while b (\<lambda>i. NextEntryOffset i < br_restarts b) (SeekToRestartPoint b (br_num b - 1) i)"

definition BlockIter :: "Comparator \<Rightarrow> block_ref \<Rightarrow> block_iter Iter" where
  "BlockIter c b =
     \<lparr>it_Valid = block_Valid b, it_SeekToFirst = block_SeekToFirst b, it_SeekToLast = block_SeekToLast b,
      it_Seek = block_Seek b (Compare c), it_Next = block_Next b, it_Prev = block_Prev b,
      it_key = bi_key, it_value = block_value b, it_status = bi_status\<rparr>"

text \<open>\<open>Block::NewIterator\<close>: an empty iterator with a status, or an iterator over the block.\<close>

datatype block_iterator = EmptyBlock Status | OverBlock block_ref block_iter

definition Block_NewIterator :: "Block \<Rightarrow> block_iterator" where
  "Block_NewIterator b =
     (if block_size b < 4 then EmptyBlock (NewErrorIterator (Corruption (ascii ''bad block contents'') []))
      else if NumRestarts (block_data b) = 0 then EmptyBlock NewEmptyIterator
      else
        let r = \<lparr>br_data = block_data b, br_restarts = restart_offset b, br_num = NumRestarts (block_data b)\<rparr> in
        OverBlock r (new_block_iter r))"

section \<open>The layout\<close>

text \<open>An entry is the number of bytes its key shares with the key before, the key and the value.\<close>

type_synonym bentry = "nat \<times> bytes \<times> bytes"

fun enc_entry :: "bentry \<Rightarrow> bytes" where
  "enc_entry (s, k, v) =
     EncodeVarint32 (of_nat s) @ EncodeVarint32 (of_nat (length k - s)) @ EncodeVarint32 (of_nat (length v)) @ drop s k @ v"

definition entries_of :: "bentry list \<Rightarrow> bytes" where
  "entries_of es = concat (map enc_entry es)"

definition entry_off :: "bentry list \<Rightarrow> nat \<Rightarrow> nat" where
  "entry_off es j = length (entries_of (take j es))"

definition prev_key :: "bentry list \<Rightarrow> nat \<Rightarrow> bytes" where
  "prev_key es j = (if j = 0 then [] else fst (snd (es ! (j - 1))))"

fun shares :: "bytes \<Rightarrow> bentry \<Rightarrow> bool" where
  "shares p (s, k, v) \<longleftrightarrow> s \<le> length p \<and> s \<le> length k \<and> take s p = take s k"

definition entries_ok :: "bentry list \<Rightarrow> bool" where
  "entries_ok es \<longleftrightarrow> (\<forall>j < length es. shares (prev_key es j) (es ! j))"

definition restarts_ok :: "bentry list \<Rightarrow> nat list \<Rightarrow> bool" where
  "restarts_ok es rs \<longleftrightarrow>
     rs \<noteq> [] \<and> rs ! 0 = 0 \<and> (\<forall>i. 0 < i \<and> i < length rs \<longrightarrow> rs ! i < length es \<and> fst (es ! (rs ! i)) = 0)"

definition restart_offsets :: "bentry list \<Rightarrow> nat list \<Rightarrow> 32 word list" where
  "restart_offsets es rs = map (\<lambda>r. of_nat (entry_off es r)) rs"

definition block_bytes :: "bentry list \<Rightarrow> nat list \<Rightarrow> bytes" where
  "block_bytes es rs = entries_of es @ fixed32_array (restart_offsets es rs) @ EncodeFixed32 (of_nat (length rs))"

definition block_layout :: "block_ref \<Rightarrow> bentry list \<Rightarrow> nat list \<Rightarrow> bool" where
  "block_layout b es rs \<longleftrightarrow>
     b = \<lparr>br_data = block_bytes es rs, br_restarts = length (entries_of es), br_num = length rs\<rparr> \<and>
     length (block_bytes es rs) < 2 ^ 32 \<and> entries_ok es \<and> restarts_ok es rs"

lemma entries_of_simps [simp]:
  "entries_of [] = []"
  "entries_of (e # es) = enc_entry e @ entries_of es"
  "entries_of (es @ fs) = entries_of es @ entries_of fs"
  by (simp_all add: entries_of_def)

lemma entries_of_split: "entries_of es = entries_of (take j es) @ entries_of (drop j es)"
  by (simp add: entries_of_simps(3) [symmetric] del: entries_of_simps)

lemma entry_off_0 [simp]: "entry_off es 0 = 0"
  by (simp add: entry_off_def)

lemma entry_off_all: "entry_off es (length es) = length (entries_of es)"
  by (simp add: entry_off_def)

lemma entry_off_Suc: "j < length es \<Longrightarrow> entry_off es (Suc j) = entry_off es j + length (enc_entry (es ! j))"
  by (simp add: entry_off_def take_Suc_conv_app_nth)

lemma enc_entry_pos: "3 \<le> length (enc_entry e)"
proof -
  have "1 \<le> length (EncodeVarint32 v)" for v by (simp add: EncodeVarint32_def)
  note len = this
  obtain s k v where e: "e = (s, k, v)" by (cases e)
  show ?thesis
    using len [of "of_nat s"] len [of "of_nat (length k - s)"] len [of "of_nat (length v)"] by (simp add: e)
qed

lemma entry_off_strict: "i < j \<Longrightarrow> j \<le> length es \<Longrightarrow> entry_off es i < entry_off es j"
proof (induction j)
  case (Suc j)
  moreover have "0 < length (enc_entry (es ! j))" using enc_entry_pos [of "es ! j"] by linarith
  ultimately show ?case by (cases "i = j") (auto simp: entry_off_Suc)
qed simp

lemma entry_off_less_iff: "i \<le> length es \<Longrightarrow> j \<le> length es \<Longrightarrow> entry_off es i < entry_off es j \<longleftrightarrow> i < j"
  using entry_off_strict [of i j es] entry_off_strict [of j i es] by (cases i j rule: linorder_cases) auto

lemma entry_off_le: "j \<le> length es \<Longrightarrow> entry_off es j \<le> length (entries_of es)"
  unfolding entry_off_def by (subst entries_of_split [of es j]) simp

section \<open>Decoding an entry\<close>

lemma GetVarint32Ptr_byte: "p ! 0 < 128 \<Longrightarrow> p \<noteq> [] \<Longrightarrow> GetVarint32Ptr p = Some (ucast (p ! 0), drop 1 p)"
proof -
  assume "p ! 0 < 128" and p: "p \<noteq> []"
  then have "unat (hd p) < 128" by (simp add: word_less_nat_alt hd_conv_nth)
  then show ?thesis using p byte_word_and [where 'a = 32, of "hd p"] by (simp add: GetVarint32Ptr_def hd_conv_nth drop_Suc)
qed

lemma or_less_128: "((a :: 32 word) OR b) < 128 \<Longrightarrow> a < 128 \<and> b < 128"
  using le_word_or1 [of a b] le_word_or2 [of b a] by (auto simp: or.commute dest: order_le_less_trans)

lemma ucast_less_128: "(ucast (x :: 8 word) :: 32 word) < 128 \<Longrightarrow> x < 128"
  using unat_byte_less [of x] by (simp add: word_less_nat_alt unsigned_ucast_eq take_bit_nat_eq_self)

text \<open>The fast path finds what the three readers of a varint find.\<close>

definition DecodeEntry_slow :: "bytes \<Rightarrow> (32 word \<times> 32 word \<times> 32 word \<times> bytes) option" where
  "DecodeEntry_slow p =
     (case GetVarint32Ptr p of None \<Rightarrow> None | Some (shared, p) \<Rightarrow>
     (case GetVarint32Ptr p of None \<Rightarrow> None | Some (non_shared, p) \<Rightarrow>
     (case GetVarint32Ptr p of None \<Rightarrow> None | Some (value_length, p) \<Rightarrow>
        Some (shared, non_shared, value_length, p))))"

lemma DecodeEntry_by_slow:
  assumes "3 \<le> length p"
  shows "DecodeEntry p =
    (case DecodeEntry_slow p of None \<Rightarrow> None
     | Some (shared, non_shared, value_length, p) \<Rightarrow>
         if of_nat (length p) < non_shared + value_length then None else Some (shared, non_shared, value_length, p))"
proof (cases "(ucast (p ! 0) OR ucast (p ! 1)) OR ucast (p ! 2) < (128 :: 32 word)")
  case True
  then have "p ! 0 < 128" "p ! 1 < 128" "p ! 2 < 128" using or_less_128 ucast_less_128 by blast+
  then have "DecodeEntry_slow p = Some (ucast (p ! 0), ucast (p ! 1), ucast (p ! 2), drop 3 p)"
    using assms GetVarint32Ptr_byte [of p] GetVarint32Ptr_byte [of "drop 1 p"] GetVarint32Ptr_byte [of "drop 2 p"]
    by (cases "p = []") (simp_all add: DecodeEntry_slow_def numeral_2_eq_2 numeral_3_eq_3)
  then show ?thesis using assms True by (simp add: DecodeEntry_def)
next
  case False
  then show ?thesis using assms by (simp add: DecodeEntry_def DecodeEntry_slow_def)
qed

lemma DecodeEntry_enc:
  assumes k: "length k < 2 ^ 32" and v: "length v < 2 ^ 32" and rest: "length (drop s k @ v @ rest) < 2 ^ 32"
  shows "DecodeEntry (enc_entry (s, k, v) @ rest) =
    Some (of_nat s, of_nat (length k - s), of_nat (length v), drop s k @ v @ rest)"
proof -
  have get: "GetVarint32Ptr (EncodeVarint32 w @ r) = Some (w, r)" for w r
    using ldb_varint32.dec_enc by (simp add: GetVarint32_def)
  have "DecodeEntry_slow (enc_entry (s, k, v) @ rest) =
    Some (of_nat s, of_nat (length k - s), of_nat (length v), drop s k @ v @ rest)"
    by (simp add: DecodeEntry_slow_def get)
  moreover have "\<not> of_nat (length (drop s k @ v @ rest)) < of_nat (length k - s) + (of_nat (length v) :: 32 word)"
  proof -
    have "unat (of_nat (length k - s) + (of_nat (length v) :: 32 word)) \<le> length k - s + length v"
      by (simp add: unat_word_ariths unat_of_nat mod_add_eq)
    moreover have "unat (of_nat (length (drop s k @ v @ rest)) :: 32 word) = length (drop s k @ v @ rest)"
      by (rule unat_of_nat_32) (rule rest)
    ultimately show ?thesis unfolding word_less_nat_alt by simp
  qed
  moreover have "3 \<le> length (enc_entry (s, k, v) @ rest)" using enc_entry_pos [of "(s, k, v)"] by simp
  ultimately show ?thesis using DecodeEntry_by_slow by simp
qed

section \<open>Where the iterator stands\<close>

lemma block_layout_data:
  assumes "block_layout b es rs"
  shows "br_data b = block_bytes es rs" "br_restarts b = length (entries_of es)" "br_num b = length rs"
  using assms by (simp_all add: block_layout_def)

lemma GetRestartPoint_layout:
  assumes "block_layout b es rs" and "i < length rs"
  shows "GetRestartPoint b i = entry_off es (rs ! i)"
proof -
  have "rs ! i \<le> length es" using assms by (cases "i = 0") (auto simp: block_layout_def restarts_ok_def intro: less_imp_le)
  then have "entry_off es (rs ! i) < 2 ^ 32"
    using assms(1) entry_off_le [of "rs ! i" es] by (simp add: block_layout_def block_bytes_def)
  moreover have "GetRestartPoint b i = unat (restart_offsets es rs ! i)"
    using assms DecodeFixed32_array [of i "restart_offsets es rs"]
    by (simp add: GetRestartPoint_def block_layout_data [OF assms(1)] block_bytes_def restart_offsets_def mult.commute)
  ultimately show ?thesis using assms(2) by (simp add: restart_offsets_def unat_of_nat_32)
qed

lemma entry_window_layout:
  assumes "block_layout b es rs" and "j \<le> length es"
  shows "entry_window b (entry_off es j) = entries_of (drop j es)"
proof -
  have "br_data b = entries_of (take j es) @ entries_of (drop j es) @ fixed32_array (restart_offsets es rs) @ EncodeFixed32 (of_nat (length rs))"
    using entries_of_split [of es j] by (simp add: block_layout_data [OF assms(1)] block_bytes_def)
  moreover have "br_restarts b = entry_off es j + length (entries_of (drop j es))"
    using entries_of_split [of es j] by (metis block_layout_data(2) assms(1) entry_off_def length_append)
  ultimately show ?thesis by (simp add: entry_window_def entry_off_def)
qed

text \<open>
  Before the entry of index \<open>j\<close> is read: the value ends where it begins, and the key has the bytes
  it shares. Behind it: the key and the value are those of the entry.
\<close>

definition iter_ready :: "bentry list \<Rightarrow> nat list \<Rightarrow> nat \<Rightarrow> block_iter \<Rightarrow> bool" where
  "iter_ready es rs j i \<longleftrightarrow>
     NextEntryOffset i = entry_off es j \<and> bi_index i < length rs \<and> bi_status i = OK \<and>
     (j < length es \<longrightarrow> fst (es ! j) \<le> length (bi_key i) \<and>
        take (fst (es ! j)) (bi_key i) = take (fst (es ! j)) (fst (snd (es ! j))))"

definition iter_stands :: "bentry list \<Rightarrow> nat list \<Rightarrow> nat \<Rightarrow> block_iter \<Rightarrow> bool" where
  "iter_stands es rs j i \<longleftrightarrow>
     j < length es \<and> bi_current i = entry_off es j \<and> NextEntryOffset i = entry_off es (Suc j) \<and>
     bi_index i < length rs \<and> bi_status i = OK \<and> bi_key i = fst (snd (es ! j)) \<and> bi_vlen i = length (snd (snd (es ! j)))"

definition iter_at :: "block_ref \<Rightarrow> bentry list \<Rightarrow> nat list \<Rightarrow> block_iter \<Rightarrow> nat \<Rightarrow> bool" where
  "iter_at b es rs i j \<longleftrightarrow> iter_stands es rs j i \<or> j = length es \<and> bi_current i = br_restarts b \<and> bi_status i = OK"

lemma advance_index_bound: "index < br_num b \<Longrightarrow> advance_index b current index < br_num b"
  by (induction b current index rule: advance_index.induct) (subst advance_index.simps, simp)

lemma iter_stands_ready:
  assumes "block_layout b es rs" and "iter_stands es rs j i"
  shows "iter_ready es rs (Suc j) i"
proof -
  have "shares (fst (snd (es ! j))) (es ! Suc j)" if "Suc j < length es"
    using assms(1) that by (auto simp: block_layout_def entries_ok_def prev_key_def dest: spec [of _ "Suc j"])
  then show ?thesis
    using assms(2) by (cases "es ! Suc j") (auto simp: iter_ready_def iter_stands_def)
qed

lemma iter_ready_restart:
  assumes "block_layout b es rs" and "n < length rs" and "bi_status i = OK"
  shows "iter_ready es rs (rs ! n) (SeekToRestartPoint b n i)"
proof -
  have "fst (es ! (rs ! n)) = 0" if "rs ! n < length es"
  proof (cases "n = 0")
    case True
    then have "rs ! n = 0" using assms by (simp add: block_layout_def restarts_ok_def)
    with that assms(1) have "shares [] (es ! (rs ! n))"
      by (auto simp: block_layout_def entries_ok_def prev_key_def dest: spec [of _ 0])
    then show ?thesis by (cases "es ! (rs ! n)") simp
  next
    case False
    then show ?thesis using assms by (simp add: block_layout_def restarts_ok_def)
  qed
  then show ?thesis
    using assms GetRestartPoint_layout [OF assms(1,2)]
    by (simp add: iter_ready_def SeekToRestartPoint_def NextEntryOffset_def)
qed

lemma ParseNextKey_at_end:
  assumes "block_layout b es rs" and "iter_ready es rs (length es) i"
  shows "\<exists>i'. ParseNextKey b i = Ret (False, i') \<and> iter_at b es rs i' (length es)"
  using assms by (simp add: ParseNextKey_def iter_ready_def block_layout_data entry_off_all iter_at_def)

lemma key_within:
  assumes ok: "entries_ok es"
  shows "j < length es \<Longrightarrow> length (fst (snd (es ! j))) \<le> entry_off es (Suc j)"
proof (induction j)
  case 0
  obtain s k v where e: "es ! 0 = (s, k, v)" by (cases "es ! 0")
  have "shares [] (es ! 0)" using ok 0 by (auto simp: entries_ok_def prev_key_def dest: spec [of _ 0])
  then show ?case using 0 e by (simp add: entry_off_Suc)
next
  case (Suc j)
  obtain s k v where e: "es ! Suc j = (s, k, v)" by (cases "es ! Suc j")
  have "shares (fst (snd (es ! j))) (es ! Suc j)"
    using ok Suc.prems by (auto simp: entries_ok_def prev_key_def dest: spec [of _ "Suc j"])
  then have "s \<le> length (fst (snd (es ! j)))" by (simp add: e)
  then show ?case using Suc e by (simp add: entry_off_Suc)
qed

lemma ParseNextKey_decoded:
  assumes "NextEntryOffset i = c" and "c < br_restarts b"
    and "DecodeEntry (entry_window b c) = Some (s, n, v, p)" and "c + (length (entry_window b c) - length p) = pos"
    and "unat s \<le> length (bi_key i)" and "pos + unat n + unat v \<le> length (br_data b)"
  shows "ParseNextKey b i = Ret (True, i\<lparr>bi_current := c,
      bi_key := take (unat s) (bi_key i) @ take (unat n) (drop pos (br_data b)),
      bi_vpos := pos + unat n, bi_vlen := unat v, bi_index := advance_index b c (bi_index i)\<rparr>)"
  using assms by (simp add: ParseNextKey_def Let_def)

lemma ParseNextKey_entry:
  assumes lay: "block_layout b es rs" and rdy: "iter_ready es rs j i" and j: "j < length es"
  shows "\<exists>i'. ParseNextKey b i = Ret (True, i') \<and> iter_stands es rs j i'"
proof -
  obtain s k v where e: "es ! j = (s, k, v)" by (cases "es ! j")
  let ?tl = "entries_of (drop (Suc j) es)"
  have win: "entry_window b (entry_off es j) = enc_entry (s, k, v) @ ?tl"
    using entry_window_layout [OF lay, of j] j e by (simp add: Cons_nth_drop_Suc [symmetric] del: enc_entry.simps)
  have data: "br_data b = entries_of (take j es) @ enc_entry (s, k, v) @ ?tl @
      fixed32_array (restart_offsets es rs) @ EncodeFixed32 (of_nat (length rs))"
    using entries_of_split [of es j] j e
    by (simp add: block_layout_data [OF lay] block_bytes_def Cons_nth_drop_Suc [symmetric] del: enc_entry.simps)
  have small: "length (br_data b) < 2 ^ 32" using lay by (simp add: block_layout_def)
  have "shares (prev_key es j) (es ! j)" using lay j by (auto simp: block_layout_def entries_ok_def)
  then have sk: "s \<le> length k" by (simp add: e)
  have drops: "length (drop s k @ v @ ?tl) < 2 ^ 32" and v: "length v < 2 ^ 32" and k: "length k < 2 ^ 32"
    using small key_within [OF _ j] lay e entry_off_le [of "Suc j" es] j
    by (simp_all add: data block_layout_def block_bytes_def)
  let ?pos = "entry_off es j + (length (enc_entry (s, k, v)) - length (drop s k @ v))"
  have dec: "DecodeEntry (entry_window b (entry_off es j)) =
      Some (of_nat s, of_nat (length k - s), of_nat (length v), drop s k @ v @ ?tl)"
    unfolding win by (rule DecodeEntry_enc [OF k v drops])
  have pos: "entry_off es j + (length (entry_window b (entry_off es j)) - length (drop s k @ v @ ?tl)) = ?pos"
    by (simp add: win)
  have from_pos: "drop ?pos (br_data b) = drop s k @ v @ ?tl @
      fixed32_array (restart_offsets es rs) @ EncodeFixed32 (of_nat (length rs))"
    unfolding data by (simp add: entry_off_def)
  have len: "?pos + (length k - s) + length v = entry_off es (Suc j)" using j e by (simp add: entry_off_Suc)
  have fits: "?pos + (length k - s) + length v \<le> length (br_data b)"
    using entry_off_le [of "Suc j" es] j len block_layout_data [OF lay] by (simp add: block_bytes_def)
  have now: "NextEntryOffset i = entry_off es j" "bi_index i < length rs"
      "s \<le> length (bi_key i)" "take s (bi_key i) = take s k"
    using rdy j e by (simp_all add: iter_ready_def)
  have before_end: "entry_off es j < br_restarts b"
    using entry_off_less_iff [of j es "length es"] j by (simp add: block_layout_data [OF lay] entry_off_all)
  have key: "take s (bi_key i) @ take (length k - s) (drop ?pos (br_data b)) = k"
    unfolding from_pos using now(4) by simp
  have words: "unat (of_nat s :: 32 word) = s" "unat (of_nat (length k - s) :: 32 word) = length k - s"
      "unat (of_nat (length v) :: 32 word) = length v"
    using k v sk by (simp_all add: unat_of_nat_32 del: of_nat_diff)
  let ?i = "i\<lparr>bi_current := entry_off es j, bi_key := k, bi_vpos := ?pos + (length k - s), bi_vlen := length v,
      bi_index := advance_index b (entry_off es j) (bi_index i)\<rparr>"
  have "ParseNextKey b i = Ret (True, ?i)"
    using ParseNextKey_decoded [OF now(1) before_end dec pos, unfolded words] now(3) fits key by (simp only:)
  moreover have "iter_stands es rs j ?i"
    using rdy j e len now(2) advance_index_bound [of "bi_index i" b] by (simp add: iter_ready_def iter_stands_def NextEntryOffset_def block_layout_data [OF lay])
  ultimately show ?thesis by blast
qed

text \<open>A loop stops behind the first entry for which its condition fails, or at the end.\<close>

lemma parse_while_finds:
  assumes lay: "block_layout b es rs"
    and P: "\<forall>k i. iter_stands es rs k i \<longrightarrow> P i = Q k"
    and p: "p \<le> length es" "p < length es \<longrightarrow> \<not> Q p"
  shows "iter_ready es rs j i \<Longrightarrow> j \<le> p \<Longrightarrow> \<forall>k. j \<le> k \<and> k < p \<longrightarrow> Q k \<Longrightarrow>
    \<exists>i'. parse_while b P i = Ret i' \<and> iter_at b es rs i' p"
proof (induction "p - j" arbitrary: i j)
  case 0
  then have j: "j = p" by simp
  show ?case
  proof (cases "p = length es")
    case True
    then show ?thesis using ParseNextKey_at_end [OF lay, of i] 0(2) j by (subst parse_while.simps) auto
  next
    case False
    then obtain i' where "ParseNextKey b i = Ret (True, i')" "iter_stands es rs p i'"
      using ParseNextKey_entry [OF lay 0(2)] p(1) j by auto
    then show ?thesis using P p False by (subst parse_while.simps) (auto simp: iter_at_def)
  qed
next
  case (Suc d)
  then have "j < length es" using p(1) by linarith
  then obtain i' where i': "ParseNextKey b i = Ret (True, i')" "iter_stands es rs j i'"
    using ParseNextKey_entry [OF lay Suc.prems(1)] by blast
  have "Q j" using Suc.prems(3) Suc.hyps(2) by simp
  then have "P i'" using P i'(2) by blast
  moreover have "\<exists>i''. parse_while b P i' = Ret i'' \<and> iter_at b es rs i'' p"
    using Suc.hyps iter_stands_ready [OF lay i'(2)] Suc.prems(3) by (intro Suc.hyps(1) [of "Suc j"]) auto
  ultimately show ?case using i'(1) by (subst parse_while.simps) simp
qed

lemma prev_restart_finds:
  assumes lay: "block_layout b es rs" and j: "j \<le> length es"
  shows "n < length rs \<Longrightarrow>
    (case prev_restart b (entry_off es j) n of None \<Rightarrow> j = 0 | Some m \<Rightarrow> m < length rs \<and> rs ! m < j)"
proof (induction n)
  case 0
  then show ?case
    using lay GetRestartPoint_layout [OF lay, of 0] entry_off_less_iff [of 0 es j] j
    by (auto simp: block_layout_def restarts_ok_def)
next
  case (Suc n)
  have "rs ! Suc n \<le> length es" using lay Suc.prems by (auto simp: block_layout_def restarts_ok_def intro: less_imp_le)
  then show ?case
    using Suc GetRestartPoint_layout [OF lay Suc.prems] entry_off_less_iff [of "rs ! Suc n" es j] j by auto
qed

section \<open>The contract of the iterator\<close>

definition pairs_of :: "bentry list \<Rightarrow> (bytes \<times> bytes) list" where
  "pairs_of es = map snd es"

lemma pairs_of_nth [simp]: "j < length es \<Longrightarrow> pairs_of es ! j = snd (es ! j)" "length (pairs_of es) = length es"
  by (simp_all add: pairs_of_def)

lemma iter_stands_value:
  assumes lay: "block_layout b es rs" and "iter_stands es rs j i"
  shows "block_value b i = snd (snd (es ! j))"
proof -
  obtain s k v where e: "es ! j = (s, k, v)" by (cases "es ! j")
  have j: "j < length es" and pos: "bi_vpos i + length v = entry_off es (Suc j)" and len: "bi_vlen i = length v"
    using assms(2) e by (simp_all add: iter_stands_def NextEntryOffset_def)
  have "br_data b = (entries_of (take j es) @ take (length (enc_entry (s, k, v)) - length v) (enc_entry (s, k, v))) @ v @
      entries_of (drop (Suc j) es) @ fixed32_array (restart_offsets es rs) @ EncodeFixed32 (of_nat (length rs))"
    using entries_of_split [of es j] j e
    by (simp add: block_layout_data [OF lay] block_bytes_def Cons_nth_drop_Suc [symmetric])
  moreover have "bi_vpos i = length (entries_of (take j es) @ take (length (enc_entry (s, k, v)) - length v) (enc_entry (s, k, v)))"
    using pos j e unfolding entry_off_Suc [OF j] by (simp add: entry_off_def)
  ultimately show ?thesis using len e by (simp add: block_value_def)
qed

lemma iter_at_Valid:
  assumes "block_layout b es rs" and "iter_at b es rs i j"
  shows "block_Valid b i \<longleftrightarrow> j < length es" and "j \<le> length es"
  using assms entry_off_less_iff [of j es "length es"]
  by (auto simp: iter_at_def block_Valid_def iter_stands_def block_layout_data entry_off_all)

lemma iter_at_stands: "iter_at b es rs i j \<Longrightarrow> j < length es \<Longrightarrow> iter_stands es rs j i"
  by (auto simp: iter_at_def)

lemma block_Next_at:
  assumes "block_layout b es rs" and "iter_at b es rs i j" and "j < length es"
  shows "\<exists>i'. block_Next b i = Ret i' \<and> iter_at b es rs i' (Suc j)"
proof (cases "Suc j = length es")
  case True
  then show ?thesis
    using ParseNextKey_at_end iter_stands_ready [OF assms(1) iter_at_stands] assms by (fastforce simp: block_Next_def)
next
  case False
  then show ?thesis
    using ParseNextKey_entry [OF assms(1) iter_stands_ready [OF assms(1) iter_at_stands]] assms
    by (fastforce simp: block_Next_def iter_at_def)
qed

lemma block_Prev_at:
  assumes lay: "block_layout b es rs" and at: "iter_at b es rs i j" and j: "j < length es"
  shows "\<exists>i'. block_Prev b i = Ret i' \<and> iter_at b es rs i' (if j = 0 then length es else j - 1)"
proof -
  have st: "bi_current i = entry_off es j" "bi_index i < length rs" "bi_status i = OK"
    using iter_at_stands [OF at j] by (simp_all add: iter_stands_def)
  show ?thesis
  proof (cases "prev_restart b (entry_off es j) (bi_index i)")
    case None
    then have "j = 0" using prev_restart_finds [OF lay _ st(2), of j] j by simp
    then show ?thesis using None by (simp add: block_Prev_def st iter_at_def)
  next
    case (Some m)
    then have m: "m < length rs" "rs ! m < j" using prev_restart_finds [OF lay _ st(2), of j] j by simp_all
    have cond: "\<forall>k i. iter_stands es rs k i \<longrightarrow> (NextEntryOffset i < entry_off es j) = (Suc k < j)"
      using entry_off_less_iff j by (auto simp: iter_stands_def)
    have "\<exists>i'. parse_while b (\<lambda>i. NextEntryOffset i < entry_off es j) (SeekToRestartPoint b m i) = Ret i' \<and>
        iter_at b es rs i' (j - 1)"
      by (rule parse_while_finds [OF lay cond _ _ iter_ready_restart [OF lay m(1) st(3)]]) (use j m in auto)
    then show ?thesis using Some m by (auto simp: block_Prev_def st(1))
  qed
qed

lemma block_SeekToFirst_at:
  assumes lay: "block_layout b es rs" and st: "bi_status i = OK"
  shows "\<exists>i'. block_SeekToFirst b i = Ret i' \<and> iter_at b es rs i' 0"
proof -
  have rs: "0 < length rs" "rs ! 0 = 0" using lay by (auto simp: block_layout_def restarts_ok_def)
  have rdy: "iter_ready es rs 0 (SeekToRestartPoint b 0 i)" using iter_ready_restart [OF lay rs(1) st] rs(2) by simp
  show ?thesis
  proof (cases "es = []")
    case True
    then show ?thesis using ParseNextKey_at_end [OF lay] rdy by (fastforce simp: block_SeekToFirst_def)
  next
    case False
    then show ?thesis using ParseNextKey_entry [OF lay rdy] by (auto simp: block_SeekToFirst_def iter_at_def)
  qed
qed

lemma block_SeekToLast_at:
  assumes lay: "block_layout b es rs" and st: "bi_status i = OK"
  shows "\<exists>i'. block_SeekToLast b i = Ret i' \<and> iter_at b es rs i' (length es - 1)"
proof -
  have n: "br_num b - 1 < length rs" and le: "rs ! (br_num b - 1) \<le> length es - 1"
    using lay block_layout_data(3) [OF lay]
    by (cases "length rs - 1 = 0"; auto simp: block_layout_def restarts_ok_def dest: spec [of _ "length rs - 1"])+
  have cond: "\<forall>k i. iter_stands es rs k i \<longrightarrow> (NextEntryOffset i < br_restarts b) = (Suc k < length es)"
    using entry_off_less_iff [of _ es "length es"] by (auto simp: iter_stands_def block_layout_data [OF lay] entry_off_all)
  show ?thesis unfolding block_SeekToLast_def
    by (rule parse_while_finds [OF lay cond _ _ iter_ready_restart [OF lay n st]]) (use le in auto)
qed

lemma seek_restart_step:
  assumes "left < right" and "DecodeEntry (entry_window b (GetRestartPoint b ((left + right + 1) div 2))) = Some (0, n, v, p)"
    and "GetRestartPoint b ((left + right + 1) div 2) +
      (length (entry_window b (GetRestartPoint b ((left + right + 1) div 2))) - length p) = pos"
  shows "seek_restart b cmp target left right =
    (if length (br_data b) < pos + unat n then Undef
     else if cmp (take (unat n) (drop pos (br_data b))) target < 0
     then seek_restart b cmp target ((left + right + 1) div 2) right
     else seek_restart b cmp target left ((left + right + 1) div 2 - 1))"
  using assms by (subst seek_restart.simps) (simp add: Let_def)

lemma seek_restart_finds:
  assumes lay: "block_layout b es rs"
  shows "left \<le> right \<Longrightarrow> right < length rs \<Longrightarrow> left = 0 \<or> rs ! left < length es \<and> cmp (fst (snd (es ! (rs ! left)))) t < 0 \<Longrightarrow>
    \<exists>n. seek_restart b cmp t left right = Ret (Some n) \<and> n < length rs \<and>
      (n = 0 \<or> rs ! n < length es \<and> cmp (fst (snd (es ! (rs ! n)))) t < 0)"
proof (induction "right - left" arbitrary: left right rule: less_induct)
  case less
  show ?case
  proof (cases "left < right")
    case False
    then show ?thesis using less.prems by (subst seek_restart.simps) simp
  next
    case True
    let ?mid = "(left + right + 1) div 2"
    have mid: "left < ?mid" "?mid \<le> right" using True by linarith+
    then have "rs ! ?mid < length es" "fst (es ! (rs ! ?mid)) = 0"
      using lay less.prems(2) by (auto simp: block_layout_def restarts_ok_def)
    then obtain k v where j: "rs ! ?mid < length es" and e: "es ! (rs ! ?mid) = (0, k, v)"
      by (cases "es ! (rs ! ?mid)") auto
    let ?j = "rs ! ?mid"
    let ?tl = "entries_of (drop (Suc ?j) es)"
    have win: "entry_window b (entry_off es ?j) = enc_entry (0, k, v) @ ?tl"
      using entry_window_layout [OF lay, of ?j] j e by (simp add: Cons_nth_drop_Suc [symmetric] del: enc_entry.simps)
    have small: "length (br_data b) < 2 ^ 32" using lay by (simp add: block_layout_def)
    have data: "br_data b = entries_of (take ?j es) @ enc_entry (0, k, v) @ ?tl @
        fixed32_array (restart_offsets es rs) @ EncodeFixed32 (of_nat (length rs))"
      using entries_of_split [of es ?j] j e
      by (simp add: block_layout_data [OF lay] block_bytes_def Cons_nth_drop_Suc [symmetric] del: enc_entry.simps)
    have bounds: "length k < 2 ^ 32" "length v < 2 ^ 32" "length (drop 0 k @ v @ ?tl) < 2 ^ 32"
      using small by (simp_all add: data)
    have start: "GetRestartPoint b ?mid = entry_off es ?j"
      by (rule GetRestartPoint_layout [OF lay]) (use mid less.prems(2) in linarith)
    have dec: "DecodeEntry (entry_window b (GetRestartPoint b ?mid)) =
        Some (0, of_nat (length k), of_nat (length v), k @ v @ ?tl)"
      unfolding start win using DecodeEntry_enc [OF bounds] by (simp del: enc_entry.simps)
    let ?pos = "entry_off es ?j + (length (enc_entry (0, k, v)) - length (k @ v))"
    have "drop ?pos (br_data b) = k @ v @ ?tl @ fixed32_array (restart_offsets es rs) @ EncodeFixed32 (of_nat (length rs))"
      unfolding data by (simp add: entry_off_def)
    then have key: "take (length k) (drop ?pos (br_data b)) = k" and "length k \<le> length (drop ?pos (br_data b))" by simp_all
    have pos: "GetRestartPoint b ?mid + (length (entry_window b (GetRestartPoint b ?mid)) - length (k @ v @ ?tl)) = ?pos"
      unfolding start win by simp
    have fits: "\<not> length (br_data b) < ?pos + length k" by (simp add: data entry_off_def)
    have step: "seek_restart b cmp t left right =
        (if cmp k t < 0 then seek_restart b cmp t ?mid right else seek_restart b cmp t left (?mid - 1))"
      using True seek_restart_step [OF True dec pos] key fits unat_of_nat_32 [OF bounds(1)] by simp
    show ?thesis
    proof (cases "cmp k t < 0")
      case True
      then show ?thesis
        using less.hyps [of right ?mid] less.prems mid j e step by (simp add: diff_less_mono2)
    next
      case False
      then show ?thesis
        using less.hyps [of "?mid - 1" left] less.prems mid step by simp
    qed
  qed
qed

lemma block_Seek_at:
  assumes lay: "block_layout b es rs" and ord: "key_order cmp key_ok" and sorted: "sorted_entries cmp key_ok (pairs_of es)"
    and t: "key_ok t" and st: "bi_status i = OK"
  shows "\<exists>i'. block_Seek b cmp t i = Ret i' \<and> iter_at b es rs i' (lower_bound cmp t (pairs_of es))"
proof -
  let ?p = "lower_bound cmp t (pairs_of es)"
  have "br_num b - 1 < length rs" using lay by (cases rs) (auto simp: block_layout_def restarts_ok_def)
  then obtain n where n: "seek_restart b cmp t 0 (br_num b - 1) = Ret (Some n)" "n < length rs"
      "n = 0 \<or> rs ! n < length es \<and> cmp (fst (snd (es ! (rs ! n)))) t < 0"
    using seek_restart_finds [OF lay, of 0 "br_num b - 1" cmp t] by auto
  have "rs ! n \<le> ?p"
    using n(3) lower_bound_beyond [OF ord sorted t, of "rs ! n"] lay by (auto simp: block_layout_def restarts_ok_def)
  moreover have "\<forall>k i. iter_stands es rs k i \<longrightarrow> (cmp (bi_key i) t < 0) = (cmp (fst (pairs_of es ! k)) t < 0)"
    by (auto simp: iter_stands_def)
  moreover have "?p < length es \<longrightarrow> \<not> cmp (fst (pairs_of es ! ?p)) t < 0"
    using lower_bound_stop [of cmp t "pairs_of es"] by simp
  ultimately have "\<exists>i'. parse_while b (\<lambda>i. cmp (bi_key i) t < 0) (SeekToRestartPoint b n i) = Ret i' \<and> iter_at b es rs i' ?p"
    using lower_bound_le [of cmp t "pairs_of es"] lower_bound_below [of _ cmp t "pairs_of es"]
      iter_ready_restart [OF lay n(2) st]
    by (intro parse_while_finds [OF lay, where Q = "\<lambda>k. cmp (fst (pairs_of es ! k)) t < 0"]) auto
  then show ?thesis using n(1) by (simp add: block_Seek_def)
qed

definition block_made :: "Comparator \<Rightarrow> (bytes \<Rightarrow> bool) \<Rightarrow> block_ref \<Rightarrow> bentry list \<Rightarrow> nat list \<Rightarrow> bool" where
  "block_made c key_ok b es rs \<longleftrightarrow>
     block_layout b es rs \<and> key_order (Compare c) key_ok \<and> sorted_entries (Compare c) key_ok (pairs_of es)"

lemma BlockIter_simps [simp]:
  "it_Valid (BlockIter c b) = block_Valid b" "it_SeekToFirst (BlockIter c b) = block_SeekToFirst b"
  "it_SeekToLast (BlockIter c b) = block_SeekToLast b" "it_Seek (BlockIter c b) = block_Seek b (Compare c)"
  "it_Next (BlockIter c b) = block_Next b" "it_Prev (BlockIter c b) = block_Prev b"
  "it_key (BlockIter c b) = bi_key" "it_value (BlockIter c b) = block_value b" "it_status (BlockIter c b) = bi_status"
  by (simp_all add: BlockIter_def)

interpretation block_iter: iterator "BlockIter c b" "Compare c" key_ok "pairs_of es"
  "\<lambda>i. block_made c key_ok b es rs \<and> bi_status i = OK" "\<lambda>i p. block_made c key_ok b es rs \<and> iter_at b es rs i p"
  for c key_ok b es rs
proof
  fix i p t
  assume a: "block_made c key_ok b es rs \<and> iter_at b es rs i p"
  then have lay: "block_layout b es rs" and at: "iter_at b es rs i p" by (auto simp: block_made_def)
  show "it_Valid (BlockIter c b) i \<longleftrightarrow> p < length (pairs_of es)" "p \<le> length (pairs_of es)"
    using iter_at_Valid [OF lay at] by simp_all
  assume p: "p < length (pairs_of es)"
  then have "iter_stands es rs p i" using iter_at_stands [OF at] by simp
  then show "it_key (BlockIter c b) i = fst (pairs_of es ! p) \<and> it_value (BlockIter c b) i = snd (pairs_of es ! p)"
    using iter_stands_value [OF lay] p by (simp add: iter_stands_def)
  show "\<exists>i'. it_Next (BlockIter c b) i = Ret i' \<and> block_made c key_ok b es rs \<and> iter_at b es rs i' (Suc p)"
    using block_Next_at [OF lay at] a p by simp
  show "\<exists>i'. it_Prev (BlockIter c b) i = Ret i' \<and> block_made c key_ok b es rs \<and>
      iter_at b es rs i' (if p = 0 then length (pairs_of es) else p - 1)"
    using block_Prev_at [OF lay at] a p by (cases "p = 0") simp_all
next
  fix i :: block_iter and t
  assume "block_made c key_ok b es rs \<and> bi_status i = OK"
  then have made: "block_made c key_ok b es rs" and st: "bi_status i = OK" by simp_all
  then have lay: "block_layout b es rs" by (simp add: block_made_def)
  show "\<exists>i'. it_SeekToFirst (BlockIter c b) i = Ret i' \<and> block_made c key_ok b es rs \<and> iter_at b es rs i' 0"
    using block_SeekToFirst_at [OF lay st] made by simp
  show "\<exists>i'. it_SeekToLast (BlockIter c b) i = Ret i' \<and> block_made c key_ok b es rs \<and> iter_at b es rs i' (length (pairs_of es) - 1)"
    using block_SeekToLast_at [OF lay st] made by simp
  assume "key_ok t"
  then show "\<exists>i'. it_Seek (BlockIter c b) t i = Ret i' \<and> block_made c key_ok b es rs \<and>
      iter_at b es rs i' (lower_bound (Compare c) t (pairs_of es))"
    using block_Seek_at [OF lay] made st by (auto simp: block_made_def)
qed (auto simp: iter_at_def iter_stands_def)

text \<open>The iterator behind the pointer that \<open>NewIterator\<close> returns.\<close>

definition over_block :: "(block_ref \<Rightarrow> block_iter \<Rightarrow> block_iter run) \<Rightarrow> (Status \<Rightarrow> Status run) \<Rightarrow> block_iterator \<Rightarrow> block_iterator run" where
  "over_block f g i =
     (case i of
        EmptyBlock s \<Rightarrow> run_bind (g s) (\<lambda>s. Ret (EmptyBlock s))
      | OverBlock b i \<Rightarrow> run_bind (f b i) (\<lambda>i. Ret (OverBlock b i)))"

definition BlockIterator :: "Comparator \<Rightarrow> block_iterator Iter" where
  "BlockIterator c =
     \<lparr>it_Valid = (\<lambda>i. case i of EmptyBlock s \<Rightarrow> it_Valid EmptyIterator s | OverBlock b i \<Rightarrow> block_Valid b i),
      it_SeekToFirst = over_block block_SeekToFirst (it_SeekToFirst EmptyIterator),
      it_SeekToLast = over_block block_SeekToLast (it_SeekToLast EmptyIterator),
      it_Seek = (\<lambda>t. over_block (\<lambda>b. block_Seek b (Compare c) t) (it_Seek EmptyIterator t)),
      it_Next = over_block block_Next (it_Next EmptyIterator),
      it_Prev = over_block block_Prev (it_Prev EmptyIterator),
      it_key = (\<lambda>i. case i of EmptyBlock s \<Rightarrow> it_key EmptyIterator s | OverBlock b i \<Rightarrow> bi_key i),
      it_value = (\<lambda>i. case i of EmptyBlock s \<Rightarrow> it_value EmptyIterator s | OverBlock b i \<Rightarrow> block_value b i),
      it_status = (\<lambda>i. case i of EmptyBlock s \<Rightarrow> it_status EmptyIterator s | OverBlock b i \<Rightarrow> bi_status i)\<rparr>"

definition iterator_made :: "Comparator \<Rightarrow> (bytes \<Rightarrow> bool) \<Rightarrow> (bytes \<times> bytes) list \<Rightarrow> block_iterator \<Rightarrow> bool" where
  "iterator_made c key_ok kvs i \<longleftrightarrow>
     (\<exists>b bi es rs. i = OverBlock b bi \<and> bi_status bi = OK \<and> block_made c key_ok b es rs \<and> kvs = pairs_of es)"

definition iterator_at :: "Comparator \<Rightarrow> (bytes \<Rightarrow> bool) \<Rightarrow> (bytes \<times> bytes) list \<Rightarrow> block_iterator \<Rightarrow> nat \<Rightarrow> bool" where
  "iterator_at c key_ok kvs i p \<longleftrightarrow>
     (\<exists>b bi es rs. i = OverBlock b bi \<and> block_made c key_ok b es rs \<and> kvs = pairs_of es \<and> iter_at b es rs bi p)"

lemma over_block_at:
  assumes "block_made c key_ok b es rs" and "\<exists>bi'. f b bi = Ret bi' \<and> block_made c key_ok b es rs \<and> iter_at b es rs bi' p"
  shows "\<exists>i'. over_block f g (OverBlock b bi) = Ret i' \<and> iterator_at c key_ok (pairs_of es) i' p"
  using assms by (fastforce simp: over_block_def iterator_at_def)

interpretation any_block: iterator "BlockIterator c" "Compare c" key_ok kvs
  "iterator_made c key_ok kvs" "iterator_at c key_ok kvs"
  for c key_ok kvs
proof
  fix i p
  assume "iterator_at c key_ok kvs i p"
  then obtain b bi es rs where i: "i = OverBlock b bi" and kvs: "kvs = pairs_of es"
      and at: "block_made c key_ok b es rs \<and> iter_at b es rs bi p"
    by (auto simp: iterator_at_def)
  note made = conjunct1 [OF at]
  show "iterator_made c key_ok kvs i" using i at kvs by (auto simp: iterator_made_def iter_at_def iter_stands_def)
  show "it_Valid (BlockIterator c) i \<longleftrightarrow> p < length kvs" "p \<le> length kvs"
    using block_iter.valid [OF at] block_iter.bound [OF at] i kvs by (simp_all add: BlockIterator_def)
  assume p: "p < length kvs"
  show "it_key (BlockIterator c) i = fst (kvs ! p) \<and> it_value (BlockIterator c) i = snd (kvs ! p)"
    using block_iter.entry [OF at] p i kvs by (simp add: BlockIterator_def)
  show "\<exists>i'. it_Next (BlockIterator c) i = Ret i' \<and> iterator_at c key_ok kvs i' (Suc p)"
    using over_block_at [OF made, of block_Next] block_iter.next [OF at] p i kvs by (simp add: BlockIterator_def)
  show "\<exists>i'. it_Prev (BlockIterator c) i = Ret i' \<and> iterator_at c key_ok kvs i' (if p = 0 then length kvs else p - 1)"
    unfolding i kvs using over_block_at [OF made, of block_Prev] block_iter.prev [OF at] p kvs
    by (cases "p = 0") (simp_all add: BlockIterator_def)
next
  fix i t
  assume "iterator_made c key_ok kvs i"
  then obtain b bi es rs where i: "i = OverBlock b bi" and kvs: "kvs = pairs_of es"
      and made: "block_made c key_ok b es rs" and st: "bi_status bi = OK"
    by (auto simp: iterator_made_def)
  note ready = conjI [OF made st]
  show "it_status (BlockIterator c) i = OK" using i st by (simp add: BlockIterator_def)
  show "\<exists>i'. it_SeekToFirst (BlockIterator c) i = Ret i' \<and> iterator_at c key_ok kvs i' 0"
    using over_block_at [OF made, of block_SeekToFirst] block_iter.seek_to_first [OF ready] i kvs by (simp add: BlockIterator_def)
  show "\<exists>i'. it_SeekToLast (BlockIterator c) i = Ret i' \<and> iterator_at c key_ok kvs i' (length kvs - 1)"
    using over_block_at [OF made, of block_SeekToLast] block_iter.seek_to_last [OF ready] i kvs by (simp add: BlockIterator_def)
  assume "key_ok t"
  from block_iter.seek [OF ready this]
  show "\<exists>i'. it_Seek (BlockIterator c) t i = Ret i' \<and> iterator_at c key_ok kvs i' (lower_bound (Compare c) t kvs)"
    using over_block_at [OF made, of "\<lambda>b. block_Seek b (Compare c) t"] i kvs by (simp add: BlockIterator_def)
qed

section \<open>What the builder lays out\<close>

text \<open>What has been added, and the entries at which the key was stored in full.\<close>

definition built :: "bentry list \<Rightarrow> nat list \<Rightarrow> block_builder \<Rightarrow> bool" where
  "built es rs bb \<longleftrightarrow>
     bb_buffer bb = entries_of es \<and> bb_restarts bb = restart_offsets es rs \<and>
     bb_last_key bb = prev_key es (length es) \<and> entries_ok es \<and> restarts_ok es rs"

lemma take_common_prefix: "take (common_prefix_length a b) a = take (common_prefix_length a b) b"
  by (induction a b rule: common_prefix_length.induct) auto

lemma built_new: "built [] [0] new_BlockBuilder"
  by (auto simp: built_def new_BlockBuilder_def restart_offsets_def entries_ok_def restarts_ok_def prev_key_def)

lemma entries_ok_snoc: "entries_ok (es @ [e]) \<longleftrightarrow> entries_ok es \<and> shares (prev_key es (length es)) e"
proof -
  have "prev_key (es @ [e]) j = prev_key es j" if "j \<le> length es" for j using that by (auto simp: prev_key_def nth_append)
  then show ?thesis by (auto simp: entries_ok_def nth_append less_Suc_eq)
qed

lemma restart_offsets_snoc:
  assumes "restarts_ok es rs"
  shows "restart_offsets (es @ [e]) rs = restart_offsets es rs"
    and "restart_offsets (es @ [e]) (rs @ [length es]) = restart_offsets es rs @ [of_nat (length (entries_of es))]"
proof -
  have "r \<le> length es" if "r \<in> set rs" for r
  proof -
    obtain i where "i < length rs" "rs ! i = r" using \<open>r \<in> set rs\<close> by (auto simp: in_set_conv_nth)
    then show ?thesis using assms by (cases "i = 0") (auto simp: restarts_ok_def)
  qed
  then show "restart_offsets (es @ [e]) rs = restart_offsets es rs"
    by (simp add: restart_offsets_def entry_off_def)
  then show "restart_offsets (es @ [e]) (rs @ [length es]) = restart_offsets es rs @ [of_nat (length (entries_of es))]"
    by (simp add: restart_offsets_def entry_off_def)
qed

lemma restarts_ok_snoc:
  assumes "restarts_ok es rs"
  shows "restarts_ok (es @ [e]) rs" and "fst e = 0 \<Longrightarrow> restarts_ok (es @ [e]) (rs @ [length es])"
  using assms by (auto simp: restarts_ok_def nth_append less_Suc_eq)

lemma Add_built:
  assumes "built es rs bb"
  shows "\<exists>s rs'. built (es @ [(s, k, v)]) rs' (BlockBuilder_Add interval k v bb)"
proof (cases "bb_counter bb < interval")
  case True
  let ?s = "common_prefix_length (bb_last_key bb) k"
  have "shares (bb_last_key bb) (?s, k, v)"
    using common_prefix_le [of "bb_last_key bb" k] take_common_prefix [of "bb_last_key bb" k] by simp
  then have "built (es @ [(?s, k, v)]) rs (BlockBuilder_Add interval k v bb)"
    using True assms restart_offsets_snoc(1) [of es rs] restarts_ok_snoc(1) [of es rs] take_common_prefix [of "bb_last_key bb" k]
    by (simp add: built_def BlockBuilder_Add_def PutVarint32_def entries_ok_snoc prev_key_def)
  then show ?thesis by blast
next
  case False
  have "built (es @ [(0, k, v)]) (rs @ [length es]) (BlockBuilder_Add interval k v bb)"
    using False assms restart_offsets_snoc(2) [of es rs] restarts_ok_snoc(2) [of es rs]
    by (simp add: built_def BlockBuilder_Add_def PutVarint32_def entries_ok_snoc prev_key_def)
  then show ?thesis by blast
qed

definition add_all :: "nat \<Rightarrow> (bytes \<times> bytes) list \<Rightarrow> block_builder \<Rightarrow> block_builder" where
  "add_all interval kvs bb = fold (\<lambda>(k, v). BlockBuilder_Add interval k v) kvs bb"

lemma add_all_built: "built es rs bb \<Longrightarrow> \<exists>es' rs'. built es' rs' (add_all interval kvs bb) \<and> pairs_of es' = pairs_of es @ kvs"
proof (induction kvs arbitrary: es rs bb)
  case Nil
  then show ?case by (auto simp: add_all_def)
next
  case (Cons kv kvs)
  obtain k v where kv: "kv = (k, v)" by (cases kv)
  obtain s rs1 where "built (es @ [(s, k, v)]) rs1 (BlockBuilder_Add interval k v bb)" using Add_built [OF Cons.prems] by blast
  from Cons.IH [OF this] show ?case by (auto simp: add_all_def kv pairs_of_def)
qed

lemma Finish_built:
  assumes "built es rs bb"
  shows "fst (BlockBuilder_Finish bb) = block_bytes es rs" and "CurrentSizeEstimate bb = length (block_bytes es rs)"
proof -
  have "length (restart_offsets es rs) = length rs" by (simp add: restart_offsets_def)
  then show "fst (BlockBuilder_Finish bb) = block_bytes es rs" and "CurrentSizeEstimate bb = length (block_bytes es rs)"
    using assms
    by (simp_all add: built_def BlockBuilder_Finish_def Let_def fold_PutFixed32 [unfolded PutFixed32_def] PutFixed32_def block_bytes_def CurrentSizeEstimate_def)
qed

lemma NewIterator_layout:
  assumes "entries_ok es" and "restarts_ok es rs" and small: "length (block_bytes es rs) < 2 ^ 32"
  shows "\<exists>b. Block_NewIterator (new_Block (block_bytes es rs)) = OverBlock b (new_block_iter b) \<and> block_layout b es rs"
proof -
  have rs: "0 < length rs" using assms(2) by (simp add: restarts_ok_def)
  have offs: "length (restart_offsets es rs) = length rs" by (simp add: restart_offsets_def)
  have n: "length (block_bytes es rs) = length (entries_of es) + 4 * length rs + 4" by (simp add: block_bytes_def offs)
  have "length rs < 2 ^ 32" using small n by linarith
  then have num: "NumRestarts (block_bytes es rs) = length rs"
    using DecodeFixed32_Encode [of "of_nat (length rs)" "[]"]
    by (simp add: NumRestarts_def n) (simp add: block_bytes_def offs unat_of_nat_32)
  let ?b = "\<lparr>br_data = block_bytes es rs, br_restarts = length (entries_of es), br_num = length rs\<rparr>"
  have "Block_NewIterator (new_Block (block_bytes es rs)) = OverBlock ?b (new_block_iter ?b)"
    using rs n by (simp add: Block_NewIterator_def new_Block_def num Let_def)
  moreover have "block_layout ?b es rs" using assms by (simp add: block_layout_def)
  ultimately show ?thesis by blast
qed

text \<open>
  C14. A block built from entries in the order of the comparator, of less than 4 GiB and for any
  restart interval, is opened by its reader, whatever state without an error an operation starts from:
  reading from the first entry yields the entries, from the last one backwards the reverse, and
  from a target the entries whose keys are not before it. The estimate of the size is exact.
\<close>
theorem block_iterates:
  fixes kvs :: "(bytes \<times> bytes) list" and interval :: nat
  defines "bb \<equiv> add_all interval kvs new_BlockBuilder"
  assumes ord: "key_order (Compare c) key_ok" and sorted: "sorted_entries (Compare c) key_ok kvs"
    and small: "CurrentSizeEstimate bb < 2 ^ 32"
    and t: "key_ok t" and n: "length kvs < n"
  shows "CurrentSizeEstimate bb = length (fst (BlockBuilder_Finish bb)) \<and>
    (\<exists>b. Block_NewIterator (new_Block (fst (BlockBuilder_Finish bb))) = OverBlock b (new_block_iter b) \<and>
      (\<forall>i. bi_status i = OK \<longrightarrow> run_bind (it_SeekToFirst (BlockIter c b) i) (scan (BlockIter c b) n) = Ret kvs \<and>
           run_bind (it_SeekToLast (BlockIter c b) i) (scan_back (BlockIter c b) n) = Ret (rev kvs) \<and>
           run_bind (it_Seek (BlockIter c b) t i) (scan (BlockIter c b) n) = Ret (dropWhile (\<lambda>(k, _). Compare c k t < 0) kvs)))"
proof -
  obtain es rs where built: "built es rs bb" and pairs: "pairs_of es = kvs"
    using add_all_built [OF built_new, of interval kvs] by (auto simp: bb_def pairs_of_def)
  note fin = Finish_built [OF built]
  obtain b where b: "Block_NewIterator (new_Block (block_bytes es rs)) = OverBlock b (new_block_iter b)" "block_layout b es rs"
    using NewIterator_layout [of es rs] built small fin(2) by (auto simp: built_def)
  then have "block_made c key_ok b es rs" using ord sorted by (simp add: block_made_def pairs)
  note ready = conjI [OF this]
  from block_iter.scan_all [OF ready] block_iter.scan_back_all [OF ready] block_iter.scan_from [OF ready t] b(1)
  show ?thesis using n fin pairs by fastforce
qed

theorem block_iterates_witness:
  "\<exists>b. Block_NewIterator (new_Block (fst (BlockBuilder_Finish (add_all 2
      [(ascii ''app'', [1]), (ascii ''apple'', [2]), (ascii ''b'', [3])] new_BlockBuilder)))) = OverBlock b (new_block_iter b) \<and>
    (\<forall>i. bi_status i = OK \<longrightarrow> run_bind (it_Seek (BlockIter BytewiseComparator b) (ascii ''apq'') i) (scan (BlockIter BytewiseComparator b) 4)
       = Ret [(ascii ''b'', [3])])"
proof -
  let ?kvs = "[(ascii ''app'', [1]), (ascii ''apple'', [2]), (ascii ''b'', [3 :: 8 word])]"
  have ord: "key_order (Compare BytewiseComparator) (\<lambda>_. True)" by (rule bytewise.key_order_axioms)
  have "sorted_entries (Compare BytewiseComparator) (\<lambda>_. True) ?kvs" by (simp add: sorted_entries_def ascii_def)
  moreover have "CurrentSizeEstimate (add_all 2 ?kvs new_BlockBuilder) < 2 ^ 32"
    by (simp add: add_all_def BlockBuilder_Add_def new_BlockBuilder_def CurrentSizeEstimate_def ascii_def PutVarint32_def
        EncodeVarint32_def)
  ultimately show ?thesis
    using block_iterates [OF ord, where kvs = ?kvs and interval = 2 and t = "ascii ''apq''" and n = 4] by (auto simp: ascii_def)
qed

section \<open>Corrupt blocks\<close>



end
