(* ===== verification/LdbTableBuilder.thy ===== *)
theory LdbTableBuilder
  imports LdbTableFormat LdbBlock LdbFilterBlock
begin

text \<open>
  LevelDB, \<^verbatim>\<open>leveldb/options.h\<close> and \<^verbatim>\<open>table/table_builder.cc\<close>: writing a table file. The
  builder collects entries into a data block; a full block is written, and its index entry waits
  for the next key, which decides how short the separator can be. \<open>Finish\<close> writes the filter block,
  the metaindex, the index and the footer. The lemmas describe the file by the list of its blocks.
\<close>

section \<open>The builder\<close>

text \<open>A filter policy with its name; the comparator and the compression as the code has them.\<close>

record Options =
  opt_comparator :: Comparator
  paranoid_checks :: bool
  opt_block_size :: nat
  block_restart_interval :: nat
  compression :: "8 word"
  opt_filter_policy :: "(bytes \<times> FilterPolicy) option"

record 'f table_builder =
  tb_options :: Options
  tb_file :: 'f
  tb_offset :: "64 word"
  tb_status :: Status
  tb_data_block :: block_builder
  tb_index_block :: block_builder
  tb_last_key :: bytes
  tb_num_entries :: nat
  tb_closed :: bool
  tb_filter :: "filter_builder option"
  tb_pending :: bool
  tb_pending_handle :: BlockHandle

definition new_TableBuilder :: "Options \<Rightarrow> 'f \<Rightarrow> 'f table_builder" where
  "new_TableBuilder options file =
     \<lparr>tb_options = options, tb_file = file, tb_offset = 0, tb_status = OK, tb_data_block = new_BlockBuilder,
      tb_index_block = new_BlockBuilder, tb_last_key = [], tb_num_entries = 0, tb_closed = False,
      tb_filter = map_option (\<lambda>(_, p). StartBlock p 0 new_FilterBlockBuilder) (opt_filter_policy options),
      tb_pending = False, tb_pending_handle = new_BlockHandle\<rparr>"

text \<open>Whether the comparator is still the same object is a parameter.\<close>

definition ChangeOptions :: "bool \<Rightarrow> Options \<Rightarrow> 'f table_builder \<Rightarrow> Status \<times> 'f table_builder" where
  "ChangeOptions same_comparator options r =
     (if \<not> same_comparator then (InvalidArgument (ascii ''changing comparator while building table'') [], r)
      else (OK, r\<lparr>tb_options := options\<rparr>))"

definition WriteRawBlock ::
  "'f WritableFile \<Rightarrow> bytes \<Rightarrow> 8 word \<Rightarrow> 'f table_builder \<Rightarrow> BlockHandle \<times> 'f table_builder" where
  "WriteRawBlock wfile block_contents t r =
     (let handle = \<lparr>bh_offset = tb_offset r, bh_size = of_nat (length block_contents)\<rparr>;
          (s, f) = wf_append wfile block_contents (tb_file r);
          r = r\<lparr>tb_status := s, tb_file := f\<rparr> in
      if ok s then
        let crc = crc_value 0 block_contents;
            crc = Extend 0 crc [t];
            trailer = [t] @ EncodeFixed32 (Mask crc);
            (s, f) = wf_append wfile trailer (tb_file r);
            r = r\<lparr>tb_status := s, tb_file := f\<rparr> in
        (handle, if ok s then r\<lparr>tb_offset := tb_offset r + of_nat (length block_contents + kBlockTrailerSize)\<rparr> else r)
      else (handle, r))"

text \<open>The block is reset afterwards, which the callers do with their own.\<close>

definition compressed :: "Snappy \<Rightarrow> 8 word \<Rightarrow> bytes \<Rightarrow> bytes \<times> 8 word" where
  "compressed z t raw =
     (if t = kNoCompression then (raw, t)
      else if t = kSnappyCompression then
        (case Snappy_Compress z raw of
           Some out \<Rightarrow> if length out < length raw - length raw div 8 then (out, t) else (raw, kNoCompression)
         | None \<Rightarrow> (raw, kNoCompression))
      else ([], t))"

definition WriteBlock ::
  "Snappy \<Rightarrow> 'f WritableFile \<Rightarrow> block_builder \<Rightarrow> 'f table_builder \<Rightarrow> BlockHandle \<times> block_builder \<times> 'f table_builder" where
  "WriteBlock z wfile block r =
     (let (raw, block) = BlockBuilder_Finish block;
          (block_contents, t) = compressed z (compression (tb_options r)) raw;
          (handle, r) = WriteRawBlock wfile block_contents t r in
      (handle, BlockBuilder_Reset block, r))"

definition Flush :: "Snappy \<Rightarrow> 'f WritableFile \<Rightarrow> 'f table_builder \<Rightarrow> 'f table_builder" where
  "Flush z wfile r =
     (if \<not> ok (tb_status r) \<or> BlockBuilder_empty (tb_data_block r) then r
      else
        let (handle, block, r) = WriteBlock z wfile (tb_data_block r) r;
            r = r\<lparr>tb_data_block := block, tb_pending_handle := handle\<rparr>;
            r = (if ok (tb_status r) then
                   let (s, f) = wf_flush wfile (tb_file r) in r\<lparr>tb_pending := True, tb_status := s, tb_file := f\<rparr>
                 else r) in
        case (opt_filter_policy (tb_options r), tb_filter r) of
          (Some (_, p), Some fb) \<Rightarrow> r\<lparr>tb_filter := Some (StartBlock p (tb_offset r) fb)\<rparr>
        | _ \<Rightarrow> r)"

text \<open>Emitting the index entry of the last block with a given key.\<close>

definition add_index_entry :: "bytes \<Rightarrow> 'f table_builder \<Rightarrow> 'f table_builder" where
  "add_index_entry key r =
     r\<lparr>tb_last_key := key,
       tb_index_block := BlockBuilder_Add 1 key (BlockHandle_EncodeTo (tb_pending_handle r) []) (tb_index_block r),
       tb_pending := False\<rparr>"

definition TableBuilder_Add ::
  "Snappy \<Rightarrow> 'f WritableFile \<Rightarrow> bytes \<Rightarrow> bytes \<Rightarrow> 'f table_builder \<Rightarrow> 'f table_builder" where
  "TableBuilder_Add z wfile key value r =
     (if \<not> ok (tb_status r) then r
      else
        let r = (if tb_pending r
                 then add_index_entry (FindShortestSeparator (opt_comparator (tb_options r)) (tb_last_key r) key) r
                 else r);
            r = r\<lparr>tb_filter := map_option (AddKey key) (tb_filter r), tb_last_key := key,
                  tb_num_entries := tb_num_entries r + 1,
                  tb_data_block := BlockBuilder_Add (block_restart_interval (tb_options r)) key value (tb_data_block r)\<rparr> in
        if opt_block_size (tb_options r) \<le> CurrentSizeEstimate (tb_data_block r) then Flush z wfile r else r)"

definition write_filter_block :: "'f WritableFile \<Rightarrow> 'f table_builder \<Rightarrow> BlockHandle \<times> 'f table_builder" where
  "write_filter_block wfile r =
     (case (opt_filter_policy (tb_options r), tb_filter r) of
        (Some (_, p), Some fb) \<Rightarrow>
          if ok (tb_status r) then WriteRawBlock wfile (FilterFinish p fb) kNoCompression r else (new_BlockHandle, r)
      | _ \<Rightarrow> (new_BlockHandle, r))"

definition filter_key :: "bytes \<Rightarrow> bytes" where
  "filter_key name = ascii ''filter.'' @ name"

definition write_metaindex_block ::
  "Snappy \<Rightarrow> 'f WritableFile \<Rightarrow> BlockHandle \<Rightarrow> 'f table_builder \<Rightarrow> BlockHandle \<times> 'f table_builder" where
  "write_metaindex_block z wfile filter_handle r =
     (if ok (tb_status r) then
        let meta = (case (opt_filter_policy (tb_options r), tb_filter r) of
                      (Some (name, _), Some _) \<Rightarrow>
                        BlockBuilder_Add (block_restart_interval (tb_options r)) (filter_key name)
                          (BlockHandle_EncodeTo filter_handle []) new_BlockBuilder
                    | _ \<Rightarrow> new_BlockBuilder);
            (handle, _, r) = WriteBlock z wfile meta r in
        (handle, r)
      else (new_BlockHandle, r))"

definition write_index_block ::
  "Snappy \<Rightarrow> 'f WritableFile \<Rightarrow> 'f table_builder \<Rightarrow> BlockHandle \<times> 'f table_builder" where
  "write_index_block z wfile r =
     (if ok (tb_status r) then
        let r = (if tb_pending r
                 then add_index_entry (FindShortSuccessor (opt_comparator (tb_options r)) (tb_last_key r)) r
                 else r);
            (handle, block, r) = WriteBlock z wfile (tb_index_block r) r in
        (handle, r\<lparr>tb_index_block := block\<rparr>)
      else (new_BlockHandle, r))"

definition write_footer :: "'f WritableFile \<Rightarrow> BlockHandle \<Rightarrow> BlockHandle \<Rightarrow> 'f table_builder \<Rightarrow> 'f table_builder" where
  "write_footer wfile meta index r =
     (if ok (tb_status r) then
        let footer_encoding = Footer_EncodeTo \<lparr>metaindex_handle = meta, index_handle = index\<rparr> [];
            (s, f) = wf_append wfile footer_encoding (tb_file r);
            r = r\<lparr>tb_status := s, tb_file := f\<rparr> in
        if ok s then r\<lparr>tb_offset := tb_offset r + of_nat (length footer_encoding)\<rparr> else r
      else r)"

definition TableBuilder_Finish :: "Snappy \<Rightarrow> 'f WritableFile \<Rightarrow> 'f table_builder \<Rightarrow> Status \<times> 'f table_builder" where
  "TableBuilder_Finish z wfile r =
     (let r = (Flush z wfile r)\<lparr>tb_closed := True\<rparr>;
          (filter_block_handle, r) = write_filter_block wfile r;
          (metaindex_block_handle, r) = write_metaindex_block z wfile filter_block_handle r;
          (index_block_handle, r) = write_index_block z wfile r;
          r = write_footer wfile metaindex_block_handle index_block_handle r in
      (tb_status r, r))"

definition Abandon :: "'f table_builder \<Rightarrow> 'f table_builder" where
  "Abandon r = r\<lparr>tb_closed := True\<rparr>"

definition NumEntries :: "'f table_builder \<Rightarrow> nat" where "NumEntries r = tb_num_entries r"
definition FileSize :: "'f table_builder \<Rightarrow> 64 word" where "FileSize r = tb_offset r"

section \<open>What is in the file\<close>

text \<open>A block of the file: its offset, its handle and its entries.\<close>

type_synonym placed_block = "nat \<times> BlockHandle \<times> (bytes \<times> bytes) list"

definition stored_at :: "Snappy \<Rightarrow> bytes \<Rightarrow> nat \<Rightarrow> BlockHandle \<Rightarrow> bytes \<Rightarrow> bool" where
  "stored_at z F off h raw \<longleftrightarrow>
     (\<exists>before data t behind. F = before @ raw_block data t @ behind \<and> length before = off \<and>
        h = \<lparr>bh_offset = of_nat off, bh_size = of_nat (length data)\<rparr> \<and> stores z data t raw)"

definition block_stored :: "Snappy \<Rightarrow> bytes \<Rightarrow> nat \<Rightarrow> BlockHandle \<Rightarrow> (bytes \<times> bytes) list \<Rightarrow> bool" where
  "block_stored z F off h kvs \<longleftrightarrow>
     (\<exists>es rs. stored_at z F off h (block_bytes es rs) \<and> pairs_of es = kvs \<and> entries_ok es \<and> restarts_ok es rs)"

definition blocks_in :: "Snappy \<Rightarrow> bytes \<Rightarrow> placed_block list \<Rightarrow> bool" where
  "blocks_in z F bs \<longleftrightarrow>
     sorted_wrt (<) (map fst bs) \<and> (\<forall>(off, h, kvs) \<in> set bs. off < length F \<and> kvs \<noteq> [] \<and> block_stored z F off h kvs)"

text \<open>The keys of the index lie between the blocks.\<close>

definition before_all :: "Comparator \<Rightarrow> (bytes \<times> bytes) list \<Rightarrow> (bytes \<times> bytes) list \<Rightarrow> bool" where
  "before_all c idx kvs \<longleftrightarrow> (\<forall>s \<in> set idx. \<forall>x \<in> set kvs. Compare c (fst s) (fst x) < 0)"

definition separates :: "Comparator \<Rightarrow> (bytes \<Rightarrow> bool) \<Rightarrow> (bytes \<times> bytes) list \<Rightarrow> (bytes \<times> bytes) list list \<Rightarrow> bool" where
  "separates c key_ok idx kvss \<longleftrightarrow>
     (\<forall>j < length idx. key_ok (fst (idx ! j)) \<and> (\<forall>x \<in> set (kvss ! j). Compare c (fst x) (fst (idx ! j)) \<le> 0) \<and>
        before_all c [idx ! j] (concat (drop (Suc j) kvss)))"

text \<open>Each key of the index is the separator of its block and the entry that follows it, if there is one.\<close>

definition shortest :: "Comparator \<Rightarrow> (bytes \<times> bytes) list \<Rightarrow> (bytes \<times> bytes) list list \<Rightarrow> (bytes \<times> bytes) list \<Rightarrow> bool" where
  "shortest c idx kvss cur \<longleftrightarrow>
     (\<forall>j < length idx. \<forall>x rest. concat (drop (Suc j) kvss) @ cur = x # rest \<longrightarrow>
        fst (idx ! j) = FindShortestSeparator c (fst (last (kvss ! j))) (fst x))"

definition filter_blocks :: "nat \<Rightarrow> placed_block list \<Rightarrow> (bytes \<times> bytes) list \<Rightarrow> (64 word \<times> bytes list) list" where
  "filter_blocks n bs cur = map (\<lambda>(off, _, kvs). (of_nat off, map fst kvs)) bs @ [(of_nat n, map fst cur)]"

abbreviation kvs_of :: "placed_block list \<Rightarrow> (bytes \<times> bytes) list list" where
  "kvs_of bs \<equiv> map (\<lambda>b. snd (snd b)) bs"

definition handles_of :: "(bytes \<times> bytes) list \<Rightarrow> placed_block list \<Rightarrow> bool" where
  "handles_of idx bs \<longleftrightarrow> (\<forall>j < length idx. snd (idx ! j) = BlockHandle_EncodeTo (fst (snd (bs ! j))) [])"

definition filters_of :: "Options \<Rightarrow> nat \<Rightarrow> placed_block list \<Rightarrow> (bytes \<times> bytes) list \<Rightarrow> filter_builder option" where
  "filters_of opts n bs cur =
     map_option (\<lambda>(_, p). build_filters p (filter_blocks n bs cur) new_FilterBlockBuilder) (opt_filter_policy opts)"

definition holds_entries :: "block_builder \<Rightarrow> (bytes \<times> bytes) list \<Rightarrow> bool" where
  "holds_entries b kvs \<longleftrightarrow> (\<exists>es rs. built es rs b \<and> pairs_of es = kvs)"

definition known_compression :: "Options \<Rightarrow> bool" where
  "known_compression opts \<longleftrightarrow> compression opts \<in> {kNoCompression, kSnappyCompression}"

text \<open>The blocks, the index over them, the metaindex that leads to the filter block, and the footer.\<close>

definition table_file :: "Snappy \<Rightarrow> Options \<Rightarrow> (bytes \<Rightarrow> bool) \<Rightarrow> bytes \<Rightarrow> placed_block list \<Rightarrow> (bytes \<times> bytes) list \<Rightarrow> bool" where
  "table_file z opts key_ok F bs idx \<longleftrightarrow>
     blocks_in z F bs \<and> length idx = length bs \<and> handles_of idx bs \<and>
     separates (opt_comparator opts) key_ok idx (kvs_of bs) \<and> shortest (opt_comparator opts) idx (kvs_of bs) [] \<and>
     sorted_entries (Compare (opt_comparator opts)) key_ok (concat (kvs_of bs)) \<and>
     (\<exists>body mh ih moff ioff.
        F = body @ Footer_EncodeTo \<lparr>metaindex_handle = mh, index_handle = ih\<rparr> [] \<and>
        (\<forall>b \<in> set bs. fst b < moff) \<and> moff < ioff \<and> ioff < length F \<and> block_stored z F ioff ih idx \<and>
        (case opt_filter_policy opts of
           None \<Rightarrow> block_stored z F moff mh []
         | Some (name, p) \<Rightarrow>
             (\<exists>n foff fh. block_stored z F moff mh [(filter_key name, BlockHandle_EncodeTo fh [])] \<and>
                stored_at z F foff fh (FilterFinish p (build_filters p (filter_blocks n bs []) new_FilterBlockBuilder)) \<and>
                (\<forall>b \<in> set bs. fst b < n) \<and> n < length F)))"

definition add_entries :: "Snappy \<Rightarrow> 'f WritableFile \<Rightarrow> (bytes \<times> bytes) list \<Rightarrow> 'f table_builder \<Rightarrow> 'f table_builder" where
  "add_entries z wfile kvs r = fold (\<lambda>(k, v). TableBuilder_Add z wfile k v) kvs r"

lemma before_all_app: "before_all c idx (xs @ ys) \<longleftrightarrow> before_all c idx xs \<and> before_all c idx ys"
  by (auto simp: before_all_def)

lemma before_all_nth: "before_all c idx xs \<longleftrightarrow> (\<forall>j < length idx. before_all c [idx ! j] xs)"
  by (simp add: before_all_def all_set_conv_all_nth)

lemma separates_append:
  "length idx \<le> length kvss \<Longrightarrow>
   separates c key_ok idx (kvss @ rest) \<longleftrightarrow> separates c key_ok idx kvss \<and> before_all c idx (concat rest)"
  unfolding before_all_nth [of c idx] by (simp add: separates_def before_all_app nth_append del: concat_append)
    (simp add: before_all_app, blast)

lemma separates_snoc:
  "separates c key_ok (idx @ [s]) kvss \<longleftrightarrow>
     separates c key_ok idx kvss \<and> key_ok (fst s) \<and> (\<forall>x \<in> set (kvss ! length idx). Compare c (fst x) (fst s) \<le> 0) \<and>
     before_all c [s] (concat (drop (Suc (length idx)) kvss))"
  by (auto simp: separates_def nth_append less_Suc_eq)

lemma shortest_append:
  assumes "length idx \<le> length kvss"
  shows "shortest c idx (kvss @ [cur]) [] = shortest c idx kvss cur"
  using assms by (auto simp: shortest_def nth_append)

text \<open>What follows a block does not change when more entries follow.\<close>

lemma shortest_more:
  assumes s: "shortest c idx kvss cur" and follow: "\<And>j. j < length idx \<Longrightarrow> concat (drop (Suc j) kvss) @ cur \<noteq> []"
  shows "shortest c idx kvss (cur @ behind)"
  unfolding shortest_def
proof (intro allI impI)
  fix j x rest
  assume j: "j < length idx" and x: "concat (drop (Suc j) kvss) @ cur @ behind = x # rest"
  obtain y rest' where y: "concat (drop (Suc j) kvss) @ cur = y # rest'" using follow [OF j] by (cases "concat (drop (Suc j) kvss) @ cur") auto
  then have "(concat (drop (Suc j) kvss) @ cur) @ behind = y # rest' @ behind" by simp
  then have "y = x" using x by simp
  then show "fst (idx ! j) = FindShortestSeparator c (fst (last (kvss ! j))) (fst x)"
    using s j y unfolding shortest_def by blast
qed

lemma shortest_snoc:
  "shortest c (idx @ [s]) kvss cur \<longleftrightarrow>
     shortest c idx kvss cur \<and> (\<forall>x rest. concat (drop (Suc (length idx)) kvss) @ cur = x # rest \<longrightarrow>
       fst s = FindShortestSeparator c (fst (last (kvss ! length idx))) (fst x))"
  by (auto simp: shortest_def nth_append less_Suc_eq)

lemma stored_at_append: "stored_at z F off h raw \<Longrightarrow> stored_at z (F @ G) off h raw"
  unfolding stored_at_def by (elim exE conjE) (metis append_assoc)

lemma block_stored_append: "block_stored z F off h kvs \<Longrightarrow> block_stored z (F @ G) off h kvs"
  using stored_at_append by (fastforce simp: block_stored_def)

lemma blocks_in_append: "blocks_in z F bs \<Longrightarrow> blocks_in z (F @ G) bs"
  using block_stored_append by (fastforce simp: blocks_in_def)

lemma blocks_in_snoc:
  assumes "blocks_in z F bs" and "block_stored z (F @ G) (length F) h kvs" and "kvs \<noteq> []" and "G \<noteq> []"
  shows "blocks_in z (F @ G) (bs @ [(length F, h, kvs)])"
proof -
  have "\<forall>b \<in> set bs. fst b < length F" using assms(1) by (auto simp: blocks_in_def)
  then show ?thesis
    using blocks_in_append [OF assms(1), of G] assms by (auto simp: blocks_in_def sorted_wrt_append)
qed

lemma compressed_stores: "known_compression opts \<Longrightarrow> compressed z (compression opts) raw = (data, t) \<Longrightarrow> stores z data t raw"
  by (auto simp: known_compression_def compressed_def stores_def kNoCompression_def kSnappyCompression_def
      split: option.splits if_splits)

lemma BlockBuilder_Reset_new: "BlockBuilder_Reset b = new_BlockBuilder"
  by (cases b) (simp add: BlockBuilder_Reset_def new_BlockBuilder_def)

lemma holds_new: "holds_entries new_BlockBuilder []"
  using built_new by (auto simp: holds_entries_def pairs_of_def)

lemma holds_Add: "holds_entries b kvs \<Longrightarrow> holds_entries (BlockBuilder_Add n k v b) (kvs @ [(k, v)])"
  using Add_built by (fastforce simp: holds_entries_def pairs_of_def)

lemma holds_empty: "holds_entries b kvs \<Longrightarrow> BlockBuilder_empty b \<longleftrightarrow> kvs = []"
proof -
  assume "holds_entries b kvs"
  then obtain es rs where "built es rs b" "pairs_of es = kvs" by (auto simp: holds_entries_def)
  moreover have "enc_entry e \<noteq> []" for e using enc_entry_pos [of e] by auto
  ultimately show ?thesis by (cases es) (auto simp: BlockBuilder_empty_def built_def pairs_of_def)
qed

lemma filters_AddKey: "map_option (AddKey k) (filters_of opts n bs cur) = filters_of opts n bs (cur @ [(k, v)])"
  by (cases "opt_filter_policy opts") (auto simp: filters_of_def filter_blocks_def build_filters_def)

lemma filter_blocks_StartBlock:
  "build_filters p (filter_blocks n (bs @ [(n', h, cur)]) []) fb = StartBlock p (of_nat n) (build_filters p (filter_blocks n' bs cur) fb)"
  by (simp add: filter_blocks_def build_filters_def)

section \<open>The invariant of the builder\<close>

context writable_file
begin

definition good :: "'f table_builder \<Rightarrow> bytes \<Rightarrow> bool" where
  "good r F \<longleftrightarrow> tb_status r = OK \<and> contents (tb_file r) = F \<and> tb_offset r = of_nat (length F)"

lemma WriteRawBlock_good:
  assumes "good r F"
  shows "\<exists>f. WriteRawBlock wfile data t r =
      (\<lparr>bh_offset = of_nat (length F), bh_size = of_nat (length data)\<rparr>,
       r\<lparr>tb_file := f, tb_offset := of_nat (length (F @ raw_block data t))\<rparr>) \<and> contents f = F @ raw_block data t"
proof -
  obtain f1 where f1: "wf_append wfile data (tb_file r) = (OK, f1)" "contents f1 = F @ data"
    using append assms by (metis good_def)
  let ?trailer = "[t] @ EncodeFixed32 (Mask (Extend 0 (crc_value 0 data) [t]))"
  obtain f2 where f2: "wf_append wfile ?trailer f1 = (OK, f2)" "contents f2 = F @ raw_block data t"
    using append f1(2) by (metis append_assoc raw_block_def)
  have "r\<lparr>tb_status := OK, tb_file := f1, tb_status := OK, tb_file := f2, tb_offset := x\<rparr> = r\<lparr>tb_file := f2, tb_offset := x\<rparr>" for x
    using assms by (cases r) (simp add: good_def)
  then show ?thesis
    using f1(1) f2 assms by (intro exI [of _ f2]) (simp add: WriteRawBlock_def Let_def good_def)
qed

lemma WriteBlock_good:
  assumes good: "good r F" and b: "holds_entries b kvs" and opts: "known_compression (tb_options r)"
  shows "\<exists>h f G. WriteBlock z wfile b r = (h, new_BlockBuilder, r\<lparr>tb_file := f, tb_offset := of_nat (length (F @ G))\<rparr>) \<and>
    contents f = F @ G \<and> G \<noteq> [] \<and> block_stored z (F @ G) (length F) h kvs"
proof -
  obtain es rs where built: "built es rs b" and kvs: "pairs_of es = kvs" using b by (auto simp: holds_entries_def)
  obtain data t where c: "compressed z (compression (tb_options r)) (block_bytes es rs) = (data, t)" by fastforce
  obtain f where f: "WriteRawBlock wfile data t r = (\<lparr>bh_offset = of_nat (length F), bh_size = of_nat (length data)\<rparr>,
       r\<lparr>tb_file := f, tb_offset := of_nat (length (F @ raw_block data t))\<rparr>)" "contents f = F @ raw_block data t"
    using WriteRawBlock_good [OF good] by blast
  have "stored_at z (F @ raw_block data t) (length F) \<lparr>bh_offset = of_nat (length F), bh_size = of_nat (length data)\<rparr> (block_bytes es rs)"
    using compressed_stores [OF opts c] unfolding stored_at_def
    by (intro exI [of _ F] exI [of _ data] exI [of _ t] exI [of _ "[]"]) simp
  then have "block_stored z (F @ raw_block data t) (length F) \<lparr>bh_offset = of_nat (length F), bh_size = of_nat (length data)\<rparr> kvs"
    using built kvs by (auto simp: block_stored_def built_def)
  moreover have "raw_block data t \<noteq> []" by (simp add: raw_block_def)
  moreover have "WriteBlock z wfile b r = (\<lparr>bh_offset = of_nat (length F), bh_size = of_nat (length data)\<rparr>, new_BlockBuilder,
      r\<lparr>tb_file := f, tb_offset := of_nat (length (F @ raw_block data t))\<rparr>)"
    using Finish_built(1) [OF built] c f(1)
    by (cases "BlockBuilder_Finish b") (simp add: WriteBlock_def Let_def BlockBuilder_Reset_new)
  ultimately show ?thesis using f(2) by blast
qed

definition emitted :: "Snappy \<Rightarrow> Options \<Rightarrow> (bytes \<Rightarrow> bool) \<Rightarrow> 'f table_builder \<Rightarrow> bytes \<Rightarrow> placed_block list \<Rightarrow>
    (bytes \<times> bytes) list \<Rightarrow> (bytes \<times> bytes) list \<Rightarrow> bool" where
  "emitted z opts key_ok r F bs idx cur \<longleftrightarrow>
     good r F \<and> tb_options r = opts \<and> blocks_in z F bs \<and>
     holds_entries (tb_data_block r) cur \<and> holds_entries (tb_index_block r) idx \<and>
     length bs = length idx + (if tb_pending r then 1 else 0) \<and>
     (tb_pending r \<longrightarrow> tb_pending_handle r = fst (snd (last bs))) \<and> (tb_pending r \<longleftrightarrow> cur = [] \<and> bs \<noteq> []) \<and>
     handles_of idx bs \<and> separates (opt_comparator opts) key_ok idx (kvs_of bs) \<and>
     before_all (opt_comparator opts) idx cur \<and> shortest (opt_comparator opts) idx (kvs_of bs) cur \<and>
     sorted_entries (Compare (opt_comparator opts)) key_ok (concat (kvs_of bs) @ cur) \<and>
     (concat (kvs_of bs) @ cur \<noteq> [] \<longrightarrow> tb_last_key r = fst (last (concat (kvs_of bs) @ cur))) \<and>
     tb_filter r = filters_of opts (length F) bs cur"

lemma emitted_new:
  assumes "contents f = []"
  shows "emitted z opts key_ok (new_TableBuilder opts f) [] [] [] []"
  using assms
  by (simp add: emitted_def good_def new_TableBuilder_def blocks_in_def holds_new handles_of_def separates_def shortest_def before_all_def sorted_entries_def
      filters_of_def filter_blocks_def build_filters_def option.map_comp comp_def case_prod_beta split: option.split)

lemma Flush_empty: "emitted z opts key_ok r F bs idx [] \<Longrightarrow> Flush z wfile r = r"
  using holds_empty [of "tb_data_block r" "[]"] by (simp add: emitted_def Flush_def)

lemma Flush_emitted:
  assumes inv: "emitted z opts key_ok r F bs idx cur" and cur: "cur \<noteq> []" and opts: "known_compression opts"
  shows "\<exists>F' h. emitted z opts key_ok (Flush z wfile r) F' (bs @ [(length F, h, cur)]) idx []"
proof -
  have b: "holds_entries (tb_data_block r) cur" and good: "good r F" and o: "tb_options r = opts"
    using inv by (simp_all add: emitted_def)
  obtain h f G where w: "WriteBlock z wfile (tb_data_block r) r = (h, new_BlockBuilder, r\<lparr>tb_file := f, tb_offset := of_nat (length (F @ G))\<rparr>)"
      "contents f = F @ G" "G \<noteq> []" "block_stored z (F @ G) (length F) h cur"
    using WriteBlock_good [OF good b] opts o by blast
  obtain f' where f': "wf_flush wfile f = (OK, f')" "contents f' = F @ G" using flush w(2) by metis
  let ?r = "r\<lparr>tb_file := f', tb_offset := of_nat (length (F @ G)), tb_data_block := new_BlockBuilder, tb_pending_handle := h,
      tb_pending := True, tb_status := OK, tb_filter := filters_of opts (length (F @ G)) (bs @ [(length F, h, cur)]) []\<rparr>"
  have "\<not> BlockBuilder_empty (tb_data_block r)" using holds_empty [OF b] cur by simp
  moreover have "tb_status r = OK" using good by (simp add: good_def)
  moreover have "tb_filter r = filters_of opts (length F) bs cur" using inv by (simp add: emitted_def)
  ultimately have "Flush z wfile r = ?r"
    using w(1) f'(1) o by (cases r) (auto simp: Flush_def Let_def filter_blocks_StartBlock filters_of_def split: option.split)
  moreover have "emitted z opts key_ok ?r (F @ G) (bs @ [(length F, h, cur)]) idx []"
    using inv cur f'(2) blocks_in_snoc [OF _ w(4) cur w(3), of bs] holds_new
      separates_append [of idx "kvs_of bs" "opt_comparator opts" key_ok "[cur]"]
      shortest_append [of idx "kvs_of bs" "opt_comparator opts" cur]
    by (auto simp: emitted_def good_def handles_of_def nth_append before_all_def)
  ultimately show ?thesis by metis
qed

text \<open>The index entry of the last block, with a key between it and what follows.\<close>

lemma add_index_entry_emitted:
  assumes inv: "emitted z opts key_ok r F bs idx []" and pending: "tb_pending r"
    and key: "key_ok key" "\<forall>x \<in> set (kvs_of bs ! length idx). Compare (opt_comparator opts) (fst x) key \<le> 0"
  shows "holds_entries (tb_index_block (add_index_entry key r)) (idx @ [(key, BlockHandle_EncodeTo (fst (snd (bs ! length idx))) [])])"
    and "handles_of (idx @ [(key, BlockHandle_EncodeTo (fst (snd (bs ! length idx))) [])]) bs"
    and "separates (opt_comparator opts) key_ok (idx @ [(key, BlockHandle_EncodeTo (fst (snd (bs ! length idx))) [])]) (kvs_of bs)"
    and "length bs = Suc (length idx)"
proof -
  show len: "length bs = Suc (length idx)" using inv pending by (simp add: emitted_def)
  then have "last bs = bs ! length idx" by (cases bs rule: rev_cases) (simp_all add: nth_append)
  then show "holds_entries (tb_index_block (add_index_entry key r)) (idx @ [(key, BlockHandle_EncodeTo (fst (snd (bs ! length idx))) [])])"
    using inv pending holds_Add by (simp add: emitted_def add_index_entry_def)
  show "handles_of (idx @ [(key, BlockHandle_EncodeTo (fst (snd (bs ! length idx))) [])]) bs"
    using inv by (auto simp: emitted_def handles_of_def nth_append less_Suc_eq)
  show "separates (opt_comparator opts) key_ok (idx @ [(key, BlockHandle_EncodeTo (fst (snd (bs ! length idx))) [])]) (kvs_of bs)"
    using inv key len by (simp add: emitted_def separates_snoc before_all_def)
qed

end

lemma sorted_entries_last:
  assumes ord: "key_order (Compare c) key_ok" and sorted: "sorted_entries (Compare c) key_ok (xs @ [y])"
    and x: "x \<in> set xs"
  shows "Compare c (fst x) (fst (last xs)) \<le> 0" and "Compare c (fst (last xs)) (fst y) < 0"
proof -
  obtain ys z where xs: "xs = ys @ [z]" using x by (cases xs rule: rev_cases) auto
  have less: "\<forall>x \<in> set ys. Compare c (fst x) (fst z) < 0" and "Compare c (fst z) (fst y) < 0" and "key_ok (fst z)"
    using sorted by (auto simp: xs sorted_entries_def sorted_wrt_append)
  then show "Compare c (fst x) (fst (last xs)) \<le> 0" "Compare c (fst (last xs)) (fst y) < 0"
    using x key_order.compare_refl [OF ord, of "fst z"] by (auto simp: xs)
qed

text \<open>The separators found so far are before a key that follows all others.\<close>

lemma before_all_snoc:
  assumes ord: "key_order (Compare c) key_ok" and sep: "separates c key_ok idx kvss" "before_all c idx cur"
    and sorted: "sorted_entries (Compare c) key_ok ((concat kvss @ cur) @ [y])"
    and idx: "length idx \<le> length kvss" "cur = [] \<Longrightarrow> length idx < length kvss \<or> idx = []" "\<forall>kvs \<in> set kvss. kvs \<noteq> []"
  shows "before_all c idx (cur @ [y])"
proof -
  have "Compare c (fst (idx ! j)) (fst y) < 0" if j: "j < length idx" for j
  proof -
    obtain x where x: "x \<in> set (concat kvss @ cur)" "Compare c (fst (idx ! j)) (fst x) < 0"
    proof (cases "cur = []")
      case True
      then have "length idx < length kvss" using idx(2) j by auto
      then have "last kvss \<in> set (drop (Suc j) kvss)" "last kvss \<in> set kvss"
        using j last_drop [of "Suc j" kvss] last_in_set [of "drop (Suc j) kvss"] by (auto dest: in_set_dropD)
      moreover then have "hd (last kvss) \<in> set (last kvss)" using idx(3) by simp
      ultimately show thesis using that [of "hd (last kvss)"] sep(1) j by (auto simp: separates_def before_all_def)
    next
      case False
      then have "hd cur \<in> set cur" by simp
      then show thesis using that [of "hd cur"] sep(2) j by (auto simp: before_all_def)
    qed
    then have "Compare c (fst x) (fst y) < 0" "key_ok (fst x)" "key_ok (fst y)"
      using sorted by (auto simp: sorted_entries_def sorted_wrt_append)
    moreover have "key_ok (fst (idx ! j))" using sep j by (auto simp: separates_def)
    ultimately show ?thesis using key_order.lt_trans [OF ord] x(2) by blast
  qed
  then have "before_all c idx [y]" unfolding before_all_nth [of c idx] by (simp add: before_all_def)
  then show ?thesis using sep(2) by (simp add: before_all_app)
qed

context writable_file
begin

lemma kvs_nonempty: "blocks_in z F bs \<Longrightarrow> \<forall>kvs \<in> set (kvs_of bs). kvs \<noteq> []"
  by (auto simp: blocks_in_def)

text \<open>Adding an entry, first without looking at the size of the block.\<close>

definition add_entry :: "bytes \<Rightarrow> bytes \<Rightarrow> 'f table_builder \<Rightarrow> 'f table_builder" where
  "add_entry key v r =
     (let r = (if tb_pending r
               then add_index_entry (FindShortestSeparator (opt_comparator (tb_options r)) (tb_last_key r) key) r
               else r) in
      r\<lparr>tb_filter := map_option (AddKey key) (tb_filter r), tb_last_key := key,
        tb_num_entries := tb_num_entries r + 1,
        tb_data_block := BlockBuilder_Add (block_restart_interval (tb_options r)) key v (tb_data_block r)\<rparr>)"

lemma Add_add_entry:
  "ok (tb_status r) \<Longrightarrow> TableBuilder_Add z wfile key v r =
    (let r = add_entry key v r in
     if opt_block_size (tb_options r) \<le> CurrentSizeEstimate (tb_data_block r) then Flush z wfile r else r)"
  by (simp add: TableBuilder_Add_def add_entry_def Let_def)

lemma add_entry_emitted:
  assumes cmp: "comparator (opt_comparator opts) key_ok" and inv: "emitted z opts key_ok r F bs idx cur"
    and sorted: "sorted_entries (Compare (opt_comparator opts)) key_ok ((concat (kvs_of bs) @ cur) @ [(key, v)])"
  shows "\<exists>idx'. emitted z opts key_ok (add_entry key v r) F bs idx' (cur @ [(key, v)])"
proof -
  let ?c = "opt_comparator opts"
  have ord: "key_order (Compare ?c) key_ok" by (rule comparator.axioms(1) [OF cmp])
  have blocks: "blocks_in z F bs" using inv by (simp add: emitted_def)
  note nonempty = kvs_nonempty [OF blocks]
  have data: "holds_entries (BlockBuilder_Add n key v (tb_data_block r)) (cur @ [(key, v)])" for n
    using inv holds_Add by (simp add: emitted_def)
  have filters: "map_option (AddKey key) (tb_filter r) = filters_of opts (length F) bs (cur @ [(key, v)])"
    using inv filters_AddKey by (simp add: emitted_def)
  show ?thesis
  proof (cases "tb_pending r")
    case False
    then have "before_all ?c idx (cur @ [(key, v)])"
      using before_all_snoc [OF ord _ _ sorted _ _ nonempty, of idx] inv by (auto simp: emitted_def handles_of_def)
    moreover have "shortest ?c idx (kvs_of bs) (cur @ [(key, v)])"
      using False inv by (intro shortest_more) (auto simp: emitted_def)
    ultimately have "emitted z opts key_ok (add_entry key v r) F bs idx (cur @ [(key, v)])"
      using False inv sorted data filters by (simp add: emitted_def add_entry_def good_def)
    then show ?thesis by blast
  next
    case True
    then have cur: "cur = []" and bs: "bs \<noteq> []" and last: "tb_last_key r = fst (last (concat (kvs_of bs)))"
      using inv nonempty by (auto simp: emitted_def)
    let ?all = "concat (kvs_of bs)"
    let ?sep = "FindShortestSeparator ?c (tb_last_key r) key"
    obtain b bs1 where b: "bs = b # bs1" using bs by (cases bs) auto
    then have "hd (snd (snd b)) \<in> set (snd (snd b))" using nonempty by simp
    then have "hd (snd (snd b)) \<in> set ?all" by (simp only: b list.map concat.simps set_append UnI1)
    then obtain x where x: "x \<in> set ?all" by blast
    have sorted': "sorted_entries (Compare ?c) key_ok (?all @ [(key, v)])" using sorted cur by simp
    have oks: "\<forall>y \<in> set (?all @ [(key, v)]). key_ok (fst y)"
      using sorted' unfolding sorted_entries_def by (rule conjunct2)
    have "last ?all \<in> set ?all" using x by (metis last_in_set empty_iff list.set(1))
    then have keys: "key_ok (tb_last_key r)" "key_ok key"
      unfolding last using oks by (simp_all only: set_append ball_Un) simp
    have less: "Compare ?c (tb_last_key r) key < 0" using sorted_entries_last(2) [OF ord sorted' x] last by simp
    note sep = comparator.separator [OF cmp keys less]
    have below: "\<forall>x \<in> set (kvs_of bs ! length idx). Compare ?c (fst x) ?sep \<le> 0"
    proof
      fix x assume "x \<in> set (kvs_of bs ! length idx)"
      then have x: "x \<in> set ?all" using inv True by (auto simp: emitted_def in_set_conv_nth [of _ bs] intro!: bexI [of _ "bs ! length idx"])
      then have "Compare ?c (fst x) (tb_last_key r) \<le> 0" "key_ok (fst x)"
        using sorted_entries_last(1) [OF ord sorted' x] last sorted' by (auto simp: sorted_entries_def)
      then show "Compare ?c (fst x) ?sep \<le> 0" using key_order.compare_trans [OF ord _ keys(1)] sep by blast
    qed
    let ?idx = "idx @ [(?sep, BlockHandle_EncodeTo (fst (snd (bs ! length idx))) [])]"
    have inv': "emitted z opts key_ok r F bs idx []" using inv cur by simp
    have opts: "tb_options r = opts" using inv by (simp add: emitted_def)
    note entry = add_index_entry_emitted [OF inv' True conjunct1 [OF sep] below]
    have "before_all ?c idx (cur @ [(key, v)])"
      using before_all_snoc [OF ord _ _ sorted _ _ nonempty, of idx] inv entry(4) by (auto simp: emitted_def)
    then have "before_all ?c ?idx [(key, v)]" using sep cur by (auto simp: before_all_def)
    moreover have "shortest ?c ?idx (kvs_of bs) [(key, v)]"
    proof -
      have len: "length bs = Suc (length idx)" by (rule entry(4))
      then have lst: "kvs_of bs ! length idx = last (kvs_of bs)" and ne: "kvs_of bs \<noteq> []" using bs by (simp_all add: last_conv_nth)
      have "concat (kvs_of bs) = concat (butlast (kvs_of bs)) @ last (kvs_of bs)"
        using arg_cong [OF append_butlast_last_id [OF ne], of concat] by simp
      moreover have "last (kvs_of bs) \<noteq> []" using nonempty last_in_set [OF ne] by blast
      ultimately have "tb_last_key r = fst (last (kvs_of bs ! length idx))" unfolding last lst by simp
      moreover have "concat (drop (Suc j) (kvs_of bs)) @ [] \<noteq> []" if "j < length idx" for j
      proof -
        have "kvs_of bs ! Suc j \<in> set (drop (Suc j) (kvs_of bs))" using nth_mem [of 0 "drop (Suc j) (kvs_of bs)"] that len by simp
        moreover have "kvs_of bs ! Suc j \<noteq> []" using nonempty that len nth_mem [of "Suc j" "kvs_of bs"] by simp
        ultimately show ?thesis by auto
      qed
      ultimately show ?thesis
        using inv' len shortest_more [of ?c idx "kvs_of bs" "[]" "[(key, v)]"] by (simp add: shortest_snoc emitted_def)
    qed
    ultimately have "before_all ?c ?idx [(key, v)]" "shortest ?c ?idx (kvs_of bs) [(key, v)]" by simp_all
    then have "emitted z opts key_ok (add_entry key v r) F bs ?idx (cur @ [(key, v)])"
      using True inv sorted data filters entry opts cur
      by (simp add: emitted_def add_entry_def good_def) (simp add: add_index_entry_def)
    then show ?thesis by blast
  qed
qed

lemma Add_emitted:
  assumes cmp: "comparator (opt_comparator opts) key_ok" and opts: "known_compression opts"
    and inv: "emitted z opts key_ok r F bs idx cur"
    and sorted: "sorted_entries (Compare (opt_comparator opts)) key_ok ((concat (kvs_of bs) @ cur) @ [(key, v)])"
  shows "\<exists>F' bs' idx' cur'. emitted z opts key_ok (TableBuilder_Add z wfile key v r) F' bs' idx' cur' \<and>
    concat (kvs_of bs') @ cur' = (concat (kvs_of bs) @ cur) @ [(key, v)]"
proof -
  obtain idx' where inv': "emitted z opts key_ok (add_entry key v r) F bs idx' (cur @ [(key, v)])"
    using add_entry_emitted [OF cmp inv sorted] by blast
  have ok: "ok (tb_status r)" using inv by (simp add: emitted_def good_def)
  show ?thesis
  proof (cases "opt_block_size (tb_options (add_entry key v r)) \<le> CurrentSizeEstimate (tb_data_block (add_entry key v r))")
    case True
    then show ?thesis
      using Flush_emitted [OF inv' _ opts] ok by (fastforce simp: Add_add_entry Let_def)
  next
    case False
    then show ?thesis using inv' ok by (fastforce simp: Add_add_entry Let_def)
  qed
qed

lemma add_entries_emitted:
  assumes cmp: "comparator (opt_comparator opts) key_ok" and opts: "known_compression opts"
  shows "emitted z opts key_ok r F bs idx cur \<Longrightarrow>
    sorted_entries (Compare (opt_comparator opts)) key_ok ((concat (kvs_of bs) @ cur) @ kvs) \<Longrightarrow>
    \<exists>F' bs' idx' cur'. emitted z opts key_ok (add_entries z wfile kvs r) F' bs' idx' cur' \<and>
      concat (kvs_of bs') @ cur' = (concat (kvs_of bs) @ cur) @ kvs"
proof (induction kvs arbitrary: r F bs idx cur)
  case Nil
  then show ?case by (auto simp: add_entries_def)
next
  case (Cons kv kvs)
  obtain k v where kv: "kv = (k, v)" by (cases kv)
  have "sorted_entries (Compare (opt_comparator opts)) key_ok ((concat (kvs_of bs) @ cur) @ [(k, v)])"
    using Cons.prems(2) by (auto simp: kv sorted_entries_def sorted_wrt_append)
  then obtain F' bs' idx' cur' where step: "emitted z opts key_ok (TableBuilder_Add z wfile k v r) F' bs' idx' cur'"
      "concat (kvs_of bs') @ cur' = (concat (kvs_of bs) @ cur) @ [(k, v)]"
    using Add_emitted [OF cmp opts Cons.prems(1)] by blast
  have "sorted_entries (Compare (opt_comparator opts)) key_ok ((concat (kvs_of bs') @ cur') @ kvs)"
    using Cons.prems(2) unfolding step(2) by (simp add: kv)
  from Cons.IH [OF step(1) this] show ?case unfolding step(2) by (simp add: add_entries_def kv)
qed

section \<open>The finished file\<close>

lemma write_filter_block_good:
  assumes good: "good r F" and opts: "tb_options r = opts" and filters: "tb_filter r = filters_of opts n bs []"
  shows "\<exists>h f G. write_filter_block wfile r = (h, r\<lparr>tb_file := f, tb_offset := of_nat (length (F @ G))\<rparr>) \<and> contents f = F @ G \<and>
    (case opt_filter_policy opts of
       None \<Rightarrow> True
     | Some (name, p) \<Rightarrow> stored_at z (F @ G) (length F) h (FilterFinish p (build_filters p (filter_blocks n bs []) new_FilterBlockBuilder)))"
proof (cases "opt_filter_policy opts")
  case None
  then have "write_filter_block wfile r = (new_BlockHandle, r\<lparr>tb_file := tb_file r, tb_offset := of_nat (length (F @ []))\<rparr>)"
    using good opts by (cases r) (simp add: write_filter_block_def good_def)
  then show ?thesis using None good by (fastforce simp: good_def)
next
  case (Some np)
  obtain name p where p: "np = (name, p)" by (cases np)
  let ?data = "FilterFinish p (build_filters p (filter_blocks n bs []) new_FilterBlockBuilder)"
  obtain f where f: "WriteRawBlock wfile ?data kNoCompression r =
      (\<lparr>bh_offset = of_nat (length F), bh_size = of_nat (length ?data)\<rparr>,
       r\<lparr>tb_file := f, tb_offset := of_nat (length (F @ raw_block ?data kNoCompression))\<rparr>)" "contents f = F @ raw_block ?data kNoCompression"
    using WriteRawBlock_good [OF good] by blast
  have "write_filter_block wfile r = WriteRawBlock wfile ?data kNoCompression r"
    using good opts filters Some p by (simp add: write_filter_block_def good_def filters_of_def)
  moreover have "stored_at z (F @ raw_block ?data kNoCompression) (length F)
      \<lparr>bh_offset = of_nat (length F), bh_size = of_nat (length ?data)\<rparr> ?data"
    unfolding stored_at_def
    by (intro exI [of _ F] exI [of _ ?data] exI [of _ kNoCompression] exI [of _ "[]"]) (simp add: stores_def)
  ultimately show ?thesis using f Some p by (intro exI) (auto intro!: exI)
qed

lemma good_file: "good r F \<Longrightarrow> contents f = F' \<Longrightarrow> good (r\<lparr>tb_file := f, tb_offset := of_nat (length F')\<rparr>) F'"
  by (simp add: good_def)

lemma write_metaindex_block_good:
  assumes good: "good r F" and opts: "tb_options r = opts" "known_compression opts" and filters: "tb_filter r = filters_of opts n bs []"
  shows "\<exists>h f G. write_metaindex_block z wfile fh r = (h, r\<lparr>tb_file := f, tb_offset := of_nat (length (F @ G))\<rparr>) \<and>
    contents f = F @ G \<and> G \<noteq> [] \<and> block_stored z (F @ G) (length F) h
      (case opt_filter_policy opts of None \<Rightarrow> [] | Some (name, p) \<Rightarrow> [(filter_key name, BlockHandle_EncodeTo fh [])])"
proof -
  define kvs where "kvs = (case opt_filter_policy opts of None \<Rightarrow> [] | Some (name, p) \<Rightarrow> [(filter_key name, BlockHandle_EncodeTo fh [])])"
  define meta where "meta = (case (opt_filter_policy opts, tb_filter r) of
      (Some (name, _), Some _) \<Rightarrow> BlockBuilder_Add (block_restart_interval opts) (filter_key name) (BlockHandle_EncodeTo fh []) new_BlockBuilder
    | _ \<Rightarrow> new_BlockBuilder)"
  have meta: "holds_entries meta kvs"
    using holds_new holds_Add [OF holds_new] filters by (simp add: meta_def kvs_def filters_of_def split: option.split)
  have compr: "known_compression (tb_options r)" using opts by simp
  obtain h f G where w: "WriteBlock z wfile meta r = (h, new_BlockBuilder, r\<lparr>tb_file := f, tb_offset := of_nat (length (F @ G))\<rparr>)"
    and res: "contents f = F @ G" "G \<noteq> []" "block_stored z (F @ G) (length F) h kvs"
    using WriteBlock_good [OF good meta compr] by blast
  have "ok (tb_status r)" using good by (simp add: good_def)
  then have "write_metaindex_block z wfile fh r = (h, r\<lparr>tb_file := f, tb_offset := of_nat (length (F @ G))\<rparr>)"
    using w unfolding write_metaindex_block_def opts(1) Let_def meta_def by simp
  then show ?thesis using res unfolding kvs_def by blast
qed

lemma write_index_block_good:
  assumes good: "good r F" and opts: "tb_options r = opts" "known_compression opts"
    and idx: "holds_entries (tb_index_block (if tb_pending r
      then add_index_entry (FindShortSuccessor (opt_comparator opts) (tb_last_key r)) r else r)) idx"
  shows "\<exists>h r' G. write_index_block z wfile r = (h, r') \<and> good r' (F @ G) \<and> G \<noteq> [] \<and> block_stored z (F @ G) (length F) h idx"
proof -
  let ?r = "if tb_pending r then add_index_entry (FindShortSuccessor (opt_comparator opts) (tb_last_key r)) r else r"
  have good': "good ?r F" and o: "tb_options ?r = opts" using good opts by (simp_all add: good_def add_index_entry_def)
  obtain h f G where w: "WriteBlock z wfile (tb_index_block ?r) ?r = (h, new_BlockBuilder, ?r\<lparr>tb_file := f, tb_offset := of_nat (length (F @ G))\<rparr>)"
    and res: "contents f = F @ G" "G \<noteq> []" "block_stored z (F @ G) (length F) h idx"
    using WriteBlock_good [OF good' idx] opts(2) o by metis
  let ?r' = "?r\<lparr>tb_file := f, tb_offset := of_nat (length (F @ G)), tb_index_block := new_BlockBuilder\<rparr>"
  have "ok (tb_status r)" using good by (simp add: good_def)
  then have "write_index_block z wfile r = (h, ?r')"
    using w unfolding write_index_block_def opts(1) Let_def by simp
  moreover have "good ?r' (F @ G)" using good' res(1) by (simp add: good_def)
  ultimately show ?thesis using res by blast
qed

lemma write_footer_good:
  assumes good: "good r F"
  shows "\<exists>r'. write_footer wfile mh ih r = r' \<and>
    good r' (F @ Footer_EncodeTo \<lparr>metaindex_handle = mh, index_handle = ih\<rparr> [])"
proof -
  let ?footer = "Footer_EncodeTo \<lparr>metaindex_handle = mh, index_handle = ih\<rparr> []"
  obtain f where "wf_append wfile ?footer (tb_file r) = (OK, f)" "contents f = F @ ?footer"
    using append good by (metis good_def)
  then show ?thesis using good by (simp add: write_footer_def Let_def good_def)
qed

lemma Finish_emitted:
  assumes cmp: "comparator (opt_comparator opts) key_ok" and opts: "known_compression opts"
    and inv: "emitted z opts key_ok r F bs idx cur"
  shows "\<exists>r' F' bs' idx'. TableBuilder_Finish z wfile r = (OK, r') \<and> contents (tb_file r') = F' \<and>
    tb_offset r' = of_nat (length F') \<and> table_file z opts key_ok F' bs' idx' \<and> concat (kvs_of bs') = concat (kvs_of bs) @ cur"
proof -
  let ?c = "opt_comparator opts"
  have ord: "key_order (Compare ?c) key_ok" by (rule comparator.axioms(1) [OF cmp])
  obtain F0 bs0 where inv0: "emitted z opts key_ok (Flush z wfile r) F0 bs0 idx []" "concat (kvs_of bs0) = concat (kvs_of bs) @ cur"
  proof (cases "cur = []")
    case True
    then show thesis using that inv Flush_empty [of z opts key_ok r F bs idx] by simp
  next
    case False
    then show thesis using that Flush_emitted [OF inv False opts] by fastforce
  qed
  let ?r0 = "(Flush z wfile r)\<lparr>tb_closed := True\<rparr>"
  have st: "good ?r0 F0" "tb_options ?r0 = opts" "tb_filter ?r0 = filters_of opts (length F0) bs0 []"
    using inv0(1) by (simp_all add: emitted_def good_def)
  obtain fh f1 G1 where w1: "write_filter_block wfile ?r0 = (fh, ?r0\<lparr>tb_file := f1, tb_offset := of_nat (length (F0 @ G1))\<rparr>)" "contents f1 = F0 @ G1"
      "case opt_filter_policy opts of None \<Rightarrow> True
       | Some (name, p) \<Rightarrow> stored_at z (F0 @ G1) (length F0) fh (FilterFinish p (build_filters p (filter_blocks (length F0) bs0 []) new_FilterBlockBuilder))"
    using write_filter_block_good [OF st] by blast
  let ?F1 = "F0 @ G1" and ?r1 = "?r0\<lparr>tb_file := f1, tb_offset := of_nat (length (F0 @ G1))\<rparr>"
  have st1: "good ?r1 ?F1" "tb_options ?r1 = opts" "tb_filter ?r1 = filters_of opts (length F0) bs0 []"
    using good_file [OF st(1) w1(2)] st by simp_all
  obtain mh f2 G2 where w2: "write_metaindex_block z wfile fh ?r1 = (mh, ?r1\<lparr>tb_file := f2, tb_offset := of_nat (length (?F1 @ G2))\<rparr>)"
      "contents f2 = ?F1 @ G2" "G2 \<noteq> []" "block_stored z (?F1 @ G2) (length ?F1) mh
      (case opt_filter_policy opts of None \<Rightarrow> [] | Some (name, p) \<Rightarrow> [(filter_key name, BlockHandle_EncodeTo fh [])])"
    using write_metaindex_block_good [OF st1(1,2) opts st1(3)] by blast
  let ?F2 = "?F1 @ G2" and ?r2 = "?r1\<lparr>tb_file := f2, tb_offset := of_nat (length (?F1 @ G2))\<rparr>"
  have st2: "good ?r2 ?F2" "tb_options ?r2 = opts" using good_file [OF st1(1) w2(2)] st by simp_all
  obtain idx' where idx': "holds_entries (tb_index_block (if tb_pending ?r2
      then add_index_entry (FindShortSuccessor ?c (tb_last_key ?r2)) ?r2 else ?r2)) idx'"
      "length idx' = length bs0" "handles_of idx' bs0" "separates ?c key_ok idx' (kvs_of bs0)" "shortest ?c idx' (kvs_of bs0) []"
  proof (cases "tb_pending (Flush z wfile r)")
    case False
    then show thesis using that [of idx] inv0(1) by (auto simp: emitted_def)
  next
    case True
    let ?all = "concat (kvs_of bs0)"
    have sorted: "sorted_entries (Compare ?c) key_ok ?all" and nonempty: "\<forall>kvs \<in> set (kvs_of bs0). kvs \<noteq> []" and bs0: "bs0 \<noteq> []"
      using inv0(1) kvs_nonempty True by (auto simp: emitted_def)
    then have all: "?all \<noteq> []" by (cases bs0) auto
    then have last: "tb_last_key (Flush z wfile r) = fst (last ?all)" using inv0(1) by (simp add: emitted_def)
    have oks: "\<forall>y \<in> set ?all. key_ok (fst y)" using sorted unfolding sorted_entries_def by (rule conjunct2)
    have in_last: "last ?all \<in> set ?all" using all by (rule last_in_set)
    then have key: "key_ok (tb_last_key (Flush z wfile r))" unfolding last using oks by blast
    note succ = comparator.successor [OF cmp key]
    have "\<forall>x \<in> set (kvs_of bs0 ! length idx). Compare ?c (fst x) (FindShortSuccessor ?c (tb_last_key (Flush z wfile r))) \<le> 0"
    proof
      fix x assume "x \<in> set (kvs_of bs0 ! length idx)"
      moreover have "length idx < length (kvs_of bs0)" using inv0(1) True by (simp add: emitted_def)
      ultimately have x: "x \<in> set ?all" by (metis UN_I nth_mem set_concat)
      obtain ys y where "?all = ys @ [y]" using all by (metis append_butlast_last_id)
      then have "Compare ?c (fst x) (fst (last ?all)) \<le> 0"
        using sorted x key_order.compare_refl [OF ord, of "fst y"] oks by (auto simp: sorted_entries_def sorted_wrt_append)
      then show "Compare ?c (fst x) (FindShortSuccessor ?c (tb_last_key (Flush z wfile r))) \<le> 0"
        using key_order.compare_trans [OF ord _ key] succ oks x last by metis
    qed
    from add_index_entry_emitted [OF inv0(1) True conjunct1 [OF succ] this]
    show thesis using that True inv0(1) by (simp add: add_index_entry_def shortest_snoc emitted_def)
  qed
  obtain ih r3 G3 where w3: "write_index_block z wfile ?r2 = (ih, r3)" "good r3 (?F2 @ G3)" "G3 \<noteq> []" "block_stored z (?F2 @ G3) (length ?F2) ih idx'"
    using write_index_block_good [OF st2 opts idx'(1)] by blast
  let ?footer = "Footer_EncodeTo \<lparr>metaindex_handle = mh, index_handle = ih\<rparr> []"
  let ?F3 = "?F2 @ G3"
  obtain r4 where w4: "write_footer wfile mh ih r3 = r4" "good r4 (?F3 @ ?footer)" using write_footer_good [OF w3(2)] by blast
  have "TableBuilder_Finish z wfile r = (tb_status r4, r4)"
    using w1(1) w2(1) w3(1) w4(1) by (simp add: TableBuilder_Finish_def Let_def)
  moreover have "table_file z opts key_ok (?F3 @ ?footer) bs0 idx'"
  proof -
    have b: "blocks_in z (?F3 @ ?footer) bs0" and lt: "\<forall>b \<in> set bs0. fst b < length F0"
      using inv0(1) blocks_in_append [of z F0 bs0 "G1 @ G2 @ G3 @ ?footer"] by (auto simp: emitted_def blocks_in_def)
    have i: "block_stored z (?F3 @ ?footer) (length ?F2) ih idx'" using w3(4) by (rule block_stored_append)
    have m: "block_stored z (?F3 @ ?footer) (length ?F1) mh
      (case opt_filter_policy opts of None \<Rightarrow> [] | Some (name, p) \<Rightarrow> [(filter_key name, BlockHandle_EncodeTo fh [])])"
      using block_stored_append [OF w2(4), of "G3 @ ?footer"] by simp
    have f: "case opt_filter_policy opts of None \<Rightarrow> True
       | Some (name, p) \<Rightarrow> stored_at z (?F3 @ ?footer) (length F0) fh (FilterFinish p (build_filters p (filter_blocks (length F0) bs0 []) new_FilterBlockBuilder))"
      using w1(3) stored_at_append [of z "F0 @ G1" "length F0" fh _ "G2 @ G3 @ ?footer"] by (auto split: option.splits)
    have "sorted_entries (Compare ?c) key_ok (concat (kvs_of bs0))" using inv0(1) by (simp add: emitted_def)
    then show ?thesis
      unfolding table_file_def
      using b idx' i m f lt w2(3) w3(3)
      by (intro conjI exI [of _ ?F3] exI [of _ mh] exI [of _ ih] exI [of _ "length ?F1"] exI [of _ "length ?F2"])
        (auto split: option.splits intro!: exI [of _ "length F0"])
  qed
  ultimately show ?thesis using w4(2) inv0(2) by (auto simp: good_def)
qed

end

end
