(* ===== verification/LdbTwoLevel.thy ===== *)
theory LdbTwoLevel
  imports LdbIterator
begin

text \<open>
  LevelDB, \<^verbatim>\<open>table/iterator_wrapper.h\<close> and \<^verbatim>\<open>table/two_level_iterator.cc\<close>: the wrapper
  that caches validity and key of an iterator, and the iterator over an index whose values name
  blocks. A wrapped iterator meets the contract of the iterator in it; the two-level iterator over
  an index and its blocks meets it for the concatenation of the blocks.
\<close>

section \<open>The wrapper\<close>

record 'i wrapper =
  w_iter :: "'i option"
  w_valid :: bool
  w_key :: bytes

definition new_wrapper :: "'i wrapper" where
  "new_wrapper = \<lparr>w_iter = None, w_valid = False, w_key = []\<rparr>"

definition wrapper_Update :: "'i Iter \<Rightarrow> 'i \<Rightarrow> 'i wrapper \<Rightarrow> 'i wrapper" where
  "wrapper_Update it i w =
     (let w = w\<lparr>w_iter := Some i, w_valid := it_Valid it i\<rparr> in
      if w_valid w then w\<lparr>w_key := it_key it i\<rparr> else w)"

definition wrapper_Set :: "'i Iter \<Rightarrow> 'i option \<Rightarrow> 'i wrapper \<Rightarrow> 'i wrapper" where
  "wrapper_Set it x w =
     (case x of None \<Rightarrow> w\<lparr>w_iter := None, w_valid := False\<rparr> | Some i \<Rightarrow> wrapper_Update it i w)"

text \<open>The methods require an iterator.\<close>

definition wrapper_op :: "'i Iter \<Rightarrow> ('i \<Rightarrow> 'i run) \<Rightarrow> 'i wrapper \<Rightarrow> 'i wrapper run" where
  "wrapper_op it f w =
     (case w_iter w of
        None \<Rightarrow> Undef
      | Some i \<Rightarrow> run_bind (f i) (\<lambda>i. Ret (wrapper_Update it i w)))"

definition Wrapped :: "'i Iter \<Rightarrow> 'i wrapper Iter" where
  "Wrapped it =
     \<lparr>it_Valid = w_valid, it_SeekToFirst = wrapper_op it (it_SeekToFirst it),
      it_SeekToLast = wrapper_op it (it_SeekToLast it), it_Seek = (\<lambda>t. wrapper_op it (it_Seek it t)),
      it_Next = wrapper_op it (it_Next it), it_Prev = wrapper_op it (it_Prev it), it_key = w_key,
      it_value = (\<lambda>w. case w_iter w of None \<Rightarrow> [] | Some i \<Rightarrow> it_value it i),
      it_status = (\<lambda>w. case w_iter w of None \<Rightarrow> OK | Some i \<Rightarrow> it_status it i)\<rparr>"

definition wrap_made :: "('i \<Rightarrow> bool) \<Rightarrow> 'i wrapper \<Rightarrow> bool" where
  "wrap_made made w \<longleftrightarrow> (\<exists>i. w_iter w = Some i \<and> made i)"

definition wrap_at :: "'i Iter \<Rightarrow> ('i \<Rightarrow> nat \<Rightarrow> bool) \<Rightarrow> 'i wrapper \<Rightarrow> nat \<Rightarrow> bool" where
  "wrap_at it at w p \<longleftrightarrow>
     (\<exists>i. w_iter w = Some i \<and> at i p \<and> w_valid w = it_Valid it i \<and> (w_valid w \<longrightarrow> w_key w = it_key it i))"

lemma wrap_at_Update: "at i p \<Longrightarrow> wrap_at it at (wrapper_Update it i w) p"
  by (simp add: wrap_at_def wrapper_Update_def Let_def)

lemma wrapper_op_at:
  "w_iter w = Some i \<Longrightarrow> \<exists>i'. f i = Ret i' \<and> at i' p \<Longrightarrow> \<exists>w'. wrapper_op it f w = Ret w' \<and> wrap_at it at w' p"
  using wrap_at_Update by (fastforce simp: wrapper_op_def)

lemma Wrapped_simps [simp]:
  "it_Valid (Wrapped it) = w_valid" "it_SeekToFirst (Wrapped it) = wrapper_op it (it_SeekToFirst it)"
  "it_SeekToLast (Wrapped it) = wrapper_op it (it_SeekToLast it)" "it_Seek (Wrapped it) t = wrapper_op it (it_Seek it t)"
  "it_Next (Wrapped it) = wrapper_op it (it_Next it)" "it_Prev (Wrapped it) = wrapper_op it (it_Prev it)"
  "it_key (Wrapped it) = w_key"
  by (simp_all add: Wrapped_def)

context iterator
begin

lemma wrapped_iterator: "iterator (Wrapped it) cmp ok kvs (wrap_made made) (wrap_at it at)"
proof
  fix w p
  assume w: "wrap_at it at w p"
  then obtain i where i: "w_iter w = Some i" "at i p" "w_valid w = it_Valid it i" "w_valid w \<longrightarrow> w_key w = it_key it i"
    by (auto simp: wrap_at_def)
  show "wrap_made made w" using i at_made by (auto simp: wrap_made_def)
  show "it_Valid (Wrapped it) w \<longleftrightarrow> p < length kvs" using i valid by simp
  show "p \<le> length kvs" using i bound by blast
  assume p: "p < length kvs"
  show "it_key (Wrapped it) w = fst (kvs ! p) \<and> it_value (Wrapped it) w = snd (kvs ! p)"
    using i entry [OF i(2) p] valid [OF i(2)] p by (simp add: Wrapped_def)
  show "\<exists>w'. it_Next (Wrapped it) w = Ret w' \<and> wrap_at it at w' (Suc p)"
    using wrapper_op_at [OF i(1)] "next" [OF i(2) p] by simp
  show "\<exists>w'. it_Prev (Wrapped it) w = Ret w' \<and> wrap_at it at w' (if p = 0 then length kvs else p - 1)"
    using wrapper_op_at [OF i(1)] prev [OF i(2) p] by simp
next
  fix w t
  assume "wrap_made made w"
  then obtain i where i: "w_iter w = Some i" "made i" by (auto simp: wrap_made_def)
  show "it_status (Wrapped it) w = OK" using i status by (simp add: Wrapped_def)
  show "\<exists>w'. it_SeekToFirst (Wrapped it) w = Ret w' \<and> wrap_at it at w' 0"
    using wrapper_op_at [OF i(1)] seek_to_first [OF i(2)] by simp
  show "\<exists>w'. it_SeekToLast (Wrapped it) w = Ret w' \<and> wrap_at it at w' (length kvs - 1)"
    using wrapper_op_at [OF i(1)] seek_to_last [OF i(2)] by simp
  assume "ok t"
  then show "\<exists>w'. it_Seek (Wrapped it) t w = Ret w' \<and> wrap_at it at w' (lower_bound cmp t kvs)"
    using wrapper_op_at [OF i(1)] seek [OF i(2)] by simp
qed

end

section \<open>The two-level iterator\<close>

text \<open>\<open>f\<close> is the block function, which makes an iterator from a value of the index.\<close>

record ('x, 'd) two_level =
  tl_index :: "'x wrapper"
  tl_data :: "'d wrapper"
  tl_handle :: bytes
  tl_status :: Status

definition new_TwoLevelIterator :: "'x Iter \<Rightarrow> 'x \<Rightarrow> ('x, 'd) two_level" where
  "new_TwoLevelIterator iit index_iter =
     \<lparr>tl_index = wrapper_Set iit (Some index_iter) new_wrapper, tl_data = new_wrapper, tl_handle = [], tl_status = OK\<rparr>"

definition SaveError :: "Status \<Rightarrow> ('x, 'd) two_level \<Rightarrow> ('x, 'd) two_level" where
  "SaveError s t = (if ok (tl_status t) \<and> \<not> ok s then t\<lparr>tl_status := s\<rparr> else t)"

definition SetDataIterator :: "'d Iter \<Rightarrow> 'd option \<Rightarrow> ('x, 'd) two_level \<Rightarrow> ('x, 'd) two_level" where
  "SetDataIterator dit x t =
     (let t = (if w_iter (tl_data t) \<noteq> None then SaveError (it_status (Wrapped dit) (tl_data t)) t else t) in
      t\<lparr>tl_data := wrapper_Set dit x (tl_data t)\<rparr>)"

definition InitDataBlock ::
  "'x Iter \<Rightarrow> 'd Iter \<Rightarrow> (bytes \<Rightarrow> 'd run) \<Rightarrow> ('x, 'd) two_level \<Rightarrow> ('x, 'd) two_level run" where
  "InitDataBlock iit dit f t =
     (if \<not> w_valid (tl_index t) then Ret (SetDataIterator dit None t)
      else
        let handle = it_value (Wrapped iit) (tl_index t) in
        if w_iter (tl_data t) \<noteq> None \<and> slice_compare handle (tl_handle t) = 0 then Ret t
        else run_bind (f handle) (\<lambda>d. Ret (SetDataIterator dit (Some d) (t\<lparr>tl_handle := handle\<rparr>))))"

text \<open>Moving the index, opening its block and positioning the block, if there is one.\<close>

definition index_op :: "('x wrapper \<Rightarrow> 'x wrapper run) \<Rightarrow> ('x, 'd) two_level \<Rightarrow> ('x, 'd) two_level run" where
  "index_op g t = run_bind (g (tl_index t)) (\<lambda>x. Ret (t\<lparr>tl_index := x\<rparr>))"

definition data_op :: "('d wrapper \<Rightarrow> 'd wrapper run) \<Rightarrow> ('x, 'd) two_level \<Rightarrow> ('x, 'd) two_level run" where
  "data_op g t = run_bind (g (tl_data t)) (\<lambda>d. Ret (t\<lparr>tl_data := d\<rparr>))"

definition move_to ::
  "'x Iter \<Rightarrow> 'd Iter \<Rightarrow> (bytes \<Rightarrow> 'd run) \<Rightarrow> ('x wrapper \<Rightarrow> 'x wrapper run) \<Rightarrow> ('d wrapper \<Rightarrow> 'd wrapper run) \<Rightarrow>
    ('x, 'd) two_level \<Rightarrow> ('x, 'd) two_level run" where
  "move_to iit dit f g h t =
     run_bind (index_op g t) (\<lambda>t.
     run_bind (InitDataBlock iit dit f t) (\<lambda>t.
       if w_iter (tl_data t) \<noteq> None then data_op h t else Ret t))"

partial_function (option) skip_empty ::
  "'x Iter \<Rightarrow> 'd Iter \<Rightarrow> (bytes \<Rightarrow> 'd run) \<Rightarrow> ('x wrapper \<Rightarrow> 'x wrapper run) \<Rightarrow> ('d wrapper \<Rightarrow> 'd wrapper run) \<Rightarrow>
    ('x, 'd) two_level \<Rightarrow> ('x, 'd) two_level run option" where
  "skip_empty iit dit f g h t =
     (if w_iter (tl_data t) = None \<or> \<not> w_valid (tl_data t) then
        if \<not> w_valid (tl_index t) then Some (Ret (SetDataIterator dit None t))
        else
          case move_to iit dit f g h t of
            Ret t \<Rightarrow> skip_empty iit dit f g h t
          | Undef \<Rightarrow> Some Undef
          | NoFuel \<Rightarrow> Some NoFuel
      else Some (Ret t))"

text \<open>A loop that does not end is \<open>NoFuel\<close>.\<close>

definition returned :: "'a run option \<Rightarrow> 'a run" where
  "returned x = (case x of None \<Rightarrow> NoFuel | Some r \<Rightarrow> r)"

definition SkipEmptyDataBlocksForward ::
  "'x Iter \<Rightarrow> 'd Iter \<Rightarrow> (bytes \<Rightarrow> 'd run) \<Rightarrow> ('x, 'd) two_level \<Rightarrow> ('x, 'd) two_level run" where
  "SkipEmptyDataBlocksForward iit dit f t =
     returned (skip_empty iit dit f (it_Next (Wrapped iit)) (it_SeekToFirst (Wrapped dit)) t)"

definition SkipEmptyDataBlocksBackward ::
  "'x Iter \<Rightarrow> 'd Iter \<Rightarrow> (bytes \<Rightarrow> 'd run) \<Rightarrow> ('x, 'd) two_level \<Rightarrow> ('x, 'd) two_level run" where
  "SkipEmptyDataBlocksBackward iit dit f t =
     returned (skip_empty iit dit f (it_Prev (Wrapped iit)) (it_SeekToLast (Wrapped dit)) t)"

definition two_level_status :: "'x Iter \<Rightarrow> 'd Iter \<Rightarrow> ('x, 'd) two_level \<Rightarrow> Status" where
  "two_level_status iit dit t =
     (if \<not> ok (it_status (Wrapped iit) (tl_index t)) then it_status (Wrapped iit) (tl_index t)
      else if w_iter (tl_data t) \<noteq> None \<and> \<not> ok (it_status (Wrapped dit) (tl_data t)) then it_status (Wrapped dit) (tl_data t)
      else tl_status t)"

definition TwoLevelIterator :: "'x Iter \<Rightarrow> 'd Iter \<Rightarrow> (bytes \<Rightarrow> 'd run) \<Rightarrow> ('x, 'd) two_level Iter" where
  "TwoLevelIterator iit dit f =
     \<lparr>it_Valid = (\<lambda>t. w_valid (tl_data t)),
      it_SeekToFirst = (\<lambda>t. run_bind
         (move_to iit dit f (it_SeekToFirst (Wrapped iit)) (it_SeekToFirst (Wrapped dit)) t)
         (SkipEmptyDataBlocksForward iit dit f)),
      it_SeekToLast = (\<lambda>t. run_bind
         (move_to iit dit f (it_SeekToLast (Wrapped iit)) (it_SeekToLast (Wrapped dit)) t)
         (SkipEmptyDataBlocksBackward iit dit f)),
      it_Seek = (\<lambda>target t. run_bind
         (move_to iit dit f (it_Seek (Wrapped iit) target) (it_Seek (Wrapped dit) target) t)
         (SkipEmptyDataBlocksForward iit dit f)),
      it_Next = (\<lambda>t. run_bind (data_op (it_Next (Wrapped dit)) t) (SkipEmptyDataBlocksForward iit dit f)),
      it_Prev = (\<lambda>t. run_bind (data_op (it_Prev (Wrapped dit)) t) (SkipEmptyDataBlocksBackward iit dit f)),
      it_key = (\<lambda>t. w_key (tl_data t)),
      it_value = (\<lambda>t. it_value (Wrapped dit) (tl_data t)),
      it_status = two_level_status iit dit\<rparr>"

section \<open>Its contract\<close>

text \<open>
  The index holds one entry for each block: a key that is not before the keys of the block and
  before the keys of the next one, and a value that the block function opens the block for.
\<close>

locale two_level = index: iterator iit cmp ok idx imade iat + key_order cmp ok
  for iit :: "'x Iter" and cmp ok and idx :: "(bytes \<times> bytes) list" and imade iat +
  fixes dit :: "'d Iter" and f :: "bytes \<Rightarrow> 'd run" and blocks :: "(bytes \<times> bytes) list list"
    and dmade :: "nat \<Rightarrow> 'd \<Rightarrow> bool" and dat :: "nat \<Rightarrow> 'd \<Rightarrow> nat \<Rightarrow> bool"
  assumes block: "j < length idx \<Longrightarrow> iterator dit cmp ok (blocks ! j) (dmade j) (dat j)"
    and opens: "j < length idx \<Longrightarrow> \<exists>d. f (snd (idx ! j)) = Ret d \<and> dmade j d"
    and blocks: "length blocks = length idx"
    and handles: "distinct (map snd idx)"
    and ok_keys: "j < length idx \<Longrightarrow> ok (fst (idx ! j))" "x \<in> set (concat blocks) \<Longrightarrow> ok (fst x)"
    and last_key: "j < length idx \<Longrightarrow> x \<in> set (blocks ! j) \<Longrightarrow> cmp (fst x) (fst (idx ! j)) \<le> 0"
    and next_key: "i < j \<Longrightarrow> j < length idx \<Longrightarrow> x \<in> set (blocks ! j) \<Longrightarrow> cmp (fst (idx ! i)) (fst x) < 0"
    and sorted: "sorted_entries cmp ok (concat blocks)" "sorted_entries cmp ok idx"
begin

definition block_start :: "nat \<Rightarrow> nat" where
  "block_start j = length (concat (take j blocks))"

definition data_made :: "('x, 'd) two_level \<Rightarrow> bool" where
  "data_made t \<longleftrightarrow> tl_status t = OK \<and>
     (w_iter (tl_data t) = None \<or> (\<exists>j < length idx. tl_handle t = snd (idx ! j) \<and> wrap_made (dmade j) (tl_data t)))"

definition tl_made :: "('x, 'd) two_level \<Rightarrow> bool" where
  "tl_made t \<longleftrightarrow> wrap_made imade (tl_index t) \<and> data_made t"

definition data_at :: "('x, 'd) two_level \<Rightarrow> nat \<Rightarrow> nat \<Rightarrow> bool" where
  "data_at t j q \<longleftrightarrow> tl_status t = OK \<and> j < length idx \<and> wrap_at iit iat (tl_index t) j \<and>
     tl_handle t = snd (idx ! j) \<and> wrap_at dit (dat j) (tl_data t) q"

definition tl_at :: "('x, 'd) two_level \<Rightarrow> nat \<Rightarrow> bool" where
  "tl_at t p \<longleftrightarrow>
     (\<exists>j q. data_at t j q \<and> q < length (blocks ! j) \<and> p = block_start j + q) \<or>
     p = length (concat blocks) \<and> wrap_made imade (tl_index t) \<and> tl_status t = OK \<and>
     w_iter (tl_data t) = None \<and> \<not> w_valid (tl_data t)"

lemmas windex = index.wrapped_iterator
lemmas wblock = iterator.wrapped_iterator [OF block]

lemma SetDataIterator_made:
  "data_made t \<Longrightarrow> SetDataIterator dit x (t\<lparr>tl_handle := h\<rparr>) = t\<lparr>tl_handle := h, tl_data := wrapper_Set dit x (tl_data t)\<rparr>"
  "data_made t \<Longrightarrow> SetDataIterator dit x t = t\<lparr>tl_data := wrapper_Set dit x (tl_data t)\<rparr>"
  using iterator.status [OF wblock] by (auto simp: data_made_def SetDataIterator_def SaveError_def Let_def)

lemma move_to_block:
  assumes x: "g (tl_index t) = Ret x" "wrap_at iit iat x j" and j: "j < length idx" and t: "data_made t"
    and h: "\<And>w. wrap_made (dmade j) w \<Longrightarrow> \<exists>w'. h w = Ret w' \<and> wrap_at dit (dat j) w' q"
  shows "\<exists>t'. move_to iit dit f g h t = Ret t' \<and> data_at t' j q"
proof -
  let ?t = "t\<lparr>tl_index := x\<rparr>"
  have valid: "w_valid x" using iterator.valid [OF windex x(2)] j by simp
  have handle: "it_value (Wrapped iit) x = snd (idx ! j)" using iterator.entry [OF windex x(2) j] by simp
  have "\<exists>t1. InitDataBlock iit dit f ?t = Ret t1 \<and> tl_index t1 = x \<and> tl_handle t1 = snd (idx ! j) \<and>
      wrap_made (dmade j) (tl_data t1) \<and> tl_status t1 = OK"
  proof (cases "w_iter (tl_data t) \<noteq> None \<and> slice_compare (snd (idx ! j)) (tl_handle t) = 0")
    case True
    then have "tl_handle t = snd (idx ! j)" by (simp add: slice_compare_zero)
    moreover obtain k where "k < length idx" "tl_handle t = snd (idx ! k)" "wrap_made (dmade k) (tl_data t)"
      using t True by (auto simp: data_made_def)
    moreover from calculation have "k = j" using nth_eq_iff_index_eq [OF handles, of j k] j by simp
    ultimately show ?thesis using True valid handle t by (simp add: InitDataBlock_def data_made_def)
  next
    case False
    obtain d where d: "f (snd (idx ! j)) = Ret d" "dmade j d" using opens [OF j] by blast
    let ?t1 = "SetDataIterator dit (Some d) (?t\<lparr>tl_handle := snd (idx ! j)\<rparr>)"
    have "InitDataBlock iit dit f ?t = Ret ?t1"
      using False valid handle d(1) by (auto simp: InitDataBlock_def Let_def)
    moreover have "data_made ?t" using t by (simp add: data_made_def)
    then have "tl_index ?t1 = x \<and> tl_handle ?t1 = snd (idx ! j) \<and> wrap_made (dmade j) (tl_data ?t1) \<and> tl_status ?t1 = OK"
      using d(2) t unfolding SetDataIterator_made(1) [OF \<open>data_made ?t\<close>]
      by (simp add: Let_def wrapper_Set_def wrapper_Update_def wrap_made_def data_made_def)
    ultimately show ?thesis by blast
  qed
  then obtain t1 where t1: "InitDataBlock iit dit f ?t = Ret t1" "tl_index t1 = x" "tl_handle t1 = snd (idx ! j)"
      "wrap_made (dmade j) (tl_data t1)" "tl_status t1 = OK"
    by blast
  then obtain w' where "h (tl_data t1) = Ret w'" "wrap_at dit (dat j) w' q" using h by blast
  then show ?thesis
    using x t1 j by (auto simp: move_to_def index_op_def data_op_def data_at_def wrap_made_def)
qed

lemma move_to_end:
  assumes x: "g (tl_index t) = Ret x" "wrap_at iit iat x (length idx)" and t: "data_made t"
  shows "\<exists>t'. move_to iit dit f g h t = Ret t' \<and> tl_at t' (length (concat blocks)) \<and> \<not> w_valid (tl_index t')"
proof -
  have "\<not> w_valid x" "wrap_made imade x" using iterator.valid [OF windex x(2)] iterator.at_made [OF windex x(2)] by simp_all
  moreover have "data_made (t\<lparr>tl_index := x\<rparr>)" "tl_status t = OK" using t by (simp_all add: data_made_def)
  ultimately show ?thesis
    using x(1) by (simp add: move_to_def index_op_def InitDataBlock_def SetDataIterator_made(2) wrapper_Set_def tl_at_def)
qed

lemma block_start_Suc: "j < length idx \<Longrightarrow> block_start (Suc j) = block_start j + length (blocks ! j)"
  using blocks by (simp add: block_start_def take_Suc_conv_app_nth)

lemma block_start_all: "block_start (length idx) = length (concat blocks)"
  using blocks by (simp add: block_start_def)

lemma data_at_valid: "data_at t j q \<Longrightarrow> w_iter (tl_data t) \<noteq> None \<and> (w_valid (tl_data t) \<longleftrightarrow> q < length (blocks ! j))"
  using iterator.valid [OF wblock, of j "tl_data t" q] by (auto simp: data_at_def wrap_at_def)

lemma data_at_index: "data_at t j q \<Longrightarrow> j < length idx \<and> wrap_at iit iat (tl_index t) j \<and> w_valid (tl_index t)"
  using iterator.valid [OF windex, of "tl_index t" j] by (auto simp: data_at_def)

lemma data_at_made: "data_at t j q \<Longrightarrow> data_made t \<and> wrap_made imade (tl_index t)"
  using iterator.at_made [OF wblock, of j "tl_data t" q] iterator.at_made [OF windex, of "tl_index t" j]
  by (auto simp: data_at_def data_made_def)

lemma skip_at_end:
  assumes "tl_at t (length (concat blocks))" and "\<not> w_valid (tl_index t)"
  shows "\<exists>t'. skip_empty iit dit f g h t = Some (Ret t') \<and> tl_at t' (length (concat blocks))"
proof -
  have "\<not> data_at t j q" for j q using data_at_index assms(2) by blast
  then have "w_iter (tl_data t) = None" "wrap_made imade (tl_index t)" "tl_status t = OK" using assms(1) by (auto simp: tl_at_def)
  then show ?thesis
    using assms(2) by (subst skip_empty.simps) (simp add: tl_at_def SetDataIterator_def Let_def wrapper_Set_def)
qed

lemma skip_found:
  "data_at t j q \<Longrightarrow> q < length (blocks ! j) \<Longrightarrow>
   skip_empty iit dit f g h t = Some (Ret t) \<and> tl_at t (block_start j + q)"
  using data_at_valid [of t j q] by (subst skip_empty.simps) (auto simp: tl_at_def)

lemma skip_step:
  assumes "data_at t j q" and "\<not> q < length (blocks ! j)" and "move_to iit dit f g h t = Ret t'"
  shows "skip_empty iit dit f g h t = skip_empty iit dit f g h t'"
  using assms data_at_valid [of t j q] data_at_index [of t j q] by (subst skip_empty.simps) simp

lemma data_at_bound: "data_at t j q \<Longrightarrow> q \<le> length (blocks ! j)"
  using iterator.bound [OF wblock, of j "tl_data t" q] by (auto simp: data_at_def)

lemma skip_forward:
  "data_at t j q \<Longrightarrow>
   \<exists>t'. skip_empty iit dit f (it_Next (Wrapped iit)) (it_SeekToFirst (Wrapped dit)) t = Some (Ret t') \<and> tl_at t' (block_start j + q)"
proof (induction "length idx - j" arbitrary: t j q)
  case 0
  then show ?case by (simp add: data_at_def)
next
  case (Suc n)
  show ?case
  proof (cases "q < length (blocks ! j)")
    case True
    then show ?thesis using skip_found [OF Suc.prems True] by blast
  next
    case False
    then have q: "q = length (blocks ! j)" using data_at_bound [OF Suc.prems] by simp
    have j: "j < length idx" using data_at_index [OF Suc.prems] by simp
    then have start: "block_start j + q = block_start (Suc j)" by (simp add: block_start_Suc q)
    obtain x where x: "it_Next (Wrapped iit) (tl_index t) = Ret x" "wrap_at iit iat x (Suc j)"
      using iterator.next [OF windex] data_at_index [OF Suc.prems] by blast
    show ?thesis
    proof (cases "Suc j < length idx")
      case True
      then obtain t1 where t1: "move_to iit dit f (it_Next (Wrapped iit)) (it_SeekToFirst (Wrapped dit)) t = Ret t1" "data_at t1 (Suc j) 0"
        using move_to_block [where g = "it_Next (Wrapped iit)", OF x True] iterator.seek_to_first [OF wblock [OF True]] data_at_made [OF Suc.prems] by blast
      then show ?thesis
        using skip_step [OF Suc.prems False t1(1)] Suc.hyps(1) [OF _ t1(2)] Suc.hyps(2) start by simp
    next
      case last: False
      then have "Suc j = length idx" using j by simp
      then obtain t1 where t1: "move_to iit dit f (it_Next (Wrapped iit)) (it_SeekToFirst (Wrapped dit)) t = Ret t1"
          "tl_at t1 (length (concat blocks))" "\<not> w_valid (tl_index t1)"
        using move_to_end [where g = "it_Next (Wrapped iit)", OF x(1)] x(2) data_at_made [OF Suc.prems] by metis
      then show ?thesis
        using skip_step [OF Suc.prems False t1(1)] skip_at_end [OF t1(2,3)] start \<open>Suc j = length idx\<close> block_start_all by simp
    qed
  qed
qed

lemma skip_backward:
  "data_at t j q \<Longrightarrow> \<not> q < length (blocks ! j) \<Longrightarrow>
   \<exists>t'. skip_empty iit dit f (it_Prev (Wrapped iit)) (it_SeekToLast (Wrapped dit)) t = Some (Ret t') \<and>
     tl_at t' (if block_start j = 0 then length (concat blocks) else block_start j - 1)"
proof (induction j arbitrary: t q)
  case 0
  obtain x where x: "it_Prev (Wrapped iit) (tl_index t) = Ret x" "wrap_at iit iat x (length idx)"
    using iterator.prev [OF windex] data_at_index [OF 0(1)] by fastforce
  then obtain t1 where t1: "move_to iit dit f (it_Prev (Wrapped iit)) (it_SeekToLast (Wrapped dit)) t = Ret t1"
      "tl_at t1 (length (concat blocks))" "\<not> w_valid (tl_index t1)"
    using move_to_end [where g = "it_Prev (Wrapped iit)", OF x] data_at_made [OF 0(1)] by metis
  then show ?case
    using skip_step [OF 0 t1(1)] skip_at_end [OF t1(2,3)] by (simp add: block_start_def)
next
  case (Suc j)
  have j: "j < length idx" using data_at_index [OF Suc.prems(1)] by simp
  let ?q = "length (blocks ! j) - 1"
  obtain x where x: "it_Prev (Wrapped iit) (tl_index t) = Ret x" "wrap_at iit iat x j"
    using iterator.prev [OF windex] data_at_index [OF Suc.prems(1)] by fastforce
  then obtain t1 where t1: "move_to iit dit f (it_Prev (Wrapped iit)) (it_SeekToLast (Wrapped dit)) t = Ret t1" "data_at t1 j ?q"
    using move_to_block [where g = "it_Prev (Wrapped iit)", OF x j] iterator.seek_to_last [OF wblock [OF j]] data_at_made [OF Suc.prems(1)] by blast
  show ?case
  proof (cases "?q < length (blocks ! j)")
    case True
    then show ?thesis
      using skip_step [OF Suc.prems t1(1)] skip_found [OF t1(2) True] j by (auto simp: block_start_Suc)
  next
    case False
    then have "blocks ! j = []" by (cases "blocks ! j") simp_all
    then have "block_start (Suc j) = block_start j" using j by (simp add: block_start_Suc)
    then show ?thesis
      unfolding skip_step [OF Suc.prems t1(1)] using Suc.IH [OF t1(2) False] by (simp only:)
  qed
qed

lemma in_concat_nth: "x \<in> set (concat xss) \<longleftrightarrow> (\<exists>j < length xss. x \<in> set (xss ! j))"
  by (auto simp: in_set_conv_nth [of _ xss] Bex_def)

lemma key_before:
  assumes j: "j < length idx" and x: "x \<in> set (blocks ! j)" and t: "ok t" "cmp (fst (idx ! j)) t < 0"
  shows "cmp (fst x) t < 0"
proof -
  have "ok (fst x)" using ok_keys(2) x j blocks by (metis UN_I nth_mem set_concat)
  then show ?thesis using le_trans_lt [of "fst x" "fst (idx ! j)" t] ok_keys(1) [OF j] last_key [OF j x] t by blast
qed

lemma seek_position:
  assumes t: "ok t" and L: "lower_bound cmp t idx < length idx"
  shows "lower_bound cmp t (concat blocks) =
    block_start (lower_bound cmp t idx) + lower_bound cmp t (blocks ! lower_bound cmp t idx)"
proof -
  let ?L = "lower_bound cmp t idx"
  have split: "concat blocks = concat (take ?L blocks) @ blocks ! ?L @ concat (drop (Suc ?L) blocks)"
    using L blocks by (metis append_take_drop_id concat.simps(2) concat_append Cons_nth_drop_Suc)
  have "cmp (fst x) t < 0" if "x \<in> set (concat (take ?L blocks))" for x
  proof -
    obtain j where "j < ?L" "x \<in> set (blocks ! j)"
      using \<open>x \<in> set (concat (take ?L blocks))\<close> unfolding in_concat_nth by auto
    then show ?thesis using key_before [of j x t] lower_bound_below [of j cmp t idx] t L by simp
  qed
  moreover have "\<not> cmp (fst x) t < 0" if x: "x \<in> set (concat (drop (Suc ?L) blocks))" for x
  proof -
    obtain i where "i < length blocks - Suc ?L" "x \<in> set (blocks ! (Suc ?L + i))"
      using x L blocks unfolding in_concat_nth by (auto simp: Suc_leI)
    then have after: "cmp (fst (idx ! ?L)) (fst x) < 0" using next_key [of ?L "Suc ?L + i" x] blocks by simp
    have "x \<in> set (concat blocks)" unfolding split using x by simp
    then have keys: "ok (fst x)" "ok (fst (idx ! ?L))" using ok_keys(1) [OF L] ok_keys(2) by blast+
    have "\<not> cmp (fst (idx ! ?L)) t < 0" by (rule lower_bound_stop) (rule L)
    then show ?thesis using lt_trans [OF keys(2,1) t] after by blast
  qed
  ultimately show ?thesis
    by (simp only: split lower_bound_append lower_bound_append_stop append_assoc [symmetric] block_start_def)
      (simp add: lower_bound_append lower_bound_append_stop)
qed

lemma seek_past:
  assumes t: "ok t" and L: "lower_bound cmp t idx = length idx"
  shows "lower_bound cmp t (concat blocks) = length (concat blocks)"
proof -
  have "cmp (fst x) t < 0" if x: "x \<in> set (concat blocks)" for x
  proof -
    obtain j where "j < length idx" "x \<in> set (blocks ! j)" using x blocks unfolding in_concat_nth by auto
    then show ?thesis using key_before [of j x t] lower_bound_below [of j cmp t idx] t L by simp
  qed
  then show ?thesis by (intro lower_bound_all) blast
qed

text \<open>An entry with the target for its key is in the block that the index leads to.\<close>

lemma seek_block:
  assumes t: "ok t" and x: "x \<in> set (concat blocks)" "cmp (fst x) t = 0"
  shows "lower_bound cmp t idx < length idx \<and> x \<in> set (blocks ! lower_bound cmp t idx)"
proof -
  let ?L = "lower_bound cmp t idx"
  obtain j where j: "j < length idx" "x \<in> set (blocks ! j)" using x(1) blocks unfolding in_concat_nth by auto
  have not_before: "?L \<le> j"
    using key_before [OF j t] lower_bound_below [of j cmp t idx] x(2) by force
  then have L: "?L < length idx" using j(1) by simp
  have "?L = j"
  proof (rule ccontr)
    assume "?L \<noteq> j"
    then have "cmp (fst (idx ! ?L)) (fst x) < 0" using next_key [of ?L j x] j not_before by simp
    moreover have "\<not> cmp (fst (idx ! ?L)) t < 0" by (rule lower_bound_stop) (rule L)
    ultimately show False
      using lt_trans_le [OF ok_keys(1) [OF L] ok_keys(2) [OF x(1)] t] x(2) by simp
  qed
  then show ?thesis using L j(2) by simp
qed

lemma TwoLevel_simps:
  "it_Valid (TwoLevelIterator iit dit f) t = w_valid (tl_data t)"
  "it_key (TwoLevelIterator iit dit f) t = it_key (Wrapped dit) (tl_data t)"
  "it_value (TwoLevelIterator iit dit f) t = it_value (Wrapped dit) (tl_data t)"
  by (simp_all add: TwoLevelIterator_def)

lemma concat_nth: "j < length idx \<Longrightarrow> q < length (blocks ! j) \<Longrightarrow>
    block_start j + q < length (concat blocks) \<and> concat blocks ! (block_start j + q) = blocks ! j ! q"
proof -
  assume j: "j < length idx" and q: "q < length (blocks ! j)"
  have "concat blocks = concat (take j blocks) @ blocks ! j @ concat (drop (Suc j) blocks)"
    using j blocks by (metis append_take_drop_id concat.simps(2) concat_append Cons_nth_drop_Suc)
  then show ?thesis using q by (simp add: block_start_def nth_append)
qed

lemma tl_at_pos:
  assumes "tl_at t p" and "p < length (concat blocks)"
  obtains j q where "data_at t j q" "q < length (blocks ! j)" "p = block_start j + q"
  using assms unfolding tl_at_def by blast

lemma tl_at_made: "tl_at t p \<Longrightarrow> tl_made t"
  using data_at_made by (auto simp: tl_at_def tl_made_def data_made_def)

lemma data_op_at:
  assumes "data_at t j q" and "\<exists>w. g (tl_data t) = Ret w \<and> wrap_at dit (dat j) w q'"
  shows "\<exists>t'. data_op g t = Ret t' \<and> data_at t' j q'"
  using assms by (auto simp: data_op_def data_at_def)

lemma two_level_iterator: "iterator (TwoLevelIterator iit dit f) cmp ok (concat blocks) tl_made tl_at"
proof
  fix t p
  assume at: "tl_at t p"
  show "tl_made t" by (rule tl_at_made) (rule at)
  show valid: "it_Valid (TwoLevelIterator iit dit f) t \<longleftrightarrow> p < length (concat blocks)"
    using at unfolding tl_at_def TwoLevel_simps
  proof (elim disjE exE conjE)
    fix j q assume "data_at t j q" "q < length (blocks ! j)" "p = block_start j + q"
    then show "w_valid (tl_data t) \<longleftrightarrow> p < length (concat blocks)" using data_at_valid [of t j q] data_at_index [of t j q] concat_nth [of j q] by simp
  qed simp
  show "p \<le> length (concat blocks)"
    using at unfolding tl_at_def
  proof (elim disjE exE conjE)
    fix j q assume "data_at t j q" "q < length (blocks ! j)" "p = block_start j + q"
    then show ?thesis using data_at_index [of t j q] concat_nth [of j q] by simp
  qed simp
  assume "p < length (concat blocks)"
  then obtain j q where d: "data_at t j q" and q: "q < length (blocks ! j)" and p: "p = block_start j + q"
    using tl_at_pos at by blast
  have j: "j < length idx" and dw: "wrap_at dit (dat j) (tl_data t) q" using d by (simp_all add: data_at_def)
  show "it_key (TwoLevelIterator iit dit f) t = fst (concat blocks ! p) \<and>
      it_value (TwoLevelIterator iit dit f) t = snd (concat blocks ! p)"
    using iterator.entry [OF wblock [OF j] dw q] concat_nth [OF j q] p by (simp only: TwoLevel_simps)
  obtain t1 where t1: "data_op (it_Next (Wrapped dit)) t = Ret t1" "data_at t1 j (Suc q)"
    using data_op_at [where g = "it_Next (Wrapped dit)", OF d iterator.next [OF wblock [OF j] dw q]] by blast
  then show "\<exists>t'. it_Next (TwoLevelIterator iit dit f) t = Ret t' \<and> tl_at t' (Suc p)"
    using skip_forward [OF t1(2)] p by (auto simp: TwoLevelIterator_def SkipEmptyDataBlocksForward_def returned_def)
  obtain t2 where t2: "data_op (it_Prev (Wrapped dit)) t = Ret t2" "data_at t2 j (if q = 0 then length (blocks ! j) else q - 1)"
    using data_op_at [where g = "it_Prev (Wrapped dit)", OF d iterator.prev [OF wblock [OF j] dw q]] by blast
  show "\<exists>t'. it_Prev (TwoLevelIterator iit dit f) t = Ret t' \<and> tl_at t' (if p = 0 then length (concat blocks) else p - 1)"
  proof (cases "q = 0")
    case True
    then show ?thesis
      using t2 skip_backward [OF t2(2)] p by (auto simp: TwoLevelIterator_def SkipEmptyDataBlocksBackward_def returned_def split: if_splits)
  next
    case False
    then have "\<exists>t'. skip_empty iit dit f (it_Prev (Wrapped iit)) (it_SeekToLast (Wrapped dit)) t2 = Some (Ret t') \<and>
        tl_at t' (block_start j + (q - 1))"
      using skip_found [of t2 j "q - 1"] t2(2) q by auto
    then show ?thesis using False t2(1) p by (auto simp: TwoLevelIterator_def SkipEmptyDataBlocksBackward_def returned_def)
  qed
next
  fix t target
  assume made: "tl_made t"
  then have im: "wrap_made imade (tl_index t)" and dm: "data_made t" by (simp_all add: tl_made_def)
  have "it_status (Wrapped iit) (tl_index t) = OK" using iterator.status [OF windex im] .
  moreover have "w_iter (tl_data t) = None \<or> it_status (Wrapped dit) (tl_data t) = OK"
    using dm iterator.status [OF wblock] by (auto simp: data_made_def)
  ultimately show "it_status (TwoLevelIterator iit dit f) t = OK"
    using dm by (auto simp: TwoLevelIterator_def two_level_status_def data_made_def)
  note tl = TwoLevelIterator_def SkipEmptyDataBlocksForward_def SkipEmptyDataBlocksBackward_def returned_def
  show "\<exists>t'. it_SeekToFirst (TwoLevelIterator iit dit f) t = Ret t' \<and> tl_at t' 0"
  proof (cases "idx = []")
    case True
    then obtain x where x: "it_SeekToFirst (Wrapped iit) (tl_index t) = Ret x" "wrap_at iit iat x (length idx)"
      using iterator.seek_to_first [OF windex im] by auto
    then obtain t1 where t1: "move_to iit dit f (it_SeekToFirst (Wrapped iit)) (it_SeekToFirst (Wrapped dit)) t = Ret t1"
        "tl_at t1 (length (concat blocks))" "\<not> w_valid (tl_index t1)"
      using move_to_end [where g = "it_SeekToFirst (Wrapped iit)", OF x dm] by metis
    then show ?thesis
      using skip_at_end [where g = "it_Next (Wrapped iit)" and h = "it_SeekToFirst (Wrapped dit)", OF t1(2,3)] True blocks by (auto simp: tl)
  next
    case False
    then have j: "0 < length idx" by simp
    obtain x where x: "it_SeekToFirst (Wrapped iit) (tl_index t) = Ret x" "wrap_at iit iat x 0"
      using iterator.seek_to_first [OF windex im] by blast
    then obtain t1 where t1: "move_to iit dit f (it_SeekToFirst (Wrapped iit)) (it_SeekToFirst (Wrapped dit)) t = Ret t1" "data_at t1 0 0"
      using move_to_block [where g = "it_SeekToFirst (Wrapped iit)", OF x j dm] iterator.seek_to_first [OF wblock [OF j]] by blast
    then show ?thesis using skip_forward [OF t1(2)] by (auto simp: tl block_start_def)
  qed
  show "\<exists>t'. it_SeekToLast (TwoLevelIterator iit dit f) t = Ret t' \<and> tl_at t' (length (concat blocks) - 1)"
  proof (cases "idx = []")
    case True
    then obtain x where x: "it_SeekToLast (Wrapped iit) (tl_index t) = Ret x" "wrap_at iit iat x (length idx)"
      using iterator.seek_to_last [OF windex im] by auto
    then obtain t1 where t1: "move_to iit dit f (it_SeekToLast (Wrapped iit)) (it_SeekToLast (Wrapped dit)) t = Ret t1"
        "tl_at t1 (length (concat blocks))" "\<not> w_valid (tl_index t1)"
      using move_to_end [where g = "it_SeekToLast (Wrapped iit)", OF x dm] by metis
    then show ?thesis
      using skip_at_end [where g = "it_Prev (Wrapped iit)" and h = "it_SeekToLast (Wrapped dit)", OF t1(2,3)] True blocks by (auto simp: tl)
  next
    case False
    let ?j = "length idx - 1"
    have j: "?j < length idx" and last: "Suc ?j = length idx" using False by (cases idx; simp)+
    obtain x where x: "it_SeekToLast (Wrapped iit) (tl_index t) = Ret x" "wrap_at iit iat x ?j"
      using iterator.seek_to_last [OF windex im] by blast
    then obtain t1 where t1: "move_to iit dit f (it_SeekToLast (Wrapped iit)) (it_SeekToLast (Wrapped dit)) t = Ret t1"
        "data_at t1 ?j (length (blocks ! ?j) - 1)"
      using move_to_block [where g = "it_SeekToLast (Wrapped iit)", OF x j dm] iterator.seek_to_last [OF wblock [OF j]] by blast
    have total: "length (concat blocks) = block_start ?j + length (blocks ! ?j)"
      using block_start_Suc [OF j] block_start_all last by simp
    show ?thesis
    proof (cases "length (blocks ! ?j) - 1 < length (blocks ! ?j)")
      case True
      then show ?thesis using t1(1) skip_found [OF t1(2) True] total by (auto simp: tl)
    next
      case False
      then have "blocks ! ?j = []" by (cases "blocks ! ?j") simp_all
      then have "block_start ?j = length (concat blocks)" using total by simp
      then have "(if block_start ?j = 0 then length (concat blocks) else block_start ?j - 1) = length (concat blocks) - 1"
        by (simp del: length_0_conv length_concat)
      then obtain t' where "skip_empty iit dit f (it_Prev (Wrapped iit)) (it_SeekToLast (Wrapped dit)) t1 = Some (Ret t')"
          "tl_at t' (length (concat blocks) - 1)"
        using skip_backward [OF t1(2) False] by (elim exE conjE) (simp only:)
      then show ?thesis using t1(1) by (auto simp: tl)
    qed
  qed
  assume t: "ok target"
  let ?L = "lower_bound cmp target idx"
  obtain x where x: "it_Seek (Wrapped iit) target (tl_index t) = Ret x" "wrap_at iit iat x ?L"
    using iterator.seek [OF windex im t] by blast
  show "\<exists>t'. it_Seek (TwoLevelIterator iit dit f) target t = Ret t' \<and> tl_at t' (lower_bound cmp target (concat blocks))"
  proof (cases "?L < length idx")
    case True
    then obtain t1 where t1: "move_to iit dit f (it_Seek (Wrapped iit) target) (it_Seek (Wrapped dit) target) t = Ret t1"
        "data_at t1 ?L (lower_bound cmp target (blocks ! ?L))"
      using move_to_block [where g = "it_Seek (Wrapped iit) target", OF x True dm] iterator.seek [OF wblock [OF True] _ t] by blast
    then show ?thesis using skip_forward [OF t1(2)] seek_position [OF t True] by (auto simp: tl)
  next
    case False
    then have L: "?L = length idx" using lower_bound_le [of cmp target idx] by simp
    then obtain t1 where t1: "move_to iit dit f (it_Seek (Wrapped iit) target) (it_Seek (Wrapped dit) target) t = Ret t1"
        "tl_at t1 (length (concat blocks))" "\<not> w_valid (tl_index t1)"
      using move_to_end [where g = "it_Seek (Wrapped iit) target", OF x(1)] x(2) dm by metis
    then show ?thesis
      using skip_at_end [where g = "it_Next (Wrapped iit)" and h = "it_SeekToFirst (Wrapped dit)", OF t1(2,3)] seek_past [OF t L] by (auto simp: tl)
  qed
qed

lemma new_iterates:
  "\<exists>made at. iterator (TwoLevelIterator iit dit f) cmp ok (concat blocks) made at \<and>
     (\<forall>i. imade i \<longrightarrow> made (new_TwoLevelIterator iit i))"
  using two_level_iterator
  by (intro exI [of _ tl_made] exI [of _ tl_at])
    (simp add: tl_made_def data_made_def new_TwoLevelIterator_def wrap_made_def wrapper_Set_def wrapper_Update_def new_wrapper_def Let_def)

end

end
