(* ===== verification/LdbTable.thy ===== *)
theory LdbTable
  imports LdbTableBuilder LdbTwoLevel
begin

text \<open>
  LevelDB, \<^verbatim>\<open>table/table.cc\<close>: opening a table file, iterating over it with an iterator over
  the index and the blocks it names, and looking up a key. The file that the builder writes is
  shown to be read back as the entries that were added. The cache of blocks is not modelled: the
  options are those without one.
\<close>

section \<open>Opening a table\<close>

record table =
  t_options :: Options
  t_file :: RandomAccessFile
  t_filter :: "filter_reader option"
  t_metaindex_handle :: BlockHandle
  t_index_block :: Block

definition ReadFilter :: "Snappy \<Rightarrow> bytes \<Rightarrow> table \<Rightarrow> table run" where
  "ReadFilter z filter_handle_value t =
     (case BlockHandle_DecodeFrom filter_handle_value new_BlockHandle of
        (s, filter_handle, _) \<Rightarrow>
          if \<not> ok s then Ret t
          else
            run_bind (ReadBlock z (t_file t) (paranoid_checks (t_options t)) filter_handle) (\<lambda>(s, block).
              if \<not> ok s then Ret t
              else Ret (t\<lparr>t_filter := Some (new_FilterBlockReader (bc_data block))\<rparr>)))"

definition ReadMeta :: "Snappy \<Rightarrow> Footer \<Rightarrow> table \<Rightarrow> table run" where
  "ReadMeta z footer t =
     (case opt_filter_policy (t_options t) of
        None \<Rightarrow> Ret t
      | Some (name, _) \<Rightarrow>
          run_bind (ReadBlock z (t_file t) (paranoid_checks (t_options t)) (metaindex_handle footer)) (\<lambda>(s, contents).
            if \<not> ok s then Ret t
            else
              let it = BlockIterator BytewiseComparator; key = filter_key name in
              run_bind (it_Seek it key (Block_NewIterator (new_Block (bc_data contents)))) (\<lambda>iter.
                if it_Valid it iter \<and> slice_eq (it_key it iter) key then ReadFilter z (it_value it iter) t
                else Ret t)))"

definition Table_Open :: "Snappy \<Rightarrow> Options \<Rightarrow> RandomAccessFile \<Rightarrow> 64 word \<Rightarrow> (Status \<times> table option) run" where
  "Table_Open z options rf sz =
     (if sz < of_nat kEncodedLength then Ret (Corruption (ascii ''file is too short to be an sstable'') [], None)
      else
        run_bind (rf (sz - of_nat kEncodedLength) (of_nat kEncodedLength)) (\<lambda>(s, footer_input, _).
          if \<not> ok s then Ret (s, None)
          else
            run_bind (Footer_DecodeFrom footer_input \<lparr>metaindex_handle = new_BlockHandle, index_handle = new_BlockHandle\<rparr>)
              (\<lambda>(s, footer, _).
                if \<not> ok s then Ret (s, None)
                else
                  run_bind (ReadBlock z rf (paranoid_checks options) (index_handle footer)) (\<lambda>(s, contents).
                    if \<not> ok s then Ret (s, None)
                    else
                      run_bind
                        (ReadMeta z footer
                          \<lparr>t_options = options, t_file = rf, t_filter = None, t_metaindex_handle = metaindex_handle footer,
                           t_index_block = new_Block (bc_data contents)\<rparr>)
                        (\<lambda>t. Ret (s, Some t))))))"

section \<open>Reading it\<close>

definition BlockReader :: "Snappy \<Rightarrow> table \<Rightarrow> bool \<Rightarrow> bytes \<Rightarrow> block_iterator run" where
  "BlockReader z t verify_checksums index_value =
     (case BlockHandle_DecodeFrom index_value new_BlockHandle of
        (s, handle, _) \<Rightarrow>
          if \<not> ok s then Ret (EmptyBlock (NewErrorIterator s))
          else
            run_bind (ReadBlock z (t_file t) verify_checksums handle) (\<lambda>(s, contents).
              if ok s then Ret (Block_NewIterator (new_Block (bc_data contents)))
              else Ret (EmptyBlock (NewErrorIterator s))))"

definition table_comparator :: "table \<Rightarrow> Comparator" where
  "table_comparator t = opt_comparator (t_options t)"

definition TableIterator :: "Snappy \<Rightarrow> table \<Rightarrow> bool \<Rightarrow> (block_iterator, block_iterator) two_level Iter" where
  "TableIterator z t verify_checksums =
     TwoLevelIterator (BlockIterator (table_comparator t)) (BlockIterator (table_comparator t))
       (BlockReader z t verify_checksums)"

definition Table_NewIterator :: "table \<Rightarrow> (block_iterator, block_iterator) two_level" where
  "Table_NewIterator t = new_TwoLevelIterator (BlockIterator (table_comparator t)) (Block_NewIterator (t_index_block t))"

text \<open>What \<open>saver\<close> is called with, if it is called.\<close>

definition may_match :: "table \<Rightarrow> bytes \<Rightarrow> bytes \<Rightarrow> bool run" where
  "may_match t handle_value k =
     (case (opt_filter_policy (t_options t), t_filter t) of
        (Some (_, p), Some fr) \<Rightarrow>
          (case BlockHandle_DecodeFrom handle_value new_BlockHandle of
             (s, handle, _) \<Rightarrow> if ok s then FilterKeyMayMatch p fr (bh_offset handle) k else Ret True)
      | _ \<Rightarrow> Ret True)"

definition InternalGet :: "Snappy \<Rightarrow> table \<Rightarrow> bool \<Rightarrow> bytes \<Rightarrow> (Status \<times> (bytes \<times> bytes) option) run" where
  "InternalGet z t verify_checksums k =
     (let it = BlockIterator (table_comparator t) in
      run_bind (it_Seek it k (Block_NewIterator (t_index_block t))) (\<lambda>iiter.
        run_bind
          (if it_Valid it iiter then
             run_bind (may_match t (it_value it iiter) k) (\<lambda>m.
               if \<not> m then Ret (OK, None)
               else
                 run_bind (BlockReader z t verify_checksums (it_value it iiter)) (\<lambda>block_iter.
                 run_bind (it_Seek it k block_iter) (\<lambda>block_iter.
                   Ret (it_status it block_iter,
                        if it_Valid it block_iter then Some (it_key it block_iter, it_value it block_iter) else None))))
           else Ret (OK, None))
          (\<lambda>(s, saved). Ret (if ok s then it_status it iiter else s, saved))))"

definition ApproximateOffsetOf :: "table \<Rightarrow> bytes \<Rightarrow> 64 word run" where
  "ApproximateOffsetOf t key =
     (let it = BlockIterator (table_comparator t) in
      run_bind (it_Seek it key (Block_NewIterator (t_index_block t))) (\<lambda>index_iter.
        if it_Valid it index_iter then
          case BlockHandle_DecodeFrom (it_value it index_iter) new_BlockHandle of
            (s, handle, _) \<Rightarrow> Ret (if ok s then bh_offset handle else bh_offset (t_metaindex_handle t))
        else Ret (bh_offset (t_metaindex_handle t))))"

section \<open>An opened table\<close>

text \<open>A file as the builder leaves it, of less than 4 GiB, whose reads succeed.\<close>

definition readable ::
  "Snappy \<Rightarrow> RandomAccessFile \<Rightarrow> Options \<Rightarrow> (bytes \<Rightarrow> bool) \<Rightarrow> bytes \<Rightarrow> placed_block list \<Rightarrow> (bytes \<times> bytes) list \<Rightarrow> bool" where
  "readable z rf opts key_ok F bs idx \<longleftrightarrow>
     comparator (opt_comparator opts) key_ok \<and> compressor z \<and> random_access_file rf F \<and> length F < 2 ^ 32 \<and>
     table_file z opts key_ok F bs idx"

lemma readable_order: "readable z rf opts key_ok F bs idx \<Longrightarrow> key_order (Compare (opt_comparator opts)) key_ok"
  unfolding readable_def by (blast intro: comparator.axioms(1))

lemma ReadBlock_stored_at:
  assumes rd: "readable z rf opts key_ok F bs idx" and stored: "stored_at z F off h raw"
  shows "\<exists>bc. ReadBlock z rf verify h = Ret (OK, bc) \<and> bc_data bc = raw" and "length raw < 2 ^ 32"
    and "unat (bh_offset h) = off" and "off < length F"
proof -
  obtain before data t behind where F: "F = before @ raw_block data t @ behind" "length before = off"
    and h: "h = \<lparr>bh_offset = of_nat off, bh_size = of_nat (length data)\<rparr>" and st: "stores z data t raw"
    using stored by (auto simp: stored_at_def)
  have small: "length F < 2 ^ 32" and z: "compressor z" and rf: "random_access_file rf F" using rd by (simp_all add: readable_def)
  show off: "unat (bh_offset h) = off" using F small by (simp add: h unat_of_nat_64)
  show "off < length F" using F by (simp add: kBlockTrailerSize_def)
  show "length raw < 2 ^ 32" using st F small compressor.uncompress [OF z, of raw data] by (auto simp: stores_def)
  have "unat (bh_size h) = length data" using F small by (simp add: h unat_of_nat_64)
  then show "\<exists>bc. ReadBlock z rf verify h = Ret (OK, bc) \<and> bc_data bc = raw"
    using ReadBlock_stored [OF z rf F(1) _ _ _ st, of h] off F(2) small by simp
qed

text \<open>Reading a block of entries and making an iterator over it.\<close>

lemma read_iterator:
  assumes rd: "readable z rf opts key_ok F bs idx" and stored: "block_stored z F off h kvs"
    and ord: "key_order (Compare c) ok'" and sorted: "sorted_entries (Compare c) ok' kvs"
  shows "\<exists>bc. ReadBlock z rf verify h = Ret (OK, bc) \<and> iterator_made c ok' kvs (Block_NewIterator (new_Block (bc_data bc)))"
proof -
  obtain es rs where st: "stored_at z F off h (block_bytes es rs)" and es: "pairs_of es = kvs" "entries_ok es" "restarts_ok es rs"
    using stored by (auto simp: block_stored_def)
  obtain bc where bc: "ReadBlock z rf verify h = Ret (OK, bc)" "bc_data bc = block_bytes es rs"
    using ReadBlock_stored_at(1) [OF rd st] by blast
  obtain b where b: "Block_NewIterator (new_Block (block_bytes es rs)) = OverBlock b (new_block_iter b)" "block_layout b es rs"
    using NewIterator_layout [OF es(2,3) ReadBlock_stored_at(2) [OF rd st]] by blast
  have "bi_status (new_block_iter b) = OK" by (simp add: new_block_iter_def)
  then have "iterator_made c ok' kvs (Block_NewIterator (new_Block (block_bytes es rs)))"
    using b ord sorted es(1) by (auto simp: iterator_made_def block_made_def)
  then show ?thesis using bc by auto
qed

lemma blocks_in_nth:
  assumes "blocks_in z F bs" and "j < length bs"
  shows "kvs_of bs ! j \<noteq> [] \<and> block_stored z F (fst (bs ! j)) (fst (snd (bs ! j))) (kvs_of bs ! j)"
proof -
  obtain off h kvs where b: "bs ! j = (off, h, kvs)" by (cases "bs ! j")
  then have "(off, h, kvs) \<in> set bs" using assms(2) by (metis nth_mem)
  then show ?thesis using assms b by (auto simp: blocks_in_def)
qed

text \<open>The index is sorted, as each of its keys is followed by a block that is not empty.\<close>

lemma index_sorted:
  assumes rd: "readable z rf opts key_ok F bs idx"
  shows "sorted_entries (Compare (opt_comparator opts)) key_ok idx"
    and "j < length bs \<Longrightarrow> sorted_entries (Compare (opt_comparator opts)) key_ok (kvs_of bs ! j)"
    and "x \<in> set (concat (kvs_of bs)) \<Longrightarrow> key_ok (fst x)"
    and "i < j \<Longrightarrow> j < length idx \<Longrightarrow> x \<in> set (kvs_of bs ! j) \<Longrightarrow> Compare (opt_comparator opts) (fst (idx ! i)) (fst x) < 0"
proof -
  let ?c = "opt_comparator opts"
  note ord = readable_order [OF rd]
  have len: "length idx = length bs" and sep: "separates ?c key_ok idx (kvs_of bs)" and blocks: "blocks_in z F bs"
    and sorted: "sorted_entries (Compare ?c) key_ok (concat (kvs_of bs))"
    using rd by (simp_all add: readable_def table_file_def)
  show keys: "key_ok (fst x)" if "x \<in> set (concat (kvs_of bs))" for x
    using sorted that unfolding sorted_entries_def by blast
  have in_all: "x \<in> set (concat (drop k (kvs_of bs)))" if "k \<le> j" "j < length bs" "x \<in> set (kvs_of bs ! j)" for k j x
  proof -
    have "kvs_of bs ! j \<in> set (drop k (kvs_of bs))"
      using that(1,2) nth_mem [of "j - k" "drop k (kvs_of bs)"] by simp
    then show ?thesis using that(3) by auto
  qed
  show before: "Compare ?c (fst (idx ! i)) (fst x) < 0" if "i < j" "j < length idx" "x \<in> set (kvs_of bs ! j)" for i j x
  proof -
    have "\<forall>y \<in> set (concat (drop (Suc i) (kvs_of bs))). Compare ?c (fst (idx ! i)) (fst y) < 0"
      using sep that by (simp add: separates_def before_all_def del: set_concat)
    moreover have "x \<in> set (concat (drop (Suc i) (kvs_of bs)))"
      using that len by (intro in_all [of _ j]) simp_all
    ultimately show ?thesis by blast
  qed
  show "sorted_entries (Compare ?c) key_ok (kvs_of bs ! j)" if "j < length bs" for j
  proof -
    have "concat (kvs_of bs) = concat (take j (kvs_of bs)) @ kvs_of bs ! j @ concat (drop (Suc j) (kvs_of bs))"
      using that arg_cong [OF id_take_nth_drop [of j "kvs_of bs"], of concat] by simp
    then show ?thesis using sorted by (simp add: sorted_entries_def sorted_wrt_append)
  qed
  have "Compare ?c (fst (idx ! i)) (fst (idx ! j)) < 0" if "i < j" "j < length idx" for i j
  proof -
    have "j < length bs" using that len by simp
    then obtain x where x: "x \<in> set (kvs_of bs ! j)" using blocks_in_nth [OF blocks, of j] by (cases "kvs_of bs ! j") auto
    have "key_ok (fst x)" using keys in_all [of 0 j x] that len x by simp
    then show ?thesis
      using key_order.lt_trans_le [OF ord, of "fst (idx ! i)" "fst x" "fst (idx ! j)"] before [OF that x] sep that x
      by (simp add: separates_def)
  qed
  moreover have "\<forall>x \<in> set idx. key_ok (fst x)" using sep by (auto simp: separates_def all_set_conv_all_nth)
  ultimately show "sorted_entries (Compare ?c) key_ok idx" by (simp add: sorted_entries_def sorted_wrt_iff_nth_less)
qed

lemma placed_block:
  assumes rd: "readable z rf opts key_ok F bs idx" and j: "j < length idx"
  shows "block_stored z F (fst (bs ! j)) (fst (snd (bs ! j))) (kvs_of bs ! j)"
    and "snd (idx ! j) = BlockHandle_EncodeTo (fst (snd (bs ! j))) []"
    and "unat (bh_offset (fst (snd (bs ! j)))) = fst (bs ! j)"
    and "kvs_of bs ! j \<noteq> []" and "length idx = length bs"
proof -
  have tf: "table_file z opts key_ok F bs idx" using rd by (simp add: readable_def)
  then show len: "length idx = length bs" by (simp add: table_file_def)
  show st: "block_stored z F (fst (bs ! j)) (fst (snd (bs ! j))) (kvs_of bs ! j)" and "kvs_of bs ! j \<noteq> []"
    using blocks_in_nth [of z F bs j] tf j len by (simp_all add: table_file_def)
  show "snd (idx ! j) = BlockHandle_EncodeTo (fst (snd (bs ! j))) []"
    using tf j by (simp add: table_file_def handles_of_def)
  show "unat (bh_offset (fst (snd (bs ! j)))) = fst (bs ! j)"
    using st ReadBlock_stored_at(3) [OF rd] by (auto simp: block_stored_def)
qed

definition opened ::
  "Snappy \<Rightarrow> table \<Rightarrow> (bytes \<Rightarrow> bool) \<Rightarrow> bytes \<Rightarrow> placed_block list \<Rightarrow> (bytes \<times> bytes) list \<Rightarrow> bool" where
  "opened z t key_ok F bs idx \<longleftrightarrow>
     readable z (t_file t) (t_options t) key_ok F bs idx \<and>
     iterator_made (table_comparator t) key_ok idx (Block_NewIterator (t_index_block t))"

lemma BlockReader_block:
  assumes op: "opened z t key_ok F bs idx" and j: "j < length idx"
  shows "\<exists>d. BlockReader z t verify (snd (idx ! j)) = Ret d \<and> iterator_made (table_comparator t) key_ok (kvs_of bs ! j) d"
proof -
  have rd: "readable z (t_file t) (t_options t) key_ok F bs idx" using op by (simp add: opened_def)
  note b = placed_block [OF rd j]
  have sorted: "sorted_entries (Compare (opt_comparator (t_options t))) key_ok (kvs_of bs ! j)"
    using index_sorted(2) [OF rd] j b(5) by simp
  obtain bc where "ReadBlock z (t_file t) verify (fst (snd (bs ! j))) = Ret (OK, bc)"
      "iterator_made (opt_comparator (t_options t)) key_ok (kvs_of bs ! j) (Block_NewIterator (new_Block (bc_data bc)))"
    using read_iterator [OF rd b(1) readable_order [OF rd] sorted] by blast
  then show ?thesis
    using BlockHandle_Decode_Encode [of _ "[]"] by (simp add: BlockReader_def b(2) table_comparator_def)
qed

text \<open>The contract of the two-level iterator on an opened table.\<close>

lemma table_two_level:
  assumes op: "opened z t key_ok F bs idx"
  shows "two_level (BlockIterator (table_comparator t)) (Compare (table_comparator t)) key_ok idx
    (iterator_made (table_comparator t) key_ok idx) (iterator_at (table_comparator t) key_ok idx)
    (BlockIterator (table_comparator t)) (BlockReader z t verify) (kvs_of bs)
    (\<lambda>j. iterator_made (table_comparator t) key_ok (kvs_of bs ! j)) (\<lambda>j. iterator_at (table_comparator t) key_ok (kvs_of bs ! j))"
proof -
  have rd: "readable z (t_file t) (t_options t) key_ok F bs idx" using op by (simp add: opened_def)
  then have sorted: "sorted_entries (Compare (table_comparator t)) key_ok (concat (kvs_of bs))"
      and sep: "separates (table_comparator t) key_ok idx (kvs_of bs)" and len: "length idx = length bs"
      and blocks: "blocks_in z F bs"
    by (simp_all add: readable_def table_file_def table_comparator_def)
  have offsets: "i < j \<Longrightarrow> j < length bs \<Longrightarrow> fst (bs ! i) < fst (bs ! j)" for i j
    using blocks by (auto simp: blocks_in_def sorted_wrt_iff_nth_less)
  have "snd (idx ! i) \<noteq> snd (idx ! j)" if "i < j" "j < length idx" for i j
  proof
    assume eq: "snd (idx ! i) = snd (idx ! j)"
    have i: "i < length idx" using that by simp
    have "fst (snd (bs ! i)) = fst (snd (bs ! j))"
      using eq BlockHandle_Decode_Encode [of _ "[]"] unfolding placed_block(2) [OF rd i] placed_block(2) [OF rd that(2)]
      by (metis append_Nil2 prod.inject)
    then show False
      using offsets [of i j] that len placed_block(3) [OF rd i] placed_block(3) [OF rd that(2)] by simp
  qed
  then have handles: "distinct (map snd idx)"
    by (auto simp: distinct_conv_nth nat_neq_iff) metis+
  show ?thesis
  proof (intro two_level.intro two_level_axioms.intro)
    show "iterator (BlockIterator (table_comparator t)) (Compare (table_comparator t)) key_ok idx
      (iterator_made (table_comparator t) key_ok idx) (iterator_at (table_comparator t) key_ok idx)"
      by (rule any_block.iterator_axioms)
    show "key_order (Compare (table_comparator t)) key_ok"
      using readable_order [OF rd] by (simp add: table_comparator_def)
    show "iterator (BlockIterator (table_comparator t)) (Compare (table_comparator t)) key_ok (kvs_of bs ! j)
      (iterator_made (table_comparator t) key_ok (kvs_of bs ! j)) (iterator_at (table_comparator t) key_ok (kvs_of bs ! j))" for j
      by (rule any_block.iterator_axioms)
  qed (use len handles sorted sep BlockReader_block [OF op] index_sorted [OF rd] in
      \<open>auto simp: separates_def table_comparator_def simp del: set_concat\<close>)
qed

lemma no_two_level:
  "two_level (BlockIterator c) (Compare c) (\<lambda>_. False) [] (iterator_made c (\<lambda>_. False) []) (iterator_at c (\<lambda>_. False) [])
    (BlockIterator c) f [] dmade dat"
proof (intro two_level.intro two_level_axioms.intro)
  show "iterator (BlockIterator c) (Compare c) (\<lambda>_. False) [] (iterator_made c (\<lambda>_. False) []) (iterator_at c (\<lambda>_. False) [])"
    by (rule any_block.iterator_axioms)
qed (auto simp: key_order_def sorted_entries_def)

text \<open>A table that is not opened on such a file is taken for one without entries.\<close>

lemma opened_two_level:
  fixes key_ok z t F bs idx
  defines "ok' \<equiv> \<lambda>k. opened z t key_ok F bs idx \<and> key_ok k"
    and "idx' \<equiv> if opened z t key_ok F bs idx then idx else []"
    and "blocks' \<equiv> if opened z t key_ok F bs idx then kvs_of bs else []"
  shows "two_level (BlockIterator (table_comparator t)) (Compare (table_comparator t)) ok' idx'
    (iterator_made (table_comparator t) ok' idx') (iterator_at (table_comparator t) ok' idx')
    (BlockIterator (table_comparator t)) (BlockReader z t verify) blocks'
    (\<lambda>j. iterator_made (table_comparator t) ok' (blocks' ! j)) (\<lambda>j. iterator_at (table_comparator t) ok' (blocks' ! j))"
  using table_two_level [of z t key_ok F bs idx verify] no_two_level
  by (cases "opened z t key_ok F bs idx") (simp_all add: ok'_def idx'_def blocks'_def)

interpretation table_iter: two_level "BlockIterator (table_comparator t)" "Compare (table_comparator t)"
  "\<lambda>k. opened z t key_ok F bs idx \<and> key_ok k" "if opened z t key_ok F bs idx then idx else []"
  "iterator_made (table_comparator t) (\<lambda>k. opened z t key_ok F bs idx \<and> key_ok k) (if opened z t key_ok F bs idx then idx else [])"
  "iterator_at (table_comparator t) (\<lambda>k. opened z t key_ok F bs idx \<and> key_ok k) (if opened z t key_ok F bs idx then idx else [])"
  "BlockIterator (table_comparator t)" "BlockReader z t verify" "if opened z t key_ok F bs idx then kvs_of bs else []"
  "\<lambda>j. iterator_made (table_comparator t) (\<lambda>k. opened z t key_ok F bs idx \<and> key_ok k)
     ((if opened z t key_ok F bs idx then kvs_of bs else []) ! j)"
  "\<lambda>j. iterator_at (table_comparator t) (\<lambda>k. opened z t key_ok F bs idx \<and> key_ok k)
     ((if opened z t key_ok F bs idx then kvs_of bs else []) ! j)"
  for z t key_ok F bs idx verify
  by (rule opened_two_level)

lemma opened_iterator:
  assumes op: "opened z t key_ok F bs idx"
  shows "\<exists>made at. iterator (TableIterator z t verify) (Compare (table_comparator t)) key_ok (concat (kvs_of bs)) made at \<and>
    made (Table_NewIterator t)"
proof -
  have "iterator_made (table_comparator t) key_ok idx (Block_NewIterator (t_index_block t))" using op by (simp add: opened_def)
  then show ?thesis
    using table_iter.new_iterates [where z = z and t = t and key_ok = key_ok and F = F and bs = bs and idx = idx and verify = verify] op
    by (auto simp: TableIterator_def Table_NewIterator_def)
qed

section \<open>Opening\<close>

definition filter_opened :: "table \<Rightarrow> bytes \<Rightarrow> placed_block list \<Rightarrow> bool" where
  "filter_opened t F bs \<longleftrightarrow>
     (case opt_filter_policy (t_options t) of
        None \<Rightarrow> t_filter t = None
      | Some (name, p) \<Rightarrow>
          (\<exists>n. t_filter t = Some (new_FilterBlockReader (FilterFinish p (build_filters p (filter_blocks n bs []) new_FilterBlockBuilder))) \<and>
             (\<forall>b \<in> set bs. fst b < n) \<and> n < length F \<and>
             length (FilterFinish p (build_filters p (filter_blocks n bs []) new_FilterBlockBuilder)) < 2 ^ 32))"

lemma ReadMeta_filter:
  assumes rd: "readable z (t_file t) (t_options t) key_ok F bs idx" and policy: "opt_filter_policy (t_options t) = Some (name, p)"
    and meta: "block_stored z F moff (metaindex_handle footer) [(filter_key name, BlockHandle_EncodeTo fh [])]"
    and stored: "stored_at z F foff fh data"
  shows "ReadMeta z footer t = Ret (t\<lparr>t_filter := Some (new_FilterBlockReader data)\<rparr>)"
proof -
  let ?kvs = "[(filter_key name, BlockHandle_EncodeTo fh [])]" and ?it = "BlockIterator BytewiseComparator"
  let ?verify = "paranoid_checks (t_options t)"
  have "sorted_entries (Compare BytewiseComparator) (\<lambda>_. True) ?kvs" by (simp add: sorted_entries_def)
  then obtain bc where bc: "ReadBlock z (t_file t) ?verify (metaindex_handle footer) = Ret (OK, bc)"
      "iterator_made BytewiseComparator (\<lambda>_. True) ?kvs (Block_NewIterator (new_Block (bc_data bc)))"
    using read_iterator [OF rd meta bytewise.key_order_axioms] by blast
  obtain i where i: "it_Seek ?it (filter_key name) (Block_NewIterator (new_Block (bc_data bc))) = Ret i"
      "iterator_at BytewiseComparator (\<lambda>_. True) ?kvs i (lower_bound (Compare BytewiseComparator) (filter_key name) ?kvs)"
    using any_block.seek [OF bc(2), of "filter_key name"] by auto
  have "lower_bound (Compare BytewiseComparator) (filter_key name) ?kvs = 0"
    using bytewise.compare_refl [of "filter_key name"] by (simp add: lower_bound_def)
  then have "it_Valid ?it i" "it_key ?it i = filter_key name" "it_value ?it i = BlockHandle_EncodeTo fh []"
    using any_block.valid [OF i(2)] any_block.entry [OF i(2)] by simp_all
  moreover obtain fc where fc: "ReadBlock z (t_file t) ?verify fh = Ret (OK, fc)" "bc_data fc = data"
    using ReadBlock_stored_at(1) [OF rd stored] by blast
  moreover have "slice_eq (filter_key name) (filter_key name)" by (simp add: slice_eq_iff)
  ultimately show ?thesis
    using bc(1) i(1) policy BlockHandle_Decode_Encode [of fh "[]"] by (simp add: ReadMeta_def ReadFilter_def Let_def)
qed

text \<open>What is known of a table once it is opened.\<close>

definition has_meta :: "table \<Rightarrow> bytes \<Rightarrow> placed_block list \<Rightarrow> bool" where
  "has_meta t F bs \<longleftrightarrow>
     (\<forall>b \<in> set bs. fst b < unat (bh_offset (t_metaindex_handle t))) \<and> unat (bh_offset (t_metaindex_handle t)) < length F"

lemma Table_Open_readable:
  assumes rd: "readable z rf opts key_ok F bs idx"
  shows "\<exists>t. Table_Open z opts rf (of_nat (length F)) = Ret (OK, Some t) \<and> t_options t = opts \<and>
    opened z t key_ok F bs idx \<and> filter_opened t F bs \<and> has_meta t F bs"
proof -
  have tf: "table_file z opts key_ok F bs idx" and small: "length F < 2 ^ 32" and rf: "random_access_file rf F"
    using rd by (simp_all add: readable_def)
  let ?c = "opt_comparator opts" and ?verify = "paranoid_checks opts"
  obtain body mh ih moff ioff where F: "F = body @ Footer_EncodeTo \<lparr>metaindex_handle = mh, index_handle = ih\<rparr> []"
      and offs: "\<forall>b \<in> set bs. fst b < moff" "moff < ioff" "ioff < length F" and index: "block_stored z F ioff ih idx"
      and meta: "case opt_filter_policy opts of
           None \<Rightarrow> block_stored z F moff mh []
         | Some (name, p) \<Rightarrow>
             (\<exists>n foff fh. block_stored z F moff mh [(filter_key name, BlockHandle_EncodeTo fh [])] \<and>
                stored_at z F foff fh (FilterFinish p (build_filters p (filter_blocks n bs []) new_FilterBlockBuilder)) \<and>
                (\<forall>b \<in> set bs. fst b < n) \<and> n < length F)"
    using tf unfolding table_file_def by blast
  let ?footer = "\<lparr>metaindex_handle = mh, index_handle = ih\<rparr>"
  have len: "length F = length body + kEncodedLength" using F length_Footer_EncodeTo [of ?footer] by simp
  have size: "unat (of_nat (length F) :: 64 word) = length F" using small by (simp add: unat_of_nat_64)
  have enough: "\<not> (of_nat (length F) :: 64 word) < of_nat kEncodedLength"
    using len size by (simp add: word_less_nat_alt kEncodedLength_def kMaxEncodedLength_def
     StartBlock_def kFilterBase_def kFilterBaseLg_def StartBlock_loop.simps new_FilterBlockBuilder_def AddKey_def GenerateFilter_def
     FilterFinish_def bloom_policy_def bloom_create_def bloom_bytes_def new_BloomFilterPolicy_def bloom_add_key_def filter_key_def ascii_def)
  then have start: "unat (of_nat (length F) - of_nat kEncodedLength :: 64 word) = length body"
    using len size by (simp add: unat_sub word_le_nat_alt linorder_not_less kEncodedLength_def kMaxEncodedLength_def del: of_nat_add)
  obtain own where footer: "rf (of_nat (length F) - of_nat kEncodedLength) (of_nat kEncodedLength) = Ret (OK, Footer_EncodeTo ?footer [], own)"
    using random_access_file.read_inside [OF rf, of "of_nat (length F) - of_nat kEncodedLength" "of_nat kEncodedLength"] start len small
      length_Footer_EncodeTo [of ?footer] F by (auto simp: kEncodedLength_def kMaxEncodedLength_def
     StartBlock_def kFilterBase_def kFilterBaseLg_def StartBlock_loop.simps new_FilterBlockBuilder_def AddKey_def GenerateFilter_def
     FilterFinish_def bloom_policy_def bloom_create_def bloom_bytes_def new_BloomFilterPolicy_def bloom_add_key_def filter_key_def ascii_def)
  obtain bc where bc: "ReadBlock z rf ?verify ih = Ret (OK, bc)" "iterator_made ?c key_ok idx (Block_NewIterator (new_Block (bc_data bc)))"
    using read_iterator [OF rd index readable_order [OF rd] index_sorted(1) [OF rd]] by blast
  let ?t = "\<lparr>t_options = opts, t_file = rf, t_filter = None, t_metaindex_handle = mh, t_index_block = new_Block (bc_data bc)\<rparr>"
  have moff: "unat (bh_offset mh) = moff"
    using meta ReadBlock_stored_at(3) [OF rd] by (auto simp: block_stored_def split: option.splits)
  obtain t where t: "ReadMeta z ?footer ?t = Ret t" "t_options t = opts" "t_file t = rf" "t_metaindex_handle t = mh"
      "t_index_block t = new_Block (bc_data bc)" "filter_opened t F bs"
  proof (cases "opt_filter_policy opts")
    case None
    then show thesis using that [of ?t] by (simp add: ReadMeta_def filter_opened_def)
  next
    case (Some np)
    obtain name p where p: "np = (name, p)" by (cases np)
    obtain n foff fh where f: "block_stored z F moff mh [(filter_key name, BlockHandle_EncodeTo fh [])]"
        "stored_at z F foff fh (FilterFinish p (build_filters p (filter_blocks n bs []) new_FilterBlockBuilder))"
        "\<forall>b \<in> set bs. fst b < n" "n < length F"
      using meta Some p by auto
    have "ReadMeta z ?footer ?t = Ret (?t\<lparr>t_filter := Some (new_FilterBlockReader
        (FilterFinish p (build_filters p (filter_blocks n bs []) new_FilterBlockBuilder)))\<rparr>)"
      using ReadMeta_filter [where t = ?t and footer = ?footer, OF _ _ _ f(2)] rd f(1) Some p by simp
    then show thesis
      using that f(3,4) ReadBlock_stored_at(2) [OF rd f(2)] Some p by (simp add: filter_opened_def) blast
  qed
  have "Table_Open z opts rf (of_nat (length F)) = Ret (OK, Some t)"
    using enough footer bc(1) t(1) Footer_Decode_Encode [of ?footer "[]"] by (simp add: Table_Open_def)
  moreover have "opened z t key_ok F bs idx" using rd bc(2) t by (simp add: opened_def table_comparator_def)
  moreover have "has_meta t F bs" using offs moff t(4) by (auto simp: has_meta_def)
  ultimately show ?thesis using t by blast
qed

section \<open>Looking up\<close>

lemma lower_bound_entry:
  assumes ord: "key_order cmp key_ok" and sorted: "sorted_entries cmp key_ok kvs" and p: "p < length kvs"
  shows "lower_bound cmp (fst (kvs ! p)) kvs = p"
proof -
  have "cmp (fst (kvs ! p)) (fst (kvs ! p)) = 0"
    using key_order.compare_refl [OF ord] sorted p by (simp add: sorted_entries_def)
  then have "takeWhile (\<lambda>(k, _). cmp k (fst (kvs ! p)) < 0) kvs = take p kvs"
    using sorted p by (intro takeWhile_eq_take_P_nth) (auto simp: sorted_entries_def sorted_wrt_iff_nth_less case_prod_beta)
  then show ?thesis using p by (simp add: lower_bound_def)
qed

definition policy_fits :: "Options \<Rightarrow> nat \<Rightarrow> bool" where
  "policy_fits opts n \<longleftrightarrow>
     (case opt_filter_policy opts of None \<Rightarrow> True | Some (_, p) \<Rightarrow> \<exists>fits. filter_policy p fits \<and> fits n)"

lemma may_match_block:
  assumes rd: "readable z (t_file t) (t_options t) key_ok F bs idx" and filter: "filter_opened t F bs"
    and fits: "policy_fits (t_options t) (length (concat (kvs_of bs)))" and j: "j < length idx"
  shows "\<exists>m. may_match t (snd (idx ! j)) k = Ret m \<and> (k \<in> fst ` set (kvs_of bs ! j) \<longrightarrow> m)"
proof (cases "opt_filter_policy (t_options t)")
  case None
  then show ?thesis by (intro exI [of _ True]) (simp add: may_match_def)
next
  case (Some np)
  obtain name p where p: "np = (name, p)" by (cases np)
  obtain fits where policy: "filter_policy p fits" "fits (length (concat (kvs_of bs)))"
    using fits Some p by (auto simp: policy_fits_def)
  obtain n where n: "\<forall>b \<in> set bs. fst b < n" "n < length F"
      and fr: "t_filter t = Some (new_FilterBlockReader (FilterFinish p (build_filters p (filter_blocks n bs []) new_FilterBlockBuilder)))"
      and small: "length (FilterFinish p (build_filters p (filter_blocks n bs []) new_FilterBlockBuilder)) < 2 ^ 32"
    using filter Some p by (auto simp: filter_opened_def)
  note b = placed_block [OF rd j]
  have count: "key_count (filter_blocks n bs []) = length (concat (kvs_of bs))"
    by (simp add: key_count_def filter_blocks_def length_concat comp_def case_prod_beta)
  have F: "length F < 2 ^ 32" and incr: "sorted_wrt (<) (map fst bs)"
    using rd by (simp_all add: readable_def table_file_def blocks_in_def)
  have "sorted_wrt (\<lambda>x y. unat (of_nat x :: 64 word) div kFilterBase \<le> unat (of_nat y :: 64 word) div kFilterBase) (map fst bs @ [n])"
  proof (rule sorted_wrt_mono_rel)
    show "sorted_wrt (<) (map fst bs @ [n])" using incr n(1) by (simp add: sorted_wrt_append)
    fix x y assume "x \<in> set (map fst bs @ [n])" "y \<in> set (map fst bs @ [n])" "x < y"
    then have "x < 2 ^ 32" "y < 2 ^ 32" "x \<le> y" using n F by fastforce+
    then show "unat (of_nat x :: 64 word) div kFilterBase \<le> unat (of_nat y :: 64 word) div kFilterBase"
      by (simp add: unat_of_nat_64 div_le_mono)
  qed
  then have order: "sorted (map (\<lambda>(off, keys). unat off div kFilterBase) (filter_blocks n bs []))"
    by (simp add: filter_blocks_def sorted_wrt_map sorted_wrt_append comp_def case_prod_beta)
  have off: "bh_offset (fst (snd (bs ! j))) = of_nat (fst (bs ! j))" by (simp flip: b(3))
  have "(bh_offset (fst (snd (bs ! j))), map fst (kvs_of bs ! j)) \<in> set (filter_blocks n bs [])"
    using j b(5) off nth_mem [of j bs] by (auto simp: filter_blocks_def image_iff case_prod_beta)
  from built_filter_matches [OF policy(1) _ order small this] policy(2) count b(4)
  obtain f where "\<forall>k. FilterKeyMayMatch p (new_FilterBlockReader
        (FilterFinish p (build_filters p (filter_blocks n bs []) new_FilterBlockBuilder))) (bh_offset (fst (snd (bs ! j)))) k =
        Ret (FilterMayMatch p k f)" "\<forall>k \<in> set (map fst (kvs_of bs ! j)). FilterMayMatch p k f"
    by auto
  then show ?thesis
    using Some p fr b(2) BlockHandle_Decode_Encode [of _ "[]"]
    by (intro exI [of _ "FilterMayMatch p k f"]) (auto simp: may_match_def)
qed

text \<open>The index is at the block of the key, or at the end.\<close>

lemma index_Seek:
  assumes op: "opened z t key_ok F bs idx" and k: "key_ok k"
  defines "L \<equiv> lower_bound (Compare (table_comparator t)) k idx"
  shows "\<exists>i. it_Seek (BlockIterator (table_comparator t)) k (Block_NewIterator (t_index_block t)) = Ret i \<and>
    it_Valid (BlockIterator (table_comparator t)) i = (L < length idx) \<and>
    (L < length idx \<longrightarrow> it_value (BlockIterator (table_comparator t)) i = snd (idx ! L)) \<and>
    it_status (BlockIterator (table_comparator t)) i = OK"
proof -
  let ?c = "table_comparator t"
  obtain i where i: "it_Seek (BlockIterator ?c) k (Block_NewIterator (t_index_block t)) = Ret i" "iterator_at ?c key_ok idx i L"
    using any_block.seek [of ?c key_ok idx "Block_NewIterator (t_index_block t)" k] op k by (auto simp: opened_def L_def)
  then show ?thesis
    using any_block.valid [OF i(2)] any_block.entry [OF i(2)] any_block.status [OF any_block.at_made [OF i(2)]] by blast
qed

lemma BlockReader_Seek:
  assumes op: "opened z t key_ok F bs idx" and j: "j < length idx" and k: "key_ok k"
  defines "q \<equiv> lower_bound (Compare (table_comparator t)) k (kvs_of bs ! j)"
  shows "\<exists>d i. BlockReader z t verify (snd (idx ! j)) = Ret d \<and> it_Seek (BlockIterator (table_comparator t)) k d = Ret i \<and>
    it_Valid (BlockIterator (table_comparator t)) i = (q < length (kvs_of bs ! j)) \<and>
    (q < length (kvs_of bs ! j) \<longrightarrow>
       (it_key (BlockIterator (table_comparator t)) i, it_value (BlockIterator (table_comparator t)) i) = kvs_of bs ! j ! q) \<and>
    it_status (BlockIterator (table_comparator t)) i = OK"
proof -
  let ?c = "table_comparator t"
  obtain d where d: "BlockReader z t verify (snd (idx ! j)) = Ret d" "iterator_made ?c key_ok (kvs_of bs ! j) d"
    using BlockReader_block [OF op j] by blast
  obtain i where i: "it_Seek (BlockIterator ?c) k d = Ret i" "iterator_at ?c key_ok (kvs_of bs ! j) i q"
    using any_block.seek [OF d(2) k] by (auto simp: q_def)
  then show ?thesis
    using d(1) any_block.valid [OF i(2)] any_block.entry [OF i(2)] any_block.status [OF any_block.at_made [OF i(2)]]
    by (intro exI conjI) (auto simp: prod_eq_iff)
qed

lemma InternalGet_opened:
  assumes op: "opened z t key_ok F bs idx" and filter: "filter_opened t F bs"
    and fits: "policy_fits (t_options t) (length (concat (kvs_of bs)))" and k: "key_ok k"
  shows "\<exists>r. InternalGet z t verify k = Ret (OK, r) \<and>
    (\<forall>v. (k, v) \<in> set (concat (kvs_of bs)) \<longrightarrow> r = Some (k, v)) \<and>
    (\<forall>e. r = Some e \<longrightarrow> (\<exists>rest. dropWhile (\<lambda>(k', _). Compare (table_comparator t) k' k < 0) (concat (kvs_of bs)) = e # rest))"
proof -
  have rd: "readable z (t_file t) (t_options t) key_ok F bs idx" using op by (simp add: opened_def)
  note tl = table_two_level [OF op]
  let ?c = "table_comparator t" and ?kvs = "concat (kvs_of bs)"
  let ?L = "lower_bound (Compare ?c) k idx"
  have ord: "key_order (Compare ?c) key_ok" using readable_order [OF rd] by (simp add: table_comparator_def)
  have here: "?L < length idx \<and> (k, v) \<in> set (kvs_of bs ! ?L)" if "(k, v) \<in> set ?kvs" for v
    using two_level.seek_block [OF tl k that] key_order.compare_refl [OF ord k] by simp
  obtain i where i: "it_Seek (BlockIterator ?c) k (Block_NewIterator (t_index_block t)) = Ret i"
      "it_Valid (BlockIterator ?c) i = (?L < length idx)" "?L < length idx \<longrightarrow> it_value (BlockIterator ?c) i = snd (idx ! ?L)"
      "it_status (BlockIterator ?c) i = OK"
    using index_Seek [OF op k] by blast
  show ?thesis
  proof (cases "?L < length idx")
    case False
    then have "InternalGet z t verify k = Ret (OK, None)" using i by (simp add: InternalGet_def)
    then show ?thesis using here False by blast
  next
    case L: True
    obtain m where m: "may_match t (snd (idx ! ?L)) k = Ret m" "k \<in> fst ` set (kvs_of bs ! ?L) \<Longrightarrow> m"
      using may_match_block [OF rd filter fits L, of k] by blast
    show ?thesis
    proof (cases m)
      case False
      then have "InternalGet z t verify k = Ret (OK, None)" using i L m(1) by (simp add: InternalGet_def)
      moreover have "(k, v) \<notin> set ?kvs" for v using here [of v] m(2) False by force
      ultimately show ?thesis by blast
    next
      case True
      let ?q = "lower_bound (Compare ?c) k (kvs_of bs ! ?L)"
      obtain d j where d: "BlockReader z t verify (snd (idx ! ?L)) = Ret d" "it_Seek (BlockIterator ?c) k d = Ret j"
          "it_Valid (BlockIterator ?c) j = (?q < length (kvs_of bs ! ?L))"
          "?q < length (kvs_of bs ! ?L) \<longrightarrow> (it_key (BlockIterator ?c) j, it_value (BlockIterator ?c) j) = kvs_of bs ! ?L ! ?q"
          "it_status (BlockIterator ?c) j = OK"
        using BlockReader_Seek [OF op L k] by blast
      let ?r = "if ?q < length (kvs_of bs ! ?L) then Some (kvs_of bs ! ?L ! ?q) else None"
      have get: "InternalGet z t verify k = Ret (OK, ?r)"
        using i L m(1) True d by (simp add: InternalGet_def)
      have "?r = Some (k, v)" if kv: "(k, v) \<in> set ?kvs" for v
      proof -
        obtain p where p: "p < length (kvs_of bs ! ?L)" "kvs_of bs ! ?L ! p = (k, v)"
          using here [OF kv] by (auto simp: in_set_conv_nth)
        have "sorted_entries (Compare ?c) key_ok (kvs_of bs ! ?L)"
          using index_sorted(2) [OF rd, of ?L] placed_block(5) [OF rd L] L by (simp add: table_comparator_def)
        from lower_bound_entry [OF ord this p(1)] p show ?thesis by simp
      qed
      moreover have "\<exists>rest. dropWhile (\<lambda>(k', _). Compare ?c k' k < 0) ?kvs = e # rest" if "?r = Some e" for e
      proof -
        have q: "?q < length (kvs_of bs ! ?L)" "e = kvs_of bs ! ?L ! ?q" using that by (auto split: if_splits)
        have "lower_bound (Compare ?c) k ?kvs < length ?kvs" "?kvs ! lower_bound (Compare ?c) k ?kvs = e"
          using two_level.seek_position [OF tl k L] two_level.concat_nth [OF tl L q(1)] q(2) by simp_all
        then show ?thesis by (metis Cons_nth_drop_Suc dropWhile_eq_drop lower_bound_def)
      qed
      ultimately show ?thesis using get by blast
    qed
  qed
qed

text \<open>
  The first entry at or behind the key is found also when it is not the key itself, if the filter
  does not tell the two apart and no separator before the entry lies at or behind the key.
\<close>

lemma may_match_same:
  assumes "\<And>name p f. opt_filter_policy (t_options t) = Some (name, p) \<Longrightarrow> FilterMayMatch p k f = FilterMayMatch p k' f"
  shows "may_match t h k = may_match t h k'"
proof -
  have "FilterKeyMayMatch p fr off k = FilterKeyMayMatch p fr off k'" if "opt_filter_policy (t_options t) = Some (name, p)" for name p fr off
    using assms [OF that] by (simp add: FilterKeyMayMatch_def Let_def)
  then show ?thesis by (auto simp: may_match_def split: option.split prod.split)
qed

lemma block_of_next:
  assumes op: "opened z t key_ok F bs idx" and k: "key_ok k"
    and e: "dropWhile (\<lambda>(k', _). Compare (table_comparator t) k' k < 0) (concat (kvs_of bs)) = e # rest"
    and tight: "\<And>a. key_ok a \<Longrightarrow> Compare (table_comparator t) a (fst e) < 0 \<Longrightarrow> Compare (table_comparator t) a k < 0 \<Longrightarrow>
      Compare (table_comparator t) (FindShortestSeparator (table_comparator t) a (fst e)) k < 0"
  defines "L \<equiv> lower_bound (Compare (table_comparator t)) k idx"
  defines "q \<equiv> lower_bound (Compare (table_comparator t)) k (kvs_of bs ! L)"
  shows "L < length idx" and "q < length (kvs_of bs ! L)" and "kvs_of bs ! L ! q = e"
proof -
  let ?c = "table_comparator t" and ?kvs = "concat (kvs_of bs)"
  have rd: "readable z (t_file t) (t_options t) key_ok F bs idx" using op by (simp add: opened_def)
  have ord: "key_order (Compare ?c) key_ok" using readable_order [OF rd] by (simp add: table_comparator_def)
  note tl = table_two_level [OF op]
  let ?p = "lower_bound (Compare ?c) k ?kvs"
  have "drop ?p ?kvs = e # rest" using e by (simp add: dropWhile_eq_drop lower_bound_def)
  then have p: "?p < length ?kvs" "?kvs ! ?p = e" by (metis drop_all list.distinct(1) not_less) (metis nth_via_drop \<open>drop ?p ?kvs = e # rest\<close>)
  have e_in: "e \<in> set ?kvs" using p nth_mem by metis
  have ge: "\<not> Compare ?c (fst e) k < 0" using lower_bound_stop [OF p(1)] p(2) by simp
  have ke: "key_ok (fst e)" using e_in index_sorted(3) [OF rd] by simp
  obtain j where j: "j < length idx" "e \<in> set (kvs_of bs ! j)"
    using e_in placed_block(5) [OF rd] rd by (auto simp: in_set_conv_nth [of _ bs] readable_def table_file_def)
  have "Compare ?c (fst e) (fst (idx ! j)) \<le> 0" using two_level.last_key [OF tl j] by simp
  moreover have "key_ok (fst (idx ! j))" using two_level.ok_keys(1) [OF tl j(1)] by simp
  ultimately have "\<not> Compare ?c (fst (idx ! j)) k < 0" using key_order.le_trans_lt [OF ord ke _ k] ge by blast
  then have "L \<le> j" using lower_bound_below [of j "Compare ?c" k idx] unfolding L_def by (meson not_le_imp_less)
  then show L: "L < length idx" using j by simp
  have at_L: "\<not> Compare ?c (fst (idx ! L)) k < 0" using lower_bound_stop [of "Compare ?c" k idx] L by (simp add: L_def)
  have pos: "?p = two_level.block_start (kvs_of bs) L + q" using two_level.seek_position [OF tl k] L by (simp add: L_def q_def)
  have blen: "length bs = length idx" using placed_block(5) [OF rd L] by simp
  show q: "q < length (kvs_of bs ! L)"
  proof (rule ccontr)
    assume "\<not> q < length (kvs_of bs ! L)"
    then have "q = length (kvs_of bs ! L)" using lower_bound_le [of "Compare ?c" k "kvs_of bs ! L"] by (simp add: q_def)
    then have "?p = length (concat (take (Suc L) (kvs_of bs)))"
      using pos L blen by (simp add: two_level.block_start_def [OF tl] take_Suc_conv_app_nth)
    moreover have "?kvs = concat (take (Suc L) (kvs_of bs)) @ concat (drop (Suc L) (kvs_of bs))"
      by (metis append_take_drop_id concat_append)
    ultimately have "concat (drop (Suc L) (kvs_of bs)) = e # rest" using \<open>drop ?p ?kvs = e # rest\<close> by simp
    note follows = this
    have sh: "shortest ?c idx (kvs_of bs) []" and sp: "separates ?c key_ok idx (kvs_of bs)"
      using rd by (simp_all add: readable_def table_file_def table_comparator_def)
    have sep: "fst (idx ! L) = FindShortestSeparator ?c (fst (last (kvs_of bs ! L))) (fst e)"
      using sh L follows unfolding shortest_def by (simp only: append_Nil2)
    have "before_all ?c [idx ! L] (concat (drop (Suc L) (kvs_of bs)))"
      using sp L unfolding separates_def by blast
    then have before: "Compare ?c (fst (idx ! L)) (fst e) < 0" unfolding follows by (simp add: before_all_def)
    have ne: "kvs_of bs ! L \<noteq> []" by (rule placed_block(4) [OF rd L])
    then have in_L: "last (kvs_of bs ! L) \<in> set (kvs_of bs ! L)" by simp
    then have kl: "key_ok (fst (last (kvs_of bs ! L)))"
      using index_sorted(2) [OF rd, of L] L blen unfolding sorted_entries_def by auto
    have "Compare ?c (fst (last (kvs_of bs ! L))) k < 0"
      using lower_bound_below [of "length (kvs_of bs ! L) - 1" "Compare ?c" k "kvs_of bs ! L"] ne \<open>q = length (kvs_of bs ! L)\<close>
      by (simp add: q_def last_conv_nth)
    moreover have "Compare ?c (fst (last (kvs_of bs ! L))) (fst e) < 0"
      using key_order.le_trans_lt [OF ord kl _ ke, of "fst (idx ! L)"] two_level.last_key [OF tl L in_L] two_level.ok_keys(1) [OF tl L] before
      by simp
    ultimately show False using tight [OF kl] sep at_L by simp
  qed
  show "kvs_of bs ! L ! q = e"
    using two_level.concat_nth [OF tl L q] p(2) pos by simp
qed

lemma InternalGet_near:
  assumes op: "opened z t key_ok F bs idx" and filter: "filter_opened t F bs"
    and fits: "policy_fits (t_options t) (length (concat (kvs_of bs)))" and k: "key_ok k"
    and e: "dropWhile (\<lambda>(k', _). Compare (table_comparator t) k' k < 0) (concat (kvs_of bs)) = e # rest"
    and tight: "\<And>a. key_ok a \<Longrightarrow> Compare (table_comparator t) a (fst e) < 0 \<Longrightarrow> Compare (table_comparator t) a k < 0 \<Longrightarrow>
      Compare (table_comparator t) (FindShortestSeparator (table_comparator t) a (fst e)) k < 0"
    and same: "\<And>name p f. opt_filter_policy (t_options t) = Some (name, p) \<Longrightarrow> FilterMayMatch p k f = FilterMayMatch p (fst e) f"
  shows "InternalGet z t verify k = Ret (OK, Some e)"
proof -
  let ?c = "table_comparator t"
  let ?L = "lower_bound (Compare ?c) k idx"
  let ?q = "lower_bound (Compare ?c) k (kvs_of bs ! ?L)"
  have rd: "readable z (t_file t) (t_options t) key_ok F bs idx" using op by (simp add: opened_def)
  note here = block_of_next [OF op k e tight]
  obtain i where i: "it_Seek (BlockIterator ?c) k (Block_NewIterator (t_index_block t)) = Ret i"
      "it_Valid (BlockIterator ?c) i = (?L < length idx)" "?L < length idx \<longrightarrow> it_value (BlockIterator ?c) i = snd (idx ! ?L)"
      "it_status (BlockIterator ?c) i = OK"
    using index_Seek [OF op k] by blast
  have "fst e \<in> fst ` set (kvs_of bs ! ?L)" using here(2,3) nth_mem by force
  then have m: "may_match t (snd (idx ! ?L)) k = Ret True"
    using may_match_block [OF rd filter fits here(1), of "fst e"] may_match_same [OF same] by auto
  obtain d j where d: "BlockReader z t verify (snd (idx ! ?L)) = Ret d" "it_Seek (BlockIterator ?c) k d = Ret j"
      "it_Valid (BlockIterator ?c) j = (?q < length (kvs_of bs ! ?L))"
      "?q < length (kvs_of bs ! ?L) \<longrightarrow> (it_key (BlockIterator ?c) j, it_value (BlockIterator ?c) j) = kvs_of bs ! ?L ! ?q"
      "it_status (BlockIterator ?c) j = OK"
    using BlockReader_Seek [OF op here(1) k] by blast
  show ?thesis using i m d here by (simp add: InternalGet_def)
qed

section \<open>Offsets\<close>

lemma lower_bound_mono:
  assumes ord: "key_order cmp key_ok" and sorted: "sorted_entries cmp key_ok kvs" and k: "key_ok k" "key_ok k'" "cmp k k' \<le> 0"
  shows "lower_bound cmp k kvs \<le> lower_bound cmp k' kvs"
proof (rule ccontr)
  assume "\<not> lower_bound cmp k kvs \<le> lower_bound cmp k' kvs"
  then have p: "lower_bound cmp k' kvs < lower_bound cmp k kvs" by simp
  then have "lower_bound cmp k' kvs < length kvs" using lower_bound_le [of cmp k kvs] by linarith
  then show False
    using lower_bound_below [OF p] lower_bound_stop [of cmp k' kvs] sorted k key_order.lt_trans_le [OF ord _ k(1,2)]
    by (auto simp: sorted_entries_def)
qed

lemma ApproximateOffsetOf_opened:
  assumes op: "opened z t key_ok F bs idx" and k: "key_ok k"
  defines "L \<equiv> lower_bound (Compare (table_comparator t)) k idx"
  shows "ApproximateOffsetOf t k =
    Ret (if L < length idx then bh_offset (fst (snd (bs ! L))) else bh_offset (t_metaindex_handle t))"
proof -
  have rd: "readable z (t_file t) (t_options t) key_ok F bs idx" using op by (simp add: opened_def)
  show ?thesis
    using index_Seek [OF op k] placed_block(2) [OF rd, of L] BlockHandle_Decode_Encode [of _ "[]"]
    by (auto simp: ApproximateOffsetOf_def L_def)
qed

section \<open>A table that was built\<close>

definition built_table :: "Snappy \<Rightarrow> 'f WritableFile \<Rightarrow> Options \<Rightarrow> 'f \<Rightarrow> (bytes \<times> bytes) list \<Rightarrow> Status \<times> 'f table_builder" where
  "built_table z wfile opts f kvs = TableBuilder_Finish z wfile (add_entries z wfile kvs (new_TableBuilder opts f))"

lemma built_opened:
  assumes wf: "writable_file wfile contents" "contents f = []"
    and build: "built_table z wfile opts f kvs = (s, r)"
    and cmp: "comparator (opt_comparator opts) key_ok" and z: "compressor z" "known_compression opts"
    and sorted: "sorted_entries (Compare (opt_comparator opts)) key_ok kvs"
    and rf: "random_access_file rf (contents (tb_file r))" and small: "length (contents (tb_file r)) < 2 ^ 32"
  shows "s = OK \<and> FileSize r = of_nat (length (contents (tb_file r))) \<and>
    (\<exists>t bs idx. Table_Open z opts rf (FileSize r) = Ret (OK, Some t) \<and> t_options t = opts \<and>
      opened z t key_ok (contents (tb_file r)) bs idx \<and> filter_opened t (contents (tb_file r)) bs \<and>
      has_meta t (contents (tb_file r)) bs \<and> concat (kvs_of bs) = kvs)"
proof -
  have inv0: "writable_file.emitted contents z opts key_ok (new_TableBuilder opts f) [] [] [] []"
    by (rule writable_file.emitted_new) (use wf in simp_all)
  obtain F bs idx cur where inv: "writable_file.emitted contents z opts key_ok (add_entries z wfile kvs (new_TableBuilder opts f)) F bs idx cur"
      "concat (kvs_of bs) @ cur = kvs"
    using writable_file.add_entries_emitted [OF wf(1) cmp z(2) inv0, of kvs] sorted by auto
  obtain r' F' bs' idx' where fin: "TableBuilder_Finish z wfile (add_entries z wfile kvs (new_TableBuilder opts f)) = (OK, r')"
      "contents (tb_file r') = F'" "tb_offset r' = of_nat (length F')" "table_file z opts key_ok F' bs' idx'" "concat (kvs_of bs') = kvs"
    using writable_file.Finish_emitted [OF wf(1) cmp z(2) inv(1)] inv(2) by blast
  then have r: "s = OK" "r = r'" using build by (simp_all add: built_table_def)
  have "readable z rf opts key_ok F' bs' idx'" using cmp z(1) rf small fin r(2) by (simp add: readable_def)
  from Table_Open_readable [OF this] show ?thesis using r fin by (auto simp: FileSize_def)
qed

definition example_opts :: Options where
  "example_opts = \<lparr>opt_comparator = BytewiseComparator, paranoid_checks = True, opt_block_size = 1, block_restart_interval = 16,
     compression = kNoCompression, opt_filter_policy = Some (ascii ''bloom'', bloom_policy (new_BloomFilterPolicy 10 6))\<rparr>"

text \<open>A table of two blocks of one entry, with a Bloom filter.\<close>

definition example_table :: "Status \<times> (bytes \<times> bytes) table_builder" where
  "example_table = built_table NoSnappy (PosixWritableFile disk_stdio []) example_opts ([], []) [([97], [1]), ([98, 99], [2])]"

lemma example_length: "length (snd (tb_file (snd example_table))) < 2 ^ 32"
  by (simp add: example_table_def built_table_def add_entries_def TableBuilder_Add_def TableBuilder_Finish_def example_opts_def new_TableBuilder_def Let_def
     Flush_def WriteBlock_def WriteRawBlock_def compressed_def BlockBuilder_empty_def new_BlockBuilder_def BlockBuilder_Add_def
     BlockBuilder_Finish_def CurrentSizeEstimate_def BlockBuilder_Reset_def write_filter_block_def write_metaindex_block_def
     write_index_block_def write_footer_def add_index_entry_def PosixWritableFile_def PosixWritableFile_Append_def PosixWritableFile_Flush_def
     disk_stdio_def PutVarint32_def EncodeVarint32_def fold_PutFixed32 PutFixed32_def kBlockTrailerSize_def length_Footer_EncodeTo
     BlockHandle_EncodeTo_def PutVarint64_def EncodeVarint64.simps bytewise_separator_simps kEncodedLength_def kMaxEncodedLength_def
     StartBlock_def kFilterBase_def kFilterBaseLg_def StartBlock_loop.simps new_FilterBlockBuilder_def AddKey_def GenerateFilter_def
     FilterFinish_def bloom_policy_def bloom_create_def bloom_bytes_def new_BloomFilterPolicy_def bloom_add_key_def filter_key_def ascii_def)

lemma example_table:
  shows "writable_file (PosixWritableFile disk_stdio []) snd" and "snd (([], []) :: bytes \<times> bytes) = []"
    and "built_table NoSnappy (PosixWritableFile disk_stdio []) example_opts ([], []) [([97], [1]), ([98, 99], [2])] =
      (fst example_table, snd example_table)"
    and "comparator (opt_comparator example_opts) (\<lambda>_. True)" and "compressor NoSnappy" and "known_compression example_opts"
    and "sorted_entries (Compare (opt_comparator example_opts)) (\<lambda>_. True) [([97], [1 :: 8 word]), ([98, 99], [2])]"
    and "random_access_file (PosixMmapReadableFile [] [] (snd (tb_file (snd example_table)))) (snd (tb_file (snd example_table)))"
    and "length (snd (tb_file (snd example_table))) < 2 ^ 32"
  by (rule disk.posix_writes.writable_file_axioms no_snappy.compressor_axioms mmap_file.random_access_file_axioms example_length
    | simp add: example_table_def example_opts_def known_compression_def sorted_entries_def bytewise.comparator_axioms)+

text \<open>
  C6. A table built from entries in the order of the comparator, with or without compression and a
  filter, is written and opened without errors, and its iterator reads the entries forwards,
  backwards and from a target, whatever the sizes of the blocks.
\<close>
theorem table_iterates:
  assumes wf: "writable_file wfile contents" "contents f = []"
    and build: "built_table z wfile opts f kvs = (s, r)"
    and cmp: "comparator (opt_comparator opts) key_ok" and z: "compressor z" "known_compression opts"
    and sorted: "sorted_entries (Compare (opt_comparator opts)) key_ok kvs"
    and rf: "random_access_file rf (contents (tb_file r))" and small: "length (contents (tb_file r)) < 2 ^ 32"
    and k: "key_ok k" and n: "length kvs < n"
  shows "s = OK \<and> FileSize r = of_nat (length (contents (tb_file r))) \<and>
    (\<exists>t. Table_Open z opts rf (FileSize r) = Ret (OK, Some t) \<and>
      run_bind (it_SeekToFirst (TableIterator z t verify) (Table_NewIterator t)) (scan (TableIterator z t verify) n) = Ret kvs \<and>
      run_bind (it_SeekToLast (TableIterator z t verify) (Table_NewIterator t)) (scan_back (TableIterator z t verify) n) = Ret (rev kvs) \<and>
      run_bind (it_Seek (TableIterator z t verify) k (Table_NewIterator t)) (scan (TableIterator z t verify) n) =
        Ret (dropWhile (\<lambda>(k', _). Compare (opt_comparator opts) k' k < 0) kvs))"
proof -
  from built_opened [OF assms(1-9)] obtain t bs idx where st: "s = OK" "FileSize r = of_nat (length (contents (tb_file r)))"
      and t: "Table_Open z opts rf (FileSize r) = Ret (OK, Some t)" "t_options t = opts"
      and op: "opened z t key_ok (contents (tb_file r)) bs idx" and kvs: "concat (kvs_of bs) = kvs"
    by blast
  obtain made at where it: "iterator (TableIterator z t verify) (Compare (opt_comparator opts)) key_ok kvs made at"
      and made: "made (Table_NewIterator t)"
    using opened_iterator [OF op, of verify] unfolding table_comparator_def t(2) kvs by blast
  show ?thesis
    using st t(1) iterator.scan_all [OF it made n] iterator.scan_back_all [OF it made n] iterator.scan_from [OF it made k n]
    by blast
qed

theorem table_iterates_witness:
  "\<exists>t. Table_Open NoSnappy example_opts (PosixMmapReadableFile [] [] (snd (tb_file (snd example_table)))) (FileSize (snd example_table)) = Ret (OK, Some t) \<and>
     run_bind (it_Seek (TableIterator NoSnappy t True) [98] (Table_NewIterator t)) (scan (TableIterator NoSnappy t True) 3) = Ret [([98, 99], [2])]"
  using table_iterates [OF example_table, where k = "[98]" and n = 3 and verify = True] by (auto simp: example_opts_def)

text \<open>
  C20. Looking up a key in such a table calls back with the entry of the key if there is one; otherwise
  it calls back with the first entry behind the key or not at all. The filter never hides an entry.
\<close>
theorem table_get:
  assumes wf: "writable_file wfile contents" "contents f = []"
    and build: "built_table z wfile opts f kvs = (s, r)"
    and cmp: "comparator (opt_comparator opts) key_ok" and z: "compressor z" "known_compression opts"
    and sorted: "sorted_entries (Compare (opt_comparator opts)) key_ok kvs"
    and rf: "random_access_file rf (contents (tb_file r))" and small: "length (contents (tb_file r)) < 2 ^ 32"
    and fits: "policy_fits opts (length kvs)" and k: "key_ok k"
  shows "\<exists>t e. Table_Open z opts rf (FileSize r) = Ret (OK, Some t) \<and> InternalGet z t verify k = Ret (OK, e) \<and>
    (\<forall>v. (k, v) \<in> set kvs \<longrightarrow> e = Some (k, v)) \<and>
    (\<forall>x. e = Some x \<longrightarrow> (\<exists>rest. dropWhile (\<lambda>(k', _). Compare (opt_comparator opts) k' k < 0) kvs = x # rest))"
proof -
  from built_opened [OF assms(1-9)] obtain t bs idx where
      t: "Table_Open z opts rf (FileSize r) = Ret (OK, Some t)" "t_options t = opts"
      and op: "opened z t key_ok (contents (tb_file r)) bs idx" "filter_opened t (contents (tb_file r)) bs" and kvs: "concat (kvs_of bs) = kvs"
    by blast
  from InternalGet_opened [OF op _ k, of verify] fits t kvs show ?thesis by (auto simp: table_comparator_def)
qed

theorem table_get_witness:
  "\<exists>t. Table_Open NoSnappy example_opts (PosixMmapReadableFile [] [] (snd (tb_file (snd example_table)))) (FileSize (snd example_table)) = Ret (OK, Some t) \<and>
     InternalGet NoSnappy t False [98, 99] = Ret (OK, Some ([98, 99], [2]))"
proof -
  have "filter_policy (bloom_policy (new_BloomFilterPolicy 10 6)) (bloom_fits (new_BloomFilterPolicy 10 6))"
    by (rule bloom.user.filter_policy_axioms)
  moreover have "bloom_fits (new_BloomFilterPolicy 10 6) (Suc (Suc 0))"
    by (simp add: bloom_fits_def new_BloomFilterPolicy_def Let_def)
  ultimately have "policy_fits example_opts (length [([97], [1 :: 8 word]), ([98, 99 :: 8 word], [2])])"
    by (auto simp: policy_fits_def example_opts_def)
  from table_get [OF example_table this, where k = "[98, 99]" and verify = False] show ?thesis by fastforce
qed

text \<open>
  The approximate offsets of the keys of such a table do not decrease with the key, and lie
  inside the file.
\<close>
theorem table_offsets_monotone:
  assumes wf: "writable_file wfile contents" "contents f = []"
    and build: "built_table z wfile opts f kvs = (s, r)"
    and cmp: "comparator (opt_comparator opts) key_ok" and z: "compressor z" "known_compression opts"
    and sorted: "sorted_entries (Compare (opt_comparator opts)) key_ok kvs"
    and rf: "random_access_file rf (contents (tb_file r))" and small: "length (contents (tb_file r)) < 2 ^ 32"
    and k: "key_ok k" "key_ok k'" "Compare (opt_comparator opts) k k' \<le> 0"
  shows "\<exists>t a b. Table_Open z opts rf (FileSize r) = Ret (OK, Some t) \<and>
    ApproximateOffsetOf t k = Ret a \<and> ApproximateOffsetOf t k' = Ret b \<and> a \<le> b \<and> b < FileSize r"
proof -
  from built_opened [OF assms(1-9)] obtain t bs idx where
      t: "Table_Open z opts rf (FileSize r) = Ret (OK, Some t)" "t_options t = opts"
      and op: "opened z t key_ok (contents (tb_file r)) bs idx" and meta: "has_meta t (contents (tb_file r)) bs"
      and fsize: "FileSize r = of_nat (length (contents (tb_file r)))"
    by blast
  let ?F = "contents (tb_file r)" and ?cmp = "Compare (table_comparator t)"
  let ?offset = "\<lambda>L. if L < length idx then bh_offset (fst (snd (bs ! L))) else bh_offset (t_metaindex_handle t)"
  have rd: "readable z (t_file t) (t_options t) key_ok ?F bs idx" using op by (simp add: opened_def)
  have incr: "sorted_wrt (<) (map fst bs)" using rd by (simp add: readable_def table_file_def blocks_in_def)
  have len: "length idx = length bs" using rd by (simp add: readable_def table_file_def)
  have off: "unat (?offset L) = (if L < length idx then fst (bs ! L) else unat (bh_offset (t_metaindex_handle t)))" for L
    using placed_block(3) [OF rd, of L] by simp
  have before: "L < length idx \<Longrightarrow> fst (bs ! L) < unat (bh_offset (t_metaindex_handle t))" for L
    using meta len nth_mem [of L bs] by (auto simp: has_meta_def)
  have mono: "unat (?offset L) \<le> unat (?offset M)" if "L \<le> M" for L M
    unfolding off using that before [of L] incr len by (cases "L = M") (auto simp: sorted_wrt_iff_nth_less intro: less_imp_le)
  have "lower_bound ?cmp k idx \<le> lower_bound ?cmp k' idx"
    using lower_bound_mono [OF readable_order [OF rd] index_sorted(1) [OF rd] k(1,2)] k(3) t(2) by (simp add: table_comparator_def)
  then have le: "?offset (lower_bound ?cmp k idx) \<le> ?offset (lower_bound ?cmp k' idx)"
    using mono by (simp only: word_le_nat_alt)
  have "unat (?offset L) < length ?F" for L unfolding off using before [of L] meta by (auto simp: has_meta_def)
  then have "?offset (lower_bound ?cmp k' idx) < FileSize r"
    using small by (simp only: word_less_nat_alt fsize) (simp add: unat_of_nat_64)
  then show ?thesis
    using t(1) le ApproximateOffsetOf_opened [OF op k(1)] ApproximateOffsetOf_opened [OF op k(2)] by blast
qed

theorem table_offsets_monotone_witness:
  "\<exists>t a b. Table_Open NoSnappy example_opts (PosixMmapReadableFile [] [] (snd (tb_file (snd example_table)))) (FileSize (snd example_table)) = Ret (OK, Some t) \<and>
     ApproximateOffsetOf t [97] = Ret a \<and> ApproximateOffsetOf t [99] = Ret b \<and> a \<le> b \<and> b < FileSize (snd example_table)"
  using table_offsets_monotone [OF example_table, where k = "[97]" and k' = "[99]"] by (simp add: example_opts_def)

end
