(* ===== verification/LdbPosixEnv.thy ===== *)
theory LdbPosixEnv
  imports LdbTableFormat
begin

text \<open>
  LevelDB, the environment of \<^verbatim>\<open>leveldb/env.h\<close>, its POSIX implementation in
  \<^verbatim>\<open>util/env_posix.cc\<close> and the helpers of \<^verbatim>\<open>util/env.cc\<close>. The system calls are a
  parameter with their state. What a client relies on, which names an operation leaves alone and
  what a file holds once it is closed, is a locale; the POSIX environment meets it over any kernel
  whose calls do. Threads, directories for tests and the logger are not modelled.
\<close>

section \<open>The interface\<close>

text \<open>The result is \<open>None\<close> where the code stores a null pointer; the lock is a name and a descriptor.\<close>

record 's Env =
  env_NewSequentialFile :: "bytes \<Rightarrow> 's \<Rightarrow> Status \<times> 's SequentialFile option \<times> 's"
  env_NewRandomAccessFile :: "bytes \<Rightarrow> 's \<Rightarrow> Status \<times> RandomAccessFile option \<times> 's"
  env_NewWritableFile :: "bytes \<Rightarrow> 's \<Rightarrow> Status \<times> 's WritableFile option \<times> 's"
  env_FileExists :: "bytes \<Rightarrow> 's \<Rightarrow> bool \<times> 's"
  env_GetChildren :: "bytes \<Rightarrow> 's \<Rightarrow> Status \<times> bytes list \<times> 's"
  env_DeleteFile :: "bytes \<Rightarrow> 's \<Rightarrow> Status \<times> 's"
  env_CreateDir :: "bytes \<Rightarrow> 's \<Rightarrow> Status \<times> 's"
  env_DeleteDir :: "bytes \<Rightarrow> 's \<Rightarrow> Status \<times> 's"
  env_GetFileSize :: "bytes \<Rightarrow> 's \<Rightarrow> Status \<times> 64 word \<times> 's"
  env_RenameFile :: "bytes \<Rightarrow> bytes \<Rightarrow> 's \<Rightarrow> Status \<times> 's"
  env_LockFile :: "bytes \<Rightarrow> 's \<Rightarrow> Status \<times> (bytes \<times> int) option \<times> 's"
  env_UnlockFile :: "bytes \<times> int \<Rightarrow> 's \<Rightarrow> Status \<times> 's"

section \<open>The system calls\<close>

text \<open>
  A call that fails returns \<open>True\<close> for the flag, or \<open>None\<close>; \<open>stream\<close> holds the calls on the stream
  that is open on a name.
\<close>

record 'k kernel =
  fopen :: "bytes \<Rightarrow> bytes \<Rightarrow> 'k \<Rightarrow> bool \<times> 'k"
  stream :: "bytes \<Rightarrow> 'k stdio"
  sys_open :: "bytes \<Rightarrow> bool \<Rightarrow> 'k \<Rightarrow> int option \<times> 'k"
  sys_close :: "int \<Rightarrow> 'k \<Rightarrow> 'k"
  sys_stat :: "bytes \<Rightarrow> 'k \<Rightarrow> 64 word option \<times> 'k"
  sys_mmap :: "int \<Rightarrow> 64 word \<Rightarrow> 'k \<Rightarrow> bytes option \<times> 'k"
  sys_access :: "bytes \<Rightarrow> 'k \<Rightarrow> bool \<times> 'k"
  readdir :: "bytes \<Rightarrow> 'k \<Rightarrow> bytes list option \<times> 'k"
  sys_unlink :: "bytes \<Rightarrow> 'k \<Rightarrow> bool \<times> 'k"
  sys_rename :: "bytes \<Rightarrow> bytes \<Rightarrow> 'k \<Rightarrow> bool \<times> 'k"
  sys_mkdir :: "bytes \<Rightarrow> 'k \<Rightarrow> bool \<times> 'k"
  sys_rmdir :: "bytes \<Rightarrow> 'k \<Rightarrow> bool \<times> 'k"
  sys_setlk :: "int \<Rightarrow> bool \<Rightarrow> 'k \<Rightarrow> bool \<times> 'k"
  error_text :: "'k \<Rightarrow> bytes"
  einval_text :: bytes

section \<open>The POSIX environment\<close>

record 'k posix_env =
  pe_kernel :: 'k
  mmap_allowed :: int
  locked_files :: "bytes set"

definition new_PosixEnv :: "'k \<Rightarrow> 'k posix_env" where
  "new_PosixEnv k = \<lparr>pe_kernel = k, mmap_allowed = 1000, locked_files = {}\<rparr>"

definition env_error :: "'k kernel \<Rightarrow> bytes \<Rightarrow> 'k \<Rightarrow> Status" where
  "env_error K context k = IOError context (error_text K k)"

text \<open>A file of the C library as a file over the whole environment.\<close>

definition on_kernel :: "('k \<Rightarrow> 'a \<times> 'k) \<Rightarrow> 'k posix_env \<Rightarrow> 'a \<times> 'k posix_env" where
  "on_kernel f e = (case f (pe_kernel e) of (x, k) \<Rightarrow> (x, e\<lparr>pe_kernel := k\<rparr>))"

definition env_sequential :: "'k SequentialFile \<Rightarrow> 'k posix_env SequentialFile" where
  "env_sequential sf =
     \<lparr>sf_read = (\<lambda>n e. case sf_read sf n (pe_kernel e) of (s, d, k) \<Rightarrow> (s, d, e\<lparr>pe_kernel := k\<rparr>)),
      sf_skip = (\<lambda>n. on_kernel (sf_skip sf n)), sf_delete = (\<lambda>e. e\<lparr>pe_kernel := sf_delete sf (pe_kernel e)\<rparr>)\<rparr>"

definition env_writable :: "'k WritableFile \<Rightarrow> 'k posix_env WritableFile" where
  "env_writable wfile =
     \<lparr>wf_append = (\<lambda>d. on_kernel (wf_append wfile d)), wf_flush = on_kernel (wf_flush wfile), wf_sync = on_kernel (wf_sync wfile),
      wf_close = on_kernel (wf_close wfile), wf_delete = (\<lambda>e. e\<lparr>pe_kernel := wf_delete wfile (pe_kernel e)\<rparr>)\<rparr>"

definition PosixEnv_NewSequentialFile ::
  "'k kernel \<Rightarrow> bytes \<Rightarrow> 'k posix_env \<Rightarrow> Status \<times> 'k posix_env SequentialFile option \<times> 'k posix_env" where
  "PosixEnv_NewSequentialFile K fname e =
     (case fopen K fname (ascii ''r'') (pe_kernel e) of
        (False, k) \<Rightarrow> (env_error K fname k, None, e\<lparr>pe_kernel := k\<rparr>)
      | (True, k) \<Rightarrow> (OK, Some (env_sequential (PosixSequentialFile (stream K fname) fname)), e\<lparr>pe_kernel := k\<rparr>))"

definition PosixEnv_NewWritableFile ::
  "'k kernel \<Rightarrow> bytes \<Rightarrow> 'k posix_env \<Rightarrow> Status \<times> 'k posix_env WritableFile option \<times> 'k posix_env" where
  "PosixEnv_NewWritableFile K fname e =
     (case fopen K fname (ascii ''w'') (pe_kernel e) of
        (False, k) \<Rightarrow> (env_error K fname k, None, e\<lparr>pe_kernel := k\<rparr>)
      | (True, k) \<Rightarrow> (OK, Some (env_writable (PosixWritableFile (stream K fname) fname)), e\<lparr>pe_kernel := k\<rparr>))"

definition PosixEnv_FileExists :: "'k kernel \<Rightarrow> bytes \<Rightarrow> 'k posix_env \<Rightarrow> bool \<times> 'k posix_env" where
  "PosixEnv_FileExists K fname = on_kernel (sys_access K fname)"

definition PosixEnv_GetChildren :: "'k kernel \<Rightarrow> bytes \<Rightarrow> 'k posix_env \<Rightarrow> Status \<times> bytes list \<times> 'k posix_env" where
  "PosixEnv_GetChildren K dir e =
     (case readdir K dir (pe_kernel e) of
        (None, k) \<Rightarrow> (env_error K dir k, [], e\<lparr>pe_kernel := k\<rparr>)
      | (Some names, k) \<Rightarrow> (OK, names, e\<lparr>pe_kernel := k\<rparr>))"

text \<open>The status of a call that only can fail, in the context of a name.\<close>

definition call_status :: "'k kernel \<Rightarrow> bytes \<Rightarrow> ('k \<Rightarrow> bool \<times> 'k) \<Rightarrow> 'k posix_env \<Rightarrow> Status \<times> 'k posix_env" where
  "call_status K context f =
     on_kernel (\<lambda>k. case f k of (failed, k) \<Rightarrow> (if failed then env_error K context k else OK, k))"

definition PosixEnv_DeleteFile :: "'k kernel \<Rightarrow> bytes \<Rightarrow> 'k posix_env \<Rightarrow> Status \<times> 'k posix_env" where
  "PosixEnv_DeleteFile K fname = call_status K fname (sys_unlink K fname)"

definition PosixEnv_CreateDir :: "'k kernel \<Rightarrow> bytes \<Rightarrow> 'k posix_env \<Rightarrow> Status \<times> 'k posix_env" where
  "PosixEnv_CreateDir K name = call_status K name (sys_mkdir K name)"

definition PosixEnv_DeleteDir :: "'k kernel \<Rightarrow> bytes \<Rightarrow> 'k posix_env \<Rightarrow> Status \<times> 'k posix_env" where
  "PosixEnv_DeleteDir K name = call_status K name (sys_rmdir K name)"

definition PosixEnv_RenameFile :: "'k kernel \<Rightarrow> bytes \<Rightarrow> bytes \<Rightarrow> 'k posix_env \<Rightarrow> Status \<times> 'k posix_env" where
  "PosixEnv_RenameFile K src target = call_status K src (sys_rename K src target)"

definition PosixEnv_GetFileSize :: "'k kernel \<Rightarrow> bytes \<Rightarrow> 'k posix_env \<Rightarrow> Status \<times> 64 word \<times> 'k posix_env" where
  "PosixEnv_GetFileSize K fname e =
     (case sys_stat K fname (pe_kernel e) of
        (None, k) \<Rightarrow> (env_error K fname k, 0, e\<lparr>pe_kernel := k\<rparr>)
      | (Some n, k) \<Rightarrow> (OK, n, e\<lparr>pe_kernel := k\<rparr>))"

text \<open>The flag of a new file is whether it is mapped, so that its destructor gives the slot back.\<close>

definition PosixEnv_NewRandomAccessFile ::
  "'k kernel \<Rightarrow> bytes \<Rightarrow> 'k posix_env \<Rightarrow> Status \<times> (bool \<times> RandomAccessFile) option \<times> 'k posix_env" where
  "PosixEnv_NewRandomAccessFile K fname e =
     (case sys_open K fname False (pe_kernel e) of
        (None, k) \<Rightarrow> (env_error K fname k, None, e\<lparr>pe_kernel := k\<rparr>)
      | (Some fd, k) \<Rightarrow>
          let e = e\<lparr>pe_kernel := k\<rparr> in
          case MmapLimiter_Acquire (mmap_allowed e) of
            (True, allowed) \<Rightarrow>
              let e = e\<lparr>mmap_allowed := allowed\<rparr>;
                  (s, size', e) = PosixEnv_GetFileSize K fname e;
                  (s, result, e) =
                    (if ok s then
                       case sys_mmap K fd size' (pe_kernel e) of
                         (Some base, k) \<Rightarrow> (s, Some (True, PosixMmapReadableFile (einval_text K) fname base), e\<lparr>pe_kernel := k\<rparr>)
                       | (None, k) \<Rightarrow> (env_error K fname k, None, e\<lparr>pe_kernel := k\<rparr>)
                     else (s, None, e));
                  e = e\<lparr>pe_kernel := sys_close K fd (pe_kernel e)\<rparr> in
              (s, result, if ok s then e else e\<lparr>mmap_allowed := MmapLimiter_Release (mmap_allowed e)\<rparr>)
          | (False, allowed) \<Rightarrow>
              (OK, Some (False, PosixRandomAccessFile (stream K fname) fname (pe_kernel e)), e\<lparr>mmap_allowed := allowed\<rparr>))"

text \<open>The destructor of a mapped file.\<close>

definition delete_mmap :: "'k posix_env \<Rightarrow> 'k posix_env" where
  "delete_mmap e = e\<lparr>mmap_allowed := MmapLimiter_Release (mmap_allowed e)\<rparr>"

definition PosixEnv_LockFile ::
  "'k kernel \<Rightarrow> bytes \<Rightarrow> 'k posix_env \<Rightarrow> Status \<times> (bytes \<times> int) option \<times> 'k posix_env" where
  "PosixEnv_LockFile K fname e =
     (case sys_open K fname True (pe_kernel e) of
        (None, k) \<Rightarrow> (env_error K fname k, None, e\<lparr>pe_kernel := k\<rparr>)
      | (Some fd, k) \<Rightarrow>
          (case PosixLockTable_Insert fname (locked_files e) of
             (False, locked) \<Rightarrow>
               (IOError (ascii ''lock '' @ fname) (ascii ''already held by process''), None,
                e\<lparr>pe_kernel := sys_close K fd k, locked_files := locked\<rparr>)
           | (True, locked) \<Rightarrow>
               (case sys_setlk K fd True k of
                  (True, k) \<Rightarrow>
                    (env_error K (ascii ''lock '' @ fname) k, None,
                     e\<lparr>pe_kernel := sys_close K fd k, locked_files := PosixLockTable_Remove fname locked\<rparr>)
                | (False, k) \<Rightarrow> (OK, Some (fname, fd), e\<lparr>pe_kernel := k, locked_files := locked\<rparr>))))"

definition PosixEnv_UnlockFile :: "'k kernel \<Rightarrow> bytes \<times> int \<Rightarrow> 'k posix_env \<Rightarrow> Status \<times> 'k posix_env" where
  "PosixEnv_UnlockFile K lock e =
     (case lock of (name, fd) \<Rightarrow>
        case sys_setlk K fd False (pe_kernel e) of
          (failed, k) \<Rightarrow>
            (if failed then env_error K (ascii ''unlock'') k else OK,
             e\<lparr>pe_kernel := sys_close K fd k, locked_files := PosixLockTable_Remove name (locked_files e)\<rparr>))"

definition PosixEnv :: "'k kernel \<Rightarrow> 'k posix_env Env" where
  "PosixEnv K =
     \<lparr>env_NewSequentialFile = PosixEnv_NewSequentialFile K, env_NewRandomAccessFile = (\<lambda>fname e. case PosixEnv_NewRandomAccessFile K fname e of (s, f, e) \<Rightarrow> (s, map_option snd f, e)),
      env_NewWritableFile = PosixEnv_NewWritableFile K, env_FileExists = PosixEnv_FileExists K,
      env_GetChildren = PosixEnv_GetChildren K, env_DeleteFile = PosixEnv_DeleteFile K, env_CreateDir = PosixEnv_CreateDir K,
      env_DeleteDir = PosixEnv_DeleteDir K, env_GetFileSize = PosixEnv_GetFileSize K, env_RenameFile = PosixEnv_RenameFile K,
      env_LockFile = PosixEnv_LockFile K, env_UnlockFile = PosixEnv_UnlockFile K\<rparr>"

section \<open>Whole files\<close>

definition DoWriteStringToFile :: "'s Env \<Rightarrow> bytes \<Rightarrow> bytes \<Rightarrow> bool \<Rightarrow> 's \<Rightarrow> Status \<times> 's" where
  "DoWriteStringToFile env data fname should_sync st =
     (case env_NewWritableFile env fname st of
        (s, None, st) \<Rightarrow> (s, st)
      | (s, Some file, st) \<Rightarrow>
          let (s, st) = wf_append file data st;
              (s, st) = (if ok s \<and> should_sync then wf_sync file st else (s, st));
              (s, st) = (if ok s then wf_close file st else (s, st));
              st = wf_delete file st in
          (s, if ok s then st else snd (env_DeleteFile env fname st)))"

definition WriteStringToFile :: "'s Env \<Rightarrow> bytes \<Rightarrow> bytes \<Rightarrow> 's \<Rightarrow> Status \<times> 's" where
  "WriteStringToFile env data fname = DoWriteStringToFile env data fname False"

definition WriteStringToFileSync :: "'s Env \<Rightarrow> bytes \<Rightarrow> bytes \<Rightarrow> 's \<Rightarrow> Status \<times> 's" where
  "WriteStringToFileSync env data fname = DoWriteStringToFile env data fname True"

definition kBufferSize :: nat where "kBufferSize = 8192"

text \<open>The loop that reads a file, with fuel for its rounds.\<close>

primrec ReadFile_loop :: "nat \<Rightarrow> 's SequentialFile \<Rightarrow> bytes \<Rightarrow> 's \<Rightarrow> (Status \<times> bytes \<times> 's) run" where
  "ReadFile_loop 0 file data st = NoFuel"
| "ReadFile_loop (Suc n) file data st =
     (case sf_read file kBufferSize st of
        (s, fragment, st) \<Rightarrow>
          if \<not> ok s then Ret (s, data, st)
          else if fragment = [] then Ret (s, data, st)
          else ReadFile_loop n file (data @ fragment) st)"

definition ReadFileToString :: "nat \<Rightarrow> 's Env \<Rightarrow> bytes \<Rightarrow> 's \<Rightarrow> (Status \<times> bytes \<times> 's) run" where
  "ReadFileToString n env fname st =
     (case env_NewSequentialFile env fname st of
        (s, None, st) \<Rightarrow> Ret (s, [], st)
      | (s, Some file, st) \<Rightarrow>
          run_bind (ReadFile_loop n file [] st) (\<lambda>(s, data, st). Ret (s, data, sf_delete file st)))"

section \<open>The contract of an environment\<close>

definition others_same :: "('s \<Rightarrow> bytes \<Rightarrow> bytes option) \<Rightarrow> bytes \<Rightarrow> 's \<Rightarrow> 's \<Rightarrow> bool" where
  "others_same files n s s' \<longleftrightarrow> (\<forall>m. m \<noteq> n \<longrightarrow> files s' m = files s m)"

lemma others_same_refl [simp]: "others_same files n s s"
  by (simp add: others_same_def)

lemma others_same_trans [trans]: "others_same files n s s' \<Longrightarrow> others_same files n s' s'' \<Longrightarrow> others_same files n s s''"
  by (simp add: others_same_def)

text \<open>
  \<open>files\<close> is what the names hold, \<open>on w n\<close> that the file object was made for a name, and \<open>writing\<close> that
  it is open with what has been appended. An operation leaves other names alone, even if it
  fails; a file holds what was appended once it is closed; renaming replaces the target at once.
\<close>

locale file_system =
  fixes env :: "'s Env" and files :: "'s \<Rightarrow> bytes \<Rightarrow> bytes option"
    and on :: "'s WritableFile \<Rightarrow> bytes \<Rightarrow> bool" and writing :: "'s \<Rightarrow> 's WritableFile \<Rightarrow> bytes \<Rightarrow> bytes \<Rightarrow> bool"
  assumes new_writable: "env_NewWritableFile env n s = (st, f, s') \<Longrightarrow>
      others_same files n s s' \<and> (case f of None \<Rightarrow> \<not> ok st | Some w \<Rightarrow> on w n \<and> writing s' w n [])"
    and append: "on w n \<Longrightarrow> wf_append w d s = (st, s') \<Longrightarrow>
      others_same files n s s' \<and> (ok st \<longrightarrow> writing s w n c \<longrightarrow> writing s' w n (c @ d))"
    and sync: "on w n \<Longrightarrow> wf_sync w s = (st, s') \<Longrightarrow> others_same files n s s' \<and> (ok st \<longrightarrow> writing s w n c \<longrightarrow> writing s' w n c)"
    and close: "on w n \<Longrightarrow> wf_close w s = (st, s') \<Longrightarrow>
      others_same files n s s' \<and> wf_delete w s' = s' \<and> (ok st \<longrightarrow> writing s w n c \<longrightarrow> files s' n = Some c)"
    and delete: "on w n \<Longrightarrow> others_same files n s (wf_delete w s)"
    and delete_file: "env_DeleteFile env n s = (st, s') \<Longrightarrow> others_same files n s s'"
    and rename: "src \<noteq> tgt \<Longrightarrow> env_RenameFile env src tgt s = (st, s') \<Longrightarrow>
      files s' = (if ok st then (files s)(tgt := files s src, src := None) else files s)"
begin

lemma DoWriteStringToFile_writes:
  assumes "DoWriteStringToFile env data n should_sync s = (st, s')"
  shows "others_same files n s s' \<and> (ok st \<longrightarrow> files s' n = Some data)"
proof -
  obtain st0 f s0 where new: "env_NewWritableFile env n s = (st0, f, s0)" by (metis prod_cases3)
  note n0 = new_writable [OF new]
  show ?thesis
  proof (cases f)
    case None
    then show ?thesis using assms new n0 by (auto simp: DoWriteStringToFile_def)
  next
    case (Some w)
    then have on: "on w n" and w0: "writing s0 w n []" and o0: "others_same files n s s0" using n0 by simp_all
    obtain st1 s1 where a: "wf_append w data s0 = (st1, s1)" by fastforce
    obtain st2 s2 where b: "(if ok st1 \<and> should_sync then wf_sync w s1 else (st1, s1)) = (st2, s2)" by fastforce
    obtain st3 s3 where c: "(if ok st2 then wf_close w s2 else (st2, s2)) = (st3, s3)" by fastforce
    have r: "st = st3" "s' = (if ok st3 then wf_delete w s3 else snd (env_DeleteFile env n (wf_delete w s3)))"
      using assms Some new a b c by (auto simp: DoWriteStringToFile_def Let_def split: prod.splits if_splits)
    have o1: "others_same files n s s1" and w1: "ok st1 \<Longrightarrow> writing s1 w n data"
      using others_same_trans [OF o0] append [OF on a, of "[]"] w0 by auto
    have o2: "others_same files n s s2" and w2: "ok st2 \<Longrightarrow> ok st1 \<and> writing s2 w n data"
      using b o1 w1 others_same_trans [OF o1] sync [OF on, of s1 st2 s2 data] by (auto split: if_splits)
    have o3: "others_same files n s s3" and w3: "ok st3 \<Longrightarrow> files s3 n = Some data \<and> wf_delete w s3 = s3"
      using c o2 w2 others_same_trans [OF o2] close [OF on, of s2 st3 s3 data] by (auto split: if_splits)
    have o4: "others_same files n s (wf_delete w s3)" by (rule others_same_trans [OF o3 delete [OF on]])
    have o5: "others_same files n s (snd (env_DeleteFile env n (wf_delete w s3)))"
      using others_same_trans [OF o4] delete_file by (cases "env_DeleteFile env n (wf_delete w s3)") auto
    show ?thesis using r o4 o5 w3 by auto
  qed
qed

end

text \<open>What POSIX says of the calls, for names that are different files.\<close>

locale posix_kernel =
  fixes K :: "'k kernel" and content :: "'k \<Rightarrow> bytes \<Rightarrow> bytes option" and pending :: "'k \<Rightarrow> bytes \<Rightarrow> bytes option"
  assumes fopen: "fopen K n m k = (opened, k') \<Longrightarrow> others_same content n k k' \<and> (opened \<longrightarrow> m = ascii ''w'' \<longrightarrow> pending k' n = Some [])"
    and fwrite: "fwrite (stream K n) d k = (r, k') \<Longrightarrow>
      others_same content n k k' \<and> (r = length d \<longrightarrow> pending k n = Some c \<longrightarrow> pending k' n = Some (c @ d))"
    and fflush: "fflush (stream K n) k = (failed, k') \<Longrightarrow> others_same content n k k' \<and> (\<not> failed \<longrightarrow> pending k' n = pending k n)"
    and fdatasync: "fdatasync (stream K n) k = (failed, k') \<Longrightarrow> others_same content n k k' \<and> (\<not> failed \<longrightarrow> pending k' n = pending k n)"
    and open_rdonly: "open_rdonly (stream K n) d k = (x, k') \<Longrightarrow> others_same content n k k' \<and> pending k' n = pending k n"
    and fsync_dir: "fsync_dir (stream K n) d k = (x, k') \<Longrightarrow> others_same content n k k' \<and> pending k' n = pending k n"
    and fclose: "fclose (stream K n) k = (failed, k') \<Longrightarrow>
      others_same content n k k' \<and> \<not> file_open (stream K n) k' \<and> (\<not> failed \<longrightarrow> pending k n = Some c \<longrightarrow> content k' n = Some c)"
    and unlink: "sys_unlink K n k = (failed, k') \<Longrightarrow> others_same content n k k'"
    and rename: "src \<noteq> tgt \<Longrightarrow> sys_rename K src tgt k = (failed, k') \<Longrightarrow>
      content k' = (if failed then content k else (content k)(tgt := content k src, src := None))"

definition posix_on :: "'k kernel \<Rightarrow> 'k posix_env WritableFile \<Rightarrow> bytes \<Rightarrow> bool" where
  "posix_on K w n \<longleftrightarrow> w = env_writable (PosixWritableFile (stream K n) n)"

lemma not_ok_posix [simp]: "\<not> ok (posix_IOError io a h)" "\<not> ok (env_error K a k)"
  by (simp_all add: posix_IOError_def env_error_def)

lemma others_same_env [simp]:
  "others_same (\<lambda>e. content (pe_kernel e)) n e e' \<longleftrightarrow> others_same content n (pe_kernel e) (pe_kernel e')"
  by (simp add: others_same_def)

context posix_kernel
begin

lemma SyncDir_same:
  "SyncDirIfManifest (stream K n) n k = (s, k') \<Longrightarrow> others_same content n k k' \<and> pending k' n = pending k n"
  using open_rdonly fsync_dir others_same_trans
  by (fastforce simp: SyncDirIfManifest_def split: prod.splits bool.splits if_splits)

lemma Sync_same:
  assumes "PosixWritableFile_Sync (stream K n) n k = (s, k')"
  shows "others_same content n k k' \<and> (ok s \<longrightarrow> pending k' n = pending k n)"
proof -
  obtain s0 k0 where dir: "SyncDirIfManifest (stream K n) n k = (s0, k0)" by fastforce
  obtain b k1 where flush: "fflush (stream K n) k0 = (b, k1)" by fastforce
  obtain b' k2 where data: "fdatasync (stream K n) k1 = (b', k2)" by fastforce
  have o0: "others_same content n k k0" "pending k0 n = pending k n" using SyncDir_same [OF dir] by simp_all
  have o1: "others_same content n k k1" "\<not> b \<Longrightarrow> pending k1 n = pending k n"
    using fflush [OF flush] o0 others_same_trans [OF o0(1)] by simp_all
  have o2: "others_same content n k k2" "\<not> b \<Longrightarrow> \<not> b' \<Longrightarrow> pending k2 n = pending k n"
    using fdatasync [OF data] o1 others_same_trans [OF o1(1)] by simp_all
  have "s = s0 \<and> k' = k0 \<and> \<not> ok s0 \<or> b \<and> \<not> ok s \<and> k' = k1 \<or> \<not> b \<and> k' = k2 \<and> (ok s \<longrightarrow> \<not> b')"
    using assms dir flush data by (auto simp: PosixWritableFile_Sync_def split: if_splits bool.splits)
  then show ?thesis using o0 o1 o2 by auto
qed

end

sublocale posix_kernel \<subseteq> posix_files: file_system "PosixEnv K" "\<lambda>e. content (pe_kernel e)" "posix_on K"
  "\<lambda>e w n c. pending (pe_kernel e) n = Some c"
proof
  fix n s st f s'
  assume "env_NewWritableFile (PosixEnv K) n s = (st, f, s')"
  then show "others_same (\<lambda>e. content (pe_kernel e)) n s s' \<and>
      (case f of None \<Rightarrow> \<not> ok st | Some w \<Rightarrow> posix_on K w n \<and> pending (pe_kernel s') n = Some [])"
    using fopen [of n "ascii ''w''"] by (fastforce simp: PosixEnv_def PosixEnv_NewWritableFile_def posix_on_def split: prod.splits bool.splits)
next
  fix w n d s st s' c
  assume w: "posix_on K w n"
  show "wf_append w d s = (st, s') \<Longrightarrow> others_same (\<lambda>e. content (pe_kernel e)) n s s' \<and>
      (ok st \<longrightarrow> pending (pe_kernel s) n = Some c \<longrightarrow> pending (pe_kernel s') n = Some (c @ d))"
    using w fwrite [of n d] by (fastforce simp: posix_on_def env_writable_def on_kernel_def PosixWritableFile_def
        PosixWritableFile_Append_def split: prod.splits if_splits)
  show "wf_sync w s = (st, s') \<Longrightarrow> others_same (\<lambda>e. content (pe_kernel e)) n s s' \<and>
      (ok st \<longrightarrow> pending (pe_kernel s) n = Some c \<longrightarrow> pending (pe_kernel s') n = Some c)"
    using w Sync_same [of n] by (fastforce simp: posix_on_def env_writable_def on_kernel_def PosixWritableFile_def split: prod.splits)
  show "wf_close w s = (st, s') \<Longrightarrow> others_same (\<lambda>e. content (pe_kernel e)) n s s' \<and> wf_delete w s' = s' \<and>
      (ok st \<longrightarrow> pending (pe_kernel s) n = Some c \<longrightarrow> content (pe_kernel s') n = Some c)"
    using w fclose [of n] by (fastforce simp: posix_on_def env_writable_def on_kernel_def PosixWritableFile_def
        PosixWritableFile_Close_def PosixWritableFile_delete_def split: prod.splits if_splits)
  show "others_same (\<lambda>e. content (pe_kernel e)) n s (wf_delete w s)"
    using w fclose [of n "pe_kernel s"] by (cases "fclose (stream K n) (pe_kernel s)")
      (auto simp: posix_on_def env_writable_def PosixWritableFile_def PosixWritableFile_delete_def)
next
  fix n s st s'
  assume "env_DeleteFile (PosixEnv K) n s = (st, s')"
  then show "others_same (\<lambda>e. content (pe_kernel e)) n s s'"
    using unlink [of n] by (fastforce simp: PosixEnv_def PosixEnv_DeleteFile_def call_status_def on_kernel_def split: prod.splits)
next
  fix src tgt s st s'
  assume "src \<noteq> tgt" "env_RenameFile (PosixEnv K) src tgt s = (st, s')"
  then show "content (pe_kernel s') = (if ok st then (content (pe_kernel s))(tgt := content (pe_kernel s) src, src := None) else content (pe_kernel s))"
    using rename [of src tgt] by (fastforce simp: PosixEnv_def PosixEnv_RenameFile_def call_status_def on_kernel_def split: prod.splits if_splits)
qed

text \<open>A kernel whose calls do not fail, with the files, the streams that are open for writing, and the locks.\<close>

record memory =
  mem_files :: "bytes \<Rightarrow> bytes option"
  mem_streams :: "bytes \<Rightarrow> bytes option"
  mem_fds :: "bytes list"
  mem_locks :: "bytes set"

definition memory_stream :: "bytes \<Rightarrow> memory stdio" where
  "memory_stream n =
     \<lparr>fread = (\<lambda>i h. ([], h)), feof = (\<lambda>h. True), fseek_cur = (\<lambda>i h. (False, h)),
      fwrite = (\<lambda>d h. (length d, h\<lparr>mem_streams := (mem_streams h)(n := map_option (\<lambda>c. c @ d) (mem_streams h n))\<rparr>)),
      fflush = (\<lambda>h. (False, h)),
      fclose = (\<lambda>h. (False, h\<lparr>mem_files := (mem_files h)(n := mem_streams h n), mem_streams := (mem_streams h)(n := None)\<rparr>)),
      file_open = (\<lambda>h. mem_streams h n \<noteq> None), fdatasync = (\<lambda>h. (False, h)), pread = (\<lambda>i off h. (map_option (\<lambda>c. take i (drop (unat off) c)) (mem_files h n), h)),
      open_rdonly = (\<lambda>d h. (True, h)), fsync_dir = (\<lambda>d h. (False, h)), strerror = (\<lambda>h. [])\<rparr>"

text \<open>A descriptor is an index into the names that have been opened; closing one drops the locks of its file.\<close>

definition memory_kernel :: "memory kernel" where
  "memory_kernel =
     \<lparr>fopen = (\<lambda>n m h. if m = ascii ''w'' then (True, h\<lparr>mem_streams := (mem_streams h)(n := Some [])\<rparr>) else (mem_files h n \<noteq> None, h)),
      stream = memory_stream, sys_open = (\<lambda>n creat h. (Some (int (length (mem_fds h))), h\<lparr>mem_fds := mem_fds h @ [n]\<rparr>)),
      sys_close = (\<lambda>fd h. h\<lparr>mem_locks := mem_locks h - {mem_fds h ! nat fd}\<rparr>),
      sys_stat = (\<lambda>n h. (map_option (\<lambda>c. of_nat (length c)) (mem_files h n), h)), sys_mmap = (\<lambda>fd n h. (mem_files h (mem_fds h ! nat fd), h)),
      sys_access = (\<lambda>n h. (mem_files h n \<noteq> None, h)), readdir = (\<lambda>n h. (Some [], h)),
      sys_unlink = (\<lambda>n h. (False, h\<lparr>mem_files := (mem_files h)(n := None)\<rparr>)),
      sys_rename = (\<lambda>a b h. (False, h\<lparr>mem_files := (mem_files h)(b := mem_files h a, a := None)\<rparr>)),
      sys_mkdir = (\<lambda>n h. (False, h)), sys_rmdir = (\<lambda>n h. (False, h)),
      sys_setlk = (\<lambda>fd on h. (False, h\<lparr>mem_locks := (if on then insert (mem_fds h ! nat fd) else (\<lambda>s. s - {mem_fds h ! nat fd})) (mem_locks h)\<rparr>)),
      error_text = (\<lambda>h. []), einval_text = []\<rparr>"

interpretation memory: posix_kernel memory_kernel mem_files mem_streams
  by unfold_locales (auto simp: memory_kernel_def memory_stream_def others_same_def split: if_splits)

section \<open>Slots and locks\<close>

text \<open>The environment with how many mapped files there are, and the locks that are held.\<close>

type_synonym 'k env_state = "'k posix_env \<times> nat \<times> (bytes \<times> int) list"

inductive env_step :: "'k kernel \<Rightarrow> 'k env_state \<Rightarrow> 'k env_state \<Rightarrow> bool" for K where
  open_random: "PosixEnv_NewRandomAccessFile K n e = (s, f, e') \<Longrightarrow>
    env_step K (e, maps, locks) (e', case f of Some (True, _) \<Rightarrow> Suc maps | _ \<Rightarrow> maps, locks)"
| delete_mapped: "env_step K (e, Suc maps, locks) (delete_mmap e, maps, locks)"
| lock: "PosixEnv_LockFile K n e = (s, l, e') \<Longrightarrow>
    env_step K (e, maps, locks) (e', maps, (case l of Some x \<Rightarrow> [x] | None \<Rightarrow> []) @ locks)"
| unlock: "x \<in> set locks \<Longrightarrow> PosixEnv_UnlockFile K x e = (s, e') \<Longrightarrow> env_step K (e, maps, locks) (e', maps, remove1 x locks)"
| kernel_call: "env_step K (e, maps, locks) (e\<lparr>pe_kernel := k\<rparr>, maps, locks)"

definition env_ok :: "'k env_state \<Rightarrow> bool" where
  "env_ok st \<longleftrightarrow>
     (case st of (e, maps, locks) \<Rightarrow>
        mmap_allowed e + int maps = 1000 \<and> 0 \<le> mmap_allowed e \<and> locked_files e = fst ` set locks \<and> distinct (map fst locks))"

lemma open_random_slots:
  assumes "PosixEnv_NewRandomAccessFile K n e = (s, f, e')"
  shows "locked_files e' = locked_files e"
    and "mmap_allowed e' = mmap_allowed e - (case f of Some (True, _) \<Rightarrow> 1 | _ \<Rightarrow> 0)"
    and "0 \<le> mmap_allowed e \<Longrightarrow> 0 \<le> mmap_allowed e'"
    and "f = None \<longleftrightarrow> \<not> ok s"
  using assms
  by (auto simp: PosixEnv_NewRandomAccessFile_def PosixEnv_GetFileSize_def MmapLimiter_Acquire_def MmapLimiter_Release_def Let_def
      split: prod.splits option.splits if_splits bool.splits)

lemma remove1_locks:
  assumes "distinct (map fst locks)" and "(n, fd) \<in> set locks"
  shows "fst ` set (remove1 (n, fd) locks) = fst ` set locks - {n}" and "distinct (map fst (remove1 (n, fd) locks))"
  using assms by (induction locks) (auto simp: rev_image_eqI)

lemma LockFile_table:
  assumes "PosixEnv_LockFile K n e = (s, l, e')"
  shows "mmap_allowed e' = mmap_allowed e \<and>
    (case l of None \<Rightarrow> locked_files e' = locked_files e
     | Some x \<Rightarrow> fst x = n \<and> n \<notin> locked_files e \<and> locked_files e' = insert n (locked_files e))"
  using assms
  by (auto simp: PosixEnv_LockFile_def PosixLockTable_Insert_def PosixLockTable_Remove_def
      split: prod.splits option.splits bool.splits)

lemma env_step_ok:
  assumes "env_step K st st'" and "env_ok st"
  shows "env_ok st'"
  using assms
proof (induction rule: env_step.induct)
  case (open_random n e s f e' maps locks)
  then show ?case
    using open_random_slots [OF open_random(1)] by (auto simp: env_ok_def split: option.splits prod.splits bool.splits)
next
  case (lock n e s l e' maps locks)
  then show ?case using LockFile_table [OF lock(1)] by (force simp: env_ok_def split: option.splits)
next
  case (unlock x locks e s e' maps)
  obtain n fd where x: "x = (n, fd)" by (cases x)
  have "mmap_allowed e' = mmap_allowed e \<and> locked_files e' = locked_files e - {n}"
    using unlock(2) by (auto simp: x PosixEnv_UnlockFile_def PosixLockTable_Remove_def split: prod.splits)
  then show ?case using remove1_locks [of locks n fd] unlock(1,3) x by (simp add: env_ok_def)
qed (auto simp: env_ok_def delete_mmap_def MmapLimiter_Release_def)

text \<open>
  C33. Whatever files are opened and deleted, locks taken and released, and calls made, successful or not:
  a slot for a mapping is either free or held by exactly one mapped file, never fewer than none are
  free, and the table of locks has exactly the names whose lock was given out, each once.
\<close>
theorem posix_env_invariant:
  assumes "(env_step K)\<^sup>*\<^sup>* (new_PosixEnv k, 0, []) (e, maps, locks)"
  shows "mmap_allowed e + int maps = 1000 \<and> 0 \<le> mmap_allowed e \<and>
    locked_files e = fst ` set locks \<and> distinct (map fst locks)"
proof -
  have "env_ok (e, maps, locks)"
    using assms by (induction rule: rtranclp_induct) (auto simp: env_ok_def new_PosixEnv_def dest: env_step_ok [unfolded env_ok_def])
  then show ?thesis by (simp add: env_ok_def)
qed

definition example_memory :: memory where
  "example_memory = \<lparr>mem_files = (\<lambda>n. None), mem_streams = (\<lambda>n. None), mem_fds = [], mem_locks = {}\<rparr>"

definition example_locked :: "memory posix_env" where
  "example_locked = snd (snd (PosixEnv_LockFile memory_kernel [76] (new_PosixEnv example_memory)))"

lemma example_lock: "PosixEnv_LockFile memory_kernel [76] (new_PosixEnv example_memory) = (OK, Some ([76], 0), example_locked)"
  by (simp add: example_locked_def PosixEnv_LockFile_def memory_kernel_def example_memory_def new_PosixEnv_def PosixLockTable_Insert_def)

theorem posix_env_invariant_witness: "mmap_allowed example_locked = 1000 \<and> locked_files example_locked = {[76]}"
proof -
  have "env_step memory_kernel (new_PosixEnv example_memory, 0, []) (example_locked, 0, [([76], 0)])"
    using env_step.lock [OF example_lock, of 0 "[]"] by simp
  from posix_env_invariant [OF r_into_rtranclp [of "env_step memory_kernel", OF this]] show ?thesis by simp
qed

text \<open>The locks a process holds are dropped when it closes any descriptor of the file.\<close>

locale kernel_locks =
  fixes K :: "'k kernel" and held :: "'k \<Rightarrow> bytes set" and fd_name :: "'k \<Rightarrow> int \<Rightarrow> bytes"
  assumes open_locks: "sys_open K n creat k = (Some fd, k') \<Longrightarrow> held k' = held k \<and> fd_name k' fd = n"
    and close_locks: "held (sys_close K fd k) = held k - {fd_name k fd}"
    and set_lock: "sys_setlk K fd True k = (False, k') \<Longrightarrow> held k' = insert (fd_name k fd) (held k)"
begin

lemma LockFile_twice:
  assumes "fname \<in> locked_files e" and "sys_open K fname True (pe_kernel e) = (Some fd, k)"
  shows "\<exists>s e'. PosixEnv_LockFile K fname e = (s, None, e') \<and> \<not> ok s \<and> locked_files e' = locked_files e \<and>
    held (pe_kernel e') = held (pe_kernel e) - {fname}"
  using assms open_locks [OF assms(2)] close_locks [of fd k]
  by (auto simp: PosixEnv_LockFile_def PosixLockTable_Insert_def IOError_def)

end

interpretation memory_locks: kernel_locks memory_kernel mem_locks "\<lambda>h fd. mem_fds h ! nat fd"
  by unfold_locales (auto simp: memory_kernel_def)

text \<open>
  C34. Asking for a lock that the process holds already is refused, but the attempt opens and closes the
  lock file, which drops the lock at the kernel: the table still has the name, the kernel does not.
\<close>
theorem second_lock_drops_first:
  assumes "kernel_locks K held fd_name" and "fname \<in> locked_files e"
    and "sys_open K fname True (pe_kernel e) = (Some fd, k)"
    and "PosixEnv_LockFile K fname e = (s, l, e')"
  shows "l = None \<and> \<not> ok s \<and> fname \<in> locked_files e' \<and> fname \<notin> held (pe_kernel e')"
  using kernel_locks.LockFile_twice [OF assms(1-3)] assms(2,4) by auto

theorem second_lock_drops_first_witness:
  "[76] \<in> mem_locks (pe_kernel example_locked) \<and>
   (let (s, l, e) = PosixEnv_LockFile memory_kernel [76] example_locked in
    l = None \<and> \<not> ok s \<and> [76] \<in> locked_files e \<and> [76] \<notin> mem_locks (pe_kernel e))"
proof -
  have held: "[76] \<in> mem_locks (pe_kernel example_locked)" "[76] \<in> locked_files example_locked"
    by (simp_all add: example_locked_def PosixEnv_LockFile_def memory_kernel_def example_memory_def new_PosixEnv_def PosixLockTable_Insert_def)
  obtain s l e where again: "PosixEnv_LockFile memory_kernel [76] example_locked = (s, l, e)" by (metis prod_cases3)
  obtain fd k where fd: "sys_open memory_kernel [76] True (pe_kernel example_locked) = (Some fd, k)"
    by (simp add: memory_kernel_def)
  from second_lock_drops_first [OF memory_locks.kernel_locks_axioms held(2) fd again] show ?thesis using held(1) again by simp
qed

end
