(* ===== verification/LdbLogging.thy ===== *)
theory LdbLogging
  imports LdbStatus
begin

text \<open>
  LevelDB, \<^verbatim>\<open>util/logging.cc\<close>: printing numbers and strings, and reading a decimal number
  from the front of a string. A number is read exactly when the digits denote one of 64 bits.
\<close>

section \<open>Printing\<close>

text \<open>\<open>snprintf\<close> with \<open>%llu\<close>.\<close>

fun decimal :: "nat \<Rightarrow> bytes" where
  "decimal n = (if n < 10 then [of_nat (48 + n)] else decimal (n div 10) @ [of_nat (48 + n mod 10)])"

declare decimal.simps [simp del]

definition AppendNumberTo :: "bytes \<Rightarrow> 64 word \<Rightarrow> bytes" where
  "AppendNumberTo str num = str @ decimal (unat num)"

definition NumberToString :: "64 word \<Rightarrow> bytes" where
  "NumberToString num = AppendNumberTo [] num"

text \<open>\<open>snprintf\<close> of a byte with a backslash, an x and two hexadecimal digits.\<close>

definition hex_digit :: "nat \<Rightarrow> 8 word" where
  "hex_digit n = of_nat (if n < 10 then 48 + n else 87 + n)"

definition escape_byte :: "8 word \<Rightarrow> bytes" where
  "escape_byte c = [0x5C, of_char CHR ''x''] @ [hex_digit (unat c div 16), hex_digit (unat c mod 16)]"

definition AppendEscapedStringTo :: "bytes \<Rightarrow> bytes \<Rightarrow> bytes" where
  "AppendEscapedStringTo str s =
     fold (\<lambda>c str. if of_char CHR '' '' \<le> c \<and> c \<le> of_char CHR ''~'' then str @ [c] else str @ escape_byte c) s str"

definition EscapeString :: "bytes \<Rightarrow> bytes" where
  "EscapeString s = AppendEscapedStringTo [] s"

section \<open>Reading a number\<close>

definition is_digit :: "8 word \<Rightarrow> bool" where
  "is_digit c \<longleftrightarrow> of_char CHR ''0'' \<le> c \<and> c \<le> of_char CHR ''9''"

definition kMaxUint64 :: "64 word" where "kMaxUint64 = - 1"

text \<open>The loop: \<open>None\<close> is the return for an overflow, otherwise the value and the number of digits.\<close>

fun ConsumeDecimal_loop :: "bytes \<Rightarrow> 64 word \<Rightarrow> nat \<Rightarrow> (64 word \<times> nat) option \<times> bytes" where
  "ConsumeDecimal_loop [] v digits = (Some (v, digits), [])"
| "ConsumeDecimal_loop (c # input) v digits =
     (if is_digit c then
        let delta = ucast (c - of_char CHR ''0'') in
        if kMaxUint64 div 10 < v \<or> v = kMaxUint64 div 10 \<and> kMaxUint64 mod 10 < delta then (None, c # input)
        else ConsumeDecimal_loop input (v * 10 + delta) (digits + 1)
      else (Some (v, digits), c # input))"

definition ConsumeDecimalNumber :: "bytes \<Rightarrow> bool \<times> 64 word option \<times> bytes" where
  "ConsumeDecimalNumber input =
     (case ConsumeDecimal_loop input 0 0 of
        (None, rest) \<Rightarrow> (False, None, rest)
      | (Some (v, digits), rest) \<Rightarrow> (0 < digits, Some v, rest))"

section \<open>What is read\<close>

definition digit_value :: "8 word \<Rightarrow> nat" where
  "digit_value c = unat c - 48"

definition number_of :: "bytes \<Rightarrow> nat" where
  "number_of ds = foldl (\<lambda>v c. v * 10 + digit_value c) 0 ds"

lemma is_digit_unat: "is_digit c \<longleftrightarrow> 48 \<le> unat c \<and> unat c \<le> 57"
  by (simp add: is_digit_def word_le_nat_alt)

lemma number_of_acc: "foldl (\<lambda>v c. v * 10 + digit_value c) a ds = a * 10 ^ length ds + number_of ds"
proof (induction ds arbitrary: a)
  case (Cons d ds)
  show ?case
    using Cons [of "a * 10 + digit_value d"] Cons [of "digit_value d"] by (simp add: number_of_def algebra_simps)
qed (simp add: number_of_def)

lemma number_of_Nil [simp]: "number_of [] = 0"
  by (simp add: number_of_def)

lemma number_of_Cons: "number_of (d # ds) = digit_value d * 10 ^ length ds + number_of ds"
  using number_of_acc [of "digit_value d" ds] by (simp add: number_of_def)

lemma number_of_append: "number_of (xs @ ys) = number_of xs * 10 ^ length ys + number_of ys"
  using number_of_acc [of "number_of xs" ys] by (simp add: number_of_def)

lemma number_of_prefix: "number_of xs \<le> number_of (xs @ ys)"
  by (simp add: number_of_append trans_le_add1)

lemma number_of_snoc: "number_of (ds @ [d]) = number_of ds * 10 + digit_value d"
  by (simp add: number_of_def)

lemma unat_digit: "n < 10 \<Longrightarrow> unat (of_nat (48 + n) :: 8 word) = 48 + n"
  by (simp add: unat_of_nat del: of_nat_add)

lemma decimal_digits: "\<forall>d \<in> set (decimal n). is_digit d"
proof (induction n rule: decimal.induct)
  case (1 n)
  then show ?case
    using unat_digit [of n] unat_digit [of "n mod 10"]
    by (subst decimal.simps) (auto simp: is_digit_unat simp del: of_nat_add)
qed

lemma decimal_nonempty: "decimal n \<noteq> []"
  by (subst decimal.simps) simp

lemma digit_value_of_nat: "n < 10 \<Longrightarrow> digit_value (of_nat (48 + n)) = n"
  by (simp add: digit_value_def unat_digit del: of_nat_add)

lemma number_of_decimal: "number_of (decimal n) = n"
proof (induction n rule: decimal.induct)
  case (1 n)
  show ?case
  proof (cases "n < 10")
    case True
    then show ?thesis
      by (subst decimal.simps) (simp add: number_of_Cons digit_value_of_nat del: of_nat_add)
  next
    case False
    then show ?thesis
      using 1 by (subst decimal.simps) (simp add: number_of_snoc digit_value_of_nat del: of_nat_add)
  qed
qed

text \<open>The test before a digit is taken in is whether the new value fits.\<close>

lemma overflow_test:
  assumes "is_digit c"
  shows "kMaxUint64 div 10 < v \<or> v = kMaxUint64 div 10 \<and> kMaxUint64 mod 10 < ucast (c - of_char CHR ''0'') \<longleftrightarrow>
    2 ^ 64 \<le> unat v * 10 + digit_value c"
    and "unat v * 10 + digit_value c < 2 ^ 64 \<Longrightarrow>
      unat (v * 10 + ucast (c - of_char CHR ''0'') :: 64 word) = unat v * 10 + digit_value c"
proof -
  have c: "48 \<le> unat c" "unat c \<le> 57" using assms by (simp_all add: is_digit_unat)
  have d: "unat (ucast (c - of_char CHR ''0'') :: 64 word) = digit_value c"
    using c by (simp add: digit_value_def unsigned_ucast_eq take_bit_nat_eq_self unat_sub word_le_nat_alt)
  have m: "unat (kMaxUint64 div 10) = 1844674407370955161" "unat (kMaxUint64 mod 10) = 5"
    by (simp_all add: kMaxUint64_def unat_div unat_mod)
  show "kMaxUint64 div 10 < v \<or> v = kMaxUint64 div 10 \<and> kMaxUint64 mod 10 < ucast (c - of_char CHR ''0'') \<longleftrightarrow>
      2 ^ 64 \<le> unat v * 10 + digit_value c"
    unfolding word_less_nat_alt word_unat_eq_iff d m using c by (auto simp: digit_value_def)
  show "unat (v * 10 + ucast (c - of_char CHR ''0'') :: 64 word) = unat v * 10 + digit_value c"
    if "unat v * 10 + digit_value c < 2 ^ 64"
    using that unfolding unat_word_ariths d by simp
qed

lemma ConsumeDecimal_loop_spec:
  assumes "unat v = number_of ds"
  shows "let more = takeWhile is_digit input in
    if number_of (ds @ more) < 2 ^ 64
    then ConsumeDecimal_loop input v n = (Some (of_nat (number_of (ds @ more)), n + length more), dropWhile is_digit input)
    else fst (ConsumeDecimal_loop input v n) = None"
  using assms
proof (induction input arbitrary: v ds n)
  case Nil
  then show ?case using unsigned_less [of v, where ?'a = nat] by (simp flip: Nil)
next
  case (Cons c input)
  show ?case
  proof (cases "is_digit c")
    case False
    then show ?thesis using Cons.prems unsigned_less [of v, where ?'a = nat] by (simp flip: Cons.prems)
  next
    case True
    let ?more = "takeWhile is_digit input"
    note test = overflow_test [OF True, of v]

    have snoc: "number_of (ds @ [c]) = unat v * 10 + digit_value c" by (simp add: number_of_snoc Cons.prems)
    show ?thesis
    proof (cases "2 ^ 64 \<le> unat v * 10 + digit_value c")
      case over: True
      have "2 ^ 64 \<le> number_of (ds @ c # ?more)" using number_of_prefix [of "ds @ [c]" ?more] over unfolding snoc by simp
      moreover have "fst (ConsumeDecimal_loop (c # input) v n) = None" using True over test(1) by (simp add: Let_def)
      ultimately show ?thesis using True by (simp add: Let_def)
    next
      case False
      then have "unat (v * 10 + ucast (c - of_char CHR ''0'') :: 64 word) = number_of (ds @ [c])"
        using test(2) snoc by simp
      from Cons.IH [OF this, of "n + 1"] show ?thesis using True False test(1) by (auto simp: Let_def split: if_splits)
    qed
  qed
qed

lemma ConsumeDecimalNumber_spec:
  "number_of (takeWhile is_digit input) < 2 ^ 64 \<Longrightarrow>
     ConsumeDecimalNumber input = (takeWhile is_digit input \<noteq> [], Some (of_nat (number_of (takeWhile is_digit input))), dropWhile is_digit input)"
  "2 ^ 64 \<le> number_of (takeWhile is_digit input) \<Longrightarrow> \<exists>rest. ConsumeDecimalNumber input = (False, None, rest)"
  using ConsumeDecimal_loop_spec [of 0 "[]" input 0]
  by (auto simp: ConsumeDecimalNumber_def Let_def split: prod.splits)

text \<open>Reading back what was printed, up to a byte that is not a digit.\<close>

lemma ConsumeDecimal_digits:
  assumes ds: "\<forall>d \<in> set ds. is_digit d" "ds \<noteq> []" "number_of ds = unat num" and rest: "rest = [] \<or> \<not> is_digit (hd rest)"
  shows "ConsumeDecimalNumber (ds @ rest) = (True, Some num, rest)"
proof -
  have parts: "takeWhile is_digit (ds @ rest) = ds" "dropWhile is_digit (ds @ rest) = rest"
    using ds(1) rest by (cases rest; simp add: takeWhile_append2 dropWhile_append2)+
  have "number_of ds < 2 ^ 64" "of_nat (number_of ds) = num" using unsigned_less [of num, where ?'a = nat] ds(3) by simp_all
  then show ?thesis using ConsumeDecimalNumber_spec(1) [of "ds @ rest"] ds(2) unfolding parts by simp
qed

lemma number_roundtrip:
  "rest = [] \<or> \<not> is_digit (hd rest) \<Longrightarrow> ConsumeDecimalNumber (NumberToString num @ rest) = (True, Some num, rest)"
  by (intro ConsumeDecimal_digits)
    (use decimal_digits decimal_nonempty number_of_decimal in \<open>auto simp: NumberToString_def AppendNumberTo_def\<close>)

text \<open>What is escaped is printable.\<close>

lemma EscapeString_map:
  "EscapeString s = concat (map (\<lambda>c. if of_char CHR '' '' \<le> c \<and> c \<le> of_char CHR ''~'' then [c] else escape_byte c) s)"
proof -
  have "AppendEscapedStringTo str s =
      str @ concat (map (\<lambda>c. if of_char CHR '' '' \<le> c \<and> c \<le> of_char CHR ''~'' then [c] else escape_byte c) s)" for str
    by (induction s arbitrary: str) (simp_all add: AppendEscapedStringTo_def)
  then show ?thesis by (simp add: EscapeString_def)
qed

lemma escape_byte_printable: "\<forall>c \<in> set (escape_byte b). 32 \<le> c \<and> c \<le> 126"
proof -
  have "32 \<le> hex_digit n \<and> hex_digit n \<le> 126" if "n < 16" for n
    using that by (simp add: hex_digit_def word_le_nat_alt unat_of_nat del: of_nat_add)
  moreover have "unat b div 16 < 16" using unsigned_less [of b, where ?'a = nat] by (simp add: div_less_iff_less_mult)
  ultimately show ?thesis by (auto simp: escape_byte_def)
qed

lemma EscapeString_printable: "\<forall>c \<in> set (EscapeString s). 32 \<le> c \<and> c \<le> 126"
  unfolding EscapeString_map using escape_byte_printable by (fastforce split: if_splits)

end
