(* ===== verification/LdbFileName.thy ===== *)
theory LdbFileName
  imports LdbPosixEnv LdbLogging
begin

text \<open>
  LevelDB, \<^verbatim>\<open>db/filename.cc\<close>: the names of the files of a database, recognising them, and
  pointing \<^verbatim>\<open>CURRENT\<close> at a manifest. The names that are recognised are given exactly; what
  \<^verbatim>\<open>CURRENT\<close> holds changes from the old name to the new one at once or not at all.
\<close>

section \<open>Names\<close>

datatype FileType = kLogFile | kDBLockFile | kTableFile | kDescriptorFile | kCurrentFile | kTempFile | kInfoLogFile

text \<open>\<open>snprintf\<close> with \<open>%06llu\<close>.\<close>

definition decimal6 :: "64 word \<Rightarrow> bytes" where
  "decimal6 n = replicate (6 - length (decimal (unat n))) (of_char CHR ''0'') @ decimal (unat n)"

definition MakeFileName :: "bytes \<Rightarrow> 64 word \<Rightarrow> bytes \<Rightarrow> bytes" where
  "MakeFileName name number suffix = name @ ascii ''/'' @ decimal6 number @ ascii ''.'' @ suffix"

definition LogFileName :: "bytes \<Rightarrow> 64 word \<Rightarrow> bytes" where
  "LogFileName name number = MakeFileName name number (ascii ''log'')"

definition TableFileName :: "bytes \<Rightarrow> 64 word \<Rightarrow> bytes" where
  "TableFileName name number = MakeFileName name number (ascii ''ldb'')"

definition SSTTableFileName :: "bytes \<Rightarrow> 64 word \<Rightarrow> bytes" where
  "SSTTableFileName name number = MakeFileName name number (ascii ''sst'')"

definition DescriptorFileName :: "bytes \<Rightarrow> 64 word \<Rightarrow> bytes" where
  "DescriptorFileName dbname number = dbname @ ascii ''/MANIFEST-'' @ decimal6 number"

definition CurrentFileName :: "bytes \<Rightarrow> bytes" where "CurrentFileName dbname = dbname @ ascii ''/CURRENT''"
definition LockFileName :: "bytes \<Rightarrow> bytes" where "LockFileName dbname = dbname @ ascii ''/LOCK''"

definition TempFileName :: "bytes \<Rightarrow> 64 word \<Rightarrow> bytes" where
  "TempFileName dbname number = MakeFileName dbname number (ascii ''dbtmp'')"

definition InfoLogFileName :: "bytes \<Rightarrow> bytes" where "InfoLogFileName dbname = dbname @ ascii ''/LOG''"
definition OldInfoLogFileName :: "bytes \<Rightarrow> bytes" where "OldInfoLogFileName dbname = dbname @ ascii ''/LOG.old''"

section \<open>Recognising names\<close>

text \<open>\<open>None\<close> is the return of false.\<close>

definition suffix_type :: "bytes \<Rightarrow> FileType option" where
  "suffix_type suffix =
     (if slice_eq suffix (ascii ''.log'') then Some kLogFile
      else if slice_eq suffix (ascii ''.sst'') \<or> slice_eq suffix (ascii ''.ldb'') then Some kTableFile
      else if slice_eq suffix (ascii ''.dbtmp'') then Some kTempFile
      else None)"

definition ParseFileName :: "bytes \<Rightarrow> (64 word \<times> FileType) option" where
  "ParseFileName fname =
     (if slice_eq fname (ascii ''CURRENT'') then Some (0, kCurrentFile)
      else if slice_eq fname (ascii ''LOCK'') then Some (0, kDBLockFile)
      else if slice_eq fname (ascii ''LOG'') \<or> slice_eq fname (ascii ''LOG.old'') then Some (0, kInfoLogFile)
      else if starts_with fname (ascii ''MANIFEST-'') then
        case ConsumeDecimalNumber (drop (length (ascii ''MANIFEST-'')) fname) of
          (True, Some num, []) \<Rightarrow> Some (num, kDescriptorFile)
        | _ \<Rightarrow> None
      else
        case ConsumeDecimalNumber fname of
          (True, Some num, suffix) \<Rightarrow> map_option (\<lambda>t. (num, t)) (suffix_type suffix)
        | _ \<Rightarrow> None)"

section \<open>The current manifest\<close>

text \<open>That the name of the manifest is below the directory is a precondition.\<close>

definition SetCurrentFile :: "'s Env \<Rightarrow> bytes \<Rightarrow> 64 word \<Rightarrow> 's \<Rightarrow> Status \<times> 's" where
  "SetCurrentFile env dbname descriptor_number st =
     (let manifest = DescriptorFileName dbname descriptor_number;
          contents = drop (length dbname + 1) manifest;
          tmp = TempFileName dbname descriptor_number;
          (s, st) = WriteStringToFileSync env (contents @ [10]) tmp st;
          (s, st) = (if ok s then env_RenameFile env tmp (CurrentFileName dbname) st else (s, st)) in
      (s, if ok s then st else snd (env_DeleteFile env tmp st)))"

section \<open>What is recognised\<close>

definition digits :: "bytes \<Rightarrow> 64 word \<Rightarrow> bool" where
  "digits ds n \<longleftrightarrow> ds \<noteq> [] \<and> (\<forall>d \<in> set ds. is_digit d) \<and> number_of ds = unat n"

lemma ConsumeDecimal_iff:
  "ConsumeDecimalNumber input = (True, Some n, rest) \<longleftrightarrow>
     (\<exists>ds. digits ds n \<and> input = ds @ rest \<and> (rest = [] \<or> \<not> is_digit (hd rest)))"
proof
  assume read: "ConsumeDecimalNumber input = (True, Some n, rest)"
  then have fits: "number_of (takeWhile is_digit input) < 2 ^ 64"
    using ConsumeDecimalNumber_spec(2) [of input] by fastforce
  from ConsumeDecimalNumber_spec(1) [OF this] read
  have "takeWhile is_digit input \<noteq> []" "n = of_nat (number_of (takeWhile is_digit input))" "rest = dropWhile is_digit input" by simp_all
  then show "\<exists>ds. digits ds n \<and> input = ds @ rest \<and> (rest = [] \<or> \<not> is_digit (hd rest))"
    using fits hd_dropWhile [of is_digit input]
    by (intro exI [of _ "takeWhile is_digit input"]) (auto simp: digits_def unat_of_nat_64 dest: set_takeWhileD)
next
  assume "\<exists>ds. digits ds n \<and> input = ds @ rest \<and> (rest = [] \<or> \<not> is_digit (hd rest))"
  then show "ConsumeDecimalNumber input = (True, Some n, rest)" using ConsumeDecimal_digits by (auto simp: digits_def)
qed

lemma suffix_type_iff:
  "suffix_type s = Some t \<longleftrightarrow> t = kLogFile \<and> s = ascii ''.log'' \<or> t = kTableFile \<and> s \<in> {ascii ''.sst'', ascii ''.ldb''} \<or>
     t = kTempFile \<and> s = ascii ''.dbtmp''"
  by (auto simp: suffix_type_def slice_eq_iff ascii_def)

lemma suffix_no_digit: "suffix_type s = Some t \<Longrightarrow> \<not> is_digit (hd s)"
  by (auto simp: suffix_type_iff ascii_def is_digit_def)

lemma digits_hd: "digits ds n \<Longrightarrow> is_digit (hd (ds @ rest))"
  by (cases ds) (simp_all add: digits_def)

text \<open>The fixed names and the start of the name of a manifest are no digits.\<close>

lemma fixed_no_digits:
  "digits ds n \<Longrightarrow> ds @ rest \<noteq> ascii ''CURRENT'' \<and> ds @ rest \<noteq> ascii ''LOCK'' \<and> ds @ rest \<noteq> ascii ''LOG'' \<and>
     ds @ rest \<noteq> ascii ''LOG.old'' \<and> ds @ rest \<noteq> ascii ''MANIFEST-'' @ r"
  using digits_hd [of ds n rest] by (auto simp: ascii_def is_digit_def)

text \<open>
  C35. The names that are recognised, with their numbers and types: the fixed names, and a number of at
  least one decimal digit that fits 64 bits, behind \<^verbatim>\<open>MANIFEST-\<close> or before one of the four
  suffixes. Nothing else is.
\<close>
theorem parse_file_name_exact:
  "ParseFileName fname = Some (n, t) \<longleftrightarrow>
     n = 0 \<and> (fname = ascii ''CURRENT'' \<and> t = kCurrentFile \<or> fname = ascii ''LOCK'' \<and> t = kDBLockFile \<or>
       fname \<in> {ascii ''LOG'', ascii ''LOG.old''} \<and> t = kInfoLogFile) \<or>
     (\<exists>ds. digits ds n \<and>
       (fname = ascii ''MANIFEST-'' @ ds \<and> t = kDescriptorFile \<or> fname = ds @ ascii ''.log'' \<and> t = kLogFile \<or>
        fname \<in> {ds @ ascii ''.sst'', ds @ ascii ''.ldb''} \<and> t = kTableFile \<or> fname = ds @ ascii ''.dbtmp'' \<and> t = kTempFile))"
  (is "_ \<longleftrightarrow> ?fixed \<or> ?numbered")
proof (cases "fname \<in> {ascii ''CURRENT'', ascii ''LOCK'', ascii ''LOG'', ascii ''LOG.old''}")
  case True
  then have "\<not> starts_with fname (ascii ''MANIFEST-'')" by (auto simp: starts_with_iff ascii_def)
  then have "\<not> ?numbered" using True fixed_no_digits by (auto simp: starts_with_iff) (metis append_Nil2)+
  then show ?thesis using True by (auto simp: ParseFileName_def slice_eq_iff ascii_def)
next
  case False
  then have parse: "ParseFileName fname =
      (if starts_with fname (ascii ''MANIFEST-'') then
        case ConsumeDecimalNumber (drop (length (ascii ''MANIFEST-'')) fname) of
          (True, Some num, []) \<Rightarrow> Some (num, kDescriptorFile)
        | _ \<Rightarrow> None
      else
        case ConsumeDecimalNumber fname of
          (True, Some num, suffix) \<Rightarrow> map_option (\<lambda>t. (num, t)) (suffix_type suffix)
        | _ \<Rightarrow> None)"
    by (simp add: ParseFileName_def slice_eq_iff)
  show ?thesis
  proof (cases "\<exists>r. fname = ascii ''MANIFEST-'' @ r")
    case True
    then obtain r where r: "fname = ascii ''MANIFEST-'' @ r" by blast
    have "ParseFileName fname = Some (n, t) \<longleftrightarrow> ConsumeDecimalNumber r = (True, Some n, []) \<and> t = kDescriptorFile"
      unfolding parse by (auto simp: r starts_with_iff split: prod.splits bool.splits option.splits list.splits)
    also have "\<dots> \<longleftrightarrow> (\<exists>ds. digits ds n \<and> r = ds) \<and> t = kDescriptorFile" by (simp add: ConsumeDecimal_iff)
    finally have lhs: "ParseFileName fname = Some (n, t) \<longleftrightarrow> digits r n \<and> t = kDescriptorFile" by auto
    have "digits ds n \<Longrightarrow> fname \<noteq> ds @ s" for ds s using fixed_no_digits [of ds n s r] r by auto
    then have "?numbered \<longleftrightarrow> (\<exists>ds. digits ds n \<and> fname = ascii ''MANIFEST-'' @ ds \<and> t = kDescriptorFile)" by blast
    moreover have "\<not> ?fixed" using False by simp
    ultimately show ?thesis unfolding lhs by (auto simp: r)
  next
    case other: False
    then have "ParseFileName fname = Some (n, t) \<longleftrightarrow> (\<exists>s. ConsumeDecimalNumber fname = (True, Some n, s) \<and> suffix_type s = Some t)"
      unfolding parse by (auto simp: starts_with_iff split: prod.splits bool.splits option.splits)
    also have "\<dots> \<longleftrightarrow> (\<exists>s ds. digits ds n \<and> fname = ds @ s \<and> suffix_type s = Some t)"
      using suffix_no_digit by (auto simp: ConsumeDecimal_iff)
    finally show ?thesis using False other by (auto simp: suffix_type_iff)
  qed
qed

section \<open>The names that are made\<close>

lemma number_of_zeros: "number_of (replicate k (of_char CHR ''0'') @ ds) = number_of ds"
  by (induction k) (simp_all add: number_of_Cons digit_value_def)

lemma digits_decimal6: "digits (decimal6 n) n"
proof -
  have "is_digit (of_char CHR ''0'')" by (simp add: is_digit_def)
  then show ?thesis
    using decimal_digits [of "unat n"] decimal_nonempty [of "unat n"]
    by (auto simp: digits_def decimal6_def number_of_zeros number_of_decimal simp del: of_char_Char)
qed

text \<open>The name of a file in its directory.\<close>

definition base_name :: "bytes \<Rightarrow> bytes \<Rightarrow> bytes" where
  "base_name dbname fname = drop (length dbname + 1) fname"

lemma base_names:
  "base_name dbname (MakeFileName dbname n suffix) = decimal6 n @ ascii ''.'' @ suffix"
  "base_name dbname (DescriptorFileName dbname n) = ascii ''MANIFEST-'' @ decimal6 n"
  by (simp_all add: base_name_def MakeFileName_def DescriptorFileName_def ascii_def)

text \<open>
  Every name that the database gives to a file is recognised, with the number and the type it was
  made for, whatever the directory and however many digits the number has.
\<close>
theorem file_names_roundtrip:
  "map (\<lambda>f. ParseFileName (base_name dbname (f dbname)))
     [\<lambda>d. LogFileName d n, \<lambda>d. TableFileName d n, \<lambda>d. SSTTableFileName d n, \<lambda>d. DescriptorFileName d n, \<lambda>d. TempFileName d n,
      CurrentFileName, LockFileName, InfoLogFileName, OldInfoLogFileName] =
   map Some [(n, kLogFile), (n, kTableFile), (n, kTableFile), (n, kDescriptorFile), (n, kTempFile),
     (0, kCurrentFile), (0, kDBLockFile), (0, kInfoLogFile), (0, kInfoLogFile)]"
proof -
  have "ParseFileName (decimal6 n @ s) = Some (n, t)" if "suffix_type s = Some t" for s t
  proof -
    have "ConsumeDecimalNumber (decimal6 n @ s) = (True, Some n, s)"
      using digits_decimal6 [of n] suffix_no_digit [OF that] by (auto simp: ConsumeDecimal_iff)
    moreover note fixed_no_digits [OF digits_decimal6, of n s]
    ultimately show ?thesis using that by (simp add: ParseFileName_def slice_eq_iff starts_with_iff)
  qed
  moreover have "ParseFileName (ascii ''MANIFEST-'' @ decimal6 n) = Some (n, kDescriptorFile)"
  proof -
    have "ConsumeDecimalNumber (decimal6 n) = (True, Some n, [])"
      using digits_decimal6 [of n] by (auto simp: ConsumeDecimal_iff)
    then show ?thesis by (simp add: ParseFileName_def slice_eq_iff starts_with_iff ascii_def)
  qed
  moreover have "suffix_type (ascii ''.'' @ ascii ''log'') = Some kLogFile" "suffix_type (ascii ''.'' @ ascii ''ldb'') = Some kTableFile"
    "suffix_type (ascii ''.'' @ ascii ''sst'') = Some kTableFile" "suffix_type (ascii ''.'' @ ascii ''dbtmp'') = Some kTempFile"
    by (simp_all add: suffix_type_iff ascii_def)
  ultimately show ?thesis
    by (simp add: base_names LogFileName_def TableFileName_def SSTTableFileName_def TempFileName_def)
      (simp add: base_name_def CurrentFileName_def LockFileName_def InfoLogFileName_def OldInfoLogFileName_def ParseFileName_def
        slice_eq_iff ascii_def)
qed

section \<open>CURRENT\<close>

lemma manifest_recognised: "ParseFileName (base_name dbname (DescriptorFileName dbname n)) = Some (n, kDescriptorFile)"
proof -
  have "ConsumeDecimalNumber (decimal6 n) = (True, Some n, [])"
    using digits_decimal6 [of n] by (auto simp: ConsumeDecimal_iff)
  then show ?thesis by (simp add: base_names ParseFileName_def slice_eq_iff starts_with_iff ascii_def)
qed

lemma temp_not_current: "TempFileName dbname n \<noteq> CurrentFileName dbname"
  using fixed_no_digits [OF digits_decimal6, of n "ascii ''.'' @ ascii ''dbtmp''"]
  by (auto simp: TempFileName_def MakeFileName_def CurrentFileName_def ascii_def)

context file_system
begin

lemma SetCurrentFile_files:
  assumes "SetCurrentFile env dbname num s = (st, s')"
  shows "files s' (CurrentFileName dbname) =
      (if ok st then Some (base_name dbname (DescriptorFileName dbname num) @ [10]) else files s (CurrentFileName dbname))"
    and "m \<notin> {CurrentFileName dbname, TempFileName dbname num} \<Longrightarrow> files s' m = files s m"
proof -
  let ?cur = "CurrentFileName dbname" and ?tmp = "TempFileName dbname num"
  let ?line = "base_name dbname (DescriptorFileName dbname num) @ [10]"
  obtain st1 s1 where w: "WriteStringToFileSync env ?line ?tmp s = (st1, s1)" by fastforce
  then have o1: "others_same files ?tmp s s1" and f1: "ok st1 \<Longrightarrow> files s1 ?tmp = Some ?line"
    using DoWriteStringToFile_writes [of ?line ?tmp True s st1 s1] by (simp_all add: WriteStringToFileSync_def)
  have keep: "others_same files ?tmp x (snd (env_DeleteFile env ?tmp x))" for x
    using delete_file by (cases "env_DeleteFile env ?tmp x") auto
  have run: "(st, s') = (let (s, st) = (if ok st1 then env_RenameFile env ?tmp ?cur s1 else (st1, s1)) in
      (s, if ok s then st else snd (env_DeleteFile env ?tmp st)))"
    using assms w by (simp add: SetCurrentFile_def Let_def base_name_def)
  obtain st2 s2 where r: "(if ok st1 then env_RenameFile env ?tmp ?cur s1 else (st1, s1)) = (st2, s2)" by fastforce
  have s: "st = st2" "s' = (if ok st2 then s2 else snd (env_DeleteFile env ?tmp s2))" using run r by auto
  have f2: "files s2 = (if ok st2 then (files s1)(?cur := Some ?line, ?tmp := None) else files s1)"
    using r rename [OF temp_not_current, of dbname num s1 st2 s2] f1 by (auto split: if_splits)
  show "files s' ?cur = (if ok st then Some ?line else files s ?cur)"
    using s f2 o1 keep [of s2] temp_not_current [of dbname num] by (auto simp: others_same_def)
  show "files s' m = files s m" if "m \<notin> {?cur, ?tmp}"
    using that s f2 o1 keep [of s2] by (auto simp: others_same_def)
qed

end

text \<open>
  C36. Pointing \<^verbatim>\<open>CURRENT\<close> at a manifest is atomic: on success the file holds the name of
  that manifest, which is recognised with its number, and on every failure it holds what it held
  before. Of the other names, only that of the temporary file is touched.
\<close>
theorem set_current_atomic:
  assumes "file_system env files on writing" and "SetCurrentFile env dbname num s = (st, s')"
  shows "files s' (CurrentFileName dbname) =
      (if ok st then Some (base_name dbname (DescriptorFileName dbname num) @ [10]) else files s (CurrentFileName dbname)) \<and>
    (\<forall>m. m \<notin> {CurrentFileName dbname, TempFileName dbname num} \<longrightarrow> files s' m = files s m) \<and>
    ParseFileName (base_name dbname (DescriptorFileName dbname num)) = Some (num, kDescriptorFile)"
  using file_system.SetCurrentFile_files [OF assms] manifest_recognised by blast

theorem set_current_atomic_witness:
  "let (st, e) = SetCurrentFile (PosixEnv memory_kernel) [100] 5 (new_PosixEnv example_memory) in
   st = OK \<and> mem_files (pe_kernel e) (CurrentFileName [100]) = Some (ascii ''MANIFEST-000005'' @ [10])"
proof -
  obtain st e where run: "SetCurrentFile (PosixEnv memory_kernel) [100] 5 (new_PosixEnv example_memory) = (st, e)" by fastforce
  have "base_name [100] (DescriptorFileName [100] 5) = ascii ''MANIFEST-000005''"
    by (simp add: base_names decimal6_def decimal.simps ascii_def) (simp add: eval_nat_numeral)
  moreover have "st = OK"
    using run
    by (auto simp: SetCurrentFile_def WriteStringToFileSync_def DoWriteStringToFile_def PosixEnv_def PosixEnv_NewWritableFile_def
        PosixEnv_RenameFile_def call_status_def on_kernel_def env_writable_def PosixWritableFile_def PosixWritableFile_Append_def
        PosixWritableFile_Sync_def SyncDirIfManifest_def PosixWritableFile_Close_def memory_kernel_def memory_stream_def Let_def
        split: prod.splits if_splits)
  ultimately show ?thesis
    using set_current_atomic [OF memory.posix_files.file_system_axioms run] run by simp
qed

end
