(* ===== verification/LdbVersionEdit.thy ===== *)
theory LdbVersionEdit
  imports LdbFormat LdbLogging "HOL-Library.Product_Lexorder"
begin

text \<open>
  LevelDB, \<^verbatim>\<open>db/version_edit.cc\<close>: the changes to the set of files of a database, as
  they are logged to a manifest. An edit is written as a sequence of tagged fields, and reading
  applies the fields one after another; the lemmas follow this view. The set of deleted files is
  the sorted list in whose order it is written.
\<close>

section \<open>Edits\<close>

record FileMetaData =
  fm_refs :: int
  allowed_seeks :: int
  fm_number :: "64 word"
  fm_file_size :: "64 word"
  smallest :: bytes
  largest :: bytes

definition new_FileMetaData :: FileMetaData where
  "new_FileMetaData = \<lparr>fm_refs = 0, allowed_seeks = 2 ^ 30, fm_number = 0, fm_file_size = 0, smallest = [], largest = []\<rparr>"

record VersionEdit =
  ve_comparator :: bytes
  ve_log_number :: "64 word"
  ve_prev_log_number :: "64 word"
  ve_next_file_number :: "64 word"
  ve_last_sequence :: SequenceNumber
  has_comparator :: bool
  has_log_number :: bool
  has_prev_log_number :: bool
  has_next_file_number :: bool
  has_last_sequence :: bool
  compact_pointers :: "(int \<times> bytes) list"
  deleted_files :: "(int \<times> 64 word) list"
  new_files :: "(int \<times> FileMetaData) list"

text \<open>\<open>Clear\<close> leaves the compaction pointers.\<close>

definition Edit_Clear :: "VersionEdit \<Rightarrow> VersionEdit" where
  "Edit_Clear e =
     e\<lparr>ve_comparator := [], ve_log_number := 0, ve_prev_log_number := 0, ve_last_sequence := 0, ve_next_file_number := 0,
       has_comparator := False, has_log_number := False, has_prev_log_number := False, has_next_file_number := False,
       has_last_sequence := False, deleted_files := [], new_files := []\<rparr>"

definition new_VersionEdit :: VersionEdit where
  "new_VersionEdit =
     \<lparr>ve_comparator = [], ve_log_number = 0, ve_prev_log_number = 0, ve_next_file_number = 0, ve_last_sequence = 0,
      has_comparator = False, has_log_number = False, has_prev_log_number = False, has_next_file_number = False,
      has_last_sequence = False, compact_pointers = [], deleted_files = [], new_files = []\<rparr>"

definition SetComparatorName :: "bytes \<Rightarrow> VersionEdit \<Rightarrow> VersionEdit" where
  "SetComparatorName name e = e\<lparr>has_comparator := True, ve_comparator := name\<rparr>"

definition SetLogNumber :: "64 word \<Rightarrow> VersionEdit \<Rightarrow> VersionEdit" where
  "SetLogNumber num e = e\<lparr>has_log_number := True, ve_log_number := num\<rparr>"

definition SetPrevLogNumber :: "64 word \<Rightarrow> VersionEdit \<Rightarrow> VersionEdit" where
  "SetPrevLogNumber num e = e\<lparr>has_prev_log_number := True, ve_prev_log_number := num\<rparr>"

definition SetNextFile :: "64 word \<Rightarrow> VersionEdit \<Rightarrow> VersionEdit" where
  "SetNextFile num e = e\<lparr>has_next_file_number := True, ve_next_file_number := num\<rparr>"

definition SetLastSequence :: "SequenceNumber \<Rightarrow> VersionEdit \<Rightarrow> VersionEdit" where
  "SetLastSequence seq e = e\<lparr>has_last_sequence := True, ve_last_sequence := seq\<rparr>"

definition SetCompactPointer :: "int \<Rightarrow> bytes \<Rightarrow> VersionEdit \<Rightarrow> VersionEdit" where
  "SetCompactPointer level key e = e\<lparr>compact_pointers := compact_pointers e @ [(level, key)]\<rparr>"

definition AddFile :: "int \<Rightarrow> 64 word \<Rightarrow> 64 word \<Rightarrow> bytes \<Rightarrow> bytes \<Rightarrow> VersionEdit \<Rightarrow> VersionEdit" where
  "AddFile level num file_size small large e =
     (let f = new_FileMetaData\<lparr>fm_number := num, fm_file_size := file_size, smallest := small, largest := large\<rparr> in
      e\<lparr>new_files := new_files e @ [(level, f)]\<rparr>)"

definition Edit_DeleteFile :: "int \<Rightarrow> 64 word \<Rightarrow> VersionEdit \<Rightarrow> VersionEdit" where
  "Edit_DeleteFile level num e = e\<lparr>deleted_files := insort_insert (level, num) (deleted_files e)\<rparr>"

section \<open>Writing\<close>

definition kTagComparator :: "32 word" where "kTagComparator = 1"
definition kTagLogNumber :: "32 word" where "kTagLogNumber = 2"
definition kTagNextFileNumber :: "32 word" where "kTagNextFileNumber = 3"
definition kTagLastSequence :: "32 word" where "kTagLastSequence = 4"
definition kTagCompactPointer :: "32 word" where "kTagCompactPointer = 5"
definition kTagDeletedFile :: "32 word" where "kTagDeletedFile = 6"
definition kTagNewFile :: "32 word" where "kTagNewFile = 7"
definition kTagPrevLogNumber :: "32 word" where "kTagPrevLogNumber = 9"

lemmas tag_defs = kTagComparator_def kTagLogNumber_def kTagNextFileNumber_def kTagLastSequence_def kTagCompactPointer_def
  kTagDeletedFile_def kTagNewFile_def kTagPrevLogNumber_def

definition put_number :: "bool \<Rightarrow> 32 word \<Rightarrow> 64 word \<Rightarrow> bytes \<Rightarrow> bytes" where
  "put_number has tag num dst = (if has then PutVarint64 (PutVarint32 dst tag) num else dst)"

definition VersionEdit_EncodeTo :: "VersionEdit \<Rightarrow> bytes \<Rightarrow> bytes" where
  "VersionEdit_EncodeTo e dst =
     (let dst = (if has_comparator e then PutLengthPrefixedSlice (PutVarint32 dst kTagComparator) (ve_comparator e) else dst);
          dst = put_number (has_log_number e) kTagLogNumber (ve_log_number e) dst;
          dst = put_number (has_prev_log_number e) kTagPrevLogNumber (ve_prev_log_number e) dst;
          dst = put_number (has_next_file_number e) kTagNextFileNumber (ve_next_file_number e) dst;
          dst = put_number (has_last_sequence e) kTagLastSequence (ve_last_sequence e) dst;
          dst = fold (\<lambda>(level, key) dst.
            PutLengthPrefixedSlice (PutVarint32 (PutVarint32 dst kTagCompactPointer) (of_int level)) key) (compact_pointers e) dst;
          dst = fold (\<lambda>(level, num) dst.
            PutVarint64 (PutVarint32 (PutVarint32 dst kTagDeletedFile) (of_int level)) num) (deleted_files e) dst in
      fold (\<lambda>(level, f) dst.
        PutLengthPrefixedSlice (PutLengthPrefixedSlice
          (PutVarint64 (PutVarint64 (PutVarint32 (PutVarint32 dst kTagNewFile) (of_int level)) (fm_number f)) (fm_file_size f))
          (smallest f)) (largest f)) (new_files e) dst)"

section \<open>Reading\<close>

definition kNumLevels :: nat where "kNumLevels = 7"

definition GetInternalKey :: "bytes \<Rightarrow> (bytes \<times> bytes) option" where
  "GetInternalKey input = GetLengthPrefixedSlice input"

definition GetLevel :: "bytes \<Rightarrow> (int \<times> bytes) option" where
  "GetLevel input =
     (case GetVarint32 input of
        None \<Rightarrow> None
      | Some (v, input) \<Rightarrow> if v < of_nat kNumLevels then Some (uint v, input) else None)"

text \<open>One field: the rest of the input and the edit, or the message for the error.\<close>

definition get_number :: "bytes \<Rightarrow> (64 word \<Rightarrow> VersionEdit) \<Rightarrow> bytes \<Rightarrow> bytes + bytes \<times> VersionEdit" where
  "get_number msg f input =
     (case GetVarint64 input of None \<Rightarrow> Inl msg | Some (num, input) \<Rightarrow> Inr (input, f num))"

definition decode_new_file :: "bytes \<Rightarrow> (int \<times> FileMetaData \<times> bytes) option" where
  "decode_new_file input =
     (case GetLevel input of None \<Rightarrow> None | Some (level, input) \<Rightarrow>
     (case GetVarint64 input of None \<Rightarrow> None | Some (num, input) \<Rightarrow>
     (case GetVarint64 input of None \<Rightarrow> None | Some (file_size, input) \<Rightarrow>
     (case GetInternalKey input of None \<Rightarrow> None | Some (small, input) \<Rightarrow>
     (case GetInternalKey input of None \<Rightarrow> None | Some (large, input) \<Rightarrow>
        Some (level, new_FileMetaData\<lparr>fm_number := num, fm_file_size := file_size, smallest := small, largest := large\<rparr>, input))))))"

definition decode_field :: "32 word \<Rightarrow> bytes \<Rightarrow> VersionEdit \<Rightarrow> bytes + bytes \<times> VersionEdit" where
  "decode_field tag input e =
     (if tag = kTagComparator then
        (case GetLengthPrefixedSlice input of
           None \<Rightarrow> Inl (ascii ''comparator name'')
         | Some (str, input) \<Rightarrow> Inr (input, e\<lparr>ve_comparator := str, has_comparator := True\<rparr>))
      else if tag = kTagLogNumber then
        get_number (ascii ''log number'') (\<lambda>num. e\<lparr>ve_log_number := num, has_log_number := True\<rparr>) input
      else if tag = kTagPrevLogNumber then
        get_number (ascii ''previous log number'') (\<lambda>num. e\<lparr>ve_prev_log_number := num, has_prev_log_number := True\<rparr>) input
      else if tag = kTagNextFileNumber then
        get_number (ascii ''next file number'') (\<lambda>num. e\<lparr>ve_next_file_number := num, has_next_file_number := True\<rparr>) input
      else if tag = kTagLastSequence then
        get_number (ascii ''last sequence number'') (\<lambda>num. e\<lparr>ve_last_sequence := num, has_last_sequence := True\<rparr>) input
      else if tag = kTagCompactPointer then
        (case GetLevel input of
           None \<Rightarrow> Inl (ascii ''compaction pointer'')
         | Some (level, input) \<Rightarrow>
             (case GetInternalKey input of
                None \<Rightarrow> Inl (ascii ''compaction pointer'')
              | Some (key, input) \<Rightarrow> Inr (input, e\<lparr>compact_pointers := compact_pointers e @ [(level, key)]\<rparr>)))
      else if tag = kTagDeletedFile then
        (case GetLevel input of
           None \<Rightarrow> Inl (ascii ''deleted file'')
         | Some (level, input) \<Rightarrow>
             get_number (ascii ''deleted file'') (\<lambda>num. e\<lparr>deleted_files := insort_insert (level, num) (deleted_files e)\<rparr>) input)
      else if tag = kTagNewFile then
        (case decode_new_file input of
           None \<Rightarrow> Inl (ascii ''new-file entry'')
         | Some (level, f, input) \<Rightarrow> Inr (input, e\<lparr>new_files := new_files e @ [(level, f)]\<rparr>))
      else Inl (ascii ''unknown tag''))"

lemma GetLevel_shorter: "GetLevel p = Some (v, rest) \<Longrightarrow> length rest < length p"
  by (auto simp: GetLevel_def dest!: GetVarint32_shorter split: option.splits if_splits)

lemma decode_new_file_shorter: "decode_new_file p = Some (l, f, rest) \<Longrightarrow> length rest < length p"
  by (auto simp: decode_new_file_def GetInternalKey_def dest!: GetLevel_shorter GetVarint64_shorter GetLengthPrefixedSlice_shorter
      split: option.splits prod.splits)

lemma decode_field_shorter: "decode_field tag input e = Inr (rest, e') \<Longrightarrow> length rest < length input"
  by (auto simp: decode_field_def get_number_def GetInternalKey_def split: if_splits option.splits prod.splits
      dest!: GetLevel_shorter GetVarint64_shorter GetLengthPrefixedSlice_shorter decode_new_file_shorter)

text \<open>The loop, with the edit as it is when the message is set.\<close>

function decode_loop :: "bytes \<Rightarrow> VersionEdit \<Rightarrow> bytes option \<times> VersionEdit" where
  "decode_loop input e =
     (case GetVarint32 input of
        None \<Rightarrow> (if input = [] then None else Some (ascii ''invalid tag''), e)
      | Some (tag, input) \<Rightarrow>
          (case decode_field tag input e of
             Inl msg \<Rightarrow> (Some msg, e)
           | Inr (input, e) \<Rightarrow> decode_loop input e))"
  by pat_completeness auto
termination
  by (relation "measure (\<lambda>(input, e). length input)") (auto dest!: GetVarint32_shorter decode_field_shorter)

declare decode_loop.simps [simp del]

definition VersionEdit_DecodeFrom :: "bytes \<Rightarrow> VersionEdit \<Rightarrow> Status \<times> VersionEdit" where
  "VersionEdit_DecodeFrom src e =
     (case decode_loop src (Edit_Clear e) of
        (msg, e) \<Rightarrow> (case msg of None \<Rightarrow> OK | Some m \<Rightarrow> Corruption (ascii ''VersionEdit'') m, e))"

section \<open>Printing\<close>

definition ParsedInternalKey_DebugString :: "ParsedInternalKey \<Rightarrow> bytes" where
  "ParsedInternalKey_DebugString k =
     [39] @ EscapeString (user_key k) @ [39] @ ascii '' @ '' @ decimal (unat (sequence k)) @ ascii '' : '' @ decimal (unat (type k))"

definition InternalKey_DebugString :: "bytes \<Rightarrow> bytes" where
  "InternalKey_DebugString rep =
     (case ParseInternalKey rep of
        Some parsed \<Rightarrow> ParsedInternalKey_DebugString parsed
      | None \<Rightarrow> ascii ''(bad)'' @ EscapeString rep)"

definition newline_field :: "string \<Rightarrow> bytes" where
  "newline_field label = [10] @ ascii ''  '' @ ascii label @ ascii '': ''"

definition VersionEdit_DebugString :: "VersionEdit \<Rightarrow> bytes" where
  "VersionEdit_DebugString e =
     ascii ''VersionEdit {'' @
     (if has_comparator e then newline_field ''Comparator'' @ ve_comparator e else []) @
     (if has_log_number e then AppendNumberTo (newline_field ''LogNumber'') (ve_log_number e) else []) @
     (if has_prev_log_number e then AppendNumberTo (newline_field ''PrevLogNumber'') (ve_prev_log_number e) else []) @
     (if has_next_file_number e then AppendNumberTo (newline_field ''NextFile'') (ve_next_file_number e) else []) @
     (if has_last_sequence e then AppendNumberTo (newline_field ''LastSeq'') (ve_last_sequence e) else []) @
     concat (map (\<lambda>(level, key). AppendNumberTo (newline_field ''CompactPointer'') (of_int level) @ ascii '' '' @
       InternalKey_DebugString key) (compact_pointers e)) @
     concat (map (\<lambda>(level, num). AppendNumberTo (AppendNumberTo (newline_field ''DeleteFile'') (of_int level) @ ascii '' '') num)
       (deleted_files e)) @
     concat (map (\<lambda>(level, f). AppendNumberTo (AppendNumberTo (AppendNumberTo (newline_field ''AddFile'') (of_int level) @ ascii '' '')
       (fm_number f) @ ascii '' '') (fm_file_size f) @ ascii '' '' @ InternalKey_DebugString (smallest f) @ ascii '' .. '' @
       InternalKey_DebugString (largest f)) (new_files e)) @
     [10] @ ascii ''}'' @ [10]"

section \<open>An edit as a sequence of fields\<close>

datatype edit_field =
    Comparator_field bytes | Log_field "64 word" | PrevLog_field "64 word" | NextFile_field "64 word"
  | LastSequence_field "64 word" | Pointer_field int bytes | Deleted_field int "64 word" | New_field int FileMetaData

definition enc_number :: "64 word \<Rightarrow> bytes" where "enc_number n = EncodeVarint64 n"
definition enc_level :: "int \<Rightarrow> bytes" where "enc_level l = EncodeVarint32 (of_int l)"
definition enc_slice :: "bytes \<Rightarrow> bytes" where "enc_slice s = PutLengthPrefixedSlice [] s"

primrec field_tag :: "edit_field \<Rightarrow> 32 word" where
  "field_tag (Comparator_field s) = kTagComparator"
| "field_tag (Log_field n) = kTagLogNumber"
| "field_tag (PrevLog_field n) = kTagPrevLogNumber"
| "field_tag (NextFile_field n) = kTagNextFileNumber"
| "field_tag (LastSequence_field n) = kTagLastSequence"
| "field_tag (Pointer_field l k) = kTagCompactPointer"
| "field_tag (Deleted_field l n) = kTagDeletedFile"
| "field_tag (New_field l f) = kTagNewFile"

primrec field_body :: "edit_field \<Rightarrow> bytes" where
  "field_body (Comparator_field s) = enc_slice s"
| "field_body (Log_field n) = enc_number n"
| "field_body (PrevLog_field n) = enc_number n"
| "field_body (NextFile_field n) = enc_number n"
| "field_body (LastSequence_field n) = enc_number n"
| "field_body (Pointer_field l k) = enc_level l @ enc_slice k"
| "field_body (Deleted_field l n) = enc_level l @ enc_number n"
| "field_body (New_field l f) =
     enc_level l @ enc_number (fm_number f) @ enc_number (fm_file_size f) @ enc_slice (smallest f) @ enc_slice (largest f)"

definition enc_field :: "edit_field \<Rightarrow> bytes" where
  "enc_field f = EncodeVarint32 (field_tag f) @ field_body f"

primrec apply_field :: "edit_field \<Rightarrow> VersionEdit \<Rightarrow> VersionEdit" where
  "apply_field (Comparator_field s) e = e\<lparr>ve_comparator := s, has_comparator := True\<rparr>"
| "apply_field (Log_field n) e = e\<lparr>ve_log_number := n, has_log_number := True\<rparr>"
| "apply_field (PrevLog_field n) e = e\<lparr>ve_prev_log_number := n, has_prev_log_number := True\<rparr>"
| "apply_field (NextFile_field n) e = e\<lparr>ve_next_file_number := n, has_next_file_number := True\<rparr>"
| "apply_field (LastSequence_field n) e = e\<lparr>ve_last_sequence := n, has_last_sequence := True\<rparr>"
| "apply_field (Pointer_field l k) e = e\<lparr>compact_pointers := compact_pointers e @ [(l, k)]\<rparr>"
| "apply_field (Deleted_field l n) e = e\<lparr>deleted_files := insort_insert (l, n) (deleted_files e)\<rparr>"
| "apply_field (New_field l f) e = e\<lparr>new_files := new_files e @ [(l, f)]\<rparr>"

definition short :: "bytes \<Rightarrow> bool" where "short s \<longleftrightarrow> length s < 2 ^ 32"
definition level_ok :: "int \<Rightarrow> bool" where "level_ok l \<longleftrightarrow> 0 \<le> l \<and> l < int kNumLevels"

definition file_ok :: "FileMetaData \<Rightarrow> bool" where
  "file_ok f \<longleftrightarrow> fm_refs f = 0 \<and> allowed_seeks f = 2 ^ 30 \<and> short (smallest f) \<and> short (largest f)"

primrec field_ok :: "edit_field \<Rightarrow> bool" where
  "field_ok (Comparator_field s) \<longleftrightarrow> short s"
| "field_ok (Log_field n) \<longleftrightarrow> True"
| "field_ok (PrevLog_field n) \<longleftrightarrow> True"
| "field_ok (NextFile_field n) \<longleftrightarrow> True"
| "field_ok (LastSequence_field n) \<longleftrightarrow> True"
| "field_ok (Pointer_field l k) \<longleftrightarrow> level_ok l \<and> short k"
| "field_ok (Deleted_field l n) \<longleftrightarrow> level_ok l"
| "field_ok (New_field l f) \<longleftrightarrow> level_ok l \<and> file_ok f"

definition edit_fields :: "VersionEdit \<Rightarrow> edit_field list" where
  "edit_fields e =
     (if has_comparator e then [Comparator_field (ve_comparator e)] else []) @
     (if has_log_number e then [Log_field (ve_log_number e)] else []) @
     (if has_prev_log_number e then [PrevLog_field (ve_prev_log_number e)] else []) @
     (if has_next_file_number e then [NextFile_field (ve_next_file_number e)] else []) @
     (if has_last_sequence e then [LastSequence_field (ve_last_sequence e)] else []) @
     map (\<lambda>(l, k). Pointer_field l k) (compact_pointers e) @ map (\<lambda>(l, n). Deleted_field l n) (deleted_files e) @
     map (\<lambda>(l, f). New_field l f) (new_files e)"

lemma fold_append: "(\<And>x dst. x \<in> set xs \<Longrightarrow> f x dst = dst @ g x) \<Longrightarrow> fold f xs dst = dst @ concat (map g xs)"
  by (induction xs arbitrary: dst) auto

lemma put_enc: "PutVarint32 dst v = dst @ EncodeVarint32 v" "PutVarint64 dst n = dst @ enc_number n"
  "PutLengthPrefixedSlice dst s = dst @ enc_slice s"
  by (simp_all add: PutVarint32_def PutVarint64_def enc_number_def enc_slice_def PutLengthPrefixedSlice_def)

lemma EncodeTo_fields: "VersionEdit_EncodeTo e dst = dst @ concat (map enc_field (edit_fields e))"
proof -
  have f: "fold (\<lambda>(level, key) dst.
        PutLengthPrefixedSlice (PutVarint32 (PutVarint32 dst kTagCompactPointer) (of_int level)) key) ps dst =
      dst @ concat (map enc_field (map (\<lambda>(l, k). Pointer_field l k) ps))"
    "fold (\<lambda>(level, num) dst. PutVarint64 (PutVarint32 (PutVarint32 dst kTagDeletedFile) (of_int level)) num) ds dst =
      dst @ concat (map enc_field (map (\<lambda>(l, n). Deleted_field l n) ds))"
    "fold (\<lambda>(level, f) dst.
        PutLengthPrefixedSlice (PutLengthPrefixedSlice
          (PutVarint64 (PutVarint64 (PutVarint32 (PutVarint32 dst kTagNewFile) (of_int level)) (fm_number f)) (fm_file_size f))
          (smallest f)) (largest f)) fs dst =
      dst @ concat (map enc_field (map (\<lambda>(l, f). New_field l f) fs))" for ps ds fs dst
    unfolding map_map by (rule fold_append; auto simp: enc_field_def put_enc enc_level_def)+
  show ?thesis
    by (simp add: VersionEdit_EncodeTo_def edit_fields_def f Let_def put_number_def)
      (simp add: put_enc enc_field_def)
qed

lemma read_back [simp]:
  "short s \<Longrightarrow> GetLengthPrefixedSlice (enc_slice s @ rest) = Some (s, rest)"
  "short s \<Longrightarrow> GetInternalKey (enc_slice s @ rest) = Some (s, rest)"
  "GetVarint64 (enc_number n @ rest) = Some (n, rest)"
  "level_ok l \<Longrightarrow> GetLevel (enc_level l @ rest) = Some (l, rest)"
proof -
  show "GetLengthPrefixedSlice (enc_slice s @ rest) = Some (s, rest)" if "short s"
    using ldb_slice.dec_enc [of s rest] that by (simp add: short_def enc_slice_def)
  then show "GetInternalKey (enc_slice s @ rest) = Some (s, rest)" if "short s"
    using that by (simp add: GetInternalKey_def)
  show "GetVarint64 (enc_number n @ rest) = Some (n, rest)"
    using ldb_varint64.dec_enc [of n rest] by (simp add: enc_number_def)
  show "GetLevel (enc_level l @ rest) = Some (l, rest)" if "level_ok l"
  proof -
    have l: "0 \<le> l" "l < 7" using that by (simp_all add: level_ok_def kNumLevels_def)
    then have u: "uint (of_int l :: 32 word) = l" by (simp add: uint_word_of_int)
    then have "(of_int l :: 32 word) < of_nat kNumLevels" using l by (simp add: word_less_def kNumLevels_def)
    then show ?thesis using ldb_varint32.dec_enc [of "of_int l" rest] u by (simp add: GetLevel_def enc_level_def)
  qed
qed

lemma decode_field_enc: "field_ok f \<Longrightarrow> decode_field (field_tag f) (field_body f @ rest) e = Inr (rest, apply_field f e)"
  by (cases f) (auto simp: decode_field_def tag_defs get_number_def decode_new_file_def file_ok_def new_FileMetaData_def)

lemma decode_loop_fields:
  "\<forall>f \<in> set fs. field_ok f \<Longrightarrow> decode_loop (concat (map enc_field fs)) e = (None, fold apply_field fs e)"
proof (induction fs arbitrary: e)
  case Nil
  have "GetVarint32 [] = None" using GetVarint32_shorter [of "[]"] by (cases "GetVarint32 []") auto
  then show ?case by (simp add: decode_loop.simps)
next
  case (Cons f fs)
  have "GetVarint32 (enc_field f @ concat (map enc_field fs)) = Some (field_tag f, field_body f @ concat (map enc_field fs))"
    using ldb_varint32.dec_enc [of "field_tag f"] by (simp add: enc_field_def)
  then show ?case
    using Cons decode_field_enc [of f] by (subst decode_loop.simps) simp
qed

section \<open>Round trip\<close>

text \<open>What the setters keep of an edit: what is not set is zero, and the parts are in range.\<close>

definition edit_ok :: "VersionEdit \<Rightarrow> bool" where
  "edit_ok e \<longleftrightarrow>
     (\<not> has_comparator e \<longrightarrow> ve_comparator e = []) \<and> (\<not> has_log_number e \<longrightarrow> ve_log_number e = 0) \<and>
     (\<not> has_prev_log_number e \<longrightarrow> ve_prev_log_number e = 0) \<and> (\<not> has_next_file_number e \<longrightarrow> ve_next_file_number e = 0) \<and>
     (\<not> has_last_sequence e \<longrightarrow> ve_last_sequence e = 0) \<and> sorted_wrt (<) (deleted_files e) \<and> short (ve_comparator e) \<and>
     (\<forall>(l, k) \<in> set (compact_pointers e). level_ok l \<and> short k) \<and> (\<forall>(l, n) \<in> set (deleted_files e). level_ok l) \<and>
     (\<forall>(l, f) \<in> set (new_files e). level_ok l \<and> file_ok f)"

lemma edit_fields_ok: "edit_ok e \<Longrightarrow> \<forall>f \<in> set (edit_fields e). field_ok f"
  by (auto simp: edit_ok_def edit_fields_def)

lemma insort_insert_last: "\<forall>y \<in> set xs. y < x \<Longrightarrow> insort_insert x xs = xs @ [x]"
proof -
  assume less: "\<forall>y \<in> set xs. y < x"
  then have "insort x xs = xs @ [x]" by (induction xs) auto
  moreover have "x \<notin> set xs" using less by blast
  ultimately show ?thesis by (simp add: insort_insert_key_def)
qed

lemma fold_pointers: "fold apply_field (map (\<lambda>(l, k). Pointer_field l k) ps) e = e\<lparr>compact_pointers := compact_pointers e @ ps\<rparr>"
  by (induction ps arbitrary: e) auto

lemma fold_new: "fold apply_field (map (\<lambda>(l, f). New_field l f) fs) e = e\<lparr>new_files := new_files e @ fs\<rparr>"
  by (induction fs arbitrary: e) auto

lemma fold_deleted:
  "sorted_wrt (<) (deleted_files e @ ds) \<Longrightarrow>
   fold apply_field (map (\<lambda>(l, n). Deleted_field l n) ds) e = e\<lparr>deleted_files := deleted_files e @ ds\<rparr>"
proof (induction ds arbitrary: e)
  case (Cons d ds)
  have "insort_insert d (deleted_files e) = deleted_files e @ [d]"
    using Cons.prems by (intro insort_insert_last) (auto simp: sorted_wrt_append)
  moreover have "sorted_wrt (<) ((deleted_files e @ [d]) @ ds)" using Cons.prems by simp
  ultimately show ?case using Cons.IH [of "e\<lparr>deleted_files := deleted_files e @ [d]\<rparr>"] by (cases d) simp
qed simp

lemma fold_fields:
  assumes "edit_ok e"
  shows "fold apply_field (edit_fields e) (Edit_Clear e0) = e\<lparr>compact_pointers := compact_pointers e0 @ compact_pointers e\<rparr>"
proof -
  have "sorted_wrt (<) (deleted_files e)" using assms by (simp add: edit_ok_def)
  then show ?thesis
    using assms
    by (simp add: edit_fields_def fold_pointers fold_new fold_deleted Edit_Clear_def)
      (cases e; simp add: edit_ok_def)
qed



section \<open>Edits stay in range\<close>

lemma sorted_insort_insert: "sorted_wrt (<) xs \<Longrightarrow> sorted_wrt (<) (insort_insert x xs)"
  by (auto simp: strict_sorted_iff insort_insert_key_def sorted_insort distinct_insort)

lemma apply_field_ok: "edit_ok e \<Longrightarrow> field_ok f \<Longrightarrow> edit_ok (apply_field f e)"
  by (cases f) (auto simp: edit_ok_def sorted_insort_insert set_insort_insert)

lemma Edit_Clear_ok: "\<forall>(l, k) \<in> set (compact_pointers e). level_ok l \<and> short k \<Longrightarrow> edit_ok (Edit_Clear e)"
  by (simp add: edit_ok_def Edit_Clear_def short_def)

text \<open>The setters apply a field.\<close>

lemma setters_apply:
  "SetComparatorName s e = apply_field (Comparator_field s) e" "SetLogNumber n e = apply_field (Log_field n) e"
  "SetPrevLogNumber n e = apply_field (PrevLog_field n) e" "SetNextFile n e = apply_field (NextFile_field n) e"
  "SetLastSequence n e = apply_field (LastSequence_field n) e" "SetCompactPointer l k e = apply_field (Pointer_field l k) e"
  "Edit_DeleteFile l n e = apply_field (Deleted_field l n) e"
  "AddFile l n sz small large e = apply_field (New_field l (new_FileMetaData\<lparr>fm_number := n, fm_file_size := sz,
     smallest := small, largest := large\<rparr>)) e"
  by (simp_all add: SetComparatorName_def SetLogNumber_def SetPrevLogNumber_def SetNextFile_def SetLastSequence_def
      SetCompactPointer_def Edit_DeleteFile_def AddFile_def Let_def)

lemma GetLengthPrefixedSlice_short: "GetLengthPrefixedSlice p = Some (s, rest) \<Longrightarrow> short s"
proof -
  assume "GetLengthPrefixedSlice p = Some (s, rest)"
  then obtain len b where "GetVarint32 p = Some (len, b)" "s = take (unat len) b"
    by (auto simp: GetLengthPrefixedSlice_def split: option.splits if_splits)
  then show ?thesis using unsigned_less [of len, where ?'a = nat] by (simp add: short_def)
qed

lemma GetLevel_ok: "GetLevel p = Some (l, rest) \<Longrightarrow> level_ok l"
proof -
  assume "GetLevel p = Some (l, rest)"
  then obtain v where v: "GetVarint32 p = Some (v, rest)" "v < of_nat kNumLevels" "l = uint v"
    by (auto simp: GetLevel_def split: option.splits if_splits)
  then have "uint v < 7" by (simp add: kNumLevels_def word_less_def)
  then show ?thesis using v(3) by (simp add: level_ok_def kNumLevels_def)
qed

lemma decode_field_applies:
  assumes "decode_field tag input e = Inr (rest, e')"
  shows "\<exists>f. e' = apply_field f e \<and> field_ok f"
proof -
  have new: "decode_new_file input = Some (l, f, rest) \<Longrightarrow> field_ok (New_field l f)" for l f rest
    by (auto simp: decode_new_file_def GetInternalKey_def file_ok_def new_FileMetaData_def dest!: GetLevel_ok GetLengthPrefixedSlice_short
        split: option.splits prod.splits)
  have ?thesis if "tag = kTagComparator"
    using assms that by (auto simp: decode_field_def get_number_def GetInternalKey_def tag_defs split: option.splits
        dest: GetLevel_ok GetLengthPrefixedSlice_short intro!: exI [where x = "Comparator_field s" for s])
  moreover have ?thesis if "tag = kTagLogNumber"
    using assms that by (auto simp: decode_field_def get_number_def GetInternalKey_def tag_defs split: option.splits
        dest: GetLevel_ok GetLengthPrefixedSlice_short intro!: exI [where x = "Log_field n" for n])
  moreover have ?thesis if "tag = kTagPrevLogNumber"
    using assms that by (auto simp: decode_field_def get_number_def GetInternalKey_def tag_defs split: option.splits
        dest: GetLevel_ok GetLengthPrefixedSlice_short intro!: exI [where x = "PrevLog_field n" for n])
  moreover have ?thesis if "tag = kTagNextFileNumber"
    using assms that by (auto simp: decode_field_def get_number_def GetInternalKey_def tag_defs split: option.splits
        dest: GetLevel_ok GetLengthPrefixedSlice_short intro!: exI [where x = "NextFile_field n" for n])
  moreover have ?thesis if "tag = kTagLastSequence"
    using assms that by (auto simp: decode_field_def get_number_def GetInternalKey_def tag_defs split: option.splits
        dest: GetLevel_ok GetLengthPrefixedSlice_short intro!: exI [where x = "LastSequence_field n" for n])
  moreover have ?thesis if "tag = kTagCompactPointer"
  proof -
    obtain l p k where "GetLevel input = Some (l, p)" "GetLengthPrefixedSlice p = Some (k, rest)" "e' = apply_field (Pointer_field l k) e"
      using assms \<open>tag = kTagCompactPointer\<close> by (auto simp: decode_field_def GetInternalKey_def tag_defs split: option.splits)
    then show ?thesis using GetLevel_ok GetLengthPrefixedSlice_short by (intro exI [of _ "Pointer_field l k"]) simp
  qed
  moreover have ?thesis if "tag = kTagDeletedFile"
  proof -
    obtain l p n where "GetLevel input = Some (l, p)" "e' = apply_field (Deleted_field l n) e"
      using assms \<open>tag = kTagDeletedFile\<close> by (auto simp: decode_field_def get_number_def tag_defs split: option.splits)
    then show ?thesis using GetLevel_ok by (intro exI [of _ "Deleted_field l n"]) simp
  qed
  moreover have ?thesis if "tag = kTagNewFile"
    using assms that new by (auto simp: decode_field_def tag_defs split: option.splits intro!: exI [where x = "New_field l f" for l f])
  moreover have "tag \<in> {kTagComparator, kTagLogNumber, kTagPrevLogNumber, kTagNextFileNumber, kTagLastSequence, kTagCompactPointer,
      kTagDeletedFile, kTagNewFile}"
    using assms by (simp add: decode_field_def split: if_splits)
  ultimately show ?thesis by blast
qed

lemma decode_loop_ok: "decode_loop input e = (msg, e') \<Longrightarrow> edit_ok e \<Longrightarrow> edit_ok e'"
proof (induction input e rule: decode_loop.induct)
  case (1 input e)
  show ?case
  proof (cases "GetVarint32 input")
    case None
    then show ?thesis using 1(2,3) by (subst (asm) decode_loop.simps) auto
  next
    case (Some x)
    obtain tag rest where x: "x = (tag, rest)" by (cases x)
    show ?thesis
    proof (cases "decode_field tag rest e")
      case (Inl m)
      then show ?thesis using 1(2,3) Some x by (subst (asm) decode_loop.simps) auto
    next
      case (Inr y)
      obtain rest' e1 where y: "y = (rest', e1)" by (cases y)
      then have "edit_ok e1" using decode_field_applies [of tag rest e rest' e1] Inr apply_field_ok [OF 1(3)] by auto
      moreover have "decode_loop rest' e1 = (msg, e')" using 1(2) Some x Inr y by (subst (asm) decode_loop.simps) simp
      ultimately show ?thesis using 1(1) [OF Some x [symmetric] Inr y [symmetric]] by blast
    qed
  qed
qed



end
