(* ===== verification/LdbCache.thy ===== *)
theory LdbCache
  imports LdbBloom "HOL-Library.Multiset"
begin

text \<open>
  LevelDB, \<^verbatim>\<open>util/cache.cc\<close>: the cache of blocks and tables, a hash table and a list in the
  order of use per shard, whose entries live as long as a client holds them. Entries are numbers
  that stand for their addresses; the two linked lists are the lists of the entries on them. Each
  operation runs under the mutex of its shard, so it is one step. The table is shown to find
  exactly the entries on the list, and an entry to be freed exactly when nobody refers to it.
\<close>

section \<open>Entries\<close>

record 'v LRUHandle =
  lh_value :: 'v
  lh_key :: bytes
  lh_charge :: "64 word"
  lh_refs :: "32 word"
  lh_hash :: "32 word"

type_synonym 'v handles = "nat \<Rightarrow> 'v LRUHandle option"

section \<open>The hash table\<close>

text \<open>A bucket is the list of the entries chained in it.\<close>

record HandleTable =
  ht_length :: nat
  ht_elems :: nat
  ht_list :: "nat list list"

text \<open>Whether the loop of \<open>FindPointer\<close> stops at an entry.\<close>

definition matches :: "'v handles \<Rightarrow> bytes \<Rightarrow> 32 word \<Rightarrow> nat \<Rightarrow> bool" where
  "matches hp key hash h \<longleftrightarrow>
     (case hp h of None \<Rightarrow> False | Some e \<Rightarrow> lh_hash e = hash \<and> slice_eq key (lh_key e))"

definition bucket :: "nat \<Rightarrow> 32 word \<Rightarrow> nat" where
  "bucket len hash = unat (hash AND of_nat (len - 1))"

definition HandleTable_Lookup :: "'v handles \<Rightarrow> bytes \<Rightarrow> 32 word \<Rightarrow> HandleTable \<Rightarrow> nat option" where
  "HandleTable_Lookup hp key hash t = find (matches hp key hash) (ht_list t ! bucket (ht_length t) hash)"

text \<open>Storing into, and unlinking from, the slot that \<open>FindPointer\<close> returns.\<close>

primrec put_slot :: "(nat \<Rightarrow> bool) \<Rightarrow> nat \<Rightarrow> nat list \<Rightarrow> nat option \<times> nat list" where
  "put_slot m h [] = (None, [h])"
| "put_slot m h (x # xs) =
     (if m x then (Some x, h # xs) else (case put_slot m h xs of (old, xs) \<Rightarrow> (old, x # xs)))"

primrec drop_slot :: "(nat \<Rightarrow> bool) \<Rightarrow> nat list \<Rightarrow> nat option \<times> nat list" where
  "drop_slot m [] = (None, [])"
| "drop_slot m (x # xs) =
     (if m x then (Some x, xs) else (case drop_slot m xs of (old, xs) \<Rightarrow> (old, x # xs)))"

function resize_length :: "nat \<Rightarrow> nat \<Rightarrow> nat" where
  "resize_length new_length elems = (if 0 < new_length \<and> new_length < elems then resize_length (new_length * 2) elems else new_length)"
  by pat_completeness auto
termination by (relation "measure (\<lambda>(n, e). e - n)") auto

declare resize_length.simps [simp del]

definition entry_hash :: "'v handles \<Rightarrow> nat \<Rightarrow> 32 word" where
  "entry_hash hp h = (case hp h of None \<Rightarrow> 0 | Some e \<Rightarrow> lh_hash e)"

definition push_bucket :: "'v handles \<Rightarrow> nat \<Rightarrow> nat \<Rightarrow> nat list list \<Rightarrow> nat list list" where
  "push_bucket hp len h buckets =
     (let i = bucket len (entry_hash hp h) in buckets[i := h # buckets ! i])"

definition HandleTable_Resize :: "'v handles \<Rightarrow> HandleTable \<Rightarrow> HandleTable" where
  "HandleTable_Resize hp t =
     (let new_length = resize_length 4 (ht_elems t);
          new_list = fold (\<lambda>chain. fold (push_bucket hp new_length) chain) (ht_list t) (replicate new_length []) in
      t\<lparr>ht_list := new_list, ht_length := new_length\<rparr>)"

definition new_HandleTable :: HandleTable where
  "new_HandleTable = HandleTable_Resize (\<lambda>_. None :: unit LRUHandle option) \<lparr>ht_length = 0, ht_elems = 0, ht_list = []\<rparr>"

definition HandleTable_Insert :: "'v handles \<Rightarrow> bytes \<Rightarrow> 32 word \<Rightarrow> nat \<Rightarrow> HandleTable \<Rightarrow> nat option \<times> HandleTable" where
  "HandleTable_Insert hp key hash h t =
     (let i = bucket (ht_length t) hash;
          (old, chain) = put_slot (matches hp key hash) h (ht_list t ! i);
          t = t\<lparr>ht_list := (ht_list t)[i := chain]\<rparr> in
      if old = None then
        let t = t\<lparr>ht_elems := ht_elems t + 1\<rparr> in
        (old, if ht_length t < ht_elems t then HandleTable_Resize hp t else t)
      else (old, t))"

definition HandleTable_Remove :: "'v handles \<Rightarrow> bytes \<Rightarrow> 32 word \<Rightarrow> HandleTable \<Rightarrow> nat option \<times> HandleTable" where
  "HandleTable_Remove hp key hash t =
     (let i = bucket (ht_length t) hash;
          (result, chain) = drop_slot (matches hp key hash) (ht_list t ! i) in
      if result = None then (None, t)
      else (result, t\<lparr>ht_list := (ht_list t)[i := chain], ht_elems := ht_elems t - 1\<rparr>))"

section \<open>A shard\<close>

text \<open>
  The list of the entries from the oldest to the newest; \<open>fresh\<close> is the next address, and
  \<open>deleted\<close> what the deleters have been called with.
\<close>

record 'v LRUCache =
  capacity :: "64 word"
  usage :: "64 word"
  lru :: "nat list"
  htable :: HandleTable
  heap :: "'v handles"
  fresh :: nat
  deleted :: "(bytes \<times> 'v) list"

definition new_LRUCache :: "64 word \<Rightarrow> 'v LRUCache" where
  "new_LRUCache cap =
     \<lparr>capacity = cap, usage = 0, lru = [], htable = new_HandleTable, heap = (\<lambda>_. None), fresh = 0, deleted = []\<rparr>"

definition Unref :: "nat \<Rightarrow> 'v LRUCache \<Rightarrow> 'v LRUCache" where
  "Unref h c =
     (case heap c h of
        None \<Rightarrow> c
      | Some e \<Rightarrow>
          let e = e\<lparr>lh_refs := lh_refs e - 1\<rparr> in
          if lh_refs e \<le> 0
          then c\<lparr>usage := usage c - lh_charge e, deleted := deleted c @ [(lh_key e, lh_value e)], heap := (heap c)(h := None)\<rparr>
          else c\<lparr>heap := (heap c)(h \<mapsto> e)\<rparr>)"

definition LRU_Remove :: "nat \<Rightarrow> 'v LRUCache \<Rightarrow> 'v LRUCache" where
  "LRU_Remove h c = c\<lparr>lru := remove1 h (lru c)\<rparr>"

definition LRU_Append :: "nat \<Rightarrow> 'v LRUCache \<Rightarrow> 'v LRUCache" where
  "LRU_Append h c = c\<lparr>lru := lru c @ [h]\<rparr>"

definition LRU_Lookup :: "bytes \<Rightarrow> 32 word \<Rightarrow> 'v LRUCache \<Rightarrow> nat option \<times> 'v LRUCache" where
  "LRU_Lookup key hash c =
     (case HandleTable_Lookup (heap c) key hash (htable c) of
        None \<Rightarrow> (None, c)
      | Some h \<Rightarrow>
          (Some h, LRU_Append h (LRU_Remove h
             (c\<lparr>heap := (heap c)(h := map_option (\<lambda>e. e\<lparr>lh_refs := lh_refs e + 1\<rparr>) (heap c h))\<rparr>))))"

definition LRU_Release :: "nat \<Rightarrow> 'v LRUCache \<Rightarrow> 'v LRUCache" where
  "LRU_Release h c = Unref h c"

text \<open>The loop that makes room, and one round of it.\<close>

definition evict_oldest :: "nat \<Rightarrow> 'v LRUCache \<Rightarrow> 'v LRUCache" where
  "evict_oldest old c =
     (let c = LRU_Remove old c in
      case heap c old of
        None \<Rightarrow> c
      | Some e \<Rightarrow> Unref old (c\<lparr>htable := snd (HandleTable_Remove (heap c) (lh_key e) (lh_hash e) (htable c))\<rparr>))"

lemma lru_Unref [simp]: "lru (Unref h c) = lru c"
  by (simp add: Unref_def Let_def split: option.split)

lemma lru_evict_oldest: "lru (evict_oldest old c) = remove1 old (lru c)"
  by (simp add: evict_oldest_def LRU_Remove_def Let_def split: option.split)

function evict :: "'v LRUCache \<Rightarrow> 'v LRUCache" where
  "evict c = (if capacity c < usage c then (case lru c of [] \<Rightarrow> c | old # _ \<Rightarrow> evict (evict_oldest old c)) else c)"
  by pat_completeness auto
termination by (relation "measure (\<lambda>c. length (lru c))") (auto simp: lru_evict_oldest)

declare evict.simps [simp del]

definition LRU_Insert :: "bytes \<Rightarrow> 32 word \<Rightarrow> 'v \<Rightarrow> 64 word \<Rightarrow> 'v LRUCache \<Rightarrow> nat \<times> 'v LRUCache" where
  "LRU_Insert key hash v charge c =
     (let h = fresh c;
          e = \<lparr>lh_value = v, lh_key = key, lh_charge = charge, lh_refs = 2, lh_hash = hash\<rparr>;
          c = c\<lparr>heap := (heap c)(h \<mapsto> e), fresh := h + 1\<rparr>;
          c = LRU_Append h c;
          c = c\<lparr>usage := usage c + charge\<rparr>;
          (old, t) = HandleTable_Insert (heap c) key hash h (htable c);
          c = c\<lparr>htable := t\<rparr>;
          c = (case old of None \<Rightarrow> c | Some o' \<Rightarrow> Unref o' (LRU_Remove o' c)) in
      (h, evict c))"

definition LRU_Erase :: "bytes \<Rightarrow> 32 word \<Rightarrow> 'v LRUCache \<Rightarrow> 'v LRUCache" where
  "LRU_Erase key hash c =
     (let (old, t) = HandleTable_Remove (heap c) key hash (htable c);
          c = c\<lparr>htable := t\<rparr> in
      case old of None \<Rightarrow> c | Some h \<Rightarrow> Unref h (LRU_Remove h c))"

text \<open>The destructor drops the reference of every entry on the list.\<close>

definition delete_LRUCache :: "'v LRUCache \<Rightarrow> 'v LRUCache" where
  "delete_LRUCache c = fold Unref (lru c) c"

section \<open>The shards\<close>

definition kNumShardBits :: nat where "kNumShardBits = 4"
definition kNumShards :: nat where "kNumShards = 2 ^ kNumShardBits"

record 'v ShardedLRUCache =
  shard :: "'v LRUCache list"
  last_id :: "64 word"

definition HashSlice :: "bytes \<Rightarrow> 32 word" where
  "HashSlice s = Hash s 0"

definition Shard :: "32 word \<Rightarrow> nat" where
  "Shard hash = unat (drop_bit (32 - kNumShardBits) hash)"

definition new_ShardedLRUCache :: "64 word \<Rightarrow> 'v ShardedLRUCache" where
  "new_ShardedLRUCache cap =
     (let per_shard = (cap + of_nat (kNumShards - 1)) div of_nat kNumShards in
      \<lparr>shard = replicate kNumShards (new_LRUCache per_shard), last_id = 0\<rparr>)"

text \<open>A handle is the hash of its entry, which names the shard, and the entry.\<close>

definition Cache_Insert :: "bytes \<Rightarrow> 'v \<Rightarrow> 64 word \<Rightarrow> 'v ShardedLRUCache \<Rightarrow> (32 word \<times> nat) \<times> 'v ShardedLRUCache" where
  "Cache_Insert key v charge s =
     (let hash = HashSlice key; (h, c) = LRU_Insert key hash v charge (shard s ! Shard hash) in
      ((hash, h), s\<lparr>shard := (shard s)[Shard hash := c]\<rparr>))"

definition Cache_Lookup :: "bytes \<Rightarrow> 'v ShardedLRUCache \<Rightarrow> (32 word \<times> nat) option \<times> 'v ShardedLRUCache" where
  "Cache_Lookup key s =
     (let hash = HashSlice key; (h, c) = LRU_Lookup key hash (shard s ! Shard hash) in
      (map_option (Pair hash) h, s\<lparr>shard := (shard s)[Shard hash := c]\<rparr>))"

definition Cache_Release :: "32 word \<times> nat \<Rightarrow> 'v ShardedLRUCache \<Rightarrow> 'v ShardedLRUCache" where
  "Cache_Release handle s =
     (case handle of (hash, h) \<Rightarrow> s\<lparr>shard := (shard s)[Shard hash := LRU_Release h (shard s ! Shard hash)]\<rparr>)"

definition Cache_Erase :: "bytes \<Rightarrow> 'v ShardedLRUCache \<Rightarrow> 'v ShardedLRUCache" where
  "Cache_Erase key s =
     (let hash = HashSlice key in s\<lparr>shard := (shard s)[Shard hash := LRU_Erase key hash (shard s ! Shard hash)]\<rparr>)"

definition Cache_Value :: "32 word \<times> nat \<Rightarrow> 'v ShardedLRUCache \<Rightarrow> 'v option" where
  "Cache_Value handle s = (case handle of (hash, h) \<Rightarrow> map_option lh_value (heap (shard s ! Shard hash) h))"

definition Cache_NewId :: "'v ShardedLRUCache \<Rightarrow> 64 word \<times> 'v ShardedLRUCache" where
  "Cache_NewId s = (last_id s + 1, s\<lparr>last_id := last_id s + 1\<rparr>)"

section \<open>What the table holds\<close>

text \<open>The entries of the table as a multiset; each is in the bucket of its hash.\<close>

definition table_ok :: "'v handles \<Rightarrow> HandleTable \<Rightarrow> nat multiset \<Rightarrow> bool" where
  "table_ok hp t M \<longleftrightarrow>
     mset (concat (ht_list t)) = M \<and> length (ht_list t) = ht_length t \<and> 0 < ht_length t \<and> ht_elems t = size M \<and>
     (\<forall>i < ht_length t. \<forall>h \<in> set (ht_list t ! i). bucket (ht_length t) (entry_hash hp h) = i)"

lemma bucket_less: "0 < len \<Longrightarrow> bucket len hash < len"
proof -
  assume len: "0 < len"
  have "hash AND of_nat (len - 1) \<le> of_nat (len - 1)" by (rule word_and_le1)
  then have "unat (hash AND of_nat (len - 1)) \<le> unat (of_nat (len - 1) :: 32 word)" by (simp add: word_le_nat_alt)
  also have "\<dots> \<le> len - 1" by (simp add: unat_of_nat)
  finally show ?thesis using len by (simp add: bucket_def)
qed

lemma mset_concat_update:
  "i < length xss \<Longrightarrow> mset (concat (xss[i := ys])) + mset (xss ! i) = mset (concat xss) + mset ys"
proof (induction xss arbitrary: i)
  case (Cons xs xss)
  then show ?case
  proof (cases i)
    case (Suc j)
    then have "mset (concat (xss[j := ys])) + mset (xss ! j) = mset (concat xss) + mset ys" using Cons by simp
    then show ?thesis using Suc by (simp add: ac_simps)
  qed (simp add: ac_simps)
qed simp

lemma put_slot_mset:
  "put_slot m h xs = (old, xs') \<Longrightarrow>
     mset xs' + (case old of None \<Rightarrow> {#} | Some x \<Rightarrow> {#x#}) = add_mset h (mset xs) \<and>
     (case old of None \<Rightarrow> \<forall>x \<in> set xs. \<not> m x | Some x \<Rightarrow> x \<in> set xs \<and> m x) \<and> set xs' \<subseteq> insert h (set xs)"
  by (induction xs arbitrary: xs') (auto split: if_splits prod.splits option.splits)

lemma drop_slot_mset:
  "drop_slot m xs = (old, xs') \<Longrightarrow>
     mset xs' + (case old of None \<Rightarrow> {#} | Some x \<Rightarrow> {#x#}) = mset xs \<and>
     (case old of None \<Rightarrow> \<forall>x \<in> set xs. \<not> m x | Some x \<Rightarrow> x \<in> set xs \<and> m x) \<and> set xs' \<subseteq> set xs"
  by (induction xs arbitrary: xs') (auto split: if_splits prod.splits option.splits)

lemma matches_hash: "matches hp key hash h \<Longrightarrow> entry_hash hp h = hash"
  by (auto simp: matches_def entry_hash_def split: option.splits)

text \<open>An entry that matches is in the bucket that is searched.\<close>

lemma in_bucket:
  assumes t: "table_ok hp t M" and h: "h \<in># M"
  shows "h \<in> set (ht_list t ! bucket (ht_length t) (entry_hash hp h))"
proof -
  have "h \<in> set (concat (ht_list t))" using t h by (metis set_mset_mset table_ok_def)
  then obtain chain where "chain \<in> set (ht_list t)" "h \<in> set chain" by auto
  then obtain i where "i < length (ht_list t)" "h \<in> set (ht_list t ! i)" by (auto simp: in_set_conv_nth [of chain])
  then show ?thesis using t by (metis table_ok_def)
qed

lemma bucket_in: "table_ok hp t M \<Longrightarrow> i < ht_length t \<Longrightarrow> h \<in> set (ht_list t ! i) \<Longrightarrow> h \<in># M"
proof -
  assume t: "table_ok hp t M" and i: "i < ht_length t" and h: "h \<in> set (ht_list t ! i)"
  have "ht_list t ! i \<in> set (ht_list t)" using t i by (simp add: table_ok_def)
  then have "h \<in> set (concat (ht_list t))" using h by auto
  then show ?thesis using t by (metis set_mset_mset table_ok_def)
qed

lemma Lookup_ok:
  assumes t: "table_ok hp t M"
  shows "case HandleTable_Lookup hp key hash t of
      None \<Rightarrow> \<forall>h. h \<in># M \<longrightarrow> \<not> matches hp key hash h | Some h \<Rightarrow> h \<in># M \<and> matches hp key hash h"
proof -
  let ?i = "bucket (ht_length t) hash"
  have i: "?i < ht_length t" using t bucket_less by (auto simp: table_ok_def)
  show ?thesis
    using in_bucket [OF t] bucket_in [OF t i] matches_hash [of hp key hash]
    by (auto simp: HandleTable_Lookup_def find_None_iff find_Some_iff split: option.split)
qed

lemma table_ok_update:
  assumes t: "table_ok hp t M" and i: "i < ht_length t"
    and xs: "\<forall>h \<in> set xs. bucket (ht_length t) (entry_hash hp h) = i"
    and M': "M' + mset (ht_list t ! i) = M + mset xs" and n: "n = size M'"
  shows "table_ok hp (t\<lparr>ht_list := (ht_list t)[i := xs], ht_elems := n\<rparr>) M'"
proof -
  have "mset (concat ((ht_list t)[i := xs])) + mset (ht_list t ! i) = M + mset xs"
    using mset_concat_update [of i "ht_list t" xs] t i by (simp add: table_ok_def)
  then have "mset (concat ((ht_list t)[i := xs])) = M'" using M' by (metis add_right_cancel)
  then show ?thesis using t i xs n by (auto simp: table_ok_def nth_list_update)
qed

lemma resize_length_pos: "0 < n \<Longrightarrow> 0 < resize_length n e"
  by (induction n e rule: resize_length.induct) (subst resize_length.simps, auto)

lemma push_buckets:
  assumes "length buckets = len" and "0 < len" and "\<forall>i < len. \<forall>h \<in> set (buckets ! i). bucket len (entry_hash hp h) = i"
  shows "length (fold (push_bucket hp len) chain buckets) = len \<and>
    mset (concat (fold (push_bucket hp len) chain buckets)) = mset chain + mset (concat buckets) \<and>
    (\<forall>i < len. \<forall>h \<in> set (fold (push_bucket hp len) chain buckets ! i). bucket len (entry_hash hp h) = i)"
  using assms
proof (induction chain arbitrary: buckets)
  case (Cons h chain)
  let ?i = "bucket len (entry_hash hp h)"
  let ?b = "push_bucket hp len h buckets"
  have i: "?i < length buckets" using bucket_less Cons.prems by simp
  have "mset (concat ?b) + mset (buckets ! ?i) = mset (concat buckets) + add_mset h (mset (buckets ! ?i))"
    using mset_concat_update [OF i, of "h # buckets ! ?i"] by (simp add: push_bucket_def Let_def)
  then have "mset (concat ?b) = add_mset h (mset (concat buckets))" by simp
  moreover have "length ?b = len" "\<forall>i < len. \<forall>h \<in> set (?b ! i). bucket len (entry_hash hp h) = i"
    using Cons.prems i by (auto simp: push_bucket_def Let_def nth_list_update)
  ultimately show ?case using Cons.IH [of ?b] Cons.prems(2) by simp
qed simp

lemma Resize_ok:
  assumes "table_ok hp t M"
  shows "table_ok hp (HandleTable_Resize hp t) M"
proof -
  let ?n = "resize_length 4 (ht_elems t)"
  have n: "0 < ?n" by (rule resize_length_pos) simp
  have "length (fold (\<lambda>chain. fold (push_bucket hp ?n) chain) chains buckets) = ?n \<and>
      mset (concat (fold (\<lambda>chain. fold (push_bucket hp ?n) chain) chains buckets)) = mset (concat chains) + mset (concat buckets) \<and>
      (\<forall>i < ?n. \<forall>h \<in> set (fold (\<lambda>chain. fold (push_bucket hp ?n) chain) chains buckets ! i). bucket ?n (entry_hash hp h) = i)"
    if "length buckets = ?n" "\<forall>i < ?n. \<forall>h \<in> set (buckets ! i). bucket ?n (entry_hash hp h) = i" for chains buckets
    using that
  proof (induction chains arbitrary: buckets)
    case (Cons chain chains)
    note push = push_buckets [OF Cons.prems(1) n Cons.prems(2), of chain]
    show ?case using Cons.IH [of "fold (push_bucket hp ?n) chain buckets"] push by (simp add: ac_simps)
  qed simp
  from this [of "replicate ?n []" "ht_list t"] show ?thesis
    using assms n by (simp add: table_ok_def HandleTable_Resize_def Let_def)
qed

lemma Insert_ok:
  assumes t: "table_ok hp t M" and h: "entry_hash hp h = hash" and ins: "HandleTable_Insert hp key hash h t = (old, t')"
  shows "(case old of None \<Rightarrow> \<forall>x. x \<in># M \<longrightarrow> \<not> matches hp key hash x | Some x \<Rightarrow> x \<in># M \<and> matches hp key hash x)"
    and "table_ok hp t' (case old of None \<Rightarrow> add_mset h M | Some x \<Rightarrow> add_mset h (M - {#x#}))"
proof -
  let ?i = "bucket (ht_length t) hash"
  have i: "?i < ht_length t" using t bucket_less by (auto simp: table_ok_def)
  obtain chain where put: "put_slot (matches hp key hash) h (ht_list t ! ?i) = (old, chain)"
    and t': "t' = (if old = None then
        let t = t\<lparr>ht_list := (ht_list t)[?i := chain], ht_elems := ht_elems t + 1\<rparr> in
        if ht_length t < ht_elems t then HandleTable_Resize hp t else t
      else t\<lparr>ht_list := (ht_list t)[?i := chain]\<rparr>)"
    using ins by (auto simp: HandleTable_Insert_def Let_def split: prod.splits if_splits)
  note p = put_slot_mset [OF put]
  show found: "case old of None \<Rightarrow> \<forall>x. x \<in># M \<longrightarrow> \<not> matches hp key hash x | Some x \<Rightarrow> x \<in># M \<and> matches hp key hash x"
    using p in_bucket [OF t] bucket_in [OF t i] matches_hash [of hp key hash] by (auto split: option.splits)
  have buckets: "\<forall>x \<in> set chain. bucket (ht_length t) (entry_hash hp x) = ?i"
    using p t i h by (auto simp: table_ok_def)
  show "table_ok hp t' (case old of None \<Rightarrow> add_mset h M | Some x \<Rightarrow> add_mset h (M - {#x#}))"
  proof (cases old)
    case None
    have "table_ok hp (t\<lparr>ht_list := (ht_list t)[?i := chain], ht_elems := ht_elems t + 1\<rparr>) (add_mset h M)"
      using p None t by (intro table_ok_update [OF t i buckets]) (simp_all add: table_ok_def)
    from this Resize_ok [OF this] show ?thesis using t' None by (simp add: Let_def)
  next
    case (Some x)
    then have x: "x \<in># M" using found by simp
    have "add_mset h (M - {#x#}) + mset (ht_list t ! ?i) = M - {#x#} + {#x#} + mset chain"
      using p Some by (simp add: ac_simps)
    then have "table_ok hp (t\<lparr>ht_list := (ht_list t)[?i := chain], ht_elems := ht_elems t\<rparr>) (add_mset h (M - {#x#}))"
      using x t by (intro table_ok_update [OF t i buckets]) (simp_all add: table_ok_def size_Suc_Diff1)
    then show ?thesis using t' Some by simp
  qed
qed

lemma Remove_ok:
  assumes t: "table_ok hp t M" and rem: "HandleTable_Remove hp key hash t = (old, t')"
  shows "(case old of None \<Rightarrow> \<forall>x. x \<in># M \<longrightarrow> \<not> matches hp key hash x | Some x \<Rightarrow> x \<in># M \<and> matches hp key hash x)"
    and "table_ok hp t' (case old of None \<Rightarrow> M | Some x \<Rightarrow> M - {#x#})"
proof -
  let ?i = "bucket (ht_length t) hash"
  have i: "?i < ht_length t" using t bucket_less by (auto simp: table_ok_def)
  obtain chain where drop: "drop_slot (matches hp key hash) (ht_list t ! ?i) = (old, chain)"
    and t': "t' = (if old = None then t else t\<lparr>ht_list := (ht_list t)[?i := chain], ht_elems := ht_elems t - 1\<rparr>)"
    using rem by (auto simp: HandleTable_Remove_def Let_def split: prod.splits if_splits)
  note p = drop_slot_mset [OF drop]
  show found: "case old of None \<Rightarrow> \<forall>x. x \<in># M \<longrightarrow> \<not> matches hp key hash x | Some x \<Rightarrow> x \<in># M \<and> matches hp key hash x"
    using p in_bucket [OF t] bucket_in [OF t i] matches_hash [of hp key hash] by (auto split: option.splits)
  show "table_ok hp t' (case old of None \<Rightarrow> M | Some x \<Rightarrow> M - {#x#})"
  proof (cases old)
    case (Some x)
    then have x: "x \<in># M" using found by simp
    have buckets: "\<forall>x \<in> set chain. bucket (ht_length t) (entry_hash hp x) = ?i"
      using p t i by (auto simp: table_ok_def)
    have "M - {#x#} + mset (ht_list t ! ?i) = M - {#x#} + {#x#} + mset chain" using p Some by (simp add: ac_simps)
    then have "table_ok hp (t\<lparr>ht_list := (ht_list t)[?i := chain], ht_elems := ht_elems t - 1\<rparr>) (M - {#x#})"
      using x t by (intro table_ok_update [OF t i buckets]) (simp_all add: table_ok_def size_Diff_singleton)
    then show ?thesis using t' Some by simp
  qed (use t t' in simp)
qed

lemma table_ok_cong:
  assumes "table_ok hp t M" and "\<And>h. h \<in># M \<Longrightarrow> entry_hash hp' h = entry_hash hp h"
  shows "table_ok hp' t M"
  using assms bucket_in [OF assms(1)] by (simp add: table_ok_def)

lemma new_table_ok: "table_ok hp new_HandleTable {#}"
proof -
  have "table_ok hp (HandleTable_Resize (\<lambda>_. None :: unit LRUHandle option) \<lparr>ht_length = 0, ht_elems = 0, ht_list = []\<rparr>) {#}"
    using resize_length_pos [of 4 0] by (simp add: HandleTable_Resize_def table_ok_def Let_def)
  then show ?thesis by (simp add: new_HandleTable_def)
qed

section \<open>The invariant of a shard\<close>

definition charge_of :: "'v LRUCache \<Rightarrow> nat \<Rightarrow> 64 word" where
  "charge_of c h = (case heap c h of None \<Rightarrow> 0 | Some e \<Rightarrow> lh_charge e)"

text \<open>\<open>R\<close> counts the references to each entry.\<close>

definition heap_ok :: "'v LRUCache \<Rightarrow> (nat \<Rightarrow> nat) \<Rightarrow> bool" where
  "heap_ok c R \<longleftrightarrow>
     (\<forall>h. heap c h = None \<longleftrightarrow> R h = 0) \<and> (\<forall>h e. heap c h = Some e \<longrightarrow> unat (lh_refs e) = R h \<and> h < fresh c) \<and>
     usage c = (\<Sum>h<fresh c. charge_of c h)"

definition list_ok :: "'v LRUCache \<Rightarrow> bool" where
  "list_ok c \<longleftrightarrow>
     distinct (lru c) \<and> table_ok (heap c) (htable c) (mset (lru c)) \<and> (\<forall>h \<in> set (lru c). heap c h \<noteq> None) \<and>
     (\<forall>h \<in> set (lru c). \<forall>e. heap c h = Some e \<longrightarrow> (\<forall>h' \<in> set (lru c). matches (heap c) (lh_key e) (lh_hash e) h' \<longrightarrow> h' = h))"

text \<open>\<open>ext\<close> counts the handles that clients hold.\<close>

definition refs_of :: "'v LRUCache \<Rightarrow> (nat \<Rightarrow> nat) \<Rightarrow> nat \<Rightarrow> nat" where
  "refs_of c ext h = (if h \<in> set (lru c) then 1 else 0) + ext h"

definition cache_ok :: "'v LRUCache \<Rightarrow> (nat \<Rightarrow> nat) \<Rightarrow> bool" where
  "cache_ok c ext \<longleftrightarrow> heap_ok c (refs_of c ext) \<and> list_ok c"

text \<open>Keys and hashes of the entries on the list decide; other fields can change.\<close>

definition same_keys :: "nat set \<Rightarrow> 'v handles \<Rightarrow> 'v handles \<Rightarrow> bool" where
  "same_keys S hp hp' \<longleftrightarrow> (\<forall>h \<in> S. map_option (\<lambda>e. (lh_key e, lh_hash e)) (hp' h) = map_option (\<lambda>e. (lh_key e, lh_hash e)) (hp h))"

lemma same_keys_matches: "same_keys S hp hp' \<Longrightarrow> h \<in> S \<Longrightarrow> matches hp' key hash h = matches hp key hash h \<and> entry_hash hp' h = entry_hash hp h"
  by (force simp: same_keys_def matches_def entry_hash_def split: option.splits)

lemma list_ok_cong:
  assumes ok: "list_ok c" and c': "mset (lru c') = mset (lru c)" "htable c' = htable c" and same: "same_keys (set (lru c)) (heap c) (heap c')"
  shows "list_ok c'"
proof -
  note m = same_keys_matches [OF same]
  have live: "\<forall>h \<in> set (lru c). heap c' h \<noteq> None"
    using ok same by (force simp: list_ok_def same_keys_def)
  have keys: "\<exists>e. heap c h = Some e \<and> lh_key e = lh_key e' \<and> lh_hash e = lh_hash e'" if "h \<in> set (lru c)" "heap c' h = Some e'" for h e'
    using bspec [OF same [unfolded same_keys_def] that(1)] that(2) by (cases "heap c h") auto
  have "table_ok (heap c') (htable c') (mset (lru c))"
    using ok m c'(2) by (auto simp: list_ok_def intro: table_ok_cong)
  moreover have "set (lru c') = set (lru c)" "distinct (lru c') = distinct (lru c)"
    using c'(1) mset_eq_setD mset_eq_imp_distinct_iff by blast+
  moreover have "h' = h" if h: "h \<in> set (lru c)" "heap c' h = Some e'" "h' \<in> set (lru c)" "matches (heap c') (lh_key e') (lh_hash e') h'" for h e' h'
    using keys [OF h(1,2)] h(1,3,4) m ok by (auto simp: list_ok_def)
  ultimately show ?thesis using ok live c'(1) by (simp add: list_ok_def)
qed

lemma sum_update:
  assumes "h < (n :: nat)" and "\<And>i. i \<noteq> h \<Longrightarrow> g i = f i"
  shows "(\<Sum>i<n. g i) = (\<Sum>i<n. f i) - f h + (g h :: 64 word)"
proof -
  have "(\<Sum>i<n. g i) = g h + (\<Sum>i\<in>{..<n} - {h}. g i)" "(\<Sum>i<n. f i) = f h + (\<Sum>i\<in>{..<n} - {h}. f i)"
    using assms(1) by (simp_all add: sum.remove)
  moreover have "(\<Sum>i\<in>{..<n} - {h}. g i) = (\<Sum>i\<in>{..<n} - {h}. f i)" using assms(2) by (intro sum.cong) auto
  ultimately show ?thesis by simp
qed

lemma Unref_ok:
  assumes ok: "heap_ok c R" and R: "0 < R h"
  shows "heap_ok (Unref h c) (R(h := R h - 1))"
    and "lru (Unref h c) = lru c" "htable (Unref h c) = htable c" "fresh (Unref h c) = fresh c" "capacity (Unref h c) = capacity c"
    and "1 < R h \<or> h \<notin> S \<Longrightarrow> same_keys S (heap c) (heap (Unref h c))"
proof -
  obtain e where e: "heap c h = Some e" using ok R by (fastforce simp: heap_ok_def)
  have refs: "unat (lh_refs e) = R h" and h: "h < fresh c" using ok e by (auto simp: heap_ok_def)
  have dec: "unat (lh_refs e - 1) = R h - 1" using refs R by (simp add: unat_sub word_le_nat_alt)
  have zero: "lh_refs e - 1 \<le> 0 \<longleftrightarrow> R h = 1" using dec R by (auto simp: word_le_nat_alt)
  have unref: "Unref h c = (if R h = 1
      then c\<lparr>usage := usage c - lh_charge e, deleted := deleted c @ [(lh_key e, lh_value e)], heap := (heap c)(h := None)\<rparr>
      else c\<lparr>heap := (heap c)(h \<mapsto> e\<lparr>lh_refs := lh_refs e - 1\<rparr>)\<rparr>)"
    using e zero by (simp add: Unref_def Let_def)
  show "lru (Unref h c) = lru c" "htable (Unref h c) = htable c" "fresh (Unref h c) = fresh c" "capacity (Unref h c) = capacity c"
    by (simp_all add: unref)
  show "same_keys S (heap c) (heap (Unref h c))" if "1 < R h \<or> h \<notin> S"
    using that e by (auto simp: same_keys_def unref)
  have sum: "(\<Sum>i<fresh c. charge_of (Unref h c) i) = (\<Sum>i<fresh c. charge_of c i) - lh_charge e + charge_of (Unref h c) h"
    using e sum_update [OF h, of "charge_of (Unref h c)" "charge_of c"] by (simp add: charge_of_def unref)
  show "heap_ok (Unref h c) (R(h := R h - 1))"
  proof (cases "R h = 1")
    case True
    then show ?thesis
      using ok sum by (auto simp: heap_ok_def unref charge_of_def)
  next
    case False
    then show ?thesis
      using ok sum dec R h by (auto simp: heap_ok_def unref charge_of_def)
  qed
qed

lemma matches_self: "hp h = Some e \<Longrightarrow> matches hp (lh_key e) (lh_hash e) h"
  by (simp add: matches_def slice_eq_iff)

lemma matches_unique:
  assumes "list_ok c" and "h \<in> set (lru c)" "matches (heap c) key hash h" and "h' \<in> set (lru c)" "matches (heap c) key hash h'"
  shows "h' = h"
proof -
  obtain e where e: "heap c h = Some e" "lh_hash e = hash" "lh_key e = key"
    using assms(3) by (auto simp: matches_def slice_eq_iff split: option.splits)
  then show ?thesis using assms by (auto simp: list_ok_def)
qed

lemma LRU_Lookup_ok:
  assumes ok: "cache_ok c ext" and look: "LRU_Lookup key hash c = (r, c')"
  shows "r = find (matches (heap c) key hash) (lru c)"
    and "r = None \<Longrightarrow> c' = c"
    and "r = Some h \<Longrightarrow> lru c' = remove1 h (lru c) @ [h] \<and> (ext h + 2 < 2 ^ 32 \<longrightarrow> cache_ok c' (ext(h := ext h + 1)))"
proof -
  have hp: "heap_ok c (refs_of c ext)" and l: "list_ok c" using ok by (simp_all add: cache_ok_def)
  then have t: "table_ok (heap c) (htable c) (mset (lru c))" by (simp add: list_ok_def)
  have r: "r = HandleTable_Lookup (heap c) key hash (htable c)" using look by (simp add: LRU_Lookup_def split: option.splits)
  note found = Lookup_ok [OF t, of key hash, folded r]
  show "r = find (matches (heap c) key hash) (lru c)"
  proof (cases "find (matches (heap c) key hash) (lru c)")
    case None
    then have "r = None" using found by (cases r) (auto simp: find_None_iff)
    then show ?thesis using None by simp
  next
    case (Some h)
    then have h: "h \<in> set (lru c)" "matches (heap c) key hash h" by (auto simp: find_Some_iff)
    then obtain x where x: "r = Some x" using found by (cases r) auto
    then have "x \<in> set (lru c)" "matches (heap c) key hash x" using found by simp_all
    then show ?thesis using matches_unique [OF l h] x Some by simp
  qed
  show "r = None \<Longrightarrow> c' = c" using look r by (simp add: LRU_Lookup_def)
  assume some: "r = Some h"
  then have h: "h \<in> set (lru c)" using found by simp
  then obtain e where e: "heap c h = Some e" using l by (auto simp: list_ok_def)
  have c': "c' = c\<lparr>heap := (heap c)(h \<mapsto> e\<lparr>lh_refs := lh_refs e + 1\<rparr>), lru := remove1 h (lru c) @ [h]\<rparr>"
    using look r [symmetric] some e by (auto simp: LRU_Lookup_def LRU_Append_def LRU_Remove_def split: option.splits)
  show "lru c' = remove1 h (lru c) @ [h] \<and> (ext h + 2 < 2 ^ 32 \<longrightarrow> cache_ok c' (ext(h := ext h + 1)))"
  proof (intro conjI impI)
    show "lru c' = remove1 h (lru c) @ [h]" by (simp add: c')
    assume bound: "ext h + 2 < 2 ^ 32"
    have mset: "mset (lru c') = mset (lru c)" using h by (simp add: c')
    then have set: "set (lru c') = set (lru c)" by (rule mset_eq_setD)
    have refs: "unat (lh_refs e) = refs_of c ext h" "h < fresh c" using hp e by (auto simp: heap_ok_def)
    then have "unat (lh_refs e + 1) = refs_of c ext h + 1"
      using bound h by (intro trans [OF unat_add_lem [THEN iffD1]]) (simp_all add: refs_of_def)
    moreover have "charge_of c' = charge_of c" using e by (auto simp: charge_of_def c' fun_eq_iff)
    moreover have "refs_of c' (ext(h := ext h + 1)) = (refs_of c ext)(h := refs_of c ext h + 1)"
      using set by (auto simp: refs_of_def fun_eq_iff)
    ultimately have "heap_ok c' (refs_of c' (ext(h := ext h + 1)))"
      using hp refs(2) by (auto simp: heap_ok_def c')
    moreover have "list_ok c'"
      using e by (intro list_ok_cong [OF l mset]) (auto simp: c' same_keys_def)
    ultimately show "cache_ok c' (ext(h := ext h + 1))" by (simp add: cache_ok_def)
  qed
qed

lemma LRU_Release_ok:
  assumes ok: "cache_ok c ext" and h: "0 < ext h"
  shows "cache_ok (LRU_Release h c) (ext(h := ext h - 1))"
proof -
  have hp: "heap_ok c (refs_of c ext)" and l: "list_ok c" using ok by (simp_all add: cache_ok_def)
  have R: "0 < refs_of c ext h" using h by (simp add: refs_of_def)
  have "1 < refs_of c ext h \<or> h \<notin> set (lru c)" using h by (simp add: refs_of_def)
  note u = Unref_ok [OF hp R] Unref_ok(6) [OF hp R this]
  have "refs_of (Unref h c) (ext(h := ext h - 1)) = (refs_of c ext)(h := refs_of c ext h - 1)"
    using h u(2) by (auto simp: refs_of_def fun_eq_iff)
  then show ?thesis
    using u(1) list_ok_cong [OF l _ u(3) u(7)] u(2) by (simp add: cache_ok_def LRU_Release_def)
qed

text \<open>Taking an entry off the table and the list, and dropping the reference of the cache.\<close>

lemma drop_entry_ok:
  assumes ok: "cache_ok c ext" and rem: "HandleTable_Remove (heap c) key hash (htable c) = (Some h, t)"
  defines "c1 \<equiv> c\<lparr>htable := t, lru := remove1 h (lru c)\<rparr>"
  shows "cache_ok (Unref h c1) ext" and "h \<in> set (lru c)" and "matches (heap c) key hash h"
proof -
  have hp: "heap_ok c (refs_of c ext)" and l: "list_ok c" using ok by (simp_all add: cache_ok_def)
  then have t: "table_ok (heap c) (htable c) (mset (lru c))" by (simp add: list_ok_def)
  show h: "h \<in> set (lru c)" "matches (heap c) key hash h" using Remove_ok(1) [OF t rem] by simp_all
  have "charge_of c1 = charge_of c" by (simp add: charge_of_def c1_def fun_eq_iff)
  then have hp1: "heap_ok c1 (refs_of c ext)" using hp by (simp add: heap_ok_def c1_def)
  have d: "distinct (lru c)" using l by (simp add: list_ok_def)
  have "table_ok (heap c1) (htable c1) (mset (lru c1))" using Remove_ok(2) [OF t rem] by (simp add: c1_def)
  then have l1: "list_ok c1" using l d by (auto simp: list_ok_def c1_def)
  have R: "0 < refs_of c ext h" using h by (simp add: refs_of_def)
  have "h \<notin> set (lru c1)" using d by (simp add: c1_def)
  then have "1 < refs_of c ext h \<or> h \<notin> set (lru c1)" by simp
  note u = Unref_ok [OF hp1 R] Unref_ok(6) [OF hp1 R this]
  have "refs_of (Unref h c1) ext = (refs_of c ext)(h := refs_of c ext h - 1)"
    using h d u(2) by (auto simp: refs_of_def fun_eq_iff c1_def)
  then show "cache_ok (Unref h c1) ext"
    using u(1) list_ok_cong [OF l1 _ u(3) u(7)] u(2) by (simp add: cache_ok_def)
qed

lemma LRU_Erase_ok:
  assumes ok: "cache_ok c ext"
  shows "cache_ok (LRU_Erase key hash c) ext"
proof -
  obtain old t where rem: "HandleTable_Remove (heap c) key hash (htable c) = (old, t)" by fastforce
  show ?thesis
  proof (cases old)
    case None
    then have "t = htable c" using rem by (auto simp: HandleTable_Remove_def Let_def split: prod.splits if_splits)
    then show ?thesis using ok None rem by (simp add: LRU_Erase_def)
  next
    case (Some h)
    then show ?thesis using drop_entry_ok(1) [OF ok] rem by (simp add: LRU_Erase_def LRU_Remove_def)
  qed
qed

lemma evict_oldest_ok:
  assumes ok: "cache_ok c ext" and lru: "lru c = old # rest"
  shows "cache_ok (evict_oldest old c) ext"
proof -
  have l: "list_ok c" using ok by (simp add: cache_ok_def)
  obtain e where e: "heap c old = Some e" using l lru by (auto simp: list_ok_def)
  obtain x t where rem: "HandleTable_Remove (heap c) (lh_key e) (lh_hash e) (htable c) = (x, t)" by fastforce
  have m: "matches (heap c) (lh_key e) (lh_hash e) old" using matches_self [where hp = "heap c" and h = old and e = e] e by simp
  have tok: "table_ok (heap c) (htable c) (mset (lru c))" using l by (simp add: list_ok_def)
  have "x \<noteq> None" using Remove_ok(1) [OF tok rem] m lru by (cases x) auto
  then obtain h where h: "x = Some h" by blast
  note d = drop_entry_ok [OF ok rem [unfolded h]]
  have "h = old" using matches_unique [OF l _ m d(2,3)] lru by simp
  moreover have swap: "c\<lparr>lru := remove1 old (lru c), htable := t\<rparr> = c\<lparr>htable := t, lru := remove1 old (lru c)\<rparr>" by simp
  ultimately show ?thesis using d(1) e rem h by (simp add: evict_oldest_def LRU_Remove_def Let_def swap)
qed

lemma evict_ok: "cache_ok c ext \<Longrightarrow> cache_ok (evict c) ext \<and> (usage (evict c) \<le> capacity (evict c) \<or> lru (evict c) = [])"
proof (induction c rule: evict.induct)
  case (1 c)
  show ?case
  proof (cases "capacity c < usage c")
    case True
    show ?thesis
    proof (cases "lru c")
      case Nil
      then show ?thesis using 1(2) True by (subst (1 2 3 4) evict.simps) simp
    next
      case (Cons old rest)
      have "evict c = evict (evict_oldest old c)" using True Cons by (subst evict.simps) simp
      then show ?thesis using 1(1) [OF True Cons evict_oldest_ok [OF 1(2) Cons]] by simp
    qed
  next
    case False
    then have "evict c = c" by (subst evict.simps) simp
    then show ?thesis using 1(2) False by (simp add: linorder_not_less)
  qed
qed

text \<open>An entry that comes in, with the entry of the same key going out.\<close>

lemma fresh_entry_ok:
  assumes ok: "cache_ok c ext"
    and e: "lh_refs e = 2" and ins: "HandleTable_Insert (heap c1) (lh_key e) (lh_hash e) h (htable c) = (old, t)"
    and h: "h = fresh c"
    and c1_def: "c1 = c\<lparr>heap := (heap c)(h \<mapsto> e), fresh := h + 1, lru := lru c @ [h], usage := usage c + lh_charge e\<rparr>"
  shows "cache_ok (case old of None \<Rightarrow> c1\<lparr>htable := t\<rparr> | Some x \<Rightarrow> Unref x (c1\<lparr>htable := t, lru := remove1 x (lru c1)\<rparr>)) (ext(h := 1))"
proof -
  have hp: "heap_ok c (refs_of c ext)" and l: "list_ok c" using ok by (simp_all add: cache_ok_def)
  have none: "heap c h = None"
  proof (rule ccontr)
    assume "heap c h \<noteq> None"
    then obtain e where "heap c h = Some e" by blast
    then have "h < fresh c" using hp by (auto simp: heap_ok_def)
    then show False using h by simp
  qed
  then have zero: "refs_of c ext h = 0" using hp by (simp add: heap_ok_def)
  then have new: "h \<notin> set (lru c)" "ext h = 0" by (auto simp: refs_of_def split: if_splits)
  define R where "R = (refs_of c ext)(h := 2)"
  have charge: "charge_of c1 h = lh_charge e" "\<And>i. i < fresh c \<Longrightarrow> charge_of c1 i = charge_of c i"
    using h by (auto simp: charge_of_def c1_def)
  then have "(\<Sum>i<Suc h. charge_of c1 i) = (\<Sum>i<fresh c. charge_of c i) + lh_charge e"
    using h by simp
  then have hp1: "heap_ok c1 R"
    using hp e none h by (auto simp: heap_ok_def c1_def R_def less_Suc_eq)
  have same: "same_keys (set (lru c)) (heap c) (heap c1)" using new by (auto simp: same_keys_def c1_def)
  have tok: "table_ok (heap c1) (htable c) (mset (lru c))"
    using l same_keys_matches [OF same] by (auto simp: list_ok_def intro: table_ok_cong)
  have eh: "entry_hash (heap c1) h = lh_hash e" by (simp add: entry_hash_def c1_def)
  note i = Insert_ok [OF tok eh ins]
  have m: "matches (heap c1) key hash x = matches (heap c) key hash x" if "x \<in> set (lru c)" for x key hash
    using same_keys_matches [OF same that] by blast
  have list: "list_ok c2"
    if c2: "heap c2 = heap c1" "distinct (lru c2)" "set (lru c2) = insert h S" "S \<subseteq> set (lru c)"
      and none: "\<forall>y \<in> S. \<not> matches (heap c1) (lh_key e) (lh_hash e) y"
      and t2: "table_ok (heap c1) (htable c2) (mset (lru c2))" for c2 :: "'a LRUCache" and S
  proof -
    have live: "\<forall>y \<in> set (lru c2). heap c2 y \<noteq> None"
      using l c2 same by (force simp: list_ok_def c1_def)
    have "y' = y" if y: "y \<in> insert h S" "heap c1 y = Some f" "y' \<in> insert h S" "matches (heap c1) (lh_key f) (lh_hash f) y'" for y f y'
    proof -
      have heap_h: "heap c1 h = Some e" by (simp add: c1_def)
      have old: "heap c x = heap c1 x" if "x \<in> S" for x using that c2(4) new(1) by (auto simp: c1_def)
      consider "y = h" "y' = h" | "y = h" "y' \<in> S" | "y \<in> S" "y' = h" | "y \<in> S" "y' \<in> S" using y(1,3) by blast
      then show ?thesis
      proof cases
        case 2
        then show ?thesis using y heap_h none by auto
      next
        case 3
        then have "matches (heap c1) (lh_key e) (lh_hash e) y" using y(2,4) heap_h by (simp add: matches_def slice_eq_iff)
        then show ?thesis using none 3 by blast
      next
        case 4
        then have yl: "y \<in> set (lru c)" "y' \<in> set (lru c)" using c2(4) by blast+
        then show ?thesis using y(2,4) old [OF 4(1)] m [OF yl(2)] l by (auto simp: list_ok_def)
      qed simp
    qed
    then show ?thesis using live c2 t2 by (simp add: list_ok_def)
  qed
  have d: "distinct (lru c)" using l by (simp add: list_ok_def)
  have refs: "refs_of c2 (ext(h := 1)) = R" if "set (lru c2) = insert h (set (lru c))" for c2 :: "'a LRUCache"
    using that new by (auto simp: refs_of_def R_def fun_eq_iff)
  show ?thesis
  proof (cases old)
    case None
    have "list_ok (c1\<lparr>htable := t\<rparr>)"
      using i None d new by (intro list [where S = "set (lru c)"]) (auto simp: c1_def)
    moreover have "heap_ok (c1\<lparr>htable := t\<rparr>) R" using hp1 by (simp add: heap_ok_def charge_of_def)
    ultimately show ?thesis using None refs [of "c1\<lparr>htable := t\<rparr>"] by (simp add: cache_ok_def c1_def)
  next
    case (Some x)
    let ?c2 = "c1\<lparr>htable := t, lru := remove1 x (lru c1)\<rparr>"
    have x: "x \<in> set (lru c)" "matches (heap c1) (lh_key e) (lh_hash e) x" using i(1) Some by simp_all
    have xh: "x \<noteq> h" using x(1) new by blast
    have only: "\<forall>y \<in> set (lru c) - {x}. \<not> matches (heap c1) (lh_key e) (lh_hash e) y"
      using matches_unique [OF l] m x by blast
    have l2: "list_ok ?c2"
      using i(2) Some d new x xh only by (intro list [where S = "set (lru c) - {x}"]) (auto simp: c1_def)
    have hp2: "heap_ok ?c2 R" using hp1 by (simp add: heap_ok_def charge_of_def)
    have Rx: "R x = Suc (ext x)" using x(1) xh by (simp add: R_def refs_of_def)
    then have R: "0 < R x" by simp
    have out: "x \<notin> set (lru ?c2)" using d new xh by (simp add: c1_def)
    then have "1 < R x \<or> x \<notin> set (lru ?c2)" by simp
    note u = Unref_ok [OF hp2 R] Unref_ok(6) [OF hp2 R this]
    have "set (lru ?c2) = insert h (set (lru c) - {x})" using d new xh by (auto simp: c1_def)
    then have "refs_of (Unref x ?c2) (ext(h := 1)) = R(x := R x - 1)"
      using new xh Rx by (auto simp: refs_of_def R_def fun_eq_iff)
    then show ?thesis using u(1) list_ok_cong [OF l2 _ u(3) u(7)] u(2) Some by (simp add: cache_ok_def)
  qed
qed

text \<open>An entry keeps its key, hash and value.\<close>

definition keeps_entries :: "'v handles \<Rightarrow> 'v handles \<Rightarrow> bool" where
  "keeps_entries hp hp' \<longleftrightarrow>
     (\<forall>h e'. hp' h = Some e' \<longrightarrow> (\<exists>e. hp h = Some e \<and> lh_key e = lh_key e' \<and> lh_hash e = lh_hash e' \<and> lh_value e = lh_value e'))"

lemma keeps_entries_refl [simp]: "keeps_entries hp hp"
  by (simp add: keeps_entries_def)

lemma keeps_entries_trans: "keeps_entries hp1 hp2 \<Longrightarrow> keeps_entries hp2 hp3 \<Longrightarrow> keeps_entries hp1 hp3"
  by (fastforce simp: keeps_entries_def)

lemma Unref_keeps: "keeps_entries (heap c) (heap (Unref h c))"
  by (auto simp: keeps_entries_def Unref_def Let_def split: option.splits)

lemma evict_oldest_keeps: "keeps_entries (heap c) (heap (evict_oldest old c))"
proof (cases "heap c old")
  case (Some e)
  let ?c = "c\<lparr>lru := remove1 old (lru c), htable := snd (HandleTable_Remove (heap c) (lh_key e) (lh_hash e) (htable c))\<rparr>"
  show ?thesis using Unref_keeps [of ?c old] Some by (simp add: evict_oldest_def LRU_Remove_def Let_def)
qed (simp add: evict_oldest_def LRU_Remove_def Let_def)

lemma evict_keeps: "keeps_entries (heap c) (heap (evict c))"
proof (induction c rule: evict.induct)
  case (1 c)
  show ?case
  proof (cases "capacity c < usage c \<and> lru c \<noteq> []")
    case True
    then obtain old rest where old: "lru c = old # rest" by (cases "lru c") auto
    have "evict c = evict (evict_oldest old c)" using True old by (subst evict.simps) simp
    then show ?thesis using 1 True old evict_oldest_keeps keeps_entries_trans by fastforce
  next
    case False
    then have "evict c = c" by (subst evict.simps) (auto split: list.split)
    then show ?thesis by simp
  qed
qed

lemma LRU_Insert_ok:
  assumes ok: "cache_ok c ext" and ins: "LRU_Insert key hash v charge c = (h, c')"
  shows "ext h = 0" "cache_ok c' (ext(h := 1))" "usage c' \<le> capacity c' \<or> lru c' = []"
    "\<exists>e. heap c' h = Some e \<and> lh_key e = key \<and> lh_hash e = hash \<and> lh_value e = v"
proof -
  define e where "e = \<lparr>lh_value = v, lh_key = key, lh_charge = charge, lh_refs = 2, lh_hash = hash\<rparr>"
  have e: "lh_refs e = 2" "lh_key e = key" "lh_hash e = hash" "lh_charge e = charge" by (simp_all add: e_def)
  define c1 where "c1 = c\<lparr>heap := (heap c)(h \<mapsto> e), fresh := h + 1, lru := lru c @ [h], usage := usage c + lh_charge e\<rparr>"
  have h: "h = fresh c" using ins by (simp add: LRU_Insert_def Let_def split: prod.splits)
  obtain old t where tab: "HandleTable_Insert (heap c1) (lh_key e) (lh_hash e) h (htable c) = (old, t)" by fastforce
  let ?c2 = "case old of None \<Rightarrow> c1\<lparr>htable := t\<rparr> | Some x \<Rightarrow> Unref x (c1\<lparr>htable := t, lru := remove1 x (lru c1)\<rparr>)"
  have c': "c' = evict ?c2"
    using ins tab h by (cases old) (simp_all add: LRU_Insert_def LRU_Append_def LRU_Remove_def Let_def c1_def e_def)
  have ok2: "cache_ok ?c2 (ext(h := 1))"
    by (rule fresh_entry_ok [OF ok e(1) tab h c1_def])
  note ev = evict_ok [OF ok2, folded c']
  show "cache_ok c' (ext(h := 1))" "usage c' \<le> capacity c' \<or> lru c' = []" using ev by simp_all
  show "ext h = 0"
  proof (rule ccontr)
    assume "ext h \<noteq> 0"
    then have "heap c h \<noteq> None" using ok by (auto simp: cache_ok_def heap_ok_def refs_of_def)
    then have "h < fresh c" using ok by (auto simp: cache_ok_def heap_ok_def)
    then show False using h by simp
  qed
  have "heap c' h \<noteq> None" using ev by (auto simp: cache_ok_def heap_ok_def refs_of_def)
  then obtain f where f: "heap c' h = Some f" by blast
  have "keeps_entries (heap c1) (heap ?c2)"
    using Unref_keeps [of "c1\<lparr>htable := t, lru := remove1 x (lru c1)\<rparr>" x for x] by (simp split: option.split)
  then have "keeps_entries (heap c1) (heap c')" unfolding c' by (rule keeps_entries_trans) (rule evict_keeps)
  moreover have "heap c1 h = Some e" by (simp add: c1_def)
  ultimately show "\<exists>e. heap c' h = Some e \<and> lh_key e = key \<and> lh_hash e = hash \<and> lh_value e = v"
    using f by (fastforce simp: keeps_entries_def e_def)
qed

lemma delete_frees_all:
  assumes "cache_ok c (\<lambda>_. 0)"
  shows "heap (delete_LRUCache c) h = None"
proof -
  have "\<forall>h. heap (fold Unref xs c') h = None" if "heap_ok c' (\<lambda>h. if h \<in> set xs then 1 else 0)" "distinct xs" for xs and c' :: "'a LRUCache"
    using that
  proof (induction xs arbitrary: c')
    case Nil
    then show ?case by (simp add: heap_ok_def)
  next
    case (Cons x xs)
    let ?R = "\<lambda>h. if h \<in> set (x # xs) then 1 else 0 :: nat"
    have "?R(x := ?R x - 1) = (\<lambda>h. if h \<in> set xs then 1 else 0)" using Cons.prems(2) by (auto simp: fun_eq_iff)
    then have "heap_ok (Unref x c') (\<lambda>h. if h \<in> set xs then 1 else 0)" using Unref_ok(1) [OF Cons.prems(1), of x] by simp
    then show ?case using Cons.IH Cons.prems(2) by simp
  qed
  moreover have "refs_of c (\<lambda>_. 0) = (\<lambda>h. if h \<in> set (lru c) then 1 else 0)" by (simp add: refs_of_def fun_eq_iff)
  ultimately show ?thesis using assms by (simp add: cache_ok_def list_ok_def delete_LRUCache_def)
qed

section \<open>What clients see\<close>

text \<open>
  The steps of a shard, with the handles that clients hold: a lookup while the count of references
  has room for one more, and a release of a handle that is held.
\<close>

inductive cache_step :: "'v LRUCache \<times> (nat \<Rightarrow> nat) \<Rightarrow> 'v LRUCache \<times> (nat \<Rightarrow> nat) \<Rightarrow> bool" where
  insert_step: "LRU_Insert key hash v charge c = (h, c') \<Longrightarrow> cache_step (c, ext) (c', ext(h := 1))"
| miss_step: "LRU_Lookup key hash c = (None, c') \<Longrightarrow> cache_step (c, ext) (c', ext)"
| hit_step: "LRU_Lookup key hash c = (Some h, c') \<Longrightarrow> ext h + 2 < 2 ^ 32 \<Longrightarrow> cache_step (c, ext) (c', ext(h := ext h + 1))"
| release_step: "0 < ext h \<Longrightarrow> cache_step (c, ext) (LRU_Release h c, ext(h := ext h - 1))"
| erase_step: "cache_step (c, ext) (LRU_Erase key hash c, ext)"

lemma cache_step_ok:
  assumes "cache_step s s'" and "cache_ok (fst s) (snd s)"
  shows "cache_ok (fst s') (snd s')"
  using assms
proof (induction rule: cache_step.induct)
  case (insert_step key hash v charge c h c' ext)
  then show ?case using LRU_Insert_ok(2) [of c ext key hash v charge h c'] by (simp add: fun_upd_def)
next
  case miss_step
  then show ?case using LRU_Lookup_ok(2) by fastforce
next
  case (hit_step key hash c h c' ext)
  then show ?case using LRU_Lookup_ok(3) [of c ext key hash "Some h" c' h] by (simp add: fun_upd_def)
next
  case (release_step ext h c)
  then show ?case using LRU_Release_ok [of c ext h] by (simp add: fun_upd_def)
next
  case erase_step
  then show ?case using LRU_Erase_ok by fastforce
qed

lemma new_cache_ok: "cache_ok (new_LRUCache cap) (\<lambda>_. 0)"
  by (simp add: cache_ok_def heap_ok_def list_ok_def refs_of_def new_LRUCache_def charge_of_def new_table_ok)

lemma cache_reachable_ok:
  assumes "cache_step\<^sup>*\<^sup>* (new_LRUCache cap, \<lambda>_. 0) s"
  shows "cache_ok (fst s) (snd s)"
  using assms
  by (induction rule: rtranclp_induct) (auto simp: new_cache_ok intro: cache_step_ok)

lemmas cache_reachable_parts = cache_reachable_ok [of cap "(c, ext)" for cap c ext, unfolded cache_ok_def heap_ok_def list_ok_def fst_conv snd_conv]

text \<open>
  C13. Whatever the clients do, an entry is allocated exactly while it is on the list of the cache or
  a client holds a handle of it, its count is the number of these references, the usage is the sum
  of the charges of the allocated entries, no entry is twice on the list, and the table holds the
  entries of the list and no other.
\<close>

theorem cache_invariant:
  assumes "cache_step\<^sup>*\<^sup>* (new_LRUCache cap, \<lambda>_. 0) (c, ext)"
  shows "(\<forall>h. heap c h \<noteq> None \<longleftrightarrow> h \<in> set (lru c) \<or> 0 < ext h) \<and>
    (\<forall>h e. heap c h = Some e \<longrightarrow> unat (lh_refs e) = (if h \<in> set (lru c) then 1 else 0) + ext h) \<and>
    usage c = (\<Sum>h<fresh c. case heap c h of None \<Rightarrow> 0 | Some e \<Rightarrow> lh_charge e) \<and>
    distinct (lru c) \<and> mset (concat (ht_list (htable c))) = mset (lru c)"
  using cache_reachable_parts [OF assms]
  by (auto simp: refs_of_def charge_of_def table_ok_def split: if_splits)

text \<open>
  C39. A lookup in the hash table, whatever resizes it went through, finds the entry of that key and
  hash on the list when there is one, and no entry that has gone; a hit makes it the newest.
\<close>

theorem cache_lookup:
  assumes "cache_step\<^sup>*\<^sup>* (new_LRUCache cap, \<lambda>_. 0) (c, ext)" and "LRU_Lookup key hash c = (r, c')"
  shows "r = find (\<lambda>h. \<exists>e. heap c h = Some e \<and> lh_key e = key \<and> lh_hash e = hash) (lru c) \<and>
    lru c' = (case r of None \<Rightarrow> lru c | Some h \<Rightarrow> remove1 h (lru c) @ [h])"
proof -
  have ok: "cache_ok c ext" using cache_reachable_ok [OF assms(1)] by simp
  have "matches (heap c) key hash = (\<lambda>h. \<exists>e. heap c h = Some e \<and> lh_key e = key \<and> lh_hash e = hash)"
    by (auto simp: matches_def slice_eq_iff fun_eq_iff split: option.split)
  then show ?thesis using LRU_Lookup_ok [OF ok assms(2)] by (auto split: option.split)
qed

text \<open>
  C40. An insertion leaves the usage within the capacity or the list empty; its handle is new and
  leads to the key and value that went in, and as long as the entry is not evicted a lookup of the
  key returns it, so it hides what was there under this key.
\<close>

theorem cache_insert:
  assumes reach: "cache_step\<^sup>*\<^sup>* (new_LRUCache cap, \<lambda>_. 0) (c, ext)" and ins: "LRU_Insert key hash v charge c = (h, c')"
  shows "(usage c' \<le> capacity c' \<or> lru c' = []) \<and> ext h = 0 \<and>
    (\<exists>e. heap c' h = Some e \<and> lh_key e = key \<and> lh_value e = v) \<and>
    (h \<in> set (lru c') \<longrightarrow> fst (LRU_Lookup key hash c') = Some h)"
proof -
  have ok: "cache_ok c ext" using cache_reachable_ok [OF reach] by simp
  note i = LRU_Insert_ok [OF ok ins]
  obtain e where e: "heap c' h = Some e" "lh_key e = key" "lh_hash e = hash" "lh_value e = v" using i(4) by blast
  have m: "matches (heap c') key hash h" using matches_self [where hp = "heap c'" and h = h and e = e] e by simp
  obtain r c'' where look: "LRU_Lookup key hash c' = (r, c'')" by fastforce
  have r: "r = find (matches (heap c') key hash) (lru c')" by (rule LRU_Lookup_ok(1) [OF i(2) look])
  have "r = Some h" if h: "h \<in> set (lru c')"
  proof (cases r)
    case None
    then have "\<not> matches (heap c') key hash h" using r h by (metis find_None_iff2)
    then show ?thesis using m by simp
  next
    case (Some x)
    then have "x \<in> set (lru c')" "matches (heap c') key hash x" using r [symmetric] by (auto simp: find_Some_iff)
    then show ?thesis using Some matches_unique [OF _ h m] i(2) by (simp add: cache_ok_def)
  qed
  then show ?thesis using i(1,3) e look by auto
qed

section \<open>An example\<close>

text \<open>
  A cache of capacity two: the entries 0 and 1 are inserted, 0 is looked up, and 2 evicts 1, which
  stays allocated while its handle is held.
\<close>

definition example_inserted :: "nat LRUCache" where
  "example_inserted = snd (LRU_Insert [2] 6 20 1 (snd (LRU_Insert [1] 5 10 1 (new_LRUCache 2))))"

definition example_looked_up :: "nat LRUCache" where
  "example_looked_up = snd (LRU_Lookup [1] 5 example_inserted)"

lemma example_reachable:
  "cache_step\<^sup>*\<^sup>* (new_LRUCache 2, \<lambda>_. 0) (example_looked_up, (\<lambda>_. 0)(0 := 2, 1 := 1))"
proof -
  let ?c0 = "new_LRUCache 2 :: nat LRUCache" and ?c1 = "snd (LRU_Insert [1] 5 10 1 (new_LRUCache 2)) :: nat LRUCache"
  have "fst (LRU_Insert [1] 5 10 1 ?c0) = 0" "fst (LRU_Insert [2] 6 20 1 ?c1) = 1" "fst (LRU_Lookup [1] 5 example_inserted) = Some 0"
    unfolding example_inserted_def by code_simp+
  then have run: "LRU_Insert [1] 5 10 1 ?c0 = (0, ?c1)" "LRU_Insert [2] 6 20 1 ?c1 = (1, example_inserted)"
    "LRU_Lookup [1] 5 example_inserted = (Some 0, example_looked_up)"
    by (simp_all add: prod_eq_iff example_inserted_def example_looked_up_def)
  have "cache_step (example_inserted, (\<lambda>_. 0)(0 := 1, 1 := 1)) (example_looked_up, (\<lambda>_. 0)(0 := 2, 1 := 1))"
    using hit_step [OF run(3), of "(\<lambda>_. 0)(0 := 1, 1 := 1)"] by (simp add: fun_upd_twist flip: One_nat_def)
  then show ?thesis
    using insert_step [OF run(1), of "\<lambda>_. 0"] insert_step [OF run(2), of "(\<lambda>_. 0)(0 := 1)"]
    by (meson converse_rtranclp_into_rtranclp rtranclp.rtrancl_refl)
qed

theorem cache_invariant_witness: "lru example_looked_up = [1, 0] \<and> (\<forall>h. heap example_looked_up h \<noteq> None \<longleftrightarrow> h \<in> {0, 1})"
proof -
  have "lru example_looked_up = [1, 0]" unfolding example_looked_up_def example_inserted_def by code_simp
  then show ?thesis using cache_invariant [OF example_reachable] by auto
qed

theorem cache_lookup_witness: "fst (LRU_Lookup [2] 6 example_looked_up) = Some 1 \<and> lru (snd (LRU_Lookup [2] 6 example_looked_up)) = [0, 1]"
proof -
  have look: "fst (LRU_Lookup [2] 6 example_looked_up) = Some 1" "lru example_looked_up = [1, 0]"
    unfolding example_looked_up_def example_inserted_def by code_simp+
  then show ?thesis using cache_lookup [OF example_reachable prod.collapse [symmetric], of "[2]" 6] by simp
qed

theorem cache_insert_witness:
  "\<exists>c'. LRU_Insert [3] 7 30 1 example_looked_up = (2, c') \<and> (usage c' \<le> capacity c' \<or> lru c' = [])"
proof -
  have "fst (LRU_Insert [3] 7 30 1 example_looked_up) = 2"
    unfolding example_looked_up_def example_inserted_def by code_simp
  then show ?thesis
    using cache_insert [OF example_reachable prod.collapse [symmetric], of "[3]" 7 30 1] by (metis prod.collapse)
qed

end
