(* ===== verification/LdbTableCache.thy ===== *)
theory LdbTableCache
  imports LdbCache LdbTable LdbFileName
begin

text \<open>
  LevelDB, \<^verbatim>\<open>db/table_cache.cc\<close>: the cache of open tables. A table is looked up under the number
  of its file; on a miss its file is opened, under the current or the old name, and the table is
  put into the cache, an error is not. The lemmas about the sharded cache say that it returns only
  values that were put in under the key; on them rests that reading through the cache is reading
  the file.
\<close>

section \<open>The cache of tables\<close>

type_synonym table_entry = "RandomAccessFile \<times> table"
type_synonym cache_handle = "32 word \<times> nat"

record 's TableCache =
  tc_env :: 's
  tc_dbname :: bytes
  tc_options :: Options
  tc_cache :: "table_entry ShardedLRUCache"

definition new_TableCache :: "'s \<Rightarrow> bytes \<Rightarrow> Options \<Rightarrow> 64 word \<Rightarrow> 's TableCache" where
  "new_TableCache e dbname options entries =
     \<lparr>tc_env = e, tc_dbname = dbname, tc_options = options, tc_cache = new_ShardedLRUCache entries\<rparr>"

text \<open>The file of a table, under its name or the name that older versions gave it.\<close>

definition open_table_file ::
  "'s Env \<Rightarrow> 64 word \<Rightarrow> 's TableCache \<Rightarrow> Status \<times> RandomAccessFile option \<times> 's TableCache" where
  "open_table_file E file_number tc =
     (case env_NewRandomAccessFile E (TableFileName (tc_dbname tc) file_number) (tc_env tc) of
        (s, f, e) \<Rightarrow>
          if ok s then (s, f, tc\<lparr>tc_env := e\<rparr>)
          else
            case env_NewRandomAccessFile E (SSTTableFileName (tc_dbname tc) file_number) e of
              (s', f', e) \<Rightarrow> (if ok s' then OK else s, f', tc\<lparr>tc_env := e\<rparr>))"

definition FindTable ::
  "Snappy \<Rightarrow> 's Env \<Rightarrow> 64 word \<Rightarrow> 64 word \<Rightarrow> 's TableCache \<Rightarrow> (Status \<times> cache_handle option \<times> 's TableCache) run" where
  "FindTable z E file_number file_size tc =
     (let key = EncodeFixed64 file_number;
          (handle, c) = Cache_Lookup key (tc_cache tc);
          tc = tc\<lparr>tc_cache := c\<rparr> in
      if handle \<noteq> None then Ret (OK, handle, tc)
      else
        case open_table_file E file_number tc of
          (s, f, tc) \<Rightarrow>
            if \<not> ok s then Ret (s, None, tc)
            else
              case f of
                None \<Rightarrow> Undef
              | Some rf \<Rightarrow>
                  run_bind (Table_Open z (tc_options tc) rf file_size) (\<lambda>(s, t).
                    if \<not> ok s then (if t = None then Ret (s, None, tc) else Undef)
                    else
                      case t of
                        None \<Rightarrow> Undef
                      | Some t \<Rightarrow>
                          case Cache_Insert key (rf, t) 1 (tc_cache tc) of
                            (handle, c) \<Rightarrow> Ret (s, Some handle, tc\<lparr>tc_cache := c\<rparr>)))"

text \<open>
  An iterator holds the handle of its table until it is deleted, when its cleanup gives the handle
  back; the result is the status that the error iterator gets, or the table, which is also stored
  through \<open>tableptr\<close>, its iterator and the handle.
\<close>

definition TableCache_NewIterator ::
  "Snappy \<Rightarrow> 's Env \<Rightarrow> 64 word \<Rightarrow> 64 word \<Rightarrow> 's TableCache \<Rightarrow>
    ((Status + table \<times> (block_iterator, block_iterator) two_level \<times> cache_handle) \<times> 's TableCache) run" where
  "TableCache_NewIterator z E file_number file_size tc =
     run_bind (FindTable z E file_number file_size tc) (\<lambda>(s, handle, tc).
       if \<not> ok s then Ret (Inl (NewErrorIterator s), tc)
       else
         case handle of
           None \<Rightarrow> Undef
         | Some h \<Rightarrow>
             (case Cache_Value h (tc_cache tc) of
                None \<Rightarrow> Undef
              | Some (_, t) \<Rightarrow> Ret (Inr (t, Table_NewIterator t, h), tc)))"

definition UnrefEntry :: "cache_handle \<Rightarrow> 's TableCache \<Rightarrow> 's TableCache" where
  "UnrefEntry h tc = tc\<lparr>tc_cache := Cache_Release h (tc_cache tc)\<rparr>"

text \<open>A lookup: the status and what \<open>saver\<close> is called with.\<close>

definition TableCache_Get ::
  "Snappy \<Rightarrow> 's Env \<Rightarrow> bool \<Rightarrow> 64 word \<Rightarrow> 64 word \<Rightarrow> bytes \<Rightarrow> 's TableCache \<Rightarrow>
    (Status \<times> (bytes \<times> bytes) option \<times> 's TableCache) run" where
  "TableCache_Get z E verify_checksums file_number file_size k tc =
     run_bind (FindTable z E file_number file_size tc) (\<lambda>(s, handle, tc).
       if \<not> ok s then Ret (s, None, tc)
       else
         case handle of
           None \<Rightarrow> Undef
         | Some h \<Rightarrow>
             (case Cache_Value h (tc_cache tc) of
                None \<Rightarrow> Undef
              | Some (_, t) \<Rightarrow>
                  run_bind (InternalGet z t verify_checksums k) (\<lambda>(s, saved).
                    Ret (s, saved, tc\<lparr>tc_cache := Cache_Release h (tc_cache tc)\<rparr>))))"

definition TableCache_Evict :: "64 word \<Rightarrow> 's TableCache \<Rightarrow> 's TableCache" where
  "TableCache_Evict file_number tc = tc\<lparr>tc_cache := Cache_Erase (EncodeFixed64 file_number) (tc_cache tc)\<rparr>"

section \<open>Values in the cache\<close>

text \<open>
  Each shard meets its invariant, with the handles \<open>ext\<close> that clients hold, and a value meets \<open>V\<close>
  for its key.
\<close>

definition cached :: "(bytes \<Rightarrow> 'v \<Rightarrow> bool) \<Rightarrow> 'v ShardedLRUCache \<Rightarrow> (nat \<Rightarrow> nat \<Rightarrow> nat) \<Rightarrow> bool" where
  "cached V s ext \<longleftrightarrow>
     length (shard s) = kNumShards \<and>
     (\<forall>i < kNumShards. cache_ok (shard s ! i) (ext i) \<and> (\<forall>h e. heap (shard s ! i) h = Some e \<longrightarrow> V (lh_key e) (lh_value e)))"

lemma Shard_less: "Shard hash < kNumShards"
proof -
  have "unat hash < 2 ^ 32" using unsigned_less [of hash] by simp
  then show ?thesis by (simp add: Shard_def kNumShards_def kNumShardBits_def unat_drop_bit)
qed

lemma cached_update:
  assumes "cached V s ext" and "cache_ok c x" and "\<forall>h e. heap c h = Some e \<longrightarrow> V (lh_key e) (lh_value e)"
  shows "cached V (s\<lparr>shard := (shard s)[Shard hash := c]\<rparr>) (ext(Shard hash := x))"
  using assms by (auto simp: cached_def nth_list_update)

lemma cached_shard:
  assumes "cached V s ext"
  shows "cache_ok (shard s ! Shard hash) (ext (Shard hash))"
    and "\<forall>h e. heap (shard s ! Shard hash) h = Some e \<longrightarrow> V (lh_key e) (lh_value e)"
  using assms Shard_less [of hash] unfolding cached_def by blast+

lemma keeps_values:
  assumes "keeps_entries hp hp'" and "\<forall>h e. hp h = Some e \<longrightarrow> V (lh_key e) (lh_value e)"
  shows "\<forall>h e. hp' h = Some e \<longrightarrow> V (lh_key e) (lh_value e)"
  using assms unfolding keeps_entries_def by metis

lemma LRU_Lookup_keeps: "LRU_Lookup key hash c = (r, c') \<Longrightarrow> keeps_entries (heap c) (heap c')"
  by (auto simp: LRU_Lookup_def LRU_Append_def LRU_Remove_def keeps_entries_def split: option.splits if_splits)

lemma LRU_Erase_keeps: "keeps_entries (heap c) (heap (LRU_Erase key hash c))"
proof -
  obtain old t where "HandleTable_Remove (heap c) key hash (htable c) = (old, t)" by fastforce
  then show ?thesis
    using Unref_keeps [of "c\<lparr>htable := t, lru := remove1 h (lru c)\<rparr>" h for h]
    by (auto simp: LRU_Erase_def LRU_Remove_def Let_def split: option.split)
qed

lemma LRU_Insert_keeps:
  assumes "LRU_Insert key hash v charge c = (h, c')"
  shows "keeps_entries ((heap c)(h \<mapsto> \<lparr>lh_value = v, lh_key = key, lh_charge = charge, lh_refs = 2, lh_hash = hash\<rparr>)) (heap c')"
proof -
  let ?e = "\<lparr>lh_value = v, lh_key = key, lh_charge = charge, lh_refs = 2, lh_hash = hash\<rparr>"
  define c1 where "c1 = c\<lparr>heap := (heap c)(h \<mapsto> ?e), fresh := h + 1, lru := lru c @ [h], usage := usage c + charge\<rparr>"
  have h: "h = fresh c" using assms by (simp add: LRU_Insert_def Let_def split: prod.splits)
  obtain old t where tab: "HandleTable_Insert (heap c1) key hash h (htable c) = (old, t)" by fastforce
  let ?c2 = "case old of None \<Rightarrow> c1\<lparr>htable := t\<rparr> | Some x \<Rightarrow> Unref x (c1\<lparr>htable := t, lru := remove1 x (lru c1)\<rparr>)"
  have c': "c' = evict ?c2"
    using assms tab h by (cases old) (simp_all add: LRU_Insert_def LRU_Append_def LRU_Remove_def Let_def c1_def)
  have "keeps_entries (heap c1) (heap ?c2)"
    using Unref_keeps [of "c1\<lparr>htable := t, lru := remove1 x (lru c1)\<rparr>" x for x] by (simp split: option.split)
  then have "keeps_entries (heap c1) (heap c')" unfolding c' by (rule keeps_entries_trans) (rule evict_keeps)
  then show ?thesis by (simp add: c1_def)
qed

lemma Cache_Lookup_cached:
  assumes c: "cached V s ext" and room: "\<And>i h. ext i h + 2 < 2 ^ 32" and look: "Cache_Lookup key s = (r, s')"
  shows "case r of None \<Rightarrow> cached V s' ext
    | Some (hash, h) \<Rightarrow> hash = HashSlice key \<and>
        cached V s' (ext(Shard hash := (ext (Shard hash))(h := ext (Shard hash) h + 1))) \<and> (\<exists>v. Cache_Value (hash, h) s' = Some v \<and> V key v)"
proof -
  let ?hash = "HashSlice key"
  let ?i = "Shard ?hash"
  have i: "?i < kNumShards" "?i < length (shard s)" using Shard_less c by (simp_all add: cached_def)
  obtain h c' where l: "LRU_Lookup key ?hash (shard s ! ?i) = (h, c')" by fastforce
  have r: "r = map_option (Pair ?hash) h" "s' = s\<lparr>shard := (shard s)[?i := c']\<rparr>"
    using look l by (simp_all add: Cache_Lookup_def Let_def)
  have ci: "cache_ok (shard s ! ?i) (ext ?i)" and vi: "\<forall>h e. heap (shard s ! ?i) h = Some e \<longrightarrow> V (lh_key e) (lh_value e)"
    by (rule cached_shard [OF c])+
  note keep = keeps_values [where V = V, OF LRU_Lookup_keeps [OF l] vi]
  show ?thesis
  proof (cases h)
    case None
    then have "c' = shard s ! ?i" using LRU_Lookup_ok(2) [OF ci l] by simp
    then show ?thesis using None r c i by simp
  next
    case (Some x)
    have hit: "cache_ok c' ((ext ?i)(x := ext ?i x + 1))"
      using LRU_Lookup_ok(3) [OF ci l Some] room by blast
    then have new: "cached V s' (ext(?i := (ext ?i)(x := ext ?i x + 1)))"
      using cached_update [OF c hit keep] r(2) by simp
    have "find (matches (heap (shard s ! ?i)) key ?hash) (lru (shard s ! ?i)) = Some x"
      using LRU_Lookup_ok(1) [OF ci l] Some by simp
    then have "matches (heap (shard s ! ?i)) key ?hash x" by (auto simp: find_Some_iff)
    then obtain e where e: "heap (shard s ! ?i) x = Some e" "lh_key e = key"
      by (auto simp: matches_def slice_eq_iff split: option.splits)
    have "heap c' x \<noteq> None" using hit by (auto simp: cache_ok_def heap_ok_def refs_of_def)
    then obtain e' where e': "heap c' x = Some e'" by blast
    then have "lh_key e' = key" using LRU_Lookup_keeps [OF l] e by (force simp: keeps_entries_def)
    then show ?thesis using Some r new e' keep i by (auto simp: Cache_Value_def)
  qed
qed

lemma Cache_Insert_cached:
  assumes c: "cached V s ext" and v: "V key v" and ins: "Cache_Insert key v charge s = ((hash, h), s')"
  shows "hash = HashSlice key" and "ext (Shard hash) h = 0"
    and "cached V s' (ext(Shard hash := (ext (Shard hash))(h := 1)))" and "Cache_Value (hash, h) s' = Some v"
proof -
  let ?i = "Shard (HashSlice key)"
  have i: "?i < kNumShards" "?i < length (shard s)" using Shard_less c by (simp_all add: cached_def)
  obtain c' where l: "LRU_Insert key (HashSlice key) v charge (shard s ! ?i) = (h, c')"
    and r: "hash = HashSlice key" "s' = s\<lparr>shard := (shard s)[?i := c']\<rparr>"
    using ins by (auto simp: Cache_Insert_def Let_def split: prod.splits)
  have ci: "cache_ok (shard s ! ?i) (ext ?i)" and vi: "\<forall>h e. heap (shard s ! ?i) h = Some e \<longrightarrow> V (lh_key e) (lh_value e)"
    by (rule cached_shard [OF c])+
  have vals: "\<forall>h e. heap c' h = Some e \<longrightarrow> V (lh_key e) (lh_value e)"
    by (rule keeps_values [OF LRU_Insert_keeps [OF l]]) (use vi v in auto)
  note in_ok = LRU_Insert_ok [OF ci l]
  show "hash = HashSlice key" by (rule r(1))
  show "ext (Shard hash) h = 0" using in_ok(1) r(1) by simp
  show "cached V s' (ext(Shard hash := (ext (Shard hash))(h := 1)))"
    using cached_update [OF c in_ok(2) vals] r by simp
  show "Cache_Value (hash, h) s' = Some v" using in_ok(4) r i by (auto simp: Cache_Value_def)
qed

lemma Cache_Release_cached:
  assumes c: "cached V s ext" and h: "0 < ext (Shard hash) h"
  shows "cached V (Cache_Release (hash, h) s) (ext(Shard hash := (ext (Shard hash))(h := ext (Shard hash) h - 1)))"
proof -
  let ?i = "Shard hash"
  have ci: "cache_ok (shard s ! ?i) (ext ?i)" and vi: "\<forall>h e. heap (shard s ! ?i) h = Some e \<longrightarrow> V (lh_key e) (lh_value e)"
    by (rule cached_shard [OF c])+
  have "keeps_entries (heap (shard s ! ?i)) (heap (LRU_Release h (shard s ! ?i)))" by (simp add: LRU_Release_def Unref_keeps)
  then show ?thesis
    using cached_update [OF c LRU_Release_ok [OF ci h] keeps_values [OF _ vi]] by (simp add: Cache_Release_def)
qed

lemma Cache_Erase_cached:
  assumes c: "cached V s ext"
  shows "cached V (Cache_Erase key s) ext"
proof -
  let ?i = "Shard (HashSlice key)"
  have ci: "cache_ok (shard s ! ?i) (ext ?i)" and vi: "\<forall>h e. heap (shard s ! ?i) h = Some e \<longrightarrow> V (lh_key e) (lh_value e)"
    by (rule cached_shard [OF c])+
  show ?thesis
    using cached_update [OF c LRU_Erase_ok [OF ci] keeps_values [OF LRU_Erase_keeps vi], of "HashSlice key"]
    by (simp add: Cache_Erase_def Let_def)
qed

lemma new_cached: "cached V (new_ShardedLRUCache cap) (\<lambda>_ _. 0)"
  by (simp add: cached_def new_ShardedLRUCache_def Let_def new_cache_ok)
    (simp add: new_LRUCache_def)

section \<open>Tables behind the cache\<close>

text \<open>
  What a number stands for: the bytes of a table file, its blocks and its index. The environment
  opens the files under their names, with \<open>env_inv\<close> as the invariant of its state.
\<close>

type_synonym table_desc = "bytes \<times> placed_block list \<times> (bytes \<times> bytes) list"

locale table_store =
  fixes z :: Snappy and E :: "'s Env" and env_inv :: "'s \<Rightarrow> bool" and dbname :: bytes and opts :: Options
    and key_ok :: "bytes \<Rightarrow> bool" and store :: "64 word \<Rightarrow> table_desc option"
  assumes opens: "env_inv e \<Longrightarrow> store n = Some (F, bs, idx) \<Longrightarrow>
    \<exists>rf e'. env_NewRandomAccessFile E (TableFileName dbname n) e = (OK, Some rf, e') \<and> env_inv e' \<and> readable z rf opts key_ok F bs idx"
begin

definition holds_table :: "bytes \<Rightarrow> table_entry \<Rightarrow> bool" where
  "holds_table key v \<longleftrightarrow>
     (\<forall>n F bs idx. key = EncodeFixed64 n \<and> store n = Some (F, bs, idx) \<longrightarrow>
        opened z (snd v) key_ok F bs idx \<and> filter_opened (snd v) F bs \<and> t_options (snd v) = opts)"

definition tc_ok :: "'s TableCache \<Rightarrow> (nat \<Rightarrow> nat \<Rightarrow> nat) \<Rightarrow> bool" where
  "tc_ok tc ext \<longleftrightarrow>
     tc_dbname tc = dbname \<and> tc_options tc = opts \<and> env_inv (tc_env tc) \<and> cached holds_table (tc_cache tc) ext"

lemma new_tc_ok: "env_inv e \<Longrightarrow> tc_ok (new_TableCache e dbname opts n) (\<lambda>_ _. 0)"
  by (simp add: tc_ok_def new_TableCache_def new_cached)

lemma EncodeFixed64_inject: "EncodeFixed64 a = EncodeFixed64 b \<longleftrightarrow> a = b"
  by (metis DecodeFixed64_Encode)

definition one_more :: "cache_handle \<Rightarrow> (nat \<Rightarrow> nat \<Rightarrow> nat) \<Rightarrow> nat \<Rightarrow> nat \<Rightarrow> nat" where
  "one_more h ext = ext(Shard (fst h) := (ext (Shard (fst h)))(snd h := ext (Shard (fst h)) (snd h) + 1))"

lemma FindTable_store:
  assumes tc: "tc_ok tc ext" and room: "\<And>i h. ext i h + 2 < 2 ^ 32" and n: "store n = Some (F, bs, idx)"
  shows "\<exists>h rf t tc'. FindTable z E n (of_nat (length F)) tc = Ret (OK, Some h, tc') \<and> tc_ok tc' (one_more h ext) \<and>
    Cache_Value h (tc_cache tc') = Some (rf, t) \<and> opened z t key_ok F bs idx \<and> filter_opened t F bs \<and> t_options t = opts"
proof -
  have c: "cached holds_table (tc_cache tc) ext" using tc by (simp add: tc_ok_def)
  obtain r c1 where look: "Cache_Lookup (EncodeFixed64 n) (tc_cache tc) = (r, c1)" by fastforce
  note l = Cache_Lookup_cached [OF c room look]
  show ?thesis
  proof (cases r)
    case (Some h)
    obtain hash x where h: "h = (hash, x)" by (cases h)
    obtain v where v: "cached holds_table c1 (one_more h ext)" "Cache_Value h c1 = Some v" "holds_table (EncodeFixed64 n) v"
      using l by (auto simp: Some h one_more_def)
    then show ?thesis
      using look Some tc n by (cases v) (auto simp: FindTable_def Let_def tc_ok_def holds_table_def)
  next
    case None
    then have c1: "cached holds_table c1 ext" using l by simp
    have inv: "env_inv (tc_env tc)" using tc by (simp add: tc_ok_def)
    obtain rf e where e: "env_NewRandomAccessFile E (TableFileName dbname n) (tc_env tc) = (OK, Some rf, e)" "env_inv e"
        "readable z rf opts key_ok F bs idx"
      using opens [OF inv n] by blast
    obtain t where t: "Table_Open z opts rf (of_nat (length F)) = Ret (OK, Some t)" "t_options t = opts"
        "opened z t key_ok F bs idx" "filter_opened t F bs"
      using Table_Open_readable [OF e(3)] by blast
    then have good: "holds_table (EncodeFixed64 n) (rf, t)" using n by (auto simp: holds_table_def EncodeFixed64_inject)
    obtain hash x c2 where ins: "Cache_Insert (EncodeFixed64 n) (rf, t) 1 c1 = ((hash, x), c2)" by (metis prod.collapse)
    note i = Cache_Insert_cached [OF c1 good ins]
    have "one_more (hash, x) ext = ext(Shard hash := (ext (Shard hash))(x := 1))" using i(2) by (simp add: one_more_def)
    then show ?thesis
      using look None e t ins i tc
      by (intro exI [of _ "(hash, x)"] exI [of _ rf] exI [of _ t])
        (simp add: FindTable_def open_table_file_def Let_def tc_ok_def)
  qed
qed

text \<open>Reading through the cache is reading the file; the handle has been given back.\<close>

lemma Get_store:
  assumes tc: "tc_ok tc ext" and room: "\<And>i h. ext i h + 2 < 2 ^ 32" and n: "store n = Some (F, bs, idx)"
  shows "\<exists>t tc'. opened z t key_ok F bs idx \<and> filter_opened t F bs \<and> t_options t = opts \<and> tc_ok tc' ext \<and>
    TableCache_Get z E verify n (of_nat (length F)) k tc =
      run_bind (InternalGet z t verify k) (\<lambda>(s, saved). Ret (s, saved, tc'))"
proof -
  obtain h rf t tc1 where f: "FindTable z E n (of_nat (length F)) tc = Ret (OK, Some h, tc1)" "tc_ok tc1 (one_more h ext)"
      "Cache_Value h (tc_cache tc1) = Some (rf, t)" and t: "opened z t key_ok F bs idx" "filter_opened t F bs" "t_options t = opts"
    using FindTable_store [OF assms] by blast
  let ?tc = "tc1\<lparr>tc_cache := Cache_Release h (tc_cache tc1)\<rparr>"
  have "(one_more h ext)(Shard (fst h) := (one_more h ext (Shard (fst h)))(snd h := one_more h ext (Shard (fst h)) (snd h) - 1)) = ext"
    by (auto simp: one_more_def fun_eq_iff)
  then have "cached holds_table (Cache_Release h (tc_cache tc1)) ext"
    using Cache_Release_cached [of holds_table "tc_cache tc1" "one_more h ext" "fst h" "snd h"] f(2)
    by (simp add: tc_ok_def one_more_def)
  then have "tc_ok ?tc ext" using f(2) by (simp add: tc_ok_def)
  then show ?thesis using t f by (intro exI [of _ t] exI [of _ ?tc]) (simp add: TableCache_Get_def)
qed

lemma Evict_store: "tc_ok tc ext \<Longrightarrow> tc_ok (TableCache_Evict n tc) ext"
  by (simp add: tc_ok_def TableCache_Evict_def Cache_Erase_cached)

end

section \<open>On the POSIX environment\<close>

text \<open>The table files among the files of the kernel; a name without a table file stands for nothing.\<close>

definition posix_store ::
  "Snappy \<Rightarrow> bytes \<Rightarrow> Options \<Rightarrow> (bytes \<Rightarrow> bool) \<Rightarrow> (bytes \<Rightarrow> bytes option) \<Rightarrow> 64 word \<Rightarrow> table_desc option" where
  "posix_store z dbname opts key_ok fs n =
     (case fs (TableFileName dbname n) of
        None \<Rightarrow> None
      | Some F \<Rightarrow>
          if comparator (opt_comparator opts) key_ok \<and> compressor z \<and> length F < 2 ^ 32 \<and> (\<exists>bs idx. table_file z opts key_ok F bs idx)
          then Some (F, SOME (bs, idx). table_file z opts key_ok F bs idx) else None)"

lemma posix_storeD:
  assumes "posix_store z dbname opts key_ok fs n = Some (F, bs, idx)"
  shows "fs (TableFileName dbname n) = Some F" and "random_access_file rf F \<Longrightarrow> readable z rf opts key_ok F bs idx"
proof -
  show "fs (TableFileName dbname n) = Some F" using assms by (auto simp: posix_store_def split: option.splits if_splits)
  have ex: "\<exists>x. case x of (bs, idx) \<Rightarrow> table_file z opts key_ok F bs idx"
    and eq: "(bs, idx) = (SOME (bs, idx). table_file z opts key_ok F bs idx)"
    and ok: "comparator (opt_comparator opts) key_ok" "compressor z" "length F < 2 ^ 32"
    using assms by (auto simp: posix_store_def split: option.splits if_splits)
  have "table_file z opts key_ok F bs idx" using someI_ex [OF ex] unfolding eq [symmetric] by simp
  then show "random_access_file rf F \<Longrightarrow> readable z rf opts key_ok F bs idx" using ok by (simp add: readable_def)
qed

lemma memory_pread:
  assumes "mem_files k n = Some F"
  shows "random_access_file (PosixRandomAccessFile (memory_stream n) n k) F"
  using assms
  by unfold_locales (auto simp: PosixRandomAccessFile_def PosixRandomAccessFile_Read_def memory_stream_def)

lemma memory_opens:
  assumes "mem_files (pe_kernel e) n = Some F"
  shows "\<exists>rf e'. env_NewRandomAccessFile (PosixEnv memory_kernel) n e = (OK, Some rf, e') \<and>
    mem_files (pe_kernel e') = mem_files (pe_kernel e) \<and> random_access_file rf F"
proof -
  let ?k = "(pe_kernel e)\<lparr>mem_fds := mem_fds (pe_kernel e) @ [n]\<rparr>"
  have k: "mem_files ?k n = Some F" using assms by simp
  have "\<exists>rf e'. PosixEnv_NewRandomAccessFile memory_kernel n e = (OK, Some rf, e') \<and> mem_files (pe_kernel e') = mem_files (pe_kernel e) \<and>
      random_access_file (snd rf) F"
    using k memory_pread [OF k] mmap_file.random_access_file_axioms [of "[]" n F]
    by (auto simp: PosixEnv_NewRandomAccessFile_def PosixEnv_GetFileSize_def memory_kernel_def MmapLimiter_Acquire_def Let_def)
  then show ?thesis by (fastforce simp: PosixEnv_def)
qed

interpretation posix_tables: table_store z "PosixEnv memory_kernel" "\<lambda>e :: memory posix_env. mem_files (pe_kernel e) = fs" dbname opts key_ok
  "posix_store z dbname opts key_ok fs" for z dbname opts key_ok fs
proof
  fix e :: "memory posix_env" and n F bs idx
  assume e: "mem_files (pe_kernel e) = fs" and n: "posix_store z dbname opts key_ok fs n = Some (F, bs, idx)"
  then show "\<exists>rf e'. env_NewRandomAccessFile (PosixEnv memory_kernel) (TableFileName dbname n) e = (OK, Some rf, e') \<and>
      mem_files (pe_kernel e') = fs \<and> readable z rf opts key_ok F bs idx"
    using memory_opens [of e "TableFileName dbname n" F] posix_storeD [OF n] by blast
qed

section \<open>Properties\<close>

text \<open>
  C9. Looking up a key through the cache of tables, in whatever state its use has left it, is looking
  it up in the table file: it calls back with the entry of the key if there is one, and otherwise
  with the first entry behind the key or not at all. The handle is given back, and the cache stays
  in order, also when the table is evicted.
\<close>
theorem table_cache_get:
  assumes store: "table_store z E env_inv dbname opts key_ok store"
    and tc: "table_store.tc_ok z env_inv dbname opts key_ok store tc ext" and room: "\<And>i h. ext i h + 2 < 2 ^ 32"
    and n: "store n = Some (F, bs, idx)" and fits: "policy_fits opts (length (concat (kvs_of bs)))" and k: "key_ok k"
  shows "\<exists>r tc'. TableCache_Get z E verify n (of_nat (length F)) k tc = Ret (OK, r, tc') \<and>
    (\<forall>v. (k, v) \<in> set (concat (kvs_of bs)) \<longrightarrow> r = Some (k, v)) \<and>
    (\<forall>x. r = Some x \<longrightarrow> (\<exists>rest. dropWhile (\<lambda>(k', _). Compare (opt_comparator opts) k' k < 0) (concat (kvs_of bs)) = x # rest)) \<and>
    table_store.tc_ok z env_inv dbname opts key_ok store tc' ext \<and>
    table_store.tc_ok z env_inv dbname opts key_ok store (TableCache_Evict n tc') ext"
proof -
  obtain t tc' where t: "opened z t key_ok F bs idx" "filter_opened t F bs" "t_options t = opts"
      "table_store.tc_ok z env_inv dbname opts key_ok store tc' ext"
      "TableCache_Get z E verify n (of_nat (length F)) k tc = run_bind (InternalGet z t verify k) (\<lambda>(s, saved). Ret (s, saved, tc'))"
    using table_store.Get_store [OF store tc room n, of verify k] by blast
  have fits': "policy_fits (t_options t) (length (concat (kvs_of bs)))" using fits t(3) by simp
  show ?thesis
    using InternalGet_opened [OF t(1,2) fits' k, of verify] t(3-5) table_store.Evict_store [OF store t(4)]
    by (auto simp: table_comparator_def)
qed

definition example_disk :: "memory posix_env" where
  "example_disk =
     new_PosixEnv \<lparr>mem_files = (\<lambda>n. if n = TableFileName (ascii ''db'') 7 then Some (snd (tb_file (snd example_table))) else None),
       mem_streams = (\<lambda>_. None), mem_fds = [], mem_locks = {}\<rparr>"

theorem table_cache_get_witness:
  "\<exists>tc'. TableCache_Get NoSnappy (PosixEnv memory_kernel) True 7 (of_nat (length (snd (tb_file (snd example_table))))) [97]
     (new_TableCache example_disk (ascii ''db'') example_opts 10) = Ret (OK, Some ([97], [1]), tc')"
proof -
  let ?F = "snd (tb_file (snd example_table))" and ?kvs = "[([97], [1 :: 8 word]), ([98, 99 :: 8 word], [2])]"
  let ?inv = "\<lambda>e :: memory posix_env. mem_files (pe_kernel e) = mem_files (pe_kernel example_disk)"
  obtain t bs idx where op: "opened NoSnappy t (\<lambda>_. True) ?F bs idx" "t_options t = example_opts" and kvs: "concat (kvs_of bs) = ?kvs"
    using built_opened [OF example_table] by blast
  define store where "store = [7 :: 64 word \<mapsto> (?F, bs, idx)]"
  have name: "mem_files (pe_kernel example_disk) (TableFileName (ascii ''db'') 7) = Some ?F"
    by (simp add: example_disk_def new_PosixEnv_def)
  have store_ok: "table_store NoSnappy (PosixEnv memory_kernel) ?inv (ascii ''db'') example_opts (\<lambda>_. True) store"
  proof
    fix e :: "memory posix_env" and n G bs' idx'
    assume e: "?inv e" and n: "store n = Some (G, bs', idx')"
    have n: "n = 7" "G = ?F" "bs' = bs" "idx' = idx" using n by (auto simp: store_def split: if_splits)
    obtain rf e' where rf: "env_NewRandomAccessFile (PosixEnv memory_kernel) (TableFileName (ascii ''db'') 7) e = (OK, Some rf, e')"
        "?inv e'" "random_access_file rf ?F"
      using memory_opens [of e "TableFileName (ascii ''db'') 7" ?F] e name by auto
    have "readable NoSnappy rf example_opts (\<lambda>_. True) ?F bs idx" using op rf(3) by (simp add: opened_def readable_def)
    then show "\<exists>rf e'. env_NewRandomAccessFile (PosixEnv memory_kernel) (TableFileName (ascii ''db'') n) e = (OK, Some rf, e') \<and>
        ?inv e' \<and> readable NoSnappy rf example_opts (\<lambda>_. True) G bs' idx'"
      using rf n by blast
  qed
  have "filter_policy (bloom_policy (new_BloomFilterPolicy 10 6)) (bloom_fits (new_BloomFilterPolicy 10 6))"
    by (rule bloom.user.filter_policy_axioms)
  moreover have "bloom_fits (new_BloomFilterPolicy 10 6) (Suc (Suc 0))"
    by (simp add: bloom_fits_def new_BloomFilterPolicy_def Let_def)
  ultimately have fits: "policy_fits example_opts (length (concat (kvs_of bs)))" unfolding kvs by (auto simp: policy_fits_def example_opts_def)
  show ?thesis
    using table_cache_get [where n = 7 and F = ?F and bs = bs and idx = idx and k = "[97]" and verify = True,
        OF store_ok table_store.new_tc_ok [OF store_ok, of example_disk 10]] fits kvs
    by (auto simp: store_def)
qed

end
