(* ===== verification/LdbVersion.thy ===== *)
theory LdbVersion
  imports LdbVersionEdit LdbTwoLevel Complex_Main
begin

text \<open>
  LevelDB, the searches of \<^verbatim>\<open>db/version_set.cc\<close> in the files of a version: the binary search
  for a file, the tests whether files overlap a range, the iterator over the files of a level, the
  files that a compaction of a range takes in, and the accounting of seeks. Files are shared between
  versions, so they are pointers; these functions read what does not change in a file, through a map
  \<open>d\<close> from pointers to files. The files of a level above zero are sorted and disjoint, which is
  the predicate \<open>level_sorted\<close>.
\<close>

section \<open>Sizes\<close>

type_synonym fptr = nat
type_synonym file_map = "fptr \<Rightarrow> FileMetaData"

definition kTargetFileSize :: int where "kTargetFileSize = 2 * 1048576"
definition kMaxGrandParentOverlapBytes :: int where "kMaxGrandParentOverlapBytes = 10 * kTargetFileSize"
definition kExpandedCompactionByteSizeLimit :: int where "kExpandedCompactionByteSizeLimit = 25 * kTargetFileSize"
definition kMaxMemCompactLevel :: nat where "kMaxMemCompactLevel = 2"

definition MaxFileSizeForLevel :: "nat \<Rightarrow> 64 word" where
  "MaxFileSizeForLevel level = of_int kTargetFileSize"

text \<open>The sum is a signed number, read by \<open>sint\<close>.\<close>

definition TotalFileSize :: "file_map \<Rightarrow> fptr list \<Rightarrow> 64 word" where
  "TotalFileSize d fs = fold (\<lambda>f sum. sum + fm_file_size (d f)) fs 0"

section \<open>Finding a file\<close>

text \<open>With fewer than \<open>2 ^ 31\<close> files the indices of the search do not wrap around.\<close>

function find_file :: "Comparator \<Rightarrow> file_map \<Rightarrow> fptr list \<Rightarrow> bytes \<Rightarrow> nat \<Rightarrow> nat \<Rightarrow> nat" where
  "find_file u d fs key left right =
     (if left < right then
        let mid = (left + right) div 2; f = fs ! mid in
        if internal_compare u (largest (d f)) key < 0 then find_file u d fs key (mid + 1) right
        else find_file u d fs key left mid
      else right)"
  by pat_completeness auto
termination by (relation "measure (\<lambda>(_, _, _, _, left, right). right - left)") auto

declare find_file.simps [simp del]

definition FindFile :: "Comparator \<Rightarrow> file_map \<Rightarrow> fptr list \<Rightarrow> bytes \<Rightarrow> nat" where
  "FindFile u d fs key = find_file u d fs key 0 (length fs)"

section \<open>Overlap of a range of user keys\<close>

definition start_key :: "FileMetaData \<Rightarrow> bytes" where "start_key f = ExtractUserKey (smallest f)"
definition limit_key :: "FileMetaData \<Rightarrow> bytes" where "limit_key f = ExtractUserKey (largest f)"

definition AfterFile :: "Comparator \<Rightarrow> bytes option \<Rightarrow> FileMetaData \<Rightarrow> bool" where
  "AfterFile u k f \<longleftrightarrow> (case k of None \<Rightarrow> False | Some k \<Rightarrow> Compare u k (limit_key f) > 0)"

definition BeforeFile :: "Comparator \<Rightarrow> bytes option \<Rightarrow> FileMetaData \<Rightarrow> bool" where
  "BeforeFile u k f \<longleftrightarrow> (case k of None \<Rightarrow> False | Some k \<Rightarrow> Compare u k (start_key f) < 0)"

definition new_InternalKey :: "bytes \<Rightarrow> SequenceNumber \<Rightarrow> ValueType \<Rightarrow> bytes" where
  "new_InternalKey k s t = AppendInternalKey [] \<lparr>user_key = k, sequence = s, type = t\<rparr>"

definition SomeFileOverlapsRange ::
  "Comparator \<Rightarrow> bool \<Rightarrow> file_map \<Rightarrow> fptr list \<Rightarrow> bytes option \<Rightarrow> bytes option \<Rightarrow> bool" where
  "SomeFileOverlapsRange u disjoint_sorted_files d fs smallest_user_key largest_user_key =
     (if \<not> disjoint_sorted_files
      then list_ex (\<lambda>f. \<not> (AfterFile u smallest_user_key (d f) \<or> BeforeFile u largest_user_key (d f))) fs
      else
        let index = (case smallest_user_key of
              None \<Rightarrow> 0
            | Some k \<Rightarrow> FindFile u d fs (new_InternalKey k kMaxSequenceNumber kValueTypeForSeek)) in
        if length fs \<le> index then False
        else \<not> BeforeFile u largest_user_key (d (fs ! index)))"

section \<open>The iterator over the files of a level\<close>

definition file_value :: "FileMetaData \<Rightarrow> bytes" where
  "file_value f = EncodeFixed64 (fm_number f) @ EncodeFixed64 (fm_file_size f)"

definition LevelFileNumIterator :: "Comparator \<Rightarrow> file_map \<Rightarrow> fptr list \<Rightarrow> nat Iter" where
  "LevelFileNumIterator u d flist =
     \<lparr>it_Valid = (\<lambda>index. index < length flist),
      it_SeekToFirst = (\<lambda>index. Ret 0),
      it_SeekToLast = (\<lambda>index. Ret (if flist = [] then 0 else length flist - 1)),
      it_Seek = (\<lambda>target index. Ret (FindFile u d flist target)),
      it_Next = (\<lambda>index. if index < length flist then Ret (index + 1) else Undef),
      it_Prev = (\<lambda>index. if index < length flist then Ret (if index = 0 then length flist else index - 1) else Undef),
      it_key = (\<lambda>index. largest (d (flist ! index))),
      it_value = (\<lambda>index. file_value (d (flist ! index))),
      it_status = (\<lambda>index. OK)\<rparr>"

definition new_LevelFileNumIterator :: "fptr list \<Rightarrow> nat" where
  "new_LevelFileNumIterator flist = length flist"

section \<open>Versions\<close>

record Version =
  v_refs :: int
  v_files :: "fptr list list"
  file_to_compact :: "fptr option"
  file_to_compact_level :: int
  compaction_score :: real
  compaction_level :: int

definition new_Version :: Version where
  "new_Version =
     \<lparr>v_refs = 0, v_files = replicate kNumLevels [], file_to_compact = None, file_to_compact_level = - 1,
      compaction_score = - 1, compaction_level = - 1\<rparr>"

definition OverlapInLevel :: "Comparator \<Rightarrow> file_map \<Rightarrow> Version \<Rightarrow> nat \<Rightarrow> bytes option \<Rightarrow> bytes option \<Rightarrow> bool" where
  "OverlapInLevel u d v level smallest_user_key largest_user_key =
     SomeFileOverlapsRange u (0 < level) d (v_files v ! level) smallest_user_key largest_user_key"

text \<open>
  The loop of \<open>GetOverlappingInputs\<close> starts again when a file of level zero has widened the range.
  It is shown below to end; one that does not end is \<open>NoFuel\<close>.
\<close>

partial_function (option) overlapping ::
  "Comparator \<Rightarrow> file_map \<Rightarrow> nat \<Rightarrow> fptr list \<Rightarrow> nat \<Rightarrow> bytes option \<Rightarrow> bytes option \<Rightarrow> fptr list \<Rightarrow> fptr list option" where
  "overlapping u d level fs i user_begin user_end inputs =
     (if i < length fs then
        let f = fs ! i; i = i + 1 in
        if (case user_begin of None \<Rightarrow> False | Some b \<Rightarrow> Compare u (limit_key (d f)) b < 0)
        then overlapping u d level fs i user_begin user_end inputs
        else if (case user_end of None \<Rightarrow> False | Some e \<Rightarrow> Compare u (start_key (d f)) e > 0)
        then overlapping u d level fs i user_begin user_end inputs
        else if level = 0 \<and> (case user_begin of None \<Rightarrow> False | Some b \<Rightarrow> Compare u (start_key (d f)) b < 0)
        then overlapping u d level fs 0 (Some (start_key (d f))) user_end []
        else if level = 0 \<and> (case user_end of None \<Rightarrow> False | Some e \<Rightarrow> Compare u (limit_key (d f)) e > 0)
        then overlapping u d level fs 0 user_begin (Some (limit_key (d f))) []
        else overlapping u d level fs i user_begin user_end (inputs @ [f])
      else Some inputs)"

declare overlapping.simps [code]

definition GetOverlappingInputs ::
  "Comparator \<Rightarrow> file_map \<Rightarrow> Version \<Rightarrow> nat \<Rightarrow> bytes option \<Rightarrow> bytes option \<Rightarrow> fptr list run" where
  "GetOverlappingInputs u d v level begin_key end_key =
     (if kNumLevels \<le> level then Undef
      else
        case overlapping u d level (v_files v ! level) 0 (map_option ExtractUserKey begin_key) (map_option ExtractUserKey end_key) [] of
          None \<Rightarrow> NoFuel
        | Some inputs \<Rightarrow> Ret inputs)"

text \<open>The loop over the levels that an output of the memtable can be pushed to.\<close>

function pick_level :: "Comparator \<Rightarrow> file_map \<Rightarrow> Version \<Rightarrow> bytes \<Rightarrow> bytes \<Rightarrow> nat \<Rightarrow> nat run" where
  "pick_level u d v smallest_user_key largest_user_key level =
     (if level < kMaxMemCompactLevel then
        if OverlapInLevel u d v (level + 1) (Some smallest_user_key) (Some largest_user_key) then Ret level
        else if level + 2 < kNumLevels then
          run_bind
            (GetOverlappingInputs u d v (level + 2)
               (Some (new_InternalKey smallest_user_key kMaxSequenceNumber kValueTypeForSeek))
               (Some (new_InternalKey largest_user_key 0 0)))
            (\<lambda>overlaps.
               if sint (TotalFileSize d overlaps) > kMaxGrandParentOverlapBytes then Ret level
               else pick_level u d v smallest_user_key largest_user_key (level + 1))
        else pick_level u d v smallest_user_key largest_user_key (level + 1)
      else Ret level)"
  by pat_completeness auto
termination by (relation "measure (\<lambda>(_, _, _, _, _, level). kMaxMemCompactLevel - level)") auto

declare pick_level.simps [simp del]

definition PickLevelForMemTableOutput :: "Comparator \<Rightarrow> file_map \<Rightarrow> Version \<Rightarrow> bytes \<Rightarrow> bytes \<Rightarrow> nat run" where
  "PickLevelForMemTableOutput u d v smallest_user_key largest_user_key =
     (if \<not> OverlapInLevel u d v 0 (Some smallest_user_key) (Some largest_user_key)
      then pick_level u d v smallest_user_key largest_user_key 0
      else Ret 0)"

section \<open>The files that can hold a key\<close>

text \<open>Level zero: the files whose range holds the key, from the newest to the oldest.\<close>

definition level0_files :: "Comparator \<Rightarrow> file_map \<Rightarrow> fptr list \<Rightarrow> bytes \<Rightarrow> fptr list" where
  "level0_files u d fs ukey =
     rev (sort_key (\<lambda>f. fm_number (d f))
       (filter (\<lambda>f. 0 \<le> Compare u ukey (start_key (d f)) \<and> Compare u ukey (limit_key (d f)) \<le> 0) fs))"

text \<open>A level above: the one file that the binary search finds, unless it is past the key.\<close>

definition level_file :: "Comparator \<Rightarrow> file_map \<Rightarrow> fptr list \<Rightarrow> bytes \<Rightarrow> bytes \<Rightarrow> fptr option" where
  "level_file u d fs ukey ikey =
     (let index = FindFile u d fs ikey in
      if index < length fs then
        if Compare u ukey (start_key (d (fs ! index))) < 0 then None else Some (fs ! index)
      else None)"

text \<open>The loops that call a function until it returns false, the result of which is the flag.\<close>

primrec call_each :: "('s \<Rightarrow> nat \<Rightarrow> fptr \<Rightarrow> bool \<times> 's) \<Rightarrow> nat \<Rightarrow> fptr list \<Rightarrow> 's \<Rightarrow> bool \<times> 's" where
  "call_each func level [] s = (True, s)"
| "call_each func level (f # fs) s =
     (case func s level f of (go, s) \<Rightarrow> if go then call_each func level fs s else (False, s))"

primrec call_levels ::
  "Comparator \<Rightarrow> file_map \<Rightarrow> Version \<Rightarrow> bytes \<Rightarrow> bytes \<Rightarrow> ('s \<Rightarrow> nat \<Rightarrow> fptr \<Rightarrow> bool \<times> 's) \<Rightarrow> nat list \<Rightarrow> 's \<Rightarrow> 's" where
  "call_levels u d v ukey ikey func [] s = s"
| "call_levels u d v ukey ikey func (level # levels) s =
     (case level_file u d (v_files v ! level) ukey ikey of
        None \<Rightarrow> call_levels u d v ukey ikey func levels s
      | Some f \<Rightarrow> (case func s level f of
          (go, s) \<Rightarrow> if go then call_levels u d v ukey ikey func levels s else s))"

definition ForEachOverlapping ::
  "Comparator \<Rightarrow> file_map \<Rightarrow> Version \<Rightarrow> bytes \<Rightarrow> bytes \<Rightarrow> ('s \<Rightarrow> nat \<Rightarrow> fptr \<Rightarrow> bool \<times> 's) \<Rightarrow> 's \<Rightarrow> 's" where
  "ForEachOverlapping u d v ukey ikey func s =
     (case call_each func 0 (level0_files u d (v_files v ! 0) ukey) s of
        (go, s) \<Rightarrow> if go then call_levels u d v ukey ikey func [1..<kNumLevels] s else s)"

section \<open>Accounting of seeks\<close>

record GetStats =
  seek_file :: "fptr option"
  seek_file_level :: int

definition UpdateStats :: "GetStats \<Rightarrow> (fptr \<Rightarrow> FileMetaData option) \<Rightarrow> Version \<Rightarrow> bool \<times> (fptr \<Rightarrow> FileMetaData option) \<times> Version" where
  "UpdateStats stats h v =
     (case seek_file stats of
        None \<Rightarrow> (False, h, v)
      | Some f \<Rightarrow>
          let h = h(f := map_option (\<lambda>m. m\<lparr>allowed_seeks := allowed_seeks m - 1\<rparr>) (h f)) in
          if allowed_seeks (the (h f)) \<le> 0 \<and> file_to_compact v = None
          then (True, h, v\<lparr>file_to_compact := Some f, file_to_compact_level := seek_file_level stats\<rparr>)
          else (False, h, v))"

record sample_state =
  ss_stats :: GetStats
  ss_matches :: int

definition Match :: "sample_state \<Rightarrow> nat \<Rightarrow> fptr \<Rightarrow> bool \<times> sample_state" where
  "Match s level f =
     (let s = s\<lparr>ss_matches := ss_matches s + 1\<rparr>;
          s = (if ss_matches s = 1 then s\<lparr>ss_stats := \<lparr>seek_file = Some f, seek_file_level = int level\<rparr>\<rparr> else s) in
      (ss_matches s < 2, s))"

definition RecordReadSample ::
  "Comparator \<Rightarrow> bytes \<Rightarrow> (fptr \<Rightarrow> FileMetaData option) \<Rightarrow> Version \<Rightarrow> bool \<times> (fptr \<Rightarrow> FileMetaData option) \<times> Version" where
  "RecordReadSample u key h v =
     (case ParseInternalKey key of
        None \<Rightarrow> (False, h, v)
      | Some ikey \<Rightarrow>
          let state = ForEachOverlapping u (\<lambda>f. the (h f)) v (user_key ikey) key Match
                \<lparr>ss_stats = \<lparr>seek_file = None, seek_file_level = - 1\<rparr>, ss_matches = 0\<rparr> in
          if 2 \<le> ss_matches state then UpdateStats (ss_stats state) h v else (False, h, v))"

section \<open>Sorted levels\<close>

definition proper_key :: "(bytes \<Rightarrow> bool) \<Rightarrow> bytes \<Rightarrow> bool" where
  "proper_key key_ok k \<longleftrightarrow> internal_ok key_ok k \<and> ParseInternalKey k \<noteq> None"

definition file_bounded :: "Comparator \<Rightarrow> (bytes \<Rightarrow> bool) \<Rightarrow> FileMetaData \<Rightarrow> bool" where
  "file_bounded u key_ok f \<longleftrightarrow> proper_key key_ok (smallest f) \<and> proper_key key_ok (largest f) \<and> internal_compare u (smallest f) (largest f) \<le> 0"

definition level_sorted :: "Comparator \<Rightarrow> (bytes \<Rightarrow> bool) \<Rightarrow> file_map \<Rightarrow> fptr list \<Rightarrow> bool" where
  "level_sorted u key_ok d fs \<longleftrightarrow>
     (\<forall>f \<in> set fs. file_bounded u key_ok (d f)) \<and>
     sorted_wrt (\<lambda>f g. internal_compare u (largest (d f)) (smallest (d g)) < 0) fs"

lemma parsed_tag: "ParseInternalKey a \<noteq> None \<Longrightarrow> unat (key_tag a) mod 256 \<le> 1"
proof -
  assume "ParseInternalKey a \<noteq> None"
  then have low: "(ucast (key_tag a AND 0xFF) :: 8 word) \<le> kTypeValue"
    by (auto simp: ParseInternalKey_def Let_def split: if_splits)
  have "(ucast (key_tag a AND 0xFF) :: 8 word) = of_nat (unat (key_tag a))"
    using byte_of_word [of 0 "key_tag a"] by simp
  then have "unat (ucast (key_tag a AND 0xFF) :: 8 word) = unat (key_tag a) mod 256" by (simp only: unat_of_nat_byte)
  then show ?thesis using low by (simp only: word_le_nat_alt kTypeValue_def) simp
qed

lemma proper_tag: "proper_key key_ok a \<Longrightarrow> key_tag a \<le> PackSequenceAndType kMaxSequenceNumber kTypeValue"
proof -
  assume "proper_key key_ok a"
  then have "unat (key_tag a) mod 256 \<le> 1" using parsed_tag by (simp add: proper_key_def)
  moreover have "unat (key_tag a) div 256 < 2 ^ 56"
  proof -
    have "unat (key_tag a) < 2 ^ 64" using unsigned_less [of "key_tag a"] by simp
    then show ?thesis by simp
  qed
  moreover have "valid_seq kMaxSequenceNumber" by (simp add: valid_seq_def)
  moreover have "unat kMaxSequenceNumber = 2 ^ 56 - 1" by (simp add: kMaxSequenceNumber_def)
  moreover have "unat (key_tag a) = unat (key_tag a) div 256 * 256 + unat (key_tag a) mod 256" by simp
  ultimately have "unat (key_tag a) \<le> (2 ^ 56 - 1) * 256 + 1" by linarith
  then have "unat (key_tag a) \<le> unat (PackSequenceAndType kMaxSequenceNumber kTypeValue)"
    using \<open>valid_seq kMaxSequenceNumber\<close> \<open>unat kMaxSequenceNumber = 2 ^ 56 - 1\<close> by (simp add: unat_pack kTypeValue_def)
  then show ?thesis by (simp add: word_le_nat_alt)
qed

lemma new_InternalKey_suffixed: "new_InternalKey k s t = k @ EncodeFixed64 (PackSequenceAndType s t)"
  by (simp add: new_InternalKey_def AppendInternalKey_def PutFixed64_def)

lemma new_InternalKey_simps [simp]:
  "ExtractUserKey (new_InternalKey k s t) = k" "internal_ok key_ok (new_InternalKey k s t) = key_ok k"
  by (simp_all add: new_InternalKey_suffixed)

text \<open>The first key of a user key is before exactly the keys whose user key is not before it.\<close>

lemma before_first_key:
  assumes "proper_key key_ok a"
  shows "internal_compare u a (new_InternalKey k kMaxSequenceNumber kValueTypeForSeek) < 0 \<longleftrightarrow> Compare u (ExtractUserKey a) k < 0"
  using proper_tag [OF assms]
  by (auto simp: internal_compare_def Let_def new_InternalKey_suffixed kValueTypeForSeek_def)

lemma internal_compare_user: "internal_compare u a b \<le> 0 \<Longrightarrow> Compare u (ExtractUserKey a) (ExtractUserKey b) \<le> 0"
  by (auto simp: internal_compare_def Let_def split: if_splits)

lemma file_bounded_keys:
  "file_bounded u key_ok f \<Longrightarrow> internal_ok key_ok (smallest f) \<and> internal_ok key_ok (largest f) \<and> key_ok (start_key f) \<and> key_ok (limit_key f) \<and>
     Compare u (start_key f) (limit_key f) \<le> 0"
  using internal_compare_user [of u "smallest f" "largest f"]
  by (auto simp: file_bounded_def proper_key_def internal_ok_def start_key_def limit_key_def)

lemma level_sorted_file: "level_sorted u key_ok d fs \<Longrightarrow> i < length fs \<Longrightarrow> file_bounded u key_ok (d (fs ! i))"
  by (simp add: level_sorted_def)

text \<open>The binary search, for a test that holds of a prefix of the files.\<close>

definition cuts_at :: "(nat \<Rightarrow> bool) \<Rightarrow> nat \<Rightarrow> nat \<Rightarrow> bool" where
  "cuts_at P n r \<longleftrightarrow> r \<le> n \<and> (\<forall>i < r. P i) \<and> (\<forall>i. r \<le> i \<and> i < n \<longrightarrow> \<not> P i)"

lemma find_file_cuts:
  fixes u d fs key
  defines "P \<equiv> \<lambda>i. internal_compare u (largest (d (fs ! i))) key < 0"
  assumes mono: "\<And>i j. i < j \<Longrightarrow> j < length fs \<Longrightarrow> P j \<Longrightarrow> P i"
  shows "left \<le> right \<Longrightarrow> right \<le> length fs \<Longrightarrow> \<forall>i < left. P i \<Longrightarrow> \<forall>i. right \<le> i \<and> i < length fs \<longrightarrow> \<not> P i \<Longrightarrow>
    cuts_at P (length fs) (find_file u d fs key left right)"
proof (induction "right - left" arbitrary: left right rule: less_induct)
  case less
  show ?case
  proof (cases "left < right")
    case True
    let ?m = "(left + right) div 2"
    have m: "left \<le> ?m" "?m < right" using True by auto
    show ?thesis
    proof (cases "P ?m")
      case P: True
      have "P i" if "i < ?m + 1" for i
        using mono [of i ?m] P that m less.prems(2) by (cases "i = ?m") auto
      then have "cuts_at P (length fs) (find_file u d fs key (?m + 1) right)"
        using less.hyps [of right "?m + 1"] less.prems m by simp
      then show ?thesis using True P by (subst find_file.simps) (simp add: P_def Let_def)
    next
      case False
      have "\<not> P i" if "?m \<le> i" "i < length fs" for i
        using mono [of ?m i] False that by (cases "i = ?m") auto
      then have "cuts_at P (length fs) (find_file u d fs key left ?m)"
        using less.hyps [of ?m left] less.prems m by simp
      then show ?thesis using True False by (subst find_file.simps) (simp add: P_def Let_def)
    qed
  next
    case False
    then show ?thesis using less.prems by (subst find_file.simps) (auto simp: cuts_at_def)
  qed
qed

lemma cuts_at_takeWhile:
  assumes "cuts_at P (length xs) r" and "\<And>i. i < length xs \<Longrightarrow> Q (xs ! i) \<longleftrightarrow> P i"
  shows "length (takeWhile Q xs) = r"
proof -
  have "takeWhile Q xs = take r xs"
    using assms by (intro takeWhile_eq_take_P_nth) (auto simp: cuts_at_def)
  then show ?thesis using assms(1) by (simp add: cuts_at_def)
qed

definition level_entries :: "file_map \<Rightarrow> fptr list \<Rightarrow> (bytes \<times> bytes) list" where
  "level_entries d fs = map (\<lambda>f. (largest (d f), file_value (d f))) fs"

context user_comparator
begin

lemmas icmp = internal.compare_trans [unfolded InternalKeyComparator_simps] internal.lt_trans_le [unfolded InternalKeyComparator_simps]
  internal.le_trans_lt [unfolded InternalKeyComparator_simps] internal.lt_trans [unfolded InternalKeyComparator_simps]

lemma files_apart:
  assumes s: "level_sorted u ok d fs" and ij: "i < j" "j < length fs"
  shows "internal_compare u (largest (d (fs ! i))) (largest (d (fs ! j))) < 0"
    and "Compare u (limit_key (d (fs ! i))) (start_key (d (fs ! j))) \<le> 0"
proof -
  have "file_bounded u ok (d (fs ! i))" "file_bounded u ok (d (fs ! j))" using s ij by (simp_all add: level_sorted_file)
  note f = this [THEN file_bounded_keys] this(2) [unfolded file_bounded_def]
  have lt: "internal_compare u (largest (d (fs ! i))) (smallest (d (fs ! j))) < 0"
    using s ij by (simp add: level_sorted_def sorted_wrt_iff_nth_less)
  show "internal_compare u (largest (d (fs ! i))) (largest (d (fs ! j))) < 0"
    using icmp(2) [of "largest (d (fs ! i))" "smallest (d (fs ! j))" "largest (d (fs ! j))"] f lt by simp
  show "Compare u (limit_key (d (fs ! i))) (start_key (d (fs ! j))) \<le> 0"
    using internal_compare_user [of u] lt by (simp add: limit_key_def start_key_def)
qed

lemma FindFile_cuts:
  assumes s: "level_sorted u ok d fs" and key: "internal_ok ok key"
  shows "cuts_at (\<lambda>i. internal_compare u (largest (d (fs ! i))) key < 0) (length fs) (FindFile u d fs key)"
  unfolding FindFile_def
proof (rule find_file_cuts)
  fix i j
  assume ij: "i < j" "j < length fs" and lt: "internal_compare u (largest (d (fs ! j))) key < 0"
  have "internal_ok ok (largest (d (fs ! i)))" "internal_ok ok (largest (d (fs ! j)))"
    using s ij file_bounded_keys [OF level_sorted_file [OF s]] by simp_all
  then show "internal_compare u (largest (d (fs ! i))) key < 0"
    using icmp(4) [of "largest (d (fs ! i))" "largest (d (fs ! j))" key] files_apart(1) [OF s ij] lt key by simp
qed simp_all

lemma FindFile_lower_bound:
  assumes "level_sorted u ok d fs" and "internal_ok ok key"
  shows "FindFile u d fs key = lower_bound (internal_compare u) key (level_entries d fs)"
  unfolding lower_bound_def
  by (rule cuts_at_takeWhile [symmetric])
    (use FindFile_cuts [OF assms] in \<open>simp_all add: level_entries_def cuts_at_def\<close>)

lemma level_iterator:
  assumes s: "level_sorted u ok d fs"
  shows "iterator (LevelFileNumIterator u d fs) (internal_compare u) (internal_ok ok) (level_entries d fs)
    (\<lambda>_. True) (\<lambda>i p. i = p \<and> p \<le> length fs)"
proof
  show "\<exists>i'. it_Seek (LevelFileNumIterator u d fs) t i = Ret i' \<and>
      i' = lower_bound (internal_compare u) t (level_entries d fs) \<and> lower_bound (internal_compare u) t (level_entries d fs) \<le> length fs"
    if "internal_ok ok t" for t i
    using FindFile_lower_bound [OF s that] lower_bound_le [of "internal_compare u" t "level_entries d fs"]
    by (simp add: LevelFileNumIterator_def level_entries_def)
qed (auto simp: LevelFileNumIterator_def level_entries_def)

text \<open>The overlap test finds whether some file meets the range, whichever way it searches.\<close>

lemma SomeFileOverlaps_iff:
  assumes s: "disjoint \<Longrightarrow> level_sorted u ok d fs" and ok: "\<And>k. lo = Some k \<Longrightarrow> ok k" "\<And>k. hi = Some k \<Longrightarrow> ok k"
  shows "SomeFileOverlapsRange u disjoint d fs lo hi \<longleftrightarrow> (\<exists>f \<in> set fs. \<not> AfterFile u lo (d f) \<and> \<not> BeforeFile u hi (d f))"
proof (cases disjoint)
  case False
  then show ?thesis by (auto simp: SomeFileOverlapsRange_def list_ex_iff)
next
  case True
  note s = s [OF True]
  define index where "index = (case lo of None \<Rightarrow> 0
    | Some k \<Rightarrow> FindFile u d fs (new_InternalKey k kMaxSequenceNumber kValueTypeForSeek))"
  have test: "SomeFileOverlapsRange u disjoint d fs lo hi \<longleftrightarrow> index < length fs \<and> \<not> BeforeFile u hi (d (fs ! index))"
    using True by (auto simp: SomeFileOverlapsRange_def index_def Let_def)
  have "cuts_at (\<lambda>i. AfterFile u lo (d (fs ! i))) (length fs) index"
  proof (cases lo)
    case None
    then show ?thesis by (simp add: index_def AfterFile_def cuts_at_def)
  next
    case (Some k)
    then have k: "ok k" using ok by simp
    have "internal_compare u (largest (d (fs ! i))) (new_InternalKey k kMaxSequenceNumber kValueTypeForSeek) < 0 \<longleftrightarrow>
        AfterFile u lo (d (fs ! i))" if "i < length fs" for i
    proof -
      have f: "file_bounded u ok (d (fs ! i))" by (rule level_sorted_file [OF s that])
      then have "proper_key ok (largest (d (fs ! i)))" by (simp add: file_bounded_def)
      then show ?thesis
        using file_bounded_keys [OF f] k user.compare_pos [of k "limit_key (d (fs ! i))"]
        by (simp add: before_first_key AfterFile_def Some limit_key_def)
    qed
    then show ?thesis
      using FindFile_cuts [OF s, of "new_InternalKey k kMaxSequenceNumber kValueTypeForSeek"] k
      by (auto simp: cuts_at_def index_def Some)
  qed
  note cuts = this
  have below: "AfterFile u lo (d (fs ! i))" if "i < index" for i using cuts that by (simp add: cuts_at_def)
  have above: "\<not> AfterFile u lo (d (fs ! i))" if "index \<le> i" "i < length fs" for i using cuts that by (simp add: cuts_at_def)
  have before: "BeforeFile u hi (d (fs ! j))" if b: "BeforeFile u hi (d (fs ! i))" and ij: "i < j" "j < length fs" for i j
  proof -
    obtain k where k: "hi = Some k" "Compare u k (start_key (d (fs ! i))) < 0"
      using b by (auto simp: BeforeFile_def split: option.splits)
    have "file_bounded u ok (d (fs ! i))" "file_bounded u ok (d (fs ! j))" using s ij by (simp_all add: level_sorted_file)
    note f = this [THEN file_bounded_keys]
    have "Compare u k (limit_key (d (fs ! i))) < 0"
      using user.lt_trans_le [of k "start_key (d (fs ! i))" "limit_key (d (fs ! i))"] k f ok by simp
    then have "Compare u k (start_key (d (fs ! j))) < 0"
      using user.lt_trans_le [of k "limit_key (d (fs ! i))" "start_key (d (fs ! j))"] k f ok files_apart(2) [OF s ij] by simp
    then show ?thesis using k by (simp add: BeforeFile_def)
  qed
  show ?thesis
  proof
    assume "SomeFileOverlapsRange u disjoint d fs lo hi"
    then show "\<exists>f \<in> set fs. \<not> AfterFile u lo (d f) \<and> \<not> BeforeFile u hi (d f)"
      using test above [of index] by auto
  next
    assume "\<exists>f \<in> set fs. \<not> AfterFile u lo (d f) \<and> \<not> BeforeFile u hi (d f)"
    then obtain j where j: "j < length fs" "\<not> AfterFile u lo (d (fs ! j))" "\<not> BeforeFile u hi (d (fs ! j))"
      by (auto simp: in_set_conv_nth)
    have "index \<le> j" using below [of j] j by (meson not_le_imp_less)
    then have "\<not> BeforeFile u hi (d (fs ! index))"
      using j before [of index j]
      by (cases "index = j") auto
    then show "SomeFileOverlapsRange u disjoint d fs lo hi" using test \<open>index \<le> j\<close> j by simp
  qed
qed

end

section \<open>The files that overlap a range\<close>

definition in_range :: "Comparator \<Rightarrow> bytes option \<Rightarrow> bytes option \<Rightarrow> FileMetaData \<Rightarrow> bool" where
  "in_range u lo hi f \<longleftrightarrow>
     \<not> (case lo of None \<Rightarrow> False | Some b \<Rightarrow> Compare u (limit_key f) b < 0) \<and>
     \<not> (case hi of None \<Rightarrow> False | Some e \<Rightarrow> Compare u (start_key f) e > 0)"

definition inside :: "Comparator \<Rightarrow> bytes option \<Rightarrow> bytes option \<Rightarrow> FileMetaData \<Rightarrow> bool" where
  "inside u lo hi f \<longleftrightarrow>
     \<not> (case lo of None \<Rightarrow> False | Some b \<Rightarrow> Compare u (start_key f) b < 0) \<and>
     \<not> (case hi of None \<Rightarrow> False | Some e \<Rightarrow> Compare u (limit_key f) e > 0)"

definition touches :: "Comparator \<Rightarrow> FileMetaData \<Rightarrow> FileMetaData \<Rightarrow> bool" where
  "touches u f g \<longleftrightarrow> Compare u (start_key f) (limit_key g) \<le> 0 \<and> Compare u (start_key g) (limit_key f) \<le> 0"

text \<open>A set of files that holds every file of the level that touches one of its files.\<close>

definition touch_closed :: "Comparator \<Rightarrow> file_map \<Rightarrow> fptr list \<Rightarrow> fptr set \<Rightarrow> bool" where
  "touch_closed u d fs S \<longleftrightarrow> (\<forall>g \<in> S \<inter> set fs. \<forall>f \<in> set fs. touches u (d f) (d g) \<longrightarrow> f \<in> S)"

text \<open>What the wider range holds is in every closed set that holds the narrower range.\<close>

definition range_reaches :: "Comparator \<Rightarrow> file_map \<Rightarrow> fptr list \<Rightarrow> bytes option \<Rightarrow> bytes option \<Rightarrow> bytes option \<Rightarrow> bytes option \<Rightarrow> bool" where
  "range_reaches u d fs lo hi lo' hi' \<longleftrightarrow>
     (\<forall>f \<in> set fs. in_range u lo hi (d f) \<longrightarrow> in_range u lo' hi' (d f)) \<and>
     (\<forall>S. touch_closed u d fs S \<and> (\<forall>f \<in> set fs. in_range u lo hi (d f) \<longrightarrow> f \<in> S) \<longrightarrow>
        (\<forall>f \<in> set fs. in_range u lo' hi' (d f) \<longrightarrow> f \<in> S))"

lemma range_reaches_refl [simp]: "range_reaches u d fs lo hi lo hi"
  by (simp add: range_reaches_def)

lemma range_reaches_trans:
  "range_reaches u d fs lo hi lo1 hi1 \<Longrightarrow> range_reaches u d fs lo1 hi1 lo2 hi2 \<Longrightarrow> range_reaches u d fs lo hi lo2 hi2"
  unfolding range_reaches_def by (meson order_refl)

text \<open>How many files could still widen a range.\<close>

definition wideners :: "Comparator \<Rightarrow> file_map \<Rightarrow> fptr list \<Rightarrow> bytes option \<Rightarrow> bytes option \<Rightarrow> nat" where
  "wideners u d fs lo hi =
     card {f \<in> set fs. case lo of None \<Rightarrow> False | Some b \<Rightarrow> Compare u (start_key (d f)) b < 0} +
     card {f \<in> set fs. case hi of None \<Rightarrow> False | Some e \<Rightarrow> Compare u (limit_key (d f)) e > 0}"

context user_comparator
begin

lemma widen_begin:
  assumes files: "\<forall>f \<in> set fs. file_bounded u ok (d f)" and f: "f \<in> set fs" and r: "in_range u (Some b) hi (d f)"
    and b: "ok b" "Compare u (start_key (d f)) b < 0"
  shows "range_reaches u d fs (Some b) hi (Some (start_key (d f))) hi"
    and "wideners u d fs (Some (start_key (d f))) hi < wideners u d fs (Some b) hi"
proof -
  have fk: "ok (start_key (d g)) \<and> ok (limit_key (d g)) \<and> Compare u (start_key (d g)) (limit_key (d g)) \<le> 0" if "g \<in> set fs" for g
    using files that file_bounded_keys by blast
  have wide: "in_range u (Some (start_key (d f))) hi (d g)" if "g \<in> set fs" "in_range u (Some b) hi (d g)" for g
    using that user.lt_trans [of "limit_key (d g)" "start_key (d f)" b] fk [OF that(1)] fk [OF f] b
    by (auto simp: in_range_def)
  have "g \<in> S" if S: "touch_closed u d fs S" and old: "\<forall>f \<in> set fs. in_range u (Some b) hi (d f) \<longrightarrow> f \<in> S"
    and g: "g \<in> set fs" and new: "in_range u (Some (start_key (d f))) hi (d g)" for S g
  proof (cases "in_range u (Some b) hi (d g)")
    case True
    then show ?thesis using old g by simp
  next
    case False
    then have gb: "Compare u (limit_key (d g)) b < 0" using new by (auto simp: in_range_def)
    have "0 \<le> Compare u (limit_key (d f)) b" using r by (simp add: in_range_def)
    then have "Compare u b (limit_key (d f)) \<le> 0" using user.compare_swap [of "limit_key (d f)" b] b fk [OF f] by simp
    then have "Compare u (limit_key (d g)) (limit_key (d f)) < 0"
      using user.lt_trans_le [of "limit_key (d g)" b "limit_key (d f)"] gb b fk [OF f] fk [OF g] by simp
    then have "Compare u (start_key (d g)) (limit_key (d f)) \<le> 0"
      using user.compare_trans [of "start_key (d g)" "limit_key (d g)" "limit_key (d f)"] fk [OF f] fk [OF g] by simp
    moreover have "Compare u (start_key (d f)) (limit_key (d g)) \<le> 0"
      using new user.compare_swap [of "limit_key (d g)" "start_key (d f)"] fk [OF f] fk [OF g] by (simp add: in_range_def)
    ultimately have "touches u (d g) (d f)" by (simp add: touches_def)
    then show ?thesis using S old r f g by (auto simp: touch_closed_def)
  qed
  then show "range_reaches u d fs (Some b) hi (Some (start_key (d f))) hi"
    using wide unfolding range_reaches_def by blast
  have "{g \<in> set fs. Compare u (start_key (d g)) (start_key (d f)) < 0} \<subseteq> {g \<in> set fs. Compare u (start_key (d g)) b < 0}"
    using user.lt_trans [of _ "start_key (d f)" b] fk f b by auto
  moreover have "f \<notin> {g \<in> set fs. Compare u (start_key (d g)) (start_key (d f)) < 0}"
    using user.compare_refl [of "start_key (d f)"] fk [OF f] by simp
  ultimately have "card {g \<in> set fs. Compare u (start_key (d g)) (start_key (d f)) < 0} < card {g \<in> set fs. Compare u (start_key (d g)) b < 0}"
    using f b by (intro psubset_card_mono) auto
  then show "wideners u d fs (Some (start_key (d f))) hi < wideners u d fs (Some b) hi" by (simp add: wideners_def)
qed

lemma widen_end:
  assumes files: "\<forall>f \<in> set fs. file_bounded u ok (d f)" and f: "f \<in> set fs" and r: "in_range u lo (Some e) (d f)"
    and e: "ok e" "Compare u (limit_key (d f)) e > 0"
  shows "range_reaches u d fs lo (Some e) lo (Some (limit_key (d f)))"
    and "wideners u d fs lo (Some (limit_key (d f))) < wideners u d fs lo (Some e)"
proof -
  have fk: "ok (start_key (d g)) \<and> ok (limit_key (d g)) \<and> Compare u (start_key (d g)) (limit_key (d g)) \<le> 0" if "g \<in> set fs" for g
    using files that file_bounded_keys by blast
  have e': "Compare u e (limit_key (d f)) < 0" using e fk [OF f] user.compare_pos [of "limit_key (d f)" e] by simp
  have wide: "in_range u lo (Some (limit_key (d f))) (d g)" if "g \<in> set fs" "in_range u lo (Some e) (d g)" for g
    using that user.compare_pos [of "start_key (d g)"] user.lt_trans [of e "limit_key (d f)" "start_key (d g)"] fk [OF that(1)] fk [OF f] e e'
    by (auto simp: in_range_def)
  have "g \<in> S" if S: "touch_closed u d fs S" and old: "\<forall>f \<in> set fs. in_range u lo (Some e) (d f) \<longrightarrow> f \<in> S"
    and g: "g \<in> set fs" and new: "in_range u lo (Some (limit_key (d f))) (d g)" for S g
  proof (cases "in_range u lo (Some e) (d g)")
    case True
    then show ?thesis using old g by simp
  next
    case False
    then have "Compare u (start_key (d g)) e > 0" using new by (auto simp: in_range_def)
    then have ge: "Compare u e (start_key (d g)) < 0" using user.compare_pos [of "start_key (d g)" e] fk [OF g] e by simp
    have "Compare u (start_key (d f)) e \<le> 0" using r by (simp add: in_range_def)
    then have "Compare u (start_key (d f)) (start_key (d g)) < 0"
      using user.le_trans_lt [of "start_key (d f)" e "start_key (d g)"] ge e fk [OF f] fk [OF g] by simp
    then have "Compare u (start_key (d f)) (limit_key (d g)) \<le> 0"
      using user.compare_trans [of "start_key (d f)" "start_key (d g)" "limit_key (d g)"] fk [OF f] fk [OF g] by simp
    then have "touches u (d g) (d f)" using new by (simp add: touches_def in_range_def)
    then show ?thesis using S old r f g by (auto simp: touch_closed_def)
  qed
  then show "range_reaches u d fs lo (Some e) lo (Some (limit_key (d f)))"
    using wide unfolding range_reaches_def by blast
  have "{g \<in> set fs. Compare u (limit_key (d g)) (limit_key (d f)) > 0} \<subseteq> {g \<in> set fs. Compare u (limit_key (d g)) e > 0}"
    using user.lt_trans [of e "limit_key (d f)"] user.compare_pos fk f e e' by auto
  moreover have "f \<notin> {g \<in> set fs. Compare u (limit_key (d g)) (limit_key (d f)) > 0}"
    using user.compare_refl [of "limit_key (d f)"] fk [OF f] by simp
  ultimately have "card {g \<in> set fs. Compare u (limit_key (d g)) (limit_key (d f)) > 0} < card {g \<in> set fs. Compare u (limit_key (d g)) e > 0}"
    using f e by (intro psubset_card_mono) auto
  then show "wideners u d fs lo (Some (limit_key (d f))) < wideners u d fs lo (Some e)" by (simp add: wideners_def)
qed

lemma overlapping_returns:
  assumes files: "\<forall>f \<in> set fs. file_bounded u ok (d f)"
  shows "i \<le> length fs \<Longrightarrow> (\<forall>k. lo = Some k \<or> hi = Some k \<longrightarrow> ok k) \<Longrightarrow>
    inputs = filter (\<lambda>f. in_range u lo hi (d f)) (take i fs) \<Longrightarrow>
    (level = 0 \<Longrightarrow> \<forall>f \<in> set inputs. inside u lo hi (d f)) \<Longrightarrow>
    \<exists>lo' hi'. (\<forall>k. lo' = Some k \<or> hi' = Some k \<longrightarrow> ok k) \<and> overlapping u d level fs i lo hi inputs = Some (filter (\<lambda>f. in_range u lo' hi' (d f)) fs) \<and>
      (level \<noteq> 0 \<longrightarrow> lo' = lo \<and> hi' = hi) \<and> range_reaches u d fs lo hi lo' hi' \<and>
      (level = 0 \<longrightarrow> (\<forall>f \<in> set fs. in_range u lo' hi' (d f) \<longrightarrow> inside u lo' hi' (d f)))"
proof (induction "wideners u d fs lo hi * (length fs + 1) + (length fs - i)" arbitrary: i lo hi inputs rule: less_induct)
  case less
  show ?case
  proof (cases "i < length fs")
    case False
    then have "overlapping u d level fs i lo hi inputs = Some inputs" by (simp add: overlapping.simps)
    then show ?thesis using less.prems False by (intro exI [of _ lo] exI [of _ hi]) auto
  next
    case True
    define f where "f = fs ! i"
    have f: "f \<in> set fs" "take (Suc i) fs = take i fs @ [f]" using True by (simp_all add: f_def take_Suc_conv_app_nth)
    have fok: "ok (start_key (d f))" "ok (limit_key (d f))" using files f(1) file_bounded_keys by blast+
    have go_on: ?thesis
      if "overlapping u d level fs i lo hi inputs = overlapping u d level fs (Suc i) lo hi (filter (\<lambda>f. in_range u lo hi (d f)) (take (Suc i) fs))"
        "level = 0 \<Longrightarrow> in_range u lo hi (d f) \<Longrightarrow> inside u lo hi (d f)"
      using less.hyps [of lo hi "Suc i" "filter (\<lambda>f. in_range u lo hi (d f)) (take (Suc i) fs)"] less.prems True that f
      by (auto split: if_splits)
    have restart: ?thesis
      if same: "overlapping u d level fs i lo hi inputs = overlapping u d level fs 0 lo1 hi1 []" and "level = 0"
        and fewer: "wideners u d fs lo1 hi1 < wideners u d fs lo hi" and reach: "range_reaches u d fs lo hi lo1 hi1"
        and new_ok: "\<forall>k. lo1 = Some k \<or> hi1 = Some k \<longrightarrow> ok k" for lo1 hi1
    proof -
      have "wideners u d fs lo1 hi1 * (length fs + 1) + (length fs + 1) \<le> wideners u d fs lo hi * (length fs + 1)"
        using mult_le_mono1 [of "Suc (wideners u d fs lo1 hi1)" "wideners u d fs lo hi" "length fs + 1"] fewer by simp
      then obtain lo' hi' where l: "overlapping u d level fs 0 lo1 hi1 [] = Some (filter (\<lambda>f. in_range u lo' hi' (d f)) fs)"
          "range_reaches u d fs lo1 hi1 lo' hi'" "\<forall>k. lo' = Some k \<or> hi' = Some k \<longrightarrow> ok k" "\<forall>f \<in> set fs. in_range u lo' hi' (d f) \<longrightarrow> inside u lo' hi' (d f)"
        using less.hyps [of lo1 hi1 0 "[]"] \<open>level = 0\<close> new_ok by auto
      show ?thesis
        by (rule exI [of _ lo'], rule exI [of _ hi']) (use l same \<open>level = 0\<close> range_reaches_trans [OF reach l(2)] in simp)
    qed
    let ?before = "case lo of None \<Rightarrow> False | Some b \<Rightarrow> Compare u (limit_key (d f)) b < 0"
    let ?after = "case hi of None \<Rightarrow> False | Some e \<Rightarrow> Compare u (start_key (d f)) e > 0"
    let ?left = "level = 0 \<and> (case lo of None \<Rightarrow> False | Some b \<Rightarrow> Compare u (start_key (d f)) b < 0)"
    let ?right = "level = 0 \<and> (case hi of None \<Rightarrow> False | Some e \<Rightarrow> Compare u (limit_key (d f)) e > 0)"
    note step = overlapping.simps [of u d level fs i lo hi inputs, folded f_def]
    consider (skip) "?before \<or> ?after" | (left) "\<not> ?before" "\<not> ?after" ?left | (right) "\<not> ?before" "\<not> ?after" "\<not> ?left" ?right
      | (take) "\<not> ?before" "\<not> ?after" "\<not> ?left" "\<not> ?right" by blast
    then show ?thesis
    proof cases
      case skip
      then have out: "\<not> in_range u lo hi (d f)" by (auto simp: in_range_def)
      have "overlapping u d level fs i lo hi inputs = overlapping u d level fs (Suc i) lo hi inputs"
        using step True skip by (auto simp: Let_def)
      then show ?thesis using go_on out less.prems(3) f(2) by simp
    next
      case left
      then obtain b where b: "lo = Some b" "Compare u (start_key (d f)) b < 0" by (auto split: option.splits)
      have "in_range u (Some b) hi (d f)" using left b by (simp add: in_range_def)
      note w = widen_begin [OF files f(1) this _ b(2)]
      have "overlapping u d level fs i lo hi inputs = overlapping u d level fs 0 (Some (start_key (d f))) hi []"
        using step True left b by (simp add: Let_def)
      then show ?thesis using restart w left b fok less.prems(2) by auto
    next
      case right
      then obtain e where e: "hi = Some e" "Compare u (limit_key (d f)) e > 0" by (auto split: option.splits)
      have "in_range u lo (Some e) (d f)" using right e by (simp add: in_range_def)
      note w = widen_end [OF files f(1) this _ e(2)]
      have "overlapping u d level fs i lo hi inputs = overlapping u d level fs 0 lo (Some (limit_key (d f))) []"
        using step True right e by (simp add: Let_def)
      then show ?thesis using restart w right e fok less.prems(2) by auto
    next
      case take
      then have "in_range u lo hi (d f)" by (simp add: in_range_def)
      moreover have "level = 0 \<Longrightarrow> inside u lo hi (d f)" using take by (auto simp: inside_def)
      moreover have "overlapping u d level fs i lo hi inputs = overlapping u d level fs (Suc i) lo hi (inputs @ [f])"
        using step True take by (simp add: Let_def)
      ultimately show ?thesis using go_on less.prems(3) f(2) by simp
    qed
  qed
qed

lemma GetOverlappingInputs_above:
  assumes files: "\<forall>f \<in> set (v_files v ! level). file_bounded u ok (d f)" and level: "0 < level" "level < kNumLevels"
    and ok: "\<forall>k. lo = Some k \<or> hi = Some k \<longrightarrow> internal_ok ok k"
  shows "GetOverlappingInputs u d v level lo hi =
    Ret (filter (\<lambda>f. in_range u (map_option ExtractUserKey lo) (map_option ExtractUserKey hi) (d f)) (v_files v ! level))"
proof -
  have "\<forall>k. map_option ExtractUserKey lo = Some k \<or> map_option ExtractUserKey hi = Some k \<longrightarrow> ok k"
    using ok by (auto simp: internal_ok_def)
  then show ?thesis
    using overlapping_returns [OF files, of 0 "map_option ExtractUserKey lo" "map_option ExtractUserKey hi" "[]" level] level
    by (auto simp: GetOverlappingInputs_def)
qed

lemma GetOverlappingInputs_zero:
  assumes files: "\<forall>f \<in> set (v_files v ! 0). file_bounded u ok (d f)"
    and ok: "\<forall>k. lo = Some k \<or> hi = Some k \<longrightarrow> internal_ok ok k"
  shows "\<exists>inputs. GetOverlappingInputs u d v 0 lo hi = Ret inputs \<and> inputs = filter (\<lambda>f. f \<in> set inputs) (v_files v ! 0) \<and>
    touch_closed u d (v_files v ! 0) (set inputs) \<and>
    (\<forall>f \<in> set (v_files v ! 0). in_range u (map_option ExtractUserKey lo) (map_option ExtractUserKey hi) (d f) \<longrightarrow> f \<in> set inputs) \<and>
    (\<forall>S. touch_closed u d (v_files v ! 0) S \<and>
       (\<forall>f \<in> set (v_files v ! 0). in_range u (map_option ExtractUserKey lo) (map_option ExtractUserKey hi) (d f) \<longrightarrow> f \<in> S) \<longrightarrow>
       set inputs \<subseteq> S)"
proof -
  let ?fs = "v_files v ! 0" and ?lo = "map_option ExtractUserKey lo" and ?hi = "map_option ExtractUserKey hi"
  have "\<forall>k. ?lo = Some k \<or> ?hi = Some k \<longrightarrow> ok k" using ok by (auto simp: internal_ok_def)
  then have "\<exists>lo' hi'. (\<forall>k. lo' = Some k \<or> hi' = Some k \<longrightarrow> ok k) \<and>
      overlapping u d 0 ?fs 0 ?lo ?hi [] = Some (filter (\<lambda>f. in_range u lo' hi' (d f)) ?fs) \<and>
      range_reaches u d ?fs ?lo ?hi lo' hi' \<and> (\<forall>f \<in> set ?fs. in_range u lo' hi' (d f) \<longrightarrow> inside u lo' hi' (d f))"
    using overlapping_returns [OF files, of 0 ?lo ?hi "[]" 0] by simp
  then obtain lo' hi' where l: "overlapping u d 0 ?fs 0 ?lo ?hi [] = Some (filter (\<lambda>f. in_range u lo' hi' (d f)) ?fs)"
      "range_reaches u d ?fs ?lo ?hi lo' hi'" and keys: "\<forall>k. lo' = Some k \<or> hi' = Some k \<longrightarrow> ok k" and within: "\<forall>f \<in> set ?fs. in_range u lo' hi' (d f) \<longrightarrow> inside u lo' hi' (d f)"
    by (elim exE conjE) (rule that)
  define inputs where "inputs = filter (\<lambda>f. in_range u lo' hi' (d f)) ?fs"
  have "in_range u lo' hi' (d f)"
    if g: "g \<in> set ?fs" "in_range u lo' hi' (d g)" and f: "f \<in> set ?fs" and t: "touches u (d f) (d g)" for f g
  proof -
    have fk: "ok (start_key (d x)) \<and> ok (limit_key (d x)) \<and> Compare u (start_key (d x)) (limit_key (d x)) \<le> 0" if "x \<in> set ?fs" for x
      using files that file_bounded_keys by blast
    have g_in: "inside u lo' hi' (d g)" using within g by blast
    have "\<not> Compare u (limit_key (d f)) b < 0" if b: "lo' = Some b" for b
    proof
      assume lt: "Compare u (limit_key (d f)) b < 0"
      have "ok b" using keys b by simp
      then have "Compare u (start_key (d g)) b < 0"
        using user.le_trans_lt [of "start_key (d g)" "limit_key (d f)" b] lt t fk [OF f] fk [OF g(1)] by (simp add: touches_def)
      then show False using g_in b by (simp add: inside_def)
    qed
    moreover have "\<not> Compare u (start_key (d f)) e > 0" if e: "hi' = Some e" for e
    proof
      assume lt: "Compare u (start_key (d f)) e > 0"
      have oke: "ok e" using keys e by simp
      then have "Compare u e (limit_key (d g)) < 0"
        using user.lt_trans_le [of e "start_key (d f)" "limit_key (d g)"] user.compare_pos [of "start_key (d f)" e] lt t fk [OF f] fk [OF g(1)]
        by (simp add: touches_def)
      then show False using g_in e oke user.compare_pos [of "limit_key (d g)" e] fk [OF g(1)] by (simp add: inside_def)
    qed
    ultimately show ?thesis by (auto simp: in_range_def split: option.splits)
  qed
  then have "touch_closed u d ?fs (set inputs)" by (auto simp: touch_closed_def inputs_def)
  moreover have "GetOverlappingInputs u d v 0 lo hi = Ret inputs" using l(1) by (simp add: GetOverlappingInputs_def inputs_def kNumLevels_def)
  moreover have "inputs = filter (\<lambda>f. f \<in> set inputs) ?fs" by (auto simp: inputs_def intro!: filter_cong)
  moreover have "\<forall>f \<in> set ?fs. in_range u ?lo ?hi (d f) \<longrightarrow> f \<in> set inputs"
    using conjunct1 [OF l(2) [unfolded range_reaches_def]] by (simp add: inputs_def)
  moreover have "\<forall>S. touch_closed u d ?fs S \<and> (\<forall>f \<in> set ?fs. in_range u ?lo ?hi (d f) \<longrightarrow> f \<in> S) \<longrightarrow> set inputs \<subseteq> S"
  proof (intro allI impI subsetI)
    fix S f
    assume S: "touch_closed u d ?fs S \<and> (\<forall>f \<in> set ?fs. in_range u ?lo ?hi (d f) \<longrightarrow> f \<in> S)" and f: "f \<in> set inputs"
    have "\<forall>f \<in> set ?fs. in_range u lo' hi' (d f) \<longrightarrow> f \<in> S"
      using conjunct2 [OF l(2) [unfolded range_reaches_def]] S by (elim allE impE)
    then show "f \<in> S" using f by (simp add: inputs_def)
  qed
  ultimately show ?thesis by (intro exI [of _ inputs] conjI) assumption+
qed

end

section \<open>Versions in order\<close>

definition version_ok :: "Comparator \<Rightarrow> (bytes \<Rightarrow> bool) \<Rightarrow> file_map \<Rightarrow> Version \<Rightarrow> bool" where
  "version_ok u key_ok d v \<longleftrightarrow>
     length (v_files v) = kNumLevels \<and> (\<forall>f \<in> set (v_files v ! 0). file_bounded u key_ok (d f)) \<and>
     (\<forall>level < kNumLevels. 0 < level \<longrightarrow> level_sorted u key_ok d (v_files v ! level))"

lemma version_ok_files: "version_ok u key_ok d v \<Longrightarrow> level < kNumLevels \<Longrightarrow> \<forall>f \<in> set (v_files v ! level). file_bounded u key_ok (d f)"
  by (cases "level = 0") (auto simp: version_ok_def level_sorted_def)

definition meets_range :: "Comparator \<Rightarrow> file_map \<Rightarrow> Version \<Rightarrow> nat \<Rightarrow> bytes option \<Rightarrow> bytes option \<Rightarrow> bool" where
  "meets_range u d v level lo hi \<longleftrightarrow> (\<exists>f \<in> set (v_files v ! level). \<not> AfterFile u lo (d f) \<and> \<not> BeforeFile u hi (d f))"

context user_comparator
begin

lemma OverlapInLevel_iff:
  assumes "version_ok u ok d v" and "level < kNumLevels" and "\<And>k. lo = Some k \<Longrightarrow> ok k" "\<And>k. hi = Some k \<Longrightarrow> ok k"
  shows "OverlapInLevel u d v level lo hi \<longleftrightarrow> meets_range u d v level lo hi"
  unfolding OverlapInLevel_def meets_range_def
  by (rule SomeFileOverlaps_iff) (use assms in \<open>auto simp: version_ok_def\<close>)

lemma pick_level_returns:
  assumes v: "version_ok u ok d v" and k: "ok lo" "ok hi"
  shows "level \<le> kMaxMemCompactLevel \<Longrightarrow> \<exists>L. pick_level u d v lo hi level = Ret L \<and> level \<le> L \<and> L \<le> kMaxMemCompactLevel \<and>
    (\<forall>l. level < l \<and> l \<le> L \<longrightarrow> \<not> meets_range u d v l (Some lo) (Some hi))"
proof (induction "kMaxMemCompactLevel - level" arbitrary: level rule: less_induct)
  case less
  show ?case
  proof (cases "level < kMaxMemCompactLevel \<and> \<not> meets_range u d v (level + 1) (Some lo) (Some hi)")
    case True
    then have level: "level + 2 < kNumLevels" by (simp add: kMaxMemCompactLevel_def kNumLevels_def)
    then have no: "\<not> OverlapInLevel u d v (level + 1) (Some lo) (Some hi)" using True OverlapInLevel_iff [OF v, of "level + 1" "Some lo" "Some hi"] k by simp
    define overlaps where "overlaps = filter (\<lambda>f. in_range u (Some lo) (Some hi) (d f)) (v_files v ! (level + 2))"
    have get: "GetOverlappingInputs u d v (level + 2) (Some (new_InternalKey lo kMaxSequenceNumber kValueTypeForSeek))
        (Some (new_InternalKey hi 0 0)) = Ret overlaps"
      by (subst GetOverlappingInputs_above [OF version_ok_files [OF v level] _ level]) (use k in \<open>auto simp: overlaps_def\<close>)
    have step: "pick_level u d v lo hi level =
        (if sint (TotalFileSize d overlaps) > kMaxGrandParentOverlapBytes then Ret level else pick_level u d v lo hi (level + 1))"
      using True no level get by (subst pick_level.simps) simp
    obtain L where L: "pick_level u d v lo hi (level + 1) = Ret L" "level + 1 \<le> L" "L \<le> kMaxMemCompactLevel"
        "\<forall>l. level + 1 < l \<and> l \<le> L \<longrightarrow> \<not> meets_range u d v l (Some lo) (Some hi)"
      using less.hyps [of "level + 1"] diff_less_mono2 [of level "level + 1" kMaxMemCompactLevel] True by auto
    have "\<not> meets_range u d v l (Some lo) (Some hi)" if "level < l" "l \<le> L" for l
      using L(4) True that by (cases "l = level + 1") auto
    then show ?thesis using step L True by auto
  next
    case False
    have "OverlapInLevel u d v (level + 1) (Some lo) (Some hi)" if "level < kMaxMemCompactLevel"
      using OverlapInLevel_iff [OF v, of "level + 1" "Some lo" "Some hi"] k False that by (simp add: kMaxMemCompactLevel_def kNumLevels_def)
    then have "pick_level u d v lo hi level = Ret level" by (subst pick_level.simps) simp
    then show ?thesis using less.prems by auto
  qed
qed

end

section \<open>Properties\<close>

text \<open>
  C17. The overlap test of a level, which searches a sorted level by its largest internal keys and
  the others file by file, holds exactly when some file of the level meets the range of user keys;
  either bound may be missing.
\<close>
theorem overlap_test_exact:
  assumes "user_comparator u key_ok" and "version_ok u key_ok d v" and "level < kNumLevels"
    and "\<And>k. lo = Some k \<Longrightarrow> key_ok k" and "\<And>k. hi = Some k \<Longrightarrow> key_ok k"
  shows "OverlapInLevel u d v level lo hi \<longleftrightarrow>
    (\<exists>f \<in> set (v_files v ! level). \<not> AfterFile u lo (d f) \<and> \<not> BeforeFile u hi (d f))"
  using user_comparator.OverlapInLevel_iff [OF assms] by (simp add: meets_range_def)

text \<open>
  C11. The files that a range of keys takes in. Above level zero they are the files that meet the
  range. At level zero the search starts again whenever a file widens the range; it ends, and it
  finds the files of the least set that holds the files that meet the range and every file that
  touches one of its files, in the order of the level.
\<close>
theorem overlapping_inputs_exact:
  assumes "user_comparator u key_ok" and "version_ok u key_ok d v" and "level < kNumLevels"
    and "\<forall>k. lo = Some k \<or> hi = Some k \<longrightarrow> internal_ok key_ok k"
  shows "\<exists>inputs. GetOverlappingInputs u d v level lo hi = Ret inputs \<and>
    inputs = filter (\<lambda>f. f \<in> set inputs) (v_files v ! level) \<and>
    (if level = 0 then
       set inputs = \<Inter> {S. (\<forall>f \<in> set (v_files v ! 0). in_range u (map_option ExtractUserKey lo) (map_option ExtractUserKey hi) (d f) \<longrightarrow> f \<in> S) \<and>
         (\<forall>g \<in> S \<inter> set (v_files v ! 0). \<forall>f \<in> set (v_files v ! 0). touches u (d f) (d g) \<longrightarrow> f \<in> S)}
     else set inputs = {f \<in> set (v_files v ! level). in_range u (map_option ExtractUserKey lo) (map_option ExtractUserKey hi) (d f)})"
proof (cases "level = 0")
  case True
  have zero: "0 < kNumLevels" by (simp add: kNumLevels_def)
  obtain inputs where i: "GetOverlappingInputs u d v 0 lo hi = Ret inputs" "inputs = filter (\<lambda>f. f \<in> set inputs) (v_files v ! 0)"
      "touch_closed u d (v_files v ! 0) (set inputs)"
      "\<forall>f \<in> set (v_files v ! 0). in_range u (map_option ExtractUserKey lo) (map_option ExtractUserKey hi) (d f) \<longrightarrow> f \<in> set inputs"
      "\<forall>S. touch_closed u d (v_files v ! 0) S \<and>
       (\<forall>f \<in> set (v_files v ! 0). in_range u (map_option ExtractUserKey lo) (map_option ExtractUserKey hi) (d f) \<longrightarrow> f \<in> S) \<longrightarrow>
       set inputs \<subseteq> S"
    using user_comparator.GetOverlappingInputs_zero [OF assms(1) version_ok_files [OF assms(2) zero] assms(4)]
    by (elim exE conjE) (rule that)
  show ?thesis
    using i by (intro exI [of _ inputs]) (simp add: True touch_closed_def [symmetric], blast)
next
  case False
  then show ?thesis
    using user_comparator.GetOverlappingInputs_above [OF assms(1) version_ok_files [OF assms(2,3)] _ assms(3,4)]
    by (auto intro!: filter_cong)
qed


section \<open>Examples\<close>

definition example_file :: "string \<Rightarrow> string \<Rightarrow> 64 word \<Rightarrow> FileMetaData" where
  "example_file lo hi num =
     new_FileMetaData\<lparr>smallest := new_InternalKey (ascii lo) 5 1, largest := new_InternalKey (ascii hi) 3 1, fm_number := num, fm_file_size := 1000\<rparr>"

text \<open>Three overlapping files at level zero, one apart, and two files at level one.\<close>

definition example_files :: file_map where
  "example_files f =
     (if f = 0 then example_file ''a'' ''d'' 10 else if f = 1 then example_file ''c'' ''g'' 11 else if f = 2 then example_file ''f'' ''k'' 12
      else if f = 3 then example_file ''m'' ''p'' 13 else if f = 4 then example_file ''b'' ''e'' 14 else example_file ''h'' ''q'' 15)"

definition example_version :: Version where
  "example_version = new_Version\<lparr>v_files := [[3, 1, 0, 2], [4, 5], [], [], [], [], []]\<rparr>"

lemma proper_new_key: "valid_seq s \<Longrightarrow> t \<le> kTypeValue \<Longrightarrow> key_ok k \<Longrightarrow> proper_key key_ok (new_InternalKey k s t)"
  using internal_key_roundtrip [of s t k "[]"] by (simp add: proper_key_def new_InternalKey_def [symmetric])

lemma compare_new_keys:
  "Compare u a b < 0 \<Longrightarrow> internal_compare u (new_InternalKey a s t) (new_InternalKey b s' t') < 0"
  by (simp add: new_InternalKey_suffixed internal_compare_suffixed)

lemma example_file_bounded:
  "slice_compare (ascii lo) (ascii hi) < 0 \<Longrightarrow> file_bounded BytewiseComparator (\<lambda>_. True) (example_file lo hi num)"
  by (simp add: file_bounded_def example_file_def proper_new_key valid_seq_unat kTypeValue_def)
    (rule less_imp_le, rule compare_new_keys, simp)

lemma example_version_ok: "version_ok BytewiseComparator (\<lambda>_. True) example_files example_version"
proof -
  have files: "file_bounded BytewiseComparator (\<lambda>_. True) (example_files f)" for f
    unfolding example_files_def by (simp add: example_file_bounded ascii_def)
  moreover have "internal_compare BytewiseComparator (largest (example_files 4)) (smallest (example_files 5)) < 0"
    unfolding example_files_def example_file_def by (simp add: compare_new_keys ascii_def)
  moreover have "v_files example_version ! level \<in> {[4, 5], []}" if "level < kNumLevels" "0 < level" for level
    using that by (auto simp: example_version_def kNumLevels_def less_Suc_eq numeral_eq_Suc)
  ultimately have "level_sorted BytewiseComparator (\<lambda>_. True) example_files (v_files example_version ! level)"
    if "level < kNumLevels" "0 < level" for level
    using that by (fastforce simp: level_sorted_def)
  then show ?thesis using files by (simp add: version_ok_def) (simp add: example_version_def kNumLevels_def)
qed

theorem overlap_test_exact_witness:
  "(\<exists>f \<in> set (v_files example_version ! 1). \<not> AfterFile BytewiseComparator (Some (ascii ''g'')) (example_files f) \<and>
      \<not> BeforeFile BytewiseComparator None (example_files f)) \<and>
   \<not> (\<exists>f \<in> set (v_files example_version ! 1). \<not> AfterFile BytewiseComparator (Some (ascii ''f'')) (example_files f) \<and>
      \<not> BeforeFile BytewiseComparator (Some (ascii ''g'')) (example_files f))"
proof -
  have "1 < kNumLevels" by (simp add: kNumLevels_def)
  note exact = overlap_test_exact [OF bytewise_keys.user_comparator_axioms example_version_ok this]
  have "OverlapInLevel BytewiseComparator example_files example_version 1 (Some (ascii ''g'')) None"
    and "\<not> OverlapInLevel BytewiseComparator example_files example_version 1 (Some (ascii ''f'')) (Some (ascii ''g''))"
    by code_simp+
  then show ?thesis by (simp only: exact) simp
qed

theorem overlapping_inputs_exact_witness:
  "\<Inter> {S. (\<forall>f \<in> {3, 1, 0, 2}. in_range BytewiseComparator (Some (ascii ''e'')) (Some (ascii ''e'')) (example_files f) \<longrightarrow> f \<in> S) \<and>
      (\<forall>g \<in> S \<inter> {3, 1, 0, 2}. \<forall>f \<in> {3, 1, 0, 2}. touches BytewiseComparator (example_files f) (example_files g) \<longrightarrow> f \<in> S)} = {0, 1, 2}"
proof -
  let ?k = "Some (new_InternalKey (ascii ''e'') 9 1)"
  have level: "0 < kNumLevels" and keys: "\<forall>k. ?k = Some k \<or> ?k = Some k \<longrightarrow> internal_ok (\<lambda>_. True) k"
    by (simp_all add: kNumLevels_def)
  have "GetOverlappingInputs BytewiseComparator example_files example_version 0 ?k ?k = Ret [1, 0, 2]" by code_simp
  moreover have "set (v_files example_version ! 0) = {3, 1, 0, 2}" by (simp add: example_version_def)
  ultimately show ?thesis
    using overlapping_inputs_exact [OF bytewise_keys.user_comparator_axioms example_version_ok level keys] by auto
qed


end
