(* ===== verification/LdbVersionGet.thy ===== *)
theory LdbVersionGet
  imports LdbVersion LdbTableCache
begin

text \<open>
  LevelDB, \<^verbatim>\<open>Version::Get\<close> of \<^verbatim>\<open>db/version_set.cc\<close>: looking up a key in the files of
  a version, level by level. What the lookup needs of the tables is a locale, which the cache of
  tables meets; from it and from the order of the levels follows that the lookup finds the newest
  entry that the snapshot sees.
\<close>

section \<open>Looking up a key\<close>

datatype SaverState = SaverNotFound | kFound | kDeleted | kCorrupt

record Saver =
  sv_state :: SaverState
  sv_user_key :: bytes
  sv_value :: bytes

definition SaveValue :: "Comparator \<Rightarrow> bytes \<Rightarrow> bytes \<Rightarrow> Saver \<Rightarrow> Saver" where
  "SaveValue u ikey v s =
     (case ParseInternalKey ikey of
        None \<Rightarrow> s\<lparr>sv_state := kCorrupt\<rparr>
      | Some parsed_key \<Rightarrow>
          if Compare u (user_key parsed_key) (sv_user_key s) = 0 then
            if type parsed_key = kTypeValue then s\<lparr>sv_state := kFound, sv_value := v\<rparr> else s\<lparr>sv_state := kDeleted\<rparr>
          else s)"

text \<open>\<open>tget\<close> is \<open>TableCache::Get\<close>: a status, what the saver is called with, and the cache.\<close>

type_synonym 't table_get = "64 word \<Rightarrow> 64 word \<Rightarrow> bytes \<Rightarrow> 't \<Rightarrow> (Status \<times> (bytes \<times> bytes) option \<times> 't) run"

record get_state =
  gs_stats :: GetStats
  last_file_read :: "fptr option"
  last_file_read_level :: int
  gs_value :: bytes

definition charge_seek :: "nat \<Rightarrow> fptr \<Rightarrow> get_state \<Rightarrow> get_state" where
  "charge_seek level f st =
     (let st = (if last_file_read st \<noteq> None \<and> seek_file (gs_stats st) = None
                then st\<lparr>gs_stats := \<lparr>seek_file = last_file_read st, seek_file_level = last_file_read_level st\<rparr>\<rparr> else st) in
      st\<lparr>last_file_read := Some f, last_file_read_level := int level\<rparr>)"

text \<open>The files of one level: the status to return with, if one of them decides.\<close>

primrec read_files ::
  "Comparator \<Rightarrow> file_map \<Rightarrow> 't table_get \<Rightarrow> bytes \<Rightarrow> bytes \<Rightarrow> nat \<Rightarrow> fptr list \<Rightarrow> get_state \<Rightarrow> 't \<Rightarrow>
    (Status option \<times> get_state \<times> 't) run" where
  "read_files u d tget ukey ikey level [] st t = Ret (None, st, t)"
| "read_files u d tget ukey ikey level (f # fs) st t =
     (let st = charge_seek level f st in
      run_bind (tget (fm_number (d f)) (fm_file_size (d f)) ikey t) (\<lambda>(s, saved, t).
        let saver = \<lparr>sv_state = SaverNotFound, sv_user_key = ukey, sv_value = gs_value st\<rparr>;
            saver = (case saved of None \<Rightarrow> saver | Some (k, v) \<Rightarrow> SaveValue u k v saver);
            st = st\<lparr>gs_value := sv_value saver\<rparr> in
        if \<not> ok s then Ret (Some s, st, t)
        else
          case sv_state saver of
            SaverNotFound \<Rightarrow> read_files u d tget ukey ikey level fs st t
          | kFound \<Rightarrow> Ret (Some s, st, t)
          | kDeleted \<Rightarrow> Ret (Some (NotFound [] []), st, t)
          | kCorrupt \<Rightarrow> Ret (Some (Corruption (ascii ''corrupted key for '') ukey), st, t)))"

definition files_to_search :: "Comparator \<Rightarrow> file_map \<Rightarrow> Version \<Rightarrow> bytes \<Rightarrow> bytes \<Rightarrow> nat \<Rightarrow> fptr list" where
  "files_to_search u d v ukey ikey level =
     (if level = 0 then level0_files u d (v_files v ! 0) ukey
      else case level_file u d (v_files v ! level) ukey ikey of None \<Rightarrow> [] | Some f \<Rightarrow> [f])"

primrec search_levels ::
  "Comparator \<Rightarrow> file_map \<Rightarrow> 't table_get \<Rightarrow> Version \<Rightarrow> bytes \<Rightarrow> bytes \<Rightarrow> nat list \<Rightarrow> get_state \<Rightarrow> 't \<Rightarrow>
    (Status \<times> get_state \<times> 't) run" where
  "search_levels u d tget v ukey ikey [] st t = Ret (NotFound [] [], st, t)"
| "search_levels u d tget v ukey ikey (level # levels) st t =
     run_bind (read_files u d tget ukey ikey level (files_to_search u d v ukey ikey level) st t) (\<lambda>(r, st, t).
       case r of
         Some s \<Rightarrow> Ret (s, st, t)
       | None \<Rightarrow> search_levels u d tget v ukey ikey levels st t)"

definition Version_Get ::
  "Comparator \<Rightarrow> file_map \<Rightarrow> 't table_get \<Rightarrow> Version \<Rightarrow> LookupKey \<Rightarrow> bytes \<Rightarrow> 't \<Rightarrow> (Status \<times> bytes \<times> GetStats \<times> 't) run" where
  "Version_Get u d tget v k val t =
     run_bind
       (search_levels u d tget v (lookup_user_key k) (internal_key k) [0..<kNumLevels]
          \<lparr>gs_stats = \<lparr>seek_file = None, seek_file_level = - 1\<rparr>, last_file_read = None, last_file_read_level = - 1, gs_value = val\<rparr> t)
       (\<lambda>(s, st, t). Ret (s, gs_value st, gs_stats st, t))"

section \<open>What is needed of the tables\<close>

text \<open>
  \<open>cont f\<close> are the entries of a file. A lookup calls back with the first entry at or behind the key
  or not at all; it does call back when that entry has the user key of the key.
\<close>

locale table_reads = user_comparator u key_ok
  for u :: Comparator and key_ok :: "bytes \<Rightarrow> bool" +
  fixes tget :: "'t table_get" and made :: "'t \<Rightarrow> bool" and d :: file_map and readable_files :: "fptr set"
    and cont :: "fptr \<Rightarrow> (bytes \<times> bytes) list"
  assumes get: "f \<in> readable_files \<Longrightarrow> made t \<Longrightarrow> internal_ok key_ok k \<Longrightarrow>
    \<exists>r t'. tget (fm_number (d f)) (fm_file_size (d f)) k t = Ret (OK, r, t') \<and> made t' \<and>
      (\<forall>x. r = Some x \<longrightarrow> (\<exists>rest. dropWhile (\<lambda>(k', _). internal_compare u k' k < 0) (cont f) = x # rest)) \<and>
      (\<forall>x rest. dropWhile (\<lambda>(k', _). internal_compare u k' k < 0) (cont f) = x # rest \<and>
         Compare u (ExtractUserKey (fst x)) (ExtractUserKey k) = 0 \<longrightarrow> r = Some x)"
    and sorted: "f \<in> readable_files \<Longrightarrow> sorted_entries (internal_compare u) (internal_ok key_ok) (cont f)"
    and parses: "f \<in> readable_files \<Longrightarrow> x \<in> set (cont f) \<Longrightarrow> ParseInternalKey (fst x) \<noteq> None"
    and bounds: "f \<in> readable_files \<Longrightarrow> cont f \<noteq> [] \<and> smallest (d f) = fst (hd (cont f)) \<and> largest (d f) = fst (last (cont f))"

text \<open>The entry of a file that a lookup of \<open>ikey\<close> finds, and the entries that it may find.\<close>

definition first_seen :: "Comparator \<Rightarrow> (fptr \<Rightarrow> (bytes \<times> bytes) list) \<Rightarrow> bytes \<Rightarrow> fptr \<Rightarrow> (bytes \<times> bytes) option" where
  "first_seen u cont ikey f =
     (case dropWhile (\<lambda>(k', _). internal_compare u k' ikey < 0) (cont f) of
        [] \<Rightarrow> None
      | x # _ \<Rightarrow> if Compare u (ExtractUserKey (fst x)) (ExtractUserKey ikey) = 0 then Some x else None)"

definition seen_at :: "Comparator \<Rightarrow> bytes \<Rightarrow> bytes \<times> bytes \<Rightarrow> bool" where
  "seen_at u ikey x \<longleftrightarrow> Compare u (ExtractUserKey (fst x)) (ExtractUserKey ikey) = 0 \<and> \<not> internal_compare u (fst x) ikey < 0"

definition is_value :: "bytes \<times> bytes \<Rightarrow> bool" where
  "is_value x \<longleftrightarrow> ExtractValueType (fst x) = kTypeValue"

definition answer_status :: "bytes \<times> bytes \<Rightarrow> Status" where
  "answer_status x = (if is_value x then OK else NotFound [] [])"

lemma parsed_fields: "ParseInternalKey k = Some p \<Longrightarrow> user_key p = ExtractUserKey k \<and> type p = ExtractValueType k"
  by (auto simp: ParseInternalKey_def Let_def ExtractValueType_def split: if_splits)

context table_reads
begin

lemma entry_ok: "f \<in> readable_files \<Longrightarrow> x \<in> set (cont f) \<Longrightarrow> internal_ok key_ok (fst x) \<and> key_ok (ExtractUserKey (fst x))"
  using sorted by (auto simp: sorted_entries_def internal_ok_def)

text \<open>A file with an entry that the lookup may find gives the first of them.\<close>

lemma first_seen_least:
  assumes f: "f \<in> readable_files" and k: "internal_ok key_ok ikey" and y: "y \<in> set (cont f)" "seen_at u ikey y"
  shows "\<exists>x. first_seen u cont ikey f = Some x \<and> x \<in> set (cont f) \<and> seen_at u ikey x \<and> internal_compare u (fst x) (fst y) \<le> 0"
proof -
  let ?P = "\<lambda>(k', _). internal_compare u k' ikey < 0"
  have "y \<notin> set (takeWhile ?P (cont f))" using y(2) by (auto dest: set_takeWhileD simp: seen_at_def)
  moreover have "set (cont f) = set (takeWhile ?P (cont f)) \<union> set (dropWhile ?P (cont f))"
    by (metis set_append takeWhile_dropWhile_id)
  ultimately have "y \<in> set (dropWhile ?P (cont f))" using y(1) by blast
  then obtain x rest where x: "dropWhile ?P (cont f) = x # rest" "y \<in> set (x # rest)" by (cases "dropWhile ?P (cont f)") auto
  have x_in: "x \<in> set (cont f)" using x(1) by (metis list.set_intros(1) set_dropWhileD)
  have "\<not> ?P x" using hd_dropWhile [of ?P "cont f"] unfolding x(1) by (simp only: list.sel list.distinct not_False_eq_True simp_thms)
  then have ge: "\<not> internal_compare u (fst x) ikey < 0" by (simp add: case_prod_beta)
  have "sorted_wrt (\<lambda>x y. internal_compare u (fst x) (fst y) < 0) (takeWhile ?P (cont f) @ (x # rest))"
    using sorted [OF f] takeWhile_dropWhile_id [of ?P "cont f"] unfolding x(1) by (simp only: sorted_entries_def)
  then have le: "internal_compare u (fst x) (fst y) \<le> 0"
    using x(2) internal.compare_refl [of "fst x"] entry_ok [OF f x_in] by (cases "y = x") (auto simp: sorted_wrt_append)
  note ok = entry_ok [OF f x_in] entry_ok [OF f y(1)] and kk = k [unfolded internal_ok_def]
  have "Compare u (ExtractUserKey (fst x)) (ExtractUserKey ikey) \<le> 0"
    using internal_compare_user [OF le] user.compare_trans [of "ExtractUserKey (fst x)" "ExtractUserKey (fst y)" "ExtractUserKey ikey"] y(2) ok kk
    by (simp add: seen_at_def)
  moreover have "Compare u (ExtractUserKey ikey) (ExtractUserKey (fst x)) \<le> 0"
    using internal_compare_user [of u ikey "fst x"] internal.compare_swap [of "fst x" ikey] ge ok k by simp
  ultimately have "Compare u (ExtractUserKey (fst x)) (ExtractUserKey ikey) = 0"
    using user.compare_swap [of "ExtractUserKey (fst x)" "ExtractUserKey ikey"] ok kk by simp
  then show ?thesis using x(1) x_in ge le by (auto simp: first_seen_def seen_at_def)
qed

lemma first_seenD:
  assumes f: "f \<in> readable_files" and x: "first_seen u cont ikey f = Some x"
  shows "x \<in> set (cont f) \<and> seen_at u ikey x"
proof -
  let ?P = "\<lambda>(k', _). internal_compare u k' ikey < 0"
  obtain rest where r: "dropWhile ?P (cont f) = x # rest" and eq: "Compare u (ExtractUserKey (fst x)) (ExtractUserKey ikey) = 0"
    using x by (auto simp: first_seen_def split: list.splits if_splits)
  have "x \<in> set (cont f)" using r by (metis list.set_intros(1) set_dropWhileD)
  moreover have "\<not> ?P x" using hd_dropWhile [of ?P "cont f"] unfolding r by (simp only: list.sel list.distinct not_False_eq_True simp_thms)
  then have "\<not> internal_compare u (fst x) ikey < 0" by (simp add: case_prod_beta)
  ultimately show ?thesis using eq by (simp add: seen_at_def)
qed

text \<open>Reading files in a row stops at the first that has an entry for the lookup.\<close>

lemma first_seen_found:
  assumes f: "f \<in> readable_files" and t: "made t" and k: "internal_ok key_ok ikey"
  shows "\<exists>r t'. tget (fm_number (d f)) (fm_file_size (d f)) ikey t = Ret (OK, r, t') \<and> made t' \<and>
    (case first_seen u cont ikey f of
       Some x \<Rightarrow> r = Some x
     | None \<Rightarrow> \<forall>x. r = Some x \<longrightarrow> Compare u (ExtractUserKey (fst x)) (ExtractUserKey ikey) \<noteq> 0 \<and> x \<in> set (cont f))"
proof -
  let ?drop = "dropWhile (\<lambda>(k', _). internal_compare u k' ikey < 0) (cont f)"
  obtain r t' where g: "tget (fm_number (d f)) (fm_file_size (d f)) ikey t = Ret (OK, r, t')" "made t'"
      and r: "\<forall>x. r = Some x \<longrightarrow> (\<exists>rest. ?drop = x # rest)"
        "\<forall>x rest. ?drop = x # rest \<and> Compare u (ExtractUserKey (fst x)) (ExtractUserKey ikey) = 0 \<longrightarrow> r = Some x"
    using get [OF f t k] by blast
  show ?thesis
  proof (cases ?drop)
    case Nil
    then have "r = None" using r(1) unfolding Nil by (cases r) simp_all
    then show ?thesis using g unfolding first_seen_def Nil by simp
  next
    case (Cons x rest)
    then have "x \<in> set (cont f)" by (metis list.set_intros(1) set_dropWhileD)
    moreover have "r = None \<or> r = Some x" using r(1) unfolding Cons by (cases r) simp_all
    moreover have "Compare u (ExtractUserKey (fst x)) (ExtractUserKey ikey) = 0 \<Longrightarrow> r = Some x" using r(2) unfolding Cons by blast
    ultimately show ?thesis using g unfolding first_seen_def Cons by auto
  qed
qed

lemma read_files_result:
  assumes k: "internal_ok key_ok ikey"
  shows "made t \<Longrightarrow> set fs \<subseteq> readable_files \<Longrightarrow>
    \<exists>st' t'. made t' \<and> (case find (\<lambda>f. first_seen u cont ikey f \<noteq> None) fs of
       None \<Rightarrow> read_files u d tget (ExtractUserKey ikey) ikey level fs st t = Ret (None, st', t')
     | Some f \<Rightarrow> \<exists>x. first_seen u cont ikey f = Some x \<and> (is_value x \<longrightarrow> gs_value st' = snd x) \<and>
         read_files u d tget (ExtractUserKey ikey) ikey level fs st t = Ret (Some (answer_status x), st', t'))"
proof (induction fs arbitrary: st t)
  case Nil
  then show ?case by auto
next
  case (Cons f fs)
  then have f: "f \<in> readable_files" and fs: "set fs \<subseteq> readable_files" by simp_all
  obtain r t1 where g: "tget (fm_number (d f)) (fm_file_size (d f)) ikey t = Ret (OK, r, t1)" "made t1"
      and r: "case first_seen u cont ikey f of Some x \<Rightarrow> r = Some x
       | None \<Rightarrow> \<forall>x. r = Some x \<longrightarrow> Compare u (ExtractUserKey (fst x)) (ExtractUserKey ikey) \<noteq> 0 \<and> x \<in> set (cont f)"
    using first_seen_found [OF f Cons.prems(1) k] by blast
  let ?st = "charge_seek level f st"
  let ?saver = "\<lparr>sv_state = SaverNotFound, sv_user_key = ExtractUserKey ikey, sv_value = gs_value ?st\<rparr>"
  show ?case
  proof (cases "first_seen u cont ikey f")
    case None
    have keep: "(case r of None \<Rightarrow> ?saver | Some (k, v) \<Rightarrow> SaveValue u k v ?saver) = ?saver"
    proof (cases r)
      case (Some x)
      then have x: "Compare u (ExtractUserKey (fst x)) (ExtractUserKey ikey) \<noteq> 0" "ParseInternalKey (fst x) \<noteq> None"
        using r None parses [OF f] by auto
      then obtain p where "ParseInternalKey (fst x) = Some p" "user_key p = ExtractUserKey (fst x)" using parsed_fields by blast
      then show ?thesis using Some x(1) by (cases x) (simp add: SaveValue_def)
    qed simp
    have "read_files u d tget (ExtractUserKey ikey) ikey level (f # fs) st t =
        read_files u d tget (ExtractUserKey ikey) ikey level fs (?st\<lparr>gs_value := gs_value ?st\<rparr>) t1"
      unfolding read_files.simps Let_def g(1) run_bind_simps prod.case keep by (simp add: ok_def OK_def)
    moreover have "find (\<lambda>f. first_seen u cont ikey f \<noteq> None) (f # fs) = find (\<lambda>f. first_seen u cont ikey f \<noteq> None) fs"
      using None by simp
    ultimately show ?thesis using Cons.IH [OF g(2) fs, of "?st\<lparr>gs_value := gs_value ?st\<rparr>"] by (simp only:)
  next
    case (Some x)
    then have rx: "r = Some x" using r by simp
    note seen = first_seenD [OF f Some]
    obtain p where parsed: "ParseInternalKey (fst x) = Some p" "user_key p = ExtractUserKey (fst x)" "type p = ExtractValueType (fst x)"
      using parses [OF f, of x] seen parsed_fields by blast
    have "Compare u (ExtractUserKey (fst x)) (ExtractUserKey ikey) = 0" using seen by (simp add: seen_at_def)
    then have "(case r of None \<Rightarrow> ?saver | Some (k, v) \<Rightarrow> SaveValue u k v ?saver) =
        (if is_value x then ?saver\<lparr>sv_state := kFound, sv_value := snd x\<rparr> else ?saver\<lparr>sv_state := kDeleted\<rparr>)"
      using parsed seen by (cases x) (simp add: rx SaveValue_def is_value_def)
    then show ?thesis
      using Some g by (auto simp: Let_def answer_status_def ok_def OK_def)
  qed
qed

lemma search_levels_result:
  assumes k: "internal_ok key_ok ikey"
  shows "made t \<Longrightarrow> \<forall>level \<in> set levels. set (files_to_search u d v (ExtractUserKey ikey) ikey level) \<subseteq> readable_files \<Longrightarrow>
    \<exists>st' t'. made t' \<and> (case find (\<lambda>f. first_seen u cont ikey f \<noteq> None) (concat (map (files_to_search u d v (ExtractUserKey ikey) ikey) levels)) of
       None \<Rightarrow> search_levels u d tget v (ExtractUserKey ikey) ikey levels st t = Ret (NotFound [] [], st', t')
     | Some f \<Rightarrow> \<exists>x. first_seen u cont ikey f = Some x \<and> (is_value x \<longrightarrow> gs_value st' = snd x) \<and>
         search_levels u d tget v (ExtractUserKey ikey) ikey levels st t = Ret (answer_status x, st', t'))"
proof (induction levels arbitrary: st t)
  case Nil
  then show ?case by auto
next
  case (Cons level levels)
  let ?hit = "\<lambda>f. first_seen u cont ikey f \<noteq> None" and ?fs = "files_to_search u d v (ExtractUserKey ikey) ikey level"
  have find_app: "find ?hit (xs @ ys) = (case find ?hit xs of None \<Rightarrow> find ?hit ys | Some f \<Rightarrow> Some f)" for xs ys
    by (induction xs) auto
  obtain st1 t1 where t1: "made t1" and r: "case find ?hit ?fs of
       None \<Rightarrow> read_files u d tget (ExtractUserKey ikey) ikey level ?fs st t = Ret (None, st1, t1)
     | Some f \<Rightarrow> \<exists>x. first_seen u cont ikey f = Some x \<and> (is_value x \<longrightarrow> gs_value st1 = snd x) \<and>
         read_files u d tget (ExtractUserKey ikey) ikey level ?fs st t = Ret (Some (answer_status x), st1, t1)"
    using read_files_result [OF k Cons.prems(1), of ?fs level st] Cons.prems(2) by auto
  show ?case
  proof (cases "find ?hit ?fs")
    case None
    then have "search_levels u d tget v (ExtractUserKey ikey) ikey (level # levels) st t =
        search_levels u d tget v (ExtractUserKey ikey) ikey levels st1 t1" using r by simp
    moreover have "find ?hit (concat (map (files_to_search u d v (ExtractUserKey ikey) ikey) (level # levels))) =
        find ?hit (concat (map (files_to_search u d v (ExtractUserKey ikey) ikey) levels))"
      using find_app None by simp
    moreover have "\<forall>level \<in> set levels. set (files_to_search u d v (ExtractUserKey ikey) ikey level) \<subseteq> readable_files"
      using Cons.prems(2) by simp
    ultimately show ?thesis using Cons.IH [OF t1, of st1] by (simp only:)
  next
    case (Some f)
    then show ?thesis using r t1 find_app by (auto intro!: exI [of _ st1] exI [of _ t1])
  qed
qed

end

section \<open>The newest entry\<close>

text \<open>
  The files of a version hold what the locale says, and an entry in a file that is searched earlier,
  in a lower level or a newer file of level zero, is before the entries of its user key in the
  later files.
\<close>

definition searched_before :: "file_map \<Rightarrow> Version \<Rightarrow> fptr \<Rightarrow> fptr \<Rightarrow> bool" where
  "searched_before d v f g \<longleftrightarrow>
     (\<exists>l m. l < m \<and> m < kNumLevels \<and> f \<in> set (v_files v ! l) \<and> g \<in> set (v_files v ! m)) \<or>
     f \<in> set (v_files v ! 0) \<and> g \<in> set (v_files v ! 0) \<and> fm_number (d g) < fm_number (d f)"

definition newer_first :: "Comparator \<Rightarrow> file_map \<Rightarrow> (fptr \<Rightarrow> (bytes \<times> bytes) list) \<Rightarrow> Version \<Rightarrow> bool" where
  "newer_first u d cont v \<longleftrightarrow>
     (\<forall>f g. searched_before d v f g \<longrightarrow> (\<forall>x \<in> set (cont f). \<forall>y \<in> set (cont g).
        Compare u (ExtractUserKey (fst x)) (ExtractUserKey (fst y)) = 0 \<longrightarrow> internal_compare u (fst x) (fst y) < 0)) \<and>
     inj_on (\<lambda>f. fm_number (d f)) (set (v_files v ! 0))"

definition version_entries :: "(fptr \<Rightarrow> (bytes \<times> bytes) list) \<Rightarrow> Version \<Rightarrow> (bytes \<times> bytes) set" where
  "version_entries cont v = (\<Union>fs \<in> set (v_files v). \<Union>f \<in> set fs. set (cont f))"

lemma level0_files_set: "set (level0_files u d fs ukey) =
    {f \<in> set fs. 0 \<le> Compare u ukey (start_key (d f)) \<and> Compare u ukey (limit_key (d f)) \<le> 0}"
  by (auto simp: level0_files_def)

lemma level0_files_sorted: "sorted_wrt (\<lambda>f g. fm_number (d g) \<le> fm_number (d f)) (level0_files u d fs ukey)"
proof -
  let ?fs = "filter (\<lambda>f. 0 \<le> Compare u ukey (start_key (d f)) \<and> Compare u ukey (limit_key (d f)) \<le> 0) fs"
  have "sorted (map (\<lambda>f. fm_number (d f)) (sort_key (\<lambda>f. fm_number (d f)) ?fs))" by (rule sorted_sort_key)
  then show ?thesis by (simp add: level0_files_def sorted_wrt_rev sorted_wrt_map)
qed

context user_comparator
begin

lemma same_users:
  assumes "ok a" "ok b" "ok c" and "Compare u a c = 0" "Compare u b c = 0"
  shows "Compare u a b = 0"
proof -
  have "Compare u c a = 0" "Compare u c b = 0" using user.compare_zero assms by blast+
  then show ?thesis using user.compare_trans [of a c b] user.compare_trans [of b c a] user.compare_swap [of a b] assms by simp
qed

end

text \<open>Where a search through rows of files stops.\<close>

lemma find_in_rows:
  assumes "find P (concat (map rows [0..<n])) = Some f"
  shows "\<exists>m < n. \<exists>as bs. rows m = as @ f # bs \<and> (\<forall>g \<in> set as. \<not> P g) \<and> (\<forall>l < m. \<forall>g \<in> set (rows l). \<not> P g)"
  using assms
proof (induction n)
  case (Suc n)
  have app: "find P (xs @ ys) = (case find P xs of None \<Rightarrow> find P ys | Some f \<Rightarrow> Some f)" for xs ys by (induction xs) auto
  show ?case
  proof (cases "find P (concat (map rows [0..<n]))")
    case None
    then have no: "\<forall>l < n. \<forall>g \<in> set (rows l). \<not> P g" by (fastforce simp: find_None_iff)
    have "find P (rows n) = Some f" using Suc.prems None app by simp
    then obtain i where i: "i < length (rows n)" "rows n ! i = f" "\<forall>j < i. \<not> P (rows n ! j)" by (auto simp: find_Some_iff)
    then have "rows n = take i (rows n) @ f # drop (Suc i) (rows n)" using id_take_nth_drop [of i "rows n"] by simp
    moreover have "\<forall>g \<in> set (take i (rows n)). \<not> P g" using i by (auto simp: in_set_conv_nth)
    ultimately show ?thesis using no by blast
  next
    case (Some g)
    then have "find P (concat (map rows [0..<n])) = Some f" using Suc.prems app by simp
    then show ?thesis using Suc.IH less_SucI by blast
  qed
qed simp

context table_reads
begin

lemma file_bounds:
  assumes f: "f \<in> readable_files" and y: "y \<in> set (cont f)"
  shows "internal_compare u (smallest (d f)) (fst y) \<le> 0" and "internal_compare u (fst y) (largest (d f)) \<le> 0"
    and "Compare u (start_key (d f)) (ExtractUserKey (fst y)) \<le> 0" and "Compare u (ExtractUserKey (fst y)) (limit_key (d f)) \<le> 0"
proof -
  have s: "sorted_wrt (\<lambda>x y. internal_compare u (fst x) (fst y) < 0) (cont f)" using sorted [OF f] by (simp add: sorted_entries_def)
  have yy: "internal_compare u (fst y) (fst y) = 0" using internal.compare_refl [of "fst y"] entry_ok [OF f y] by simp
  note b = bounds [OF f]
  obtain x xs where xs: "cont f = x # xs" using b by (cases "cont f") auto
  then show lo: "internal_compare u (smallest (d f)) (fst y) \<le> 0" using s b y yy by auto
  obtain zs z where zs: "cont f = zs @ [z]" using b by (cases "cont f" rule: rev_cases) auto
  then show hi: "internal_compare u (fst y) (largest (d f)) \<le> 0" using s b y yy by (auto simp: sorted_wrt_append)
  show "Compare u (start_key (d f)) (ExtractUserKey (fst y)) \<le> 0" "Compare u (ExtractUserKey (fst y)) (limit_key (d f)) \<le> 0"
    using internal_compare_user [OF lo] internal_compare_user [OF hi] by (simp_all add: start_key_def limit_key_def)
qed

lemma bound_keys_ok: "f \<in> readable_files \<Longrightarrow> key_ok (start_key (d f)) \<and> key_ok (limit_key (d f))"
  using bounds [of f] entry_ok [of f "hd (cont f)"] entry_ok [of f "last (cont f)"] by (simp add: start_key_def limit_key_def)

text \<open>Each level offers a file with an entry not behind any that the lookup may find in the level.\<close>

lemma level_offers:
  assumes v: "version_ok u key_ok d v" and l: "l < kNumLevels" and fs: "set (v_files v ! l) \<subseteq> readable_files"
    and k: "internal_ok key_ok ikey" and g: "g \<in> set (v_files v ! l)" and y: "y \<in> set (cont g)" "seen_at u ikey y"
  shows "\<exists>f \<in> set (files_to_search u d v (ExtractUserKey ikey) ikey l). \<exists>x. first_seen u cont ikey f = Some x \<and>
    internal_compare u (fst x) (fst y) \<le> 0 \<and> (l = 0 \<longrightarrow> f = g)"
proof -
  let ?uk = "ExtractUserKey ikey"
  have gr: "g \<in> readable_files" using g fs by blast
  have uk: "key_ok ?uk" using k by (simp add: internal_ok_def)
  note yb = file_bounds [OF gr y(1)] and yo = entry_ok [OF gr y(1)] and go = bound_keys_ok [OF gr]
  have eq: "Compare u (ExtractUserKey (fst y)) ?uk = 0" "Compare u ?uk (ExtractUserKey (fst y)) = 0"
    using y(2) user.compare_zero [of "ExtractUserKey (fst y)" ?uk] yo uk by (simp_all add: seen_at_def)
  show ?thesis
  proof (cases "l = 0")
    case True
    have "Compare u (start_key (d g)) ?uk \<le> 0"
      using user.compare_trans [of "start_key (d g)" "ExtractUserKey (fst y)" ?uk] yb(3) eq yo uk go by simp
    then have "0 \<le> Compare u ?uk (start_key (d g))" using user.compare_swap [of ?uk "start_key (d g)"] go uk by simp
    moreover have "Compare u ?uk (limit_key (d g)) \<le> 0"
      using user.compare_trans [of ?uk "ExtractUserKey (fst y)" "limit_key (d g)"] yb(4) eq yo uk go by simp
    ultimately have "g \<in> set (files_to_search u d v ?uk ikey l)" using True g by (simp add: files_to_search_def level0_files_set)
    then show ?thesis using first_seen_least [OF gr k y] by blast
  next
    case False
    let ?fs = "v_files v ! l"
    have s: "level_sorted u key_ok d ?fs" using v l False by (simp add: version_ok_def)
    define i where "i = FindFile u d ?fs ikey"
    have cuts: "cuts_at (\<lambda>i. internal_compare u (largest (d (?fs ! i))) ikey < 0) (length ?fs) i"
      using FindFile_cuts [OF s k] by (simp add: i_def)
    obtain j where j: "j < length ?fs" "?fs ! j = g" using g by (auto simp: in_set_conv_nth)
    have lg: "internal_ok key_ok (largest (d g))" using bounds [OF gr] entry_ok [OF gr, of "last (cont g)"] by simp
    have "\<not> internal_compare u (largest (d g)) ikey < 0"
      using icmp(3) [of "fst y" "largest (d g)" ikey] yb(2) y(2) yo lg k by (auto simp: seen_at_def)
    then have ij: "i \<le> j" using cuts j by (auto simp: cuts_at_def) (metis not_le_imp_less)
    then have i: "i < length ?fs" using j by simp
    let ?f = "?fs ! i"
    have fr: "?f \<in> readable_files" using fs i by (simp add: subset_iff)
    note fo = bound_keys_ok [OF fr] and fb = bounds [OF fr]
    have last_in: "last (cont ?f) \<in> set (cont ?f)" using fb by simp
    have found: "\<exists>y' \<in> set (cont ?f). seen_at u ikey y' \<and> internal_compare u (fst y') (fst y) \<le> 0"
    proof (cases "i = j")
      case True
      then show ?thesis using y j internal.compare_refl [of "fst y"] yo by (intro bexI [of _ y]) auto
    next
      case False
      then have lt: "i < j" using ij by simp
      have ge: "\<not> internal_compare u (largest (d ?f)) ikey < 0" using cuts i by (simp add: cuts_at_def)
      have "internal_compare u (largest (d ?f)) (smallest (d g)) < 0"
        using s lt j(1) unfolding level_sorted_def sorted_wrt_iff_nth_less by (simp flip: j(2))
      then have before: "internal_compare u (largest (d ?f)) (fst y) < 0"
        using icmp(2) [of "largest (d ?f)" "smallest (d g)" "fst y"] yb(1) yo entry_ok [OF fr last_in] fb bounds [OF gr]
          entry_ok [OF gr, of "hd (cont g)"] by simp
      let ?L = "ExtractUserKey (fst (last (cont ?f)))"
      have "Compare u ?L ?uk \<le> 0"
        using internal_compare_user [of u "largest (d ?f)" "fst y"] before fb eq yo uk entry_ok [OF fr last_in]
          user.compare_trans [of ?L "ExtractUserKey (fst y)" ?uk] by simp
      moreover have "Compare u ?uk ?L \<le> 0"
        using internal_compare_user [of u ikey "fst (last (cont ?f))"] internal.compare_swap [of "fst (last (cont ?f))" ikey] ge fb k entry_ok [OF fr last_in]
        by simp
      ultimately have "Compare u ?L ?uk = 0" using user.compare_swap [of ?L ?uk] entry_ok [OF fr last_in] uk by simp
      then show ?thesis using last_in before ge fb by (intro bexI [of _ "last (cont ?f)"]) (auto simp: seen_at_def)
    qed
    then obtain y' where y': "y' \<in> set (cont ?f)" "seen_at u ikey y'" "internal_compare u (fst y') (fst y) \<le> 0" by blast
    have "Compare u (start_key (d ?f)) ?uk \<le> 0"
      using user.compare_trans [of "start_key (d ?f)" "ExtractUserKey (fst y')" ?uk] file_bounds(3) [OF fr y'(1)] y'(2) fo uk entry_ok [OF fr y'(1)]
      by (simp add: seen_at_def)
    then have "\<not> Compare u ?uk (start_key (d ?f)) < 0" using user.compare_swap [of ?uk "start_key (d ?f)"] fo uk by simp
    then have "?f \<in> set (files_to_search u d v ?uk ikey l)"
      using False i by (simp add: files_to_search_def level_file_def Let_def i_def)
    moreover obtain x where "first_seen u cont ikey ?f = Some x" "x \<in> set (cont ?f)" "internal_compare u (fst x) (fst y') \<le> 0"
      using first_seen_least [OF fr k y'(1,2)] by blast
    moreover then have "internal_compare u (fst x) (fst y) \<le> 0"
      using icmp(1) [of "fst x" "fst y'" "fst y"] y'(3) entry_ok [OF fr] y'(1) yo by simp
    ultimately show ?thesis using False by blast
  qed
qed

lemma files_to_search_in: "set (files_to_search u d v ukey ikey l) \<subseteq> set (v_files v ! l)"
  by (auto simp: files_to_search_def level0_files_set level_file_def Let_def split: option.splits if_splits)

lemma level_file_single: "l \<noteq> 0 \<Longrightarrow> length (files_to_search u d v ukey ikey l) \<le> 1"
  by (simp add: files_to_search_def split: option.split)

text \<open>The first file with an entry for the lookup, in the order of the search, has the newest.\<close>

lemma search_finds_newest:
  assumes v: "version_ok u key_ok d v" and fs: "\<Union> (set ` set (v_files v)) \<subseteq> readable_files" and order: "newer_first u d cont v"
    and k: "internal_ok key_ok ikey"
  defines "hit \<equiv> \<lambda>f. first_seen u cont ikey f \<noteq> None"
    and "search \<equiv> concat (map (files_to_search u d v (ExtractUserKey ikey) ikey) [0..<kNumLevels])"
  shows "find hit search = None \<Longrightarrow> y \<in> version_entries cont v \<Longrightarrow> \<not> seen_at u ikey y"
    and "find hit search = Some f \<Longrightarrow> first_seen u cont ikey f = Some x \<Longrightarrow>
      x \<in> version_entries cont v \<and> seen_at u ikey x \<and> (\<forall>y \<in> version_entries cont v. seen_at u ikey y \<longrightarrow> internal_compare u (fst x) (fst y) \<le> 0)"
proof -
  have len: "length (v_files v) = kNumLevels" using v by (simp add: version_ok_def)
  have lev: "set (v_files v ! l) \<subseteq> readable_files" if "l < kNumLevels" for l
  proof -
    have "set (v_files v ! l) \<in> set ` set (v_files v)" using that len by simp
    then show ?thesis using fs by (meson Union_upper order_trans)
  qed
  have in_level: "\<exists>l < kNumLevels. \<exists>g \<in> set (v_files v ! l). y \<in> set (cont g)" if in_v: "y \<in> version_entries cont v" for y
  proof -
    obtain fs g where g: "fs \<in> set (v_files v)" "g \<in> set fs" "y \<in> set (cont g)" using in_v by (auto simp: version_entries_def)
    then obtain l where "l < length (v_files v)" "v_files v ! l = fs" by (auto simp: in_set_conv_nth [of fs])
    then show ?thesis using g len by (intro exI [of _ l]) auto
  qed
  have offers: "\<exists>f \<in> set (files_to_search u d v (ExtractUserKey ikey) ikey l). \<exists>x. first_seen u cont ikey f = Some x \<and>
      internal_compare u (fst x) (fst y) \<le> 0 \<and> (l = 0 \<longrightarrow> f = g)"
    if "l < kNumLevels" "g \<in> set (v_files v ! l)" "y \<in> set (cont g)" "seen_at u ikey y" for l g y
    by (rule level_offers [OF v that(1) lev [OF that(1)] k that(2-4)])
  show "\<not> seen_at u ikey y" if none: "find hit search = None" and y: "y \<in> version_entries cont v"
  proof
    assume s: "seen_at u ikey y"
    obtain l g where l: "l < kNumLevels" "g \<in> set (v_files v ! l)" "y \<in> set (cont g)" using in_level [OF y] by blast
    obtain f where f: "f \<in> set (files_to_search u d v (ExtractUserKey ikey) ikey l)" "hit f"
      using offers [OF l s] by (auto simp: hit_def)
    then have "f \<in> set search" using l(1) by (auto simp: search_def)
    then show False using none f(2) by (simp add: find_None_iff)
  qed
  assume found: "find hit search = Some f" and x: "first_seen u cont ikey f = Some x"
  obtain m as bs where m: "m < kNumLevels" and row: "files_to_search u d v (ExtractUserKey ikey) ikey m = as @ f # bs" "\<forall>g \<in> set as. \<not> hit g"
      and earlier: "\<And>l g. l < m \<Longrightarrow> g \<in> set (files_to_search u d v (ExtractUserKey ikey) ikey l) \<Longrightarrow> \<not> hit g"
    using find_in_rows [OF found [unfolded search_def]] by blast
  have in_m: "f \<in> set (files_to_search u d v (ExtractUserKey ikey) ikey m)" using row by simp
  have fl: "f \<in> set (v_files v ! m)" using in_m files_to_search_in by blast
  then have fr: "f \<in> readable_files" using lev [OF m] by blast
  note xs = first_seenD [OF fr x]
  have "internal_compare u (fst x) (fst y) \<le> 0" if y: "y \<in> version_entries cont v" "seen_at u ikey y" for y
  proof -
    obtain l g where l: "l < kNumLevels" "g \<in> set (v_files v ! l)" "y \<in> set (cont g)" using in_level [OF y(1)] by blast
    obtain f' x' where f': "f' \<in> set (files_to_search u d v (ExtractUserKey ikey) ikey l)" "first_seen u cont ikey f' = Some x'"
        "internal_compare u (fst x') (fst y) \<le> 0" "l = 0 \<longrightarrow> f' = g"
      using offers [OF l y(2)] by blast
    have "m \<le> l" using earlier [of l f'] f'(1,2) by (auto simp: hit_def intro: leI)
    have keys: "key_ok (ExtractUserKey (fst x))" "key_ok (ExtractUserKey (fst y))" "key_ok (ExtractUserKey ikey)"
      using entry_ok [OF fr] xs entry_ok [of g y] lev [OF l(1)] l k by (auto simp: internal_ok_def)
    have same: "Compare u (ExtractUserKey (fst x)) (ExtractUserKey (fst y)) = 0"
      using same_users [of "ExtractUserKey (fst x)" "ExtractUserKey (fst y)" "ExtractUserKey ikey"] xs y(2) keys by (simp add: seen_at_def)
    have newer: "internal_compare u (fst x) (fst y) < 0" if "searched_before d v f g"
      using order that xs l(3) same by (auto simp: newer_first_def)
    show ?thesis
    proof (cases "m < l")
      case True
      then have "searched_before d v f g" using fl l by (auto simp: searched_before_def)
      then show ?thesis using newer by simp
    next
      case False
      then have ml: "m = l" using \<open>m \<le> l\<close> by simp
      show ?thesis
      proof (cases "m = 0")
        case False
        then have "f' = f" using level_file_single [OF False, of v "ExtractUserKey ikey" ikey] in_m f'(1) ml
          by (cases "files_to_search u d v (ExtractUserKey ikey) ikey m") auto
        then show ?thesis using x f' by simp
      next
        case zero: True
        have row0: "level0_files u d (v_files v ! 0) (ExtractUserKey ikey) = as @ f # bs"
          using row(1) zero by (simp add: files_to_search_def)
        have g: "g = f'" "g \<in> set (as @ f # bs)" using f' zero ml row(1) by simp_all
        moreover have "hit f'" using f'(2) by (simp add: hit_def)
        ultimately have "g \<in> set (f # bs)" using row(2) by auto
        then have "fm_number (d g) \<le> fm_number (d f)"
          using level0_files_sorted [of d u "v_files v ! 0" "ExtractUserKey ikey"] unfolding row0 by (auto simp: sorted_wrt_append)
        then have "g = f \<or> searched_before d v f g"
          using order fl l(2) zero ml by (auto simp: newer_first_def searched_before_def inj_on_def order_le_less)
        then show ?thesis using newer x f' g by auto
      qed
    qed
  qed
  moreover have "x \<in> version_entries cont v" using xs fl m len nth_mem [of m "v_files v"] by (auto simp: version_entries_def)
  ultimately show "x \<in> version_entries cont v \<and> seen_at u ikey x \<and>
      (\<forall>y \<in> version_entries cont v. seen_at u ikey y \<longrightarrow> internal_compare u (fst x) (fst y) \<le> 0)"
    using xs by blast
qed

end

section \<open>The cache of tables meets the contract\<close>

context user_comparator
begin

text \<open>A separator does not get between two keys of the same user key.\<close>

lemma separator_tight:
  assumes ok: "internal_ok ok a" "internal_ok ok e" "internal_ok ok k" and ae: "internal_compare u a e < 0"
    and ak: "internal_compare u a k < 0" and same: "Compare u (ExtractUserKey e) (ExtractUserKey k) = 0"
  shows "internal_compare u (internal_separator u a e) k < 0"
proof (cases "internal_separator u a e = a")
  case False
  let ?a = "ExtractUserKey a" and ?e = "ExtractUserKey e" and ?k = "ExtractUserKey k"
  have oks: "ok ?a" "ok ?e" "ok ?k" using ok by (simp_all add: internal_ok_def)
  let ?tmp = "FindShortestSeparator u ?a ?e"
  have tmp: "internal_separator u a e = ?tmp @ EncodeFixed64 (PackSequenceAndType kMaxSequenceNumber kValueTypeForSeek)" "length ?tmp < length ?a"
    using False by (auto simp: internal_separator_def Let_def PutFixed64_def split: if_splits)
  then have "Compare u ?a ?e < 0" using user.separator_same [OF oks(1,2)] by (metis less_irrefl not_le)
  note sep = user.separator [OF oks(1,2) this]
  have "Compare u ?tmp ?k < 0" using user.lt_trans_le [of ?tmp ?e ?k] sep same oks by simp
  then show ?thesis using tmp(1) by (simp add: internal_compare_def Let_def)
qed (use ak in simp)

end

text \<open>The filter does not tell keys of the same user key apart, as \<^verbatim>\<open>filter_policy.h\<close> asks.\<close>

definition policy_respects :: "Comparator \<Rightarrow> Options \<Rightarrow> bool" where
  "policy_respects u opts \<longleftrightarrow>
     (\<forall>name p. opt_filter_policy opts = Some (name, p) \<longrightarrow>
        (\<forall>k k' f. Compare u (ExtractUserKey k) (ExtractUserKey k') = 0 \<longrightarrow> FilterMayMatch p k f = FilterMayMatch p k' f))"

text \<open>The files whose number stands for a table of their size, with the entries \<open>cont\<close> and their bounds.\<close>

definition table_backed ::
  "Comparator \<Rightarrow> Options \<Rightarrow> (64 word \<Rightarrow> table_desc option) \<Rightarrow> file_map \<Rightarrow> (fptr \<Rightarrow> (bytes \<times> bytes) list) \<Rightarrow> fptr set" where
  "table_backed u opts store d cont =
     {f. opt_comparator opts = InternalKeyComparator u \<and> policy_respects u opts \<and>
        (\<exists>F bs idx. store (fm_number (d f)) = Some (F, bs, idx) \<and> fm_file_size (d f) = of_nat (length F) \<and>
           cont f = concat (kvs_of bs)) \<and>
        policy_fits opts (length (cont f)) \<and> (\<forall>x \<in> set (cont f). ParseInternalKey (fst x) \<noteq> None) \<and>
        cont f \<noteq> [] \<and> smallest (d f) = fst (hd (cont f)) \<and> largest (d f) = fst (last (cont f))}"

definition handles_room :: "(nat \<Rightarrow> nat \<Rightarrow> nat) \<Rightarrow> bool" where
  "handles_room ext \<longleftrightarrow> (\<forall>i h. ext i h + 2 < 2 ^ 32)"

lemma table_cache_reads:
  assumes u: "user_comparator u key_ok" and st: "table_store z E env_inv dbname opts (internal_ok key_ok) store"
  shows "table_reads u key_ok (TableCache_Get z E verify)
    (\<lambda>tc. handles_room ext \<and> table_store.tc_ok z env_inv dbname opts (internal_ok key_ok) store tc ext)
    d {f \<in> table_backed u opts store d cont. \<exists>e. env_inv e} cont"
proof (intro table_reads.intro u table_reads_axioms.intro)
  let ?R = "{f \<in> table_backed u opts store d cont. \<exists>e. env_inv e}"
  show "cont f \<noteq> [] \<and> smallest (d f) = fst (hd (cont f)) \<and> largest (d f) = fst (last (cont f))" if "f \<in> ?R" for f
    using that by (simp add: table_backed_def)
  show "ParseInternalKey (fst x) \<noteq> None" if "f \<in> ?R" "x \<in> set (cont f)" for f x
    using that by (simp add: table_backed_def)
  fix f
  assume f: "f \<in> ?R"
  then obtain F bs idx where n: "store (fm_number (d f)) = Some (F, bs, idx)" "fm_file_size (d f) = of_nat (length F)" "cont f = concat (kvs_of bs)"
    and fits: "policy_fits opts (length (concat (kvs_of bs)))" and c: "opt_comparator opts = InternalKeyComparator u"
    and pol: "policy_respects u opts"
    by (auto simp: table_backed_def)
  obtain e where e: "env_inv e" using f by blast
  show "sorted_entries (internal_compare u) (internal_ok key_ok) (cont f)"
    using table_store.opens [OF st e n(1)] c by (auto simp: readable_def table_file_def n(3))
  fix tc k
  assume tc: "handles_room ext \<and> table_store.tc_ok z env_inv dbname opts (internal_ok key_ok) store tc ext" and k: "internal_ok key_ok k"
  have room: "ext i h + 2 < 2 ^ 32" for i h using tc by (simp add: handles_room_def)
  obtain t tc' where t: "opened z t (internal_ok key_ok) F bs idx" "filter_opened t F bs" "t_options t = opts"
      "table_store.tc_ok z env_inv dbname opts (internal_ok key_ok) store tc' ext"
      "TableCache_Get z E verify (fm_number (d f)) (of_nat (length F)) k tc = run_bind (InternalGet z t verify k) (\<lambda>(s, saved). Ret (s, saved, tc'))"
    using table_store.Get_store [OF st conjunct2 [OF tc] room n(1), of verify k] by blast
  have tcmp: "table_comparator t = InternalKeyComparator u" using t(3) c by (simp add: table_comparator_def)
  have fits': "policy_fits (t_options t) (length (concat (kvs_of bs)))" using fits t(3) by simp
  obtain r where r: "InternalGet z t verify k = Ret (OK, r)"
      "\<forall>e. r = Some e \<longrightarrow> (\<exists>rest. dropWhile (\<lambda>(k', _). internal_compare u k' k < 0) (cont f) = e # rest)"
    using InternalGet_opened [OF t(1,2) fits' k, of verify] by (auto simp: tcmp n(3))
  have near: "r = Some x" if x: "dropWhile (\<lambda>(k', _). internal_compare u k' k < 0) (cont f) = x # rest"
    and same: "Compare u (ExtractUserKey (fst x)) (ExtractUserKey k) = 0" for x rest
  proof -
    have sorted: "sorted_entries (internal_compare u) (internal_ok key_ok) (cont f)"
      using table_store.opens [OF st e n(1)] c by (auto simp: readable_def table_file_def n(3))
    have "x \<in> set (cont f)" using x by (metis list.set_intros(1) set_dropWhileD)
    then have kx: "internal_ok key_ok (fst x)" using sorted by (auto simp: sorted_entries_def)
    have oku: "key_ok (ExtractUserKey (fst x))" "key_ok (ExtractUserKey k)" using kx k by (simp_all add: internal_ok_def)
    have "InternalGet z t verify k = Ret (OK, Some x)"
    proof (rule InternalGet_near [OF t(1,2) fits' k])
      show "dropWhile (\<lambda>(k', _). Compare (table_comparator t) k' k < 0) (concat (kvs_of bs)) = x # rest" using x by (simp add: tcmp n(3))
      show "Compare (table_comparator t) (FindShortestSeparator (table_comparator t) a (fst x)) k < 0"
        if "internal_ok key_ok a" "Compare (table_comparator t) a (fst x) < 0" "Compare (table_comparator t) a k < 0" for a
        using user_comparator.separator_tight [OF u, of a "fst x" k] that kx k same by (simp add: tcmp)
      have "Compare u (ExtractUserKey k) (ExtractUserKey (fst x)) = 0"
        using same oku key_order.compare_zero [OF comparator.axioms(1) [OF user_comparator.axioms [OF u]]] by blast
      then show "FilterMayMatch p k fl = FilterMayMatch p (fst x) fl" if "opt_filter_policy (t_options t) = Some (name, p)" for name p fl
        using pol that t(3) unfolding policy_respects_def by blast
    qed
    then show ?thesis using r(1) by simp
  qed
  show "\<exists>r t'. TableCache_Get z E verify (fm_number (d f)) (fm_file_size (d f)) k tc = Ret (OK, r, t') \<and>
      (handles_room ext \<and> table_store.tc_ok z env_inv dbname opts (internal_ok key_ok) store t' ext) \<and>
      (\<forall>x. r = Some x \<longrightarrow> (\<exists>rest. dropWhile (\<lambda>(k', _). internal_compare u k' k < 0) (cont f) = x # rest)) \<and>
      (\<forall>x rest. dropWhile (\<lambda>(k', _). internal_compare u k' k < 0) (cont f) = x # rest \<and>
         Compare u (ExtractUserKey (fst x)) (ExtractUserKey k) = 0 \<longrightarrow> r = Some x)"
    using r near t(4,5) tc n(2) by (intro exI [of _ r] exI [of _ tc']) simp
qed

interpretation posix_reads: table_reads BytewiseComparator "\<lambda>_. True" "TableCache_Get z (PosixEnv memory_kernel) verify"
  "\<lambda>tc. handles_room ext \<and> table_store.tc_ok z (\<lambda>e :: memory posix_env. mem_files (pe_kernel e) = fs) dbname opts (internal_ok (\<lambda>_. True))
     (posix_store z dbname opts (internal_ok (\<lambda>_. True)) fs) tc ext"
  d "{f \<in> table_backed BytewiseComparator opts (posix_store z dbname opts (internal_ok (\<lambda>_. True)) fs) d cont.
     \<exists>e :: memory posix_env. mem_files (pe_kernel e) = fs}" cont
  for z verify ext dbname opts fs d cont
  by (rule table_cache_reads [OF bytewise_keys.user_comparator_axioms posix_tables.table_store_axioms])

section \<open>What a lookup answers\<close>

definition entry_seq :: "bytes \<times> bytes \<Rightarrow> SequenceNumber" where
  "entry_seq x = drop_bit 8 (key_tag (fst x))"

definition visible :: "Comparator \<Rightarrow> bytes \<Rightarrow> SequenceNumber \<Rightarrow> bytes \<times> bytes \<Rightarrow> bool" where
  "visible u ukey s x \<longleftrightarrow> Compare u (ExtractUserKey (fst x)) ukey = 0 \<and> entry_seq x \<le> s"

lemma lookup_parts: "internal_key (new_LookupKey ukey s) = ukey @ EncodeFixed64 (PackSequenceAndType s kValueTypeForSeek)"
  "lookup_user_key (new_LookupKey ukey s) = ukey"
  by (simp_all add: internal_key_def lookup_user_key_def new_LookupKey_def Let_def)

lemma less_tag: "r \<le> 1 \<Longrightarrow> a * 256 + 1 < q * 256 + (r :: nat) \<longleftrightarrow> a < q"
  by presburger

lemma seen_visible:
  assumes p: "ParseInternalKey (fst x) \<noteq> None" and s: "valid_seq s"
  shows "seen_at u (ukey @ EncodeFixed64 (PackSequenceAndType s kValueTypeForSeek)) x \<longleftrightarrow> visible u ukey s x"
proof -
  let ?t = "key_tag (fst x)" and ?k = "PackSequenceAndType s kValueTypeForSeek"
  have low: "unat ?t mod 256 \<le> 1" by (rule parsed_tag [OF p])
  have "?k < ?t \<longleftrightarrow> unat s * 256 + 1 < unat ?t"
    using unat_pack [OF s, of kValueTypeForSeek] by (simp add: word_less_nat_alt kValueTypeForSeek_def kTypeValue_def)
  also have "\<dots> \<longleftrightarrow> unat s * 256 + 1 < unat ?t div 256 * 256 + unat ?t mod 256" by simp
  also have "\<dots> \<longleftrightarrow> unat s < unat ?t div 256" by (rule less_tag [OF low])
  also have "\<dots> \<longleftrightarrow> \<not> entry_seq x \<le> s" by (simp add: entry_seq_def word_le_nat_alt unat_drop_bit not_le)
  finally show ?thesis by (auto simp: seen_at_def visible_def internal_compare_def Let_def)
qed

lemma newer_seq:
  assumes "internal_compare u (fst x) (fst y) \<le> 0" and "Compare u (ExtractUserKey (fst x)) (ExtractUserKey (fst y)) = 0"
  shows "entry_seq y \<le> entry_seq x"
proof -
  have "\<not> key_tag (fst x) < key_tag (fst y)" using assms by (auto simp: internal_compare_def Let_def split: if_splits)
  then have "unat (key_tag (fst y)) div 256 \<le> unat (key_tag (fst x)) div 256" by (simp add: word_less_nat_alt div_le_mono)
  then show ?thesis by (simp add: entry_seq_def word_le_nat_alt unat_drop_bit)
qed

text \<open>
  C3. Looking up a user key in a version at a snapshot, through any tables that meet their contract,
  returns: the value of the newest entry of the key that the snapshot sees, in whichever file of
  whichever level it is, if that entry is a value, and not found if it is a deletion or if there is
  none. The cache of tables is left in order.
\<close>
theorem version_get_newest:
  assumes tables: "table_reads u key_ok tget made d files cont" and t: "made t"
    and v: "version_ok u key_ok d v" and fs: "\<Union> (set ` set (v_files v)) \<subseteq> files" and order: "newer_first u d cont v"
    and k: "key_ok ukey" and s: "valid_seq s"
  shows "\<exists>st val' stats t'. Version_Get u d tget v (new_LookupKey ukey s) val t = Ret (st, val', stats, t') \<and> made t' \<and>
    (if \<exists>x \<in> version_entries cont v. visible u ukey s x
     then \<exists>x \<in> version_entries cont v. visible u ukey s x \<and>
       (\<forall>y \<in> version_entries cont v. visible u ukey s y \<longrightarrow> entry_seq y \<le> entry_seq x) \<and>
       (if ExtractValueType (fst x) = kTypeValue then st = OK \<and> val' = snd x else st = NotFound [] [])
     else st = NotFound [] [])"
proof -
  let ?ikey = "ukey @ EncodeFixed64 (PackSequenceAndType s kValueTypeForSeek)"
  have ikey: "internal_ok key_ok ?ikey" using k by simp
  have uk: "ExtractUserKey ?ikey = ukey" by simp
  let ?st = "\<lparr>gs_stats = \<lparr>seek_file = None, seek_file_level = - 1\<rparr>, last_file_read = None, last_file_read_level = - 1, gs_value = val\<rparr>"
  let ?search = "concat (map (files_to_search u d v ukey ?ikey) [0..<kNumLevels])"
  let ?hit = "\<lambda>f. first_seen u cont ?ikey f \<noteq> None"
  note newest = table_reads.search_finds_newest [OF tables v fs order ikey, unfolded uk]
  have files: "set (files_to_search u d v ukey ?ikey l) \<subseteq> files" if "l \<in> set [0..<kNumLevels]" for l
  proof -
    have "v_files v ! l \<in> set (v_files v)" using that v by (simp add: version_ok_def)
    then show ?thesis using fs table_reads.files_to_search_in [OF tables, of v ukey ?ikey l] by blast
  qed
  obtain st' t' where t': "made t'" and r: "case find ?hit ?search of
       None \<Rightarrow> search_levels u d tget v ukey ?ikey [0..<kNumLevels] ?st t = Ret (NotFound [] [], st', t')
     | Some f \<Rightarrow> \<exists>x. first_seen u cont ?ikey f = Some x \<and> (is_value x \<longrightarrow> gs_value st' = snd x) \<and>
         search_levels u d tget v ukey ?ikey [0..<kNumLevels] ?st t = Ret (answer_status x, st', t')"
    using table_reads.search_levels_result [OF tables ikey t, of "[0..<kNumLevels]" v ?st, unfolded uk] files by blast
  have in_file: "\<exists>f \<in> files. x \<in> set (cont f)" if "x \<in> version_entries cont v" for x
    using that fs unfolding version_entries_def by blast
  have parses: "ParseInternalKey (fst x) \<noteq> None" if "x \<in> version_entries cont v" for x
    using in_file [OF that] table_reads.parses [OF tables] by blast
  have vis: "seen_at u ?ikey x \<longleftrightarrow> visible u ukey s x" if "x \<in> version_entries cont v" for x
    by (rule seen_visible [OF parses [OF that] s])
  show ?thesis
  proof (cases "find ?hit ?search")
    case None
    then have "Version_Get u d tget v (new_LookupKey ukey s) val t = Ret (NotFound [] [], gs_value st', gs_stats st', t')"
      using r by (simp add: Version_Get_def lookup_parts)
    moreover have "\<not> (\<exists>x \<in> version_entries cont v. visible u ukey s x)" using newest(1) [OF None] vis by blast
    ultimately show ?thesis using t' by simp
  next
    case (Some f)
    then obtain x where x: "first_seen u cont ?ikey f = Some x" "is_value x \<longrightarrow> gs_value st' = snd x"
        "search_levels u d tget v ukey ?ikey [0..<kNumLevels] ?st t = Ret (answer_status x, st', t')"
      using r by auto
    note n = newest(2) [OF Some x(1)]
    have get: "Version_Get u d tget v (new_LookupKey ukey s) val t = Ret (answer_status x, gs_value st', gs_stats st', t')"
      using x(3) by (simp add: Version_Get_def lookup_parts)
    have in_x: "x \<in> version_entries cont v" "visible u ukey s x" using n vis by blast+
    have oku: "key_ok (ExtractUserKey (fst y))" if "y \<in> version_entries cont v" for y
      using in_file [OF that] table_reads.entry_ok [OF tables] by blast
    have "entry_seq y \<le> entry_seq x" if y: "y \<in> version_entries cont v" "visible u ukey s y" for y
    proof (rule newer_seq)
      show "internal_compare u (fst x) (fst y) \<le> 0" using n vis y by blast
      show "Compare u (ExtractUserKey (fst x)) (ExtractUserKey (fst y)) = 0"
        using user_comparator.same_users [OF table_reads.axioms(1) [OF tables], of "ExtractUserKey (fst x)" "ExtractUserKey (fst y)" ukey]
          in_x y oku k by (simp add: visible_def)
    qed
    then show ?thesis using get t' in_x x(2) by (auto simp: answer_status_def is_value_def)
  qed
qed

section \<open>An example\<close>

text \<open>Tables that are lists of entries, by the number of the file.\<close>

definition list_get :: "Comparator \<Rightarrow> (64 word \<Rightarrow> (bytes \<times> bytes) list) \<Rightarrow> unit table_get" where
  "list_get u entries num file_size k t =
     (case dropWhile (\<lambda>(k', _). internal_compare u k' k < 0) (entries num) of [] \<Rightarrow> Ret (OK, None, t) | x # _ \<Rightarrow> Ret (OK, Some x, t))"

definition example_entries :: "64 word \<Rightarrow> (bytes \<times> bytes) list" where
  "example_entries num =
     (if num = 0 then [(new_InternalKey (ascii ''a'') 5 0, [])]
      else [(new_InternalKey (ascii ''a'') 3 1, ascii ''x''), (new_InternalKey (ascii ''b'') 2 1, ascii ''y'')])"

definition example_meta :: file_map where
  "example_meta f =
     (let kvs = example_entries (of_nat f) in
      new_FileMetaData\<lparr>fm_number := of_nat f, smallest := fst (hd kvs), largest := fst (last kvs)\<rparr>)"

definition two_level_version :: Version where
  "two_level_version = new_Version\<lparr>v_files := [[0], [1], [], [], [], [], []]\<rparr>"

lemma example_parses: "x \<in> set (example_entries num) \<Longrightarrow> proper_key (\<lambda>_. True) (fst x)"
  by (auto simp: example_entries_def kTypeValue_def valid_seq_unat intro!: proper_new_key split: if_splits)

lemma example_apart: "internal_compare BytewiseComparator (new_InternalKey (ascii ''a'') s t) (new_InternalKey (ascii ''b'') s' t') < 0"
  by (rule compare_new_keys) (simp add: ascii_def)

lemma example_reads:
  "table_reads BytewiseComparator (\<lambda>_. True) (list_get BytewiseComparator example_entries) (\<lambda>_. True) example_meta {0, 1}
     (\<lambda>f. example_entries (of_nat f))"
proof (intro table_reads.intro bytewise_keys.user_comparator_axioms table_reads_axioms.intro)
  fix f :: fptr
  show "sorted_entries (internal_compare BytewiseComparator) (internal_ok (\<lambda>_. True)) (example_entries (of_nat f))"
    using example_apart by (simp add: sorted_entries_def example_entries_def)
  show "ParseInternalKey (fst x) \<noteq> None" if "x \<in> set (example_entries (of_nat f))" for x
    using example_parses [OF that] by (simp add: proper_key_def)
  show "example_entries (of_nat f) \<noteq> [] \<and> smallest (example_meta f) = fst (hd (example_entries (of_nat f))) \<and>
      largest (example_meta f) = fst (last (example_entries (of_nat f)))"
    by (simp add: example_meta_def Let_def) (simp add: example_entries_def)
  fix t k
  have num: "fm_number (example_meta f) = of_nat f" by (simp add: example_meta_def Let_def)
  show "\<exists>r t'. list_get BytewiseComparator example_entries (fm_number (example_meta f)) (fm_file_size (example_meta f)) k t = Ret (OK, r, t') \<and> True \<and>
      (\<forall>x. r = Some x \<longrightarrow> (\<exists>rest. dropWhile (\<lambda>(k', _). internal_compare BytewiseComparator k' k < 0) (example_entries (of_nat f)) = x # rest)) \<and>
      (\<forall>x rest. dropWhile (\<lambda>(k', _). internal_compare BytewiseComparator k' k < 0) (example_entries (of_nat f)) = x # rest \<and>
         Compare BytewiseComparator (ExtractUserKey (fst x)) (ExtractUserKey k) = 0 \<longrightarrow> r = Some x)"
  proof (cases "dropWhile (\<lambda>(k', _). internal_compare BytewiseComparator k' k < 0) (example_entries (of_nat f))")
    case Nil
    then show ?thesis unfolding list_get_def num Nil by (intro exI [of _ None]) simp
  next
    case (Cons x rest)
    show ?thesis unfolding list_get_def num Cons by simp
  qed
qed

lemma example_in_order:
  "version_ok BytewiseComparator (\<lambda>_. True) example_meta two_level_version"
  "newer_first BytewiseComparator example_meta (\<lambda>f. example_entries (of_nat f)) two_level_version"
proof -
  have keys: "file_bounded BytewiseComparator (\<lambda>_. True) (example_meta f)" for f
  proof -
    have "internal_compare BytewiseComparator (smallest (example_meta f)) (largest (example_meta f)) \<le> 0"
      using bytewise_keys.internal.compare_refl [of "new_InternalKey (ascii ''a'') 5 0"] example_apart [of 3 1 2 1]
      by (simp add: example_meta_def Let_def) (simp add: example_entries_def)
    moreover have "example_entries (of_nat f) \<noteq> []" by (simp add: example_entries_def)
    ultimately show ?thesis
      using example_parses [OF hd_in_set] example_parses [OF last_in_set]
      by (simp add: file_bounded_def) (simp add: example_meta_def Let_def)
  qed
  have levels: "v_files two_level_version ! level \<in> {[1], []}" if "level < kNumLevels" "0 < level" for level
    using that by (auto simp: two_level_version_def kNumLevels_def less_Suc_eq numeral_eq_Suc)
  have zero: "v_files two_level_version ! 0 = [0]" "length (v_files two_level_version) = kNumLevels"
    by (simp_all add: two_level_version_def kNumLevels_def)
  have "level_sorted BytewiseComparator (\<lambda>_. True) example_meta (v_files two_level_version ! level)" if "level < kNumLevels" "0 < level" for level
    using levels [OF that] keys by (auto simp: level_sorted_def)
  then show "version_ok BytewiseComparator (\<lambda>_. True) example_meta two_level_version"
    using keys zero by (simp add: version_ok_def)
  have only: "f = 0 \<and> g = 1" if sb: "searched_before example_meta two_level_version f g" for f g
  proof -
    from sb consider (deeper) l m where "l < m" "m < kNumLevels" "f \<in> set (v_files two_level_version ! l)" "g \<in> set (v_files two_level_version ! m)"
      | (zero) "f \<in> set (v_files two_level_version ! 0)" "g \<in> set (v_files two_level_version ! 0)" "fm_number (example_meta g) < fm_number (example_meta f)"
      by (auto simp: searched_before_def)
    then show ?thesis
    proof cases
      case deeper
      then have g: "g = 1" "m = 1" using levels [of m] by (auto simp: two_level_version_def kNumLevels_def less_Suc_eq numeral_eq_Suc)
      then have "l = 0" using deeper(1) by simp
      then show ?thesis using deeper zero g by simp
    qed (simp add: zero)
  qed
  have newer: "internal_compare BytewiseComparator (new_InternalKey (ascii ''a'') 5 0) (new_InternalKey (ascii ''a'') 3 1) < 0"
    by (simp add: new_InternalKey_suffixed internal_compare_suffixed pack_less valid_seq_unat slice_compare_zero)
  have "\<forall>x \<in> set (example_entries (of_nat f)). \<forall>y \<in> set (example_entries (of_nat g)).
      Compare BytewiseComparator (ExtractUserKey (fst x)) (ExtractUserKey (fst y)) = 0 \<longrightarrow> internal_compare BytewiseComparator (fst x) (fst y) < 0"
    if "searched_before example_meta two_level_version f g" for f g
    using only [OF that] newer by (simp add: example_entries_def slice_compare_zero) (simp add: ascii_def)
  then show "newer_first BytewiseComparator example_meta (\<lambda>f. example_entries (of_nat f)) two_level_version"
    using zero by (simp add: newer_first_def)
qed

text \<open>The entry with number 5 deletes the key \<open>a\<close>; a snapshot at 4 still sees the value below it.\<close>

theorem version_get_newest_witness:
  "\<exists>stats. Version_Get BytewiseComparator example_meta (list_get BytewiseComparator example_entries) two_level_version
     (new_LookupKey (ascii ''a'') 4) [] () = Ret (OK, ascii ''x'', stats, ())"
proof -
  let ?cont = "\<lambda>f :: fptr. example_entries (of_nat f)" and ?a = "ascii ''a''"
  have sub: "\<Union> (set ` set (v_files two_level_version)) \<subseteq> {0, 1}" by (auto simp: two_level_version_def)
  have s: "valid_seq 4" by (simp add: valid_seq_unat)
  have ent: "version_entries ?cont two_level_version =
      {(new_InternalKey ?a 5 0, []), (new_InternalKey ?a 3 1, ascii ''x''), (new_InternalKey (ascii ''b'') 2 1, ascii ''y'')}"
    by (auto simp: version_entries_def two_level_version_def example_entries_def)
  have seqs: "entry_seq (new_InternalKey k n t, v) = n" if "valid_seq n" for k n t v
    using pack_seq [OF that] by (simp add: entry_seq_def new_InternalKey_suffixed)
  have vis: "visible BytewiseComparator ?a 4 x \<longleftrightarrow> x = (new_InternalKey ?a 3 1, ascii ''x'')" if "x \<in> version_entries ?cont two_level_version" for x
    using that seqs by (auto simp: ent visible_def slice_compare_zero valid_seq_unat ascii_def)
  have "(new_InternalKey ?a 3 1, ascii ''x'') \<in> version_entries ?cont two_level_version" by (simp add: ent)
  moreover have "ExtractValueType (new_InternalKey ?a 3 1) = kTypeValue"
    using pack_type [of 3 1] by (simp add: ExtractValueType_def new_InternalKey_suffixed valid_seq_unat kTypeValue_def)
  ultimately show ?thesis
    using version_get_newest [OF example_reads _ example_in_order(1) sub example_in_order(2) _ s, where t = "()" and ukey = ?a and val = "[]"] vis by auto
qed

end
