(* ===== verification/LdbVersionSet.thy ===== *)
theory LdbVersionSet
  imports LdbVersion
begin

text \<open>
  LevelDB, \<^verbatim>\<open>db/version_set.cc\<close>: the set of versions. Versions and the descriptions of files are
  objects with reference counts; pointers are numbers that are never used twice, and a deleted
  object is one that the maps do not hold any more. The circular list of versions is the list of the
  pointers behind its dummy head. A failed assertion is \<open>Undef\<close>. \<open>LdbBuilder\<close> applies edits to this
  state, \<open>LdbManifest\<close> keeps it on disk. The lemmas account for every reference.
\<close>

section \<open>The state\<close>

type_synonym vptr = nat
type_synonym file_heap = "fptr \<Rightarrow> FileMetaData option"
type_synonym version_heap = "vptr \<Rightarrow> Version option"

record VersionSet =
  next_file_number :: "64 word"
  manifest_file_number :: "64 word"
  vs_last_sequence :: SequenceNumber
  vs_log_number :: "64 word"
  vs_prev_log_number :: "64 word"
  vs_files :: file_heap
  vs_versions :: version_heap
  version_list :: "vptr list"
  next_pointer :: nat
  current :: "vptr option"
  compact_pointer :: "bytes list"

definition file_at :: "file_heap \<Rightarrow> file_map" where
  "file_at h f = the (h f)"

definition version_at :: "'z VersionSet_scheme \<Rightarrow> vptr \<Rightarrow> Version" where
  "version_at vs v = the (vs_versions vs v)"

definition current_version :: "'z VersionSet_scheme \<Rightarrow> Version" where
  "current_version vs = version_at vs (the (current vs))"

definition all_files :: "Version \<Rightarrow> fptr list" where
  "all_files v = concat (v_files v)"

section \<open>References\<close>

definition ref_file :: "fptr \<Rightarrow> file_heap \<Rightarrow> file_heap" where
  "ref_file f h = h(f := map_option (\<lambda>x. x\<lparr>fm_refs := fm_refs x + 1\<rparr>) (h f))"

text \<open>A reference is dropped, and with the last one the file; \<open>release_file\<close> asserts that there is one.\<close>

definition unref_file :: "fptr \<Rightarrow> file_heap \<Rightarrow> file_heap run" where
  "unref_file f h =
     (case h f of
        None \<Rightarrow> Undef
      | Some x \<Rightarrow>
          let x = x\<lparr>fm_refs := fm_refs x - 1\<rparr> in
          Ret (if fm_refs x \<le> 0 then h(f := None) else h(f \<mapsto> x)))"

definition release_file :: "fptr \<Rightarrow> file_heap \<Rightarrow> file_heap run" where
  "release_file f h =
     (case h f of None \<Rightarrow> Undef | Some x \<Rightarrow> if fm_refs x \<le> 0 then Undef else unref_file f h)"

definition Version_Ref :: "vptr \<Rightarrow> 'z VersionSet_scheme \<Rightarrow> 'z VersionSet_scheme" where
  "Version_Ref v vs =
     vs\<lparr>vs_versions := (vs_versions vs)(v := map_option (\<lambda>x. x\<lparr>v_refs := v_refs x + 1\<rparr>) (vs_versions vs v))\<rparr>"

definition delete_Version :: "vptr \<Rightarrow> 'z VersionSet_scheme \<Rightarrow> 'z VersionSet_scheme run" where
  "delete_Version v vs =
     (case vs_versions vs v of
        None \<Rightarrow> Undef
      | Some x \<Rightarrow>
          if v_refs x \<noteq> 0 then Undef
          else
            run_bind (run_each release_file (all_files x) (vs_files vs)) (\<lambda>h.
              Ret (vs\<lparr>version_list := remove1 v (version_list vs), vs_files := h,
                vs_versions := (vs_versions vs)(v := None)\<rparr>)))"

definition Version_Unref :: "vptr \<Rightarrow> 'z VersionSet_scheme \<Rightarrow> 'z VersionSet_scheme run" where
  "Version_Unref v vs =
     (case vs_versions vs v of
        None \<Rightarrow> Undef
      | Some x \<Rightarrow>
          if v_refs x < 1 then Undef
          else
            let vs = vs\<lparr>vs_versions := (vs_versions vs)(v \<mapsto> x\<lparr>v_refs := v_refs x - 1\<rparr>)\<rparr> in
            if v_refs x - 1 = 0 then delete_Version v vs else Ret vs)"

text \<open>
  A version is a value until it is made current, when it gets its pointer; its references are then
  counted.
\<close>

definition AppendVersion :: "Version \<Rightarrow> 'z VersionSet_scheme \<Rightarrow> 'z VersionSet_scheme run" where
  "AppendVersion x vs =
     (if v_refs x \<noteq> 0 then Undef
      else
        run_bind (case current vs of None \<Rightarrow> Ret vs | Some c \<Rightarrow> Version_Unref c vs) (\<lambda>vs.
          let v = next_pointer vs in
          Ret (Version_Ref v (vs\<lparr>next_pointer := v + 1, current := Some v,
            vs_versions := (vs_versions vs)(v \<mapsto> x), version_list := version_list vs @ [v]\<rparr>))))"

definition new_VersionSet :: "VersionSet run" where
  "new_VersionSet =
     AppendVersion new_Version
       \<lparr>next_file_number = 2, manifest_file_number = 0, vs_last_sequence = 0, vs_log_number = 0, vs_prev_log_number = 0,
        vs_files = Map.empty, vs_versions = Map.empty, version_list = [], next_pointer = 0, current = None,
        compact_pointer = replicate kNumLevels []\<rparr>"

section \<open>Numbers and sizes\<close>

definition NewFileNumber :: "'z VersionSet_scheme \<Rightarrow> 64 word \<times> 'z VersionSet_scheme" where
  "NewFileNumber vs = (next_file_number vs, vs\<lparr>next_file_number := next_file_number vs + 1\<rparr>)"

definition ReuseFileNumber :: "64 word \<Rightarrow> 'z VersionSet_scheme \<Rightarrow> 'z VersionSet_scheme" where
  "ReuseFileNumber n vs = (if next_file_number vs = n + 1 then vs\<lparr>next_file_number := n\<rparr> else vs)"

definition MarkFileNumberUsed :: "64 word \<Rightarrow> 'z VersionSet_scheme \<Rightarrow> 'z VersionSet_scheme" where
  "MarkFileNumberUsed n vs = (if next_file_number vs \<le> n then vs\<lparr>next_file_number := n + 1\<rparr> else vs)"

definition SetLastSequence :: "SequenceNumber \<Rightarrow> 'z VersionSet_scheme \<Rightarrow> 'z VersionSet_scheme run" where
  "SetLastSequence s vs = (if s < vs_last_sequence vs then Undef else Ret (vs\<lparr>vs_last_sequence := s\<rparr>))"

definition NumLevelFiles :: "nat \<Rightarrow> 'z VersionSet_scheme \<Rightarrow> nat" where
  "NumLevelFiles level vs = length (v_files (current_version vs) ! level)"

definition NumLevelBytes :: "nat \<Rightarrow> 'z VersionSet_scheme \<Rightarrow> 64 word" where
  "NumLevelBytes level vs = TotalFileSize (file_at (vs_files vs)) (v_files (current_version vs) ! level)"

definition NeedsCompaction :: "'z VersionSet_scheme \<Rightarrow> bool" where
  "NeedsCompaction vs \<longleftrightarrow> 1 \<le> compaction_score (current_version vs) \<or> file_to_compact (current_version vs) \<noteq> None"

definition AddLiveFiles :: "'z VersionSet_scheme \<Rightarrow> 64 word set \<Rightarrow> 64 word set" where
  "AddLiveFiles vs live =
     fold (\<lambda>v live. fold (\<lambda>f. insert (fm_number (file_at (vs_files vs) f))) (all_files (version_at vs v)) live) (version_list vs) live"

definition LevelSummary :: "'z VersionSet_scheme \<Rightarrow> bytes" where
  "LevelSummary vs =
     ascii ''files[ '' @ concat (map (\<lambda>fs. decimal (length fs) @ ascii '' '') (v_files (current_version vs))) @ ascii '']''"

section \<open>Printing a version\<close>

definition file_DebugString :: "FileMetaData \<Rightarrow> bytes" where
  "file_DebugString f =
     ascii '' '' @ NumberToString (fm_number f) @ ascii '':'' @ NumberToString (fm_file_size f) @ ascii ''['' @
       InternalKey_DebugString (smallest f) @ ascii '' .. '' @ InternalKey_DebugString (largest f) @ ascii '']'' @ [10]"

definition Version_DebugString :: "file_map \<Rightarrow> Version \<Rightarrow> bytes" where
  "Version_DebugString d v =
     concat (map (\<lambda>level. ascii ''--- level '' @ decimal level @ ascii '' ---'' @ [10] @
       concat (map (\<lambda>f. file_DebugString (d f)) (v_files v ! level))) [0..<kNumLevels])"

section \<open>The score of a version\<close>

text \<open>
  The code computes with doubles: \<open>rnd\<close> is their rounding. The numbers of files and the limits of the
  levels are doubles, so only the conversion of the size and the quotient are rounded.
\<close>

definition kL0_CompactionTrigger :: nat where "kL0_CompactionTrigger = 4"

primrec scale_level :: "nat \<Rightarrow> real \<Rightarrow> real" where
  "scale_level 0 result = result"
| "scale_level (Suc n) result = scale_level n (result * 10)"

definition MaxBytesForLevel :: "nat \<Rightarrow> real" where
  "MaxBytesForLevel level = scale_level (level - 1) (10 * 1048576)"

definition level_score :: "(real \<Rightarrow> real) \<Rightarrow> file_map \<Rightarrow> Version \<Rightarrow> nat \<Rightarrow> real" where
  "level_score rnd d v level =
     (if level = 0 then real (length (v_files v ! 0)) / real kL0_CompactionTrigger
      else rnd (rnd (real (unat (TotalFileSize d (v_files v ! level)))) / MaxBytesForLevel level))"

definition better_level :: "(real \<Rightarrow> real) \<Rightarrow> file_map \<Rightarrow> Version \<Rightarrow> nat \<Rightarrow> int \<times> real \<Rightarrow> int \<times> real" where
  "better_level rnd d v level best =
     (let score = level_score rnd d v level in if snd best < score then (int level, score) else best)"

definition Finalize :: "(real \<Rightarrow> real) \<Rightarrow> file_map \<Rightarrow> Version \<Rightarrow> Version" where
  "Finalize rnd d v =
     (let (best_level, best_score) = fold (better_level rnd d v) [0..<kNumLevels - 1] (- 1, - 1) in
      v\<lparr>compaction_level := best_level, compaction_score := best_score\<rparr>)"

section \<open>Counting references\<close>

text \<open>
  \<open>counted h N\<close>: the files that exist are those with uses, and their counts are the numbers of uses.
  Operations on references keep everything else of a file.
\<close>

definition file_counted :: "FileMetaData option \<Rightarrow> nat \<Rightarrow> bool" where
  "file_counted x n \<longleftrightarrow> (case x of None \<Rightarrow> n = 0 | Some x \<Rightarrow> fm_refs x = int n \<and> 0 < n)"

definition counted :: "file_heap \<Rightarrow> (fptr \<Rightarrow> nat) \<Rightarrow> bool" where
  "counted h N \<longleftrightarrow> (\<forall>f. file_counted (h f) (N f))"

lemma file_counted_simps [simp]:
  "file_counted None n \<longleftrightarrow> n = 0" "file_counted (Some x) n \<longleftrightarrow> fm_refs x = int n \<and> 0 < n"
  by (simp_all add: file_counted_def)

definition meta :: "FileMetaData \<Rightarrow> FileMetaData" where
  "meta x = x\<lparr>fm_refs := 0\<rparr>"

definition keeps :: "file_heap \<Rightarrow> file_heap \<Rightarrow> bool" where
  "keeps h h' \<longleftrightarrow> (\<forall>f x'. h' f = Some x' \<longrightarrow> (\<exists>x. h f = Some x \<and> meta x = meta x'))"

lemma keeps_refl [simp, intro]: "keeps h h"
  by (simp add: keeps_def)

lemma keeps_trans [trans]: "keeps h h' \<Longrightarrow> keeps h' h'' \<Longrightarrow> keeps h h''"
  by (fastforce simp: keeps_def)

lemma meta_refs [simp]: "meta (x\<lparr>fm_refs := n\<rparr>) = meta x"
  by (simp add: meta_def)

lemma meta_same: "meta x = meta y \<Longrightarrow>
    fm_number x = fm_number y \<and> fm_file_size x = fm_file_size y \<and> smallest x = smallest y \<and> largest x = largest y"
  by (cases x; cases y) (simp add: meta_def)

lemma keeps_file_at: "keeps h h' \<Longrightarrow> h' f \<noteq> None \<Longrightarrow> meta (file_at h' f) = meta (file_at h f)"
  by (fastforce simp: keeps_def file_at_def)

lemma counted_at: "counted h N \<Longrightarrow> file_counted (h f) (N f)"
  by (simp add: counted_def)

lemma countedD: "counted h N \<Longrightarrow> h f = Some x \<Longrightarrow> fm_refs x = int (N f) \<and> 0 < N f"
  using counted_at [of h N f] by simp

lemma counted_some: "counted h N \<Longrightarrow> 0 < N f \<Longrightarrow> \<exists>x. h f = Some x \<and> fm_refs x = int (N f)"
  using counted_at [of h N f] by (cases "h f") auto

lemma counted_none: "counted h N \<Longrightarrow> h f = None \<longleftrightarrow> N f = 0"
  using counted_at [of h N f] by (cases "h f") auto

lemma counted_upd: "counted h N \<Longrightarrow> file_counted y n \<Longrightarrow> counted (h(f := y)) (N(f := n))"
  by (simp add: counted_def)

lemma counted_ref: "counted h N \<Longrightarrow> 0 < N f \<Longrightarrow> counted (ref_file f h) (N(f := N f + 1)) \<and> keeps h (ref_file f h)"
  unfolding ref_file_def
  by (intro conjI counted_upd) (auto dest!: counted_some simp: keeps_def)

lemma counted_unref:
  assumes "counted h N" and "0 < N f"
  shows "\<exists>h'. unref_file f h = Ret h' \<and> release_file f h = Ret h' \<and> counted h' (N(f := N f - 1)) \<and> keeps h h'"
proof -
  obtain x where x: "h f = Some x" "fm_refs x = int (N f)" using counted_some [OF assms] by blast
  then show ?thesis
    using assms by (auto simp: unref_file_def release_file_def Let_def keeps_def intro!: counted_upd)
qed

lemma counted_alloc: "counted h N \<Longrightarrow> h f = None \<Longrightarrow> fm_refs x = 1 \<Longrightarrow> counted (h(f \<mapsto> x)) (N(f := 1))"
  by (rule counted_upd) auto

lemma counted_cong: "counted h N \<Longrightarrow> (\<And>f. N f = N' f) \<Longrightarrow> counted h N'"
  using ext [of N N'] by simp

lemma counted_drop_list:
  assumes "\<And>f h N. counted h N \<Longrightarrow> 0 < N f \<Longrightarrow> \<exists>h'. body f h = Ret h' \<and> counted h' (N(f := N f - 1)) \<and> keeps h h'"
  shows "counted h N \<Longrightarrow> (\<And>f. count_list fs f \<le> N f) \<Longrightarrow>
    \<exists>h'. run_each body fs h = Ret h' \<and> counted h' (\<lambda>f. N f - count_list fs f) \<and> keeps h h'"
proof (induction fs arbitrary: h N)
  case Nil
  then show ?case by simp
next
  case (Cons f fs)
  have "0 < N f" using Cons.prems(2) [of f] by simp
  then obtain h1 where h1: "body f h = Ret h1" "counted h1 (N(f := N f - 1))" "keeps h h1"
    using assms [OF Cons.prems(1)] by blast
  have "count_list fs g \<le> (N(f := N f - 1)) g" for g using Cons.prems(2) [of g] by (auto split: if_splits)
  then obtain h2 where "run_each body fs h1 = Ret h2" "counted h2 (\<lambda>g. (N(f := N f - 1)) g - count_list fs g)" "keeps h1 h2"
    using Cons.IH [OF h1(2)] by blast
  then show ?case
    using h1 keeps_trans by (auto elim!: counted_cong)
qed

lemma counted_release: "counted h N \<Longrightarrow> (\<And>f. count_list fs f \<le> N f) \<Longrightarrow>
    \<exists>h'. run_each release_file fs h = Ret h' \<and> counted h' (\<lambda>f. N f - count_list fs f) \<and> keeps h h'"
  using counted_drop_list [of release_file] counted_unref by blast

lemma counted_unrefs: "counted h N \<Longrightarrow> (\<And>f. count_list fs f \<le> N f) \<Longrightarrow>
    \<exists>h'. run_each unref_file fs h = Ret h' \<and> counted h' (\<lambda>f. N f - count_list fs f) \<and> keeps h h'"
  using counted_drop_list [of unref_file] counted_unref by blast

section \<open>The invariant\<close>

text \<open>
  \<open>vext v\<close> references to version \<open>v\<close> and \<open>fext f\<close> to file \<open>f\<close> are held by others: readers, iterators,
  compactions, a builder. The other uses of files are the lists of the versions.
\<close>

definition file_uses :: "'z VersionSet_scheme \<Rightarrow> fptr \<Rightarrow> nat" where
  "file_uses vs f = (\<Sum>v \<leftarrow> version_list vs. count_list (all_files (version_at vs v)) f)"

definition version_counted :: "Version option \<Rightarrow> nat \<Rightarrow> bool \<Rightarrow> bool" where
  "version_counted x n cur \<longleftrightarrow>
     (case x of
        None \<Rightarrow> n = 0 \<and> \<not> cur
      | Some x \<Rightarrow> v_refs x = int n + (if cur then 1 else 0) \<and> 0 < v_refs x \<and> length (v_files x) = kNumLevels)"

lemma version_counted_simps [simp]:
  "version_counted None n cur \<longleftrightarrow> n = 0 \<and> \<not> cur"
  "version_counted (Some x) n cur \<longleftrightarrow> v_refs x = int n + (if cur then 1 else 0) \<and> 0 < v_refs x \<and> length (v_files x) = kNumLevels"
  by (simp_all add: version_counted_def)

definition version_refs_ok :: "'z VersionSet_scheme \<Rightarrow> (vptr \<Rightarrow> nat) \<Rightarrow> bool" where
  "version_refs_ok vs vext \<longleftrightarrow> (\<forall>v. version_counted (vs_versions vs v) (vext v) (current vs = Some v))"

definition vs_inv :: "'z VersionSet_scheme \<Rightarrow> (vptr \<Rightarrow> nat) \<Rightarrow> (fptr \<Rightarrow> nat) \<Rightarrow> bool" where
  "vs_inv vs vext fext \<longleftrightarrow>
     distinct (version_list vs) \<and> set (version_list vs) = dom (vs_versions vs) \<and> version_refs_ok vs vext \<and>
     counted (vs_files vs) (\<lambda>f. file_uses vs f + fext f) \<and>
     (\<forall>p \<in> dom (vs_versions vs) \<union> dom (vs_files vs). p < next_pointer vs) \<and> length (compact_pointer vs) = kNumLevels"

lemma vs_invD:
  assumes "vs_inv vs vext fext"
  shows "distinct (version_list vs)" "set (version_list vs) = dom (vs_versions vs)" "version_refs_ok vs vext"
    "counted (vs_files vs) (\<lambda>f. file_uses vs f + fext f)" "length (compact_pointer vs) = kNumLevels"
    "vs_versions vs v = Some x \<Longrightarrow> v < next_pointer vs" "vs_files vs f = Some y \<Longrightarrow> f < next_pointer vs"
  using assms unfolding vs_inv_def by blast+

lemma version_refs_at: "version_refs_ok vs vext \<Longrightarrow> version_counted (vs_versions vs v) (vext v) (current vs = Some v)"
  by (simp add: version_refs_ok_def)

lemma version_refsD:
  "version_refs_ok vs vext \<Longrightarrow> vs_versions vs v = Some x \<Longrightarrow>
    v_refs x = int (vext v) + (if current vs = Some v then 1 else 0) \<and> 0 < v_refs x \<and> length (v_files x) = kNumLevels"
  using version_refs_at [of vs vext v] by simp

lemma version_refs_held: "version_refs_ok vs vext \<Longrightarrow> 0 < vext v \<or> current vs = Some v \<Longrightarrow> \<exists>x. vs_versions vs v = Some x"
  using version_refs_at [of vs vext v] by (cases "vs_versions vs v") auto

lemma version_refs_upd:
  "version_refs_ok vs vext \<Longrightarrow> vs_versions vs' = (vs_versions vs)(v := y) \<Longrightarrow> current vs' = current vs \<Longrightarrow>
    version_counted y n (current vs = Some v) \<Longrightarrow> version_refs_ok vs' (vext(v := n))"
  by (simp add: version_refs_ok_def)

text \<open>Only the numbers of references of versions change.\<close>

lemma file_uses_cong:
  assumes "version_list vs' = version_list vs" and "\<And>v. v \<in> set (version_list vs) \<Longrightarrow> v_files (version_at vs' v) = v_files (version_at vs v)"
  shows "file_uses vs' = file_uses vs"
proof
  fix f
  have "map (\<lambda>v. count_list (all_files (version_at vs' v)) f) (version_list vs) = map (\<lambda>v. count_list (all_files (version_at vs v)) f) (version_list vs)"
    using assms(2) by (intro map_cong) (auto simp: all_files_def)
  then show "file_uses vs' f = file_uses vs f" unfolding file_uses_def assms(1) by (rule arg_cong)
qed

lemma Version_Ref_inv:
  assumes i: "vs_inv vs vext fext" and v: "vs_versions vs v = Some x"
  shows "vs_inv (Version_Ref v vs) (vext(v := vext v + 1)) fext"
proof -
  let ?vs = "Version_Ref v vs"
  have "file_uses ?vs = file_uses vs"
    by (rule file_uses_cong) (auto simp: Version_Ref_def version_at_def v)
  moreover have "version_refs_ok ?vs (vext(v := vext v + 1))"
    by (rule version_refs_upd) (use i v version_refs_at [of vs vext v] in \<open>auto simp: vs_inv_def Version_Ref_def\<close>)
  ultimately show ?thesis
    using i v by (auto simp: vs_inv_def Version_Ref_def)
qed

text \<open>Only the files change.\<close>

lemma vs_inv_files:
  assumes i: "vs_inv vs vext N" and h: "counted h (\<lambda>f. file_uses vs f + N' f)" "dom h \<subseteq> dom (vs_files vs)"
  shows "vs_inv (vs\<lparr>vs_files := h\<rparr>) vext N'"
proof -
  have "file_uses (vs\<lparr>vs_files := h\<rparr>) = file_uses vs" by (rule file_uses_cong) (simp_all add: version_at_def)
  moreover have "\<forall>p \<in> dom (vs_versions vs) \<union> dom h. p < next_pointer vs" using i h(2) unfolding vs_inv_def by blast
  ultimately show ?thesis using i h(1) by (simp add: vs_inv_def version_refs_ok_def)
qed

text \<open>A version that nobody needs: its references to files go, and it goes itself.\<close>

lemma file_uses_split:
  assumes "distinct (version_list vs)" and "v \<in> set (version_list vs)"
  shows "file_uses vs f = count_list (all_files (version_at vs v)) f +
    (\<Sum>w \<leftarrow> remove1 v (version_list vs). count_list (all_files (version_at vs w)) f)"
  unfolding file_uses_def by (rule sum_list_map_remove1 [OF assms(2)])

lemma delete_Version_inv:
  assumes i: "distinct (version_list vs)" "set (version_list vs) = dom (vs_versions vs)" "counted (vs_files vs) (\<lambda>f. file_uses vs f + fext f)"
    and v: "vs_versions vs v = Some x" "v_refs x = 0"
  shows "\<exists>h. delete_Version v vs =
      Ret (vs\<lparr>version_list := remove1 v (version_list vs), vs_files := h, vs_versions := (vs_versions vs)(v := None)\<rparr>) \<and>
    counted h (\<lambda>f. file_uses (vs\<lparr>version_list := remove1 v (version_list vs), vs_files := h, vs_versions := (vs_versions vs)(v := None)\<rparr>) f + fext f) \<and>
    keeps (vs_files vs) h"
proof -
  have x: "version_at vs v = x" using v by (simp add: version_at_def)
  have in_list: "v \<in> set (version_list vs)" using i(2) v by auto
  note split = file_uses_split [OF i(1) in_list, unfolded x]
  have "count_list (all_files x) f \<le> file_uses vs f + fext f" for f by (simp add: split)
  then obtain h where h: "run_each release_file (all_files x) (vs_files vs) = Ret h"
      "counted h (\<lambda>f. file_uses vs f + fext f - count_list (all_files x) f)" "keeps (vs_files vs) h"
    using counted_release [OF i(3)] by blast
  let ?vs = "vs\<lparr>version_list := remove1 v (version_list vs), vs_files := h, vs_versions := (vs_versions vs)(v := None)\<rparr>"
  have "file_uses vs f + fext f - count_list (all_files x) f = file_uses ?vs f + fext f" for f
  proof -
    have "file_uses ?vs f = (\<Sum>w \<leftarrow> remove1 v (version_list vs). count_list (all_files (version_at vs w)) f)"
      unfolding file_uses_def
      by (rule arg_cong [where f = sum_list], rule map_cong) (use i(1) in \<open>auto simp: version_at_def\<close>)
    then show ?thesis by (simp add: split)
  qed
  then show ?thesis using h v counted_cong [OF h(2)] by (auto simp: delete_Version_def)
qed

text \<open>A reference held outside is given back, or the one of the current version.\<close>

definition core :: "Version \<Rightarrow> Version" where
  "core x = x\<lparr>v_refs := 0\<rparr>"

lemma core_refs [simp]: "core (x\<lparr>v_refs := n\<rparr>) = core x"
  by (simp add: core_def)

lemma core_same: "core x = core y \<Longrightarrow> v_files x = v_files y \<and> file_to_compact x = file_to_compact y \<and> file_to_compact_level x = file_to_compact_level y"
  by (cases x; cases y) (simp add: core_def)

definition versions_keep :: "'z VersionSet_scheme \<Rightarrow> 'z VersionSet_scheme \<Rightarrow> bool" where
  "versions_keep vs vs' \<longleftrightarrow>
     (\<forall>v x'. vs_versions vs' v = Some x' \<longrightarrow> (\<exists>x. vs_versions vs v = Some x \<and> core x = core x')) \<and> keeps (vs_files vs) (vs_files vs')"

lemma Version_Unref_inv:
  assumes i: "vs_inv vs vext fext" and held: "0 < vext v"
  shows "\<exists>vs'. Version_Unref v vs = Ret vs' \<and> vs_inv vs' (vext(v := vext v - 1)) fext \<and> current vs' = current vs \<and>
    versions_keep vs vs' \<and> next_pointer vs' = next_pointer vs \<and> compact_pointer vs' = compact_pointer vs"
proof -
  obtain x where x: "vs_versions vs v = Some x" using i held version_refs_held [of vs vext v] by (auto simp: vs_inv_def)
  have r: "v_refs x = int (vext v) + (if current vs = Some v then 1 else 0)" "length (v_files x) = kNumLevels"
    using i x version_refsD by (fastforce simp: vs_inv_def)+
  let ?x = "x\<lparr>v_refs := v_refs x - 1\<rparr>" and ?vs = "vs\<lparr>vs_versions := (vs_versions vs)(v \<mapsto> x\<lparr>v_refs := v_refs x - 1\<rparr>)\<rparr>"
  have uses: "file_uses ?vs = file_uses vs" by (rule file_uses_cong) (auto simp: version_at_def x)
  have i': "distinct (version_list ?vs)" "set (version_list ?vs) = dom (vs_versions ?vs)" "counted (vs_files ?vs) (\<lambda>f. file_uses ?vs f + fext f)"
    using i x uses by (auto simp: vs_inv_def)
  show ?thesis
  proof (cases "v_refs x - 1 = 0")
    case False
    have "version_refs_ok ?vs (vext(v := vext v - 1))"
      by (rule version_refs_upd) (use i r held False in \<open>auto simp: vs_inv_def\<close>)
    then have "vs_inv ?vs (vext(v := vext v - 1)) fext" using i i' x by (auto simp: vs_inv_def)
    then show ?thesis using False x r held by (auto simp: Version_Unref_def Let_def versions_keep_def)
  next
    case True
    obtain h where h: "delete_Version v ?vs =
          Ret (?vs\<lparr>version_list := remove1 v (version_list ?vs), vs_files := h, vs_versions := (vs_versions ?vs)(v := None)\<rparr>)"
        "counted h (\<lambda>f. file_uses (?vs\<lparr>version_list := remove1 v (version_list ?vs), vs_files := h, vs_versions := (vs_versions ?vs)(v := None)\<rparr>) f + fext f)"
        "keeps (vs_files ?vs) h"
      using delete_Version_inv [OF i', of v ?x] True by auto
    let ?w = "?vs\<lparr>version_list := remove1 v (version_list ?vs), vs_files := h, vs_versions := (vs_versions ?vs)(v := None)\<rparr>"
    have "version_refs_ok ?w (vext(v := vext v - 1))"
      by (rule version_refs_upd) (use i r held True in \<open>auto simp: vs_inv_def split: if_splits\<close>)
    moreover have "dom h \<subseteq> dom (vs_files vs)" using h(3) by (fastforce simp: keeps_def)
    then have "\<forall>p \<in> dom (vs_versions ?w) \<union> dom (vs_files ?w). p < next_pointer ?w"
      using vs_invD(6,7) [OF i] by auto
    ultimately have "vs_inv ?w (vext(v := vext v - 1)) fext"
      using i h(2) by (simp add: vs_inv_def)
    then show ?thesis using True x r held h by (auto simp: Version_Unref_def Let_def versions_keep_def)
  qed
qed

text \<open>
  A new version is made current: the references to its files that were held become uses, and the old
  version goes unless it is held.
\<close>

lemma keeps_uses:
  assumes "keeps h h'" shows "dom h' \<subseteq> dom h"
  using assms by (fastforce simp: keeps_def)

lemma vs_inv_held:
  "vs_inv vs vext fext \<Longrightarrow> 0 < vext v \<or> current vs = Some v \<Longrightarrow> \<exists>x. vs_versions vs v = Some x \<and> length (v_files x) = kNumLevels"
  using version_refs_held [of vs vext v] version_refsD [of vs vext v] by (fastforce simp: vs_inv_def)

lemma current_to_ext:
  assumes "vs_inv vs vext fext" and "current vs = Some c"
  shows "vs_inv (vs\<lparr>current := None\<rparr>) (vext(c := vext c + 1)) fext"
proof -
  have "file_uses (vs\<lparr>current := None\<rparr>) = file_uses vs" by (rule file_uses_cong) (simp_all add: version_at_def)
  moreover have "version_refs_ok (vs\<lparr>current := None\<rparr>) (vext(c := vext c + 1))"
    unfolding version_refs_ok_def
  proof
    fix v
    have "version_counted (vs_versions vs v) (vext v) (current vs = Some v)"
      using version_refs_at [OF vs_invD(3) [OF assms(1)]] .
    then show "version_counted (vs_versions (vs\<lparr>current := None\<rparr>) v) ((vext(c := vext c + 1)) v) (current (vs\<lparr>current := None\<rparr>) = Some v)"
      using assms(2) by (cases "vs_versions vs v") auto
  qed
  ultimately show ?thesis using assms by (auto simp: vs_inv_def)
qed

lemma Version_Unref_current: "Version_Unref v (vs\<lparr>current := c\<rparr>) = run_bind (Version_Unref v vs) (\<lambda>vs. Ret (vs\<lparr>current := c\<rparr>))"
  by (cases "run_each release_file (all_files (the (vs_versions vs v)\<lparr>v_refs := v_refs (the (vs_versions vs v)) - 1\<rparr>)) (vs_files vs)")
    (auto simp: Version_Unref_def delete_Version_def Let_def split: option.splits)

lemma install_inv:
  assumes i: "vs_inv vs vext (\<lambda>f. fext f + count_list (all_files x) f)" and c: "current vs = None"
    and x: "v_refs x = 0" "length (v_files x) = kNumLevels"
  defines "v \<equiv> next_pointer vs"
  shows "vs_inv (Version_Ref v (vs\<lparr>next_pointer := v + 1, current := Some v,
      vs_versions := (vs_versions vs)(v \<mapsto> x), version_list := version_list vs @ [v]\<rparr>)) vext fext"
    (is "vs_inv ?vs vext fext")
proof -
  have v: "vs_versions vs v = None" "v \<notin> set (version_list vs)" using i by (auto simp: vs_inv_def v_def)
  have e: "vext v = 0" using i v(1) version_refs_at [of vs vext v] by (auto simp: vs_inv_def)
  have uses: "file_uses ?vs f = file_uses vs f + count_list (all_files x) f" for f
  proof -
    have "(\<Sum>w \<leftarrow> version_list vs. count_list (all_files (version_at ?vs w)) f) = (\<Sum>w \<leftarrow> version_list vs. count_list (all_files (version_at vs w)) f)"
      by (rule arg_cong [where f = sum_list], rule map_cong) (use v(2) in \<open>auto simp: version_at_def Version_Ref_def\<close>)
    then show ?thesis by (simp add: file_uses_def Version_Ref_def version_at_def all_files_def)
  qed
  have "version_refs_ok ?vs vext"
    unfolding version_refs_ok_def
  proof
    fix w
    have "version_counted (vs_versions vs w) (vext w) (current vs = Some w)"
      using version_refs_at [OF vs_invD(3) [OF i]] .
    then show "version_counted (vs_versions ?vs w) (vext w) (current ?vs = Some w)"
      using c x e by (auto simp: Version_Ref_def)
  qed
  moreover have "counted (vs_files ?vs) (\<lambda>f. file_uses ?vs f + fext f)"
    using counted_cong [OF vs_invD(4) [OF i], of "\<lambda>f. file_uses ?vs f + fext f"] uses by (simp add: Version_Ref_def)
  ultimately show ?thesis
    using i v by (auto simp: vs_inv_def Version_Ref_def v_def less_Suc_eq)
qed

lemma AppendVersion_inv:
  assumes i: "vs_inv vs vext (\<lambda>f. fext f + count_list (all_files x) f)"
    and x: "v_refs x = 0" "length (v_files x) = kNumLevels"
  shows "\<exists>vs' v. AppendVersion x vs = Ret vs' \<and> vs_inv vs' vext fext \<and> current vs' = Some v \<and>
    vs_versions vs' v = Some (x\<lparr>v_refs := 1\<rparr>) \<and> versions_keep (vs\<lparr>vs_versions := (vs_versions vs)(v \<mapsto> x)\<rparr>) vs' \<and>
    compact_pointer vs' = compact_pointer vs"
proof (cases "current vs")
  case None
  show ?thesis
    using install_inv [OF i None x] x None by (fastforce simp: AppendVersion_def Let_def Version_Ref_def versions_keep_def)
next
  case (Some c)
  obtain vs1 where u: "Version_Unref c (vs\<lparr>current := None\<rparr>) = Ret vs1"
      "vs_inv vs1 vext (\<lambda>f. fext f + count_list (all_files x) f)" "current vs1 = None" "versions_keep vs vs1"
      "next_pointer vs1 = next_pointer vs" "compact_pointer vs1 = compact_pointer vs"
    using Version_Unref_inv [OF current_to_ext [OF i Some], of c] by (auto simp: versions_keep_def)
  obtain vs2 where u2: "Version_Unref c vs = Ret vs2" "vs1 = vs2\<lparr>current := None\<rparr>"
    using u(1) unfolding Version_Unref_current run_bind_Ret_iff by auto
  show ?thesis
    using install_inv [OF u(2,3) x] u(4-6) x Some u2 by (fastforce simp: AppendVersion_def Let_def Version_Ref_def versions_keep_def)
qed

end
