(* ===== verification/LdbBuilder.thy ===== *)
theory LdbBuilder
  imports LdbVersionSet "HOL-Library.Multiset"
begin

text \<open>
  LevelDB, class \<open>VersionSet::Builder\<close> of \<^verbatim>\<open>db/version_set.cc\<close>: a sequence of edits is applied to a
  version without the versions between. The specification is the effect of the edits on the sets of
  files per level; the lemmas show that the merge of the sorted lists of files computes it, keeps
  them sorted and counts every reference.
\<close>

section \<open>The order of the files\<close>

definition BySmallestKey :: "Comparator \<Rightarrow> FileMetaData \<Rightarrow> FileMetaData \<Rightarrow> bool" where
  "BySmallestKey u f1 f2 =
     (let r = internal_compare u (smallest f1) (smallest f2) in
      if r \<noteq> 0 then r < 0 else fm_number f1 < fm_number f2)"

text \<open>A \<open>std::set\<close> with this order is the list of its elements in order; an element it has stays.\<close>

primrec set_insert :: "('a \<Rightarrow> 'a \<Rightarrow> bool) \<Rightarrow> 'a \<Rightarrow> 'a list \<Rightarrow> 'a list" where
  "set_insert lt x [] = [x]"
| "set_insert lt x (y # ys) =
     (if lt x y then x # y # ys else if lt y x then y # set_insert lt x ys else y # ys)"

section \<open>The builder\<close>

record LevelState =
  ls_deleted :: "64 word set"
  ls_added :: "fptr list"

record Builder =
  base :: vptr
  levels :: "LevelState list"

definition new_Builder :: "vptr \<Rightarrow> 'z VersionSet_scheme \<Rightarrow> Builder \<times> 'z VersionSet_scheme" where
  "new_Builder v vs =
     (\<lparr>base = v, levels = replicate kNumLevels \<lparr>ls_deleted = {}, ls_added = []\<rparr>\<rparr>, Version_Ref v vs)"

definition delete_Builder :: "Builder \<Rightarrow> 'z VersionSet_scheme \<Rightarrow> 'z VersionSet_scheme run" where
  "delete_Builder b vs =
     run_bind (run_each (\<lambda>ls. run_each unref_file (ls_added ls)) (levels b) (vs_files vs)) (\<lambda>h.
       Version_Unref (base b) (vs\<lparr>vs_files := h\<rparr>))"

text \<open>The levels of an edit that was read or built are below \<open>kNumLevels\<close> (\<open>edit_ok\<close>).\<close>

definition set_pointer :: "int \<times> bytes \<Rightarrow> 'z VersionSet_scheme \<Rightarrow> 'z VersionSet_scheme" where
  "set_pointer p vs = vs\<lparr>compact_pointer := (compact_pointer vs)[nat (fst p) := snd p]\<rparr>"

definition update_level :: "nat \<Rightarrow> (LevelState \<Rightarrow> LevelState) \<Rightarrow> Builder \<Rightarrow> Builder" where
  "update_level level g b = b\<lparr>levels := (levels b)[level := g (levels b ! level)]\<rparr>"

definition delete_file :: "int \<times> 64 word \<Rightarrow> Builder \<Rightarrow> Builder" where
  "delete_file p = update_level (nat (fst p)) (\<lambda>ls. ls\<lparr>ls_deleted := insert (snd p) (ls_deleted ls)\<rparr>)"

text \<open>The number of seeks allowed is an \<open>int\<close>, cut off from 64 bits.\<close>

definition seeks_for :: "64 word \<Rightarrow> int" where
  "seeks_for file_size =
     (let seeks = sint (ucast (file_size div 16384) :: 32 word) in if seeks < 100 then 100 else seeks)"

definition add_file ::
  "Comparator \<Rightarrow> int \<times> FileMetaData \<Rightarrow> Builder \<times> 'z VersionSet_scheme \<Rightarrow> Builder \<times> 'z VersionSet_scheme" where
  "add_file u p bvs =
     (let (b, vs) = bvs; level = nat (fst p); f = next_pointer vs;
          x = (snd p)\<lparr>fm_refs := 1, allowed_seeks := seeks_for (fm_file_size (snd p))\<rparr>;
          h = (vs_files vs)(f \<mapsto> x) in
      (update_level level
         (\<lambda>ls. ls\<lparr>ls_deleted := ls_deleted ls - {fm_number x},
            ls_added := set_insert (\<lambda>f g. BySmallestKey u (file_at h f) (file_at h g)) f (ls_added ls)\<rparr>) b,
       vs\<lparr>vs_files := h, next_pointer := f + 1\<rparr>))"

definition Builder_Apply ::
  "Comparator \<Rightarrow> VersionEdit \<Rightarrow> Builder \<times> 'z VersionSet_scheme \<Rightarrow> Builder \<times> 'z VersionSet_scheme" where
  "Builder_Apply u edit bvs =
     (let (b, vs) = bvs;
          vs = fold set_pointer (compact_pointers edit) vs;
          b = fold delete_file (deleted_files edit) b in
      fold (add_file u) (new_files edit) (b, vs))"

section \<open>Saving a version\<close>

definition MaybeAddFile ::
  "Comparator \<Rightarrow> nat \<Rightarrow> 64 word set \<Rightarrow> fptr \<Rightarrow> file_heap \<times> fptr list \<Rightarrow> (file_heap \<times> fptr list) run" where
  "MaybeAddFile u level deleted f hfs =
     (let (h, files) = hfs in
      if fm_number (file_at h f) \<in> deleted then Ret (h, files)
      else if 0 < level \<and> files \<noteq> [] \<and> \<not> internal_compare u (largest (file_at h (last files))) (smallest (file_at h f)) < 0 then Undef
      else Ret (ref_file f h, files @ [f]))"

text \<open>
  The merge: what is left of the files of the base, of which those not behind an added file come
  before it (\<open>std::upper_bound\<close> on a sorted range).
\<close>

primrec save_added ::
  "Comparator \<Rightarrow> nat \<Rightarrow> 64 word set \<Rightarrow> fptr list \<Rightarrow> fptr list \<Rightarrow> file_heap \<times> fptr list \<Rightarrow> (file_heap \<times> fptr list) run" where
  "save_added u level deleted [] base_files = run_each (MaybeAddFile u level deleted) base_files"
| "save_added u level deleted (a # added) base_files = (\<lambda>(h, files).
     let before = takeWhile (\<lambda>b. \<not> BySmallestKey u (file_at h a) (file_at h b)) base_files in
     run_bind (run_each (MaybeAddFile u level deleted) (before @ [a]) (h, files))
       (save_added u level deleted added (drop (length before) base_files)))"

definition save_level :: "Comparator \<Rightarrow> Builder \<Rightarrow> Version \<Rightarrow> nat \<Rightarrow> file_heap \<times> fptr list list \<Rightarrow> (file_heap \<times> fptr list list) run" where
  "save_level u b v level hfss =
     (let (h, fss) = hfss; ls = levels b ! level in
      run_bind (save_added u level (ls_deleted ls) (ls_added ls) (v_files v ! level) (h, []))
        (\<lambda>(h, files). Ret (h, fss @ [files])))"

definition SaveTo :: "Comparator \<Rightarrow> Builder \<Rightarrow> 'z VersionSet_scheme \<Rightarrow> (Version \<times> 'z VersionSet_scheme) run" where
  "SaveTo u b vs =
     run_bind (run_each (save_level u b (version_at vs (base b))) [0..<kNumLevels] (vs_files vs, []))
       (\<lambda>(h, fss). Ret (new_Version\<lparr>v_files := fss\<rparr>, vs\<lparr>vs_files := h\<rparr>))"

section \<open>Insertion and merge\<close>

text \<open>
  A strict weak order on the elements at hand. The merge of the code is stated once as a function of
  the two lists.
\<close>

locale weak_order =
  fixes lt :: "'a \<Rightarrow> 'a \<Rightarrow> bool" and dom_ok :: "'a \<Rightarrow> bool"
  assumes lt_irrefl: "dom_ok x \<Longrightarrow> \<not> lt x x"
    and lt_trans: "dom_ok x \<Longrightarrow> dom_ok y \<Longrightarrow> dom_ok z \<Longrightarrow> lt x y \<Longrightarrow> lt y z \<Longrightarrow> lt x z"
    and not_lt_trans: "dom_ok x \<Longrightarrow> dom_ok y \<Longrightarrow> dom_ok z \<Longrightarrow> \<not> lt x y \<Longrightarrow> \<not> lt y z \<Longrightarrow> \<not> lt x z"

primrec merge_files :: "('a \<Rightarrow> 'a \<Rightarrow> bool) \<Rightarrow> 'a list \<Rightarrow> 'a list \<Rightarrow> 'a list" where
  "merge_files lt [] bs = bs"
| "merge_files lt (a # as) bs =
     (let before = takeWhile (\<lambda>b. \<not> lt a b) bs in before @ [a] @ merge_files lt as (drop (length before) bs))"

lemma mset_merge_files: "mset (merge_files lt as bs) = mset as + mset bs"
proof (induction as arbitrary: bs)
  case (Cons a as)
  have "mset (takeWhile (\<lambda>b. \<not> lt a b) bs) + mset (dropWhile (\<lambda>b. \<not> lt a b) bs) = mset bs"
    by (simp flip: mset_append)
  then show ?case by (simp add: Cons Let_def dropWhile_eq_drop [symmetric] ac_simps)
qed simp

lemma set_merge_files [simp]: "set (merge_files lt as bs) = set as \<union> set bs"
  using arg_cong [OF mset_merge_files [of lt as bs], of set_mset] by simp

context weak_order
begin

definition in_order :: "'a list \<Rightarrow> bool" where
  "in_order xs \<longleftrightarrow> sorted_wrt (\<lambda>x y. \<not> lt y x) xs"

lemma in_orderD:
  assumes "in_order (xs @ ys)" shows "in_order ys" "in_order xs" "\<forall>x \<in> set xs. \<forall>y \<in> set ys. \<not> lt y x"
  using assms by (simp_all add: in_order_def sorted_wrt_append)

lemma lt_asym: "dom_ok x \<Longrightarrow> dom_ok y \<Longrightarrow> lt x y \<Longrightarrow> \<not> lt y x"
  using lt_irrefl lt_trans by blast

lemma lt_not_lt: "dom_ok x \<Longrightarrow> dom_ok y \<Longrightarrow> dom_ok z \<Longrightarrow> lt x y \<Longrightarrow> \<not> lt z y \<Longrightarrow> lt x z"
  using not_lt_trans by blast

text \<open>An element that is comparable with all others is inserted at its place.\<close>

lemma set_insert_fresh:
  assumes "sorted_wrt lt ys" and "dom_ok x" and "\<forall>y \<in> set ys. dom_ok y \<and> (lt x y \<or> lt y x)"
  shows "sorted_wrt lt (set_insert lt x ys) \<and> mset (set_insert lt x ys) = add_mset x (mset ys)"
  using assms
proof (induction ys)
  case (Cons y ys)
  have *: "set (set_insert lt x ys) = insert x (set ys)" if "mset (set_insert lt x ys) = add_mset x (mset ys)"
    using that by (metis set_mset_add_mset_insert set_mset_mset)
  show ?case
  proof (cases "lt x y")
    case True
    then have "lt x z" if "z \<in> set ys" for z using Cons.prems that lt_trans [of x y z] by auto
    then show ?thesis using True Cons.prems by auto
  next
    case False
    then show ?thesis using Cons * by auto
  qed
qed simp

lemma merge_in_order:
  assumes "in_order as" and "in_order bs" and "\<forall>x \<in> set as \<union> set bs. dom_ok x"
  shows "in_order (merge_files lt as bs)"
  using assms
proof (induction as arbitrary: bs)
  case (Cons a as)
  let ?before = "takeWhile (\<lambda>b. \<not> lt a b) bs" and ?rest = "dropWhile (\<lambda>b. \<not> lt a b) bs"
  have "in_order (?before @ ?rest)" using Cons.prems(2) by simp
  note rest_ok = in_orderD [OF this]
  have sub: "set ?before \<subseteq> set bs" "set ?rest \<subseteq> set bs" by (auto dest: set_takeWhileD set_dropWhileD)
  have in_rest: "lt a y" if y: "y \<in> set ?rest" for y
  proof -
    obtain r rs where r: "?rest = r # rs" using y by (cases ?rest) auto
    have "lt a r" using r by (metis dropWhile_eq_Cons_conv)
    moreover have "\<not> lt y r" if "y \<noteq> r" using rest_ok(1) y that by (auto simp: r in_order_def)
    moreover have "dom_ok a" "dom_ok r" "dom_ok y" using Cons.prems(3) sub y r by auto
    ultimately show ?thesis using lt_not_lt by blast
  qed
  have in_before: "\<not> lt a x" if "x \<in> set ?before" for x using that by (auto dest: set_takeWhileD)
  have m: "in_order (merge_files lt as ?rest)"
    using Cons.IH [of ?rest] Cons.prems rest_ok(1) sub by (auto simp: in_order_def)
  have "\<not> lt y x" if "x \<in> set ?before" "y \<in> set as" for x y
  proof (rule not_lt_trans [of y a x])
    show "\<not> lt y a" using Cons.prems(1) that by (simp add: in_order_def)
  qed (use Cons.prems(3) that sub(1) in_before [OF that(1)] in auto)
  then have before: "\<forall>x \<in> set ?before. \<not> lt a x \<and> (\<forall>y \<in> set as \<union> set ?rest. \<not> lt y x)"
    using rest_ok(3) in_before by blast
  have "\<not> lt y a" if "y \<in> set ?rest" for y
    using Cons.prems(3) that sub(2) in_rest [OF that] lt_asym [of a y] by auto
  moreover have "\<forall>y \<in> set as. \<not> lt y a" using Cons.prems(1) by (simp add: in_order_def)
  ultimately have a: "\<forall>y \<in> set as \<union> set ?rest. \<not> lt y a" by blast
  then have "in_order (?before @ a # merge_files lt as ?rest)"
    unfolding in_order_def sorted_wrt_append sorted_wrt.simps list.set set_merge_files
    using m [unfolded in_order_def] rest_ok(2) [unfolded in_order_def] before a by (intro conjI) blast+
  then show ?case by (simp add: Let_def dropWhile_eq_drop)
qed simp

end

context user_comparator
begin

lemma smallest_weak_order: "weak_order (BySmallestKey u) (\<lambda>f. internal_ok ok (smallest f))"
proof
  fix f g k :: FileMetaData
  assume f: "internal_ok ok (smallest f)"
  show "\<not> BySmallestKey u f f" using internal.compare_refl [OF f] by (simp add: BySmallestKey_def Let_def)
  assume g: "internal_ok ok (smallest g)" and k: "internal_ok ok (smallest k)"
  note swap = internal.compare_swap [OF f g] internal.compare_swap [OF g k] internal.compare_swap [OF f k]
    internal.compare_swap [OF g f] internal.compare_swap [OF k g] internal.compare_swap [OF k f]
  note trans = internal.compare_trans [OF f g k] internal.compare_trans [OF k g f] internal.compare_trans [OF g f k]
    internal.compare_trans [OF g k f] internal.compare_trans [OF f k g] internal.compare_trans [OF k f g]
  note order = swap [unfolded InternalKeyComparator_simps] trans [unfolded InternalKeyComparator_simps]
  show "BySmallestKey u f k" if "BySmallestKey u f g" "BySmallestKey u g k"
    using that order unfolding BySmallestKey_def Let_def by (smt (verit) order.strict_trans not_less_iff_gr_or_eq)
  show "\<not> BySmallestKey u f k" if "\<not> BySmallestKey u f g" "\<not> BySmallestKey u g k"
    using that order unfolding BySmallestKey_def Let_def by (smt (verit) order.strict_trans not_less_iff_gr_or_eq)
qed

end

interpretation bytewise_files: weak_order "BySmallestKey BytewiseComparator" "\<lambda>f. internal_ok (\<lambda>_. True) (smallest f)"
  by (rule bytewise_keys.smallest_weak_order)

section \<open>Saving one level\<close>

text \<open>References do not matter to the merge.\<close>

definition same_meta :: "file_heap \<Rightarrow> file_heap \<Rightarrow> bool" where
  "same_meta h h' \<longleftrightarrow> (\<forall>f. map_option meta (h' f) = map_option meta (h f))"

lemma same_meta_refl [simp]: "same_meta h h"
  by (simp add: same_meta_def)

lemma same_meta_trans: "same_meta h h' \<Longrightarrow> same_meta h' h'' \<Longrightarrow> same_meta h h''"
  by (simp add: same_meta_def)

lemma same_meta_ref: "same_meta h (ref_file f h)"
  by (simp add: same_meta_def ref_file_def option.map_comp comp_def)

lemma same_meta_refs: "same_meta h (fold ref_file fs h)"
proof (induction fs arbitrary: h)
  case (Cons f fs)
  show ?case using same_meta_trans [OF same_meta_ref [of h f] Cons.IH [of "ref_file f h"]] by simp
qed simp

lemma same_meta_dom: "same_meta h h' \<Longrightarrow> dom h' = dom h"
  unfolding same_meta_def dom_def by (metis option.map_disc_iff)

lemma same_meta_at:
  assumes "same_meta h h'"
  shows "fm_number (file_at h' f) = fm_number (file_at h f)" "smallest (file_at h' f) = smallest (file_at h f)"
    "largest (file_at h' f) = largest (file_at h f)" "fm_file_size (file_at h' f) = fm_file_size (file_at h f)"
proof -
  have "map_option meta (h' f) = map_option meta (h f)" using assms by (simp add: same_meta_def)
  then have "h' f = h f \<or> (\<exists>x x'. h f = Some x \<and> h' f = Some x' \<and> meta x' = meta x)" by (cases "h f"; cases "h' f") auto
  then have "h' f = h f \<or> meta (file_at h' f) = meta (file_at h f)" by (auto simp: file_at_def)
  then show "fm_number (file_at h' f) = fm_number (file_at h f)" "smallest (file_at h' f) = smallest (file_at h f)"
    "largest (file_at h' f) = largest (file_at h f)" "fm_file_size (file_at h' f) = fm_file_size (file_at h f)"
    using meta_same [of "file_at h' f" "file_at h f"] unfolding file_at_def by metis+
qed

lemma same_meta_order: "same_meta h h' \<Longrightarrow> BySmallestKey u (file_at h' f) (file_at h' g) = BySmallestKey u (file_at h f) (file_at h g)"
  by (simp add: BySmallestKey_def same_meta_at)

lemma MaybeAddFile_meta:
  "MaybeAddFile u level deleted f (h, files) = Ret (h', files') \<Longrightarrow> same_meta h h'"
  by (auto simp: MaybeAddFile_def Let_def same_meta_ref split: if_splits)

lemma MaybeAddFiles_meta:
  "run_each (MaybeAddFile u level deleted) fs (h, files) = Ret (h', files') \<Longrightarrow> same_meta h h'"
proof (induction fs arbitrary: h files)
  case (Cons f fs)
  from Cons.prems obtain h1 files1 where "MaybeAddFile u level deleted f (h, files) = Ret (h1, files1)"
      and "run_each (MaybeAddFile u level deleted) fs (h1, files1) = Ret (h', files')"
    by (auto simp: run_bind_Ret_iff)
  then show ?case using same_meta_trans [OF MaybeAddFile_meta Cons.IH] by blast
qed simp

lemma save_added_merge:
  "save_added u level deleted added bs (h, files) =
     run_each (MaybeAddFile u level deleted) (merge_files (\<lambda>f g. BySmallestKey u (file_at h f) (file_at h g)) added bs) (h, files)"
proof (induction added arbitrary: bs h files)
  case (Cons a added)
  let ?lt = "\<lambda>h f g. BySmallestKey u (file_at h f) (file_at h g)"
  let ?before = "takeWhile (\<lambda>b. \<not> ?lt h a b) bs" and ?M = "MaybeAddFile u level deleted"
  let ?rest = "drop (length ?before) bs"
  have l: "save_added u level deleted (a # added) bs (h, files) =
      run_bind (run_each ?M (?before @ [a]) (h, files)) (save_added u level deleted added ?rest)"
    by (simp only: save_added.simps Let_def prod.case)
  have r: "run_each ?M (merge_files (?lt h) (a # added) bs) (h, files) =
      run_bind (run_each ?M (?before @ [a]) (h, files)) (run_each ?M (merge_files (?lt h) added ?rest))"
    unfolding merge_files.simps Let_def append_assoc [symmetric] by (rule run_each_append)
  have "save_added u level deleted added ?rest (h', files') = run_each ?M (merge_files (?lt h) added ?rest) (h', files')"
    if "run_each ?M (?before @ [a]) (h, files) = Ret (h', files')" for h' files'
  proof -
    have "?lt h' = ?lt h" by (intro ext same_meta_order) (rule MaybeAddFiles_meta [OF that])
    then show ?thesis using Cons.IH [of ?rest h' files'] by simp
  qed
  then show ?case unfolding l r by (cases "run_each ?M (?before @ [a]) (h, files)") auto
qed simp

lemma MaybeAddFiles_result:
  assumes "0 < level \<Longrightarrow> sorted_wrt (\<lambda>f g. internal_compare u (largest (file_at h f)) (smallest (file_at h g)) < 0)
      (files @ filter (\<lambda>f. fm_number (file_at h f) \<notin> deleted) fs)"
  shows "run_each (MaybeAddFile u level deleted) fs (h, files) =
    Ret (fold ref_file (filter (\<lambda>f. fm_number (file_at h f) \<notin> deleted) fs) h, files @ filter (\<lambda>f. fm_number (file_at h f) \<notin> deleted) fs)"
  using assms
proof (induction fs arbitrary: h files)
  case (Cons f fs)
  show ?case
  proof (cases "fm_number (file_at h f) \<in> deleted")
    case True
    then show ?thesis using Cons by (simp add: MaybeAddFile_def)
  next
    case False
    note at = same_meta_at [OF same_meta_ref [of h f]]
    have "internal_compare u (largest (file_at h (last files))) (smallest (file_at h f)) < 0" if "0 < level" "files \<noteq> []"
    proof -
      have "last files \<in> set files" using that(2) by simp
      then show ?thesis using Cons.prems [OF that(1)] False by (simp add: sorted_wrt_append)
    qed
    then have step: "MaybeAddFile u level deleted f (h, files) = Ret (ref_file f h, files @ [f])"
      using False by (auto simp: MaybeAddFile_def)
    show ?thesis
      using Cons.IH [of "ref_file f h" "files @ [f]"] Cons.prems False step by (simp add: at)
  qed
qed simp

lemma counted_refs:
  assumes "counted h N" and "\<And>f. f \<in> set fs \<Longrightarrow> 0 < N f"
  shows "counted (fold ref_file fs h) (\<lambda>f. N f + count_list fs f)"
  using assms
proof (induction fs arbitrary: h N)
  case (Cons f fs)
  have "counted (ref_file f h) (N(f := N f + 1))" using counted_ref Cons.prems by simp
  moreover have "0 < (N(f := N f + 1)) g" if "g \<in> set fs" for g using Cons.prems(2) that by simp
  ultimately have "counted (fold ref_file fs (ref_file f h)) (\<lambda>g. (N(f := N f + 1)) g + count_list fs g)" by (rule Cons.IH)
  then have "counted (fold ref_file fs (ref_file f h)) (\<lambda>g. N g + count_list (f # fs) g)" by (rule counted_cong) simp
  then show ?case by simp
qed simp

text \<open>In a level above zero, files in order that do not overlap each other are apart one after another.\<close>

context user_comparator
begin

definition apart :: "FileMetaData \<Rightarrow> FileMetaData \<Rightarrow> bool" where
  "apart f g \<longleftrightarrow> internal_compare u (largest f) (smallest g) < 0"

lemma in_order_apart:
  assumes "sorted_wrt (\<lambda>f g. \<not> BySmallestKey u (d g) (d f)) fs" and "\<forall>f \<in> set fs. file_bounded u ok (d f)"
    and "\<forall>f \<in> set fs. \<forall>g \<in> set fs. f \<noteq> g \<longrightarrow> apart (d f) (d g) \<or> apart (d g) (d f)" and "distinct fs"
  shows "sorted_wrt (\<lambda>f g. apart (d f) (d g)) fs"
  using assms
proof (induction fs)
  case (Cons f fs)
  have "apart (d f) (d g)" if g: "g \<in> set fs" for g
  proof -
    have fg: "f \<noteq> g" "\<not> BySmallestKey u (d g) (d f)" "file_bounded u ok (d f)" "file_bounded u ok (d g)"
      using Cons.prems g by auto
    have "\<not> apart (d g) (d f)"
    proof
      assume "apart (d g) (d f)"
      then have "internal_compare u (smallest (d g)) (smallest (d f)) < 0"
        using fg(3,4) internal.le_trans_lt [of "smallest (d g)" "largest (d g)" "smallest (d f)"]
        by (auto simp: apart_def file_bounded_def proper_key_def)
      then show False using fg(2) by (simp add: BySmallestKey_def)
    qed
    then show ?thesis using Cons.prems(3) fg(1) g by auto
  qed
  then show ?case using Cons by auto
qed simp

end

section \<open>What edits do\<close>

text \<open>The specification: the files of each level, as number, size and range of keys.\<close>

type_synonym file_info = "64 word \<times> 64 word \<times> bytes \<times> bytes"

definition file_info :: "FileMetaData \<Rightarrow> file_info" where
  "file_info f = (fm_number f, fm_file_size f, smallest f, largest f)"

definition spec_delete :: "int \<times> 64 word \<Rightarrow> (nat \<Rightarrow> file_info set) \<Rightarrow> nat \<Rightarrow> file_info set" where
  "spec_delete p S = S(nat (fst p) := {i \<in> S (nat (fst p)). fst i \<noteq> snd p})"

definition spec_add :: "int \<times> FileMetaData \<Rightarrow> (nat \<Rightarrow> file_info set) \<Rightarrow> nat \<Rightarrow> file_info set" where
  "spec_add p S = S(nat (fst p) := insert (file_info (snd p)) (S (nat (fst p))))"

definition spec_edit :: "VersionEdit \<Rightarrow> (nat \<Rightarrow> file_info set) \<Rightarrow> nat \<Rightarrow> file_info set" where
  "spec_edit e S = fold spec_add (new_files e) (fold spec_delete (deleted_files e) S)"

text \<open>A file that is added has a number that its level has not had, neither in the base nor from an edit.\<close>

definition use_number :: "int \<times> FileMetaData \<Rightarrow> (nat \<Rightarrow> 64 word set) \<Rightarrow> nat \<Rightarrow> 64 word set" where
  "use_number p U = U(nat (fst p) := insert (fm_number (snd p)) (U (nat (fst p))))"

primrec fresh_files :: "(nat \<Rightarrow> 64 word set) \<Rightarrow> (int \<times> FileMetaData) list \<Rightarrow> bool" where
  "fresh_files U [] \<longleftrightarrow> True"
| "fresh_files U (p # ps) \<longleftrightarrow> fm_number (snd p) \<notin> U (nat (fst p)) \<and> fresh_files (use_number p U) ps"

lemma fresh_files_append: "fresh_files U (ps @ qs) \<longleftrightarrow> fresh_files U ps \<and> fresh_files (fold use_number ps U) qs"
  by (induction ps arbitrary: U) auto

section \<open>A level of the builder\<close>

definition level_shows ::
  "Comparator \<Rightarrow> (bytes \<Rightarrow> bool) \<Rightarrow> file_heap \<Rightarrow> fptr list \<Rightarrow> LevelState \<Rightarrow> file_info set \<Rightarrow> 64 word set \<Rightarrow> bool" where
  "level_shows u key_ok h fs ls S U \<longleftrightarrow>
     sorted_wrt (\<lambda>f g. BySmallestKey u (file_at h f) (file_at h g)) (ls_added ls) \<and>
     (\<forall>f \<in> set (fs @ ls_added ls). h f \<noteq> None \<and> file_bounded u key_ok (file_at h f)) \<and>
     distinct (map (\<lambda>f. fm_number (file_at h f)) (fs @ ls_added ls)) \<and>
     S = file_info ` file_at h ` {f \<in> set (fs @ ls_added ls). fm_number (file_at h f) \<notin> ls_deleted ls} \<and>
     U = (\<lambda>f. fm_number (file_at h f)) ` set (fs @ ls_added ls)"

lemma level_showsD:
  assumes "level_shows u key_ok h fs ls S U"
  shows "sorted_wrt (\<lambda>f g. BySmallestKey u (file_at h f) (file_at h g)) (ls_added ls)"
    "f \<in> set (fs @ ls_added ls) \<Longrightarrow> h f \<noteq> None \<and> file_bounded u key_ok (file_at h f)"
    "distinct (map (\<lambda>f. fm_number (file_at h f)) (fs @ ls_added ls))"
    "S = file_info ` file_at h ` {f \<in> set (fs @ ls_added ls). fm_number (file_at h f) \<notin> ls_deleted ls}"
    "U = (\<lambda>f. fm_number (file_at h f)) ` set (fs @ ls_added ls)"
  using assms unfolding level_shows_def by blast+

lemma level_shows_cong:
  assumes "level_shows u key_ok h fs ls S U" and "\<And>f. f \<in> set (fs @ ls_added ls) \<Longrightarrow> h' f = h f"
  shows "level_shows u key_ok h' fs ls S U"
  unfolding level_shows_def
proof (intro conjI)
  note l = level_showsD [OF assms(1)]
  have at: "file_at h' f = file_at h f" if "f \<in> set (fs @ ls_added ls)" for f using assms(2) [OF that] by (simp add: file_at_def)
  show "sorted_wrt (\<lambda>f g. BySmallestKey u (file_at h' f) (file_at h' g)) (ls_added ls)"
    by (rule sorted_wrt_mono_rel [OF _ l(1)]) (use at in auto)
  show "\<forall>f \<in> set (fs @ ls_added ls). h' f \<noteq> None \<and> file_bounded u key_ok (file_at h' f)"
    using l(2) at assms(2) by simp
  have "map (\<lambda>f. fm_number (file_at h' f)) (fs @ ls_added ls) = map (\<lambda>f. fm_number (file_at h f)) (fs @ ls_added ls)"
    by (rule map_cong) (use at in auto)
  then show "distinct (map (\<lambda>f. fm_number (file_at h' f)) (fs @ ls_added ls))" using l(3) by (simp only:)
  have "file_at h' ` {f \<in> set (fs @ ls_added ls). fm_number (file_at h' f) \<notin> ls_deleted ls} =
      file_at h ` {f \<in> set (fs @ ls_added ls). fm_number (file_at h f) \<notin> ls_deleted ls}"
    by (rule image_cong) (use at in auto)
  then show "S = file_info ` file_at h' ` {f \<in> set (fs @ ls_added ls). fm_number (file_at h' f) \<notin> ls_deleted ls}"
    using l(4) by (simp only:)
  have "(\<lambda>f. fm_number (file_at h' f)) ` set (fs @ ls_added ls) = (\<lambda>f. fm_number (file_at h f)) ` set (fs @ ls_added ls)"
    by (rule image_cong) (use at in auto)
  then show "U = (\<lambda>f. fm_number (file_at h' f)) ` set (fs @ ls_added ls)" using l(5) by (simp only:)
qed

lemma level_shows_meta:
  assumes "same_meta h h'"
  shows "level_shows u key_ok h' fs ls S U \<longleftrightarrow> level_shows u key_ok h fs ls S U"
proof -
  have "h' f = None \<longleftrightarrow> h f = None" for f using assms by (auto simp: same_meta_def dest: spec [of _ f])
  moreover have "file_info (file_at h' f) = file_info (file_at h f)" for f by (simp add: file_info_def same_meta_at [OF assms])
  ultimately show ?thesis
    by (simp add: level_shows_def same_meta_at [OF assms] same_meta_order [OF assms] file_bounded_def image_image)
qed

lemma level_delete:
  "level_shows u key_ok h fs ls S U \<Longrightarrow>
    level_shows u key_ok h fs (ls\<lparr>ls_deleted := insert n (ls_deleted ls)\<rparr>) {i \<in> S. fst i \<noteq> n} U"
  by (auto simp: level_shows_def file_info_def)

context user_comparator
begin

lemma order_total:
  assumes "file_bounded u ok f" and "file_bounded u ok g" and "fm_number f \<noteq> fm_number g"
  shows "BySmallestKey u f g \<or> BySmallestKey u g f"
  using assms internal.compare_swap [of "smallest f" "smallest g"] internal.compare_zero [of "smallest f" "smallest g"]
  by (auto simp: BySmallestKey_def file_bounded_def proper_key_def Let_def)

lemma file_bounded_ok: "file_bounded u ok f \<Longrightarrow> internal_ok ok (smallest f) \<and> internal_ok ok (largest f)"
  by (simp add: file_bounded_def proper_key_def)

lemma level_add:
  assumes l: "level_shows u ok h fs ls S U" and n: "fm_number x \<notin> U" and f: "h f = None" and x: "file_bounded u ok x"
  defines "h' \<equiv> h(f \<mapsto> x)"
  shows "level_shows u ok h' fs
      (ls\<lparr>ls_deleted := ls_deleted ls - {fm_number x},
         ls_added := set_insert (\<lambda>f g. BySmallestKey u (file_at h' f) (file_at h' g)) f (ls_added ls)\<rparr>)
      (insert (file_info x) S) (insert (fm_number x) U)"
    and "mset (set_insert (\<lambda>f g. BySmallestKey u (file_at h' f) (file_at h' g)) f (ls_added ls)) = add_mset f (mset (ls_added ls))"
proof -
  let ?lt = "\<lambda>f g. BySmallestKey u (file_at h' f) (file_at h' g)"
  let ?items = "set (fs @ ls_added ls)"
  have old: "g \<noteq> f" "h' g = h g" "file_at h' g = file_at h g" if "g \<in> ?items" for g
  proof -
    have "h g \<noteq> None" using level_showsD(2) [OF l that] by blast
    then show "g \<noteq> f" using f by blast
    then show "h' g = h g" "file_at h' g = file_at h g" by (simp_all add: h'_def file_at_def)
  qed
  have at_f: "file_at h' f = x" by (simp add: h'_def file_at_def)
  have l': "level_shows u ok h' fs ls S U" by (rule level_shows_cong [OF l]) (use old in blast)
  have w: "weak_order ?lt (\<lambda>g. internal_ok ok (smallest (file_at h' g)))"
    using smallest_weak_order unfolding weak_order_def by blast
  have comparable: "\<forall>y \<in> set (ls_added ls). internal_ok ok (smallest (file_at h' y)) \<and> (?lt f y \<or> ?lt y f)"
  proof
    fix y assume y: "y \<in> set (ls_added ls)"
    have "fm_number (file_at h' y) \<in> U" unfolding level_showsD(5) [OF l'] using y by simp
    then have "file_bounded u ok (file_at h' y)" "fm_number x \<noteq> fm_number (file_at h' y)"
      using level_showsD(2) [OF l', of y] y n by auto
    then show "internal_ok ok (smallest (file_at h' y)) \<and> (?lt f y \<or> ?lt y f)"
      using order_total [OF x] file_bounded_ok by (auto simp: at_f)
  qed
  have sorted: "sorted_wrt ?lt (set_insert ?lt f (ls_added ls))"
    and m: "mset (set_insert ?lt f (ls_added ls)) = add_mset f (mset (ls_added ls))"
    using weak_order.set_insert_fresh [OF w, of "ls_added ls" f] l' comparable x file_bounded_ok
    by (auto simp: level_shows_def at_f)
  show "mset (set_insert ?lt f (ls_added ls)) = add_mset f (mset (ls_added ls))" by (rule m)
  have items: "set (fs @ set_insert ?lt f (ls_added ls)) = insert f ?items"
    using arg_cong [OF m, of set_mset] by simp
  have "mset (map (\<lambda>g. fm_number (file_at h' g)) (fs @ set_insert ?lt f (ls_added ls))) =
      mset (map (\<lambda>g. fm_number (file_at h' g)) (f # fs @ ls_added ls))"
    by (simp add: m flip: image_mset_union)
  then have "distinct (map (\<lambda>g. fm_number (file_at h' g)) (fs @ set_insert ?lt f (ls_added ls))) =
      distinct (map (\<lambda>g. fm_number (file_at h' g)) (f # fs @ ls_added ls))" by (rule mset_eq_imp_distinct_iff)
  moreover have "fm_number x \<notin> (\<lambda>g. fm_number (file_at h' g)) ` set (fs @ ls_added ls)" using n level_showsD(5) [OF l'] by simp
  ultimately have dist: "distinct (map (\<lambda>g. fm_number (file_at h' g)) (fs @ set_insert ?lt f (ls_added ls)))"
    using level_showsD(3) [OF l'] at_f by auto
  have "fm_number (file_at h' g) \<noteq> fm_number x" if "g \<in> ?items" for g
    using n that unfolding level_showsD(5) [OF l'] by (metis imageI)
  then have E: "{g \<in> insert f ?items. fm_number (file_at h' g) \<notin> ls_deleted ls - {fm_number x}} =
      insert f {g \<in> ?items. fm_number (file_at h' g) \<notin> ls_deleted ls}"
    using at_f by auto
  let ?ls = "ls\<lparr>ls_deleted := ls_deleted ls - {fm_number x}, ls_added := set_insert ?lt f (ls_added ls)\<rparr>"
  have fields: "ls_deleted ?ls = ls_deleted ls - {fm_number x}" "ls_added ?ls = set_insert ?lt f (ls_added ls)" by simp_all
  show "level_shows u ok h' fs ?ls
      (insert (file_info x) S) (insert (fm_number x) U)"
    unfolding level_shows_def fields items E
  proof (intro conjI)
    show "\<forall>g \<in> insert f ?items. h' g \<noteq> None \<and> file_bounded u ok (file_at h' g)"
      using level_showsD(2) [OF l'] x at_f by (auto simp: h'_def)
    show "insert (file_info x) S = file_info ` file_at h' ` insert f {g \<in> ?items. fm_number (file_at h' g) \<notin> ls_deleted ls}"
      unfolding image_insert at_f level_showsD(4) [OF l'] by (rule refl)
    show "insert (fm_number x) U = (\<lambda>g. fm_number (file_at h' g)) ` insert f ?items"
      unfolding image_insert at_f level_showsD(5) [OF l'] by (rule refl)
  qed (rule sorted dist)+
qed

lemma level_save:
  assumes l: "level_shows u ok h fs ls S U" and fs: "sorted_wrt (\<lambda>f g. \<not> BySmallestKey u (file_at h g) (file_at h f)) fs"
    and apart: "0 < level \<Longrightarrow> \<forall>f g. file_info f \<in> S \<and> file_info g \<in> S \<and> fm_number f \<noteq> fm_number g \<longrightarrow> apart f g \<or> apart g f"
  shows "\<exists>r. save_added u level (ls_deleted ls) (ls_added ls) fs (h, []) = Ret (fold ref_file r h, r) \<and>
    file_info ` file_at h ` set r = S \<and> sorted_wrt (\<lambda>f g. \<not> BySmallestKey u (file_at h g) (file_at h f)) r \<and>
    distinct (map (\<lambda>f. fm_number (file_at h f)) r) \<and> set r \<subseteq> set (fs @ ls_added ls) \<and>
    (\<forall>f \<in> set r. file_bounded u ok (file_at h f)) \<and> (0 < level \<longrightarrow> level_sorted u ok (file_at h) r)"
proof -
  let ?lt = "\<lambda>f g. BySmallestKey u (file_at h f) (file_at h g)"
  let ?m = "merge_files ?lt (ls_added ls) fs"
  let ?r = "filter (\<lambda>f. fm_number (file_at h f) \<notin> ls_deleted ls) ?m"
  have w: "weak_order ?lt (\<lambda>g. internal_ok ok (smallest (file_at h g)))"
    using smallest_weak_order unfolding weak_order_def by blast
  have bounded: "\<forall>f \<in> set fs \<union> set (ls_added ls). file_bounded u ok (file_at h f)" using l by (auto simp: level_shows_def)
  have added: "sorted_wrt (\<lambda>f g. \<not> ?lt g f) (ls_added ls)"
    by (rule sorted_wrt_mono_rel [of _ ?lt]) (use l bounded weak_order.lt_asym [OF w] file_bounded_ok in \<open>auto simp: level_shows_def\<close>)
  have "sorted_wrt (\<lambda>f g. \<not> ?lt g f) ?m"
    using weak_order.merge_in_order [OF w, of "ls_added ls" fs] added fs bounded file_bounded_ok
    by (auto simp: weak_order.in_order_def [OF w])
  then have sorted: "sorted_wrt (\<lambda>f g. \<not> ?lt g f) ?r" by (rule sorted_wrt_filter)
  have "mset (map (\<lambda>g. fm_number (file_at h g)) ?m) = mset (map (\<lambda>g. fm_number (file_at h g)) (fs @ ls_added ls))"
    by (simp add: mset_merge_files)
  then have "distinct (map (\<lambda>g. fm_number (file_at h g)) ?m) = distinct (map (\<lambda>g. fm_number (file_at h g)) (fs @ ls_added ls))"
    by (rule mset_eq_imp_distinct_iff)
  then have "distinct (map (\<lambda>g. fm_number (file_at h g)) ?m)" using level_showsD(3) [OF l] by blast
  then have dist: "distinct (map (\<lambda>g. fm_number (file_at h g)) ?r)" by (simp add: distinct_map_filter)
  have S: "file_info ` file_at h ` set ?r = S" using l by (auto simp: level_shows_def)
  have level: "sorted_wrt (\<lambda>f g. apart (file_at h f) (file_at h g)) ?r" if "0 < level"
  proof (rule in_order_apart [where d = "file_at h"])
    show "distinct ?r" using dist by (simp add: distinct_map)
    show "\<forall>f \<in> set ?r. \<forall>g \<in> set ?r. f \<noteq> g \<longrightarrow> apart (file_at h f) (file_at h g) \<or> apart (file_at h g) (file_at h f)"
    proof (intro ballI impI)
      fix f g assume fg: "f \<in> set ?r" "g \<in> set ?r" "f \<noteq> g"
      then have "fm_number (file_at h f) \<noteq> fm_number (file_at h g)" using dist by (auto simp: distinct_map inj_on_def)
      moreover have "file_info (file_at h f) \<in> S" "file_info (file_at h g) \<in> S" using S fg by blast+
      ultimately show "apart (file_at h f) (file_at h g) \<or> apart (file_at h g) (file_at h f)" using apart [OF that] by blast
    qed
  qed (use sorted bounded in auto)
  have "save_added u level (ls_deleted ls) (ls_added ls) fs (h, []) = Ret (fold ref_file ?r h, [] @ ?r)"
    unfolding save_added_merge
    by (rule MaybeAddFiles_result) (use level in \<open>simp add: apart_def\<close>)
  then show ?thesis
    using S sorted dist bounded level by (intro exI [of _ ?r]) (auto simp: level_sorted_def apart_def)
qed

end

section \<open>The whole builder\<close>

definition builder_shows ::
  "Comparator \<Rightarrow> (bytes \<Rightarrow> bool) \<Rightarrow> file_heap \<Rightarrow> fptr list list \<Rightarrow> Builder \<Rightarrow> (nat \<Rightarrow> file_info set) \<Rightarrow> (nat \<Rightarrow> 64 word set) \<Rightarrow> bool" where
  "builder_shows u key_ok h fss b S U \<longleftrightarrow>
     length (levels b) = kNumLevels \<and> length fss = kNumLevels \<and>
     (\<forall>l < kNumLevels. level_shows u key_ok h (fss ! l) (levels b ! l) (S l) (U l))"

definition builder_uses :: "Builder \<Rightarrow> fptr \<Rightarrow> nat" where
  "builder_uses b f = (\<Sum>ls \<leftarrow> levels b. count_list (ls_added ls) f)"

text \<open>Between the construction of the builder and its end, the set of versions only gets new files.\<close>

definition grows :: "'z VersionSet_scheme \<Rightarrow> 'z VersionSet_scheme \<Rightarrow> bool" where
  "grows vs vs' \<longleftrightarrow> vs_versions vs' = vs_versions vs \<and> version_list vs' = version_list vs \<and> current vs' = current vs \<and>
     (\<forall>f x. vs_files vs f = Some x \<longrightarrow> vs_files vs' f = Some x)"

lemma grows_refl [simp]: "grows vs vs"
  by (simp add: grows_def)

lemma grows_trans: "grows vs vs' \<Longrightarrow> grows vs' vs'' \<Longrightarrow> grows vs vs''"
  by (simp add: grows_def)

lemma nat_level: "level_ok l \<Longrightarrow> nat l < kNumLevels"
  by (auto simp: level_ok_def kNumLevels_def)

lemma update_level_shows:
  assumes "builder_shows u key_ok h fss b S U" and "l < kNumLevels"
    and "level_shows u key_ok h' (fss ! l) (g (levels b ! l)) S' U'" and "\<And>k. k < kNumLevels \<Longrightarrow> k \<noteq> l \<Longrightarrow> level_shows u key_ok h' (fss ! k) (levels b ! k) (S k) (U k)"
  shows "builder_shows u key_ok h' fss (update_level l g b) (S(l := S')) (U(l := U'))"
  using assms by (auto simp: builder_shows_def update_level_def nth_list_update)

lemma count_list_mset: "count_list xs x = count (mset xs) x"
  by (induction xs) auto

lemma update_level_uses:
  assumes "l < length (levels b)" and "mset (ls_added (g (levels b ! l))) = F + mset (ls_added (levels b ! l))"
  shows "builder_uses (update_level l g b) f = builder_uses b f + count F f"
proof -
  have "(\<Sum>ls \<leftarrow> (levels b)[l := g (levels b ! l)]. count_list (ls_added ls) f) =
      (\<Sum>ls \<leftarrow> levels b. count_list (ls_added ls) f) + count_list (ls_added (g (levels b ! l))) f - count_list (ls_added (levels b ! l)) f"
    unfolding map_update using assms(1) by (subst sum_list_update) auto
  then show ?thesis by (simp add: builder_uses_def update_level_def count_list_mset assms(2))
qed

lemma delete_file_shows:
  assumes "builder_shows u key_ok h fss b S U" and "level_ok (fst p)"
  shows "builder_shows u key_ok h fss (delete_file p b) (spec_delete p S) U \<and> builder_uses (delete_file p b) = builder_uses b \<and>
    base (delete_file p b) = base b"
proof -
  note l = nat_level [OF assms(2)]
  have "builder_shows u key_ok h fss (delete_file p b) (S(nat (fst p) := {i \<in> S (nat (fst p)). fst i \<noteq> snd p})) (U(nat (fst p) := U (nat (fst p))))"
    unfolding delete_file_def
    by (rule update_level_shows [OF assms(1) l level_delete]) (use assms(1) l in \<open>auto simp: builder_shows_def\<close>)
  moreover have "builder_uses (delete_file p b) f = builder_uses b f" for f
    using update_level_uses [of "nat (fst p)" b "\<lambda>ls. ls\<lparr>ls_deleted := insert (snd p) (ls_deleted ls)\<rparr>" "{#}" f] l assms(1)
    by (simp add: delete_file_def builder_shows_def)
  ultimately show ?thesis by (auto simp: spec_delete_def delete_file_def update_level_def)
qed

lemma delete_files_shows:
  assumes "builder_shows u key_ok h fss b S U" and "\<forall>p \<in> set ps. level_ok (fst p)"
  shows "builder_shows u key_ok h fss (fold delete_file ps b) (fold spec_delete ps S) U \<and>
    builder_uses (fold delete_file ps b) = builder_uses b \<and> base (fold delete_file ps b) = base b"
  using assms
proof (induction ps arbitrary: b S)
  case (Cons p ps)
  note d = delete_file_shows [OF Cons.prems(1), of p]
  show ?case using Cons.IH [of "delete_file p b" "spec_delete p S"] d Cons.prems(2) by simp
qed simp

context user_comparator
begin

text \<open>One file: it gets a fresh pointer, and the builder holds it.\<close>

lemma alloc_file_inv:
  assumes i: "vs_inv vs vext N" and x: "fm_refs x = 1"
  defines "f \<equiv> next_pointer vs"
  shows "vs_inv (vs\<lparr>vs_files := (vs_files vs)(f \<mapsto> x), next_pointer := f + 1\<rparr>) vext (N(f := 1)) \<and> vs_files vs f = None \<and> N f = 0"
proof -
  let ?vs = "vs\<lparr>vs_files := (vs_files vs)(f \<mapsto> x), next_pointer := f + 1\<rparr>"
  have f: "vs_files vs f = None" using i by (auto simp: vs_inv_def f_def)
  then have none: "file_uses vs f + N f = 0" using vs_invD(4) [OF i] counted_none by blast
  have uses: "file_uses ?vs = file_uses vs" by (rule file_uses_cong) (simp_all add: version_at_def)
  have "counted ((vs_files vs)(f \<mapsto> x)) ((\<lambda>g. file_uses vs g + N g)(f := 1))"
    by (rule counted_alloc [OF vs_invD(4) [OF i] f x])
  then have "counted (vs_files ?vs) (\<lambda>g. file_uses ?vs g + (N(f := 1)) g)"
    unfolding uses using none by (auto elim!: counted_cong)
  moreover have "version_refs_ok ?vs vext" using i by (simp add: vs_inv_def version_refs_ok_def)
  ultimately show ?thesis
    using i f none by (auto simp: vs_inv_def f_def less_Suc_eq)
qed

lemma add_file_shows:
  assumes i: "vs_inv vs vext (\<lambda>f. fext f + builder_uses b f)" and b: "builder_shows u ok (vs_files vs) fss b S U"
    and p: "level_ok (fst p)" "file_bounded u ok (snd p)" "fm_number (snd p) \<notin> U (nat (fst p))"
  shows "\<exists>b' vs'. add_file u p (b, vs) = (b', vs') \<and> vs_inv vs' vext (\<lambda>f. fext f + builder_uses b' f) \<and>
    builder_shows u ok (vs_files vs') fss b' (spec_add p S) (use_number p U) \<and> base b' = base b \<and> grows vs vs'"
proof -
  let ?l = "nat (fst p)" and ?f = "next_pointer vs"
  let ?x = "(snd p)\<lparr>fm_refs := 1, allowed_seeks := seeks_for (fm_file_size (snd p))\<rparr>"
  let ?h = "(vs_files vs)(?f \<mapsto> ?x)"
  let ?g = "\<lambda>ls. ls\<lparr>ls_deleted := ls_deleted ls - {fm_number ?x},
      ls_added := set_insert (\<lambda>f g. BySmallestKey u (file_at ?h f) (file_at ?h g)) ?f (ls_added ls)\<rparr>"
  let ?vs = "vs\<lparr>vs_files := ?h, next_pointer := ?f + 1\<rparr>"
  note l = nat_level [OF p(1)]
  have step: "add_file u p (b, vs) = (update_level ?l ?g b, ?vs)" by (simp add: add_file_def Let_def)
  note alloc = alloc_file_inv [OF i, of ?x, simplified]
  have at: "level_shows u ok (vs_files vs) (fss ! k) (levels b ! k) (S k) (U k)" if "k < kNumLevels" for k
    using b that by (simp add: builder_shows_def)
  have x: "file_bounded u ok ?x" "fm_number ?x \<notin> U ?l" "file_info ?x = file_info (snd p)" "fm_number ?x = fm_number (snd p)"
    using p by (simp_all add: file_bounded_def file_info_def)
  have none: "vs_files vs ?f = None" using alloc by blast
  note la = level_add [OF at [OF l] x(2) none x(1)]
  have new: "builder_shows u ok ?h fss (update_level ?l ?g b) (S(?l := insert (file_info ?x) (S ?l))) (U(?l := insert (fm_number ?x) (U ?l)))"
  proof (rule update_level_shows [where g = ?g, OF b l])
    show "level_shows u ok ?h (fss ! ?l) (?g (levels b ! ?l)) (insert (file_info ?x) (S ?l)) (insert (fm_number ?x) (U ?l))" by (rule la(1))
    fix k assume k: "k < kNumLevels"
    show "level_shows u ok ?h (fss ! k) (levels b ! k) (S k) (U k)"
    proof (rule level_shows_cong [OF at [OF k]])
      fix f assume "f \<in> set (fss ! k @ ls_added (levels b ! k))"
      then have "vs_files vs f \<noteq> None" using level_showsD(2) [OF at [OF k]] by blast
      then show "?h f = vs_files vs f" using none by auto
    qed
  qed
  have "builder_uses (update_level ?l ?g b) f = builder_uses b f + count {#?f#} f" for f
    by (rule update_level_uses) (use b l la(2) in \<open>auto simp: builder_shows_def\<close>)
  then have uses: "(\<lambda>f. fext f + builder_uses (update_level ?l ?g b) f) = (\<lambda>f. fext f + builder_uses b f)(?f := 1)"
    using alloc by auto
  have "vs_inv ?vs vext (\<lambda>f. fext f + builder_uses (update_level ?l ?g b) f)"
    unfolding uses using alloc by simp
  moreover have "grows vs ?vs" using none by (auto simp: grows_def)
  ultimately show ?thesis
    using step new x(3,4) by (auto simp: spec_add_def use_number_def update_level_def)
qed

lemma add_files_shows:
  assumes "vs_inv vs vext (\<lambda>f. fext f + builder_uses b f)" and "builder_shows u ok (vs_files vs) fss b S U"
    and "\<forall>p \<in> set ps. level_ok (fst p) \<and> file_bounded u ok (snd p)" and "fresh_files U ps"
  shows "\<exists>b' vs'. fold (add_file u) ps (b, vs) = (b', vs') \<and> vs_inv vs' vext (\<lambda>f. fext f + builder_uses b' f) \<and>
    builder_shows u ok (vs_files vs') fss b' (fold spec_add ps S) (fold use_number ps U) \<and> base b' = base b \<and> grows vs vs'"
  using assms
proof (induction ps arbitrary: b vs S U)
  case (Cons p ps)
  obtain b1 vs1 where s: "add_file u p (b, vs) = (b1, vs1)" "vs_inv vs1 vext (\<lambda>f. fext f + builder_uses b1 f)"
      "builder_shows u ok (vs_files vs1) fss b1 (spec_add p S) (use_number p U)" "base b1 = base b" "grows vs vs1"
    using add_file_shows [OF Cons.prems(1,2), of p] Cons.prems(3,4) by auto
  have rest: "\<forall>p \<in> set ps. level_ok (fst p) \<and> file_bounded u ok (snd p)" "fresh_files (use_number p U) ps"
    using Cons.prems(3,4) by auto
  obtain b2 vs2 where s2: "fold (add_file u) ps (b1, vs1) = (b2, vs2)" "vs_inv vs2 vext (\<lambda>f. fext f + builder_uses b2 f)"
      "builder_shows u ok (vs_files vs2) fss b2 (fold spec_add ps (spec_add p S)) (fold use_number ps (use_number p U))" "base b2 = base b1" "grows vs1 vs2"
    using Cons.IH [OF s(2,3) rest] by blast
  then show ?case using s grows_trans [OF s(5) s2(5)] by simp
qed auto

lemma set_pointers_inv:
  "vs_inv vs vext N \<Longrightarrow> vs_inv (fold set_pointer ps vs) vext N \<and> vs_files (fold set_pointer ps vs) = vs_files vs \<and> grows vs (fold set_pointer ps vs)"
proof (induction ps arbitrary: vs)
  case (Cons p ps)
  have "file_uses (set_pointer p vs) = file_uses vs" by (rule file_uses_cong) (simp_all add: set_pointer_def version_at_def)
  then have "vs_inv (set_pointer p vs) vext N"
    using Cons.prems by (auto simp: vs_inv_def version_refs_ok_def set_pointer_def)
  then have IH: "vs_inv (fold set_pointer ps (set_pointer p vs)) vext N \<and>
      vs_files (fold set_pointer ps (set_pointer p vs)) = vs_files (set_pointer p vs) \<and>
      grows (set_pointer p vs) (fold set_pointer ps (set_pointer p vs))" by (rule Cons.IH)
  have "grows vs (set_pointer p vs)" "vs_files (set_pointer p vs) = vs_files vs" by (simp_all add: set_pointer_def grows_def)
  then show ?case using IH grows_trans by auto
qed simp

definition edit_good :: "VersionEdit \<Rightarrow> bool" where
  "edit_good e \<longleftrightarrow> edit_ok e \<and> (\<forall>p \<in> set (new_files e). file_bounded u ok (snd p))"

lemma Builder_Apply_shows:
  assumes i: "vs_inv vs vext (\<lambda>f. fext f + builder_uses b f)" and b: "builder_shows u ok (vs_files vs) fss b S U"
    and e: "edit_good e" and fresh: "fresh_files U (new_files e)"
  shows "\<exists>b' vs'. Builder_Apply u e (b, vs) = (b', vs') \<and> vs_inv vs' vext (\<lambda>f. fext f + builder_uses b' f) \<and>
    builder_shows u ok (vs_files vs') fss b' (spec_edit e S) (fold use_number (new_files e) U) \<and> base b' = base b \<and> grows vs vs'"
proof -
  let ?vs = "fold set_pointer (compact_pointers e) vs" and ?b = "fold delete_file (deleted_files e) b"
  note p = set_pointers_inv [OF i, of "compact_pointers e"]
  have "\<forall>p \<in> set (deleted_files e). level_ok (fst p)" using e by (auto simp: edit_good_def edit_ok_def)
  note d = delete_files_shows [OF b this]
  have "vs_inv ?vs vext (\<lambda>f. fext f + builder_uses ?b f)" "builder_shows u ok (vs_files ?vs) fss ?b (fold spec_delete (deleted_files e) S) U"
    using p d by simp_all
  moreover have "\<forall>p \<in> set (new_files e). level_ok (fst p) \<and> file_bounded u ok (snd p)"
    using e by (auto simp: edit_good_def edit_ok_def)
  ultimately obtain b' vs' where "fold (add_file u) (new_files e) (?b, ?vs) = (b', vs')" "vs_inv vs' vext (\<lambda>f. fext f + builder_uses b' f)"
      "builder_shows u ok (vs_files vs') fss b' (fold spec_add (new_files e) (fold spec_delete (deleted_files e) S)) (fold use_number (new_files e) U)"
      "base b' = base ?b" "grows ?vs vs'"
    using add_files_shows [of ?vs vext fext ?b] fresh by blast
  then show ?thesis
    using p d grows_trans by (fastforce simp: Builder_Apply_def Let_def spec_edit_def)
qed

lemma Builder_Applies_show:
  assumes "vs_inv vs vext (\<lambda>f. fext f + builder_uses b f)" and "builder_shows u ok (vs_files vs) fss b S U"
    and "\<forall>e \<in> set es. edit_good e" and "fresh_files U (concat (map new_files es))"
  shows "\<exists>b' vs'. fold (Builder_Apply u) es (b, vs) = (b', vs') \<and> vs_inv vs' vext (\<lambda>f. fext f + builder_uses b' f) \<and>
    builder_shows u ok (vs_files vs') fss b' (fold spec_edit es S) (fold use_number (concat (map new_files es)) U) \<and> base b' = base b \<and> grows vs vs'"
  using assms
proof (induction es arbitrary: b vs S U)
  case (Cons e es)
  have fresh: "fresh_files U (new_files e)" "fresh_files (fold use_number (new_files e) U) (concat (map new_files es))"
    using Cons.prems(4) by (simp_all add: fresh_files_append)
  obtain b1 vs1 where s: "Builder_Apply u e (b, vs) = (b1, vs1)" "vs_inv vs1 vext (\<lambda>f. fext f + builder_uses b1 f)"
      "builder_shows u ok (vs_files vs1) fss b1 (spec_edit e S) (fold use_number (new_files e) U)" "base b1 = base b" "grows vs vs1"
    using Builder_Apply_shows [OF Cons.prems(1,2) _ fresh(1)] Cons.prems(3) by auto
  obtain b2 vs2 where s2: "fold (Builder_Apply u) es (b1, vs1) = (b2, vs2)" "vs_inv vs2 vext (\<lambda>f. fext f + builder_uses b2 f)"
      "builder_shows u ok (vs_files vs2) fss b2 (fold spec_edit es (spec_edit e S)) (fold use_number (concat (map new_files es)) (fold use_number (new_files e) U))"
      "base b2 = base b1" "grows vs1 vs2"
    using Cons.IH [OF s(2,3) _ fresh(2)] Cons.prems(3) by auto
  then show ?case using s grows_trans [OF s(5) s2(5)] by simp
qed auto

end

end
