(* ===== verification/LdbVersionSteps.thy ===== *)
theory LdbVersionSteps
  imports LdbBuilder
begin

text \<open>
  LevelDB, \<^verbatim>\<open>db/version_set.cc\<close>: how one version follows another. A version is built from the
  current one and edits, and then made current or dropped; meanwhile others hold references to
  versions. The theorems say which files the new version has, that it is in order, and what the
  counts of references are in every state that can be reached.
\<close>

section \<open>The steps\<close>

text \<open>The new version with its score; in \<open>LogAndApply\<close> the builder is destroyed before the score is set.\<close>

definition build_version ::
  "Comparator \<Rightarrow> (real \<Rightarrow> real) \<Rightarrow> VersionEdit list \<Rightarrow> 'z VersionSet_scheme \<Rightarrow> (Version \<times> 'z VersionSet_scheme) run" where
  "build_version u rnd es vs =
     (let (b, vs) = fold (Builder_Apply u) es (new_Builder (the (current vs)) vs) in
      run_bind (SaveTo u b vs) (\<lambda>(v, vs).
        run_bind (delete_Builder b vs) (\<lambda>vs. Ret (Finalize rnd (file_at (vs_files vs)) v, vs))))"

text \<open>A version that was never made current.\<close>

definition drop_version :: "Version \<Rightarrow> 'z VersionSet_scheme \<Rightarrow> 'z VersionSet_scheme run" where
  "drop_version v vs = run_bind (run_each release_file (all_files v) (vs_files vs)) (\<lambda>h. Ret (vs\<lparr>vs_files := h\<rparr>))"

section \<open>Versions in order\<close>

definition version_good :: "Comparator \<Rightarrow> (bytes \<Rightarrow> bool) \<Rightarrow> file_heap \<Rightarrow> Version \<Rightarrow> bool" where
  "version_good u key_ok h v \<longleftrightarrow>
     length (v_files v) = kNumLevels \<and>
     (\<forall>l < kNumLevels.
        (\<forall>f \<in> set (v_files v ! l). h f \<noteq> None \<and> file_bounded u key_ok (file_at h f)) \<and>
        distinct (map (\<lambda>f. fm_number (file_at h f)) (v_files v ! l)) \<and>
        sorted_wrt (\<lambda>f g. \<not> BySmallestKey u (file_at h g) (file_at h f)) (v_files v ! l) \<and>
        (0 < l \<longrightarrow> level_sorted u key_ok (file_at h) (v_files v ! l)))"

definition level_contents :: "file_heap \<Rightarrow> Version \<Rightarrow> nat \<Rightarrow> file_info set" where
  "level_contents h v l = file_info ` file_at h ` set (v_files v ! l)"

definition level_numbers :: "file_heap \<Rightarrow> Version \<Rightarrow> nat \<Rightarrow> 64 word set" where
  "level_numbers h v l = (\<lambda>f. fm_number (file_at h f)) ` set (v_files v ! l)"

lemma version_good_ok: "version_good u key_ok h v \<Longrightarrow> version_ok u key_ok (file_at h) v"
  unfolding version_good_def version_ok_def by (auto simp: kNumLevels_def dest: spec [of _ 0])

lemma version_good_new: "version_good u key_ok h new_Version"
  by (auto simp: version_good_def new_Version_def level_sorted_def)

text \<open>Only what the version refers to matters, and not its counts.\<close>

lemma sorted_wrt_iff: "(\<And>f g. f \<in> set fs \<Longrightarrow> g \<in> set fs \<Longrightarrow> P f g = Q f g) \<Longrightarrow> sorted_wrt P fs = sorted_wrt Q fs"
  by (induction fs) auto

lemma info_same: "file_info x = file_info y \<Longrightarrow>
    fm_number x = fm_number y \<and> smallest x = smallest y \<and> largest x = largest y \<and> fm_file_size x = fm_file_size y"
  by (simp add: file_info_def)

lemma version_good_cong:
  assumes "\<And>f. f \<in> set (all_files v) \<Longrightarrow> h f \<noteq> None \<Longrightarrow> h' f \<noteq> None \<and> file_info (file_at h' f) = file_info (file_at h f)"
    and "v_files v' = v_files v" and "version_good u key_ok h v"
  shows "version_good u key_ok h' v' \<and> (\<forall>l < kNumLevels. level_contents h' v' l = level_contents h v l)"
proof -
  have len: "length (v_files v) = kNumLevels" using assms(3) by (simp add: version_good_def)
  have f: "h' f \<noteq> None" "file_info (file_at h' f) = file_info (file_at h f)" if "l < kNumLevels" "f \<in> set (v_files v ! l)" for l f
  proof -
    have "f \<in> set (all_files v)" using that len by (auto simp: all_files_def intro!: bexI [of _ "v_files v ! l"])
    moreover have "h f \<noteq> None" using assms(3) that by (auto simp: version_good_def)
    ultimately show "h' f \<noteq> None" "file_info (file_at h' f) = file_info (file_at h f)" using assms(1) by blast+
  qed
  have "(\<forall>f \<in> set (v_files v ! l). h' f \<noteq> None \<and> file_bounded u key_ok (file_at h' f)) \<and>
        distinct (map (\<lambda>f. fm_number (file_at h' f)) (v_files v ! l)) \<and>
        sorted_wrt (\<lambda>f g. \<not> BySmallestKey u (file_at h' g) (file_at h' f)) (v_files v ! l) \<and>
        (0 < l \<longrightarrow> level_sorted u key_ok (file_at h') (v_files v ! l)) \<and> level_contents h' v' l = level_contents h v l"
    if l: "l < kNumLevels" for l
  proof -
    note same = info_same [OF f(2) [OF l]]
    have g: "(\<forall>f \<in> set (v_files v ! l). h f \<noteq> None \<and> file_bounded u key_ok (file_at h f))" "distinct (map (\<lambda>f. fm_number (file_at h f)) (v_files v ! l))"
      "sorted_wrt (\<lambda>f g. \<not> BySmallestKey u (file_at h g) (file_at h f)) (v_files v ! l)"
      "0 < l \<longrightarrow> level_sorted u key_ok (file_at h) (v_files v ! l)"
      using assms(3) l by (simp_all add: version_good_def)
    have m: "map (\<lambda>f. fm_number (file_at h' f)) (v_files v ! l) = map (\<lambda>f. fm_number (file_at h f)) (v_files v ! l)"
      by (rule map_cong) (use same in auto)
    have b: "\<forall>f \<in> set (v_files v ! l). file_bounded u key_ok (file_at h' f)" using g(1) same by (simp add: file_bounded_def)
    have s: "sorted_wrt (\<lambda>f g. \<not> BySmallestKey u (file_at h' g) (file_at h' f)) (v_files v ! l)"
      using g(3) by (subst sorted_wrt_iff [where Q = "\<lambda>f g. \<not> BySmallestKey u (file_at h g) (file_at h f)"]) (simp_all add: BySmallestKey_def same)
    have "sorted_wrt (\<lambda>f g. internal_compare u (largest (file_at h' f)) (smallest (file_at h' g)) < 0) (v_files v ! l) =
        sorted_wrt (\<lambda>f g. internal_compare u (largest (file_at h f)) (smallest (file_at h g)) < 0) (v_files v ! l)"
      by (rule sorted_wrt_iff) (simp add: same)
    then have "0 < l \<longrightarrow> level_sorted u key_ok (file_at h') (v_files v ! l)" using g(4) b by (simp add: level_sorted_def)
    moreover have "level_contents h' v' l = level_contents h v l"
      unfolding level_contents_def assms(2) image_image by (rule image_cong) (use f(2) [OF l] in auto)
    moreover have "distinct (map (\<lambda>f. fm_number (file_at h' f)) (v_files v ! l))" unfolding m by (rule g(2))
    ultimately show ?thesis using b s f(1) [OF l] by blast
  qed
  then show ?thesis using len assms(2) by (simp add: version_good_def)
qed

section \<open>Saving\<close>

text \<open>In a level above zero, two files of the result must not overlap; this is what the code asserts.\<close>

definition contents_apart :: "Comparator \<Rightarrow> file_info set \<Rightarrow> bool" where
  "contents_apart u S \<longleftrightarrow>
     (\<forall>(n, s, a, b) \<in> S. \<forall>(n', s', a', b') \<in> S. n \<noteq> n' \<longrightarrow> internal_compare u b a' < 0 \<or> internal_compare u b' a < 0)"

lemma run_each_concat: "run_each (\<lambda>x. run_each body (g x)) xs = run_each body (concat (map g xs))"
proof (induction xs)
  case (Cons x xs)
  show ?case
  proof
    fix a show "run_each (\<lambda>x. run_each body (g x)) (x # xs) a = run_each body (concat (map g (x # xs))) a"
      by (simp add: Cons run_each_append)
  qed
qed (simp add: fun_eq_iff)

lemma count_list_concat: "count_list (concat xss) f = (\<Sum>xs \<leftarrow> xss. count_list xs f)"
  by (induction xss) (simp_all add: count_list_append)

context user_comparator
begin

lemma save_level_result:
  assumes l: "level_shows u ok h fs ls S U" and h': "same_meta h h'"
    and fs: "sorted_wrt (\<lambda>f g. \<not> BySmallestKey u (file_at h g) (file_at h f)) fs" and apart: "0 < level \<Longrightarrow> contents_apart u S"
  shows "\<exists>r. save_added u level (ls_deleted ls) (ls_added ls) fs (h', []) = Ret (fold ref_file r h', r) \<and>
    file_info ` file_at h ` set r = S \<and> sorted_wrt (\<lambda>f g. \<not> BySmallestKey u (file_at h g) (file_at h f)) r \<and>
    distinct (map (\<lambda>f. fm_number (file_at h f)) r) \<and> set r \<subseteq> set (fs @ ls_added ls) \<and>
    (\<forall>f \<in> set r. file_bounded u ok (file_at h f)) \<and> (0 < level \<longrightarrow> level_sorted u ok (file_at h) r)"
proof -
  have "file_info (file_at h' f) = file_info (file_at h f)" for f by (simp add: file_info_def same_meta_at [OF h'])
  moreover have "0 < level \<Longrightarrow> \<forall>f g. file_info f \<in> S \<and> file_info g \<in> S \<and> fm_number f \<noteq> fm_number g \<longrightarrow> apart f g \<or> apart g f"
    using apart by (fastforce simp: contents_apart_def apart_def file_info_def)
  ultimately show ?thesis
    using level_save [OF l [folded level_shows_meta [OF h']], of level] fs
    by (simp add: same_meta_order [OF h'] same_meta_at [OF h'] file_bounded_def level_sorted_def image_image)
qed

lemma save_levels_result:
  assumes b: "builder_shows u ok h fss b S U" and x: "v_files x = fss"
    and fs: "\<And>l. l < kNumLevels \<Longrightarrow> sorted_wrt (\<lambda>f g. \<not> BySmallestKey u (file_at h g) (file_at h f)) (fss ! l)"
    and apart: "\<And>l. 0 < l \<Longrightarrow> l < kNumLevels \<Longrightarrow> contents_apart u (S l)"
  shows "n \<le> kNumLevels \<Longrightarrow> \<exists>rs. run_each (save_level u b x) [0..<n] (h, []) = Ret (fold ref_file (concat rs) h, rs) \<and> length rs = n \<and>
    (\<forall>l < n. file_info ` file_at h ` set (rs ! l) = S l \<and>
      sorted_wrt (\<lambda>f g. \<not> BySmallestKey u (file_at h g) (file_at h f)) (rs ! l) \<and>
      distinct (map (\<lambda>f. fm_number (file_at h f)) (rs ! l)) \<and> set (rs ! l) \<subseteq> set (fss ! l @ ls_added (levels b ! l)) \<and>
      (\<forall>f \<in> set (rs ! l). file_bounded u ok (file_at h f)) \<and> (0 < l \<longrightarrow> level_sorted u ok (file_at h) (rs ! l)))"
proof (induction n)
  case (Suc n)
  let ?P = "\<lambda>l r. file_info ` file_at h ` set r = S l \<and>
      sorted_wrt (\<lambda>f g. \<not> BySmallestKey u (file_at h g) (file_at h f)) r \<and>
      distinct (map (\<lambda>f. fm_number (file_at h f)) r) \<and> set r \<subseteq> set (fss ! l @ ls_added (levels b ! l)) \<and>
      (\<forall>f \<in> set r. file_bounded u ok (file_at h f)) \<and> (0 < l \<longrightarrow> level_sorted u ok (file_at h) r)"
  obtain rs where rs: "run_each (save_level u b x) [0..<n] (h, []) = Ret (fold ref_file (concat rs) h, rs)" "length rs = n"
      "\<forall>l < n. ?P l (rs ! l)"
    using Suc by auto
  let ?h = "fold ref_file (concat rs) h"
  have n: "n < kNumLevels" using Suc.prems by simp
  have "level_shows u ok h (fss ! n) (levels b ! n) (S n) (U n)" using b n by (simp add: builder_shows_def)
  then obtain r where r: "save_added u n (ls_deleted (levels b ! n)) (ls_added (levels b ! n)) (fss ! n) (?h, []) = Ret (fold ref_file r ?h, r)" "?P n r"
    using save_level_result [OF _ same_meta_refs fs [OF n], of "levels b ! n" "S n" "U n" n "concat rs"] apart [OF _ n] by blast
  have "save_level u b x n (?h, rs) = Ret (fold ref_file r ?h, rs @ [r])" using r(1) x by (simp add: save_level_def Let_def)
  then have run: "run_each (save_level u b x) [0..<Suc n] (h, []) = Ret (fold ref_file (concat (rs @ [r])) h, rs @ [r])"
    using rs(1) by (simp add: run_each_append)
  have "?P l ((rs @ [r]) ! l)" if "l < Suc n" for l
  proof (cases "l = n")
    case True
    then have "(rs @ [r]) ! l = r" using rs(2) nth_append_length [of rs r "[]"] by simp
    then show ?thesis using r(2) unfolding True by metis
  next
    case False
    then have eq: "(rs @ [r]) ! l = rs ! l" and "l < n" using that rs(2) by (simp_all add: nth_append)
    show ?thesis unfolding eq using rs(3) \<open>l < n\<close> by blast
  qed
  then show ?case using run rs(2) by (intro exI [of _ "rs @ [r]"]) simp
qed simp

lemma SaveTo_result:
  assumes i: "vs_inv vs vext (\<lambda>f. fext f + builder_uses b f)" and b: "builder_shows u ok (vs_files vs) fss b S U"
    and x: "vs_versions vs (base b) = Some x" "v_files x = fss"
    and fs: "\<And>l. l < kNumLevels \<Longrightarrow> sorted_wrt (\<lambda>f g. \<not> BySmallestKey u (file_at (vs_files vs) g) (file_at (vs_files vs) f)) (fss ! l)"
    and apart: "\<And>l. 0 < l \<Longrightarrow> l < kNumLevels \<Longrightarrow> contents_apart u (S l)"
  shows "\<exists>v h. SaveTo u b vs = Ret (v, vs\<lparr>vs_files := h\<rparr>) \<and> v_refs v = 0 \<and> same_meta (vs_files vs) h \<and>
    vs_inv (vs\<lparr>vs_files := h\<rparr>) vext (\<lambda>f. fext f + count_list (all_files v) f + builder_uses b f) \<and>
    version_good u ok (vs_files vs) v \<and> (\<forall>l < kNumLevels. level_contents (vs_files vs) v l = S l)"
proof -
  let ?h = "vs_files vs"
  obtain rs where rs: "run_each (save_level u b x) [0..<kNumLevels] (?h, []) = Ret (fold ref_file (concat rs) ?h, rs)" "length rs = kNumLevels"
    "\<forall>l < kNumLevels. file_info ` file_at ?h ` set (rs ! l) = S l \<and>
      sorted_wrt (\<lambda>f g. \<not> BySmallestKey u (file_at ?h g) (file_at ?h f)) (rs ! l) \<and>
      distinct (map (\<lambda>f. fm_number (file_at ?h f)) (rs ! l)) \<and> set (rs ! l) \<subseteq> set (fss ! l @ ls_added (levels b ! l)) \<and>
      (\<forall>f \<in> set (rs ! l). file_bounded u ok (file_at ?h f)) \<and> (0 < l \<longrightarrow> level_sorted u ok (file_at ?h) (rs ! l))"
    using save_levels_result [OF b x(2) fs apart order.refl] by blast
  let ?v = "new_Version\<lparr>v_files := rs\<rparr>" and ?vs = "vs\<lparr>vs_files := fold ref_file (concat rs) ?h\<rparr>"
  have save: "SaveTo u b vs = Ret (?v, ?vs)" using rs(1) x(1) by (simp add: SaveTo_def version_at_def)
  have some: "?h f \<noteq> None" if "l < kNumLevels" "f \<in> set (rs ! l)" for l f
  proof -
    have "f \<in> set (fss ! l @ ls_added (levels b ! l))" using rs(3) that by blast
    moreover have "level_shows u ok ?h (fss ! l) (levels b ! l) (S l) (U l)" using b that(1) by (simp add: builder_shows_def)
    ultimately show ?thesis using level_showsD(2) by blast
  qed
  have pos: "0 < file_uses vs f + (fext f + builder_uses b f)" if "f \<in> set (concat rs)" for f
    using some that counted_none [OF vs_invD(4) [OF i], of f] rs(2) by (fastforce simp: in_set_conv_nth)
  have "counted (fold ref_file (concat rs) ?h) (\<lambda>f. file_uses vs f + (fext f + count_list (all_files ?v) f + builder_uses b f))"
    by (rule counted_cong [OF counted_refs [OF vs_invD(4) [OF i] pos]]) (simp_all add: all_files_def)
  moreover have "dom (fold ref_file (concat rs) ?h) \<subseteq> dom ?h"
    using same_meta_dom [OF same_meta_refs] by (rule equalityD1)
  ultimately have "vs_inv ?vs vext (\<lambda>f. fext f + count_list (all_files ?v) f + builder_uses b f)" by (rule vs_inv_files [OF i])
  moreover have "version_good u ok ?h ?v" using rs(2,3) some by (simp add: version_good_def)
  moreover have "\<forall>l < kNumLevels. level_contents ?h ?v l = S l" using rs(3) by (simp add: level_contents_def)
  ultimately show ?thesis using save same_meta_refs by (intro exI [of _ ?v] exI [of _ "fold ref_file (concat rs) ?h"]) (simp add: new_Version_def)
qed

lemma delete_Builder_result:
  assumes i: "vs_inv vs vext (\<lambda>f. N f + builder_uses b f)" and c: "current vs = Some (base b)"
    and x: "vs_versions vs (base b) = Some x" "0 < vext (base b)"
  shows "\<exists>h. delete_Builder b vs = Ret (vs\<lparr>vs_files := h, vs_versions := (vs_versions vs)(base b \<mapsto> x\<lparr>v_refs := v_refs x - 1\<rparr>)\<rparr>) \<and>
    vs_inv (vs\<lparr>vs_files := h, vs_versions := (vs_versions vs)(base b \<mapsto> x\<lparr>v_refs := v_refs x - 1\<rparr>)\<rparr>) (vext(base b := vext (base b) - 1)) N \<and>
    keeps (vs_files vs) h"
proof -
  have "count_list (concat (map ls_added (levels b))) f \<le> file_uses vs f + (N f + builder_uses b f)" for f
    by (simp add: count_list_concat builder_uses_def comp_def)
  then obtain h where h: "run_each unref_file (concat (map ls_added (levels b))) (vs_files vs) = Ret h"
      "counted h (\<lambda>f. file_uses vs f + (N f + builder_uses b f) - count_list (concat (map ls_added (levels b))) f)" "keeps (vs_files vs) h"
    using counted_unrefs [OF vs_invD(4) [OF i]] by blast
  let ?vs = "vs\<lparr>vs_files := h\<rparr>"
  have "counted h (\<lambda>f. file_uses vs f + N f)"
    by (rule counted_cong [OF h(2)]) (simp add: count_list_concat builder_uses_def comp_def)
  then have inv: "vs_inv ?vs vext N" by (rule vs_inv_files [OF i _ keeps_uses [OF h(3)]])
  have r: "v_refs x = int (vext (base b)) + 1" using version_refsD [OF vs_invD(3) [OF i] x(1)] c by simp
  have "Version_Unref (base b) ?vs = Ret (?vs\<lparr>vs_versions := (vs_versions vs)(base b \<mapsto> x\<lparr>v_refs := v_refs x - 1\<rparr>)\<rparr>)"
    using x r by (simp add: Version_Unref_def Let_def)
  then show ?thesis
    using Version_Unref_inv [OF inv x(2)] h(1,3) by (auto simp: delete_Builder_def run_each_concat)
qed

text \<open>The block of \<open>LogAndApply\<close> that builds a version, as a whole.\<close>

lemma build_version_result:
  assumes i: "vs_inv vs vext fext" and c: "current vs = Some c" "vs_versions vs c = Some x"
    and x: "version_good u ok (vs_files vs) x" and es: "\<forall>e \<in> set es. edit_good e"
    and fresh: "fresh_files (level_numbers (vs_files vs) x) (concat (map new_files es))"
    and apart: "\<forall>l. 0 < l \<and> l < kNumLevels \<longrightarrow> contents_apart u (fold spec_edit es (level_contents (vs_files vs) x) l)"
  shows "\<exists>v vs'. build_version u rnd es vs = Ret (v, vs') \<and> v_refs v = 0 \<and>
    vs_inv vs' vext (\<lambda>f. fext f + count_list (all_files v) f) \<and> version_good u ok (vs_files vs') v \<and>
    (\<forall>l < kNumLevels. level_contents (vs_files vs') v l = fold spec_edit es (level_contents (vs_files vs) x) l) \<and>
    current vs' = Some c \<and> vs_versions vs' = vs_versions vs \<and> version_list vs' = version_list vs \<and>
    (\<forall>f y. vs_files vs f = Some y \<longrightarrow> (\<exists>y'. vs_files vs' f = Some y' \<and> meta y' = meta y))"
proof -
  let ?h = "vs_files vs" and ?vs = "Version_Ref c vs"
  let ?b = "fst (new_Builder c vs)"
  have new: "new_Builder c vs = (?b, ?vs)" and b0: "base ?b = c" "builder_uses ?b f = 0" for f
    by (simp_all add: new_Builder_def builder_uses_def sum_list_replicate)
  have i1: "vs_inv ?vs (vext(c := vext c + 1)) (\<lambda>f. fext f + builder_uses ?b f)"
    using Version_Ref_inv [OF i c(2)] by (simp add: b0)
  have len: "length (v_files x) = kNumLevels" using x by (simp add: version_good_def)
  have h1: "vs_files ?vs = ?h" by (simp add: Version_Ref_def)
  have show0: "builder_shows u ok (vs_files ?vs) (v_files x) ?b (level_contents ?h x) (level_numbers ?h x)"
    using x unfolding builder_shows_def level_shows_def h1
    by (auto simp: new_Builder_def version_good_def level_contents_def level_numbers_def)
  obtain b vs1 where a: "fold (Builder_Apply u) es (?b, ?vs) = (b, vs1)"
      "vs_inv vs1 (vext(c := vext c + 1)) (\<lambda>f. fext f + builder_uses b f)"
      "builder_shows u ok (vs_files vs1) (v_files x) b (fold spec_edit es (level_contents ?h x)) (fold use_number (concat (map new_files es)) (level_numbers ?h x))"
      "base b = base ?b" "grows ?vs vs1"
    using Builder_Applies_show [OF i1 show0 es fresh] by (elim exE conjE) (rule that)
  note a = a(1-3) a(4) [unfolded b0(1)] a(5)
  have old: "vs_files vs1 f = Some y" if "?h f = Some y" for f y using a(5) that by (simp add: grows_def h1)
  have x1: "vs_versions vs1 (base b) = Some (x\<lparr>v_refs := v_refs x + 1\<rparr>)" using a(4,5) c(2) by (simp add: grows_def Version_Ref_def)
  have sorted: "sorted_wrt (\<lambda>f g. \<not> BySmallestKey u (file_at (vs_files vs1) g) (file_at (vs_files vs1) f)) (v_files x ! l)" if l: "l < kNumLevels" for l
  proof -
    have same: "file_at (vs_files vs1) f = file_at ?h f" if "f \<in> set (v_files x ! l)" for f
      using x l that old by (fastforce simp: version_good_def file_at_def)
    have "sorted_wrt (\<lambda>f g. \<not> BySmallestKey u (file_at ?h g) (file_at ?h f)) (v_files x ! l)" using x l by (simp add: version_good_def)
    then show ?thesis by (subst sorted_wrt_iff [where Q = "\<lambda>f g. \<not> BySmallestKey u (file_at ?h g) (file_at ?h f)"]) (simp_all add: same)
  qed
  obtain v h2 where s: "SaveTo u b vs1 = Ret (v, vs1\<lparr>vs_files := h2\<rparr>)" "v_refs v = 0" "same_meta (vs_files vs1) h2"
      "vs_inv (vs1\<lparr>vs_files := h2\<rparr>) (vext(c := vext c + 1)) (\<lambda>f. fext f + count_list (all_files v) f + builder_uses b f)"
      "version_good u ok (vs_files vs1) v" "\<forall>l < kNumLevels. level_contents (vs_files vs1) v l = fold spec_edit es (level_contents ?h x) l"
    using SaveTo_result [OF a(2,3) x1 _ sorted] apart by fastforce
  let ?vs2 = "vs1\<lparr>vs_files := h2\<rparr>"
  have c2: "current ?vs2 = Some (base b)" "vs_versions ?vs2 (base b) = Some (x\<lparr>v_refs := v_refs x + 1\<rparr>)" "0 < (vext(c := vext c + 1)) (base b)"
    using a(4,5) c(1) x1 by (simp_all add: grows_def Version_Ref_def)
  have vx: "(vext(c := vext c + 1))(base b := (vext(c := vext c + 1)) (base b) - 1) = vext" using a(4) by auto
  obtain h3 where d: "delete_Builder b ?vs2 = Ret (?vs2\<lparr>vs_files := h3, vs_versions := (vs_versions ?vs2)(base b \<mapsto> x)\<rparr>)"
      "vs_inv (?vs2\<lparr>vs_files := h3, vs_versions := (vs_versions ?vs2)(base b \<mapsto> x)\<rparr>) vext (\<lambda>f. fext f + count_list (all_files v) f)" "keeps h2 h3"
    using delete_Builder_result [OF s(4) c2, unfolded vx] by auto
  let ?vs3 = "?vs2\<lparr>vs_files := h3, vs_versions := (vs_versions ?vs2)(base b \<mapsto> x)\<rparr>" and ?v = "Finalize rnd (file_at h3) v"
  have vers: "vs_versions ?vs3 = vs_versions vs" using a(4,5) c(2) by (auto simp: grows_def Version_Ref_def)
  have fin: "v_files ?v = v_files v" "v_refs ?v = v_refs v" by (simp_all add: Finalize_def split: prod.splits)
  have build: "build_version u rnd es vs = Ret (?v, ?vs3)"
    unfolding build_version_def c(1) option.sel by (subst new) (simp add: a(1) s(1) d(1))
  have uses: "file_uses ?vs3 = file_uses vs"
    by (rule file_uses_cong) (use vers a(5) in \<open>simp_all add: grows_def version_at_def Version_Ref_def\<close>)
  have keep: "\<exists>y'. h3 f = Some y' \<and> meta y' = meta y" if f: "vs_files vs1 f = Some y" "h3 f \<noteq> None" for f y
  proof -
    obtain y3 where y3: "h3 f = Some y3" using f(2) by blast
    obtain y2 where "h2 f = Some y2" "meta y2 = meta y3" using d(3) y3 by (fastforce simp: keeps_def)
    moreover have "map_option meta (h2 f) = map_option meta (vs_files vs1 f)" using s(3) by (simp add: same_meta_def)
    ultimately show ?thesis using f(1) y3 by simp
  qed
  have old3: "\<exists>y'. h3 f = Some y' \<and> meta y' = meta y" if "?h f = Some y" for f y
  proof (rule keep [OF old [OF that]])
    have "0 < file_uses vs f + fext f" using countedD [OF vs_invD(4) [OF i] that] by (rule conjunct2)
    then show "h3 f \<noteq> None" using counted_none [OF vs_invD(4) [OF d(2)], of f, unfolded uses] by auto
  qed
  have "h3 f \<noteq> None \<and> file_info (file_at h3 f) = file_info (file_at (vs_files vs1) f)"
    if f: "f \<in> set (all_files v)" "vs_files vs1 f \<noteq> None" for f
  proof -
    have "0 < count_list (all_files v) f" using f(1) by (simp add: count_list_0_iff neq0_conv [symmetric] del: neq0_conv)
    then have n: "h3 f \<noteq> None" using counted_none [OF vs_invD(4) [OF d(2)], of f] by auto
    obtain y where y: "vs_files vs1 f = Some y" using f(2) by blast
    obtain y' where y': "h3 f = Some y'" "meta y' = meta y" using keep [OF y n] by blast
    show ?thesis using y y'(1) meta_same [OF y'(2)] by (simp add: file_at_def file_info_def)
  qed
  then have good: "version_good u ok h3 ?v \<and> (\<forall>l < kNumLevels. level_contents h3 ?v l = level_contents (vs_files vs1) v l)"
    by (rule version_good_cong [OF _ fin(1) s(5)])
  have all: "all_files ?v = all_files v" by (simp add: all_files_def fin)
  show ?thesis
    using build d(2) good s(2,6) vers old3 c(1) a(5)
    by (intro exI [of _ ?v] exI [of _ ?vs3]) (simp add: fin all grows_def Version_Ref_def)
qed

end

section \<open>Reachable states\<close>

text \<open>
  The operations of the database on its versions: numbers move on; a version is built and made current
  (\<open>LogAndApply\<close>, \<open>Recover\<close>), or built and dropped, when the manifest cannot be written; references
  to the current version or to one that is held are taken and given back; a read that needed a seek
  charges a file of the version it read.
\<close>

definition edits_fit :: "Comparator \<Rightarrow> (bytes \<Rightarrow> bool) \<Rightarrow> file_heap \<Rightarrow> Version \<Rightarrow> VersionEdit list \<Rightarrow> bool" where
  "edits_fit u key_ok h x es \<longleftrightarrow>
     (\<forall>e \<in> set es. edit_ok e \<and> (\<forall>p \<in> set (new_files e). file_bounded u key_ok (snd p))) \<and>
     fresh_files (level_numbers h x) (concat (map new_files es)) \<and>
     (\<forall>l. 0 < l \<and> l < kNumLevels \<longrightarrow> contents_apart u (fold spec_edit es (level_contents h x) l))"

inductive vs_reachable :: "Comparator \<Rightarrow> (bytes \<Rightarrow> bool) \<Rightarrow> (real \<Rightarrow> real) \<Rightarrow> VersionSet \<Rightarrow> (vptr \<Rightarrow> nat) \<Rightarrow> bool"
  for u key_ok rnd where
  start: "new_VersionSet = Ret vs \<Longrightarrow> vs_reachable u key_ok rnd vs (\<lambda>_. 0)"
| numbers: "vs_reachable u key_ok rnd vs held \<Longrightarrow>
    vs_reachable u key_ok rnd (vs\<lparr>next_file_number := n, manifest_file_number := m, vs_last_sequence := s,
      vs_log_number := l, vs_prev_log_number := p\<rparr>) held"
| install: "vs_reachable u key_ok rnd vs held \<Longrightarrow> edits_fit u key_ok (vs_files vs) (current_version vs) es \<Longrightarrow>
    build_version u rnd es vs = Ret (v, vs') \<Longrightarrow> AppendVersion v vs' = Ret vs'' \<Longrightarrow> vs_reachable u key_ok rnd vs'' held"
| abandon: "vs_reachable u key_ok rnd vs held \<Longrightarrow> edits_fit u key_ok (vs_files vs) (current_version vs) es \<Longrightarrow>
    build_version u rnd es vs = Ret (v, vs') \<Longrightarrow> drop_version v vs' = Ret vs'' \<Longrightarrow> vs_reachable u key_ok rnd vs'' held"
| ref: "vs_reachable u key_ok rnd vs held \<Longrightarrow> current vs = Some v \<or> 0 < held v \<Longrightarrow>
    vs_reachable u key_ok rnd (Version_Ref v vs) (held(v := held v + 1))"
| unref: "vs_reachable u key_ok rnd vs held \<Longrightarrow> 0 < held v \<Longrightarrow> Version_Unref v vs = Ret vs' \<Longrightarrow>
    vs_reachable u key_ok rnd vs' (held(v := held v - 1))"
| stats: "vs_reachable u key_ok rnd vs held \<Longrightarrow> vs_versions vs v = Some x \<Longrightarrow> l < kNumLevels \<Longrightarrow> f \<in> set (v_files x ! l) \<Longrightarrow>
    UpdateStats \<lparr>seek_file = Some f, seek_file_level = int l\<rparr> (vs_files vs) x = (r, h, x') \<Longrightarrow>
    vs_reachable u key_ok rnd (vs\<lparr>vs_files := h, vs_versions := (vs_versions vs)(v \<mapsto> x')\<rparr>) held"

text \<open>A file that is due for compaction because of seeks is one of the version that says so.\<close>

definition seek_file_ok :: "Version \<Rightarrow> bool" where
  "seek_file_ok x \<longleftrightarrow> (case file_to_compact x of None \<Rightarrow> True
     | Some f \<Rightarrow> \<exists>l < kNumLevels. file_to_compact_level x = int l \<and> f \<in> set (v_files x ! l))"

definition versions_good :: "Comparator \<Rightarrow> (bytes \<Rightarrow> bool) \<Rightarrow> 'z VersionSet_scheme \<Rightarrow> bool" where
  "versions_good u key_ok vs \<longleftrightarrow>
     (\<forall>v x. vs_versions vs v = Some x \<longrightarrow> version_good u key_ok (vs_files vs) x \<and> seek_file_ok x) \<and>
     (\<exists>c x. current vs = Some c \<and> vs_versions vs c = Some x)"

lemma uses_of_version:
  assumes i: "vs_inv vs held fext" and v: "vs_versions vs v = Some x" and f: "f \<in> set (all_files x)"
  shows "0 < file_uses vs f"
proof -
  have "v \<in> set (version_list vs)" using vs_invD(2) [OF i] v by auto
  moreover have "0 < count_list (all_files x) f" using f by (simp add: count_list_0_iff neq0_conv [symmetric] del: neq0_conv)
  ultimately show ?thesis using file_uses_split [OF vs_invD(1) [OF i], of v f] v by (simp add: version_at_def)
qed

lemma versions_good_step:
  assumes i: "vs_inv vs' held' fext'"
    and old: "\<And>v x'. vs_versions vs' v = Some x' \<Longrightarrow> \<exists>x h. version_good u key_ok h x \<and> seek_file_ok x' \<and> v_files x' = v_files x \<and>
      (\<forall>f y y'. h f = Some y \<longrightarrow> vs_files vs' f = Some y' \<longrightarrow> file_info y' = file_info y)"
    and c: "current vs' = Some c" "vs_versions vs' c = Some xc"
  shows "versions_good u key_ok vs'"
  unfolding versions_good_def
proof (intro conjI allI impI)
  fix v x' assume x': "vs_versions vs' v = Some x'"
  obtain x h where x: "version_good u key_ok h x" "seek_file_ok x'" "v_files x' = v_files x"
      "\<forall>f y y'. h f = Some y \<longrightarrow> vs_files vs' f = Some y' \<longrightarrow> file_info y' = file_info y"
    using old [OF x'] by blast
  have "vs_files vs' f \<noteq> None \<and> file_info (file_at (vs_files vs') f) = file_info (file_at h f)"
    if f: "f \<in> set (all_files x)" "h f \<noteq> None" for f
  proof -
    have "0 < file_uses vs' f" by (rule uses_of_version [OF i x']) (use f x(3) in \<open>simp add: all_files_def\<close>)
    then have "vs_files vs' f \<noteq> None" using counted_none [OF vs_invD(4) [OF i], of f] by auto
    then show ?thesis using f(2) x(4) by (auto simp: file_at_def)
  qed
  then show "version_good u key_ok (vs_files vs') x'" using version_good_cong [OF _ x(3) x(1)] by blast
  show "seek_file_ok x'" by (rule x(2))
next
  show "\<exists>c x. current vs' = Some c \<and> vs_versions vs' c = Some x" using c by blast
qed

lemma meta_info: "meta y = meta y' \<Longrightarrow> file_info y' = file_info y"
  using meta_same [of y y'] by (simp add: file_info_def)

lemma versions_keep_good:
  assumes "versions_keep vs vs'" and "versions_good u key_ok vs" and "vs_inv vs' held' fext'" and "current vs' = Some c" "vs_versions vs' c = Some xc"
  shows "versions_good u key_ok vs'"
proof (rule versions_good_step [OF assms(3) _ assms(4,5)])
  fix v x' assume "vs_versions vs' v = Some x'"
  then obtain x where x: "vs_versions vs v = Some x" "core x = core x'" using assms(1) by (auto simp: versions_keep_def)
  have "seek_file_ok x' = seek_file_ok x" using core_same [OF x(2)] by (auto simp: seek_file_ok_def split: option.splits)
  moreover have "file_info y' = file_info y" if "vs_files vs f = Some y" "vs_files vs' f = Some y'" for f y y'
    using assms(1) that meta_info [of y y'] by (auto simp: versions_keep_def keeps_def dest!: spec [of _ f])
  ultimately show "\<exists>x h. version_good u key_ok h x \<and> seek_file_ok x' \<and> v_files x' = v_files x \<and>
      (\<forall>f y y'. h f = Some y \<longrightarrow> vs_files vs' f = Some y' \<longrightarrow> file_info y' = file_info y)"
    using assms(2) x(1) core_same [OF x(2)] unfolding versions_good_def by (intro exI [of _ x] exI [of _ "vs_files vs"]) auto
qed

lemma Finalize_fields [simp]:
  "v_files (Finalize rnd d v) = v_files v" "v_refs (Finalize rnd d v) = v_refs v" "file_to_compact (Finalize rnd d v) = file_to_compact v"
  by (simp_all add: Finalize_def split: prod.splits)

lemma SaveTo_seek: "SaveTo u b vs = Ret (v, vs') \<Longrightarrow> file_to_compact v = None"
  by (auto simp: SaveTo_def run_bind_Ret_iff new_Version_def split: prod.splits)

lemma new_VersionSet_value:
  "new_VersionSet =
     Ret \<lparr>next_file_number = 2, manifest_file_number = 0, vs_last_sequence = 0, vs_log_number = 0, vs_prev_log_number = 0,
       vs_files = Map.empty, vs_versions = [0 \<mapsto> new_Version\<lparr>v_refs := 1\<rparr>], version_list = [0], next_pointer = 1, current = Some 0,
       compact_pointer = replicate kNumLevels []\<rparr>"
  by (simp add: new_VersionSet_def AppendVersion_def new_Version_def Version_Ref_def)

lemma fold_add_mono: "fold (\<lambda>f s. insert (g f) s) fs S = g ` set fs \<union> S"
  by (induction fs arbitrary: S) auto

lemma AddLiveFiles_eq: "AddLiveFiles vs S = (\<lambda>f. fm_number (file_at (vs_files vs) f)) ` (\<Union>v \<in> set (version_list vs). set (all_files (version_at vs v))) \<union> S"
proof -
  have "fold (\<lambda>v live. fold (\<lambda>f. insert (g f)) (all_files (version_at vs v)) live) vl S = g ` (\<Union>v \<in> set vl. set (all_files (version_at vs v))) \<union> S" for vl g
    by (induction vl arbitrary: S) (auto simp: fold_add_mono)
  then show ?thesis by (simp add: AddLiveFiles_def)
qed

lemma file_uses_pos: "0 < file_uses vs f \<longleftrightarrow> (\<exists>v \<in> set (version_list vs). f \<in> set (all_files (version_at vs v)))"
  by (auto simp: file_uses_def count_list_0_iff neq0_conv [symmetric] simp del: neq0_conv)

context user_comparator
begin

lemma built:
  assumes i: "vs_inv vs held (\<lambda>_. 0)" and g: "versions_good u ok vs" and e: "edits_fit u ok (vs_files vs) (current_version vs) es"
    and b: "build_version u rnd es vs = Ret (v, vs')"
  shows "v_refs v = 0 \<and> vs_inv vs' held (\<lambda>f. 0 + count_list (all_files v) f) \<and> version_good u ok (vs_files vs') v \<and> file_to_compact v = None \<and>
    versions_good u ok vs' \<and> (\<exists>c. current vs' = Some c)"
proof -
  obtain c x where c: "current vs = Some c" "vs_versions vs c = Some x" using g by (auto simp: versions_good_def)
  have x: "current_version vs = x" "version_good u ok (vs_files vs) x" using c g by (auto simp: current_version_def version_at_def versions_good_def)
  have apart: "\<forall>l. 0 < l \<and> l < kNumLevels \<longrightarrow> contents_apart u (fold spec_edit es (level_contents (vs_files vs) x) l)"
    using e by (simp add: edits_fit_def x(1))
  have fresh: "fresh_files (level_numbers (vs_files vs) x) (concat (map new_files es))" and good: "\<forall>e \<in> set es. edit_good e"
    using e by (auto simp: edits_fit_def edit_good_def x(1))
  obtain v' vs1 where r: "build_version u rnd es vs = Ret (v', vs1)" "v_refs v' = 0" "vs_inv vs1 held (\<lambda>f. 0 + count_list (all_files v') f)"
      "version_good u ok (vs_files vs1) v'" "current vs1 = Some c" "vs_versions vs1 = vs_versions vs"
      "\<forall>f y. vs_files vs f = Some y \<longrightarrow> (\<exists>y'. vs_files vs1 f = Some y' \<and> meta y' = meta y)"
    using build_version_result [OF i c x(2) good fresh apart, of rnd] by (elim exE conjE) (rule that)
  have eq: "v' = v" "vs1 = vs'" using r(1) b by simp_all
  have "versions_good u ok vs'"
  proof (rule versions_good_step)
    show "vs_inv vs' held (\<lambda>f. 0 + count_list (all_files v) f)" using r(3) eq by simp
    show "current vs' = Some c" "vs_versions vs' c = Some x" using r(5,6) c eq by simp_all
    fix w x' assume w: "vs_versions vs' w = Some x'"
    have "file_info y' = file_info y" if "vs_files vs f = Some y" "vs_files vs' f = Some y'" for f y y'
      using r(7) that meta_info [of y y'] eq by fastforce
    then show "\<exists>x h. version_good u ok h x \<and> seek_file_ok x' \<and> v_files x' = v_files x \<and>
        (\<forall>f y y'. h f = Some y \<longrightarrow> vs_files vs' f = Some y' \<longrightarrow> file_info y' = file_info y)"
      using g w r(6) eq unfolding versions_good_def by (intro exI [of _ x'] exI [of _ "vs_files vs"]) auto
  qed
  moreover have "file_to_compact v = None"
    using b by (auto simp: build_version_def run_bind_Ret_iff SaveTo_seek split: prod.splits)
  ultimately show ?thesis using r(2-5) eq by auto
qed

lemma install_good:
  assumes i: "vs_inv vs held (\<lambda>_. 0)" and g: "versions_good u ok vs" and e: "edits_fit u ok (vs_files vs) (current_version vs) es"
    and b: "build_version u rnd es vs = Ret (v, vs')" and a: "AppendVersion v vs' = Ret vs''"
  shows "vs_inv vs'' held (\<lambda>_. 0) \<and> versions_good u ok vs''"
proof -
  note bt = built [OF i g e b]
  have len: "length (v_files v) = kNumLevels" using bt by (simp add: version_good_def)
  obtain w where w: "vs_inv vs'' held (\<lambda>_. 0)" "current vs'' = Some w" "vs_versions vs'' w = Some (v\<lparr>v_refs := 1\<rparr>)"
      "versions_keep (vs'\<lparr>vs_versions := (vs_versions vs')(w \<mapsto> v)\<rparr>) vs''"
    using AppendVersion_inv [of vs' held "\<lambda>_. 0" v] bt len a by auto
  have "versions_good u ok vs''"
  proof (rule versions_good_step [OF w(1) _ w(2,3)])
    fix p x' assume "vs_versions vs'' p = Some x'"
    then obtain x where x: "((vs_versions vs')(w \<mapsto> v)) p = Some x" "core x = core x'"
      using w(4) unfolding versions_keep_def by (auto simp del: fun_upd_apply)
    have vx: "version_good u ok (vs_files vs') x \<and> seek_file_ok x"
      using x(1) bt by (auto simp: versions_good_def seek_file_ok_def split: if_splits)
    have "seek_file_ok x' = seek_file_ok x" using core_same [OF x(2)] by (auto simp: seek_file_ok_def split: option.splits)
    moreover have "file_info y' = file_info y" if "vs_files vs' f = Some y" "vs_files vs'' f = Some y'" for f y y'
      using w(4) that meta_info [of y y'] by (auto simp: versions_keep_def keeps_def dest!: spec [of _ f])
    ultimately show "\<exists>x h. version_good u ok h x \<and> seek_file_ok x' \<and> v_files x' = v_files x \<and>
        (\<forall>f y y'. h f = Some y \<longrightarrow> vs_files vs'' f = Some y' \<longrightarrow> file_info y' = file_info y)"
      using vx core_same [OF x(2)] by (intro exI [of _ x] exI [of _ "vs_files vs'"]) auto
  qed
  then show ?thesis using w(1) by simp
qed

lemma abandon_good:
  assumes i: "vs_inv vs held (\<lambda>_. 0)" and g: "versions_good u ok vs" and e: "edits_fit u ok (vs_files vs) (current_version vs) es"
    and b: "build_version u rnd es vs = Ret (v, vs')" and a: "drop_version v vs' = Ret vs''"
  shows "vs_inv vs'' held (\<lambda>_. 0) \<and> versions_good u ok vs''"
proof -
  note bt = built [OF i g e b]
  have i': "vs_inv vs' held (\<lambda>f. 0 + count_list (all_files v) f)" using bt by blast
  obtain h where h: "run_each release_file (all_files v) (vs_files vs') = Ret h"
      "counted h (\<lambda>f. file_uses vs' f + (0 + count_list (all_files v) f) - count_list (all_files v) f)" "keeps (vs_files vs') h"
    using counted_release [OF vs_invD(4) [OF i'], of "all_files v"] by auto
  have eq: "vs'' = vs'\<lparr>vs_files := h\<rparr>" using a h(1) by (simp add: drop_version_def)
  have "counted h (\<lambda>f. file_uses vs' f + 0)" by (rule counted_cong [OF h(2)]) simp
  then have inv: "vs_inv vs'' held (\<lambda>_. 0)" unfolding eq by (rule vs_inv_files [OF i' _ keeps_uses [OF h(3)]])
  obtain c x where c: "current vs' = Some c" "vs_versions vs' c = Some x" using bt by (auto simp: versions_good_def)
  have "versions_keep vs' vs''" using h(3) by (simp add: eq versions_keep_def)
  then show ?thesis using inv versions_keep_good [of vs' vs''] bt c by (auto simp: eq)
qed

lemma ref_good:
  assumes i: "vs_inv vs held (\<lambda>_. 0)" and g: "versions_good u ok vs" and v: "current vs = Some v \<or> 0 < held v"
  shows "vs_inv (Version_Ref v vs) (held(v := held v + 1)) (\<lambda>_. 0) \<and> versions_good u ok (Version_Ref v vs)"
proof -
  obtain x where x: "vs_versions vs v = Some x" using vs_inv_held [OF i] v by blast
  have inv: "vs_inv (Version_Ref v vs) (held(v := held v + 1)) (\<lambda>_. 0)" using Version_Ref_inv [OF i x] by simp
  obtain c y where "current vs = Some c" "vs_versions vs c = Some y" using g by (auto simp: versions_good_def)
  then have c: "current (Version_Ref v vs) = Some c" "\<exists>y. vs_versions (Version_Ref v vs) c = Some y" by (auto simp: Version_Ref_def)
  have "versions_keep vs (Version_Ref v vs)" by (auto simp: versions_keep_def Version_Ref_def)
  then show ?thesis using inv versions_keep_good [of vs "Version_Ref v vs"] g c by blast
qed

lemma unref_good:
  assumes i: "vs_inv vs held (\<lambda>_. 0)" and g: "versions_good u ok vs" and v: "0 < held v" and r: "Version_Unref v vs = Ret vs'"
  shows "vs_inv vs' (held(v := held v - 1)) (\<lambda>_. 0) \<and> versions_good u ok vs'"
proof -
  have u: "vs_inv vs' (held(v := held v - 1)) (\<lambda>_. 0)" "current vs' = current vs" "versions_keep vs vs'"
    using Version_Unref_inv [OF i v] r by auto
  obtain c where c: "current vs' = Some c" using g u(2) by (auto simp: versions_good_def)
  then obtain y where "vs_versions vs' c = Some y" using vs_inv_held [OF u(1), of c] by blast
  then show ?thesis using u versions_keep_good [OF u(3) g u(1) c] by blast
qed

lemma stats_good:
  assumes i: "vs_inv vs held (\<lambda>_. 0)" and g: "versions_good u ok vs" and v: "vs_versions vs v = Some x"
    and f: "l < kNumLevels" "f \<in> set (v_files x ! l)" and r: "UpdateStats \<lparr>seek_file = Some f, seek_file_level = int l\<rparr> (vs_files vs) x = (r, h, x')"
  defines "vs' \<equiv> vs\<lparr>vs_files := h, vs_versions := (vs_versions vs)(v \<mapsto> x')\<rparr>"
  shows "vs_inv vs' held (\<lambda>_. 0) \<and> versions_good u ok vs'"
proof -
  have h: "h = (vs_files vs)(f := map_option (\<lambda>m. m\<lparr>allowed_seeks := allowed_seeks m - 1\<rparr>) (vs_files vs f))"
    and x': "v_refs x' = v_refs x" "v_files x' = v_files x" "seek_file_ok x \<Longrightarrow> seek_file_ok x'"
    using r f by (auto simp: UpdateStats_def seek_file_ok_def Let_def split: if_splits option.splits)
  have "file_counted (h g) (file_uses vs g + 0)" for g
    using counted_at [OF vs_invD(4) [OF i], of g] by (cases "vs_files vs g") (auto simp: h)
  then have "counted h (\<lambda>f. file_uses vs f + 0)" by (simp add: counted_def)
  then have i1: "vs_inv (vs\<lparr>vs_files := h\<rparr>) held (\<lambda>_. 0)" by (rule vs_inv_files [OF i]) (auto simp: h split: if_splits)
  have "file_uses vs' = file_uses (vs\<lparr>vs_files := h\<rparr>)"
    by (rule file_uses_cong) (auto simp: vs'_def version_at_def v x')
  moreover have "version_refs_ok vs' (held(v := held v))"
    by (rule version_refs_upd [OF vs_invD(3) [OF i1]])
      (use version_refs_at [OF vs_invD(3) [OF i], of v] v x' in \<open>auto simp: vs'_def\<close>)
  ultimately have inv: "vs_inv vs' held (\<lambda>_. 0)" using i1 v by (auto simp: vs_inv_def vs'_def)
  obtain c y where c: "current vs = Some c" "vs_versions vs c = Some y" using g by (auto simp: versions_good_def)
  have "versions_good u ok vs'"
  proof (rule versions_good_step [OF inv, of _ _ c "if c = v then x' else y"])
    fix w z assume w: "vs_versions vs' w = Some z"
    have "file_info y' = file_info y" if "vs_files vs f = Some y" "vs_files vs' f = Some y'" for f y y'
      using that by (auto simp: vs'_def h file_info_def split: if_splits)
    then show "\<exists>x h. version_good u ok h x \<and> seek_file_ok z \<and> v_files z = v_files x \<and>
        (\<forall>f y y'. h f = Some y \<longrightarrow> vs_files vs' f = Some y' \<longrightarrow> file_info y' = file_info y)"
      using g w v x' unfolding versions_good_def
      by (intro exI [of _ "if w = v then x else z"] exI [of _ "vs_files vs"]) (auto simp: vs'_def split: if_splits)
  qed (use c in \<open>auto simp: vs'_def\<close>)
  then show ?thesis using inv by simp
qed

text \<open>The invariant of reachable states, by induction over the steps.\<close>

lemma reachable_good:
  "vs_reachable u ok rnd vs held \<Longrightarrow> vs_inv vs held (\<lambda>_. 0) \<and> versions_good u ok vs"
proof (induction rule: vs_reachable.induct)
  case (start vs)
  then have vs: "vs = \<lparr>next_file_number = 2, manifest_file_number = 0, vs_last_sequence = 0, vs_log_number = 0, vs_prev_log_number = 0,
       vs_files = Map.empty, vs_versions = [0 \<mapsto> new_Version\<lparr>v_refs := 1\<rparr>], version_list = [0], next_pointer = 1, current = Some 0,
       compact_pointer = replicate kNumLevels []\<rparr>"
    by (simp add: new_VersionSet_value)
  have "version_good u ok Map.empty (new_Version\<lparr>v_refs := 1\<rparr>)"
    using version_good_cong [OF _ _ version_good_new, of Map.empty Map.empty "new_Version\<lparr>v_refs := 1\<rparr>" u ok] by simp
  then show ?case
    by (auto simp: vs vs_inv_def versions_good_def seek_file_ok_def version_refs_ok_def counted_def file_uses_def version_at_def all_files_def new_Version_def)
next
  case (numbers vs held p l s m n)
  let ?vs = "vs\<lparr>next_file_number := n, manifest_file_number := m, vs_last_sequence := s, vs_log_number := l, vs_prev_log_number := p\<rparr>"
  have "file_uses ?vs = file_uses vs" by (rule file_uses_cong) (simp_all add: version_at_def)
  then show ?case using numbers by (simp add: vs_inv_def version_refs_ok_def versions_good_def)
next
  case (install vs held es v vs' vs'')
  show ?case by (rule install_good [OF _ _ install.hyps(2-4)]) (use install.IH in blast)+
next
  case (abandon vs held es v vs' vs'')
  show ?case by (rule abandon_good [OF _ _ abandon.hyps(2-4)]) (use abandon.IH in blast)+
next
  case (ref vs held v)
  show ?case by (rule ref_good [where held = held and v = v, OF _ _ ref.hyps(2)]) (use ref.IH in blast)+
next
  case (unref vs held v vs')
  show ?case by (rule unref_good [where held = held and v = v, OF _ _ unref.hyps(2,3)]) (use unref.IH in blast)+
next
  case (stats vs held v x l f r h x')
  show ?case by (rule stats_good [OF _ _ stats.hyps(2-5)]) (use stats.IH in blast)+
qed

text \<open>Edits that fit can always be applied.\<close>

lemma edits_apply:
  assumes r: "vs_reachable u ok rnd vs held" and e: "edits_fit u ok (vs_files vs) (current_version vs) es"
  shows "\<exists>v vs' vs''. build_version u rnd es vs = Ret (v, vs') \<and> AppendVersion v vs' = Ret vs'' \<and>
    version_good u ok (vs_files vs'') (current_version vs'') \<and>
    (\<forall>l < kNumLevels. level_contents (vs_files vs'') (current_version vs'') l =
      fold spec_edit es (level_contents (vs_files vs) (current_version vs)) l)"
proof -
  have i: "vs_inv vs held (\<lambda>_. 0)" and g: "versions_good u ok vs" using reachable_good [OF r] by auto
  obtain c x where c: "current vs = Some c" "vs_versions vs c = Some x" using g by (auto simp: versions_good_def)
  have x: "current_version vs = x" "version_good u ok (vs_files vs) x" using c g by (auto simp: current_version_def version_at_def versions_good_def)
  have es: "\<forall>e \<in> set es. edit_good e" "fresh_files (level_numbers (vs_files vs) x) (concat (map new_files es))"
    "\<forall>l. 0 < l \<and> l < kNumLevels \<longrightarrow> contents_apart u (fold spec_edit es (level_contents (vs_files vs) x) l)"
    using e by (auto simp: edits_fit_def edit_good_def x(1))
  obtain v vs' where b: "build_version u rnd es vs = Ret (v, vs')" "v_refs v = 0" "vs_inv vs' held (\<lambda>f. 0 + count_list (all_files v) f)"
      "version_good u ok (vs_files vs') v" "\<forall>l < kNumLevels. level_contents (vs_files vs') v l = fold spec_edit es (level_contents (vs_files vs) x) l"
    using build_version_result [OF i c x(2) es, of rnd] by (elim exE conjE) (rule that)
  have len: "length (v_files v) = kNumLevels" using b(4) by (simp add: version_good_def)
  obtain vs'' w where a: "AppendVersion v vs' = Ret vs''" "vs_inv vs'' held (\<lambda>_. 0)" "current vs'' = Some w"
      "vs_versions vs'' w = Some (v\<lparr>v_refs := 1\<rparr>)" "versions_keep (vs'\<lparr>vs_versions := (vs_versions vs')(w \<mapsto> v)\<rparr>) vs''"
    using AppendVersion_inv [OF b(3,2) len] by blast
  have "vs_files vs'' f \<noteq> None \<and> file_info (file_at (vs_files vs'') f) = file_info (file_at (vs_files vs') f)"
    if f: "f \<in> set (all_files v)" "vs_files vs' f \<noteq> None" for f
  proof -
    have "0 < file_uses vs'' f" by (rule uses_of_version [OF a(2,4)]) (use f(1) in \<open>simp add: all_files_def\<close>)
    then have "vs_files vs'' f \<noteq> None" using counted_none [OF vs_invD(4) [OF a(2)], of f] by auto
    then obtain y' where y': "vs_files vs'' f = Some y'" by blast
    have "keeps (vs_files vs') (vs_files vs'')" using a(5) by (simp add: versions_keep_def)
    then obtain y where "vs_files vs' f = Some y" "meta y = meta y'" using y' unfolding keeps_def by blast
    then show ?thesis using y' meta_info [of y y'] by (simp add: file_at_def)
  qed
  moreover have "current_version vs'' = v\<lparr>v_refs := 1\<rparr>" using a(3,4) by (simp add: current_version_def version_at_def)
  ultimately have "version_good u ok (vs_files vs'') (current_version vs'') \<and>
      (\<forall>l < kNumLevels. level_contents (vs_files vs'') (current_version vs'') l = level_contents (vs_files vs') v l)"
    by (intro version_good_cong [OF _ _ b(4)]) auto
  then show ?thesis using b(1,5) a(1) x(1) by auto
qed

end

section \<open>The score\<close>

lemma MaxBytes_values: "0 < level \<Longrightarrow> level < 6 \<Longrightarrow> MaxBytesForLevel level = 10485760 * 10 ^ (level - 1)"
proof -
  have "scale_level n r = r * 10 ^ n" for n r by (induction n arbitrary: r) simp_all
  then show "0 < level \<Longrightarrow> level < 6 \<Longrightarrow> MaxBytesForLevel level = 10485760 * 10 ^ (level - 1)" by (simp add: MaxBytesForLevel_def)
qed

lemma fold_better:
  "(\<exists>l \<in> set ls. fold (better_level rnd d v) ls b = (int l, level_score rnd d v l)) \<or> fold (better_level rnd d v) ls b = b"
  "snd b \<le> snd (fold (better_level rnd d v) ls b) \<and> (\<forall>l \<in> set ls. level_score rnd d v l \<le> snd (fold (better_level rnd d v) ls b))"
proof (induction ls arbitrary: b)
  case (Cons l ls)
  { case 1 then show ?case using Cons(1) [of "better_level rnd d v l b"] by (auto simp: better_level_def Let_def split: if_splits) }
  { case 2 then show ?case using Cons(2) [of "better_level rnd d v l b"] by (fastforce simp: better_level_def Let_def split: if_splits) }
qed simp_all

text \<open>What the rounding of doubles promises here: it is monotone, exact on integers up to \<open>2 ^ 53\<close> and on small dyadic quotients near one.\<close>

definition ieee_like :: "(real \<Rightarrow> real) \<Rightarrow> bool" where
  "ieee_like rnd \<longleftrightarrow> (\<forall>x y. x \<le> y \<longrightarrow> rnd x \<le> rnd y) \<and> (\<forall>n :: nat. n \<le> 2 ^ 53 \<longrightarrow> rnd (real n) = real n) \<and> rnd (1 - 1 / 2 ^ 53) = 1 - 1 / 2 ^ 53"

lemma quotient_below:
  fixes s m :: real
  assumes "ieee_like rnd" and "0 < m" and "m \<le> 2 ^ 52" and "s \<le> m - 1"
  shows "rnd (s / m) < 1"
proof -
  have "1 / 2 ^ 53 \<le> 1 / m" using assms(2,3) by (intro divide_left_mono) auto
  moreover have "s / m \<le> (m - 1) / m" using assms(2,4) by (intro divide_right_mono) auto
  moreover have "(m - 1) / m = 1 - 1 / m" using assms(2) by (simp add: field_simps)
  ultimately have "s / m \<le> 1 - 1 / 2 ^ 53" by linarith
  then have "rnd (s / m) \<le> rnd (1 - 1 / 2 ^ 53)" using assms(1) by (simp add: ieee_like_def)
  also have "\<dots> = 1 - 1 / 2 ^ 53" using assms(1) by (simp add: ieee_like_def)
  also have "\<dots> < 1" by simp
  finally show ?thesis .
qed

lemma score_over:
  assumes r: "ieee_like rnd" and m: "0 < m" "m \<le> 2 ^ 52"
  shows "1 \<le> rnd (rnd (real s) / real m) \<longleftrightarrow> m \<le> s"
proof -
  have mono: "x \<le> y \<Longrightarrow> rnd x \<le> rnd y" for x y using r by (simp add: ieee_like_def)
  have exact: "n \<le> 2 ^ 53 \<Longrightarrow> rnd (real n) = real n" for n using r by (simp add: ieee_like_def)
  show ?thesis
  proof (cases "m \<le> s")
    case True
    have "real m = rnd (real m)" using exact [of m] m by simp
    also have "\<dots> \<le> rnd (real s)" by (rule mono [OF of_nat_mono [OF True]])
    finally have "1 \<le> rnd (real s) / real m" using m(1) by simp
    then have "rnd (real (1 :: nat)) \<le> rnd (rnd (real s) / real m)" by (intro mono) simp
    then show ?thesis using exact [of 1] True by simp
  next
    case False
    then have s: "rnd (real s) = real s" "real s \<le> real m - 1" using exact [of s] m by auto
    have "real m \<le> 2 ^ 52" using of_nat_mono [OF m(2), where 'a = real] by simp
    then have "rnd (real s / real m) < 1" by (intro quotient_below [OF r]) (use m(1) s(2) in auto)
    then show ?thesis using False s(1) by simp
  qed
qed

lemma level_score_over:
  assumes r: "ieee_like rnd" and l: "0 < l" "l < 6"
  shows "1 \<le> level_score rnd d v l \<longleftrightarrow> 10485760 * 10 ^ (l - 1) \<le> unat (TotalFileSize d (v_files v ! l))"
proof -
  let ?m = "10485760 * 10 ^ (l - 1) :: nat"
  have "(10 :: nat) ^ (l - 1) \<le> 10 ^ 4" using l(2) by (intro power_increasing) auto
  then have m: "0 < ?m" "?m \<le> 2 ^ 52" by auto
  have "MaxBytesForLevel l = real ?m" using MaxBytes_values [OF l] by simp
  then have "level_score rnd d v l = rnd (rnd (real (unat (TotalFileSize d (v_files v ! l)))) / real ?m)"
    unfolding level_score_def using l(1) by (simp only: if_not_P not_gr_zero)
  then show ?thesis using score_over [OF r m, of "unat (TotalFileSize d (v_files v ! l))"] by (simp only:)
qed

section \<open>Properties\<close>


text \<open>
  C10. The references, in every reachable set of versions: a file exists exactly while a version lists
  it, and its count is the number of times; a version exists exactly while it is current or held, and
  its count says so; a reference that is held can be given back without a failed assertion; and the
  files reported as live are the files that exist.
\<close>
theorem version_references:
  assumes uc: "user_comparator u key_ok" and r: "vs_reachable u key_ok rnd vs held"
  shows "(\<forall>f. case vs_files vs f of
      None \<Rightarrow> \<forall>v x. vs_versions vs v = Some x \<longrightarrow> f \<notin> set (all_files x)
    | Some y \<Rightarrow> fm_refs y = int (\<Sum>v \<leftarrow> version_list vs. count_list (all_files (version_at vs v)) f) \<and> 0 < fm_refs y) \<and>
   (\<forall>v. case vs_versions vs v of
      None \<Rightarrow> held v = 0 \<and> current vs \<noteq> Some v
    | Some x \<Rightarrow> v_refs x = int (held v) + (if current vs = Some v then 1 else 0) \<and> 0 < v_refs x \<and>
        (0 < held v \<longrightarrow> (\<exists>vs'. Version_Unref v vs = Ret vs'))) \<and>
   AddLiveFiles vs {} = {fm_number y |f y. vs_files vs f = Some y}"
proof (intro conjI allI)
  have i: "vs_inv vs held (\<lambda>_. 0)" using user_comparator.reachable_good [OF uc r] by blast
  have count: "file_counted (vs_files vs f) (file_uses vs f)" for f using counted_at [OF vs_invD(4) [OF i], of f] by simp
  fix f show "case vs_files vs f of
      None \<Rightarrow> \<forall>v x. vs_versions vs v = Some x \<longrightarrow> f \<notin> set (all_files x)
    | Some y \<Rightarrow> fm_refs y = int (\<Sum>v \<leftarrow> version_list vs. count_list (all_files (version_at vs v)) f) \<and> 0 < fm_refs y"
  proof (cases "vs_files vs f")
    case None
    then have "file_uses vs f = 0" using count [of f] by simp
    then have "f \<notin> set (all_files x)" if "vs_versions vs v = Some x" for v x using uses_of_version [OF i that, of f] by auto
    then show ?thesis using None by simp
  next
    case (Some y)
    then show ?thesis using count [of f] by (simp add: file_uses_def)
  qed
next
  have i: "vs_inv vs held (\<lambda>_. 0)" using user_comparator.reachable_good [OF uc r] by blast
  fix v show "case vs_versions vs v of
      None \<Rightarrow> held v = 0 \<and> current vs \<noteq> Some v
    | Some x \<Rightarrow> v_refs x = int (held v) + (if current vs = Some v then 1 else 0) \<and> 0 < v_refs x \<and> (0 < held v \<longrightarrow> (\<exists>vs'. Version_Unref v vs = Ret vs'))"
    using version_refs_at [OF vs_invD(3) [OF i], of v] Version_Unref_inv [OF i, of v] by (cases "vs_versions vs v") auto
next
  have i: "vs_inv vs held (\<lambda>_. 0)" using user_comparator.reachable_good [OF uc r] by blast
  have "(\<exists>v \<in> set (version_list vs). f \<in> set (all_files (version_at vs v))) \<longleftrightarrow> vs_files vs f \<noteq> None" for f
    using counted_none [OF vs_invD(4) [OF i], of f] file_uses_pos [of vs f] by auto
  then have "(\<Union>v \<in> set (version_list vs). set (all_files (version_at vs v))) = dom (vs_files vs)" by auto
  then show "AddLiveFiles vs {} = {fm_number y |f y. vs_files vs f = Some y}"
    unfolding AddLiveFiles_eq by (force simp: file_at_def image_def)
qed

text \<open>
  C19. The score of a version, with any rounding that is monotone and exact on the doubles used here: a
  compaction is due exactly when there are four files in level zero or when a level from one to five
  holds its ten, hundred, \<dots> megabytes; the level that is recorded is one with the best score.
\<close>
theorem compaction_due:
  assumes r: "ieee_like rnd"
  shows "(1 \<le> compaction_score (Finalize rnd d v) \<longleftrightarrow> 4 \<le> length (v_files v ! 0) \<or>
      (\<exists>l. 0 < l \<and> l < 6 \<and> 10485760 * 10 ^ (l - 1) \<le> unat (TotalFileSize d (v_files v ! l)))) \<and>
    (\<exists>l < 6. compaction_level (Finalize rnd d v) = int l \<and> compaction_score (Finalize rnd d v) = level_score rnd d v l \<and>
      (\<forall>l' < 6. level_score rnd d v l' \<le> level_score rnd d v l))"
proof -
  let ?f = "fold (better_level rnd d v) [0..<6] (- 1, - 1)"
  have fin: "compaction_level (Finalize rnd d v) = fst ?f" "compaction_score (Finalize rnd d v) = snd ?f"
    by (simp_all add: Finalize_def kNumLevels_def split: prod.splits)
  have best: "level_score rnd d v l \<le> snd ?f" if "l < 6" for l using fold_better(2) [of "(- 1, - 1)" rnd d v "[0..<6]"] that by simp
  have "0 \<le> level_score rnd d v 0" by (simp add: level_score_def)
  then have "?f \<noteq> (- 1, - 1)" using best [of 0] by auto
  then obtain l where l: "l < 6" "?f = (int l, level_score rnd d v l)" using fold_better(1) [of "[0..<6]" rnd d v "(- 1, - 1)"] by auto
  have zero: "1 \<le> level_score rnd d v 0 \<longleftrightarrow> 4 \<le> length (v_files v ! 0)" by (simp add: level_score_def kL0_CompactionTrigger_def)
  have "1 \<le> snd ?f \<longleftrightarrow> (\<exists>l < 6. 1 \<le> level_score rnd d v l)"
    using l best order_trans [of 1] by (metis snd_conv)
  also have "\<dots> \<longleftrightarrow> 4 \<le> length (v_files v ! 0) \<or> (\<exists>l. 0 < l \<and> l < 6 \<and> 1 \<le> level_score rnd d v l)"
    using zero by (metis gr0I zero_less_numeral)
  also have "\<dots> \<longleftrightarrow> 4 \<le> length (v_files v ! 0) \<or>
      (\<exists>l. 0 < l \<and> l < 6 \<and> 10485760 * 10 ^ (l - 1) \<le> unat (TotalFileSize d (v_files v ! l)))"
    using level_score_over [OF r] by blast
  finally show ?thesis using fin l best by auto
qed

section \<open>Concrete inputs\<close>

definition info_d_f :: FileMetaData where
  "info_d_f = new_FileMetaData\<lparr>fm_number := 8, fm_file_size := 500,
     smallest := new_InternalKey (ascii ''d'') 4 kTypeValue, largest := new_InternalKey (ascii ''f'') 2 kTypeValue\<rparr>"

definition info_a_c :: FileMetaData where
  "info_a_c = new_FileMetaData\<lparr>fm_number := 7, fm_file_size := 400,
     smallest := new_InternalKey (ascii ''a'') 3 kTypeValue, largest := new_InternalKey (ascii ''c'') 1 kTypeValue\<rparr>"

definition two_files_edit :: VersionEdit where
  "two_files_edit = new_VersionEdit\<lparr>new_files := [(1, info_d_f), (1, info_a_c)]\<rparr>"

definition first_set :: VersionSet where
  "first_set =
     \<lparr>next_file_number = 2, manifest_file_number = 0, vs_last_sequence = 0, vs_log_number = 0, vs_prev_log_number = 0,
       vs_files = Map.empty, vs_versions = [0 \<mapsto> new_Version\<lparr>v_refs := 1\<rparr>], version_list = [0], next_pointer = 1, current = Some 0,
       compact_pointer = replicate kNumLevels []\<rparr>"

lemma first_reachable: "vs_reachable u key_ok rnd first_set (\<lambda>_. 0)"
  by (rule vs_reachable.start) (simp add: new_VersionSet_value first_set_def)

lemma first_version:
  "current_version first_set = new_Version\<lparr>v_refs := 1\<rparr>" "vs_files first_set = Map.empty"
  "l < kNumLevels \<Longrightarrow> level_contents h (new_Version\<lparr>v_refs := 1\<rparr>) l = {}" "l < kNumLevels \<Longrightarrow> level_numbers h (new_Version\<lparr>v_refs := 1\<rparr>) l = {}"
  by (simp_all add: current_version_def first_set_def version_at_def level_contents_def level_numbers_def new_Version_def)

lemma bounded_new_keys:
  assumes "Compare u a b < 0" and "valid_seq s" and "valid_seq s'" and "key_ok a" and "key_ok b"
    and "smallest f = new_InternalKey a s kTypeValue" and "largest f = new_InternalKey b s' kTypeValue"
  shows "file_bounded u key_ok f"
  using assms compare_new_keys [OF assms(1), of s kTypeValue s' kTypeValue] by (simp add: file_bounded_def proper_new_key less_imp_le)

lemma example_infos:
  "file_bounded BytewiseComparator (\<lambda>_. True) info_a_c" "file_bounded BytewiseComparator (\<lambda>_. True) info_d_f"
  "internal_compare BytewiseComparator (largest info_a_c) (smallest info_d_f) < 0" "file_ok info_a_c" "file_ok info_d_f"
proof -
  show "file_bounded BytewiseComparator (\<lambda>_. True) info_a_c"
    by (rule bounded_new_keys [of _ "ascii ''a''" "ascii ''c''" 3 1]) (simp_all add: info_a_c_def ascii_def valid_seq_unat)
  show "file_bounded BytewiseComparator (\<lambda>_. True) info_d_f"
    by (rule bounded_new_keys [of _ "ascii ''d''" "ascii ''f''" 4 2]) (simp_all add: info_d_f_def ascii_def valid_seq_unat)
  have "internal_compare BytewiseComparator (new_InternalKey (ascii ''c'') 1 kTypeValue) (new_InternalKey (ascii ''d'') 4 kTypeValue) < 0"
    by (rule compare_new_keys) (simp add: ascii_def)
  then show "internal_compare BytewiseComparator (largest info_a_c) (smallest info_d_f) < 0" by (simp add: info_a_c_def info_d_f_def)
qed (simp_all add: file_ok_def info_a_c_def info_d_f_def new_FileMetaData_def short_def new_InternalKey_suffixed ascii_def)

lemma two_files_spec: "spec_edit two_files_edit S = S(1 := insert (file_info info_a_c) (insert (file_info info_d_f) (S 1)))"
  by (simp add: spec_edit_def two_files_edit_def new_VersionEdit_def Edit_Clear_def spec_add_def)

lemma two_files_fit: "edits_fit BytewiseComparator (\<lambda>_. True) (vs_files first_set) (current_version first_set) [two_files_edit]"
  unfolding edits_fit_def
proof (intro conjI)
  show "\<forall>e \<in> set [two_files_edit]. edit_ok e \<and> (\<forall>p \<in> set (new_files e). file_bounded BytewiseComparator (\<lambda>_. True) (snd p))"
    using example_infos by (simp add: two_files_edit_def edit_ok_def new_VersionEdit_def Edit_Clear_def level_ok_def short_def kNumLevels_def)
  show "fresh_files (level_numbers (vs_files first_set) (current_version first_set)) (concat (map new_files [two_files_edit]))"
    by (simp add: two_files_edit_def use_number_def first_version kNumLevels_def info_a_c_def info_d_f_def)
  show "\<forall>l. 0 < l \<and> l < kNumLevels \<longrightarrow>
      contents_apart BytewiseComparator (fold spec_edit [two_files_edit] (level_contents (vs_files first_set) (current_version first_set)) l)"
    using example_infos(3) by (simp add: two_files_spec first_version contents_apart_def file_info_def kNumLevels_def)
qed


theorem version_references_witness:
  "\<exists>v vs' vs''. build_version BytewiseComparator (\<lambda>x. x) [two_files_edit] first_set = Ret (v, vs') \<and> AppendVersion v vs' = Ret vs'' \<and>
     AddLiveFiles vs'' {} = {fm_number y |f y. vs_files vs'' f = Some y}"
proof -
  obtain v vs' vs'' where r: "build_version BytewiseComparator (\<lambda>x. x) [two_files_edit] first_set = Ret (v, vs')" "AppendVersion v vs' = Ret vs''"
    using bytewise_keys.edits_apply [OF first_reachable two_files_fit, of "\<lambda>x. x"] by blast
  have "vs_reachable BytewiseComparator (\<lambda>_. True) (\<lambda>x. x) vs'' (\<lambda>_. 0)"
    by (rule vs_reachable.install [OF first_reachable two_files_fit r])
  then show ?thesis using version_references [OF bytewise_keys.user_comparator_axioms] r by blast
qed

theorem compaction_due_witness:
  "1 \<le> compaction_score (Finalize (\<lambda>x. x) (\<lambda>_. new_FileMetaData) (new_Version\<lparr>v_files := [0, 1, 2, 3] # replicate 6 []\<rparr>))"
  using compaction_due [of "\<lambda>x. x" "\<lambda>_. new_FileMetaData" "new_Version\<lparr>v_files := [0, 1, 2, 3] # replicate 6 []\<rparr>"] by (simp add: ieee_like_def)

end
