(* ===== verification/LdbMemIter.thy ===== *)
theory LdbMemIter
  imports LdbMemTable LdbIterator
begin

text \<open>
  LevelDB, \<^verbatim>\<open>db/memtable.cc\<close>: the iterator of a memtable as an object of the iterator interface,
  which holds a pointer to the skip list. It meets the contract for the sorted list of what has been
  added.
\<close>

section \<open>The iterator\<close>

type_synonym mem_iter = "MemTable \<times> skip_iter"

definition MemTable_NewIterator :: "MemTable \<Rightarrow> mem_iter" where
  "MemTable_NewIterator m = (m, None)"

text \<open>The loops of the skip list that do not end are \<open>NoFuel\<close>.\<close>

definition mem_op :: "(MemTable \<Rightarrow> skip_iter \<Rightarrow> skip_iter option) \<Rightarrow> mem_iter \<Rightarrow> mem_iter run" where
  "mem_op f i = (case f (fst i) (snd i) of None \<Rightarrow> NoFuel | Some n \<Rightarrow> Ret (fst i, n))"

definition MemTableIterator :: "Comparator \<Rightarrow> mem_iter Iter" where
  "MemTableIterator u =
     \<lparr>it_Valid = (\<lambda>i. SkipIter_Valid (snd i)), it_SeekToFirst = mem_op (\<lambda>m _. Some (MemIter_SeekToFirst m)),
      it_SeekToLast = mem_op (\<lambda>m _. MemIter_SeekToLast m), it_Seek = (\<lambda>k. mem_op (\<lambda>m _. MemIter_Seek u m k)),
      it_Next = mem_op (\<lambda>m n. Some (MemIter_Next m n)), it_Prev = mem_op (MemIter_Prev u),
      it_key = (\<lambda>i. MemIter_key (fst i) (snd i)), it_value = (\<lambda>i. MemIter_value (fst i) (snd i)), it_status = (\<lambda>_. OK)\<rparr>"

section \<open>The contract\<close>

text \<open>Keys whose encoded form can be sought; the entry of an addition.\<close>

definition seek_ok :: "(bytes \<Rightarrow> bool) \<Rightarrow> bytes \<Rightarrow> bool" where
  "seek_ok key_ok k \<longleftrightarrow> internal_ok key_ok k \<and> length k < 2 ^ 32"

definition add_entry :: "mem_add \<Rightarrow> bytes \<times> bytes" where
  "add_entry a = (encode_key (fst a), snd a)"

definition entry_pair :: "bytes \<Rightarrow> bytes \<times> bytes" where
  "entry_pair e = (case entry_slice e of (k, r) \<Rightarrow> (k, fst (entry_slice r)))"

lemma entry_pair_add: "good_add key_ok a \<Longrightarrow> entry_pair (entry_of a) = add_entry a"
  by (simp add: entry_pair_def add_entry_def entry_slices encode_key_append)

lemma add_entry_ok: "good_add key_ok a \<Longrightarrow> seek_ok key_ok (fst (add_entry a))"
  by (auto simp: good_add_def add_entry_def seek_ok_def encode_key_append)

definition mem_at :: "MemTable \<Rightarrow> nat list \<Rightarrow> mem_iter \<Rightarrow> nat \<Rightarrow> bool" where
  "mem_at m ns i p \<longleftrightarrow> p \<le> length ns \<and> i = (m, iter_at ns p)"

context user_comparator
begin

lemma seek_order: "key_order (internal_compare u) (seek_ok ok)"
proof
  fix a b d
  assume "seek_ok ok a" "seek_ok ok b"
  then show "internal_compare u b a \<le> 0 \<longleftrightarrow> 0 \<le> internal_compare u a b"
    using internal.compare_swap [of a b] by (simp add: seek_ok_def)
  assume "seek_ok ok d" "internal_compare u a b \<le> 0" "internal_compare u b d \<le> 0"
  then show "internal_compare u a d \<le> 0"
    using \<open>seek_ok ok a\<close> \<open>seek_ok ok b\<close> internal.compare_trans [of a b d] by (simp add: seek_ok_def)
qed

lemma MemTable_iterator:
  assumes "mem_rep u ok m adds"
  shows "\<exists>ns kvs. sorted_entries (internal_compare u) (seek_ok ok) kvs \<and> mset kvs = mset (map add_entry adds) \<and>
    iterator (MemTableIterator u) (internal_compare u) (seek_ok ok) kvs (\<lambda>i. fst i = m) (mem_at m ns)"
proof -
  obtain ns ks where ks: "represents (KeyComparator u) (entry_ok ok) (table m) ns ks" "mset ks = mset (map entry_of adds)"
      and good: "list_all (good_add ok) adds"
    using assms by (auto simp: mem_rep_def)
  have len: "length ns = length ks" using ks(1) by (simp add: represents_def)
  let ?kvs = "map entry_pair ks"
  have pair: "fst (entry_pair e) = fst (entry_slice e)" for e by (simp add: entry_pair_def split: prod.split)
  have adds: "mset ?kvs = mset (map add_entry adds)"
  proof -
    have "mset ?kvs = image_mset entry_pair (mset (map entry_of adds))" using ks(2) by simp
    also have "\<dots> = mset (map (entry_pair \<circ> entry_of) adds)" by (simp only: mset_map [symmetric] map_map)
    also have "map (entry_pair \<circ> entry_of) adds = map add_entry adds"
      using good by (intro map_cong) (auto simp: list_all_iff entry_pair_add)
    finally show ?thesis .
  qed
  have set: "set ?kvs = add_entry ` set adds" using mset_eq_setD [OF adds] by simp
  have sorted: "sorted_entries (internal_compare u) (seek_ok ok) ?kvs"
    unfolding sorted_entries_def
  proof
    have "sorted_wrt (\<lambda>a b. KeyComparator u a b < 0) ks" using ks(1) unfolding represents_def by blast
    then show "sorted_wrt (\<lambda>x y. internal_compare u (fst x) (fst y) < 0) ?kvs"
      by (simp add: sorted_wrt_map KeyComparator_def pair)
    show "\<forall>x \<in> set ?kvs. seek_ok ok (fst x)"
      unfolding set using good add_entry_ok by (auto simp: list_all_iff)
  qed
  have "iterator (MemTableIterator u) (internal_compare u) (seek_ok ok) ?kvs (\<lambda>i. fst i = m) (mem_at m ns)"
  proof
    fix i p
    assume "at": "mem_at m ns i p"
    show "fst i = m" "p \<le> length ?kvs" using "at" len by (auto simp: mem_at_def)
    show "it_Valid (MemTableIterator u) i \<longleftrightarrow> p < length ?kvs"
      using "at" len by (auto simp: mem_at_def MemTableIterator_def SkipIter_Valid_def iter_at_def)
    assume "p < length ?kvs"
    then have p: "p < length ks" by simp
    show "it_key (MemTableIterator u) i = fst (?kvs ! p) \<and> it_value (MemTableIterator u) i = snd (?kvs ! p)"
      using "at" p entries.SkipIter_key_represents [OF ks(1) p]
      by (auto simp: mem_at_def MemTableIterator_def MemIter_key_def MemIter_value_def entry_pair_def split: prod.split)
    show "\<exists>i'. it_Next (MemTableIterator u) i = Ret i' \<and> mem_at m ns i' (Suc p)"
      using "at" p len entries.Next_represents [OF ks(1) p]
      by (auto simp: mem_at_def MemTableIterator_def mem_op_def MemIter_Next_def)
    show "\<exists>i'. it_Prev (MemTableIterator u) i = Ret i' \<and> mem_at m ns i' (if p = 0 then length ?kvs else p - 1)"
      using "at" p len entries.Prev_represents [OF ks(1) p]
      by (auto simp: mem_at_def MemTableIterator_def mem_op_def MemIter_Prev_def iter_at_def)
  next
    fix i :: mem_iter and t
    assume i: "fst i = m"
    show "it_status (MemTableIterator u) i = OK" by (simp add: MemTableIterator_def)
    show "\<exists>i'. it_SeekToFirst (MemTableIterator u) i = Ret i' \<and> mem_at m ns i' 0"
      using i entries.SeekToFirst_represents [OF ks(1)]
      by (auto simp: mem_at_def MemTableIterator_def mem_op_def MemIter_SeekToFirst_def)
    show "\<exists>i'. it_SeekToLast (MemTableIterator u) i = Ret i' \<and> mem_at m ns i' (length ?kvs - 1)"
      using i len entries.SeekToLast_represents [OF ks(1)]
      by (auto simp: mem_at_def MemTableIterator_def mem_op_def MemIter_SeekToLast_def iter_at_def)
    assume t: "seek_ok ok t"
    then have slice: "fst (entry_slice (EncodeKey t)) = t" using EncodeKey_slice by (simp add: seek_ok_def)
    then have tk: "entry_ok ok (EncodeKey t)" using t by (simp add: entry_ok_def seek_ok_def)
    have "lower_bound (internal_compare u) t ?kvs = length (takeWhile (\<lambda>x. KeyComparator u x (EncodeKey t) < 0) ks)"
      by (simp add: lower_bound_def takeWhile_map comp_def case_prod_unfold KeyComparator_def slice pair)
    then show "\<exists>i'. it_Seek (MemTableIterator u) t i = Ret i' \<and> mem_at m ns i' (lower_bound (internal_compare u) t ?kvs)"
      using i len entries.Seek_represents [OF ks(1) tk] length_takeWhile_le [of _ ks]
      by (auto simp: mem_at_def MemTableIterator_def mem_op_def MemIter_Seek_def)
  qed
  then show ?thesis using sorted adds by blast
qed

end

end
