(* ===== verification/LdbMerger.thy ===== *)
theory LdbMerger
  imports LdbTwoLevel LdbMemIter "HOL-Library.Multiset"
begin

text \<open>
  LevelDB, \<^verbatim>\<open>table/merger.cc\<close>: the iterator that merges its children. When the children meet
  the contract of iterators for sorted lists whose keys are all different, the merged iterator meets
  it for the sorted list of all their entries, in both directions and through changes of direction.
\<close>

section \<open>The iterator\<close>

datatype Direction = kForward | kReverse

record 'i merger =
  children :: "'i wrapper list"
  current :: "nat option"
  direction :: Direction

definition new_MergingIterator :: "'i Iter \<Rightarrow> 'i list \<Rightarrow> 'i merger" where
  "new_MergingIterator it is =
     \<lparr>children = map (\<lambda>i. wrapper_Set it (Some i) new_wrapper) is, current = None, direction = kForward\<rparr>"

definition FindSmallest_step :: "Comparator \<Rightarrow> 'i wrapper list \<Rightarrow> nat \<Rightarrow> nat option \<Rightarrow> nat option" where
  "FindSmallest_step cmp cs i smallest =
     (if w_valid (cs ! i) then
        case smallest of
          None \<Rightarrow> Some i
        | Some s \<Rightarrow> if Compare cmp (w_key (cs ! i)) (w_key (cs ! s)) < 0 then Some i else smallest
      else smallest)"

definition FindSmallest :: "Comparator \<Rightarrow> 'i merger \<Rightarrow> 'i merger" where
  "FindSmallest cmp m =
     m\<lparr>current := fold (FindSmallest_step cmp (children m)) [0..<length (children m)] None\<rparr>"

definition FindLargest_step :: "Comparator \<Rightarrow> 'i wrapper list \<Rightarrow> nat \<Rightarrow> nat option \<Rightarrow> nat option" where
  "FindLargest_step cmp cs i largest =
     (if w_valid (cs ! i) then
        case largest of
          None \<Rightarrow> Some i
        | Some s \<Rightarrow> if 0 < Compare cmp (w_key (cs ! i)) (w_key (cs ! s)) then Some i else largest
      else largest)"

definition FindLargest :: "Comparator \<Rightarrow> 'i merger \<Rightarrow> 'i merger" where
  "FindLargest cmp m =
     m\<lparr>current := fold (FindLargest_step cmp (children m)) (rev [0..<length (children m)]) None\<rparr>"

text \<open>An operation on the child of an index.\<close>

definition child_op :: "('i wrapper \<Rightarrow> 'i wrapper run) \<Rightarrow> nat \<Rightarrow> 'i wrapper list \<Rightarrow> 'i wrapper list run" where
  "child_op f i cs = run_bind (f (cs ! i)) (\<lambda>c. Ret (cs[i := c]))"

definition each_child :: "(nat \<Rightarrow> 'i wrapper \<Rightarrow> 'i wrapper run) \<Rightarrow> 'i merger \<Rightarrow> 'i merger run" where
  "each_child f m =
     run_bind (run_each (\<lambda>i. child_op (f i) i) [0..<length (children m)] (children m))
       (\<lambda>cs. Ret (m\<lparr>children := cs\<rparr>))"

definition merger_Valid :: "'i merger \<Rightarrow> bool" where
  "merger_Valid m \<longleftrightarrow> current m \<noteq> None"

definition merger_key :: "'i merger \<Rightarrow> bytes" where
  "merger_key m = (case current m of None \<Rightarrow> [] | Some c \<Rightarrow> w_key (children m ! c))"

definition merger_value :: "'i Iter \<Rightarrow> 'i merger \<Rightarrow> bytes" where
  "merger_value it m = (case current m of None \<Rightarrow> [] | Some c \<Rightarrow> it_value (Wrapped it) (children m ! c))"

fun first_error :: "Status list \<Rightarrow> Status \<Rightarrow> Status" where
  "first_error [] s = s"
| "first_error (t # ts) s = (if ok t then first_error ts t else t)"

definition merger_status :: "'i Iter \<Rightarrow> 'i merger \<Rightarrow> Status" where
  "merger_status it m = first_error (map (it_status (Wrapped it)) (children m)) OK"

definition merger_SeekToFirst :: "'i Iter \<Rightarrow> Comparator \<Rightarrow> 'i merger \<Rightarrow> 'i merger run" where
  "merger_SeekToFirst it cmp m =
     run_bind (each_child (\<lambda>_. it_SeekToFirst (Wrapped it)) m) (\<lambda>m. Ret ((FindSmallest cmp m)\<lparr>direction := kForward\<rparr>))"

definition merger_SeekToLast :: "'i Iter \<Rightarrow> Comparator \<Rightarrow> 'i merger \<Rightarrow> 'i merger run" where
  "merger_SeekToLast it cmp m =
     run_bind (each_child (\<lambda>_. it_SeekToLast (Wrapped it)) m) (\<lambda>m. Ret ((FindLargest cmp m)\<lparr>direction := kReverse\<rparr>))"

definition merger_Seek :: "'i Iter \<Rightarrow> Comparator \<Rightarrow> bytes \<Rightarrow> 'i merger \<Rightarrow> 'i merger run" where
  "merger_Seek it cmp target m =
     run_bind (each_child (\<lambda>_. it_Seek (Wrapped it) target) m) (\<lambda>m. Ret ((FindSmallest cmp m)\<lparr>direction := kForward\<rparr>))"

text \<open>How the other children are positioned behind, or before, the key when the direction changes.\<close>

definition seek_behind :: "'i Iter \<Rightarrow> Comparator \<Rightarrow> bytes \<Rightarrow> 'i wrapper \<Rightarrow> 'i wrapper run" where
  "seek_behind it cmp key child =
     run_bind (it_Seek (Wrapped it) key child)
       (\<lambda>child. if w_valid child \<and> Compare cmp key (w_key child) = 0 then it_Next (Wrapped it) child else Ret child)"

definition seek_before :: "'i Iter \<Rightarrow> bytes \<Rightarrow> 'i wrapper \<Rightarrow> 'i wrapper run" where
  "seek_before it key child =
     run_bind (it_Seek (Wrapped it) key child)
       (\<lambda>child. if w_valid child then it_Prev (Wrapped it) child else it_SeekToLast (Wrapped it) child)"

text \<open>
  \<open>key()\<close> is the key of the current child, which the loops leave alone; \<open>Next\<close> and \<open>Prev\<close>
  of an iterator that is not valid are assertion failures.
\<close>

definition merger_Next :: "'i Iter \<Rightarrow> Comparator \<Rightarrow> 'i merger \<Rightarrow> 'i merger run" where
  "merger_Next it cmp m =
     (case current m of
        None \<Rightarrow> Undef
      | Some c \<Rightarrow>
          run_bind
            (if direction m \<noteq> kForward then
               run_bind (each_child (\<lambda>i. if i \<noteq> c then seek_behind it cmp (merger_key m) else Ret) m)
                 (\<lambda>m. Ret (m\<lparr>direction := kForward\<rparr>))
             else Ret m)
            (\<lambda>m. run_bind (child_op (it_Next (Wrapped it)) c (children m))
               (\<lambda>cs. Ret (FindSmallest cmp (m\<lparr>children := cs\<rparr>)))))"

definition merger_Prev :: "'i Iter \<Rightarrow> Comparator \<Rightarrow> 'i merger \<Rightarrow> 'i merger run" where
  "merger_Prev it cmp m =
     (case current m of
        None \<Rightarrow> Undef
      | Some c \<Rightarrow>
          run_bind
            (if direction m \<noteq> kReverse then
               run_bind (each_child (\<lambda>i. if i \<noteq> c then seek_before it (merger_key m) else Ret) m)
                 (\<lambda>m. Ret (m\<lparr>direction := kReverse\<rparr>))
             else Ret m)
            (\<lambda>m. run_bind (child_op (it_Prev (Wrapped it)) c (children m))
               (\<lambda>cs. Ret (FindLargest cmp (m\<lparr>children := cs\<rparr>)))))"

definition MergingIterator :: "'i Iter \<Rightarrow> Comparator \<Rightarrow> 'i merger Iter" where
  "MergingIterator it cmp =
     \<lparr>it_Valid = merger_Valid, it_SeekToFirst = merger_SeekToFirst it cmp, it_SeekToLast = merger_SeekToLast it cmp,
      it_Seek = merger_Seek it cmp, it_Next = merger_Next it cmp, it_Prev = merger_Prev it cmp,
      it_key = merger_key, it_value = merger_value it, it_status = merger_status it\<rparr>"

section \<open>The factory\<close>

text \<open>No child makes an empty iterator, and a single child is the result itself.\<close>

datatype 'i merged = Merged_empty Status | Merged_child 'i | Merged_many "'i merger"

definition NewMergingIterator :: "'i Iter \<Rightarrow> 'i list \<Rightarrow> 'i merged" where
  "NewMergingIterator it list =
     (case list of [] \<Rightarrow> Merged_empty NewEmptyIterator | [i] \<Rightarrow> Merged_child i | _ \<Rightarrow> Merged_many (new_MergingIterator it list))"

text \<open>The virtual functions go to the class of the object.\<close>

fun merged_get :: "(Status \<Rightarrow> 'a) \<Rightarrow> ('i \<Rightarrow> 'a) \<Rightarrow> ('i merger \<Rightarrow> 'a) \<Rightarrow> 'i merged \<Rightarrow> 'a" where
  "merged_get e c m (Merged_empty s) = e s"
| "merged_get e c m (Merged_child i) = c i"
| "merged_get e c m (Merged_many x) = m x"

definition merged_op :: "(Status \<Rightarrow> Status run) \<Rightarrow> ('i \<Rightarrow> 'i run) \<Rightarrow> ('i merger \<Rightarrow> 'i merger run) \<Rightarrow> 'i merged \<Rightarrow> 'i merged run" where
  "merged_op e c m =
     merged_get (\<lambda>s. run_bind (e s) (\<lambda>s. Ret (Merged_empty s))) (\<lambda>i. run_bind (c i) (\<lambda>i. Ret (Merged_child i)))
       (\<lambda>x. run_bind (m x) (\<lambda>x. Ret (Merged_many x)))"

definition MergedIterator :: "'i Iter \<Rightarrow> Comparator \<Rightarrow> 'i merged Iter" where
  "MergedIterator it cmp =
     (let e = EmptyIterator; m = MergingIterator it cmp in
      \<lparr>it_Valid = merged_get (it_Valid e) (it_Valid it) (it_Valid m),
       it_SeekToFirst = merged_op (it_SeekToFirst e) (it_SeekToFirst it) (it_SeekToFirst m),
       it_SeekToLast = merged_op (it_SeekToLast e) (it_SeekToLast it) (it_SeekToLast m),
       it_Seek = (\<lambda>t. merged_op (it_Seek e t) (it_Seek it t) (it_Seek m t)),
       it_Next = merged_op (it_Next e) (it_Next it) (it_Next m),
       it_Prev = merged_op (it_Prev e) (it_Prev it) (it_Prev m),
       it_key = merged_get (it_key e) (it_key it) (it_key m),
       it_value = merged_get (it_value e) (it_value it) (it_value m),
       it_status = merged_get (it_status e) (it_status it) (it_status m)\<rparr>)"

section \<open>Loops over the children\<close>

lemma each_child_returns:
  assumes step: "\<And>i. i < length (children m) \<Longrightarrow> \<exists>c. f i (children m ! i) = Ret c \<and> P i c"
  shows "\<exists>cs. each_child f m = Ret (m\<lparr>children := cs\<rparr>) \<and> length cs = length (children m) \<and> (\<forall>i < length cs. P i (cs ! i))"
proof -
  have "\<exists>cs. run_each (\<lambda>i. child_op (f i) i) [0..<k] (children m) = Ret cs \<and> length cs = length (children m) \<and>
      (\<forall>i < k. P i (cs ! i)) \<and> (\<forall>i. k \<le> i \<and> i < length cs \<longrightarrow> cs ! i = children m ! i)"
    if "k \<le> length (children m)" for k
    using that
  proof (induction k)
    case (Suc k)
    then obtain cs where cs: "run_each (\<lambda>i. child_op (f i) i) [0..<k] (children m) = Ret cs" "length cs = length (children m)"
        "\<forall>i < k. P i (cs ! i)" "\<forall>i. k \<le> i \<and> i < length cs \<longrightarrow> cs ! i = children m ! i"
      by auto
    then obtain c where c: "f k (cs ! k) = Ret c" "P k c" using step [of k] Suc.prems by auto
    then have "run_each (\<lambda>i. child_op (f i) i) [0..<Suc k] (children m) = Ret (cs[k := c])"
      using cs(1) by (simp add: run_each_append child_op_def)
    then show ?case using cs c Suc.prems by (auto simp: nth_list_update less_Suc_eq)
  qed simp
  from this [of "length (children m)"] show ?thesis by (auto simp: each_child_def)
qed

text \<open>The loops that look for the best valid child.\<close>

definition best_step :: "(nat \<Rightarrow> bool) \<Rightarrow> (nat \<Rightarrow> nat \<Rightarrow> bool) \<Rightarrow> nat \<Rightarrow> nat option \<Rightarrow> nat option" where
  "best_step valid better i s =
     (if valid i then (case s of None \<Rightarrow> Some i | Some k \<Rightarrow> if better i k then Some i else s) else s)"

lemma fold_best_none: "\<forall>i \<in> set xs. \<not> valid i \<Longrightarrow> fold (best_step valid better) xs s = s"
  by (induction xs) (simp_all add: best_step_def)

lemma fold_best:
  assumes c: "valid c" and best: "\<And>i. i \<in> S \<Longrightarrow> valid i \<Longrightarrow> i \<noteq> c \<Longrightarrow> better c i \<and> \<not> better i c"
    and xs: "set xs \<subseteq> S" and s: "\<And>k. s = Some k \<Longrightarrow> k \<in> S \<and> valid k" and "c \<in> set xs \<or> s = Some c"
  shows "fold (best_step valid better) xs s = Some c"
  using xs s \<open>c \<in> set xs \<or> s = Some c\<close>
proof (induction xs arbitrary: s)
  case (Cons x xs)
  have valid: "\<And>k. best_step valid better x s = Some k \<Longrightarrow> k \<in> S \<and> valid k"
    using Cons.prems(1,2) by (auto simp: best_step_def split: if_splits option.splits)
  have "c \<in> set xs \<or> best_step valid better x s = Some c"
  proof (cases "x = c")
    case True
    show ?thesis
    proof (cases s)
      case (Some k)
      then show ?thesis using True c best [of k] Cons.prems(2) by (cases "k = c") (auto simp: best_step_def)
    qed (simp add: best_step_def True c)
  next
    case False
    then have "s = Some c \<Longrightarrow> best_step valid better x s = Some c"
      using best [of x] Cons.prems(1) by (auto simp: best_step_def)
    then show ?thesis using False Cons.prems(3) by auto
  qed
  then show ?case using Cons.IH [of "best_step valid better x s"] Cons.prems(1) valid by simp
qed simp

lemma Find_best:
  "FindSmallest_step cmp cs = best_step (\<lambda>i. w_valid (cs ! i)) (\<lambda>i k. Compare cmp (w_key (cs ! i)) (w_key (cs ! k)) < 0)"
  "FindLargest_step cmp cs = best_step (\<lambda>i. w_valid (cs ! i)) (\<lambda>i k. 0 < Compare cmp (w_key (cs ! i)) (w_key (cs ! k)))"
  by (simp_all add: fun_eq_iff FindSmallest_step_def FindLargest_step_def best_step_def)

section \<open>A sorted list and its parts\<close>

text \<open>Where a part stands when the whole list stands at a position.\<close>

definition part_pos :: "'a list \<Rightarrow> 'a list \<Rightarrow> nat \<Rightarrow> nat" where
  "part_pos kvs part p = length (filter (\<lambda>x. x \<in> set part) (take p kvs))"

lemma sorted_entries_filter: "sorted_entries cmp key_ok kvs \<Longrightarrow> sorted_entries cmp key_ok (filter P kvs)"
  by (simp add: sorted_entries_def sorted_wrt_filter)

lemma sorted_entries_distinct:
  assumes "key_order cmp key_ok" and "sorted_entries cmp key_ok kvs"
  shows "distinct kvs"
proof -
  have "x \<noteq> y" if "x \<in> set kvs" "cmp (fst x) (fst y) < 0" for x y
    using that assms key_order.compare_refl [OF assms(1), of "fst x"] by (auto simp: sorted_entries_def)
  then show ?thesis
    using assms(2) unfolding sorted_entries_def distinct_conv_nth sorted_wrt_iff_nth_less
    by (metis linorder_neqE_nat nth_mem)
qed

lemma sorted_entries_unique:
  assumes ord: "key_order cmp key_ok" and "sorted_entries cmp key_ok xs" "sorted_entries cmp key_ok ys" and "set xs = set ys"
  shows "xs = ys"
  using assms(2-)
proof (induction xs arbitrary: ys)
  case (Cons x xs)
  then obtain y ys' where ys: "ys = y # ys'" by (cases ys) auto
  have "x = y"
  proof (rule ccontr)
    assume "x \<noteq> y"
    then have "cmp (fst x) (fst y) < 0" "cmp (fst y) (fst x) < 0" "key_ok (fst x)" "key_ok (fst y)"
      using Cons.prems ys by (auto simp: sorted_entries_def)
    then show False using key_order.lt_trans [OF ord, of "fst x" "fst y" "fst x"] key_order.compare_refl [OF ord, of "fst x"] by simp
  qed
  have "x \<notin> set xs" "x \<notin> set ys'"
    using sorted_entries_distinct [OF ord Cons.prems(1)] sorted_entries_distinct [OF ord Cons.prems(2)] ys \<open>x = y\<close> by simp_all
  then have "set xs = set ys'" using Cons.prems(3) ys \<open>x = y\<close> by auto
  moreover have "sorted_entries cmp key_ok xs" "sorted_entries cmp key_ok ys'"
    using Cons.prems(1,2) ys by (simp_all add: sorted_entries_def)
  ultimately show ?case using Cons.IH [of ys'] ys \<open>x = y\<close> by simp
qed simp

lemma lower_bound_filter:
  assumes ord: "key_order cmp key_ok" and sorted: "sorted_entries cmp key_ok kvs" and t: "key_ok t"
  shows "lower_bound cmp t (filter Q kvs) = length (filter Q (take (lower_bound cmp t kvs) kvs))"
proof -
  have "takeWhile (\<lambda>(k, _). cmp k t < 0) xs = filter (\<lambda>(k, _). cmp k t < 0) xs" if "sorted_entries cmp key_ok xs" for xs :: "(bytes \<times> 'b) list"
    using that
  proof (induction xs)
    case (Cons x xs)
    then have IH: "takeWhile (\<lambda>(k, _). cmp k t < 0) xs = filter (\<lambda>(k, _). cmp k t < 0) xs" by (simp add: sorted_entries_def)
    have "\<not> cmp (fst y) t < 0" if "\<not> cmp (fst x) t < 0" "y \<in> set xs" for y
      using key_order.lt_trans [OF ord, of "fst x" "fst y" t] that Cons.prems t by (auto simp: sorted_entries_def)
    then have "\<not> cmp (fst x) t < 0 \<Longrightarrow> filter (\<lambda>(k, _). cmp k t < 0) xs = []"
      by (auto simp: filter_empty_conv case_prod_beta)
    then show ?case using IH unfolding case_prod_unfold by auto
  qed simp
  note eq = this
  have "take (lower_bound cmp t kvs) kvs = filter (\<lambda>(k, _). cmp k t < 0) kvs"
    using eq [OF sorted] unfolding lower_bound_def by (metis takeWhile_eq_take)
  moreover have "lower_bound cmp t (filter Q kvs) = length (filter (\<lambda>(k, _). cmp k t < 0) (filter Q kvs))"
    unfolding lower_bound_def by (simp only: eq [OF sorted_entries_filter [OF sorted]])
  ultimately show ?thesis by (simp add: conj_commute)
qed

lemma part_pos_Suc:
  "p < length kvs \<Longrightarrow> part_pos kvs part (Suc p) = (if kvs ! p \<in> set part then Suc (part_pos kvs part p) else part_pos kvs part p)"
  by (simp add: part_pos_def take_Suc_conv_app_nth)

lemma part_pos_0 [simp]: "part_pos kvs part 0 = 0"
  by (simp add: part_pos_def)

lemma part_split:
  assumes "part = filter (\<lambda>x. x \<in> set part) kvs"
  shows "part = filter (\<lambda>x. x \<in> set part) (take p kvs) @ filter (\<lambda>x. x \<in> set part) (drop p kvs)"
  using assms by (metis append_take_drop_id filter_append)

lemma part_pos_length:
  assumes "part = filter (\<lambda>x. x \<in> set part) kvs"
  shows "part_pos kvs part (length kvs) = length part"
  unfolding part_pos_def using arg_cong [OF assms, of length] by simp

lemma part_pos_le:
  assumes "part = filter (\<lambda>x. x \<in> set part) kvs"
  shows "part_pos kvs part p \<le> length part"
  unfolding part_pos_def using arg_cong [OF part_split [OF assms, of p], of length] by simp

lemma part_ahead:
  assumes part: "part = filter (\<lambda>x. x \<in> set part) kvs" and p: "part_pos kvs part p < length part"
  shows "\<exists>q. p \<le> q \<and> q < length kvs \<and> part ! part_pos kvs part p = kvs ! q"
proof -
  have "part ! part_pos kvs part p = filter (\<lambda>x. x \<in> set part) (drop p kvs) ! 0"
    by (subst part_split [OF part, of p]) (simp only: part_pos_def nth_append_length_plus [of _ _ 0, simplified])
  moreover have "0 < length (filter (\<lambda>x. x \<in> set part) (drop p kvs))"
    using p arg_cong [OF part_split [OF part, of p], of length] by (simp add: part_pos_def)
  ultimately have "part ! part_pos kvs part p \<in> set (drop p kvs)" by (metis filter_is_subset nth_mem subsetD)
  then obtain i where "i < length (drop p kvs)" "drop p kvs ! i = part ! part_pos kvs part p" by (meson in_set_conv_nth)
  then show ?thesis by (intro exI [of _ "p + i"]) auto
qed

lemma part_here:
  assumes part: "part = filter (\<lambda>x. x \<in> set part) kvs" and p: "p < length kvs" "kvs ! p \<in> set part"
  shows "part_pos kvs part p < length part \<and> part ! part_pos kvs part p = kvs ! p"
proof -
  have "filter (\<lambda>x. x \<in> set part) (drop p kvs) = kvs ! p # filter (\<lambda>x. x \<in> set part) (drop (Suc p) kvs)"
    using p by (simp flip: Cons_nth_drop_Suc)
  note split = part_split [OF part, of p, unfolded this]
  show ?thesis
    using arg_cong [OF split, of length] arg_cong [OF split, of "\<lambda>l. l ! part_pos kvs part p"] by (simp add: part_pos_def)
qed

lemma part_behind:
  assumes part: "part = filter (\<lambda>x. x \<in> set part) kvs" and p: "0 < part_pos kvs part p"
  shows "\<exists>q. q < p \<and> q < length kvs \<and> part ! (part_pos kvs part p - 1) = kvs ! q"
proof -
  let ?f = "filter (\<lambda>x. x \<in> set part) (take p kvs)"
  have "part ! (part_pos kvs part p - 1) = ?f ! (length ?f - 1)"
    using p by (subst part_split [OF part, of p]) (simp add: part_pos_def nth_append)
  moreover have "length ?f - 1 < length ?f" using p by (simp add: part_pos_def)
  ultimately have "part ! (part_pos kvs part p - 1) \<in> set (take p kvs)" by (metis filter_is_subset nth_mem subsetD)
  then obtain i where "i < length (take p kvs)" "take p kvs ! i = part ! (part_pos kvs part p - 1)" by (meson in_set_conv_nth)
  then show ?thesis by (intro exI [of _ i]) auto
qed

lemma distinct_concat_nth:
  "distinct (concat xss) \<Longrightarrow> i < length xss \<Longrightarrow> j < length xss \<Longrightarrow> x \<in> set (xss ! i) \<Longrightarrow> x \<in> set (xss ! j) \<Longrightarrow> i = j"
proof (induction xss arbitrary: i j)
  case (Cons xs xss)
  have "x \<in> set (concat xss)" if "k < length xss" "x \<in> set (xss ! k)" for k using that nth_mem by fastforce
  then show ?case using Cons by (cases i; cases j) auto
qed simp

section \<open>The merged list\<close>

text \<open>The position just before another one, which is the end when there is none.\<close>

definition back_pos :: "'a list \<Rightarrow> nat \<Rightarrow> nat" where
  "back_pos xs q = (if q = 0 then length xs else q - 1)"

definition merge_positions ::
  "'i Iter \<Rightarrow> (nat \<Rightarrow> 'i \<Rightarrow> nat \<Rightarrow> bool) \<Rightarrow> nat \<Rightarrow> (nat \<Rightarrow> nat) \<Rightarrow> 'i merger \<Rightarrow> bool" where
  "merge_positions it at n f m \<longleftrightarrow> length (children m) = n \<and> (\<forall>j < n. wrap_at it (at j) (children m ! j) (f j))"

definition merge_made :: "(nat \<Rightarrow> 'i \<Rightarrow> bool) \<Rightarrow> nat \<Rightarrow> 'i merger \<Rightarrow> bool" where
  "merge_made made n m \<longleftrightarrow> length (children m) = n \<and> (\<forall>j < n. wrap_made (made j) (children m ! j))"

definition owns :: "'a list list \<Rightarrow> 'a list \<Rightarrow> nat \<Rightarrow> nat option \<Rightarrow> bool" where
  "owns lss kvs p c \<longleftrightarrow>
     (if p < length kvs then \<exists>j < length lss. c = Some j \<and> kvs ! p \<in> set (lss ! j) else c = None)"

definition merge_at ::
  "'i Iter \<Rightarrow> (nat \<Rightarrow> 'i \<Rightarrow> nat \<Rightarrow> bool) \<Rightarrow> (bytes \<times> bytes) list list \<Rightarrow> (bytes \<times> bytes) list \<Rightarrow> 'i merger \<Rightarrow> nat \<Rightarrow> bool" where
  "merge_at it at lss kvs m p \<longleftrightarrow>
     p \<le> length kvs \<and> owns lss kvs p (current m) \<and>
     merge_positions it at (length lss)
       (\<lambda>j. case direction m of
          kForward \<Rightarrow> part_pos kvs (lss ! j) p
        | kReverse \<Rightarrow> back_pos (lss ! j) (part_pos kvs (lss ! j) (if p < length kvs then Suc p else 0))) m"

locale merging = key_order "Compare cmp" key_ok for cmp :: Comparator and key_ok :: "bytes \<Rightarrow> bool" +
  fixes it :: "'i Iter" and lss :: "(bytes \<times> bytes) list list" and kvs :: "(bytes \<times> bytes) list"
    and made :: "nat \<Rightarrow> 'i \<Rightarrow> bool" and "at" :: "nat \<Rightarrow> 'i \<Rightarrow> nat \<Rightarrow> bool"
  assumes child: "j < length lss \<Longrightarrow> iterator it (Compare cmp) key_ok (lss ! j) (made j) (at j)"
    and lists_sorted: "j < length lss \<Longrightarrow> sorted_entries (Compare cmp) key_ok (lss ! j)"
    and kvs_sorted: "sorted_entries (Compare cmp) key_ok kvs"
    and parts: "mset kvs = mset (concat lss)"
begin

lemma ord: "key_order (Compare cmp) key_ok"
  by (rule key_order_axioms)

lemma wrapped: "j < length lss \<Longrightarrow> iterator (Wrapped it) (Compare cmp) key_ok (lss ! j) (wrap_made (made j)) (wrap_at it (at j))"
  using child iterator.wrapped_iterator by blast

lemma owner_unique:
  assumes "x \<in> set (lss ! i)" "x \<in> set (lss ! j)" "i < length lss" "j < length lss"
  shows "i = j"
proof -
  have "distinct (concat lss)" using parts sorted_entries_distinct [OF ord kvs_sorted] mset_eq_imp_distinct_iff by blast
  then show ?thesis using assms distinct_concat_nth by metis
qed

lemma set_kvs: "set kvs = set (concat lss)"
  using parts by (rule mset_eq_setD)

lemma owner: "p < length kvs \<Longrightarrow> \<exists>j < length lss. kvs ! p \<in> set (lss ! j)"
proof -
  assume "p < length kvs"
  then have "kvs ! p \<in> set (concat lss)" using set_kvs nth_mem by blast
  then show ?thesis by (auto simp: in_set_conv_nth [of _ lss])
qed

lemma list_part: "j < length lss \<Longrightarrow> lss ! j = filter (\<lambda>x. x \<in> set (lss ! j)) kvs"
  by (rule sorted_entries_unique [OF ord lists_sorted sorted_entries_filter [OF kvs_sorted]])
    (use set_kvs nth_mem in fastforce)+

lemma less_kvs: "p < q \<Longrightarrow> q < length kvs \<Longrightarrow>
    Compare cmp (fst (kvs ! p)) (fst (kvs ! q)) < 0 \<and> 0 < Compare cmp (fst (kvs ! q)) (fst (kvs ! p)) \<and>
    \<not> Compare cmp (fst (kvs ! q)) (fst (kvs ! p)) < 0 \<and> \<not> 0 < Compare cmp (fst (kvs ! p)) (fst (kvs ! q))"
proof -
  assume pq: "p < q" "q < length kvs"
  then have "Compare cmp (fst (kvs ! p)) (fst (kvs ! q)) < 0" "key_ok (fst (kvs ! p))" "key_ok (fst (kvs ! q))"
    using kvs_sorted by (auto simp: sorted_entries_def sorted_wrt_iff_nth_less)
  then show ?thesis using compare_pos [of "fst (kvs ! q)" "fst (kvs ! p)"] by auto
qed

lemma child_valid:
  assumes "wrap_at it (at j) w q" and "j < length lss"
  shows "w_valid w \<longleftrightarrow> q < length (lss ! j)" and "q < length (lss ! j) \<Longrightarrow> w_key w = fst (lss ! j ! q)"
    and "q < length (lss ! j) \<Longrightarrow> it_value (Wrapped it) w = snd (lss ! j ! q)"
  using iterator.valid [OF wrapped [OF assms(2)] assms(1)] iterator.entry [OF wrapped [OF assms(2)] assms(1)] by simp_all

lemma FindSmallest_at:
  assumes "merge_positions it at (length lss) (\<lambda>j. part_pos kvs (lss ! j) p) m" and "p \<le> length kvs"
  shows "merge_at it at lss kvs ((FindSmallest cmp m)\<lparr>direction := kForward\<rparr>) p"
proof -
  let ?cs = "children m"
  have n: "length ?cs = length lss" and pos: "\<And>j. j < length lss \<Longrightarrow> wrap_at it (at j) (?cs ! j) (part_pos kvs (lss ! j) p)"
    using assms(1) by (simp_all add: merge_positions_def)
  note valid = child_valid [OF pos]
  have "owns lss kvs p (fold (FindSmallest_step cmp ?cs) [0..<length ?cs] None)"
  proof (cases "p < length kvs")
    case True
    obtain c where c: "c < length lss" "kvs ! p \<in> set (lss ! c)" using owner [OF True] by blast
    note here = part_here [OF list_part [OF c(1)] True c(2)]
    have "fold (FindSmallest_step cmp ?cs) [0..<length ?cs] None = Some c"
      unfolding Find_best
    proof (rule fold_best [where S = "{..<length lss}"])
      show "w_valid (?cs ! c)" using valid(1) [OF c(1) c(1)] here by simp
      fix i assume "i \<in> {..<length lss}" and v: "w_valid (?cs ! i)" and ne: "i \<noteq> c"
      then have i: "i < length lss" by simp
      have iv: "part_pos kvs (lss ! i) p < length (lss ! i)" using valid(1) [OF i i] v by simp
      obtain q where q: "p \<le> q" "q < length kvs" "lss ! i ! part_pos kvs (lss ! i) p = kvs ! q"
        using part_ahead [OF list_part [OF i] iv] by blast
      have "kvs ! q \<in> set (lss ! i)" using q(3) iv nth_mem by metis
      then have "q \<noteq> p" using owner_unique [OF _ c(2) i c(1)] ne by auto
      then show "Compare cmp (w_key (?cs ! c)) (w_key (?cs ! i)) < 0 \<and> \<not> Compare cmp (w_key (?cs ! i)) (w_key (?cs ! c)) < 0"
        using less_kvs [of p q] q here valid(2) [OF i i iv] valid(2) [OF c(1) c(1)] by simp
    qed (use n c(1) in auto)
    then show ?thesis using c True by (auto simp: owns_def)
  next
    case False
    then have p: "p = length kvs" using assms(2) by simp
    have "\<forall>i \<in> set [0..<length ?cs]. \<not> w_valid (?cs ! i)"
      using valid(1) part_pos_length [OF list_part] n p by simp
    then show ?thesis using False unfolding Find_best by (simp only: fold_best_none owns_def) simp
  qed
  then show ?thesis using assms by (simp add: merge_at_def FindSmallest_def merge_positions_def)
qed

lemma FindLargest_at:
  assumes "merge_positions it at (length lss) (\<lambda>j. back_pos (lss ! j) (part_pos kvs (lss ! j) q)) m"
    and "q \<le> length kvs"
  shows "merge_at it at lss kvs ((FindLargest cmp m)\<lparr>direction := kReverse\<rparr>) (back_pos kvs q)"
proof -
  let ?cs = "children m"
  have n: "length ?cs = length lss"
    and pos: "\<And>j. j < length lss \<Longrightarrow> wrap_at it (at j) (?cs ! j) (back_pos (lss ! j) (part_pos kvs (lss ! j) q))"
    using assms(1) by (simp_all add: merge_positions_def)
  note valid = child_valid [OF pos]
  have bk: "back_pos (lss ! j) (part_pos kvs (lss ! j) q) < length (lss ! j) \<longleftrightarrow> 0 < part_pos kvs (lss ! j) q"
    if "j < length lss" for j
    using part_pos_le [OF list_part [OF that], of q] by (auto simp: back_pos_def)
  have "owns lss kvs (back_pos kvs q) (fold (FindLargest_step cmp ?cs) (rev [0..<length ?cs]) None)"
  proof (cases q)
    case (Suc p)
    then have p: "p < length kvs" using assms(2) by simp
    obtain c where c: "c < length lss" "kvs ! p \<in> set (lss ! c)" using owner [OF p] by blast
    have here: "back_pos (lss ! c) (part_pos kvs (lss ! c) q) < length (lss ! c)"
      "lss ! c ! back_pos (lss ! c) (part_pos kvs (lss ! c) q) = kvs ! p"
      using part_here [OF list_part [OF c(1)] p c(2)] part_pos_Suc [OF p, of "lss ! c"] c(2) Suc by (simp_all add: back_pos_def)
    have "fold (FindLargest_step cmp ?cs) (rev [0..<length ?cs]) None = Some c"
      unfolding Find_best
    proof (rule fold_best [where S = "{..<length lss}"])
      show "w_valid (?cs ! c)" using valid(1) [OF c(1) c(1)] here by simp
      fix i assume "i \<in> {..<length lss}" and v: "w_valid (?cs ! i)" and ne: "i \<noteq> c"
      then have i: "i < length lss" by simp
      have iv: "back_pos (lss ! i) (part_pos kvs (lss ! i) q) < length (lss ! i)" using valid(1) [OF i i] v by simp
      then have "0 < part_pos kvs (lss ! i) q" using bk [OF i] by simp
      then obtain r where r: "r < q" "lss ! i ! back_pos (lss ! i) (part_pos kvs (lss ! i) q) = kvs ! r"
        using part_behind [OF list_part [OF i], of q] by (auto simp: back_pos_def)
      have "kvs ! r \<in> set (lss ! i)" using r(2) iv nth_mem by metis
      then have "r \<noteq> p" using owner_unique [OF _ c(2) i c(1)] ne by auto
      then show "0 < Compare cmp (w_key (?cs ! c)) (w_key (?cs ! i)) \<and> \<not> 0 < Compare cmp (w_key (?cs ! i)) (w_key (?cs ! c))"
        using less_kvs [of r p] p r Suc here valid(2) [OF i i iv] valid(2) [OF c(1) c(1)] by simp
    qed (use n c(1) in auto)
    then show ?thesis using c p Suc by (auto simp: owns_def back_pos_def)
  next
    case 0
    have "\<forall>i \<in> set (rev [0..<length ?cs]). \<not> w_valid (?cs ! i)"
      using valid(1) bk n 0 by simp
    then show ?thesis unfolding Find_best by (simp only: fold_best_none owns_def) (simp add: back_pos_def 0)
  qed
  moreover have "(if back_pos kvs q < length kvs then Suc (back_pos kvs q) else 0) = q"
    using assms(2) by (auto simp: back_pos_def)
  ultimately show ?thesis using assms by (auto simp: merge_at_def FindLargest_def merge_positions_def back_pos_def)
qed

lemma merge_at_made: "merge_at it at lss kvs m p \<Longrightarrow> merge_made made (length lss) m"
  using iterator.at_made [OF wrapped] by (fastforce simp: merge_at_def merge_positions_def merge_made_def)

lemma merge_made_length: "merge_made made n m \<Longrightarrow> length (children m) = n"
  by (simp add: merge_made_def)

lemma each_child_at:
  assumes "length (children m) = length lss"
    and "\<And>j. j < length lss \<Longrightarrow> \<exists>c. g j (children m ! j) = Ret c \<and> wrap_at it (at j) c (f j)"
  shows "\<exists>cs. each_child g m = Ret (m\<lparr>children := cs\<rparr>) \<and> merge_positions it at (length lss) f (m\<lparr>children := cs\<rparr>)"
  using each_child_returns [of m g "\<lambda>j c. wrap_at it (at j) c (f j)"] assms by (auto simp: merge_positions_def)

lemma merger_SeekToFirst_at:
  assumes "merge_made made (length lss) m"
  shows "\<exists>m'. merger_SeekToFirst it cmp m = Ret m' \<and> merge_at it at lss kvs m' 0"
proof -
  have "\<exists>c. it_SeekToFirst (Wrapped it) (children m ! j) = Ret c \<and> wrap_at it (at j) c (part_pos kvs (lss ! j) 0)"
    if "j < length lss" for j
    using iterator.seek_to_first [OF wrapped [OF that], of "children m ! j"] assms that by (simp add: merge_made_def)
  then obtain cs where cs: "each_child (\<lambda>_. it_SeekToFirst (Wrapped it)) m = Ret (m\<lparr>children := cs\<rparr>)"
      "merge_positions it at (length lss) (\<lambda>j. part_pos kvs (lss ! j) 0) (m\<lparr>children := cs\<rparr>)"
    using each_child_at [OF merge_made_length [OF assms], where g = "\<lambda>_. it_SeekToFirst (Wrapped it)" and f = "\<lambda>j. part_pos kvs (lss ! j) 0"] by blast
  then show ?thesis using FindSmallest_at [OF cs(2)] by (simp add: merger_SeekToFirst_def)
qed

lemma merger_SeekToLast_at:
  assumes "merge_made made (length lss) m"
  shows "\<exists>m'. merger_SeekToLast it cmp m = Ret m' \<and> merge_at it at lss kvs m' (length kvs - 1)"
proof -
  have "\<exists>c. it_SeekToLast (Wrapped it) (children m ! j) = Ret c \<and> wrap_at it (at j) c (back_pos (lss ! j) (part_pos kvs (lss ! j) (length kvs)))"
    if "j < length lss" for j
    using iterator.seek_to_last [OF wrapped [OF that], of "children m ! j"] assms that part_pos_length [OF list_part [OF that]]
    by (auto simp: merge_made_def back_pos_def)
  then obtain cs where cs: "each_child (\<lambda>_. it_SeekToLast (Wrapped it)) m = Ret (m\<lparr>children := cs\<rparr>)"
      "merge_positions it at (length lss) (\<lambda>j. back_pos (lss ! j) (part_pos kvs (lss ! j) (length kvs))) (m\<lparr>children := cs\<rparr>)"
    using each_child_at [OF merge_made_length [OF assms], where g = "\<lambda>_. it_SeekToLast (Wrapped it)" and f = "\<lambda>j. back_pos (lss ! j) (part_pos kvs (lss ! j) (length kvs))"] by blast
  have "back_pos kvs (length kvs) = length kvs - 1" by (simp add: back_pos_def)
  then show ?thesis using FindLargest_at [OF cs(2)] cs(1) by (simp add: merger_SeekToLast_def)
qed

lemma lower_bound_part:
  "j < length lss \<Longrightarrow> key_ok t \<Longrightarrow> lower_bound (Compare cmp) t (lss ! j) = part_pos kvs (lss ! j) (lower_bound (Compare cmp) t kvs)"
  using lower_bound_filter [OF ord kvs_sorted, of t "\<lambda>x. x \<in> set (lss ! j)"] list_part [of j] by (simp add: part_pos_def)

lemma merger_Seek_at:
  assumes "merge_made made (length lss) m" and t: "key_ok t"
  shows "\<exists>m'. merger_Seek it cmp t m = Ret m' \<and> merge_at it at lss kvs m' (lower_bound (Compare cmp) t kvs)"
proof -
  have "\<exists>c. it_Seek (Wrapped it) t (children m ! j) = Ret c \<and>
      wrap_at it (at j) c (part_pos kvs (lss ! j) (lower_bound (Compare cmp) t kvs))" if "j < length lss" for j
    using iterator.seek [OF wrapped [OF that] _ t, of "children m ! j"] assms that lower_bound_part [OF that t]
    by (simp add: merge_made_def)
  then obtain cs where cs: "each_child (\<lambda>_. it_Seek (Wrapped it) t) m = Ret (m\<lparr>children := cs\<rparr>)"
      "merge_positions it at (length lss) (\<lambda>j. part_pos kvs (lss ! j) (lower_bound (Compare cmp) t kvs)) (m\<lparr>children := cs\<rparr>)"
    using each_child_at [OF merge_made_length [OF assms(1)], where g = "\<lambda>_. it_Seek (Wrapped it) t" and f = "\<lambda>j. part_pos kvs (lss ! j) (lower_bound (Compare cmp) t kvs)"] by blast
  then show ?thesis using FindSmallest_at [OF cs(2) lower_bound_le] by (simp add: merger_Seek_def)
qed

text \<open>Where a child stands after it has been sought with a key of the list.\<close>

lemma lower_bound_nth: "p < length kvs \<Longrightarrow> lower_bound (Compare cmp) (fst (kvs ! p)) kvs = p"
proof -
  assume p: "p < length kvs"
  have ok: "key_ok (fst (kvs ! p))" using kvs_sorted p by (simp add: sorted_entries_def)
  let ?l = "lower_bound (Compare cmp) (fst (kvs ! p)) kvs"
  have "\<not> p < ?l" using lower_bound_below [of p "Compare cmp" "fst (kvs ! p)" kvs] compare_refl [OF ok] by auto
  moreover have "\<not> ?l < p"
    using lower_bound_stop [of "Compare cmp" "fst (kvs ! p)" kvs] less_kvs [of ?l p] p by auto
  ultimately show ?thesis by simp
qed

lemma merge_at_owner:
  assumes "merge_at it at lss kvs m p" and "p < length kvs"
  obtains c where "current m = Some c" "c < length lss" "kvs ! p \<in> set (lss ! c)" "key_ok (fst (kvs ! p))"
    "wrap_at it (at c) (children m ! c) (part_pos kvs (lss ! c) p)"
    "w_valid (children m ! c)" "w_key (children m ! c) = fst (kvs ! p)" "it_value (Wrapped it) (children m ! c) = snd (kvs ! p)"
proof -
  obtain c where c: "current m = Some c" "c < length lss" "kvs ! p \<in> set (lss ! c)"
    using assms by (auto simp: merge_at_def owns_def)
  have "part_pos kvs (lss ! c) (Suc p) = Suc (part_pos kvs (lss ! c) p)" using part_pos_Suc [OF assms(2), of "lss ! c"] c(3) by simp
  then have w: "wrap_at it (at c) (children m ! c) (part_pos kvs (lss ! c) p)"
    using assms c(2) by (cases "direction m") (auto simp: merge_at_def merge_positions_def back_pos_def)
  note here = part_here [OF list_part [OF c(2)] assms(2) c(3)]
  show ?thesis
    using that [OF c _ w] child_valid [OF w c(2)] here kvs_sorted assms(2) by (simp add: sorted_entries_def)
qed

text \<open>Turning round: the other children go behind, or before, the key.\<close>

lemma seek_behind_at:
  assumes made: "wrap_made (made j) w" and j: "j < length lss" and p: "p < length kvs" "kvs ! p \<notin> set (lss ! j)"
  shows "\<exists>w'. seek_behind it cmp (fst (kvs ! p)) w = Ret w' \<and> wrap_at it (at j) w' (part_pos kvs (lss ! j) p)"
proof -
  let ?q = "part_pos kvs (lss ! j) p"
  have ok: "key_ok (fst (kvs ! p))" using kvs_sorted p by (simp add: sorted_entries_def)
  obtain w' where w': "it_Seek (Wrapped it) (fst (kvs ! p)) w = Ret w'" "wrap_at it (at j) w' ?q"
    using iterator.seek [OF wrapped [OF j] made ok] lower_bound_part [OF j ok] lower_bound_nth [OF p(1)] by auto
  have "Compare cmp (fst (kvs ! p)) (w_key w') \<noteq> 0" if v: "w_valid w'"
  proof -
    have q: "?q < length (lss ! j)" using child_valid(1) [OF w'(2) j] v by simp
    obtain r where r: "p \<le> r" "r < length kvs" "lss ! j ! ?q = kvs ! r" using part_ahead [OF list_part [OF j] q] by blast
    have "r \<noteq> p" using r(3) q p(2) nth_mem by metis
    then show ?thesis using less_kvs [of p r] r child_valid(2) [OF w'(2) j q] by simp
  qed
  then show ?thesis using w' by (auto simp: seek_behind_def)
qed

lemma seek_before_at:
  assumes made: "wrap_made (made j) w" and j: "j < length lss" and p: "p < length kvs" "kvs ! p \<notin> set (lss ! j)"
  shows "\<exists>w'. seek_before it (fst (kvs ! p)) w = Ret w' \<and> wrap_at it (at j) w' (back_pos (lss ! j) (part_pos kvs (lss ! j) (Suc p)))"
proof -
  let ?q = "part_pos kvs (lss ! j) p"
  have ok: "key_ok (fst (kvs ! p))" using kvs_sorted p by (simp add: sorted_entries_def)
  obtain w' where w': "it_Seek (Wrapped it) (fst (kvs ! p)) w = Ret w'" "wrap_at it (at j) w' ?q"
    using iterator.seek [OF wrapped [OF j] made ok] lower_bound_part [OF j ok] lower_bound_nth [OF p(1)] by auto
  have Suc: "part_pos kvs (lss ! j) (Suc p) = ?q" using part_pos_Suc [OF p(1)] p(2) by simp
  show ?thesis
  proof (cases "?q < length (lss ! j)")
    case True
    then show ?thesis
      using w' child_valid(1) [OF w'(2) j] iterator.prev [OF wrapped [OF j] w'(2) True] Suc
      by (auto simp: seek_before_def back_pos_def)
  next
    case False
    then have "?q = length (lss ! j)" using part_pos_le [OF list_part [OF j], of p] by simp
    then show ?thesis
      using w' child_valid(1) [OF w'(2) j] iterator.seek_to_last [OF wrapped [OF j] iterator.at_made [OF wrapped [OF j] w'(2)]] Suc
      by (auto simp: seek_before_def back_pos_def)
  qed
qed

lemma same_direction: "direction m = d \<Longrightarrow> m\<lparr>direction := d\<rparr> = m"
  by (cases m) simp

lemma Find_direction [simp]: "direction (FindSmallest cmp m) = direction m" "direction (FindLargest cmp m) = direction m"
  by (simp_all add: FindSmallest_def FindLargest_def)

text \<open>Once the direction is right, the current child moves.\<close>

lemma advance_at:
  assumes pos: "merge_positions it at (length lss) (\<lambda>j. part_pos kvs (lss ! j) p) m"
    and c: "c < length lss" "kvs ! p \<in> set (lss ! c)" and p: "p < length kvs" and dir: "direction m = kForward"
  shows "\<exists>cs. child_op (it_Next (Wrapped it)) c (children m) = Ret cs \<and>
    merge_at it at lss kvs (FindSmallest cmp (m\<lparr>children := cs\<rparr>)) (Suc p)"
proof -
  have w: "wrap_at it (at c) (children m ! c) (part_pos kvs (lss ! c) p)" and n: "length (children m) = length lss"
    using pos c(1) by (simp_all add: merge_positions_def)
  note here = part_here [OF list_part [OF c(1)] p c(2)]
  obtain w' where w': "it_Next (Wrapped it) (children m ! c) = Ret w'" "wrap_at it (at c) w' (Suc (part_pos kvs (lss ! c) p))"
    using iterator.next [OF wrapped [OF c(1)] w] here by blast
  have "part_pos kvs (lss ! j) (Suc p) = part_pos kvs (lss ! j) p" if "j < length lss" "j \<noteq> c" for j
    using part_pos_Suc [OF p] owner_unique [OF _ c(2) that(1) c(1)] that(2) by auto
  then have "merge_positions it at (length lss) (\<lambda>j. part_pos kvs (lss ! j) (Suc p)) (m\<lparr>children := (children m)[c := w']\<rparr>)"
    using pos w'(2) part_pos_Suc [OF p, of "lss ! c"] c by (auto simp: merge_positions_def nth_list_update)
  from FindSmallest_at [OF this] p dir show ?thesis using w'(1) by (simp add: child_op_def same_direction)
qed

lemma retreat_at:
  assumes pos: "merge_positions it at (length lss) (\<lambda>j. back_pos (lss ! j) (part_pos kvs (lss ! j) (Suc p))) m"
    and c: "c < length lss" "kvs ! p \<in> set (lss ! c)" and p: "p < length kvs" and dir: "direction m = kReverse"
  shows "\<exists>cs. child_op (it_Prev (Wrapped it)) c (children m) = Ret cs \<and>
    merge_at it at lss kvs (FindLargest cmp (m\<lparr>children := cs\<rparr>)) (back_pos kvs p)"
proof -
  have Suc: "part_pos kvs (lss ! c) (Suc p) = Suc (part_pos kvs (lss ! c) p)" using part_pos_Suc [OF p] c(2) by simp
  have w: "wrap_at it (at c) (children m ! c) (part_pos kvs (lss ! c) p)" and n: "length (children m) = length lss"
    using pos c(1) Suc by (auto simp: merge_positions_def back_pos_def)
  note here = part_here [OF list_part [OF c(1)] p c(2)]
  obtain w' where w': "it_Prev (Wrapped it) (children m ! c) = Ret w'"
      "wrap_at it (at c) w' (back_pos (lss ! c) (part_pos kvs (lss ! c) p))"
    using iterator.prev [OF wrapped [OF c(1)] w] here by (auto simp: back_pos_def)
  have "part_pos kvs (lss ! j) (Suc p) = part_pos kvs (lss ! j) p" if "j < length lss" "j \<noteq> c" for j
    using part_pos_Suc [OF p] owner_unique [OF _ c(2) that(1) c(1)] that(2) by auto
  then have "merge_positions it at (length lss) (\<lambda>j. back_pos (lss ! j) (part_pos kvs (lss ! j) p)) (m\<lparr>children := (children m)[c := w']\<rparr>)"
    using pos w'(2) c by (auto simp: merge_positions_def nth_list_update)
  from FindLargest_at [OF this] p dir show ?thesis using w'(1) by (simp add: child_op_def same_direction)
qed

lemma merger_Next_at:
  assumes "at": "merge_at it at lss kvs m p" and p: "p < length kvs"
  shows "\<exists>m'. merger_Next it cmp m = Ret m' \<and> merge_at it at lss kvs m' (Suc p)"
proof -
  obtain c where c: "current m = Some c" "c < length lss" "kvs ! p \<in> set (lss ! c)"
      "wrap_at it (at c) (children m ! c) (part_pos kvs (lss ! c) p)" "w_key (children m ! c) = fst (kvs ! p)"
    using merge_at_owner [OF "at" p] by metis
  have key: "merger_key m = fst (kvs ! p)" using c by (simp add: merger_key_def)
  note made = merge_at_made [OF "at"]
  have turn: "\<exists>m'. (if direction m \<noteq> kForward then
               run_bind (each_child (\<lambda>i. if i \<noteq> c then seek_behind it cmp (merger_key m) else Ret) m)
                 (\<lambda>m. Ret (m\<lparr>direction := kForward\<rparr>))
             else Ret m) = Ret m' \<and> direction m' = kForward \<and>
      merge_positions it at (length lss) (\<lambda>j. part_pos kvs (lss ! j) p) m'"
  proof (cases "direction m")
    case kForward
    then show ?thesis using "at" by (simp add: merge_at_def)
  next
    case kReverse
    have "\<exists>w'. (if j \<noteq> c then seek_behind it cmp (merger_key m) else Ret) (children m ! j) = Ret w' \<and>
        wrap_at it (at j) w' (part_pos kvs (lss ! j) p)" if j: "j < length lss" for j
      using seek_behind_at [OF _ j p, of "children m ! j"] made j owner_unique [OF _ c(3) j c(2)] c(4) key
      by (auto simp: merge_made_def)
    from each_child_at [OF merge_made_length [OF made], where g = "\<lambda>i. if i \<noteq> c then seek_behind it cmp (merger_key m) else Ret"
        and f = "\<lambda>j. part_pos kvs (lss ! j) p", OF this]
    show ?thesis using kReverse by (auto simp: merge_positions_def)
  qed
  then obtain m' where m': "direction m' = kForward" "merge_positions it at (length lss) (\<lambda>j. part_pos kvs (lss ! j) p) m'"
      and eq: "(if direction m \<noteq> kForward then
               run_bind (each_child (\<lambda>i. if i \<noteq> c then seek_behind it cmp (merger_key m) else Ret) m)
                 (\<lambda>m. Ret (m\<lparr>direction := kForward\<rparr>))
             else Ret m) = Ret m'" by blast
  show ?thesis
    using advance_at [OF m'(2) c(2,3) p m'(1)] unfolding merger_Next_def c(1) option.case eq run_bind_simps by auto
qed

lemma merger_Prev_at:
  assumes "at": "merge_at it at lss kvs m p" and p: "p < length kvs"
  shows "\<exists>m'. merger_Prev it cmp m = Ret m' \<and> merge_at it at lss kvs m' (back_pos kvs p)"
proof -
  obtain c where c: "current m = Some c" "c < length lss" "kvs ! p \<in> set (lss ! c)"
      "wrap_at it (at c) (children m ! c) (part_pos kvs (lss ! c) p)" "w_key (children m ! c) = fst (kvs ! p)"
    using merge_at_owner [OF "at" p] by metis
  have key: "merger_key m = fst (kvs ! p)" using c by (simp add: merger_key_def)
  have own: "back_pos (lss ! c) (part_pos kvs (lss ! c) (Suc p)) = part_pos kvs (lss ! c) p"
    using part_pos_Suc [OF p, of "lss ! c"] c(3) by (simp add: back_pos_def)
  note made = merge_at_made [OF "at"]
  have turn: "\<exists>m'. (if direction m \<noteq> kReverse then
               run_bind (each_child (\<lambda>i. if i \<noteq> c then seek_before it (merger_key m) else Ret) m)
                 (\<lambda>m. Ret (m\<lparr>direction := kReverse\<rparr>))
             else Ret m) = Ret m' \<and> direction m' = kReverse \<and>
      merge_positions it at (length lss) (\<lambda>j. back_pos (lss ! j) (part_pos kvs (lss ! j) (Suc p))) m'"
  proof (cases "direction m")
    case kReverse
    then show ?thesis using "at" p by (simp add: merge_at_def)
  next
    case kForward
    have "\<exists>w'. (if j \<noteq> c then seek_before it (merger_key m) else Ret) (children m ! j) = Ret w' \<and>
        wrap_at it (at j) w' (back_pos (lss ! j) (part_pos kvs (lss ! j) (Suc p)))" if j: "j < length lss" for j
      using seek_before_at [OF _ j p, of "children m ! j"] made j owner_unique [OF _ c(3) j c(2)] c(4) key own
      by (auto simp: merge_made_def)
    from each_child_at [OF merge_made_length [OF made], where g = "\<lambda>i. if i \<noteq> c then seek_before it (merger_key m) else Ret"
        and f = "\<lambda>j. back_pos (lss ! j) (part_pos kvs (lss ! j) (Suc p))", OF this]
    show ?thesis using kForward by (auto simp: merge_positions_def)
  qed
  then obtain m' where m': "direction m' = kReverse"
      "merge_positions it at (length lss) (\<lambda>j. back_pos (lss ! j) (part_pos kvs (lss ! j) (Suc p))) m'"
      and eq: "(if direction m \<noteq> kReverse then
               run_bind (each_child (\<lambda>i. if i \<noteq> c then seek_before it (merger_key m) else Ret) m)
                 (\<lambda>m. Ret (m\<lparr>direction := kReverse\<rparr>))
             else Ret m) = Ret m'" by blast
  show ?thesis
    using retreat_at [OF m'(2) c(2,3) p m'(1)] unfolding merger_Prev_def c(1) option.case eq run_bind_simps by auto
qed

lemma first_error_OK: "\<forall>s \<in> set ss. s = OK \<Longrightarrow> first_error ss OK = OK"
  by (induction ss) simp_all

lemma merging_iterator:
  "iterator (MergingIterator it cmp) (Compare cmp) key_ok kvs (merge_made made (length lss)) (merge_at it at lss kvs)"
proof
  fix m p
  assume "at": "merge_at it at lss kvs m p"
  show "merge_made made (length lss) m" by (rule merge_at_made [OF "at"])
  show "it_Valid (MergingIterator it cmp) m \<longleftrightarrow> p < length kvs"
    using "at" by (auto simp: MergingIterator_def merger_Valid_def merge_at_def owns_def split: if_splits)
  show "p \<le> length kvs" using "at" by (simp add: merge_at_def)
  assume p: "p < length kvs"
  show "it_key (MergingIterator it cmp) m = fst (kvs ! p) \<and> it_value (MergingIterator it cmp) m = snd (kvs ! p)"
    by (rule merge_at_owner [OF "at" p]) (simp add: MergingIterator_def merger_key_def merger_value_def)
  show "\<exists>m'. it_Next (MergingIterator it cmp) m = Ret m' \<and> merge_at it at lss kvs m' (Suc p)"
    using merger_Next_at [OF "at" p] by (simp add: MergingIterator_def)
  show "\<exists>m'. it_Prev (MergingIterator it cmp) m = Ret m' \<and> merge_at it at lss kvs m' (if p = 0 then length kvs else p - 1)"
    using merger_Prev_at [OF "at" p] by (simp add: MergingIterator_def back_pos_def)
next
  fix m t
  assume made: "merge_made made (length lss) m"
  have "\<forall>s \<in> set (map (it_status (Wrapped it)) (children m)). s = OK"
    using made iterator.status [OF wrapped] by (auto simp: merge_made_def in_set_conv_nth)
  then show "it_status (MergingIterator it cmp) m = OK"
    by (simp add: MergingIterator_def merger_status_def first_error_OK)
  show "\<exists>m'. it_SeekToFirst (MergingIterator it cmp) m = Ret m' \<and> merge_at it at lss kvs m' 0"
    using merger_SeekToFirst_at [OF made] by (simp add: MergingIterator_def)
  show "\<exists>m'. it_SeekToLast (MergingIterator it cmp) m = Ret m' \<and> merge_at it at lss kvs m' (length kvs - 1)"
    using merger_SeekToLast_at [OF made] by (simp add: MergingIterator_def)
  assume "key_ok t"
  then show "\<exists>m'. it_Seek (MergingIterator it cmp) t m = Ret m' \<and> merge_at it at lss kvs m' (lower_bound (Compare cmp) t kvs)"
    using merger_Seek_at [OF made] by (simp add: MergingIterator_def)
qed

end

section \<open>Any number of children\<close>

text \<open>What the factory returns stands for the same list.\<close>

fun merged_made :: "(nat \<Rightarrow> 'i \<Rightarrow> bool) \<Rightarrow> nat \<Rightarrow> 'i merged \<Rightarrow> bool" where
  "merged_made made n (Merged_empty s) \<longleftrightarrow> n = 0 \<and> s = OK"
| "merged_made made n (Merged_child i) \<longleftrightarrow> n = 1 \<and> made 0 i"
| "merged_made made n (Merged_many m) \<longleftrightarrow> merge_made made n m"

fun merged_at ::
  "'i Iter \<Rightarrow> (nat \<Rightarrow> 'i \<Rightarrow> nat \<Rightarrow> bool) \<Rightarrow> (bytes \<times> bytes) list list \<Rightarrow> (bytes \<times> bytes) list \<Rightarrow> 'i merged \<Rightarrow> nat \<Rightarrow> bool" where
  "merged_at it at lss kvs (Merged_empty s) p \<longleftrightarrow> lss = [] \<and> s = OK \<and> p = 0"
| "merged_at it at lss kvs (Merged_child i) p \<longleftrightarrow> length lss = 1 \<and> at 0 i p"
| "merged_at it at lss kvs (Merged_many m) p \<longleftrightarrow> merge_at it at lss kvs m p"

lemma merged_op_at:
  "run_bind (e s) (\<lambda>s. Ret (Merged_empty s)) = merged_op e c m (Merged_empty s)"
  "run_bind (c i) (\<lambda>i. Ret (Merged_child i)) = merged_op e c m (Merged_child i)"
  "run_bind (m x) (\<lambda>x. Ret (Merged_many x)) = merged_op e c m (Merged_many x)"
  by (simp_all add: merged_op_def)

context merging
begin

lemma merged_iterator:
  "iterator (MergedIterator it cmp) (Compare cmp) key_ok kvs (merged_made made (length lss)) (merged_at it at lss kvs)"
proof -
  have none: "kvs = []" if "lss = []" using that parts by simp
  have one: "kvs = lss ! 0" if "length lss = 1"
    using that sorted_entries_unique [OF ord kvs_sorted lists_sorted [of 0]] set_kvs by (cases lss) auto
  note m = merging_iterator
  note c = child [of 0]
  show ?thesis
  proof
    fix x p
    assume "at": "merged_at it at lss kvs x p"
    show "merged_made made (length lss) x"
      using "at" iterator.at_made [OF m] iterator.at_made [OF c] by (cases x) auto
    show "it_Valid (MergedIterator it cmp) x \<longleftrightarrow> p < length kvs"
      using "at" none one iterator.valid [OF m] iterator.valid [OF c]
      by (cases x) (simp_all add: MergedIterator_def Let_def EmptyIterator_def)
    show "p \<le> length kvs"
      using "at" one iterator.bound [OF m] iterator.bound [OF c] by (cases x) auto
    assume p: "p < length kvs"
    show "it_key (MergedIterator it cmp) x = fst (kvs ! p) \<and> it_value (MergedIterator it cmp) x = snd (kvs ! p)"
      using "at" p none one iterator.entry [OF m] iterator.entry [OF c]
      by (cases x) (simp_all add: MergedIterator_def Let_def EmptyIterator_def)
    show "\<exists>x'. it_Next (MergedIterator it cmp) x = Ret x' \<and> merged_at it at lss kvs x' (Suc p)"
      using "at" p none one iterator.next [OF m] iterator.next [OF c]
      by (cases x) (fastforce simp: MergedIterator_def Let_def merged_op_def)+
    show "\<exists>x'. it_Prev (MergedIterator it cmp) x = Ret x' \<and> merged_at it at lss kvs x' (if p = 0 then length kvs else p - 1)"
      using "at" p none one iterator.prev [OF m] iterator.prev [OF c]
      by (cases x) (fastforce simp: MergedIterator_def Let_def merged_op_def)+
  next
    fix x t
    assume made: "merged_made made (length lss) x"
    show "it_status (MergedIterator it cmp) x = OK"
      using made iterator.status [OF m] iterator.status [OF c] by (cases x) (simp_all add: MergedIterator_def Let_def EmptyIterator_def)
    show "\<exists>x'. it_SeekToFirst (MergedIterator it cmp) x = Ret x' \<and> merged_at it at lss kvs x' 0"
      using made iterator.seek_to_first [OF m] iterator.seek_to_first [OF c]
      by (cases x) (fastforce simp: MergedIterator_def Let_def merged_op_def EmptyIterator_def)+
    show "\<exists>x'. it_SeekToLast (MergedIterator it cmp) x = Ret x' \<and> merged_at it at lss kvs x' (length kvs - 1)"
      using made none one iterator.seek_to_last [OF m] iterator.seek_to_last [OF c]
      by (cases x) (fastforce simp: MergedIterator_def Let_def merged_op_def EmptyIterator_def)+
    assume "key_ok t"
    then show "\<exists>x'. it_Seek (MergedIterator it cmp) t x = Ret x' \<and> merged_at it at lss kvs x' (lower_bound (Compare cmp) t kvs)"
      using made none one iterator.seek [OF m] iterator.seek [OF c]
      by (cases x) (fastforce simp: MergedIterator_def Let_def merged_op_def EmptyIterator_def lower_bound_def)+
  qed
qed

lemma new_merged_made:
  assumes "length is = length lss" and "\<forall>j < length is. made j (is ! j)"
  shows "merged_made made (length lss) (NewMergingIterator it is)"
proof -
  have "w_iter (wrapper_Set it (Some i) new_wrapper) = Some i" for i
    by (simp add: wrapper_Set_def wrapper_Update_def Let_def)
  then have "merge_made made (length lss) (new_MergingIterator it is)"
    using assms by (simp add: merge_made_def new_MergingIterator_def wrap_made_def)
  moreover have "made 0 (is ! 0)" if "is \<noteq> []" using that assms(2) by simp
  ultimately show ?thesis using assms(1) by (auto simp: NewMergingIterator_def NewEmptyIterator_def split: list.split)
qed

end

text \<open>
  C12. Merging. When each child meets the contract of iterators for a sorted list and no two of them
  have an entry in common, the iterator that the factory makes of them meets it for the sorted list
  of all entries: it can be positioned anywhere and moved in both directions, with turns, and a
  forward scan, a scan from a target and a backward scan read exactly these entries in order.
\<close>

theorem merging_iterates:
  assumes "key_order (Compare cmp) key_ok"
    and "\<And>j. j < length lss \<Longrightarrow> iterator it (Compare cmp) key_ok (lss ! j) (made j) (at j)"
    and "\<And>j. j < length lss \<Longrightarrow> sorted_entries (Compare cmp) key_ok (lss ! j)"
    and "sorted_entries (Compare cmp) key_ok kvs" and "mset kvs = mset (concat lss)"
    and "length is = length lss" and "\<And>j. j < length lss \<Longrightarrow> made j (is ! j)"
    and "length kvs < n" and "key_ok t"
  defines "M \<equiv> MergedIterator it cmp" and "x \<equiv> NewMergingIterator it is"
  shows "(\<exists>made' at'. iterator M (Compare cmp) key_ok kvs made' at' \<and> made' x) \<and>
    run_bind (it_SeekToFirst M x) (scan M n) = Ret kvs \<and>
    run_bind (it_Seek M t x) (scan M n) = Ret (dropWhile (\<lambda>(k, _). Compare cmp k t < 0) kvs) \<and>
    run_bind (it_SeekToLast M x) (scan_back M n) = Ret (rev kvs)"
proof -
  have m: "merging cmp key_ok it lss kvs made at"
    using assms(1-5) by (intro merging.intro merging_axioms.intro) auto
  note M = merging.merged_iterator [OF m, folded M_def]
  have x: "merged_made made (length lss) x"
    unfolding x_def using assms(6,7) by (intro merging.new_merged_made [OF m]) auto
  show ?thesis
    using M x iterator.scan_all [OF M x assms(8)] iterator.scan_from [OF M x assms(9,8)] iterator.scan_back_all [OF M x assms(8)]
    by blast
qed

section \<open>Memtables merged\<close>

text \<open>
  Memtables whose additions have different sequence numbers, merged: the list is the sorted list of
  all the additions.
\<close>

definition mems_rep :: "Comparator \<Rightarrow> (bytes \<Rightarrow> bool) \<Rightarrow> MemTable list \<Rightarrow> mem_add list list \<Rightarrow> bool" where
  "mems_rep u key_ok ms addss \<longleftrightarrow>
     length ms = length addss \<and> (\<forall>j < length ms. mem_rep u key_ok (ms ! j) (addss ! j)) \<and> distinct (map add_seq (concat addss))"

text \<open>Nodes, lists and the merged list of the memtables, and nothing when they do not represent the additions.\<close>

type_synonym mem_parts = "(nat \<Rightarrow> nat list) \<times> (bytes \<times> bytes) list list \<times> (bytes \<times> bytes) list"

definition mem_parts_ok :: "Comparator \<Rightarrow> (bytes \<Rightarrow> bool) \<Rightarrow> MemTable list \<Rightarrow> mem_add list list \<Rightarrow> mem_parts \<Rightarrow> bool" where
  "mem_parts_ok u key_ok ms addss x \<longleftrightarrow>
     (case x of (ns, lss, kvs) \<Rightarrow>
        merging (InternalKeyComparator u) (seek_ok key_ok) (MemTableIterator u) lss kvs
          (\<lambda>j i. fst i = ms ! j) (\<lambda>j. mem_at (ms ! j) (ns j)) \<and>
        (if mems_rep u key_ok ms addss then length lss = length ms \<and> mset kvs = mset (map add_entry (concat addss))
         else lss = []))"

definition mem_parts :: "Comparator \<Rightarrow> (bytes \<Rightarrow> bool) \<Rightarrow> MemTable list \<Rightarrow> mem_add list list \<Rightarrow> mem_parts" where
  "mem_parts u key_ok ms addss = (SOME x. mem_parts_ok u key_ok ms addss x)"

definition MemTables :: "Comparator \<Rightarrow> mem_iter merged Iter" where
  "MemTables u = MergedIterator (MemTableIterator u) (InternalKeyComparator u)"

definition open_MemTables :: "Comparator \<Rightarrow> MemTable list \<Rightarrow> mem_iter merged" where
  "open_MemTables u ms = NewMergingIterator (MemTableIterator u) (map MemTable_NewIterator ms)"

lemma sorted_entries_exist:
  assumes ord: "key_order cmp key_ok" and "\<forall>x \<in> set xs. key_ok (fst x)"
    and "distinct xs" and "\<And>x y. x \<in> set xs \<Longrightarrow> y \<in> set xs \<Longrightarrow> x \<noteq> y \<Longrightarrow> cmp (fst x) (fst y) \<noteq> 0"
  shows "\<exists>kvs. sorted_entries cmp key_ok kvs \<and> mset kvs = mset xs"
  using assms(2-)
proof (induction xs)
  case Nil
  then show ?case by (simp add: sorted_entries_def)
next
  case (Cons x xs)
  then obtain kvs where kvs: "sorted_entries cmp key_ok kvs" "mset kvs = mset xs" by auto
  let ?low = "filter (\<lambda>y. cmp (fst y) (fst x) < 0) kvs" and ?high = "filter (\<lambda>y. \<not> cmp (fst y) (fst x) < 0) kvs"
  have set: "set kvs = set xs" using kvs(2) by (rule mset_eq_setD)
  have x: "key_ok (fst x)" and ok: "\<And>y. y \<in> set kvs \<Longrightarrow> key_ok (fst y)" using Cons.prems(1) set by auto
  have high: "cmp (fst x) (fst y) < 0" if "y \<in> set ?high" for y
  proof -
    have y: "y \<in> set xs" "\<not> cmp (fst y) (fst x) < 0" using that set by auto
    then have "cmp (fst y) (fst x) \<noteq> 0" using Cons.prems(2,3) by (metis distinct.simps(2) list.set_intros)
    then show ?thesis using y key_order.compare_pos [OF ord, of "fst y" "fst x"] ok x set by auto
  qed
  have sorted: "sorted_wrt (\<lambda>x y. cmp (fst x) (fst y) < 0) ?low" "sorted_wrt (\<lambda>x y. cmp (fst x) (fst y) < 0) ?high"
    using kvs(1) by (simp_all add: sorted_entries_def sorted_wrt_filter)
  have above: "\<forall>z \<in> set ?high. cmp (fst x) (fst z) < 0" using high by blast
  have "cmp (fst y) (fst z) < 0" if y: "y \<in> set ?low" and z: "z \<in> set (x # ?high)" for y z
  proof (cases "z = x")
    case False
    then have "z \<in> set ?high" using z by simp
    then show ?thesis
      using key_order.lt_trans [OF ord, of "fst y" "fst x" "fst z"] x ok [of y] ok [of z] above y by simp
  qed (use y in simp)
  then have "\<forall>y \<in> set ?low. \<forall>z \<in> set (x # ?high). cmp (fst y) (fst z) < 0" by blast
  then have "sorted_wrt (\<lambda>x y. cmp (fst x) (fst y) < 0) (?low @ x # ?high)"
    using sorted above by (simp only: sorted_wrt_append sorted_wrt.simps simp_thms)
  then have "sorted_entries cmp key_ok (?low @ x # ?high)"
    unfolding sorted_entries_def by (rule conjI) (use x ok in auto)
  moreover have "mset (filter P ys) + mset (filter (\<lambda>y. \<not> P y) ys) = mset ys" for P and ys :: "(bytes \<times> 'a) list"
    by (induction ys) simp_all
  from this [of "\<lambda>y. cmp (fst y) (fst x) < 0" kvs] have "mset (?low @ x # ?high) = mset (x # xs)" using kvs(2) by simp
  ultimately show ?case by blast
qed

context user_comparator
begin

lemma add_entries_differ:
  assumes "good_add ok a" "good_add ok b" "add_seq a \<noteq> add_seq b"
  shows "internal_compare u (fst (add_entry a)) (fst (add_entry b)) \<noteq> 0"
  using assms pack_seq [of "add_seq a" "type (fst a)"] pack_seq [of "add_seq b" "type (fst b)"]
  by (auto simp: add_entry_def encode_key_append internal_compare_suffixed good_add_def)

lemma mem_parts_exist:
  assumes rep: "mems_rep u ok ms addss"
  shows "\<exists>x. mem_parts_ok u ok ms addss x"
proof -
  have "\<forall>j. \<exists>ns kvs. j < length ms \<longrightarrow> sorted_entries (internal_compare u) (seek_ok ok) kvs \<and> mset kvs = mset (map add_entry (addss ! j)) \<and>
      iterator (MemTableIterator u) (internal_compare u) (seek_ok ok) kvs (\<lambda>i. fst i = ms ! j) (mem_at (ms ! j) ns)"
    using MemTable_iterator rep unfolding mems_rep_def by blast
  then obtain ns lss where ls: "\<And>j. j < length ms \<Longrightarrow> sorted_entries (internal_compare u) (seek_ok ok) (lss j) \<and>
      mset (lss j) = mset (map add_entry (addss ! j)) \<and>
      iterator (MemTableIterator u) (internal_compare u) (seek_ok ok) (lss j) (\<lambda>i. fst i = ms ! j) (mem_at (ms ! j) (ns j))"
    by metis
  let ?ls = "map lss [0..<length ms]"
  have good: "good_add ok a" if a: "a \<in> set (concat addss)" for a
  proof -
    obtain as where as: "as \<in> set addss" "a \<in> set as" using a by auto
    then obtain j where "j < length addss" "addss ! j = as" by (meson in_set_conv_nth)
    then have "j < length addss" "a \<in> set (addss ! j)" using as(2) by simp_all
    then show ?thesis using rep by (auto simp: mems_rep_def mem_rep_def list_all_iff)
  qed
  have len: "length ms = length addss" using rep by (simp add: mems_rep_def)
  have "mset (concat (map lss [0..<k])) = mset (map add_entry (concat (take k addss)))" if "k \<le> length ms" for k
    using that
  proof (induction k)
    case (Suc k)
    then have "mset (lss k) = mset (map add_entry (addss ! k))" using ls [of k] by simp
    then show ?case using Suc len by (simp add: take_Suc_conv_app_nth)
  qed simp
  from this [of "length ms"] have all: "mset (concat ?ls) = mset (map add_entry (concat addss))" using len by simp
  have "inj_on add_seq (set (concat addss))" and dist: "distinct (concat addss)"
    using rep by (simp_all add: mems_rep_def distinct_map del: set_concat)
  then have seqs: "a = b \<or> add_seq a \<noteq> add_seq b" if "a \<in> set (concat addss)" "b \<in> set (concat addss)" for a b
    using that by (auto dest: inj_onD)
  have differ: "internal_compare u (fst (add_entry a)) (fst (add_entry b)) \<noteq> 0"
    if "a \<in> set (concat addss)" "b \<in> set (concat addss)" "a \<noteq> b" for a b
    using add_entries_differ [OF good [OF that(1)] good [OF that(2)]] seqs [OF that(1,2)] that(3) by blast
  have "inj_on add_entry (set (concat addss))"
    using differ key_order.compare_refl [OF seek_order add_entry_ok [OF good]] by (metis (no_types, lifting) inj_onI)
  then have "distinct (map add_entry (concat addss))" using dist by (simp add: distinct_map)
  moreover have "\<forall>x \<in> set (map add_entry (concat addss)). seek_ok ok (fst x)"
    using add_entry_ok [OF good] by (auto simp del: set_concat)
  moreover have "internal_compare u (fst x) (fst y) \<noteq> 0"
    if xy: "x \<in> set (map add_entry (concat addss))" "y \<in> set (map add_entry (concat addss))" "x \<noteq> y" for x y
  proof -
    obtain a b where "a \<in> set (concat addss)" "x = add_entry a" "b \<in> set (concat addss)" "y = add_entry b"
      using xy(1,2) unfolding set_map by blast
    then show ?thesis using differ [of a b] xy(3) by auto
  qed
  ultimately obtain kvs where kvs: "sorted_entries (internal_compare u) (seek_ok ok) kvs" "mset kvs = mset (map add_entry (concat addss))"
    using sorted_entries_exist [OF seek_order, of "map add_entry (concat addss)"] by blast
  have merging: "merging (InternalKeyComparator u) (seek_ok ok) (MemTableIterator u) ?ls kvs
      (\<lambda>j i. fst i = ms ! j) (\<lambda>j. mem_at (ms ! j) (ns j))"
    using seek_order ls kvs all by (intro merging.intro merging_axioms.intro) simp_all
  then have "mem_parts_ok u ok ms addss (ns, ?ls, kvs)" using rep kvs(2) by (simp add: mem_parts_ok_def)
  then show ?thesis by blast
qed

lemma mem_parts: "mem_parts_ok u ok ms addss (mem_parts u ok ms addss)"
proof (cases "mems_rep u ok ms addss")
  case True
  then show ?thesis unfolding mem_parts_def using mem_parts_exist someI_ex [of "mem_parts_ok u ok ms addss"] by blast
next
  case False
  have "merging (InternalKeyComparator u) (seek_ok ok) (MemTableIterator u) [] []
      (\<lambda>j i. fst i = ms ! j) (\<lambda>j. mem_at (ms ! j) [])"
    using seek_order by (intro merging.intro merging_axioms.intro) (simp_all add: sorted_entries_def)
  then have "mem_parts_ok u ok ms addss (\<lambda>_. [], [], [])" using False by (simp add: mem_parts_ok_def)
  then show ?thesis unfolding mem_parts_def by (rule someI)
qed

lemma mem_parts_merging:
  "merging (InternalKeyComparator u) (seek_ok ok) (MemTableIterator u) (fst (snd (mem_parts u ok ms addss)))
     (snd (snd (mem_parts u ok ms addss))) (\<lambda>j i. fst i = ms ! j) (\<lambda>j. mem_at (ms ! j) (fst (mem_parts u ok ms addss) j))"
  using mem_parts [of ms addss] by (auto simp: mem_parts_ok_def split: prod.splits)

lemma MemTables_iterator:
  assumes rep: "mems_rep u ok ms addss"
  shows "\<exists>kvs made at. sorted_entries (internal_compare u) (seek_ok ok) kvs \<and> mset kvs = mset (map add_entry (concat addss)) \<and>
    iterator (MemTables u) (internal_compare u) (seek_ok ok) kvs made at \<and> made (open_MemTables u ms)"
proof -
  obtain ns lss kvs where x: "mem_parts u ok ms addss = (ns, lss, kvs)" by (metis prod_cases3)
  note m = mem_parts_merging [of ms addss, unfolded x fst_conv snd_conv]
  have len: "length lss = length ms" "mset kvs = mset (map add_entry (concat addss))"
    using mem_parts [of ms addss] rep by (simp_all add: x mem_parts_ok_def)
  have "merged_made (\<lambda>j i. fst i = ms ! j) (length lss) (open_MemTables u ms)"
    unfolding open_MemTables_def using len by (intro merging.new_merged_made [OF m]) (simp_all add: MemTable_NewIterator_def)
  then show ?thesis
    using merging.merged_iterator [OF m] merging.kvs_sorted [OF m] len unfolding MemTables_def InternalKeyComparator_simps by blast
qed

end

text \<open>The contract of merging holds of memtables with the default comparator.\<close>

interpretation mem_merging: merging "InternalKeyComparator BytewiseComparator" "seek_ok (\<lambda>_. True)"
  "MemTableIterator BytewiseComparator" "fst (snd (mem_parts BytewiseComparator (\<lambda>_. True) ms addss))"
  "snd (snd (mem_parts BytewiseComparator (\<lambda>_. True) ms addss))" "\<lambda>j i. fst i = ms ! j"
  "\<lambda>j. mem_at (ms ! j) (fst (mem_parts BytewiseComparator (\<lambda>_. True) ms addss) j)" for ms addss
  by (rule bytewise_keys.mem_parts_merging)

definition example_adds1 :: "mem_add list" where
  "example_adds1 = [(\<lparr>user_key = [1], sequence = 1, type = kTypeValue\<rparr>, [10])]"

definition example_adds2 :: "mem_add list" where
  "example_adds2 = [(\<lparr>user_key = [2], sequence = 2, type = kTypeValue\<rparr>, [20])]"

lemma bytewise_MemTable:
  assumes "list_all (good_add (\<lambda>_. True)) adds" and "sorted_wrt (\<lambda>a b. add_seq a < add_seq b) adds"
  obtains m where "MemTable_Add_all BytewiseComparator adds new_MemTable = Some m" "mem_rep BytewiseComparator (\<lambda>_. True) m adds"
  using bytewise_keys.MemTable_Add_all_rep [OF bytewise_keys.new_MemTable_rep, of adds] assms by auto

lemma example_adds_good:
  "list_all (good_add (\<lambda>_. True)) example_adds1" "list_all (good_add (\<lambda>_. True)) example_adds2"
  by (simp_all add: example_adds1_def example_adds2_def good_add_def valid_seq_unat)

theorem merging_iterates_witness:
  "\<exists>m1 m2. MemTable_Add_all BytewiseComparator example_adds1 new_MemTable = Some m1 \<and>
     MemTable_Add_all BytewiseComparator example_adds2 new_MemTable = Some m2 \<and>
     run_bind (it_SeekToLast (MemTables BytewiseComparator) (open_MemTables BytewiseComparator [m1, m2]))
       (scan_back (MemTables BytewiseComparator) 3) = Ret (map add_entry (example_adds2 @ example_adds1))"
proof -
  let ?u = BytewiseComparator and ?e1 = "add_entry (hd example_adds1)" and ?e2 = "add_entry (hd example_adds2)"
  let ?ok = "seek_ok (\<lambda>_. True)"
  obtain m1 where m1: "MemTable_Add_all ?u example_adds1 new_MemTable = Some m1" "mem_rep ?u (\<lambda>_. True) m1 example_adds1"
    by (rule bytewise_MemTable [OF example_adds_good(1)]) (simp add: example_adds1_def)
  obtain m2 where m2: "MemTable_Add_all ?u example_adds2 new_MemTable = Some m2" "mem_rep ?u (\<lambda>_. True) m2 example_adds2"
    by (rule bytewise_MemTable [OF example_adds_good(2)]) (simp add: example_adds2_def)
  have adds: "map add_entry example_adds1 = [?e1]" "map add_entry example_adds2 = [?e2]"
    by (simp_all add: example_adds1_def example_adds2_def)
  have single: "kvs = [e]" if "mset kvs = mset [e]" for kvs and e :: "bytes \<times> bytes" using that by simp
  obtain ns1 where i1: "iterator (MemTableIterator ?u) (internal_compare ?u) ?ok [?e1] (\<lambda>i. fst i = m1) (mem_at m1 ns1)"
      and s1: "sorted_entries (internal_compare ?u) ?ok [?e1]"
    using bytewise_keys.MemTable_iterator [OF m1(2)] unfolding adds by (metis single)
  obtain ns2 where i2: "iterator (MemTableIterator ?u) (internal_compare ?u) ?ok [?e2] (\<lambda>i. fst i = m2) (mem_at m2 ns2)"
      and s2: "sorted_entries (internal_compare ?u) ?ok [?e2]"
    using bytewise_keys.MemTable_iterator [OF m2(2)] unfolding adds by (metis single)
  have less: "internal_compare ?u (fst ?e1) (fst ?e2) < 0"
    by (simp only: example_adds1_def example_adds2_def add_entry_def encode_key_append list.sel fst_conv
        ParsedInternalKey.simps internal_compare_suffixed)
      (simp add: BytewiseComparator_def slice_compare_def)
  have t: "?ok (fst ?e1)" using s1 by (simp add: sorted_entries_def)
  have "run_bind (it_SeekToLast (MemTables ?u) (open_MemTables ?u [m1, m2])) (scan_back (MemTables ?u) 3) = Ret (rev [?e1, ?e2])"
    unfolding MemTables_def open_MemTables_def
  proof (rule merging_iterates [where key_ok = ?ok and lss = "[[?e1], [?e2]]" and made = "\<lambda>j i. fst i = [m1, m2] ! j"
        and at = "\<lambda>j. mem_at ([m1, m2] ! j) ([ns1, ns2] ! j)" and t = "fst ?e1", THEN conjunct2, THEN conjunct2, THEN conjunct2])
    fix j assume "j < length [[?e1], [?e2]]"
    then have j: "j = 0 \<or> j = 1" by auto
    show "iterator (MemTableIterator ?u) (Compare (InternalKeyComparator ?u)) ?ok ([[?e1], [?e2]] ! j)
        (\<lambda>i. fst i = [m1, m2] ! j) (mem_at ([m1, m2] ! j) ([ns1, ns2] ! j))"
      using j i1 i2 by auto
    show "sorted_entries (Compare (InternalKeyComparator ?u)) ?ok ([[?e1], [?e2]] ! j)" using j s1 s2 by auto
    show "fst (map MemTable_NewIterator [m1, m2] ! j) = [m1, m2] ! j" using j by (auto simp: MemTable_NewIterator_def)
  qed (use bytewise_keys.seek_order less s1 s2 t in \<open>simp_all add: sorted_entries_def\<close>)
  then show ?thesis using m1(1) m2(1) by (simp add: example_adds1_def example_adds2_def)
qed

end
