(* ===== verification/LdbDBIter.thy ===== *)
theory LdbDBIter
  imports LdbMerger LdbRandom "HOL-Library.While_Combinator"
begin

text \<open>
  LevelDB, \<^verbatim>\<open>db/db_iter.cc\<close>: the iterator that a user of the database sees. Below it is an
  iterator over internal keys; it hides what is newer than its snapshot, older versions and deleted
  keys. It is shown to meet the contract of iterators for the list of the user entries that the
  snapshot sees, in both directions and through turns.
\<close>

section \<open>The iterator\<close>

definition kReadBytesPeriod :: nat where "kReadBytesPeriod = 1048576"

text \<open>\<open>samples\<close> are the keys that \<open>RecordReadSample\<close> of the database has been called with.\<close>

record 'i dbiter =
  db_iter :: 'i
  db_sequence :: SequenceNumber
  db_status :: Status
  saved_key :: bytes
  saved_value :: bytes
  db_direction :: Direction
  db_valid :: bool
  db_rnd :: "32 word"
  bytes_counter :: int
  samples :: "bytes list"

definition RandomPeriod :: "'i dbiter \<Rightarrow> nat \<times> 'i dbiter" where
  "RandomPeriod d = (let (n, rnd) = Uniform (2 * kReadBytesPeriod) (db_rnd d) in (n, d\<lparr>db_rnd := rnd\<rparr>))"

definition new_DBIter :: "'i \<Rightarrow> SequenceNumber \<Rightarrow> 32 word \<Rightarrow> 'i dbiter" where
  "new_DBIter iter s seed =
     (let d = \<lparr>db_iter = iter, db_sequence = s, db_status = OK, saved_key = [], saved_value = [],
               db_direction = kForward, db_valid = False, db_rnd = new_Random seed, bytes_counter = 0, samples = []\<rparr>;
          (n, d) = RandomPeriod d in
      d\<lparr>bytes_counter := int n\<rparr>)"

text \<open>The loop that draws the next gap until the counter is not negative; it may go on for ever.\<close>

definition sample_step :: "bytes \<Rightarrow> 'i dbiter \<Rightarrow> 'i dbiter" where
  "sample_step k d =
     (let (n, d) = RandomPeriod d in
      d\<lparr>bytes_counter := bytes_counter d + int n, samples := samples d @ [k]\<rparr>)"

definition sample_loop :: "bytes \<Rightarrow> 'i dbiter \<Rightarrow> 'i dbiter option" where
  "sample_loop k d = while_option (\<lambda>d. bytes_counter d < 0) (sample_step k) d"

definition ParseKey :: "'i Iter \<Rightarrow> 'i dbiter \<Rightarrow> (ParsedInternalKey option \<times> 'i dbiter) run" where
  "ParseKey it d =
     (let k = it_key it (db_iter d);
          n = length k + length (it_value it (db_iter d)) in
      case sample_loop k (d\<lparr>bytes_counter := bytes_counter d - int n\<rparr>) of
        None \<Rightarrow> NoFuel
      | Some d \<Rightarrow>
          (case ParseInternalKey k of
             None \<Rightarrow> Ret (None, d\<lparr>db_status := Corruption (ascii ''corrupted internal key in DBIter'') []\<rparr>)
           | Some ikey \<Rightarrow> Ret (Some ikey, d)))"

definition ClearSavedValue :: "'i dbiter \<Rightarrow> 'i dbiter" where
  "ClearSavedValue d = d\<lparr>saved_value := []\<rparr>"

text \<open>Moving the iterator below.\<close>

definition db_op :: "('i \<Rightarrow> 'i run) \<Rightarrow> 'i dbiter \<Rightarrow> 'i dbiter run" where
  "db_op f d = run_bind (f (db_iter d)) (\<lambda>i. Ret (d\<lparr>db_iter := i\<rparr>))"

text \<open>
  One round of the loop of \<open>FindNextUserEntry\<close>, whose \<open>skip\<close> is always \<open>saved_key_\<close>: whether an
  entry to yield has been found, and \<open>skipping\<close>.
\<close>

definition next_entry :: "Comparator \<Rightarrow> ParsedInternalKey option \<Rightarrow> bool \<Rightarrow> 'i dbiter \<Rightarrow> bool \<times> bool \<times> 'i dbiter" where
  "next_entry u ikey skipping d =
     (case ikey of
        None \<Rightarrow> (False, skipping, d)
      | Some k \<Rightarrow>
          if sequence k \<le> db_sequence d then
            if type k = kTypeDeletion then (False, True, d\<lparr>saved_key := user_key k\<rparr>)
            else if type k = kTypeValue then
              if skipping \<and> Compare u (user_key k) (saved_key d) \<le> 0 then (False, skipping, d)
              else (True, skipping, d\<lparr>db_valid := True, saved_key := []\<rparr>)
            else (False, skipping, d)
          else (False, skipping, d))"

primrec FindNextUserEntry :: "'i Iter \<Rightarrow> Comparator \<Rightarrow> nat \<Rightarrow> bool \<Rightarrow> 'i dbiter \<Rightarrow> 'i dbiter run" where
  "FindNextUserEntry it u 0 skipping d = NoFuel"
| "FindNextUserEntry it u (Suc n) skipping d =
     run_bind (ParseKey it d) (\<lambda>(ikey, d).
       case next_entry u ikey skipping d of (found, skipping, d) \<Rightarrow>
         if found then Ret d
         else run_bind (db_op (it_Next it) d) (\<lambda>d.
           if it_Valid it (db_iter d) then FindNextUserEntry it u n skipping d
           else Ret (d\<lparr>saved_key := [], db_valid := False\<rparr>)))"

text \<open>
  One round of the loop of \<open>FindPrevUserEntry\<close>: whether it breaks, and the type of the last visible
  entry.
\<close>

definition prev_entry :: "'i Iter \<Rightarrow> Comparator \<Rightarrow> ParsedInternalKey option \<Rightarrow> ValueType \<Rightarrow> 'i dbiter \<Rightarrow> bool \<times> ValueType \<times> 'i dbiter" where
  "prev_entry it u ikey value_type d =
     (case ikey of
        None \<Rightarrow> (False, value_type, d)
      | Some k \<Rightarrow>
          if sequence k \<le> db_sequence d then
            if value_type \<noteq> kTypeDeletion \<and> Compare u (user_key k) (saved_key d) < 0 then (True, value_type, d)
            else if type k = kTypeDeletion then (False, type k, ClearSavedValue (d\<lparr>saved_key := []\<rparr>))
            else (False, type k,
              d\<lparr>saved_key := ExtractUserKey (it_key it (db_iter d)), saved_value := it_value it (db_iter d)\<rparr>)
          else (False, value_type, d))"

primrec FindPrev_loop :: "'i Iter \<Rightarrow> Comparator \<Rightarrow> nat \<Rightarrow> ValueType \<Rightarrow> 'i dbiter \<Rightarrow> (ValueType \<times> 'i dbiter) run" where
  "FindPrev_loop it u 0 value_type d = NoFuel"
| "FindPrev_loop it u (Suc n) value_type d =
     run_bind (ParseKey it d) (\<lambda>(ikey, d).
       case prev_entry it u ikey value_type d of (break, value_type, d) \<Rightarrow>
         if break then Ret (value_type, d)
         else run_bind (db_op (it_Prev it) d) (\<lambda>d.
           if it_Valid it (db_iter d) then FindPrev_loop it u n value_type d else Ret (value_type, d)))"

definition FindPrevUserEntry :: "'i Iter \<Rightarrow> Comparator \<Rightarrow> nat \<Rightarrow> 'i dbiter \<Rightarrow> 'i dbiter run" where
  "FindPrevUserEntry it u n d =
     run_bind (if it_Valid it (db_iter d) then FindPrev_loop it u n kTypeDeletion d else Ret (kTypeDeletion, d))
       (\<lambda>(value_type, d).
          Ret (if value_type = kTypeDeletion
               then (ClearSavedValue (d\<lparr>db_valid := False, saved_key := []\<rparr>))\<lparr>db_direction := kForward\<rparr>
               else d\<lparr>db_valid := True\<rparr>))"

definition DBIter_Next :: "'i Iter \<Rightarrow> Comparator \<Rightarrow> nat \<Rightarrow> 'i dbiter \<Rightarrow> 'i dbiter run" where
  "DBIter_Next it u n d =
     (if \<not> db_valid d then Undef
      else if db_direction d = kReverse then
        run_bind (db_op (if it_Valid it (db_iter d) then it_Next it else it_SeekToFirst it) (d\<lparr>db_direction := kForward\<rparr>))
          (\<lambda>d. if it_Valid it (db_iter d) then FindNextUserEntry it u n True d
               else Ret (d\<lparr>db_valid := False, saved_key := []\<rparr>))
      else FindNextUserEntry it u n True (d\<lparr>saved_key := ExtractUserKey (it_key it (db_iter d))\<rparr>))"

text \<open>Scanning backwards until the key changes; \<open>None\<close> when there is no key before it.\<close>

primrec prev_key :: "'i Iter \<Rightarrow> Comparator \<Rightarrow> nat \<Rightarrow> 'i dbiter \<Rightarrow> (bool \<times> 'i dbiter) run" where
  "prev_key it u 0 d = NoFuel"
| "prev_key it u (Suc n) d =
     run_bind (db_op (it_Prev it) d) (\<lambda>d.
       if \<not> it_Valid it (db_iter d) then Ret (False, d)
       else if Compare u (ExtractUserKey (it_key it (db_iter d))) (saved_key d) < 0 then Ret (True, d)
       else prev_key it u n d)"

definition DBIter_Prev :: "'i Iter \<Rightarrow> Comparator \<Rightarrow> nat \<Rightarrow> 'i dbiter \<Rightarrow> 'i dbiter run" where
  "DBIter_Prev it u n d =
     (if \<not> db_valid d then Undef
      else if db_direction d = kForward then
        run_bind (prev_key it u n (d\<lparr>saved_key := ExtractUserKey (it_key it (db_iter d))\<rparr>))
          (\<lambda>(changed, d).
             if changed then FindPrevUserEntry it u n (d\<lparr>db_direction := kReverse\<rparr>)
             else Ret (ClearSavedValue (d\<lparr>db_valid := False, saved_key := []\<rparr>)))
      else FindPrevUserEntry it u n d)"

definition DBIter_Seek :: "'i Iter \<Rightarrow> Comparator \<Rightarrow> nat \<Rightarrow> bytes \<Rightarrow> 'i dbiter \<Rightarrow> 'i dbiter run" where
  "DBIter_Seek it u n target d =
     (let d = ClearSavedValue (d\<lparr>db_direction := kForward\<rparr>);
          key = AppendInternalKey [] \<lparr>user_key = target, sequence = db_sequence d, type = kValueTypeForSeek\<rparr> in
      run_bind (db_op (it_Seek it key) (d\<lparr>saved_key := key\<rparr>))
        (\<lambda>d. if it_Valid it (db_iter d) then FindNextUserEntry it u n False d else Ret (d\<lparr>db_valid := False\<rparr>)))"

definition DBIter_SeekToFirst :: "'i Iter \<Rightarrow> Comparator \<Rightarrow> nat \<Rightarrow> 'i dbiter \<Rightarrow> 'i dbiter run" where
  "DBIter_SeekToFirst it u n d =
     run_bind (db_op (it_SeekToFirst it) (ClearSavedValue (d\<lparr>db_direction := kForward\<rparr>)))
       (\<lambda>d. if it_Valid it (db_iter d) then FindNextUserEntry it u n False d else Ret (d\<lparr>db_valid := False\<rparr>))"

definition DBIter_SeekToLast :: "'i Iter \<Rightarrow> Comparator \<Rightarrow> nat \<Rightarrow> 'i dbiter \<Rightarrow> 'i dbiter run" where
  "DBIter_SeekToLast it u n d =
     run_bind (db_op (it_SeekToLast it) (ClearSavedValue (d\<lparr>db_direction := kReverse\<rparr>))) (FindPrevUserEntry it u n)"

text \<open>The object; \<open>n\<close> is the fuel of the loops.\<close>

definition DBIter :: "'i Iter \<Rightarrow> Comparator \<Rightarrow> nat \<Rightarrow> 'i dbiter Iter" where
  "DBIter it u n =
     \<lparr>it_Valid = db_valid, it_SeekToFirst = DBIter_SeekToFirst it u n, it_SeekToLast = DBIter_SeekToLast it u n,
      it_Seek = DBIter_Seek it u n, it_Next = DBIter_Next it u n, it_Prev = DBIter_Prev it u n,
      it_key = (\<lambda>d. if db_direction d = kForward then ExtractUserKey (it_key it (db_iter d)) else saved_key d),
      it_value = (\<lambda>d. if db_direction d = kForward then it_value it (db_iter d) else saved_value d),
      it_status = (\<lambda>d. if ok (db_status d) then it_status it (db_iter d) else db_status d)\<rparr>"

section \<open>The draws end\<close>

text \<open>A draw of zero is followed by one that is not, so two rounds raise the counter.\<close>

lemma two_draws:
  assumes "good_seed s" and "unat (Random_Next s) mod 2097152 = 0"
  shows "0 < unat (Random_Next (Random_Next s)) mod 2097152"
proof -
  let ?r = "unat (Random_Next s)"
  have g: "good_seed (Random_Next s)" using Random_Next_mod(2) [OF assms(1)] .
  then have r: "0 < ?r" "?r < 2147483647" by (simp_all add: good_seed_def)
  obtain k where k: "?r = 2097152 * k" using assms(2) by auto
  then have kb: "0 < k" "k < 1024" using r by auto
  define q where "q = 16807 * k div 1024"
  define m where "m = 16807 * k mod 1024"
  have qm: "16807 * k = 1024 * q + m" "m < 1024" unfolding q_def m_def by simp_all
  have q: "0 < q" "q < 2097152" using kb unfolding q_def by (simp_all add: div_greater_zero_iff less_mult_imp_div_less)
  have "?r * 16807 = 2097152 * (16807 * k)" using k by simp
  also have "\<dots> = 2147483647 * q + (q + 2097152 * m)" using qm(1) by simp
  finally have "?r * 16807 mod 2147483647 = (q + 2097152 * m) mod 2147483647" by (simp only: mod_mult_self4)
  also have "\<dots> = q + 2097152 * m" using q qm(2) kb unfolding q_def by (intro mod_less) linarith
  finally have "unat (Random_Next (Random_Next s)) = q + 2097152 * m" using Random_Next_mod(1) [OF g] by simp
  then show ?thesis using q by simp
qed

definition zero_draw :: "'i dbiter \<Rightarrow> nat" where
  "zero_draw d = (if unat (Random_Next (db_rnd d)) mod 2097152 = 0 then 1 else 0)"

text \<open>What the sampling leaves alone.\<close>

definition sampled :: "'i dbiter \<Rightarrow> 'i dbiter \<Rightarrow> bool" where
  "sampled d d' \<longleftrightarrow>
     d' = d\<lparr>bytes_counter := bytes_counter d', db_rnd := db_rnd d', samples := samples d'\<rparr> \<and>
     (good_seed (db_rnd d) \<longrightarrow> good_seed (db_rnd d'))"

lemma sampled_fields:
  assumes "sampled d d'"
  shows "db_iter d' = db_iter d" "db_sequence d' = db_sequence d" "db_status d' = db_status d" "saved_key d' = saved_key d"
    "saved_value d' = saved_value d" "db_direction d' = db_direction d" "db_valid d' = db_valid d"
    "good_seed (db_rnd d) \<Longrightarrow> good_seed (db_rnd d')"
proof -
  have d': "d' = d\<lparr>bytes_counter := bytes_counter d', db_rnd := db_rnd d', samples := samples d'\<rparr>"
    using assms by (simp add: sampled_def)
  show "db_iter d' = db_iter d" "db_sequence d' = db_sequence d" "db_status d' = db_status d" "saved_key d' = saved_key d"
    "saved_value d' = saved_value d" "db_direction d' = db_direction d" "db_valid d' = db_valid d"
    by (subst d', simp)+
  show "good_seed (db_rnd d) \<Longrightarrow> good_seed (db_rnd d')" using assms by (simp add: sampled_def)
qed

lemma sample_step_eq:
  "sample_step k d = d\<lparr>bytes_counter := bytes_counter d + int (unat (Random_Next (db_rnd d)) mod 2097152),
     db_rnd := Random_Next (db_rnd d), samples := samples d @ [k]\<rparr>"
  by (simp add: sample_step_def RandomPeriod_def Uniform_def Let_def kReadBytesPeriod_def)

lemma sampled_step: "sampled d d' \<Longrightarrow> sampled d (sample_step k d')"
  using Random_Next_mod(2) by (cases d; cases d') (simp add: sampled_def sample_step_eq)

lemma sample_loop_returns:
  assumes "good_seed (db_rnd d)"
  shows "\<exists>d'. sample_loop k d = Some d' \<and> sampled d d'"
proof -
  let ?f = "\<lambda>d. 2 * nat (- bytes_counter d) + zero_draw d"
  have "\<exists>d'. while_option (\<lambda>d. bytes_counter d < 0) (sample_step k) d = Some d'"
  proof (rule measure_while_option_Some [where P = "\<lambda>d. good_seed (db_rnd d)" and f = ?f])
    fix e :: "'a dbiter"
    assume neg: "bytes_counter e < 0" and good: "good_seed (db_rnd e)"
    let ?n = "unat (Random_Next (db_rnd e)) mod 2097152"
    have "good_seed (db_rnd (sample_step k e))" using Random_Next_mod(2) [OF good] by (simp add: sample_step_eq)
    moreover have "?f (sample_step k e) < ?f e"
    proof (cases "?n = 0")
      case True
      then show ?thesis using two_draws [OF good] by (simp add: zero_draw_def sample_step_eq)
    next
      case False
      then have "nat (- bytes_counter (sample_step k e)) < nat (- bytes_counter e)"
        using neg by (simp add: sample_step_eq)
      moreover have "zero_draw (sample_step k e) \<le> 1" "zero_draw e = 0" using False by (simp_all add: zero_draw_def)
      ultimately show ?thesis by linarith
    qed
    ultimately show "good_seed (db_rnd (sample_step k e)) \<and> ?f (sample_step k e) < ?f e" by blast
  qed (rule assms)
  then obtain d' where d': "while_option (\<lambda>d. bytes_counter d < 0) (sample_step k) d = Some d'" by blast
  have "sampled d d'"
  proof (rule while_option_rule [where P = "sampled d", OF _ d'])
    show "sampled d (sample_step k e)" if "sampled d e" for e using that by (rule sampled_step)
  qed (simp add: sampled_def)
  then show ?thesis using d' by (simp add: sample_loop_def)
qed

section \<open>The user entries a snapshot sees\<close>

definition entry_key :: "bytes \<times> bytes \<Rightarrow> ParsedInternalKey" where
  "entry_key x = the (ParseInternalKey (fst x))"

definition seen :: "SequenceNumber \<Rightarrow> bytes \<times> bytes \<Rightarrow> bool" where
  "seen s x \<longleftrightarrow> sequence (entry_key x) \<le> s"

text \<open>
  An entry is shown when the snapshot sees it, it is a value, and no entry before it, which is a
  newer one, is seen for its user key.
\<close>

definition shown :: "Comparator \<Rightarrow> SequenceNumber \<Rightarrow> (bytes \<times> bytes) list \<Rightarrow> nat \<Rightarrow> bool" where
  "shown u s kvs i \<longleftrightarrow>
     i < length kvs \<and> seen s (kvs ! i) \<and> type (entry_key (kvs ! i)) = kTypeValue \<and>
     (\<forall>j < i. seen s (kvs ! j) \<longrightarrow> Compare u (user_key (entry_key (kvs ! j))) (user_key (entry_key (kvs ! i))) \<noteq> 0)"

definition user_view :: "Comparator \<Rightarrow> SequenceNumber \<Rightarrow> (bytes \<times> bytes) list \<Rightarrow> (bytes \<times> bytes) list" where
  "user_view u s kvs =
     map (\<lambda>i. (user_key (entry_key (kvs ! i)), snd (kvs ! i))) (filter (shown u s kvs) [0..<length kvs])"

definition rank :: "Comparator \<Rightarrow> SequenceNumber \<Rightarrow> (bytes \<times> bytes) list \<Rightarrow> nat \<Rightarrow> nat" where
  "rank u s kvs q = length (filter (shown u s kvs) [0..<q])"

lemma rank_0 [simp]: "rank u s kvs 0 = 0"
  by (simp add: rank_def)

lemma rank_Suc: "rank u s kvs (Suc q) = (if shown u s kvs q then Suc (rank u s kvs q) else rank u s kvs q)"
  by (simp add: rank_def)

lemma rank_length: "rank u s kvs (length kvs) = length (user_view u s kvs)"
  by (simp add: rank_def user_view_def)

lemma rank_same: "q \<le> q' \<Longrightarrow> (\<And>i. q \<le> i \<Longrightarrow> i < q' \<Longrightarrow> \<not> shown u s kvs i) \<Longrightarrow> rank u s kvs q' = rank u s kvs q"
  by (induction q' rule: dec_induct) (simp_all add: rank_Suc)

lemma user_view_split:
  assumes "q \<le> length kvs"
  shows "user_view u s kvs =
    map (\<lambda>i. (user_key (entry_key (kvs ! i)), snd (kvs ! i))) (filter (shown u s kvs) [0..<q]) @
    map (\<lambda>i. (user_key (entry_key (kvs ! i)), snd (kvs ! i))) (filter (shown u s kvs) [q..<length kvs])"
proof -
  have "[0..<length kvs] = [0..<q] @ [q..<length kvs]" using assms by (metis le_add_diff_inverse upt_add_eq_append zero_le)
  then show ?thesis by (simp only: user_view_def filter_append map_append)
qed

lemma rank_nth:
  assumes "shown u s kvs c"
  shows "rank u s kvs c < length (user_view u s kvs)"
    and "user_view u s kvs ! rank u s kvs c = (user_key (entry_key (kvs ! c)), snd (kvs ! c))"
proof -
  have c: "c < length kvs" using assms by (simp add: shown_def)
  then have "[c..<length kvs] = c # [Suc c..<length kvs]" by (rule upt_conv_Cons)
  then have split: "user_view u s kvs =
    map (\<lambda>i. (user_key (entry_key (kvs ! i)), snd (kvs ! i))) (filter (shown u s kvs) [0..<c]) @
    (user_key (entry_key (kvs ! c)), snd (kvs ! c)) #
    map (\<lambda>i. (user_key (entry_key (kvs ! i)), snd (kvs ! i))) (filter (shown u s kvs) [Suc c..<length kvs])"
    using user_view_split [of c kvs u s] assms c by simp
  show "rank u s kvs c < length (user_view u s kvs)" by (simp add: split rank_def)
  show "user_view u s kvs ! rank u s kvs c = (user_key (entry_key (kvs ! c)), snd (kvs ! c))"
    by (simp add: split rank_def nth_append)
qed

section \<open>Where the iterator stands\<close>

definition db_same :: "SequenceNumber \<Rightarrow> 'i dbiter \<Rightarrow> bool" where
  "db_same s d \<longleftrightarrow> db_sequence d = s \<and> db_status d = OK \<and> good_seed (db_rnd d)"

definition db_made :: "('i \<Rightarrow> bool) \<Rightarrow> SequenceNumber \<Rightarrow> 'i dbiter \<Rightarrow> bool" where
  "db_made made s d \<longleftrightarrow> made (db_iter d) \<and> db_same s d"

text \<open>
  Standing before the entries of a user key: what lies between is not seen. The position is the
  length of the list when there is no such entry.
\<close>

definition stands_before ::
  "Comparator \<Rightarrow> SequenceNumber \<Rightarrow> (bytes \<times> bytes) list \<Rightarrow> ('i \<Rightarrow> nat \<Rightarrow> bool) \<Rightarrow> nat \<Rightarrow> 'i \<Rightarrow> bool" where
  "stands_before u s kvs at c i \<longleftrightarrow>
     (\<exists>q. at i q \<and>
        (q = length kvs \<and> (\<forall>j < c. \<not> seen s (kvs ! j)) \<or>
         q < c \<and> Compare u (user_key (entry_key (kvs ! q))) (user_key (entry_key (kvs ! c))) < 0 \<and>
         (\<forall>j. q < j \<and> j < c \<longrightarrow> \<not> seen s (kvs ! j))))"

definition db_at ::
  "Comparator \<Rightarrow> SequenceNumber \<Rightarrow> (bytes \<times> bytes) list \<Rightarrow> ('i \<Rightarrow> bool) \<Rightarrow> ('i \<Rightarrow> nat \<Rightarrow> bool) \<Rightarrow> 'i dbiter \<Rightarrow> nat \<Rightarrow> bool" where
  "db_at u s kvs made at d p \<longleftrightarrow>
     db_made made s d \<and>
     (if db_valid d then
        \<exists>c. shown u s kvs c \<and> p = rank u s kvs c \<and>
          (case db_direction d of
             kForward \<Rightarrow> at (db_iter d) c
           | kReverse \<Rightarrow>
               saved_key d = user_key (entry_key (kvs ! c)) \<and> saved_value d = snd (kvs ! c) \<and>
               stands_before u s kvs at c (db_iter d))
      else p = length (user_view u s kvs))"

text \<open>Targets of the user.\<close>

definition target_ok :: "(bytes \<Rightarrow> bool) \<Rightarrow> bytes \<Rightarrow> bool" where
  "target_ok key_ok t \<longleftrightarrow> key_ok t \<and> length t + 8 < 2 ^ 32"

text \<open>
  What the forward search may rely on to stop at the first entry shown at or behind \<open>B\<close>: an entry is
  skipped exactly when an entry before \<open>B\<close> is seen for its user key.
\<close>

abbreviation ukey :: "(bytes \<times> bytes) list \<Rightarrow> nat \<Rightarrow> bytes" where
  "ukey kvs i \<equiv> user_key (entry_key (kvs ! i))"

definition skips :: "Comparator \<Rightarrow> (bytes \<Rightarrow> bool) \<Rightarrow> SequenceNumber \<Rightarrow> (bytes \<times> bytes) list \<Rightarrow> bool \<Rightarrow> bytes \<Rightarrow> nat \<Rightarrow> nat \<Rightarrow> bool" where
  "skips u key_ok s kvs skipping key q B \<longleftrightarrow>
     (skipping \<longrightarrow> key_ok key) \<and>
     (\<forall>i. q \<le> i \<and> i < length kvs \<and> seen s (kvs ! i) \<longrightarrow>
        (skipping \<and> Compare u (ukey kvs i) key \<le> 0 \<longleftrightarrow> (\<exists>j < B. seen s (kvs ! j) \<and> Compare u (ukey kvs j) (ukey kvs i) = 0)))"

text \<open>
  The backward search: what has been saved on the way from \<open>Q\<close> down to \<open>q\<close>.
\<close>

definition saved :: "Comparator \<Rightarrow> SequenceNumber \<Rightarrow> (bytes \<times> bytes) list \<Rightarrow> nat \<Rightarrow> nat \<Rightarrow> ValueType \<Rightarrow> 'i dbiter \<Rightarrow> bool" where
  "saved u s kvs q Q vt d \<longleftrightarrow>
     vt = kTypeDeletion \<and> (\<forall>i. q \<le> i \<and> i < Q \<longrightarrow> \<not> shown u s kvs i) \<or>
     vt = kTypeValue \<and>
       (\<exists>c. q \<le> c \<and> c < Q \<and> seen s (kvs ! c) \<and> type (entry_key (kvs ! c)) = kTypeValue \<and>
          saved_key d = ukey kvs c \<and> saved_value d = snd (kvs ! c) \<and>
          (\<forall>i. q \<le> i \<and> i < c \<longrightarrow> \<not> seen s (kvs ! i)) \<and> (\<forall>i. c < i \<and> i < Q \<longrightarrow> \<not> shown u s kvs i))"

locale db_iterating = user_comparator u key_ok + below: iterator it "internal_compare u" "seek_ok key_ok" kvs made "at"
  for u :: Comparator and key_ok :: "bytes \<Rightarrow> bool" and it :: "'i Iter" and kvs :: "(bytes \<times> bytes) list"
    and made :: "'i \<Rightarrow> bool" and "at" :: "'i \<Rightarrow> nat \<Rightarrow> bool" +
  fixes s :: SequenceNumber and n :: nat
  assumes sorted: "sorted_entries (internal_compare u) (seek_ok key_ok) kvs"
    and parses: "x \<in> set kvs \<Longrightarrow> ParseInternalKey (fst x) \<noteq> None"
    and snapshot: "valid_seq s" and fuel: "length kvs < n"
begin

lemma entry_parts:
  assumes "i < length kvs"
  shows "ParseInternalKey (fst (kvs ! i)) = Some (entry_key (kvs ! i))" "ukey kvs i = ExtractUserKey (fst (kvs ! i))"
    "key_ok (ukey kvs i)" "type (entry_key (kvs ! i)) = kTypeValue \<or> type (entry_key (kvs ! i)) = kTypeDeletion"
proof -
  have x: "kvs ! i \<in> set kvs" using assms by simp
  then obtain k where k: "ParseInternalKey (fst (kvs ! i)) = Some k" using parses by blast
  then show p: "ParseInternalKey (fst (kvs ! i)) = Some (entry_key (kvs ! i))" by (simp add: entry_key_def)
  then show u: "ukey kvs i = ExtractUserKey (fst (kvs ! i))"
    by (auto simp: ParseInternalKey_def Let_def split: if_splits dest!: arg_cong [where f = user_key])
  show "key_ok (ukey kvs i)" using sorted x by (simp add: u sorted_entries_def seek_ok_def internal_ok_def)
  have "type (entry_key (kvs ! i)) \<le> kTypeValue"
    using p by (auto simp: ParseInternalKey_def Let_def split: if_splits dest!: arg_cong [where f = type])
  then show "type (entry_key (kvs ! i)) = kTypeValue \<or> type (entry_key (kvs ! i)) = kTypeDeletion"
    by (auto simp: kTypeValue_def kTypeDeletion_def word_le_nat_alt word_unat_eq_iff)
qed

lemma uk_le:
  assumes "i \<le> j" "j < length kvs"
  shows "Compare u (ukey kvs i) (ukey kvs j) \<le> 0"
proof (cases "i = j")
  case True
  then show ?thesis using user.compare_refl entry_parts(3) assms by simp
next
  case False
  then have "internal_compare u (fst (kvs ! i)) (fst (kvs ! j)) < 0"
    using sorted assms by (auto simp: sorted_entries_def sorted_wrt_iff_nth_less)
  then show ?thesis
    using entry_parts(2) [of i] entry_parts(2) [of j] assms by (auto simp: internal_compare_def Let_def split: if_splits)
qed

lemma shown_lt: "shown u s kvs i \<Longrightarrow> i < length kvs"
  by (simp add: shown_def)

lemma ParseKey_at:
  assumes "at (db_iter d) q" "q < length kvs" "db_same s d"
  shows "\<exists>d'. ParseKey it d = Ret (Some (entry_key (kvs ! q)), d') \<and> sampled d d' \<and> db_same s d'"
proof -
  have key: "it_key it (db_iter d) = fst (kvs ! q)" using below.entry [OF assms(1,2)] by simp
  let ?d = "d\<lparr>bytes_counter := bytes_counter d - int (length (it_key it (db_iter d)) + length (it_value it (db_iter d)))\<rparr>"
  have good: "good_seed (db_rnd ?d)" using assms(3) by (simp add: db_same_def)
  obtain d' where d': "sample_loop (it_key it (db_iter d)) ?d = Some d'" "sampled ?d d'"
    using sample_loop_returns [OF good] by blast
  have eq: "d' = d\<lparr>bytes_counter := bytes_counter d', db_rnd := db_rnd d', samples := samples d'\<rparr>"
    using d'(2) by (simp add: sampled_def)
  then have sam: "sampled d d'" using d'(2) by (simp add: sampled_def)
  then have "db_same s d'" using sampled_fields [OF sam] assms(3) by (simp add: db_same_def)
  then show ?thesis
    using d'(1) sam entry_parts(1) [OF assms(2)] key by (simp add: ParseKey_def Let_def)
qed

lemma same_key:
  assumes "i \<le> j" "j < length kvs" "Compare u (ukey kvs j) (ukey kvs i) \<le> 0"
  shows "Compare u (ukey kvs j) (ukey kvs i) = 0" "Compare u (ukey kvs i) (ukey kvs j) = 0"
  using uk_le [OF assms(1,2)] assms(3) user.compare_swap [of "ukey kvs i" "ukey kvs j"] user.compare_zero [of "ukey kvs i" "ukey kvs j"]
    entry_parts(3) [of i] entry_parts(3) [of j] assms(1,2) by auto

lemma skips_unseen:
  assumes "skips u key_ok s kvs sk key q B" "\<not> seen s (kvs ! q)" "q \<le> B"
  shows "skips u key_ok s kvs sk key (Suc q) (max B (Suc q))"
proof -
  have "seen s (kvs ! j) \<Longrightarrow> j < max B (Suc q) \<longleftrightarrow> j < B" for j
    using assms(2,3) by (cases "j = q") auto
  then show ?thesis using assms(1) unfolding skips_def by (metis Suc_leD)
qed

lemma skips_key:
  assumes q: "q < length kvs" "seen s (kvs ! q)"
  shows "skips u key_ok s kvs True (ukey kvs q) q (Suc q)"
  unfolding skips_def
proof (intro conjI allI impI)
  show "key_ok (ukey kvs q)" using q entry_parts(3) by blast
  fix i assume i: "q \<le> i \<and> i < length kvs \<and> seen s (kvs ! i)"
  have ok: "key_ok (ukey kvs i)" "key_ok (ukey kvs q)" using i q entry_parts(3) by blast+
  show "(True \<and> Compare u (ukey kvs i) (ukey kvs q) \<le> 0) =
      (\<exists>j<Suc q. seen s (kvs ! j) \<and> Compare u (ukey kvs j) (ukey kvs i) = 0)"
  proof
    assume "True \<and> Compare u (ukey kvs i) (ukey kvs q) \<le> 0"
    then show "\<exists>j<Suc q. seen s (kvs ! j) \<and> Compare u (ukey kvs j) (ukey kvs i) = 0"
      using same_key(2) [of q i] i q by (intro exI [of _ q]) simp
  next
    assume "\<exists>j<Suc q. seen s (kvs ! j) \<and> Compare u (ukey kvs j) (ukey kvs i) = 0"
    then obtain j where j: "j \<le> q" "Compare u (ukey kvs j) (ukey kvs i) = 0" by (meson less_Suc_eq_le)
    have "key_ok (ukey kvs j)" using j q entry_parts(3) by simp
    then have "Compare u (ukey kvs i) (ukey kvs j) \<le> 0" using j(2) user.compare_zero [of "ukey kvs j" "ukey kvs i"] ok by simp
    then show "True \<and> Compare u (ukey kvs i) (ukey kvs q) \<le> 0"
      using user.compare_trans [OF ok(1) \<open>key_ok (ukey kvs j)\<close> ok(2)] uk_le [OF j(1) q(1)] by simp
  qed
qed

lemma skips_Suc: "skips u key_ok s kvs sk key q B \<Longrightarrow> skips u key_ok s kvs sk key (Suc q) B"
  by (simp add: skips_def)

lemma skips_hidden:
  assumes skips: "skips u key_ok s kvs True key q B" and q: "q < length kvs" "seen s (kvs ! q)" "Compare u (ukey kvs q) key \<le> 0"
    and B: "B = q \<or> B = Suc q"
  shows "skips u key_ok s kvs True key (Suc q) (Suc q)"
  unfolding skips_def
proof (intro conjI allI impI)
  show key: "key_ok key" using skips by (simp add: skips_def)
  fix i assume i: "Suc q \<le> i \<and> i < length kvs \<and> seen s (kvs ! i)"
  have ok: "key_ok (ukey kvs i)" "key_ok (ukey kvs q)" using i q entry_parts(3) by blast+
  have eq: "Compare u (ukey kvs i) key \<le> 0 \<longleftrightarrow> (\<exists>j<B. seen s (kvs ! j) \<and> Compare u (ukey kvs j) (ukey kvs i) = 0)"
    using skips i by (auto simp: skips_def)
  have "Compare u (ukey kvs i) key \<le> 0" if "Compare u (ukey kvs q) (ukey kvs i) = 0"
    using that user.compare_zero [OF ok(2,1)] user.compare_trans [OF ok key] q(3) by simp
  then show "(True \<and> Compare u (ukey kvs i) key \<le> 0) =
      (\<exists>j<Suc q. seen s (kvs ! j) \<and> Compare u (ukey kvs j) (ukey kvs i) = 0)"
    using eq B by (auto simp: less_Suc_eq)
qed

text \<open>An entry of a key that has been seen before is not shown.\<close>

lemma not_shown_seen: "j < i \<Longrightarrow> seen s (kvs ! j) \<Longrightarrow> Compare u (ukey kvs j) (ukey kvs i) = 0 \<Longrightarrow> \<not> shown u s kvs i"
  by (auto simp: shown_def)

lemma FindNextUserEntry_at:
  assumes "at (db_iter d) q" "q < length kvs" "db_same s d" "db_direction d = kForward"
    and "skips u key_ok s kvs sk (saved_key d) q B" "q \<le> B" "B \<le> length kvs" "\<forall>j. q \<le> j \<and> Suc j < B \<longrightarrow> \<not> seen s (kvs ! j)"
    and "length kvs - q < m"
  shows "\<exists>d'. FindNextUserEntry it u m sk d = Ret d' \<and> db_at u s kvs made at d' (rank u s kvs B)"
  using assms
proof (induction m arbitrary: q sk d B)
  case (Suc m)
  let ?k = "entry_key (kvs ! q)"
  obtain d1 where d1: "ParseKey it d = Ret (Some ?k, d1)" "sampled d d1" "db_same s d1"
    using ParseKey_at [OF Suc.prems(1,2,3)] by blast
  note same = sampled_fields [OF d1(2)]
  have seq: "db_sequence d1 = s" using d1(3) by (simp add: db_same_def)
  have at1: "at (db_iter d1) q" using Suc.prems(1) same by simp
  obtain found sk' d2 where d2: "next_entry u (Some ?k) sk d1 = (found, sk', d2)" by (metis prod_cases3)
  have keep: "db_iter d2 = db_iter d1" "db_same s d2" "db_direction d2 = kForward"
    using d2 d1(3) Suc.prems(4) same by (auto simp: next_entry_def db_same_def split: if_splits)
  have go: "\<exists>d'. FindNextUserEntry it u (Suc m) sk d = Ret d' \<and> db_at u s kvs made at d' (rank u s kvs B)"
    if nf: "\<not> found" and sk': "skips u key_ok s kvs sk' (saved_key d2) (Suc q) (max B (Suc q))" and no: "B = q \<Longrightarrow> \<not> shown u s kvs q"
  proof -
    obtain i where i: "it_Next it (db_iter d2) = Ret i" "at i (Suc q)" using below.next [OF at1 Suc.prems(2)] keep(1) by auto
    have B: "rank u s kvs (max B (Suc q)) = rank u s kvs B"
    proof (cases "B = q")
      case False
      then have "max B (Suc q) = B" using Suc.prems(6) by simp
      then show ?thesis by simp
    qed (use no in \<open>simp add: rank_Suc\<close>)
    show ?thesis
    proof (cases "Suc q < length kvs")
      case True
      have "\<exists>d'. FindNextUserEntry it u m sk' (d2\<lparr>db_iter := i\<rparr>) = Ret d' \<and> db_at u s kvs made at d' (rank u s kvs (max B (Suc q)))"
      proof (rule Suc.IH)
        show "\<forall>j. Suc q \<le> j \<and> Suc j < max B (Suc q) \<longrightarrow> \<not> seen s (kvs ! j)" using Suc.prems(8) by auto
      qed (use True i keep sk' Suc.prems in \<open>simp_all add: db_same_def\<close>)
      then show ?thesis using d1(1) d2 nf i True below.valid [OF i(2)] B by (simp add: db_op_def)
    next
      case False
      then have len: "Suc q = length kvs" using Suc.prems(2) by simp
      then have "max B (Suc q) = length kvs" using Suc.prems(7) by simp
      then have "rank u s kvs B = length (user_view u s kvs)" using B rank_length by simp
      then have "db_at u s kvs made at (d2\<lparr>db_iter := i, saved_key := [], db_valid := False\<rparr>) (rank u s kvs B)"
        using keep i below.at_made by (auto simp: db_at_def db_made_def db_same_def)
      then show ?thesis using d1(1) d2 nf i False below.valid [OF i(2)] by (simp add: db_op_def)
    qed
  qed
  show ?case
  proof (cases "seen s (kvs ! q)")
    case False
    then have "d2 = d1" "sk' = sk" "\<not> found" using d2 seq by (auto simp: next_entry_def seen_def)
    then show ?thesis
      using go skips_unseen [OF Suc.prems(5) False Suc.prems(6)] False same by (auto simp: shown_def)
  next
    case True
    then have B: "B = q \<or> B = Suc q" using Suc.prems(6,8) by (metis Suc_lessI le_refl nat_less_le)
    then have mx: "max B (Suc q) = Suc q" by auto
    show ?thesis
    proof (cases "type ?k = kTypeDeletion")
      case del: True
      then have "d2 = d1\<lparr>saved_key := ukey kvs q\<rparr>" "sk'" "\<not> found" using d2 seq True by (auto simp: next_entry_def seen_def)
      then show ?thesis
        using go skips_Suc [OF skips_key [OF Suc.prems(2) True]] mx del by (auto simp: shown_def kTypeDeletion_def kTypeValue_def)
    next
      case False
      then have val: "type ?k = kTypeValue" using entry_parts(4) [OF Suc.prems(2)] by blast
      show ?thesis
      proof (cases "sk \<and> Compare u (ukey kvs q) (saved_key d) \<le> 0")
        case hid: True
        then have eq: "d2 = d1" "sk' = sk" "\<not> found" using d2 seq True val same by (auto simp: next_entry_def seen_def kTypeDeletion_def kTypeValue_def)
        have "\<exists>j < B. seen s (kvs ! j) \<and> Compare u (ukey kvs j) (ukey kvs q) = 0"
          using Suc.prems(2,5) hid True by (auto simp: skips_def)
        then have "B = q \<Longrightarrow> \<not> shown u s kvs q" using not_shown_seen by blast
        then show ?thesis using go eq skips_hidden [OF _ Suc.prems(2) True _ B] Suc.prems(5) hid mx same by auto
      next
        case vis: False
        then have eq: "d2 = d1\<lparr>db_valid := True, saved_key := []\<rparr>" "found"
          using d2 seq True val same by (auto simp: next_entry_def seen_def kTypeDeletion_def kTypeValue_def)
        have none: "\<not> (\<exists>j < B. seen s (kvs ! j) \<and> Compare u (ukey kvs j) (ukey kvs q) = 0)"
          using Suc.prems(2,5) vis True unfolding skips_def by blast
        moreover have "Compare u (ukey kvs q) (ukey kvs q) = 0" using user.compare_refl entry_parts(3) [OF Suc.prems(2)] by blast
        ultimately have "B = q" using B True by auto
        then have "shown u s kvs q" using none True val Suc.prems(2) by (auto simp: shown_def)
        then have "db_at u s kvs made at d2 (rank u s kvs B)"
          using \<open>B = q\<close> eq keep at1 below.at_made [OF at1] by (auto simp: db_at_def db_made_def)
        then show ?thesis using d1(1) d2 eq by simp
      qed
    qed
  qed
qed simp

lemma saved_hides:
  assumes "saved u s kvs (Suc q) Q vt d" "seen s (kvs ! q)" "q < Q" "Q \<le> length kvs"
    and "\<not> (vt \<noteq> kTypeDeletion \<and> Compare u (ukey kvs q) (saved_key d) < 0)"
  shows "\<forall>i. q < i \<and> i < Q \<longrightarrow> \<not> shown u s kvs i"
  using assms(1) unfolding saved_def
proof (elim disjE conjE exE)
  fix c
  assume vt: "vt = kTypeValue" and c: "Suc q \<le> c" "c < Q" "saved_key d = ukey kvs c"
    and un: "\<forall>i. Suc q \<le> i \<and> i < c \<longrightarrow> \<not> seen s (kvs ! i)" and rest: "\<forall>i. c < i \<and> i < Q \<longrightarrow> \<not> shown u s kvs i"
  have "Compare u (ukey kvs q) (ukey kvs c) = 0"
    using assms(4,5) uk_le [of q c] vt c by (simp add: kTypeValue_def kTypeDeletion_def)
  then have "\<not> shown u s kvs c" using not_shown_seen [of q c] assms(2) c(1) by simp
  then show ?thesis using un rest by (metis Suc_leI linorder_neqE_nat shown_def)
qed auto

lemma FindPrev_loop_at:
  assumes "at (db_iter d) q" "q < Q" "Q \<le> length kvs" "db_same s d" "saved u s kvs (Suc q) Q vt d" "q < m"
  shows "\<exists>vt' d'. FindPrev_loop it u m vt d = Ret (vt', d') \<and> db_made made s d' \<and> db_direction d' = db_direction d \<and>
    (vt' = kTypeDeletion \<and> (\<forall>i < Q. \<not> shown u s kvs i) \<or>
     vt' = kTypeValue \<and> (\<exists>c < Q. shown u s kvs c \<and> saved_key d' = ukey kvs c \<and> saved_value d' = snd (kvs ! c) \<and>
        stands_before u s kvs at c (db_iter d') \<and> (\<forall>i. c < i \<and> i < Q \<longrightarrow> \<not> shown u s kvs i)))"
    (is "\<exists>vt' d'. _ = Ret (vt', d') \<and> ?P d' \<and> _ \<and> ?R vt' d'")
  using assms
proof (induction m arbitrary: q d vt)
  case (Suc m)
  let ?k = "entry_key (kvs ! q)"
  have q: "q < length kvs" using Suc.prems(2,3) by simp
  obtain d1 where d1: "ParseKey it d = Ret (Some ?k, d1)" "sampled d d1" "db_same s d1"
    using ParseKey_at [OF Suc.prems(1) q Suc.prems(4)] by blast
  note same = sampled_fields [OF d1(2)]
  have seq: "db_sequence d1 = s" using d1(3) by (simp add: db_same_def)
  have at1: "at (db_iter d1) q" using Suc.prems(1) same by simp
  have key: "ExtractUserKey (it_key it (db_iter d1)) = ukey kvs q" "it_value it (db_iter d1) = snd (kvs ! q)"
    using below.entry [OF at1 q] entry_parts(2) [OF q] by simp_all
  have sav: "saved u s kvs (Suc q) Q vt d1" using Suc.prems(5) same by (simp add: saved_def)
  obtain stop vt2 d2 where d2: "prev_entry it u (Some ?k) vt d1 = (stop, vt2, d2)" by (metis prod_cases3)
  have keep: "db_iter d2 = db_iter d1" "db_same s d2" "db_direction d2 = db_direction d"
    using d2 d1(3) same by (auto simp: prev_entry_def db_same_def ClearSavedValue_def split: if_splits)
  have go: ?case if ns: "\<not> stop" and sav2: "saved u s kvs q Q vt2 d2"
  proof -
    obtain i where i: "it_Prev it (db_iter d2) = Ret i" "at i (if q = 0 then length kvs else q - 1)"
      using below.prev [OF at1 q] keep(1) by auto
    show ?thesis
    proof (cases "q = 0")
      case True
      have "?R vt2 (d2\<lparr>db_iter := i\<rparr>)"
        using sav2 unfolding saved_def
      proof (elim disjE conjE exE)
        fix c
        assume vt: "vt2 = kTypeValue" and c: "q \<le> c" "c < Q" "seen s (kvs ! c)" "type (entry_key (kvs ! c)) = kTypeValue"
          "saved_key d2 = ukey kvs c" "saved_value d2 = snd (kvs ! c)"
          and un: "\<forall>i. q \<le> i \<and> i < c \<longrightarrow> \<not> seen s (kvs ! i)" and rest: "\<forall>i. c < i \<and> i < Q \<longrightarrow> \<not> shown u s kvs i"
        have "shown u s kvs c" using c un True Suc.prems(3) by (auto simp: shown_def)
        moreover have "stands_before u s kvs at c i" using i(2) un True by (auto simp: stands_before_def)
        ultimately show ?thesis using vt c rest by auto
      qed (use True in auto)
      moreover have "\<not> it_Valid it i" using below.valid [OF i(2)] True by simp
      moreover have "?P (d2\<lparr>db_iter := i\<rparr>)" using keep below.at_made [OF i(2)] by (simp add: db_made_def db_same_def)
      ultimately show ?thesis using d1(1) d2 ns i(1) keep(3) by (simp add: db_op_def)
    next
      case False
      then have i': "at i (q - 1)" "q - 1 < length kvs" using i(2) q by simp_all
      have "\<exists>vt' d'. FindPrev_loop it u m vt2 (d2\<lparr>db_iter := i\<rparr>) = Ret (vt', d') \<and> ?P d' \<and>
          db_direction d' = db_direction (d2\<lparr>db_iter := i\<rparr>) \<and> ?R vt' d'"
        using Suc.prems(2,3,6) False keep(2) i'(1) sav2 by (intro Suc.IH [where q = "q - 1"]) (simp_all add: db_same_def saved_def)
      then show ?thesis using d1(1) d2 ns i(1) keep(3) below.valid [OF i'(1)] i'(2) by (simp add: db_op_def)
    qed
  qed
  show ?case
  proof (cases "seen s (kvs ! q)")
    case False
    then have "d2 = d1" "vt2 = vt" "\<not> stop" using d2 seq by (auto simp: prev_entry_def seen_def)
    moreover have "saved u s kvs q Q vt d1"
      using sav False unfolding saved_def by (metis (no_types, lifting) Suc_leI le_neq_implies_less shown_def Suc_leD)
    ultimately show ?thesis using go by blast
  next
    case True
    show ?thesis
    proof (cases "vt \<noteq> kTypeDeletion \<and> Compare u (ukey kvs q) (saved_key d1) < 0")
      case brk: True
      then have eq: "d2 = d1" "vt2 = vt" "stop" using d2 seq True by (auto simp: prev_entry_def seen_def)
      obtain c where c: "vt = kTypeValue" "Suc q \<le> c" "c < Q" "seen s (kvs ! c)" "type (entry_key (kvs ! c)) = kTypeValue"
          "saved_key d1 = ukey kvs c" "saved_value d1 = snd (kvs ! c)"
          "\<forall>i. Suc q \<le> i \<and> i < c \<longrightarrow> \<not> seen s (kvs ! i)" "\<forall>i. c < i \<and> i < Q \<longrightarrow> \<not> shown u s kvs i"
        using sav brk unfolding saved_def by blast
      have len: "c < length kvs" using c(3) Suc.prems(3) by simp
      have "Compare u (ukey kvs j) (ukey kvs c) \<noteq> 0" if "j < c" "seen s (kvs ! j)" for j
      proof -
        have "j \<le> q" using that c(8) by (meson Suc_leI not_less)
        then have "Compare u (ukey kvs j) (ukey kvs q) \<le> 0" using uk_le q by simp
        then show ?thesis
          using user.le_trans_lt [of "ukey kvs j" "ukey kvs q" "ukey kvs c"] brk c(6) entry_parts(3) len q \<open>j \<le> q\<close> by simp
      qed
      then have "shown u s kvs c" using c len by (auto simp: shown_def)
      moreover have "stands_before u s kvs at c (db_iter d1)"
        unfolding stands_before_def using at1 c brk by (intro exI [of _ q]) (auto simp: Suc_le_eq)
      ultimately have "?R vt d1" using c by auto
      moreover have "?P d1" using d1(3) below.at_made [OF at1] by (simp add: db_made_def)
      ultimately show ?thesis using d1(1) d2 eq same by simp
    next
      case False
      note hides = saved_hides [OF sav True Suc.prems(2,3) False]
      show ?thesis
      proof (cases "type ?k = kTypeDeletion")
        case del: True
        have "vt2 = kTypeDeletion" "\<not> stop" using del d2 seq True False by (auto simp: prev_entry_def seen_def)
        then have "\<not> shown u s kvs q" using del by (simp add: shown_def kTypeDeletion_def kTypeValue_def)
        then have "\<forall>i. q \<le> i \<and> i < Q \<longrightarrow> \<not> shown u s kvs i" using hides le_neq_implies_less by blast
        then have "saved u s kvs q Q vt2 d2" using \<open>vt2 = kTypeDeletion\<close> by (simp add: saved_def)
        then show ?thesis using go \<open>\<not> stop\<close> by blast
      next
        case val: False
        then have ty: "type ?k = kTypeValue" using entry_parts(4) [OF q] by blast
        have eq: "vt2 = kTypeValue" "\<not> stop" "saved_key d2 = ukey kvs q" "saved_value d2 = snd (kvs ! q)"
          using d2 seq True False val key ty by (auto simp: prev_entry_def seen_def)
        have "saved u s kvs q Q vt2 d2"
          unfolding saved_def using eq hides ty True Suc.prems(2) by (intro disjI2 conjI exI [of _ q]) auto
        then show ?thesis using go eq(2) by blast
      qed
    qed
  qed
qed simp

lemma FindPrevUserEntry_at:
  assumes made: "db_made made s d" and dir: "db_direction d = kReverse" and Q: "Q \<le> length kvs"
    and pos: "Q = 0 \<and> \<not> it_Valid it (db_iter d) \<or> (\<exists>q < Q. at (db_iter d) q \<and> (\<forall>i. q < i \<and> i < Q \<longrightarrow> \<not> shown u s kvs i))"
  shows "\<exists>d'. FindPrevUserEntry it u n d = Ret d' \<and> db_at u s kvs made at d' (back_pos (user_view u s kvs) (rank u s kvs Q))"
proof -
  let ?R = "\<lambda>vt d'. vt = kTypeDeletion \<and> (\<forall>i < Q. \<not> shown u s kvs i) \<or>
     vt = kTypeValue \<and> (\<exists>c < Q. shown u s kvs c \<and> saved_key d' = ukey kvs c \<and> saved_value d' = snd (kvs ! c) \<and>
        stands_before u s kvs at c (db_iter d') \<and> (\<forall>i. c < i \<and> i < Q \<longrightarrow> \<not> shown u s kvs i))"
  obtain vt d' where loop: "(if it_Valid it (db_iter d) then FindPrev_loop it u n kTypeDeletion d else Ret (kTypeDeletion, d)) = Ret (vt, d')"
      and d': "db_made made s d'" "db_direction d' = kReverse" "?R vt d'"
    using pos
  proof (elim disjE conjE exE)
    assume loop: thesis if "(if it_Valid it (db_iter d) then FindPrev_loop it u n kTypeDeletion d else Ret (kTypeDeletion, d)) = Ret (vt, d')"
        "db_made made s d'" "db_direction d' = kReverse" "?R vt d'" for vt d'
    show thesis if "Q = 0" "\<not> it_Valid it (db_iter d)"
      using that made dir by (intro loop [of kTypeDeletion d]) simp_all
    show thesis if q: "q < Q" "at (db_iter d) q" "\<forall>i. q < i \<and> i < Q \<longrightarrow> \<not> shown u s kvs i" for q
    proof -
      have "saved u s kvs (Suc q) Q kTypeDeletion d" using q(3) by (simp add: saved_def)
      moreover have "db_same s d" "q < n" using made q(1) Q fuel by (simp_all add: db_made_def)
      ultimately have "\<exists>vt d'. FindPrev_loop it u n kTypeDeletion d = Ret (vt, d') \<and> db_made made s d' \<and>
          db_direction d' = db_direction d \<and> ?R vt d'"
        by (intro FindPrev_loop_at [OF q(2,1) Q])
      then obtain vt d' where x: "FindPrev_loop it u n kTypeDeletion d = Ret (vt, d')" "db_made made s d'"
          "db_direction d' = db_direction d" "?R vt d'"
        by (elim exE conjE) (rule that)
      have v: "it_Valid it (db_iter d)" using below.valid [OF q(2)] q(1) Q by simp
      show thesis
      proof (rule loop [OF _ x(2) _ x(4)])
        show "(if it_Valid it (db_iter d) then FindPrev_loop it u n kTypeDeletion d else Ret (kTypeDeletion, d)) = Ret (vt, d')"
          using v x(1) by simp
        show "db_direction d' = kReverse" using x(3) dir by simp
      qed
    qed
  qed
  show ?thesis
    using d'(3)
  proof (elim disjE conjE exE)
    assume vt: "vt = kTypeDeletion" and none: "\<forall>i < Q. \<not> shown u s kvs i"
    have "rank u s kvs Q = rank u s kvs 0" using none by (intro rank_same) simp_all
    then show ?thesis
      using loop vt d'(1) by (simp add: FindPrevUserEntry_def db_at_def db_made_def db_same_def ClearSavedValue_def back_pos_def)
  next
    fix c
    assume vt: "vt = kTypeValue" and c: "c < Q" "shown u s kvs c" "saved_key d' = ukey kvs c" "saved_value d' = snd (kvs ! c)"
      "stands_before u s kvs at c (db_iter d')" "\<forall>i. c < i \<and> i < Q \<longrightarrow> \<not> shown u s kvs i"
    have "rank u s kvs Q = rank u s kvs (Suc c)" using c by (intro rank_same) simp_all
    then have "back_pos (user_view u s kvs) (rank u s kvs Q) = rank u s kvs c" using c(2) by (simp add: rank_Suc back_pos_def)
    moreover have "db_at u s kvs made at (d'\<lparr>db_valid := True\<rparr>) (rank u s kvs c)"
      using d'(1,2) c by (auto simp: db_at_def db_made_def db_same_def)
    ultimately show ?thesis
      using loop vt by (simp add: FindPrevUserEntry_def kTypeValue_def kTypeDeletion_def)
  qed
qed

text \<open>Scanning back to another key.\<close>

lemma prev_key_at:
  assumes "at (db_iter d) q" "q \<le> c" "c < length kvs" "saved_key d = ukey kvs c"
    and "\<forall>j. q \<le> j \<and> j < c \<longrightarrow> \<not> Compare u (ukey kvs j) (ukey kvs c) < 0" "q < m"
  shows "\<exists>changed i. prev_key it u m d = Ret (changed, d\<lparr>db_iter := i\<rparr>) \<and> made i \<and>
    (if changed then \<exists>q' < c. at i q' \<and> (\<forall>j. q' < j \<and> j < c \<longrightarrow> \<not> Compare u (ukey kvs j) (ukey kvs c) < 0)
     else \<forall>j < c. \<not> Compare u (ukey kvs j) (ukey kvs c) < 0)"
  using assms
proof (induction m arbitrary: q d)
  case (Suc m)
  obtain i where i: "it_Prev it (db_iter d) = Ret i" "at i (if q = 0 then length kvs else q - 1)"
    using below.prev [OF Suc.prems(1)] Suc.prems(2,3) by auto
  show ?case
  proof (cases "q = 0")
    case True
    then have "\<not> it_Valid it i" using below.valid [OF i(2)] by simp
    then show ?thesis using i True Suc.prems(5) below.at_made [OF i(2)] by (intro exI [of _ False] exI [of _ i]) (simp add: db_op_def)
  next
    case False
    then have at': "at i (q - 1)" and q: "q - 1 < c" "q - 1 < length kvs" using i(2) Suc.prems(2,3) by simp_all
    have v: "it_Valid it i" using below.valid [OF at'] q by simp
    have key: "ExtractUserKey (it_key it i) = ukey kvs (q - 1)" using below.entry [OF at' q(2)] entry_parts(2) [OF q(2)] by simp
    show ?thesis
    proof (cases "Compare u (ukey kvs (q - 1)) (ukey kvs c) < 0")
      case True
      have "\<forall>j. q - 1 < j \<and> j < c \<longrightarrow> \<not> Compare u (ukey kvs j) (ukey kvs c) < 0" using Suc.prems(5) False by auto
      then show ?thesis
        using i(1) v key True Suc.prems(4) at' q(1) below.at_made [OF at']
        by (intro exI [of _ True] exI [of _ i]) (auto simp: db_op_def)
    next
      case ge: False
      have "\<exists>changed i'. prev_key it u m (d\<lparr>db_iter := i\<rparr>) = Ret (changed, (d\<lparr>db_iter := i\<rparr>)\<lparr>db_iter := i'\<rparr>) \<and> made i' \<and>
        (if changed then \<exists>q' < c. at i' q' \<and> (\<forall>j. q' < j \<and> j < c \<longrightarrow> \<not> Compare u (ukey kvs j) (ukey kvs c) < 0)
         else \<forall>j < c. \<not> Compare u (ukey kvs j) (ukey kvs c) < 0)"
      proof (rule Suc.IH [where q = "q - 1"])
        show "\<forall>j. q - 1 \<le> j \<and> j < c \<longrightarrow> \<not> Compare u (ukey kvs j) (ukey kvs c) < 0"
        proof (intro allI impI)
          fix j assume "q - 1 \<le> j \<and> j < c"
          then show "\<not> Compare u (ukey kvs j) (ukey kvs c) < 0" using ge Suc.prems(5) by (cases "j = q - 1") auto
        qed
      qed (use at' q Suc.prems False in auto)
      then show ?thesis using i(1) v key ge Suc.prems(4) by (simp add: db_op_def)
    qed
  qed
qed simp

section \<open>The operations\<close>

lemma forward_at:
  assumes "at (db_iter d) q" "q < length kvs" "db_made made s d" "db_direction d = kForward"
    and "skips u key_ok s kvs sk (saved_key d) q B" "q \<le> B" "B \<le> length kvs" "\<forall>j. q \<le> j \<and> Suc j < B \<longrightarrow> \<not> seen s (kvs ! j)"
  shows "\<exists>d'. FindNextUserEntry it u n sk d = Ret d' \<and> db_at u s kvs made at d' (rank u s kvs B)"
  using assms fuel by (intro FindNextUserEntry_at) (simp_all add: db_made_def)

lemma db_op_at:
  assumes "f (db_iter d) = Ret i" "at i q" "db_same s d"
  shows "db_op f d = Ret (d\<lparr>db_iter := i\<rparr>)" "db_made made s (d\<lparr>db_iter := i\<rparr>)"
  using assms below.at_made by (simp_all add: db_op_def db_made_def db_same_def)

lemma SeekToFirst_at:
  assumes "db_made made s d"
  shows "\<exists>d'. DBIter_SeekToFirst it u n d = Ret d' \<and> db_at u s kvs made at d' 0"
proof -
  let ?d = "ClearSavedValue (d\<lparr>db_direction := kForward\<rparr>)"
  have d: "db_made made s ?d" "db_direction ?d = kForward" using assms by (simp_all add: db_made_def db_same_def ClearSavedValue_def)
  obtain i where i: "it_SeekToFirst it (db_iter ?d) = Ret i" "at i 0"
    using below.seek_to_first [of "db_iter ?d"] d(1) by (auto simp: db_made_def)
  note op = db_op_at [where d = ?d and f = "it_SeekToFirst it", OF i d(1) [unfolded db_made_def, THEN conjunct2]]
  show ?thesis
  proof (cases "0 < length kvs")
    case True
    have "\<exists>d'. FindNextUserEntry it u n False (?d\<lparr>db_iter := i\<rparr>) = Ret d' \<and> db_at u s kvs made at d' (rank u s kvs 0)"
      using i(2) True op(2) d(2) by (intro forward_at) (simp_all add: skips_def)
    then show ?thesis using op(1) below.valid [OF i(2)] True by (simp add: DBIter_SeekToFirst_def)
  next
    case False
    then have "user_view u s kvs = []" by (simp add: user_view_def)
    then show ?thesis
      using op below.valid [OF i(2)] False by (simp add: DBIter_SeekToFirst_def db_at_def db_made_def db_same_def)
  qed
qed

lemma lookup_position:
  assumes t: "target_ok key_ok t"
  defines "k \<equiv> AppendInternalKey [] \<lparr>user_key = t, sequence = s, type = kValueTypeForSeek\<rparr>"
  shows "seek_ok key_ok k"
    and "i < length kvs \<Longrightarrow> seen s (kvs ! i) \<Longrightarrow>
      internal_compare u (fst (kvs ! i)) k < 0 \<longleftrightarrow> Compare u (ukey kvs i) t < 0"
    and "i < length kvs \<Longrightarrow> internal_compare u (fst (kvs ! i)) k < 0 \<Longrightarrow> Compare u (ukey kvs i) t \<le> 0"
    and "i < length kvs \<Longrightarrow> \<not> internal_compare u (fst (kvs ! i)) k < 0 \<Longrightarrow> \<not> Compare u (ukey kvs i) t < 0"
proof -
  have k: "k = t @ EncodeFixed64 (PackSequenceAndType s kValueTypeForSeek)"
    by (simp add: k_def AppendInternalKey_def PutFixed64_def)
  show "seek_ok key_ok k" using t by (simp add: k seek_ok_def target_ok_def)
  show le: "i < length kvs \<Longrightarrow> internal_compare u (fst (kvs ! i)) k < 0 \<Longrightarrow> Compare u (ukey kvs i) t \<le> 0"
    and nl: "i < length kvs \<Longrightarrow> \<not> internal_compare u (fst (kvs ! i)) k < 0 \<Longrightarrow> \<not> Compare u (ukey kvs i) t < 0"
    by (auto simp: k entry_parts(2) internal_compare_def Let_def split: if_splits)
  assume i: "i < length kvs" and see: "seen s (kvs ! i)"
  have "internal_compare u (fst (kvs ! i)) k < 0 \<Longrightarrow> Compare u (ukey kvs i) t \<noteq> 0"
  proof
    assume lt: "internal_compare u (fst (kvs ! i)) k < 0" and zero: "Compare u (ukey kvs i) t = 0"
    have p: "ParseInternalKey (fst (kvs ! i)) = Some (entry_key (kvs ! i))" using entry_parts(1) [OF i] .
    have len: "8 \<le> length (fst (kvs ! i))" using p by (simp add: ParseInternalKey_def split: if_splits)
    obtain w where w: "fst (kvs ! i) = ukey kvs i @ EncodeFixed64 w"
      using key_cases [OF len] entry_parts(2) [OF i] by (metis suffixed_key(1))
    have "PackSequenceAndType s kValueTypeForSeek < w"
      using lt zero by (simp add: w k internal_compare_suffixed split: if_splits)
    moreover have "sequence (entry_key (kvs ! i)) = drop_bit 8 w" "type (entry_key (kvs ! i)) = ucast (w AND 0xFF)"
    proof -
      obtain a where a: "fst (kvs ! i) = a @ EncodeFixed64 w" using w by blast
      have "entry_key (kvs ! i) = \<lparr>user_key = a, sequence = drop_bit 8 w, type = ucast (w AND 0xFF)\<rparr>"
        using p by (auto simp: a ParseInternalKey_def Let_def split: if_splits)
      then show "sequence (entry_key (kvs ! i)) = drop_bit 8 w" "type (entry_key (kvs ! i)) = ucast (w AND 0xFF)"
        by simp_all
    qed
    moreover have "unat w = unat (drop_bit 8 w) * 256 + unat (ucast (w AND 0xFF) :: 8 word)"
    proof -
      have "(ucast (w AND 0xFF) :: 8 word) = of_nat (unat w)"
        using byte_of_word [of 0 w] by (simp only: drop_bit_0 id_apply power_0 div_by_1)
      then have "unat (ucast (w AND 0xFF) :: 8 word) = unat w mod 256" by (simp only: unat_of_nat_byte)
      then show ?thesis by (simp add: unat_drop_bit)
    qed
    moreover have "unat (sequence (entry_key (kvs ! i))) \<le> unat s" using see by (simp add: seen_def word_le_nat_alt)
    moreover have "unat (type (entry_key (kvs ! i))) \<le> 1"
      using entry_parts(4) [OF i] by (auto simp: kTypeValue_def kTypeDeletion_def)
    ultimately show False using snapshot by (simp add: word_less_nat_alt unat_pack kValueTypeForSeek_def kTypeValue_def)
  qed
  then show "internal_compare u (fst (kvs ! i)) k < 0 \<longleftrightarrow> Compare u (ukey kvs i) t < 0"
    using le nl i by fastforce
qed

lemma lower_bound_view:
  assumes t: "target_ok key_ok t"
  defines "k \<equiv> AppendInternalKey [] \<lparr>user_key = t, sequence = s, type = kValueTypeForSeek\<rparr>"
  defines "q \<equiv> lower_bound (internal_compare u) k kvs"
  shows "lower_bound (Compare u) t (user_view u s kvs) = rank u s kvs q" and "q \<le> length kvs"
    and "i < length kvs \<Longrightarrow> internal_compare u (fst (kvs ! i)) k < 0 \<longleftrightarrow> i < q"
proof -
  note look = lookup_position [OF t, folded k_def]
  show q: "q \<le> length kvs" unfolding q_def by (rule lower_bound_le)
  show less: "internal_compare u (fst (kvs ! i)) k < 0 \<longleftrightarrow> i < q" if "i < length kvs" for i
    using that lower_bound_below [of i "internal_compare u" k kvs] lower_bound_beyond [OF seek_order sorted look(1), of i]
    by (auto simp: q_def)
  have low: "\<forall>x \<in> set (map (\<lambda>i. (ukey kvs i, snd (kvs ! i))) (filter (shown u s kvs) [0..<q])). Compare u (fst x) t < 0"
    using less look(2) q by (auto simp: shown_def)
  have high: "\<forall>x \<in> set (map (\<lambda>i. (ukey kvs i, snd (kvs ! i))) (filter (shown u s kvs) [q..<length kvs])). \<not> Compare u (fst x) t < 0"
    using less look(4) by (auto simp: shown_def)
  show "lower_bound (Compare u) t (user_view u s kvs) = rank u s kvs q"
    unfolding user_view_split [OF q] lower_bound_append_stop [where cmp = "Compare u", OF high]
    by (simp only: lower_bound_all [where cmp = "Compare u", OF low] rank_def length_map)
qed

lemma Seek_at:
  assumes made: "db_made made s d" and t: "target_ok key_ok t"
  shows "\<exists>d'. DBIter_Seek it u n t d = Ret d' \<and> db_at u s kvs made at d' (lower_bound (Compare u) t (user_view u s kvs))"
proof -
  let ?k = "AppendInternalKey [] \<lparr>user_key = t, sequence = s, type = kValueTypeForSeek\<rparr>"
  let ?q = "lower_bound (internal_compare u) ?k kvs"
  let ?d = "(ClearSavedValue (d\<lparr>db_direction := kForward\<rparr>))\<lparr>saved_key := ?k\<rparr>"
  note view = lower_bound_view [OF t] and look = lookup_position [OF t]
  have d: "db_made made s ?d" "db_direction ?d = kForward" "db_sequence d = s"
    using made by (simp_all add: db_made_def db_same_def ClearSavedValue_def)
  obtain i where i: "it_Seek it ?k (db_iter ?d) = Ret i" "at i ?q"
    using below.seek [of "db_iter ?d" ?k] d(1) look(1) by (auto simp: db_made_def)
  note op = db_op_at [where d = ?d and f = "it_Seek it ?k", OF i d(1) [unfolded db_made_def, THEN conjunct2]]
  have seek: "DBIter_Seek it u n t d = (if it_Valid it i then FindNextUserEntry it u n False (?d\<lparr>db_iter := i\<rparr>)
      else Ret ((?d\<lparr>db_iter := i\<rparr>)\<lparr>db_valid := False\<rparr>))"
    using op(1) d(3) by (simp add: DBIter_Seek_def ClearSavedValue_def Let_def)
  show ?thesis
  proof (cases "?q < length kvs")
    case True
    have "Compare u (ukey kvs j) (ukey kvs i) \<noteq> 0"
      if i: "?q \<le> i" "i < length kvs" "seen s (kvs ! i)" and j: "j < ?q" "seen s (kvs ! j)" for i j
    proof
      assume zero: "Compare u (ukey kvs j) (ukey kvs i) = 0"
      have len: "j < length kvs" using j True by simp
      have "Compare u (ukey kvs j) t < 0" using view(3) [OF len] look(2) [OF len j(2)] j(1) by simp
      moreover have "\<not> Compare u (ukey kvs i) t < 0" using view(3) [OF i(2)] look(2) [OF i(2,3)] i(1) by simp
      moreover have ok: "key_ok (ukey kvs i)" "key_ok (ukey kvs j)" "key_ok t"
        using entry_parts(3) len i(2) t by (simp_all add: target_ok_def)
      then have "Compare u (ukey kvs i) (ukey kvs j) = 0" using zero user.compare_zero by blast
      ultimately show False using user.le_trans_lt [OF ok] by simp
    qed
    then have "skips u key_ok s kvs False (saved_key (?d\<lparr>db_iter := i\<rparr>)) ?q ?q" by (auto simp: skips_def)
    then have "\<exists>d'. FindNextUserEntry it u n False (?d\<lparr>db_iter := i\<rparr>) = Ret d' \<and> db_at u s kvs made at d' (rank u s kvs ?q)"
      using i(2) True op(2) d(2) by (intro forward_at [where q = ?q and B = ?q]) auto
    then show ?thesis using seek below.valid [OF i(2)] True view(1) by simp
  next
    case False
    then have "?q = length kvs" using view(2) by simp
    then have "lower_bound (Compare u) t (user_view u s kvs) = length (user_view u s kvs)" using view(1) rank_length by simp
    then show ?thesis using seek op(2) below.valid [OF i(2)] False by (simp add: db_at_def db_made_def db_same_def)
  qed
qed

lemma SeekToLast_at:
  assumes made: "db_made made s d"
  shows "\<exists>d'. DBIter_SeekToLast it u n d = Ret d' \<and> db_at u s kvs made at d' (length (user_view u s kvs) - 1)"
proof -
  let ?d = "ClearSavedValue (d\<lparr>db_direction := kReverse\<rparr>)"
  have d: "db_made made s ?d" "db_direction ?d = kReverse" using made by (simp_all add: db_made_def db_same_def ClearSavedValue_def)
  obtain i where i: "it_SeekToLast it (db_iter ?d) = Ret i" "at i (length kvs - 1)"
    using below.seek_to_last [of "db_iter ?d"] d(1) by (auto simp: db_made_def)
  note op = db_op_at [where d = ?d and f = "it_SeekToLast it", OF i d(1) [unfolded db_made_def, THEN conjunct2]]
  have "\<exists>d'. FindPrevUserEntry it u n (?d\<lparr>db_iter := i\<rparr>) = Ret d' \<and>
      db_at u s kvs made at d' (back_pos (user_view u s kvs) (rank u s kvs (length kvs)))"
  proof (rule FindPrevUserEntry_at [OF op(2)])
    show "length kvs = 0 \<and> \<not> it_Valid it (db_iter (?d\<lparr>db_iter := i\<rparr>)) \<or>
        (\<exists>q < length kvs. at (db_iter (?d\<lparr>db_iter := i\<rparr>)) q \<and> (\<forall>i. q < i \<and> i < length kvs \<longrightarrow> \<not> shown u s kvs i))"
    proof (cases "kvs = []")
      case True
      then show ?thesis using below.valid [OF i(2)] by simp
    next
      case False
      then show ?thesis using i(2) by (intro disjI2 exI [of _ "length kvs - 1"]) auto
    qed
  qed (use d(2) in simp_all)
  moreover have "back_pos (user_view u s kvs) (rank u s kvs (length kvs)) = length (user_view u s kvs) - 1"
    by (simp add: rank_length back_pos_def)
  ultimately show ?thesis using op(1) by (simp add: DBIter_SeekToLast_def)
qed

lemma db_at_forward:
  assumes "db_at u s kvs made at d p" "p < length (user_view u s kvs)"
  obtains c where "shown u s kvs c" "p = rank u s kvs c" "db_made made s d" "db_valid d"
    "db_direction d = kForward \<longrightarrow> at (db_iter d) c"
    "db_direction d = kReverse \<longrightarrow> saved_key d = ukey kvs c \<and> saved_value d = snd (kvs ! c) \<and> stands_before u s kvs at c (db_iter d)"
proof -
  have v: "db_valid d" using assms by (auto simp: db_at_def split: if_splits)
  then obtain c where c: "shown u s kvs c" "p = rank u s kvs c" "case db_direction d of
             kForward \<Rightarrow> at (db_iter d) c
           | kReverse \<Rightarrow> saved_key d = ukey kvs c \<and> saved_value d = snd (kvs ! c) \<and> stands_before u s kvs at c (db_iter d)"
    using assms(1) by (auto simp: db_at_def)
  have m: "db_made made s d" using assms(1) by (simp add: db_at_def)
  show ?thesis
  proof (rule that [OF c(1,2) m v])
    show "db_direction d = kForward \<longrightarrow> at (db_iter d) c" using c(3) by (cases "db_direction d") simp_all
    show "db_direction d = kReverse \<longrightarrow>
        saved_key d = ukey kvs c \<and> saved_value d = snd (kvs ! c) \<and> stands_before u s kvs at c (db_iter d)"
      using c(3) by (cases "db_direction d") simp_all
  qed
qed

lemma skips_from_key:
  assumes "q \<le> c" "c < length kvs" "seen s (kvs ! c)" "\<forall>j. q \<le> j \<and> j < c \<longrightarrow> \<not> seen s (kvs ! j)"
  shows "skips u key_ok s kvs True (ukey kvs c) q (Suc c)"
proof -
  have "c \<le> i" if "q \<le> i" "seen s (kvs ! i)" for i using that assms(4) by (meson not_less)
  then show ?thesis using skips_key [OF assms(2,3)] assms(1) by (auto simp: skips_def)
qed

lemma Next_at:
  assumes "at": "db_at u s kvs made at d p" and p: "p < length (user_view u s kvs)"
  shows "\<exists>d'. DBIter_Next it u n d = Ret d' \<and> db_at u s kvs made at d' (Suc p)"
proof -
  obtain c where c: "shown u s kvs c" "p = rank u s kvs c" "db_made made s d" "db_valid d"
      "db_direction d = kForward \<longrightarrow> at (db_iter d) c"
      "db_direction d = kReverse \<longrightarrow> saved_key d = ukey kvs c \<and> saved_value d = snd (kvs ! c) \<and> stands_before u s kvs at c (db_iter d)"
    by (rule db_at_forward [OF "at" p])
  have len: "c < length kvs" and see: "seen s (kvs ! c)" using c(1) by (simp_all add: shown_def)
  have Suc: "rank u s kvs (Suc c) = Suc p" using c(1,2) by (simp add: rank_Suc)
  show ?thesis
  proof (cases "db_direction d")
    case kForward
    let ?d = "d\<lparr>saved_key := ukey kvs c\<rparr>"
    have key: "ExtractUserKey (it_key it (db_iter d)) = ukey kvs c"
      using below.entry [OF c(5) [rule_format, OF kForward] len] entry_parts(2) [OF len] by simp
    have "skips u key_ok s kvs True (ukey kvs c) c (Suc c)" using len see by (intro skips_from_key) auto
    then have "\<exists>d'. FindNextUserEntry it u n True ?d = Ret d' \<and> db_at u s kvs made at d' (rank u s kvs (Suc c))"
      using c(3,5) kForward len see
      by (intro forward_at [where q = c]) (auto simp: db_made_def db_same_def)
    then show ?thesis using c(4) kForward key Suc by (simp add: DBIter_Next_def)
  next
    case kReverse
    let ?d = "d\<lparr>db_direction := kForward\<rparr>"
    let ?f = "if it_Valid it (db_iter ?d) then it_Next it else it_SeekToFirst it"
    have d: "db_made made s ?d" using c(3) by (simp add: db_made_def db_same_def)
    obtain q where q: "at (db_iter d) q" "q = length kvs \<and> (\<forall>j < c. \<not> seen s (kvs ! j)) \<or>
         q < c \<and> Compare u (ukey kvs q) (ukey kvs c) < 0 \<and> (\<forall>j. q < j \<and> j < c \<longrightarrow> \<not> seen s (kvs ! j))"
      using c(6) [rule_format, OF kReverse] by (auto simp: stands_before_def)
    obtain i q' where i: "?f (db_iter ?d) = Ret i" "at i q'" "q' \<le> c" "\<forall>j. q' \<le> j \<and> j < c \<longrightarrow> \<not> seen s (kvs ! j)"
    proof (cases "q < length kvs")
      case True
      then obtain i where "it_Next it (db_iter d) = Ret i" "at i (Suc q)" using below.next [OF q(1)] by blast
      then show ?thesis using that [of i "Suc q"] q True below.valid [OF q(1)] by auto
    next
      case False
      obtain i where "it_SeekToFirst it (db_iter d) = Ret i" "at i 0" using below.seek_to_first below.at_made [OF q(1)] by blast
      then show ?thesis using that [of i 0] q False below.valid [OF q(1)] len by auto
    qed
    note op = db_op_at [where d = ?d and f = ?f, OF i(1,2) d [unfolded db_made_def, THEN conjunct2]]
    have q': "q' < length kvs" using i(3) len by simp
    have "\<exists>d'. FindNextUserEntry it u n True (?d\<lparr>db_iter := i\<rparr>) = Ret d' \<and> db_at u s kvs made at d' (rank u s kvs (Suc c))"
      using op(2) i(2,3,4) q' len see skips_from_key [OF i(3) len see i(4)] c(6) [rule_format, OF kReverse]
      by (intro forward_at [where q = q']) auto
    then show ?thesis
      using c(4) kReverse op(1) below.valid [OF i(2)] q' Suc by (simp add: DBIter_Next_def)
  qed
qed

lemma Prev_at:
  assumes "at": "db_at u s kvs made at d p" and p: "p < length (user_view u s kvs)"
  shows "\<exists>d'. DBIter_Prev it u n d = Ret d' \<and> db_at u s kvs made at d' (back_pos (user_view u s kvs) p)"
proof -
  obtain c where c: "shown u s kvs c" "p = rank u s kvs c" "db_made made s d" "db_valid d"
      "db_direction d = kForward \<longrightarrow> at (db_iter d) c"
      "db_direction d = kReverse \<longrightarrow> saved_key d = ukey kvs c \<and> saved_value d = snd (kvs ! c) \<and> stands_before u s kvs at c (db_iter d)"
    by (rule db_at_forward [OF "at" p])
  have len: "c < length kvs" and see: "seen s (kvs ! c)" using c(1) by (simp_all add: shown_def)
  show ?thesis
  proof (cases "db_direction d")
    case kForward
    let ?d = "d\<lparr>saved_key := ukey kvs c\<rparr>"
    have key: "ExtractUserKey (it_key it (db_iter d)) = ukey kvs c"
      using below.entry [OF c(5) [rule_format, OF kForward] len] entry_parts(2) [OF len] by simp
    have "c < n" using len fuel by simp
    then obtain changed i where i: "prev_key it u n ?d = Ret (changed, ?d\<lparr>db_iter := i\<rparr>)" "made i"
        "if changed then \<exists>q' < c. at i q' \<and> (\<forall>j. q' < j \<and> j < c \<longrightarrow> \<not> Compare u (ukey kvs j) (ukey kvs c) < 0)
         else \<forall>j < c. \<not> Compare u (ukey kvs j) (ukey kvs c) < 0"
      using prev_key_at [of ?d c c n] c(5) [rule_format, OF kForward] len by auto
    have hid: "\<not> shown u s kvs j" if j: "j < c" "\<not> Compare u (ukey kvs j) (ukey kvs c) < 0" for j
    proof
      assume sh: "shown u s kvs j"
      have "Compare u (ukey kvs j) (ukey kvs c) = 0" using uk_le [of j c] j len by simp
      then show False using not_shown_seen [of j c] sh j(1) c(1) by (simp add: shown_def)
    qed
    show ?thesis
    proof (cases changed)
      case True
      then obtain q' where q': "q' < c" "at i q'" "\<forall>j. q' < j \<and> j < c \<longrightarrow> \<not> Compare u (ukey kvs j) (ukey kvs c) < 0"
        using i(3) by auto
      have "\<exists>d'. FindPrevUserEntry it u n ((?d\<lparr>db_iter := i\<rparr>)\<lparr>db_direction := kReverse\<rparr>) = Ret d' \<and>
          db_at u s kvs made at d' (back_pos (user_view u s kvs) (rank u s kvs c))"
        using c(3) i(2) q' hid len by (intro FindPrevUserEntry_at) (auto simp: db_made_def db_same_def)
      then show ?thesis using c(2,4) kForward key i(1) True by (simp add: DBIter_Prev_def)
    next
      case False
      then have "rank u s kvs c = rank u s kvs 0" using i(3) hid by (intro rank_same) auto
      then show ?thesis
        using c(2,3,4) kForward key i(1,2) False
        by (simp add: DBIter_Prev_def db_at_def db_made_def db_same_def ClearSavedValue_def back_pos_def)
    qed
  next
    case kReverse
    obtain q where q: "at (db_iter d) q" "q = length kvs \<and> (\<forall>j < c. \<not> seen s (kvs ! j)) \<or>
         q < c \<and> Compare u (ukey kvs q) (ukey kvs c) < 0 \<and> (\<forall>j. q < j \<and> j < c \<longrightarrow> \<not> seen s (kvs ! j))"
      using c(6) [rule_format, OF kReverse] by (auto simp: stands_before_def)
    have hid: "\<not> seen s (kvs ! j) \<Longrightarrow> \<not> shown u s kvs j" for j by (simp add: shown_def)
    have "\<exists>d'. FindPrevUserEntry it u n d = Ret d' \<and> db_at u s kvs made at d' (back_pos (user_view u s kvs) (rank u s kvs c))"
      using q(2)
    proof
      assume end': "q = length kvs \<and> (\<forall>j < c. \<not> seen s (kvs ! j))"
      then have "rank u s kvs c = rank u s kvs 0" using hid by (intro rank_same) auto
      then show ?thesis
        using FindPrevUserEntry_at [OF c(3) kReverse, of 0] below.valid [OF q(1)] end' by simp
    next
      assume "q < c \<and> Compare u (ukey kvs q) (ukey kvs c) < 0 \<and> (\<forall>j. q < j \<and> j < c \<longrightarrow> \<not> seen s (kvs ! j))"
      then show ?thesis
        using q(1) hid len by (intro FindPrevUserEntry_at [OF c(3) kReverse]) auto
    qed
    then show ?thesis using c(2,4) kReverse by (simp add: DBIter_Prev_def)
  qed
qed

lemma db_iterator:
  "iterator (DBIter it u n) (Compare u) (target_ok key_ok) (user_view u s kvs) (db_made made s) (db_at u s kvs made at)"
proof
  fix d p
  assume "at": "db_at u s kvs made at d p"
  show "db_made made s d" using "at" by (simp add: db_at_def)
  show "it_Valid (DBIter it u n) d \<longleftrightarrow> p < length (user_view u s kvs)"
    using "at" rank_nth(1) by (auto simp: db_at_def DBIter_def split: if_splits)
  show "p \<le> length (user_view u s kvs)" using "at" rank_nth(1) by (fastforce simp: db_at_def split: if_splits)
  assume p: "p < length (user_view u s kvs)"
  obtain c where c: "shown u s kvs c" "p = rank u s kvs c" "db_made made s d" "db_valid d"
      "db_direction d = kForward \<longrightarrow> at (db_iter d) c"
      "db_direction d = kReverse \<longrightarrow> saved_key d = ukey kvs c \<and> saved_value d = snd (kvs ! c) \<and> stands_before u s kvs at c (db_iter d)"
    by (rule db_at_forward [OF "at" p])
  have len: "c < length kvs" using c(1) by (simp add: shown_def)
  show "it_key (DBIter it u n) d = fst (user_view u s kvs ! p) \<and> it_value (DBIter it u n) d = snd (user_view u s kvs ! p)"
    using c(5,6) rank_nth(2) [OF c(1)] c(2) below.entry [of "db_iter d" c] len entry_parts(2) [OF len]
    by (cases "db_direction d") (auto simp: DBIter_def)
  show "\<exists>d'. it_Next (DBIter it u n) d = Ret d' \<and> db_at u s kvs made at d' (Suc p)"
    using Next_at [OF "at" p] by (simp add: DBIter_def)
  show "\<exists>d'. it_Prev (DBIter it u n) d = Ret d' \<and> db_at u s kvs made at d' (if p = 0 then length (user_view u s kvs) else p - 1)"
    using Prev_at [OF "at" p] by (simp add: DBIter_def back_pos_def)
next
  fix d t
  assume made: "db_made made s d"
  show "it_status (DBIter it u n) d = OK" using made below.status by (simp add: DBIter_def db_made_def db_same_def ok_def OK_def)
  show "\<exists>d'. it_SeekToFirst (DBIter it u n) d = Ret d' \<and> db_at u s kvs made at d' 0"
    using SeekToFirst_at [OF made] by (simp add: DBIter_def)
  show "\<exists>d'. it_SeekToLast (DBIter it u n) d = Ret d' \<and> db_at u s kvs made at d' (length (user_view u s kvs) - 1)"
    using SeekToLast_at [OF made] by (simp add: DBIter_def)
  assume "target_ok key_ok t"
  then show "\<exists>d'. it_Seek (DBIter it u n) t d = Ret d' \<and> db_at u s kvs made at d' (lower_bound (Compare u) t (user_view u s kvs))"
    using Seek_at [OF made] by (simp add: DBIter_def)
qed

lemma new_db_made: "made i \<Longrightarrow> db_made made s (new_DBIter i s seed)"
  using Random_Next_mod(2) [OF good_new_Random]
  by (simp add: db_made_def db_same_def new_DBIter_def RandomPeriod_def Uniform_def Let_def)

end

text \<open>
  C2. What a user iterates over. Over any iterator that meets the contract for a sorted list of internal
  keys, the iterator of the database meets it for the list of the entries that the snapshot shows:
  for each user key the newest entry that is not newer than the snapshot, unless it is a deletion.
  It can be moved in both directions, with turns anywhere, and scans read exactly this list.
\<close>

theorem db_iter_iterates:
  fixes seed :: "32 word"
  assumes "comparator u key_ok" and "iterator it (internal_compare u) (seek_ok key_ok) kvs made at"
    and "sorted_entries (internal_compare u) (seek_ok key_ok) kvs" and "\<And>x. x \<in> set kvs \<Longrightarrow> ParseInternalKey (fst x) \<noteq> None"
    and "valid_seq s" and "length kvs < n" and "made i" and "target_ok key_ok t" and "length (user_view u s kvs) < m"
  defines "D \<equiv> DBIter it u n" and "x \<equiv> new_DBIter i s seed"
  shows "(\<exists>made' at'. iterator D (Compare u) (target_ok key_ok) (user_view u s kvs) made' at' \<and> made' x) \<and>
    run_bind (it_SeekToFirst D x) (scan D m) = Ret (user_view u s kvs) \<and>
    run_bind (it_Seek D t x) (scan D m) = Ret (dropWhile (\<lambda>(k, _). Compare u k t < 0) (user_view u s kvs)) \<and>
    run_bind (it_SeekToLast D x) (scan_back D m) = Ret (rev (user_view u s kvs))"
proof -
  have db: "db_iterating u key_ok it kvs made at s n"
    using assms(1-6) by (intro db_iterating.intro db_iterating_axioms.intro) (auto simp: user_comparator_def)
  note D = db_iterating.db_iterator [OF db, folded D_def]
  have x: "db_made made s x" unfolding x_def by (rule db_iterating.new_db_made [OF db assms(7)])
  show ?thesis
    using D x iterator.scan_all [OF D x assms(9)] iterator.scan_from [OF D x assms(8,9)] iterator.scan_back_all [OF D x assms(9)]
    by blast
qed

section \<open>The database in memory\<close>

text \<open>The entries of memtables, with the states of the iterator over them.\<close>

type_synonym mem_db = "(bytes \<times> bytes) list \<times> (mem_iter merged \<Rightarrow> bool) \<times> (mem_iter merged \<Rightarrow> nat \<Rightarrow> bool)"

definition mem_db_ok :: "Comparator \<Rightarrow> (bytes \<Rightarrow> bool) \<Rightarrow> MemTable list \<Rightarrow> mem_add list list \<Rightarrow> mem_db \<Rightarrow> bool" where
  "mem_db_ok u key_ok ms addss x \<longleftrightarrow>
     (case x of (kvs, made, at) \<Rightarrow>
        iterator (MemTables u) (internal_compare u) (seek_ok key_ok) kvs made at \<and>
        sorted_entries (internal_compare u) (seek_ok key_ok) kvs \<and>
        (\<forall>x \<in> set kvs. ParseInternalKey (fst x) \<noteq> None) \<and>
        (mems_rep u key_ok ms addss \<longrightarrow> mset kvs = mset (map add_entry (concat addss)) \<and> made (open_MemTables u ms)))"

definition mem_db :: "Comparator \<Rightarrow> (bytes \<Rightarrow> bool) \<Rightarrow> MemTable list \<Rightarrow> mem_add list list \<Rightarrow> mem_db" where
  "mem_db u key_ok ms addss = (SOME x. mem_db_ok u key_ok ms addss x)"

lemma entry_key_add: "good_add key_ok a \<Longrightarrow> ParseInternalKey (fst (add_entry a)) = Some (fst a) \<and> entry_key (add_entry a) = fst a"
proof -
  assume "good_add key_ok a"
  then have "valid_seq (add_seq a)" "type (fst a) \<le> kTypeValue" by (auto simp: good_add_def)
  note trip = internal_key_roundtrip [OF this, of "user_key (fst a)" "[]"]
  have "\<lparr>user_key = user_key (fst a), sequence = add_seq a, type = type (fst a)\<rparr> = fst a" by simp
  from trip [unfolded this] have "ParseInternalKey (fst (add_entry a)) = Some (fst a)" by (simp add: add_entry_def encode_key_def)
  then show ?thesis by (simp add: entry_key_def)
qed

lemma mems_good: "mems_rep u key_ok ms addss \<Longrightarrow> a \<in> set (concat addss) \<Longrightarrow> good_add key_ok a"
proof -
  assume rep: "mems_rep u key_ok ms addss" and a: "a \<in> set (concat addss)"
  obtain as where as: "as \<in> set addss" "a \<in> set as" using a by auto
  then obtain j where "j < length addss" "addss ! j = as" by (meson in_set_conv_nth)
  then have "j < length addss" "a \<in> set (addss ! j)" using as(2) by simp_all
  then show ?thesis using rep by (auto simp: mems_rep_def mem_rep_def list_all_iff)
qed

context user_comparator
begin

lemma mem_db: "mem_db_ok u ok ms addss (mem_db u ok ms addss)"
proof (cases "mems_rep u ok ms addss")
  case True
  obtain kvs made at' where x: "sorted_entries (internal_compare u) (seek_ok ok) kvs" "mset kvs = mset (map add_entry (concat addss))"
      "iterator (MemTables u) (internal_compare u) (seek_ok ok) kvs made at'" "made (open_MemTables u ms)"
    using MemTables_iterator [OF True] by blast
  have "set kvs = add_entry ` set (concat addss)" using mset_eq_setD [OF x(2)] by simp
  then have "ParseInternalKey (fst y) \<noteq> None" if y: "y \<in> set kvs" for y
  proof -
    obtain a where "a \<in> set (concat addss)" "y = add_entry a" using y \<open>set kvs = _\<close> by blast
    then show ?thesis using entry_key_add [OF mems_good [OF True, of a]] by simp
  qed
  then have "mem_db_ok u ok ms addss (kvs, made, at')" using x by (simp add: mem_db_ok_def)
  then show ?thesis unfolding mem_db_def by (rule someI)
next
  case False
  have "iterator (MemTables u) (internal_compare u) (seek_ok ok) [] (\<lambda>_. False) (\<lambda>_ _. False)"
    by unfold_locales simp_all
  then have "mem_db_ok u ok ms addss ([], \<lambda>_. False, \<lambda>_ _. False)" using False by (simp add: mem_db_ok_def sorted_entries_def)
  then show ?thesis unfolding mem_db_def by (rule someI)
qed

lemma mem_db_iterating:
  "db_iterating u ok (MemTables u) (fst (mem_db u ok ms addss)) (fst (snd (mem_db u ok ms addss))) (snd (snd (mem_db u ok ms addss)))
     (min s kMaxSequenceNumber) (n + Suc (length (fst (mem_db u ok ms addss))))"
proof -
  obtain kvs made at' where x: "mem_db u ok ms addss = (kvs, made, at')" by (metis prod_cases3)
  show ?thesis
    using mem_db [of ms addss] user_comparator_axioms
    by (intro db_iterating.intro db_iterating_axioms.intro) (auto simp: x mem_db_ok_def valid_seq_def)
qed

end

interpretation mem_database: db_iterating BytewiseComparator "\<lambda>_. True" "MemTables BytewiseComparator"
  "fst (mem_db BytewiseComparator (\<lambda>_. True) ms addss)" "fst (snd (mem_db BytewiseComparator (\<lambda>_. True) ms addss))"
  "snd (snd (mem_db BytewiseComparator (\<lambda>_. True) ms addss))" "min s kMaxSequenceNumber"
  "n + Suc (length (fst (mem_db BytewiseComparator (\<lambda>_. True) ms addss)))" for ms addss s n
  by (rule bytewise_keys.mem_db_iterating)

section \<open>What the database answers\<close>

definition newest_visible :: "Comparator \<Rightarrow> SequenceNumber \<Rightarrow> mem_add list \<Rightarrow> mem_add \<Rightarrow> bool" where
  "newest_visible u s adds a \<longleftrightarrow>
     a \<in> set adds \<and> add_seq a \<le> s \<and>
     (\<forall>b \<in> set adds. Compare u (user_key (fst b)) (user_key (fst a)) = 0 \<and> add_seq b \<le> s \<longrightarrow> add_seq b \<le> add_seq a)"

context user_comparator
begin

lemma user_view_sorted:
  assumes "db_iterating u ok it kvs made at s n"
  shows "sorted_wrt (\<lambda>x y. Compare u (fst x) (fst y) < 0) (user_view u s kvs)"
proof -
  note db = db_iterating.uk_le [OF assms] db_iterating.entry_parts(3) [OF assms]
  have "Compare u (ukey kvs i) (ukey kvs j) < 0" if "shown u s kvs i" "shown u s kvs j" "i < j" for i j
    using that db(1) [of i j] by (fastforce simp: shown_def)
  moreover have "sorted_wrt (<) (filter (shown u s kvs) [0..<length kvs])" by (simp add: sorted_wrt_filter strict_sorted_iff)
  then have "sorted_wrt (\<lambda>i j. i < j \<and> shown u s kvs i \<and> shown u s kvs j) (filter (shown u s kvs) [0..<length kvs])"
    by (rule sorted_wrt_mono_rel [rotated]) auto
  ultimately show ?thesis unfolding user_view_def sorted_wrt_map
    by (auto elim!: sorted_wrt_mono_rel [rotated])
qed

lemma user_view_entries:
  assumes db: "db_iterating u ok it kvs made at s n"
    and adds: "mset kvs = mset (map add_entry adds)" and good: "\<And>a. a \<in> set adds \<Longrightarrow> good_add ok a"
    and seqs: "distinct (map add_seq adds)"
  shows "set (user_view u s kvs) =
    {(user_key (fst a), snd a) | a. newest_visible u s adds a \<and> type (fst a) = kTypeValue}"
proof -
  have set: "set kvs = add_entry ` set adds" using mset_eq_setD [OF adds] by simp
  have "distinct kvs"
    using sorted_entries_distinct [OF seek_order] db_iterating.sorted [OF db] by blast
  have inj: "a = b" if "a \<in> set adds" "b \<in> set adds" "add_seq a = add_seq b" for a b
    using that seqs by (simp add: distinct_map inj_on_def)
  have "\<forall>i. \<exists>a. i < length kvs \<longrightarrow> a \<in> set adds \<and> kvs ! i = add_entry a"
  proof
    fix i
    have "i < length kvs \<Longrightarrow> kvs ! i \<in> add_entry ` set adds" unfolding set [symmetric] by (rule nth_mem)
    then show "\<exists>a. i < length kvs \<longrightarrow> a \<in> set adds \<and> kvs ! i = add_entry a" by blast
  qed
  from choice [OF this] obtain f where f0: "\<forall>i. i < length kvs \<longrightarrow> f i \<in> set adds \<and> kvs ! i = add_entry (f i)" ..
  then have f: "\<And>i. i < length kvs \<Longrightarrow> f i \<in> set adds \<and> kvs ! i = add_entry (f i)" by blast
  have key: "entry_key (kvs ! i) = fst (f i)" "snd (kvs ! i) = snd (f i)" if "i < length kvs" for i
  proof -
    have "f i \<in> set adds" and eq: "kvs ! i = add_entry (f i)" using f [OF that] by blast+
    then show "entry_key (kvs ! i) = fst (f i)" "snd (kvs ! i) = snd (f i)"
      using entry_key_add [OF good [of "f i"]] unfolding eq by (simp_all add: add_entry_def)
  qed
  have gok: "ok (user_key (fst a))" if "a \<in> set adds" for a
    using good [OF that] by (simp add: good_add_def case_prod_unfold)
  have onto: "\<exists>i < length kvs. f i = a" if a: "a \<in> set adds" for a
  proof -
    have "add_entry a \<in> set kvs" unfolding set using a by (rule imageI)
    then obtain i where i: "i < length kvs" "kvs ! i = add_entry a" by (auto simp: in_set_conv_nth)
    then have "fst (f i) = fst a" using key(1) [OF i(1)] entry_key_add [OF good [OF a]] by simp
    then have "f i = a" using inj [of "f i" a] f [OF i(1)] a by simp
    then show ?thesis using i(1) by blast
  qed
  have newer: "add_seq (f j) < add_seq (f i)"
    if ij: "i < j" "j < length kvs" and zero: "Compare u (user_key (fst (f i))) (user_key (fst (f j))) = 0" for i j
  proof -
    have i: "i < length kvs" using ij by simp
    have g: "good_add ok (f i)" "good_add ok (f j)" using f [OF i] f [OF ij(2)] good by simp_all
    have "internal_compare u (fst (kvs ! i)) (fst (kvs ! j)) < 0"
      using db_iterating.sorted [OF db] ij by (auto simp: sorted_entries_def sorted_wrt_iff_nth_less)
    then have "add_pack (f j) < add_pack (f i)"
      using f [OF i] f [OF ij(2)] zero by (simp add: add_entry_def encode_key_append internal_compare_suffixed split: if_splits)
    then have "add_seq (f j) \<le> add_seq (f i)"
      using pack_less [of "add_seq (f j)" "add_seq (f i)"] g by (auto simp: good_add_def)
    moreover have "f i \<noteq> f j" using f [OF i] f [OF ij(2)] \<open>distinct kvs\<close> ij by (metis nat_neq_iff nth_eq_iff_index_eq i)
    then have "add_seq (f j) \<noteq> add_seq (f i)" using inj f [OF i] f [OF ij(2)] by metis
    ultimately show ?thesis by simp
  qed
  have "shown u s kvs i \<longleftrightarrow> newest_visible u s adds (f i) \<and> type (fst (f i)) = kTypeValue" if i: "i < length kvs" for i
  proof
    assume sh: "shown u s kvs i"
    have "add_seq b \<le> add_seq (f i)"
      if b: "b \<in> set adds" "Compare u (user_key (fst b)) (user_key (fst (f i))) = 0" "add_seq b \<le> s" for b
    proof -
      obtain j where j: "j < length kvs" "f j = b" using onto [OF b(1)] by blast
      have "\<not> j < i" using sh b j key(1) [OF i] key(1) [OF j(1)] by (auto simp: shown_def seen_def)
      moreover have "Compare u (user_key (fst (f i))) (user_key (fst b)) = 0"
        using b(2) user.compare_zero [of "user_key (fst b)" "user_key (fst (f i))"] gok [OF b(1)] gok [of "f i"] f [OF i]
        by simp
      ultimately show ?thesis using newer [of i j] j by (cases "i = j") auto
    qed
    then show "newest_visible u s adds (f i) \<and> type (fst (f i)) = kTypeValue"
      using sh key(1) [OF i] f [OF i] by (auto simp: newest_visible_def shown_def seen_def)
  next
    assume new: "newest_visible u s adds (f i) \<and> type (fst (f i)) = kTypeValue"
    have "Compare u (ukey kvs j) (ukey kvs i) \<noteq> 0" if j: "j < i" "seen s (kvs ! j)" for j
    proof
      assume zero: "Compare u (ukey kvs j) (ukey kvs i) = 0"
      have len: "j < length kvs" using j i by simp
      have "add_seq (f j) \<le> add_seq (f i)"
        using new zero j(2) f [OF len] key(1) [OF len] key(1) [OF i] by (auto simp: newest_visible_def seen_def)
      then show False using newer [OF j(1) i] zero key(1) [OF len] key(1) [OF i] by simp
    qed
    then show "shown u s kvs i" using new i key(1) [OF i] by (auto simp: shown_def seen_def newest_visible_def)
  qed
  note shown = this
  have "set (user_view u s kvs) = (\<lambda>i. (user_key (fst (f i)), snd (f i))) ` {i. i < length kvs \<and> shown u s kvs i}"
    using key by (force simp: user_view_def image_iff)
  also have "\<dots> = {(user_key (fst a), snd a) | a. newest_visible u s adds a \<and> type (fst a) = kTypeValue}"
  proof (intro subset_antisym subsetI)
    fix x
    assume "x \<in> (\<lambda>i. (user_key (fst (f i)), snd (f i))) ` {i. i < length kvs \<and> shown u s kvs i}"
    then show "x \<in> {(user_key (fst a), snd a) | a. newest_visible u s adds a \<and> type (fst a) = kTypeValue}"
      using shown by blast
  next
    fix x
    assume "x \<in> {(user_key (fst a), snd a) | a. newest_visible u s adds a \<and> type (fst a) = kTypeValue}"
    then obtain a where a: "x = (user_key (fst a), snd a)" "newest_visible u s adds a" "type (fst a) = kTypeValue" by blast
    then obtain i where "i < length kvs" "f i = a" using onto [of a] by (auto simp: newest_visible_def)
    then show "x \<in> (\<lambda>i. (user_key (fst (f i)), snd (f i))) ` {i. i < length kvs \<and> shown u s kvs i}"
      using a shown by blast
  qed
  finally show ?thesis .
qed

end

text \<open>
  C8. The database in memory. The iterator of the database over the merged iterators of memtables
  reads, forwards and backwards, a list that is strictly sorted by the user comparator and that
  consists of the value of the newest visible addition of each user key, unless this is a deletion,
  whichever memtable an addition is in.
\<close>

theorem memory_database_view:
  fixes seed :: "32 word"
  assumes u: "comparator u key_ok" and rep: "mems_rep u key_ok ms addss" and s: "valid_seq s"
    and n: "length (concat addss) < n"
  defines "D \<equiv> DBIter (MemTables u) u n" and "x \<equiv> new_DBIter (open_MemTables u ms) s seed"
  shows "\<exists>view. sorted_wrt (\<lambda>x y. Compare u (fst x) (fst y) < 0) view \<and>
    set view = {(user_key (fst a), snd a) | a. newest_visible u s (concat addss) a \<and> type (fst a) = kTypeValue} \<and>
    run_bind (it_SeekToFirst D x) (scan D n) = Ret view \<and> run_bind (it_SeekToLast D x) (scan_back D n) = Ret (rev view)"
proof -
  have uc: "user_comparator u key_ok" using u by (simp add: user_comparator_def)
  obtain kvs made at' where m: "mem_db u key_ok ms addss = (kvs, made, at')" by (metis prod_cases3)
  have ok: "mem_db_ok u key_ok ms addss (kvs, made, at')"
    using user_comparator.mem_db [OF uc, of ms addss] by (simp add: m)
  then have kvs: "mset kvs = mset (map add_entry (concat addss))" and made: "made (open_MemTables u ms)"
    using rep by (simp_all add: mem_db_ok_def)
  have len: "length kvs < n" using n arg_cong [OF kvs, of size] by simp
  have db: "db_iterating u key_ok (MemTables u) kvs made at' s n"
    using ok uc s len by (intro db_iterating.intro db_iterating_axioms.intro) (auto simp: mem_db_ok_def)
  note D = db_iterating.db_iterator [OF db, folded D_def]
  have x: "db_made made s x" unfolding x_def by (rule db_iterating.new_db_made [OF db made])
  have fuel: "length (user_view u s kvs) < n"
    using len by (simp add: user_view_def le_less_trans [OF length_filter_le])
  have "distinct (map add_seq (concat addss))" using rep by (simp add: mems_rep_def)
  note entries = user_comparator.user_view_entries [OF uc db kvs mems_good [OF rep] this]
  show ?thesis
    using user_comparator.user_view_sorted [OF uc db] entries iterator.scan_all [OF D x fuel] iterator.scan_back_all [OF D x fuel]
    by blast
qed

theorem db_iter_iterates_witness:
  "\<exists>m. MemTable_Add_all BytewiseComparator example_adds1 new_MemTable = Some m \<and>
     run_bind (it_SeekToFirst (DBIter (MemTableIterator BytewiseComparator) BytewiseComparator 2)
         (new_DBIter (MemTable_NewIterator m) 7 301))
       (scan (DBIter (MemTableIterator BytewiseComparator) BytewiseComparator 2) 2) = Ret [([1], [10])]"
proof -
  let ?u = BytewiseComparator and ?e = "add_entry (hd example_adds1)" and ?ok = "\<lambda>_. True"
  obtain m where m: "MemTable_Add_all ?u example_adds1 new_MemTable = Some m" "mem_rep ?u ?ok m example_adds1"
    by (rule bytewise_MemTable [OF example_adds_good(1)]) (simp add: example_adds1_def)
  have adds: "map add_entry example_adds1 = [?e]" by (simp add: example_adds1_def)
  have single: "kvs = [e]" if "mset kvs = mset [e]" for kvs and e :: "bytes \<times> bytes" using that by simp
  obtain ns where i: "iterator (MemTableIterator ?u) (internal_compare ?u) (seek_ok ?ok) [?e] (\<lambda>i. fst i = m) (mem_at m ns)"
      and sorted: "sorted_entries (internal_compare ?u) (seek_ok ?ok) [?e]"
    using bytewise_keys.MemTable_iterator [OF m(2)] unfolding adds by (metis single)
  have good: "good_add ?ok (hd example_adds1)" using example_adds_good(1) by (simp add: example_adds1_def)
  have parse: "ParseInternalKey (fst ?e) = Some (fst (hd example_adds1))" "entry_key ?e = fst (hd example_adds1)"
    using entry_key_add [OF good] by simp_all
  have view: "user_view ?u 7 [?e] = [([1], [10])]"
    using parse(2) by (simp add: user_view_def shown_def seen_def example_adds1_def add_entry_def)
  have "run_bind (it_SeekToFirst (DBIter (MemTableIterator ?u) ?u 2) (new_DBIter (MemTable_NewIterator m) 7 301))
      (scan (DBIter (MemTableIterator ?u) ?u 2) 2) = Ret (user_view ?u 7 [?e])"
  proof (rule db_iter_iterates [OF _ i sorted, THEN conjunct2, THEN conjunct1])
    show "comparator ?u ?ok" by (rule bytewise.comparator_axioms)
    show "valid_seq 7" by (simp add: valid_seq_unat)
    show "target_ok ?ok []" by (simp add: target_ok_def)
    show "length (user_view ?u 7 [?e]) < 2" by (simp only: view) simp
  qed (use parse in \<open>simp_all add: MemTable_NewIterator_def\<close>)
  then show ?thesis using m(1) view by auto
qed

text \<open>A key that is deleted in the second memtable, for a snapshot behind and one before the deletion.\<close>

definition example_old :: "mem_add list" where
  "example_old = [(\<lparr>user_key = [1], sequence = 1, type = kTypeValue\<rparr>, [10]), (\<lparr>user_key = [2], sequence = 3, type = kTypeValue\<rparr>, [20])]"

definition example_new :: "mem_add list" where
  "example_new = [(\<lparr>user_key = [1], sequence = 5, type = kTypeDeletion\<rparr>, [])]"

theorem memory_database_view_witness:
  "\<exists>m1 m2. MemTable_Add_all BytewiseComparator example_old new_MemTable = Some m1 \<and>
     MemTable_Add_all BytewiseComparator example_new new_MemTable = Some m2 \<and>
     run_bind (it_SeekToFirst (DBIter (MemTables BytewiseComparator) BytewiseComparator 4)
         (new_DBIter (open_MemTables BytewiseComparator [m1, m2]) 5 301))
       (scan (DBIter (MemTables BytewiseComparator) BytewiseComparator 4) 4) = Ret [([2], [20])]"
proof -
  let ?u = BytewiseComparator and ?ok = "\<lambda>_. True"
  have good: "list_all (good_add ?ok) example_old" "list_all (good_add ?ok) example_new"
    by (simp_all add: example_old_def example_new_def good_add_def valid_seq_unat kTypeValue_def kTypeDeletion_def)
  obtain m1 where m1: "MemTable_Add_all ?u example_old new_MemTable = Some m1" "mem_rep ?u ?ok m1 example_old"
    by (rule bytewise_MemTable [OF good(1)]) (simp add: example_old_def)
  obtain m2 where m2: "MemTable_Add_all ?u example_new new_MemTable = Some m2" "mem_rep ?u ?ok m2 example_new"
    by (rule bytewise_MemTable [OF good(2)]) (simp add: example_new_def)
  let ?adds = "concat [example_old, example_new]"
  have rep: "mems_rep ?u ?ok [m1, m2] [example_old, example_new]"
    using m1(2) m2(2) by (auto simp: mems_rep_def less_Suc_eq example_old_def example_new_def)
  have seq: "valid_seq 5" by (simp add: valid_seq_unat)
  have n: "length ?adds < 4" by (simp add: example_old_def example_new_def)
  obtain view where view: "sorted_wrt (\<lambda>x y. Compare ?u (fst x) (fst y) < 0) view"
      "set view = {(user_key (fst a), snd a) | a. newest_visible ?u 5 ?adds a \<and> type (fst a) = kTypeValue}"
      "run_bind (it_SeekToFirst (DBIter (MemTables ?u) ?u 4) (new_DBIter (open_MemTables ?u [m1, m2]) 5 301))
         (scan (DBIter (MemTables ?u) ?u 4) 4) = Ret view"
    using memory_database_view [OF bytewise.comparator_axioms rep seq n, where seed = 301] by blast
  have "newest_visible ?u 5 ?adds a \<and> type (fst a) = kTypeValue \<longleftrightarrow> a = (\<lparr>user_key = [2], sequence = 3, type = kTypeValue\<rparr>, [20])" for a
    by (auto simp: newest_visible_def example_old_def example_new_def kTypeValue_def kTypeDeletion_def slice_compare_zero word_le_nat_alt)
  then have set: "set view = {([2], [20])}" unfolding view(2) by auto
  moreover have "distinct view"
  proof -
    have "Compare ?u a a = 0" for a by (simp add: slice_compare_zero)
    then show ?thesis using view(1) unfolding distinct_conv_nth sorted_wrt_iff_nth_less by (metis less_irrefl nat_neq_iff)
  qed
  ultimately have "view = [([2], [20])]" by (cases view; cases "tl view") auto
  then show ?thesis using m1(1) m2(1) view(3) by auto
qed

end
