(* ===== verification/Spec2Isabelle.thy ===== *)
theory Spec2Isabelle
  imports PbRequired PbWire PbEncodeSpec LdbFilterBlock LdbLogReader LdbWriteBatch LdbTable
    LdbFileName LdbVersionEdit LdbTableCache LdbVersionGet LdbVersionSteps LdbDBIter
begin

text \<open>
  The C and C++ code of this repository that has logic of its own is in two libraries under
  \<^verbatim>\<open>src/BabylonHealthDemo/Pods\<close>: nanopb (protocol buffers) and leveldb-library (a sorted
  key-value store). The development models them component by component; every definition has the
  name of the function, class or field it translates where Isabelle allows it.

  \<^bold>\<open>Shared.\<close> \<open>Prelude\<close> holds bytes, little-endian numbers, seven-bit groups and the locale
  \<open>codec\<close> of wire formats, which both libraries interpret for their formats. \<open>Outcome\<close> holds
  results of code that can meet undefined behaviour (\<open>Undef\<close>) or that is given fuel (\<open>NoFuel\<close>).
  \<open>CMemory\<close> is the memory behind the pointers of nanopb.

  \<^bold>\<open>nanopb.\<close> A message is described by an array of field descriptors (\<open>PbTypes\<close>), walked by an
  iterator (\<open>PbCommon\<close>, \<^verbatim>\<open>pb_common.c\<close>). Decoding reads an input stream (\<open>PbIStream\<close>)
  field by field into a structure in memory (\<open>PbDecode\<close>, \<^verbatim>\<open>pb_decode.c\<close>); encoding is the
  reverse (\<open>PbOStream\<close>, \<open>PbEncode\<close>, \<^verbatim>\<open>pb_encode.c\<close>). \<open>PbWire\<close> proves writers against
  readers, \<open>PbDecodeFrame\<close> that decoding writes only inside the structure, \<open>PbDecodeTotal\<close> that it
  returns, \<open>PbRequired\<close> what the check of required fields ensures, \<open>PbEncodeSpec\<close> that the encoder
  implements a pure function from messages to bytes. Recursion through submessages takes fuel; the
  bytes left in the stream plus the nesting depth of the descriptors are enough, because every
  round of a loop consumes input. Pointer fields (\<open>PB_ENABLE_MALLOC\<close>) are not compiled into this
  build and are not modelled, nor is \<open>pb_release\<close>.

  \<^bold>\<open>LevelDB, the bottom layer.\<close> Numbers and slices (\<open>LdbCoding\<close>), comparators with their
  contract as the locales \<open>key_order\<close> and \<open>comparator\<close> (\<open>LdbComparator\<close>), internal keys
  (\<open>LdbFormat\<close>), the CRC (\<open>LdbCrc\<close>), Bloom filters and the hash (\<open>LdbBloom\<close>), filter blocks
  (\<open>LdbFilterBlock\<close>), status values (\<open>LdbStatus\<close>), files whose system calls are parameters
  (\<open>LdbEnv\<close>, \<open>LdbPosixEnv\<close>), numbers in names and logs (\<open>LdbLogging\<close>) and file names
  (\<open>LdbFileName\<close>). \<open>LdbCache\<close> is the sharded LRU cache with its reference counts: its invariant
  says which lists an entry is on and what its count is, and the lookup theorems that a cached value
  is what was inserted last under its key.

  \<^bold>\<open>LevelDB, writes.\<close> The write-ahead log (\<open>LdbLogWriter\<close>, \<open>LdbLogReader\<close>: what was written is
  read back), the skip list with its random heights (\<open>LdbRandom\<close>, \<open>LdbSkipList\<close>), the memtable
  (\<open>LdbMemTable\<close>), write batches (\<open>LdbWriteBatch\<close>) and the edits of the version log
  (\<open>LdbVersionEdit\<close>).

  \<^bold>\<open>LevelDB, reads.\<close> The iterator interface and its contract, the locale over a list of entries
  that every iterator meets, are in \<open>LdbIterator\<close>. Blocks and their iterator (\<open>LdbBlock\<close>), the
  formats of a table file (\<open>LdbTableFormat\<close>), the iterator over an index and the blocks it names
  (\<open>LdbTwoLevel\<close>), the table writer and reader (\<open>LdbTableBuilder\<close>, \<open>LdbTable\<close>), the iterator of a
  memtable (\<open>LdbMemIter\<close>), the merge of several iterators (\<open>LdbMerger\<close>) and the iterator of the
  database, which shows the newest visible entry of each user key (\<open>LdbDBIter\<close>). The lemmas of
  these theories compose: a merge of memtables meets the iterator contract for the sorted union of
  their entries, and the database iterator over it shows the map from user keys to values that the
  entries up to the snapshot describe.

  \<^bold>\<open>LevelDB, tables and versions.\<close> \<open>LdbTableCache\<close> opens tables through the environment and
  keeps them in the LRU cache; its locale \<open>table_store\<close> says what the files under the directory
  hold. \<open>LdbVersion\<close> holds the sets of files per level and the searches in them
  (\<^verbatim>\<open>db/version_set.cc\<close>, class Version): the overlap of ranges, the inputs of a compaction, the
  level of a new table, the accounting of seeks. \<open>LdbVersionGet\<close> is the lookup through the files of a
  version over any provider of table lookups (locale \<open>table_reads\<close>, which the table cache is shown to
  meet), and proves that it finds the newest entry.

  \<^bold>\<open>Bounds and fuel.\<close> The reader of the log takes as many rounds as there are bytes; loops over
  links of the skip list are \<open>partial_function\<close>s that are shown to return; the loop that samples
  reads in the database iterator is a \<open>while_option\<close> shown to end.

  \<^bold>\<open>Not modelled.\<close> Of LevelDB: the database object itself (\<^verbatim>\<open>db/db_impl.cc\<close>: threads,
  condition variables and background work over the components above), its recovery and repair
  (\<^verbatim>\<open>db/repair.cc\<close>, \<^verbatim>\<open>db/builder.cc\<close>),
  the option of a block cache in \<^verbatim>\<open>table/table.cc\<close>, the arena (allocation has no failure in the
  model), the list of snapshots, the C binding (\<^verbatim>\<open>db/c.cc\<close>, conversions of arguments), the
  ports of threads and atomic pointers (\<^verbatim>\<open>port/\<close>), the benchmark, histogram, logger, dump tools and
  tests. Of nanopb: pointer fields and \<^verbatim>\<open>pb_release\<close>. Outside these libraries: the Swift
  application, the headers of the binary Firebase frameworks, the zlib wrapper of
  GoogleToolboxForMac and the user interface component SVProgressHUD.
\<close>

end
